(* ===== verification/Ys_Prelude.thy ===== *)
theory Ys_Prelude
  imports Main "HOL-Library.Word"
begin

unbundle bit_operations_syntax

text \<open>
  The prelude of the development: the types every component shares, the shape of a C++
  member function that may throw, and the generic lemmas on lists, words and slices of byte
  buffers that the component theories use.
\<close>

section \<open>Types\<close>

type_synonym byte = "8 word"

text \<open>
  A member function reads and replaces the state of its object (and of the environment the
  object lives in) and either returns a value or throws. What was changed before a throw
  stays changed, so the state is returned on both branches.
\<close>

type_synonym ('s, 'e, 'a) action = "'s \<Rightarrow> ('e + 'a) \<times> 's"

definition return_with :: "'a \<Rightarrow> ('s, 'e, 'a) action" where
  "return_with a = (\<lambda>s. (Inr a, s))"

definition throw :: "'e \<Rightarrow> ('s, 'e, 'a) action" where
  "throw e = (\<lambda>s. (Inl e, s))"

definition and_then :: "('s, 'e, 'a) action \<Rightarrow> ('a \<Rightarrow> ('s, 'e, 'b) action) \<Rightarrow> ('s, 'e, 'b) action" where
  "and_then m f = (\<lambda>s. case m s of (Inl e, s') \<Rightarrow> (Inl e, s') | (Inr a, s') \<Rightarrow> f a s')"

text \<open>A value that is already there, or already an error.\<close>

definition lift_result :: "'e + 'a \<Rightarrow> ('s, 'e, 'a) action" where
  "lift_result r = (\<lambda>s. (r, s))"

lemma lift_result_apply [simp]: "lift_result r s = (r, s)"
  by (simp add: lift_result_def)

lemma and_then_apply:
  "m s = (Inr a, s') \<Longrightarrow> and_then m f s = f a s'" "m s = (Inl e, s') \<Longrightarrow> and_then m f s = (Inl e, s')"
  by (simp_all add: and_then_def)

lemma return_with_apply [simp]: "return_with a s = (Inr a, s)"
  by (simp add: return_with_def)

lemma throw_apply [simp]: "throw e s = (Inl e, s)"
  by (simp add: throw_def)

lemma and_then_return_with [simp]: "and_then (return_with a) f = f a"
  by (rule ext) (simp add: and_then_def)

lemma and_then_throw [simp]: "and_then (throw e) f = throw e"
  by (rule ext) (simp add: and_then_def)

lemma and_then_assoc:
  "and_then (and_then m f) g = and_then m (\<lambda>a. and_then (f a) g)"
  by (rule ext) (auto simp: and_then_def split: prod.splits sum.splits)

section \<open>C strings\<close>

text \<open>A \<^verbatim>\<open>char\<close> read as the signed number x86 compilers make of it.\<close>

definition schar :: "char \<Rightarrow> int" where
  "schar c = sint (of_char c :: byte)"

text \<open>The casts between \<^verbatim>\<open>char\<close> and \<^verbatim>\<open>std::uint8_t\<close>.\<close>

definition char_byte :: "char \<Rightarrow> byte" where
  "char_byte c = of_char c"

definition byte_char :: "byte \<Rightarrow> char" where
  "byte_char b = char_of (unat b)"

lemma nat_of_char_less: "of_char c < (256 :: nat)"
  by (metis nat_of_char_less_256)

lemma unat_of_char [simp]: "unat (of_char c :: byte) = of_char c"
proof -
  have "(of_char c :: byte) = of_nat (of_char c)" by (rule of_nat_of_char [symmetric])
  then show ?thesis using nat_of_char_less [of c] by (simp only: unat_of_nat) simp
qed

lemma byte_char_inverse [simp]: "byte_char (char_byte c) = c"
  by (simp add: byte_char_def char_byte_def)

lemma char_byte_inverse [simp]: "char_byte (byte_char b) = b"
proof -
  have "unat b < 2 ^ LENGTH(8)" by (rule unsigned_less)
  then have "unat (char_byte (byte_char b)) = unat b"
    by (simp add: byte_char_def char_byte_def)
  then show ?thesis by (simp only: unsigned_word_eqI)
qed

lemma schar_nonneg: 
  assumes "0 \<le> schar c" shows "schar c = int (of_char c)"
proof -
  have "sint (of_char c :: byte) < 2 ^ (LENGTH(8) - 1)" by (rule sint_lt)
  then have "schar c < 128" by (simp add: schar_def)
  moreover have "uint (of_char c :: byte) = take_bit LENGTH(8) (schar c)"
    unfolding schar_def by (rule uint_sint)
  ultimately have "uint (of_char c :: byte) = schar c"
    using assms by (simp add: take_bit_eq_mod)
  moreover have "uint (of_char c :: byte) = int (unat (of_char c :: byte))"
    by (rule uint_nat)
  ultimately show ?thesis by simp
qed

lemma schar_between:
  assumes "0 \<le> m" and "m \<le> schar c" and "schar c \<le> n"
  shows "c \<in> char_of ` {nat m .. nat n}"
proof -
  have "schar c = int (of_char c)" using assms by (intro schar_nonneg) simp
  then have "of_char c \<in> {nat m .. nat n}" using assms by (auto simp: nat_le_iff)
  then show ?thesis by (metis char_of_char imageI)
qed
lemma schar_simps [simp]: "schar CHR ''A'' = 65" "schar CHR ''Z'' = 90"
  "schar CHR ''a'' = 97" "schar CHR ''z'' = 122" "schar CHR ''0'' = 48" "schar CHR ''9'' = 57"
  "schar CHR ''f'' = 102" "schar CHR ''F'' = 70"
  by (simp_all add: schar_def)
section \<open>Slices of a buffer\<close>

text \<open>\<open>overwrite buf i xs\<close> overwrites the bytes of \<open>buf\<close> from index \<open>i\<close> with \<open>xs\<close>.\<close>

definition overwrite :: "'a list \<Rightarrow> nat \<Rightarrow> 'a list \<Rightarrow> 'a list" where
  "overwrite buf i xs = take i buf @ xs @ drop (i + length xs) buf"

lemma length_overwrite [simp]: "i + length xs \<le> length buf \<Longrightarrow> length (overwrite buf i xs) = length buf"
  by (simp add: overwrite_def)

lemma overwrite_Nil [simp]: "overwrite buf i [] = buf"
  by (simp add: overwrite_def)

lemma take_overwrite_le: "k \<le> i \<Longrightarrow> i \<le> length buf \<Longrightarrow> take k (overwrite buf i xs) = take k buf"
  by (simp add: overwrite_def min_def)

lemma drop_overwrite_ge:
  "i + length xs \<le> k \<Longrightarrow> i \<le> length buf \<Longrightarrow> drop k (overwrite buf i xs) = drop k buf"
  by (simp add: overwrite_def min_def)

lemma slice_overwrite [simp]:
  "i \<le> length buf \<Longrightarrow> take (length xs) (drop i (overwrite buf i xs)) = xs"
  by (simp add: overwrite_def min_def)

lemma overwrite_slice [simp]: "overwrite buf i (take n (drop i buf)) = buf"
proof -
  have "take n (drop i buf) @ drop (i + min (length buf - i) n) buf = drop i buf"
    by (cases "n \<le> length buf - i")
      (simp_all add: min_def add.commute [of i] flip: drop_drop)
  then show ?thesis
    by (simp add: overwrite_def)
qed

lemma list_update_overwrite: "i < length buf \<Longrightarrow> buf[i := x] = overwrite buf i [x]"
  by (simp add: overwrite_def upd_conv_take_nth_drop)

section \<open>Words\<close>

named_theorems byte_bits \<open>rewrites that turn masks of the C code into bit ranges\<close>

lemma and_3_take_bit [byte_bits]: "(w :: 'a::len word) AND 3 = take_bit 2 w"
  by (simp add: take_bit_eq_mask mask_eq_exp_minus_1)

lemma and_15_take_bit [byte_bits]: "(w :: 'a::len word) AND 15 = take_bit 4 w"
  by (simp add: take_bit_eq_mask mask_eq_exp_minus_1)

lemma and_63_take_bit [byte_bits]: "(w :: 'a::len word) AND 63 = take_bit 6 w"
  by (simp add: take_bit_eq_mask mask_eq_exp_minus_1)

lemma and_127_take_bit [byte_bits]: "(w :: 'a::len word) AND 127 = take_bit 7 w"
  by (simp add: take_bit_eq_mask mask_eq_exp_minus_1)

lemma and_255_take_bit [byte_bits]: "(w :: 'a::len word) AND 255 = take_bit 8 w"
  by (simp add: take_bit_eq_mask mask_eq_exp_minus_1)

lemma unat_take_bit_less: "n < LENGTH('a) \<Longrightarrow> unat (take_bit n (w :: 'a::len word)) < 2 ^ n"
  by (simp add: unsigned_take_bit_eq)

lemma byte_eqI:
  fixes x y :: byte
  assumes "bit x 0 = bit y 0" "bit x 1 = bit y 1" "bit x 2 = bit y 2" "bit x 3 = bit y 3"
    "bit x 4 = bit y 4" "bit x 5 = bit y 5" "bit x 6 = bit y 6" "bit x 7 = bit y 7"
  shows "x = y"
proof (rule bit_word_eqI)
  fix n assume "n < LENGTH(8)"
  then have "n = 0 \<or> n = 1 \<or> n = 2 \<or> n = 3 \<or> n = 4 \<or> n = 5 \<or> n = 6 \<or> n = 7"
    by simp arith
  with assms show "bit x n = bit y n" by auto
qed

end
