(* ===== verification/Ys_Base64.thy ===== *)
theory Ys_Base64
  imports Ys_Prelude
begin

text \<open>
  The header-only codec of \<^verbatim>\<open>ysqlite3/base64.hpp\<close>: encoding over both alphabets, decoding
  with alphabet detection, the two padding behaviours, the size formulas, and decoding in
  place over a mutable buffer. The lemmas show that decoding inverts encoding, which inputs
  are refused, that the size formulas hold and that the in-place decoder, which reads and
  writes one buffer, returns what the decoder into a fresh buffer returns.
\<close>

section \<open>Data\<close>

datatype alphabet = Auto | Standard | Url_filename_safe

datatype decoding_behavior = Moderate | Loose

datatype base64_error = Invalid_base64_character

definition alpha_table :: "alphabet \<Rightarrow> string" where
  "alpha_table a =
     (if a = Url_filename_safe
      then ''ABCDEFGHIJKLMNOPQRSTUVWXYZabcdefghijklmnopqrstuvwxyz0123456789-_''
      else ''ABCDEFGHIJKLMNOPQRSTUVWXYZabcdefghijklmnopqrstuvwxyz0123456789+/'')"

definition pad :: char where
  "pad = CHR ''=''"

section \<open>Encoding\<close>

text \<open>
  One equation per way the loop body of \<^verbatim>\<open>encode\<close> can run: the input ends after the first
  byte, after the second, or the body completes and the loop goes on.
\<close>

fun encode :: "alphabet \<Rightarrow> byte list \<Rightarrow> string" where
  "encode a [] = []"
| "encode a [i0] =
     [alpha_table a ! unat (drop_bit 2 i0 AND 63),
      alpha_table a ! unat (push_bit 4 (i0 AND 3)),
      pad, pad]"
| "encode a [i0, i1] =
     [alpha_table a ! unat (drop_bit 2 i0 AND 63),
      alpha_table a ! unat (push_bit 4 (i0 AND 3) OR (drop_bit 4 i1 AND 15)),
      alpha_table a ! unat (push_bit 2 (i1 AND 15)),
      pad]"
| "encode a (i0 # i1 # i2 # rest) =
     alpha_table a ! unat (drop_bit 2 i0 AND 63)
     # alpha_table a ! unat (push_bit 4 (i0 AND 3) OR (drop_bit 4 i1 AND 15))
     # alpha_table a ! unat (push_bit 2 (i1 AND 15) OR (drop_bit 6 i2 AND 3))
     # alpha_table a ! unat (i2 AND 63)
     # encode a rest"

text \<open>The overloads for \<^verbatim>\<open>std::string\<close> and for a \<^verbatim>\<open>char\<close> array with its size.\<close>

definition encode_string :: "string \<Rightarrow> alphabet \<Rightarrow> string" where
  "encode_string str a = encode a (map char_byte str)"

definition encode_buffer :: "string \<Rightarrow> nat \<Rightarrow> alphabet \<Rightarrow> string" where
  "encode_buffer buffer n a = encode a (map char_byte (take n buffer))"

section \<open>Decoding\<close>

text \<open>
  \<^verbatim>\<open>_base64_value\<close> takes the alphabet by reference: in \<^verbatim>\<open>auto_\<close> the first special character
  fixes it, so the value is returned with the alphabet that holds from then on.
\<close>

definition base64_value :: "alphabet \<Rightarrow> char \<Rightarrow> base64_error + (byte \<times> alphabet)" where
  "base64_value al c =
     (if schar CHR ''A'' \<le> schar c \<and> schar c \<le> schar CHR ''Z''
      then Inr (word_of_int (schar c - schar CHR ''A''), al)
      else if schar CHR ''a'' \<le> schar c \<and> schar c \<le> schar CHR ''z''
      then Inr (word_of_int (schar c - schar CHR ''a'' + 26), al)
      else if schar CHR ''0'' \<le> schar c \<and> schar c \<le> schar CHR ''9''
      then Inr (word_of_int (schar c - schar CHR ''0'' + 52), al)
      else if al = Standard
      then (if c = CHR ''+'' then Inr (62, al)
            else if c = CHR ''/'' then Inr (63, al)
            else Inl Invalid_base64_character)
      else if al = Url_filename_safe
      then (if c = CHR ''-'' then Inr (62, al)
            else if c = CHR ''_'' then Inr (63, al)
            else Inl Invalid_base64_character)
      else if c = CHR ''+'' then Inr (62, Standard)
      else if c = CHR ''/'' then Inr (63, Standard)
      else if c = CHR ''-'' then Inr (62, Url_filename_safe)
      else if c = CHR ''_'' then Inr (63, Url_filename_safe)
      else Inl Invalid_base64_character)"

text \<open>
  The main loop over the remaining input: \<open>bits\<close> pending bits of \<open>prev\<close> (\<^verbatim>\<open>last\<close> in the code). It returns the bytes
  written and the input left behind the first padding character.
\<close>

fun decode_loop :: "alphabet \<Rightarrow> nat \<Rightarrow> byte \<Rightarrow> string \<Rightarrow> base64_error + (byte list \<times> string)" where
  "decode_loop al bits prev [] = Inr ([], [])"
| "decode_loop al bits prev (c # cs) =
     (if c = CHR ''='' then Inr ([], cs)
      else case base64_value al c of
        Inl e \<Rightarrow> Inl e
      | Inr (part, al') \<Rightarrow>
          if bits + 6 \<ge> 8
          then (case decode_loop al' (bits - 2) part cs of
                  Inl e \<Rightarrow> Inl e
                | Inr (out, rest) \<Rightarrow>
                    Inr ((push_bit (8 - bits) prev OR drop_bit (bits - 2) part) # out, rest))
          else decode_loop al' (bits + 6) part cs)"

fun check_padding :: "string \<Rightarrow> base64_error + unit" where
  "check_padding [] = Inr ()"
| "check_padding (c # cs) =
     (if c \<noteq> CHR ''='' then Inl Invalid_base64_character else check_padding cs)"

definition decode :: "alphabet \<Rightarrow> decoding_behavior \<Rightarrow> string \<Rightarrow> base64_error + byte list" where
  "decode al behavior cs =
     (case decode_loop al 0 0 cs of
        Inl e \<Rightarrow> Inl e
      | Inr (out, rest) \<Rightarrow>
          if behavior \<noteq> Loose
          then (case check_padding rest of Inl e \<Rightarrow> Inl e | Inr _ \<Rightarrow> Inr out)
          else Inr out)"

definition decode_string :: "string \<Rightarrow> alphabet \<Rightarrow> decoding_behavior \<Rightarrow> base64_error + string" where
  "decode_string str al behavior = map_sum id (map byte_char) (decode al behavior str)"

definition decode_buffer ::
    "string \<Rightarrow> nat \<Rightarrow> alphabet \<Rightarrow> decoding_behavior \<Rightarrow> base64_error + string" where
  "decode_buffer buffer n al behavior =
     map_sum id (map byte_char) (decode al behavior (take n buffer))"

section \<open>Size formulas\<close>

definition max_decode_size :: "64 word \<Rightarrow> 64 word" where
  "max_decode_size sz = (sz div 4 + (if sz mod 4 \<noteq> 0 then 1 else 0)) * 3"

definition required_encode_size :: "64 word \<Rightarrow> 64 word" where
  "required_encode_size sz = (sz div 3 + (if sz mod 3 \<noteq> 0 then 1 else 0)) * 4"

section \<open>Decoding in place\<close>

text \<open>
  \<^verbatim>\<open>decode_inplace\<close> runs the same loops with \<open>in\<close> and \<open>out\<close> in one buffer: \<open>i\<close> is the read
  index, \<open>w\<close> the write index, and what has been written stays written when a later character
  is refused.
\<close>

function inplace_padding :: "string \<Rightarrow> nat \<Rightarrow> nat \<Rightarrow> base64_error + unit" where
  "inplace_padding buf i n =
     (if i < n
      then (if buf ! i \<noteq> CHR ''='' then Inl Invalid_base64_character
            else inplace_padding buf (Suc i) n)
      else Inr ())"
  by pat_completeness auto
termination
  by (relation "measure (\<lambda>(buf, i, n). n - i)") auto

function inplace_loop ::
    "alphabet \<Rightarrow> nat \<Rightarrow> byte \<Rightarrow> nat \<Rightarrow> nat \<Rightarrow> nat \<Rightarrow> string \<Rightarrow> (base64_error + (nat \<times> nat)) \<times> string"
where
  "inplace_loop al bits prev i w n buf =
     (if i < n
      then (let c = buf ! i in
        if c = CHR ''='' then (Inr (Suc i, w), buf)
        else case base64_value al c of
          Inl e \<Rightarrow> (Inl e, buf)
        | Inr (part, al') \<Rightarrow>
            if bits + 6 \<ge> 8
            then inplace_loop al' (bits - 2) part (Suc i) (Suc w) n
                   (buf[w := byte_char (push_bit (8 - bits) prev OR drop_bit (bits - 2) part)])
            else inplace_loop al' (bits + 6) part (Suc i) w n buf)
      else (Inr (i, w), buf))"
  by pat_completeness auto
termination
  by (relation "measure (\<lambda>(al, bits, prev, i, w, n, buf). n - i)") auto

declare inplace_padding.simps [simp del] inplace_loop.simps [simp del]

text \<open>The returned number is how far \<open>out\<close> has moved.\<close>

definition decode_inplace_buffer ::
    "string \<Rightarrow> nat \<Rightarrow> alphabet \<Rightarrow> decoding_behavior \<Rightarrow> (base64_error + nat) \<times> string" where
  "decode_inplace_buffer buf n al behavior =
     (case inplace_loop al 0 0 0 0 n buf of
        (Inl e, buf') \<Rightarrow> (Inl e, buf')
      | (Inr (i, w), buf') \<Rightarrow>
          if behavior \<noteq> Loose
          then (case inplace_padding buf' i n of
                  Inl e \<Rightarrow> (Inl e, buf') | Inr _ \<Rightarrow> (Inr w, buf'))
          else (Inr w, buf'))"

text \<open>The \<^verbatim>\<open>std::string\<close> overload resizes the string to the bytes written.\<close>

definition decode_inplace :: "string \<Rightarrow> alphabet \<Rightarrow> decoding_behavior \<Rightarrow> (base64_error + unit) \<times> string"
where
  "decode_inplace str al behavior =
     (case decode_inplace_buffer str (length str) al behavior of
        (Inl e, str') \<Rightarrow> (Inl e, str')
      | (Inr w, str') \<Rightarrow> (Inr (), take w str'))"

section \<open>Characters and their values\<close>

text \<open>The alphabet a decoder has settled on fits the encoder's table.\<close>

definition fits :: "alphabet \<Rightarrow> alphabet \<Rightarrow> bool" where
  "fits al a \<longleftrightarrow> al = Auto \<or> al = (if a = Url_filename_safe then a else Standard)"

lemma length_alpha_table [simp]: "length (alpha_table a) = 64"
  by (simp add: alpha_table_def)

lemma base64_value_table_all:
  "al \<in> {Auto, Standard} \<Longrightarrow>
     map (base64_value al) (alpha_table Standard)
       = map (\<lambda>i. Inr (word_of_nat i, if i < 62 then al else Standard)) [0..<64]"
  "al \<in> {Auto, Url_filename_safe} \<Longrightarrow>
     map (base64_value al) (alpha_table Url_filename_safe)
       = map (\<lambda>i. Inr (word_of_nat i, if i < 62 then al else Url_filename_safe)) [0..<64]"
  by (auto simp: alpha_table_def base64_value_def schar_def upt_conv_Cons)

text \<open>The alphabet after the character of index \<open>i\<close> of the encoder's table has been read.\<close>

definition settle :: "alphabet \<Rightarrow> alphabet \<Rightarrow> nat \<Rightarrow> alphabet" where
  "settle al a i = (if i < 62 then al else if a = Url_filename_safe then a else Standard)"

lemma fits_settle [simp]: "fits al a \<Longrightarrow> fits (settle al a i) a"
  by (auto simp: fits_def settle_def)

lemma base64_value_table [simp]:
  assumes "fits al a" and "i < 64"
  shows "base64_value al (alpha_table a ! i) = Inr (word_of_nat i, settle al a i)"
proof (cases "a = Url_filename_safe")
  case True
  with assms(1) have "al \<in> {Auto, Url_filename_safe}" by (auto simp: fits_def)
  note base64_value_table_all(2) [OF this, THEN arg_cong, of "\<lambda>xs. xs ! i"]
  with assms(2) True show ?thesis by (simp add: settle_def)
next
  case False
  then have t: "alpha_table a = alpha_table Standard" by (simp add: alpha_table_def)
  from False assms(1) have "al \<in> {Auto, Standard}" by (auto simp: fits_def)
  note base64_value_table_all(1) [OF this, THEN arg_cong, of "\<lambda>xs. xs ! i"]
  with assms(2) False show ?thesis by (simp add: settle_def t)
qed

lemma table_not_pad [simp]: "i < 64 \<Longrightarrow> alpha_table a ! i \<noteq> CHR ''=''"
proof -
  assume "i < 64"
  have "\<forall>a \<in> {Auto, Standard, Url_filename_safe}. CHR ''='' \<notin> set (alpha_table a)"
    by code_simp
  then have "CHR ''='' \<notin> set (alpha_table a)" by (cases a) simp_all
  with \<open>i < 64\<close> show ?thesis by (metis length_alpha_table nth_mem)
qed

lemma sextet_less [simp]:
  "unat (drop_bit 2 (x :: byte) AND 63) < 64"
  "unat (x AND 63) < 64"
  "unat (push_bit 4 (x AND 3)) < 64"
  "unat (push_bit 4 (x AND 3) OR (drop_bit 4 y AND 15)) < 64"
  "unat (push_bit 2 (x AND 15)) < 64"
  "unat (push_bit 2 (x AND 15) OR (drop_bit 6 y AND 3)) < 64"
proof -
  have *: "unat v < 64" if "v = take_bit 6 v" for v :: byte
    using that unat_take_bit_less [of 6 v] by simp
  show "unat (drop_bit 2 x AND 63) < 64" "unat (x AND 63) < 64"
    "unat (push_bit 4 (x AND 3)) < 64"
    "unat (push_bit 4 (x AND 3) OR (drop_bit 4 y AND 15)) < 64"
    "unat (push_bit 2 (x AND 15)) < 64"
    "unat (push_bit 2 (x AND 15) OR (drop_bit 6 y AND 3)) < 64"
    by (rule *, rule bit_eqI, auto simp: byte_bits bit_simps)+
qed

lemma regroup_bytes [simp]:
  fixes x y z :: byte
  shows "push_bit 2 (drop_bit 2 x AND 63) OR drop_bit 4 (push_bit 4 (x AND 3)) = x"
    and "push_bit 2 (drop_bit 2 x AND 63) OR drop_bit 4 (push_bit 4 (x AND 3) OR (drop_bit 4 y AND 15)) = x"
    and "push_bit 4 (push_bit 4 (z AND 3) OR (drop_bit 4 x AND 15)) OR drop_bit 2 (push_bit 2 (x AND 15)) = x"
    and "push_bit 4 (push_bit 4 (z AND 3) OR (drop_bit 4 x AND 15))
          OR drop_bit 2 (push_bit 2 (x AND 15) OR (drop_bit 6 y AND 3)) = x"
    and "push_bit 6 (push_bit 2 (z AND 15) OR (drop_bit 6 x AND 3)) OR (x AND 63) = x"
  by (rule byte_eqI; simp add: byte_bits bit_simps)+
text \<open>The loop undoes the encoder, group by group; only the second pad of a group is left unread.\<close>

lemma decode_loop_encode:
  assumes "fits al a"
  shows "decode_loop al 0 prev (encode a xs) = Inr (xs, if length xs mod 3 = 1 then [pad] else [])"
  using assms
proof (induction a xs arbitrary: al prev rule: encode.induct)
  case (1 a)
  then show ?case by simp
next
  case (2 a i0)
  then show ?case by (simp add: pad_def del: push_bit_and push_bit_or drop_bit_and drop_bit_or)
next
  case (3 a i0 i1)
  then show ?case by (simp add: pad_def del: push_bit_and push_bit_or drop_bit_and drop_bit_or)
next
  case (4 a i0 i1 i2 rest)
  then show ?case by (simp del: push_bit_and push_bit_or drop_bit_and drop_bit_or)
qed

section \<open>Which inputs are accepted\<close>

lemma digit_in_table:
  assumes "65 \<le> schar c \<and> schar c \<le> 90 \<or> 97 \<le> schar c \<and> schar c \<le> 122
    \<or> 48 \<le> schar c \<and> schar c \<le> 57"
  shows "c \<in> set (alpha_table a)"
proof -
  have t: "map of_char (take 62 (alpha_table a)) = [65..<91] @ [97..<123] @ [48..<58 :: nat]"
    by (simp add: alpha_table_def)
  define n where "n = (of_char c :: nat)"
  have "schar c = int n" using assms unfolding n_def by (intro schar_nonneg) arith
  with assms have "n \<in> set ([65..<91] @ [97..<123] @ [48..<58])"
    unfolding set_append set_upt by auto
  then have "of_char c \<in> (of_char ` set (take 62 (alpha_table a)) :: nat set)"
    unfolding n_def t [symmetric] by simp
  then have "c \<in> set (take 62 (alpha_table a))" by auto
  then show ?thesis by (rule in_set_takeD)
qed

lemma specials_in_table: 
  "CHR ''+'' \<in> set (alpha_table a) \<longleftrightarrow> a \<noteq> Url_filename_safe"
  "CHR ''/'' \<in> set (alpha_table a) \<longleftrightarrow> a \<noteq> Url_filename_safe"
  "CHR ''-'' \<in> set (alpha_table a) \<longleftrightarrow> a = Url_filename_safe"
  "CHR ''_'' \<in> set (alpha_table a) \<longleftrightarrow> a = Url_filename_safe"
  by (simp_all add: alpha_table_def)

lemma base64_value_Inr_in_table:
  assumes "base64_value al c = Inr (v, al')" and "fits al' a"
  shows "c \<in> set (alpha_table a) \<and> fits al a"
  using assms
  by (cases al) (auto simp: base64_value_def specials_in_table fits_def digit_in_table split: if_splits)

lemma decode_loop_Inr_iff:
  "(\<exists>out. decode_loop al bits prev cs = Inr (out, rest)) \<longleftrightarrow>
     (\<exists>a. fits al a \<and> set (takeWhile (\<lambda>c. c \<noteq> pad) cs) \<subseteq> set (alpha_table a)) \<and>
     rest = tl (dropWhile (\<lambda>c. c \<noteq> pad) cs)"
proof (induction al bits prev cs rule: decode_loop.induct)
  case (1 al bits prev)
  have "\<exists>a. fits al a" by (cases al) (auto simp: fits_def)
  then show ?case by auto
next
  case (2 al bits prev c cs)
  show ?case
  proof (cases "c = CHR ''=''")
    case True
    have "\<exists>a. fits al a" by (cases al) (auto simp: fits_def)
    with True show ?thesis by (auto simp: pad_def)
  next
    case False
    show ?thesis
    proof (cases "base64_value al c")
      case (Inl e)
      have "\<not> (fits al a \<and> c \<in> set (alpha_table a))" for a
        using base64_value_table [of al a] Inl by (auto simp: in_set_conv_nth)
      with False Inl show ?thesis by (auto simp: pad_def)
    next
      case (Inr p)
      obtain v al' where p: "p = (v, al')" by (cases p)
      have *: "fits al' a \<longleftrightarrow> fits al a \<and> c \<in> set (alpha_table a)" for a
      proof
        assume "fits al' a"
        with base64_value_Inr_in_table Inr p show "fits al a \<and> c \<in> set (alpha_table a)" by blast
      next
        assume a: "fits al a \<and> c \<in> set (alpha_table a)"
        then obtain i where "i < 64" "c = alpha_table a ! i" by (auto simp: in_set_conv_nth)
        with a Inr p have "al' = settle al a i" by simp
        with a show "fits al' a" by simp
      qed
      show ?thesis
      proof (cases "8 \<le> bits + 6")
        case True
        with 2(1) [OF False Inr p [symmetric]] False Inr p * show ?thesis
          by (auto simp: pad_def split: sum.splits)
      next
        case F: False
        with 2(2) [OF False Inr p [symmetric] F] False Inr p * show ?thesis
          by (auto simp: pad_def)
      qed
    qed
  qed
qed

lemma check_padding_Inr_iff: "check_padding cs = Inr () \<longleftrightarrow> set cs \<subseteq> {pad}"
  by (induction cs) (auto simp: pad_def)

lemma decode_loop_length:
  "decode_loop al bits prev cs = Inr (out, rest) \<Longrightarrow> 8 * length out \<le> bits + 6 * length cs"
  by (induction al bits prev cs arbitrary: out rest rule: decode_loop.induct)
    (fastforce split: if_splits sum.splits)+

section \<open>In place and out of place\<close>

lemma inplace_loop_decode_loop:
  assumes "i \<le> length buf" and "w \<le> i"
  shows "case decode_loop al bits prev (drop i buf) of
       Inl e \<Rightarrow> fst (inplace_loop al bits prev i w (length buf) buf) = Inl e
     | Inr (out, rest) \<Rightarrow> \<exists>i' buf'. 
         inplace_loop al bits prev i w (length buf) buf = (Inr (i', w + length out), buf') \<and>
         length buf' = length buf \<and> w + length out \<le> i' \<and> i' \<le> length buf \<and>
         take (w + length out) buf' = take w buf @ map byte_char out \<and> drop i' buf' = rest"
  using assms
proof (induction al bits prev i w "length buf" buf rule: inplace_loop.induct)
  case (1 al bits prev i w buf)
  show ?case
  proof (cases "i < length buf")
    case False
    with "1.prems" show ?thesis by (subst inplace_loop.simps) simp
  next
    case i: True
    then have d: "drop i buf = buf ! i # drop (Suc i) buf" by (simp add: Cons_nth_drop_Suc)
    show ?thesis
    proof (cases "buf ! i = CHR ''=''")
      case True
      with i d "1.prems" show ?thesis by (simp add: inplace_loop.simps [of al bits prev i])
    next
      case c: False
      show ?thesis
      proof (cases "base64_value al (buf ! i)")
        case (Inl e)
        with i c d show ?thesis by (simp add: inplace_loop.simps [of al bits prev i])
      next
        case (Inr p)
        obtain v al' where p: "(v, al') = p" by (cases p) simp
        show ?thesis
        proof (cases "8 \<le> bits + 6")
          case True
          let ?b = "byte_char (push_bit (8 - bits) prev OR drop_bit (bits - 2) v)"
          have t: "take (Suc w) (buf[w := ?b]) = take w buf @ [?b]"
            using i "1.prems" by (simp add: take_Suc_conv_app_nth)
          have r: "drop (Suc i) (buf[w := ?b]) = drop (Suc i) buf" 
            using "1.prems" by simp
          have IH: "case decode_loop al' (bits - 2) v (drop (Suc i) buf) of
             Inl e \<Rightarrow> fst (inplace_loop al' (bits - 2) v (Suc i) (Suc w) (length buf) (buf[w := ?b])) = Inl e
           | Inr (out, rest) \<Rightarrow> \<exists>i' buf'. 
               inplace_loop al' (bits - 2) v (Suc i) (Suc w) (length buf) (buf[w := ?b]) = (Inr (i', Suc w + length out), buf') \<and>
               length buf' = length buf \<and> Suc w + length out \<le> i' \<and> i' \<le> length buf \<and>
               take (Suc w + length out) buf' = take w buf @ ?b # map byte_char out \<and> drop i' buf' = rest"
            using 1(1) [OF i refl c Inr p True] i "1.prems"
            by (simp only: length_list_update t r append_assoc append_Cons append_Nil
                Suc_le_eq Suc_le_mono le_SucI True_implies_equals)
          show ?thesis
            using IH i c d Inr p [symmetric] True
            by (auto simp: inplace_loop.simps [of al bits prev i] Let_def split: sum.splits)
        next
          case False
          have IH: "case decode_loop al' (bits + 6) v (drop (Suc i) buf) of
             Inl e \<Rightarrow> fst (inplace_loop al' (bits + 6) v (Suc i) w (length buf) buf) = Inl e
           | Inr (out, rest) \<Rightarrow> \<exists>i' buf'. 
               inplace_loop al' (bits + 6) v (Suc i) w (length buf) buf = (Inr (i', w + length out), buf') \<and>
               length buf' = length buf \<and> w + length out \<le> i' \<and> i' \<le> length buf \<and>
               take (w + length out) buf' = take w buf @ map byte_char out \<and> drop i' buf' = rest"
            using 1(2) [OF i refl c Inr p False] i "1.prems" by simp
          show ?thesis
            using IH i c d Inr p [symmetric] False
            by (auto simp: inplace_loop.simps [of al bits prev i] Let_def split: sum.splits)
        qed
      qed
    qed
  qed
qed

lemma inplace_padding_check:
  "length buf = n \<Longrightarrow> i \<le> n \<Longrightarrow> inplace_padding buf i n = check_padding (drop i buf)"
proof (induction buf i n rule: inplace_padding.induct)
  case (1 buf i n)
  show ?case
  proof (cases "i < n")
    case True
    then have "drop i buf = buf ! i # drop (Suc i) buf"
      using "1.prems" by (simp add: Cons_nth_drop_Suc)
    with 1 True show ?thesis by (simp add: inplace_padding.simps [of buf i])
  next
    case False
    with "1.prems" show ?thesis by (subst inplace_padding.simps) simp
  qed
qed

section \<open>Lengths\<close>

lemma length_encode: "length (encode a xs) = 4 * ((length xs + 2) div 3)"
  by (induction a xs rule: encode.induct) (simp_all, presburger)

lemma unat_round:
  fixes d :: "64 word"
  assumes "n < 2 ^ 64" "0 < unat d" 
  shows "unat (word_of_nat n div d :: 64 word) = n div unat d"
   "(word_of_nat n mod d = 0) = (n mod unat d = 0)"
proof -
  have n: "unat (word_of_nat n :: 64 word) = n" using assms by (simp add: unat_of_nat)
  show "unat (word_of_nat n div d :: 64 word) = n div unat d" by (simp add: unat_div n)
  show "(word_of_nat n mod d = 0) = (n mod unat d = 0)" by (metis n unat_eq_zero unat_mod)
qed

lemma unat_ceil_div:
  fixes d :: "64 word"
  assumes "n < 2 ^ 64" and "1 < unat d"
  shows "unat (word_of_nat n div d + (if word_of_nat n mod d \<noteq> 0 then 1 else 0))
    = n div unat d + (if n mod unat d \<noteq> 0 then 1 else 0)"
proof -
  have "n div unat d \<le> n div 2" using assms(2) by (simp add: div_le_mono2)
  then have "n div unat d + 1 < 2 ^ 64" using assms(1) by simp
  then show ?thesis
    using assms unat_round [of n d] by (simp add: unat_word_ariths)
qed

lemma unat_required_encode_size:
  assumes "n < 2 ^ 63"
  shows "unat (required_encode_size (word_of_nat n)) = 4 * ((n + 2) div 3)"
proof -
  have b: "n div 3 + (if n mod 3 \<noteq> 0 then 1 else 0) = (n + 2) div 3"
    by (cases "n mod 3 = 0") (simp, presburger, simp, presburger)
  have "(n + 2) div 3 * 4 < 2 ^ 64"
    using assms div_times_less_eq_dividend [of "n + 2" 3] by simp
  then show ?thesis using assms unat_ceil_div [of n 3] b
    by (simp only: required_encode_size_def unat_word_ariths) simp
qed

lemma unat_max_decode_size:
  assumes "n < 2 ^ 64"
  shows "unat (max_decode_size (word_of_nat n)) = 3 * ((n + 3) div 4)"
proof -
  have b: "n div 4 + (if n mod 4 \<noteq> 0 then 1 else 0) = (n + 3) div 4"
    by (cases "n mod 4 = 0") (simp, presburger, simp, presburger)
  have "(n + 3) div 4 * 3 < 2 ^ 64"
    using assms div_times_less_eq_dividend [of "n + 3" 4] by simp
  then show ?thesis using assms unat_ceil_div [of n 4] b
    by (simp only: max_decode_size_def unat_word_ariths) simp
qed

section \<open>Properties\<close>

text \<open>
  C5: decoding what was encoded gives back the original string, for either alphabet and either
  padding behaviour, when the decoder detects the alphabet or is told the encoder's.
\<close>

theorem decode_string_encode_string:
  assumes "fits al a"
  shows "decode_string (encode_string str a) al behavior = Inr str"
  using assms
  by (simp add: decode_string_def encode_string_def decode_def decode_loop_encode pad_def comp_def)

theorem decode_string_encode_string_witness:
  "fits Auto Url_filename_safe \<and>
   decode_string (encode_string ''a??>'' Url_filename_safe) Auto Moderate = Inr ''a??>''"
proof -
  have f: "fits Auto Url_filename_safe" by (simp add: fits_def)
  show ?thesis using f decode_string_encode_string [OF f] by blast
qed

text \<open>
  Exactly which strings the strict decoder accepts. Up to the first \<^verbatim>\<open>=\<close> every character
  is of one alphabet that agrees with the requested one, and only \<^verbatim>\<open>=\<close> follows; a string that
  mixes \<^verbatim>\<open>+/\<close> with \<^verbatim>\<open>-_\<close> is refused.
\<close>

theorem decode_Moderate_accepts:
  "(\<exists>out. decode al Moderate cs = Inr out) \<longleftrightarrow>
     (\<exists>a. fits al a \<and> set (takeWhile (\<lambda>c. c \<noteq> pad) cs) \<subseteq> set (alpha_table a)) \<and>
     set (dropWhile (\<lambda>c. c \<noteq> pad) cs) \<subseteq> {pad}"
proof -
  let ?rest = "dropWhile (\<lambda>c. c \<noteq> pad) cs"
  have "set (tl r) \<subseteq> {pad} \<longleftrightarrow> set r \<subseteq> {pad}" if "r \<noteq> [] \<longrightarrow> hd r = pad" for r
    using that by (cases r) auto
  moreover have "?rest \<noteq> [] \<longrightarrow> hd ?rest = pad"
    using hd_dropWhile [of "\<lambda>c. c \<noteq> pad" cs] by auto
  ultimately have tl: "set (tl ?rest) \<subseteq> {pad} \<longleftrightarrow> set ?rest \<subseteq> {pad}"
    by blast
  have "decode al Moderate cs = Inr out \<longleftrightarrow>
     (\<exists>rest. decode_loop al 0 0 cs = Inr (out, rest) \<and> check_padding rest = Inr ())" for out
    by (auto simp: decode_def split: sum.splits)
  then have "(\<exists>out. decode al Moderate cs = Inr out) \<longleftrightarrow>
     (\<exists>out rest. decode_loop al 0 0 cs = Inr (out, rest) \<and> set rest \<subseteq> {pad})"
    by (simp only: check_padding_Inr_iff)
  also have "\<dots> \<longleftrightarrow> (\<exists>rest. (\<exists>out. decode_loop al 0 0 cs = Inr (out, rest)) \<and> set rest \<subseteq> {pad})"
    by blast
  finally have "(\<exists>out. decode al Moderate cs = Inr out) \<longleftrightarrow>
     (\<exists>a. fits al a \<and> set (takeWhile (\<lambda>c. c \<noteq> pad) cs) \<subseteq> set (alpha_table a)) \<and>
     set (tl ?rest) \<subseteq> {pad}"
    by (simp add: decode_loop_Inr_iff)
  then show ?thesis by (simp only: tl)
qed

text \<open>
  Decoding in place, over the buffer that holds the input, returns what decoding into a
  fresh buffer returns, and the error when that is an error: a written byte is never read as
  input.
\<close>

theorem decode_inplace_decode_string:
  "case decode_string str al behavior of 
      Inl e \<Rightarrow> fst (decode_inplace str al behavior) = Inl e
    | Inr out \<Rightarrow> decode_inplace str al behavior = (Inr (), out)"
  using inplace_loop_decode_loop [of 0 str 0 al 0 0]
  by (auto simp: decode_inplace_def decode_inplace_buffer_def decode_string_def decode_def
      inplace_padding_check split: sum.splits prod.splits if_splits)

text \<open>
  The size formulas. The encoder writes exactly \<^verbatim>\<open>required_encode_size\<close> characters (for
  inputs below \<open>2 ^ 63\<close> bytes, where the 64-bit formula does not wrap) and the decoder never
  more than \<^verbatim>\<open>max_decode_size\<close> bytes.
\<close>

theorem base64_sizes:
  assumes "length str < 2 ^ 63" and "length cs < 2 ^ 64"
  shows "length (encode_string str a) = unat (required_encode_size (word_of_nat (length str))) \<and>
    (case decode_string cs al behavior of
       Inl e \<Rightarrow> True
     | Inr out \<Rightarrow> length out \<le> unat (max_decode_size (word_of_nat (length cs))))"
proof -
  have "length out \<le> 3 * ((length cs + 3) div 4)" if "decode al behavior cs = Inr out" for out
  proof -
    from that obtain rest where "decode_loop al 0 0 cs = Inr (out, rest)"
      by (auto simp: decode_def split: sum.splits if_splits)
    then have "8 * length out \<le> 6 * length cs" by (auto dest: decode_loop_length)
    then show ?thesis by presburger
  qed
  then show ?thesis
    using assms
    by (cases "decode al behavior cs")
      (auto simp: encode_string_def length_encode unat_required_encode_size decode_string_def
        unat_max_decode_size)
qed

theorem base64_sizes_witness:
  "length ''hello'' < (2::nat) ^ 63 \<and> length ''aGVsbG8='' < (2::nat) ^ 64 \<and>
   length (encode_string ''hello'' Standard) = unat (required_encode_size (word_of_nat (length ''hello'')))"
  using base64_sizes [of "''hello''" "''aGVsbG8=''"] by simp

end
