(* ===== verification/Ys_Error.thy ===== *)
theory Ys_Error
  imports Ys_Prelude
begin

unbundle bit_operations_syntax

text \<open>
  The error model of \<^verbatim>\<open>ysqlite3/error.hpp\<close>: SQLite's result codes as \<^verbatim>\<open>sqlite3.h\<close> defines
  them, the wrapper's enumerations of them, \<^verbatim>\<open>std::error_code\<close> with its two categories, the
  faults a member function can end in, and the two \<^verbatim>\<open>wrap\<close> functions that turn an exception
  into the result code a C callback returns. Also the messages of \<^verbatim>\<open>sqlite3ErrStr\<close>.
\<close>

section \<open>Result codes of the library\<close>

text \<open>A code of an error class with a detail number in the bits from 8 up.\<close>

definition extended :: "int \<Rightarrow> int \<Rightarrow> int" where
  "extended primary detail = primary OR push_bit 8 detail"

definition sqlite3_result_codes :: "(string \<times> int) list" where
  "sqlite3_result_codes =
    [(''SQLITE_OK'', 0), (''SQLITE_ERROR'', 1), (''SQLITE_INTERNAL'', 2), (''SQLITE_PERM'', 3),
     (''SQLITE_ABORT'', 4), (''SQLITE_BUSY'', 5), (''SQLITE_LOCKED'', 6), (''SQLITE_NOMEM'', 7),
     (''SQLITE_READONLY'', 8), (''SQLITE_INTERRUPT'', 9), (''SQLITE_IOERR'', 10),
     (''SQLITE_CORRUPT'', 11), (''SQLITE_NOTFOUND'', 12), (''SQLITE_FULL'', 13),
     (''SQLITE_CANTOPEN'', 14), (''SQLITE_PROTOCOL'', 15), (''SQLITE_EMPTY'', 16),
     (''SQLITE_SCHEMA'', 17), (''SQLITE_TOOBIG'', 18), (''SQLITE_CONSTRAINT'', 19),
     (''SQLITE_MISMATCH'', 20), (''SQLITE_MISUSE'', 21), (''SQLITE_NOLFS'', 22),
     (''SQLITE_AUTH'', 23), (''SQLITE_FORMAT'', 24), (''SQLITE_RANGE'', 25),
     (''SQLITE_NOTADB'', 26), (''SQLITE_NOTICE'', 27), (''SQLITE_WARNING'', 28),
     (''SQLITE_ROW'', 100), (''SQLITE_DONE'', 101)]"

definition sqlite3_extended_result_codes :: "(string \<times> int) list" where
  "sqlite3_extended_result_codes =
    [(''SQLITE_ERROR_MISSING_COLLSEQ'', extended 1 1), (''SQLITE_ERROR_RETRY'', extended 1 2),
     (''SQLITE_ERROR_SNAPSHOT'', extended 1 3), (''SQLITE_IOERR_READ'', extended 10 1),
     (''SQLITE_IOERR_SHORT_READ'', extended 10 2), (''SQLITE_IOERR_WRITE'', extended 10 3),
     (''SQLITE_IOERR_FSYNC'', extended 10 4), (''SQLITE_IOERR_DIR_FSYNC'', extended 10 5),
     (''SQLITE_IOERR_TRUNCATE'', extended 10 6), (''SQLITE_IOERR_FSTAT'', extended 10 7),
     (''SQLITE_IOERR_UNLOCK'', extended 10 8), (''SQLITE_IOERR_RDLOCK'', extended 10 9),
     (''SQLITE_IOERR_DELETE'', extended 10 10), (''SQLITE_IOERR_BLOCKED'', extended 10 11),
     (''SQLITE_IOERR_NOMEM'', extended 10 12), (''SQLITE_IOERR_ACCESS'', extended 10 13),
     (''SQLITE_IOERR_CHECKRESERVEDLOCK'', extended 10 14),
     (''SQLITE_IOERR_LOCK'', extended 10 15), (''SQLITE_IOERR_CLOSE'', extended 10 16),
     (''SQLITE_IOERR_DIR_CLOSE'', extended 10 17), (''SQLITE_IOERR_SHMOPEN'', extended 10 18),
     (''SQLITE_IOERR_SHMSIZE'', extended 10 19), (''SQLITE_IOERR_SHMLOCK'', extended 10 20),
     (''SQLITE_IOERR_SHMMAP'', extended 10 21), (''SQLITE_IOERR_SEEK'', extended 10 22),
     (''SQLITE_IOERR_DELETE_NOENT'', extended 10 23), (''SQLITE_IOERR_MMAP'', extended 10 24),
     (''SQLITE_IOERR_GETTEMPPATH'', extended 10 25), (''SQLITE_IOERR_CONVPATH'', extended 10 26),
     (''SQLITE_IOERR_VNODE'', extended 10 27), (''SQLITE_IOERR_AUTH'', extended 10 28),
     (''SQLITE_IOERR_BEGIN_ATOMIC'', extended 10 29),
     (''SQLITE_IOERR_COMMIT_ATOMIC'', extended 10 30),
     (''SQLITE_IOERR_ROLLBACK_ATOMIC'', extended 10 31), (''SQLITE_IOERR_DATA'', extended 10 32),
     (''SQLITE_IOERR_CORRUPTFS'', extended 10 33), (''SQLITE_LOCKED_SHAREDCACHE'', extended 6 1),
     (''SQLITE_LOCKED_VTAB'', extended 6 2), (''SQLITE_BUSY_RECOVERY'', extended 5 1),
     (''SQLITE_BUSY_SNAPSHOT'', extended 5 2), (''SQLITE_BUSY_TIMEOUT'', extended 5 3),
     (''SQLITE_CANTOPEN_NOTEMPDIR'', extended 14 1), (''SQLITE_CANTOPEN_ISDIR'', extended 14 2),
     (''SQLITE_CANTOPEN_FULLPATH'', extended 14 3),
     (''SQLITE_CANTOPEN_CONVPATH'', extended 14 4),
     (''SQLITE_CANTOPEN_DIRTYWAL'', extended 14 5), (''SQLITE_CANTOPEN_SYMLINK'', extended 14 6),
     (''SQLITE_CORRUPT_VTAB'', extended 11 1), (''SQLITE_CORRUPT_SEQUENCE'', extended 11 2),
     (''SQLITE_CORRUPT_INDEX'', extended 11 3), (''SQLITE_READONLY_RECOVERY'', extended 8 1),
     (''SQLITE_READONLY_CANTLOCK'', extended 8 2), (''SQLITE_READONLY_ROLLBACK'', extended 8 3),
     (''SQLITE_READONLY_DBMOVED'', extended 8 4), (''SQLITE_READONLY_CANTINIT'', extended 8 5),
     (''SQLITE_READONLY_DIRECTORY'', extended 8 6), (''SQLITE_ABORT_ROLLBACK'', extended 4 2),
     (''SQLITE_CONSTRAINT_CHECK'', extended 19 1),
     (''SQLITE_CONSTRAINT_COMMITHOOK'', extended 19 2),
     (''SQLITE_CONSTRAINT_FOREIGNKEY'', extended 19 3),
     (''SQLITE_CONSTRAINT_FUNCTION'', extended 19 4),
     (''SQLITE_CONSTRAINT_NOTNULL'', extended 19 5),
     (''SQLITE_CONSTRAINT_PRIMARYKEY'', extended 19 6),
     (''SQLITE_CONSTRAINT_TRIGGER'', extended 19 7),
     (''SQLITE_CONSTRAINT_UNIQUE'', extended 19 8), (''SQLITE_CONSTRAINT_VTAB'', extended 19 9),
     (''SQLITE_CONSTRAINT_ROWID'', extended 19 10),
     (''SQLITE_CONSTRAINT_PINNED'', extended 19 11),
     (''SQLITE_CONSTRAINT_DATATYPE'', extended 19 12),
     (''SQLITE_NOTICE_RECOVER_WAL'', extended 27 1),
     (''SQLITE_NOTICE_RECOVER_ROLLBACK'', extended 27 2),
     (''SQLITE_WARNING_AUTOINDEX'', extended 28 1), (''SQLITE_AUTH_USER'', extended 23 1),
     (''SQLITE_OK_LOAD_PERMANENTLY'', extended 0 1), (''SQLITE_OK_SYMLINK'', extended 0 2)]"

definition SQLITE_OK :: int where "SQLITE_OK = 0"

definition SQLITE_ERROR :: int where "SQLITE_ERROR = 1"

definition SQLITE_MISUSE :: int where "SQLITE_MISUSE = 21"

definition SQLITE_ROW :: int where "SQLITE_ROW = 100"

definition SQLITE_DONE :: int where "SQLITE_DONE = 101"

definition SQLITE_IOERR_SHORT_READ :: int where "SQLITE_IOERR_SHORT_READ = extended 10 2"

definition SQLITE_IOERR_UNLOCK :: int where "SQLITE_IOERR_UNLOCK = extended 10 8"

definition SQLITE_IOERR_ACCESS :: int where "SQLITE_IOERR_ACCESS = extended 10 13"

definition SQLITE_IOERR_CHECKRESERVEDLOCK :: int where
  "SQLITE_IOERR_CHECKRESERVEDLOCK = extended 10 14"

definition SQLITE_IOERR_LOCK :: int where "SQLITE_IOERR_LOCK = extended 10 15"

lemmas result_code_defs =
  SQLITE_OK_def SQLITE_ERROR_def SQLITE_MISUSE_def SQLITE_ROW_def SQLITE_DONE_def
  SQLITE_IOERR_SHORT_READ_def SQLITE_IOERR_UNLOCK_def SQLITE_IOERR_ACCESS_def
  SQLITE_IOERR_CHECKRESERVEDLOCK_def SQLITE_IOERR_LOCK_def extended_def

section \<open>The wrapper's enumerations\<close>

definition SQLite3_condition :: "(string \<times> int) list" where
  "SQLite3_condition =
    [(''success'', 0), (''generic'', 1), (''internal'', 2), (''permission'', 3), (''abort'', 4),
     (''busy'', 5), (''locked'', 6), (''memory'', 7), (''read_only'', 8),
     (''operation_interrupted'', 9), (''io'', 10), (''corrput'', 11), (''not_found'', 12),
     (''database_full'', 13), (''bad_database'', 14), (''protocol'', 15), (''empty'', 16),
     (''schema_changed'', 17), (''value_too_big'', 18), (''sql_constraint'', 19),
     (''type_mismatch'', 20), (''library_misuse'', 21), (''no_lfs'', 22), (''auth_denied'', 23),
     (''format'', 24), (''out_of_range'', 25), (''not_a_database'', 26), (''notice'', 27),
     (''warning'', 28)]"

definition SQLite3_code :: "(string \<times> int) list" where
  "SQLite3_code =
    [(''success'', 0), (''generic'', 1), (''internal'', 2), (''permission'', 3), (''abort'', 4),
     (''busy'', 5), (''locked'', 6), (''memory'', 7), (''read_only'', 8),
     (''operation_interrupted'', 9), (''io'', 10), (''corrupt'', 11), (''not_found'', 12),
     (''database_full'', 13), (''bad_database'', 14), (''protocol'', 15), (''empty'', 16),
     (''schema_changed'', 17), (''value_too_big'', 18), (''sql_constraint'', 19),
     (''type_mismatch'', 20), (''library_misuse'', 21), (''no_lfs'', 22), (''auth_denied'', 23),
     (''format'', 24), (''out_of_range'', 25), (''not_a_database'', 26), (''notice'', 27),
     (''warning'', 28)] @
    [(''missing_collseq'', extended 1 1), (''retry'', extended 1 2), (''snapshot'', extended 1 3),
     (''read'', extended 10 1), (''short_read'', extended 10 2), (''write'', extended 10 3),
     (''fsync'', extended 10 4), (''dir_fsync'', extended 10 5), (''truncate'', extended 10 6),
     (''fstat'', extended 10 7), (''unlock'', extended 10 8), (''rdlock'', extended 10 9),
     (''delete_'', extended 10 10), (''blocked'', extended 10 11), (''nomem'', extended 10 12),
     (''access'', extended 10 13), (''checkreservedlock'', extended 10 14),
     (''lock'', extended 10 15), (''close'', extended 10 16), (''dir_close'', extended 10 17),
     (''shmopen'', extended 10 18), (''shmsize'', extended 10 19), (''shmlock'', extended 10 20),
     (''shmmap'', extended 10 21), (''seek'', extended 10 22),
     (''delete_noent'', extended 10 23), (''mmap'', extended 10 24),
     (''gettemppath'', extended 10 25), (''convpath'', extended 10 26),
     (''vnode'', extended 10 27), (''auth'', extended 10 28), (''begin_atomic'', extended 10 29),
     (''commit_atomic'', extended 10 30), (''rollback_atomic'', extended 10 31),
     (''data'', extended 10 32), (''corrupt_filesystem'', extended 10 33),
     (''sharedcache'', extended 6 1), (''vtab_locked'', extended 6 2),
     (''recovery'', extended 5 1), (''busy_snapshot'', extended 5 2),
     (''timeout'', extended 5 3), (''notempdir'', extended 14 1), (''isdir'', extended 14 2),
     (''fullpath'', extended 14 3), (''bad_convpath'', extended 14 4),
     (''dirtywal'', extended 14 5), (''bad_symlink'', extended 14 6),
     (''corrupt_vtab'', extended 11 1), (''sequence'', extended 11 2),
     (''index'', extended 11 3), (''recovery_denied'', extended 8 1),
     (''cantlock'', extended 8 2), (''rollback'', extended 8 3), (''dbmoved'', extended 8 4),
     (''cantinit'', extended 8 5), (''directory'', extended 8 6),
     (''rollback_aborted'', extended 4 2), (''check'', extended 19 1),
     (''commithook'', extended 19 2), (''foreignkey'', extended 19 3),
     (''function'', extended 19 4), (''notnull'', extended 19 5),
     (''primarykey'', extended 19 6), (''trigger'', extended 19 7), (''unique'', extended 19 8),
     (''vtab'', extended 19 9), (''rowid'', extended 19 10), (''pinned'', extended 19 11),
     (''recover_wal'', extended 27 1), (''recover_rollback'', extended 27 2),
     (''autoindex'', extended 28 1), (''user'', extended 23 1),
     (''load_permanently'', extended 0 1), (''symlink'', extended 0 2)]"

datatype Error =
  Success | Bad_vfs_name | Null_function | Database_is_closed | Statement_is_closed
| Unknown_parameter | Parameter_out_of_range | Bad_index_name | Bad_arguments | Bad_result
| Vfs_already_registered | Out_of_bounds

fun error_value :: "Error \<Rightarrow> int" where
  "error_value Success = 0"
| "error_value Bad_vfs_name = 1"
| "error_value Null_function = 2"
| "error_value Database_is_closed = 3"
| "error_value Statement_is_closed = 4"
| "error_value Unknown_parameter = 5"
| "error_value Parameter_out_of_range = 6"
| "error_value Bad_index_name = 7"
| "error_value Bad_arguments = 8"
| "error_value Bad_result = 9"
| "error_value Vfs_already_registered = 10"
| "error_value Out_of_bounds = 11"

section \<open>Error codes and faults\<close>

datatype category = Sqlite3_category | Ysqlite3_category

record error_code =
  ec_value :: int
  ec_category :: category

text \<open>\<^verbatim>\<open>make_error_code\<close> for the two enumerations; a \<^verbatim>\<open>SQLite3_code\<close> is any cast \<^verbatim>\<open>int\<close>.\<close>

definition make_error_code :: "int \<Rightarrow> error_code" where
  "make_error_code ec = \<lparr>ec_value = ec, ec_category = Sqlite3_category\<rparr>"

definition make_error_code_ys :: "Error \<Rightarrow> error_code" where
  "make_error_code_ys ec = \<lparr>ec_value = error_value ec, ec_category = Ysqlite3_category\<rparr>"

text \<open>
  How a member function can fail: it throws a \<^verbatim>\<open>std::system_error\<close> (with the message given to
  its constructor, if any) or another exception; an exception leaves a \<^verbatim>\<open>noexcept\<close> function and
  the program terminates; or a null pointer is used or an access is out of bounds, which has no defined behaviour.
\<close>

datatype exn = System_error error_code "string option" | Other_exception

datatype fault = Thrown exn | Terminates | Undefined

definition throw_sqlite3 :: "int \<Rightarrow> ('s, fault, 'a) action" where
  "throw_sqlite3 ec = throw (Thrown (System_error (make_error_code ec) None))"

definition throw_error :: "Error \<Rightarrow> ('s, fault, 'a) action" where
  "throw_error ec = throw (Thrown (System_error (make_error_code_ys ec) None))"

lemma throw_sqlite3_apply [simp]:
  "throw_sqlite3 ec s = (Inl (Thrown (System_error (make_error_code ec) None)), s)"
  by (simp add: throw_sqlite3_def)

lemma throw_error_apply [simp]:
  "throw_error ec s = (Inl (Thrown (System_error (make_error_code_ys ec) None)), s)"
  by (simp add: throw_error_def)

text \<open>Calling a function that is declared \<^verbatim>\<open>noexcept\<close>: an exception that would leave it terminates.\<close>

definition noexcept :: "('s, fault, 'a) action \<Rightarrow> ('s, fault, 'a) action" where
  "noexcept m = (\<lambda>s. case m s of (Inl (Thrown e), s') \<Rightarrow> (Inl Terminates, s') | r \<Rightarrow> r)"

section \<open>From exceptions to result codes\<close>

text \<open>
  \<^verbatim>\<open>wrap\<close> of \<^verbatim>\<open>vfs/file.cpp\<close> looks at the category of the error code; the two overloads of
  \<^verbatim>\<open>vfs/vfs.cpp\<close> (for an action without and with a result) do not.
\<close>

definition file_wrap :: "int \<Rightarrow> ('s, fault, unit) action \<Rightarrow> ('s, fault, int) action" where
  "file_wrap default_error act = (\<lambda>s. case act s of
       (Inr _, s') \<Rightarrow> (Inr SQLITE_OK, s')
     | (Inl (Thrown (System_error ec msg)), s') \<Rightarrow>
         (Inr (if ec_category ec = Sqlite3_category then ec_value ec else default_error), s')
     | (Inl (Thrown Other_exception), s') \<Rightarrow> (Inr default_error, s')
     | (Inl Terminates, s') \<Rightarrow> (Inl Terminates, s')
     | (Inl Undefined, s') \<Rightarrow> (Inl Undefined, s'))"

definition vfs_wrap_result :: "('s, fault, int) action \<Rightarrow> ('s, fault, int) action" where
  "vfs_wrap_result act = (\<lambda>s. case act s of
       (Inr rc, s') \<Rightarrow> (Inr rc, s')
     | (Inl (Thrown (System_error ec msg)), s') \<Rightarrow> (Inr (ec_value ec), s')
     | (Inl (Thrown Other_exception), s') \<Rightarrow> (Inr SQLITE_ERROR, s')
     | (Inl Terminates, s') \<Rightarrow> (Inl Terminates, s')
     | (Inl Undefined, s') \<Rightarrow> (Inl Undefined, s'))"

definition vfs_wrap :: "('s, fault, unit) action \<Rightarrow> ('s, fault, int) action" where
  "vfs_wrap act = vfs_wrap_result (and_then act (\<lambda>_. return_with SQLITE_OK))"

section \<open>Messages\<close>

text \<open>\<^verbatim>\<open>aMsg\<close> of \<^verbatim>\<open>sqlite3ErrStr\<close>, without \<^verbatim>\<open>SQLITE_DISABLE_LFS\<close>.\<close>

definition aMsg :: "string option list" where
  "aMsg =
    [Some ''not an error'', Some ''SQL logic error'', None, Some ''access permission denied'',
     Some ''query aborted'', Some ''database is locked'', Some ''database table is locked'',
     Some ''out of memory'', Some ''attempt to write a readonly database'', Some ''interrupted'',
     Some ''disk I/O error'', Some ''database disk image is malformed'', Some ''unknown operation'',
     Some ''database or disk is full'', Some ''unable to open database file'',
     Some ''locking protocol'', None, Some ''database schema has changed'',
     Some ''string or blob too big'', Some ''constraint failed'', Some ''datatype mismatch'',
     Some ''bad parameter or other API misuse'', None, Some ''authorization denied'', None,
     Some ''column index out of range'', Some ''file is not a database'',
     Some ''notification message'', Some ''warning message'']"

definition sqlite3ErrStr :: "int \<Rightarrow> string" where
  "sqlite3ErrStr rc =
     (if rc = extended 4 2 then ''abort due to ROLLBACK''
      else if rc = SQLITE_ROW then ''another row available''
      else if rc = SQLITE_DONE then ''no more rows available''
      else let r = rc AND 255 in
        if 0 \<le> r \<and> r < int (length aMsg)
        then (case aMsg ! nat r of Some z \<Rightarrow> z | None \<Rightarrow> ''unknown error'')
        else ''unknown error'')"

definition category_message :: "category \<Rightarrow> int \<Rightarrow> string" where
  "category_message cat ec =
     (case cat of Sqlite3_category \<Rightarrow> sqlite3ErrStr ec | Ysqlite3_category \<Rightarrow> ''(unknown error code)'')"

section \<open>Lemmas\<close>

lemma make_error_code_simps [simp]:
  "ec_value (make_error_code c) = c" "ec_category (make_error_code c) = Sqlite3_category"
  "ec_value (make_error_code_ys e) = error_value e"
  "ec_category (make_error_code_ys e) = Ysqlite3_category"
  by (simp_all add: make_error_code_def make_error_code_ys_def)

lemma file_wrap_cases:
  "act s = (Inr (), s') \<Longrightarrow> file_wrap d act s = (Inr SQLITE_OK, s')"
  "act s = (Inl (Thrown (System_error ec msg)), s') \<Longrightarrow>
     file_wrap d act s = (Inr (if ec_category ec = Sqlite3_category then ec_value ec else d), s')"
  "act s = (Inl (Thrown Other_exception), s') \<Longrightarrow> file_wrap d act s = (Inr d, s')"
  "act s = (Inl Terminates, s') \<Longrightarrow> file_wrap d act s = (Inl Terminates, s')"
  "act s = (Inl Undefined, s') \<Longrightarrow> file_wrap d act s = (Inl Undefined, s')"
  by (simp_all add: file_wrap_def)

lemma error_value_bounds: "0 \<le> error_value e \<and> error_value e \<le> 11"
  by (cases e) simp_all

section \<open>Properties\<close>

text \<open>
  The enumeration \<^verbatim>\<open>SQLite3_code\<close> lists, in the order of \<^verbatim>\<open>sqlite3.h\<close> and with the same
  values, every result code of the header but \<^verbatim>\<open>SQLITE_ROW\<close>, \<^verbatim>\<open>SQLITE_DONE\<close> and
  \<^verbatim>\<open>SQLITE_CONSTRAINT_DATATYPE\<close>; no two enumerators share a value; and the low byte of each is a
  value of \<^verbatim>\<open>SQLite3_condition\<close>.
\<close>

theorem SQLite3_code_mirrors_header:
  "map snd SQLite3_code =
     filter (\<lambda>v. v \<noteq> SQLITE_ROW \<and> v \<noteq> SQLITE_DONE \<and> v \<noteq> extended 19 12)
       (map snd (sqlite3_result_codes @ sqlite3_extended_result_codes)) \<and>
   distinct (map snd SQLite3_code) \<and>
   list_all (\<lambda>v. v AND 255 \<in> set (map snd SQLite3_condition)) (map snd SQLite3_code) \<and>
   extended 19 12 \<in> set (map snd sqlite3_extended_result_codes)"
  by code_simp

end
