(* ===== verification/Ys_Span.thy ===== *)
theory Ys_Span
  imports Ys_Error
begin

text \<open>
  \<^verbatim>\<open>span.hpp\<close> and \<^verbatim>\<open>finally.hpp\<close>. A \<^verbatim>\<open>Span\<close> is a pair of iterators; here an iterator is the
  index of a byte of the buffer the span looks at, kept at 64 bits so that the subtractions and
  additions of \<^verbatim>\<open>std::size_t\<close> wrap as they do in the code. The bytes of a span are read from
  and written to an explicit buffer.
\<close>

section \<open>Span\<close>

type_synonym size_t = "64 word"

record span =
  sp_first :: size_t
  sp_last :: size_t

definition dynamic_extent :: size_t where "dynamic_extent = - 1"

text \<open>The constructor \<^verbatim>\<open>Span(Iterable begin, std::size_t size)\<close>.\<close>

definition span_of :: "size_t \<Rightarrow> size_t \<Rightarrow> span" where
  "span_of start n = \<lparr>sp_first = start, sp_last = start + n\<rparr>"

definition span_size :: "span \<Rightarrow> size_t" where
  "span_size sp = sp_last sp - sp_first sp"

definition span_empty :: "span \<Rightarrow> bool" where
  "span_empty sp \<longleftrightarrow> span_size sp = 0"

definition subspan :: "span \<Rightarrow> size_t \<Rightarrow> size_t \<Rightarrow> fault + span" where
  "subspan sp offset count =
     (if offset > span_size sp then Inl (Thrown (System_error (make_error_code_ys Out_of_bounds) None))
      else let count = min count (span_size sp - offset) in
        Inr \<lparr>sp_first = sp_first sp + offset, sp_last = sp_first sp + offset + count\<rparr>)"

text \<open>The bytes a span covers, and the buffer with these bytes replaced.\<close>

definition span_bytes :: "'a list \<Rightarrow> span \<Rightarrow> 'a list" where
  "span_bytes buf sp = take (unat (span_size sp)) (drop (unat (sp_first sp)) buf)"

definition span_put :: "'a list \<Rightarrow> span \<Rightarrow> 'a list \<Rightarrow> 'a list" where
  "span_put buf sp xs = overwrite buf (unat (sp_first sp)) xs"

text \<open>A span that lies in a buffer.\<close>

definition span_in :: "span \<Rightarrow> 'a list \<Rightarrow> bool" where
  "span_in sp buf \<longleftrightarrow> sp_first sp \<le> sp_last sp \<and> unat (sp_last sp) \<le> length buf"

lemma span_of_size [simp]: "span_size (span_of start n) = n"
  by (simp add: span_of_def span_size_def)

lemma span_of_whole: "length buf < 2 ^ 64 \<Longrightarrow> span_in (span_of 0 (of_nat (length buf))) buf"
  by (simp add: span_in_def span_of_def unat_of_nat take_bit_nat_eq_self)

lemma span_of_whole_bytes: "length buf < 2 ^ 64 \<Longrightarrow> span_bytes buf (span_of 0 (of_nat (length buf))) = buf"
  by (simp add: span_bytes_def span_of_def span_size_def unat_of_nat take_bit_nat_eq_self)

lemma unat_span_size: "sp_first sp \<le> sp_last sp \<Longrightarrow> unat (span_size sp) = unat (sp_last sp) - unat (sp_first sp)"
  by (simp add: span_size_def unat_sub)

lemma length_span_bytes [simp]: "span_in sp buf \<Longrightarrow> length (span_bytes buf sp) = unat (span_size sp)"
  by (auto simp: span_bytes_def span_in_def unat_span_size word_le_nat_alt)

lemma span_put_bytes [simp]: "span_put buf sp (span_bytes buf sp) = buf"
  by (simp add: span_put_def span_bytes_def)

lemma span_bytes_put [simp]:
  assumes "span_in sp buf" and "length xs = unat (span_size sp)"
  shows "span_bytes (span_put buf sp xs) sp = xs"
proof -
  have "unat (sp_first sp) \<le> length buf"
    using assms(1) by (auto simp: span_in_def word_le_nat_alt)
  from slice_overwrite [OF this, of xs] assms(2) show ?thesis
    by (simp add: span_bytes_def span_put_def)
qed

lemma length_span_put [simp]:
  assumes "span_in sp buf" and "length xs = unat (span_size sp)"
  shows "length (span_put buf sp xs) = length buf"
  using assms unfolding span_put_def span_in_def
  by (intro length_overwrite) (simp add: unat_span_size word_le_nat_alt)

lemma subspan_ok:
  assumes "span_in sp buf" and "offset \<le> span_size sp"
  obtains r where "subspan sp offset count = Inr r" "span_in r buf"
    "sp_first r = sp_first sp + offset"
    "unat (sp_first r) = unat (sp_first sp) + unat offset"
    "unat (span_size r) = min (unat count) (unat (span_size sp) - unat offset)"
    "unat (sp_last r) \<le> unat (sp_last sp)"
proof -
  define n where "n = min count (span_size sp - offset)"
  define r where "r = \<lparr>sp_first = sp_first sp + offset, sp_last = sp_first sp + offset + n\<rparr>"
  have le: "unat (sp_first sp) \<le> unat (sp_last sp)" "unat (sp_last sp) \<le> length buf"
    using assms(1) by (auto simp: span_in_def word_le_nat_alt)
  have size_eq: "unat (span_size sp) = unat (sp_last sp) - unat (sp_first sp)"
    using assms(1) by (simp add: span_in_def unat_span_size)
  have off: "unat offset \<le> unat (span_size sp)"
    using assms(2) by (simp add: word_le_nat_alt)
  have last64: "unat (sp_last sp) < 2 ^ 64"
    using unsigned_less [of "sp_last sp"] by simp
  have n_eq: "unat n = min (unat count) (unat (span_size sp) - unat offset)"
    using assms(2) by (simp add: n_def min_def word_le_nat_alt unat_sub)
  have first: "unat (sp_first sp + offset) = unat (sp_first sp) + unat offset"
    using le off size_eq last64 by (subst unat_add_lem [THEN iffD1]) auto
  have last: "unat (sp_first sp + offset + n) = unat (sp_first sp) + unat offset + unat n"
    using le off size_eq last64 n_eq first by (subst unat_add_lem [THEN iffD1]) auto
  have size_r: "span_size r = n"
    by (simp add: r_def span_size_def)
  have "subspan sp offset count = Inr r"
    using assms(2) by (simp add: subspan_def r_def n_def Let_def)
  moreover have "span_in r buf"
    using first last le off size_eq n_eq by (auto simp: r_def span_in_def word_le_nat_alt)
  ultimately show thesis
    using first last le off size_eq n_eq size_r by (intro that [of r]) (auto simp: r_def)
qed

section \<open>Spans given by two indices\<close>

definition slice :: "nat \<Rightarrow> nat \<Rightarrow> span" where
  "slice i j = \<lparr>sp_first = of_nat i, sp_last = of_nat j\<rparr>"

lemma unat_of_nat_64 [simp]: "n < 2 ^ 64 \<Longrightarrow> unat (of_nat n :: 64 word) = n"
  by (simp add: unat_of_nat take_bit_nat_eq_self)

lemma span_of_slice: "span_of (of_nat i) (of_nat n) = slice i (i + n)"
  by (simp add: span_of_def slice_def)

lemma slice_first_last [simp]: "sp_first (slice i j) = of_nat i" "sp_last (slice i j) = of_nat j"
  by (simp_all add: slice_def)

lemma slice_size: "i \<le> j \<Longrightarrow> span_size (slice i j) = of_nat (j - i)"
  by (simp add: span_size_def slice_def)

lemma unat_slice_size [simp]: "i \<le> j \<Longrightarrow> j < 2 ^ 64 \<Longrightarrow> unat (span_size (slice i j)) = j - i"
  by (simp add: slice_size del: of_nat_diff)

lemma slice_bytes: "i \<le> j \<Longrightarrow> j < 2 ^ 64 \<Longrightarrow> span_bytes buf (slice i j) = take (j - i) (drop i buf)"
  by (simp add: span_bytes_def)

lemma slice_put: "i < 2 ^ 64 \<Longrightarrow> span_put buf (slice i j) xs = overwrite buf i xs"
  by (simp add: span_put_def)

lemma subspan_slice:
  assumes "i \<le> j" "j < 2 ^ 64" "a \<le> j - i"
  shows "subspan (slice i j) (of_nat a) (of_nat c) = Inr (slice (i + a) (i + a + min (unat (of_nat c :: 64 word)) (j - i - a)))"
    and "subspan (slice i j) (of_nat a) dynamic_extent = Inr (slice (i + a) j)"
proof -
  have le: "\<not> of_nat a > span_size (slice i j)"
    using assms by (simp add: word_less_nat_alt)
  have rest: "span_size (slice i j) - of_nat a = of_nat (j - i - a)"
    using assms by (simp add: slice_size)
  have "min x (of_nat (j - i - a) :: 64 word) = of_nat (min (unat x) (j - i - a))" for x
    using assms by (simp add: min_def word_le_nat_alt del: of_nat_diff)
  then show "subspan (slice i j) (of_nat a) (of_nat c) = Inr (slice (i + a) (i + a + min (unat (of_nat c :: 64 word)) (j - i - a)))"
    using le unfolding subspan_def Let_def rest by (simp add: slice_def)
  have "unat dynamic_extent = 2 ^ 64 - 1"
    by (simp add: dynamic_extent_def unsigned_minus_1_eq_mask mask_eq_exp_minus_1)
  then have "min (unat dynamic_extent) (j - i - a) = j - i - a" using assms by simp
  with le \<open>\<And>x. min x (of_nat (j - i - a) :: 64 word) = of_nat (min (unat x) (j - i - a))\<close>
  show "subspan (slice i j) (of_nat a) dynamic_extent = Inr (slice (i + a) j)"
    using assms unfolding subspan_def Let_def rest by (simp add: slice_def algebra_simps)
qed

lemma subspan_slice_upto:
  "i \<le> j \<Longrightarrow> j < 2 ^ 64 \<Longrightarrow> c \<le> j - i \<Longrightarrow> subspan (slice i j) 0 (of_nat c) = Inr (slice i (i + c))"
  using subspan_slice(1) [of i j 0 c] by (simp add: min_def)

section \<open>Scope guards\<close>

text \<open>
  \<^verbatim>\<open>final_action\<close>: the action changes the state of the program; the destructor and the move
  constructor are functions on the guard objects.
\<close>

record 's final_action =
  fa_action :: "'s \<Rightarrow> 's"
  fa_valid :: bool

definition finally_guard :: "('s \<Rightarrow> 's) \<Rightarrow> 's final_action" where
  "finally_guard act = \<lparr>fa_action = act, fa_valid = True\<rparr>"

text \<open>The move constructor gives the new object and what the moved-from object becomes.\<close>

definition final_action_move :: "'s final_action \<Rightarrow> 's final_action \<times> 's final_action" where
  "final_action_move m =
     (\<lparr>fa_action = fa_action m, fa_valid = fa_valid m\<rparr>, m\<lparr>fa_valid := False\<rparr>)"

definition final_action_destroy :: "'s final_action \<Rightarrow> 's \<Rightarrow> 's" where
  "final_action_destroy fa s = fa_action fa s"

definition final_action_assign ::
  "'s final_action \<Rightarrow> 's final_action \<Rightarrow> 's \<Rightarrow> 's final_action \<times> 's final_action \<times> 's" where
  "final_action_assign this m s =
     (let s = (if fa_valid this then fa_action this s else s) in
      (\<lparr>fa_action = fa_action m, fa_valid = fa_valid m\<rparr>, m\<lparr>fa_valid := False\<rparr>, s))"

text \<open>A block that starts with \<^verbatim>\<open>const auto _ = finally(act)\<close>: the guard dies when the block is left.\<close>

definition with_finally :: "('s \<Rightarrow> 's) \<Rightarrow> ('s, 'e, 'a) action \<Rightarrow> ('s, 'e, 'a) action" where
  "with_finally act body =
     (\<lambda>s. case body s of (r, s') \<Rightarrow> (r, final_action_destroy (finally_guard act) s'))"

lemma with_finally_apply: "with_finally act body s = (fst (body s), act (snd (body s)))"
  by (simp add: with_finally_def final_action_destroy_def finally_guard_def split: prod.splits)

section \<open>Properties\<close>

text \<open>
  A subspan of a span that lies in a buffer lies in the buffer and inside the span, whatever
  the count, its bytes are the bytes of the span from \<^verbatim>\<open>offset\<close> on, at most \<^verbatim>\<open>count\<close> of them;
  and \<^verbatim>\<open>subspan\<close> throws \<^verbatim>\<open>Error::out_of_bounds\<close> exactly when the offset is past the end.
\<close>

theorem subspan_safe:
  assumes "span_in sp buf"
  shows "case subspan sp offset count of
      Inr r \<Rightarrow> offset \<le> span_size sp \<and> span_in r buf \<and> sp_first sp \<le> sp_first r \<and> sp_last r \<le> sp_last sp \<and>
        span_bytes buf r = take (unat count) (drop (unat offset) (span_bytes buf sp))
    | Inl e \<Rightarrow> offset > span_size sp \<and> e = Thrown (System_error (make_error_code_ys Out_of_bounds) None)"
proof (cases "offset \<le> span_size sp")
  case True
  from subspan_ok [OF assms True, of count] obtain r where r: "subspan sp offset count = Inr r" "span_in r buf"
    "unat (sp_first r) = unat (sp_first sp) + unat offset"
    "unat (span_size r) = min (unat count) (unat (span_size sp) - unat offset)"
    "unat (sp_last r) \<le> unat (sp_last sp)" by blast
  have "span_bytes buf r = take (unat count) (drop (unat offset) (span_bytes buf sp))"
    using r(3,4) by (simp add: span_bytes_def drop_take add.commute)
  with r True show ?thesis by (simp add: word_le_nat_alt)
next
  case False
  then show ?thesis by (simp add: subspan_def not_le)
qed

theorem subspan_safe_witness:
  "subspan (span_of 2 10) 8 dynamic_extent = Inr \<lparr>sp_first = 10, sp_last = 12\<rparr> \<and>
   span_in \<lparr>sp_first = 10, sp_last = 12\<rparr> [0 ..< 16]"
proof -
  have "span_in (span_of 2 10) [0 ..< 16]" by (simp add: span_in_def span_of_def)
  from subspan_safe [OF this, of 8 dynamic_extent] show ?thesis
    by (simp add: subspan_def span_of_def span_size_def dynamic_extent_def)
qed

text \<open>
  Moving a scope guard does not disarm it. The destructor of \<^verbatim>\<open>final_action\<close> does not look at
  \<^verbatim>\<open>_valid\<close>, so destroying the new guard and then the moved-from one runs the action twice, while
  a guard that is only created and destroyed runs it once.
\<close>

theorem final_action_moved_from_runs_again:
  "(case final_action_move (finally_guard act) of
      (new, old) \<Rightarrow> \<not> fa_valid old \<and> final_action_destroy old (final_action_destroy new s) = act (act s)) \<and>
   final_action_destroy (finally_guard act) s = act s"
  by (simp add: final_action_move_def final_action_destroy_def finally_guard_def)

end
