(* ===== verification/Ys_Io.thy ===== *)
theory Ys_Io
  imports Ys_Span
begin

text \<open>
  The interface between SQLite and a file: \<^verbatim>\<open>sqlite3_io_methods\<close> of \<^verbatim>\<open>sqlite3.h\<close> as a record of
  functions over the state of the file object, with the constants its arguments take. Output
  parameters are part of the state of the call, so that what a method leaves in them on an
  error path is visible. A method that may be a null pointer is an \<open>option\<close>; calling a null
  method has no defined behaviour.
\<close>

section \<open>Constants\<close>

definition SQLITE_OPEN_READONLY :: "32 word" where "SQLITE_OPEN_READONLY = 0x00000001"
definition SQLITE_OPEN_READWRITE :: "32 word" where "SQLITE_OPEN_READWRITE = 0x00000002"
definition SQLITE_OPEN_CREATE :: "32 word" where "SQLITE_OPEN_CREATE = 0x00000004"
definition SQLITE_OPEN_URI :: "32 word" where "SQLITE_OPEN_URI = 0x00000040"
definition SQLITE_OPEN_MEMORY :: "32 word" where "SQLITE_OPEN_MEMORY = 0x00000080"
definition SQLITE_OPEN_MAIN_DB :: "32 word" where "SQLITE_OPEN_MAIN_DB = 0x00000100"
definition SQLITE_OPEN_TEMP_DB :: "32 word" where "SQLITE_OPEN_TEMP_DB = 0x00000200"
definition SQLITE_OPEN_TRANSIENT_DB :: "32 word" where "SQLITE_OPEN_TRANSIENT_DB = 0x00000400"
definition SQLITE_OPEN_MAIN_JOURNAL :: "32 word" where "SQLITE_OPEN_MAIN_JOURNAL = 0x00000800"
definition SQLITE_OPEN_TEMP_JOURNAL :: "32 word" where "SQLITE_OPEN_TEMP_JOURNAL = 0x00001000"
definition SQLITE_OPEN_SUBJOURNAL :: "32 word" where "SQLITE_OPEN_SUBJOURNAL = 0x00002000"
definition SQLITE_OPEN_SUPER_JOURNAL :: "32 word" where "SQLITE_OPEN_SUPER_JOURNAL = 0x00004000"
definition SQLITE_OPEN_MASTER_JOURNAL :: "32 word" where "SQLITE_OPEN_MASTER_JOURNAL = 0x00004000"
definition SQLITE_OPEN_SHAREDCACHE :: "32 word" where "SQLITE_OPEN_SHAREDCACHE = 0x00020000"
definition SQLITE_OPEN_PRIVATECACHE :: "32 word" where "SQLITE_OPEN_PRIVATECACHE = 0x00040000"
definition SQLITE_OPEN_WAL :: "32 word" where "SQLITE_OPEN_WAL = 0x00080000"

lemmas open_flag_defs =
  SQLITE_OPEN_READONLY_def SQLITE_OPEN_READWRITE_def SQLITE_OPEN_CREATE_def SQLITE_OPEN_URI_def
  SQLITE_OPEN_MEMORY_def SQLITE_OPEN_MAIN_DB_def SQLITE_OPEN_TEMP_DB_def
  SQLITE_OPEN_TRANSIENT_DB_def SQLITE_OPEN_MAIN_JOURNAL_def SQLITE_OPEN_TEMP_JOURNAL_def
  SQLITE_OPEN_SUBJOURNAL_def SQLITE_OPEN_SUPER_JOURNAL_def SQLITE_OPEN_MASTER_JOURNAL_def
  SQLITE_OPEN_SHAREDCACHE_def SQLITE_OPEN_PRIVATECACHE_def SQLITE_OPEN_WAL_def

definition SQLITE_LOCK_NONE :: int where "SQLITE_LOCK_NONE = 0"
definition SQLITE_LOCK_SHARED :: int where "SQLITE_LOCK_SHARED = 1"
definition SQLITE_LOCK_RESERVED :: int where "SQLITE_LOCK_RESERVED = 2"
definition SQLITE_LOCK_PENDING :: int where "SQLITE_LOCK_PENDING = 3"
definition SQLITE_LOCK_EXCLUSIVE :: int where "SQLITE_LOCK_EXCLUSIVE = 4"

lemmas lock_defs = SQLITE_LOCK_NONE_def SQLITE_LOCK_SHARED_def SQLITE_LOCK_RESERVED_def
  SQLITE_LOCK_PENDING_def SQLITE_LOCK_EXCLUSIVE_def

definition SQLITE_SYNC_NORMAL :: int where "SQLITE_SYNC_NORMAL = 2"
definition SQLITE_SYNC_FULL :: int where "SQLITE_SYNC_FULL = 3"
definition SQLITE_SYNC_DATAONLY :: int where "SQLITE_SYNC_DATAONLY = 16"

lemmas sync_defs = SQLITE_SYNC_NORMAL_def SQLITE_SYNC_FULL_def SQLITE_SYNC_DATAONLY_def

definition SQLITE_FCNTL_VFSNAME :: int where "SQLITE_FCNTL_VFSNAME = 12"
definition SQLITE_FCNTL_PRAGMA :: int where "SQLITE_FCNTL_PRAGMA = 14"
definition SQLITE_FCNTL_SIZE_LIMIT :: int where "SQLITE_FCNTL_SIZE_LIMIT = 36"
definition SQLITE_FCNTL_RESERVE_BYTES :: int where "SQLITE_FCNTL_RESERVE_BYTES = 38"

lemmas fcntl_defs = SQLITE_FCNTL_VFSNAME_def SQLITE_FCNTL_PRAGMA_def SQLITE_FCNTL_SIZE_LIMIT_def
  SQLITE_FCNTL_RESERVE_BYTES_def

definition SQLITE_IOERR :: int where "SQLITE_IOERR = 10"
definition SQLITE_FULL :: int where "SQLITE_FULL = 13"
definition SQLITE_BUSY :: int where "SQLITE_BUSY = 5"
definition SQLITE_NOMEM :: int where "SQLITE_NOMEM = 7"
definition SQLITE_READONLY :: int where "SQLITE_READONLY = 8"
definition SQLITE_CORRUPT :: int where "SQLITE_CORRUPT = 11"
definition SQLITE_NOTFOUND :: int where "SQLITE_NOTFOUND = 12"
definition SQLITE_IOERR_WRITE :: int where "SQLITE_IOERR_WRITE = extended 10 3"
definition SQLITE_IOERR_NOMEM :: int where "SQLITE_IOERR_NOMEM = extended 10 12"

lemmas io_code_defs = SQLITE_IOERR_def SQLITE_FULL_def SQLITE_BUSY_def SQLITE_NOMEM_def
  SQLITE_READONLY_def SQLITE_CORRUPT_def SQLITE_NOTFOUND_def SQLITE_IOERR_WRITE_def
  SQLITE_IOERR_NOMEM_def

section \<open>The methods of an open file\<close>

text \<open>
  Offsets and sizes are \<^verbatim>\<open>sqlite3_int64\<close>. The argument of a file control is what its \<^verbatim>\<open>void*\<close>
  points to: the strings of a pragma (result, name and value) or of another string-valued
  control, a 64-bit integer, or an object the modelled code does not look at.
\<close>

type_synonym int64 = "64 word"
type_synonym mapped_memory = "nat option"

datatype control_arg =
    Char_pointers "string option list"
  | Int64_pointer int64
  | Opaque_pointer

record 'f io_methods =
  iVersion :: int
  xClose :: "('f, fault, int) action"
  xRead :: "int \<Rightarrow> int64 \<Rightarrow> (byte list \<times> 'f, fault, int) action"
  xWrite :: "byte list \<Rightarrow> int \<Rightarrow> int64 \<Rightarrow> ('f, fault, int) action"
  xTruncate :: "int64 \<Rightarrow> ('f, fault, int) action"
  xSync :: "int \<Rightarrow> ('f, fault, int) action"
  xFileSize :: "(int64 \<times> 'f, fault, int) action"
  xLock :: "(int \<Rightarrow> ('f, fault, int) action) option"
  xUnlock :: "(int \<Rightarrow> ('f, fault, int) action) option"
  xCheckReservedLock :: "((int \<times> 'f, fault, int) action) option"
  xFileControl :: "(int \<Rightarrow> (control_arg \<times> 'f, fault, int) action) option"
  xSectorSize :: "(('f, fault, int) action) option"
  xDeviceCharacteristics :: "(('f, fault, int) action) option"
  xShmMap :: "(int \<Rightarrow> int \<Rightarrow> int \<Rightarrow> (mapped_memory \<times> 'f, fault, int) action) option"
  xShmLock :: "(int \<Rightarrow> int \<Rightarrow> int \<Rightarrow> ('f, fault, int) action) option"
  xShmBarrier :: "(('f, fault, unit) action) option"
  xShmUnmap :: "(int \<Rightarrow> ('f, fault, int) action) option"
  xFetch :: "(int64 \<Rightarrow> int \<Rightarrow> (mapped_memory \<times> 'f, fault, int) action) option"
  xUnfetch :: "(int64 \<Rightarrow> mapped_memory \<Rightarrow> ('f, fault, int) action) option"

text \<open>Calling a method that may be a null pointer.\<close>

definition call_method :: "'m option \<Rightarrow> ('m \<Rightarrow> ('s, fault, 'a) action) \<Rightarrow> ('s, fault, 'a) action" where
  "call_method m k = (case m of None \<Rightarrow> throw Undefined | Some f \<Rightarrow> k f)"

text \<open>
  \<^verbatim>\<open>static_cast<int>\<close> of a \<^verbatim>\<open>std::size_t\<close> and \<^verbatim>\<open>static_cast<std::size_t>\<close> of an \<^verbatim>\<open>int\<close>.
\<close>

definition int_of_size :: "size_t \<Rightarrow> int" where
  "int_of_size n = sint (ucast n :: 32 word)"

definition size_of_int :: "int \<Rightarrow> size_t" where
  "size_of_int i = word_of_int i"

lemma int_of_size_small:
  assumes "n < 2 ^ 31" shows "int_of_size (of_nat n) = int n"
proof -
  have "ucast (of_nat n :: 64 word) = (of_nat n :: 32 word)"
    by (rule bit_word_eqI) (simp add: bit_simps)
  moreover have "sint (of_nat n :: 32 word) = int n"
    using assms by (simp add: signed_of_nat signed_take_bit_int_eq_self_iff)
  ultimately show ?thesis by (simp add: int_of_size_def)
qed

lemma sint_of_nat_small: "n < 2 ^ 63 \<Longrightarrow> sint (of_nat n :: int64) = int n"
  by (simp add: signed_of_nat signed_take_bit_int_eq_self_iff)

lemma size_of_int_nat: "0 \<le> i \<Longrightarrow> i < 2 ^ 31 \<Longrightarrow> unat (size_of_int i) = nat i"
  by (simp add: size_of_int_def unsigned_of_int take_bit_int_eq_self)

section \<open>Running an action on a part of the state\<close>

text \<open>
  A method of an object that owns another object, or the base class part of a derived object,
  runs the inner object's method on its part of the state; an output parameter or a buffer
  rides along.
\<close>

definition on_part :: "('s \<Rightarrow> 'p) \<Rightarrow> ('p \<Rightarrow> 's \<Rightarrow> 's) \<Rightarrow> ('p, 'e, 'a) action \<Rightarrow> ('s, 'e, 'a) action" where
  "on_part get_part put_part m =
     (\<lambda>s. case m (get_part s) of (r, p) \<Rightarrow> (r, put_part p s))"

definition on_part_with :: "('s \<Rightarrow> 'p) \<Rightarrow> ('p \<Rightarrow> 's \<Rightarrow> 's) \<Rightarrow> ('b \<times> 'p, 'e, 'a) action \<Rightarrow> ('b \<times> 's, 'e, 'a) action" where
  "on_part_with get_part put_part m =
     (\<lambda>(b, s). case m (b, get_part s) of (r, b', p) \<Rightarrow> (r, b', put_part p s))"

definition with_output :: "'b \<Rightarrow> ('b \<times> 's, 'e, 'a) action \<Rightarrow> ('s, 'e, 'a \<times> 'b) action" where
  "with_output b m =
     (\<lambda>s. case m (b, s) of (Inl e, _, s') \<Rightarrow> (Inl e, s') | (Inr a, b', s') \<Rightarrow> (Inr (a, b'), s'))"

lemma call_method_simps [simp]:
  "call_method None k = throw Undefined" "call_method (Some f) k = k f"
  by (simp_all add: call_method_def)

section \<open>C functions\<close>

text \<open>A C function returns or has no defined behaviour; it never throws.\<close>

definition c_function :: "('s, fault, 'a) action \<Rightarrow> bool" where
  "c_function m \<longleftrightarrow> (\<forall>s e. fst (m s) \<noteq> Inl (Thrown e))"

lemma c_functionD: "c_function m \<Longrightarrow> m s = (Inl e, s') \<Longrightarrow> e = Terminates \<or> e = Undefined"
  unfolding c_function_def by (cases e) (metis fst_conv)+

text \<open>The values of a \<^verbatim>\<open>sqlite3_int64\<close>; signed arithmetic out of them has no defined behaviour.\<close>

definition i64 :: "int \<Rightarrow> bool" where
  "i64 x \<longleftrightarrow> - (2 ^ 63) \<le> x \<and> x < 2 ^ 63"

end
