(* ===== verification/Ys_Ctype.thy ===== *)
theory Ys_Ctype
  imports Ys_Prelude
begin

text \<open>
  Characters and C strings as \<^verbatim>\<open>sqlite3.c\<close> sees them: the two character tables, the macros that
  look them up, the comparison functions, and \<^verbatim>\<open>strlen\<close>-style walks over a block of memory that
  holds several NUL-terminated strings one after the other.
\<close>

section \<open>Character tables\<close>

definition sqlite3UpperToLower :: "nat list" where
  "sqlite3UpperToLower =
    [0, 1, 2, 3, 4, 5, 6, 7, 8, 9, 10, 11, 12, 13, 14, 15, 16, 17, 18, 19, 20, 21, 22, 23, 24,
     25, 26, 27, 28, 29, 30, 31, 32, 33, 34, 35, 36, 37, 38, 39, 40, 41, 42, 43, 44, 45, 46, 47,
     48, 49, 50, 51, 52, 53, 54, 55, 56, 57, 58, 59, 60, 61, 62, 63, 64, 97, 98, 99, 100, 101,
     102, 103, 104, 105, 106, 107, 108, 109, 110, 111, 112, 113, 114, 115, 116, 117, 118, 119,
     120, 121, 122, 91, 92, 93, 94, 95, 96, 97, 98, 99, 100, 101, 102, 103, 104, 105, 106, 107,
     108, 109, 110, 111, 112, 113, 114, 115, 116, 117, 118, 119, 120, 121, 122, 123, 124, 125,
     126, 127, 128, 129, 130, 131, 132, 133, 134, 135, 136, 137, 138, 139, 140, 141, 142, 143,
     144, 145, 146, 147, 148, 149, 150, 151, 152, 153, 154, 155, 156, 157, 158, 159, 160, 161,
     162, 163, 164, 165, 166, 167, 168, 169, 170, 171, 172, 173, 174, 175, 176, 177, 178, 179,
     180, 181, 182, 183, 184, 185, 186, 187, 188, 189, 190, 191, 192, 193, 194, 195, 196, 197,
     198, 199, 200, 201, 202, 203, 204, 205, 206, 207, 208, 209, 210, 211, 212, 213, 214, 215,
     216, 217, 218, 219, 220, 221, 222, 223, 224, 225, 226, 227, 228, 229, 230, 231, 232, 233,
     234, 235, 236, 237, 238, 239, 240, 241, 242, 243, 244, 245, 246, 247, 248, 249, 250, 251,
     252, 253, 254, 255]"

definition sqlite3CtypeMap :: "nat list" where
  "sqlite3CtypeMap =
    [0, 0, 0, 0, 0, 0, 0, 0, 0, 1, 1, 1, 1, 1, 0, 0, 0, 0, 0, 0, 0, 0, 0, 0, 0, 0, 0, 0, 0, 0, 0,
     0, 1, 0, 128, 0, 64, 0, 0, 128, 0, 0, 0, 0, 0, 0, 0, 0, 12, 12, 12, 12, 12, 12, 12, 12, 12,
     12, 0, 0, 0, 0, 0, 0, 0, 10, 10, 10, 10, 10, 10, 2, 2, 2, 2, 2, 2, 2, 2, 2, 2, 2, 2, 2, 2,
     2, 2, 2, 2, 2, 2, 128, 0, 0, 0, 64, 128, 42, 42, 42, 42, 42, 42, 34, 34, 34, 34, 34, 34, 34,
     34, 34, 34, 34, 34, 34, 34, 34, 34, 34, 34, 34, 34, 0, 0, 0, 0, 0, 64, 64, 64, 64, 64, 64,
     64, 64, 64, 64, 64, 64, 64, 64, 64, 64, 64, 64, 64, 64, 64, 64, 64, 64, 64, 64, 64, 64, 64,
     64, 64, 64, 64, 64, 64, 64, 64, 64, 64, 64, 64, 64, 64, 64, 64, 64, 64, 64, 64, 64, 64, 64,
     64, 64, 64, 64, 64, 64, 64, 64, 64, 64, 64, 64, 64, 64, 64, 64, 64, 64, 64, 64, 64, 64, 64,
     64, 64, 64, 64, 64, 64, 64, 64, 64, 64, 64, 64, 64, 64, 64, 64, 64, 64, 64, 64, 64, 64, 64,
     64, 64, 64, 64, 64, 64, 64, 64, 64, 64, 64, 64, 64, 64, 64, 64, 64, 64, 64, 64, 64, 64, 64,
     64, 64, 64, 64, 64, 64, 64]"

definition ctype :: "char \<Rightarrow> nat" where
  "ctype c = sqlite3CtypeMap ! of_char c"

definition sqlite3Isspace :: "char \<Rightarrow> bool" where
  "sqlite3Isspace c \<longleftrightarrow> ctype c AND 0x01 \<noteq> 0"

definition sqlite3Isalnum :: "char \<Rightarrow> bool" where
  "sqlite3Isalnum c \<longleftrightarrow> ctype c AND 0x06 \<noteq> 0"

definition sqlite3Isalpha :: "char \<Rightarrow> bool" where
  "sqlite3Isalpha c \<longleftrightarrow> ctype c AND 0x02 \<noteq> 0"

definition sqlite3Isdigit :: "char \<Rightarrow> bool" where
  "sqlite3Isdigit c \<longleftrightarrow> ctype c AND 0x04 \<noteq> 0"

definition sqlite3Isxdigit :: "char \<Rightarrow> bool" where
  "sqlite3Isxdigit c \<longleftrightarrow> ctype c AND 0x08 \<noteq> 0"

definition sqlite3Tolower :: "char \<Rightarrow> nat" where
  "sqlite3Tolower c = sqlite3UpperToLower ! of_char c"

definition sqlite3Toupper :: "char \<Rightarrow> nat" where
  "sqlite3Toupper c = of_char c - (ctype c AND 0x20)"

definition sqlite3HexToInt :: "char \<Rightarrow> nat" where
  "sqlite3HexToInt h = (let h = of_char h; h = h + 9 * (1 AND drop_bit 6 h) in h AND 0xf)"

section \<open>Comparison\<close>

text \<open>A C string is the list of its characters without the terminator; index past it reads the NUL.\<close>

definition c_nth :: "string \<Rightarrow> nat \<Rightarrow> char" where
  "c_nth z i = (if i < length z then z ! i else CHR 0x00)"

fun sqlite3StrICmp :: "string \<Rightarrow> string \<Rightarrow> int" where
  "sqlite3StrICmp [] [] = 0"
| "sqlite3StrICmp (a # as) [] = int (sqlite3Tolower a) - int (sqlite3Tolower CHR 0x00)"
| "sqlite3StrICmp [] (b # bs) = int (sqlite3Tolower CHR 0x00) - int (sqlite3Tolower b)"
| "sqlite3StrICmp (a # as) (b # bs) =
     (if a = b then sqlite3StrICmp as bs
      else let c = int (sqlite3Tolower a) - int (sqlite3Tolower b) in
        if c \<noteq> 0 then c else sqlite3StrICmp as bs)"

definition sqlite3_stricmp :: "string option \<Rightarrow> string option \<Rightarrow> int" where
  "sqlite3_stricmp zLeft zRight =
     (case zLeft of
        None \<Rightarrow> (if zRight \<noteq> None then - 1 else 0)
      | Some l \<Rightarrow> (case zRight of None \<Rightarrow> 1 | Some r \<Rightarrow> sqlite3StrICmp l r))"

text \<open>The loop of \<^verbatim>\<open>sqlite3_strnicmp\<close> counts \<^verbatim>\<open>N\<close> down; at \<open>0\<close> characters left the strings are equal.\<close>

fun strnicmp_loop :: "string \<Rightarrow> string \<Rightarrow> nat \<Rightarrow> int" where
  "strnicmp_loop a b 0 = 0"
| "strnicmp_loop a b (Suc N) =
     (if c_nth a 0 \<noteq> CHR 0x00 \<and> sqlite3Tolower (c_nth a 0) = sqlite3Tolower (c_nth b 0)
      then strnicmp_loop (tl a) (tl b) N
      else int (sqlite3Tolower (c_nth a 0)) - int (sqlite3Tolower (c_nth b 0)))"

definition sqlite3_strnicmp :: "string option \<Rightarrow> string option \<Rightarrow> int \<Rightarrow> int" where
  "sqlite3_strnicmp zLeft zRight N =
     (case zLeft of
        None \<Rightarrow> (if zRight \<noteq> None then - 1 else 0)
      | Some a \<Rightarrow> (case zRight of None \<Rightarrow> 1 | Some b \<Rightarrow> strnicmp_loop a b (nat N)))"

definition sqlite3StrIHash :: "string option \<Rightarrow> byte" where
  "sqlite3StrIHash z = (case z of None \<Rightarrow> 0
     | Some s \<Rightarrow> fold (\<lambda>c h. h + of_nat (sqlite3Tolower c)) s 0)"

section \<open>Walking over memory\<close>

text \<open>
  \<open>c_string mem\<close> is the string at the start of a block, \<open>after_string mem\<close> what comes after its
  terminator.
\<close>

definition c_string :: "string \<Rightarrow> string" where
  "c_string mem = takeWhile (\<lambda>c. c \<noteq> CHR 0x00) mem"

definition after_string :: "string \<Rightarrow> string" where
  "after_string mem = drop (length (c_string mem) + 1) mem"

definition nul_free :: "string \<Rightarrow> bool" where
  "nul_free s \<longleftrightarrow> CHR 0x00 \<notin> set s"

lemma nul_free_simps [simp]: "nul_free []" "nul_free (c # cs) \<longleftrightarrow> c \<noteq> CHR 0x00 \<and> nul_free cs"
  "nul_free (xs @ ys) \<longleftrightarrow> nul_free xs \<and> nul_free ys"
  by (auto simp: nul_free_def)

lemma c_string_append [simp]: "nul_free s \<Longrightarrow> c_string (s @ CHR 0x00 # rest) = s"
  unfolding nul_free_def c_string_def by (subst takeWhile_append2) auto

lemma after_string_append [simp]: "nul_free s \<Longrightarrow> after_string (s @ CHR 0x00 # rest) = rest"
  by (simp add: after_string_def)

lemma c_string_nul_free [simp]: "nul_free (c_string mem)"
  by (auto simp: nul_free_def c_string_def dest: set_takeWhileD)

lemma c_string_Cons_nul [simp]: "c_string (CHR 0x00 # rest) = []"
  by (simp add: c_string_def)

lemma after_string_Cons_nul [simp]: "after_string (CHR 0x00 # rest) = rest"
  by (simp add: after_string_def)

lemma length_after_string: "mem \<noteq> [] \<Longrightarrow> length (after_string mem) < length mem"
  by (cases mem) (auto simp: after_string_def)

section \<open>Lemmas on the tables\<close>

text \<open>The two tables by ranges of character codes.\<close>

definition ctype_range :: "nat \<Rightarrow> nat" where
  "ctype_range n =
     (if 128 \<le> n then 0x40 else if n < 9 then 0 else if n \<le> 13 then 1 else if n < 32 then 0
      else if n < 48 then (if n = 32 then 1 else if n = 34 \<or> n = 39 then 0x80 else if n = 36 then 0x40 else 0)
      else if n \<le> 57 then 0x0c else if n < 65 then 0 else if n \<le> 70 then 0x0a else if n \<le> 90 then 2
      else if n < 97 then (if n = 91 \<or> n = 96 then 0x80 else if n = 95 then 0x40 else 0)
      else if n \<le> 102 then 0x2a else if n \<le> 122 then 0x22 else 0)"

lemma table_nth: "xs = map f [0 ..< N] \<Longrightarrow> n < N \<Longrightarrow> xs ! n = f n"
  by simp

lemma sqlite3CtypeMap_range: "n < 256 \<Longrightarrow> sqlite3CtypeMap ! n = ctype_range n"
proof (rule table_nth)
  show "sqlite3CtypeMap = map ctype_range [0 ..< 256]" by code_simp
qed

lemma sqlite3UpperToLower_range:
  "n < 256 \<Longrightarrow> sqlite3UpperToLower ! n = (if 65 \<le> n \<and> n \<le> 90 then n + 32 else n)"
proof (rule table_nth)
  show "sqlite3UpperToLower = map (\<lambda>n. if 65 \<le> n \<and> n \<le> 90 then n + 32 else n) [0 ..< 256]"
    by code_simp
qed

lemma ctype_eq_range: "ctype c = ctype_range (of_char c)"
  using nat_of_char_less [of c] by (simp add: ctype_def sqlite3CtypeMap_range)

lemma sqlite3Tolower_ascii:
  "sqlite3Tolower c =
     (if 65 \<le> (of_char c :: nat) \<and> (of_char c :: nat) \<le> 90 then of_char c + 32 else of_char c)"
  using nat_of_char_less [of c] by (simp only: sqlite3Tolower_def sqlite3UpperToLower_range)

lemma sqlite3Isxdigit_iff:
  "sqlite3Isxdigit c \<longleftrightarrow> (let n = of_char c :: nat in
     48 \<le> n \<and> n \<le> 57 \<or> 65 \<le> n \<and> n \<le> 70 \<or> 97 \<le> n \<and> n \<le> 102)"
  by (simp add: sqlite3Isxdigit_def ctype_eq_range ctype_range_def Let_def)

lemma sqlite3Isdigit_iff:
  "sqlite3Isdigit c \<longleftrightarrow> (let n = of_char c :: nat in 48 \<le> n \<and> n \<le> 57)"
  by (simp add: sqlite3Isdigit_def ctype_eq_range ctype_range_def Let_def)

lemma sqlite3Isspace_iff:
  "sqlite3Isspace c \<longleftrightarrow> (let n = of_char c :: nat in 9 \<le> n \<and> n \<le> 13 \<or> n = 32)"
  by (simp add: sqlite3Isspace_def ctype_eq_range ctype_range_def Let_def)

end
