(* ===== verification/Ys_Uri.thy ===== *)
theory Ys_Uri
  imports Ys_Io Ys_Ctype
begin

text \<open>
  Database filenames: \<^verbatim>\<open>sqlite3ParseUri\<close>, \<^verbatim>\<open>sqlite3_create_filename\<close> and
  \<^verbatim>\<open>sqlite3_uri_parameter\<close> of \<^verbatim>\<open>sqlite3.c\<close>. The encrypting file reads its key and cipher from the
  filename SQLite hands to the VFS, so what that lookup returns decides how a database is
  decrypted. A filename is a block of memory: four zero bytes, the name, the query parameters
  as pairs of strings, and a final zero byte. A pointer into it is the block with an index.
\<close>

type_synonym c_pointer = "(string \<times> nat) option"

abbreviation NUL :: char where "NUL \<equiv> CHR 0x00"

section \<open>Looking up a parameter\<close>

text \<open>The search backwards for four zero bytes; it leaves the block when there are none.\<close>

fun databaseName :: "string \<Rightarrow> nat \<Rightarrow> fault + nat" where
  "databaseName mem zName =
     (if zName < 4 then Inl Undefined
      else if mem ! (zName - 1) \<noteq> NUL \<or> mem ! (zName - 2) \<noteq> NUL \<or>
        mem ! (zName - 3) \<noteq> NUL \<or> mem ! (zName - 4) \<noteq> NUL
      then databaseName mem (zName - 1)
      else Inr zName)"

declare databaseName.simps [simp del]

text \<open>The rest of the block from \<^verbatim>\<open>zFilename\<close>, walked pair by pair.\<close>

function uri_pairs_find :: "string \<Rightarrow> string \<Rightarrow> string option" where
  "uri_pairs_find mem zParam =
     (if mem = [] \<or> hd mem = NUL then None
      else if c_string mem = zParam then Some (c_string (after_string mem))
      else if after_string mem = [] then None
      else uri_pairs_find (after_string (after_string mem)) zParam)"
  by pat_completeness auto
termination
proof (relation "measure (\<lambda>(mem, _). length mem)", goal_cases)
  case (2 mem zParam)
  then have "length (after_string (after_string mem)) < length (after_string mem)"
    by (intro length_after_string)
  with 2 length_after_string [of mem] show ?case by simp
qed simp

declare uri_pairs_find.simps [simp del]

definition uriParameter :: "string \<Rightarrow> nat \<Rightarrow> string \<Rightarrow> string option" where
  "uriParameter mem zFilename zParam = uri_pairs_find (after_string (drop zFilename mem)) zParam"

definition sqlite3_uri_parameter :: "c_pointer \<Rightarrow> string \<Rightarrow> fault + string option" where
  "sqlite3_uri_parameter zFilename zParam =
     (case zFilename of
        None \<Rightarrow> Inr None
      | Some (mem, p) \<Rightarrow>
          (case databaseName mem p of
             Inl e \<Rightarrow> Inl e
           | Inr p \<Rightarrow> Inr (uriParameter mem p zParam)))"

function uri_pairs_nth :: "string \<Rightarrow> nat \<Rightarrow> string option" where
  "uri_pairs_nth mem N =
     (if mem = [] \<or> hd mem = NUL then None
      else if N = 0 then Some (c_string mem)
      else if after_string mem = [] then None
      else uri_pairs_nth (after_string (after_string mem)) (N - 1))"
  by pat_completeness auto
termination
  by (relation "measure snd") auto

declare uri_pairs_nth.simps [simp del]

definition sqlite3_uri_key :: "c_pointer \<Rightarrow> int \<Rightarrow> fault + string option" where
  "sqlite3_uri_key zFilename N =
     (case zFilename of
        None \<Rightarrow> Inr None
      | Some (mem, p) \<Rightarrow>
          if N < 0 then Inr None
          else (case databaseName mem p of
             Inl e \<Rightarrow> Inl e
           | Inr p \<Rightarrow> Inr (uri_pairs_nth (after_string (drop p mem)) (nat N))))"

section \<open>Creating a filename\<close>

definition appendText :: "string \<Rightarrow> string \<Rightarrow> string" where
  "appendText p z = p @ z @ [NUL]"

text \<open>
  \<^verbatim>\<open>azParam\<close> has \<^verbatim>\<open>2*nParam\<close> strings: names and values in turn. The result is the pointer behind
  the four zero bytes, or null when the allocation fails.
\<close>

definition sqlite3_create_filename ::
  "bool \<Rightarrow> string \<Rightarrow> string \<Rightarrow> string \<Rightarrow> string list \<Rightarrow> c_pointer" where
  "sqlite3_create_filename malloc_ok zDatabase zJournal zWal azParam =
     (if \<not> malloc_ok then None
      else
        let p = replicate 4 NUL;
            p = appendText p zDatabase;
            p = foldl appendText p azParam;
            p = p @ [NUL];
            p = appendText p zJournal;
            p = appendText p zWal;
            p = p @ [NUL, NUL]
        in Some (p, 4))"

text \<open>The number of bytes it asks for.\<close>

definition create_filename_bytes :: "string \<Rightarrow> string \<Rightarrow> string \<Rightarrow> string list \<Rightarrow> nat" where
  "create_filename_bytes zDatabase zJournal zWal azParam =
     length zDatabase + length zJournal + length zWal + 10 +
     sum_list (map (\<lambda>z. length z + 1) azParam)"

section \<open>Parsing a URI\<close>

text \<open>
  The authority: after \<^verbatim>\<open>file:\<close>, two slashes start an authority that must be empty or
  \<^verbatim>\<open>localhost\<close>. The result is what is left of the URI, or the text of the bad authority.
\<close>

definition uri_authority :: "string \<Rightarrow> string + string" where
  "uri_authority zUri =
     (let rest = drop 5 zUri in
      if c_nth rest 0 = CHR ''/'' \<and> c_nth rest 1 = CHR ''/'' then
        let rest = drop 2 rest;
            authority = takeWhile (\<lambda>c. c \<noteq> CHR ''/'') rest;
            iIn = 7 + length authority
        in if iIn \<noteq> 7 \<and> (iIn \<noteq> 16 \<or> take 9 rest \<noteq> ''localhost'') then Inl authority
           else Inr (drop (length authority) rest)
      else Inr rest)"

text \<open>What \<^verbatim>\<open>%00\<close> skips, and what an empty option name skips (\<^verbatim>\<open>c\<close> is the character just read).\<close>

definition uri_skip_nul :: "nat \<Rightarrow> string \<Rightarrow> string" where
  "uri_skip_nul eState rest =
     dropWhile (\<lambda>c. c \<noteq> CHR ''#'' \<and> (eState \<noteq> 0 \<or> c \<noteq> CHR ''?'') \<and>
       (eState \<noteq> 1 \<or> (c \<noteq> CHR ''='' \<and> c \<noteq> CHR ''&'')) \<and> (eState \<noteq> 2 \<or> c \<noteq> CHR ''&'')) rest"

fun uri_skip_option :: "char \<Rightarrow> string \<Rightarrow> string" where
  "uri_skip_option c [] = []"
| "uri_skip_option c (d # rest) =
     (if d \<noteq> CHR ''#'' \<and> c \<noteq> CHR ''&'' then uri_skip_option d rest else d # rest)"

lemma length_uri_skip_option: "length (uri_skip_option c rest) \<le> length rest"
  by (induction c rest rule: uri_skip_option.induct) auto

lemma length_uri_skip_nul: "length (uri_skip_nul eState rest) \<le> length rest"
  unfolding uri_skip_nul_def by (rule length_dropWhile_le)

text \<open>The copying loop: the final \<^verbatim>\<open>eState\<close> and what has been written to \<^verbatim>\<open>zFile\<close>.\<close>

function uri_copy :: "nat \<Rightarrow> string \<Rightarrow> string \<Rightarrow> nat \<times> string" where
  "uri_copy eState zFile [] = (eState, zFile)"
| "uri_copy eState zFile (c # rest) =
     (if c = CHR ''#'' then (eState, zFile)
      else if c = CHR ''%'' \<and> sqlite3Isxdigit (c_nth rest 0) \<and> sqlite3Isxdigit (c_nth rest 1) then
        let octet = sqlite3HexToInt (c_nth rest 0) * 16 + sqlite3HexToInt (c_nth rest 1);
            rest = drop 2 rest
        in if octet = 0 then uri_copy eState zFile (uri_skip_nul eState rest)
           else uri_copy eState (zFile @ [char_of octet]) rest
      else if eState = 1 \<and> (c = CHR ''&'' \<or> c = CHR ''='') then
        if zFile = [] \<or> List.last zFile = NUL then uri_copy eState zFile (uri_skip_option c rest)
        else if c = CHR ''&'' then uri_copy eState (zFile @ [NUL] @ [NUL]) rest
        else uri_copy 2 (zFile @ [NUL]) rest
      else if (eState = 0 \<and> c = CHR ''?'') \<or> (eState = 2 \<and> c = CHR ''&'') then
        uri_copy 1 (zFile @ [NUL]) rest
      else uri_copy eState (zFile @ [c]) rest)"
  by pat_completeness auto
termination
  by (relation "measure (\<lambda>(_, _, z). length z)")
    (auto simp: le_imp_less_Suc length_uri_skip_option
      intro: le_less_trans [OF length_uri_skip_nul])

text \<open>Everything the URI branch writes behind the first four zero bytes, and what it allocates.\<close>

definition uri_buffer :: "string \<Rightarrow> string" where
  "uri_buffer rest =
     (let (eState, zFile) = uri_copy 0 [] rest;
          zFile = (if eState = 1 then zFile @ [NUL] else zFile)
      in zFile @ replicate 4 NUL)"

definition uri_allocated :: "string \<Rightarrow> nat" where
  "uri_allocated zUri = length zUri + 8 + length (filter (\<lambda>c. c = CHR ''&'') zUri)"

text \<open>The options that are interpreted while opening.\<close>

datatype open_mode_error = No_such_mode string string | Mode_not_allowed string string

definition aCacheMode :: "(string \<times> 32 word) list" where
  "aCacheMode = [(''shared'', SQLITE_OPEN_SHAREDCACHE), (''private'', SQLITE_OPEN_PRIVATECACHE)]"

definition aOpenMode :: "(string \<times> 32 word) list" where
  "aOpenMode =
    [(''ro'', SQLITE_OPEN_READONLY), (''rw'', SQLITE_OPEN_READWRITE),
     (''rwc'', SQLITE_OPEN_READWRITE OR SQLITE_OPEN_CREATE), (''memory'', SQLITE_OPEN_MEMORY)]"

definition uri_mode ::
  "(string \<times> 32 word) list \<Rightarrow> 32 word \<Rightarrow> 32 word \<Rightarrow> string \<Rightarrow> string \<Rightarrow> 32 word \<Rightarrow> open_mode_error + 32 word" where
  "uri_mode aMode msk limit zModeType zVal flags =
     (let mode = (case map_of aMode zVal of Some m \<Rightarrow> m | None \<Rightarrow> 0) in
      if mode = 0 then Inl (No_such_mode zModeType zVal)
      else if mode AND NOT SQLITE_OPEN_MEMORY > limit then Inl (Mode_not_allowed zModeType zVal)
      else Inr ((flags AND NOT msk) OR mode))"

definition uri_option ::
  "string \<Rightarrow> string \<Rightarrow> string option \<times> 32 word \<Rightarrow> open_mode_error + string option \<times> 32 word" where
  "uri_option zOpt zVal = (\<lambda>(zVfs, flags).
     if zOpt = ''vfs'' then Inr (Some zVal, flags)
     else if zOpt = ''cache'' then
       let msk = SQLITE_OPEN_SHAREDCACHE OR SQLITE_OPEN_PRIVATECACHE in
       map_sum id (Pair zVfs) (uri_mode aCacheMode msk msk ''cache'' zVal flags)
     else if zOpt = ''mode'' then
       let msk = SQLITE_OPEN_READONLY OR SQLITE_OPEN_READWRITE OR SQLITE_OPEN_CREATE OR SQLITE_OPEN_MEMORY in
       map_sum id (Pair zVfs) (uri_mode aOpenMode msk (msk AND flags) ''access'' zVal flags)
     else Inr (zVfs, flags))"

text \<open>The walk over the options; the state at the error is kept, \<^verbatim>\<open>*pFlags\<close> is set from it.\<close>

function uri_options ::
  "string \<Rightarrow> string option \<times> 32 word \<Rightarrow> open_mode_error option \<times> string option \<times> 32 word" where
  "uri_options mem st =
     (if mem = [] \<or> hd mem = NUL then (None, st)
      else let zOpt = c_string mem; zVal = c_string (after_string mem) in
        (case uri_option zOpt zVal st of
           Inl e \<Rightarrow> (Some e, st)
         | Inr st' \<Rightarrow>
             if after_string mem = [] then (None, st')
             else uri_options (after_string (after_string mem)) st'))"
  by pat_completeness auto
termination
proof (relation "measure (\<lambda>(mem, _). length mem)", goal_cases)
  case (2 mem st)
  then have "length (after_string (after_string mem)) < length (after_string mem)"
    by (intro length_after_string)
  with 2 length_after_string [of mem] show ?case by simp
qed simp

declare uri_options.simps [simp del]

datatype uri_error =
  Invalid_uri_authority string | Open_mode open_mode_error | No_such_vfs "string option"

text \<open>
  The outputs of \<^verbatim>\<open>sqlite3ParseUri\<close>: result code, \<^verbatim>\<open>*pFlags\<close>, \<^verbatim>\<open>*ppVfs\<close> (when it is assigned),
  \<^verbatim>\<open>*pzFile\<close> and the cause of the error message.
\<close>

record 'v uri_result =
  pu_rc :: int
  pu_flags :: "32 word"
  pu_vfs :: "'v option option"
  pu_file :: c_pointer
  pu_error :: "uri_error option"

definition parse_uri_find ::
  "(string option \<Rightarrow> 'v option) \<Rightarrow> string option \<Rightarrow> 32 word \<Rightarrow> string \<Rightarrow> 'v uri_result" where
  "parse_uri_find vfs_find zVfs flags zFile =
     (case vfs_find zVfs of
        None \<Rightarrow> \<lparr>pu_rc = SQLITE_ERROR, pu_flags = flags, pu_vfs = Some None, pu_file = None,
                 pu_error = Some (No_such_vfs zVfs)\<rparr>
      | Some v \<Rightarrow> \<lparr>pu_rc = SQLITE_OK, pu_flags = flags, pu_vfs = Some (Some v),
                   pu_file = Some (replicate 4 NUL @ zFile, 4), pu_error = None\<rparr>)"

definition parse_uri_failed :: "int \<Rightarrow> 32 word \<Rightarrow> uri_error \<Rightarrow> 'v uri_result" where
  "parse_uri_failed rc flags e =
     \<lparr>pu_rc = rc, pu_flags = flags, pu_vfs = None, pu_file = None, pu_error = Some e\<rparr>"

definition SQLITE_PERM :: int where "SQLITE_PERM = 3"

definition sqlite3ParseUri ::
  "bool \<Rightarrow> bool \<Rightarrow> (string option \<Rightarrow> 'v option) \<Rightarrow> string option \<Rightarrow> string \<Rightarrow> 32 word \<Rightarrow> 'v uri_result" where
  "sqlite3ParseUri malloc_ok bOpenUri vfs_find zDefaultVfs zUri pFlags =
     (if \<not> malloc_ok then
        \<lparr>pu_rc = SQLITE_NOMEM, pu_flags = pFlags, pu_vfs = None, pu_file = None, pu_error = None\<rparr>
      else if (pFlags AND SQLITE_OPEN_URI \<noteq> 0 \<or> bOpenUri) \<and> length zUri \<ge> 5 \<and> take 5 zUri = ''file:'' then
        let flags = pFlags OR SQLITE_OPEN_URI in
        (case uri_authority zUri of
           Inl authority \<Rightarrow> parse_uri_failed SQLITE_ERROR flags (Invalid_uri_authority authority)
         | Inr rest \<Rightarrow>
             let zFile = uri_buffer rest in
             (case uri_options (after_string zFile) (zDefaultVfs, flags) of
                (Some (No_such_mode t v), _, flags) \<Rightarrow>
                  parse_uri_failed SQLITE_ERROR flags (Open_mode (No_such_mode t v))
              | (Some (Mode_not_allowed t v), _, flags) \<Rightarrow>
                  parse_uri_failed SQLITE_PERM flags (Open_mode (Mode_not_allowed t v))
              | (None, zVfs, flags) \<Rightarrow> parse_uri_find vfs_find zVfs flags zFile))
      else
        parse_uri_find vfs_find zDefaultVfs (pFlags AND NOT SQLITE_OPEN_URI) (zUri @ replicate 4 NUL))"

section \<open>What the lookups return on a block of pairs\<close>

text \<open>A list of parameters as the bytes behind the name.\<close>

definition pairs_block :: "(string \<times> string) list \<Rightarrow> string" where
  "pairs_block ps = concat (map (\<lambda>(k, v). k @ [NUL] @ v @ [NUL]) ps)"

definition proper_pair :: "string \<times> string \<Rightarrow> bool" where
  "proper_pair kv \<longleftrightarrow> fst kv \<noteq> [] \<and> nul_free (fst kv) \<and> nul_free (snd kv)"

lemma pairs_block_simps [simp]:
  "pairs_block [] = []"
  "pairs_block ((k, v) # ps) = k @ NUL # v @ NUL # pairs_block ps"
  by (simp_all add: pairs_block_def)

lemma hd_nul_free: "nul_free k \<Longrightarrow> k \<noteq> [] \<Longrightarrow> hd k \<noteq> NUL"
  by (cases k) auto

lemma uri_pairs_find_block:
  "\<forall>kv\<in>set ps. proper_pair kv \<Longrightarrow> uri_pairs_find (pairs_block ps @ NUL # tail) z = map_of ps z"
proof (induction ps)
  case Nil
  show ?case by (subst uri_pairs_find.simps) simp
next
  case (Cons kv ps)
  obtain k v where kv: "kv = (k, v)" by (cases kv)
  from Cons.prems kv have ok: "k \<noteq> []" "nul_free k" "nul_free v" by (auto simp: proper_pair_def)
  show ?case
    using Cons ok by (subst uri_pairs_find.simps) (simp add: kv hd_nul_free)
qed

lemma uri_pairs_nth_block:
  "\<forall>kv\<in>set ps. proper_pair kv \<Longrightarrow>
   uri_pairs_nth (pairs_block ps @ NUL # tail) n = (if n < length ps then Some (fst (ps ! n)) else None)"
proof (induction ps arbitrary: n)
  case Nil
  show ?case by (subst uri_pairs_nth.simps) simp
next
  case (Cons kv ps)
  obtain k v where kv: "kv = (k, v)" by (cases kv)
  from Cons.prems kv have ok: "k \<noteq> []" "nul_free k" "nul_free v" by (auto simp: proper_pair_def)
  show ?case
    using Cons ok by (subst uri_pairs_nth.simps) (auto simp: kv hd_nul_free nth_Cons')
qed

text \<open>\<open>zruns n xs\<close>: behind \<open>n\<close> zero bytes, \<open>xs\<close> never continues to a run of four.\<close>

fun zruns :: "nat \<Rightarrow> string \<Rightarrow> bool" where
  "zruns n [] \<longleftrightarrow> True"
| "zruns n (c # cs) \<longleftrightarrow> (if c = NUL then n < 3 \<and> zruns (n + 1) cs else zruns 0 cs)"

lemma zruns_mono: "zruns n xs \<Longrightarrow> m \<le> n \<Longrightarrow> zruns m xs"
  by (induction n xs arbitrary: m rule: zruns.induct) (auto split: if_splits)

lemma zruns_nul_free: "nul_free s \<Longrightarrow> s \<noteq> [] \<Longrightarrow> zruns n (s @ rest) \<longleftrightarrow> zruns 0 rest"
proof (induction s arbitrary: n)
  case (Cons c s)
  then show ?case by (cases "s = []") auto
qed simp

lemma zruns_window: "zruns n xs \<Longrightarrow> i + 3 < length xs \<Longrightarrow> \<exists>j<4. xs ! (i + j) \<noteq> NUL"
proof (induction xs arbitrary: n i)
  case (Cons c cs)
  show ?case
  proof (cases i)
    case 0
    from Cons.prems(2) 0 obtain d e f cs' where cs: "cs = d # e # f # cs'"
      by (auto simp: Suc_le_length_iff less_eq_Suc_le numeral_3_eq_3)
    with Cons.prems(1) have "c \<noteq> NUL \<or> d \<noteq> NUL \<or> e \<noteq> NUL \<or> f \<noteq> NUL"
      by auto
    then have "(c # cs) ! 0 \<noteq> NUL \<or> (c # cs) ! 1 \<noteq> NUL \<or> (c # cs) ! 2 \<noteq> NUL \<or> (c # cs) ! 3 \<noteq> NUL"
      by (simp add: cs numeral_3_eq_3 numeral_2_eq_2)
    then show ?thesis
      unfolding 0 add_0 by (elim disjE) (rule exI, rule conjI [rotated], assumption, simp)+
  next
    case (Suc j)
    from Cons.prems(1) have "zruns 0 cs" by (auto split: if_splits intro: zruns_mono)
    from Cons.IH [OF this, of j] Cons.prems(2) Suc show ?thesis by auto
  qed
qed simp

lemma zruns_pairs:
  "\<forall>kv\<in>set ps. proper_pair kv \<Longrightarrow> n < 3 \<Longrightarrow> zruns n (pairs_block ps @ [NUL])"
proof (induction ps arbitrary: n)
  case (Cons kv ps)
  obtain k v where kv: "kv = (k, v)" by (cases kv)
  from Cons.prems kv have ok: "k \<noteq> []" "nul_free k" "nul_free v" by (auto simp: proper_pair_def)
  have tail: "zruns m (pairs_block ps @ [NUL])" if "m < 3" for m using Cons that by simp
  show ?case
    using ok tail by (cases "v = []") (simp_all add: kv zruns_nul_free)
qed simp

lemma databaseName_4: "take 4 mem = replicate 4 NUL \<Longrightarrow> databaseName mem 4 = Inr 4"
proof -
  assume *: "take 4 mem = replicate 4 NUL"
  have "mem ! i = NUL" if "i < 4" for i
    using that nth_take [of i 4 mem] unfolding * by simp
  then show ?thesis by (subst databaseName.simps) simp
qed

lemma databaseName_back:
  assumes mem: "mem = replicate 4 NUL @ body @ rest" and z: "zruns 0 body"
    and ne: "body \<noteq> []" "hd body \<noteq> NUL"
  shows "4 \<le> p \<Longrightarrow> p \<le> 4 + length body \<Longrightarrow> databaseName mem p = Inr 4"
proof (induction p)
  case (Suc p)
  show ?case
  proof (cases "Suc p = 4")
    case True
    then show ?thesis using mem databaseName_4 [of mem] by simp
  next
    case False
    with Suc.prems have p: "4 \<le> p" "p < 4 + length body" by auto
    have nth: "mem ! (4 + i) = body ! i" if "i < length body" for i
      using that by (simp add: mem nth_append)
    have "\<exists>j<4. mem ! (p - j) \<noteq> NUL"
    proof (cases "p < 7")
      case True
      then have "mem ! (p - (p - 4)) \<noteq> NUL" "p - 4 < 4"
        using nth [of 0] ne p(1) by (simp_all add: hd_conv_nth)
      then show ?thesis by blast
    next
      case False
      define i where "i = p - 7"
      have i: "p = i + 7" "i + 3 < length body" using False p by (simp_all add: i_def)
      from zruns_window [OF z i(2)] obtain j where j: "j < 4" "body ! (i + j) \<noteq> NUL" by blast
      then have "mem ! (p - (3 - j)) \<noteq> NUL"
        using nth [of "i + j"] i by (simp add: add.assoc)
      moreover have "3 - j < 4" by simp
      ultimately show ?thesis by blast
    qed
    then obtain j where j: "j < 4" "mem ! (p - j) \<noteq> NUL" by blast
    then consider "j = 0" | "j = 1" | "j = 2" | "j = 3" by linarith
    then have "mem ! p \<noteq> NUL \<or> mem ! (p - 1) \<noteq> NUL \<or> mem ! (p - 2) \<noteq> NUL \<or> mem ! (p - 3) \<noteq> NUL"
      by cases (use j in simp_all)
    moreover have "Suc p - 2 = p - 1" "Suc p - 3 = p - 2" "Suc p - 4 = p - 3" using p by simp_all
    ultimately show ?thesis
      using Suc.IH p by (subst databaseName.simps) (simp del: One_nat_def)
  qed
qed simp
lemma length_pairs_block:
  "length (pairs_block ps) = (\<Sum>z\<leftarrow>concat (map (\<lambda>(k, v). [k, v]) ps). length z + 1)"
  by (induction ps) auto

lemma foldl_appendText:
  "foldl appendText p (concat (map (\<lambda>(k, v). [k, v]) ps)) = p @ pairs_block ps"
  by (induction ps arbitrary: p) (auto simp: appendText_def)

lemma sqlite3_create_filename_block:
  "sqlite3_create_filename True D J W (concat (map (\<lambda>(k, v). [k, v]) ps)) =
   Some (replicate 4 NUL @ (D @ NUL # pairs_block ps @ [NUL]) @ J @ NUL # W @ [NUL, NUL, NUL], 4)"
  by (simp add: sqlite3_create_filename_def foldl_appendText) (simp add: appendText_def)

text \<open>
  A filename made from a database name, a journal name, a WAL name and parameters gives
  every parameter back, by name and by position, and the name itself; it fills exactly the bytes
  allocated for it. The lookup also works from the journal name, which is what a VFS is handed
  for the journal of an encrypted database: the search backwards passes over the parameters and
  stops at the database name.
\<close>

theorem create_filename_parameters:
  assumes ok: "nul_free D" "nul_free J" "\<forall>kv\<in>set ps. proper_pair kv"
    and mem: "sqlite3_create_filename True D J W (concat (map (\<lambda>(k, v). [k, v]) ps)) = Some (mem, p)"
  shows "sqlite3_uri_parameter (Some (mem, p)) z = Inr (map_of ps z) \<and>
    sqlite3_uri_key (Some (mem, p)) (int n) = Inr (if n < length ps then Some (fst (ps ! n)) else None) \<and>
    c_string (drop p mem) = D \<and>
    length mem = create_filename_bytes D J W (concat (map (\<lambda>(k, v). [k, v]) ps)) \<and>
    (D \<noteq> [] \<longrightarrow> (\<exists>q. c_string (drop q mem) = J \<and> sqlite3_uri_parameter (Some (mem, q)) z = Inr (map_of ps z)))"
proof -
  let ?body = "D @ NUL # pairs_block ps @ [NUL]" and ?rest = "J @ NUL # W @ [NUL, NUL, NUL]"
  have m: "mem = replicate 4 NUL @ ?body @ ?rest" and p: "p = 4"
    using mem by (simp_all add: sqlite3_create_filename_block)
  have name: "databaseName mem 4 = Inr 4" by (rule databaseName_4) (simp add: m)
  have behind: "after_string (drop 4 mem) = pairs_block ps @ NUL # ?rest"
    using ok by (simp add: m)
  have param: "sqlite3_uri_parameter (Some (mem, p)) z = Inr (map_of ps z)"
    by (simp add: sqlite3_uri_parameter_def uriParameter_def name p behind uri_pairs_find_block ok)
  moreover have "sqlite3_uri_key (Some (mem, p)) (int n) = Inr (if n < length ps then Some (fst (ps ! n)) else None)"
    by (simp add: sqlite3_uri_key_def name p behind uri_pairs_nth_block ok)
  moreover have "c_string (drop p mem) = D" using ok by (simp add: m p)
  moreover have "length mem = create_filename_bytes D J W (concat (map (\<lambda>(k, v). [k, v]) ps))"
    by (simp add: m create_filename_bytes_def length_pairs_block)
  moreover have "\<exists>q. c_string (drop q mem) = J \<and> sqlite3_uri_parameter (Some (mem, q)) z = Inr (map_of ps z)"
    if D: "D \<noteq> []"
  proof (intro exI conjI)
    let ?q = "4 + length ?body"
    show "c_string (drop ?q mem) = J" using ok by (simp add: m)
    have "zruns 0 ?body" using ok D by (simp add: zruns_nul_free zruns_pairs)
    moreover have "hd ?body \<noteq> NUL" using ok D by (simp add: hd_nul_free)
    ultimately have "databaseName mem ?q = Inr 4"
      by (intro databaseName_back [OF m]) simp_all
    then show "sqlite3_uri_parameter (Some (mem, ?q)) z = Inr (map_of ps z)"
      using param by (simp add: sqlite3_uri_parameter_def p name)
  qed
  ultimately show ?thesis by blast
qed

theorem create_filename_parameters_witness:
  "\<exists>mem q. sqlite3_create_filename True ''db'' ''db-journal'' ''db-wal'' [''cipher'', ''aes-256-gcm'', ''key'', ''''] =
       Some (mem, 4) \<and>
     sqlite3_uri_parameter (Some (mem, 4)) ''cipher'' = Inr (Some ''aes-256-gcm'') \<and>
     sqlite3_uri_key (Some (mem, 4)) (int 1) = Inr (Some ''key'') \<and>
     c_string (drop q mem) = ''db-journal'' \<and> sqlite3_uri_parameter (Some (mem, q)) ''cipher'' = Inr (Some ''aes-256-gcm'')"
proof -
  let ?ps = "[(''cipher'', ''aes-256-gcm''), (''key'', '''')]"
  obtain mem where mem: "sqlite3_create_filename True ''db'' ''db-journal'' ''db-wal'' (concat (map (\<lambda>(k, v). [k, v]) ?ps)) = Some (mem, 4)"
    unfolding sqlite3_create_filename_block by blast
  have pre: "nul_free ''db''" "nul_free ''db-journal''" "\<forall>kv\<in>set ?ps. proper_pair kv"
    by (simp_all add: proper_pair_def)
  from create_filename_parameters [OF pre mem, of "''cipher''" 1] obtain q where
    "c_string (drop q mem) = ''db-journal''" "sqlite3_uri_parameter (Some (mem, q)) ''cipher'' = Inr (Some ''aes-256-gcm'')"
    by auto
  then show ?thesis
    using mem create_filename_parameters [OF pre mem, of "''cipher''" 1] by auto
qed

section \<open>The buffer of the URI parser\<close>

definition ampersands :: "string \<Rightarrow> nat" where
  "ampersands s = length (filter (\<lambda>c. c = CHR ''&'') s)"

lemma ampersands_simps [simp]:
  "ampersands [] = 0" "ampersands (c # s) = (if c = CHR ''&'' then 1 else 0) + ampersands s"
  "ampersands (s @ t) = ampersands s + ampersands t"
  by (simp_all add: ampersands_def)

lemma ampersands_drop: "ampersands (drop n s) \<le> ampersands s"
  using ampersands_simps(3) [of "take n s" "drop n s"] by simp

lemma uri_skip_option_drop: "\<exists>n. uri_skip_option c rest = drop n rest"
proof (induction c rest rule: uri_skip_option.induct)
  case (2 c d rest)
  show ?case
  proof (cases "d \<noteq> CHR ''#'' \<and> c \<noteq> CHR ''&''")
    case True
    with 2 obtain n where "uri_skip_option d rest = drop n rest" by blast
    with True show ?thesis by (intro exI [of _ "Suc n"]) simp
  next
    case False
    then show ?thesis by (intro exI [of _ 0]) auto
  qed
qed simp

lemma ampersands_skip:
  "ampersands (uri_skip_option c rest) \<le> ampersands rest"
  "ampersands (uri_skip_nul eState rest) \<le> ampersands rest"
  using uri_skip_option_drop [of c rest] ampersands_drop
  by (auto simp: uri_skip_nul_def dropWhile_eq_drop)

lemma length_uri_copy:
  "length (snd (uri_copy eState zFile rest)) \<le> length zFile + length rest + ampersands rest"
proof (induction eState zFile rest rule: uri_copy.induct)
  case (2 eState zFile c rest)
  let ?hex = "c = CHR ''%'' \<and> sqlite3Isxdigit (c_nth rest 0) \<and> sqlite3Isxdigit (c_nth rest 1)"
    and ?octet = "sqlite3HexToInt (c_nth rest 0) * 16 + sqlite3HexToInt (c_nth rest 1)"
    and ?mid = "eState = 1 \<and> (c = CHR ''&'' \<or> c = CHR ''='')"
    and ?dup = "zFile = [] \<or> List.last zFile = NUL"
    and ?sep = "eState = 0 \<and> c = CHR ''?'' \<or> eState = 2 \<and> c = CHR ''&''"
  note skip = ampersands_skip(1) [of c rest] ampersands_skip(2) [of eState "drop 2 rest"] ampersands_drop [of 2 rest]
    length_uri_skip_option [of c rest] length_uri_skip_nul [of eState "drop 2 rest"]
  consider "c = CHR ''#''" | (hex0) "c \<noteq> CHR ''#''" ?hex "?octet = 0" | (hex) "c \<noteq> CHR ''#''" ?hex "?octet \<noteq> 0"
    | (dup) "c \<noteq> CHR ''#''" "\<not> ?hex" ?mid ?dup | (amp) "c \<noteq> CHR ''#''" "\<not> ?hex" ?mid "\<not> ?dup" "c = CHR ''&''"
    | (eq) "c \<noteq> CHR ''#''" "\<not> ?hex" ?mid "\<not> ?dup" "c \<noteq> CHR ''&''"
    | (sep) "c \<noteq> CHR ''#''" "\<not> ?hex" "\<not> ?mid" ?sep | (plain) "c \<noteq> CHR ''#''" "\<not> ?hex" "\<not> ?mid" "\<not> ?sep"
    by argo
  then show ?case
  proof cases
    case hex0
    with "2.IH"(1) [OF hex0(1,2) refl refl hex0(3)] skip show ?thesis
      by (simp add: Let_def)
  next
    case hex
    with "2.IH"(2) [OF hex(1,2) refl refl hex(3)] skip show ?thesis
      by (auto simp: Let_def)
  next
    case dup
    with "2.IH"(3) [OF dup] skip show ?thesis by (auto simp: Let_def)
  next
    case amp
    with "2.IH"(4) [OF amp] show ?thesis by (auto simp: Let_def)
  next
    case eq
    with "2.IH"(5) [OF eq] show ?thesis by (auto simp: Let_def)
  next
    case sep
    with "2.IH"(6) [OF sep] show ?thesis by (auto simp: Let_def)
  next
    case plain
    with "2.IH"(7) [OF plain] show ?thesis by (auto simp: Let_def)
  qed simp
qed simp

lemma uri_authority_rest:
  assumes "uri_authority zUri = Inr rest"
  shows "\<exists>n. rest = drop n (drop 5 zUri)"
proof (cases "c_nth (drop 5 zUri) 0 = CHR ''/'' \<and> c_nth (drop 5 zUri) 1 = CHR ''/''")
  case True
  with assms have "rest = drop (length (takeWhile (\<lambda>c. c \<noteq> CHR ''/'') (drop 2 (drop 5 zUri)))) (drop 2 (drop 5 zUri))"
    by (auto simp: uri_authority_def Let_def split: if_splits)
  then show ?thesis unfolding drop_drop [of _ 2 "drop 5 zUri"] by blast
next
  case False
  with assms show ?thesis
    by (intro exI [of _ 0]) (auto simp: uri_authority_def Let_def split: if_splits)
qed

text \<open>
  The parser of URI filenames stays in its buffer. Whatever the URI, the four leading zero
  bytes, the decoded name and options and the four trailing zero bytes together take no more
  than the \<^verbatim>\<open>nUri + 8\<close> bytes and one more for each \<^verbatim>\<open>&\<close> that are allocated: escapes shrink, and
  only an option without a value writes two bytes for one character.
\<close>

theorem uri_buffer_fits:
  assumes "5 \<le> length zUri" and "uri_authority zUri = Inr rest"
  shows "4 + length (uri_buffer rest) \<le> uri_allocated zUri"
proof -
  obtain n where n: "rest = drop n (drop 5 zUri)" using uri_authority_rest [OF assms(2)] by blast
  have "length rest \<le> length zUri - 5" "ampersands rest \<le> ampersands zUri"
    using ampersands_drop [of "n + 5" zUri] by (simp_all add: n add.commute)
  moreover have "length (uri_buffer rest) \<le> length (snd (uri_copy 0 [] rest)) + 5"
    by (auto simp: uri_buffer_def Let_def split: prod.splits)
  ultimately show ?thesis
    using length_uri_copy [of 0 "[]" rest] assms(1) by (simp add: uri_allocated_def ampersands_def)
qed

theorem uri_buffer_fits_witness:
  "4 + length (uri_buffer ''/d?a&b=%20'') \<le> uri_allocated ''file:///d?a&b=%20''"
  by (rule uri_buffer_fits) (simp_all add: uri_authority_def c_nth_def)

section \<open>Printing a URI and parsing it\<close>

definition uri_hex :: "nat \<Rightarrow> char" where
  "uri_hex n = char_of (if n < 10 then 48 + n else 55 + n)"

definition uri_quote :: "string \<Rightarrow> string" where
  "uri_quote s = concat (map (\<lambda>c. if sqlite3Isalnum c then [c]
     else [CHR ''%'', uri_hex (of_char c div 16), uri_hex (of_char c mod 16)]) s)"

fun uri_query :: "(string \<times> string) list \<Rightarrow> string" where
  "uri_query [] = []"
| "uri_query [(k, v)] = uri_quote k @ CHR ''='' # uri_quote v"
| "uri_query ((k, v) # ps) = uri_quote k @ CHR ''='' # uri_quote v @ CHR ''&'' # uri_query ps"

definition uri_print :: "string \<Rightarrow> (string \<times> string) list \<Rightarrow> string" where
  "uri_print name ps = ''file:'' @ uri_quote name @ (if ps = [] then [] else CHR ''?'' # uri_query ps)"

lemma uri_hex_digit:
  assumes "n < 16"
  shows "sqlite3Isxdigit (uri_hex n)" "sqlite3HexToInt (uri_hex n) = n"
proof -
  from assms have "n \<in> {0, 1, 2, 3, 4, 5, 6, 7, 8, 9, 10, 11, 12, 13, 14, 15}" by simp presburger
  then have "sqlite3Isxdigit (uri_hex n) \<and> sqlite3HexToInt (uri_hex n) = n"
    by (elim insertE emptyE) (simp_all add: uri_hex_def sqlite3Isxdigit_iff sqlite3HexToInt_def Let_def)
  then show "sqlite3Isxdigit (uri_hex n)" "sqlite3HexToInt (uri_hex n) = n" by auto
qed

lemma alnum_plain:
  "sqlite3Isalnum c \<Longrightarrow> c \<notin> {CHR ''#'', CHR ''%'', CHR ''&'', CHR ''='', CHR ''?'', CHR ''/''}"
  by (auto simp: sqlite3Isalnum_def ctype_eq_range ctype_range_def)

lemma uri_copy_quote:
  "nul_free s \<Longrightarrow> uri_copy eState zFile (uri_quote s @ rest) = uri_copy eState (zFile @ s) rest"
proof (induction s arbitrary: zFile)
  case Nil
  then show ?case by (simp add: uri_quote_def)
next
  case (Cons c s)
  show ?case
  proof (cases "sqlite3Isalnum c")
    case True
    with alnum_plain [OF True] Cons show ?thesis by (simp add: uri_quote_def)
  next
    case False
    have c: "of_char c < (256::nat)" by (rule nat_of_char_less)
    then have "(of_char c :: nat) div 16 < 16" "(of_char c :: nat) mod 16 < 16"
      by (simp_all add: less_mult_imp_div_less)
    note hex = uri_hex_digit [OF this(1)] uri_hex_digit [OF this(2)]
    have "of_char c \<noteq> (0::nat)" using Cons.prems of_char_eq_iff [of c NUL, where 'a = nat] by auto
    with False Cons hex show ?thesis
      by (simp add: uri_quote_def c_nth_def Let_def)
  qed
qed

lemma last_nul_free: "nul_free k \<Longrightarrow> k \<noteq> [] \<Longrightarrow> List.last k \<noteq> NUL"
  by (metis last_in_set nul_free_def)

lemma uri_copy_query:
  "ps \<noteq> [] \<Longrightarrow> \<forall>kv\<in>set ps. proper_pair kv \<Longrightarrow>
   \<exists>block. pairs_block ps = block @ [NUL] \<and> uri_copy 1 zFile (uri_query ps) = (2, zFile @ block)"
proof (induction ps arbitrary: zFile rule: uri_query.induct)
  case (2 k v)
  then have "k \<noteq> []" "nul_free k" "nul_free v" by (auto simp: proper_pair_def)
  then show ?case
    using uri_copy_quote [of v 2 "zFile @ k @ [NUL]" "[]"]
    by (intro exI [of _ "k @ NUL # v"]) (auto simp: uri_copy_quote last_nul_free)
next
  case (3 k v kv ps)
  then have ok: "k \<noteq> []" "nul_free k" "nul_free v" by (auto simp: proper_pair_def)
  let ?z = "zFile @ k @ NUL # v @ [NUL]"
  from 3 obtain block where
    b: "pairs_block (kv # ps) = block @ [NUL]" "uri_copy 1 ?z (uri_query (kv # ps)) = (2, ?z @ block)"
    by (metis list.distinct(1) list.set_intros(2))
  have "uri_copy 1 zFile (uri_query ((k, v) # kv # ps)) = uri_copy 1 ?z (uri_query (kv # ps))"
    using ok by (auto simp: uri_copy_quote last_nul_free)
  with b show ?case
    by (intro exI [of _ "k @ NUL # v @ NUL # block"]) simp
qed simp

lemma uri_buffer_print:
  assumes "nul_free name" "\<forall>kv\<in>set ps. proper_pair kv"
  shows "uri_buffer (uri_quote name @ (if ps = [] then [] else CHR ''?'' # uri_query ps)) =
    name @ NUL # pairs_block ps @ [NUL, NUL, NUL]"
proof (cases "ps = []")
  case True
  then show ?thesis
    using uri_copy_quote [OF assms(1), of 0 "[]" "[]"] by (simp add: uri_buffer_def numeral_eq_Suc)
next
  case False
  then obtain block where
    b: "pairs_block ps = block @ [NUL]" "uri_copy 1 (name @ [NUL]) (uri_query ps) = (2, (name @ [NUL]) @ block)"
    using uri_copy_query [OF _ assms(2), of "name @ [NUL]"] by blast
  then have "uri_copy 0 [] (uri_quote name @ CHR ''?'' # uri_query ps) = (2, name @ NUL # block)"
    using uri_copy_quote [OF assms(1), of 0 "[]"] by simp
  with False b show ?thesis by (simp add: uri_buffer_def numeral_eq_Suc)
qed

text \<open>The VFS a list of options asks for: the last \<^verbatim>\<open>vfs\<close> wins.\<close>

definition uri_vfs :: "string option \<Rightarrow> (string \<times> string) list \<Rightarrow> string option" where
  "uri_vfs zDefault ps = foldl (\<lambda>z (k, v). if k = ''vfs'' then Some v else z) zDefault ps"

lemma uri_options_block:
  "\<forall>kv\<in>set ps. proper_pair kv \<and> fst kv \<notin> {''cache'', ''mode''} \<Longrightarrow>
   uri_options (pairs_block ps @ NUL # tail) (zVfs, flags) = (None, uri_vfs zVfs ps, flags)"
proof (induction ps arbitrary: zVfs)
  case Nil
  show ?case by (subst uri_options.simps) (simp add: uri_vfs_def)
next
  case (Cons kv ps)
  obtain k v where kv: "kv = (k, v)" by (cases kv)
  from Cons.prems kv have ok: "k \<noteq> []" "nul_free k" "nul_free v" "k \<notin> {''cache'', ''mode''}"
    by (auto simp: proper_pair_def)
  have "uri_option k v (zVfs, flags) = Inr (if k = ''vfs'' then Some v else zVfs, flags)"
    using ok by (simp add: uri_option_def)
  then show ?case
    using Cons ok by (subst uri_options.simps) (auto simp: kv hd_nul_free uri_vfs_def)
qed

lemma uri_authority_print: "uri_authority (''file:'' @ uri_quote name @ query) =
    Inr (uri_quote name @ query)" if "query = [] \<or> hd query = CHR ''?''"
proof -
  have "c_nth (uri_quote name @ query) 0 \<noteq> CHR ''/''"
  proof (cases name)
    case Nil
    with that show ?thesis by (cases query) (auto simp: uri_quote_def c_nth_def)
  next
    case (Cons c s)
    then show ?thesis using alnum_plain [of c] by (auto simp: uri_quote_def c_nth_def)
  qed
  then show ?thesis by (simp add: uri_authority_def)
qed

text \<open>
  C27: printing a filename with parameters as a URI and parsing it gives them back. Any name and
  any parameters without zero bytes, with the names of the parameters not empty and other than
  \<^verbatim>\<open>cache\<close> and \<^verbatim>\<open>mode\<close> (which the parser interprets itself and answers with an error for a value it does not know),
  can be written with escapes for all but letters and digits; the parser decodes them, and the VFS finds the
  name and every parameter in the filename it is handed: \<^verbatim>\<open>key=\<close> and \<^verbatim>\<open>cipher=\<close> of an encrypted
  database arrive as written. The VFS used is the one of the last \<^verbatim>\<open>vfs=\<close>.
\<close>

theorem parse_printed_uri:
  assumes ok: "nul_free name" "\<forall>kv\<in>set ps. proper_pair kv \<and> fst kv \<notin> {''cache'', ''mode''}"
    and uri: "flags AND SQLITE_OPEN_URI \<noteq> 0 \<or> bOpenUri"
    and vfs: "vfs_find (uri_vfs zDefault ps) = Some v"
  shows "\<exists>mem. sqlite3ParseUri True bOpenUri vfs_find zDefault (uri_print name ps) flags =
      \<lparr>pu_rc = SQLITE_OK, pu_flags = flags OR SQLITE_OPEN_URI, pu_vfs = Some (Some v),
       pu_file = Some (mem, 4), pu_error = None\<rparr> \<and>
    c_string (drop 4 mem) = name \<and> (\<forall>z. sqlite3_uri_parameter (Some (mem, 4)) z = Inr (map_of ps z))"
proof (intro exI conjI allI)
  let ?q = "if ps = [] then [] else CHR ''?'' # uri_query ps"
  let ?mem = "replicate 4 NUL @ name @ NUL # pairs_block ps @ [NUL, NUL, NUL]"
  have proper: "\<forall>kv\<in>set ps. proper_pair kv" using ok by blast
  have "uri_authority (uri_print name ps) = Inr (uri_quote name @ ?q)"
    unfolding uri_print_def by (rule uri_authority_print) simp
  moreover have "take 5 (uri_print name ps) = ''file:''" "5 \<le> length (uri_print name ps)"
    by (simp_all add: uri_print_def)
  ultimately show "sqlite3ParseUri True bOpenUri vfs_find zDefault (uri_print name ps) flags =
      \<lparr>pu_rc = SQLITE_OK, pu_flags = flags OR SQLITE_OPEN_URI, pu_vfs = Some (Some v),
       pu_file = Some (?mem, 4), pu_error = None\<rparr>"
    using uri vfs ok uri_buffer_print [OF ok(1) proper] uri_options_block [OF ok(2), of "[NUL, NUL]"]
    by (simp add: sqlite3ParseUri_def parse_uri_find_def)
  show "c_string (drop 4 ?mem) = name" using ok by simp
  show "sqlite3_uri_parameter (Some (?mem, 4)) z = Inr (map_of ps z)" for z
    using ok uri_pairs_find_block [OF proper, of "[NUL, NUL]"]
    by (simp add: sqlite3_uri_parameter_def uriParameter_def databaseName_4)
qed

theorem parse_printed_uri_witness:
  "\<exists>mem. sqlite3ParseUri True True (\<lambda>z. if z = Some ''crypt'' then Some (7::nat) else None) None
      (uri_print ''my db'' [(''vfs'', ''crypt''), (''key'', ''r'' @ [CHR 0x27] @ ''a&b'' @ [CHR 0x27])]) 6 =
      \<lparr>pu_rc = SQLITE_OK, pu_flags = 6 OR SQLITE_OPEN_URI, pu_vfs = Some (Some 7),
       pu_file = Some (mem, 4), pu_error = None\<rparr> \<and>
    c_string (drop 4 mem) = ''my db'' \<and> (\<forall>z. sqlite3_uri_parameter (Some (mem, 4)) z =
      Inr (map_of [(''vfs'', ''crypt''), (''key'', ''r'' @ [CHR 0x27] @ ''a&b'' @ [CHR 0x27])] z))"
  by (rule parse_printed_uri) (simp_all add: proper_pair_def uri_vfs_def)

end
