(* ===== verification/Ys_File.thy ===== *)
theory Ys_File
  imports Ys_Io Ys_Uri
begin

text \<open>
  \<^verbatim>\<open>vfs/file.hpp\<close> and \<^verbatim>\<open>vfs/file.cpp\<close>: the abstract class \<^verbatim>\<open>File\<close> and the C callbacks that SQLite
  calls. The virtual functions of \<^verbatim>\<open>File\<close> are a record of functions over the state of the most
  derived object; a callback finds the object behind the \<^verbatim>\<open>sqlite3_file\<close>, calls the virtual
  function and turns an exception into a result code.
\<close>

section \<open>Enumerations\<close>

datatype File_format =
    main_db | main_journal | temp_db | temp_journal | transient_db | subjournal | super_journal | wal

fun file_format_value :: "File_format \<Rightarrow> 32 word" where
  "file_format_value main_db = SQLITE_OPEN_MAIN_DB"
| "file_format_value main_journal = SQLITE_OPEN_MAIN_JOURNAL"
| "file_format_value temp_db = SQLITE_OPEN_TEMP_DB"
| "file_format_value temp_journal = SQLITE_OPEN_TEMP_JOURNAL"
| "file_format_value transient_db = SQLITE_OPEN_TRANSIENT_DB"
| "file_format_value subjournal = SQLITE_OPEN_SUBJOURNAL"
| "file_format_value super_journal = SQLITE_OPEN_SUPER_JOURNAL"
| "file_format_value wal = SQLITE_OPEN_WAL"

text \<open>\<^verbatim>\<open>master_journal\<close> is a second enumerator with the value of \<^verbatim>\<open>super_journal\<close>.\<close>

abbreviation master_journal :: File_format where "master_journal \<equiv> super_journal"

datatype Sync_flag = sync_normal | sync_full | sync_data_only

fun sync_flag_value :: "Sync_flag \<Rightarrow> int" where
  "sync_flag_value sync_normal = SQLITE_SYNC_NORMAL"
| "sync_flag_value sync_full = SQLITE_SYNC_FULL"
| "sync_flag_value sync_data_only = SQLITE_SYNC_DATAONLY"

datatype Lock_flag = lock_none | lock_shared | lock_reserved | lock_pending | lock_exclusive

fun lock_flag_value :: "Lock_flag \<Rightarrow> int" where
  "lock_flag_value lock_none = SQLITE_LOCK_NONE"
| "lock_flag_value lock_shared = SQLITE_LOCK_SHARED"
| "lock_flag_value lock_reserved = SQLITE_LOCK_RESERVED"
| "lock_flag_value lock_pending = SQLITE_LOCK_PENDING"
| "lock_flag_value lock_exclusive = SQLITE_LOCK_EXCLUSIVE"

text \<open>
  \<^verbatim>\<open>File_control\<close> is cast from any \<^verbatim>\<open>int\<close> without a check, so an operation stays an integer in the
  model; the enumerators are the named values.
\<close>

definition File_control_codes :: "(string \<times> int) list" where
  "File_control_codes =
    [(''lock_state'', 1), (''get_lock_proxy_file'', 2), (''set_lock_proxy_file'', 3),
     (''last_errno'', 4), (''size_hint'', 5), (''chunk_size'', 6), (''file_pointer'', 7),
     (''sync_omitted'', 8), (''win32_av_retry'', 9), (''persist_wal'', 10), (''overwrite'', 11),
     (''vfsname'', 12), (''powersafe_overwrite'', 13), (''pragma'', 14), (''busy_handler'', 15),
     (''temp_filename'', 16), (''mmap_size'', 18), (''trace'', 19), (''has_moved'', 20),
     (''sync'', 21), (''commit_phase_two'', 22), (''win32_set_handle'', 23), (''wal_block'', 24),
     (''zipvfs'', 25), (''rbu'', 26), (''vfs_pointer'', 27), (''journal_pointer'', 28),
     (''win32_get_handle'', 29), (''pdf'', 30), (''begin_atomic_write'', 31),
     (''commit_atomic_write'', 32), (''rollback_atomic_write'', 33), (''lock_timeout'', 34),
     (''data_version'', 35), (''size_limit'', 36), (''checkpoint_done'', 37),
     (''reserve_bytes'', 38), (''checkpoint_start'', 39)]"

definition name_of :: "File_format \<Rightarrow> string" where
  "name_of format =
     (case format of
        main_db \<Rightarrow> ''main db''
      | main_journal \<Rightarrow> ''main journal''
      | _ \<Rightarrow> ''unkown'')"

section \<open>The class\<close>

record 's file_ops =
  File_name :: "'s \<Rightarrow> c_pointer"
  File_format_of :: "'s \<Rightarrow> File_format"
  File_close :: "('s, fault, unit) action"
  File_read :: "int64 \<Rightarrow> (byte list \<times> 's, fault, unit) action"
  File_write :: "byte list \<Rightarrow> int64 \<Rightarrow> ('s, fault, unit) action"
  File_truncate :: "int64 \<Rightarrow> ('s, fault, unit) action"
  File_sync :: "Sync_flag \<Rightarrow> ('s, fault, unit) action"
  File_file_size :: "('s, fault, int64) action"
  File_lock :: "Lock_flag \<Rightarrow> ('s, fault, unit) action"
  File_unlock :: "Lock_flag \<Rightarrow> ('s, fault, unit) action"
  File_has_reserved_lock :: "('s, fault, bool) action"
  File_file_control :: "int \<Rightarrow> (control_arg \<times> 's, fault, unit) action"
  File_sector_size :: "('s, fault, int) action"
  File_device_characteristics :: "('s, fault, int) action"
  File_shm_map :: "int \<Rightarrow> int \<Rightarrow> bool \<Rightarrow> (mapped_memory \<times> 's, fault, unit) action"
  File_shm_lock :: "int \<Rightarrow> int \<Rightarrow> int \<Rightarrow> ('s, fault, unit) action"
  File_shm_barrier :: "('s, fault, unit) action"
  File_shm_unmap :: "int \<Rightarrow> ('s, fault, unit) action"
  File_fetch :: "int64 \<Rightarrow> int \<Rightarrow> (mapped_memory \<times> 's, fault, unit) action"
  File_unfetch :: "int64 \<Rightarrow> mapped_memory \<Rightarrow> ('s, fault, unit) action"

text \<open>\<^verbatim>\<open>File::sector_size\<close>, the default implementation.\<close>

definition File_default_sector_size :: "('s, fault, int) action" where
  "File_default_sector_size = return_with 4096"

section \<open>Callbacks\<close>

text \<open>
  The object behind a \<^verbatim>\<open>sqlite3_file\<close>: \<open>None\<close> once it has been deleted. \<open>on_self\<close> runs a
  member function on it; \<open>on_self_with\<close> runs one that also has an output buffer.
\<close>

definition on_self :: "('s, fault, 'a) action \<Rightarrow> ('s option, fault, 'a) action" where
  "on_self m = (\<lambda>file. case file of
       None \<Rightarrow> (Inl Undefined, None)
     | Some s \<Rightarrow> (case m s of (r, s') \<Rightarrow> (r, Some s')))"

definition on_self_with :: "('b \<times> 's, fault, 'a) action \<Rightarrow> ('b \<times> 's option, fault, 'a) action" where
  "on_self_with m = (\<lambda>(b, file). case file of
       None \<Rightarrow> (Inl Undefined, b, None)
     | Some s \<Rightarrow> (case m (b, s) of (r, b', s') \<Rightarrow> (r, b', Some s')))"

definition lock_flag :: "int \<Rightarrow> ('s, fault, Lock_flag) action" where
  "lock_flag flag =
     (if flag = SQLITE_LOCK_NONE then return_with lock_none
      else if flag = SQLITE_LOCK_SHARED then return_with lock_shared
      else if flag = SQLITE_LOCK_RESERVED then return_with lock_reserved
      else if flag = SQLITE_LOCK_PENDING then return_with lock_pending
      else if flag = SQLITE_LOCK_EXCLUSIVE then return_with lock_exclusive
      else throw_sqlite3 SQLITE_MISUSE)"

definition file_close :: "'s file_ops \<Rightarrow> ('s option, fault, int) action" where
  "file_close ops = file_wrap SQLITE_ERROR (with_finally (\<lambda>_. None) (on_self (File_close ops)))"

text \<open>
  The buffer is as much of memory as the caller gave; the span covers its first \<open>size\<close> bytes.
\<close>

definition file_read :: "'s file_ops \<Rightarrow> int \<Rightarrow> int64 \<Rightarrow> (byte list \<times> 's option, fault, int) action" where
  "file_read ops n offset = file_wrap SQLITE_ERROR (\<lambda>(buffer, file).
     let sp = span_of 0 (size_of_int n) in
       case on_self_with (File_read ops offset) (span_bytes buffer sp, file) of
         (r, bytes, file') \<Rightarrow> (r, span_put buffer sp bytes, file'))"

definition file_write :: "'s file_ops \<Rightarrow> byte list \<Rightarrow> int \<Rightarrow> int64 \<Rightarrow> ('s option, fault, int) action" where
  "file_write ops buffer n offset = file_wrap SQLITE_ERROR
     (on_self (File_write ops (span_bytes buffer (span_of 0 (size_of_int n))) offset))"

definition file_truncate :: "'s file_ops \<Rightarrow> int64 \<Rightarrow> ('s option, fault, int) action" where
  "file_truncate ops n = file_wrap SQLITE_ERROR (on_self (File_truncate ops n))"

definition file_sync :: "'s file_ops \<Rightarrow> int \<Rightarrow> ('s option, fault, int) action" where
  "file_sync ops flag = file_wrap SQLITE_ERROR
     (and_then
       (if flag = SQLITE_SYNC_NORMAL then return_with sync_normal
        else if flag = SQLITE_SYNC_FULL then return_with sync_full
        else if flag = SQLITE_SYNC_DATAONLY then return_with sync_data_only
        else throw_sqlite3 SQLITE_MISUSE)
       (\<lambda>sf. on_self (File_sync ops sf)))"

definition file_file_size :: "'s file_ops \<Rightarrow> (int64 \<times> 's option, fault, int) action" where
  "file_file_size ops = file_wrap SQLITE_ERROR (\<lambda>(out, file).
     case on_self (File_file_size ops) file of
       (Inl e, file') \<Rightarrow> (Inl e, out, file')
     | (Inr n, file') \<Rightarrow> (Inr (), n, file'))"

definition file_lock :: "'s file_ops \<Rightarrow> int \<Rightarrow> ('s option, fault, int) action" where
  "file_lock ops flag =
     file_wrap SQLITE_IOERR_LOCK (and_then (lock_flag flag) (\<lambda>l. on_self (File_lock ops l)))"

definition file_unlock :: "'s file_ops \<Rightarrow> int \<Rightarrow> ('s option, fault, int) action" where
  "file_unlock ops flag =
     file_wrap SQLITE_IOERR_UNLOCK (and_then (lock_flag flag) (\<lambda>l. on_self (File_unlock ops l)))"

definition file_check_reserved_lock :: "'s file_ops \<Rightarrow> (int \<times> 's option, fault, int) action" where
  "file_check_reserved_lock ops = file_wrap SQLITE_IOERR_CHECKRESERVEDLOCK (\<lambda>(out, file).
     case on_self (File_has_reserved_lock ops) file of
       (Inl e, file') \<Rightarrow> (Inl e, 0, file')
     | (Inr b, file') \<Rightarrow> (Inr (), of_bool b, file'))"

definition file_file_control :: "'s file_ops \<Rightarrow> int \<Rightarrow> (control_arg \<times> 's option, fault, int) action" where
  "file_file_control ops operation =
     file_wrap SQLITE_ERROR (on_self_with (File_file_control ops operation))"

definition file_sector_size :: "'s file_ops \<Rightarrow> ('s option, fault, int) action" where
  "file_sector_size ops = noexcept (on_self (File_sector_size ops))"

definition file_device_characteristics :: "'s file_ops \<Rightarrow> ('s option, fault, int) action" where
  "file_device_characteristics ops = noexcept (on_self (File_device_characteristics ops))"

definition file_shm_map ::
  "'s file_ops \<Rightarrow> int \<Rightarrow> int \<Rightarrow> int \<Rightarrow> (mapped_memory \<times> 's option, fault, int) action" where
  "file_shm_map ops page page_size is_write =
     file_wrap SQLITE_ERROR (on_self_with (File_shm_map ops page page_size (is_write \<noteq> 0)))"

definition file_shm_lock :: "'s file_ops \<Rightarrow> int \<Rightarrow> int \<Rightarrow> int \<Rightarrow> ('s option, fault, int) action" where
  "file_shm_lock ops offset n flags = file_wrap SQLITE_ERROR (on_self (File_shm_lock ops offset n flags))"

definition file_shm_barrier :: "'s file_ops \<Rightarrow> ('s option, fault, unit) action" where
  "file_shm_barrier ops = on_self (File_shm_barrier ops)"

definition file_shm_unmap :: "'s file_ops \<Rightarrow> int \<Rightarrow> ('s option, fault, int) action" where
  "file_shm_unmap ops delete_flag = file_wrap SQLITE_ERROR (on_self (File_shm_unmap ops delete_flag))"

definition file_fetch :: "'s file_ops \<Rightarrow> int64 \<Rightarrow> int \<Rightarrow> (mapped_memory \<times> 's option, fault, int) action" where
  "file_fetch ops offset amount = file_wrap SQLITE_ERROR (on_self_with (File_fetch ops offset amount))"

definition file_unfetch :: "'s file_ops \<Rightarrow> int64 \<Rightarrow> mapped_memory \<Rightarrow> ('s option, fault, int) action" where
  "file_unfetch ops offset buffer = file_wrap SQLITE_ERROR (on_self (File_unfetch ops offset buffer))"

text \<open>The constructor fills the method table of the object; \<^verbatim>\<open>File::methods\<close> returns it.\<close>

definition File_methods :: "'s file_ops \<Rightarrow> 's option io_methods" where
  "File_methods ops =
     \<lparr>iVersion = 3, xClose = file_close ops, xRead = file_read ops, xWrite = file_write ops,
      xTruncate = file_truncate ops, xSync = file_sync ops, xFileSize = file_file_size ops,
      xLock = Some (file_lock ops), xUnlock = Some (file_unlock ops),
      xCheckReservedLock = Some (file_check_reserved_lock ops),
      xFileControl = Some (file_file_control ops), xSectorSize = Some (file_sector_size ops),
      xDeviceCharacteristics = Some (file_device_characteristics ops),
      xShmMap = Some (file_shm_map ops), xShmLock = Some (file_shm_lock ops),
      xShmBarrier = Some (file_shm_barrier ops), xShmUnmap = Some (file_shm_unmap ops),
      xFetch = Some (file_fetch ops), xUnfetch = Some (file_unfetch ops)\<rparr>"

end
