(* ===== verification/Ys_File_Wrapper.thy ===== *)
theory Ys_File_Wrapper
  imports Ys_File
begin

text \<open>
  \<^verbatim>\<open>vfs/sqlite3_file_wrapper.hpp\<close> and \<^verbatim>\<open>.cpp\<close>: a \<^verbatim>\<open>File\<close> that forwards every call to a file
  of another VFS. \<open>M\<close> is the method table of the parent file; the parent object is held through a
  \<^verbatim>\<open>shared_ptr\<close> that \<^verbatim>\<open>close\<close> resets.
\<close>

section \<open>The class\<close>

record 'f sqlite3_file_wrapper =
  fw_name :: c_pointer
  fw_format :: File_format
  fw_parent :: "'f option"

definition assert_error :: "int \<Rightarrow> ('s, fault, unit) action" where
  "assert_error ec = (if ec \<noteq> 0 then throw_sqlite3 ec else return_with ())"

definition wrapper_construct :: "c_pointer \<Rightarrow> File_format \<Rightarrow> 'f option \<Rightarrow> 'f sqlite3_file_wrapper" where
  "wrapper_construct name format parent =
     \<lparr>fw_name = name, fw_format = format, fw_parent = parent\<rparr>"

text \<open>A call through \<^verbatim>\<open>_parent->pMethods\<close>, without and with an output parameter.\<close>

definition on_parent :: "('f, fault, 'a) action \<Rightarrow> ('f sqlite3_file_wrapper, fault, 'a) action" where
  "on_parent m = (\<lambda>s. case fw_parent s of
       None \<Rightarrow> (Inl Undefined, s)
     | Some p \<Rightarrow> (case m p of (r, p') \<Rightarrow> (r, s\<lparr>fw_parent := Some p'\<rparr>)))"

definition on_parent_with ::
  "('b \<times> 'f, fault, 'a) action \<Rightarrow> ('b \<times> 'f sqlite3_file_wrapper, fault, 'a) action" where
  "on_parent_with m = (\<lambda>(b, s). case fw_parent s of
       None \<Rightarrow> (Inl Undefined, b, s)
     | Some p \<Rightarrow> (case m (b, p) of (r, b', p') \<Rightarrow> (r, b', s\<lparr>fw_parent := Some p'\<rparr>)))"

definition wrapper_close :: "'f io_methods \<Rightarrow> ('f sqlite3_file_wrapper, fault, unit) action" where
  "wrapper_close M =
     with_finally (\<lambda>s. s\<lparr>fw_parent := None\<rparr>) (and_then (on_parent (xClose M)) assert_error)"

definition wrapper_read ::
  "'f io_methods \<Rightarrow> int64 \<Rightarrow> (byte list \<times> 'f sqlite3_file_wrapper, fault, unit) action" where
  "wrapper_read M offset = (\<lambda>(buffer, s).
     and_then (on_parent_with (xRead M (int_of_size (of_nat (length buffer))) offset)) assert_error (buffer, s))"

definition wrapper_write ::
  "'f io_methods \<Rightarrow> byte list \<Rightarrow> int64 \<Rightarrow> ('f sqlite3_file_wrapper, fault, unit) action" where
  "wrapper_write M buffer offset =
     and_then (on_parent (xWrite M buffer (int_of_size (of_nat (length buffer))) offset)) assert_error"

definition wrapper_truncate :: "'f io_methods \<Rightarrow> int64 \<Rightarrow> ('f sqlite3_file_wrapper, fault, unit) action" where
  "wrapper_truncate M n = and_then (on_parent (xTruncate M n)) assert_error"

definition wrapper_sync :: "'f io_methods \<Rightarrow> Sync_flag \<Rightarrow> ('f sqlite3_file_wrapper, fault, unit) action" where
  "wrapper_sync M flag = and_then (on_parent (xSync M (sync_flag_value flag))) assert_error"

definition wrapper_file_size :: "'f io_methods \<Rightarrow> ('f sqlite3_file_wrapper, fault, int64) action" where
  "wrapper_file_size M =
     and_then (with_output 0 (on_parent_with (xFileSize M)))
       (\<lambda>(ec, n). and_then (assert_error ec) (\<lambda>_. return_with n))"

definition wrapper_lock :: "'f io_methods \<Rightarrow> Lock_flag \<Rightarrow> ('f sqlite3_file_wrapper, fault, unit) action" where
  "wrapper_lock M flag =
     and_then (on_parent (call_method (xLock M) (\<lambda>f. f (lock_flag_value flag)))) assert_error"

definition wrapper_unlock :: "'f io_methods \<Rightarrow> Lock_flag \<Rightarrow> ('f sqlite3_file_wrapper, fault, unit) action" where
  "wrapper_unlock M flag =
     and_then (on_parent (call_method (xUnlock M) (\<lambda>f. f (lock_flag_value flag)))) assert_error"

definition wrapper_has_reserved_lock :: "'f io_methods \<Rightarrow> ('f sqlite3_file_wrapper, fault, bool) action" where
  "wrapper_has_reserved_lock M =
     and_then (with_output 0 (on_parent_with (call_method (xCheckReservedLock M) id)))
       (\<lambda>(ec, r). and_then (assert_error ec) (\<lambda>_. return_with (r \<noteq> 0)))"

definition wrapper_file_control ::
  "'f io_methods \<Rightarrow> int \<Rightarrow> (control_arg \<times> 'f sqlite3_file_wrapper, fault, unit) action" where
  "wrapper_file_control M operation =
     and_then (on_parent_with (call_method (xFileControl M) (\<lambda>f. f operation))) assert_error"

definition wrapper_sector_size :: "'f io_methods \<Rightarrow> ('f sqlite3_file_wrapper, fault, int) action" where
  "wrapper_sector_size M =
     on_parent (case xSectorSize M of Some f \<Rightarrow> f | None \<Rightarrow> File_default_sector_size)"

definition wrapper_device_characteristics :: "'f io_methods \<Rightarrow> ('f sqlite3_file_wrapper, fault, int) action" where
  "wrapper_device_characteristics M = on_parent (call_method (xDeviceCharacteristics M) id)"

definition wrapper_shm_map ::
  "'f io_methods \<Rightarrow> int \<Rightarrow> int \<Rightarrow> bool \<Rightarrow> (mapped_memory \<times> 'f sqlite3_file_wrapper, fault, unit) action" where
  "wrapper_shm_map M page page_size is_write =
     and_then (on_parent_with (call_method (xShmMap M) (\<lambda>f. f page page_size (of_bool is_write))))
       assert_error"

definition wrapper_shm_lock ::
  "'f io_methods \<Rightarrow> int \<Rightarrow> int \<Rightarrow> int \<Rightarrow> ('f sqlite3_file_wrapper, fault, unit) action" where
  "wrapper_shm_lock M offset n flags =
     and_then (on_parent (call_method (xShmLock M) (\<lambda>f. f offset n flags))) assert_error"

definition wrapper_shm_barrier :: "'f io_methods \<Rightarrow> ('f sqlite3_file_wrapper, fault, unit) action" where
  "wrapper_shm_barrier M = on_parent (call_method (xShmBarrier M) id)"

definition wrapper_shm_unmap :: "'f io_methods \<Rightarrow> int \<Rightarrow> ('f sqlite3_file_wrapper, fault, unit) action" where
  "wrapper_shm_unmap M delete_flag =
     and_then (on_parent (call_method (xShmUnmap M) (\<lambda>f. f delete_flag))) assert_error"

definition wrapper_fetch ::
  "'f io_methods \<Rightarrow> int64 \<Rightarrow> int \<Rightarrow> (mapped_memory \<times> 'f sqlite3_file_wrapper, fault, unit) action" where
  "wrapper_fetch M offset amount =
     and_then (on_parent_with (call_method (xFetch M) (\<lambda>f. f offset amount))) assert_error"

definition wrapper_unfetch ::
  "'f io_methods \<Rightarrow> int64 \<Rightarrow> mapped_memory \<Rightarrow> ('f sqlite3_file_wrapper, fault, unit) action" where
  "wrapper_unfetch M offset buffer =
     and_then (on_parent (call_method (xUnfetch M) (\<lambda>f. f offset buffer))) assert_error"

definition SQLite3_file_wrapper :: "'f io_methods \<Rightarrow> 'f sqlite3_file_wrapper file_ops" where
  "SQLite3_file_wrapper M =
     \<lparr>File_name = fw_name, File_format_of = fw_format, File_close = wrapper_close M,
      File_read = wrapper_read M, File_write = wrapper_write M, File_truncate = wrapper_truncate M,
      File_sync = wrapper_sync M, File_file_size = wrapper_file_size M,
      File_lock = wrapper_lock M, File_unlock = wrapper_unlock M,
      File_has_reserved_lock = wrapper_has_reserved_lock M,
      File_file_control = wrapper_file_control M, File_sector_size = wrapper_sector_size M,
      File_device_characteristics = wrapper_device_characteristics M,
      File_shm_map = wrapper_shm_map M, File_shm_lock = wrapper_shm_lock M,
      File_shm_barrier = wrapper_shm_barrier M, File_shm_unmap = wrapper_shm_unmap M,
      File_fetch = wrapper_fetch M, File_unfetch = wrapper_unfetch M\<rparr>"

lemma assert_error_simps [simp]:
  "assert_error 0 = return_with ()" "ec \<noteq> 0 \<Longrightarrow> assert_error ec = throw_sqlite3 ec"
  by (simp_all add: assert_error_def)

lemma wrapper_ops_simps [simp]:
  "File_name (SQLite3_file_wrapper M) = fw_name"
  "File_format_of (SQLite3_file_wrapper M) = fw_format"
  "File_close (SQLite3_file_wrapper M) = wrapper_close M"
  "File_read (SQLite3_file_wrapper M) = wrapper_read M"
  "File_write (SQLite3_file_wrapper M) = wrapper_write M"
  "File_lock (SQLite3_file_wrapper M) = wrapper_lock M"
  "File_file_control (SQLite3_file_wrapper M) = wrapper_file_control M"
  by (simp_all add: SQLite3_file_wrapper_def)

end
