(* ===== verification/Ys_Page_File.thy ===== *)
theory Ys_Page_File
  imports Ys_File_Wrapper
begin

text \<open>
  \<^verbatim>\<open>vfs/page_transforming_file.hpp\<close>: a file that encodes the pages of the main database on the
  way down and decodes them on the way up. The parent class is a record of operations over its
  part of the object; the virtual functions a derived class overrides are a \<open>page_codec\<close> over
  the derived part.
\<close>

section \<open>The class\<close>

record 'd page_codec =
  encode_page :: "(byte list \<times> 'd, fault, unit) action"
  decode_page :: "(byte list \<times> 'd, fault, unit) action"
  check_reserve_size :: "byte \<Rightarrow> 'd \<Rightarrow> bool"

text \<open>\<^verbatim>\<open>check_reserve_size\<close> of the class itself.\<close>

definition default_check_reserve_size :: "byte \<Rightarrow> 'd \<Rightarrow> bool" where
  "default_check_reserve_size reserved d = True"

record ('p, 'd) page_file =
  pf_parent :: 'p
  pf_tmp_buffer :: "byte list"
  pf_page_size :: "32 word"
  pf_derived :: 'd

definition page_construct :: "'p \<Rightarrow> 'd \<Rightarrow> ('p, 'd) page_file" where
  "page_construct parent derived =
     \<lparr>pf_parent = parent, pf_tmp_buffer = [], pf_page_size = 0, pf_derived = derived\<rparr>"

abbreviation on_base :: "('p, fault, 'a) action \<Rightarrow> (('p, 'd) page_file, fault, 'a) action" where
  "on_base \<equiv> on_part pf_parent (\<lambda>p s. s\<lparr>pf_parent := p\<rparr>)"

abbreviation on_base_with ::
  "('b \<times> 'p, fault, 'a) action \<Rightarrow> ('b \<times> ('p, 'd) page_file, fault, 'a) action" where
  "on_base_with \<equiv> on_part_with pf_parent (\<lambda>p s. s\<lparr>pf_parent := p\<rparr>)"

abbreviation on_derived_with ::
  "('b \<times> 'd, fault, 'a) action \<Rightarrow> ('b \<times> ('p, 'd) page_file, fault, 'a) action" where
  "on_derived_with \<equiv> on_part_with pf_derived (\<lambda>d s. s\<lparr>pf_derived := d\<rparr>)"

text \<open>Runs a transformation on the bytes of a span and leaves the rest of the buffer alone.\<close>

definition on_span :: "span \<Rightarrow> (byte list \<times> 's, fault, 'a) action \<Rightarrow> (byte list \<times> 's, fault, 'a) action" where
  "on_span sp m = (\<lambda>(buffer, s).
     case m (span_bytes buffer sp, s) of (r, bytes, s') \<Rightarrow> (r, span_put buffer sp bytes, s'))"

definition whole :: "'a list \<Rightarrow> span" where
  "whole buffer = span_of 0 (of_nat (length buffer))"

definition is_page :: "File_format \<Rightarrow> size_t \<Rightarrow> int64 \<Rightarrow> bool" where
  "is_page format n offset \<longleftrightarrow> format = main_db \<and> n \<ge> 512"

text \<open>\<^verbatim>\<open>buffer.begin()[i]\<close> with a signed index; nothing is known about a read outside the buffer.\<close>

definition byte_at :: "byte list \<Rightarrow> int64 \<Rightarrow> ('s, fault, byte) action" where
  "byte_at buffer i =
     (if 0 \<le> sint i \<and> sint i < int (length buffer) then return_with (buffer ! nat (sint i))
      else throw Undefined)"

text \<open>
  \<^verbatim>\<open>offset <= 16\<close> compares signed numbers, \<^verbatim>\<open>offset + buffer.size() >= 18\<close> unsigned ones.
\<close>

definition parse_page_size :: "byte list \<Rightarrow> int64 \<Rightarrow> (('p, 'd) page_file, fault, unit) action" where
  "parse_page_size buffer offset =
     (if sint offset \<le> 16 \<and> offset + of_nat (length buffer) \<ge> 18 then
        and_then (byte_at buffer (16 - offset)) (\<lambda>hi.
        and_then (byte_at buffer (17 - offset)) (\<lambda>lo. \<lambda>s.
          let v = (push_bit 8 (ucast hi) OR ucast lo :: 32 word);
              v = (if v = 1 then 65536 else v)
          in (Inr (), s\<lparr>pf_page_size := v\<rparr>)))
      else return_with ())"

definition parse_reserve_size ::
  "'d page_codec \<Rightarrow> byte list \<Rightarrow> int64 \<Rightarrow> (('p, 'd) page_file, fault, unit) action" where
  "parse_reserve_size C buffer offset =
     (if sint offset \<le> 20 \<and> offset + of_nat (length buffer) \<ge> 21 then
        and_then (byte_at buffer (20 - offset)) (\<lambda>b. \<lambda>s.
          if \<not> check_reserve_size C b (pf_derived s)
          then (Inl (Thrown (System_error (make_error_code SQLITE_ERROR) (Some ''bad reserve size''))), s)
          else (Inr (), s))
      else return_with ())"

definition parse_parameters ::
  "'p file_ops \<Rightarrow> 'd page_codec \<Rightarrow> byte list \<Rightarrow> int64 \<Rightarrow> (('p, 'd) page_file, fault, unit) action" where
  "parse_parameters P C buffer offset = (\<lambda>s.
     if File_format_of P (pf_parent s) = main_db
     then and_then (parse_page_size buffer offset) (\<lambda>_. parse_reserve_size C buffer offset) s
     else (Inr (), s))"

text \<open>The part of a page that is transformed: all of it, or what follows the database header.\<close>

definition page_read ::
  "'p file_ops \<Rightarrow> 'd page_codec \<Rightarrow> int64 \<Rightarrow> (byte list \<times> ('p, 'd) page_file, fault, unit) action" where
  "page_read P C offset = (\<lambda>(buffer, s).
     if is_page (File_format_of P (pf_parent s)) (of_nat (length buffer)) offset then
       and_then (on_base_with (File_read P offset)) (\<lambda>_.
       and_then (\<lambda>(buffer, s).
           and_then
             (lift_result
               (if File_format_of P (pf_parent s) = main_db \<and> offset = 0
                then subspan (whole buffer) 100 dynamic_extent
                else Inr (whole buffer)))
             (\<lambda>sp. on_span sp (on_derived_with (decode_page C))) (buffer, s)) (\<lambda>_.
       (\<lambda>(buffer, s). case parse_parameters P C buffer offset s of (r, s') \<Rightarrow> (r, buffer, s'))))
         (buffer, s)
     else on_base_with (File_read P offset) (buffer, s))"

text \<open>\<^verbatim>\<open>encode_page({p + 100, n - 100})\<close> on the temporary buffer, which keeps what was written to it.\<close>

definition encode_tmp :: "'d page_codec \<Rightarrow> span \<Rightarrow> (('p, 'd) page_file, fault, unit) action" where
  "encode_tmp C sp = (\<lambda>s.
     case on_span sp (encode_page C) (pf_tmp_buffer s, pf_derived s) of
       (r, tmp, d) \<Rightarrow> (r, s\<lparr>pf_tmp_buffer := tmp, pf_derived := d\<rparr>))"

definition page_write ::
  "'p file_ops \<Rightarrow> 'd page_codec \<Rightarrow> byte list \<Rightarrow> int64 \<Rightarrow> (('p, 'd) page_file, fault, unit) action" where
  "page_write P C buffer offset = (\<lambda>s.
     if is_page (File_format_of P (pf_parent s)) (of_nat (length buffer)) offset then
       and_then (parse_parameters P C buffer offset) (\<lambda>_.
       and_then (\<lambda>s. (Inr (), s\<lparr>pf_tmp_buffer := buffer\<rparr>)) (\<lambda>_.
       and_then (\<lambda>s.
           let n = of_nat (length (pf_tmp_buffer s)) in
           if File_format_of P (pf_parent s) = main_db \<and> offset = 0
           then encode_tmp C (span_of 100 (n - 100)) s
           else encode_tmp C (span_of 0 n) s) (\<lambda>_.
       (\<lambda>s. on_base (File_write P (pf_tmp_buffer s) offset) s)))) s
     else on_base (File_write P buffer offset) s)"

text \<open>Everything else is inherited.\<close>

definition Page_transforming_file :: "'p file_ops \<Rightarrow> 'd page_codec \<Rightarrow> ('p, 'd) page_file file_ops" where
  "Page_transforming_file P C =
     \<lparr>File_name = File_name P \<circ> pf_parent, File_format_of = File_format_of P \<circ> pf_parent,
      File_close = on_base (File_close P),
      File_read = page_read P C, File_write = page_write P C,
      File_truncate = (\<lambda>n. on_base (File_truncate P n)), File_sync = (\<lambda>f. on_base (File_sync P f)),
      File_file_size = on_base (File_file_size P),
      File_lock = (\<lambda>l. on_base (File_lock P l)), File_unlock = (\<lambda>l. on_base (File_unlock P l)),
      File_has_reserved_lock = on_base (File_has_reserved_lock P),
      File_file_control = (\<lambda>c. on_base_with (File_file_control P c)),
      File_sector_size = on_base (File_sector_size P),
      File_device_characteristics = on_base (File_device_characteristics P),
      File_shm_map = (\<lambda>a b c. on_base_with (File_shm_map P a b c)),
      File_shm_lock = (\<lambda>a b c. on_base (File_shm_lock P a b c)),
      File_shm_barrier = on_base (File_shm_barrier P),
      File_shm_unmap = (\<lambda>d. on_base (File_shm_unmap P d)),
      File_fetch = (\<lambda>a b. on_base_with (File_fetch P a b)),
      File_unfetch = (\<lambda>a b. on_base (File_unfetch P a b))\<rparr>"

end
