(* ===== verification/Ys_Byte_Store.thy ===== *)
theory Ys_Byte_Store
  imports Ys_Io
begin

text \<open>
  The contract of a file as an array of bytes, for the method table of an open file: reads inside
  the file return its bytes, reads past its end are short, a write that succeeds replaces bytes
  (zero-filling a gap) and one that fails changes nothing. \<open>opened\<close> is the invariant of the open
  file. The clients that store pages in a file are proved against it.
\<close>

definition write_at :: "byte list \<Rightarrow> nat \<Rightarrow> byte list \<Rightarrow> byte list" where
  "write_at c off bs =
     take off c @ replicate (off - length c) 0 @ bs @ drop (off + length bs) c"

lemma length_write_at [simp]: "length (write_at c off bs) = max (length c) (off + length bs)"
  by (simp add: write_at_def min_def max_def)

lemma read_write_at_same [simp]: "take (length bs) (drop off (write_at c off bs)) = bs"
  by (simp add: write_at_def min_def)

lemma read_write_at_before:
  "off' + n \<le> off \<Longrightarrow> off' + n \<le> length c \<Longrightarrow> take n (drop off' (write_at c off bs)) = take n (drop off' c)"
  by (auto simp: write_at_def intro!: nth_equalityI simp: nth_append)

lemma read_write_at_after:
  assumes "off + length bs \<le> off'" "off' + n \<le> length c"
  shows "take n (drop off' (write_at c off bs)) = take n (drop off' c)"
proof (cases "n = 0")
  case False
  with assms have "drop off' (write_at c off bs) = drop (off' - off - length bs) (drop (off + length bs) c)"
    by (simp add: write_at_def min_def)
  then show ?thesis using assms by (simp add: algebra_simps)
qed simp

locale byte_store =
  fixes M :: "'f io_methods"
    and content :: "'f \<Rightarrow> byte list"
    and opened :: "'f \<Rightarrow> bool"
  assumes read_inside:
    "opened f \<Longrightarrow> length buf < 2 ^ 31 \<Longrightarrow> off + length buf \<le> length (content f) \<Longrightarrow>
     xRead M (int (length buf)) (of_nat off) (buf, f) =
       (Inr SQLITE_OK, take (length buf) (drop off (content f)), f)"
  and read_short:
    "opened f \<Longrightarrow> length buf < 2 ^ 31 \<Longrightarrow> off < 2 ^ 62 \<Longrightarrow> length (content f) < off + length buf \<Longrightarrow>
     xRead M (int (length buf)) (of_nat off) (buf, f) =
       (Inr SQLITE_IOERR_SHORT_READ,
        take (length buf) (drop off (content f)) @ replicate (length buf - (length (content f) - off)) 0, f)"
  and write_ok:
    "opened f \<Longrightarrow> length bs < 2 ^ 31 \<Longrightarrow> off < 2 ^ 62 \<Longrightarrow>
     \<exists>rc f'. xWrite M bs (int (length bs)) (of_nat off) f = (Inr rc, f') \<and> opened f' \<and>
       content f' = (if rc = SQLITE_OK then write_at (content f) off bs else content f)"
begin

lemma write_then_read:
  assumes "opened f" "length bs < 2 ^ 31" "off < 2 ^ 62" "length buf = length bs"
    and "xWrite M bs (int (length bs)) (of_nat off) f = (Inr SQLITE_OK, f')"
  shows "opened f' \<and> xRead M (int (length buf)) (of_nat off) (buf, f') = (Inr SQLITE_OK, bs, f')"
proof -
  from write_ok [OF assms(1-3)] assms(5) have "opened f'" "content f' = write_at (content f) off bs"
    by auto
  then show ?thesis using assms read_inside [of f' buf off] by simp
qed

lemma write_frames:
  assumes "opened f" "length bs < 2 ^ 31" "off < 2 ^ 62"
    and "xWrite M bs (int (length bs)) (of_nat off) f = (Inr SQLITE_OK, f')"
    and "off' + n \<le> off \<or> off + length bs \<le> off'" and "off' + n \<le> length (content f)"
  shows "take n (drop off' (content f')) = take n (drop off' (content f))"
proof -
  from write_ok [OF assms(1-3)] assms(4) have "content f' = write_at (content f) off bs"
    by auto
  with assms(5,6) show ?thesis by (auto simp: read_write_at_before read_write_at_after)
qed

end

end
