(* ===== verification/Ys_Page_Store.thy ===== *)
theory Ys_Page_Store
  imports Ys_Page_File Ys_Byte_Store
begin

text \<open>
  Pages in a store: the contract of a page codec as a locale, and the locale that puts a codec on
  a \<^verbatim>\<open>SQLite3_file_wrapper\<close> over any byte store. Inside it: what a page write stores, what a page
  read returns, the round trip, and that other bytes are not touched.
\<close>

section \<open>Spans of a page\<close>

lemma whole_slice: "whole buf = slice 0 (length buf)"
  by (simp add: whole_def span_of_def slice_def)

lemma on_span_slice:
  assumes "i \<le> j" "j \<le> length buf" "length buf < 2 ^ 64" "m (take (j - i) (drop i buf), s) = (r, bs, s')"
  shows "on_span (slice i j) m (buf, s) = (r, overwrite buf i bs, s')"
  using assms by (simp add: on_span_def slice_bytes slice_put)

text \<open>The part of a page that is transformed starts behind the database header.\<close>

definition payload_start :: "nat \<Rightarrow> nat" where
  "payload_start off = (if off = 0 then 100 else 0)"

lemma payload_start_le: "payload_start off \<le> 100" 
  by (simp add: payload_start_def)

section \<open>The contract of a codec\<close>

text \<open>
  What \<^verbatim>\<open>Page_transforming_file\<close> relies on: encoding a page with the writing key gives bytes that
  decode, under the same reading key, to the page up to its reserved tail; encoding and decoding
  keep the length of the page and the keys; and the reserve size is checked against the key.
\<close>

locale codec_contract =
  fixes C :: "'d page_codec"
    and inv :: "'d \<Rightarrow> bool"
    and wkey :: "'d \<Rightarrow> 'q"
    and rkey :: "'d \<Rightarrow> 'q"
    and reserved :: "'q \<Rightarrow> nat"
    and encoded :: "'q \<Rightarrow> byte list \<Rightarrow> byte list \<Rightarrow> bool"
    and accepts :: "'q \<Rightarrow> byte \<Rightarrow> bool"
  assumes encode:
    "inv d \<Longrightarrow> reserved (wkey d) \<le> length pg \<Longrightarrow> length pg < 2 ^ 31 \<Longrightarrow>
     \<exists>pg' d'. encode_page C (pg, d) = (Inr (), pg', d') \<and> length pg' = length pg \<and> inv d' \<and>
       wkey d' = wkey d \<and> rkey d' = rkey d \<and> encoded (wkey d) pg pg'"
  and decode:
    "inv d \<Longrightarrow> encoded (rkey d) pg pg' \<Longrightarrow> length pg' = length pg \<Longrightarrow>
     reserved (rkey d) \<le> length pg \<Longrightarrow> length pg < 2 ^ 31 \<Longrightarrow>
     \<exists>r d'. decode_page C (pg', d) = (Inr (), r, d') \<and> length r = length pg \<and> inv d' \<and>
       wkey d' = wkey d \<and> rkey d' = rkey d \<and>
       take (length pg - reserved (rkey d)) r = take (length pg - reserved (rkey d)) pg"
  and check: "check_reserve_size C b d = accepts (wkey d) b"
  and reserved_small: "reserved k \<le> 256"

text \<open>The codec over a byte store: the stack of \<^verbatim>\<open>SQLite3_file_wrapper\<close> and the parent's methods.\<close>

locale paged_store = byte_store M content opened + codec_contract C inv wkey rkey reserved encoded accepts
  for M :: "'f io_methods" and content opened
    and C :: "'d page_codec" and inv wkey rkey and reserved :: "'q \<Rightarrow> nat" and encoded accepts
begin

definition page_ok :: "('f sqlite3_file_wrapper, 'd) page_file \<Rightarrow> bool" where
  "page_ok s \<longleftrightarrow> fw_format (pf_parent s) = main_db \<and>
     (\<exists>f. fw_parent (pf_parent s) = Some f \<and> opened f) \<and> inv (pf_derived s)"

definition bytes_of :: "('f sqlite3_file_wrapper, 'd) page_file \<Rightarrow> byte list" where
  "bytes_of s = content (the (fw_parent (pf_parent s)))"

lemma unit_action: "(r :: fault + unit) = Inr () \<or> (\<exists>e. r = Inl e)"
  by (cases r) auto

lemma wrapper_write_ok:
  assumes "fw_parent w = Some f" "opened f" "length bs < 2 ^ 31" "off < 2 ^ 62"
  shows "\<exists>r f'. wrapper_write M bs (of_nat off) w = (r, w\<lparr>fw_parent := Some f'\<rparr>) \<and> opened f' \<and>
    (r = Inr () \<and> content f' = write_at (content f) off bs \<or>
     (\<exists>rc. rc \<noteq> 0 \<and> r = Inl (Thrown (System_error (make_error_code rc) None))) \<and> content f' = content f) \<and>
    (fst (xWrite M bs (int (length bs)) (of_nat off) f) = Inr 0 \<longrightarrow> r = Inr ())"
proof -
  from write_ok [OF assms(2-4)] obtain rc f' where
    "xWrite M bs (int (length bs)) (of_nat off) f = (Inr rc, f')" "opened f'"
    "content f' = (if rc = SQLITE_OK then write_at (content f) off bs else content f)" by blast
  then show ?thesis using assms
    by (cases "rc = 0")
      (auto simp: wrapper_write_def and_then_def on_parent_def int_of_size_small result_code_defs)
qed

lemma wrapper_read_ok:
  assumes "fw_parent w = Some f" "opened f" "length buf < 2 ^ 31" "off + length buf \<le> length (content f)"
  shows "wrapper_read M (of_nat off) (buf, w) = (Inr (), take (length buf) (drop off (content f)), w)"
proof -
  have "w\<lparr>fw_parent := Some f\<rparr> = w" using assms(1) by simp
  then show ?thesis using assms read_inside [OF assms(2-4)]
    by (simp add: wrapper_read_def and_then_def on_parent_with_def int_of_size_small result_code_defs)
qed

lemma wrapper_read_short:
  assumes "fw_parent w = Some f" "opened f" "length buf < 2 ^ 31" "off < 2 ^ 62" "length (content f) < off + length buf"
  shows "\<exists>b. wrapper_read M (of_nat off) (buf, w) =
    (Inl (Thrown (System_error (make_error_code SQLITE_IOERR_SHORT_READ) None)), b, w) \<and>
    b = take (length buf) (drop off (content f)) @ replicate (length buf - (length (content f) - off)) 0"
proof -
  have "w\<lparr>fw_parent := Some f\<rparr> = w" using assms(1) by simp
  then show ?thesis using assms read_short [OF assms(2-5)]
    by (simp add: wrapper_read_def and_then_def on_parent_with_def int_of_size_small result_code_defs)
qed

end

text \<open>Parsing the parameters of a page at the start of the file or past the header.\<close>

lemma parse_parameters_page:
  assumes "File_format_of P (pf_parent s) = main_db" "512 \<le> length buf" "length buf < 2 ^ 31"
    "off = 0 \<or> 512 \<le> off" "off < 2 ^ 62"
    "off = 0 \<Longrightarrow> check_reserve_size C (buf ! 20) (pf_derived s)"
  shows "\<exists>v. parse_parameters P C buf (of_nat off) s = (Inr (), s\<lparr>pf_page_size := v\<rparr>)"
proof (cases "off = 0")
  case True
  have "unat (of_nat (length buf) :: 64 word) = length buf" using assms(3) by simp
  then have "(18 :: 64 word) \<le> of_nat (length buf)" "(21 :: 64 word) \<le> of_nat (length buf)"
    using assms(2) by (simp_all add: word_le_nat_alt)
  with True assms show ?thesis
    by (simp add: parse_parameters_def parse_page_size_def parse_reserve_size_def byte_at_def and_then_def Let_def
        split: if_splits) blast
next
  case False
  then have "\<not> sint (of_nat off :: 64 word) \<le> 20" "\<not> sint (of_nat off :: 64 word) \<le> 16"
    using assms(4,5) by (simp_all add: sint_of_nat_small)
  with assms(1) show ?thesis
    by (simp add: parse_parameters_def parse_page_size_def parse_reserve_size_def and_then_def)
      (metis page_file.surjective page_file.update_convs(3))
qed


text \<open>Transforming the payload of a page in a buffer.\<close>

lemma page_state_eq [simp]: "s\<lparr>pf_derived := pf_derived s\<rparr> = s" "s\<lparr>pf_parent := pf_parent s\<rparr> = s"
  for s :: "('p, 'd) page_file"
  by simp_all

lemma encode_tmp_payload:
  assumes "512 \<le> length buf" "length buf < 2 ^ 31" "pf_tmp_buffer s = buf"
    and "encode_page C (drop (payload_start off) buf, pf_derived s) = (Inr (), pg', d')"
    and "length pg' = length buf - payload_start off"
  shows "encode_tmp C (slice (payload_start off) (length buf)) s =
    (Inr (), s\<lparr>pf_tmp_buffer := take (payload_start off) buf @ pg', pf_derived := d'\<rparr>)"
proof -
  have "on_span (slice (payload_start off) (length buf)) (encode_page C) (buf, pf_derived s) =
      (Inr (), overwrite buf (payload_start off) pg', d')"
    using assms payload_start_le [of off] by (intro on_span_slice) auto
  moreover have "overwrite buf (payload_start off) pg' = take (payload_start off) buf @ pg'"
    using assms(1,5) payload_start_le [of off] by (simp add: overwrite_def)
  ultimately show ?thesis using assms(3) by (simp add: encode_tmp_def)
qed

lemma span_of_payload:
  assumes "512 \<le> length buf" "length buf < 2 ^ 31" "off < 2 ^ 62"
  shows "(if (of_nat off :: 64 word) = 0 then encode_tmp C (span_of 100 (of_nat (length buf) - 100))
      else encode_tmp C (span_of 0 (of_nat (length buf)))) =
    encode_tmp C (slice (payload_start off) (length buf))"
    "(if (of_nat off :: 64 word) = 0 then subspan (whole buf) 100 dynamic_extent else Inr (whole buf)) =
      Inr (slice (payload_start off) (length buf))"
proof -
  have zero: "(of_nat off :: 64 word) = 0 \<longleftrightarrow> off = 0"
  proof -
    have "unat (of_nat off :: 64 word) = off" using assms(3) by simp
    then show ?thesis by (cases "off = 0") (auto dest: arg_cong [where f = unat])
  qed
  have "span_of 100 (of_nat (length buf) - 100) = slice 100 (length buf)"
    using span_of_slice [of 100 "length buf - 100"] assms(1) by (simp add: of_nat_diff)
  moreover have "span_of 0 (of_nat (length buf)) = slice 0 (length buf)"
    using span_of_slice [of 0 "length buf"] by simp
  ultimately show "(if (of_nat off :: 64 word) = 0 then encode_tmp C (span_of 100 (of_nat (length buf) - 100))
      else encode_tmp C (span_of 0 (of_nat (length buf)))) =
    encode_tmp C (slice (payload_start off) (length buf))"
    by (simp add: zero payload_start_def)
  have "subspan (slice 0 (length buf)) (of_nat 100) dynamic_extent = Inr (slice 100 (length buf))"
    using subspan_slice(2) [of 0 "length buf" 100] assms by simp
  then show "(if (of_nat off :: 64 word) = 0 then subspan (whole buf) 100 dynamic_extent else Inr (whole buf)) =
      Inr (slice (payload_start off) (length buf))"
    by (simp add: zero payload_start_def whole_slice)
qed

context paged_store begin

text \<open>Writing a page: the bytes stored are the header and the encoded payload.\<close>

lemma page_write_ok:
  assumes "page_ok s" "512 \<le> length buf" "length buf < 2 ^ 31" "off < 2 ^ 62" "off = 0 \<or> 512 \<le> off"
    and "off = 0 \<Longrightarrow> accepts (wkey (pf_derived s)) (buf ! 20)"
  shows "\<exists>r s'. page_write (SQLite3_file_wrapper M) C buf (of_nat off) s = (r, s') \<and> page_ok s' \<and>
    wkey (pf_derived s') = wkey (pf_derived s) \<and> rkey (pf_derived s') = rkey (pf_derived s) \<and>
    (r = Inr () \<and> (\<exists>pg'. length pg' = length buf - payload_start off \<and>
        bytes_of s' = write_at (bytes_of s) off (take (payload_start off) buf @ pg') \<and>
        encoded (wkey (pf_derived s)) (drop (payload_start off) buf) pg') \<or>
     (\<exists>rc. rc \<noteq> 0 \<and> r = Inl (Thrown (System_error (make_error_code rc) None))) \<and> bytes_of s' = bytes_of s) \<and>
    (\<forall>f. fw_parent (pf_parent s) = Some f \<longrightarrow>
      (\<forall>bs. length bs = length buf \<longrightarrow> fst (xWrite M bs (int (length bs)) (of_nat off) f) = Inr 0) \<longrightarrow> r = Inr ())"
proof -
  let ?P = "SQLite3_file_wrapper M"
  from assms(1) obtain f where f: "fw_parent (pf_parent s) = Some f" "opened f"
    and fmt: "fw_format (pf_parent s) = main_db" and inv_d: "inv (pf_derived s)"
    by (auto simp: page_ok_def)
  have n: "unat (of_nat (length buf) :: 64 word) = length buf" using assms(3) by simp
  have page: "is_page (File_format_of ?P (pf_parent s)) (of_nat (length buf)) (of_nat off)"
    using fmt assms(2) n by (simp add: is_page_def word_le_nat_alt)
  obtain v where parse: "parse_parameters ?P C buf (of_nat off) s = (Inr (), s\<lparr>pf_page_size := v\<rparr>)"
    using parse_parameters_page [of ?P s buf off C] fmt assms(2-6) check by auto
  have small: "reserved (wkey (pf_derived s)) \<le> length (drop (payload_start off) buf)"
    "length (drop (payload_start off) buf) < 2 ^ 31"
    using reserved_small [of "wkey (pf_derived s)"] assms(2,3) payload_start_le [of off] by auto
  from encode [OF inv_d small] obtain pg' d' where
    enc: "encode_page C (drop (payload_start off) buf, pf_derived s) = (Inr (), pg', d')"
      "length pg' = length buf - payload_start off" "inv d'" "wkey d' = wkey (pf_derived s)"
      "rkey d' = rkey (pf_derived s)" "encoded (wkey (pf_derived s)) (drop (payload_start off) buf) pg'"
    by auto
  define s1 where "s1 = s\<lparr>pf_page_size := v, pf_tmp_buffer := buf\<rparr>"
  define st where "st = take (payload_start off) buf @ pg'"
  have tmp: "encode_tmp C (slice (payload_start off) (length buf)) s1 =
      (Inr (), s1\<lparr>pf_tmp_buffer := st, pf_derived := d'\<rparr>)"
    using encode_tmp_payload [of buf s1 C off pg' d'] assms(2,3) enc(1,2) by (simp add: s1_def st_def)
  have len: "length st = length buf"
    using enc(2) assms(2) payload_start_le [of off] by (simp add: st_def)
  from wrapper_write_ok [OF f, of st off] assms(3,4) len obtain r f' where
    w: "wrapper_write M st (of_nat off) (pf_parent s) = (r, (pf_parent s)\<lparr>fw_parent := Some f'\<rparr>)" "opened f'"
      "r = Inr () \<and> content f' = write_at (content f) off st \<or>
       (\<exists>rc. rc \<noteq> 0 \<and> r = Inl (Thrown (System_error (make_error_code rc) None))) \<and> content f' = content f"
      "fst (xWrite M st (int (length st)) (of_nat off) f) = Inr 0 \<longrightarrow> r = Inr ()"
    by auto
  let ?s' = "s1\<lparr>pf_tmp_buffer := st, pf_derived := d', pf_parent := (pf_parent s)\<lparr>fw_parent := Some f'\<rparr>\<rparr>"
  have "page_write ?P C buf (of_nat off) s = (r, ?s')"
    using page parse tmp w(1) fmt span_of_payload(1) [OF assms(2-4), of C, THEN fun_cong, of s1]
    by (simp add: page_write_def and_then_def on_part_def s1_def [symmetric] Let_def)
       (simp add: s1_def split: if_splits)
  moreover have "page_ok ?s'" using fmt w(2) enc(3) by (simp add: page_ok_def s1_def)
  moreover have "bytes_of ?s' = content f'" "bytes_of s = content f"
    using f(1) by (simp_all add: bytes_of_def)
  moreover have "\<forall>f. fw_parent (pf_parent s) = Some f \<longrightarrow>
      (\<forall>bs. length bs = length buf \<longrightarrow> fst (xWrite M bs (int (length bs)) (of_nat off) f) = Inr 0) \<longrightarrow> r = Inr ()"
    using w(4) f(1) len by (metis option.inject)
  ultimately show ?thesis
    using w(3) enc by (auto simp: st_def)
qed

text \<open>Reading a page that was stored under the reading key.\<close>

lemma page_read_ok:
  assumes "page_ok s" "512 \<le> length buf" "length buf < 2 ^ 31" "off < 2 ^ 62" "off = 0 \<or> 512 \<le> off"
    and "length pg = length buf" "off + length buf \<le> length (bytes_of s)"
    and "off = 0 \<Longrightarrow> accepts (wkey (pf_derived s)) (pg ! 20)"
    and "take (length buf) (drop off (bytes_of s)) = take (payload_start off) pg @ pg'"
    and "encoded (rkey (pf_derived s)) (drop (payload_start off) pg) pg'"
  shows "\<exists>r s'. page_read (SQLite3_file_wrapper M) C (of_nat off) (buf, s) = (Inr (), r, s') \<and> page_ok s' \<and>
    wkey (pf_derived s') = wkey (pf_derived s) \<and> rkey (pf_derived s') = rkey (pf_derived s) \<and>
    bytes_of s' = bytes_of s \<and> length r = length pg \<and>
    take (length pg - reserved (rkey (pf_derived s))) r = take (length pg - reserved (rkey (pf_derived s))) pg"
proof -
  let ?P = "SQLite3_file_wrapper M"
  let ?k = "reserved (rkey (pf_derived s))"
  let ?h = "payload_start off"
  let ?st = "take ?h pg @ pg'"
  from assms(1) obtain f where f: "fw_parent (pf_parent s) = Some f" "opened f"
    and fmt: "fw_format (pf_parent s) = main_db" and inv_d: "inv (pf_derived s)"
    by (auto simp: page_ok_def)
  have n: "unat (of_nat (length buf) :: 64 word) = length buf" using assms(3) by simp
  have page: "is_page (File_format_of ?P (pf_parent s)) (of_nat (length buf)) (of_nat off)"
    using fmt assms(2) n by (simp add: is_page_def word_le_nat_alt)
  have len: "length ?st = length buf"
    using arg_cong [OF assms(9), of length] assms(7) by simp
  have h: "?h \<le> 100" by (rule payload_start_le)
  have small: "?k \<le> length (drop ?h pg)" "length (drop ?h pg) < 2 ^ 31" "length pg' = length (drop ?h pg)"
    using reserved_small [of "rkey (pf_derived s)"] assms(2,3,6) h len by auto
  have read: "wrapper_read M (of_nat off) (buf, pf_parent s) = (Inr (), ?st, pf_parent s)"
    using wrapper_read_ok [OF f, of buf off] assms(3,7,9) f by (simp add: bytes_of_def)
  from decode [OF inv_d assms(10) small(3,1,2)] obtain out d' where
    dec: "decode_page C (pg', pf_derived s) = (Inr (), out, d')" "length out = length pg - ?h" "inv d'"
      "wkey d' = wkey (pf_derived s)" "rkey d' = rkey (pf_derived s)"
      "take (length pg - ?h - ?k) out = take (length pg - ?h - ?k) (drop ?h pg)"
    by auto
  define r where "r = take ?h pg @ out"
  have r_len: "length r = length pg" using dec(2) assms(2,6) h by (simp add: r_def)
  define m where "m = length pg - ?h - ?k"
  have m: "length pg - ?k = ?h + m" using small(1) h assms(2,6) by (simp add: m_def)
  have "length (take ?h pg) = ?h" using h assms(2,6) by simp
  then have r_take: "take (length pg - ?k) r = take (length pg - ?k) pg"
    using dec(6) [folded m_def] by (simp add: m r_def take_add)
  have "r ! 20 = pg ! 20"
  proof -
    have "20 < length pg - ?k"
      using reserved_small [of "rkey (pf_derived s)"] assms(2,6) by simp
    then show ?thesis using r_take by (metis nth_take)
  qed
  define s1 where "s1 = s\<lparr>pf_derived := d'\<rparr>"
  have span: "on_span (slice ?h (length ?st)) (on_derived_with (decode_page C)) (?st, s) = (Inr (), r, s1)"
  proof -
    have "on_span (slice ?h (length ?st)) (on_derived_with (decode_page C)) (?st, s) =
        (Inr (), overwrite ?st ?h out, s\<lparr>pf_derived := d'\<rparr>)"
      using dec(1) len small assms(2,3,6) h
      by (intro on_span_slice) (auto simp: on_part_with_def)
    moreover have "overwrite ?st ?h out = r"
      using dec(2) assms(2,6) h small by (simp add: overwrite_def r_def)
    ultimately show ?thesis by (simp add: s1_def)
  qed
  obtain v where parse: "parse_parameters ?P C r (of_nat off) s1 = (Inr (), s1\<lparr>pf_page_size := v\<rparr>)"
    using parse_parameters_page [of ?P s1 r off C] fmt assms(2-6,8) check r_len \<open>r ! 20 = pg ! 20\<close> dec(4)
    by (auto simp: s1_def)
  have sub: "(if (of_nat off :: 64 word) = 0 then subspan (whole ?st) 100 dynamic_extent else Inr (whole ?st)) =
      Inr (slice ?h (length ?st))"
    using span_of_payload(2) [of ?st off] assms(2-4) len by simp
  have "page_read ?P C (of_nat off) (buf, s) = (Inr (), r, s1\<lparr>pf_page_size := v\<rparr>)"
    using page read span parse fmt sub
    by (simp add: page_read_def and_then_def on_part_with_def [of pf_parent])
  moreover have "page_ok (s1\<lparr>pf_page_size := v\<rparr>)" "bytes_of (s1\<lparr>pf_page_size := v\<rparr>) = bytes_of s"
    using assms(1) dec(3) by (auto simp: page_ok_def bytes_of_def s1_def)
  ultimately show ?thesis using r_len r_take dec(4,5) by (auto simp: s1_def)
qed

text \<open>A short read is reported and nothing is decoded.\<close>

lemma page_read_short:
  assumes "page_ok s" "512 \<le> length buf" "length buf < 2 ^ 31" "off < 2 ^ 62"
    and "length (bytes_of s) < off + length buf"
  shows "\<exists>b. page_read (SQLite3_file_wrapper M) C (of_nat off) (buf, s) =
    (Inl (Thrown (System_error (make_error_code SQLITE_IOERR_SHORT_READ) None)), b, s) \<and>
    b = take (length buf) (drop off (bytes_of s)) @ replicate (length buf - (length (bytes_of s) - off)) 0"
proof -
  from assms(1) obtain f where f: "fw_parent (pf_parent s) = Some f" "opened f"
    and fmt: "fw_format (pf_parent s) = main_db" by (auto simp: page_ok_def)
  have n: "unat (of_nat (length buf) :: 64 word) = length buf" using assms(3) by simp
  have page: "is_page main_db (of_nat (length buf)) (of_nat off)"
    using assms(2) n by (simp add: is_page_def word_le_nat_alt)
  from wrapper_read_short [OF f assms(3,4)] assms(5) f fmt page show ?thesis
    by (auto simp: page_read_def and_then_def on_part_with_def bytes_of_def)
qed

text \<open>What is written under a key is read back under it, whatever the file held before.\<close>

lemma page_round_trip:
  assumes "page_ok s" "512 \<le> length pg" "length pg < 2 ^ 31" "off < 2 ^ 62" "off = 0 \<or> 512 \<le> off"
    and "off = 0 \<Longrightarrow> accepts (wkey (pf_derived s)) (pg ! 20)"
    and "page_write (SQLite3_file_wrapper M) C pg (of_nat off) s = (Inr (), s')"
    and "rkey (pf_derived s) = wkey (pf_derived s)" "length buf = length pg"
  shows "\<exists>r s''. page_read (SQLite3_file_wrapper M) C (of_nat off) (buf, s') = (Inr (), r, s'') \<and>
    page_ok s'' \<and> length r = length pg \<and>
    take (length pg - reserved (wkey (pf_derived s))) r = take (length pg - reserved (wkey (pf_derived s))) pg"
proof -
  from page_write_ok [OF assms(1-5)] assms(6,7) obtain pg' where
    w: "page_ok s'" "wkey (pf_derived s') = wkey (pf_derived s)" "rkey (pf_derived s') = rkey (pf_derived s)"
      "length pg' = length pg - payload_start off"
      "bytes_of s' = write_at (bytes_of s) off (take (payload_start off) pg @ pg')"
      "encoded (wkey (pf_derived s)) (drop (payload_start off) pg) pg'"
    by auto
  define st where "st = take (payload_start off) pg @ pg'"
  have len: "length st = length buf"
    using w(4) assms(2,9) payload_start_le [of off] by (simp add: st_def)
  have at: "bytes_of s' = write_at (bytes_of s) off st" using w(5) by (simp add: st_def)
  then have stored: "take (length buf) (drop off (bytes_of s')) = take (payload_start off) pg @ pg'"
    using read_write_at_same [of st off "bytes_of s"] len by (simp add: st_def)
  have inside: "off + length buf \<le> length (bytes_of s')" using len at by simp
  have buf: "512 \<le> length buf" "length buf < 2 ^ 31" "length pg = length buf" using assms(2,3,9) by simp_all
  have key: "rkey (pf_derived s') = wkey (pf_derived s)" "wkey (pf_derived s') = wkey (pf_derived s)"
    using w(2,3) assms(8) by simp_all
  show ?thesis
    using page_read_ok [OF w(1) buf(1,2) assms(4,5) buf(3) inside, unfolded key, OF assms(6) stored w(6)] by blast
qed

text \<open>Bytes outside the page stay as they are.\<close>

lemma page_write_frames:
  assumes "page_ok s" "512 \<le> length pg" "length pg < 2 ^ 31" "off < 2 ^ 62" "off = 0 \<or> 512 \<le> off"
    and "off = 0 \<Longrightarrow> accepts (wkey (pf_derived s)) (pg ! 20)"
    and "page_write (SQLite3_file_wrapper M) C pg (of_nat off) s = (r, s')"
    and "off' + n \<le> off \<or> off + length pg \<le> off'" "off' + n \<le> length (bytes_of s)"
  shows "take n (drop off' (bytes_of s')) = take n (drop off' (bytes_of s))"
proof -
  from page_write_ok [OF assms(1-5)] assms(6,7) consider
      pg' where "length pg' = length pg - payload_start off"
        "bytes_of s' = write_at (bytes_of s) off (take (payload_start off) pg @ pg')"
    | "bytes_of s' = bytes_of s"
    by auto
  then show ?thesis
  proof cases
    case 1
    define st where "st = take (payload_start off) pg @ pg'"
    have "length st = length pg" using 1(1) assms(2) payload_start_le [of off] by (simp add: st_def)
    moreover have "bytes_of s' = write_at (bytes_of s) off st" using 1(2) by (simp add: st_def)
    ultimately show ?thesis
      using assms(8,9) read_write_at_before [of off' n off "bytes_of s" st]
        read_write_at_after [of off st off' n "bytes_of s"] by auto
  qed simp
qed

end

end
