(* ===== verification/Ys_Crypt_File.thy ===== *)
theory Ys_Crypt_File
  imports Ys_Page_Store
begin

text \<open>
  \<^verbatim>\<open>vfs/crypt_file.hpp\<close>: pages encrypted with AES-GCM. The last 32 bytes of a page hold the
  initialisation vector (12 bytes) and the tag (16 bytes); keys and ciphers come from URI
  parameters or pragmas; \<^verbatim>\<open>crypt_transformation\<close> switches to a second key for writing, so that a
  \<^verbatim>\<open>VACUUM\<close> rewrites the database under it. OpenSSL is a parameter: a record of the functions the
  file calls, over a state \<open>'c\<close> of the cipher context and the random generator; \<open>'k\<close> are the
  \<^verbatim>\<open>EVP_CIPHER\<close> objects. A pointer argument is the memory from the pointer on.
\<close>

section \<open>OpenSSL\<close>

record ('c, 'k) openssl =
  EVP_CIPHER_CTX_reset :: "'c \<Rightarrow> 'c"
  EVP_CipherInit_ex :: "'k option \<Rightarrow> byte list \<Rightarrow> byte list \<Rightarrow> bool \<Rightarrow> 'c \<Rightarrow> int \<times> 'c"
  EVP_CipherUpdate :: "byte list \<Rightarrow> int \<Rightarrow> 'c \<Rightarrow> int \<times> byte list \<times> int \<times> 'c"
  EVP_CTRL_GCM_SET_TAG :: "int \<Rightarrow> byte list \<Rightarrow> 'c \<Rightarrow> int \<times> 'c"
  EVP_CTRL_GCM_GET_TAG :: "int \<Rightarrow> byte list \<Rightarrow> 'c \<Rightarrow> int \<times> byte list \<times> 'c"
  EVP_CipherFinal_ex :: "byte list \<Rightarrow> 'c \<Rightarrow> int \<times> byte list \<times> int \<times> 'c"
  RAND_bytes :: "byte list \<Rightarrow> int \<Rightarrow> 'c \<Rightarrow> int \<times> byte list \<times> 'c"
  PKCS5_PBKDF2_HMAC_sha512 :: "byte list \<Rightarrow> int \<Rightarrow> int \<Rightarrow> byte list \<Rightarrow> int \<times> byte list"
  EVP_aes_256_gcm :: 'k
  EVP_aes_192_gcm :: 'k
  EVP_aes_128_gcm :: 'k

section \<open>The class\<close>

definition crypt_file_reserve_size :: byte where "crypt_file_reserve_size = 32"

record 'k Encryptor =
  en_cipher :: "'k option"
  en_key :: "byte list"

definition Encryptor_default :: "'k Encryptor" where
  "Encryptor_default = \<lparr>en_cipher = None, en_key = replicate 32 0\<rparr>"

record ('c, 'k) crypt =
  cr_context :: 'c
  cr_transform :: bool
  cr_current :: "'k Encryptor"
  cr_transformation :: "'k Encryptor"

text \<open>\<^verbatim>\<open>_transform ? _transformation : _current\<close>, read and assigned.\<close>

definition active :: "('c, 'k) crypt \<Rightarrow> 'k Encryptor" where
  "active d = (if cr_transform d then cr_transformation d else cr_current d)"

definition set_active :: "'k Encryptor \<Rightarrow> ('c, 'k) crypt \<Rightarrow> ('c, 'k) crypt" where
  "set_active e d = (if cr_transform d then d\<lparr>cr_transformation := e\<rparr> else d\<lparr>cr_current := e\<rparr>)"

subsection \<open>Encrypting a page\<close>

definition crypt_failed :: "int \<Rightarrow> fault" where
  "crypt_failed ec = Thrown (System_error (make_error_code ec) (Some ''failed to encrypt/decrypt''))"

definition SQLITE_NOTADB :: int where "SQLITE_NOTADB = 26"

definition crypt ::
  "('c, 'k) openssl \<Rightarrow> span \<Rightarrow> span \<Rightarrow> 'k Encryptor \<Rightarrow> bool \<Rightarrow> (byte list \<times> ('c, 'k) crypt, fault, unit) action" where
  "crypt ssl buffer data encryptor encrypt = (\<lambda>(page, d).
     let c = EVP_CIPHER_CTX_reset ssl (cr_context d);
         (ok, c) = EVP_CipherInit_ex ssl (en_cipher encryptor) (en_key encryptor) (span_bytes page data) encrypt c
     in if ok = 0 then (Inl (crypt_failed SQLITE_ERROR), page, d\<lparr>cr_context := c\<rparr>)
     else
       let n = int_of_size (span_size buffer);
           (ok, out, len, c) = EVP_CipherUpdate ssl (span_bytes page buffer) n c;
           page = span_put page buffer out
       in if ok = 0 \<or> len \<noteq> n then (Inl (crypt_failed SQLITE_ERROR), page, d\<lparr>cr_context := c\<rparr>)
       else
         let c = (if \<not> encrypt then snd (EVP_CTRL_GCM_SET_TAG ssl 16 (drop 12 (span_bytes page data)) c) else c);
             (ok, out, len, c) = EVP_CipherFinal_ex ssl (span_bytes page buffer) c;
             page = span_put page buffer out
         in if ok = 0 \<or> len \<noteq> 0 then (Inl (crypt_failed SQLITE_NOTADB), page, d\<lparr>cr_context := c\<rparr>)
         else (Inr (), page, d\<lparr>cr_context := c\<rparr>))"

text \<open>
  The four bytes of a \<^verbatim>\<open>std::uint32_t\<close> in memory, on a machine of either byte order, and the
  increment of the last four bytes of the vector in the branch for that byte order.
\<close>

definition load_u32 :: "bool \<Rightarrow> byte list \<Rightarrow> 32 word" where
  "load_u32 big bs =
     (let bs = (if big then rev bs else bs) in
      ucast (bs ! 0) OR push_bit 8 (ucast (bs ! 1)) OR push_bit 16 (ucast (bs ! 2)) OR push_bit 24 (ucast (bs ! 3)))"

definition store_u32 :: "bool \<Rightarrow> 32 word \<Rightarrow> byte list" where
  "store_u32 big w =
     (let bs = [ucast w, ucast (drop_bit 8 w), ucast (drop_bit 16 w), ucast (drop_bit 24 w)] in
      if big then rev bs else bs)"

definition increment_u32 :: "bool \<Rightarrow> byte list \<Rightarrow> byte list" where
  "increment_u32 big bs =
     (if big then
        let bs = rev bs;
            bs = store_u32 True (load_u32 True bs + 1)
        in rev bs
      else store_u32 False (load_u32 False bs + 1))"

definition generate_iv ::
  "('c, 'k) openssl \<Rightarrow> bool \<Rightarrow> span \<Rightarrow> (byte list \<times> ('c, 'k) crypt) \<Rightarrow> (byte list \<times> ('c, 'k) crypt)" where
  "generate_iv ssl big iv = (\<lambda>(page, d).
     let (_, out, c) = RAND_bytes ssl (span_bytes page iv) (int_of_size (span_size iv - 4)) (cr_context d);
         page = span_put page iv out;
         tail = \<lparr>sp_first = sp_last iv - 4, sp_last = sp_last iv\<rparr>
     in (span_put page tail (increment_u32 big (span_bytes page tail)), d\<lparr>cr_context := c\<rparr>))"

definition crypt_reserve :: size_t where "crypt_reserve = ucast crypt_file_reserve_size"

definition crypt_encode_page ::
  "('c, 'k) openssl \<Rightarrow> bool \<Rightarrow> (byte list \<times> ('c, 'k) crypt, fault, unit) action" where
  "crypt_encode_page ssl big = (\<lambda>(buf, d).
     let enc = active d; page = whole buf in
     if en_cipher enc \<noteq> None then
       and_then (lift_result (subspan page (span_size page - crypt_reserve) dynamic_extent)) (\<lambda>data.
       and_then (lift_result (subspan page 0 (span_size page - crypt_reserve))) (\<lambda>page.
       and_then (lift_result (subspan data 0 12)) (\<lambda>iv.
       and_then (\<lambda>s. (Inr (), generate_iv ssl big iv s)) (\<lambda>_.
       and_then (crypt ssl page data enc True) (\<lambda>_.
         (\<lambda>(buf, d).
           let tag = \<lparr>sp_first = sp_first data + 12, sp_last = sp_last data\<rparr>;
               (_, out, c) = EVP_CTRL_GCM_GET_TAG ssl 16 (span_bytes buf tag) (cr_context d)
           in (Inr (), span_put buf tag out, d\<lparr>cr_context := c\<rparr>))))))) (buf, d)
     else (Inr (), buf, d))"

definition crypt_decode_page ::
  "('c, 'k) openssl \<Rightarrow> (byte list \<times> ('c, 'k) crypt, fault, unit) action" where
  "crypt_decode_page ssl = (\<lambda>(buf, d).
     let page = whole buf in
     if en_cipher (cr_current d) \<noteq> None then
       and_then (lift_result (subspan page (span_size page - crypt_reserve) dynamic_extent)) (\<lambda>data.
       and_then (lift_result (subspan page 0 (span_size page - crypt_reserve))) (\<lambda>page.
         crypt ssl page data (cr_current d) False)) (buf, d)
     else (Inr (), buf, d))"

definition crypt_check_reserve_size :: "byte \<Rightarrow> ('c, 'k) crypt \<Rightarrow> bool" where
  "crypt_check_reserve_size reserved d \<longleftrightarrow>
     en_cipher (active d) = None \<or> reserved = crypt_file_reserve_size"

definition crypt_codec :: "('c, 'k) openssl \<Rightarrow> bool \<Rightarrow> ('c, 'k) crypt page_codec" where
  "crypt_codec ssl big =
     \<lparr>encode_page = crypt_encode_page ssl big, decode_page = crypt_decode_page ssl,
      check_reserve_size = crypt_check_reserve_size\<rparr>"

subsection \<open>Keys and ciphers\<close>

text \<open>The lambda \<^verbatim>\<open>convert\<close>.\<close>

definition convert :: "char \<Rightarrow> int" where
  "convert c =
     (if schar c \<ge> schar CHR ''0'' \<and> schar c \<le> schar CHR ''9'' then schar c - schar CHR ''0''
      else if schar c \<ge> schar CHR ''a'' \<and> schar c \<le> schar CHR ''f'' then schar c - schar CHR ''a'' + 10
      else if schar c \<ge> schar CHR ''A'' \<and> schar c \<le> schar CHR ''F'' then schar c - schar CHR ''A'' + 10
      else - 1)"

datatype key_message =
    Msg_ok | Bad_key_format | Bad_hex_character char | Unknown_format | Failed_to_generate_new_key
  | Bad_argument | Unknown_cipher

fun key_message_text :: "key_message \<Rightarrow> string" where
  "key_message_text Msg_ok = ''ok''"
| "key_message_text Bad_key_format = ''bad key format''"
| "key_message_text (Bad_hex_character c) = ''bad hex character: '' @ [CHR 0x27, c, CHR 0x27]"
| "key_message_text Unknown_format = ''unknown format''"
| "key_message_text Failed_to_generate_new_key = ''failed to generate new key''"
| "key_message_text Bad_argument = ''bad argument''"
| "key_message_text Unknown_cipher = ''unkown cipher''"

text \<open>
  The nested loops over the bytes of a hex key and the two digits of each: the pairs \<open>(i, j)\<close> in
  the order of the loops, \<open>value\<close> as the pointer at that point.
\<close>

fun hex_key_loop :: "string \<Rightarrow> nat \<Rightarrow> (nat \<times> nat) list \<Rightarrow> byte list \<Rightarrow> key_message + byte list" where
  "hex_key_loop value p [] key = Inr key"
| "hex_key_loop value p ((i, j) # rest) key =
     (let c = c_nth value (p + i * 2 + j); v = convert c in
      if v < 0 then Inl (Bad_hex_character c)
      else hex_key_loop value p rest (key[i := push_bit 4 (key ! i) OR word_of_int v]))"

definition hex_key :: "string \<Rightarrow> nat \<Rightarrow> key_message + byte list" where
  "hex_key value n =
     (let i = n mod 2; p = 2; key = replicate (n div 2 + i) 0 in
      if i \<noteq> 0 \<and> convert (c_nth value p) < 0 then Inl (Bad_hex_character (c_nth value p))
      else
        let key = (if i \<noteq> 0 then key[0 := word_of_int (convert (c_nth value p))] else key);
            p = (if i \<noteq> 0 then p - 1 else p)
        in hex_key_loop value p (concat (map (\<lambda>i. [(i, 0), (i, 1)]) [i ..< length key])) key)"

definition parse_key :: "string \<Rightarrow> key_message + byte list" where
  "parse_key value =
     (let n = length value in
      if n < 3 \<or> value ! 1 \<noteq> value ! (n - 1) \<or> (value ! 1 \<noteq> CHR 0x27 \<and> value ! 1 \<noteq> CHR ''\"'')
      then Inl Bad_key_format
      else
        let n = n - 3 in
        if value ! 0 = CHR ''r'' then Inr (map char_byte (take n (drop 2 value)))
        else if value ! 0 = CHR ''x'' then hex_key value n
        else Inl Unknown_format)"

text \<open>\<^verbatim>\<open>value\<close> may be a null pointer; its length is taken first.\<close>

definition generate_key ::
  "('c, 'k) openssl \<Rightarrow> string option \<Rightarrow> 'k Encryptor \<Rightarrow> fault + key_message \<times> 'k Encryptor" where
  "generate_key ssl value encryptor =
     (case value of
        None \<Rightarrow> Inl Undefined
      | Some value \<Rightarrow> Inr
          (case parse_key value of
             Inl msg \<Rightarrow> (msg, encryptor)
           | Inr key \<Rightarrow>
               (case PKCS5_PBKDF2_HMAC_sha512 ssl key 200000 (int (length (en_key encryptor))) (en_key encryptor) of
                  (ok, out) \<Rightarrow>
                    (if ok = 0 then Failed_to_generate_new_key else Msg_ok, encryptor\<lparr>en_key := out\<rparr>))))"

definition set_cipher ::
  "('c, 'k) openssl \<Rightarrow> string option \<Rightarrow> 'k Encryptor \<Rightarrow> fault + key_message \<times> 'k Encryptor" where
  "set_cipher ssl value encryptor =
     (case value of
        None \<Rightarrow> Inl Undefined
      | Some value \<Rightarrow> Inr
          (if value = ''null'' then (Msg_ok, encryptor\<lparr>en_cipher := None\<rparr>)
           else if value = ''aes-256-gcm'' then (Msg_ok, encryptor\<lparr>en_cipher := Some (EVP_aes_256_gcm ssl)\<rparr>)
           else if value = ''aes-192-gcm'' then (Msg_ok, encryptor\<lparr>en_cipher := Some (EVP_aes_192_gcm ssl)\<rparr>)
           else if value = ''aes-128-gcm'' then (Msg_ok, encryptor\<lparr>en_cipher := Some (EVP_aes_128_gcm ssl)\<rparr>)
           else (Unknown_cipher, encryptor)))"

subsection \<open>Construction, destruction and pragmas\<close>

definition crypt_construct :: "('c, 'k) openssl \<Rightarrow> 'c \<Rightarrow> c_pointer \<Rightarrow> fault + ('c, 'k) crypt" where
  "crypt_construct ssl context name =
     (let d = \<lparr>cr_context = context, cr_transform = False, cr_current = Encryptor_default,
               cr_transformation = Encryptor_default\<rparr> in
      case sqlite3_uri_parameter name ''key'' of
        Inl e \<Rightarrow> Inl e
      | Inr key \<Rightarrow>
          (case (if key = None then Inr d
                 else map_sum id (\<lambda>(_, e). d\<lparr>cr_current := e\<rparr>) (generate_key ssl key (cr_current d))) of
             Inl e \<Rightarrow> Inl e
           | Inr d \<Rightarrow>
               (case sqlite3_uri_parameter name ''cipher'' of
                  Inl e \<Rightarrow> Inl e
                | Inr cipher \<Rightarrow>
                    if cipher = None then Inr d
                    else map_sum id (\<lambda>(_, e). d\<lparr>cr_current := e\<rparr>) (set_cipher ssl cipher (cr_current d)))))"

text \<open>The destructor overwrites both keys.\<close>

definition crypt_destruct :: "('c, 'k) crypt \<Rightarrow> ('c, 'k) crypt" where
  "crypt_destruct d =
     d\<lparr>cr_current := (cr_current d)\<lparr>en_key := replicate (length (en_key (cr_current d))) 0\<rparr>,
       cr_transformation := (cr_transformation d)\<lparr>en_key := replicate (length (en_key (cr_transformation d))) 0\<rparr>\<rparr>"

text \<open>The pragma \<^verbatim>\<open>crypt_transformation\<close>.\<close>

definition crypt_transformation_pragma :: "string \<Rightarrow> ('c, 'k) crypt \<Rightarrow> key_message \<times> ('c, 'k) crypt" where
  "crypt_transformation_pragma value d =
     (if (c_nth value 0 = CHR ''0'' \<or> c_nth value 0 = CHR ''1'') \<and> c_nth value 1 = NUL then
        (Msg_ok,
         (if cr_transform d \<noteq> (c_nth value 0 = CHR ''1'') then
            (if cr_transform d then d\<lparr>cr_current := cr_transformation d\<rparr>
             else d\<lparr>cr_transformation := cr_current d\<rparr>)\<lparr>cr_transform := \<not> cr_transform d\<rparr>
          else d))
      else (Bad_argument, d))"

text \<open>
  What a pragma does to the derived part: the message, or \<open>None\<close> when the pragma is not one of
  this class.
\<close>

definition crypt_pragma ::
  "('c, 'k) openssl \<Rightarrow> string \<Rightarrow> string option \<Rightarrow> (('c, 'k) crypt, fault, key_message option) action" where
  "crypt_pragma ssl name value = (\<lambda>d.
     if name = ''key'' then
       (case generate_key ssl value (active d) of
          Inl e \<Rightarrow> (Inl e, d)
        | Inr (msg, e) \<Rightarrow> (Inr (Some msg), set_active e d))
     else if name = ''crypt_transformation'' then
       (case value of
          None \<Rightarrow> (Inl Undefined, d)
        | Some value \<Rightarrow> (case crypt_transformation_pragma value d of (msg, d) \<Rightarrow> (Inr (Some msg), d)))
     else if name = ''cipher'' then
       (case set_cipher ssl value (active d) of
          Inl e \<Rightarrow> (Inl e, d)
        | Inr (msg, e) \<Rightarrow> (Inr (Some msg), set_active e d))
     else (Inr None, d))"

text \<open>
  \<^verbatim>\<open>static_cast<char**>(arg)[1]\<close> is the pragma's name, and the reference through which the message
  is stored; \<^verbatim>\<open>[2]\<close> is its value.
\<close>

definition crypt_file_control ::
  "('c, 'k) openssl \<Rightarrow> 'p file_ops \<Rightarrow> int \<Rightarrow> (control_arg \<times> ('p, ('c, 'k) crypt) page_file, fault, unit) action" where
  "crypt_file_control ssl P operation = (\<lambda>(arg, s).
     if operation = SQLITE_FCNTL_PRAGMA then
       (case arg of
          Char_pointers (result # Some name # value # others) \<Rightarrow>
            (case crypt_pragma ssl name value (pf_derived s) of
               (Inl e, d) \<Rightarrow> (Inl e, arg, s\<lparr>pf_derived := d\<rparr>)
             | (Inr (Some msg), d) \<Rightarrow>
                 (Inr (), Char_pointers (result # Some (key_message_text msg) # value # others), s\<lparr>pf_derived := d\<rparr>)
             | (Inr None, d) \<Rightarrow> on_base_with (File_file_control P operation) (arg, s))
        | _ \<Rightarrow> (Inl Undefined, arg, s))
     else on_base_with (File_file_control P operation) (arg, s))"

definition Crypt_file :: "('c, 'k) openssl \<Rightarrow> bool \<Rightarrow> 'p file_ops \<Rightarrow> ('p, ('c, 'k) crypt) page_file file_ops" where
  "Crypt_file ssl big P =
     (Page_transforming_file P (crypt_codec ssl big))\<lparr>File_file_control := crypt_file_control ssl P\<rparr>"

section \<open>What the file relies on OpenSSL for\<close>

text \<open>
  Documented behaviour of the AES-GCM ciphers: \<open>seal\<close> and \<open>tag\<close> are the ciphertext and the
  authentication tag of a cipher, key, 12-byte initialisation vector and plaintext. Encryption
  writes the ciphertext and \<^verbatim>\<open>EVP_CTRL_GCM_GET_TAG\<close> the tag; decryption gives back the plaintext, and
  \<^verbatim>\<open>EVP_CipherFinal_ex\<close> succeeds exactly when the expected tag that was set is the tag.
\<close>

definition gcm_encrypts ::
  "('c, 'k) openssl \<Rightarrow> ('k \<Rightarrow> byte list \<Rightarrow> byte list \<Rightarrow> byte list \<Rightarrow> byte list) \<Rightarrow>
   ('k \<Rightarrow> byte list \<Rightarrow> byte list \<Rightarrow> byte list \<Rightarrow> byte list) \<Rightarrow> bool" where
  "gcm_encrypts ssl seal tag \<longleftrightarrow>
     (\<forall>k key iv pt c ok1 c1 ok2 ct len c2 ok3 out len3 c3.
        12 \<le> length iv \<longrightarrow> length pt < 2 ^ 31 \<longrightarrow>
        EVP_CipherInit_ex ssl (Some k) key iv True (EVP_CIPHER_CTX_reset ssl c) = (ok1, c1) \<longrightarrow>
        EVP_CipherUpdate ssl pt (int (length pt)) c1 = (ok2, ct, len, c2) \<longrightarrow>
        EVP_CipherFinal_ex ssl ct c2 = (ok3, out, len3, c3) \<longrightarrow>
        ok1 \<noteq> 0 \<and> ok2 \<noteq> 0 \<and> len = int (length pt) \<and> ct = seal k key (take 12 iv) pt \<and>
        ok3 \<noteq> 0 \<and> len3 = 0 \<and> out = ct \<and>
        (\<forall>buf. 16 \<le> length buf \<longrightarrow>
           fst (snd (EVP_CTRL_GCM_GET_TAG ssl 16 buf c3)) = overwrite buf 0 (tag k key (take 12 iv) pt)))"

definition gcm_decrypts ::
  "('c, 'k) openssl \<Rightarrow> ('k \<Rightarrow> byte list \<Rightarrow> byte list \<Rightarrow> byte list \<Rightarrow> byte list) \<Rightarrow>
   ('k \<Rightarrow> byte list \<Rightarrow> byte list \<Rightarrow> byte list \<Rightarrow> byte list) \<Rightarrow> bool" where
  "gcm_decrypts ssl seal tag \<longleftrightarrow>
     (\<forall>k key iv pt ct t c ok1 c1 ok2 pt' len c2 ok3 out len3 c3.
        12 \<le> length iv \<longrightarrow> length pt < 2 ^ 31 \<longrightarrow> 16 \<le> length t \<longrightarrow>
        ct = seal k key (take 12 iv) pt \<longrightarrow>
        EVP_CipherInit_ex ssl (Some k) key iv False (EVP_CIPHER_CTX_reset ssl c) = (ok1, c1) \<longrightarrow>
        EVP_CipherUpdate ssl ct (int (length ct)) c1 = (ok2, pt', len, c2) \<longrightarrow>
        EVP_CipherFinal_ex ssl pt' (snd (EVP_CTRL_GCM_SET_TAG ssl 16 t c2)) = (ok3, out, len3, c3) \<longrightarrow>
        ok1 \<noteq> 0 \<and> ok2 \<noteq> 0 \<and> len = int (length ct) \<and> pt' = pt \<and>
        (ok3 \<noteq> 0 \<longleftrightarrow> take 16 t = tag k key (take 12 iv) pt) \<and> len3 = 0 \<and> out = pt)"

definition gcm_lengths ::
  "('k \<Rightarrow> byte list \<Rightarrow> byte list \<Rightarrow> byte list \<Rightarrow> byte list) \<Rightarrow>
   ('k \<Rightarrow> byte list \<Rightarrow> byte list \<Rightarrow> byte list \<Rightarrow> byte list) \<Rightarrow> bool" where
  "gcm_lengths seal tag \<longleftrightarrow>
     (\<forall>k key iv pt. length (seal k key iv pt) = length pt \<and> length (tag k key iv pt) = 16)"

text \<open>\<^verbatim>\<open>RAND_bytes\<close> fills the number of bytes it is told and nothing behind them.\<close>

definition rand_fills :: "('c, 'k) openssl \<Rightarrow> bool" where
  "rand_fills ssl \<longleftrightarrow>
     (\<forall>buf n c. length (fst (snd (RAND_bytes ssl buf n c))) = length buf \<and>
        drop (nat n) (fst (snd (RAND_bytes ssl buf n c))) = drop (nat n) buf)"

definition aes_gcm ::
  "('c, 'k) openssl \<Rightarrow> ('k \<Rightarrow> byte list \<Rightarrow> byte list \<Rightarrow> byte list \<Rightarrow> byte list) \<Rightarrow>
   ('k \<Rightarrow> byte list \<Rightarrow> byte list \<Rightarrow> byte list \<Rightarrow> byte list) \<Rightarrow> bool" where
  "aes_gcm ssl seal tag \<longleftrightarrow>
     gcm_encrypts ssl seal tag \<and> gcm_decrypts ssl seal tag \<and> gcm_lengths seal tag \<and> rand_fills ssl"

section \<open>Pages as parts\<close>

lemma span_bytes_parts:
  "length (xs @ ys) < 2 ^ 64 \<Longrightarrow> n = length xs + length ys \<Longrightarrow> span_bytes (xs @ ys @ zs) (slice (length xs) n) = ys"
  by (simp add: slice_bytes)

lemma span_put_parts:
  "length (xs @ ys) < 2 ^ 64 \<Longrightarrow> length ys' = length ys \<Longrightarrow>
     span_put (xs @ ys @ zs) (slice (length xs) n) ys' = xs @ ys' @ zs"
  by (simp add: slice_put overwrite_def)

lemma increment_u32_big: "increment_u32 True bs = increment_u32 False bs"
  by (simp add: increment_u32_def load_u32_def store_u32_def Let_def)

lemma length_increment_u32 [simp]: "length (increment_u32 big bs) = 4"
  by (cases big) (simp_all add: increment_u32_big increment_u32_def store_u32_def Let_def)

text \<open>The new initialisation vector: eight random bytes and the old counter plus one.\<close>

definition next_iv :: "('c, 'k) openssl \<Rightarrow> byte list \<Rightarrow> 'c \<Rightarrow> byte list" where
  "next_iv ssl iv c = take 8 (fst (snd (RAND_bytes ssl iv 8 c))) @ increment_u32 False (drop 8 iv)"

lemma length_next_iv [simp]: "rand_fills ssl \<Longrightarrow> length iv = 12 \<Longrightarrow> length (next_iv ssl iv c) = 12"
  by (simp add: next_iv_def rand_fills_def)

lemma generate_iv_parts:
  assumes "rand_fills ssl" "length iv = 12" "length xs < 2 ^ 31"
  shows "generate_iv ssl big (slice (length xs) (length xs + 12)) (xs @ iv @ zs, d) =
    (xs @ next_iv ssl iv (cr_context d) @ zs,
     d\<lparr>cr_context := snd (snd (RAND_bytes ssl iv 8 (cr_context d)))\<rparr>)"
proof -
  let ?n = "length xs"
  obtain ok out c where r: "RAND_bytes ssl iv 8 (cr_context d) = (ok, out, c)" by (cases "RAND_bytes ssl iv 8 (cr_context d)")
  have out: "length out = 12" "drop 8 out = drop 8 iv"
    using assms(1,2) r unfolding rand_fills_def by (metis fst_conv snd_conv nat_numeral)+
  have num: "int_of_size (span_size (slice ?n (?n + 12)) - 4) = 8"
    using int_of_size_small [of 8] by (simp add: slice_size)
  have iv_bytes: "span_bytes (xs @ iv @ zs) (slice ?n (?n + 12)) = iv"
    using assms by (intro span_bytes_parts) auto
  have put: "span_put (xs @ iv @ zs) (slice ?n (?n + 12)) out = (xs @ take 8 out) @ drop 8 out @ zs"
    using assms out(1) span_put_parts [of xs iv out zs "?n + 12"] by simp
  have tail: "\<lparr>sp_first = sp_last (slice ?n (?n + 12)) - 4, sp_last = sp_last (slice ?n (?n + 12))\<rparr> =
      slice (length (xs @ take 8 out)) (?n + 12)"
    using out(1) by (simp add: slice_def algebra_simps)
  have tail_bytes: "span_bytes ((xs @ take 8 out) @ drop 8 out @ zs) (slice (length (xs @ take 8 out)) (?n + 12)) = drop 8 out"
    using assms out(1) by (intro span_bytes_parts) auto
  have tail_put: "span_put ((xs @ take 8 out) @ drop 8 out @ zs) (slice (length (xs @ take 8 out)) (?n + 12))
      (increment_u32 big (drop 8 out)) = (xs @ take 8 out) @ increment_u32 big (drop 8 out) @ zs"
    using assms out(1) by (intro span_put_parts) auto
  have inc: "increment_u32 big (drop 8 out) = increment_u32 False (drop 8 iv)"
    using out(2) by (cases big) (simp_all add: increment_u32_big)
  show ?thesis
    unfolding generate_iv_def split_def Let_def num iv_bytes r fst_conv snd_conv put tail tail_bytes tail_put
      prod.sel
    by (simp add: inc next_iv_def r num iv_bytes)
qed


text \<open>One run of the cipher over the page, in each direction.\<close>

lemma span_bytes_front:
  "length xs < 2 ^ 64 \<Longrightarrow> span_bytes (xs @ zs) (slice 0 (length xs)) = xs"
  using span_bytes_parts [of "[]" xs "length xs" zs] by simp

lemma span_put_front:
  "length xs < 2 ^ 64 \<Longrightarrow> length xs' = length xs \<Longrightarrow> span_put (xs @ zs) (slice 0 n) xs' = xs' @ zs"
  using span_put_parts [of "[]" xs xs' zs n] by simp

lemma span_bytes_back:
  "length (xs @ ys) < 2 ^ 64 \<Longrightarrow> n = length xs + length ys \<Longrightarrow> span_bytes (xs @ ys) (slice (length xs) n) = ys"
  using span_bytes_parts [of xs ys n "[]"] by simp

lemma page_spans:
  assumes "length xs = m" "length data = 32" "m < 2 ^ 31" "length xs' = m"
  shows "span_bytes (xs @ data) (slice m (m + 32)) = data"
    "span_bytes (xs @ data) (slice 0 m) = xs"
    "span_put (xs @ data) (slice 0 m) xs' = xs' @ data"
proof -
  have m: "m = length xs" "length xs < 2 ^ 64" "length (xs @ data) < 2 ^ 64" "length xs + 32 = length xs + length data"
    using assms(1-3) by simp_all
  show "span_bytes (xs @ data) (slice m (m + 32)) = data"
    unfolding m(1) by (rule span_bytes_back [OF m(3,4)])
  show "span_bytes (xs @ data) (slice 0 m) = xs"
    unfolding m(1) by (rule span_bytes_front [OF m(2)])
  show "span_put (xs @ data) (slice 0 m) xs' = xs' @ data"
    using assms(1,4) by (intro span_put_front [OF m(2)]) simp
qed

lemma int_of_slice: "j < 2 ^ 31 \<Longrightarrow> int_of_size (span_size (slice 0 j)) = int j"
  using int_of_size_small [of j] by (simp add: slice_size)

lemma crypt_encrypts:
  assumes "aes_gcm ssl seal tag" "en_cipher e = Some k" "length pt < 2 ^ 31" "length data = 32"
  shows "\<exists>c. crypt ssl (slice 0 (length pt)) (slice (length pt) (length pt + 32)) e True (pt @ data, d) =
      (Inr (), seal k (en_key e) (take 12 data) pt @ data, d\<lparr>cr_context := c\<rparr>) \<and>
    (\<forall>buf. 16 \<le> length buf \<longrightarrow>
       fst (snd (EVP_CTRL_GCM_GET_TAG ssl 16 buf c)) = overwrite buf 0 (tag k (en_key e) (take 12 data) pt))"
proof -
  obtain ok1 c1 where 1: "EVP_CipherInit_ex ssl (Some k) (en_key e) data True (EVP_CIPHER_CTX_reset ssl (cr_context d)) = (ok1, c1)"
    by fastforce
  obtain ok2 ct len c2 where 2: "EVP_CipherUpdate ssl pt (int (length pt)) c1 = (ok2, ct, len, c2)"
    by (cases "EVP_CipherUpdate ssl pt (int (length pt)) c1") auto
  obtain ok3 out len3 c3 where 3: "EVP_CipherFinal_ex ssl ct c2 = (ok3, out, len3, c3)"
    by (cases "EVP_CipherFinal_ex ssl ct c2") auto
  have "gcm_encrypts ssl seal tag" using assms(1) by (simp add: aes_gcm_def)
  from this [unfolded gcm_encrypts_def, rule_format, OF _ assms(3) 1 2 3] assms(4)
  have r: "ok1 \<noteq> 0" "ok2 \<noteq> 0" "len = int (length pt)" "ct = seal k (en_key e) (take 12 data) pt"
    "ok3 \<noteq> 0" "len3 = 0" "out = ct"
    "\<And>buf. 16 \<le> length buf \<Longrightarrow>
       fst (snd (EVP_CTRL_GCM_GET_TAG ssl 16 buf c3)) = overwrite buf 0 (tag k (en_key e) (take 12 data) pt)"
    by simp_all
  have ct: "length ct = length pt" using assms(1) r(4) by (simp add: aes_gcm_def gcm_lengths_def)
  note spans = page_spans [OF refl assms(4,3) ct] page_spans [OF ct assms(4,3) ct]
  have "crypt ssl (slice 0 (length pt)) (slice (length pt) (length pt + 32)) e True (pt @ data, d) =
      (Inr (), ct @ data, d\<lparr>cr_context := c3\<rparr>)"
    using assms(2,3) 1 2 3 r by (simp add: crypt_def Let_def spans [unfolded r(4)] int_of_slice)
  with r show ?thesis by auto
qed

lemma crypt_decrypts:
  assumes "aes_gcm ssl seal tag" "en_cipher e = Some k" "length pt < 2 ^ 31" "length data = 32"
  shows "\<exists>c. crypt ssl (slice 0 (length pt)) (slice (length pt) (length pt + 32)) e False
        (seal k (en_key e) (take 12 data) pt @ data, d) =
      (if take 16 (drop 12 data) = tag k (en_key e) (take 12 data) pt then Inr ()
       else Inl (crypt_failed SQLITE_NOTADB), pt @ data, d\<lparr>cr_context := c\<rparr>)"
proof -
  let ?ct = "seal k (en_key e) (take 12 data) pt"
  have ct: "length ?ct = length pt" using assms(1) by (simp add: aes_gcm_def gcm_lengths_def)
  obtain ok1 c1 where 1: "EVP_CipherInit_ex ssl (Some k) (en_key e) data False (EVP_CIPHER_CTX_reset ssl (cr_context d)) = (ok1, c1)"
    by fastforce
  obtain ok2 pt' len c2 where 2: "EVP_CipherUpdate ssl ?ct (int (length ?ct)) c1 = (ok2, pt', len, c2)"
    by (cases "EVP_CipherUpdate ssl ?ct (int (length ?ct)) c1") auto
  obtain ok3 out len3 c3 where 3: "EVP_CipherFinal_ex ssl pt' (snd (EVP_CTRL_GCM_SET_TAG ssl 16 (drop 12 data) c2)) = (ok3, out, len3, c3)"
    by (cases "EVP_CipherFinal_ex ssl pt' (snd (EVP_CTRL_GCM_SET_TAG ssl 16 (drop 12 data) c2))") auto
  have dec: "gcm_decrypts ssl seal tag" using assms(1) by (simp add: aes_gcm_def)
  have long: "12 \<le> length data" "16 \<le> length (drop 12 data)" using assms(4) by simp_all
  note all = dec [unfolded gcm_decrypts_def, rule_format, OF long(1) assms(3) long(2) refl 1 2 3]
  have r: "ok1 \<noteq> 0" "ok2 \<noteq> 0" "len = int (length ?ct)" "pt' = pt"
    "(ok3 \<noteq> 0) = (take 16 (drop 12 data) = tag k (en_key e) (take 12 data) pt)" "len3 = 0" "out = pt"
    using all by blast+
  note spans = page_spans [OF ct assms(4,3) refl] page_spans [OF refl assms(4,3) refl]
  have "crypt ssl (slice 0 (length pt)) (slice (length pt) (length pt + 32)) e False (?ct @ data, d) =
      (if ok3 \<noteq> 0 then Inr () else Inl (crypt_failed SQLITE_NOTADB), pt @ data, d\<lparr>cr_context := c3\<rparr>)"
    using assms(2,3) 1 2 3 [unfolded r(4)] r(1-4,6,7) ct by (simp add: crypt_def Let_def spans int_of_slice)
  with r(5) show ?thesis by auto
qed

section \<open>Encoding and decoding a page\<close>

lemma reserve_spans:
  assumes "32 \<le> n" "n < 2 ^ 31"
  shows "subspan (slice 0 n) (span_size (slice 0 n) - crypt_reserve) dynamic_extent = Inr (slice (n - 32) n)"
    "subspan (slice 0 n) 0 (span_size (slice 0 n) - crypt_reserve) = Inr (slice 0 (n - 32))"
    "subspan (slice (n - 32) n) 0 12 = Inr (slice (n - 32) (n - 32 + 12))"
proof -
  have "crypt_reserve = (of_nat 32 :: 64 word)"
    by (simp add: crypt_reserve_def crypt_file_reserve_size_def)
  then have size_eq: "span_size (slice 0 n) - crypt_reserve = of_nat (n - 32)"
    using assms by (simp add: slice_size)
  show "subspan (slice 0 n) (span_size (slice 0 n) - crypt_reserve) dynamic_extent = Inr (slice (n - 32) n)"
    unfolding size_eq using subspan_slice(2) [of 0 n "n - 32"] assms by simp
  show "subspan (slice 0 n) 0 (span_size (slice 0 n) - crypt_reserve) = Inr (slice 0 (n - 32))"
    unfolding size_eq using subspan_slice_upto [of 0 n "n - 32"] assms by simp
  show "subspan (slice (n - 32) n) 0 12 = Inr (slice (n - 32) (n - 32 + 12))"
    using subspan_slice_upto [of "n - 32" n 12] assms by simp
qed

lemma crypt_encode_parts:
  assumes "aes_gcm ssl seal tag" "en_cipher (active d) = Some k" "length pt + 32 < 2 ^ 31"
    and "length iv = 12" "length rest = 20"
  shows "\<exists>c. crypt_encode_page ssl big (pt @ iv @ rest, d) =
    (Inr (), seal k (en_key (active d)) (next_iv ssl iv (cr_context d)) pt @ next_iv ssl iv (cr_context d) @
       tag k (en_key (active d)) (next_iv ssl iv (cr_context d)) pt @ drop 16 rest, d\<lparr>cr_context := c\<rparr>)"
proof -
  let ?m = "length pt" and ?n = "length pt + 32"
  let ?iv = "next_iv ssl iv (cr_context d)"
  have rand: "rand_fills ssl" and len: "gcm_lengths seal tag" using assms(1) by (simp_all add: aes_gcm_def)
  have iv: "length ?iv = 12" using rand assms(4) by simp
  have whole: "whole (pt @ iv @ rest) = slice 0 ?n"
    using assms(4,5) by (simp add: whole_slice)
  have spans: "subspan (slice 0 ?n) (span_size (slice 0 ?n) - crypt_reserve) dynamic_extent = Inr (slice ?m ?n)"
    "subspan (slice 0 ?n) 0 (span_size (slice 0 ?n) - crypt_reserve) = Inr (slice 0 ?m)"
    "subspan (slice ?m ?n) 0 12 = Inr (slice ?m (?m + 12))"
    using reserve_spans [of ?n] assms(3) by simp_all
  define d1 where "d1 = d\<lparr>cr_context := snd (snd (RAND_bytes ssl iv 8 (cr_context d)))\<rparr>"
  have gen: "generate_iv ssl big (slice ?m (?m + 12)) (pt @ iv @ rest, d) = (pt @ ?iv @ rest, d1)"
    using generate_iv_parts [OF rand assms(4), of pt big rest d] assms(3) by (simp add: d1_def)
  from crypt_encrypts [OF assms(1,2), of pt "?iv @ rest" d1] assms(3,5) iv obtain c where
    c: "crypt ssl (slice 0 ?m) (slice ?m ?n) (active d) True (pt @ ?iv @ rest, d1) =
        (Inr (), seal k (en_key (active d)) ?iv pt @ ?iv @ rest, d1\<lparr>cr_context := c\<rparr>)"
      "\<And>buf. 16 \<le> length buf \<Longrightarrow>
         fst (snd (EVP_CTRL_GCM_GET_TAG ssl 16 buf c)) = overwrite buf 0 (tag k (en_key (active d)) ?iv pt)"
    by auto
  let ?ct = "seal k (en_key (active d)) ?iv pt" and ?t = "tag k (en_key (active d)) ?iv pt"
  have lens: "length ?ct = ?m" "length ?t = 16" using len by (simp_all add: gcm_lengths_def)
  have tag_span: "\<lparr>sp_first = of_nat ?m + 12, sp_last = of_nat ?m + 32\<rparr> = slice (?m + 12) ?n"
    by (simp add: slice_def)
  have tag_bytes: "span_bytes (?ct @ ?iv @ rest) (slice (?m + 12) ?n) = rest"
    using lens iv assms(3,5) span_bytes_back [of "?ct @ ?iv" rest ?n] by simp
  have tag_put: "span_put (?ct @ ?iv @ rest) (slice (?m + 12) ?n) (overwrite rest 0 ?t) = ?ct @ ?iv @ ?t @ drop 16 rest"
    using lens iv assms(3,5) span_put_parts [of "?ct @ ?iv" rest "overwrite rest 0 ?t" "[]" ?n]
    by (simp add: overwrite_def)
  have get: "fst (snd (EVP_CTRL_GCM_GET_TAG ssl 16 rest c)) = overwrite rest 0 ?t"
    using c(2) [of rest] assms(5) by simp
  have "crypt_encode_page ssl big (pt @ iv @ rest, d) =
      (Inr (), ?ct @ ?iv @ ?t @ drop 16 rest,
       (d1\<lparr>cr_context := c\<rparr>)\<lparr>cr_context := snd (snd (EVP_CTRL_GCM_GET_TAG ssl 16 rest c))\<rparr>)"
    using assms(2) gen c(1) tag_bytes tag_put get
    by (simp add: crypt_encode_page_def Let_def whole spans and_then_def tag_span split_def)
  then show ?thesis by (auto simp: d1_def)
qed

lemma crypt_decode_parts:
  assumes "aes_gcm ssl seal tag" "en_cipher (cr_current d) = Some k" "length pt + 32 < 2 ^ 31"
    and "length iv = 12" "length rest = 20"
  shows "\<exists>c. crypt_decode_page ssl (seal k (en_key (cr_current d)) iv pt @ iv @ rest, d) =
    (if take 16 rest = tag k (en_key (cr_current d)) iv pt then Inr () else Inl (crypt_failed SQLITE_NOTADB),
     pt @ iv @ rest, d\<lparr>cr_context := c\<rparr>)"
proof -
  let ?m = "length pt" and ?n = "length pt + 32"
  let ?ct = "seal k (en_key (cr_current d)) iv pt"
  have len: "length ?ct = ?m" using assms(1) by (simp add: aes_gcm_def gcm_lengths_def)
  have whole: "whole (?ct @ iv @ rest) = slice 0 ?n"
    using assms(4,5) len by (simp add: whole_slice)
  have spans: "subspan (slice 0 ?n) (span_size (slice 0 ?n) - crypt_reserve) dynamic_extent = Inr (slice ?m ?n)"
    "subspan (slice 0 ?n) 0 (span_size (slice 0 ?n) - crypt_reserve) = Inr (slice 0 ?m)"
    using reserve_spans [of ?n] assms(3) by simp_all
  from crypt_decrypts [OF assms(1,2), of pt "iv @ rest" d] assms(3-5) obtain c where
    "crypt ssl (slice 0 ?m) (slice ?m ?n) (cr_current d) False (?ct @ iv @ rest, d) =
      (if take 16 rest = tag k (en_key (cr_current d)) iv pt then Inr () else Inl (crypt_failed SQLITE_NOTADB),
       pt @ iv @ rest, d\<lparr>cr_context := c\<rparr>)"
    by auto
  then show ?thesis
    using assms(2) by (auto simp: crypt_decode_page_def Let_def whole spans and_then_def)
qed


text \<open>
  The keys of a crypt file, what it stores for a page and the reserve size it accepts, and the
  contract of the codec, for every OpenSSL that keeps its own.
\<close>

type_synonym 'k crypt_key = "'k option \<times> byte list"

definition key_of :: "'k Encryptor \<Rightarrow> 'k crypt_key" where
  "key_of e = (en_cipher e, en_key e)"

definition crypt_reserved :: "'k crypt_key \<Rightarrow> nat" where
  "crypt_reserved q = (if fst q = None then 0 else 32)"

definition crypt_accepts :: "'k crypt_key \<Rightarrow> byte \<Rightarrow> bool" where
  "crypt_accepts q b \<longleftrightarrow> fst q = None \<or> b = 32"

definition crypt_encoded ::
  "('k \<Rightarrow> byte list \<Rightarrow> byte list \<Rightarrow> byte list \<Rightarrow> byte list) \<Rightarrow>
   ('k \<Rightarrow> byte list \<Rightarrow> byte list \<Rightarrow> byte list \<Rightarrow> byte list) \<Rightarrow>
   'k crypt_key \<Rightarrow> byte list \<Rightarrow> byte list \<Rightarrow> bool" where
  "crypt_encoded seal tag q pg pg' \<longleftrightarrow>
     (case fst q of
        None \<Rightarrow> pg' = pg
      | Some k \<Rightarrow> 32 \<le> length pg \<and>
          (\<exists>iv rest. length iv = 12 \<and> length rest = 4 \<and>
             (let pt = take (length pg - 32) pg in
              pg' = seal k (snd q) iv pt @ iv @ tag k (snd q) iv pt @ rest)))"

lemma page_parts:
  assumes "32 \<le> length pg"
  obtains pt iv rest where "pg = pt @ iv @ rest" "length pt = length pg - 32" "length iv = 12" "length rest = 20"
    "pt = take (length pg - 32) pg"
proof (rule that)
  let ?n = "length pg - 32"
  show "pg = take ?n pg @ take 12 (drop ?n pg) @ drop 12 (drop ?n pg)" by (simp del: drop_drop)
qed (use assms in auto)

lemma crypt_context_same: "\<exists>c. d = d\<lparr>cr_context := c\<rparr>"
  by (rule exI [of _ "cr_context d"]) simp

lemma crypt_encode_contract:
  assumes "aes_gcm ssl seal tag" "crypt_reserved (key_of (active d)) \<le> length pg" "length pg < 2 ^ 31"
  shows "\<exists>pg' c. crypt_encode_page ssl big (pg, d) = (Inr (), pg', d\<lparr>cr_context := c\<rparr>) \<and>
    length pg' = length pg \<and> crypt_encoded seal tag (key_of (active d)) pg pg'"
proof (cases "en_cipher (active d)")
  case None
  then have "crypt_encode_page ssl big (pg, d) = (Inr (), pg, d\<lparr>cr_context := cr_context d\<rparr>)"
    by (simp add: crypt_encode_page_def Let_def)
  then show ?thesis using None by (auto simp: crypt_encoded_def key_of_def intro: crypt_context_same)
next
  case (Some k)
  with assms(2) have "32 \<le> length pg" by (simp add: crypt_reserved_def key_of_def)
  then obtain pt iv rest where parts: "pg = pt @ iv @ rest" "length pt = length pg - 32" "length iv = 12"
    "length rest = 20" "pt = take (length pg - 32) pg" by (rule page_parts)
  let ?iv = "next_iv ssl iv (cr_context d)"
  have lens: "length ?iv = 12" "gcm_lengths seal tag"
    using assms(1) parts(3) by (auto simp: aes_gcm_def)
  have "length pt + 32 < 2 ^ 31" using assms(3) parts(2) \<open>32 \<le> length pg\<close> by simp
  from crypt_encode_parts [OF assms(1) Some this parts(3,4), of big] obtain c where
    c: "crypt_encode_page ssl big (pg, d) =
      (Inr (), seal k (en_key (active d)) ?iv pt @ ?iv @ tag k (en_key (active d)) ?iv pt @ drop 16 rest,
       d\<lparr>cr_context := c\<rparr>)"
    unfolding parts(1) [symmetric] by blast
  have "crypt_encoded seal tag (key_of (active d)) pg
      (seal k (en_key (active d)) ?iv pt @ ?iv @ tag k (en_key (active d)) ?iv pt @ drop 16 rest)"
    unfolding crypt_encoded_def key_of_def fst_conv snd_conv Some option.case Let_def parts(5) [symmetric]
    using lens parts(4) \<open>32 \<le> length pg\<close> by (intro conjI exI [of _ ?iv] exI [of _ "drop 16 rest"]) simp_all
  moreover have "length (seal k (en_key (active d)) ?iv pt @ ?iv @ tag k (en_key (active d)) ?iv pt @ drop 16 rest) = length pg"
    using lens parts(2,4) \<open>32 \<le> length pg\<close> by (simp add: gcm_lengths_def)
  ultimately show ?thesis using c by blast
qed

lemma crypt_decode_contract:
  assumes "aes_gcm ssl seal tag" "crypt_encoded seal tag (key_of (cr_current d)) pg pg'" "length pg < 2 ^ 31"
  shows "\<exists>r c. crypt_decode_page ssl (pg', d) = (Inr (), r, d\<lparr>cr_context := c\<rparr>) \<and> length r = length pg \<and>
    take (length pg - crypt_reserved (key_of (cr_current d))) r =
      take (length pg - crypt_reserved (key_of (cr_current d))) pg"
proof (cases "en_cipher (cr_current d)")
  case None
  then have "crypt_decode_page ssl (pg', d) = (Inr (), pg', d\<lparr>cr_context := cr_context d\<rparr>)"
    by (simp add: crypt_decode_page_def Let_def)
  then show ?thesis using None assms(2) by (auto simp: crypt_encoded_def key_of_def intro: crypt_context_same)
next
  case (Some k)
  define pt where "pt = take (length pg - 32) pg"
  from assms(2) Some obtain iv rest where e: "32 \<le> length pg" "length iv = 12" "length rest = 4"
    "pg' = seal k (en_key (cr_current d)) iv pt @ iv @ tag k (en_key (cr_current d)) iv pt @ rest"
    by (auto simp: crypt_encoded_def key_of_def Let_def pt_def)
  have pt: "length pt = length pg - 32" using e(1) by (simp add: pt_def)
  let ?t = "tag k (en_key (cr_current d)) iv pt"
  have t: "length ?t = 16" using assms(1) by (simp add: aes_gcm_def gcm_lengths_def)
  have small: "length pt + 32 < 2 ^ 31" "length (?t @ rest) = 20" using assms(3) pt e(1,3) t by simp_all
  from crypt_decode_parts [OF assms(1) Some small(1) e(2) small(2)] t obtain c where
    "crypt_decode_page ssl (pg', d) = (Inr (), pt @ iv @ ?t @ rest, d\<lparr>cr_context := c\<rparr>)"
    unfolding e(4) by auto
  moreover have "crypt_reserved (key_of (cr_current d)) = 32" using Some by (simp add: crypt_reserved_def key_of_def)
  ultimately show ?thesis using pt e t
    by (intro exI [of _ "pt @ iv @ ?t @ rest"] exI [of _ c]) (simp add: pt_def)
qed

interpretation crypt: codec_contract "crypt_codec ssl big" "\<lambda>d. aes_gcm ssl seal tag \<and> cr_transform d = t"
  "\<lambda>d. key_of (active d)" "\<lambda>d. key_of (cr_current d)" crypt_reserved "crypt_encoded seal tag" crypt_accepts
  for ssl big seal tag t
proof (unfold_locales, goal_cases)
  case (1 d pg)
  then have "aes_gcm ssl seal tag" by blast
  from crypt_encode_contract [OF this 1(2,3), of big] obtain pg' c where
    "crypt_encode_page ssl big (pg, d) = (Inr (), pg', d\<lparr>cr_context := c\<rparr>)" "length pg' = length pg"
    "crypt_encoded seal tag (key_of (active d)) pg pg'" by blast
  with 1 show ?case
    by (intro exI [of _ pg'] exI [of _ "d\<lparr>cr_context := c\<rparr>"]) (simp add: crypt_codec_def active_def)
next
  case (2 d pg pg')
  then have "aes_gcm ssl seal tag" by blast
  from crypt_decode_contract [OF this 2(2,5)] obtain r c where
    "crypt_decode_page ssl (pg', d) = (Inr (), r, d\<lparr>cr_context := c\<rparr>)" "length r = length pg"
    "take (length pg - crypt_reserved (key_of (cr_current d))) r =
      take (length pg - crypt_reserved (key_of (cr_current d))) pg" by blast
  with 2 show ?case
    by (intro exI [of _ r] exI [of _ "d\<lparr>cr_context := c\<rparr>"]) (simp add: crypt_codec_def active_def)
next
  case (3 b d)
  then show ?case
    by (simp add: crypt_codec_def crypt_check_reserve_size_def crypt_accepts_def crypt_file_reserve_size_def key_of_def)
next
  case (4 k)
  then show ?case by (simp add: crypt_reserved_def)
qed

section \<open>Keys\<close>

text \<open>
  A hex key read digit by digit: a lone first digit is a byte of its own, then every two digits
  are one. The reference for the index loops of \<^verbatim>\<open>_generate_key\<close>.
\<close>

fun hex_pairs :: "string \<Rightarrow> key_message + byte list" where
  "hex_pairs (a # b # rest) =
     (if convert a < 0 then Inl (Bad_hex_character a)
      else if convert b < 0 then Inl (Bad_hex_character b)
      else map_sum id (Cons (word_of_int (16 * convert a + convert b))) (hex_pairs rest))"
| "hex_pairs _ = Inr []"

definition hex_reference :: "string \<Rightarrow> key_message + byte list" where
  "hex_reference body =
     (if even (length body) then hex_pairs body
      else if convert (hd body) < 0 then Inl (Bad_hex_character (hd body))
      else map_sum id (Cons (word_of_int (convert (hd body)))) (hex_pairs (tl body)))"

lemma convert_bounds: "convert c = - 1 \<or> 0 \<le> convert c \<and> convert c < 16"
  by (auto simp: convert_def)

lemma nibbles_or:
  assumes "0 \<le> a" "a < 16" "0 \<le> b" "b < 16"
  shows "push_bit 4 (push_bit 4 0 OR word_of_int a) OR word_of_int b = (word_of_int (16 * a + b) :: byte)"
proof -
  have "take_bit 4 a = a" "take_bit 4 b = b"
    using assms by (simp_all add: take_bit_int_eq_self)
  then have "push_bit 4 a + b = push_bit 4 a OR b"
    using disjunctive_add [of "push_bit 4 a" b]
    by (metis (no_types, lifting) bit_push_bit_iff bit_take_bit_iff linorder_not_le)
  moreover have "push_bit 4 a = 16 * a" by (simp add: push_bit_eq_mult)
  ultimately have "(word_of_int (16 * a + b) :: byte) = word_of_int (push_bit 4 a OR b)" by simp
  also have "\<dots> = push_bit 4 (word_of_int a) OR word_of_int b"
    by (simp add: bit_eq_iff bit_simps) (auto simp: bit_simps)
  finally show ?thesis by simp
qed

lemma hex_key_loop_reference:
  assumes "length key = n" "i \<le> n" "\<forall>j. i \<le> j \<longrightarrow> j < n \<longrightarrow> key ! j = 0"
    and "drop (p + 2 * i) value = body @ rest" "length body = 2 * (n - i)"
  shows "hex_key_loop value p (concat (map (\<lambda>i. [(i, 0), (i, 1)]) [i ..< n])) key =
    map_sum id (\<lambda>bs. take i key @ bs) (hex_pairs body)"
  using assms
proof (induction "n - i" arbitrary: i key body)
  case 0
  then show ?case by simp
next
  case (Suc m)
  then have i: "i < n" "[i ..< n] = i # [Suc i ..< n]" by (simp_all add: upt_conv_Cons)
  from Suc.prems(5) i(1) obtain a b body' where body: "body = a # b # body'" "length body' = 2 * (n - Suc i)"
    by (cases body; cases "tl body") auto
  have long: "p + 2 * i + 1 < length value"
    using arg_cong [OF Suc.prems(4), of length] body by simp
  have "value ! (p + 2 * i) = a" "value ! (p + 2 * i + 1) = b"
    using arg_cong [OF Suc.prems(4), of "\<lambda>xs. xs ! 0"] arg_cong [OF Suc.prems(4), of "\<lambda>xs. xs ! 1"] long body
    by simp_all
  then have chars: "c_nth value (p + i * 2 + 0) = a" "c_nth value (p + i * 2 + 1) = b"
    using long by (simp_all add: c_nth_def mult.commute)
  have tl: "drop (p + 2 * Suc i) value = body' @ rest"
    using arg_cong [OF Suc.prems(4), of "drop 2"] body by (simp add: algebra_simps)
  show ?case
  proof (cases "convert a < 0 \<or> convert b < 0")
    case True
    then show ?thesis using i chars body by (auto simp: Let_def)
  next
    case False
    let ?v = "word_of_int (16 * convert a + convert b) :: byte"
    define key' where "key' = key[i := ?v]"
    have zero: "key ! i = 0" using Suc.prems(3) i(1) by simp
    have ab: "0 \<le> convert a" "convert a < 16" "0 \<le> convert b" "convert b < 16"
      using False convert_bounds [of a] convert_bounds [of b] by auto
    have key': "key[i := push_bit 4 (key ! i) OR word_of_int (convert a),
        i := push_bit 4 (key[i := push_bit 4 (key ! i) OR word_of_int (convert a)] ! i) OR word_of_int (convert b)] = key'"
      using i(1) Suc.prems(1) zero nibbles_or [OF ab] by (simp add: key'_def)
    have "hex_key_loop value p (concat (map (\<lambda>i. [(i, 0), (i, 1)]) [Suc i ..< n])) key' =
        map_sum id (\<lambda>bs. take (Suc i) key' @ bs) (hex_pairs body')"
      using Suc.hyps(2) Suc.prems(1,3) i(1) tl body(2) by (intro Suc.hyps(1)) (auto simp: key'_def)
    moreover have "take (Suc i) key' = take i key @ [?v]"
      using i(1) Suc.prems(1) by (simp add: key'_def take_Suc_conv_app_nth)
    ultimately show ?thesis
      using i False chars body key' by (cases "hex_pairs body'") (simp_all add: Let_def)
  qed
qed

lemma hex_key_reference:
  assumes "value = c # q # body @ rest"
  shows "hex_key value (length body) = hex_reference body"
proof (cases "even (length body)")
  case True
  then have "length body mod 2 = 0" by presburger
  with True hex_key_loop_reference [of "replicate (length body div 2) 0" "length body div 2" 0 2 "value" body rest] assms
  show ?thesis by (cases "hex_pairs body") (simp_all add: hex_key_def hex_reference_def)
next
  case False
  then obtain a body' where body: "body = a # body'" "even (length body')" by (cases body) auto
  have odd: "length body mod 2 = 1" "length body div 2 + 1 = length body' div 2 + 1"
    using False body by (simp_all, presburger+)
  show ?thesis
  proof (cases "convert a < 0")
    case True
    then show ?thesis using assms body False odd(1) by (simp add: hex_key_def hex_reference_def c_nth_def)
  next
    case ok: False
    let ?n = "length body' div 2 + 1"
    let ?key = "(replicate ?n 0)[0 := word_of_int (convert a)] :: byte list"
    have "hex_key_loop value 1 (concat (map (\<lambda>i. [(i, 0), (i, 1)]) [1 ..< ?n])) ?key =
        map_sum id (\<lambda>bs. take 1 ?key @ bs) (hex_pairs body')"
      using assms body by (intro hex_key_loop_reference) (auto simp: nth_list_update)
    then show ?thesis using assms body False ok odd
      by (simp add: hex_key_def hex_reference_def c_nth_def Let_def)
  qed
qed


text \<open>Writing a byte as two hex digits, for the round trip.\<close>

definition hex_digit :: "nat \<Rightarrow> char" where
  "hex_digit n = (if n < 10 then char_of (48 + n) else char_of (87 + n))"

definition hex_of :: "byte list \<Rightarrow> string" where
  "hex_of bs = concat (map (\<lambda>b. [hex_digit (unat b div 16), hex_digit (unat b mod 16)]) bs)"

lemma schar_char_of: "n < 128 \<Longrightarrow> schar (char_of n) = int n"
proof -
  assume n: "n < 128"
  have "(of_char (char_of n :: char) :: byte) = of_nat (of_char (char_of n :: char))"
    by (rule of_nat_of_char [symmetric])
  also have "of_char (char_of n :: char) = n" using n by simp
  finally show ?thesis using n by (simp add: schar_def signed_of_nat signed_take_bit_int_eq_self_iff)
qed

lemma convert_hex_digit: "n < 16 \<Longrightarrow> convert (hex_digit n) = int n"
  by (auto simp: hex_digit_def convert_def schar_char_of)

lemma hex_pairs_hex_of: "hex_pairs (hex_of bs) = Inr bs"
proof (induction bs)
  case (Cons b bs)
  have less: "unat b < 256" using unsigned_less [of b] by simp
  then have "convert (hex_digit (unat b div 16)) = int (unat b div 16)"
    "convert (hex_digit (unat b mod 16)) = int (unat b mod 16)"
    by (auto intro!: convert_hex_digit)
  moreover have "16 * int (unat b div 16) + int (unat b mod 16) = int (unat b)"
    by (metis mult_div_mod_eq of_nat_add of_nat_mult of_nat_numeral)
  moreover have "(word_of_int (int (unat b)) :: byte) = b" by simp
  ultimately show ?case using Cons by (simp add: hex_of_def del: of_int_of_nat_eq)
qed (simp add: hex_of_def)

text \<open>
  C3: the key parser, for every value. A value is read as a key exactly when it is a letter and a text between two equal quotes,
  single or double; every other value is \<^verbatim>\<open>bad key format\<close>. After \<^verbatim>\<open>r\<close> the characters are the key, after \<^verbatim>\<open>x\<close> the index
  loops compute exactly the digit-by-digit reading (the error names the first bad character), and another letter is
  \<^verbatim>\<open>unknown format\<close>. Writing a key in hex and parsing it gives the key back.
\<close>

theorem parse_key_reference:
  "(\<forall>c q body. q \<in> {CHR 0x27, CHR ''\"''} \<longrightarrow>
     parse_key (c # q # body @ [q]) =
       (if c = CHR ''r'' then Inr (map char_byte body)
        else if c = CHR ''x'' then hex_reference body
        else Inl Unknown_format)) \<and>
   ((\<nexists>c q body. q \<in> {CHR 0x27, CHR ''\"''} \<and> v = c # q # body @ [q]) \<longrightarrow> parse_key v = Inl Bad_key_format) \<and>
   (q \<in> {CHR 0x27, CHR ''\"''} \<longrightarrow> parse_key (CHR ''x'' # q # hex_of key @ [q]) = Inr key)"
proof -
  have eq: "parse_key (c # q # body @ [q]) =
       (if c = CHR ''r'' then Inr (map char_byte body)
        else if c = CHR ''x'' then hex_reference body
        else Inl Unknown_format)" if q: "q \<in> {CHR 0x27, CHR ''\"''}" for c q and body :: string
  proof -
    have len: "\<not> length (c # q # body @ [q]) < 3" "length (c # q # body @ [q]) - 3 = length body"
      "(c # q # body @ [q]) ! 1 = q" "(c # q # body @ [q]) ! (length (c # q # body @ [q]) - 1) = q"
      by (simp_all add: nth_append)
    show ?thesis
      using q len hex_key_reference [of "c # q # body @ [q]" c q body "[q]"]
      unfolding parse_key_def Let_def by (auto simp del: length_Cons)
  qed
  have "parse_key (CHR ''x'' # q # hex_of key @ [q]) = Inr key" if "q \<in> {CHR 0x27, CHR ''\"''}"
    using eq [OF that] hex_pairs_hex_of [of key] by (simp add: hex_reference_def hex_of_def length_concat comp_def sum_list_triv)
  moreover have "parse_key v = Inl Bad_key_format" if none: "\<nexists>c q body. q \<in> {CHR 0x27, CHR ''\"''} \<and> v = c # q # body @ [q]"
  proof (rule ccontr)
    assume "parse_key v \<noteq> Inl Bad_key_format"
    then have "\<not> (length v < 3 \<or> v ! 1 \<noteq> v ! (length v - 1) \<or> (v ! 1 \<noteq> CHR 0x27 \<and> v ! 1 \<noteq> CHR ''\"''))"
      unfolding parse_key_def Let_def by metis
    then have v: "\<not> length v < 3" "v ! 1 = v ! (length v - 1)" "v ! 1 \<in> {CHR 0x27, CHR ''\"''}" by auto
    then obtain c q' v' where w: "v = c # q' # v'" "v' \<noteq> []"
      by (cases v; cases "tl v"; cases "tl (tl v)") auto
    then have "last v' = q'" using v(2) by (simp add: last_conv_nth)
    with w(2) have "v' = butlast v' @ [q']" by (metis append_butlast_last_id)
    then show False using none w(1) v(3) by auto
  qed
  ultimately show ?thesis using eq by blast
qed

theorem parse_key_reference_witness:
  "parse_key (''x'' @ [CHR 0x27] @ ''0aF'' @ [CHR 0x27]) = Inr [0, 175] \<and> parse_key ''x,00,'' = Inl Bad_key_format"
proof
  show "parse_key (''x'' @ [CHR 0x27] @ ''0aF'' @ [CHR 0x27]) = Inr [0, 175]"
    using parse_key_reference [THEN conjunct1, rule_format, of "CHR 0x27" "CHR ''x''" "''0aF''"]
    by (simp add: hex_reference_def convert_def schar_def)
  have "\<nexists>c q body. q \<in> {CHR 0x27, CHR ''\"''} \<and> ''x,00,'' = c # q # body @ [q]" by simp
  then show "parse_key ''x,00,'' = Inl Bad_key_format"
    using parse_key_reference [THEN conjunct2, THEN conjunct1] by blast
qed


section \<open>An instance of the library contract\<close>

text \<open>
  A cipher that adds the number of the \<^verbatim>\<open>EVP_CIPHER\<close> and has the sum of everything as its tag keeps
  the contract; the closed examples below run on it.
\<close>

definition demo_seal :: "byte \<Rightarrow> byte list \<Rightarrow> byte list \<Rightarrow> byte list \<Rightarrow> byte list" where
  "demo_seal k key iv pt = map (\<lambda>b. b + k) pt"

definition demo_tag :: "byte \<Rightarrow> byte list \<Rightarrow> byte list \<Rightarrow> byte list \<Rightarrow> byte list" where
  "demo_tag k key iv pt = replicate 16 (k + sum_list key + sum_list iv + sum_list pt)"

type_synonym demo_context = "bool \<times> byte \<times> byte list \<times> byte list \<times> byte list \<times> byte list"

definition demo_ssl :: "(demo_context, byte) openssl" where
  "demo_ssl =
     \<lparr>EVP_CIPHER_CTX_reset = (\<lambda>_. (True, 0, [], [], [], [])),
      EVP_CipherInit_ex = (\<lambda>k key iv enc c.
        case k of None \<Rightarrow> (0, c) | Some k \<Rightarrow> (1, (enc, k, key, take 12 iv, [], []))),
      EVP_CipherUpdate = (\<lambda>inp n (enc, k, key, iv, _, t).
        if enc then (1, map (\<lambda>b. b + k) inp, n, (enc, k, key, iv, inp, t))
        else (1, map (\<lambda>b. b - k) inp, n, (enc, k, key, iv, map (\<lambda>b. b - k) inp, t))),
      EVP_CTRL_GCM_SET_TAG = (\<lambda>n t (enc, k, key, iv, pt, _). (1, (enc, k, key, iv, pt, take 16 t))),
      EVP_CTRL_GCM_GET_TAG = (\<lambda>n buf (enc, k, key, iv, pt, t).
        (1, overwrite buf 0 (demo_tag k key iv pt), (enc, k, key, iv, pt, t))),
      EVP_CipherFinal_ex = (\<lambda>out (enc, k, key, iv, pt, t).
        (if enc \<or> t = demo_tag k key iv pt then 1 else 0, out, 0, (enc, k, key, iv, pt, t))),
      RAND_bytes = (\<lambda>buf n c. (1, replicate (min (nat n) (length buf)) 7 @ drop (nat n) buf, c)),
      PKCS5_PBKDF2_HMAC_sha512 = (\<lambda>pass iter n out. (1, replicate (nat n) (sum_list pass))),
      EVP_aes_256_gcm = 3, EVP_aes_192_gcm = 2, EVP_aes_128_gcm = 1\<rparr>"

lemma demo_aes_gcm: "aes_gcm demo_ssl demo_seal demo_tag"
proof -
  have "gcm_encrypts demo_ssl demo_seal demo_tag"
    unfolding gcm_encrypts_def by (auto simp: demo_ssl_def demo_seal_def)
  moreover have "gcm_decrypts demo_ssl demo_seal demo_tag"
    unfolding gcm_decrypts_def by (auto simp: demo_ssl_def demo_seal_def comp_def split: if_splits)
  moreover have "gcm_lengths demo_seal demo_tag"
    by (simp add: gcm_lengths_def demo_seal_def demo_tag_def)
  moreover have "rand_fills demo_ssl"
    by (auto simp: rand_fills_def demo_ssl_def min_def)
  ultimately show ?thesis by (simp add: aes_gcm_def)
qed

definition demo_crypt :: "(demo_context, byte) crypt" where
  "demo_crypt =
     \<lparr>cr_context = (True, 0, [], [], [], []), cr_transform = False,
      cr_current = \<lparr>en_cipher = Some 3, en_key = replicate 32 9\<rparr>, cr_transformation = Encryptor_default\<rparr>"

section \<open>Pages\<close>

lemma load_store_u32: "load_u32 False (store_u32 False w) = w"
proof (rule bit_word_eqI)
  fix n assume "n < LENGTH(32)"
  then consider "n < 8" | "8 \<le> n" "n < 16" | "16 \<le> n" "n < 24" | "24 \<le> n" "n < 32" by fastforce
  then show "bit (load_u32 False (store_u32 False w)) n = bit w n"
    by cases (auto simp: load_u32_def store_u32_def bit_simps)
qed

text \<open>
  C7: the initialisation vector in the reserved tail. Encoding a page puts eight bytes drawn from \<^verbatim>\<open>RAND_bytes\<close> in front of the counter,
  four bytes that read as a little-endian number are the counter the page held plus one, in the branch for either byte order; so the
  vector is never the one the page held, and no counter comes back within \<open>2 ^ 32\<close> writes of a page that is read, changed and
  written again. The length of the page is kept, and a page that is too short for the tail is refused with \<^verbatim>\<open>Error::out_of_bounds\<close>.
\<close>

theorem crypt_iv_counter:
  assumes "aes_gcm ssl seal tag" and "en_cipher (active d) = Some k" and "length pg < 2 ^ 31"
  shows "if 32 \<le> length pg
    then \<exists>pg' c. crypt_encode_page ssl big (pg, d) = (Inr (), pg', d\<lparr>cr_context := c\<rparr>) \<and>
      length pg' = length pg \<and>
      take 8 (drop (length pg - 32) pg') =
        take 8 (fst (snd (RAND_bytes ssl (take 12 (drop (length pg - 32) pg)) 8 (cr_context d)))) \<and>
      load_u32 False (take 4 (drop (length pg - 24) pg')) =
        load_u32 False (take 4 (drop (length pg - 24) pg)) + 1 \<and>
      take 12 (drop (length pg - 32) pg') \<noteq> take 12 (drop (length pg - 32) pg)
    else crypt_encode_page ssl big (pg, d) =
      (Inl (Thrown (System_error (make_error_code_ys Out_of_bounds) None)), pg, d)"
proof (cases "32 \<le> length pg")
  case True
  then obtain pt iv rest where parts: "pg = pt @ iv @ rest" "length pt = length pg - 32" "length iv = 12"
    "length rest = 20" by (rule page_parts)
  let ?iv = "next_iv ssl iv (cr_context d)"
  let ?ct = "seal k (en_key (active d)) ?iv pt" and ?t = "tag k (en_key (active d)) ?iv pt"
  have lens: "length ?ct = length pt" "length ?t = 16" "length ?iv = 12" "length (take 8 (fst (snd (RAND_bytes ssl iv 8 (cr_context d))))) = 8"
    using assms(1) parts(3) by (simp_all add: aes_gcm_def gcm_lengths_def rand_fills_def)
  have "length pt + 32 < 2 ^ 31" using assms(3) parts(2) True by simp
  from crypt_encode_parts [OF assms(1,2) this parts(3,4), of big] obtain c where
    c: "crypt_encode_page ssl big (pg, d) = (Inr (), ?ct @ ?iv @ ?t @ drop 16 rest, d\<lparr>cr_context := c\<rparr>)"
    unfolding parts(1) [symmetric] by blast
  have at: "length pg - 24 = length pt + 8" using parts(2) True by simp
  have new: "take 4 (drop (length pg - 24) (?ct @ ?iv @ ?t @ drop 16 rest)) = increment_u32 False (drop 8 iv)"
    using lens by (simp add: at next_iv_def)
  have old: "take 4 (drop (length pg - 24) pg) = drop 8 iv"
    unfolding at using parts(3) by (simp add: parts(1))
  have "load_u32 False (increment_u32 False (drop 8 iv)) = load_u32 False (drop 8 iv) + 1"
    by (simp add: increment_u32_def load_store_u32)
  then have counter: "load_u32 False (take 4 (drop (length pg - 24) (?ct @ ?iv @ ?t @ drop 16 rest))) =
      load_u32 False (take 4 (drop (length pg - 24) pg)) + 1"
    unfolding new old .
  have old_iv: "take 12 (drop (length pg - 32) pg) = iv" unfolding parts(2) [symmetric] using parts(3) by (simp add: parts(1))
  have new_iv: "take 12 (drop (length pg - 32) (?ct @ ?iv @ ?t @ drop 16 rest)) = ?iv"
    unfolding parts(2) [symmetric] using lens by simp
  have random: "take 8 (drop (length pg - 32) (?ct @ ?iv @ ?t @ drop 16 rest)) =
      take 8 (fst (snd (RAND_bytes ssl (take 12 (drop (length pg - 32) pg)) 8 (cr_context d))))"
    unfolding old_iv unfolding parts(2) [symmetric] using lens by (simp add: next_iv_def)
  have "drop 8 ?iv = increment_u32 False (drop 8 iv)" using lens(4) by (simp add: next_iv_def)
  then have "?iv \<noteq> iv" using \<open>load_u32 False (increment_u32 False (drop 8 iv)) = load_u32 False (drop 8 iv) + 1\<close> by auto
  then have changed: "take 12 (drop (length pg - 32) (?ct @ ?iv @ ?t @ drop 16 rest)) \<noteq> take 12 (drop (length pg - 32) pg)"
    unfolding new_iv old_iv .
  have "length (?ct @ ?iv @ ?t @ drop 16 rest) = length pg"
    using lens parts(2,4) True by simp
  with c counter random changed show ?thesis unfolding if_P [OF True] by blast
next
  case False
  then have "subspan (whole pg) (span_size (whole pg) - crypt_reserve) dynamic_extent =
      Inl (Thrown (System_error (make_error_code_ys Out_of_bounds) None))"
  proof -
    have "unat (of_nat (length pg) - 32 :: 64 word) > length pg"
      using False by (simp add: unat_sub_if')
    moreover have "unat (of_nat (length pg) :: 64 word) = length pg" using False by simp
    ultimately show ?thesis
      by (simp add: subspan_def whole_slice slice_size crypt_reserve_def crypt_file_reserve_size_def word_less_nat_alt)
  qed
  then show ?thesis using False assms(2)
    by (simp add: crypt_encode_page_def Let_def and_then_def)
qed


theorem crypt_iv_counter_witness:
  "\<exists>pg' c. crypt_encode_page demo_ssl True (replicate 40 0, demo_crypt) = (Inr (), pg', demo_crypt\<lparr>cr_context := c\<rparr>) \<and>
     load_u32 False (take 4 (drop 16 pg')) = 1"
proof -
  have "en_cipher (active demo_crypt) = Some 3" by (simp add: demo_crypt_def active_def)
  moreover have "load_u32 False (take 4 (drop 16 (replicate 40 0))) = 0" by (simp add: load_u32_def)
  ultimately show ?thesis
    using crypt_iv_counter [OF demo_aes_gcm, of demo_crypt 3 "replicate 40 0" True] by fastforce
qed

text \<open>
  C8: a page whose tag does not fit its ciphertext, vector and key is rejected: decoding throws
  \<^verbatim>\<open>not_a_database\<close>, the keys stay, and only the cipher context changes. With the right tag the
  same page decodes.
\<close>

theorem crypt_rejects_wrong_tag:
  assumes "aes_gcm ssl seal tag" and "en_cipher (cr_current d) = Some k" and "length pt + 32 < 2 ^ 31"
    and "length iv = 12" and "length t = 16" and "length rest = 4"
  shows "\<exists>c. crypt_decode_page ssl (seal k (en_key (cr_current d)) iv pt @ iv @ t @ rest, d) =
    (if t = tag k (en_key (cr_current d)) iv pt then Inr ()
     else Inl (Thrown (System_error (make_error_code 26) (Some ''failed to encrypt/decrypt''))),
     pt @ iv @ t @ rest, d\<lparr>cr_context := c\<rparr>)"
proof -
  have parts: "length (t @ rest) = 20" "take 16 (t @ rest) = t" using assms(5,6) by simp_all
  from crypt_decode_parts [OF assms(1-4) parts(1)] show ?thesis
    unfolding parts(2) crypt_failed_def SQLITE_NOTADB_def .
qed

theorem crypt_rejects_wrong_tag_witness:
  "\<exists>c. crypt_decode_page demo_ssl (map (\<lambda>b. b + 3) (replicate 8 5) @ replicate 12 0 @ replicate 16 1 @ replicate 4 0, demo_crypt) =
    (Inl (Thrown (System_error (make_error_code 26) (Some ''failed to encrypt/decrypt''))),
     replicate 8 5 @ replicate 12 0 @ replicate 16 1 @ replicate 4 0, demo_crypt\<lparr>cr_context := c\<rparr>)"
proof -
  have k: "en_cipher (cr_current demo_crypt) = Some 3" by (simp add: demo_crypt_def)
  have "replicate 16 1 \<noteq> demo_tag 3 (en_key (cr_current demo_crypt)) (replicate 12 0) (replicate 8 5)"
    by (simp add: demo_tag_def demo_crypt_def sum_list_replicate)
  then show ?thesis
    using crypt_rejects_wrong_tag [OF demo_aes_gcm k, of "replicate 8 5" "replicate 12 0" "replicate 16 1" "replicate 4 0"]
    by (simp add: demo_seal_def)
qed

section \<open>Pragmas\<close>

text \<open>
  Changing the key of a database. Starting outside a transformation, \<^verbatim>\<open>crypt_transformation=1\<close>
  makes the writing key a copy of the reading key; a new key and a new cipher then change the
  writing key only, so that pages can still be read with the old one; and
  \<^verbatim>\<open>crypt_transformation=0\<close> makes the new key the reading key. Repeating either switch changes
  nothing.
\<close>

theorem crypt_transformation_rotates:
  assumes "\<not> cr_transform d" and "parse_key v = Inr key" and "set_cipher ssl (Some cipher) e0 = Inr (Msg_ok, e1)"
    and "crypt_pragma ssl ''crypt_transformation'' (Some ''1'') d = (r1, d1)"
    and "crypt_pragma ssl ''key'' (Some v) d1 = (r2, d2)"
    and "crypt_pragma ssl ''cipher'' (Some cipher) d2 = (r3, d3)"
    and "crypt_pragma ssl ''crypt_transformation'' (Some ''0'') d3 = (r4, d4)"
  shows "key_of (active d1) = key_of (cr_current d) \<and>
    key_of (cr_current d3) = key_of (cr_current d) \<and>
    key_of (active d3) =
      (en_cipher e1,
       snd (PKCS5_PBKDF2_HMAC_sha512 ssl key 200000 (int (length (en_key (cr_current d)))) (en_key (cr_current d)))) \<and>
    \<not> cr_transform d4 \<and> key_of (cr_current d4) = key_of (active d3) \<and> key_of (active d4) = key_of (active d3) \<and>
    snd (crypt_pragma ssl ''crypt_transformation'' (Some ''1'') d1) = d1 \<and>
    snd (crypt_pragma ssl ''crypt_transformation'' (Some ''0'') d4) = d4"
proof -
  let ?out = "snd (PKCS5_PBKDF2_HMAC_sha512 ssl key 200000 (int (length (en_key (cr_current d)))) (en_key (cr_current d)))"
  have d1: "d1 = d\<lparr>cr_transformation := cr_current d, cr_transform := True\<rparr>"
    using assms(1,4) by (simp add: crypt_pragma_def crypt_transformation_pragma_def c_nth_def)
  have d2: "d2 = d1\<lparr>cr_transformation := (cr_current d)\<lparr>en_key := ?out\<rparr>\<rparr>"
    using assms(2,5) by (auto simp: crypt_pragma_def generate_key_def d1 active_def set_active_def split: prod.splits)
  have cipher: "set_cipher ssl (Some cipher) e = Inr (Msg_ok, e\<lparr>en_cipher := en_cipher e1\<rparr>)" for e
    using assms(3) by (auto simp: set_cipher_def split: if_splits)
  have d3: "d3 = d2\<lparr>cr_transformation := (cr_current d)\<lparr>en_key := ?out, en_cipher := en_cipher e1\<rparr>\<rparr>"
    using assms(6) cipher by (auto simp: crypt_pragma_def d2 d1 active_def set_active_def)
  have d4: "d4 = d3\<lparr>cr_current := cr_transformation d3, cr_transform := False\<rparr>"
    using assms(7) by (simp add: crypt_pragma_def crypt_transformation_pragma_def c_nth_def d1 d2 d3)
  show ?thesis
    by (simp add: d1 d2 d3 d4 key_of_def active_def crypt_pragma_def crypt_transformation_pragma_def c_nth_def)
qed

theorem crypt_transformation_rotates_witness:
  "key_of (cr_current (snd (crypt_pragma demo_ssl ''crypt_transformation'' (Some ''0'')
     (snd (crypt_pragma demo_ssl ''cipher'' (Some ''null'')
       (snd (crypt_pragma demo_ssl ''key'' (Some (''r'' @ [CHR 0x27, CHR 0x27]))
         (snd (crypt_pragma demo_ssl ''crypt_transformation'' (Some ''1'') demo_crypt))))))))) =
   (None, replicate 32 0)"
proof -
  have "\<not> cr_transform demo_crypt" by (simp add: demo_crypt_def)
  moreover have "parse_key (''r'' @ [CHR 0x27, CHR 0x27]) = Inr []" by (simp add: parse_key_def)
  moreover have "set_cipher demo_ssl (Some ''null'') Encryptor_default = Inr (Msg_ok, Encryptor_default)"
    by (simp add: set_cipher_def Encryptor_default_def)
  ultimately show ?thesis
    using crypt_transformation_rotates [of demo_crypt "''r'' @ [CHR 0x27, CHR 0x27]" "[]" demo_ssl "''null''" Encryptor_default
        Encryptor_default, OF _ _ _ prod.collapse [symmetric] prod.collapse [symmetric] prod.collapse [symmetric]
        prod.collapse [symmetric]]
    by (simp add: demo_ssl_def demo_crypt_def Encryptor_default_def)
qed

end
