(* ===== verification/Ys_Rot13.thy ===== *)
theory Ys_Rot13
  imports Ys_Page_Store
begin

text \<open>
  \<^verbatim>\<open>examples/rot13.cpp\<close>: the smallest page-transforming file, which adds 13 to every byte. It has
  no data of its own.
\<close>

definition rot13_encode_page :: "(byte list \<times> unit, fault, unit) action" where
  "rot13_encode_page = (\<lambda>(page, d). (Inr (), map (\<lambda>i. i + 13) page, d))"

definition rot13_decode_page :: "(byte list \<times> unit, fault, unit) action" where
  "rot13_decode_page = (\<lambda>(page, d). (Inr (), map (\<lambda>i. i - 13) page, d))"

definition rot13_codec :: "unit page_codec" where
  "rot13_codec =
     \<lparr>encode_page = rot13_encode_page, decode_page = rot13_decode_page,
      check_reserve_size = default_check_reserve_size\<rparr>"

definition Rot13_file :: "'p file_ops \<Rightarrow> ('p, unit) page_file file_ops" where
  "Rot13_file P = Page_transforming_file P rot13_codec"

text \<open>The codec keeps the contract with nothing reserved.\<close>

interpretation rot13: codec_contract rot13_codec "\<lambda>_. True" "\<lambda>_. ()" "\<lambda>_. ()" "\<lambda>_. 0"
  "\<lambda>_ pg pg'. pg' = map (\<lambda>i. i + 13) pg" "\<lambda>_ _. True"
  by unfold_locales
    (auto simp: rot13_codec_def rot13_encode_page_def rot13_decode_page_def default_check_reserve_size_def
      comp_def)

end
