(* ===== verification/Ys_Memdb.thy ===== *)
theory Ys_Memdb
  imports Ys_Byte_Store
begin

text \<open>
  The in-memory VFS of \<^verbatim>\<open>sqlite3.c\<close> (\<^verbatim>\<open>memdb.c\<close>): a \<^verbatim>\<open>MemStore\<close> holds the bytes of a database and
  is shared by all files opened with the same name. The stores live in a heap, so that two open
  files can point to the same one; the mutexes are not modelled, every method runs alone.
  Sizes and offsets are \<^verbatim>\<open>sqlite3_int64\<close>, kept as integers; a sum that leaves the range of the
  type has no defined behaviour, and neither has an access outside the allocation.
\<close>

section \<open>Data\<close>

definition SQLITE_DESERIALIZE_FREEONCLOSE :: "32 word" where "SQLITE_DESERIALIZE_FREEONCLOSE = 1"
definition SQLITE_DESERIALIZE_RESIZEABLE :: "32 word" where "SQLITE_DESERIALIZE_RESIZEABLE = 2"
definition SQLITE_DESERIALIZE_READONLY :: "32 word" where "SQLITE_DESERIALIZE_READONLY = 4"

lemmas deserialize_defs = SQLITE_DESERIALIZE_FREEONCLOSE_def SQLITE_DESERIALIZE_RESIZEABLE_def
  SQLITE_DESERIALIZE_READONLY_def

record MemStore =
  ms_sz :: int
  ms_szAlloc :: int
  ms_szMax :: int
  ms_aData :: "byte list"
  ms_nMmap :: int
  ms_mFlags :: "32 word"
  ms_nRdLock :: int
  ms_nWrLock :: int
  ms_nRef :: int
  ms_zFName :: "string option"

text \<open>The heap of stores and \<^verbatim>\<open>memdb_g\<close>; an open file is a pointer to a store and its lock level.\<close>

record MemFS =
  mg_heap :: "nat \<Rightarrow> MemStore option"
  mg_apMemStore :: "nat list"

record MemFile =
  mf_fs :: MemFS
  mf_pStore :: nat
  mf_eLock :: int

text \<open>Running an operation on the store an open file points to.\<close>

definition on_store :: "(MemStore, fault, 'a) action \<Rightarrow> (MemFile, fault, 'a) action" where
  "on_store m = (\<lambda>f. case mg_heap (mf_fs f) (mf_pStore f) of
       None \<Rightarrow> (Inl Undefined, f)
     | Some p \<Rightarrow> (case m p of (r, p') \<Rightarrow>
         (r, f\<lparr>mf_fs := (mf_fs f)\<lparr>mg_heap := (mg_heap (mf_fs f))(mf_pStore f := Some p')\<rparr>\<rparr>)))"

definition on_store_with :: "('b \<times> MemStore, fault, 'a) action \<Rightarrow> ('b \<times> MemFile, fault, 'a) action" where
  "on_store_with m = (\<lambda>(b, f). case mg_heap (mf_fs f) (mf_pStore f) of
       None \<Rightarrow> (Inl Undefined, b, f)
     | Some p \<Rightarrow> (case m (b, p) of (r, b', p') \<Rightarrow>
         (r, b', f\<lparr>mf_fs := (mf_fs f)\<lparr>mg_heap := (mg_heap (mf_fs f))(mf_pStore f := Some p')\<rparr>\<rparr>)))"

section \<open>Methods of an open file\<close>

definition memdbClose :: "(MemFile, fault, int) action" where
  "memdbClose = (\<lambda>f. case mg_heap (mf_fs f) (mf_pStore f) of
       None \<Rightarrow> (Inl Undefined, f)
     | Some p \<Rightarrow>
         let g = mf_fs f;
             g = (if ms_zFName p \<noteq> None then
                    if mf_pStore f \<in> set (mg_apMemStore g) \<and> ms_nRef p = 1 then
                      let i = length (takeWhile (\<lambda>q. q \<noteq> mf_pStore f) (mg_apMemStore g));
                          n = length (mg_apMemStore g) - 1
                      in g\<lparr>mg_apMemStore := take n ((mg_apMemStore g)[i := mg_apMemStore g ! n])\<rparr>
                    else g
                  else g);
             p = p\<lparr>ms_nRef := ms_nRef p - 1\<rparr>;
             g = (if ms_nRef p \<le> 0 then g\<lparr>mg_heap := (mg_heap g)(mf_pStore f := None)\<rparr>
                  else g\<lparr>mg_heap := (mg_heap g)(mf_pStore f := Some p)\<rparr>)
         in (Inr SQLITE_OK, f\<lparr>mf_fs := g\<rparr>))"

text \<open>
  \<^verbatim>\<open>memset(zBuf, 0, iAmt)\<close> and \<^verbatim>\<open>memcpy\<close> into a buffer of at least \<^verbatim>\<open>iAmt\<close> bytes.
\<close>

definition memdbRead :: "int \<Rightarrow> int \<Rightarrow> (byte list \<times> MemStore, fault, int) action" where
  "memdbRead iAmt iOfst = (\<lambda>(zBuf, p).
     if \<not> i64 (iOfst + iAmt) \<or> iAmt < 0 \<or> int (length zBuf) < iAmt then (Inl Undefined, zBuf, p)
     else if iOfst + iAmt > ms_sz p then
       let zBuf = overwrite zBuf 0 (replicate (nat iAmt) 0) in
       if iOfst < ms_sz p then
         if iOfst < 0 then (Inl Undefined, zBuf, p)
         else (Inr SQLITE_IOERR_SHORT_READ,
               overwrite zBuf 0 (take (nat (ms_sz p - iOfst)) (drop (nat iOfst) (ms_aData p))), p)
       else (Inr SQLITE_IOERR_SHORT_READ, zBuf, p)
     else if iOfst < 0 then (Inl Undefined, zBuf, p)
     else (Inr SQLITE_OK, overwrite zBuf 0 (take (nat iAmt) (drop (nat iOfst) (ms_aData p))), p))"

text \<open>
  \<^verbatim>\<open>sqlite3Realloc\<close> is a parameter: the bytes and the new size to the new bytes, or null.
\<close>

type_synonym realloc = "byte list \<Rightarrow> nat \<Rightarrow> byte list option"

definition memdbEnlarge :: "realloc \<Rightarrow> int \<Rightarrow> (MemStore, fault, int) action" where
  "memdbEnlarge realloc newSz = (\<lambda>p.
     if ms_mFlags p AND SQLITE_DESERIALIZE_RESIZEABLE = 0 \<or> ms_nMmap p > 0 then (Inr SQLITE_FULL, p)
     else if newSz > ms_szMax p then (Inr SQLITE_FULL, p)
     else if \<not> i64 (newSz * 2) then (Inl Undefined, p)
     else
       let newSz = newSz * 2;
           newSz = (if newSz > ms_szMax p then ms_szMax p else newSz)
       in case realloc (ms_aData p) (nat newSz) of
            None \<Rightarrow> (Inr SQLITE_IOERR_NOMEM, p)
          | Some pNew \<Rightarrow> (Inr SQLITE_OK, p\<lparr>ms_aData := pNew, ms_szAlloc := newSz\<rparr>))"

definition memdbWrite :: "realloc \<Rightarrow> byte list \<Rightarrow> int \<Rightarrow> int \<Rightarrow> (MemStore, fault, int) action" where
  "memdbWrite realloc z iAmt iOfst = (\<lambda>p.
     if ms_mFlags p AND SQLITE_DESERIALIZE_READONLY \<noteq> 0 then (Inr SQLITE_IOERR_WRITE, p)
     else if \<not> i64 (iOfst + iAmt) \<or> iAmt < 0 \<or> iOfst < 0 \<or> int (length z) < iAmt then (Inl Undefined, p)
     else
       and_then
         (if iOfst + iAmt > ms_sz p then
            and_then
              (if iOfst + iAmt > ms_szAlloc p then memdbEnlarge realloc (iOfst + iAmt)
               else return_with SQLITE_OK)
              (\<lambda>rc p. if rc \<noteq> SQLITE_OK then (Inr rc, p)
                else
                  let p = (if iOfst > ms_sz p
                           then p\<lparr>ms_aData := overwrite (ms_aData p) (nat (ms_sz p))
                                     (replicate (nat (iOfst - ms_sz p)) 0)\<rparr>
                           else p)
                  in (Inr SQLITE_OK, p\<lparr>ms_sz := iOfst + iAmt\<rparr>))
          else return_with SQLITE_OK)
         (\<lambda>rc p. if rc \<noteq> SQLITE_OK then (Inr rc, p)
           else (Inr SQLITE_OK, p\<lparr>ms_aData := overwrite (ms_aData p) (nat iOfst) (take (nat iAmt) z)\<rparr>))
         p)"

definition memdbTruncate :: "int \<Rightarrow> (MemStore, fault, int) action" where
  "memdbTruncate n = (\<lambda>p.
     if n > ms_sz p then (Inr SQLITE_CORRUPT, p) else (Inr SQLITE_OK, p\<lparr>ms_sz := n\<rparr>))"

definition memdbSync :: "int \<Rightarrow> (MemFile, fault, int) action" where
  "memdbSync flags = return_with SQLITE_OK"

definition memdbFileSize :: "(int64 \<times> MemStore, fault, int) action" where
  "memdbFileSize = (\<lambda>(out, p). (Inr SQLITE_OK, word_of_int (ms_sz p), p))"

text \<open>
  \<^verbatim>\<open>memdbLock\<close> on the store and the lock level of the file: the result code and the new level.
  The assertions are part of the contract and not of the code.
\<close>

definition memdbLock_store :: "int \<Rightarrow> int \<Rightarrow> MemStore \<Rightarrow> int \<times> MemStore" where
  "memdbLock_store old eLock p =
     (if eLock > SQLITE_LOCK_SHARED then
        if ms_mFlags p AND SQLITE_DESERIALIZE_READONLY \<noteq> 0 then (SQLITE_READONLY, p)
        else if old \<le> SQLITE_LOCK_SHARED then
          if ms_nWrLock p \<noteq> 0 then (SQLITE_BUSY, p) else (SQLITE_OK, p\<lparr>ms_nWrLock := 1\<rparr>)
        else (SQLITE_OK, p)
      else if eLock = SQLITE_LOCK_SHARED then
        if old > SQLITE_LOCK_SHARED then (SQLITE_OK, p\<lparr>ms_nWrLock := 0\<rparr>)
        else if ms_nWrLock p \<noteq> 0 then (SQLITE_BUSY, p)
        else (SQLITE_OK, p\<lparr>ms_nRdLock := ms_nRdLock p + 1\<rparr>)
      else
        let p = (if old > SQLITE_LOCK_SHARED then p\<lparr>ms_nWrLock := 0\<rparr> else p)
        in (SQLITE_OK, p\<lparr>ms_nRdLock := ms_nRdLock p - 1\<rparr>))"

definition memdbLock :: "int \<Rightarrow> (MemFile, fault, int) action" where
  "memdbLock eLock = (\<lambda>f.
     if eLock = mf_eLock f then (Inr SQLITE_OK, f)
     else case on_store (\<lambda>p. case memdbLock_store (mf_eLock f) eLock p of (rc, p') \<Rightarrow> (Inr rc, p')) f of
       (Inl e, f') \<Rightarrow> (Inl e, f')
     | (Inr rc, f') \<Rightarrow> (Inr rc, if rc = SQLITE_OK then f'\<lparr>mf_eLock := eLock\<rparr> else f'))"

definition memdbFileControl :: "(MemStore \<Rightarrow> string) \<Rightarrow> int \<Rightarrow> (control_arg \<times> MemStore, fault, int) action" where
  "memdbFileControl describe operation = (\<lambda>(pArg, p).
     if operation = SQLITE_FCNTL_VFSNAME then
       (case pArg of
          Char_pointers (_ # others) \<Rightarrow> (Inr SQLITE_OK, Char_pointers (Some (describe p) # others), p)
        | _ \<Rightarrow> (Inl Undefined, pArg, p))
     else if operation = SQLITE_FCNTL_SIZE_LIMIT then
       (case pArg of
          Int64_pointer w \<Rightarrow>
            let iLimit = sint w;
                iLimit = (if iLimit < ms_sz p then (if iLimit < 0 then ms_szMax p else ms_sz p) else iLimit)
            in (Inr SQLITE_OK, Int64_pointer (word_of_int iLimit), p\<lparr>ms_szMax := iLimit\<rparr>)
        | _ \<Rightarrow> (Inl Undefined, pArg, p))
     else (Inr SQLITE_NOTFOUND, pArg, p))"

definition memdbDeviceCharacteristics :: "(MemFile, fault, int) action" where
  "memdbDeviceCharacteristics = return_with (0x1 OR 0x1000 OR 0x200 OR 0x400)"

definition memdbFetch :: "int \<Rightarrow> int \<Rightarrow> (mapped_memory \<times> MemStore, fault, int) action" where
  "memdbFetch iOfst iAmt = (\<lambda>(pp, p).
     if \<not> i64 (iOfst + iAmt) then (Inl Undefined, pp, p)
     else if iOfst + iAmt > ms_sz p \<or> ms_mFlags p AND SQLITE_DESERIALIZE_RESIZEABLE \<noteq> 0
     then (Inr SQLITE_OK, None, p)
     else (Inr SQLITE_OK, Some (nat iOfst), p\<lparr>ms_nMmap := ms_nMmap p + 1\<rparr>))"

definition memdbUnfetch :: "int \<Rightarrow> mapped_memory \<Rightarrow> (MemStore, fault, int) action" where
  "memdbUnfetch iOfst pPage = (\<lambda>p. (Inr SQLITE_OK, p\<lparr>ms_nMmap := ms_nMmap p - 1\<rparr>))"

definition memdb_io_methods :: "realloc \<Rightarrow> (MemStore \<Rightarrow> string) \<Rightarrow> MemFile io_methods" where
  "memdb_io_methods realloc describe =
     \<lparr>iVersion = 3, xClose = memdbClose,
      xRead = (\<lambda>iAmt iOfst. on_store_with (memdbRead iAmt (sint iOfst))),
      xWrite = (\<lambda>z iAmt iOfst. on_store (memdbWrite realloc z iAmt (sint iOfst))),
      xTruncate = (\<lambda>n. on_store (memdbTruncate (sint n))), xSync = memdbSync,
      xFileSize = on_store_with memdbFileSize, xLock = Some memdbLock, xUnlock = Some memdbLock,
      xCheckReservedLock = None,
      xFileControl = Some (\<lambda>operation. on_store_with (memdbFileControl describe operation)),
      xSectorSize = None, xDeviceCharacteristics = Some memdbDeviceCharacteristics,
      xShmMap = None, xShmLock = None, xShmBarrier = None, xShmUnmap = None,
      xFetch = Some (\<lambda>iOfst iAmt. on_store_with (memdbFetch (sint iOfst) iAmt)),
      xUnfetch = Some (\<lambda>iOfst pPage. on_store (memdbUnfetch (sint iOfst) pPage))\<rparr>"

section \<open>Opening\<close>

text \<open>
  \<open>alloc\<close> is what the allocator does: the address of the new store, or the step that failed.
\<close>

datatype memdb_alloc = Store_at nat | No_store | No_array | No_mutex nat

definition new_store :: "int \<Rightarrow> string option \<Rightarrow> int \<Rightarrow> MemStore" where
  "new_store mxMemdbSize zName nRef =
     \<lparr>ms_sz = 0, ms_szAlloc = 0, ms_szMax = mxMemdbSize, ms_aData = [], ms_nMmap = 0,
      ms_mFlags = SQLITE_DESERIALIZE_RESIZEABLE OR SQLITE_DESERIALIZE_FREEONCLOSE,
      ms_nRdLock = 0, ms_nWrLock = 0, ms_nRef = nRef, ms_zFName = zName\<rparr>"

definition find_store :: "MemFS \<Rightarrow> string \<Rightarrow> nat option" where
  "find_store g zName =
     find (\<lambda>q. case mg_heap g q of Some p \<Rightarrow> ms_zFName p = Some zName | None \<Rightarrow> False) (mg_apMemStore g)"

text \<open>The result code, the global state and the store \<^verbatim>\<open>pFile->pStore\<close> points to.\<close>

definition memdbOpen :: "int \<Rightarrow> memdb_alloc \<Rightarrow> string \<Rightarrow> MemFS \<Rightarrow> int \<times> MemFS \<times> nat option" where
  "memdbOpen mxMemdbSize alloc zName g =
     (if length zName > 1 \<and> zName ! 0 = CHR ''/'' then
        (case find_store g zName of
           Some q \<Rightarrow>
             (SQLITE_OK,
              g\<lparr>mg_heap := (mg_heap g)(q := map_option (\<lambda>p. p\<lparr>ms_nRef := ms_nRef p + 1\<rparr>) (mg_heap g q))\<rparr>,
              Some q)
         | None \<Rightarrow>
             (case alloc of
                Store_at q \<Rightarrow>
                  (SQLITE_OK,
                   g\<lparr>mg_heap := (mg_heap g)(q \<mapsto> new_store mxMemdbSize (Some zName) 1),
                     mg_apMemStore := mg_apMemStore g @ [q]\<rparr>, Some q)
              | _ \<Rightarrow> (SQLITE_NOMEM, g, None)))
      else
        (case alloc of
           Store_at q \<Rightarrow>
             (SQLITE_OK, g\<lparr>mg_heap := (mg_heap g)(q \<mapsto> new_store mxMemdbSize None 0)\<rparr>, Some q)
         | _ \<Rightarrow> (SQLITE_NOMEM, g, None)))"

text \<open>\<^verbatim>\<open>*pOutFlags\<close>, \<^verbatim>\<open>memdbAccess\<close> and \<^verbatim>\<open>memdbFullPathname\<close> (\<^verbatim>\<open>snprintf\<close> to \<^verbatim>\<open>nOut\<close> bytes).\<close>

definition memdb_out_flags :: "32 word \<Rightarrow> 32 word" where
  "memdb_out_flags flags = flags OR SQLITE_OPEN_MEMORY"

definition memdbAccess :: "string \<Rightarrow> int \<Rightarrow> int \<times> int" where
  "memdbAccess zPath flags = (SQLITE_OK, 0)"

definition memdbFullPathname :: "string \<Rightarrow> nat \<Rightarrow> int \<times> string" where
  "memdbFullPathname zPath nOut = (SQLITE_OK, take (nOut - 1) zPath)"

section \<open>The store as an array of bytes\<close>

text \<open>The contract of \<^verbatim>\<open>realloc\<close>: the bytes that fit are kept.\<close>

definition realloc_ok :: "realloc \<Rightarrow> bool" where
  "realloc_ok realloc \<longleftrightarrow>
     (\<forall>bs n bs'. realloc bs n = Some bs' \<longrightarrow> length bs' = n \<and> take (length bs) bs' = take n bs)"

definition store_ok :: "MemStore \<Rightarrow> bool" where
  "store_ok p \<longleftrightarrow> 0 \<le> ms_sz p \<and> ms_sz p \<le> ms_szAlloc p \<and> ms_szAlloc p = int (length (ms_aData p)) \<and>
     ms_szMax p < 2 ^ 62 \<and> ms_szAlloc p < 2 ^ 62"

definition store_content :: "MemStore \<Rightarrow> byte list" where
  "store_content p = take (nat (ms_sz p)) (ms_aData p)"

definition memdb_content :: "MemFile \<Rightarrow> byte list" where
  "memdb_content f = (case mg_heap (mf_fs f) (mf_pStore f) of None \<Rightarrow> [] | Some p \<Rightarrow> store_content p)"

definition memdb_opened :: "realloc \<Rightarrow> MemFile \<Rightarrow> bool" where
  "memdb_opened realloc f \<longleftrightarrow> realloc_ok realloc \<and>
     (case mg_heap (mf_fs f) (mf_pStore f) of None \<Rightarrow> False | Some p \<Rightarrow> store_ok p)"

lemma length_store_content [simp]: "store_ok p \<Longrightarrow> length (store_content p) = nat (ms_sz p)"
  by (auto simp: store_content_def store_ok_def)

lemma memdbRead_inside:
  assumes "store_ok p" "length buf < 2 ^ 31" "off + length buf \<le> length (store_content p)"
  shows "memdbRead (int (length buf)) (int off) (buf, p) =
    (Inr SQLITE_OK, take (length buf) (drop off (store_content p)), p)"
proof -
  from assms have *: "int off + int (length buf) \<le> ms_sz p" "ms_sz p \<le> int (length (ms_aData p))"
    "ms_sz p < 2 ^ 62"
    by (auto simp: store_ok_def)
  then have "i64 (int off + int (length buf))" by (simp add: i64_def)
  with * show ?thesis
    by (auto simp: memdbRead_def store_content_def overwrite_def drop_take intro!: nth_equalityI)
qed

lemma memdbRead_short:
  assumes "store_ok p" "length buf < 2 ^ 31" "off < 2 ^ 62" "length (store_content p) < off + length buf"
  shows "memdbRead (int (length buf)) (int off) (buf, p) =
    (Inr SQLITE_IOERR_SHORT_READ,
     take (length buf) (drop off (store_content p)) @
       replicate (length buf - (length (store_content p) - off)) 0, p)"
proof -
  from assms have *: "ms_sz p < int off + int (length buf)" "ms_sz p \<le> int (length (ms_aData p))" "0 \<le> ms_sz p"
    by (auto simp: store_ok_def)
  from assms have range: "i64 (int off + int (length buf))" by (simp add: i64_def)
  let ?c = "store_content p"
  have len: "length ?c = nat (ms_sz p)" using assms by simp
  have tail: "take (nat (ms_sz p - int off)) (drop off (ms_aData p)) = drop off ?c"
    using * by (simp add: store_content_def drop_take nat_diff_distrib')
  have all: "take (length buf) (drop off ?c) = drop off ?c" "length (drop off ?c) \<le> length buf"
    using assms(4) by simp_all
  have over: "overwrite (replicate (length buf) (0 :: byte)) 0 (drop off ?c) =
      drop off ?c @ replicate (length buf - length (drop off ?c)) 0"
    by (simp add: overwrite_def)
  show ?thesis
  proof (cases "int off < ms_sz p")
    case True
    then show ?thesis using * range tail all over
      by (simp add: memdbRead_def Let_def) (simp add: overwrite_def)
  next
    case False
    then have "drop off ?c = []" using len by simp
    with False * range show ?thesis
      by (simp add: memdbRead_def Let_def overwrite_def len)
  qed
qed

lemma memdbEnlarge_ok:
  assumes "realloc_ok realloc" "store_ok p" "ms_szAlloc p < newSz" "newSz < 2 ^ 63"
  obtains rc p' where "memdbEnlarge realloc newSz p = (Inr rc, p')" "store_ok p'"
    "store_content p' = store_content p" "ms_sz p' = ms_sz p" "ms_mFlags p' = ms_mFlags p"
    "rc = SQLITE_OK \<Longrightarrow> newSz \<le> ms_szAlloc p'" "rc \<noteq> SQLITE_OK \<Longrightarrow> p' = p"
proof (cases "ms_mFlags p AND SQLITE_DESERIALIZE_RESIZEABLE = 0 \<or> ms_nMmap p > 0 \<or> newSz > ms_szMax p")
  case True
  then have "memdbEnlarge realloc newSz p = (Inr SQLITE_FULL, p)"
    by (auto simp: memdbEnlarge_def)
  from that [OF this] show thesis using assms(2) by (simp add: io_code_defs result_code_defs)
next
  case False
  define n where "n = (if newSz * 2 > ms_szMax p then ms_szMax p else newSz * 2)"
  have bounds: "i64 (newSz * 2)" "newSz \<le> n" "0 \<le> n" "n \<le> ms_szMax p" "n < 2 ^ 62" "ms_szAlloc p < n"
    using False assms by (auto simp: i64_def n_def store_ok_def)
  have unfold_eq: "memdbEnlarge realloc newSz p =
      (case realloc (ms_aData p) (nat n) of None \<Rightarrow> (Inr SQLITE_IOERR_NOMEM, p)
       | Some pNew \<Rightarrow> (Inr SQLITE_OK, p\<lparr>ms_aData := pNew, ms_szAlloc := n\<rparr>))"
    using False bounds(1) unfolding n_def by (simp add: memdbEnlarge_def Let_def)
  show thesis
  proof (cases "realloc (ms_aData p) (nat n)")
    case None
    with unfold_eq have "memdbEnlarge realloc newSz p = (Inr SQLITE_IOERR_NOMEM, p)" by simp
    from that [OF this] show thesis using assms(2) by (simp add: io_code_defs result_code_defs)
  next
    case (Some bs)
    with assms(1) have len: "length bs = nat n" and keep: "take (length (ms_aData p)) bs = take (nat n) (ms_aData p)"
      by (auto simp: realloc_ok_def)
    have "nat (ms_sz p) \<le> length (ms_aData p)" "length (ms_aData p) \<le> nat n"
      using assms(2) bounds by (auto simp: store_ok_def)
    then have "take (nat (ms_sz p)) bs = take (nat (ms_sz p)) (take (length (ms_aData p)) bs)"
      by (simp add: min_def)
    also have "\<dots> = take (nat (ms_sz p)) (ms_aData p)"
      using keep \<open>nat (ms_sz p) \<le> length (ms_aData p)\<close> \<open>length (ms_aData p) \<le> nat n\<close>
      by (simp add: min_def)
    finally have same: "take (nat (ms_sz p)) bs = take (nat (ms_sz p)) (ms_aData p)" .
    from Some unfold_eq have "memdbEnlarge realloc newSz p =
        (Inr SQLITE_OK, p\<lparr>ms_aData := bs, ms_szAlloc := n\<rparr>)" by simp
    from that [OF this] show thesis
      using assms(2) bounds len same by (simp add: store_ok_def store_content_def)
  qed
qed

text \<open>The two steps of \<^verbatim>\<open>memdbWrite\<close> that touch the bytes: filling a gap and copying.\<close>

lemma take_overwrite_max:
  assumes "off + length bs \<le> length d" "sz \<le> length d"
  shows "take (max sz (off + length bs)) (overwrite d off bs) =
    take off d @ bs @ drop (off + length bs) (take sz d)"
proof -
  have "overwrite d off bs = (take off d @ bs) @ drop (off + length bs) d"
    by (simp add: overwrite_def)
  moreover have "length (take off d @ bs) = off + length bs" using assms by simp
  ultimately have "take (max sz (off + length bs)) (overwrite d off bs) =
      (take off d @ bs) @ take (max sz (off + length bs) - (off + length bs)) (drop (off + length bs) d)"
    by (metis max.cobounded2 take_all take_append)
  also have "max sz (off + length bs) - (off + length bs) = sz - (off + length bs)" by simp
  finally show ?thesis by (simp add: drop_take)
qed

lemma write_bytes:
  fixes p :: MemStore
  defines "p1 off n \<equiv> (if int off > ms_sz p
        then p\<lparr>ms_aData := overwrite (ms_aData p) (nat (ms_sz p)) (replicate (nat (int off - ms_sz p)) 0)\<rparr>
        else p)\<lparr>ms_sz := max (ms_sz p) (int off + int n)\<rparr>"
  assumes "store_ok p" "off + length bs \<le> length (ms_aData p)"
  shows "store_ok ((p1 off (length bs))\<lparr>ms_aData := overwrite (ms_aData (p1 off (length bs))) off bs\<rparr>) \<and>
    store_content ((p1 off (length bs))\<lparr>ms_aData := overwrite (ms_aData (p1 off (length bs))) off bs\<rparr>) =
      write_at (store_content p) off bs"
proof -
  define q where "q = p1 off (length bs)"
  define sz where "sz = nat (ms_sz p)"
  have sz: "ms_sz p = int sz" "sz \<le> length (ms_aData p)" using assms(2) by (auto simp: sz_def store_ok_def)
  have q_sz: "ms_sz q = int (max sz (off + length bs))" by (simp add: q_def p1_def sz)
  have q_len: "length (ms_aData q) = length (ms_aData p)"
    using assms(3) sz by (simp add: q_def p1_def)
  have q_data: "take off (ms_aData q) = take off (take sz (ms_aData p)) @ replicate (off - sz) 0"
    "drop (off + length bs) (take sz (ms_aData q)) = drop (off + length bs) (take sz (ms_aData p))"
    using assms(3) sz by (auto simp: q_def p1_def overwrite_def min_def nat_diff_distrib')
  have ok: "store_ok (q\<lparr>ms_aData := overwrite (ms_aData q) off bs\<rparr>)"
    using assms(2,3) sz q_len q_sz by (auto simp: store_ok_def q_def p1_def)
  have "take (max sz (off + length bs)) (overwrite (ms_aData q) off bs) =
      take off (ms_aData q) @ bs @ drop (off + length bs) (take sz (ms_aData q))"
    using assms(3) q_len sz by (intro take_overwrite_max) simp_all
  also have "\<dots> = write_at (take sz (ms_aData p)) off bs"
    using q_data sz by (simp add: write_at_def min_def)
  finally have "store_content (q\<lparr>ms_aData := overwrite (ms_aData q) off bs\<rparr>) = write_at (store_content p) off bs"
    by (simp add: store_content_def q_sz sz)
  with ok show ?thesis by (simp add: q_def)
qed

lemma memdbWrite_refines:
  assumes "realloc_ok realloc" "store_ok p" "length bs < 2 ^ 31" "off < 2 ^ 62"
  shows "\<exists>rc p'. memdbWrite realloc bs (int (length bs)) (int off) p = (Inr rc, p') \<and> store_ok p' \<and>
    store_content p' = (if rc = SQLITE_OK then write_at (store_content p) off bs else store_content p)"
proof (cases "ms_mFlags p AND SQLITE_DESERIALIZE_READONLY = 0")
  case False
  then show ?thesis using assms by (simp add: memdbWrite_def io_code_defs result_code_defs)
next
  case writable: True
  have range: "i64 (int off + int (length bs))" using assms by (simp add: i64_def)
  show ?thesis
  proof (cases "int off + int (length bs) > ms_sz p")
    case False
    have "off + length bs \<le> length (ms_aData p)" using False assms(2) by (auto simp: store_ok_def)
    from write_bytes [OF assms(2) this] False writable range show ?thesis
      by (simp add: memdbWrite_def and_then_def max_def result_code_defs)
  next
    case grow: True
    show ?thesis
    proof (cases "int off + int (length bs) > ms_szAlloc p")
      case False
      have "off + length bs \<le> length (ms_aData p)" using False assms(2) by (auto simp: store_ok_def)
      from write_bytes [OF assms(2) this] False grow writable range show ?thesis
        by (simp add: memdbWrite_def and_then_def max_def result_code_defs)
    next
      case True
      from memdbEnlarge_ok [OF assms(1,2) True] range obtain rc p' where
        e: "memdbEnlarge realloc (int off + int (length bs)) p = (Inr rc, p')" "store_ok p'"
          "store_content p' = store_content p" "ms_sz p' = ms_sz p"
          "rc = SQLITE_OK \<Longrightarrow> int off + int (length bs) \<le> ms_szAlloc p'" "rc \<noteq> SQLITE_OK \<Longrightarrow> p' = p"
        unfolding i64_def by metis
      show ?thesis
      proof (cases "rc = SQLITE_OK")
        case True
        then have "off + length bs \<le> length (ms_aData p')" using e(2,5) by (auto simp: store_ok_def)
        from write_bytes [OF e(2) this] True e grow writable range \<open>ms_szAlloc p < _\<close> show ?thesis
          by (simp add: memdbWrite_def and_then_def max_def result_code_defs)
      next
        case False
        with e grow writable range \<open>ms_szAlloc p < _\<close> show ?thesis
          by (simp add: memdbWrite_def and_then_def)
      qed
    qed
  qed
qed

lemma memdb_simps [simp]:
  "xRead (memdb_io_methods realloc describe) = (\<lambda>iAmt iOfst. on_store_with (memdbRead iAmt (sint iOfst)))"
  "xWrite (memdb_io_methods realloc describe) = (\<lambda>z iAmt iOfst. on_store (memdbWrite realloc z iAmt (sint iOfst)))"
  "xClose (memdb_io_methods realloc describe) = memdbClose"
  "xLock (memdb_io_methods realloc describe) = Some memdbLock"
  "xCheckReservedLock (memdb_io_methods realloc describe) = None"
  by (simp_all add: memdb_io_methods_def)

lemma on_store_simps:
  "mg_heap (mf_fs f) (mf_pStore f) = Some p \<Longrightarrow> m p = (r, p') \<Longrightarrow> on_store m f =
     (r, f\<lparr>mf_fs := (mf_fs f)\<lparr>mg_heap := (mg_heap (mf_fs f))(mf_pStore f := Some p')\<rparr>\<rparr>)"
  "mg_heap (mf_fs f) (mf_pStore f) = Some p \<Longrightarrow> m' (b, p) = (r, b', p) \<Longrightarrow> on_store_with m' (b, f) = (r, b', f)"
  by (simp_all add: on_store_def on_store_with_def fun_upd_idem)

interpretation memdb: byte_store "memdb_io_methods realloc describe" memdb_content "memdb_opened realloc"
  for realloc describe
proof (unfold_locales, goal_cases)
  case (1 f buf off)
  then obtain p where p: "mg_heap (mf_fs f) (mf_pStore f) = Some p" "store_ok p"
    by (auto simp: memdb_opened_def split: option.splits)
  with 1 have "off + length buf \<le> length (store_content p)" by (simp add: memdb_content_def)
  moreover from this p have "off < 2 ^ 63" by (auto simp: store_ok_def)
  ultimately show ?case
    using 1 p on_store_simps(2) [where m' = "memdbRead (int (length buf)) (int off)" and b = buf,
        OF p(1) memdbRead_inside [OF p(2), of buf off]]
    by (simp add: sint_of_nat_small memdb_content_def)
next
  case (2 f buf off)
  then obtain p where p: "mg_heap (mf_fs f) (mf_pStore f) = Some p" "store_ok p"
    by (auto simp: memdb_opened_def split: option.splits)
  with 2 have "length (store_content p) < off + length buf" by (simp add: memdb_content_def)
  then show ?case
    using 2 p on_store_simps(2) [where m' = "memdbRead (int (length buf)) (int off)" and b = buf,
        OF p(1) memdbRead_short [OF p(2), of buf off]]
    by (simp add: sint_of_nat_small memdb_content_def)
next
  case (3 f bs off)
  then obtain p where p: "mg_heap (mf_fs f) (mf_pStore f) = Some p" "store_ok p" "realloc_ok realloc"
    by (auto simp: memdb_opened_def split: option.splits)
  from memdbWrite_refines [OF p(3,2) 3(2,3)] obtain rc p' where w:
    "memdbWrite realloc bs (int (length bs)) (int off) p = (Inr rc, p')" "store_ok p'"
    "store_content p' = (if rc = SQLITE_OK then write_at (store_content p) off bs else store_content p)"
    by blast
  show ?case
    using 3 p w on_store_simps(1) [where m = "memdbWrite realloc bs (int (length bs)) (int off)", OF p(1) w(1)]
    by (simp add: sint_of_nat_small memdb_content_def memdb_opened_def)
qed

section \<open>Opening and closing\<close>

definition fs_ok :: "MemFS \<Rightarrow> bool" where
  "fs_ok g \<longleftrightarrow> distinct (mg_apMemStore g) \<and>
     (\<forall>q \<in> set (mg_apMemStore g). case mg_heap g q of Some p \<Rightarrow> ms_nRef p \<ge> 1 | None \<Rightarrow> False)"

lemma find_store_Some:
  assumes "fs_ok g" "find_store g zName = Some q"
  obtains p where "mg_heap g q = Some p" "ms_zFName p = Some zName" "ms_nRef p \<ge> 1" "q \<in> set (mg_apMemStore g)"
proof -
  from assms(2) have q: "q \<in> set (mg_apMemStore g)"
    "case mg_heap g q of Some p \<Rightarrow> ms_zFName p = Some zName | None \<Rightarrow> False"
    by (auto simp: find_store_def find_Some_iff)
  with assms(1) have "case mg_heap g q of Some p \<Rightarrow> ms_nRef p \<ge> 1 | None \<Rightarrow> False"
    by (simp add: fs_ok_def)
  with q that show thesis by (auto split: option.splits)
qed

lemma takeWhile_append_last: "q \<notin> set qs \<Longrightarrow> takeWhile (\<lambda>x. x \<noteq> q) (qs @ [q]) = qs"
  by (subst takeWhile_append2) auto

lemma memdbClose_apply:
  "mg_heap g q = Some p \<Longrightarrow> ms_zFName p = None \<Longrightarrow> ms_nRef p \<le> 1 \<Longrightarrow>
     memdbClose \<lparr>mf_fs = g, mf_pStore = q, mf_eLock = l\<rparr> =
       (Inr SQLITE_OK, \<lparr>mf_fs = g\<lparr>mg_heap := (mg_heap g)(q := None)\<rparr>, mf_pStore = q, mf_eLock = l\<rparr>)"
  "mg_heap g q = Some p \<Longrightarrow> ms_nRef p > 1 \<Longrightarrow>
     memdbClose \<lparr>mf_fs = g, mf_pStore = q, mf_eLock = l\<rparr> =
       (Inr SQLITE_OK,
        \<lparr>mf_fs = g\<lparr>mg_heap := (mg_heap g)(q := Some (p\<lparr>ms_nRef := ms_nRef p - 1\<rparr>))\<rparr>, mf_pStore = q, mf_eLock = l\<rparr>)"
  "mg_heap g q = Some p \<Longrightarrow> ms_zFName p = Some z \<Longrightarrow> ms_nRef p = 1 \<Longrightarrow> mg_apMemStore g = qs @ [q] \<Longrightarrow> q \<notin> set qs \<Longrightarrow>
     memdbClose \<lparr>mf_fs = g, mf_pStore = q, mf_eLock = l\<rparr> =
       (Inr SQLITE_OK,
        \<lparr>mf_fs = g\<lparr>mg_heap := (mg_heap g)(q := None), mg_apMemStore := qs\<rparr>, mf_pStore = q, mf_eLock = l\<rparr>)"
  by (simp_all add: memdbClose_def Let_def takeWhile_append_last)

text \<open>
  Closing an in-memory file right after opening it gives back the global state: a store that
  was created is freed and taken out of the array, and a store that was shared has its old
  reference count. Opening a name that is in use finds its store and allocates nothing.
\<close>

theorem memdb_open_close:
  assumes "fs_ok g" and "mg_heap g q0 = None" and "q0 \<notin> set (mg_apMemStore g)"
    and "memdbOpen mx (Store_at q0) zName g = (rc, g', Some q)"
  shows "rc = SQLITE_OK \<and>
    memdbClose \<lparr>mf_fs = g', mf_pStore = q, mf_eLock = l\<rparr> =
      (Inr SQLITE_OK, \<lparr>mf_fs = g, mf_pStore = q, mf_eLock = l\<rparr>) \<and>
    (q \<noteq> q0 \<longrightarrow> find_store g zName = Some q \<and> mg_apMemStore g' = mg_apMemStore g)"
proof (cases "length zName > 1 \<and> zName ! 0 = CHR ''/''")
  case False
  then show ?thesis using assms memdbClose_apply(1)
    by (auto simp: memdbOpen_def new_store_def fun_upd_idem)
next
  case named: True
  show ?thesis
  proof (cases "find_store g zName")
    case None
    then show ?thesis using named assms memdbClose_apply(3)
      by (auto simp: memdbOpen_def new_store_def fun_upd_idem)
  next
    case (Some q1)
    from find_store_Some [OF assms(1) this] obtain p where p: "mg_heap g q1 = Some p" "ms_nRef p \<ge> 1"
      "q1 \<in> set (mg_apMemStore g)" .
    then show ?thesis using Some named assms memdbClose_apply(2)
      by (auto simp: memdbOpen_def fun_upd_idem)
  qed
qed

theorem memdb_open_close_witness:
  "snd (memdbClose \<lparr>mf_fs = fst (snd (memdbOpen 100 (Store_at 5) ''/x'' \<lparr>mg_heap = Map.empty, mg_apMemStore = []\<rparr>)),
      mf_pStore = 5, mf_eLock = 0\<rparr>) =
   \<lparr>mf_fs = \<lparr>mg_heap = Map.empty, mg_apMemStore = []\<rparr>, mf_pStore = 5, mf_eLock = 0\<rparr>"
proof -
  define g where "g = \<lparr>mg_heap = Map.empty :: nat \<Rightarrow> MemStore option, mg_apMemStore = []\<rparr>"
  have "fs_ok g" "mg_heap g 5 = None" "5 \<notin> set (mg_apMemStore g)" by (simp_all add: g_def fs_ok_def)
  moreover obtain g' where g': "memdbOpen 100 (Store_at 5) ''/x'' g = (SQLITE_OK, g', Some 5)"
    by (simp add: memdbOpen_def find_store_def g_def)
  ultimately have "memdbClose \<lparr>mf_fs = g', mf_pStore = 5, mf_eLock = 0\<rparr> =
      (Inr SQLITE_OK, \<lparr>mf_fs = g, mf_pStore = 5, mf_eLock = 0\<rparr>)"
    using memdb_open_close by blast
  with g' show ?thesis by (simp add: g_def)
qed

section \<open>Histories of calls\<close>


text \<open>
  The calls a client makes on an open file, and their replies. \<open>memdb_run\<close> makes them one after the
  other on the method table; \<open>array_run\<close> says which replies an array of bytes may give, and what it
  holds afterwards. The array has room for \<open>room\<close> bytes, and \<open>granted\<close> says that requests for memory succeed.
\<close>

datatype byte_call = Write_bytes nat "byte list" | Read_bytes nat "byte list" | Cut_to nat | Ask_size

datatype byte_reply = Replied int | Filled int "byte list" | Told_size int nat

fun call_in_range :: "byte_call \<Rightarrow> bool" where
  "call_in_range (Write_bytes off bs) \<longleftrightarrow> off < 2 ^ 62 \<and> length bs < 2 ^ 31"
| "call_in_range (Read_bytes off buf) \<longleftrightarrow> off < 2 ^ 62 \<and> length buf < 2 ^ 31"
| "call_in_range (Cut_to n) \<longleftrightarrow> n < 2 ^ 62"
| "call_in_range Ask_size \<longleftrightarrow> True"

fun memdb_call :: "realloc \<Rightarrow> (MemStore \<Rightarrow> string) \<Rightarrow> byte_call \<Rightarrow> (MemFile, fault, byte_reply) action" where
  "memdb_call realloc describe (Write_bytes off bs) f =
     (case xWrite (memdb_io_methods realloc describe) bs (int (length bs)) (of_nat off) f of
        (r, f') \<Rightarrow> (map_sum id Replied r, f'))"
| "memdb_call realloc describe (Read_bytes off buf) f =
     (case xRead (memdb_io_methods realloc describe) (int (length buf)) (of_nat off) (buf, f) of
        (r, buf', f') \<Rightarrow> (map_sum id (\<lambda>rc. Filled rc buf') r, f'))"
| "memdb_call realloc describe (Cut_to n) f =
     (case xTruncate (memdb_io_methods realloc describe) (of_nat n) f of (r, f') \<Rightarrow> (map_sum id Replied r, f'))"
| "memdb_call realloc describe Ask_size f =
     (case xFileSize (memdb_io_methods realloc describe) (0, f) of
        (r, out, f') \<Rightarrow> (map_sum id (\<lambda>rc. Told_size rc (unat out)) r, f'))"

fun memdb_run :: "realloc \<Rightarrow> (MemStore \<Rightarrow> string) \<Rightarrow> byte_call list \<Rightarrow> (MemFile, fault, byte_reply list) action" where
  "memdb_run realloc describe [] f = (Inr [], f)"
| "memdb_run realloc describe (call # calls) f =
     (case memdb_call realloc describe call f of
        (Inl e, f') \<Rightarrow> (Inl e, f')
      | (Inr reply, f') \<Rightarrow> (case memdb_run realloc describe calls f' of
            (r, f'') \<Rightarrow> (map_sum id (Cons reply) r, f'')))"

fun array_step :: "bool \<Rightarrow> bool \<Rightarrow> nat \<Rightarrow> byte_call \<Rightarrow> byte_reply \<Rightarrow> byte list \<Rightarrow> byte list option" where
  "array_step read_only granted room (Write_bytes off bs) (Replied rc) c =
     (if read_only then if rc = SQLITE_IOERR_WRITE then Some c else None
      else if off + length bs > room then if rc = SQLITE_FULL then Some c else None
      else if rc = SQLITE_OK then Some (write_at c off bs)
      else if rc = SQLITE_IOERR_NOMEM \<and> \<not> granted \<and> off + length bs > length c then Some c
      else None)"
| "array_step read_only granted room (Read_bytes off buf) (Filled rc bs) c =
     (let got = take (length buf) (drop off c) in
      if rc = (if off + length buf \<le> length c then SQLITE_OK else SQLITE_IOERR_SHORT_READ) \<and>
         bs = got @ replicate (length buf - length got) 0
      then Some c else None)"
| "array_step read_only granted room (Cut_to n) (Replied rc) c =
     (if rc = (if n > length c then SQLITE_CORRUPT else SQLITE_OK) then Some (take n c) else None)"
| "array_step read_only granted room Ask_size (Told_size rc n) c =
     (if rc = SQLITE_OK \<and> n = length c then Some c else None)"
| "array_step read_only granted room _ _ c = None"

fun array_run :: "bool \<Rightarrow> bool \<Rightarrow> nat \<Rightarrow> byte_call list \<Rightarrow> byte_reply list \<Rightarrow> byte list \<Rightarrow> byte list option" where
  "array_run read_only granted room [] [] c = Some c"
| "array_run read_only granted room (call # calls) (reply # replies) c =
     Option.bind (array_step read_only granted room call reply c) (array_run read_only granted room calls replies)"
| "array_run read_only granted room _ _ c = None"

definition memdb_read_only :: "MemFile \<Rightarrow> bool" where
  "memdb_read_only f = (case mg_heap (mf_fs f) (mf_pStore f) of None \<Rightarrow> False
     | Some p \<Rightarrow> ms_mFlags p AND SQLITE_DESERIALIZE_READONLY \<noteq> 0)"

text \<open>A resizeable store that is not mapped has room for \<^verbatim>\<open>szMax\<close> bytes, any other for what is allocated.\<close>

definition store_room :: "MemStore \<Rightarrow> int" where
  "store_room p =
     (if ms_mFlags p AND SQLITE_DESERIALIZE_RESIZEABLE \<noteq> 0 \<and> ms_nMmap p \<le> 0 then max (ms_szAlloc p) (ms_szMax p) else ms_szAlloc p)"

definition memdb_room :: "MemFile \<Rightarrow> nat" where
  "memdb_room f = (case mg_heap (mf_fs f) (mf_pStore f) of None \<Rightarrow> 0 | Some p \<Rightarrow> nat (store_room p))"

definition memory_granted :: "realloc \<Rightarrow> bool" where
  "memory_granted realloc \<longleftrightarrow> (\<forall>bs n. realloc bs n \<noteq> None)"

lemma memdbWrite_answer:
  assumes "memdbWrite realloc bs (int (length bs)) (int off) p = (Inr rc, p')" and "store_ok p"
  shows "ms_mFlags p' = ms_mFlags p" and "store_room p' = store_room p"
    and "ms_mFlags p AND SQLITE_DESERIALIZE_READONLY \<noteq> 0 \<Longrightarrow> rc = SQLITE_IOERR_WRITE"
    and "ms_mFlags p AND SQLITE_DESERIALIZE_READONLY = 0 \<Longrightarrow> rc =
      (if store_room p < int off + int (length bs) then SQLITE_FULL
       else if rc = SQLITE_OK then SQLITE_OK else SQLITE_IOERR_NOMEM)"
    and "ms_mFlags p AND SQLITE_DESERIALIZE_READONLY = 0 \<Longrightarrow> rc = SQLITE_IOERR_NOMEM \<Longrightarrow>
      \<not> memory_granted realloc \<and> ms_sz p < int off + int (length bs)"
  using assms
  by (auto simp: memdbWrite_def and_then_def memdbEnlarge_def Let_def store_room_def store_ok_def memory_granted_def
      io_code_defs result_code_defs split: if_splits sum.splits option.splits prod.splits)

lemma memdb_call_answer:
  assumes "memdb_opened realloc f" and "call_in_range call"
  shows "\<exists>reply f'. memdb_call realloc describe call f = (Inr reply, f') \<and> memdb_opened realloc f' \<and>
    memdb_read_only f' = memdb_read_only f \<and> memdb_room f' = memdb_room f \<and>
    array_step (memdb_read_only f) (memory_granted realloc) (memdb_room f) call reply (memdb_content f) = Some (memdb_content f')"
proof -
  from assms(1) obtain p where p: "mg_heap (mf_fs f) (mf_pStore f) = Some p" "store_ok p" "realloc_ok realloc"
    by (auto simp: memdb_opened_def split: option.splits)
  have c: "memdb_content f = store_content p" "int (length (store_content p)) = ms_sz p"
    using p(1,2) by (simp_all add: memdb_content_def store_ok_def)
  show ?thesis
  proof (cases call)
    case (Write_bytes off bs)
    with assms(2) have range: "length bs < 2 ^ 31" "off < 2 ^ 62" by simp_all
    from memdbWrite_refines [OF p(3,2) range] obtain rc p' where
      w: "memdbWrite realloc bs (int (length bs)) (int off) p = (Inr rc, p')" "store_ok p'"
        "store_content p' = (if rc = SQLITE_OK then write_at (store_content p) off bs else store_content p)"
      by blast
    note a = memdbWrite_answer [OF w(1) p(2)]
    define f' where "f' = f\<lparr>mf_fs := (mf_fs f)\<lparr>mg_heap := (mg_heap (mf_fs f))(mf_pStore f := Some p')\<rparr>\<rparr>"
    have "memdb_call realloc describe call f = (Inr (Replied rc), f')"
      using on_store_simps(1) [where m = "memdbWrite realloc bs (int (length bs)) (int off)", OF p(1) w(1)] range
      by (simp add: Write_bytes sint_of_nat_small f'_def)
    moreover have "memdb_opened realloc f'" "memdb_content f' = store_content p'"
      using w(2) p(3) by (simp_all add: f'_def memdb_opened_def memdb_content_def)
    moreover have "memdb_read_only f' = memdb_read_only f" "memdb_room f' = memdb_room f"
      using a(1,2) p(1) by (simp_all add: f'_def memdb_read_only_def memdb_room_def)
    moreover have "array_step (memdb_read_only f) (memory_granted realloc) (memdb_room f) call (Replied rc) (store_content p) =
        Some (store_content p')"
    proof -
      have codes: "SQLITE_IOERR_WRITE \<noteq> SQLITE_OK" "SQLITE_FULL \<noteq> SQLITE_OK" "SQLITE_IOERR_NOMEM \<noteq> SQLITE_OK"
        by (simp_all add: io_code_defs result_code_defs)
      have room: "store_room p < int off + int (length bs) \<longleftrightarrow> nat (store_room p) < off + length bs"
        using p(2) by (auto simp: store_room_def store_ok_def)
      have sz: "ms_sz p < int off + int (length bs) \<longleftrightarrow> length (store_content p) < off + length bs" using c(2) by linarith
      show ?thesis
        using a(3-5) [unfolded room sz] w(3) p(1) codes
        by (cases "ms_mFlags p AND SQLITE_DESERIALIZE_READONLY = 0"; cases "nat (store_room p) < off + length bs"; cases "rc = SQLITE_OK")
          (simp_all add: Write_bytes memdb_read_only_def memdb_room_def)
    qed
    ultimately show ?thesis using c(1) by auto
  next
    case (Read_bytes off buf)
    with assms(2) have range: "length buf < 2 ^ 31" "off < 2 ^ 62" by simp_all
    show ?thesis
    proof (cases "off + length buf \<le> length (memdb_content f)")
      case True
      with memdb.read_inside [OF assms(1) range(1) True, of describe] show ?thesis
        using assms(1) by (auto simp: Read_bytes Let_def simp del: memdb_simps)
    next
      case False
      with memdb.read_short [OF assms(1) range, of describe] show ?thesis
        using assms(1) by (auto simp: Read_bytes Let_def simp del: memdb_simps)
    qed
  next
    case (Cut_to n)
    define p' where "p' = (if int n > ms_sz p then p else p\<lparr>ms_sz := int n\<rparr>)"
    define f' where "f' = f\<lparr>mf_fs := (mf_fs f)\<lparr>mg_heap := (mg_heap (mf_fs f))(mf_pStore f := Some p')\<rparr>\<rparr>"
    have "memdbTruncate (int n) p = (Inr (if n > length (store_content p) then SQLITE_CORRUPT else SQLITE_OK), p')"
      using c(2) by (auto simp: memdbTruncate_def p'_def)
    from on_store_simps(1) [where m = "memdbTruncate (int n)", OF p(1) this] have
      "memdb_call realloc describe call f = (Inr (Replied (if n > length (store_content p) then SQLITE_CORRUPT else SQLITE_OK)), f')"
      using assms(2) by (simp add: Cut_to memdb_io_methods_def sint_of_nat_small f'_def)
    moreover have "memdb_opened realloc f'"
      using p by (auto simp: f'_def p'_def memdb_opened_def store_ok_def)
    moreover have "memdb_read_only f' = memdb_read_only f" "memdb_room f' = memdb_room f"
      using p by (simp_all add: f'_def p'_def memdb_read_only_def memdb_room_def store_room_def)
    moreover have "memdb_content f' = take n (store_content p)"
      using c(2) by (auto simp: f'_def p'_def memdb_content_def store_content_def)
    ultimately show ?thesis using c(1) by (auto simp: Cut_to)
  next
    case Ask_size
    have "memdbFileSize (0, p) = (Inr SQLITE_OK, word_of_int (ms_sz p), p)" by (simp add: memdbFileSize_def)
    from on_store_simps(2) [where m' = memdbFileSize, OF p(1) this] have
      "memdb_call realloc describe call f = (Inr (Told_size SQLITE_OK (unat (word_of_int (ms_sz p) :: int64))), f)"
      by (simp add: Ask_size memdb_io_methods_def)
    moreover have "unat (word_of_int (ms_sz p) :: int64) = length (store_content p)"
      using p(2) c(2) by (simp add: store_ok_def unsigned_of_int take_bit_int_eq_self nat_eq_iff)
    ultimately show ?thesis using assms(1) c(1) by (auto simp: Ask_size)
  qed
qed

text \<open>
  C2: an in-memory file is an array of bytes. Any list of writes, reads, truncations and size queries
  on an open file runs without a fault, and the replies are those of an array. A write to a read-only
  store is \<^verbatim>\<open>SQLITE_IOERR_WRITE\<close>; any other replaces the bytes at its offset, filling a gap with zeros,
  unless it ends behind the room of the store, which is \<^verbatim>\<open>SQLITE_FULL\<close>, or memory for a longer array is refused, which is
  \<^verbatim>\<open>SQLITE_IOERR_NOMEM\<close>; both leave the array as it was. The room is \<^verbatim>\<open>szMax\<close> for a resizeable store that is not mapped,
  and otherwise what is allocated. A read inside the file returns its
  bytes, and one past its end is a short read that zero-fills the rest of the buffer. Truncation
  keeps the first bytes, and is \<^verbatim>\<open>SQLITE_CORRUPT\<close> without an effect for more bytes than there are. The
  size is the number of bytes.
\<close>

theorem memdb_is_byte_array:
  assumes "memdb_opened realloc f" and "list_all call_in_range calls"
  shows "\<exists>replies f'. memdb_run realloc describe calls f = (Inr replies, f') \<and> memdb_opened realloc f' \<and>
    array_run (memdb_read_only f) (memory_granted realloc) (memdb_room f) calls replies (memdb_content f) = Some (memdb_content f')"
  using assms
proof (induction calls arbitrary: f)
  case (Cons call calls)
  from memdb_call_answer [OF Cons.prems(1), of call describe] Cons.prems(2) obtain reply f1 where
    1: "memdb_call realloc describe call f = (Inr reply, f1)" "memdb_opened realloc f1"
      "memdb_read_only f1 = memdb_read_only f" "memdb_room f1 = memdb_room f"
      "array_step (memdb_read_only f) (memory_granted realloc) (memdb_room f) call reply (memdb_content f) = Some (memdb_content f1)"
    by auto
  from Cons.IH [OF 1(2)] Cons.prems(2) obtain replies f' where
    "memdb_run realloc describe calls f1 = (Inr replies, f')" "memdb_opened realloc f'"
    "array_run (memdb_read_only f) (memory_granted realloc) (memdb_room f) calls replies (memdb_content f1) = Some (memdb_content f')"
    using 1(3,4) by auto
  with 1(1,5) show ?case by (intro exI [of _ "reply # replies"]) simp
qed simp

definition realloc_zero :: realloc where
  "realloc_zero bs n = Some (take n bs @ replicate (n - length bs) 0)"

lemma realloc_zero_ok: "realloc_ok realloc_zero"
  unfolding realloc_ok_def
proof (intro allI impI)
  fix bs bs' :: "byte list" and n assume "realloc_zero bs n = Some bs'"
  then show "length bs' = n \<and> take (length bs) bs' = take n bs"
    by (cases "n \<le> length bs") (auto simp: realloc_zero_def)
qed

definition demo_file :: MemFile where
  "demo_file = \<lparr>mf_fs = \<lparr>mg_heap = [0 \<mapsto> new_store 4096 None 0], mg_apMemStore = []\<rparr>, mf_pStore = 0, mf_eLock = 0\<rparr>"

lemma demo_file_opened: "memdb_opened realloc_zero demo_file"
  by (simp add: memdb_opened_def realloc_zero_ok demo_file_def new_store_def store_ok_def)

lemma array_run_iff:
  "array_run ro granted room [] replies c = Some c' \<longleftrightarrow> replies = [] \<and> c' = c"
  "array_run ro granted room (call # calls) replies c = Some c' \<longleftrightarrow>
    (\<exists>r rs c1. replies = r # rs \<and> array_step ro granted room call r c = Some c1 \<and> array_run ro granted room calls rs c1 = Some c')"
  by (cases replies; auto split: bind_splits)+

lemma array_step_iff:
  "off + length bs \<le> room \<Longrightarrow> array_step False True room (Write_bytes off bs) r c = Some c' \<longleftrightarrow>
    r = Replied SQLITE_OK \<and> c' = write_at c off bs"
  "array_step ro granted room (Read_bytes off buf) r c = Some c' \<longleftrightarrow> c' = c \<and>
    r = Filled (if off + length buf \<le> length c then SQLITE_OK else SQLITE_IOERR_SHORT_READ)
      (take (length buf) (drop off c) @ replicate (length buf - length (take (length buf) (drop off c))) 0)"
  "array_step ro granted room (Cut_to n) r c = Some c' \<longleftrightarrow>
    c' = take n c \<and> r = Replied (if n > length c then SQLITE_CORRUPT else SQLITE_OK)"
  "array_step ro granted room Ask_size r c = Some c' \<longleftrightarrow> c' = c \<and> r = Told_size SQLITE_OK (length c)"
  by (cases r; auto simp: Let_def split: if_splits)+

lemma demo_file_facts: "memdb_content demo_file = []" "memdb_read_only demo_file = False" "memdb_room demo_file = 4096" "memory_granted realloc_zero"
  by (simp_all add: memdb_content_def demo_file_def new_store_def store_content_def memdb_read_only_def memdb_room_def store_room_def
    memory_granted_def deserialize_defs realloc_zero_def)

theorem memdb_is_byte_array_witness:
  "\<exists>f'. memdb_run realloc_zero (\<lambda>_. []) [Write_bytes 3 [1, 2], Ask_size, Cut_to 4, Read_bytes 0 [7, 7, 7, 7, 7, 7], Cut_to 9]
     demo_file = (Inr [Replied SQLITE_OK, Told_size SQLITE_OK 5, Replied SQLITE_OK,
       Filled SQLITE_IOERR_SHORT_READ [0, 0, 0, 1, 0, 0], Replied SQLITE_CORRUPT], f') \<and> memdb_content f' = [0, 0, 0, 1]"
proof -
  have "list_all call_in_range [Write_bytes 3 [1, 2], Ask_size, Cut_to 4, Read_bytes 0 [7, 7, 7, 7, 7, 7], Cut_to 9]" by simp
  from memdb_is_byte_array [OF demo_file_opened this, of "\<lambda>_. []"] show ?thesis
    by (auto simp: demo_file_facts write_at_def array_run_iff array_step_iff numeral_3_eq_3 numeral_eq_Suc
        simp del: memdb_run.simps memdb_call.simps)
qed

section \<open>Locks of the files that share a store\<close>

text \<open>
  The pager raises a lock from none to shared, then further up, and lowers it to shared or none.
  A state is the global memdb state and the lock level of every open file of the store \<open>q\<close>.
\<close>

definition pager_lock :: "int \<Rightarrow> int \<Rightarrow> bool" where
  "pager_lock old new \<longleftrightarrow>
     old = SQLITE_LOCK_NONE \<and> new = SQLITE_LOCK_SHARED \<or>
     old \<ge> SQLITE_LOCK_SHARED \<and> new > old \<and> new \<le> SQLITE_LOCK_EXCLUSIVE \<or>
     old > new \<and> (new = SQLITE_LOCK_SHARED \<or> new = SQLITE_LOCK_NONE)"

inductive lock_step :: "nat \<Rightarrow> MemFS \<times> (nat \<Rightarrow> int) \<Rightarrow> MemFS \<times> (nat \<Rightarrow> int) \<Rightarrow> bool" for q where
  lock_step: "pager_lock (locks h) l \<Longrightarrow>
     memdbLock l \<lparr>mf_fs = fs, mf_pStore = q, mf_eLock = locks h\<rparr> = (Inr rc, f') \<Longrightarrow>
     lock_step q (fs, locks) (mf_fs f', locks(h := mf_eLock f'))"

inductive lock_reachable :: "nat \<Rightarrow> MemFS \<Rightarrow> MemFS \<times> (nat \<Rightarrow> int) \<Rightarrow> bool" for q fs0 where
  opened: "mg_heap fs0 q = Some p \<Longrightarrow> ms_nRdLock p = 0 \<Longrightarrow> ms_nWrLock p = 0 \<Longrightarrow>
     lock_reachable q fs0 (fs0, \<lambda>_. SQLITE_LOCK_NONE)"
| step: "lock_reachable q fs0 s \<Longrightarrow> lock_step q s s' \<Longrightarrow> lock_reachable q fs0 s'"

inductive_cases lock_stepE: "lock_step q s s'"

text \<open>The counters of the store count the files that hold a lock.\<close>

definition locks_counted :: "nat \<Rightarrow> MemFS \<times> (nat \<Rightarrow> int) \<Rightarrow> bool" where
  "locks_counted q = (\<lambda>(fs, locks). \<exists>p. mg_heap fs q = Some p \<and>
     finite {h. locks h \<ge> SQLITE_LOCK_SHARED} \<and>
     (\<forall>h. locks h \<ge> SQLITE_LOCK_NONE) \<and>
     ms_nRdLock p = int (card {h. locks h \<ge> SQLITE_LOCK_SHARED}) \<and>
     ms_nWrLock p = int (card {h. locks h > SQLITE_LOCK_SHARED}) \<and>
     card {h. locks h > SQLITE_LOCK_SHARED} \<le> 1)"

lemma memdbLock_apply:
  assumes "mg_heap fs q = Some p" "l \<noteq> old" "memdbLock_store old l p = (rc, p')"
  shows "memdbLock l \<lparr>mf_fs = fs, mf_pStore = q, mf_eLock = old\<rparr> =
    (Inr rc, \<lparr>mf_fs = fs\<lparr>mg_heap := (mg_heap fs)(q := Some p')\<rparr>, mf_pStore = q,
       mf_eLock = if rc = SQLITE_OK then l else old\<rparr>)"
  using assms by (simp add: memdbLock_def on_store_def)

lemma level_sets:
  "{x. x \<noteq> a \<longrightarrow> P x} = insert a {x. P x}" "{x. x \<noteq> a \<and> P x} = {x. P x} - {a}"
  by auto

lemma lock_step_counted:
  assumes "locks_counted q s" "lock_step q s s'"
  shows "locks_counted q s'"
proof -
  from assms(2) obtain locks h l fs rc f' where 1: "s = (fs, locks)" "s' = (mf_fs f', locks(h := mf_eLock f'))"
    "pager_lock (locks h) l" "memdbLock l \<lparr>mf_fs = fs, mf_pStore = q, mf_eLock = locks h\<rparr> = (Inr rc, f')"
    by (elim lock_stepE)
  from assms(1) 1(1) obtain p where p: "mg_heap fs q = Some p"
    "finite {h. locks h \<ge> SQLITE_LOCK_SHARED}" "\<forall>h. locks h \<ge> SQLITE_LOCK_NONE"
    "ms_nRdLock p = int (card {h. locks h \<ge> SQLITE_LOCK_SHARED})"
    "ms_nWrLock p = int (card {h. locks h > SQLITE_LOCK_SHARED})"
    "card {h. locks h > SQLITE_LOCK_SHARED} \<le> 1"
    by (auto simp: locks_counted_def)
  have fin: "finite {h. locks h > SQLITE_LOCK_SHARED}"
    by (rule finite_subset [OF _ p(2)]) auto
  obtain rc' p' where l: "memdbLock_store (locks h) l p = (rc', p')" by fastforce
  have neq: "l \<noteq> locks h" using 1(3) by (auto simp: pager_lock_def lock_defs)
  from memdbLock_apply [OF p(1) neq l] 1(4) have f':
    "f' = \<lparr>mf_fs = fs\<lparr>mg_heap := (mg_heap fs)(q := Some p')\<rparr>, mf_pStore = q,
       mf_eLock = if rc' = SQLITE_OK then l else locks h\<rparr>"
    by simp
  have "locks_counted q (fs\<lparr>mg_heap := (mg_heap fs)(q := Some p')\<rparr>,
      locks(h := if rc' = SQLITE_OK then l else locks h))"
  proof (cases "rc' = SQLITE_OK")
    case False
    then have "p' = p" using l by (auto simp: memdbLock_store_def Let_def split: if_splits)
    with False p show ?thesis by (simp add: locks_counted_def)
  next
    case True
    have one: "{h. locks h > SQLITE_LOCK_SHARED} = {h}" if "locks h > SQLITE_LOCK_SHARED"
    proof -
      have "{h} \<subseteq> {h. locks h > SQLITE_LOCK_SHARED}" using that by simp
      moreover have "card {h. locks h > SQLITE_LOCK_SHARED} \<le> card {h}" using p(6) by simp
      ultimately show ?thesis using fin card_seteq by blast
    qed
    from 1(3) consider
        (shared) "locks h = SQLITE_LOCK_NONE" "l = SQLITE_LOCK_SHARED"
      | (up) "locks h \<ge> SQLITE_LOCK_SHARED" "l > SQLITE_LOCK_SHARED" "l > locks h"
      | (down) "locks h > SQLITE_LOCK_SHARED" "l = SQLITE_LOCK_SHARED"
      | (none) "locks h \<ge> SQLITE_LOCK_SHARED" "l = SQLITE_LOCK_NONE"
      unfolding pager_lock_def by (fastforce simp: lock_defs)
    then show ?thesis
    proof cases
      case shared
      with True l p fin show ?thesis
        by (auto simp: locks_counted_def memdbLock_store_def level_sets lock_defs io_code_defs result_code_defs
            card_insert_if split: if_splits)
    next
      case up
      then show ?thesis
      proof (cases "locks h > SQLITE_LOCK_SHARED")
        case True
        with up \<open>rc' = SQLITE_OK\<close> l p fin one show ?thesis
          by (auto simp: locks_counted_def memdbLock_store_def level_sets lock_defs io_code_defs result_code_defs
              insert_absorb split: if_splits)
      next
        case False
        with up \<open>rc' = SQLITE_OK\<close> l p fin show ?thesis
          by (auto simp: locks_counted_def memdbLock_store_def level_sets lock_defs io_code_defs result_code_defs
              insert_absorb card_insert_if split: if_splits)
      qed
    next
      case down
      with True l p fin one show ?thesis
        by (auto simp: locks_counted_def memdbLock_store_def level_sets lock_defs io_code_defs result_code_defs
            insert_absorb split: if_splits)
    next
      case none
      have some: "Suc 0 \<le> card {h. locks h \<ge> SQLITE_LOCK_SHARED}"
        using none(1) p(2) by (auto simp: Suc_le_eq card_gt_0_iff)
      show ?thesis
      proof (cases "locks h > SQLITE_LOCK_SHARED")
        case True
        with none \<open>rc' = SQLITE_OK\<close> l p fin one some show ?thesis
          by (auto simp: locks_counted_def memdbLock_store_def level_sets lock_defs io_code_defs result_code_defs
              of_nat_diff split: if_splits)
      next
        case False
        with none \<open>rc' = SQLITE_OK\<close> l p fin some show ?thesis
          by (auto simp: locks_counted_def memdbLock_store_def level_sets lock_defs io_code_defs result_code_defs
              of_nat_diff split: if_splits)
      qed
    qed
  qed
  then show ?thesis using f' 1 by simp
qed

lemma lock_reachable_counted:
  "lock_reachable q fs0 s \<Longrightarrow> locks_counted q s"
proof (induction rule: lock_reachable.induct)
  case (opened p)
  then show ?case by (simp add: locks_counted_def lock_defs)
next
  case (step s s')
  show ?case by (rule lock_step_counted [OF step.IH step.hyps(2)])
qed

text \<open>
  C4: among all files that share an in-memory database, in every state the pager's lock calls can
  reach, the store's counters are the numbers of files that hold a lock, and at most one file
  holds a lock above \<^verbatim>\<open>SHARED\<close>.
\<close>

theorem memdb_locks_exclusive_writer:
  assumes "lock_reachable q fs0 (fs, locks)"
  shows "(\<exists>p. mg_heap fs q = Some p \<and> ms_nRdLock p = int (card {h. locks h \<ge> SQLITE_LOCK_SHARED}) \<and>
      ms_nWrLock p = int (card {h. locks h > SQLITE_LOCK_SHARED})) \<and>
    (\<forall>h h'. locks h > SQLITE_LOCK_SHARED \<longrightarrow> locks h' > SQLITE_LOCK_SHARED \<longrightarrow> h = h')"
proof -
  from lock_reachable_counted [OF assms] obtain p where p: "mg_heap fs q = Some p"
    "ms_nRdLock p = int (card {h. locks h \<ge> SQLITE_LOCK_SHARED})"
    "ms_nWrLock p = int (card {h. locks h > SQLITE_LOCK_SHARED})"
    "finite {h. locks h \<ge> SQLITE_LOCK_SHARED}" "card {h. locks h > SQLITE_LOCK_SHARED} \<le> 1"
    by (auto simp: locks_counted_def)
  have "finite {h. locks h > SQLITE_LOCK_SHARED}"
    by (rule finite_subset [OF _ p(4)]) auto
  with p(5) have "h = h'" if "locks h > SQLITE_LOCK_SHARED" "locks h' > SQLITE_LOCK_SHARED" for h h'
    using that by (auto simp: card_le_Suc0_iff_eq)
  with p show ?thesis by blast
qed

definition demo_fs :: MemFS where
  "demo_fs = \<lparr>mg_heap = [0 \<mapsto> new_store 100 (Some ''/x'') 2], mg_apMemStore = [0]\<rparr>"

definition demo_locked :: "int \<Rightarrow> int \<Rightarrow> MemFS" where
  "demo_locked rd wr =
     demo_fs\<lparr>mg_heap := [0 \<mapsto> (new_store 100 (Some ''/x'') 2)\<lparr>ms_nRdLock := rd, ms_nWrLock := wr\<rparr>]\<rparr>"

lemma demo_reachable:
  "lock_reachable 0 demo_fs (demo_locked 2 1, (\<lambda>_. SQLITE_LOCK_NONE)(0 := SQLITE_LOCK_SHARED, 1 := SQLITE_LOCK_EXCLUSIVE))"
proof -
  have "lock_reachable 0 demo_fs (demo_fs, \<lambda>_. SQLITE_LOCK_NONE)"
    by (rule opened [where p = "new_store 100 (Some ''/x'') 2"]) (simp_all add: demo_fs_def new_store_def)
  moreover have "lock_step 0 (demo_fs, \<lambda>_. SQLITE_LOCK_NONE)
      (demo_locked 1 0, (\<lambda>_. SQLITE_LOCK_NONE)(0 := SQLITE_LOCK_SHARED))"
    using lock_step.intros [of "\<lambda>_. SQLITE_LOCK_NONE" 0 SQLITE_LOCK_SHARED demo_fs 0 SQLITE_OK
        "\<lparr>mf_fs = demo_locked 1 0, mf_pStore = 0, mf_eLock = SQLITE_LOCK_SHARED\<rparr>"]
    by (simp add: pager_lock_def memdbLock_def on_store_def memdbLock_store_def demo_fs_def demo_locked_def
        new_store_def lock_defs)
  ultimately have 1: "lock_reachable 0 demo_fs (demo_locked 1 0, (\<lambda>_. SQLITE_LOCK_NONE)(0 := SQLITE_LOCK_SHARED))"
    by (rule step)
  have "lock_step 0 (demo_locked 1 0, (\<lambda>_. SQLITE_LOCK_NONE)(0 := SQLITE_LOCK_SHARED))
      (demo_locked 2 0, (\<lambda>_. SQLITE_LOCK_NONE)(0 := SQLITE_LOCK_SHARED, 1 := SQLITE_LOCK_SHARED))"
    using lock_step.intros [of "(\<lambda>_. SQLITE_LOCK_NONE)(0 := SQLITE_LOCK_SHARED)" 1 SQLITE_LOCK_SHARED "demo_locked 1 0" 0 SQLITE_OK
        "\<lparr>mf_fs = demo_locked 2 0, mf_pStore = 0, mf_eLock = SQLITE_LOCK_SHARED\<rparr>"]
    by (simp add: pager_lock_def memdbLock_def on_store_def memdbLock_store_def demo_fs_def demo_locked_def
        new_store_def lock_defs)
  with 1 have 2: "lock_reachable 0 demo_fs
      (demo_locked 2 0, (\<lambda>_. SQLITE_LOCK_NONE)(0 := SQLITE_LOCK_SHARED, 1 := SQLITE_LOCK_SHARED))"
    by (rule step)
  have "lock_step 0 (demo_locked 2 0, (\<lambda>_. SQLITE_LOCK_NONE)(0 := SQLITE_LOCK_SHARED, 1 := SQLITE_LOCK_SHARED))
      (demo_locked 2 1, (\<lambda>_. SQLITE_LOCK_NONE)(0 := SQLITE_LOCK_SHARED, 1 := SQLITE_LOCK_EXCLUSIVE))"
    using lock_step.intros [of "(\<lambda>_. SQLITE_LOCK_NONE)(0 := SQLITE_LOCK_SHARED, 1 := SQLITE_LOCK_SHARED)" 1
        SQLITE_LOCK_EXCLUSIVE "demo_locked 2 0" 0 SQLITE_OK
        "\<lparr>mf_fs = demo_locked 2 1, mf_pStore = 0, mf_eLock = SQLITE_LOCK_EXCLUSIVE\<rparr>"]
    by (simp add: pager_lock_def memdbLock_def on_store_def memdbLock_store_def demo_fs_def demo_locked_def
        new_store_def lock_defs deserialize_defs)
  with 2 show ?thesis by (rule step)
qed

theorem memdb_locks_exclusive_writer_witness:
  "\<exists>p. mg_heap (demo_locked 2 1) 0 = Some p \<and> ms_nRdLock p = 2"
  using memdb_locks_exclusive_writer [OF demo_reachable] by (simp add: demo_locked_def)

text \<open>
  An \<^verbatim>\<open>EXCLUSIVE\<close> lock does not exclude readers. There is a reachable state in which one file
  holds \<^verbatim>\<open>EXCLUSIVE\<close> while another still holds \<^verbatim>\<open>SHARED\<close>: \<^verbatim>\<open>memdbLock\<close> looks at \<^verbatim>\<open>nWrLock\<close> only.
\<close>

theorem memdb_exclusive_with_reader:
  "\<exists>q fs0 fs locks. lock_reachable q fs0 (fs, locks) \<and>
     locks 0 = SQLITE_LOCK_SHARED \<and> locks 1 = SQLITE_LOCK_EXCLUSIVE"
  using demo_reachable by fastforce

end
