(* ===== verification/Ys_Stack.thy ===== *)
theory Ys_Stack
  imports Ys_Crypt_File Ys_Rot13 Ys_Memdb
begin

text \<open>
  The file stack put together: \<^verbatim>\<open>Crypt_file\<close> and the rot13 example over \<^verbatim>\<open>SQLite3_file_wrapper\<close> over
  an in-memory file, with the properties that span the layers and closed examples for them.
\<close>

section \<open>The stacks\<close>

text \<open>Both codecs on a \<^verbatim>\<open>SQLite3_file_wrapper\<close> over an in-memory file.\<close>

interpretation rot13_memdb: paged_store "memdb_io_methods realloc describe" memdb_content "memdb_opened realloc"
  rot13_codec "\<lambda>_. True" "\<lambda>_. ()" "\<lambda>_. ()" "\<lambda>_. 0" "\<lambda>_ pg pg'. pg' = map (\<lambda>i. i + 13) pg" "\<lambda>_ _. True"
  for realloc describe
  by unfold_locales

interpretation crypt_memdb: paged_store "memdb_io_methods realloc describe" memdb_content "memdb_opened realloc"
  "crypt_codec ssl big" "\<lambda>d. aes_gcm ssl seal tag \<and> cr_transform d = t" "\<lambda>d. key_of (active d)" "\<lambda>d. key_of (cr_current d)"
  crypt_reserved "crypt_encoded seal tag" crypt_accepts
  for realloc describe ssl big seal tag t
  by unfold_locales

text \<open>A main database in memory, opened through the wrapper.\<close>

definition main_db_open :: "realloc \<Rightarrow> (MemFile sqlite3_file_wrapper, 'd) page_file \<Rightarrow> bool" where
  "main_db_open realloc s \<longleftrightarrow> fw_format (pf_parent s) = main_db \<and>
     (case fw_parent (pf_parent s) of None \<Rightarrow> False | Some f \<Rightarrow> memdb_opened realloc f)"

definition stored :: "(MemFile sqlite3_file_wrapper, 'd) page_file \<Rightarrow> byte list" where
  "stored s = memdb_content (the (fw_parent (pf_parent s)))"

lemma rot13_page_ok: "rot13_memdb.page_ok realloc = main_db_open realloc"
  by (rule ext) (auto simp: rot13_memdb.page_ok_def main_db_open_def split: option.splits)

lemma crypt_page_ok:
  "crypt_memdb.page_ok realloc ssl seal tag t s \<longleftrightarrow>
     main_db_open realloc s \<and> aes_gcm ssl seal tag \<and> cr_transform (pf_derived s) = t"
  unfolding crypt_memdb.page_ok_def main_db_open_def by (auto split: option.splits)

lemma bytes_of_stored: "crypt_memdb.bytes_of = stored" "rot13_memdb.bytes_of = stored"
  by (rule ext, simp add: crypt_memdb.bytes_of_def rot13_memdb.bytes_of_def stored_def)+

text \<open>
  C1: an encrypted page survives the trip through the file. For a page of a main database with at
  least 512 bytes (on page 1 the header must announce the 32 reserved bytes), when
  \<^verbatim>\<open>Crypt_file::write\<close> succeeds outside a key transformation: reading the page back returns
  it up to the reserved tail, into any buffer; the first 100 bytes of page 1 are stored as they are, and what
  follows is the ciphertext, the vector and the tag under the current key; the bytes of other
  pages do not change.
\<close>

theorem crypt_page_round_trip:
  assumes "aes_gcm ssl seal tag" and "main_db_open realloc s" and "en_cipher (cr_current (pf_derived s)) = Some k"
    and "\<not> cr_transform (pf_derived s)"
    and "512 \<le> length pg" and "length pg < 2 ^ 31" and "off < 2 ^ 62" and "off = 0 \<and> pg ! 20 = 32 \<or> 512 \<le> off"
    and "File_write (Crypt_file ssl big (SQLite3_file_wrapper (memdb_io_methods realloc describe))) pg (of_nat off) s = (Inr (), s')"
    and "length buf = length pg"
  shows "(\<exists>r s''. File_read (Crypt_file ssl big (SQLite3_file_wrapper (memdb_io_methods realloc describe))) (of_nat off) (buf, s') =
        (Inr (), r, s'') \<and> length r = length pg \<and> take (length pg - 32) r = take (length pg - 32) pg) \<and>
    (\<exists>iv rest. length iv = 12 \<and> length rest = 4 \<and>
      (let h = (if off = 0 then 100 else 0); pt = take (length pg - h - 32) (drop h pg);
           key = en_key (cr_current (pf_derived s)) in
       stored s' = write_at (stored s) off (take h pg @ seal k key iv pt @ iv @ tag k key iv pt @ rest)))"
proof -
  let ?P = "SQLite3_file_wrapper (memdb_io_methods realloc describe)"
  let ?d = "pf_derived s"
  have ok: "crypt_memdb.page_ok realloc ssl seal tag False s" using assms(1,2,4) unfolding crypt_page_ok by blast
  have ops: "File_write (Crypt_file ssl big ?P) = page_write ?P (crypt_codec ssl big)"
    "File_read (Crypt_file ssl big ?P) = page_read ?P (crypt_codec ssl big)"
    by (simp_all add: Crypt_file_def Page_transforming_file_def)
  have keys: "active ?d = cr_current ?d" using assms(4) by (simp add: active_def)
  have res: "crypt_reserved (key_of (cr_current ?d)) = 32" using assms(3) by (simp add: crypt_reserved_def key_of_def)
  have acc: "off = 0 \<Longrightarrow> crypt_accepts (key_of (active ?d)) (pg ! 20)"
    using assms(8) by (auto simp: crypt_accepts_def)
  have off: "off = 0 \<or> 512 \<le> off" using assms(8) by blast
  note w = assms(9) [unfolded ops]
  from crypt_memdb.page_round_trip [OF ok assms(5-7) off acc w _ assms(10)] keys res
  have read: "\<exists>r s''. page_read ?P (crypt_codec ssl big) (of_nat off) (buf, s') = (Inr (), r, s'') \<and>
      length r = length pg \<and> take (length pg - 32) r = take (length pg - 32) pg"
    by auto
  from crypt_memdb.page_write_ok [OF ok assms(5-7) off acc, of describe big] w obtain pg' where
    pg': "stored s' = write_at (stored s) off (take (payload_start off) pg @ pg')"
      "crypt_encoded seal tag (key_of (cr_current ?d)) (drop (payload_start off) pg) pg'"
    by (auto simp: bytes_of_stored keys)
  from pg'(2) assms(3) obtain iv rest where "length iv = 12" "length rest = 4"
    "pg' = (let pt = take (length pg - payload_start off - 32) (drop (payload_start off) pg);
        key = en_key (cr_current ?d) in seal k key iv pt @ iv @ tag k key iv pt @ rest)"
    by (auto simp: crypt_encoded_def key_of_def Let_def)
  with pg'(1) read show ?thesis
    unfolding ops payload_start_def [symmetric] Let_def by blast
qed


text \<open>
  An empty main database in memory that grows on demand, with room for one page, under the cipher of
  the closed examples.
\<close>

definition demo_db :: "'d \<Rightarrow> (MemFile sqlite3_file_wrapper, 'd) page_file" where
  "demo_db d = page_construct (wrapper_construct None main_db (Some demo_file)) d"

lemma demo_db_open: "main_db_open realloc_zero (demo_db d)"
  by (simp add: main_db_open_def demo_db_def page_construct_def wrapper_construct_def demo_file_opened)

definition demo_page :: "byte list" where
  "demo_page = replicate 20 7 @ [32] @ replicate 491 1"

lemma demo_write_ok:
  "length bs \<le> 1000 \<Longrightarrow> fst (xWrite (memdb_io_methods realloc_zero describe) bs (int (length bs)) (of_nat 0) demo_file) = Inr 0"
  by (simp add: on_store_def demo_file_def memdbWrite_def new_store_def deserialize_defs memdbEnlarge_def i64_def
      realloc_zero_def and_then_def result_code_defs Let_def)

lemma demo_write:
  "\<exists>s'. page_write (SQLite3_file_wrapper (memdb_io_methods realloc_zero (\<lambda>_. []))) (crypt_codec demo_ssl False)
     demo_page (of_nat 0) (demo_db d) = (Inr (), s')"
proof -
  let ?P = "SQLite3_file_wrapper (memdb_io_methods realloc_zero (\<lambda>_. []))"
  have ok: "crypt_memdb.page_ok realloc_zero demo_ssl demo_seal demo_tag (cr_transform d) (demo_db d)"
    unfolding crypt_page_ok using demo_aes_gcm demo_db_open [of d]
    by (simp add: demo_db_def page_construct_def)
  have page: "length demo_page = 512" "512 \<le> length demo_page" "length demo_page < 2 ^ 31" by (simp_all add: demo_page_def)
  have acc: "crypt_accepts (key_of (active (pf_derived (demo_db d)))) (demo_page ! 20)"
    by (simp add: crypt_accepts_def demo_page_def nth_append)
  have parent: "fw_parent (pf_parent (demo_db d)) = Some demo_file"
    by (simp add: demo_db_def page_construct_def wrapper_construct_def)
  from crypt_memdb.page_write_ok [OF ok page(2,3), of 0 "\<lambda>_. []" False] acc obtain r s' where
    w: "page_write ?P (crypt_codec demo_ssl False) demo_page (of_nat 0) (demo_db d) = (r, s')"
      "\<forall>f. fw_parent (pf_parent (demo_db d)) = Some f \<longrightarrow>
        (\<forall>bs. length bs = length demo_page \<longrightarrow>
          fst (xWrite (memdb_io_methods realloc_zero (\<lambda>_. [])) bs (int (length bs)) (of_nat 0) f) = Inr 0) \<longrightarrow> r = Inr ()"
    by (auto simp del: memdb_simps)
  have "r = Inr ()"
  proof (rule w(2) [rule_format, OF parent])
    fix bs :: "byte list" assume "length bs = length demo_page"
    then have "length bs \<le> 1000" using page(1) by simp
    then show "fst (xWrite (memdb_io_methods realloc_zero (\<lambda>_. [])) bs (int (length bs)) (of_nat 0) demo_file) = Inr 0"
      by (rule demo_write_ok)
  qed
  with w(1) show ?thesis by blast
qed

theorem crypt_page_round_trip_witness:
  "\<exists>s' r s''. File_write (Crypt_file demo_ssl False (SQLite3_file_wrapper (memdb_io_methods realloc_zero (\<lambda>_. []))))
      demo_page (of_nat 0) (demo_db demo_crypt) = (Inr (), s') \<and>
    File_read (Crypt_file demo_ssl False (SQLite3_file_wrapper (memdb_io_methods realloc_zero (\<lambda>_. [])))) (of_nat 0)
      (replicate 512 0, s') = (Inr (), r, s'') \<and> take 480 r = take 480 demo_page"
proof -
  from demo_write obtain s' where w: "File_write (Crypt_file demo_ssl False
      (SQLite3_file_wrapper (memdb_io_methods realloc_zero (\<lambda>_. [])))) demo_page (of_nat 0) (demo_db demo_crypt) = (Inr (), s')"
    using demo_write [of demo_crypt] by (auto simp: Crypt_file_def Page_transforming_file_def)
  have d: "en_cipher (cr_current (pf_derived (demo_db demo_crypt))) = Some 3" "\<not> cr_transform (pf_derived (demo_db demo_crypt))"
    by (simp_all add: demo_db_def page_construct_def demo_crypt_def)
  have page: "512 \<le> length demo_page" "length demo_page < 2 ^ 31" "0 = (0 :: nat) \<and> demo_page ! 20 = 32 \<or> 512 \<le> (0 :: nat)"
    "length (replicate 512 0) = length demo_page" "length demo_page - 32 = 480" "(0 :: nat) < 2 ^ 62"
    by (simp_all add: demo_page_def nth_append)
  from crypt_page_round_trip [OF demo_aes_gcm demo_db_open d page(1,2,6,3) w page(4), unfolded page(5)] w
  show ?thesis by blast
qed

text \<open>A page that is stored in a file under a key, and what keeps it there and reads it.\<close>

definition page_stored ::
    "('k \<Rightarrow> byte list \<Rightarrow> byte list \<Rightarrow> byte list \<Rightarrow> byte list) \<Rightarrow> ('k \<Rightarrow> byte list \<Rightarrow> byte list \<Rightarrow> byte list \<Rightarrow> byte list) \<Rightarrow>
     'k crypt_key \<Rightarrow> byte list \<Rightarrow> nat \<Rightarrow> byte list \<Rightarrow> bool" where
  "page_stored seal tag q c off pg \<longleftrightarrow> off + length pg \<le> length c \<and>
     (\<exists>pg'. take (length pg) (drop off c) = take (payload_start off) pg @ pg' \<and> crypt_encoded seal tag q (drop (payload_start off) pg) pg')"

lemma page_stored_kept:
  assumes "page_stored seal tag q c off pg" and "off + length pg \<le> off' \<or> off' + length bs \<le> off"
  shows "page_stored seal tag q (write_at c off' bs) off pg"
  using assms by (auto simp: page_stored_def read_write_at_before read_write_at_after)

lemma page_stored_write:
  assumes ok: "crypt_memdb.page_ok realloc ssl seal tag t s" and pg: "512 \<le> length pg" "length pg < 2 ^ 31" "off < 2 ^ 62"
    and off: "off = 0 \<and> pg ! 20 = 32 \<or> 512 \<le> off"
    and w: "page_write (SQLite3_file_wrapper (memdb_io_methods realloc describe)) (crypt_codec ssl big) pg (of_nat off) s = (Inr (), s')"
  shows "crypt_memdb.page_ok realloc ssl seal tag t s' \<and> key_of (active (pf_derived s')) = key_of (active (pf_derived s)) \<and>
    key_of (cr_current (pf_derived s')) = key_of (cr_current (pf_derived s)) \<and>
    (\<exists>pg'. length pg' = length pg - payload_start off \<and> stored s' = write_at (stored s) off (take (payload_start off) pg @ pg') \<and>
       crypt_encoded seal tag (key_of (active (pf_derived s))) (drop (payload_start off) pg) pg') \<and>
    page_stored seal tag (key_of (active (pf_derived s))) (stored s') off pg"
proof -
  have acc: "off = 0 \<Longrightarrow> crypt_accepts (key_of (active (pf_derived s))) (pg ! 20)" using off by (auto simp: crypt_accepts_def)
  have off': "off = 0 \<or> 512 \<le> off" using off by blast
  from crypt_memdb.page_write_ok [OF ok pg off' acc, of describe big] w obtain pg' where
    r: "crypt_memdb.page_ok realloc ssl seal tag t s'" "key_of (active (pf_derived s')) = key_of (active (pf_derived s))"
      "key_of (cr_current (pf_derived s')) = key_of (cr_current (pf_derived s))" "length pg' = length pg - payload_start off"
      "stored s' = write_at (stored s) off (take (payload_start off) pg @ pg')"
      "crypt_encoded seal tag (key_of (active (pf_derived s))) (drop (payload_start off) pg) pg'"
    by (auto simp: bytes_of_stored)
  have len: "length (take (payload_start off) pg @ pg') = length pg" using r(4) pg(1) payload_start_le [of off] by simp
  have "take (length pg) (drop off (stored s')) = take (payload_start off) pg @ pg'"
    using read_write_at_same [of "take (payload_start off) pg @ pg'" off "stored s"] len unfolding r(5) by simp
  moreover have "off + length pg \<le> length (stored s')" unfolding r(5) using len by simp
  ultimately show ?thesis using r unfolding page_stored_def by blast
qed

lemma page_stored_read:
  assumes ok: "crypt_memdb.page_ok realloc ssl seal tag t s" and pg: "512 \<le> length pg" "length pg < 2 ^ 31" "off < 2 ^ 62"
    and off: "off = 0 \<and> pg ! 20 = 32 \<or> 512 \<le> off" and len: "length buf = length pg"
    and st: "page_stored seal tag (key_of (cr_current (pf_derived s))) (stored s) off pg" and key: "en_cipher (cr_current (pf_derived s)) \<noteq> None"
  shows "\<exists>r s'. page_read (SQLite3_file_wrapper (memdb_io_methods realloc describe)) (crypt_codec ssl big) (of_nat off) (buf, s) =
      (Inr (), r, s') \<and> length r = length pg \<and> take (length pg - 32) r = take (length pg - 32) pg"
proof -
  have acc: "off = 0 \<Longrightarrow> crypt_accepts (key_of (active (pf_derived s))) (pg ! 20)" using off by (auto simp: crypt_accepts_def)
  have off': "off = 0 \<or> 512 \<le> off" using off by blast
  have buf: "512 \<le> length buf" "length buf < 2 ^ 31" "length pg = length buf" using pg len by simp_all
  have res: "crypt_reserved (key_of (cr_current (pf_derived s))) = 32" using key by (simp add: crypt_reserved_def key_of_def)
  obtain pg' where pg': "take (length buf) (drop off (crypt_memdb.bytes_of s)) = take (payload_start off) pg @ pg'"
    "crypt_encoded seal tag (key_of (cr_current (pf_derived s))) (drop (payload_start off) pg) pg'"
    "off + length buf \<le> length (crypt_memdb.bytes_of s)"
    using st len by (auto simp: page_stored_def bytes_of_stored)
  from crypt_memdb.page_read_ok [OF ok buf(1,2) pg(3) off' buf(3) pg'(3) acc pg'(1,2), of describe big] show ?thesis
    unfolding res by blast
qed

lemma crypt_file_ops:
  "File_write (Crypt_file ssl big P) = page_write P (crypt_codec ssl big)"
  "File_read (Crypt_file ssl big P) = page_read P (crypt_codec ssl big)"
  by (simp_all add: Crypt_file_def Page_transforming_file_def)

text \<open>What the pragmas that set a new key leave of the reading key.\<close>

lemma key_pragmas:
  assumes "\<not> cr_transform d" and "crypt_pragma ssl ''crypt_transformation'' (Some ''1'') d = (m1, d1)"
    and "crypt_pragma ssl ''key'' (Some v) d1 = (m2, d2)" and "crypt_pragma ssl ''cipher'' (Some w) d2 = (m3, d3)"
  shows "cr_transform d3 \<and> cr_current d3 = cr_current d"
proof -
  have d1: "d1 = d\<lparr>cr_transformation := cr_current d, cr_transform := True\<rparr>"
    using assms(1,2) by (simp add: crypt_pragma_def crypt_transformation_pragma_def c_nth_def)
  then have d2: "cr_transform d2" "cr_current d2 = cr_current d"
    using assms(3) by (auto simp: crypt_pragma_def set_active_def split: sum.splits prod.splits)
  then show ?thesis using assms(4) by (auto simp: crypt_pragma_def set_active_def split: sum.splits prod.splits)
qed

text \<open>
  C6: changing the key while the database is in use. A page is written under the old key; \<^verbatim>\<open>crypt_transformation=1\<close>, a new key and a
  new cipher are set, whatever they are and whether they are accepted or not; then another page is written. What is stored of it is
  encrypted under the new key and cipher, and the first page is still read with the old ones. When \<^verbatim>\<open>crypt_transformation=0\<close> ends
  the transformation the same file object reads the page that was written under the new key.
\<close>

theorem crypt_rotation_keeps_pages:
  assumes "aes_gcm ssl seal tag" and "main_db_open realloc s" and "\<not> cr_transform (pf_derived s)"
    and "en_cipher (cr_current (pf_derived s)) \<noteq> None"
    and "512 \<le> length pg0" and "length pg0 < 2 ^ 31" and "off0 < 2 ^ 62" and "off0 = 0 \<and> pg0 ! 20 = 32 \<or> 512 \<le> off0"
    and "File_write (Crypt_file ssl big (SQLite3_file_wrapper (memdb_io_methods realloc describe))) pg0 (of_nat off0) s = (Inr (), s1)"
    and "crypt_pragma ssl ''crypt_transformation'' (Some ''1'') (pf_derived s1) = (m1, d1)"
    and "crypt_pragma ssl ''key'' (Some v) d1 = (m2, d2)" and "crypt_pragma ssl ''cipher'' (Some w) d2 = (m3, d3)"
    and "en_cipher (active d3) = Some k"
    and "512 \<le> length pg" and "length pg < 2 ^ 31" and "off < 2 ^ 62" and "off = 0 \<and> pg ! 20 = 32 \<or> 512 \<le> off"
    and "off0 + length pg0 \<le> off \<or> off + length pg \<le> off0"
    and "File_write (Crypt_file ssl big (SQLite3_file_wrapper (memdb_io_methods realloc describe))) pg (of_nat off)
      (s1\<lparr>pf_derived := d3\<rparr>) = (Inr (), s2)"
    and "crypt_pragma ssl ''crypt_transformation'' (Some ''0'') (pf_derived s2) = (m4, d4)"
    and "length buf0 = length pg0" and "length buf = length pg"
  shows "(\<exists>iv rest. length iv = 12 \<and> length rest = 4 \<and>
      (let h = (if off = 0 then 100 else 0); pt = take (length pg - h - 32) (drop h pg); key = en_key (active d3) in
       stored s2 = write_at (stored s1) off (take h pg @ seal k key iv pt @ iv @ tag k key iv pt @ rest))) \<and>
    (\<exists>r t. File_read (Crypt_file ssl big (SQLite3_file_wrapper (memdb_io_methods realloc describe))) (of_nat off0) (buf0, s2) =
        (Inr (), r, t) \<and> length r = length pg0 \<and> take (length pg0 - 32) r = take (length pg0 - 32) pg0) \<and>
    (\<exists>r t. File_read (Crypt_file ssl big (SQLite3_file_wrapper (memdb_io_methods realloc describe))) (of_nat off)
        (buf, s2\<lparr>pf_derived := d4\<rparr>) = (Inr (), r, t) \<and> length r = length pg \<and> take (length pg - 32) r = take (length pg - 32) pg)"
proof -
  let ?t = "s1\<lparr>pf_derived := d3\<rparr>" and ?u = "s2\<lparr>pf_derived := d4\<rparr>"
  have ok: "crypt_memdb.page_ok realloc ssl seal tag False s" using assms(1,2,3) unfolding crypt_page_ok by blast
  note w0 = page_stored_write [OF ok assms(5-8) assms(9) [unfolded crypt_file_ops]]
  have keys: "active (pf_derived s) = cr_current (pf_derived s)" using assms(3) by (simp add: active_def)
  have s1: "\<not> cr_transform (pf_derived s1)" "main_db_open realloc s1" using w0 unfolding crypt_page_ok by blast+
  have d3: "cr_transform d3" "key_of (cr_current d3) = key_of (cr_current (pf_derived s))"
    using key_pragmas [OF s1(1) assms(10-12)] w0 by auto
  have ok_t: "crypt_memdb.page_ok realloc ssl seal tag True ?t"
    unfolding crypt_page_ok using assms(1) s1(2) d3(1) by (simp add: main_db_open_def)
  note w1 = page_stored_write [OF ok_t assms(14-17) assms(19) [unfolded crypt_file_ops]]
  have st_t: "stored ?t = stored s1" by (simp add: stored_def)
  from w1 obtain pg' where pg': "length pg' = length pg - payload_start off"
    "stored s2 = write_at (stored s1) off (take (payload_start off) pg @ pg')"
    "crypt_encoded seal tag (key_of (active d3)) (drop (payload_start off) pg) pg'" by (auto simp: st_t)
  from pg'(3) assms(13) obtain iv rest where "length iv = 12" "length rest = 4"
    "pg' = (let pt = take (length pg - payload_start off - 32) (drop (payload_start off) pg);
        key = en_key (active d3) in seal k key iv pt @ iv @ tag k key iv pt @ rest)"
    by (auto simp: crypt_encoded_def key_of_def Let_def)
  then have new: "\<exists>iv rest. length iv = 12 \<and> length rest = 4 \<and>
      (let h = (if off = 0 then 100 else 0); pt = take (length pg - h - 32) (drop h pg); key = en_key (active d3) in
       stored s2 = write_at (stored s1) off (take h pg @ seal k key iv pt @ iv @ tag k key iv pt @ rest))"
    using pg'(2) unfolding payload_start_def [symmetric] Let_def by blast
  have len: "length (take (payload_start off) pg @ pg') = length pg" using pg'(1) assms(14) payload_start_le [of off] by simp
  have cur: "key_of (cr_current (pf_derived s2)) = key_of (cr_current (pf_derived s))" using w1 d3(2) by simp
  have "page_stored seal tag (key_of (cr_current (pf_derived s2))) (stored s2) off0 pg0"
    unfolding pg'(2) cur using w0 assms(18) len by (intro page_stored_kept) (simp_all add: keys)
  moreover have "en_cipher (cr_current (pf_derived s2)) \<noteq> None" using cur assms(4) by (simp add: key_of_def)
  ultimately have old: "\<exists>r t. page_read (SQLite3_file_wrapper (memdb_io_methods realloc describe)) (crypt_codec ssl big) (of_nat off0)
      (buf0, s2) = (Inr (), r, t) \<and> length r = length pg0 \<and> take (length pg0 - 32) r = take (length pg0 - 32) pg0"
    using w1 by (intro page_stored_read [OF _ assms(5-8,21)]) blast+
  have tr: "cr_transform (pf_derived s2)" "main_db_open realloc s2" using w1 unfolding crypt_page_ok by blast+
  have d4: "d4 = (pf_derived s2)\<lparr>cr_current := cr_transformation (pf_derived s2), cr_transform := False\<rparr>"
    using assms(20) tr(1) by (simp add: crypt_pragma_def crypt_transformation_pragma_def c_nth_def)
  have ok_u: "crypt_memdb.page_ok realloc ssl seal tag False ?u"
    unfolding crypt_page_ok using assms(1) tr(2) d4 by (simp add: main_db_open_def)
  have key_u: "key_of (cr_current (pf_derived ?u)) = key_of (active d3)" using w1 d4 tr(1) by (simp add: active_def)
  have "page_stored seal tag (key_of (cr_current (pf_derived ?u))) (stored ?u) off pg"
    unfolding key_u using w1 by (simp add: stored_def)
  moreover have "en_cipher (cr_current (pf_derived ?u)) \<noteq> None" using key_u assms(13) by (simp add: key_of_def)
  ultimately have "\<exists>r t. page_read (SQLite3_file_wrapper (memdb_io_methods realloc describe)) (crypt_codec ssl big) (of_nat off)
      (buf, ?u) = (Inr (), r, t) \<and> length r = length pg \<and> take (length pg - 32) r = take (length pg - 32) pg"
    by (intro page_stored_read [OF ok_u assms(14-17,22)])
  with new old show ?thesis unfolding crypt_file_ops by blast
qed

text \<open>For the examples: a file in memory that has room for 4096 bytes, and keeps it.\<close>

definition roomy :: "MemFile \<Rightarrow> bool" where
  "roomy f \<longleftrightarrow> memdb_opened realloc_zero f \<and>
     (case mg_heap (mf_fs f) (mf_pStore f) of
        None \<Rightarrow> False
      | Some p \<Rightarrow> ms_mFlags p = SQLITE_DESERIALIZE_RESIZEABLE OR SQLITE_DESERIALIZE_FREEONCLOSE \<and> ms_nMmap p = 0 \<and> ms_szMax p = 4096)"

lemma write_keeps_limits:
  "memdbWrite realloc bs n off p = (r, p') \<Longrightarrow>
   ms_mFlags p' = ms_mFlags p \<and> ms_nMmap p' = ms_nMmap p \<and> ms_szMax p' = ms_szMax p"
  by (auto simp: memdbWrite_def memdbEnlarge_def and_then_def return_with_def Let_def split: if_splits option.splits)

lemma write_with_room:
  assumes "store_ok p" and "ms_mFlags p = SQLITE_DESERIALIZE_RESIZEABLE OR SQLITE_DESERIALIZE_FREEONCLOSE" and "ms_nMmap p = 0"
    and "ms_szMax p = 4096" and "off + length bs \<le> 4096"
  shows "fst (memdbWrite realloc_zero bs (int (length bs)) (int off) p) = Inr SQLITE_OK"
proof -
  have "int off + int (length bs) \<le> 4096" using assms(5) by linarith
  then show ?thesis
    using assms by (auto simp: memdbWrite_def memdbEnlarge_def and_then_def return_with_def deserialize_defs i64_def realloc_zero_def Let_def)
qed

lemma roomy_write:
  assumes "roomy f" and "length bs < 2 ^ 31" and "off < 2 ^ 62"
    and w: "xWrite (memdb_io_methods realloc_zero describe) bs (int (length bs)) (of_nat off) f = (r, f')"
  shows "roomy f' \<and> (off + length bs \<le> 4096 \<longrightarrow> r = Inr SQLITE_OK)"
proof -
  obtain p where p: "mg_heap (mf_fs f) (mf_pStore f) = Some p" "store_ok p"
    "ms_mFlags p = SQLITE_DESERIALIZE_RESIZEABLE OR SQLITE_DESERIALIZE_FREEONCLOSE" "ms_nMmap p = 0" "ms_szMax p = 4096"
    using assms(1) by (auto simp: roomy_def memdb_opened_def split: option.splits)
  have off: "sint (of_nat off :: 64 word) = int off" using assms(3) by (simp add: sint_of_nat_small)
  obtain r' p' where wr: "memdbWrite realloc_zero bs (int (length bs)) (int off) p = (r', p')" by fastforce
  have f': "r = r'" "mg_heap (mf_fs f') (mf_pStore f') = Some p'"
    using w p(1) wr off by (auto simp: on_store_def)
  obtain rc q where "memdbWrite realloc_zero bs (int (length bs)) (int off) p = (Inr rc, q)" "store_ok q"
    using memdbWrite_refines [OF realloc_zero_ok p(2) assms(2,3)] by blast
  then have "store_ok p'" using wr by simp
  then show ?thesis
    using f' write_keeps_limits [OF wr] write_with_room [OF p(2-5), of off bs] p(3-5) wr realloc_zero_ok
    by (auto simp: roomy_def memdb_opened_def)
qed

interpretation roomy_memdb: paged_store "memdb_io_methods realloc_zero (\<lambda>_. [])" memdb_content roomy
  "crypt_codec demo_ssl False" "\<lambda>d. aes_gcm demo_ssl demo_seal demo_tag \<and> cr_transform d = t" "\<lambda>d. key_of (active d)"
  "\<lambda>d. key_of (cr_current d)" crypt_reserved "crypt_encoded demo_seal demo_tag" crypt_accepts for t
proof (unfold_locales, goal_cases)
  case (1 f buf off)
  then show ?case by (intro memdb.read_inside [of realloc_zero]) (simp_all add: roomy_def)
next
  case (2 f buf off)
  then show ?case by (intro memdb.read_short [of realloc_zero]) (simp_all add: roomy_def)
next
  case (3 f bs off)
  obtain rc f' where w: "xWrite (memdb_io_methods realloc_zero (\<lambda>_. [])) bs (int (length bs)) (of_nat off) f = (Inr rc, f')"
    "memdb_content f' = (if rc = SQLITE_OK then write_at (memdb_content f) off bs else memdb_content f)"
    using memdb.write_ok [OF _ 3(2,3), of realloc_zero f "\<lambda>_. []"] 3(1) by (auto simp: roomy_def simp del: memdb_simps)
  then show ?case using roomy_write [OF 3 w(1)] by blast
qed

lemma roomy_page_ok:
  "roomy_memdb.page_ok t s \<longleftrightarrow> fw_format (pf_parent s) = main_db \<and> (\<exists>f. fw_parent (pf_parent s) = Some f \<and> roomy f) \<and>
     cr_transform (pf_derived s) = t"
  unfolding roomy_memdb.page_ok_def using demo_aes_gcm by auto

lemma roomy_demo: "roomy_memdb.page_ok (cr_transform d) (demo_db d)"
  unfolding roomy_page_ok using demo_file_opened
  by (simp add: demo_db_def page_construct_def wrapper_construct_def roomy_def demo_file_def new_store_def)

lemma roomy_demo_write:
  assumes "roomy_memdb.page_ok t s" and "off + 512 \<le> 4096" and "off = 0 \<or> 512 \<le> off"
  shows "\<exists>s'. page_write (SQLite3_file_wrapper (memdb_io_methods realloc_zero (\<lambda>_. []))) (crypt_codec demo_ssl False)
     demo_page (of_nat off) s = (Inr (), s') \<and> roomy_memdb.page_ok t s'"
proof -
  have page: "length demo_page = 512" "512 \<le> length demo_page" "length demo_page < 2 ^ 31" by (simp_all add: demo_page_def)
  have acc: "crypt_accepts (key_of (active (pf_derived s))) (demo_page ! 20)"
    by (simp add: crypt_accepts_def demo_page_def nth_append)
  obtain f where f: "fw_parent (pf_parent s) = Some f" "roomy f" using assms(1) unfolding roomy_page_ok by blast
  have off: "off < 2 ^ 62" using assms(2) by simp
  have fits: "fst (xWrite (memdb_io_methods realloc_zero (\<lambda>_. [])) bs (int (length bs)) (of_nat off) f) = Inr 0"
    if "length bs = length demo_page" for bs
    using roomy_write [OF f(2) _ off prod.collapse [symmetric], of bs "\<lambda>_. []"] that page assms(2)
    by (simp add: result_code_defs del: memdb_simps)
  from roomy_memdb.page_write_ok [OF assms(1) page(2,3) off assms(3) acc] fits f(1) show ?thesis
    by (auto simp del: memdb_simps)
qed

theorem crypt_rotation_keeps_pages_witness:
  "\<exists>s1 d3 s2 r t r' t'.
    File_write (Crypt_file demo_ssl False (SQLite3_file_wrapper (memdb_io_methods realloc_zero (\<lambda>_. [])))) demo_page (of_nat 0)
      (demo_db demo_crypt) = (Inr (), s1) \<and>
    File_write (Crypt_file demo_ssl False (SQLite3_file_wrapper (memdb_io_methods realloc_zero (\<lambda>_. [])))) demo_page (of_nat 512)
      (s1\<lparr>pf_derived := d3\<rparr>) = (Inr (), s2) \<and>
    en_cipher (cr_current d3) = Some 3 \<and> en_cipher (active d3) = Some 1 \<and>
    File_read (Crypt_file demo_ssl False (SQLite3_file_wrapper (memdb_io_methods realloc_zero (\<lambda>_. [])))) (of_nat 0)
      (demo_page, s2) = (Inr (), r, t) \<and> take 480 r = take 480 demo_page \<and>
    File_read (Crypt_file demo_ssl False (SQLite3_file_wrapper (memdb_io_methods realloc_zero (\<lambda>_. [])))) (of_nat 512)
      (demo_page, s2\<lparr>pf_derived := snd (crypt_pragma demo_ssl ''crypt_transformation'' (Some ''0'') (pf_derived s2))\<rparr>) = (Inr (), r', t') \<and>
    take 480 r' = take 480 demo_page"
proof -
  let ?P = "SQLite3_file_wrapper (memdb_io_methods realloc_zero (\<lambda>_. []))"
  let ?key = "Some (''r'' @ [CHR 0x27] @ ''secret'' @ [CHR 0x27])"
  obtain s1 where w1: "File_write (Crypt_file demo_ssl False ?P) demo_page (of_nat 0) (demo_db demo_crypt) = (Inr (), s1)"
    "roomy_memdb.page_ok (cr_transform demo_crypt) s1"
    using roomy_demo_write [OF roomy_demo, of 0 demo_crypt] unfolding crypt_file_ops by auto
  define d1 where "d1 = snd (crypt_pragma demo_ssl ''crypt_transformation'' (Some ''1'') (pf_derived s1))"
  define d2 where "d2 = snd (crypt_pragma demo_ssl ''key'' ?key d1)"
  define d3 where "d3 = snd (crypt_pragma demo_ssl ''cipher'' (Some ''aes-128-gcm'') d2)"
  have p: "crypt_pragma demo_ssl ''crypt_transformation'' (Some ''1'') (pf_derived s1) =
      (fst (crypt_pragma demo_ssl ''crypt_transformation'' (Some ''1'') (pf_derived s1)), d1)"
    "crypt_pragma demo_ssl ''key'' ?key d1 = (fst (crypt_pragma demo_ssl ''key'' ?key d1), d2)"
    "crypt_pragma demo_ssl ''cipher'' (Some ''aes-128-gcm'') d2 = (fst (crypt_pragma demo_ssl ''cipher'' (Some ''aes-128-gcm'') d2), d3)"
    by (simp_all add: d1_def d2_def d3_def)
  have demo: "\<not> cr_transform (pf_derived (demo_db demo_crypt))" "en_cipher (cr_current (pf_derived (demo_db demo_crypt))) \<noteq> None"
    "\<not> cr_transform demo_crypt"
    by (simp_all add: demo_db_def page_construct_def demo_crypt_def)
  have page: "512 \<le> length demo_page" "length demo_page < 2 ^ 31" "(0 :: nat) < 2 ^ 62" "(512 :: nat) < 2 ^ 62"
    "0 = (0 :: nat) \<and> demo_page ! 20 = 32 \<or> 512 \<le> (0 :: nat)" "(512 :: nat) = 0 \<and> demo_page ! 20 = 32 \<or> 512 \<le> (512 :: nat)"
    "0 + length demo_page \<le> 512 \<or> 512 + length demo_page \<le> 0" "length demo_page - 32 = 480"
    by (simp_all add: demo_page_def nth_append)
  have s1: "\<not> cr_transform (pf_derived s1)" using w1(2) demo(3) unfolding roomy_page_ok by blast
  note d3 = key_pragmas [OF s1 p]
  have c3: "en_cipher (active d3) = Some 1" by (simp add: d3_def crypt_pragma_def set_cipher_def set_active_def active_def demo_ssl_def)
  have ok1: "crypt_memdb.page_ok realloc_zero demo_ssl demo_seal demo_tag False (demo_db demo_crypt)"
    using demo_aes_gcm demo_db_open [of demo_crypt] demo(1) unfolding crypt_page_ok by blast
  have cur: "en_cipher (cr_current d3) = Some 3"
    using page_stored_write [OF ok1 page(1-3,5) w1(1) [unfolded crypt_file_ops]] d3
    by (auto simp: key_of_def demo_db_def page_construct_def demo_crypt_def)
  have "roomy_memdb.page_ok True (s1\<lparr>pf_derived := d3\<rparr>)" using w1(2) d3 unfolding roomy_page_ok by simp
  then obtain s2 where w2: "File_write (Crypt_file demo_ssl False ?P) demo_page (of_nat 512) (s1\<lparr>pf_derived := d3\<rparr>) = (Inr (), s2)"
    using roomy_demo_write [of True "s1\<lparr>pf_derived := d3\<rparr>" 512] unfolding crypt_file_ops by auto
  from crypt_rotation_keeps_pages [OF demo_aes_gcm demo_db_open demo(1,2) page(1-3,5) w1(1) p c3 page(1,2,4,6,7) w2
      prod.collapse [symmetric] refl refl, unfolded page(8)]
  show ?thesis using w1(1) w2 c3 cur by blast
qed


text \<open>
  C9: only pages of the main database are encrypted. A rollback journal, a WAL or any other file opened
  through \<^verbatim>\<open>Crypt_file\<close> stores what is written to it in the clear, whatever its keys are, and reads
  return the stored bytes; and so does a main database for an access of less than 512 bytes.
\<close>

theorem crypt_journal_in_the_clear:
  assumes "memdb_opened realloc f" and "fw_parent (pf_parent s) = Some f" and "fw_format (pf_parent s) \<noteq> main_db \<or> length bs < 512"
    and "length bs < 2 ^ 31" and "off < 2 ^ 62"
    and "File_write (Crypt_file ssl big (SQLite3_file_wrapper (memdb_io_methods realloc describe))) bs (of_nat off) s = (r, s')"
  shows "stored s' = (if r = Inr () then write_at (stored s) off bs else stored s) \<and>
    (r = Inr () \<longrightarrow>
      File_read (Crypt_file ssl big (SQLite3_file_wrapper (memdb_io_methods realloc describe))) (of_nat off) (bs, s') =
        (Inr (), bs, s'))"
proof -
  let ?P = "SQLite3_file_wrapper (memdb_io_methods realloc describe)"
  from crypt_memdb.wrapper_write_ok [OF assms(2,1,4,5), of describe] obtain r0 f' where
    w: "wrapper_write (memdb_io_methods realloc describe) bs (of_nat off) (pf_parent s) =
        (r0, (pf_parent s)\<lparr>fw_parent := Some f'\<rparr>)" "memdb_opened realloc f'"
      "r0 = Inr () \<and> memdb_content f' = write_at (memdb_content f) off bs \<or>
       (\<exists>rc. rc \<noteq> 0 \<and> r0 = Inl (Thrown (System_error (make_error_code rc) None))) \<and> memdb_content f' = memdb_content f"
    by blast
  have "unat (of_nat (length bs) :: 64 word) = length bs" using assms(4) by simp
  then have no_page: "fw_format (pf_parent s) = main_db \<Longrightarrow> \<not> 512 \<le> (of_nat (length bs) :: 64 word)"
    using assms(3) by (simp add: word_le_nat_alt)
  then have np: "\<not> is_page (fw_format (pf_parent s)) (of_nat (length bs)) (of_nat off)" by (auto simp: is_page_def)
  have s': "r = r0" "s' = s\<lparr>pf_parent := (pf_parent s)\<lparr>fw_parent := Some f'\<rparr>\<rparr>"
    using np assms(6) w(1) by (simp_all add: Crypt_file_def Page_transforming_file_def page_write_def on_part_def)
  have "wrapper_read (memdb_io_methods realloc describe) (of_nat off) (bs, (pf_parent s)\<lparr>fw_parent := Some f'\<rparr>) =
      (Inr (), take (length bs) (drop off (memdb_content f')), (pf_parent s)\<lparr>fw_parent := Some f'\<rparr>)"
    if "r0 = Inr ()"
    using w(2,3) that assms(4) by (intro crypt_memdb.wrapper_read_ok) auto
  then have "File_read (Crypt_file ssl big ?P) (of_nat off) (bs, s') = (Inr (), bs, s')" if "r0 = Inr ()"
    using that w(3) np s'(2) by (simp add: Crypt_file_def Page_transforming_file_def page_read_def on_part_with_def)
  with w(3) s' assms(2) show ?thesis by (auto simp: stored_def)
qed

theorem crypt_journal_in_the_clear_witness:
  "let written = (\<lambda>format. stored (snd (File_write
        (Crypt_file demo_ssl False (SQLite3_file_wrapper (memdb_io_methods realloc_zero (\<lambda>_. []))))
        [1, 2] (of_nat 0) (page_construct (wrapper_construct None format (Some demo_file)) demo_crypt))))
   in written main_journal = [1, 2] \<and> written main_db = [1, 2]"
proof -
  have "stored (snd (File_write
      (Crypt_file demo_ssl False (SQLite3_file_wrapper (memdb_io_methods realloc_zero (\<lambda>_. []))))
      [1, 2] (of_nat 0) (page_construct (wrapper_construct None format (Some demo_file)) demo_crypt))) = [1, 2]" for format
  proof -
    let ?s = "page_construct (wrapper_construct None format (Some demo_file)) demo_crypt"
    let ?w = "File_write (Crypt_file demo_ssl False (SQLite3_file_wrapper (memdb_io_methods realloc_zero (\<lambda>_. []))))
        [1, 2] (of_nat 0) ?s"
    have s: "fw_parent (pf_parent ?s) = Some demo_file" "fw_format (pf_parent ?s) \<noteq> main_db \<or> length [1 :: byte, 2] < 512"
      "length [1 :: byte, 2] < 2 ^ 31" "(0 :: nat) < 2 ^ 62"
      by (simp_all add: page_construct_def wrapper_construct_def)
    have "fst (xWrite (memdb_io_methods realloc_zero (\<lambda>_. [])) [1, 2] (int (length [1 :: byte, 2])) (of_nat 0) demo_file) = Inr 0"
      by (rule demo_write_ok) simp
    then have "fst ?w = Inr ()"
      using int_of_size_small [of 2]
      by (simp add: Crypt_file_def Page_transforming_file_def page_write_def is_page_def on_part_def
          page_construct_def wrapper_construct_def wrapper_write_def and_then_def on_parent_def split_def
          split: sum.splits prod.splits del: memdb_simps)
    moreover have "stored ?s = []"
      by (simp add: stored_def page_construct_def wrapper_construct_def memdb_content_def demo_file_def new_store_def
          store_content_def)
    ultimately show ?thesis
      using crypt_journal_in_the_clear [OF demo_file_opened s prod.collapse [symmetric], of demo_ssl False "\<lambda>_. []"]
      by (simp add: write_at_def del: memdb_simps)
  qed
  then show ?thesis by (simp add: Let_def)
qed

text \<open>
  The answer of a pragma. For every value of \<^verbatim>\<open>key\<close>, \<^verbatim>\<open>cipher\<close> and \<^verbatim>\<open>crypt_transformation\<close> the file
  control succeeds, a bad key or an unknown cipher included, and the message replaces the
  pragma's name in the second string; the first one, which \<^verbatim>\<open>SQLITE_FCNTL_PRAGMA\<close> documents as the
  result, is not touched. A pragma without a value uses a null pointer.
\<close>

theorem crypt_pragma_answer_slot:
  assumes "name \<in> {''key'', ''cipher'', ''crypt_transformation''}"
  shows "(\<exists>msg s'. file_file_control (Crypt_file ssl big P) SQLITE_FCNTL_PRAGMA
      (Char_pointers [res, Some name, Some v], Some s) =
      (Inr SQLITE_OK, Char_pointers [res, Some (key_message_text msg), Some v], Some s')) \<and>
    file_file_control (Crypt_file ssl big P) SQLITE_FCNTL_PRAGMA
      (Char_pointers [res, Some name, None], Some s) =
      (Inl Undefined, Char_pointers [res, Some name, None], Some s)"
proof -
  have "\<exists>msg d'. crypt_pragma ssl name (Some v) (pf_derived s) = (Inr (Some msg), d')"
    using assms by (auto simp: crypt_pragma_def generate_key_def set_cipher_def split: prod.splits sum.splits)
  then obtain msg d' where "crypt_pragma ssl name (Some v) (pf_derived s) = (Inr (Some msg), d')" by blast
  then have "file_file_control (Crypt_file ssl big P) SQLITE_FCNTL_PRAGMA
      (Char_pointers [res, Some name, Some v], Some s) =
      (Inr SQLITE_OK, Char_pointers [res, Some (key_message_text msg), Some v], Some (s\<lparr>pf_derived := d'\<rparr>))"
    by (simp add: file_file_control_def file_wrap_def on_self_with_def Crypt_file_def crypt_file_control_def)
  moreover have "crypt_pragma ssl name None (pf_derived s) = (Inl Undefined, pf_derived s)"
    using assms by (auto simp: crypt_pragma_def generate_key_def set_cipher_def)
  then have "file_file_control (Crypt_file ssl big P) SQLITE_FCNTL_PRAGMA
      (Char_pointers [res, Some name, None], Some s) =
      (Inl Undefined, Char_pointers [res, Some name, None], Some s)"
    by (simp add: file_file_control_def file_wrap_def on_self_with_def Crypt_file_def crypt_file_control_def)
  ultimately show ?thesis by blast
qed

theorem crypt_pragma_answer_slot_witness:
  "\<exists>msg s'. file_file_control (Crypt_file demo_ssl False (SQLite3_file_wrapper (memdb_io_methods realloc_zero (\<lambda>_. []))))
      SQLITE_FCNTL_PRAGMA (Char_pointers [None, Some ''key'', Some ''bad''], Some (demo_db demo_crypt)) =
      (Inr SQLITE_OK, Char_pointers [None, Some (key_message_text msg), Some ''bad''], Some s')"
  by (rule crypt_pragma_answer_slot [of "''key''", THEN conjunct1]) simp

text \<open>
  The example file with the rotating codec. What is stored is the first 100 bytes of page 1
  as they are and 13 added to every other byte, and a page that was written is read back whole.
\<close>

theorem rot13_page_round_trip:
  assumes "main_db_open realloc s"
    and "512 \<le> length pg" and "length pg < 2 ^ 31" and "off < 2 ^ 62" and "off = 0 \<or> 512 \<le> off"
    and "File_write (Rot13_file (SQLite3_file_wrapper (memdb_io_methods realloc describe))) pg (of_nat off) s = (Inr (), s')"
    and "length buf = length pg"
  shows "(\<exists>s''. File_read (Rot13_file (SQLite3_file_wrapper (memdb_io_methods realloc describe))) (of_nat off) (buf, s') =
        (Inr (), pg, s'')) \<and>
    (let h = (if off = 0 then 100 else 0) in
     stored s' = write_at (stored s) off (take h pg @ map (\<lambda>i. i + 13) (drop h pg)))"
proof -
  let ?P = "SQLite3_file_wrapper (memdb_io_methods realloc describe)"
  have ok: "rot13_memdb.page_ok realloc s" using assms(1) by (simp add: rot13_page_ok)
  have ops: "File_write (Rot13_file ?P) = page_write ?P rot13_codec"
    "File_read (Rot13_file ?P) = page_read ?P rot13_codec"
    by (simp_all add: Rot13_file_def Page_transforming_file_def)
  note w = assms(6) [unfolded ops]
  from rot13_memdb.page_round_trip [OF ok assms(2-5) _ w refl assms(7)]
  have "\<exists>s''. page_read ?P rot13_codec (of_nat off) (buf, s') = (Inr (), pg, s'')" by auto
  moreover from rot13_memdb.page_write_ok [OF ok assms(2-5), of describe] w
  have "stored s' = write_at (stored s) off (take (payload_start off) pg @ map (\<lambda>i. i + 13) (drop (payload_start off) pg))"
    by (auto simp: bytes_of_stored)
  ultimately show ?thesis unfolding ops payload_start_def [symmetric] Let_def by blast
qed


lemma rot13_demo_write:
  "\<exists>s'. page_write (SQLite3_file_wrapper (memdb_io_methods realloc_zero (\<lambda>_. []))) rot13_codec
     demo_page (of_nat 0) (demo_db ()) = (Inr (), s')"
proof -
  let ?P = "SQLite3_file_wrapper (memdb_io_methods realloc_zero (\<lambda>_. []))"
  have ok: "rot13_memdb.page_ok realloc_zero (demo_db ())"
    using demo_db_open [of "()"] by (simp add: rot13_page_ok)
  have page: "length demo_page = 512" "512 \<le> length demo_page" "length demo_page < 2 ^ 31" by (simp_all add: demo_page_def)
  have parent: "fw_parent (pf_parent (demo_db ())) = Some demo_file"
    by (simp add: demo_db_def page_construct_def wrapper_construct_def)
  from rot13_memdb.page_write_ok [OF ok page(2,3), of 0 "\<lambda>_. []"] obtain r s' where
    w: "page_write ?P rot13_codec demo_page (of_nat 0) (demo_db ()) = (r, s')"
      "\<forall>f. fw_parent (pf_parent (demo_db ())) = Some f \<longrightarrow>
        (\<forall>bs. length bs = length demo_page \<longrightarrow>
          fst (xWrite (memdb_io_methods realloc_zero (\<lambda>_. [])) bs (int (length bs)) (of_nat 0) f) = Inr 0) \<longrightarrow> r = Inr ()"
    by (auto simp del: memdb_simps)
  have "r = Inr ()"
  proof (rule w(2) [rule_format, OF parent])
    fix bs :: "byte list" assume "length bs = length demo_page"
    then have "length bs \<le> 1000" using page(1) by simp
    then show "fst (xWrite (memdb_io_methods realloc_zero (\<lambda>_. [])) bs (int (length bs)) (of_nat 0) demo_file) = Inr 0"
      by (rule demo_write_ok)
  qed
  with w(1) show ?thesis by blast
qed

theorem rot13_page_round_trip_witness:
  "\<exists>s' s''. File_write (Rot13_file (SQLite3_file_wrapper (memdb_io_methods realloc_zero (\<lambda>_. []))))
      demo_page (of_nat 0) (demo_db ()) = (Inr (), s') \<and>
    File_read (Rot13_file (SQLite3_file_wrapper (memdb_io_methods realloc_zero (\<lambda>_. [])))) (of_nat 0)
      (replicate 512 0, s') = (Inr (), demo_page, s'')"
proof -
  from rot13_demo_write obtain s' where
    w: "File_write (Rot13_file (SQLite3_file_wrapper (memdb_io_methods realloc_zero (\<lambda>_. []))))
      demo_page (of_nat 0) (demo_db ()) = (Inr (), s')"
    by (auto simp: Rot13_file_def Page_transforming_file_def)
  have page: "512 \<le> length demo_page" "length demo_page < 2 ^ 31" "(0 :: nat) < 2 ^ 62"
    "(0 :: nat) = 0 \<or> 512 \<le> (0 :: nat)" "length (replicate 512 (0 :: byte)) = length demo_page"
    by (simp_all add: demo_page_def)
  from rot13_page_round_trip [OF demo_db_open page(1-4) w page(5)] w show ?thesis by blast
qed

end
