(* ===== verification/Ys_Passthrough.thy ===== *)
theory Ys_Passthrough
  imports Ys_Stack
begin

text \<open>
  The file callbacks of \<^verbatim>\<open>vfs/file.cpp\<close> over \<^verbatim>\<open>SQLite3_file_wrapper\<close>: a result code of the
  parent becomes an exception in the wrapper and a result code again in the callback. SQLite
  sees the same codes, outputs and state as on the parent, so a wrapped file that overrides
  nothing behaves like the file it wraps.
\<close>

section \<open>Files whose methods are C functions\<close>

definition c_methods :: "'f io_methods \<Rightarrow> bool" where
  "c_methods M \<longleftrightarrow>
     c_function (xClose M) \<and> (\<forall>n off. c_function (xRead M n off)) \<and>
     (\<forall>bs n off. c_function (xWrite M bs n off)) \<and> (\<forall>n. c_function (xTruncate M n)) \<and>
     (\<forall>f. c_function (xSync M f)) \<and> c_function (xFileSize M) \<and>
     (\<forall>m l. xLock M = Some m \<longrightarrow> c_function (m l)) \<and> (\<forall>m l. xUnlock M = Some m \<longrightarrow> c_function (m l)) \<and>
     (\<forall>m op. xFileControl M = Some m \<longrightarrow> c_function (m op)) \<and>
     (\<forall>m. xCheckReservedLock M = Some m \<longrightarrow> c_function m) \<and> (\<forall>m. xSectorSize M = Some m \<longrightarrow> c_function m) \<and>
     (\<forall>m. xDeviceCharacteristics M = Some m \<longrightarrow> c_function m) \<and>
     (\<forall>m pg n w. xShmMap M = Some m \<longrightarrow> c_function (m pg n w)) \<and> (\<forall>m k n f. xShmLock M = Some m \<longrightarrow> c_function (m k n f)) \<and>
     (\<forall>m. xShmBarrier M = Some m \<longrightarrow> c_function m) \<and> (\<forall>m d. xShmUnmap M = Some m \<longrightarrow> c_function (m d)) \<and>
     (\<forall>m off n. xFetch M = Some m \<longrightarrow> c_function (m off n)) \<and> (\<forall>m off a. xUnfetch M = Some m \<longrightarrow> c_function (m off a)) \<and>
     (\<forall>n off buf p. length (fst (snd (xRead M n off (buf, p)))) = length buf)"

text \<open>What running a method of the parent means for the file object that wraps it.\<close>

definition forwarded ::
  "'f sqlite3_file_wrapper \<Rightarrow> ('f, fault, 'a) action \<Rightarrow> 'f \<Rightarrow> (fault + 'a) \<times> 'f sqlite3_file_wrapper option" where
  "forwarded s m p = (case m p of (r, p') \<Rightarrow> (r, Some (s\<lparr>fw_parent := Some p'\<rparr>)))"

definition forwarded_with ::
  "'f sqlite3_file_wrapper \<Rightarrow> ('b \<times> 'f, fault, 'a) action \<Rightarrow> 'b \<times> 'f \<Rightarrow> (fault + 'a) \<times> 'b \<times> 'f sqlite3_file_wrapper option" where
  "forwarded_with s m = (\<lambda>(b, p). case m (b, p) of (r, b', p') \<Rightarrow> (r, b', Some (s\<lparr>fw_parent := Some p'\<rparr>)))"

lemma c_function_call: "(\<And>m. f = Some m \<Longrightarrow> c_function (k m)) \<Longrightarrow> c_function (call_method f k)"
  by (cases f) (auto simp: c_function_def)

lemma forward_plain:
  assumes "fw_parent s = Some p" "c_function m"
  shows "file_wrap d (on_self (and_then (on_parent m) assert_error)) (Some s) = forwarded s m p"
proof -
  obtain r p' where r: "m p = (r, p')" by (cases "m p")
  show ?thesis
  proof (cases r)
    case (Inl e)
    then show ?thesis
      using assms r c_functionD [OF assms(2), of p e p']
      by (auto simp: file_wrap_def on_self_def and_then_def on_parent_def forwarded_def)
  next
    case (Inr rc)
    then show ?thesis
      using assms r
      by (cases "rc = 0")
        (auto simp: file_wrap_def on_self_def and_then_def on_parent_def forwarded_def
          make_error_code_def SQLITE_OK_def)
  qed
qed

lemma forward_buffer:
  assumes "fw_parent s = Some p" "c_function m"
  shows "file_wrap d (on_self_with (and_then (on_parent_with m) assert_error)) (b, Some s) =
    (case m (b, p) of (r, b', p') \<Rightarrow> (r, b', Some (s\<lparr>fw_parent := Some p'\<rparr>)))"
proof -
  obtain r b' p' where r: "m (b, p) = (r, b', p')" by (cases "m (b, p)")
  show ?thesis
  proof (cases r)
    case (Inl e)
    then show ?thesis
      using assms r c_functionD [OF assms(2), of "(b, p)" e "(b', p')"]
      by (auto simp: file_wrap_def on_self_with_def and_then_def on_parent_with_def)
  next
    case (Inr rc)
    then show ?thesis
      using assms r
      by (cases "rc = 0")
        (auto simp: file_wrap_def on_self_with_def and_then_def on_parent_with_def
          make_error_code_def SQLITE_OK_def)
  qed
qed


text \<open>The callbacks one by one.\<close>

lemma span_of_int: "span_of 0 (size_of_int (int n)) = span_of 0 (of_nat n)"
  by (simp add: size_of_int_def)

lemma forward_read:
  assumes "fw_parent s = Some p" "c_methods M" "length buf < 2 ^ 31"
  shows "file_read (SQLite3_file_wrapper M) (int (length buf)) off (buf, Some s) =
    (case xRead M (int (length buf)) off (buf, p) of (r, b', p') \<Rightarrow> (r, b', Some (s\<lparr>fw_parent := Some p'\<rparr>)))"
proof -
  let ?m = "xRead M (int (length buf)) off"
  have c: "c_function ?m" using assms(2) by (simp add: c_methods_def)
  obtain r b' p' where r: "?m (buf, p) = (r, b', p')" by (cases "?m (buf, p)")
  moreover have "length (fst (snd (?m (buf, p)))) = length buf" using assms(2) by (simp add: c_methods_def)
  ultimately have len: "length b' = length buf" by simp
  have whole: "span_bytes buf (span_of 0 (of_nat (length buf))) = buf"
    using assms(3) by (intro span_of_whole_bytes) simp
  have put: "span_put buf (span_of 0 (of_nat (length buf))) b' = b'"
    using len span_of_slice [of 0 "length buf"] slice_put [of 0 buf "length buf" b'] by (simp add: overwrite_def)
  have "wrapper_read M off (buf, s) = and_then (on_parent_with ?m) assert_error (buf, s)"
    using assms(3) by (simp add: wrapper_read_def int_of_size_small)
  then have "on_self_with (wrapper_read M off) (buf, Some s) =
      on_self_with (and_then (on_parent_with ?m) assert_error) (buf, Some s)"
    by (simp add: on_self_with_def)
  then have "file_read (SQLite3_file_wrapper M) (int (length buf)) off (buf, Some s) =
      (case file_wrap SQLITE_ERROR (on_self_with (and_then (on_parent_with ?m) assert_error)) (buf, Some s) of
        (r, b', f) \<Rightarrow> (r, span_put buf (span_of 0 (of_nat (length buf))) b', f))"
    by (simp add: file_read_def span_of_int whole file_wrap_def split: prod.splits sum.splits fault.splits exn.splits)
  also have "\<dots> = (r, b', Some (s\<lparr>fw_parent := Some p'\<rparr>))"
    by (simp add: forward_buffer [OF assms(1) c] r put)
  finally show ?thesis by (simp add: r)
qed

lemma forward_write:
  assumes "fw_parent s = Some p" "c_methods M" "length bs < 2 ^ 31"
  shows "file_write (SQLite3_file_wrapper M) bs (int (length bs)) off (Some s) =
    forwarded s (xWrite M bs (int (length bs)) off) p"
proof -
  have whole: "span_bytes bs (span_of 0 (of_nat (length bs))) = bs"
    using assms(3) by (intro span_of_whole_bytes) simp
  have "c_function (xWrite M bs (int (length bs)) off)" using assms(2) by (simp add: c_methods_def)
  from forward_plain [OF assms(1) this] show ?thesis
    using assms(3) by (simp add: file_write_def span_of_int whole wrapper_write_def int_of_size_small)
qed

lemma forward_lock:
  assumes "fw_parent s = Some p" "c_methods M"
  shows "file_lock (SQLite3_file_wrapper M) l (Some s) =
      (if l \<in> {0, 1, 2, 3, 4} then forwarded s (call_method (xLock M) (\<lambda>f. f l)) p else (Inr SQLITE_MISUSE, Some s))"
    and "file_unlock (SQLite3_file_wrapper M) l (Some s) =
      (if l \<in> {0, 1, 2, 3, 4} then forwarded s (call_method (xUnlock M) (\<lambda>f. f l)) p else (Inr SQLITE_MISUSE, Some s))"
proof -
  have c: "c_function (call_method (xLock M) (\<lambda>f. f l))" "c_function (call_method (xUnlock M) (\<lambda>f. f l))" for l
    using assms(2) by (auto simp: c_methods_def intro!: c_function_call)
  note simps = file_lock_def file_unlock_def lock_flag_def wrapper_lock_def wrapper_unlock_def
    SQLITE_LOCK_NONE_def SQLITE_LOCK_SHARED_def SQLITE_LOCK_RESERVED_def SQLITE_LOCK_PENDING_def
    SQLITE_LOCK_EXCLUSIVE_def forward_plain [OF assms(1) c(1)] forward_plain [OF assms(1) c(2)]
  have misuse: "file_wrap d (throw_sqlite3 e) (Some s) = (Inr e, Some s)" for d e
    by (simp add: file_wrap_def make_error_code_def)
  have stop: "and_then (throw_sqlite3 e) f = throw_sqlite3 e" for e and f :: "Lock_flag \<Rightarrow> ('b option, fault, unit) action"
    by (simp add: throw_sqlite3_def)
  show "file_lock (SQLite3_file_wrapper M) l (Some s) =
      (if l \<in> {0, 1, 2, 3, 4} then forwarded s (call_method (xLock M) (\<lambda>f. f l)) p else (Inr SQLITE_MISUSE, Some s))"
    by (simp add: simps misuse stop)
  show "file_unlock (SQLite3_file_wrapper M) l (Some s) =
      (if l \<in> {0, 1, 2, 3, 4} then forwarded s (call_method (xUnlock M) (\<lambda>f. f l)) p else (Inr SQLITE_MISUSE, Some s))"
    by (simp add: simps misuse stop SQLite3_file_wrapper_def)
qed

lemma forward_sync:
  assumes "fw_parent s = Some p" "c_methods M"
  shows "file_sync (SQLite3_file_wrapper M) fl (Some s) =
    (if fl \<in> {2, 3, 16} then forwarded s (xSync M fl) p else (Inr SQLITE_MISUSE, Some s))"
proof -
  have misuse: "file_wrap d (throw_sqlite3 e) (Some s) = (Inr e, Some s)" for d e
    by (simp add: file_wrap_def make_error_code_def)
  have stop: "and_then (throw_sqlite3 e) f = throw_sqlite3 e"
    for e and f :: "Sync_flag \<Rightarrow> ('a sqlite3_file_wrapper option, fault, unit) action"
    by (simp add: throw_sqlite3_def)
  have "c_function (xSync M fl)" for fl using assms(2) by (simp add: c_methods_def)
  from forward_plain [OF assms(1) this] show ?thesis
    by (simp add: file_sync_def SQLite3_file_wrapper_def wrapper_sync_def misuse stop
        SQLITE_SYNC_NORMAL_def SQLITE_SYNC_FULL_def SQLITE_SYNC_DATAONLY_def)
qed

lemma forward_close:
  assumes "fw_parent s = Some p" "c_methods M"
  shows "file_close (SQLite3_file_wrapper M) (Some s) = (fst (xClose M p), None)"
proof -
  obtain r p' where r: "xClose M p = (r, p')" by (cases "xClose M p")
  have c: "c_function (xClose M)" using assms(2) by (simp add: c_methods_def)
  show ?thesis
  proof (cases r)
    case (Inl e)
    then show ?thesis using c_functionD [OF c, of p e p'] r assms(1)
      by (auto simp: file_close_def wrapper_close_def with_finally_apply file_wrap_def on_self_def and_then_def on_parent_def)
  next
    case (Inr rc)
    then show ?thesis using r assms(1)
      by (cases "rc = 0") (auto simp: file_close_def wrapper_close_def with_finally_apply file_wrap_def on_self_def and_then_def
          on_parent_def SQLITE_OK_def)
  qed
qed

text \<open>Outputs: the size is only written when the parent succeeds, the answer about the lock is 0 when it does not.\<close>

lemma forward_file_size:
  assumes "fw_parent s = Some p" "c_methods M"
  shows "file_file_size (SQLite3_file_wrapper M) (out, Some s) =
    (case forwarded_with s (xFileSize M) (0, p) of (r, sz, f) \<Rightarrow> (r, if r = Inr 0 then sz else out, f))"
proof -
  have c: "c_function (xFileSize M)" using assms(2) by (simp add: c_methods_def)
  obtain r sz p' where r: "xFileSize M (0, p) = (r, sz, p')" by (cases "xFileSize M (0, p)")
  then have "e = Terminates \<or> e = Undefined" if "r = Inl e" for e
    using that c_functionD [OF c, of "(0, p)" e] by auto
  then show ?thesis
    using assms(1) r
    by (cases r; cases "projr r = 0")
      (auto simp: file_file_size_def SQLite3_file_wrapper_def wrapper_file_size_def file_wrap_def on_self_def
        and_then_def with_output_def on_parent_with_def forwarded_with_def SQLITE_OK_def)
qed

lemma forward_reserved:
  assumes "fw_parent s = Some p" "c_methods M"
  shows "file_check_reserved_lock (SQLite3_file_wrapper M) (out, Some s) =
    (case forwarded_with s (call_method (xCheckReservedLock M) id) (0, p) of
       (r, res, f) \<Rightarrow> (r, if r = Inr 0 then of_bool (res \<noteq> 0) else 0, f))"
proof -
  let ?m = "call_method (xCheckReservedLock M) id"
  have c: "c_function ?m" using assms(2) by (auto simp: c_methods_def intro!: c_function_call)
  obtain r res p' where r: "?m (0, p) = (r, res, p')" by (cases "?m (0, p)")
  then have "e = Terminates \<or> e = Undefined" if "r = Inl e" for e
    using that c_functionD [OF c, of "(0, p)" e] by auto
  then show ?thesis
    using assms(1) r
    by (cases r; cases "projr r = 0")
      (auto simp: file_check_reserved_lock_def SQLite3_file_wrapper_def wrapper_has_reserved_lock_def file_wrap_def on_self_def
        and_then_def with_output_def on_parent_with_def forwarded_with_def SQLITE_OK_def)
qed

lemma forward_number:
  assumes "fw_parent s = Some p" "c_function m"
  shows "noexcept (on_self (on_parent m)) (Some s) = forwarded s m p"
proof -
  obtain r p' where r: "m p = (r, p')" by (cases "m p")
  show ?thesis
  proof (cases r)
    case (Inl e)
    then show ?thesis using c_functionD [OF assms(2), of p e p'] r assms(1)
      by (auto simp: noexcept_def on_self_def on_parent_def forwarded_def)
  qed (use r assms(1) in \<open>simp add: noexcept_def on_self_def on_parent_def forwarded_def\<close>)
qed

lemma forward_sector_size:
  assumes "fw_parent s = Some p" "c_methods M"
  shows "file_sector_size (SQLite3_file_wrapper M) (Some s) =
    forwarded s (case xSectorSize M of None \<Rightarrow> return_with 4096 | Some f \<Rightarrow> f) p"
proof -
  have "c_function (case xSectorSize M of None \<Rightarrow> File_default_sector_size | Some f \<Rightarrow> f)"
    using assms(2) by (auto simp: c_methods_def c_function_def File_default_sector_size_def split: option.splits)
  from forward_number [OF assms(1) this, folded wrapper_sector_size_def] show ?thesis
    by (simp add: file_sector_size_def SQLite3_file_wrapper_def) (simp only: File_default_sector_size_def)
qed

text \<open>The methods that only pass a code through.\<close>

lemma forward_calls:
  assumes "fw_parent s = Some p" "c_methods M"
  defines "ops \<equiv> SQLite3_file_wrapper M"
  shows "file_truncate ops k (Some s) = forwarded s (xTruncate M k) p"
    "file_file_control ops op (arg, Some s) = forwarded_with s (call_method (xFileControl M) (\<lambda>f. f op)) (arg, p)"
    "file_device_characteristics ops (Some s) = forwarded s (call_method (xDeviceCharacteristics M) id) p"
    "file_shm_map ops pg n w (mem, Some s) = forwarded_with s (call_method (xShmMap M) (\<lambda>f. f pg n (of_bool (w \<noteq> 0)))) (mem, p)"
    "file_shm_lock ops i n fl (Some s) = forwarded s (call_method (xShmLock M) (\<lambda>f. f i n fl)) p"
    "file_shm_barrier ops (Some s) = forwarded s (call_method (xShmBarrier M) id) p"
    "file_shm_unmap ops d (Some s) = forwarded s (call_method (xShmUnmap M) (\<lambda>f. f d)) p"
    "file_fetch ops off n (mem, Some s) = forwarded_with s (call_method (xFetch M) (\<lambda>f. f off n)) (mem, p)"
    "file_unfetch ops off mem (Some s) = forwarded s (call_method (xUnfetch M) (\<lambda>f. f off mem)) p"
proof -
  have c: "c_function (xTruncate M k)" "c_function (call_method (xFileControl M) (\<lambda>f. f op))"
    "c_function (call_method (xDeviceCharacteristics M) id)" "c_function (call_method (xShmMap M) (\<lambda>f. f pg n (of_bool (w \<noteq> 0))))"
    "c_function (call_method (xShmLock M) (\<lambda>f. f i n fl))" "c_function (call_method (xShmUnmap M) (\<lambda>f. f d))"
    "c_function (call_method (xFetch M) (\<lambda>f. f off n))" "c_function (call_method (xUnfetch M) (\<lambda>f. f off mem))"
    using assms(2) by (auto simp: c_methods_def intro!: c_function_call)
  note plain = forward_plain [OF assms(1)] and buffer = forward_buffer [OF assms(1)] and number = forward_number [OF assms(1)]
  note simps = ops_def SQLite3_file_wrapper_def forwarded_with_def
  show "file_truncate ops k (Some s) = forwarded s (xTruncate M k) p"
    by (simp add: simps file_truncate_def wrapper_truncate_def plain c)
  show "file_file_control ops op (arg, Some s) = forwarded_with s (call_method (xFileControl M) (\<lambda>f. f op)) (arg, p)"
    by (simp add: simps file_file_control_def wrapper_file_control_def buffer c)
  show "file_device_characteristics ops (Some s) = forwarded s (call_method (xDeviceCharacteristics M) id) p"
    by (simp add: simps file_device_characteristics_def wrapper_device_characteristics_def number c)
  show "file_shm_map ops pg n w (mem, Some s) = forwarded_with s (call_method (xShmMap M) (\<lambda>f. f pg n (of_bool (w \<noteq> 0)))) (mem, p)"
    by (simp add: simps file_shm_map_def wrapper_shm_map_def buffer c del: of_bool_not_iff)
  show "file_shm_lock ops i n fl (Some s) = forwarded s (call_method (xShmLock M) (\<lambda>f. f i n fl)) p"
    by (simp add: simps file_shm_lock_def wrapper_shm_lock_def plain c)
  show "file_shm_barrier ops (Some s) = forwarded s (call_method (xShmBarrier M) id) p"
    using assms(1) by (simp add: simps file_shm_barrier_def wrapper_shm_barrier_def on_self_def on_parent_def forwarded_def split: prod.split)
  show "file_shm_unmap ops d (Some s) = forwarded s (call_method (xShmUnmap M) (\<lambda>f. f d)) p"
    by (simp add: simps file_shm_unmap_def wrapper_shm_unmap_def plain c)
  show "file_fetch ops off n (mem, Some s) = forwarded_with s (call_method (xFetch M) (\<lambda>f. f off n)) (mem, p)"
    by (simp add: simps file_fetch_def wrapper_fetch_def buffer c)
  show "file_unfetch ops off mem (Some s) = forwarded s (call_method (xUnfetch M) (\<lambda>f. f off mem)) p"
    by (simp add: simps file_unfetch_def wrapper_unfetch_def plain c)
qed


section \<open>In-memory files are such files\<close>

lemma c_function_on_store: "c_function m \<Longrightarrow> c_function (on_store m)"
  by (auto simp: c_function_def on_store_def split: option.splits prod.splits) (metis fst_conv)

lemma c_function_on_store_with: "c_function m \<Longrightarrow> c_function (on_store_with m)"
  by (auto simp: c_function_def on_store_with_def split: option.splits prod.splits) (metis fst_conv)

lemma c_function_and_then: "c_function m \<Longrightarrow> (\<And>a. c_function (f a)) \<Longrightarrow> c_function (and_then m f)"
  unfolding c_function_def and_then_def by (auto split: prod.splits sum.splits) (metis fst_conv)

lemma c_function_memdb:
  "c_function memdbClose" "c_function (memdbRead n off)" "c_function (memdbEnlarge realloc n)"
  "c_function (memdbTruncate k)" "c_function (memdbSync f)" "c_function memdbFileSize"
  "c_function (memdbFileControl describe op)" "c_function memdbDeviceCharacteristics" "c_function (memdbFetch off k)"
  "c_function (memdbUnfetch off a)"
  by (auto simp: memdbDeviceCharacteristics_def memdbFetch_def memdbUnfetch_def c_function_def memdbClose_def memdbRead_def memdbEnlarge_def memdbTruncate_def memdbSync_def
      memdbFileSize_def memdbFileControl_def Let_def split: option.splits control_arg.splits list.splits)

lemma c_function_memdbWrite: "c_function (memdbWrite realloc z n off)"
  unfolding c_function_def memdbWrite_def
  by (auto simp: and_then_def Let_def split: prod.splits sum.splits if_splits
      dest: c_functionD [OF c_function_memdb(3)])

lemma c_function_memdbLock: "c_function (memdbLock l)"
  unfolding c_function_def memdbLock_def
  by (auto simp: on_store_def split: option.splits prod.splits sum.splits)

lemma length_memdbRead: "length (fst (snd (on_store_with (memdbRead n off) (buf, p)))) = length buf"
  by (auto simp: on_store_with_def memdbRead_def Let_def overwrite_def min_def split: option.splits prod.splits if_splits)

lemma c_methods_memdb: "c_methods (memdb_io_methods realloc describe)"
  by (simp add: c_methods_def memdb_io_methods_def c_function_on_store c_function_on_store_with c_function_memdb
      c_function_memdbWrite c_function_memdbLock length_memdbRead)


section \<open>Properties\<close>

text \<open>
  C28: a wrapped file is transparent. Over any parent whose methods are C functions, every callback
  of the file object calls the method of the parent, returns its result code and leaves the outputs
  and the parent in the state it leaves them in; closing also deletes the object. Where the callbacks differ: the size
  is only written on success, the answer to \<^verbatim>\<open>xCheckReservedLock\<close> is 0 or 1, and 0 on an error, \<^verbatim>\<open>isWrite\<close> arrives as 0
  or 1, a missing \<^verbatim>\<open>xSectorSize\<close> is 4096, and any other missing method has no defined behaviour. A lock level that is
  none of the five, and a sync flag other than the three of \<^verbatim>\<open>Sync_flag\<close>, is answered with
  \<^verbatim>\<open>SQLITE_MISUSE\<close> without calling the parent; the sync flags with \<^verbatim>\<open>SQLITE_SYNC_DATAONLY\<close> ORed in, which
  \<^verbatim>\<open>sqlite3.h\<close> allows and \<^verbatim>\<open>zeroJournalHdr\<close> uses, are among them.
\<close>

theorem wrapped_file_transparent:
  assumes p: "fw_parent s = Some p" and M: "c_methods M"
    and len: "length buf < 2 ^ 31" "length bs < 2 ^ 31"
  shows "let W = File_methods (SQLite3_file_wrapper M) in
    xClose W (Some s) = (fst (xClose M p), None) \<and>
    xRead W (int (length buf)) off (buf, Some s) = forwarded_with s (xRead M (int (length buf)) off) (buf, p) \<and>
    xWrite W bs (int (length bs)) off (Some s) = forwarded s (xWrite M bs (int (length bs)) off) p \<and>
    xTruncate W k (Some s) = forwarded s (xTruncate M k) p \<and>
    xSync W fl (Some s) = (if fl \<in> {2, 3, 16} then forwarded s (xSync M fl) p else (Inr SQLITE_MISUSE, Some s)) \<and>
    xFileSize W (out, Some s) =
      (case forwarded_with s (xFileSize M) (0, p) of (r, sz, f) \<Rightarrow> (r, if r = Inr 0 then sz else out, f)) \<and>
    the (xLock W) l (Some s) =
      (if l \<in> {0, 1, 2, 3, 4} then forwarded s (call_method (xLock M) (\<lambda>f. f l)) p else (Inr SQLITE_MISUSE, Some s)) \<and>
    the (xUnlock W) l (Some s) =
      (if l \<in> {0, 1, 2, 3, 4} then forwarded s (call_method (xUnlock M) (\<lambda>f. f l)) p else (Inr SQLITE_MISUSE, Some s)) \<and>
    the (xCheckReservedLock W) (res, Some s) =
      (case forwarded_with s (call_method (xCheckReservedLock M) id) (0, p) of
         (r, b, f) \<Rightarrow> (r, if r = Inr 0 then of_bool (b \<noteq> 0) else 0, f)) \<and>
    the (xFileControl W) op (arg, Some s) = forwarded_with s (call_method (xFileControl M) (\<lambda>f. f op)) (arg, p) \<and>
    the (xSectorSize W) (Some s) = forwarded s (case xSectorSize M of None \<Rightarrow> return_with 4096 | Some f \<Rightarrow> f) p \<and>
    the (xDeviceCharacteristics W) (Some s) = forwarded s (call_method (xDeviceCharacteristics M) id) p \<and>
    the (xShmMap W) pg n w (mem, Some s) = forwarded_with s (call_method (xShmMap M) (\<lambda>f. f pg n (of_bool (w \<noteq> 0)))) (mem, p) \<and>
    the (xShmLock W) i n fl (Some s) = forwarded s (call_method (xShmLock M) (\<lambda>f. f i n fl)) p \<and>
    the (xShmBarrier W) (Some s) = forwarded s (call_method (xShmBarrier M) id) p \<and>
    the (xShmUnmap W) d (Some s) = forwarded s (call_method (xShmUnmap M) (\<lambda>f. f d)) p \<and>
    the (xFetch W) off n (mem, Some s) = forwarded_with s (call_method (xFetch M) (\<lambda>f. f off n)) (mem, p) \<and>
    the (xUnfetch W) off mem (Some s) = forwarded s (call_method (xUnfetch M) (\<lambda>f. f off mem)) p"
proof -
  have rw: "file_read (SQLite3_file_wrapper M) (int (length buf)) off (buf, Some s) =
      forwarded_with s (xRead M (int (length buf)) off) (buf, p)"
    using forward_read [OF p M len(1)] by (simp add: forwarded_with_def)
  show ?thesis
    unfolding Let_def File_methods_def io_methods.simps option.sel
    by (intro conjI rw forward_close [OF p M] forward_write [OF p M len(2)] forward_sync [OF p M] forward_file_size [OF p M]
        forward_lock [OF p M] forward_reserved [OF p M] forward_sector_size [OF p M] forward_calls [OF p M])
qed


definition demo_wrapped :: "MemFile sqlite3_file_wrapper" where
  "demo_wrapped = \<lparr>fw_name = None, fw_format = main_db, fw_parent = Some demo_file\<rparr>"

theorem wrapped_file_transparent_witness:
  "xRead (File_methods (SQLite3_file_wrapper (memdb_io_methods realloc_zero (\<lambda>_. [])))) 2 0 ([1, 2], Some demo_wrapped) =
     (Inr SQLITE_IOERR_SHORT_READ, [0, 0], Some demo_wrapped) \<and>
   the (xLock (File_methods (SQLite3_file_wrapper (memdb_io_methods realloc_zero (\<lambda>_. []))))) 7 (Some demo_wrapped) =
     (Inr SQLITE_MISUSE, Some demo_wrapped) \<and>
   the (xSectorSize (File_methods (SQLite3_file_wrapper (memdb_io_methods realloc_zero (\<lambda>_. []))))) (Some demo_wrapped) =
     (Inr 4096, Some demo_wrapped)"
proof -
  let ?M = "memdb_io_methods realloc_zero (\<lambda>_. [])"
  have parent: "fw_parent demo_wrapped = Some demo_file" and sector: "xSectorSize ?M = None"
    by (simp_all add: demo_wrapped_def memdb_io_methods_def)
  have len: "length ([1, 2] :: byte list) < 2 ^ 31" by simp
  have same: "demo_wrapped\<lparr>fw_parent := Some demo_file\<rparr> = demo_wrapped" by (simp add: demo_wrapped_def)
  have "xRead ?M (int (length ([1, 2] :: byte list))) 0 ([1, 2], demo_file) = (Inr SQLITE_IOERR_SHORT_READ, [0, 0], demo_file)"
    by (simp add: memdb_io_methods_def on_store_with_def memdbRead_def demo_file_def new_store_def i64_def
        overwrite_def numeral_2_eq_2)
  then have "forwarded_with demo_wrapped (xRead ?M (int (length ([1, 2] :: byte list))) 0) ([1, 2], demo_file) =
      (Inr SQLITE_IOERR_SHORT_READ, [0, 0], Some demo_wrapped)"
    by (simp add: forwarded_with_def same del: memdb_simps)
  moreover have "forwarded demo_wrapped (return_with 4096) demo_file = (Inr 4096, Some demo_wrapped)"
    by (simp add: forwarded_def same)
  ultimately show ?thesis
    using wrapped_file_transparent [OF parent c_methods_memdb len len, where off = 0 and l = 7, of realloc_zero "\<lambda>_. []"]
    by (simp add: Let_def sector del: memdb_simps)
qed

end
