(* ===== verification/Ys_Vfs_Registry.thy ===== *)
theory Ys_Vfs_Registry
  imports Ys_Io
begin

text \<open>
  The list of registered VFS implementations: \<^verbatim>\<open>sqlite3_vfs_find\<close>, \<^verbatim>\<open>vfsUnlink\<close>,
  \<^verbatim>\<open>sqlite3_vfs_register\<close> and \<^verbatim>\<open>sqlite3_vfs_unregister\<close> of \<^verbatim>\<open>sqlite3.c\<close>, a linked list through the
  \<^verbatim>\<open>pNext\<close> fields of objects the application owns, and \<^verbatim>\<open>register_vfs\<close>, \<^verbatim>\<open>unregister_vfs\<close> and
  \<^verbatim>\<open>find_vfs\<close> of \<^verbatim>\<open>vfs/vfs.hpp\<close> on top of it. The C++ functions are proved over the interface
  \<open>vfs_registry\<close>, which the linked list provides.
\<close>

section \<open>The linked list\<close>

text \<open>The two fields of \<^verbatim>\<open>sqlite3_vfs\<close> the list uses, and the global variable \<^verbatim>\<open>vfsList\<close>.\<close>

record vfs_node =
  v_zName :: string
  v_pNext :: "nat option"

record vfs_globals =
  vg_vfsList :: "nat option"
  vg_heap :: "nat \<Rightarrow> vfs_node option"

text \<open>
  The loop of the search. On a list with a cycle it may not end, so its value is an option of
  the outcome.
\<close>

partial_function (option) vfs_find_loop ::
  "(nat \<Rightarrow> vfs_node option) \<Rightarrow> string option \<Rightarrow> nat option \<Rightarrow> (fault + nat option) option" where
  "vfs_find_loop heap zVfs pVfs =
     (case pVfs of
        None \<Rightarrow> Some (Inr None)
      | Some a \<Rightarrow>
          (case heap a of
             None \<Rightarrow> Some (Inl Undefined)
           | Some node \<Rightarrow>
               if zVfs = None then Some (Inr pVfs)
               else if zVfs = Some (v_zName node) then Some (Inr pVfs)
               else vfs_find_loop heap zVfs (v_pNext node)))"

text \<open>\<open>rc\<close> is what \<^verbatim>\<open>sqlite3_initialize\<close> returns.\<close>

definition sqlite3_vfs_find :: "int \<Rightarrow> string option \<Rightarrow> vfs_globals \<Rightarrow> (fault + nat option) option" where
  "sqlite3_vfs_find rc zVfs g =
     (if rc \<noteq> 0 then Some (Inr None) else vfs_find_loop (vg_heap g) zVfs (vg_vfsList g))"

text \<open>The walk to the element whose \<^verbatim>\<open>pNext\<close> is \<^verbatim>\<open>pVfs\<close>, or the last one.\<close>

partial_function (option) vfs_before ::
  "(nat \<Rightarrow> vfs_node option) \<Rightarrow> nat \<Rightarrow> nat \<Rightarrow> (fault + nat) option" where
  "vfs_before heap pVfs p =
     (case heap p of
        None \<Rightarrow> Some (Inl Undefined)
      | Some node \<Rightarrow>
          (case v_pNext node of
             None \<Rightarrow> Some (Inr p)
           | Some q \<Rightarrow> if q = pVfs then Some (Inr p) else vfs_before heap pVfs q))"

definition set_pNext :: "nat \<Rightarrow> nat option \<Rightarrow> vfs_globals \<Rightarrow> fault + vfs_globals" where
  "set_pNext a q g =
     (case vg_heap g a of
        None \<Rightarrow> Inl Undefined
      | Some node \<Rightarrow> Inr (g\<lparr>vg_heap := (vg_heap g)(a := Some (node\<lparr>v_pNext := q\<rparr>))\<rparr>))"

definition vfsUnlink :: "nat option \<Rightarrow> vfs_globals \<Rightarrow> (fault + vfs_globals) option" where
  "vfsUnlink pVfs g =
     (case pVfs of
        None \<Rightarrow> Some (Inr g)
      | Some a \<Rightarrow>
          if vg_vfsList g = Some a then
            (case vg_heap g a of
               None \<Rightarrow> Some (Inl Undefined)
             | Some node \<Rightarrow> Some (Inr (g\<lparr>vg_vfsList := v_pNext node\<rparr>)))
          else
            (case vg_vfsList g of
               None \<Rightarrow> Some (Inr g)
             | Some first \<Rightarrow>
                 (case vfs_before (vg_heap g) a first of
                    None \<Rightarrow> None
                  | Some (Inl e) \<Rightarrow> Some (Inl e)
                  | Some (Inr p) \<Rightarrow>
                      (case vg_heap g p of
                         None \<Rightarrow> Some (Inl Undefined)
                       | Some node \<Rightarrow>
                           if v_pNext node = Some a then
                             (case vg_heap g a of
                                None \<Rightarrow> Some (Inl Undefined)
                              | Some victim \<Rightarrow> Some (set_pNext p (v_pNext victim) g))
                           else Some (Inr g)))))"

definition sqlite3_vfs_register :: "int \<Rightarrow> nat \<Rightarrow> bool \<Rightarrow> vfs_globals \<Rightarrow> (fault + int \<times> vfs_globals) option" where
  "sqlite3_vfs_register rc pVfs makeDflt g =
     (if rc \<noteq> 0 then Some (Inr (rc, g))
      else case vfsUnlink (Some pVfs) g of
        None \<Rightarrow> None
      | Some (Inl e) \<Rightarrow> Some (Inl e)
      | Some (Inr g) \<Rightarrow>
          (case vg_vfsList g of
             Some first \<Rightarrow>
               if makeDflt then
                 Some (map_sum id (\<lambda>g. (SQLITE_OK, g\<lparr>vg_vfsList := Some pVfs\<rparr>)) (set_pNext pVfs (vg_vfsList g) g))
               else
                 (case vg_heap g first of
                    None \<Rightarrow> Some (Inl Undefined)
                  | Some node \<Rightarrow>
                      (case set_pNext pVfs (v_pNext node) g of
                         Inl e \<Rightarrow> Some (Inl e)
                       | Inr g \<Rightarrow> Some (map_sum id (Pair SQLITE_OK) (set_pNext first (Some pVfs) g))))
           | None \<Rightarrow>
               Some (map_sum id (\<lambda>g. (SQLITE_OK, g\<lparr>vg_vfsList := Some pVfs\<rparr>)) (set_pNext pVfs None g))))"

definition sqlite3_vfs_unregister :: "int \<Rightarrow> nat \<Rightarrow> vfs_globals \<Rightarrow> (fault + int \<times> vfs_globals) option" where
  "sqlite3_vfs_unregister rc pVfs g =
     (if rc \<noteq> 0 then Some (Inr (rc, g))
      else case vfsUnlink (Some pVfs) g of
        None \<Rightarrow> None
      | Some r \<Rightarrow> Some (map_sum id (Pair SQLITE_OK) r))"

section \<open>The list it stands for\<close>

fun vfs_chain :: "(nat \<Rightarrow> vfs_node option) \<Rightarrow> nat option \<Rightarrow> nat list \<Rightarrow> bool" where
  "vfs_chain heap p [] \<longleftrightarrow> p = None"
| "vfs_chain heap p (a # as) \<longleftrightarrow>
     p = Some a \<and> (case heap a of None \<Rightarrow> False | Some node \<Rightarrow> vfs_chain heap (v_pNext node) as)"

definition vfs_list :: "vfs_globals \<Rightarrow> nat list \<Rightarrow> bool" where
  "vfs_list g as \<longleftrightarrow> vfs_chain (vg_heap g) (vg_vfsList g) as \<and> distinct as"

definition vfs_names :: "vfs_globals \<Rightarrow> nat \<Rightarrow> string option" where
  "vfs_names g a = map_option v_zName (vg_heap g a)"

text \<open>The abstract operations: search, insertion first or second, removal.\<close>

definition list_find :: "(nat \<Rightarrow> string option) \<Rightarrow> string option \<Rightarrow> nat list \<Rightarrow> nat option" where
  "list_find names z as = (case z of None \<Rightarrow> (if as = [] then None else Some (hd as))
     | Some n \<Rightarrow> find (\<lambda>a. names a = Some n) as)"

definition list_register :: "nat \<Rightarrow> bool \<Rightarrow> nat list \<Rightarrow> nat list" where
  "list_register a dflt as =
     (case remove1 a as of [] \<Rightarrow> [a] | b # bs \<Rightarrow> if dflt then a # b # bs else b # a # bs)"

lemma vfs_chain_fun: "vfs_chain heap p as \<Longrightarrow> vfs_chain heap p bs \<Longrightarrow> as = bs"
proof (induction as arbitrary: p bs)
  case Nil
  then show ?case by (cases bs) auto
next
  case (Cons a as)
  then show ?case by (cases bs) (auto split: option.splits)
qed

lemma vfs_chain_cong:
  "vfs_chain heap p as \<Longrightarrow> \<forall>a\<in>set as. heap' a = heap a \<Longrightarrow> vfs_chain heap' p as"
  by (induction as arbitrary: p) (auto split: option.splits)

lemma vfs_find_loop_chain:
  "vfs_chain heap p as \<Longrightarrow>
   vfs_find_loop heap z p = Some (Inr (list_find (\<lambda>a. map_option v_zName (heap a)) z as))"
proof (induction as arbitrary: p)
  case Nil
  then show ?case by (subst vfs_find_loop.simps) (simp add: list_find_def split: option.splits)
next
  case (Cons a as)
  then obtain node where n: "p = Some a" "heap a = Some node" "vfs_chain heap (v_pNext node) as"
    by (auto split: option.splits)
  with Cons.IH [OF n(3)] show ?case
    by (subst vfs_find_loop.simps) (auto simp: list_find_def split: option.splits)
qed


lemma vfs_chain_unlink:
  "vfs_chain heap p (xs @ q # a # ys) \<Longrightarrow> distinct (xs @ q # a # ys) \<Longrightarrow>
   heap q = Some nq \<Longrightarrow> heap a = Some na \<Longrightarrow>
   vfs_chain (heap(q := Some (nq\<lparr>v_pNext := v_pNext na\<rparr>))) p (xs @ q # ys)"
proof (induction xs arbitrary: p)
  case Nil
  then have "vfs_chain heap (v_pNext na) ys" by simp
  then have "vfs_chain (heap(q := Some (nq\<lparr>v_pNext := v_pNext na\<rparr>))) (v_pNext na) ys"
    by (rule vfs_chain_cong) (use Nil in auto)
  with Nil show ?case by (simp del: fun_upd_apply add: fun_upd_same)
next
  case (Cons x xs)
  then show ?case by (auto split: option.splits)
qed

lemma vfs_chain_insert_second:
  "vfs_chain heap p (b # bs) \<Longrightarrow> distinct (b # bs) \<Longrightarrow> a \<notin> set (b # bs) \<Longrightarrow> heap a = Some na \<Longrightarrow>
   heap b = Some nb \<Longrightarrow>
   vfs_chain (heap(a := Some (na\<lparr>v_pNext := v_pNext nb\<rparr>), b := Some (nb\<lparr>v_pNext := Some a\<rparr>))) p (b # a # bs)"
  by (auto intro!: vfs_chain_cong [of heap _ bs])

lemma vfs_chain_insert_first:
  "vfs_chain heap p bs \<Longrightarrow> a \<notin> set bs \<Longrightarrow>
   vfs_chain (heap(a := Some (na\<lparr>v_pNext := p\<rparr>))) (Some a) (a # bs)"
  by (auto intro!: vfs_chain_cong [of heap _ bs])

lemma vfs_before_chain:
  "vfs_chain heap (Some b) (b # bs) \<Longrightarrow> distinct (b # bs) \<Longrightarrow> a \<noteq> b \<Longrightarrow>
   \<exists>p n. vfs_before heap a b = Some (Inr p) \<and> heap p = Some n \<and>
     (if a \<in> set bs then v_pNext n = Some a \<and> (\<exists>xs ys. b # bs = xs @ p # a # ys)
      else v_pNext n = None)"
proof (induction bs arbitrary: b)
  case Nil
  then show ?case by (subst vfs_before.simps) (auto split: option.splits)
next
  case (Cons c bs)
  from Cons.prems(1) obtain nb where nb: "heap b = Some nb" "v_pNext nb = Some c" "vfs_chain heap (Some c) (c # bs)"
    by (auto split: option.splits)
  show ?case
  proof (cases "c = a")
    case True
    have "b # c # bs = [] @ b # a # bs" using True by simp
    then have "\<exists>xs ys. b # c # bs = xs @ b # a # ys" by blast
    moreover have "vfs_before heap a b = Some (Inr b)"
      using nb True by (subst vfs_before.simps) simp
    ultimately show ?thesis using nb True by auto
  next
    case False
    from Cons.IH [OF nb(3)] Cons.prems(2) False obtain p n where
      pn: "vfs_before heap a c = Some (Inr p)" "heap p = Some n"
        "if a \<in> set bs then v_pNext n = Some a \<and> (\<exists>xs ys. c # bs = xs @ p # a # ys) else v_pNext n = None"
      by (auto simp del: vfs_chain.simps)
    have "vfs_before heap a b = vfs_before heap a c"
      using nb False by (subst vfs_before.simps) simp
    moreover have "\<exists>xs ys. b # c # bs = xs @ p # a # ys" if "\<exists>xs ys. c # bs = xs @ p # a # ys"
      using that by (metis append_Cons)
    ultimately show ?thesis using pn False by (auto split: if_splits)
  qed
qed

lemma remove1_middle: "distinct (xs @ q # a # ys) \<Longrightarrow> remove1 a (xs @ q # a # ys) = xs @ q # ys"
  by (auto simp: remove1_append)

lemma vfsUnlink_list:
  assumes "vfs_list g as"
  shows "\<exists>g'. vfsUnlink (Some a) g = Some (Inr g') \<and> vfs_list g' (remove1 a as) \<and> vfs_names g' = vfs_names g"
proof (cases as)
  case Nil
  with assms show ?thesis by (auto simp: vfsUnlink_def vfs_list_def)
next
  case (Cons b bs)
  with assms have c: "vg_vfsList g = Some b" "vfs_chain (vg_heap g) (Some b) (b # bs)" "distinct (b # bs)"
    by (auto simp: vfs_list_def)
  show ?thesis
  proof (cases "a = b")
    case True
    with c Cons show ?thesis
      by (auto simp: vfsUnlink_def vfs_list_def vfs_names_def split: option.splits)
  next
    case False
    from vfs_before_chain [OF c(2,3) False] obtain p n where
      p: "vfs_before (vg_heap g) a b = Some (Inr p)" "vg_heap g p = Some n"
        "if a \<in> set bs then v_pNext n = Some a \<and> (\<exists>xs ys. b # bs = xs @ p # a # ys) else v_pNext n = None"
      by blast
    show ?thesis
    proof (cases "a \<in> set bs")
      case False
      with p \<open>a \<noteq> b\<close> c assms Cons show ?thesis
        by (auto simp: vfsUnlink_def remove1_idem)
    next
      case True
      with p obtain xs ys where xs: "b # bs = xs @ p # a # ys" "v_pNext n = Some a" by auto
      have "\<exists>na. vg_heap g a = Some na"
        using c(2) unfolding xs(1)
      proof -
        have "vfs_chain h q (us @ a # vs) \<Longrightarrow> \<exists>na. h a = Some na" for h q us vs
          by (induction us arbitrary: q) (auto split: option.splits)
        then show "vfs_chain (vg_heap g) (Some b) (xs @ p # a # ys) \<Longrightarrow> \<exists>na. vg_heap g a = Some na"
          by (metis append.assoc append_Cons append_Nil)
      qed
      then obtain na where na: "vg_heap g a = Some na" ..
      let ?g = "g\<lparr>vg_heap := (vg_heap g)(p := Some (n\<lparr>v_pNext := v_pNext na\<rparr>))\<rparr>"
      have "vfsUnlink (Some a) g = Some (Inr ?g)"
        using c(1) \<open>a \<noteq> b\<close> p xs(2) na by (simp add: vfsUnlink_def set_pNext_def)
      moreover have "vfs_list ?g (remove1 a as)"
        using vfs_chain_unlink [of "vg_heap g" "Some b" xs p a ys, OF _ _ p(2) na] c xs(1) Cons
        by (simp add: vfs_list_def remove1_middle del: vfs_chain.simps) 
      moreover have "vfs_names ?g = vfs_names g"
        using p(2) by (auto simp: vfs_names_def fun_eq_iff)
      ultimately show ?thesis by blast
    qed
  qed
qed

lemma vfs_names_upd:
  "vg_heap g a = Some na \<Longrightarrow>
   vfs_names (g\<lparr>vg_heap := (vg_heap g)(a := Some (na\<lparr>v_pNext := q\<rparr>))\<rparr>) = vfs_names g"
  "vfs_names (g\<lparr>vg_vfsList := p\<rparr>) = vfs_names g"
  by (auto simp: vfs_names_def fun_eq_iff)

lemma sqlite3_vfs_register_list:
  assumes "vfs_list g as" "vfs_names g a \<noteq> None"
  shows "\<exists>g'. sqlite3_vfs_register 0 a dflt g = Some (Inr (SQLITE_OK, g')) \<and>
    vfs_list g' (list_register a dflt as) \<and> vfs_names g' = vfs_names g"
proof -
  from vfsUnlink_list [OF assms(1), of a] obtain g1 where
    g1: "vfsUnlink (Some a) g = Some (Inr g1)" "vfs_list g1 (remove1 a as)" "vfs_names g1 = vfs_names g"
    by blast
  then have "vfs_names g1 a \<noteq> None" using assms(2) by simp
  then obtain na where na: "vg_heap g1 a = Some na" by (auto simp: vfs_names_def)
  have fresh: "a \<notin> set (remove1 a as)" using assms(1) by (simp add: vfs_list_def)
  show ?thesis
  proof (cases "remove1 a as")
    case Nil
    with g1(2) have "vg_vfsList g1 = None" by (simp add: vfs_list_def)
    with Nil g1 na show ?thesis
      by (simp add: sqlite3_vfs_register_def set_pNext_def list_register_def vfs_list_def vfs_names_upd)
  next
    case (Cons b bs)
    with g1(2) have c: "vg_vfsList g1 = Some b" "vfs_chain (vg_heap g1) (Some b) (b # bs)" "distinct (b # bs)"
      by (auto simp: vfs_list_def)
    then obtain nb where nb: "vg_heap g1 b = Some nb" by (auto split: option.splits)
    have ab: "a \<notin> set (b # bs)" using fresh Cons by simp
    show ?thesis
    proof (cases dflt)
      case True
      with Cons g1 na c ab vfs_chain_insert_first [OF c(2) ab, of na] show ?thesis
        by (auto simp: sqlite3_vfs_register_def set_pNext_def list_register_def vfs_list_def vfs_names_upd
            simp del: vfs_chain.simps)
    next
      case False
      let ?h = "(vg_heap g1)(a := Some (na\<lparr>v_pNext := v_pNext nb\<rparr>))"
      have b: "vg_heap (g1\<lparr>vg_heap := ?h\<rparr>) b = Some nb" using ab nb by simp
      have "vfs_names (g1\<lparr>vg_heap := ?h(b := Some (nb\<lparr>v_pNext := Some a\<rparr>))\<rparr>) = vfs_names g"
        using vfs_names_upd(1) [OF b, of "Some a"] vfs_names_upd(1) [OF na] g1(3) by simp
      with False Cons g1 na nb c ab vfs_chain_insert_second [OF c(2,3) ab na nb] show ?thesis
        by (simp add: sqlite3_vfs_register_def set_pNext_def list_register_def vfs_list_def del: vfs_chain.simps)
    qed
  qed
qed

lemma sqlite3_vfs_find_list:
  "vfs_list g as \<Longrightarrow> sqlite3_vfs_find 0 z g = Some (Inr (list_find (vfs_names g) z as))"
  unfolding vfs_list_def sqlite3_vfs_find_def vfs_names_def by (simp add: vfs_find_loop_chain)

lemma sqlite3_vfs_unregister_list:
  "vfs_list g as \<Longrightarrow> \<exists>g'. sqlite3_vfs_unregister 0 a g = Some (Inr (SQLITE_OK, g')) \<and>
    vfs_list g' (remove1 a as) \<and> vfs_names g' = vfs_names g"
  using vfsUnlink_list [of g as a] by (auto simp: sqlite3_vfs_unregister_def)

section \<open>Registering a VFS object\<close>

text \<open>
  What the C++ functions see: the registry, which objects hold a reference to themselves in
  \<^verbatim>\<open>_registered\<close>, and the \<^verbatim>\<open>mxPathname\<close> they have put in their handle. An object is named by the
  address of its handle.
\<close>

record 'g vfs_world =
  vw_registry :: 'g
  vw_registered :: "nat \<Rightarrow> bool"
  vw_mxPathname :: "nat \<Rightarrow> int"

definition register_vfs ::
  "(nat \<Rightarrow> bool \<Rightarrow> 'g \<Rightarrow> (fault + int \<times> 'g) option) \<Rightarrow> (nat \<Rightarrow> int) \<Rightarrow> nat option \<Rightarrow> bool \<Rightarrow>
   'g vfs_world \<Rightarrow> ((fault + unit) \<times> 'g vfs_world) option" where
  "register_vfs register_op max_pathname vfs make_default w =
     (case vfs of
        None \<Rightarrow> Some (throw_error Bad_arguments w)
      | Some a \<Rightarrow>
          if vw_registered w a then Some (throw_error Vfs_already_registered w)
          else
            let w = w\<lparr>vw_mxPathname := (vw_mxPathname w)(a := max_pathname a)\<rparr> in
            (case register_op a make_default (vw_registry w) of
               None \<Rightarrow> None
             | Some (Inl e) \<Rightarrow> Some (Inl e, w)
             | Some (Inr (ec, g)) \<Rightarrow>
                 if ec \<noteq> 0 then Some (throw_sqlite3 ec (w\<lparr>vw_registry := g\<rparr>))
                 else Some (Inr (), w\<lparr>vw_registry := g, vw_registered := (vw_registered w)(a := True)\<rparr>)))"

definition unregister_vfs ::
  "(nat \<Rightarrow> 'g \<Rightarrow> (fault + int \<times> 'g) option) \<Rightarrow> nat \<Rightarrow> 'g vfs_world \<Rightarrow> ((fault + unit) \<times> 'g vfs_world) option" where
  "unregister_vfs unregister_op vfs w =
     (case unregister_op vfs (vw_registry w) of
        None \<Rightarrow> None
      | Some (Inl e) \<Rightarrow> Some (Inl e, w)
      | Some (Inr (ec, g)) \<Rightarrow>
          if ec \<noteq> 0 then Some (throw_sqlite3 ec (w\<lparr>vw_registry := g\<rparr>))
          else Some (Inr (), w\<lparr>vw_registry := g\<rparr>))"

definition find_vfs ::
  "(string option \<Rightarrow> 'g \<Rightarrow> (fault + nat option) option) \<Rightarrow> string option \<Rightarrow> 'g vfs_world \<Rightarrow> (fault + nat option) option" where
  "find_vfs find_op name w = find_op name (vw_registry w)"

definition is_registered :: "nat \<Rightarrow> 'g vfs_world \<Rightarrow> bool" where
  "is_registered vfs w = vw_registered w vfs"

lemma list_find_in: "list_find names z as = Some a \<Longrightarrow> a \<in> set as"
  by (cases z; cases as) (auto simp: list_find_def find_Some_iff split: if_splits)

text \<open>The interface the C++ layer relies on.\<close>

locale vfs_registry =
  fixes find_op :: "string option \<Rightarrow> 'g \<Rightarrow> (fault + nat option) option"
    and register_op :: "nat \<Rightarrow> bool \<Rightarrow> 'g \<Rightarrow> (fault + int \<times> 'g) option"
    and unregister_op :: "nat \<Rightarrow> 'g \<Rightarrow> (fault + int \<times> 'g) option"
    and listed :: "'g \<Rightarrow> nat list \<Rightarrow> bool"
    and names :: "'g \<Rightarrow> nat \<Rightarrow> string option"
  assumes finds: "listed g as \<Longrightarrow> find_op z g = Some (Inr (list_find (names g) z as))"
    and registers: "listed g as \<Longrightarrow> names g a \<noteq> None \<Longrightarrow>
      \<exists>g'. register_op a d g = Some (Inr (SQLITE_OK, g')) \<and> listed g' (list_register a d as) \<and> names g' = names g"
    and unregisters: "listed g as \<Longrightarrow>
      \<exists>g'. unregister_op a g = Some (Inr (SQLITE_OK, g')) \<and> listed g' (remove1 a as) \<and> names g' = names g"
    and listed_distinct: "listed g as \<Longrightarrow> distinct as"
begin

lemma register_ok:
  assumes "listed (vw_registry w) as" "names (vw_registry w) a \<noteq> None" "\<not> is_registered a w"
  shows "\<exists>w'. register_vfs register_op mx (Some a) d w = Some (Inr (), w') \<and>
    listed (vw_registry w') (list_register a d as) \<and> names (vw_registry w') = names (vw_registry w) \<and>
    is_registered a w' \<and> vw_mxPathname w' a = mx a"
  using registers [OF assms(1,2), of d] assms(3)
  by (auto simp: register_vfs_def is_registered_def SQLITE_OK_def Let_def)

lemma register_default_found:
  assumes "listed (vw_registry w) as" "names (vw_registry w) a = Some n" "\<not> is_registered a w"
  shows "\<exists>w'. register_vfs register_op mx (Some a) True w = Some (Inr (), w') \<and> is_registered a w' \<and>
    find_vfs find_op None w' = Some (Inr (Some a)) \<and> find_vfs find_op (Some n) w' = Some (Inr (Some a))"
proof -
  from register_ok [OF assms(1) _ assms(3), where mx = mx and d = True] assms(2) obtain w' where
    w: "register_vfs register_op mx (Some a) True w = Some (Inr (), w')" "listed (vw_registry w') (list_register a True as)"
      "names (vw_registry w') a = Some n" "is_registered a w'"
    by auto
  have "\<exists>bs. list_register a True as = a # bs" by (auto simp: list_register_def split: list.splits)
  with w finds [OF w(2)] show ?thesis by (auto simp: find_vfs_def list_find_def)
qed

lemma unregister_gone:
  assumes "listed (vw_registry w) as"
  shows "\<exists>w'. unregister_vfs unregister_op a w = Some (Inr (), w') \<and> listed (vw_registry w') (remove1 a as) \<and>
    vw_registered w' = vw_registered w \<and> (\<forall>z. find_vfs find_op z w' \<noteq> Some (Inr (Some a)))"
proof -
  from unregisters [OF assms, of a] obtain g where
    g: "unregister_op a (vw_registry w) = Some (Inr (SQLITE_OK, g))" "listed g (remove1 a as)" by blast
  have "a \<notin> set (remove1 a as)" using listed_distinct [OF assms] by simp
  then have "list_find (names g) z (remove1 a as) \<noteq> Some a" for z
    using list_find_in by metis
  with g finds [OF g(2)] show ?thesis
    by (auto simp: unregister_vfs_def find_vfs_def SQLITE_OK_def)
qed

end

interpretation vfslist: vfs_registry "sqlite3_vfs_find 0" "sqlite3_vfs_register 0" "sqlite3_vfs_unregister 0"
  vfs_list vfs_names
proof unfold_locales
  show "vfs_list g as \<Longrightarrow> distinct as" for g as by (simp add: vfs_list_def)
qed (use sqlite3_vfs_find_list sqlite3_vfs_register_list sqlite3_vfs_unregister_list in blast)+

section \<open>Properties\<close>

text \<open>
  C29: the linked list of VFS implementations refines a list of distinct objects. Registering
  moves an object to the front, or to the second place when it is not to be the default;
  unregistering removes it; the search returns the first object, or the first one with the
  name. Every operation returns, so the loops end and never follow a pointer out of the list.
\<close>

theorem vfs_list_refines:
  assumes "vfs_list g as" and "vfs_names g a \<noteq> None"
  shows "sqlite3_vfs_find 0 z g = Some (Inr (list_find (vfs_names g) z as)) \<and>
    (\<exists>g'. sqlite3_vfs_register 0 a dflt g = Some (Inr (SQLITE_OK, g')) \<and>
       vfs_list g' (list_register a dflt as) \<and> vfs_names g' = vfs_names g) \<and>
    (\<exists>g'. sqlite3_vfs_unregister 0 a g = Some (Inr (SQLITE_OK, g')) \<and>
       vfs_list g' (remove1 a as) \<and> vfs_names g' = vfs_names g)"
  using vfslist.finds [OF assms(1)] vfslist.registers [OF assms, of dflt] vfslist.unregisters [OF assms(1)]
  by blast

definition demo_registry :: vfs_globals where
  "demo_registry = \<lparr>vg_vfsList = Some 1,
     vg_heap = [1 \<mapsto> \<lparr>v_zName = ''unix'', v_pNext = Some 2\<rparr>, 2 \<mapsto> \<lparr>v_zName = ''memdb'', v_pNext = None\<rparr>,
       3 \<mapsto> \<lparr>v_zName = ''crypt'', v_pNext = None\<rparr>]\<rparr>"

lemma demo_registry_list: "vfs_list demo_registry [1, 2]"
  by (simp add: vfs_list_def demo_registry_def)

theorem vfs_list_refines_witness:
  "sqlite3_vfs_find 0 (Some ''memdb'') demo_registry = Some (Inr (Some 2)) \<and>
   (\<exists>g'. sqlite3_vfs_register 0 3 False demo_registry = Some (Inr (SQLITE_OK, g')) \<and> vfs_list g' [1, 3, 2])"
proof -
  have n: "vfs_names demo_registry 3 \<noteq> None" by (simp add: vfs_names_def demo_registry_def)
  from vfs_list_refines [OF demo_registry_list n, of "Some ''memdb''" False] show ?thesis
    by (auto simp: list_find_def list_register_def vfs_names_def demo_registry_def)
qed

text \<open>
  C30: a VFS that has been unregistered can never be registered again. Registering it as the
  default makes it what \<^verbatim>\<open>find_vfs\<close> returns, by name and without one, and unregistering makes
  every search miss it; but \<^verbatim>\<open>unregister_vfs\<close> leaves \<^verbatim>\<open>_registered\<close> set, so the object keeps itself
  alive and registering it a second time throws \<^verbatim>\<open>Error::vfs_already_registered\<close>, with the object
  still not in the list.
\<close>

theorem unregistered_vfs_stays_out:
  assumes "vfs_list (vw_registry w) as" and "vfs_names (vw_registry w) a = Some n" and "\<not> is_registered a w"
  shows "\<exists>w1 w2. register_vfs (sqlite3_vfs_register 0) mx (Some a) True w = Some (Inr (), w1) \<and>
    find_vfs (sqlite3_vfs_find 0) None w1 = Some (Inr (Some a)) \<and>
    find_vfs (sqlite3_vfs_find 0) (Some n) w1 = Some (Inr (Some a)) \<and>
    unregister_vfs (sqlite3_vfs_unregister 0) a w1 = Some (Inr (), w2) \<and>
    (\<forall>z. find_vfs (sqlite3_vfs_find 0) z w2 \<noteq> Some (Inr (Some a))) \<and>
    register_vfs (sqlite3_vfs_register 0) mx (Some a) d w2 = Some (throw_error Vfs_already_registered w2)"
proof -
  from vfslist.register_default_found [OF assms, where mx = mx] vfslist.register_ok [OF assms(1) _ assms(3), where mx = mx and d = True] assms(2)
  obtain w1 where w1: "register_vfs (sqlite3_vfs_register 0) mx (Some a) True w = Some (Inr (), w1)" "is_registered a w1"
      "find_vfs (sqlite3_vfs_find 0) None w1 = Some (Inr (Some a))" "find_vfs (sqlite3_vfs_find 0) (Some n) w1 = Some (Inr (Some a))"
      "vfs_list (vw_registry w1) (list_register a True as)"
    by auto
  from vfslist.unregister_gone [OF w1(5), of a] obtain w2 where
    w2: "unregister_vfs (sqlite3_vfs_unregister 0) a w1 = Some (Inr (), w2)" "vw_registered w2 = vw_registered w1"
      "\<forall>z. find_vfs (sqlite3_vfs_find 0) z w2 \<noteq> Some (Inr (Some a))"
    by blast
  with w1 show ?thesis by (auto simp: register_vfs_def is_registered_def)
qed

theorem unregistered_vfs_stays_out_witness:
  "\<exists>w1 w2. register_vfs (sqlite3_vfs_register 0) (\<lambda>_. 512) (Some 3) True
      \<lparr>vw_registry = demo_registry, vw_registered = (\<lambda>_. False), vw_mxPathname = (\<lambda>_. 0)\<rparr> = Some (Inr (), w1) \<and>
    find_vfs (sqlite3_vfs_find 0) None w1 = Some (Inr (Some 3)) \<and>
    find_vfs (sqlite3_vfs_find 0) (Some ''crypt'') w1 = Some (Inr (Some 3)) \<and>
    unregister_vfs (sqlite3_vfs_unregister 0) 3 w1 = Some (Inr (), w2) \<and>
    (\<forall>z. find_vfs (sqlite3_vfs_find 0) z w2 \<noteq> Some (Inr (Some 3))) \<and>
    register_vfs (sqlite3_vfs_register 0) (\<lambda>_. 512) (Some 3) True w2 = Some (throw_error Vfs_already_registered w2)"
  by (rule unregistered_vfs_stays_out [where as = "[1, 2]"])
    (use demo_registry_list in \<open>simp_all add: is_registered_def vfs_names_def demo_registry_def\<close>)

end
