(* ===== verification/Ys_Vfs.thy ===== *)
theory Ys_Vfs
  imports Ys_Vfs_Registry Ys_File_Wrapper
begin

text \<open>
  \<^verbatim>\<open>vfs/vfs.hpp\<close>, \<^verbatim>\<open>vfs/vfs.cpp\<close> and \<^verbatim>\<open>vfs/sqlite3_vfs_wrapper.hpp\<close>: the class \<^verbatim>\<open>VFS\<close> with its
  default members, the C callbacks SQLite calls, and the VFS that forwards to another one and
  opens its files as objects of a class derived from \<^verbatim>\<open>SQLite3_file_wrapper\<close>. A symbol or a
  system call is an address; names of files that are not opened are strings.
\<close>

section \<open>The class\<close>




section \<open>Default members\<close>



definition VFS_dlsym :: "nat \<Rightarrow> string \<Rightarrow> ('v, fault, nat option) action" where
  "VFS_dlsym handle symbol = return_with None"

definition VFS_dlclose :: "nat \<Rightarrow> ('v, fault, unit) action" where
  "VFS_dlclose handle = return_with ()"

text \<open>
  \<open>engine\<close> is a \<^verbatim>\<open>std::default_random_engine\<close> as its default constructor leaves it, \<open>draw\<close> what
  \<^verbatim>\<open>uniform_int_distribution\<close> over the bytes makes of one: a value and the advanced engine.
\<close>

fun random_fill :: "('g \<Rightarrow> int \<times> 'g) \<Rightarrow> 'g \<Rightarrow> byte list \<Rightarrow> byte list" where
  "random_fill draw engine [] = []"
| "random_fill draw engine (b # bs) =
     (case draw engine of (x, engine) \<Rightarrow> word_of_int x # random_fill draw engine bs)"

definition VFS_random :: "('g \<Rightarrow> int \<times> 'g) \<Rightarrow> 'g \<Rightarrow> (byte list \<times> 'v, fault, int) action" where
  "VFS_random draw engine = (\<lambda>(buffer, v).
     (Inr (int_of_size (of_nat (length buffer))), random_fill draw engine buffer, v))"


text \<open>
  The clock of the library counts \<open>tick\<close> units to the millisecond in 64 bits: a million with
  libstdc++, a thousand with libc++, ten thousand on Windows. The milliseconds are brought to its
  unit before they are added. Division by \<^verbatim>\<open>duration_cast\<close> truncates.
\<close>

definition VFS_current_time :: "int \<Rightarrow> int \<Rightarrow> ('v, fault, int64) action" where
  "VFS_current_time tick now = (
     let epoch = 210866760000000 * tick in
     if \<not> i64 epoch \<or> \<not> i64 (now + epoch) then throw Undefined
     else return_with (word_of_int (sgn (now + epoch) * (\<bar>now + epoch\<bar> div tick))))"

definition VFS_last_error :: "(string \<times> 'v, fault, int) action" where
  "VFS_last_error = (\<lambda>(buffer, v).
     (Inr 0, (if buffer \<noteq> [] then buffer[0 := NUL] else buffer), v))"

definition VFS_set_system_call :: "string option \<Rightarrow> nat option \<Rightarrow> ('v, fault, int) action" where
  "VFS_set_system_call name system_call = return_with SQLITE_OK"

definition VFS_get_system_call :: "string \<Rightarrow> ('v, fault, nat option) action" where
  "VFS_get_system_call name = return_with None"

definition VFS_next_system_call :: "string option \<Rightarrow> ('v, fault, string option) action" where
  "VFS_next_system_call name = return_with None"

section \<open>Callbacks\<close>



















section \<open>The handle\<close>




section \<open>Forwarding to another VFS\<close>








section \<open>Properties\<close>










text \<open>
  The default source of randomness is no source. Every call of \<^verbatim>\<open>VFS::random\<close> starts a new
  engine from its default seed, so the bytes do not depend on what was drawn before: two calls
  for the same number of bytes give the same bytes, and a call for fewer bytes gives a prefix.
\<close>

theorem default_random_repeats:
  assumes "VFS_random draw engine (buf @ rest, v) = (r, out, v')" and "VFS_random draw engine (buf', v') = (r', out', v'')"
    and "length buf' = length buf"
  shows "out' = take (length buf) out"
proof -
  have "random_fill draw engine c = take (length c) (random_fill draw engine (d @ rest))" if "length c = length d" for c d engine
    using that by (induction c d arbitrary: engine rule: list_induct2) (auto split: prod.splits)
  from this [OF assms(3)] assms show ?thesis by (auto simp: VFS_random_def)
qed

theorem default_random_repeats_witness:
  "VFS_random (\<lambda>n. (7 * n, n + 1)) 0 ([0, 0, 0], ()) = (Inr 3, [0, 7, 14], ()) \<and>
   (\<forall>r out v. VFS_random (\<lambda>n. (7 * n, n + 1)) 0 ([1, 1], ()) = (r, out, v) \<longrightarrow> out = take 2 [0, 7, 14])"
proof -
  have first: "VFS_random (\<lambda>n. (7 * n, n + 1)) 0 ([0, 0] @ [0], ()) = (Inr 3, [0, 7, 14], ())"
    using int_of_size_small [of 3] by (simp add: VFS_random_def)
  show ?thesis
    using first default_random_repeats [OF first, where buf' = "[1, 1]"] by auto
qed

text \<open>
  The default clock overflows with libstdc++. Where the library's clock counts nanoseconds the
  offset to the Julian epoch alone does not fit into its 64 bits and \<^verbatim>\<open>VFS::current_time\<close> has no
  defined behaviour at any time; where it counts microseconds the result is the time in
  milliseconds since that epoch, for every time in the first hundred thousand years of the clock.
\<close>

theorem default_clock_overflows:
  "VFS_current_time 1000000 now v = (Inl Undefined, v) \<and>
   (0 \<le> t \<and> t < 3155760000000000000 \<longrightarrow>
     VFS_current_time 1000 t v = (Inr (word_of_int (t div 1000 + 210866760000000)), v))"
proof -
  have "(t + 210866760000000000) div 1000 = t div 1000 + 210866760000000"
    using div_mult_self2 [of 1000 t 210866760000000] by simp

  then show ?thesis by (simp add: VFS_current_time_def i64_def Let_def sgn_if abs_if)
qed

theorem default_clock_overflows_witness:
  "VFS_current_time 1000 1000000 () = (Inr (word_of_int (1000 + 210866760000000)), ())"
  using default_clock_overflows [of 0 "()" 1000000] by simp

end
