(* ===== verification/Ys_Statement.thy ===== *)
theory Ys_Statement
  imports Ys_Io
begin

text \<open>
  \<^verbatim>\<open>statement.hpp\<close>, \<^verbatim>\<open>statement.cpp\<close>, \<^verbatim>\<open>results.hpp\<close> and \<^verbatim>\<open>results.cpp\<close>: prepared statements and
  the rows they return. The SQL engine is a parameter, the record \<open>sqlite_api\<close> of the functions
  of \<^verbatim>\<open>sqlite3.h\<close> that are called, over a state of the library; a connection or a statement is a
  handle, and a null pointer is \<^verbatim>\<open>None\<close>. \<open>api_create_function\<close> takes the handle, the name, the number of
  arguments, the flags, the user data and whether there is a destructor, and also returns how
  often it has called the destructor.
\<close>

section \<open>The engine\<close>

datatype lifetime = Static_memory | Transient_memory

datatype 'r bind_value =
    Bind_text "string option" int lifetime
  | Bind_blob "byte list" "64 word" lifetime
  | Bind_null
  | Bind_double 'r
  | Bind_int int
  | Bind_int64 int64
  | Bind_zeroblob int
  | Bind_zeroblob64 "64 word"

record ('e, 'r) sqlite_api =
  api_open_v2 :: "string \<Rightarrow> 32 word \<Rightarrow> string option \<Rightarrow> 'e \<Rightarrow> (int \<times> nat option) \<times> 'e"
  api_close :: "nat \<Rightarrow> 'e \<Rightarrow> int \<times> 'e"
  api_close_v2 :: "nat \<Rightarrow> 'e \<Rightarrow> int \<times> 'e"
  api_exec :: "nat \<Rightarrow> string \<Rightarrow> 'e \<Rightarrow> (int \<times> nat \<times> string option) \<times> 'e"
  api_reserve_bytes :: "nat \<Rightarrow> int \<Rightarrow> 'e \<Rightarrow> (int \<times> int) \<times> 'e"
  api_create_function :: "nat \<Rightarrow> string \<Rightarrow> int \<Rightarrow> int \<Rightarrow> nat option \<Rightarrow> bool \<Rightarrow> 'e \<Rightarrow> (int \<times> nat) \<times> 'e"
  api_last_insert_rowid :: "nat \<Rightarrow> 'e \<Rightarrow> int64"
  api_prepare_v2 :: "nat \<Rightarrow> string \<Rightarrow> 'e \<Rightarrow> (int \<times> nat option) \<times> 'e"
  api_errmsg :: "nat option \<Rightarrow> 'e \<Rightarrow> string"
  api_errcode :: "nat option \<Rightarrow> 'e \<Rightarrow> int"
  api_step :: "nat \<Rightarrow> 'e \<Rightarrow> int \<times> 'e"
  api_reset :: "nat \<Rightarrow> 'e \<Rightarrow> int \<times> 'e"
  api_finalize :: "nat option \<Rightarrow> 'e \<Rightarrow> int \<times> 'e"
  api_clear_bindings :: "nat \<Rightarrow> 'e \<Rightarrow> 'e"
  api_bind :: "nat \<Rightarrow> int \<Rightarrow> 'r bind_value \<Rightarrow> 'e \<Rightarrow> int \<times> 'e"
  api_bind_parameter_count :: "nat \<Rightarrow> 'e \<Rightarrow> int"
  api_bind_parameter_index :: "nat \<Rightarrow> string \<Rightarrow> 'e \<Rightarrow> int"
  api_stmt_readonly :: "nat \<Rightarrow> 'e \<Rightarrow> int"
  api_column_count :: "nat \<Rightarrow> 'e \<Rightarrow> int"
  api_column_name :: "nat \<Rightarrow> int \<Rightarrow> 'e \<Rightarrow> string option"
  api_column_type :: "nat \<Rightarrow> int \<Rightarrow> 'e \<Rightarrow> int"
  api_column_int64 :: "nat \<Rightarrow> int \<Rightarrow> 'e \<Rightarrow> int64 \<times> 'e"
  api_column_double :: "nat \<Rightarrow> int \<Rightarrow> 'e \<Rightarrow> 'r \<times> 'e"
  api_column_blob :: "nat \<Rightarrow> int \<Rightarrow> 'e \<Rightarrow> (byte list) option \<times> 'e"
  api_column_text :: "nat \<Rightarrow> int \<Rightarrow> 'e \<Rightarrow> string option \<times> 'e"
  api_column_bytes :: "nat \<Rightarrow> int \<Rightarrow> 'e \<Rightarrow> int \<times> 'e"

definition throw_message :: "int \<Rightarrow> string \<Rightarrow> ('s, fault, 'a) action" where
  "throw_message ec msg = throw (Thrown (System_error (make_error_code ec) (Some msg)))"

lemma throw_message_apply [simp]:
  "throw_message ec msg s = (Inl (Thrown (System_error (make_error_code ec) (Some msg))), s)"
  by (simp add: throw_message_def)

section \<open>Rows\<close>

text \<open>An index is a number or a name with the locale's \<^verbatim>\<open>tolower\<close>.\<close>

datatype Index = Index_value int | Index_name string "char \<Rightarrow> char"

definition index_of_name :: "string option \<Rightarrow> (char \<Rightarrow> char) \<Rightarrow> fault + Index" where
  "index_of_name name loc =
     (case name of
        None \<Rightarrow> Inl (Thrown (System_error (make_error_code_ys Bad_index_name) None))
      | Some n \<Rightarrow> Inr (Index_name n loc))"

record Results =
  rs_statement :: "nat option"
  rs_database :: "nat option"

definition results_empty :: Results where
  "results_empty = \<lparr>rs_statement = None, rs_database = None\<rparr>"

definition results_construct :: "nat option \<Rightarrow> nat option \<Rightarrow> ('s, fault, Results) action" where
  "results_construct statement database =
     (if (statement \<noteq> None) \<noteq> (database \<noteq> None) then throw_error Bad_arguments
      else return_with \<lparr>rs_statement = statement, rs_database = database\<rparr>)"

text \<open>
  The one-argument \<^verbatim>\<open>std::tolower\<close> takes an \<^verbatim>\<open>int\<close>: a negative \<^verbatim>\<open>char\<close> is outside its domain.
  The comparison is of the two lower case characters as signed numbers.
\<close>

definition c_tolower :: "char \<Rightarrow> char option" where
  "c_tolower c = (if schar c < 0 then None
     else Some (if 65 \<le> schar c \<and> schar c \<le> 90 then char_of (of_char c + 32 :: nat) else c))"

fun iequals :: "(char \<Rightarrow> char) \<Rightarrow> string \<Rightarrow> string \<Rightarrow> fault + bool" where
  "iequals loc (l # left) (r # right) =
     (case c_tolower l of
        None \<Rightarrow> Inl Undefined
      | Some l' \<Rightarrow> if l' \<noteq> loc r then Inr False else iequals loc left right)"
| "iequals loc left right = Inr (left = [] \<and> right = [])"

fun find_column :: "(char \<Rightarrow> char) \<Rightarrow> string \<Rightarrow> (int \<Rightarrow> string option) \<Rightarrow> int list \<Rightarrow> fault + int" where
  "find_column loc name column_name [] =
     Inl (Thrown (System_error (make_error_code_ys Unknown_parameter) None))"
| "find_column loc name column_name (i # is) =
     (case column_name i of
        None \<Rightarrow> Inl Undefined
      | Some column \<Rightarrow>
          (case iequals loc name column of
             Inl e \<Rightarrow> Inl e
           | Inr same \<Rightarrow> if same then Inr i else find_column loc name column_name is))"

definition to_column_index :: "('e, 'r) sqlite_api \<Rightarrow> nat \<Rightarrow> Index \<Rightarrow> 'e \<Rightarrow> fault + int" where
  "to_column_index api statement index e =
     (case index of
        Index_name name loc \<Rightarrow>
          find_column loc name (\<lambda>i. api_column_name api statement i e) [0 .. api_column_count api statement e - 1]
      | Index_value i \<Rightarrow>
          if i < 0 \<or> i \<ge> api_column_count api statement e
          then Inl (Thrown (System_error (make_error_code_ys Parameter_out_of_range) None))
          else Inr i)"

text \<open>\<open>on_row\<close> checks that there is a row and finds the column.\<close>

definition on_row ::
  "('e, 'r) sqlite_api \<Rightarrow> Results \<Rightarrow> Index \<Rightarrow> (nat \<Rightarrow> int \<Rightarrow> ('e, fault, 'a) action) \<Rightarrow> ('e, fault, 'a) action" where
  "on_row api r index k =
     (case rs_statement r of
        None \<Rightarrow> throw_error Bad_result
      | Some st \<Rightarrow> (\<lambda>e. and_then (lift_result (to_column_index api st index e)) (k st) e))"

definition results_integer :: "('e, 'r) sqlite_api \<Rightarrow> Results \<Rightarrow> Index \<Rightarrow> ('e, fault, int64) action" where
  "results_integer api r index = on_row api r index (\<lambda>st i e. case api_column_int64 api st i e of (v, e) \<Rightarrow> (Inr v, e))"

definition results_real :: "('e, 'r) sqlite_api \<Rightarrow> Results \<Rightarrow> Index \<Rightarrow> ('e, fault, 'r) action" where
  "results_real api r index = on_row api r index (\<lambda>st i e. case api_column_double api st i e of (v, e) \<Rightarrow> (Inr v, e))"

text \<open>
  A null pointer is an error only when the error code of the connection has changed. The blob is
  the pointer and the size \<^verbatim>\<open>sqlite3_column_bytes\<close> gives.
\<close>

definition results_blob :: "('e, 'r) sqlite_api \<Rightarrow> Results \<Rightarrow> Index \<Rightarrow> ('e, fault, (byte list) option \<times> int) action" where
  "results_blob api r index = on_row api r index (\<lambda>st i e.
     let old = api_errcode api (rs_database r) e;
         (blob, e) = api_column_blob api st i e;
         ec = api_errcode api (rs_database r) e
     in if blob = None \<and> ec \<noteq> SQLITE_OK \<and> ec \<noteq> old then throw_sqlite3 ec e
        else case api_column_bytes api st i e of (n, e) \<Rightarrow> (Inr (blob, n), e))"

text \<open>\<^verbatim>\<open>text\<close> and \<^verbatim>\<open>size_of\<close> read the error code before they look for the column.\<close>

definition results_text :: "('e, 'r) sqlite_api \<Rightarrow> Results \<Rightarrow> Index \<Rightarrow> ('e, fault, string option) action" where
  "results_text api r index = on_row api r index (\<lambda>st i e.
     let old = api_errcode api (rs_database r) e;
         (str, e) = api_column_text api st i e;
         ec = api_errcode api (rs_database r) e
     in if str = None \<and> ec \<noteq> SQLITE_OK \<and> ec \<noteq> old then throw_message ec (api_errmsg api (rs_database r) e) e
        else (Inr str, e))"

definition results_size_of :: "('e, 'r) sqlite_api \<Rightarrow> Results \<Rightarrow> Index \<Rightarrow> ('e, fault, int) action" where
  "results_size_of api r index = on_row api r index (\<lambda>st i e.
     let old = api_errcode api (rs_database r) e;
         (n, e) = api_column_bytes api st i e;
         ec = api_errcode api (rs_database r) e
     in if n = 0 \<and> ec \<noteq> SQLITE_OK \<and> ec \<noteq> old then throw_sqlite3 ec e else (Inr n, e))"

datatype result_type = type_integer | type_real | type_text | type_blob | type_null

definition results_type_of :: "('e, 'r) sqlite_api \<Rightarrow> Results \<Rightarrow> Index \<Rightarrow> ('e, fault, result_type) action" where
  "results_type_of api r index = on_row api r index (\<lambda>st i e.
     let t = api_column_type api st i e in
     (Inr (if t = 1 then type_integer else if t = 2 then type_real else if t = 3 then type_text
           else if t = 4 then type_blob else type_null), e))"

definition results_is_null :: "('e, 'r) sqlite_api \<Rightarrow> Results \<Rightarrow> Index \<Rightarrow> ('e, fault, bool) action" where
  "results_is_null api r index = and_then (results_type_of api r index) (\<lambda>t. return_with (t = type_null))"

section \<open>Statements\<close>

record Statement =
  st_statement :: "nat option"
  st_database :: "nat option"

definition statement_construct :: "nat option \<Rightarrow> nat option \<Rightarrow> ('s, fault, Statement) action" where
  "statement_construct stmt db =
     (if (stmt \<noteq> None) \<noteq> (db \<noteq> None) then throw_error Bad_arguments
      else return_with \<lparr>st_statement = stmt, st_database = db\<rparr>)"

text \<open>Moving gives the new object and what is left in the old one; assignment swaps.\<close>

definition statement_move :: "Statement \<Rightarrow> Statement \<times> Statement" where
  "statement_move mv =
     (\<lparr>st_statement = st_statement mv, st_database = None\<rparr>, mv\<lparr>st_statement := None\<rparr>)"

definition statement_assign :: "Statement \<Rightarrow> Statement \<Rightarrow> Statement \<times> Statement" where
  "statement_assign self mv =
     (self\<lparr>st_statement := st_statement mv\<rparr>, mv\<lparr>st_statement := st_statement self\<rparr>)"

definition statement_is_open :: "Statement \<Rightarrow> bool" where
  "statement_is_open s \<longleftrightarrow> st_statement s \<noteq> None"

definition statement_close :: "('e, 'r) sqlite_api \<Rightarrow> ('e \<times> Statement, fault, unit) action" where
  "statement_close api = (\<lambda>(e, s).
     case api_finalize api (st_statement s) e of
       (ec, e) \<Rightarrow>
         let s = s\<lparr>st_statement := None\<rparr> in
         if ec \<noteq> 0 then throw_sqlite3 ec (e, s) else (Inr (), e, s))"

text \<open>The destructor drops what \<^verbatim>\<open>close\<close> throws.\<close>

definition statement_destruct :: "('e, 'r) sqlite_api \<Rightarrow> ('e \<times> Statement, fault, unit) action" where
  "statement_destruct api = (\<lambda>s. case statement_close api s of
       (Inl (Thrown _), s) \<Rightarrow> (Inr (), s)
     | r \<Rightarrow> r)"

definition statement_clear_bindings :: "('e, 'r) sqlite_api \<Rightarrow> ('e \<times> Statement, fault, unit) action" where
  "statement_clear_bindings api = (\<lambda>(e, s).
     (Inr (), (case st_statement s of Some st \<Rightarrow> api_clear_bindings api st e | None \<Rightarrow> e), s))"

definition on_open :: "(nat \<Rightarrow> ('e \<times> Statement, fault, 'a) action) \<Rightarrow> ('e \<times> Statement, fault, 'a) action" where
  "on_open k = (\<lambda>(e, s). case st_statement s of
       None \<Rightarrow> throw_error Statement_is_closed (e, s)
     | Some st \<Rightarrow> k st (e, s))"

text \<open>Stepping to the end may go on for ever; the value is the last code and the state then.\<close>

partial_function (option) finish_loop :: "('e, 'r) sqlite_api \<Rightarrow> nat \<Rightarrow> 'e \<Rightarrow> (int \<times> 'e) option" where
  "finish_loop api st e =
     (case api_step api st e of
        (ec, e) \<Rightarrow> if ec \<noteq> SQLITE_ROW then Some (ec, e) else finish_loop api st e)"

definition statement_finish ::
  "('e, 'r) sqlite_api \<Rightarrow> 'e \<times> Statement \<Rightarrow> ((fault + unit) \<times> 'e \<times> Statement) option" where
  "statement_finish api = (\<lambda>(e, s). case st_statement s of
       None \<Rightarrow> Some (throw_error Statement_is_closed (e, s))
     | Some st \<Rightarrow>
         (case finish_loop api st e of
            None \<Rightarrow> None
          | Some (ec, e) \<Rightarrow>
              let e = snd (api_reset api st e) in
              Some (if ec = SQLITE_DONE then (Inr (), e, s) else throw_sqlite3 ec (e, s))))"

definition statement_reset :: "('e, 'r) sqlite_api \<Rightarrow> ('e \<times> Statement, fault, unit) action" where
  "statement_reset api = (\<lambda>(e, s). case st_statement s of
       None \<Rightarrow> (Inr (), e, s)
     | Some st \<Rightarrow>
         (case api_reset api st e of
            (ec, e) \<Rightarrow> if ec \<noteq> 0 then throw_sqlite3 ec (e, s) else (Inr (), e, s)))"

text \<open>The message is read before the guard resets the statement.\<close>

definition statement_step :: "('e, 'r) sqlite_api \<Rightarrow> ('e \<times> Statement, fault, Results) action" where
  "statement_step api = on_open (\<lambda>st (e, s).
     case api_step api st e of
       (ec, e) \<Rightarrow>
         if ec = SQLITE_ROW then results_construct (st_statement s) (st_database s) (e, s)
         else with_finally (\<lambda>(e, s). (snd (api_reset api st e), s))
           (if ec = SQLITE_DONE then return_with results_empty
            else (\<lambda>(e, s). throw_message ec (api_errmsg api (st_database s) e) (e, s))) (e, s))"

definition to_parameter_index :: "('e, 'r) sqlite_api \<Rightarrow> nat \<Rightarrow> Index \<Rightarrow> 'e \<Rightarrow> fault + int" where
  "to_parameter_index api st index e =
     (case index of
        Index_name name loc \<Rightarrow>
          let idx = api_bind_parameter_index api st name e in
          if idx = 0 then Inl (Thrown (System_error (make_error_code_ys Unknown_parameter) None)) else Inr idx
      | Index_value i \<Rightarrow>
          if i < 0 \<or> i \<ge> api_bind_parameter_count api st e
          then Inl (Thrown (System_error (make_error_code_ys Parameter_out_of_range) None))
          else Inr (i + 1))"

definition statement_bind :: "('e, 'r) sqlite_api \<Rightarrow> Index \<Rightarrow> 'r bind_value \<Rightarrow> ('e \<times> Statement, fault, unit) action" where
  "statement_bind api index v = on_open (\<lambda>st (e, s).
     case to_parameter_index api st index e of
       Inl f \<Rightarrow> (Inl f, e, s)
     | Inr i \<Rightarrow>
         (case api_bind api st i v e of
            (ec, e) \<Rightarrow> if ec \<noteq> 0 then throw_sqlite3 ec (e, s) else (Inr (), e, s)))"

definition bind_reference_text :: "('e, 'r) sqlite_api \<Rightarrow> Index \<Rightarrow> string option \<Rightarrow> ('e \<times> Statement, fault, unit) action" where
  "bind_reference_text api index v = statement_bind api index (Bind_text v (- 1) Static_memory)"

definition bind_reference_string :: "('e, 'r) sqlite_api \<Rightarrow> Index \<Rightarrow> string \<Rightarrow> ('e \<times> Statement, fault, unit) action" where
  "bind_reference_string api index v =
     statement_bind api index (Bind_text (Some v) (int_of_size (of_nat (length v))) Static_memory)"

definition bind_reference_blob :: "('e, 'r) sqlite_api \<Rightarrow> Index \<Rightarrow> byte list \<Rightarrow> ('e \<times> Statement, fault, unit) action" where
  "bind_reference_blob api index v = statement_bind api index (Bind_blob v (of_nat (length v)) Static_memory)"

definition bind_text :: "('e, 'r) sqlite_api \<Rightarrow> Index \<Rightarrow> string option \<Rightarrow> ('e \<times> Statement, fault, unit) action" where
  "bind_text api index v = statement_bind api index (Bind_text v (- 1) Transient_memory)"

definition bind_string :: "('e, 'r) sqlite_api \<Rightarrow> Index \<Rightarrow> string \<Rightarrow> ('e \<times> Statement, fault, unit) action" where
  "bind_string api index v =
     statement_bind api index (Bind_text (Some v) (int_of_size (of_nat (length v))) Transient_memory)"

definition bind_null :: "('e, 'r) sqlite_api \<Rightarrow> Index \<Rightarrow> ('e \<times> Statement, fault, unit) action" where
  "bind_null api index = statement_bind api index Bind_null"

definition bind_double :: "('e, 'r) sqlite_api \<Rightarrow> Index \<Rightarrow> 'r \<Rightarrow> ('e \<times> Statement, fault, unit) action" where
  "bind_double api index v = statement_bind api index (Bind_double v)"

definition bind_integer :: "('e, 'r) sqlite_api \<Rightarrow> Index \<Rightarrow> int64 \<Rightarrow> ('e \<times> Statement, fault, unit) action" where
  "bind_integer api index v = statement_bind api index
     (if sint v \<ge> - (2 ^ 31) \<and> sint v \<le> 2 ^ 31 - 1 then Bind_int (sint v) else Bind_int64 v)"

definition bind_zeros :: "('e, 'r) sqlite_api \<Rightarrow> Index \<Rightarrow> 64 word \<Rightarrow> ('e \<times> Statement, fault, unit) action" where
  "bind_zeros api index n = statement_bind api index
     (if n \<le> 2 ^ 31 - 1 then Bind_zeroblob (int_of_size n) else Bind_zeroblob64 n)"

definition statement_readonly :: "('e, 'r) sqlite_api \<Rightarrow> ('e \<times> Statement, fault, bool) action" where
  "statement_readonly api = on_open (\<lambda>st (e, s). (Inr (api_stmt_readonly api st e \<noteq> 0), e, s))"

definition statement_parameter_count :: "('e, 'r) sqlite_api \<Rightarrow> ('e \<times> Statement, fault, int) action" where
  "statement_parameter_count api = on_open (\<lambda>st (e, s). (Inr (api_bind_parameter_count api st e), e, s))"

definition statement_column_count :: "('e, 'r) sqlite_api \<Rightarrow> ('e \<times> Statement, fault, int) action" where
  "statement_column_count api = on_open (\<lambda>st (e, s). (Inr (api_column_count api st e), e, s))"

text \<open>A column name that is a null pointer makes a string of it, which is undefined.\<close>

fun column_names :: "(int \<Rightarrow> string option) \<Rightarrow> int list \<Rightarrow> fault + string list" where
  "column_names name [] = Inr []"
| "column_names name (i # is) =
     (case name i of
        None \<Rightarrow> Inl Undefined
      | Some n \<Rightarrow> map_sum id ((#) n) (column_names name is))"

definition statement_columns :: "('e, 'r) sqlite_api \<Rightarrow> ('e \<times> Statement, fault, string list) action" where
  "statement_columns api = on_open (\<lambda>st (e, s).
     (column_names (\<lambda>i. api_column_name api st i e) [0 .. api_column_count api st e - 1], e, s))"

definition statement_release :: "Statement \<Rightarrow> nat option \<times> Statement" where
  "statement_release s = (st_statement s, s\<lparr>st_statement := None\<rparr>)"

section \<open>Properties\<close>

text \<open>An engine of a few lines that behaves as documented, for concrete inputs.\<close>

record demo_lib =
  dl_handles :: "nat list"
  dl_reserve :: int
  dl_rows :: nat
  dl_log :: "string list"

definition demo_api :: "(demo_lib, unit) sqlite_api" where
  "demo_api =
     \<lparr>api_open_v2 = (\<lambda>file flags vfs e.
        let h = Suc (sum_list (dl_handles e)) in
        ((if file = ''missing'' then 14 else 0, Some h), e\<lparr>dl_handles := h # dl_handles e\<rparr>)),
      api_close = (\<lambda>h e. (0, e\<lparr>dl_handles := filter ((\<noteq>) h) (dl_handles e)\<rparr>)),
      api_close_v2 = (\<lambda>h e. (0, e\<lparr>dl_handles := filter ((\<noteq>) h) (dl_handles e)\<rparr>)),
      api_exec = (\<lambda>h sql e. ((if sql = ''VACUUM'' then 5 else 0, 0, None), e\<lparr>dl_log := sql # dl_log e\<rparr>)),
      api_reserve_bytes = (\<lambda>h n e. ((0, dl_reserve e), e\<lparr>dl_reserve := n\<rparr>)),
      api_create_function = (\<lambda>h name argc flags p d e. if argc > 127 then ((21, of_bool d), e) else ((0, 0), e)),
      api_last_insert_rowid = (\<lambda>h e. 0),
      api_prepare_v2 = (\<lambda>h sql e. ((0, Some 1), e)),
      api_errmsg = (\<lambda>h e. ''out of memory''), api_errcode = (\<lambda>h e. 0),
      api_step = (\<lambda>st e. if dl_rows e > 0 then (100, e\<lparr>dl_rows := dl_rows e - 1\<rparr>) else (101, e)),
      api_reset = (\<lambda>st e. (0, e\<lparr>dl_log := ''reset'' # dl_log e\<rparr>)),
      api_finalize = (\<lambda>st e. (0, e)), api_clear_bindings = (\<lambda>st e. e), api_bind = (\<lambda>st i v e. (0, e)),
      api_bind_parameter_count = (\<lambda>st e. 0), api_bind_parameter_index = (\<lambda>st n e. 0),
      api_stmt_readonly = (\<lambda>st e. 1), api_column_count = (\<lambda>st e. 2),
      api_column_name = (\<lambda>st i e. if i = 0 then Some ''Id'' else if i = 1 then Some ''Name'' else None),
      api_column_type = (\<lambda>st i e. 1), api_column_int64 = (\<lambda>st i e. (0, e)),
      api_column_double = (\<lambda>st i e. ((), e)), api_column_blob = (\<lambda>st i e. (None, e)),
      api_column_text = (\<lambda>st i e. (None, e)), api_column_bytes = (\<lambda>st i e. (0, e))\<rparr>"

text \<open>
  C32: a statement that has been moved loses its rows. \<^verbatim>\<open>step\<close> on a statement hands out a row as
  \<^verbatim>\<open>Results\<close> with the statement and its connection; but the move constructor leaves the
  connection behind, so on the moved statement the same step consumes the row and then throws
  \<^verbatim>\<open>Error::bad_arguments\<close>, and the object moved from is closed.
\<close>

theorem moved_statement_loses_rows:
  assumes "st_statement s = Some st" and "st_database s = Some db" and "api_step api st e = (SQLITE_ROW, e')"
  shows "statement_step api (e, s) = (Inr \<lparr>rs_statement = Some st, rs_database = Some db\<rparr>, e', s) \<and>
    (\<exists>s1 s2. statement_move s = (s1, s2) \<and>
       statement_step api (e, s1) = throw_error Bad_arguments (e', s1) \<and>
       statement_step api (e, s2) = throw_error Statement_is_closed (e, s2))"
  using assms by (simp add: statement_step_def on_open_def results_construct_def statement_move_def)

definition demo_statement :: Statement where
  "demo_statement = \<lparr>st_statement = Some 1, st_database = Some 7\<rparr>"

definition demo_lib0 :: demo_lib where
  "demo_lib0 = \<lparr>dl_handles = [], dl_reserve = 0, dl_rows = 2, dl_log = []\<rparr>"

theorem moved_statement_loses_rows_witness:
  "\<exists>s1 s2. statement_move demo_statement = (s1, s2) \<and>
     statement_step demo_api (demo_lib0, s1) = throw_error Bad_arguments (demo_lib0\<lparr>dl_rows := 1\<rparr>, s1)"
proof -
  have "st_statement demo_statement = Some 1" "st_database demo_statement = Some 7"
    "api_step demo_api 1 demo_lib0 = (SQLITE_ROW, demo_lib0\<lparr>dl_rows := 1\<rparr>)"
    by (simp_all add: demo_statement_def demo_api_def demo_lib0_def SQLITE_ROW_def)
  from moved_statement_loses_rows [OF this] show ?thesis by blast
qed

text \<open>The engine after \<open>n\<close> steps.\<close>

fun after_steps :: "('e, 'r) sqlite_api \<Rightarrow> nat \<Rightarrow> nat \<Rightarrow> 'e \<Rightarrow> 'e" where
  "after_steps api st 0 e = e"
| "after_steps api st (Suc n) e = after_steps api st n (snd (api_step api st e))"

lemma finish_loop_ends:
  assumes "\<And>e e'. api_step api st e = (SQLITE_ROW, e') \<Longrightarrow> rows e' < (rows e :: nat)"
  shows "\<exists>n ec e'. n \<le> rows e \<and> (\<forall>k<n. fst (api_step api st (after_steps api st k e)) = SQLITE_ROW) \<and>
    api_step api st (after_steps api st n e) = (ec, e') \<and> ec \<noteq> SQLITE_ROW \<and> finish_loop api st e = Some (ec, e')"
proof (induction "rows e" arbitrary: e rule: less_induct)
  case less
  obtain ec e1 where s: "api_step api st e = (ec, e1)" by (cases "api_step api st e")
  show ?case
  proof (cases "ec = SQLITE_ROW")
    case True
    have row: "rows e1 < rows e" using assms [of e e1] s True by simp
    from less [OF row] obtain n ec' e' where
      n: "n \<le> rows e1" "\<forall>k<n. fst (api_step api st (after_steps api st k e1)) = SQLITE_ROW"
        "api_step api st (after_steps api st n e1) = (ec', e')" "ec' \<noteq> SQLITE_ROW" "finish_loop api st e1 = Some (ec', e')"
      by blast
    have "\<forall>k<Suc n. fst (api_step api st (after_steps api st k e)) = SQLITE_ROW"
      using n(2) s True by (simp add: All_less_Suc2)
    moreover have "finish_loop api st e = Some (ec', e')" using n(5) s True by (subst finish_loop.simps) simp
    ultimately show ?thesis
      using n(1,3,4) row s by (intro exI [of _ "Suc n"] exI [of _ ec'] exI [of _ e']) simp
  next
    case False
    with s have "finish_loop api st e = Some (ec, e1)" by (subst finish_loop.simps) simp
    with s False show ?thesis by (intro exI [of _ 0] exI [of _ ec] exI [of _ e1]) simp
  qed
qed

text \<open>
  C33: \<^verbatim>\<open>finish\<close> ends and leaves the statement reset. If every row the engine returns leaves fewer
  rows behind, \<^verbatim>\<open>finish\<close> steps from the state it is called in over at most as many rows, to the first code other than
  \<^verbatim>\<open>SQLITE_ROW\<close>; then it resets the statement once, in the state behind that step, and nothing else is done to the engine. It returns
  when the last code was \<^verbatim>\<open>SQLITE_DONE\<close> and throws that code otherwise. A closed statement throws and does nothing.
\<close>

theorem finish_terminates:
  assumes "\<And>e e'. api_step api st e = (SQLITE_ROW, e') \<Longrightarrow> rows e' < (rows e :: nat)"
    and "st_statement s = Some st"
  shows "(\<exists>n ec e1. n \<le> rows e \<and> (\<forall>k<n. fst (api_step api st (after_steps api st k e)) = SQLITE_ROW) \<and>
      api_step api st (after_steps api st n e) = (ec, e1) \<and> ec \<noteq> SQLITE_ROW \<and>
      statement_finish api (e, s) = Some (if ec = SQLITE_DONE then (Inr (), snd (api_reset api st e1), s)
        else throw_sqlite3 ec (snd (api_reset api st e1), s))) \<and>
    statement_finish api (e, s\<lparr>st_statement := None\<rparr>) = Some (throw_error Statement_is_closed (e, s\<lparr>st_statement := None\<rparr>))"
proof -
  from finish_loop_ends [of api st rows e, OF assms(1)] obtain n ec e1 where
    "n \<le> rows e" "\<forall>k<n. fst (api_step api st (after_steps api st k e)) = SQLITE_ROW"
    "api_step api st (after_steps api st n e) = (ec, e1)" "ec \<noteq> SQLITE_ROW" "finish_loop api st e = Some (ec, e1)"
    by blast
  with assms(2) show ?thesis
    by (intro conjI exI [of _ n] exI [of _ ec] exI [of _ e1]) (simp_all add: statement_finish_def Let_def)
qed

theorem finish_terminates_witness:
  "\<exists>n ec e1. n \<le> 2 \<and> (\<forall>k<n. fst (api_step demo_api 1 (after_steps demo_api 1 k demo_lib0)) = SQLITE_ROW) \<and>
    api_step demo_api 1 (after_steps demo_api 1 n demo_lib0) = (ec, e1) \<and> ec \<noteq> SQLITE_ROW \<and>
    statement_finish demo_api (demo_lib0, demo_statement) =
      Some (if ec = SQLITE_DONE then (Inr (), snd (api_reset demo_api 1 e1), demo_statement)
      else throw_sqlite3 ec (snd (api_reset demo_api 1 e1), demo_statement))"
proof -
  have row: "dl_rows e' < dl_rows e" if "api_step demo_api 1 e = (SQLITE_ROW, e')" for e e'
    using that by (auto simp: demo_api_def SQLITE_ROW_def split: if_splits)
  have "st_statement demo_statement = Some 1" "dl_rows demo_lib0 = 2" by (simp_all add: demo_statement_def demo_lib0_def)
  with finish_terminates [of demo_api 1 dl_rows demo_statement demo_lib0] row show ?thesis by metis
qed

text \<open>Column names without bytes above 127, and the classic locale.\<close>

definition ascii_lower :: "char \<Rightarrow> char" where
  "ascii_lower c = (if 65 \<le> schar c \<and> schar c \<le> 90 then char_of (of_char c + 32 :: nat) else c)"

definition ascii :: "string \<Rightarrow> bool" where
  "ascii s \<longleftrightarrow> (\<forall>c\<in>set s. 0 \<le> schar c)"

lemma iequals_lower: "ascii l \<Longrightarrow> iequals ascii_lower l r = Inr (map ascii_lower l = map ascii_lower r)"
proof (induction ascii_lower l r rule: iequals.induct)
  case (1 l left r right)
  then have "c_tolower l = Some (ascii_lower l)" "ascii left"
    by (simp_all add: c_tolower_def ascii_lower_def ascii_def)
  with 1 show ?case by simp
qed auto

text \<open>
  Looking up a column by name. In a row whose column names the engine knows, a name in ASCII
  finds the first column whose name is the same but for the case of ASCII letters, and a name
  of no column throws \<^verbatim>\<open>Error::unknown_parameter\<close>; a number is checked against the number of
  columns. The search never leaves the columns of the row.
\<close>

theorem column_lookup:
  assumes "\<And>i. 0 \<le> i \<Longrightarrow> i < api_column_count api st e \<Longrightarrow> api_column_name api st i e = Some (names ! nat i)"
    and "int (length names) = api_column_count api st e" and "ascii n"
  shows "to_column_index api st (Index_name n ascii_lower) e =
      (case find (\<lambda>i. map ascii_lower n = map ascii_lower (names ! i)) [0 ..< length names] of
         Some i \<Rightarrow> Inr (int i)
       | None \<Rightarrow> Inl (Thrown (System_error (make_error_code_ys Unknown_parameter) None))) \<and>
    to_column_index api st (Index_value k) e =
      (if 0 \<le> k \<and> k < int (length names) then Inr k
       else Inl (Thrown (System_error (make_error_code_ys Parameter_out_of_range) None)))"
proof -
  have list: "[0 .. int m - 1] = map int [0 ..< m]" for m by (induction m) (simp_all add: upto_rec2)
  have "find_column ascii_lower n (\<lambda>i. api_column_name api st i e) (map int is) =
      (case find (\<lambda>i. map ascii_lower n = map ascii_lower (names ! i)) is of
         Some i \<Rightarrow> Inr (int i)
       | None \<Rightarrow> Inl (Thrown (System_error (make_error_code_ys Unknown_parameter) None)))"
    if "\<forall>i\<in>set is. i < length names" for "is"
    using that assms by (induction "is") (auto simp: iequals_lower)
  from this [of "[0 ..< length names]"] show ?thesis
    by (simp add: to_column_index_def flip: assms(2) list)
qed

theorem column_lookup_witness:
  "to_column_index demo_api 1 (Index_name ''NAME'' ascii_lower) demo_lib0 = Inr 1"
proof -
  have names: "api_column_name demo_api 1 i demo_lib0 = Some ([''Id'', ''Name''] ! nat i)"
    if "0 \<le> i" "i < api_column_count demo_api 1 demo_lib0" for i
  proof -
    from that have "i = 0 \<or> i = 1" by (auto simp: demo_api_def)
    then show ?thesis by (auto simp: demo_api_def)
  qed
  have "int (length [''Id'', ''Name'']) = api_column_count demo_api 1 demo_lib0" "ascii ''NAME''"
    by (simp_all add: demo_api_def ascii_def schar_def)
  note look = column_lookup [OF names this, of 0]
  have "map ascii_lower ''NAME'' = ''name''" "map ascii_lower ''Id'' = ''id''" "map ascii_lower ''Name'' = ''name''"
    by code_simp+
  then have "find (\<lambda>i. map ascii_lower ''NAME'' = map ascii_lower ([''Id'', ''Name''] ! i)) [0 ..< length [''Id'', ''Name'']] = Some 1"
    by (simp add: upt_rec del: list.map)
  with look show ?thesis by simp
qed

end
