(* ===== verification/Ys_Database.thy ===== *)
theory Ys_Database
  imports Ys_Statement
begin

text \<open>
  \<^verbatim>\<open>database.hpp\<close>, \<^verbatim>\<open>database.cpp\<close>, \<^verbatim>\<open>transaction.hpp\<close>, \<^verbatim>\<open>transaction.cpp\<close> and
  \<^verbatim>\<open>extensions/ysqlite3_crypt_vfs.cpp\<close>: connections as objects that own a handle of the engine,
  transactions as scope guards over them, and the extension that reserves the bytes the
  encryption needs. Of \<^verbatim>\<open>sqlite3.c\<close> also \<^verbatim>\<open>createFunctionApi\<close>, which decides who deletes a
  function object. A member function acts on the state of the library and the object.
\<close>

section \<open>Connections\<close>

type_synonym Database = "nat option"

definition is_open :: "Database \<Rightarrow> bool" where
  "is_open d \<longleftrightarrow> d \<noteq> None"

definition on_database :: "(nat \<Rightarrow> ('e \<times> Database, fault, 'a) action) \<Rightarrow> ('e \<times> Database, fault, 'a) action" where
  "on_database k = (\<lambda>(e, d). case d of
       None \<Rightarrow> throw_error Database_is_closed (e, d)
     | Some h \<Rightarrow> k h (e, d))"

definition database_close :: "('e, 'r) sqlite_api \<Rightarrow> bool \<Rightarrow> ('e \<times> Database, fault, unit) action" where
  "database_close api force = (\<lambda>(e, d). case d of
       None \<Rightarrow> (Inr (), e, d)
     | Some h \<Rightarrow>
         if force then (Inr (), snd (api_close_v2 api h e), None)
         else (case api_close api h e of
           (ec, e) \<Rightarrow> if ec \<noteq> 0 then throw_sqlite3 ec (e, d) else (Inr (), e, None)))"

text \<open>\<^verbatim>\<open>vfs && !vfs[0]\<close> is an empty name; the handle of a failed open is forgotten.\<close>

definition database_open ::
  "('e, 'r) sqlite_api \<Rightarrow> string \<Rightarrow> 32 word \<Rightarrow> string option \<Rightarrow> ('e \<times> Database, fault, unit) action" where
  "database_open api file flags vfs =
     (if vfs = Some [] then throw_error Bad_vfs_name
      else and_then (database_close api False) (\<lambda>_ (e, d).
        case api_open_v2 api file flags vfs e of
          ((ec, h), e) \<Rightarrow> if ec \<noteq> 0 then throw_sqlite3 ec (e, None) else (Inr (), e, h)))"

definition database_construct :: "('e, 'r) sqlite_api \<Rightarrow> string \<Rightarrow> 'e \<Rightarrow> (fault + unit) \<times> 'e \<times> Database" where
  "database_construct api file e =
     database_open api file (SQLITE_OPEN_READWRITE OR SQLITE_OPEN_CREATE) None (e, None)"

definition database_destruct :: "('e, 'r) sqlite_api \<Rightarrow> ('e \<times> Database, fault, unit) action" where
  "database_destruct api = noexcept (database_close api True)"

text \<open>The new object and what is left in the old one.\<close>

definition database_move :: "Database \<Rightarrow> Database \<times> Database" where
  "database_move mv = (mv, None)"

definition database_assign ::
  "('e, 'r) sqlite_api \<Rightarrow> 'e \<Rightarrow> Database \<Rightarrow> Database \<Rightarrow> (fault + unit) \<times> 'e \<times> Database \<times> Database" where
  "database_assign api e self mv =
     (case noexcept (database_close api True) (e, self) of
        (Inl f, e, self) \<Rightarrow> (Inl f, e, self, mv)
      | (Inr _, e, self) \<Rightarrow> (Inr (), e, mv, self))"

definition database_release_handle :: "Database \<Rightarrow> nat option \<times> Database" where
  "database_release_handle d = (d, None)"

definition database_set_reserved_size ::
  "('e, 'r) sqlite_api \<Rightarrow> byte \<Rightarrow> bool \<Rightarrow> ('e \<times> Database, fault, byte) action" where
  "database_set_reserved_size api sz vacuum = on_database (\<lambda>h (e, d).
     case api_reserve_bytes api h (uint sz) e of
       ((ec, n), e) \<Rightarrow>
         let (ec, n, e) =
           (if ec = 0 \<and> vacuum \<and> n \<noteq> uint sz then
              (case api_exec api h ''VACUUM'' e of
                 ((ec, _, _), e) \<Rightarrow>
                   if ec \<noteq> 0 then (case api_reserve_bytes api h n e of ((_, n), e) \<Rightarrow> (ec, n, e)) else (ec, n, e))
            else (ec, n, e))
         in if ec \<noteq> 0 then throw_sqlite3 ec (e, d) else (Inr (word_of_int n), e, d))"

text \<open>The number of rows, counted by the callback.\<close>

definition database_execute :: "('e, 'r) sqlite_api \<Rightarrow> string \<Rightarrow> ('e \<times> Database, fault, 64 word) action" where
  "database_execute api sql = on_database (\<lambda>h (e, d).
     case api_exec api h sql e of
       ((ec, rows, message), e) \<Rightarrow>
         if ec \<noteq> 0 then
           (case message of Some m \<Rightarrow> throw_message ec m (e, d) | None \<Rightarrow> throw_sqlite3 ec (e, d))
         else (Inr (of_nat rows), e, d))"

datatype Journal_mode = journal_delete | journal_truncate | journal_persist | journal_memory | journal_wal | journal_off

fun journal_mode_sql :: "Journal_mode \<Rightarrow> string" where
  "journal_mode_sql journal_delete = ''PRAGMA journal_mode=DELETE;''"
| "journal_mode_sql journal_truncate = ''PRAGMA journal_mode=TRUNCATE;''"
| "journal_mode_sql journal_persist = ''PRAGMA journal_mode=PERSIST;''"
| "journal_mode_sql journal_memory = ''PRAGMA journal_mode=MEMORY;''"
| "journal_mode_sql journal_wal = ''PRAGMA journal_mode=WAL;''"
| "journal_mode_sql journal_off = ''PRAGMA journal_mode=OFF;''"

definition database_set_journal_mode :: "('e, 'r) sqlite_api \<Rightarrow> Journal_mode \<Rightarrow> ('e \<times> Database, fault, unit) action" where
  "database_set_journal_mode api mode =
     and_then (database_execute api (journal_mode_sql mode)) (\<lambda>_. return_with ())"

definition database_enable_foreign_keys :: "('e, 'r) sqlite_api \<Rightarrow> bool \<Rightarrow> ('e \<times> Database, fault, unit) action" where
  "database_enable_foreign_keys api enable =
     and_then (database_execute api (if enable then ''PRAGMA foreign_keys=ON'' else ''PRAGMA foreign_keys=OFF''))
       (\<lambda>_. return_with ())"

definition database_last_insert_rowid :: "('e, 'r) sqlite_api \<Rightarrow> 'e \<Rightarrow> Database \<Rightarrow> int64" where
  "database_last_insert_rowid api e d = (case d of Some h \<Rightarrow> api_last_insert_rowid api h e | None \<Rightarrow> 0)"

definition database_prepare_statement :: "('e, 'r) sqlite_api \<Rightarrow> string \<Rightarrow> ('e \<times> Database, fault, Statement) action" where
  "database_prepare_statement api sql = on_database (\<lambda>h (e, d).
     case api_prepare_v2 api h sql e of
       ((ec, stmt), e) \<Rightarrow>
         if ec \<noteq> 0 then throw_message ec (api_errmsg api (Some h) e) (e, d)
         else statement_construct stmt d (e, d))"

section \<open>Registering functions\<close>

text \<open>
  \<^verbatim>\<open>function::Function\<close>: the number of arguments and the flags the constructor computes. The
  object is named by its address; \<open>deletes\<close> counts how often it has been deleted.
\<close>

record function_object =
  fo_argc :: int
  fo_flags :: int
  fo_address :: nat

definition SQLITE_DETERMINISTIC :: int where "SQLITE_DETERMINISTIC = 0x800"
definition SQLITE_DIRECTONLY :: int where "SQLITE_DIRECTONLY = 0x80000"

datatype text_encoding = utf8 | utf16be | utf16le

fun text_encoding_value :: "text_encoding \<Rightarrow> int" where
  "text_encoding_value utf8 = 1"
| "text_encoding_value utf16be = 3"
| "text_encoding_value utf16le = 2"

definition function_construct :: "nat \<Rightarrow> int \<Rightarrow> bool \<Rightarrow> bool \<Rightarrow> text_encoding \<Rightarrow> function_object" where
  "function_construct address argc deterministic direct_only encoding =
     \<lparr>fo_argc = (if argc < 0 then - 1 else argc),
      fo_flags = text_encoding_value encoding OR (if deterministic then SQLITE_DETERMINISTIC else 0) OR
        (if direct_only then SQLITE_DIRECTONLY else 0),
      fo_address = address\<rparr>"

text \<open>
  \<^verbatim>\<open>createFunctionApi\<close>: \<open>create_func\<close> is \<^verbatim>\<open>sqlite3CreateFunc\<close>, which returns a code and whether the
  function now holds a reference to the destructor; \<open>api_exit\<close> is \<^verbatim>\<open>sqlite3ApiExit\<close>. The result is
  the code and how often \<^verbatim>\<open>xDestroy\<close> has been called.
\<close>

definition createFunctionApi ::
  "bool \<Rightarrow> (string \<Rightarrow> int \<Rightarrow> int \<Rightarrow> nat option \<Rightarrow> 'e \<Rightarrow> (int \<times> bool) \<times> 'e) \<Rightarrow> (int \<Rightarrow> 'e \<Rightarrow> int \<times> 'e) \<Rightarrow>
   string \<Rightarrow> int \<Rightarrow> int \<Rightarrow> nat option \<Rightarrow> bool \<Rightarrow> 'e \<Rightarrow> (int \<times> nat) \<times> 'e" where
  "createFunctionApi malloc_ok create_func api_exit zFunc nArg enc p xDestroy e =
     (if xDestroy \<and> \<not> malloc_ok then
        (case api_exit SQLITE_ERROR e of (rc, e) \<Rightarrow> ((rc, 1), e))
      else
        (case create_func zFunc nArg enc p e of
           ((rc, referenced), e) \<Rightarrow>
             let destroyed = (if xDestroy \<and> \<not> referenced then 1 else 0) in
             (case api_exit rc e of (rc, e) \<Rightarrow> ((rc, destroyed), e))))"

text \<open>
  The result also counts the deletions of the function object during the call: those SQLite has
  done and the one of the \<^verbatim>\<open>unique_ptr\<close> parameter, unless it has been released.
\<close>

definition register_function ::
  "('e, 'r) sqlite_api \<Rightarrow> string \<Rightarrow> function_object option \<Rightarrow> 'e \<times> Database \<Rightarrow> (fault + unit) \<times> nat \<times> 'e \<times> Database" where
  "register_function api name function = (\<lambda>(e, d).
     let mine = (if function = None then 0 else 1) in
     case d of
       None \<Rightarrow> (case throw_error Database_is_closed (e, d) of (r, s) \<Rightarrow> (r, mine, s))
     | Some h \<Rightarrow>
         (case function of
            None \<Rightarrow> (case throw_error Null_function (e, d) of (r, s) \<Rightarrow> (r, mine, s))
          | Some f \<Rightarrow>
              (case api_create_function api h name (fo_argc f) (fo_flags f) (Some (fo_address f)) True e of
                 ((ec, destroyed), e) \<Rightarrow>
                   if ec \<noteq> 0 then (case throw_sqlite3 ec (e, d) of (r, s) \<Rightarrow> (r, destroyed + mine, s))
                   else (Inr (), destroyed, e, d))))"

definition register_plain_function ::
  "('e, 'r) sqlite_api \<Rightarrow> string \<Rightarrow> nat option \<Rightarrow> text_encoding \<Rightarrow> bool \<Rightarrow> bool \<Rightarrow> ('e \<times> Database, fault, unit) action" where
  "register_plain_function api name function encoding deterministic direct_only = on_database (\<lambda>h (e, d).
     if function = None then throw_error Null_function (e, d)
     else case api_create_function api h name (- 1)
         (text_encoding_value encoding OR SQLITE_DETERMINISTIC * of_bool deterministic OR
           SQLITE_DIRECTONLY * of_bool direct_only) None False e of
       ((ec, _), e) \<Rightarrow> if ec \<noteq> 0 then throw_sqlite3 ec (e, d) else (Inr (), e, d))"

section \<open>The extension\<close>

definition ysqlite3_init_crypt_db :: "('e, 'r) sqlite_api \<Rightarrow> nat \<Rightarrow> 'e \<Rightarrow> int \<times> 'e" where
  "ysqlite3_init_crypt_db api db e =
     (case api_reserve_bytes api db 32 e of
        ((ec, n), e) \<Rightarrow>
          if ec = 0 \<and> n \<noteq> 32 then
            (case api_exec api db ''VACUUM'' e of
               ((ec, _, _), e) \<Rightarrow>
                 if ec \<noteq> 0 then (ec, snd (api_reserve_bytes api db n e)) else (ec, e))
          else (ec, e))"

section \<open>Who owns a handle\<close>

text \<open>
  The operations on the connections of a program, each object named by a number: what the code
  does with the library and the objects. An object that does not exist yet is closed. Assigned to itself, an object closes its handle.
\<close>

datatype db_op =
    Op_open nat string "32 word" "string option"
  | Op_close nat bool
  | Op_destroy nat
  | Op_move nat nat
  | Op_assign nat nat
  | Op_release nat

fun db_step :: "('e, 'r) sqlite_api \<Rightarrow> db_op \<Rightarrow> 'e \<times> (nat \<Rightarrow> Database) \<Rightarrow> 'e \<times> (nat \<Rightarrow> Database)" where
  "db_step api (Op_open i file flags vfs) (e, objs) =
     (case database_open api file flags vfs (e, objs i) of (_, e, d) \<Rightarrow> (e, objs(i := d)))"
| "db_step api (Op_close i force) (e, objs) =
     (case database_close api force (e, objs i) of (_, e, d) \<Rightarrow> (e, objs(i := d)))"
| "db_step api (Op_destroy i) (e, objs) =
     (case database_destruct api (e, objs i) of (_, e, d) \<Rightarrow> (e, objs(i := d)))"
| "db_step api (Op_move i j) (e, objs) =
     (if i = j \<or> objs i \<noteq> None then (e, objs)
      else case database_move (objs j) of (d, d') \<Rightarrow> (e, objs(i := d, j := d')))"
| "db_step api (Op_assign i j) (e, objs) =
     (if i = j then (case noexcept (database_close api True) (e, objs i) of (_, e, d) \<Rightarrow> (e, objs(i := d)))
      else case database_assign api e (objs i) (objs j) of (_, e, d, d') \<Rightarrow> (e, objs(i := d, j := d')))"
| "db_step api (Op_release i) (e, objs) =
     (case database_release_handle (objs i) of (_, d) \<Rightarrow> (e, objs(i := d)))"

text \<open>
  What \<^verbatim>\<open>sqlite3_open_v2\<close>, \<^verbatim>\<open>sqlite3_close\<close> and \<^verbatim>\<open>sqlite3_close_v2\<close> do to the set of open handles:
  a handle that is returned is new and open, also when the call fails; closing an open handle
  takes it away unless \<^verbatim>\<open>sqlite3_close\<close> reports an error. Closing a handle that is not open is not
  covered.
\<close>

definition handles_api :: "('e, 'r) sqlite_api \<Rightarrow> ('e \<Rightarrow> nat set) \<Rightarrow> bool" where
  "handles_api api live \<longleftrightarrow>
     (\<forall>path flags vfs e ec h e'. api_open_v2 api path flags vfs e = ((ec, Some h), e') \<longrightarrow>
        h \<notin> live e \<and> live e' = insert h (live e)) \<and>
     (\<forall>path flags vfs e ec e'. api_open_v2 api path flags vfs e = ((ec, None), e') \<longrightarrow>
        ec \<noteq> 0 \<and> live e' = live e) \<and>
     (\<forall>h e ec e'. h \<in> live e \<longrightarrow> api_close api h e = (ec, e') \<longrightarrow>
        live e' = (if ec = 0 then live e - {h} else live e)) \<and>
     (\<forall>h e. h \<in> live e \<longrightarrow> live (snd (api_close_v2 api h e)) = live e - {h})"

definition handles_owned :: "('e \<Rightarrow> nat set) \<Rightarrow> 'e \<times> (nat \<Rightarrow> Database) \<Rightarrow> bool" where
  "handles_owned live = (\<lambda>(e, objs).
     (\<forall>i h. objs i = Some h \<longrightarrow> h \<in> live e) \<and>
     (\<forall>i j h. objs i = Some h \<longrightarrow> objs j = Some h \<longrightarrow> i = j))"

lemma handles_api_open:
  "handles_api api live \<Longrightarrow> api_open_v2 api path flags vfs e = ((ec, Some h), e') \<Longrightarrow> h \<notin> live e \<and> live e' = insert h (live e)"
  "handles_api api live \<Longrightarrow> api_open_v2 api path flags vfs e = ((ec, None), e') \<Longrightarrow> ec \<noteq> 0 \<and> live e' = live e"
  by (simp_all add: handles_api_def)

lemma handles_api_close:
  "handles_api api live \<Longrightarrow> h \<in> live e \<Longrightarrow> api_close api h e = (ec, e') \<Longrightarrow>
     live e' = (if ec = 0 then live e - {h} else live e)"
  "handles_api api live \<Longrightarrow> h \<in> live e \<Longrightarrow> live (snd (api_close_v2 api h e)) = live e - {h}"
  by (auto simp: handles_api_def)

lemma handles_owned_less:
  assumes "handles_owned live (e, objs)" "objs i = Some h" "live e' = live e - {h}"
  shows "handles_owned live (e', objs(i := None))"
  using assms by (auto simp: handles_owned_def)

lemma handles_owned_same:
  assumes "handles_owned live (e, objs)" "live e' = live e"
  shows "handles_owned live (e', objs)"
  using assms by (auto simp: handles_owned_def)

lemma database_close_owned:
  assumes "handles_api api live" "handles_owned live (e, objs)" "database_close api force (e, objs i) = (r, e', d)"
  shows "handles_owned live (e', objs(i := d)) \<and> (d \<noteq> None \<longrightarrow> d = objs i) \<and> (r = Inr () \<longrightarrow> d = None)"
proof (cases "objs i")
  case None
  with assms show ?thesis by (auto simp: database_close_def fun_upd_idem)
next
  case (Some h)
  with assms(2) have h: "h \<in> live e" by (auto simp: handles_owned_def)
  show ?thesis
  proof (cases force)
    case True
    with assms(3) Some have "e' = snd (api_close_v2 api h e)" "r = Inr ()" "d = None"
      by (simp_all add: database_close_def)
    with handles_owned_less [OF assms(2) Some] handles_api_close(2) [OF assms(1) h] show ?thesis by simp
  next
    case False
    obtain ec e1 where c: "api_close api h e = (ec, e1)" by (cases "api_close api h e")
    note l = handles_api_close(1) [OF assms(1) h c]
    show ?thesis
    proof (cases "ec = 0")
      case True
      with assms(3) Some False c have "e' = e1" "r = Inr ()" "d = None" by (simp_all add: database_close_def)
      with handles_owned_less [OF assms(2) Some] l True show ?thesis by simp
    next
      case ne: False
      with assms(3) Some False c have "e' = e1" "d = Some h" "r \<noteq> Inr ()"
        by (auto simp: database_close_def)
      moreover from l ne have "live e1 = live e" by simp
      ultimately show ?thesis
        using handles_owned_same [OF assms(2)] Some by (simp add: fun_upd_idem)
    qed
  qed
qed

lemma handles_owned_rename:
  assumes "handles_owned live (e, objs)" "\<And>k h. objs' k = Some h \<Longrightarrow> objs (p k) = Some h" "inj p"
  shows "handles_owned live (e, objs')"
proof -
  from assms(1) have l: "\<And>k h. objs k = Some h \<Longrightarrow> h \<in> live e"
    and u: "\<And>k k' h. objs k = Some h \<Longrightarrow> objs k' = Some h \<Longrightarrow> k = k'"
    unfolding handles_owned_def by blast+
  from l assms(2) have "\<forall>k h. objs' k = Some h \<longrightarrow> h \<in> live e" by blast
  moreover have "\<forall>k k' h. objs' k = Some h \<longrightarrow> objs' k' = Some h \<longrightarrow> k = k'"
    using u assms(2) injD [OF assms(3)] by blast
  ultimately show ?thesis by (simp add: handles_owned_def)
qed

definition exchange :: "nat \<Rightarrow> nat \<Rightarrow> nat \<Rightarrow> nat" where
  "exchange i j k = (if k = i then j else if k = j then i else k)"

lemma inj_exchange: "inj (exchange i j)"
  by (auto simp: inj_def exchange_def split: if_splits)

lemma handles_owned_open:
  assumes "handles_owned live (e, objs)" "objs i = None" "h \<notin> live e" "live e' = insert h (live e)"
  shows "handles_owned live (e', objs(i := Some h))" "handles_owned live (e', objs)"
  using assms by (auto simp: handles_owned_def)

lemma db_step_owned:
  assumes "handles_api api live" "handles_owned live s"
  shows "handles_owned live (db_step api op s)"
proof -
  obtain e objs where s: "s = (e, objs)" by (cases s)
  note own = assms(2) [unfolded s]
  show ?thesis
  proof (cases op)
    case (Op_open i path flags vfs)
    show ?thesis
    proof (cases "vfs = Some []")
      case True
      with Op_open own s show ?thesis by (simp add: database_open_def)
    next
      case False
      obtain r e1 d where c: "database_close api False (e, objs i) = (r, e1, d)"
        by (cases "database_close api False (e, objs i)")
      note own1 = database_close_owned [OF assms(1) own c]
      show ?thesis
      proof (cases r)
        case (Inl f)
        with False c own1 show ?thesis by (simp add: Op_open s database_open_def and_then_def)
      next
        case (Inr u)
        with own1 have d: "d = None" by simp
        obtain ec h e2 where o: "api_open_v2 api path flags vfs e1 = ((ec, h), e2)"
          by (cases "api_open_v2 api path flags vfs e1") auto
        have step: "db_step api op s = (e2, objs(i := if ec \<noteq> 0 then None else h))"
          using False c Inr o by (simp add: Op_open s database_open_def and_then_def)
        have own0: "handles_owned live (e1, objs(i := None))" using own1 d by simp
        show ?thesis
        proof (cases h)
          case None
          note n = handles_api_open(2) [OF assms(1) o [unfolded None]]
          then have "live e2 = live e1" by simp
          with handles_owned_same [OF own0, of e2] step None show ?thesis by simp
        next
          case (Some h')
          note n = handles_api_open(1) [OF assms(1) o [unfolded Some]]
          then have "h' \<notin> live e1" "live e2 = insert h' (live e1)" by simp_all
          from handles_owned_open [OF own0 _ this, of i] step Some show ?thesis by simp
        qed
      qed
    qed
  next
    case (Op_close i force)
    then show ?thesis
      using database_close_owned [OF assms(1) own, of force i] by (auto simp: s split: prod.splits)
  next
    case (Op_destroy i)
    obtain r e1 d where c: "database_close api True (e, objs i) = (r, e1, d)"
      by (cases "database_close api True (e, objs i)")
    have "fst (snd (database_destruct api (e, objs i))) = e1 \<and> snd (snd (database_destruct api (e, objs i))) = d"
      by (simp add: database_destruct_def noexcept_def c split: sum.splits fault.splits)
    then show ?thesis
      using database_close_owned [OF assms(1) own c] by (auto simp: s Op_destroy split: prod.splits)
  next
    case (Op_move i j)
    show ?thesis
    proof (cases "i = j \<or> objs i \<noteq> None")
      case True
      with own show ?thesis by (simp only: s Op_move db_step.simps if_True)
    next
      case False
      have "handles_owned live (e, objs(i := objs j, j := None))"
        by (rule handles_owned_rename [OF own _ inj_exchange [of i j]]) (simp add: exchange_def split: if_splits)
      with False show ?thesis by (simp add: s Op_move database_move_def)
    qed
  next
    case (Op_assign i j)
    obtain r e1 d where c: "database_close api True (e, objs i) = (r, e1, d)"
      by (cases "database_close api True (e, objs i)")
    have r: "r = Inr () \<and> d = None"
      using c by (auto simp: database_close_def split: option.splits)
    from database_close_owned [OF assms(1) own c] r have own1: "handles_owned live (e1, objs(i := None))" by simp
    have step: "db_step api op s = (e1, if i = j then objs(i := None) else objs(i := objs j, j := None))"
      using c r by (cases "i = j") (auto simp: Op_assign s database_assign_def noexcept_def)
    have "handles_owned live (e1, objs(i := objs j, j := None))" if "i \<noteq> j"
      by (rule handles_owned_rename [OF own1 _ inj_exchange [of i j]]) (use that in \<open>simp add: exchange_def split: if_splits\<close>)
    with own1 step show ?thesis by (cases "i = j") simp_all
  next
    case (Op_release i)
    have "handles_owned live (e, objs(i := None))"
      by (rule handles_owned_rename [OF own, of _ id]) (simp_all split: if_splits)
    with Op_release show ?thesis by (simp add: s database_release_handle_def)
  qed
qed

text \<open>
  C34: no handle is closed twice. Whatever the program does with its connections - opening,
  closing, moving, assigning, destroying, giving a handle away, with every error the engine can
  report - every handle an object holds is an open handle of the engine and no two objects hold
  the same one, so every call of \<^verbatim>\<open>sqlite3_close\<close> is on an open handle.
\<close>

theorem database_handles_owned:
  assumes "handles_api api live" and "handles_owned live s"
  shows "case foldl (\<lambda>s op. db_step api op s) s ops of (e, objs) \<Rightarrow>
    (\<forall>i h. objs i = Some h \<longrightarrow> h \<in> live e) \<and>
    (\<forall>i j h. objs i = Some h \<longrightarrow> objs j = Some h \<longrightarrow> i = j)"
proof -
  have "handles_owned live (foldl (\<lambda>s op. db_step api op s) s ops)"
    using assms(2) by (induction ops arbitrary: s) (simp_all add: db_step_owned [OF assms(1)])
  then show ?thesis by (simp add: handles_owned_def split: prod.splits)
qed

lemma demo_handles: "handles_api demo_api (\<lambda>e. set (dl_handles e))"
proof -
  have "Suc (sum_list l) \<notin> set l" for l :: "nat list"
    using member_le_sum_list [of "Suc (sum_list l)" l] by auto
  then show ?thesis by (auto simp: handles_api_def demo_api_def Let_def split: if_splits)
qed

theorem database_handles_owned_witness:
  "case foldl (\<lambda>s op. db_step demo_api op s) (demo_lib0, \<lambda>_. None)
      [Op_open 0 ''data.db'' 6 None, Op_open 1 ''missing'' 6 None, Op_move 2 0, Op_assign 0 2, Op_destroy 0] of (e, objs) \<Rightarrow>
    (\<forall>i h. objs i = Some h \<longrightarrow> h \<in> set (dl_handles e)) \<and>
    (\<forall>i j h. objs i = Some h \<longrightarrow> objs j = Some h \<longrightarrow> i = j)"
  by (rule database_handles_owned [OF demo_handles]) (simp add: handles_owned_def)

section \<open>Transactions\<close>

text \<open>
  \<^verbatim>\<open>transaction.cpp\<close>. A transaction shares its connection; it holds the number of the object
  it runs on, and \<open>objs\<close> are the connections of the program. The pointer given to the
  constructor is not null.
\<close>

type_synonym Transaction = "nat option"

definition on_object :: "nat \<Rightarrow> ('e \<times> Database, fault, 'a) action \<Rightarrow> ('e \<times> (nat \<Rightarrow> Database), fault, 'a) action" where
  "on_object i act = (\<lambda>(e, objs). case act (e, objs i) of (r, e, d) \<Rightarrow> (r, e, objs(i := d)))"

definition transaction_construct ::
  "('e, 'r) sqlite_api \<Rightarrow> nat \<Rightarrow> ('e \<times> (nat \<Rightarrow> Database), fault, Transaction) action" where
  "transaction_construct api db =
     and_then (noexcept (on_object db (database_execute api ''BEGIN TRANSACTION;''))) (\<lambda>_. return_with (Some db))"

definition transaction_is_active :: "Transaction \<Rightarrow> bool" where
  "transaction_is_active t \<longleftrightarrow> t \<noteq> None"

text \<open>The object, with the connections, is the state; it is left as it is when \<^verbatim>\<open>execute\<close> throws.\<close>

definition transaction_end ::
  "('e, 'r) sqlite_api \<Rightarrow> string \<Rightarrow> (('e \<times> (nat \<Rightarrow> Database)) \<times> Transaction, fault, unit) action" where
  "transaction_end api sql = (\<lambda>(w, t). case t of
       None \<Rightarrow> (Inr (), w, t)
     | Some i \<Rightarrow> (case on_object i (database_execute api sql) w of
           (Inl f, w) \<Rightarrow> (Inl f, w, t)
         | (Inr _, w) \<Rightarrow> (Inr (), w, None)))"

definition transaction_commit ::
  "('e, 'r) sqlite_api \<Rightarrow> (('e \<times> (nat \<Rightarrow> Database)) \<times> Transaction, fault, unit) action" where
  "transaction_commit api = transaction_end api ''COMMIT;''"

definition transaction_rollback ::
  "('e, 'r) sqlite_api \<Rightarrow> (('e \<times> (nat \<Rightarrow> Database)) \<times> Transaction, fault, unit) action" where
  "transaction_rollback api = transaction_end api ''ROLLBACK;''"

definition transaction_destruct ::
  "('e, 'r) sqlite_api \<Rightarrow> (('e \<times> (nat \<Rightarrow> Database)) \<times> Transaction, fault, unit) action" where
  "transaction_destruct api =
     noexcept (\<lambda>(w, t). if t \<noteq> None then transaction_rollback api (w, t) else (Inr (), w, t))"

definition transaction_move :: "Transaction \<Rightarrow> Transaction \<times> Transaction" where
  "transaction_move mv = (mv, None)"

definition transaction_assign ::
  "('e, 'r) sqlite_api \<Rightarrow> 'e \<times> (nat \<Rightarrow> Database) \<Rightarrow> Transaction \<Rightarrow> Transaction \<Rightarrow>
   (fault + unit) \<times> ('e \<times> (nat \<Rightarrow> Database)) \<times> Transaction \<times> Transaction" where
  "transaction_assign api w self mv =
     (case noexcept (transaction_rollback api) (w, self) of
        (Inl f, w, self) \<Rightarrow> (Inl f, w, self, mv)
      | (Inr _, w, self) \<Rightarrow> (Inr (), w, mv, self))"

text \<open>
  A block that opens a transaction: the calls are \<^verbatim>\<open>commit()\<close> (\<^verbatim>\<open>True\<close>) and \<^verbatim>\<open>rollback()\<close>
  (\<^verbatim>\<open>False\<close>); an exception leaves the block, and its end runs the destructor.
\<close>

fun transaction_calls ::
  "('e, 'r) sqlite_api \<Rightarrow> bool list \<Rightarrow> (('e \<times> (nat \<Rightarrow> Database)) \<times> Transaction, fault, unit) action" where
  "transaction_calls api [] s = (Inr (), s)"
| "transaction_calls api (c # cs) s =
     (case (if c then transaction_commit api s else transaction_rollback api s) of
        (Inl f, s) \<Rightarrow> (Inl f, s)
      | (Inr _, s) \<Rightarrow> transaction_calls api cs s)"

definition transaction_block ::
  "('e, 'r) sqlite_api \<Rightarrow> nat \<Rightarrow> bool list \<Rightarrow> ('e \<times> (nat \<Rightarrow> Database), fault, unit) action" where
  "transaction_block api db calls w =
     (case transaction_construct api db w of
        (Inl f, w) \<Rightarrow> (Inl f, w)
      | (Inr t, w) \<Rightarrow>
          (case transaction_calls api calls (w, t) of
             (r, s) \<Rightarrow>
               (case transaction_destruct api s of
                  (Inl f, w, _) \<Rightarrow> (Inl f, w)
                | (Inr _, w, _) \<Rightarrow> (r, w))))"

text \<open>The statements the engine has carried out, oldest first, in a history it keeps.\<close>

definition keeps_history :: "('e, 'r) sqlite_api \<Rightarrow> ('e \<Rightarrow> string list) \<Rightarrow> bool" where
  "keeps_history api done \<longleftrightarrow>
     (\<forall>h sql e ec rows message e'. api_exec api h sql e = ((ec, rows, message), e') \<longrightarrow>
        done e' = (if ec = 0 then done e @ [sql] else done e))"

lemma keeps_historyD:
  "keeps_history api hist \<Longrightarrow> api_exec api h sql e = ((ec, rows, message), e') \<Longrightarrow>
    hist e' = (if ec = 0 then hist e @ [sql] else hist e)"
  by (simp add: keeps_history_def)

lemma on_object_execute:
  assumes "keeps_history api hist" "on_object i (database_execute api sql) (e, objs) = (r, e', objs')"
  shows "objs' = objs \<and> (case r of Inr n \<Rightarrow> hist e' = hist e @ [sql] | Inl f \<Rightarrow> hist e' = hist e \<and> (\<exists>x. f = Thrown x))"
proof (cases "objs i")
  case None
  with assms(2) show ?thesis
    by (auto simp: on_object_def database_execute_def on_database_def fun_upd_idem)
next
  case (Some h)
  obtain ec rows message e1 where x: "api_exec api h sql e = ((ec, rows, message), e1)"
    by (cases "api_exec api h sql e") auto
  with assms(2) Some keeps_historyD [OF assms(1) x] show ?thesis
    by (cases "ec = 0"; cases message) (auto simp: on_object_def database_execute_def on_database_def fun_upd_idem)
qed

text \<open>An open transaction on the object, or one that has ended.\<close>

definition transaction_open :: "('e \<Rightarrow> string list) \<Rightarrow> string list \<Rightarrow> nat \<Rightarrow> ('e \<times> (nat \<Rightarrow> Database)) \<times> Transaction \<Rightarrow> bool" where
  "transaction_open hist before db = (\<lambda>((e, objs), t).
     (t = Some db \<and> hist e = before) \<or>
     (t = None \<and> (hist e = before @ [''COMMIT;''] \<or> hist e = before @ [''ROLLBACK;''])))"

lemma transaction_end_open:
  assumes "keeps_history api hist" "transaction_open hist before db s" "sql = ''COMMIT;'' \<or> sql = ''ROLLBACK;''"
    and "transaction_end api sql s = (r, s')"
  shows "transaction_open hist before db s' \<and> (r = Inr () \<longrightarrow> snd s' = None) \<and> (\<forall>f. r = Inl f \<longrightarrow> (\<exists>x. f = Thrown x))"
proof -
  obtain e objs t where s: "s = ((e, objs), t)" by (cases s) auto
  show ?thesis
  proof (cases t)
    case None
    with assms s show ?thesis by (auto simp: transaction_end_def)
  next
    case (Some i)
    obtain q e1 objs1 where q: "on_object i (database_execute api sql) (e, objs) = (q, e1, objs1)"
      by (cases "on_object i (database_execute api sql) (e, objs)") auto
    note h = on_object_execute [OF assms(1) q]
    show ?thesis
    proof (cases q)
      case (Inl f)
      with assms(2,4) s Some q h show ?thesis by (auto simp: transaction_end_def transaction_open_def)
    next
      case (Inr n)
      with assms(2-4) s Some q h show ?thesis by (auto simp: transaction_end_def transaction_open_def)
    qed
  qed
qed

lemma transaction_calls_open:
  assumes "keeps_history api hist" "transaction_open hist before db s" "transaction_calls api calls s = (r, s')"
  shows "transaction_open hist before db s'"
  using assms(2,3)
proof (induction calls arbitrary: s)
  case Nil
  then show ?case by simp
next
  case (Cons c cs)
  define sql where "sql = (if c then ''COMMIT;'' else ''ROLLBACK;'')"
  obtain q s1 where q: "transaction_end api sql s = (q, s1)" by (cases "transaction_end api sql s")
  have s1: "transaction_open hist before db s1"
    using transaction_end_open [OF assms(1) Cons.prems(1) _ q] by (simp add: sql_def split: if_splits)
  have "transaction_calls api (c # cs) s = (case q of Inl f \<Rightarrow> (Inl f, s1) | Inr _ \<Rightarrow> transaction_calls api cs s1)"
    using q by (simp add: sql_def transaction_commit_def transaction_rollback_def split: sum.splits if_splits)
  with s1 Cons.IH [OF s1] Cons.prems(2) show ?case by (simp split: sum.splits)
qed

text \<open>
  C35: a transaction ends. Whatever a block calls on its transaction and whichever statement the
  engine refuses - a commit that fails with an exception included - when the block has been left
  the engine has carried out the begin and exactly one commit or rollback; otherwise the
  program has been terminated, which happens when the begin or the rollback of the destructor fails.
\<close>

theorem transaction_ends:
  assumes "keeps_history api hist"
    and "transaction_block api db calls (e, objs) = (r, e', objs')"
  shows "r = Inl Terminates \<or>
    hist e' = hist e @ [''BEGIN TRANSACTION;'', ''COMMIT;''] \<or>
    hist e' = hist e @ [''BEGIN TRANSACTION;'', ''ROLLBACK;'']"
proof -
  obtain q e1 objs1 where q: "on_object db (database_execute api ''BEGIN TRANSACTION;'') (e, objs) = (q, e1, objs1)"
    by (cases "on_object db (database_execute api ''BEGIN TRANSACTION;'') (e, objs)") auto
  note h = on_object_execute [OF assms(1) q]
  show ?thesis
  proof (cases q)
    case (Inl f)
    with q h assms(2) show ?thesis
      by (auto simp: transaction_block_def transaction_construct_def and_then_def noexcept_def split: fault.splits)
  next
    case (Inr n)
    let ?s = "((e1, objs1), Some db)"
    have c: "transaction_construct api db (e, objs) = (Inr (Some db), e1, objs1)"
      using q Inr by (simp add: transaction_construct_def and_then_def noexcept_def)
    have o: "transaction_open hist (hist e @ [''BEGIN TRANSACTION;'']) db ?s"
      using h Inr by (simp add: transaction_open_def)
    obtain r1 s1 where cs: "transaction_calls api calls ?s = (r1, s1)" by (cases "transaction_calls api calls ?s")
    note o1 = transaction_calls_open [OF assms(1) o cs]
    obtain r2 s2 where rb: "transaction_end api ''ROLLBACK;'' s1 = (r2, s2)" by (cases "transaction_end api ''ROLLBACK;'' s1")
    note o2 = transaction_end_open [OF assms(1) o1 _ rb]
    have d: "transaction_destruct api s1 = noexcept (transaction_end api ''ROLLBACK;'') s1"
      by (cases "snd s1") (auto simp: transaction_destruct_def transaction_rollback_def noexcept_def
          transaction_end_def split: prod.splits)
    show ?thesis
    proof (cases r2)
      case (Inl f)
      with o2 obtain x where "f = Thrown x" by auto
      with Inl d rb have "transaction_destruct api s1 = (Inl Terminates, s2)" by (simp add: noexcept_def)
      with cs c assms(2) show ?thesis by (auto simp: transaction_block_def split: prod.splits)
    next
      case (Inr u)
      with o2 have "snd s2 = None" "transaction_open hist (hist e @ [''BEGIN TRANSACTION;'']) db s2" by auto
      moreover from Inr d rb have "transaction_destruct api s1 = (Inr (), s2)" by (simp add: noexcept_def)
      ultimately show ?thesis
        using cs c assms(2) by (auto simp: transaction_block_def transaction_open_def split: prod.splits)
    qed
  qed
qed

lemma demo_history: "keeps_history demo_api (\<lambda>e. rev (filter (\<lambda>sql. sql \<noteq> ''VACUUM'') (dl_log e)))"
  by (auto simp: keeps_history_def demo_api_def split: if_splits)

theorem transaction_ends_witness:
  "\<exists>r e' objs'. transaction_block demo_api 0 [True, False] (demo_lib0, (\<lambda>_. None)(0 := Some 1)) = (r, e', objs') \<and>
    (r = Inl Terminates \<or>
     rev (filter (\<lambda>sql. sql \<noteq> ''VACUUM'') (dl_log e')) = [''BEGIN TRANSACTION;'', ''COMMIT;''] \<or>
     rev (filter (\<lambda>sql. sql \<noteq> ''VACUUM'') (dl_log e')) = [''BEGIN TRANSACTION;'', ''ROLLBACK;''])"
proof -
  obtain r e' objs' where t: "transaction_block demo_api 0 [True, False] (demo_lib0, (\<lambda>_. None)(0 := Some 1)) = (r, e', objs')"
    by (cases "transaction_block demo_api 0 [True, False] (demo_lib0, (\<lambda>_. None)(0 := Some 1))") auto
  from transaction_ends [OF demo_history t] show ?thesis using t by (simp add: demo_lib0_def)
qed

section \<open>Functions and reserved bytes\<close>

text \<open>
  Who deletes a function given to \<^verbatim>\<open>register_function\<close>. On a closed connection the
  \<^verbatim>\<open>unique_ptr\<close> deletes it, once; a function that has been registered is not deleted by the call;
  but when the engine refuses it, \<^verbatim>\<open>createFunctionApi\<close> calls the destructor and the \<^verbatim>\<open>unique_ptr\<close>
  deletes the function a second time.
\<close>

theorem refused_function_deleted_twice:
  assumes "\<And>h name n fl p e. api_create_function api h name n fl p True e =
      createFunctionApi True create_func api_exit name n fl p True e"
    and "\<And>rc e. api_exit rc e = (rc, e)"
    and "create_func name (fo_argc f) (fo_flags f) (Some (fo_address f)) e = ((ec, referenced), e')"
    and "referenced \<longleftrightarrow> ec = 0"
  shows "register_function api name (Some f) (e, None) = (fst (throw_error Database_is_closed ()), 1, e, None) \<and>
    register_function api name (Some f) (e, Some h) =
      (if ec = 0 then (Inr (), 0, e', Some h) else (fst (throw_sqlite3 ec ()), 2, e', Some h))"
  using assms(2-4) by (simp add: register_function_def createFunctionApi_def assms(1) throw_error_def throw_sqlite3_def throw_def)

definition demo_create :: "string \<Rightarrow> int \<Rightarrow> int \<Rightarrow> nat option \<Rightarrow> demo_lib \<Rightarrow> (int \<times> bool) \<times> demo_lib" where
  "demo_create name argc flags p e = (if argc > 127 then ((21, False), e) else ((0, True), e))"

theorem refused_function_deleted_twice_witness:
  "register_function demo_api ''f'' (Some (function_construct 3 200 True False utf8)) (demo_lib0, Some 1) =
    (fst (throw_sqlite3 21 ()), 2, demo_lib0, Some 1)"
proof -
  have "api_create_function demo_api h name n fl p True e =
      createFunctionApi True demo_create (\<lambda>rc e. (rc, e)) name n fl p True e" for h name n fl p e
    by (simp add: demo_api_def createFunctionApi_def demo_create_def Let_def)
  moreover have "demo_create ''f'' (fo_argc (function_construct 3 200 True False utf8)) (fo_flags (function_construct 3 200 True False utf8))
      (Some (fo_address (function_construct 3 200 True False utf8))) demo_lib0 = ((21, False), demo_lib0)"
    by (simp add: demo_create_def function_construct_def)
  ultimately show ?thesis
    using refused_function_deleted_twice [of demo_api demo_create "\<lambda>rc e. (rc, e)" "''f''"
        "function_construct 3 200 True False utf8" demo_lib0 21 False demo_lib0 1] by simp
qed

text \<open>
  The extension and the member function agree. \<^verbatim>\<open>ysqlite3_init_crypt_db\<close> of the extension has
  the effect of \<^verbatim>\<open>set_reserved_size(32, true)\<close> on the connection, the vacuum that fails included:
  the same calls, the same state, and the code it returns is the one the member function throws.
\<close>

theorem crypt_db_reserves_32:
  "\<exists>ec e' n. ysqlite3_init_crypt_db api h e = (ec, e') \<and>
    database_set_reserved_size api 32 True (e, Some h) =
      (if ec \<noteq> 0 then throw_sqlite3 ec (e', Some h) else (Inr n, e', Some h))"
  by (auto simp: ysqlite3_init_crypt_db_def database_set_reserved_size_def on_database_def Let_def
      split: prod.splits)

text \<open>
  A connection that cannot be opened loses its handle. The engine returns a handle also when
  opening fails; \<^verbatim>\<open>open\<close> then forgets it without closing it, so the handle stays open and no object of the
  program holds it, and destroying the object does not close it either.
\<close>

theorem failed_open_loses_handle:
  assumes "handles_api api live" and "handles_owned live (e, objs)" and "objs i = None" and "vfs \<noteq> Some []"
    and "api_open_v2 api path flags vfs e = ((ec, Some h), e')" and "ec \<noteq> 0"
  shows "database_open api path flags vfs (e, objs i) = throw_sqlite3 ec (e', None) \<and>
    h \<in> live e' \<and> (\<forall>j. objs j \<noteq> Some h) \<and> database_destruct api (e', None) = (Inr (), e', None)"
proof -
  note n = handles_api_open(1) [OF assms(1,5)]
  then have "\<forall>j. objs j \<noteq> Some h" using assms(2) by (auto simp: handles_owned_def)
  with n assms(3-6) show ?thesis
    by (simp add: database_open_def and_then_def database_close_def database_destruct_def noexcept_def)
qed

theorem failed_open_loses_handle_witness:
  "database_open demo_api ''missing'' 6 None (demo_lib0, None) = throw_sqlite3 14 (demo_lib0\<lparr>dl_handles := [1]\<rparr>, None) \<and>
    1 \<in> set (dl_handles (demo_lib0\<lparr>dl_handles := [1]\<rparr>))"
proof -
  have "api_open_v2 demo_api ''missing'' 6 None demo_lib0 = ((14, Some 1), demo_lib0\<lparr>dl_handles := [1]\<rparr>)"
    "handles_owned (\<lambda>e. set (dl_handles e)) (demo_lib0, \<lambda>_. None)"
    by (simp_all add: demo_api_def demo_lib0_def handles_owned_def)
  from failed_open_loses_handle [OF demo_handles this(2) _ _ this(1)] show ?thesis by simp
qed

end
