(* ===== verification/Ys_Function.thy ===== *)
theory Ys_Function
  imports Ys_Database Ys_Vfs_Registry
begin

text \<open>
  The SQL functions and the entry points: \<^verbatim>\<open>function/function.hpp\<close> (\<^verbatim>\<open>Function::xfunc\<close>, which
  turns exceptions into results), \<^verbatim>\<open>function/digest.cpp\<close>, \<^verbatim>\<open>function/regexp.cpp\<close>,
  \<^verbatim>\<open>ysqlite3_register_crypt_vfs\<close> of the extension and \<^verbatim>\<open>ysqlite3_init\<close> of the shell; of \<^verbatim>\<open>sqlite3.c\<close>
  \<^verbatim>\<open>sqlite3_result_error\<close> with the part of \<^verbatim>\<open>sqlite3VdbeMemSetStr\<close> it uses. OpenSSL's digests and
  \<^verbatim>\<open>std::regex\<close> are parameters.
\<close>

section \<open>Results\<close>

text \<open>
  An argument as \<^verbatim>\<open>sqlite3_value_text\<close>, \<^verbatim>\<open>sqlite3_value_blob\<close> and \<^verbatim>\<open>sqlite3_value_int\<close> deliver it;
  \<^verbatim>\<open>sqlite3_value_bytes\<close> is the length of the blob. The context holds the error flag, the cell of
  the result and the auxiliary data of argument 0.
\<close>

record sql_value =
  sv_text :: "string option"
  sv_blob :: "byte list"
  sv_int :: int

datatype fn_value = Fn_null | Fn_text string | Fn_blob "byte list" | Fn_int int

record 'x fn_context =
  fc_isError :: int
  fc_out :: fn_value
  fc_aux :: "'x option"

text \<open>
  \<^verbatim>\<open>sqlite3VdbeMemSetStr\<close> for a C string in UTF-8 that is copied: \<open>n\<close> is a number of bytes, or
  negative for the length of the string. Bytes behind the terminator do not belong to the
  string, so reading them has no defined result. A string over the limit leaves the cell alone.
\<close>

definition mem_set_text :: "int \<Rightarrow> string \<Rightarrow> int \<Rightarrow> fn_value \<Rightarrow> (fault + fn_value)" where
  "mem_set_text limit z n out =
     (let nByte = (if n < 0 then int (length z) else n) in
      if nByte > limit then Inr out
      else if n < 0 then Inr (Fn_text z)
      else if nByte > int (length z) + 1 then Inl Undefined
      else Inr (Fn_text (take (nat nByte) (z @ [CHR 0x00]))))"

definition sqlite3_result_error :: "int \<Rightarrow> string \<Rightarrow> int \<Rightarrow> ('x fn_context, fault, unit) action" where
  "sqlite3_result_error limit z n = (\<lambda>c.
     let c = c\<lparr>fc_isError := SQLITE_ERROR\<rparr> in
     case mem_set_text limit z n (fc_out c) of
       Inl f \<Rightarrow> (Inl f, c)
     | Inr out \<Rightarrow> (Inr (), c\<lparr>fc_out := out\<rparr>))"

definition sqlite3_result :: "fn_value \<Rightarrow> ('x fn_context, fault, unit) action" where
  "sqlite3_result v = (\<lambda>c. (Inr (), c\<lparr>fc_out := v\<rparr>))"

section \<open>Function\<close>

text \<open>
  \<^verbatim>\<open>what\<close> gives the message of a standard exception. The third argument of
  \<^verbatim>\<open>sqlite3_result_error\<close> is what the code passes there.
\<close>

datatype thrown = Std_system_error error_code string | Std_exception string | Not_an_exception

definition xfunc ::
  "int \<Rightarrow> ('x fn_context \<Rightarrow> (thrown + unit) \<times> 'x fn_context) \<Rightarrow> ('x fn_context, fault, unit) action" where
  "xfunc limit run = (\<lambda>c. case run c of
       (Inr _, c) \<Rightarrow> (Inr (), c)
     | (Inl (Std_system_error ec what), c) \<Rightarrow> sqlite3_result_error limit what (ec_value ec) c
     | (Inl (Std_exception what), c) \<Rightarrow> sqlite3_result_error limit what (- 1) c
     | (Inl Not_an_exception, c) \<Rightarrow> sqlite3_result_error limit ''function threw an exception'' (- 1) c)"

section \<open>Digests\<close>

text \<open>
  OpenSSL: looking a digest up by its name (which may be a null pointer), starting a context,
  feeding it, its size and finishing it.
\<close>

record ('md, 'c) digest_lib =
  evp_by_name :: "string option \<Rightarrow> 'md option"
  evp_init :: "'md \<Rightarrow> 'c option"
  evp_update :: "'c \<Rightarrow> byte list \<Rightarrow> 'c"
  evp_final :: "'c \<Rightarrow> byte list"

definition evp_digest ::
  "int \<Rightarrow> bool \<Rightarrow> ('md, 'c) digest_lib \<Rightarrow> 'md \<Rightarrow> sql_value list \<Rightarrow> ('x fn_context, fault, unit) action" where
  "evp_digest limit malloc_ok lib md argv =
     (case evp_init lib md of
        None \<Rightarrow> sqlite3_result_error limit ''failed to initialize digest'' SQLITE_ERROR
      | Some ctx \<Rightarrow>
          let ctx = foldl (\<lambda>ctx v. evp_update lib ctx (sv_blob v)) ctx argv in
          if malloc_ok then sqlite3_result (Fn_blob (evp_final lib ctx)) else throw Undefined)"

text \<open>\<^verbatim>\<open>argv[0]\<close> is read without a look at \<^verbatim>\<open>argc\<close>.\<close>

definition digest ::
  "int \<Rightarrow> bool \<Rightarrow> ('md, 'c) digest_lib \<Rightarrow> sql_value list \<Rightarrow> ('x fn_context, fault, unit) action" where
  "digest limit malloc_ok lib argv =
     (case argv of
        [] \<Rightarrow> throw Undefined
      | v # argv \<Rightarrow>
          (case evp_by_name lib (sv_text v) of
             None \<Rightarrow> sqlite3_result_error limit ''digest method unknown'' SQLITE_ERROR
           | Some md \<Rightarrow> evp_digest limit malloc_ok lib md argv))"

datatype evp_md = EVP_md5 | EVP_sha1 | EVP_sha224 | EVP_sha256 | EVP_sha384 | EVP_sha512 |
  EVP_sha3_224 | EVP_sha3_256 | EVP_sha3_384 | EVP_sha3_512

definition md5 :: "int \<Rightarrow> bool \<Rightarrow> (evp_md, 'c) digest_lib \<Rightarrow> sql_value list \<Rightarrow> ('x fn_context, fault, unit) action" where
  "md5 limit malloc_ok lib = evp_digest limit malloc_ok lib EVP_md5"

definition sha1 :: "int \<Rightarrow> bool \<Rightarrow> (evp_md, 'c) digest_lib \<Rightarrow> sql_value list \<Rightarrow> ('x fn_context, fault, unit) action" where
  "sha1 limit malloc_ok lib = evp_digest limit malloc_ok lib EVP_sha1"

definition sha2_md :: "int \<Rightarrow> evp_md option" where
  "sha2_md n = (if n = 226 then Some EVP_sha224 else if n = 256 then Some EVP_sha256
     else if n = 384 then Some EVP_sha384 else if n = 512 then Some EVP_sha512 else None)"

definition sha3_md :: "int \<Rightarrow> evp_md option" where
  "sha3_md n = (if n = 226 then Some EVP_sha3_224 else if n = 256 then Some EVP_sha3_256
     else if n = 384 then Some EVP_sha3_384 else if n = 512 then Some EVP_sha3_512 else None)"

definition sha2 :: "int \<Rightarrow> bool \<Rightarrow> (evp_md, 'c) digest_lib \<Rightarrow> sql_value list \<Rightarrow> ('x fn_context, fault, unit) action" where
  "sha2 limit malloc_ok lib argv =
     (case argv of
        [] \<Rightarrow> throw Undefined
      | v # argv \<Rightarrow>
          (case sha2_md (sv_int v) of
             None \<Rightarrow> sqlite3_result_error limit ''invalid SHA-2 length'' SQLITE_ERROR
           | Some md \<Rightarrow> evp_digest limit malloc_ok lib md argv))"

definition sha3 :: "int \<Rightarrow> bool \<Rightarrow> (evp_md, 'c) digest_lib \<Rightarrow> sql_value list \<Rightarrow> ('x fn_context, fault, unit) action" where
  "sha3 limit malloc_ok lib argv =
     (case argv of
        [] \<Rightarrow> throw Undefined
      | v # argv \<Rightarrow>
          (case sha3_md (sv_int v) of
             None \<Rightarrow> sqlite3_result_error limit ''invalid SHA-3 length'' SQLITE_ERROR
           | Some md \<Rightarrow> evp_digest limit malloc_ok lib md argv))"

section \<open>Regular expressions\<close>

text \<open>
  \<open>compile\<close> is the constructor of \<^verbatim>\<open>std::regex\<close> (or the message of its \<^verbatim>\<open>regex_error\<close>), \<open>matches\<close> is
  \<^verbatim>\<open>std::regex_match\<close> (or the message of the exception it throws), and \<open>what_of\<close> the message of a \<^verbatim>\<open>std::system_error\<close> with the given text.
  \<open>keeps\<close> says whether \<^verbatim>\<open>sqlite3_set_auxdata\<close> keeps the object; it is free to delete it at once,
  and the code then uses a deleted object. The result is an exception or the end of the call,
  each of which may be undefined.
\<close>

definition regexp_run ::
  "bool \<Rightarrow> (string \<Rightarrow> string + 'x) \<Rightarrow> ('x \<Rightarrow> string \<Rightarrow> string + bool) \<Rightarrow> (error_code \<Rightarrow> string \<Rightarrow> string) \<Rightarrow>
   sql_value list \<Rightarrow> 'x fn_context \<Rightarrow> (fault + (thrown + unit)) \<times> 'x fn_context" where
  "regexp_run keeps compile matches what_of argv c =
     (let fail = (\<lambda>msg. (Inr (Inl (Std_system_error (make_error_code SQLITE_ERROR) (what_of (make_error_code SQLITE_ERROR) msg))), c));
          finish = (\<lambda>pattern c. case sv_text (argv ! 1) of
            None \<Rightarrow> (Inr (Inr ()), c\<lparr>fc_out := Fn_int 0\<rparr>)
          | Some str \<Rightarrow>
              (case matches pattern str of
                 Inl e \<Rightarrow> (Inr (Inl (Std_exception e)), c)
               | Inr b \<Rightarrow> (Inr (Inr ()), c\<lparr>fc_out := Fn_int (if b then 1 else 0)\<rparr>)))
      in
      if length argv \<noteq> 2 then fail ''requires 2 arguments''
      else case fc_aux c of
          Some pattern \<Rightarrow> finish pattern c
        | None \<Rightarrow>
            (case sv_text (argv ! 0) of
               None \<Rightarrow> fail ''bad regex''
             | Some str \<Rightarrow>
                 (case compile str of
                    Inl e \<Rightarrow> fail e
                  | Inr pattern \<Rightarrow>
                      if keeps then finish pattern (c\<lparr>fc_aux := Some pattern\<rparr>)
                      else if sv_text (argv ! 1) = None then (Inr (Inr ()), c\<lparr>fc_out := Fn_int 0\<rparr>)
                      else (Inl Undefined, c))))"

text \<open>The function as SQLite calls it: \<^verbatim>\<open>xfunc\<close> around \<^verbatim>\<open>run\<close>.\<close>

definition regexp ::
  "int \<Rightarrow> bool \<Rightarrow> (string \<Rightarrow> string + 'x) \<Rightarrow> ('x \<Rightarrow> string \<Rightarrow> string + bool) \<Rightarrow> (error_code \<Rightarrow> string \<Rightarrow> string) \<Rightarrow>
   sql_value list \<Rightarrow> ('x fn_context, fault, unit) action" where
  "regexp limit keeps compile matches what_of argv = (\<lambda>c.
     case regexp_run keeps compile matches what_of argv c of
       (Inl f, c) \<Rightarrow> (Inl f, c)
     | (Inr r, c) \<Rightarrow> xfunc limit (\<lambda>_. (r, c)) c)"

section \<open>Entry points\<close>

text \<open>
  \<^verbatim>\<open>std::make_shared\<close> puts the new wrapper at a free address \<open>a\<close> of the heap the list of VFS
  objects lives in; \<^verbatim>\<open>max_pathname\<close> reads the limit of the VFS it wraps, which is a null pointer when
  nothing is registered.
\<close>

definition make_vfs :: "nat \<Rightarrow> string \<Rightarrow> vfs_globals vfs_world \<Rightarrow> vfs_globals vfs_world" where
  "make_vfs a name w =
     w\<lparr>vw_registry := (vw_registry w)\<lparr>vg_heap := (vg_heap (vw_registry w))(a \<mapsto> \<lparr>v_zName = name, v_pNext = None\<rparr>)\<rparr>,
       vw_registered := (vw_registered w)(a := False)\<rparr>"

definition register_crypt_vfs ::
  "nat \<Rightarrow> string \<Rightarrow> vfs_globals vfs_world \<Rightarrow> ((fault + unit) \<times> vfs_globals vfs_world) option" where
  "register_crypt_vfs a name w =
     (case find_vfs (sqlite3_vfs_find 0) None w of
        None \<Rightarrow> None
      | Some (Inl f) \<Rightarrow> Some (Inl f, w)
      | Some (Inr None) \<Rightarrow> Some (Inl Undefined, make_vfs a name w)
      | Some (Inr (Some parent)) \<Rightarrow>
          register_vfs (sqlite3_vfs_register 0) (\<lambda>_. vw_mxPathname w parent) (Some a) False (make_vfs a name w))"

definition caught :: "int \<Rightarrow> ((fault + unit) \<times> 's) option \<Rightarrow> ((fault + int) \<times> 's) option" where
  "caught ok r = map_option (\<lambda>(r, s). (case r of
       Inr _ \<Rightarrow> Inr ok
     | Inl (Thrown _) \<Rightarrow> Inr SQLITE_ERROR
     | Inl f \<Rightarrow> Inl f, s)) r"

definition ysqlite3_init :: "nat \<Rightarrow> string \<Rightarrow> vfs_globals vfs_world \<Rightarrow> ((fault + int) \<times> vfs_globals vfs_world) option" where
  "ysqlite3_init a name w = caught SQLITE_OK (register_crypt_vfs a name w)"

definition SQLITE_OK_LOAD_PERMANENTLY :: int where "SQLITE_OK_LOAD_PERMANENTLY = 256"

text \<open>The result also has the message for the loader.\<close>

definition ysqlite3_register_crypt_vfs ::
  "int \<Rightarrow> nat \<Rightarrow> string \<Rightarrow> vfs_globals vfs_world \<Rightarrow> (string option \<times> (fault + int) \<times> vfs_globals vfs_world) option" where
  "ysqlite3_register_crypt_vfs libversion_number a name w =
     (if libversion_number < 3032000 then
        Some (Some ''incompatible SQLite3 version; min 3.32.0'', Inr SQLITE_ERROR, w)
      else map_option (\<lambda>r. (None, r)) (caught SQLITE_OK_LOAD_PERMANENTLY (register_crypt_vfs a name w)))"

section \<open>Properties\<close>

lemma mem_set_text_prefix:
  "0 \<le> n \<Longrightarrow> n \<le> limit \<Longrightarrow> n \<le> int (length z) \<Longrightarrow> mem_set_text limit z n out = Inr (Fn_text (take (nat n) z))"
  by (simp add: mem_set_text_def Let_def)

lemma mem_set_text_behind:
  "n \<le> limit \<Longrightarrow> int (length z) + 1 < n \<Longrightarrow> mem_set_text limit z n out = Inl Undefined"
  by (simp add: mem_set_text_def Let_def)

lemma mem_set_text_all:
  "int (length z) \<le> limit \<Longrightarrow> mem_set_text limit z (- 1) out = Inr (Fn_text z)"
  by (simp add: mem_set_text_def Let_def)

lemmas mem_set_text_simps = mem_set_text_prefix mem_set_text_behind mem_set_text_all

text \<open>
  An exception with an error code loses its message. \<^verbatim>\<open>xfunc\<close> passes the code where
  \<^verbatim>\<open>sqlite3_result_error\<close> takes the length of the message: the result of the function is the first
  \<open>n\<close> bytes of the message, \<open>n\<close> being the error code, and a code beyond the terminator makes SQLite
  read memory that does not belong to the message. Exceptions without a code keep their message.
\<close>

theorem function_error_cut_to_code:
  assumes "run c = (Inl x, c')" and "int (length what) \<le> limit"
  shows "(x = Std_system_error ec what \<and> 0 \<le> ec_value ec \<and> ec_value ec \<le> int (length what) \<longrightarrow>
      xfunc limit run c = (Inr (), c'\<lparr>fc_isError := SQLITE_ERROR, fc_out := Fn_text (take (nat (ec_value ec)) what)\<rparr>)) \<and>
    (x = Std_system_error ec what \<and> int (length what) + 1 < ec_value ec \<and> ec_value ec \<le> limit \<longrightarrow>
      fst (xfunc limit run c) = Inl Undefined) \<and>
    (x = Std_exception what \<longrightarrow>
      xfunc limit run c = (Inr (), c'\<lparr>fc_isError := SQLITE_ERROR, fc_out := Fn_text what\<rparr>))"
  using assms by (auto simp: xfunc_def sqlite3_result_error_def mem_set_text_simps)

definition demo_context_fn :: "nat fn_context" where
  "demo_context_fn = \<lparr>fc_isError = 0, fc_out = Fn_null, fc_aux = None\<rparr>"

theorem function_error_cut_to_code_witness:
  "xfunc 1000 (\<lambda>c. (Inl (Std_system_error (make_error_code 1) ''bad regex''), c)) demo_context_fn =
    (Inr (), demo_context_fn\<lparr>fc_isError := SQLITE_ERROR, fc_out := Fn_text ''b''\<rparr>)"
proof -
  have e: "ec_value (make_error_code 1) = 1" by (simp add: make_error_code_def)
  show ?thesis
    using function_error_cut_to_code [of "\<lambda>c. (Inl (Std_system_error (make_error_code 1) ''bad regex''), c)"
        demo_context_fn "Std_system_error (make_error_code 1) ''bad regex''" demo_context_fn "''bad regex''" 1000 "make_error_code 1"]
    by (simp add: e)
qed

text \<open>
  What the digest functions return. With a library that hashes what it is fed, the result of
  \<^verbatim>\<open>sha2\<close> and \<^verbatim>\<open>sha3\<close> is the digest of all further arguments one after the other, for the sizes 256,
  384 and 512; the size 224 is refused, with a message cut down to its first letter.
\<close>

theorem sha_sizes:
  assumes "\<And>md. evp_init lib md \<noteq> None"
    and "\<And>md c xs. evp_init lib md = Some c \<Longrightarrow> evp_final lib (foldl (evp_update lib) c xs) = hash md (concat xs)"
    and "1 \<le> limit"
  shows "sha2 limit True lib (v # argv) c =
      (if sv_int v \<in> {226, 256, 384, 512}
       then (Inr (), c\<lparr>fc_out := Fn_blob (hash (the (sha2_md (sv_int v))) (concat (map sv_blob argv)))\<rparr>)
       else (Inr (), c\<lparr>fc_isError := SQLITE_ERROR, fc_out := Fn_text ''i''\<rparr>)) \<and>
    sha3 limit True lib (v # argv) c =
      (if sv_int v \<in> {226, 256, 384, 512}
       then (Inr (), c\<lparr>fc_out := Fn_blob (hash (the (sha3_md (sv_int v))) (concat (map sv_blob argv)))\<rparr>)
       else (Inr (), c\<lparr>fc_isError := SQLITE_ERROR, fc_out := Fn_text ''i''\<rparr>)) \<and>
    sha2_md 224 = None \<and> sha3_md 224 = None"
proof -
  have d: "evp_digest limit True lib md argv c = (Inr (), c\<lparr>fc_out := Fn_blob (hash md (concat (map sv_blob argv)))\<rparr>)" for md
  proof -
    obtain c0 where i: "evp_init lib md = Some c0" using assms(1) by blast
    have "foldl (\<lambda>c v. evp_update lib c (sv_blob v)) c0 argv = foldl (evp_update lib) c0 (map sv_blob argv)"
      by (simp add: foldl_map)
    with i assms(2) [OF i] show ?thesis by (simp add: evp_digest_def sqlite3_result_def)
  qed
  show ?thesis
    using assms(3) by (simp add: sha2_def sha3_def sha2_md_def sha3_md_def d sqlite3_result_error_def mem_set_text_prefix SQLITE_ERROR_def)
qed

definition demo_digest :: "(evp_md, byte list) digest_lib" where
  "demo_digest = \<lparr>evp_by_name = (\<lambda>_. Some EVP_md5), evp_init = (\<lambda>_. Some []), evp_update = (@), evp_final = (\<lambda>c. c)\<rparr>"

lemma foldl_append_concat: "foldl (@) a xs = a @ concat xs"
  by (induction xs arbitrary: a) simp_all

theorem sha_sizes_witness:
  "sha2 1000 True demo_digest [\<lparr>sv_text = None, sv_blob = [], sv_int = 224\<rparr>] demo_context_fn =
     (Inr (), demo_context_fn\<lparr>fc_isError := SQLITE_ERROR, fc_out := Fn_text ''i''\<rparr>) \<and>
   sha3 1000 True demo_digest [\<lparr>sv_text = None, sv_blob = [], sv_int = 512\<rparr>, \<lparr>sv_text = None, sv_blob = [1], sv_int = 0\<rparr>,
     \<lparr>sv_text = None, sv_blob = [2, 3], sv_int = 0\<rparr>] demo_context_fn = (Inr (), demo_context_fn\<lparr>fc_out := Fn_blob [1, 2, 3]\<rparr>)"
proof -
  have a: "evp_init demo_digest md \<noteq> None" for md by (simp add: demo_digest_def)
  have b: "evp_init demo_digest md = Some c \<Longrightarrow> evp_final demo_digest (foldl (evp_update demo_digest) c xs) = concat xs" for md c xs
    by (simp add: demo_digest_def foldl_append_concat)
  have l: "(1 :: int) \<le> 1000" by simp
  note s = sha_sizes [where hash = "\<lambda>_ xs. xs" and lib = demo_digest and limit = 1000, OF a b l]
  show ?thesis
    using s [where v = "\<lparr>sv_text = None, sv_blob = [], sv_int = 224\<rparr>" and argv = "[]" and c = demo_context_fn]
      s [where v = "\<lparr>sv_text = None, sv_blob = [], sv_int = 512\<rparr>" and argv = "[\<lparr>sv_text = None, sv_blob = [1], sv_int = 0\<rparr>, \<lparr>sv_text = None, sv_blob = [2, 3], sv_int = 0\<rparr>]" and c = demo_context_fn]
    by simp
qed

text \<open>
  The function over the rows of a query with one pattern: the results, row by row, and the
  context after the last.
\<close>

fun regexp_rows ::
  "(sql_value \<Rightarrow> ('x fn_context, fault, unit) action) \<Rightarrow> sql_value list \<Rightarrow> 'x fn_context \<Rightarrow> fn_value list option" where
  "regexp_rows f [] c = Some []"
| "regexp_rows f (v # vs) c =
     (case f v c of (Inl _, _) \<Rightarrow> None
      | (Inr _, c) \<Rightarrow> map_option ((#) (fc_out c)) (regexp_rows f vs c))"

text \<open>
  C36: the cache of the compiled pattern cannot be seen. When the engine keeps the auxiliary data, a query
  with a constant pattern gets, for every row, whether the whole subject matches (and 0 for a null
  subject), although the pattern is compiled for the first row only.
\<close>

theorem regexp_cache_transparent:
  assumes "compile p = Inr rx" and "sv_text pattern = Some p" and "\<And>s. matches rx s = Inr (accepts s)"
    and "fc_aux c = None \<or> fc_aux c = Some rx"
  shows "regexp_rows (\<lambda>v. regexp limit True compile matches what_of [pattern, v]) vs c =
    Some (map (\<lambda>v. Fn_int (case sv_text v of None \<Rightarrow> 0 | Some s \<Rightarrow> if accepts s then 1 else 0)) vs)"
  using assms(4)
proof (induction vs arbitrary: c)
  case Nil
  then show ?case by simp
next
  case (Cons v vs)
  let ?n = "Fn_int (case sv_text v of None \<Rightarrow> 0 | Some s \<Rightarrow> if accepts s then 1 else 0)"
  have "regexp limit True compile matches what_of [pattern, v] c = (Inr (), c\<lparr>fc_out := ?n, fc_aux := Some rx\<rparr>)"
    if "fc_aux c = None"
    using assms(1-3) that by (simp add: regexp_def regexp_run_def xfunc_def Let_def split: option.split)
  moreover have "regexp limit True compile matches what_of [pattern, v] c = (Inr (), c\<lparr>fc_out := ?n\<rparr>)"
    if "fc_aux c = Some rx"
    using assms(1-3) that by (simp add: regexp_def regexp_run_def xfunc_def Let_def split: option.split)
  ultimately show ?case using Cons by auto
qed

theorem regexp_cache_transparent_witness:
  "regexp_rows (\<lambda>v. regexp 1000 True (\<lambda>p. Inr (length p)) (\<lambda>rx s. Inr (length s = rx)) (\<lambda>_ m. m)
      [\<lparr>sv_text = Some ''ab'', sv_blob = [], sv_int = 0\<rparr>, v])
     [\<lparr>sv_text = Some ''xy'', sv_blob = [], sv_int = 0\<rparr>, \<lparr>sv_text = None, sv_blob = [], sv_int = 0\<rparr>] demo_context_fn =
   Some [Fn_int 1, Fn_int 0]"
  by (subst regexp_cache_transparent [where p = "''ab''" and rx = 2 and accepts = "\<lambda>s. length s = 2"])
    (simp_all add: demo_context_fn_def)

lemma vfs_list_new_node:
  assumes "vfs_list g as" "vg_heap g a = None"
  shows "vfs_list (g\<lparr>vg_heap := (vg_heap g)(a \<mapsto> n)\<rparr>) as" "a \<notin> set as"
proof -
  have in_heap: "vfs_chain h p xs \<Longrightarrow> x \<in> set xs \<Longrightarrow> h x \<noteq> None" for h p xs x
    by (induction xs arbitrary: p) (auto split: option.splits)
  from assms in_heap [of "vg_heap g" "vg_vfsList g" as a] show n: "a \<notin> set as" by (auto simp: vfs_list_def)
  from assms n show "vfs_list (g\<lparr>vg_heap := (vg_heap g)(a \<mapsto> n)\<rparr>) as"
    by (auto simp: vfs_list_def intro!: vfs_chain_cong [of "vg_heap g"])
qed

text \<open>
  Loading the extension registers the encrypting VFS. With a registered default VFS, the
  entry points return their success code; the new VFS stands behind the default one, which stays
  the default, is found under its name when no other VFS has it, and takes over the path limit of the
  VFS it wraps.
\<close>

theorem crypt_vfs_registered:
  assumes "vfs_list (vw_registry w) (d # as)" and "vg_heap (vw_registry w) a = None"
    and "\<forall>b\<in>set (d # as). vfs_names (vw_registry w) b \<noteq> Some name"
  shows "\<exists>w'. ysqlite3_init a name w = Some (Inr SQLITE_OK, w') \<and>
    (\<forall>v\<ge>3032000. ysqlite3_register_crypt_vfs v a name w = Some (None, Inr SQLITE_OK_LOAD_PERMANENTLY, w')) \<and>
    vfs_list (vw_registry w') (d # a # as) \<and>
    find_vfs (sqlite3_vfs_find 0) None w' = Some (Inr (Some d)) \<and>
    find_vfs (sqlite3_vfs_find 0) (Some name) w' = Some (Inr (Some a)) \<and>
    vw_mxPathname w' a = vw_mxPathname w d"
proof -
  let ?w = "make_vfs a name w"
  note new = vfs_list_new_node [OF assms(1,2)]
  have l: "vfs_list (vw_registry ?w) (d # as)" using new(1) by (simp add: make_vfs_def)
  have nm: "vfs_names (vw_registry ?w) a = Some name" "\<not> is_registered a ?w"
    by (simp_all add: make_vfs_def vfs_names_def is_registered_def)
  have p: "find_vfs (sqlite3_vfs_find 0) None w = Some (Inr (Some d))"
    using vfslist.finds [OF assms(1), of None] by (simp add: find_vfs_def list_find_def)
  from vfslist.register_ok [OF l, of a "\<lambda>_. vw_mxPathname w d" False] nm obtain w' where
    w': "register_vfs (sqlite3_vfs_register 0) (\<lambda>_. vw_mxPathname w d) (Some a) False ?w = Some (Inr (), w')"
      "vfs_list (vw_registry w') (list_register a False (d # as))" "vfs_names (vw_registry w') = vfs_names (vw_registry ?w)"
      "vw_mxPathname w' a = vw_mxPathname w d"
    by auto
  have r: "list_register a False (d # as) = d # a # as"
    using new(2) by (auto simp: list_register_def remove1_idem)
  have na: "vfs_names (vw_registry ?w) b \<noteq> Some name" if "b = d" for b
    using assms(3) new(2) that by (auto simp: make_vfs_def vfs_names_def)
  from p w'(1) have c: "register_crypt_vfs a name w = Some (Inr (), w')" by (simp add: register_crypt_vfs_def)
  have "find_vfs (sqlite3_vfs_find 0) None w' = Some (Inr (Some d))"
    "find_vfs (sqlite3_vfs_find 0) (Some name) w' = Some (Inr (Some a))"
    using vfslist.finds [OF w'(2) [unfolded r]] w'(3) na nm(1) by (simp_all add: find_vfs_def list_find_def)
  with c w' r show ?thesis
    by (auto simp: ysqlite3_init_def ysqlite3_register_crypt_vfs_def caught_def)
qed

theorem crypt_vfs_registered_witness:
  "\<exists>w'. ysqlite3_init 9 ''ysqlite3-crypt'' \<lparr>vw_registry = demo_registry, vw_registered = (\<lambda>_. False), vw_mxPathname = (\<lambda>_. 512)\<rparr> =
      Some (Inr SQLITE_OK, w') \<and> vfs_list (vw_registry w') [1, 9, 2]"
proof -
  let ?w = "\<lparr>vw_registry = demo_registry, vw_registered = (\<lambda>_. False), vw_mxPathname = (\<lambda>_. 512)\<rparr>"
  have "vfs_list (vw_registry ?w) [1, 2]" "vg_heap (vw_registry ?w) 9 = None"
    "\<forall>b\<in>set [1, 2]. vfs_names (vw_registry ?w) b \<noteq> Some ''ysqlite3-crypt''"
    using demo_registry_list by (simp_all add: demo_registry_def vfs_names_def)
  from crypt_vfs_registered [OF this] show ?thesis by blast
qed

end
