(* ===== verification/Ys_Hash.thy ===== *)
theory Ys_Hash
  imports Ys_Uri "HOL-Library.Monad_Syntax"
begin

text \<open>
  The hash tables of \<^verbatim>\<open>sqlite3.c\<close> (\<^verbatim>\<open>hash.c\<close>), which SQLite uses for its symbol tables: all
  elements are on one doubly linked list, the elements of a bucket stand next to each other on it,
  and a bucket knows its first element and how many there are. Elements are cells of a heap. The
  table refines a map from folded names to data. The counts and sizes, \<^verbatim>\<open>unsigned int\<close> in the code, are natural
  numbers: they agree below \<open>2 ^ 32\<close> elements, which is more than memory for the elements allows.
\<close>

section \<open>The table\<close>

record HashElem =
  he_next :: "nat option"
  he_prev :: "nat option"
  he_data :: "nat option"
  he_pKey :: string

type_synonym hash_heap = "nat \<Rightarrow> HashElem option"

record ht_entry =
  ht_count :: nat
  ht_chain :: "nat option"

text \<open>An empty \<open>h_ht\<close> is the null pointer; \<^verbatim>\<open>htsize\<close> is kept beside it, as in the code.\<close>

record Hash =
  h_htsize :: nat
  h_count :: nat
  h_first :: "nat option"
  h_ht :: "ht_entry list"

definition sqlite3HashInit :: Hash where
  "sqlite3HashInit = \<lparr>h_htsize = 0, h_count = 0, h_first = None, h_ht = []\<rparr>"

text \<open>
  Functions that follow pointers return an option: \<^verbatim>\<open>None\<close> stands for a pointer that is null or has
  been freed, and for a loop that does not end.
\<close>

definition he_write :: "hash_heap \<Rightarrow> nat \<Rightarrow> (HashElem \<Rightarrow> HashElem) \<Rightarrow> hash_heap option" where
  "he_write heap a f = (case heap a of None \<Rightarrow> None | Some e \<Rightarrow> Some (heap(a \<mapsto> f e)))"

partial_function (option) free_loop :: "hash_heap \<Rightarrow> nat option \<Rightarrow> hash_heap option" where
  "free_loop heap elem =
     (case elem of
        None \<Rightarrow> Some heap
      | Some a \<Rightarrow> (case heap a of None \<Rightarrow> None | Some e \<Rightarrow> free_loop (heap(a := None)) (he_next e)))"

definition sqlite3HashClear :: "hash_heap \<Rightarrow> Hash \<Rightarrow> (hash_heap \<times> Hash) option" where
  "sqlite3HashClear heap pH =
     map_option (\<lambda>heap. (heap, \<lparr>h_htsize = 0, h_count = 0, h_first = None, h_ht = []\<rparr>)) (free_loop heap (h_first pH))"

definition strHash :: "string \<Rightarrow> 32 word" where
  "strHash z = fold (\<lambda>c h. (h + of_nat (sqlite3UpperToLower ! of_char c)) * 0x9e3779b1) z 0"

definition insertElement :: "hash_heap \<Rightarrow> Hash \<Rightarrow> nat option \<Rightarrow> nat \<Rightarrow> (hash_heap \<times> Hash) option" where
  "insertElement heap pH pEntry pNew =
     (let (pHead, pH) =
        (case pEntry of
           None \<Rightarrow> (None, pH)
         | Some h \<Rightarrow>
             let e = h_ht pH ! h in
             (if ht_count e \<noteq> 0 then ht_chain e else None,
              pH\<lparr>h_ht := (h_ht pH)[h := \<lparr>ht_count = ht_count e + 1, ht_chain = Some pNew\<rparr>]\<rparr>)) in
      case pHead of
        Some head \<Rightarrow> do {
          heap \<leftarrow> he_write heap pNew (he_next_update (\<lambda>_. Some head));
          e \<leftarrow> heap head;
          heap \<leftarrow> he_write heap pNew (he_prev_update (\<lambda>_. he_prev e));
          (heap, pH) \<leftarrow> (case he_prev e of
              Some p \<Rightarrow> do { heap \<leftarrow> he_write heap p (he_next_update (\<lambda>_. Some pNew)); Some (heap, pH) }
            | None \<Rightarrow> Some (heap, pH\<lparr>h_first := Some pNew\<rparr>));
          heap \<leftarrow> he_write heap head (he_prev_update (\<lambda>_. Some pNew));
          Some (heap, pH)
        }
      | None \<Rightarrow> do {
          heap \<leftarrow> he_write heap pNew (he_next_update (\<lambda>_. h_first pH));
          heap \<leftarrow> (case h_first pH of
              Some f \<Rightarrow> he_write heap f (he_prev_update (\<lambda>_. Some pNew))
            | None \<Rightarrow> Some heap);
          heap \<leftarrow> he_write heap pNew (he_prev_update (\<lambda>_. None));
          Some (heap, pH\<lparr>h_first := Some pNew\<rparr>)
        })"

partial_function (option) rehash_loop :: "hash_heap \<Rightarrow> Hash \<Rightarrow> nat option \<Rightarrow> (hash_heap \<times> Hash) option" where
  "rehash_loop heap pH elem =
     (case elem of
        None \<Rightarrow> Some (heap, pH)
      | Some a \<Rightarrow>
          (case heap a of
             None \<Rightarrow> None
           | Some e \<Rightarrow>
               (case insertElement heap pH (Some (unat (strHash (he_pKey e)) mod h_htsize pH)) a of
                  None \<Rightarrow> None
                | Some (heap, pH) \<Rightarrow> rehash_loop heap pH (he_next e))))"

text \<open>
  \<open>alloc\<close> is \<^verbatim>\<open>sqlite3Malloc\<close> with \<^verbatim>\<open>sqlite3MallocSize\<close> for a table: the number of buckets that fit in
  the block, or \<^verbatim>\<open>None\<close>. The soft limit of 1024 bytes is 64 buckets of 16 bytes.
\<close>

definition rehash :: "(nat \<Rightarrow> nat option) \<Rightarrow> hash_heap \<Rightarrow> Hash \<Rightarrow> nat \<Rightarrow> (bool \<times> hash_heap \<times> Hash) option" where
  "rehash alloc heap pH new_size =
     (let new_size = (if new_size * 16 > 1024 then 1024 div 16 else new_size) in
      if new_size = h_htsize pH then Some (False, heap, pH)
      else case alloc new_size of
          None \<Rightarrow> Some (False, heap, pH)
        | Some n \<Rightarrow>
            map_option (Pair True)
              (rehash_loop heap (pH\<lparr>h_ht := replicate n \<lparr>ht_count = 0, ht_chain = None\<rparr>, h_htsize := n, h_first := None\<rparr>)
                (h_first pH)))"

text \<open>The inner option is the element, \<^verbatim>\<open>None\<close> the static null element.\<close>

fun find_loop :: "hash_heap \<Rightarrow> string \<Rightarrow> nat \<Rightarrow> nat option \<Rightarrow> nat option option" where
  "find_loop heap pKey 0 elem = Some None"
| "find_loop heap pKey (Suc count) elem =
     (case elem of
        None \<Rightarrow> None
      | Some a \<Rightarrow>
          (case heap a of
             None \<Rightarrow> None
           | Some e \<Rightarrow>
               if sqlite3StrICmp (he_pKey e) pKey = 0 then Some (Some a)
               else find_loop heap pKey count (he_next e)))"

definition findElementWithHash :: "hash_heap \<Rightarrow> Hash \<Rightarrow> string \<Rightarrow> (nat option \<times> nat) option" where
  "findElementWithHash heap pH pKey =
     (if h_ht pH \<noteq> [] then
        let h = unat (strHash pKey) mod h_htsize pH; pEntry = h_ht pH ! h in
        map_option (\<lambda>r. (r, h)) (find_loop heap pKey (ht_count pEntry) (ht_chain pEntry))
      else map_option (\<lambda>r. (r, 0)) (find_loop heap pKey (h_count pH) (h_first pH)))"

definition removeElementGivenHash :: "hash_heap \<Rightarrow> Hash \<Rightarrow> nat \<Rightarrow> nat \<Rightarrow> (hash_heap \<times> Hash) option" where
  "removeElementGivenHash heap pH elem h = do {
     e \<leftarrow> heap elem;
     (heap, pH) \<leftarrow> (case he_prev e of
         Some p \<Rightarrow> do { heap \<leftarrow> he_write heap p (he_next_update (\<lambda>_. he_next e)); Some (heap, pH) }
       | None \<Rightarrow> Some (heap, pH\<lparr>h_first := he_next e\<rparr>));
     heap \<leftarrow> (case he_next e of
         Some n \<Rightarrow> he_write heap n (he_prev_update (\<lambda>_. he_prev e))
       | None \<Rightarrow> Some heap);
     let pH = (if h_ht pH \<noteq> [] then
         let pEntry = h_ht pH ! h;
             pEntry = (if ht_chain pEntry = Some elem then pEntry\<lparr>ht_chain := he_next e\<rparr> else pEntry) in
         pH\<lparr>h_ht := (h_ht pH)[h := pEntry\<lparr>ht_count := ht_count pEntry - 1\<rparr>]\<rparr>
       else pH);
     let heap = heap(elem := None);
     let pH = pH\<lparr>h_count := h_count pH - 1\<rparr>;
     if h_count pH = 0 then sqlite3HashClear heap pH else Some (heap, pH)
   }"

definition sqlite3HashFind :: "hash_heap \<Rightarrow> Hash \<Rightarrow> string \<Rightarrow> nat option option" where
  "sqlite3HashFind heap pH pKey = do {
     (elem, h) \<leftarrow> findElementWithHash heap pH pKey;
     case elem of None \<Rightarrow> Some None | Some a \<Rightarrow> map_option he_data (heap a)
   }"

text \<open>The middle of the insertion: a table that has become too full is resized.\<close>

definition hash_grow ::
  "(nat \<Rightarrow> nat option) \<Rightarrow> hash_heap \<Rightarrow> Hash \<Rightarrow> string \<Rightarrow> nat \<Rightarrow> (nat \<times> hash_heap \<times> Hash) option" where
  "hash_grow alloc heap pH pKey h =
     (if h_count pH \<ge> 10 \<and> h_count pH > 2 * h_htsize pH then do {
        (done, heap, pH) \<leftarrow> rehash alloc heap pH (h_count pH * 2);
        Some (if done then unat (strHash pKey) mod h_htsize pH else h, heap, pH)
      } else Some (h, heap, pH))"

text \<open>
  \<open>fresh\<close> is the address \<^verbatim>\<open>sqlite3Malloc\<close> returns for a new element. The result is the pointer returned,
  the heap and the table.
\<close>

definition sqlite3HashInsert ::
  "(nat \<Rightarrow> nat option) \<Rightarrow> nat option \<Rightarrow> hash_heap \<Rightarrow> Hash \<Rightarrow> string \<Rightarrow> nat option \<Rightarrow>
   (nat option \<times> hash_heap \<times> Hash) option" where
  "sqlite3HashInsert alloc fresh heap pH pKey data = do {
     (elem, h) \<leftarrow> findElementWithHash heap pH pKey;
     old_data \<leftarrow> (case elem of None \<Rightarrow> Some None | Some a \<Rightarrow> map_option he_data (heap a));
     if old_data \<noteq> None then
       (case data of
          None \<Rightarrow> map_option (Pair old_data) (removeElementGivenHash heap pH (the elem) h)
        | Some d \<Rightarrow> map_option (\<lambda>heap. (old_data, heap, pH))
            (he_write heap (the elem) (\<lambda>e. e\<lparr>he_data := Some d, he_pKey := pKey\<rparr>)))
     else if data = None then Some (None, heap, pH)
     else case fresh of
         None \<Rightarrow> Some (data, heap, pH)
       | Some new_elem \<Rightarrow> do {
           let heap = heap(new_elem \<mapsto> \<lparr>he_next = None, he_prev = None, he_data = data, he_pKey = pKey\<rparr>);
           let pH = pH\<lparr>h_count := h_count pH + 1\<rparr>;
           (h, heap, pH) \<leftarrow> hash_grow alloc heap pH pKey h;
           (heap, pH) \<leftarrow> insertElement heap pH (if h_ht pH \<noteq> [] then Some h else None) new_elem;
           Some (None, heap, pH)
         }
   }"

section \<open>The list of the elements\<close>

text \<open>
  \<open>dseg heap p pr xs q\<close>: from the pointer \<open>p\<close> the next pointers run through \<open>xs\<close> and end in \<open>q\<close>; the first
  element has the previous pointer \<open>pr\<close>, and every other one that of its neighbour.
\<close>

fun dseg :: "hash_heap \<Rightarrow> nat option \<Rightarrow> nat option \<Rightarrow> nat list \<Rightarrow> nat option \<Rightarrow> bool" where
  "dseg heap p pr [] q \<longleftrightarrow> p = q"
| "dseg heap p pr (a # as) q \<longleftrightarrow> p = Some a \<and>
     (case heap a of None \<Rightarrow> False | Some e \<Rightarrow> he_prev e = pr \<and> dseg heap (he_next e) (Some a) as q)"

definition prev_of :: "nat option \<Rightarrow> nat list \<Rightarrow> nat option" where
  "prev_of pr xs = (if xs = [] then pr else Some (List.last xs))"

lemma dseg_append:
  "dseg heap p pr (xs @ ys) q \<longleftrightarrow> (\<exists>m. dseg heap p pr xs m \<and> dseg heap m (prev_of pr xs) ys q)"
  by (induction xs arbitrary: p pr) (auto simp: prev_of_def split: option.splits)

lemma dseg_cong: "dseg heap p pr xs q \<Longrightarrow> \<forall>x\<in>set xs. heap' x = heap x \<Longrightarrow> dseg heap' p pr xs q"
  by (induction xs arbitrary: p pr) (auto split: option.splits)

lemma dseg_in_heap: "dseg heap p pr xs q \<Longrightarrow> x \<in> set xs \<Longrightarrow> heap x \<noteq> None"
  by (induction xs arbitrary: p pr) (auto split: option.splits)

text \<open>Changing the pointer behind the last element, or the previous pointer of the first.\<close>

lemma dseg_new_end:
  assumes "dseg heap p pr xs q" "xs \<noteq> []" "distinct xs" "heap (List.last xs) = Some e"
  shows "dseg (heap(List.last xs \<mapsto> e\<lparr>he_next := q'\<rparr>)) p pr xs q'"
  using assms
proof (induction xs arbitrary: p pr)
  case Nil
  then show ?case by simp
next
  case (Cons x xs)
  show ?case
  proof (cases "xs = []")
    case True
    with Cons.prems show ?thesis by (auto split: option.splits)
  next
    case False
    with Cons.prems have n: "x \<noteq> List.last xs" by auto
    from Cons.prems obtain ex where ex: "heap x = Some ex" "he_prev ex = pr" "p = Some x"
      "dseg heap (he_next ex) (Some x) xs q" by (auto split: option.splits)
    from Cons.IH [OF ex(4) False] Cons.prems False n ex show ?thesis by simp
  qed
qed

lemma dseg_new_start:
  assumes "dseg heap p pr (x # xs) q" "distinct (x # xs)" "heap x = Some e"
  shows "dseg (heap(x \<mapsto> e\<lparr>he_prev := pr'\<rparr>)) p pr' (x # xs) q"
  using assms by (auto intro!: dseg_cong [of heap _ _ xs])

text \<open>The key and the data of an element.\<close>

definition he_entry :: "hash_heap \<Rightarrow> nat \<Rightarrow> (string \<times> nat option) option" where
  "he_entry heap a = map_option (\<lambda>e. (he_pKey e, he_data e)) (heap a)"

lemma he_entry_write:
  "he_entry (heap(a \<mapsto> e\<lparr>he_next := q\<rparr>)) = (he_entry heap)(a \<mapsto> (he_pKey e, he_data e))"
  "he_entry (heap(a \<mapsto> e\<lparr>he_prev := q\<rparr>)) = (he_entry heap)(a \<mapsto> (he_pKey e, he_data e))"
  "he_entry (heap(a := None)) = (he_entry heap)(a := None)"
  by (auto simp: he_entry_def fun_eq_iff)

lemma he_entry_same: "heap a = Some e \<Longrightarrow> (he_entry heap)(a \<mapsto> (he_pKey e, he_data e)) = he_entry heap"
  by (auto simp: he_entry_def fun_eq_iff)

definition dll :: "hash_heap \<Rightarrow> nat option \<Rightarrow> nat list \<Rightarrow> bool" where
  "dll heap p xs \<longleftrightarrow> distinct xs \<and> dseg heap p None xs None"

text \<open>The three changes of the list: in front, before an element, and taking one out.\<close>

lemma dll_front:
  assumes "dll heap p xs" "a \<notin> set xs" "heap a = Some e"
  shows "\<exists>heap'. do {
      heap \<leftarrow> he_write heap a (he_next_update (\<lambda>_. p));
      heap \<leftarrow> (case p of Some f \<Rightarrow> he_write heap f (he_prev_update (\<lambda>_. Some a)) | None \<Rightarrow> Some heap);
      he_write heap a (he_prev_update (\<lambda>_. None)) } = Some heap' \<and>
    dll heap' (Some a) (a # xs) \<and> he_entry heap' = he_entry heap \<and> (\<forall>x. x \<notin> set (a # xs) \<longrightarrow> heap' x = heap x)"
proof (cases xs)
  case Nil
  with assms show ?thesis
    by (intro exI [of _ "heap(a \<mapsto> e\<lparr>he_next := None, he_prev := None\<rparr>)"])
      (auto simp: dll_def he_write_def he_entry_def fun_eq_iff)
next
  case (Cons f fs)
  with assms obtain ef where f: "p = Some f" "heap f = Some ef" "f \<noteq> a" "he_prev ef = None"
    by (auto simp: dll_def split: option.splits)
  let ?h = "heap(a \<mapsto> e\<lparr>he_next := p, he_prev := None\<rparr>, f \<mapsto> ef\<lparr>he_prev := Some a\<rparr>)"
  have "dseg (heap(f \<mapsto> ef\<lparr>he_prev := Some a\<rparr>)) p (Some a) xs None"
    unfolding Cons by (rule dseg_new_start) (use assms Cons f in \<open>simp_all add: dll_def\<close>)
  then have "dseg ?h p (Some a) xs None"
    by (rule dseg_cong) (use assms in auto)
  then have d: "dll ?h (Some a) (a # xs)"
    using assms f by (simp add: dll_def)
  have w: "do {
      heap \<leftarrow> he_write heap a (he_next_update (\<lambda>_. p));
      heap \<leftarrow> (case p of Some f \<Rightarrow> he_write heap f (he_prev_update (\<lambda>_. Some a)) | None \<Rightarrow> Some heap);
      he_write heap a (he_prev_update (\<lambda>_. None)) } = Some ?h"
    using f assms(3) by (simp add: he_write_def fun_upd_twist)
  have "he_entry ?h = he_entry heap" using f assms(3) by (auto simp: he_entry_def fun_eq_iff)
  moreover have "\<forall>x. x \<notin> set (a # xs) \<longrightarrow> ?h x = heap x" using Cons by simp
  ultimately show ?thesis using w d by blast
qed

lemma dll_before:
  assumes "dll heap p (us @ x # vs)" "a \<notin> set (us @ x # vs)" "heap a = Some e" "heap x = Some ex"
  shows "\<exists>heap' p'. do {
      heap \<leftarrow> he_write heap a (he_next_update (\<lambda>_. Some x));
      e \<leftarrow> heap x;
      heap \<leftarrow> he_write heap a (he_prev_update (\<lambda>_. he_prev e));
      (heap, p) \<leftarrow> (case he_prev e of
          Some b \<Rightarrow> do { heap \<leftarrow> he_write heap b (he_next_update (\<lambda>_. Some a)); Some (heap, p) }
        | None \<Rightarrow> Some (heap, Some a));
      heap \<leftarrow> he_write heap x (he_prev_update (\<lambda>_. Some a));
      Some (heap, p) } = Some (heap', p') \<and>
    dll heap' p' (us @ a # x # vs) \<and> he_entry heap' = he_entry heap \<and>
    (\<forall>y. y \<notin> set (us @ a # x # vs) \<longrightarrow> heap' y = heap y)"
proof -
  from assms(1) obtain m where m: "dseg heap p None us m" "dseg heap m (prev_of None us) (x # vs) None"
    by (auto simp: dll_def dseg_append)
  with assms(4) have pr: "he_prev ex = prev_of None us" "m = Some x" by simp_all
  have ne: "a \<noteq> x" "a \<notin> set us" "a \<notin> set vs" "x \<notin> set us" "x \<notin> set vs" "distinct us" "distinct vs"
    "set us \<inter> set vs = {}" using assms(1,2) by (auto simp: dll_def)
  show ?thesis
  proof (cases "us = []")
    case True
    let ?h = "heap(a \<mapsto> e\<lparr>he_next := Some x, he_prev := None\<rparr>, x \<mapsto> ex\<lparr>he_prev := Some a\<rparr>)"
    have "dseg (heap(x \<mapsto> ex\<lparr>he_prev := Some a\<rparr>)) m (Some a) (x # vs) None"
      by (rule dseg_new_start [OF m(2)]) (use ne assms(4) in simp_all)
    then have "dseg ?h m (Some a) (x # vs) None"
      by (rule dseg_cong) (use ne in auto)
    then have "dll ?h (Some a) (us @ a # x # vs)"
      using True ne pr assms(3) by (auto simp: dll_def)
    moreover have "he_entry ?h = he_entry heap" using ne assms(3,4) by (auto simp: he_entry_def fun_eq_iff)
    ultimately show ?thesis
      using True ne pr assms(3,4) by (auto simp: he_write_def prev_of_def intro!: exI [of _ ?h])
  next
    case False
    let ?b = "List.last us"
    have b: "?b \<in> set us" "?b \<noteq> a" "?b \<noteq> x" using False ne by (auto simp: last_in_set)
    obtain eb where eb: "heap ?b = Some eb" using dseg_in_heap [OF m(1) b(1)] by blast
    let ?h = "heap(a \<mapsto> e\<lparr>he_next := Some x, he_prev := Some ?b\<rparr>, ?b \<mapsto> eb\<lparr>he_next := Some a\<rparr>, x \<mapsto> ex\<lparr>he_prev := Some a\<rparr>)"
    have "dseg (heap(?b \<mapsto> eb\<lparr>he_next := Some a\<rparr>)) p None us (Some a)"
      by (rule dseg_new_end [OF m(1) False ne(6) eb])
    then have u: "dseg ?h p None us (Some a)"
      by (rule dseg_cong) (use ne b in auto)
    have "dseg (heap(x \<mapsto> ex\<lparr>he_prev := Some a\<rparr>)) m (Some a) (x # vs) None"
      by (rule dseg_new_start [OF m(2)]) (use ne assms(4) in simp_all)
    then have v: "dseg ?h m (Some a) (x # vs) None"
      by (rule dseg_cong) (use ne b in auto)
    have "dll ?h p (us @ a # x # vs)"
      unfolding dll_def dseg_append
    proof
      show "distinct (us @ a # x # vs)" using ne by auto
      have "dseg ?h (Some a) (prev_of None us) (a # x # vs) None"
        using v pr ne b False by (simp add: prev_of_def)
      with u show "\<exists>m. dseg ?h p None us m \<and> dseg ?h m (prev_of None us) (a # x # vs) None" by blast
    qed
    moreover have "he_entry ?h = he_entry heap" using ne b eb assms(3,4) by (auto simp: he_entry_def fun_eq_iff)
    moreover have "he_prev ex = Some ?b" using pr False by (simp add: prev_of_def)
    moreover have "\<forall>y. y \<notin> set (us @ a # x # vs) \<longrightarrow> ?h y = heap y" using b by auto
    ultimately show ?thesis
      using ne b eb assms(3,4) by (simp add: he_write_def) 
  qed
qed

lemma dll_remove:
  assumes "dll heap p (us @ a # vs)" "heap a = Some e"
  shows "\<exists>heap1 heap2 p'. 
    (case he_prev e of
        Some b \<Rightarrow> do { heap \<leftarrow> he_write heap b (he_next_update (\<lambda>_. he_next e)); Some (heap, p) }
      | None \<Rightarrow> Some (heap, he_next e)) = Some (heap1, p') \<and>
    (case he_next e of
        Some n \<Rightarrow> he_write heap1 n (he_prev_update (\<lambda>_. he_prev e))
      | None \<Rightarrow> Some heap1) = Some heap2 \<and>
    dll (heap2(a := None)) p' (us @ vs) \<and> he_entry (heap2(a := None)) = (he_entry heap)(a := None) \<and>
    he_next e = (if vs = [] then None else Some (hd vs)) \<and>
    (\<forall>y. y \<notin> set (us @ a # vs) \<longrightarrow> heap2 y = heap y)"
proof -
  from assms(1) obtain m where m: "dseg heap p None us m" "dseg heap m (prev_of None us) (a # vs) None"
    by (auto simp: dll_def dseg_append)
  with assms(2) have pr: "he_prev e = prev_of None us" "m = Some a" "dseg heap (he_next e) (Some a) vs None" by simp_all
  have ne: "a \<notin> set us" "a \<notin> set vs" "distinct us" "distinct vs" "set us \<inter> set vs = {}"
    using assms(1) by (auto simp: dll_def)
  define heap1 where "heap1 = (if us = [] then heap else heap(List.last us \<mapsto> (the (heap (List.last us)))\<lparr>he_next := he_next e\<rparr>))"
  define p' where "p' = (if us = [] then he_next e else p)"
  define heap2 where "heap2 = (if vs = [] then heap1 else heap1(hd vs \<mapsto> (the (heap (hd vs)))\<lparr>he_prev := he_prev e\<rparr>))"
  have lu: "List.last us \<in> set us \<and> heap (List.last us) \<noteq> None" if "us \<noteq> []"
    using that dseg_in_heap [OF m(1)] by simp
  have hv: "hd vs \<in> set vs \<and> heap (hd vs) \<noteq> None" if "vs \<noteq> []"
    using that dseg_in_heap [OF pr(3)] by simp
  have disj: "us \<noteq> [] \<Longrightarrow> List.last us \<notin> set vs" using lu ne(5) by blast
  have n: "he_next e = (if vs = [] then None else Some (hd vs))"
    using pr(3) by (cases vs) auto
  have c1: "(case he_prev e of
        Some b \<Rightarrow> do { heap \<leftarrow> he_write heap b (he_next_update (\<lambda>_. he_next e)); Some (heap, p) }
      | None \<Rightarrow> Some (heap, he_next e)) = Some (heap1, p')"
    using pr lu by (auto simp: prev_of_def heap1_def p'_def he_write_def)
  have same: "heap1 (hd vs) = heap (hd vs)" if "vs \<noteq> []"
  proof -
    have "hd vs \<noteq> List.last us" if "us \<noteq> []"
      using that disj hv \<open>vs \<noteq> []\<close> by metis
    then show ?thesis by (auto simp: heap1_def)
  qed
  have c2: "(case he_next e of
        Some n \<Rightarrow> he_write heap1 n (he_prev_update (\<lambda>_. he_prev e))
      | None \<Rightarrow> Some heap1) = Some heap2"
    using n hv same by (auto simp: heap2_def he_write_def)
  have "dseg heap1 p' None us (he_next e)"
    using m(1) lu dseg_new_end [OF m(1), of "the (heap (List.last us))" "he_next e"] ne
    by (auto simp: heap1_def p'_def)
  then have u: "dseg (heap2(a := None)) p' None us (he_next e)"
    by (rule dseg_cong) (use ne hv in \<open>auto simp: heap2_def\<close>)
  have "dseg (heap2(a := None)) (he_next e) (prev_of None us) vs None"
  proof (cases vs)
    case Nil
    then show ?thesis using n by simp
  next
    case (Cons v vs')
    have "dseg (heap(v \<mapsto> (the (heap v))\<lparr>he_prev := he_prev e\<rparr>)) (he_next e) (he_prev e) (v # vs') None"
      by (rule dseg_new_start [OF pr(3) [unfolded Cons]]) (use ne hv Cons in auto)
    then have "dseg (heap2(a := None)) (he_next e) (he_prev e) (v # vs') None"
      by (rule dseg_cong) (use ne lu disj Cons in \<open>auto simp: heap1_def heap2_def\<close>)
    then show ?thesis using Cons pr(1) by simp
  qed
  with u ne have "dll (heap2(a := None)) p' (us @ vs)" by (auto simp: dll_def dseg_append)
  moreover have "he_entry (heap2(a := None)) = (he_entry heap)(a := None)"
    using lu hv ne by (auto simp: heap1_def heap2_def he_entry_def fun_eq_iff)
  moreover have "\<forall>y. y \<notin> set (us @ a # vs) \<longrightarrow> heap2 y = heap y"
    using lu hv by (auto simp: heap1_def heap2_def)
  ultimately show ?thesis using c1 c2 n by blast
qed

section \<open>Buckets\<close>

text \<open>The elements with a property stand next to each other.\<close>

definition contig1 :: "('a \<Rightarrow> bool) \<Rightarrow> 'a list \<Rightarrow> bool" where
  "contig1 P L \<longleftrightarrow> (\<forall>z\<in>set (dropWhile P L). \<not> P z)"

definition contig :: "('a \<Rightarrow> bool) \<Rightarrow> 'a list \<Rightarrow> bool" where
  "contig P L \<longleftrightarrow> contig1 P (dropWhile (\<lambda>x. \<not> P x) L)"

lemma contig1_simps: "contig1 P []" "contig1 P (x # xs) \<longleftrightarrow> (if P x then contig1 P xs else \<forall>z\<in>set xs. \<not> P z)"
  by (auto simp: contig1_def)

lemma contig_simps: "contig P []" "contig P (x # xs) \<longleftrightarrow> (if P x then contig1 P xs else contig P xs)"
  by (auto simp: contig_def contig1_simps)

lemmas contig_all = contig1_simps contig_simps

lemma contig1_none: "\<forall>z\<in>set xs. \<not> P z \<Longrightarrow> contig1 P xs"
  by (cases xs) (simp_all add: contig_all)

lemma contig_none: "\<forall>z\<in>set xs. \<not> P z \<Longrightarrow> contig P xs"
  by (induction xs) (simp_all add: contig_all)

lemma contig_front: "(P a \<longrightarrow> (\<forall>z\<in>set L. \<not> P z)) \<Longrightarrow> contig P L \<Longrightarrow> contig P (a # L)"
  by (simp add: contig_all contig1_none)

lemma contig1_before: "contig1 P (us @ x # vs) \<Longrightarrow> P a \<longleftrightarrow> P x \<Longrightarrow> contig1 P (us @ a # x # vs)"
  by (induction us) (auto simp: contig_all)

lemma contig_before: "contig P (us @ x # vs) \<Longrightarrow> P a \<longleftrightarrow> P x \<Longrightarrow> contig P (us @ a # x # vs)"
  by (induction us) (auto simp: contig_all contig1_before)

lemma contig1_remove: "contig1 P (us @ x # vs) \<Longrightarrow> contig1 P (us @ vs)"
  by (induction us) (auto simp: contig_all contig1_none split: if_splits)

lemma contig_remove: "contig P (us @ x # vs) \<Longrightarrow> contig P (us @ vs)"
proof (induction us)
  case Nil
  have "contig1 P vs \<Longrightarrow> contig P vs" by (cases vs) (auto simp: contig_all contig_none split: if_splits)
  with Nil show ?case by (auto simp: contig_all split: if_splits)
next
  case (Cons u us)
  then show ?case by (auto simp: contig_all contig1_remove split: if_splits)
qed

lemma contig1_split: "contig1 P L \<Longrightarrow> \<exists>vs. L = filter P L @ vs \<and> (\<forall>z\<in>set vs. \<not> P z)"
proof (induction L)
  case Nil
  then show ?case by simp
next
  case (Cons x xs)
  then show ?case by (auto simp: contig_all split: if_splits)
qed

lemma contig_split: "contig P L \<Longrightarrow> \<exists>us vs. L = us @ filter P L @ vs \<and> (\<forall>z\<in>set us \<union> set vs. \<not> P z)"
proof (induction L)
  case Nil
  then show ?case by simp
next
  case (Cons x xs)
  show ?case
  proof (cases "P x")
    case True
    with Cons.prems contig1_split [of P xs] obtain vs where "xs = filter P xs @ vs" "\<forall>z\<in>set vs. \<not> P z"
      by (auto simp: contig_all)
    with True have "x # xs = [] @ filter P (x # xs) @ vs" "\<forall>z\<in>set [] \<union> set vs. \<not> P z" by simp_all
    then show ?thesis by blast
  next
    case False
    with Cons obtain us vs where "xs = us @ filter P xs @ vs" "\<forall>z\<in>set us \<union> set vs. \<not> P z"
      by (auto simp: contig_all)
    with False have "x # xs = (x # us) @ filter P (x # xs) @ vs" "\<forall>z\<in>set (x # us) \<union> set vs. \<not> P z" by simp_all
    then show ?thesis by blast
  qed
qed

definition he_key :: "hash_heap \<Rightarrow> nat \<Rightarrow> string" where
  "he_key heap a = (case he_entry heap a of None \<Rightarrow> [] | Some (k, d) \<Rightarrow> k)"

definition in_slot :: "hash_heap \<Rightarrow> nat \<Rightarrow> nat \<Rightarrow> nat \<Rightarrow> bool" where
  "in_slot heap n h a \<longleftrightarrow> unat (strHash (he_key heap a)) mod n = h"

definition bucket :: "hash_heap \<Rightarrow> nat \<Rightarrow> nat \<Rightarrow> nat list \<Rightarrow> nat list" where
  "bucket heap n h L = filter (in_slot heap n h) L"

definition bucket_ok :: "hash_heap \<Rightarrow> ht_entry list \<Rightarrow> nat list \<Rightarrow> nat \<Rightarrow> bool" where
  "bucket_ok heap ht L h \<longleftrightarrow>
     ht_count (ht ! h) = length (bucket heap (length ht) h L) \<and>
     (bucket heap (length ht) h L \<noteq> [] \<longrightarrow> ht_chain (ht ! h) = Some (hd (bucket heap (length ht) h L))) \<and>
     contig (in_slot heap (length ht) h) L"

definition hash_table :: "hash_heap \<Rightarrow> Hash \<Rightarrow> nat list \<Rightarrow> bool" where
  "hash_table heap pH L \<longleftrightarrow> dll heap (h_first pH) L \<and> h_htsize pH = length (h_ht pH) \<and>
     (\<forall>h<length (h_ht pH). bucket_ok heap (h_ht pH) L h)"

lemma in_slot_cong: "he_entry heap' = he_entry heap \<Longrightarrow> in_slot heap' = in_slot heap"
  by (simp add: in_slot_def he_key_def fun_eq_iff)

lemma bucket_ok_cong: "he_entry heap' = he_entry heap \<Longrightarrow> bucket_ok heap' = bucket_ok heap"
  using in_slot_cong [of heap' heap] by (intro ext) (simp add: bucket_ok_def bucket_def)

lemma he_key_heap: "heap a = Some e \<Longrightarrow> he_key heap a = he_pKey e"
  by (simp add: he_key_def he_entry_def)

lemma bucket_split:
  assumes "contig (in_slot heap n h) L" "bucket heap n h L \<noteq> []"
  obtains us vs where "L = us @ bucket heap n h L @ vs" "\<forall>z\<in>set us. \<not> in_slot heap n h z"
  using contig_split [OF assms(1)] by (auto simp: bucket_def)

lemma bucket_ok_front:
  assumes "\<And>h. h < length ht \<Longrightarrow> bucket_ok heap ht L h" "h < length ht" "in_slot heap (length ht) h a"
    "bucket heap (length ht) h L = []" "g < length ht"
  shows "bucket_ok heap (ht[h := \<lparr>ht_count = Suc (ht_count (ht ! h)), ht_chain = Some a\<rparr>]) (a # L) g"
proof -
  from assms(4) have n: "\<forall>z\<in>set L. \<not> in_slot heap (length ht) h z" by (simp add: bucket_def filter_empty_conv)
  show ?thesis
  proof (cases "g = h")
    case True
    with assms(1) [OF assms(2)] assms(2-4) n show ?thesis
      by (simp add: bucket_ok_def bucket_def contig_front contig_none)
  next
    case False
    with assms(3) have "\<not> in_slot heap (length ht) g a" by (simp add: in_slot_def)
    with assms(1) [OF assms(5)] False show ?thesis
      by (simp add: bucket_ok_def bucket_def contig_front)
  qed
qed

lemma bucket_ok_before:
  assumes "\<And>h. h < length ht \<Longrightarrow> bucket_ok heap ht (us @ x # vs) h" "h < length ht" "in_slot heap (length ht) h a"
    "in_slot heap (length ht) h x" "\<forall>z\<in>set us. \<not> in_slot heap (length ht) h z" "g < length ht"
  shows "bucket_ok heap (ht[h := \<lparr>ht_count = Suc (ht_count (ht ! h)), ht_chain = Some a\<rparr>]) (us @ a # x # vs) g"
proof (cases "g = h")
  case True
  from assms(5) have "filter (in_slot heap (length ht) h) us = []" by (simp add: filter_empty_conv)
  with assms(1) [OF assms(2)] assms(2-4) True show ?thesis
    by (simp add: bucket_ok_def bucket_def contig_before)
next
  case False
  with assms(3,4) have "\<not> in_slot heap (length ht) g a" "\<not> in_slot heap (length ht) g x" by (simp_all add: in_slot_def)
  with assms(1) [OF assms(6)] False show ?thesis
    by (simp add: bucket_ok_def bucket_def contig_before)
qed

lemma insertElement_before:
  assumes "he_write heap a (he_next_update (\<lambda>_. Some x)) = Some h1" "h1 x = Some e1"
    "he_write h1 a (he_prev_update (\<lambda>_. he_prev e1)) = Some h2"
    "\<And>b. he_prev e1 = Some b \<Longrightarrow> he_write h2 b (he_next_update (\<lambda>_. Some a)) = Some h3 \<and> p' = h_first pH"
    "he_prev e1 = None \<Longrightarrow> h3 = h2 \<and> p' = Some a"
    "he_write h3 x (he_prev_update (\<lambda>_. Some a)) = Some heap'"
    and "ht_count (h_ht pH ! h) = n" "0 < n" "ht_chain (h_ht pH ! h) = Some x"
  shows "insertElement heap pH (Some h) a =
    Some (heap', pH\<lparr>h_ht := (h_ht pH)[h := \<lparr>ht_count = Suc n, ht_chain = Some a\<rparr>], h_first := p'\<rparr>)"
proof (cases "he_prev e1")
  case None
  with assms show ?thesis by (simp add: insertElement_def)
next
  case (Some c)
  with assms show ?thesis by (cases pH) (simp add: insertElement_def)
qed

text \<open>Inserting an element in the list and in its bucket.\<close>

lemma insertElement_table:
  assumes t: "hash_table heap pH L" and a: "a \<notin> set L" "heap a = Some e"
    and h: "pEntry = (if h_ht pH = [] then None else Some h)"
      "h_ht pH \<noteq> [] \<Longrightarrow> h < length (h_ht pH) \<and> in_slot heap (length (h_ht pH)) h a"
  shows "\<exists>heap' pH' L'. insertElement heap pH pEntry a = Some (heap', pH') \<and> hash_table heap' pH' L' \<and>
    set L' = insert a (set L) \<and> he_entry heap' = he_entry heap \<and> h_count pH' = h_count pH \<and>
    length (h_ht pH') = length (h_ht pH) \<and> (\<forall>y. y \<notin> insert a (set L) \<longrightarrow> heap' y = heap y)"
proof -
  from t have d: "dll heap (h_first pH) L" and sz: "h_htsize pH = length (h_ht pH)"
    and b: "\<And>h. h < length (h_ht pH) \<Longrightarrow> bucket_ok heap (h_ht pH) L h" by (simp_all add: hash_table_def)
  let ?ht = "(h_ht pH)[h := \<lparr>ht_count = Suc (ht_count (h_ht pH ! h)), ht_chain = Some a\<rparr>]"
  show ?thesis
  proof (cases "h_ht pH \<noteq> [] \<and> bucket heap (length (h_ht pH)) h L \<noteq> []")
    case True
    with h have hh: "h < length (h_ht pH)" "in_slot heap (length (h_ht pH)) h a" by simp_all
    let ?B = "bucket heap (length (h_ht pH)) h L"
    from b [OF hh(1)] True have bo: "ht_count (h_ht pH ! h) \<noteq> 0" "ht_chain (h_ht pH ! h) = Some (hd ?B)"
      "contig (in_slot heap (length (h_ht pH)) h) L" by (simp_all add: bucket_ok_def)
    from bucket_split [OF bo(3)] True obtain us vs where L: "L = us @ ?B @ vs" "\<forall>z\<in>set us. \<not> in_slot heap (length (h_ht pH)) h z"
      by blast
    obtain x bs where xb: "?B = x # bs" using True by (cases ?B) auto
    define ws where "ws = bs @ vs"
    from L(1) xb have Lx: "L = us @ x # ws" by (simp add: ws_def)
    have x_def: "x = hd ?B" using xb by simp
    have x: "in_slot heap (length (h_ht pH)) h x" using True hd_in_set [of ?B] by (simp add: x_def bucket_def)
    obtain ex where ex: "heap x = Some ex"
      using d Lx dseg_in_heap [of heap "h_first pH" None L None x] by (auto simp: dll_def)
    from dll_before [OF d [unfolded Lx] a(1) [unfolded Lx] a(2) ex] obtain heap' p' where
      i: "do {
      heap \<leftarrow> he_write heap a (he_next_update (\<lambda>_. Some x));
      e \<leftarrow> heap x;
      heap \<leftarrow> he_write heap a (he_prev_update (\<lambda>_. he_prev e));
      (heap, p) \<leftarrow> (case he_prev e of
          Some b \<Rightarrow> do { heap \<leftarrow> he_write heap b (he_next_update (\<lambda>_. Some a)); Some (heap, h_first pH) }
        | None \<Rightarrow> Some (heap, Some a));
      heap \<leftarrow> he_write heap x (he_prev_update (\<lambda>_. Some a));
      Some (heap, p) } = Some (heap', p')"
      "dll heap' p' (us @ a # x # ws)" "he_entry heap' = he_entry heap"
      "\<forall>y. y \<notin> set (us @ a # x # ws) \<longrightarrow> heap' y = heap y" by blast
    let ?pH = "pH\<lparr>h_ht := ?ht, h_first := p'\<rparr>"
    have "insertElement heap pH pEntry a = Some (heap', ?pH)"
    proof -
      from i(1) obtain h1 e1 h2 h3 where s: "he_write heap a (he_next_update (\<lambda>_. Some x)) = Some h1" "h1 x = Some e1"
        "he_write h1 a (he_prev_update (\<lambda>_. he_prev e1)) = Some h2"
        "(case he_prev e1 of
            Some b \<Rightarrow> do { heap \<leftarrow> he_write h2 b (he_next_update (\<lambda>_. Some a)); Some (heap, h_first pH) }
          | None \<Rightarrow> Some (h2, Some a)) = Some (h3, p')"
        "he_write h3 x (he_prev_update (\<lambda>_. Some a)) = Some heap'"
        by (auto simp: bind_eq_Some_conv)
      have g: "ht_chain (h_ht pH ! h) = Some x" "pEntry = Some h" "0 < ht_count (h_ht pH ! h)"
        using h(1) True bo(1,2) x_def by simp_all
      have n: "he_prev e1 = None \<Longrightarrow> h3 = h2 \<and> p' = Some a" using s(4) by simp
      have b: "he_write h2 b (he_next_update (\<lambda>_. Some a)) = Some h3 \<and> p' = h_first pH" if "he_prev e1 = Some b" for b
        using s(4) that by (auto simp: bind_eq_Some_conv)
      show ?thesis unfolding g(2) by (rule insertElement_before [OF s(1-3) b n s(5) refl g(3) g(1)])
    qed
    moreover have "hash_table heap' ?pH (us @ a # x # ws)"
      using i(2,3) sz bucket_ok_before [OF b [unfolded Lx] hh x L(2)] by (simp add: hash_table_def bucket_ok_cong [OF i(3)])
    moreover have "set (us @ a # x # ws) = insert a (set L)" using Lx by auto
    ultimately show ?thesis using i(3,4) by (intro exI [of _ heap'] exI [of _ ?pH] exI [of _ "us @ a # x # ws"]) auto
  next
    case False
    from dll_front [OF d a] obtain heap' where
      i: "do {
      heap \<leftarrow> he_write heap a (he_next_update (\<lambda>_. h_first pH));
      heap \<leftarrow> (case h_first pH of Some f \<Rightarrow> he_write heap f (he_prev_update (\<lambda>_. Some a)) | None \<Rightarrow> Some heap);
      he_write heap a (he_prev_update (\<lambda>_. None)) } = Some heap'"
      "dll heap' (Some a) (a # L)" "he_entry heap' = he_entry heap"
      "\<forall>x. x \<notin> set (a # L) \<longrightarrow> heap' x = heap x" by blast
    let ?pH = "pH\<lparr>h_ht := ?ht, h_first := Some a\<rparr>"
    have z: "ht_count (h_ht pH ! h) = 0" if "h_ht pH \<noteq> []"
      using False b [of h] h(2) that by (simp add: bucket_ok_def)
    have ht: "h_ht pH = [] \<Longrightarrow> ?ht = h_ht pH" by simp
    have "insertElement heap pH pEntry a = Some (heap', ?pH)"
    proof (cases "h_ht pH = []")
      case True
      with i(1) h(1) show ?thesis
        by (auto simp: insertElement_def Let_def bind_eq_Some_conv split: option.splits)
    next
      case ne: False
      with i(1) h(1) z show ?thesis
        by (auto simp: insertElement_def Let_def bind_eq_Some_conv split: option.splits)
    qed
    moreover have "hash_table heap' ?pH (a # L)"
    proof (cases "h_ht pH = []")
      case True
      with i(2) sz show ?thesis by (simp add: hash_table_def)
    next
      case ne: False
      with False h(2) have "bucket heap (length (h_ht pH)) h L = []" by simp
      with ne i(2,3) sz h(2) bucket_ok_front [OF b, of h a] show ?thesis
        by (simp add: hash_table_def bucket_ok_cong [OF i(3)])
    qed
    moreover have "set (a # L) = insert a (set L)" by simp
    ultimately show ?thesis using i(3,4) by (intro exI [of _ heap'] exI [of _ ?pH] exI [of _ "a # L"]) auto
  qed
qed

section \<open>Names\<close>

definition fold_name :: "string \<Rightarrow> nat list" where
  "fold_name z = map sqlite3Tolower z"

lemma sqlite3Tolower_eq_0: "sqlite3Tolower c = 0 \<longleftrightarrow> c = CHR 0x00"
proof -
  have "sqlite3Tolower c = 0 \<longleftrightarrow> (of_char c :: nat) = 0" by (auto simp: sqlite3Tolower_ascii)
  also have "\<dots> \<longleftrightarrow> (of_char c :: nat) = of_char (CHR 0x00)" by simp
  also have "\<dots> \<longleftrightarrow> c = CHR 0x00" by (rule of_char_eq_iff)
  finally show ?thesis .
qed

lemma sqlite3StrICmp_0:
  "nul_free a \<Longrightarrow> nul_free b \<Longrightarrow> sqlite3StrICmp a b = 0 \<longleftrightarrow> fold_name a = fold_name b"
proof (induction a b rule: sqlite3StrICmp.induct)
  case (2 a as)
  then show ?case using sqlite3Tolower_eq_0 [of a] sqlite3Tolower_eq_0 [of "CHR 0x00"] by (simp add: fold_name_def)
next
  case (3 b bs)
  then show ?case using sqlite3Tolower_eq_0 [of b] sqlite3Tolower_eq_0 [of "CHR 0x00"] by (simp add: fold_name_def)
qed (auto simp: fold_name_def Let_def)

lemma strHash_fold_name: "fold_name a = fold_name b \<Longrightarrow> strHash a = strHash b"
proof -
  have "strHash z = fold (\<lambda>n h. (h + of_nat n) * 0x9e3779b1) (fold_name z) 0" for z
    by (simp add: strHash_def fold_name_def fold_map comp_def sqlite3Tolower_def)
  then show "fold_name a = fold_name b \<Longrightarrow> strHash a = strHash b" by simp
qed

section \<open>Searching\<close>

lemma find_loop_seg:
  "dseg heap p pr (xs @ ys) q \<Longrightarrow>
   find_loop heap key (length xs) p = Some (find (\<lambda>a. sqlite3StrICmp (he_key heap a) key = 0) xs)"
  by (induction xs arbitrary: p pr) (auto simp: he_key_heap split: option.splits)

lemma find_filter: "\<forall>a\<in>set L. P a \<longrightarrow> Q a \<Longrightarrow> find P (filter Q L) = find P L"
  by (induction L) auto

lemma find_cong_set: "\<forall>a\<in>set L. P a = Q a \<Longrightarrow> find P L = find Q L"
  by (induction L) auto

definition he_dat :: "hash_heap \<Rightarrow> nat \<Rightarrow> nat option" where
  "he_dat heap a = (case he_entry heap a of None \<Rightarrow> None | Some (k, d) \<Rightarrow> d)"

lemma he_dat_heap: "heap a = Some e \<Longrightarrow> he_dat heap a = he_data e"
  by (simp add: he_dat_def he_entry_def)

definition hash_inv :: "hash_heap \<Rightarrow> Hash \<Rightarrow> nat list \<Rightarrow> bool" where
  "hash_inv heap pH L \<longleftrightarrow> hash_table heap pH L \<and> h_count pH = length L \<and>
     (\<forall>a\<in>set L. nul_free (he_key heap a) \<and> he_dat heap a \<noteq> None) \<and>
     inj_on (\<lambda>a. fold_name (he_key heap a)) (set L)"

definition named :: "hash_heap \<Rightarrow> string \<Rightarrow> nat \<Rightarrow> bool" where
  "named heap key a \<longleftrightarrow> fold_name (he_key heap a) = fold_name key"

text \<open>The map a table stands for, from folded names to data.\<close>

definition hash_map :: "hash_heap \<Rightarrow> nat list \<Rightarrow> nat list \<Rightarrow> nat option" where
  "hash_map heap L f = Option.bind (find (\<lambda>a. fold_name (he_key heap a) = f) L) (he_dat heap)"

definition slot_of :: "Hash \<Rightarrow> string \<Rightarrow> nat" where
  "slot_of pH key = (if h_ht pH = [] then 0 else unat (strHash key) mod h_htsize pH)"

lemma findElement_inv:
  assumes "hash_inv heap pH L" "nul_free key"
  shows "findElementWithHash heap pH key = Some (find (named heap key) L, slot_of pH key)"
proof -
  from assms(1) have d: "dll heap (h_first pH) L" and sz: "h_htsize pH = length (h_ht pH)"
    and b: "\<And>h. h < length (h_ht pH) \<Longrightarrow> bucket_ok heap (h_ht pH) L h"
    and c: "h_count pH = length L" and n: "\<And>a. a \<in> set L \<Longrightarrow> nul_free (he_key heap a)"
    by (simp_all add: hash_inv_def hash_table_def)
  have cmp: "find (\<lambda>a. sqlite3StrICmp (he_key heap a) key = 0) xs = find (named heap key) xs" if "set xs \<subseteq> set L" for xs
    by (rule find_cong_set) (use n sqlite3StrICmp_0 assms(2) that in \<open>auto simp: named_def\<close>)
  show ?thesis
  proof (cases "h_ht pH = []")
    case True
    with find_loop_seg [of heap "h_first pH" None L "[]" None key] d c cmp [of L] show ?thesis
      by (simp add: findElementWithHash_def dll_def slot_of_def)
  next
    case False
    let ?n = "length (h_ht pH)"
    let ?h = "unat (strHash key) mod ?n"
    have h: "?h < ?n" using False by simp
    from b [OF h] have bo: "ht_count (h_ht pH ! ?h) = length (bucket heap ?n ?h L)"
      "bucket heap ?n ?h L \<noteq> [] \<Longrightarrow> ht_chain (h_ht pH ! ?h) = Some (hd (bucket heap ?n ?h L))"
      "contig (in_slot heap ?n ?h) L" by (simp_all add: bucket_ok_def)
    have f: "find (named heap key) (bucket heap ?n ?h L) = find (named heap key) L"
      unfolding bucket_def
      by (rule find_filter) (auto simp: named_def in_slot_def dest: strHash_fold_name)
    have "find_loop heap key (ht_count (h_ht pH ! ?h)) (ht_chain (h_ht pH ! ?h)) = Some (find (named heap key) (bucket heap ?n ?h L))"
    proof (cases "bucket heap ?n ?h L = []")
      case True
      then show ?thesis using bo(1) by simp
    next
      case ne: False
      from bucket_split [OF bo(3) ne] obtain us vs where L: "L = us @ bucket heap ?n ?h L @ vs" by blast
      with d obtain m where "dseg heap m (prev_of None us) (bucket heap ?n ?h L @ vs) None"
        by (metis dll_def dseg_append)
      moreover from this ne have "m = Some (hd (bucket heap ?n ?h L))" by (cases "bucket heap ?n ?h L") auto
      ultimately show ?thesis
        using find_loop_seg [of heap m "prev_of None us" "bucket heap ?n ?h L" vs None key] bo(1,2) ne
          cmp [of "bucket heap ?n ?h L"] by (auto simp: bucket_def)
    qed
    with f False sz show ?thesis by (simp add: findElementWithHash_def Let_def slot_of_def)
  qed
qed

lemma hashFind_inv:
  assumes "hash_inv heap pH L" "nul_free key"
  shows "sqlite3HashFind heap pH key = Some (hash_map heap L (fold_name key))"
proof (cases "find (named heap key) L")
  case None
  with findElement_inv [OF assms] show ?thesis
    by (simp add: sqlite3HashFind_def hash_map_def named_def [abs_def])
next
  case (Some a)
  then have "a \<in> set L" by (auto simp: find_Some_iff)
  with assms(1) dseg_in_heap [of heap "h_first pH" None L None a] obtain e where "heap a = Some e"
    by (auto simp: hash_inv_def hash_table_def dll_def)
  with Some findElement_inv [OF assms] show ?thesis
    by (simp add: sqlite3HashFind_def hash_map_def named_def [abs_def] he_dat_heap)
qed

section \<open>Resizing\<close>

fun nexts :: "hash_heap \<Rightarrow> nat option \<Rightarrow> nat list \<Rightarrow> bool" where
  "nexts heap p [] \<longleftrightarrow> p = None"
| "nexts heap p (a # as) \<longleftrightarrow> p = Some a \<and> (case heap a of None \<Rightarrow> False | Some e \<Rightarrow> nexts heap (he_next e) as)"

lemma dseg_nexts: "dseg heap p pr xs None \<Longrightarrow> nexts heap p xs"
  by (induction xs arbitrary: p pr) (auto split: option.splits)

lemma nexts_cong: "nexts heap p xs \<Longrightarrow> \<forall>x\<in>set xs. heap' x = heap x \<Longrightarrow> nexts heap' p xs"
  by (induction xs arbitrary: p) (auto split: option.splits)

lemma rehash_loop_table:
  assumes "hash_table heap pH L1" "h_ht pH \<noteq> []" "nexts heap p R" "distinct R" "set R \<inter> set L1 = {}"
  shows "\<exists>heap' pH' L'. rehash_loop heap pH p = Some (heap', pH') \<and> hash_table heap' pH' L' \<and>
    set L' = set L1 \<union> set R \<and> he_entry heap' = he_entry heap \<and> h_count pH' = h_count pH \<and>
    length (h_ht pH') = length (h_ht pH) \<and> (\<forall>y. y \<notin> set L1 \<union> set R \<longrightarrow> heap' y = heap y)"
  using assms
proof (induction R arbitrary: heap pH p L1)
  case Nil
  then show ?case by (subst rehash_loop.simps) auto
next
  case (Cons a R)
  then obtain e where e: "p = Some a" "heap a = Some e" "nexts heap (he_next e) R" by (auto split: option.splits)
  let ?h = "unat (strHash (he_pKey e)) mod h_htsize pH"
  have sz: "h_htsize pH = length (h_ht pH)" using Cons.prems(1) by (simp add: hash_table_def)
  from insertElement_table [OF Cons.prems(1) _ e(2), of "Some ?h" ?h] Cons.prems sz e(2) obtain heap1 pH1 L2 where
    i: "insertElement heap pH (Some ?h) a = Some (heap1, pH1)" "hash_table heap1 pH1 L2" "set L2 = insert a (set L1)"
    "he_entry heap1 = he_entry heap" "h_count pH1 = h_count pH" "length (h_ht pH1) = length (h_ht pH)"
    "\<forall>y. y \<notin> insert a (set L1) \<longrightarrow> heap1 y = heap y"
    by (auto simp: in_slot_def he_key_heap)
  have "nexts heap1 (he_next e) R"
    by (rule nexts_cong [OF e(3)]) (use i(7) Cons.prems(4,5) in auto)
  then have "\<exists>heap' pH' L'. rehash_loop heap1 pH1 (he_next e) = Some (heap', pH') \<and> hash_table heap' pH' L' \<and>
    set L' = set L2 \<union> set R \<and> he_entry heap' = he_entry heap1 \<and> h_count pH' = h_count pH1 \<and>
    length (h_ht pH') = length (h_ht pH1) \<and> (\<forall>y. y \<notin> set L2 \<union> set R \<longrightarrow> heap' y = heap1 y)"
    by (intro Cons.IH [OF i(2)]) (use i(3,6) Cons.prems in auto)
  then obtain heap' pH' L' where "rehash_loop heap1 pH1 (he_next e) = Some (heap', pH')" "hash_table heap' pH' L'"
    "set L' = set L2 \<union> set R" "he_entry heap' = he_entry heap1" "h_count pH' = h_count pH1"
    "length (h_ht pH') = length (h_ht pH1)" "\<forall>y. y \<notin> set L2 \<union> set R \<longrightarrow> heap' y = heap1 y" by blast
  moreover have "rehash_loop heap pH p = rehash_loop heap1 pH1 (he_next e)"
    using e i(1) by (subst rehash_loop.simps) simp
  ultimately show ?case using i(3-7)
    by (intro exI [of _ heap'] exI [of _ pH'] exI [of _ L']) auto
qed

lemma rehash_table:
  assumes "hash_table heap pH L" "\<And>n m. alloc n = Some m \<Longrightarrow> 0 < m"
  shows "\<exists>b heap' pH' L'. rehash alloc heap pH n = Some (b, heap', pH') \<and> hash_table heap' pH' L' \<and> set L' = set L \<and>
    he_entry heap' = he_entry heap \<and> h_count pH' = h_count pH \<and> (b \<longrightarrow> h_ht pH' \<noteq> []) \<and>
    (\<not> b \<longrightarrow> heap' = heap \<and> pH' = pH) \<and> (\<forall>y. y \<notin> set L \<longrightarrow> heap' y = heap y)"
proof -
  let ?n = "if n * 16 > 1024 then 1024 div 16 else n"
  show ?thesis
  proof (cases "?n = h_htsize pH \<or> alloc ?n = None")
    case True
    then have "rehash alloc heap pH n = Some (False, heap, pH)"
      by (cases "?n = h_htsize pH") (simp_all add: rehash_def Let_def split del: if_split)
    with assms(1) show ?thesis by (intro exI [of _ False] exI [of _ heap] exI [of _ pH] exI [of _ L]) simp
  next
    case False
    then obtain m where m: "alloc ?n = Some m" by (cases "alloc ?n") blast+
    let ?pH = "pH\<lparr>h_ht := replicate m \<lparr>ht_count = 0, ht_chain = None\<rparr>, h_htsize := m, h_first := None\<rparr>"
    have "hash_table heap ?pH []"
      by (simp add: hash_table_def dll_def bucket_ok_def bucket_def contig_simps)
    moreover have "nexts heap (h_first pH) L" "distinct L"
      using assms(1) dseg_nexts by (auto simp: hash_table_def dll_def)
    ultimately obtain heap' pH' L' where r: "rehash_loop heap ?pH (h_first pH) = Some (heap', pH')" "hash_table heap' pH' L'"
      "set L' = set L" "he_entry heap' = he_entry heap" "h_count pH' = h_count pH" "length (h_ht pH') = m"
      "\<forall>y. y \<notin> set L \<longrightarrow> heap' y = heap y"
      using rehash_loop_table [of heap ?pH "[]" "h_first pH" L] assms(2) [OF m] by auto
    have "rehash alloc heap pH n = Some (True, heap', pH')"
      using False m r(1) by (simp add: rehash_def Let_def split del: if_split)
    with r assms(2) [OF m] show ?thesis by auto
  qed
qed

section \<open>Insertion and removal\<close>

lemma hash_map_Some:
  assumes "inj_on (\<lambda>a. fold_name (he_key heap a)) (set L)"
  shows "hash_map heap L f = Some d \<longleftrightarrow> (\<exists>a\<in>set L. fold_name (he_key heap a) = f \<and> he_dat heap a = Some d)"
proof (cases "find (\<lambda>a. fold_name (he_key heap a) = f) L")
  case None
  then have "hash_map heap L f = None" by (simp add: hash_map_def)
  with None show ?thesis by (simp add: find_None_iff)
next
  case (Some a)
  then have "a \<in> set L" "fold_name (he_key heap a) = f" by (auto simp: find_Some_iff)
  with assms Some show ?thesis by (auto simp: hash_map_def inj_on_def)
qed

lemma hash_map_eqI: "(\<And>d. m f = Some d \<longleftrightarrow> n f = Some d) \<Longrightarrow> m f = (n f :: nat option)"
  by (metis not_None_eq)

lemma he_key_dat_cong:
  "he_entry heap' a = he_entry heap a \<Longrightarrow> he_key heap' a = he_key heap a \<and> he_dat heap' a = he_dat heap a"
  by (simp add: he_key_def he_dat_def)

lemma contig1_cong: "\<forall>x\<in>set xs. Q x = P x \<Longrightarrow> contig1 Q xs \<longleftrightarrow> contig1 P xs"
  by (induction xs) (auto simp: contig_all)

lemma contig_cong: "\<forall>x\<in>set xs. Q x = P x \<Longrightarrow> contig Q xs \<longleftrightarrow> contig P xs"
  by (induction xs) (auto simp: contig_all contig1_cong)

lemma first_split: "us @ a # vs = xs @ a # zs \<Longrightarrow> a \<notin> set us \<Longrightarrow> a \<notin> set xs \<Longrightarrow> vs = zs"
proof (induction us arbitrary: xs)
  case Nil
  then show ?case by (cases xs) auto
next
  case (Cons u us)
  then show ?case by (cases xs) auto
qed

lemma bucket_ok_remove:
  assumes ok: "bucket_ok heap ht (us @ a # vs) g" and "distinct (us @ a # vs)" and h: "h < length ht" "in_slot heap (length ht) h a" "g < length ht"
    and same: "\<And>x. x \<in> set (us @ vs) \<Longrightarrow> he_entry heap' x = he_entry heap x"
    and n: "n = (if vs = [] then None else Some (hd vs))"
    and e': "e' = (if ht_chain (ht ! h) = Some a then (ht ! h)\<lparr>ht_chain := n\<rparr> else ht ! h)"
  shows "bucket_ok heap' (ht[h := e'\<lparr>ht_count := ht_count e' - 1\<rparr>]) (us @ vs) g"
proof -
  let ?P = "in_slot heap (length ht) g"
  have sl: "in_slot heap' (length ht) g x = ?P x" if "x \<in> set (us @ vs)" for x
    using he_key_dat_cong [OF same [OF that]] by (simp add: in_slot_def)
  then have b: "bucket heap' (length ht) g (us @ vs) = bucket heap (length ht) g (us @ vs)"
    unfolding bucket_def by (rule filter_cong [OF refl])
  have "contig ?P (us @ vs)" using ok contig_remove [of ?P us a vs] by (simp add: bucket_ok_def)
  then have c: "contig (in_slot heap' (length ht) g) (us @ vs)"
    using contig_cong [of "us @ vs" "in_slot heap' (length ht) g" ?P] sl by blast
  show ?thesis
  proof (cases "g = h")
    case False
    with h have "\<not> ?P a" by (simp add: in_slot_def)
    with ok b c False show ?thesis by (simp add: bucket_ok_def bucket_def)
  next
    case True
    let ?B = "filter ?P (us @ a # vs)"
    have Pa: "?P a" using h True by simp
    have cnt: "ht_count (ht ! h) = Suc (length (filter ?P (us @ vs)))" and ch: "ht_chain (ht ! h) = Some (hd ?B)"
      using ok True Pa by (simp_all add: bucket_ok_def bucket_def)
    have "ht_chain e' = Some (hd (filter ?P (us @ vs)))" if ne: "filter ?P (us @ vs) \<noteq> []"
    proof (cases "hd ?B = a")
      case False
      then have "filter ?P us \<noteq> []" by (auto simp: Pa)
      with False ch e' show ?thesis by simp
    next
      case hd_a: True
      have us: "filter ?P us = []"
      proof (rule ccontr)
        assume us: "filter ?P us \<noteq> []"
        then have "hd (filter ?P us) \<in> set us" using hd_in_set [OF us] by simp
        with hd_a us assms(2) show False by auto
      qed
      with ne have v: "filter ?P vs \<noteq> []" by simp
      obtain xs ys where L: "us @ a # vs = xs @ ?B @ ys" "\<forall>z\<in>set xs. \<not> ?P z"
        using contig_split [of ?P "us @ a # vs"] ok by (auto simp: bucket_ok_def)
      from us have B: "?B = a # filter ?P vs" using Pa by simp
      have "us @ a # vs = xs @ a # filter ?P vs @ ys" using L(1) unfolding B by simp
      moreover have "a \<notin> set us" "a \<notin> set xs" using assms(2) L(2) Pa by auto
      ultimately have vs: "vs = filter ?P vs @ ys" by (rule first_split)
      then have "hd vs = hd (filter ?P vs @ ys)" by (rule arg_cong)
      then have "hd vs = hd (filter ?P vs)" "vs \<noteq> []" using v by auto
      with hd_a ch e' n us show ?thesis by simp
    qed
    moreover have "ht_count e' = ht_count (ht ! h)" by (simp add: e')
    ultimately show ?thesis
      using b c True cnt h(1) by (simp add: bucket_ok_def bucket_def)
  qed
qed

lemma free_loop_None: "free_loop heap None = Some heap"
  by (subst free_loop.simps) simp

lemma removeElement_inv:
  assumes inv: "hash_inv heap pH L" and a: "a \<in> set L" and h: "h_ht pH \<noteq> [] \<Longrightarrow> in_slot heap (length (h_ht pH)) h a \<and> h < length (h_ht pH)"
  shows "\<exists>heap' pH' L'. removeElementGivenHash heap pH a h = Some (heap', pH') \<and> hash_inv heap' pH' L' \<and>
    set L' = set L - {a} \<and> he_entry heap' = (he_entry heap)(a := None)"
proof -
  from inv have t: "dll heap (h_first pH) L" "h_htsize pH = length (h_ht pH)"
    "\<And>g. g < length (h_ht pH) \<Longrightarrow> bucket_ok heap (h_ht pH) L g" and cnt: "h_count pH = length L"
    by (simp_all add: hash_inv_def hash_table_def)
  from a obtain us vs where L: "L = us @ a # vs" by (meson split_list)
  with t(1) have dist: "distinct (us @ a # vs)" by (simp add: dll_def)
  obtain e where e: "heap a = Some e" using t(1) a dseg_in_heap by (fastforce simp: dll_def)
  from dll_remove [OF t(1) [unfolded L] e] obtain heap1 heap2 p' where r:
    "(case he_prev e of
        Some b \<Rightarrow> do { heap \<leftarrow> he_write heap b (he_next_update (\<lambda>_. he_next e)); Some (heap, h_first pH) }
      | None \<Rightarrow> Some (heap, he_next e)) = Some (heap1, p')"
    "(case he_next e of
        Some n \<Rightarrow> he_write heap1 n (he_prev_update (\<lambda>_. he_prev e))
      | None \<Rightarrow> Some heap1) = Some heap2"
    "dll (heap2(a := None)) p' (us @ vs)" "he_entry (heap2(a := None)) = (he_entry heap)(a := None)"
    "he_next e = (if vs = [] then None else Some (hd vs))" by blast
  have r1: "(case he_prev e of
         Some p \<Rightarrow> do { heap \<leftarrow> he_write heap p (he_next_update (\<lambda>_. he_next e)); Some (heap, pH) }
       | None \<Rightarrow> Some (heap, pH\<lparr>h_first := he_next e\<rparr>)) = Some (heap1, pH\<lparr>h_first := p'\<rparr>)"
  proof (cases "he_prev e")
    case None
    with r(1) show ?thesis by simp
  next
    case (Some b)
    with r(1) have "he_write heap b (he_next_update (\<lambda>_. he_next e)) = Some heap1 \<and> p' = h_first pH"
      by (auto simp: bind_eq_Some_conv)
    with Some show ?thesis by (cases pH) simp
  qed
  define e' where "e' = (if ht_chain (h_ht pH ! h) = Some a then (h_ht pH ! h)\<lparr>ht_chain := he_next e\<rparr> else h_ht pH ! h)"
  define ht' where "ht' = (if h_ht pH = [] then [] else (h_ht pH)[h := e'\<lparr>ht_count := ht_count e' - 1\<rparr>])"
  let ?heap = "heap2(a := None)"
  let ?pH = "pH\<lparr>h_ht := ht', h_first := p', h_count := length (us @ vs)\<rparr>"
  have tab: "hash_table ?heap ?pH (us @ vs)"
  proof -
    have "bucket_ok ?heap ht' (us @ vs) g" if g: "g < length ht'" for g
    proof -
      from g have ne: "h_ht pH \<noteq> []" and gl: "g < length (h_ht pH)" by (auto simp: ht'_def split: if_splits)
      have "bucket_ok ?heap ((h_ht pH)[h := e'\<lparr>ht_count := ht_count e' - 1\<rparr>]) (us @ vs) g"
        by (rule bucket_ok_remove [OF t(3) [OF gl, unfolded L] dist _ _ gl _ r(5)])
          (use h ne r(4) dist e'_def in auto)
      with ne show ?thesis by (simp add: ht'_def)
    qed
    moreover have "length ht' = length (h_ht pH)" by (simp add: ht'_def)
    ultimately show ?thesis using r(3) t(2) by (simp add: hash_table_def)
  qed
  have kd: "he_key ?heap x = he_key heap x \<and> he_dat ?heap x = he_dat heap x" if "x \<in> set (us @ vs)" for x
    by (rule he_key_dat_cong) (use r(4) dist that in auto)
  have inv': "hash_inv ?heap ?pH (us @ vs)"
    using inv tab kd L by (auto simp: hash_inv_def inj_on_def)
  have rem: "removeElementGivenHash heap pH a h =
    (if length (us @ vs) = 0 then sqlite3HashClear ?heap ?pH else Some (?heap, ?pH))"
  proof -
    let ?X = "(if h_ht pH \<noteq> [] then pH\<lparr>h_first := p', h_ht := (h_ht pH)[h := e'\<lparr>ht_count := ht_count e' - 1\<rparr>]\<rparr>
      else pH\<lparr>h_first := p'\<rparr>)\<lparr>h_count := h_count pH - 1\<rparr>"
    have "removeElementGivenHash heap pH a h = (if h_count ?X = 0 then sqlite3HashClear ?heap ?X else Some (?heap, ?X))"
      unfolding removeElementGivenHash_def e bind.bind_lunit r1 prod.case r(2) Let_def e'_def by simp
    moreover have "?X = ?pH" using cnt L by (cases pH) (simp add: ht'_def)
    ultimately have "removeElementGivenHash heap pH a h = (if h_count ?pH = 0 then sqlite3HashClear ?heap ?pH else Some (?heap, ?pH))"
      by (simp only:)
    then show ?thesis by simp
  qed
  have s: "set (us @ vs) = set L - {a}" using L dist by auto
  show ?thesis
  proof (cases "us @ vs = []")
    case False
    then have "removeElementGivenHash heap pH a h = Some (?heap, ?pH)" unfolding rem by auto
    with inv' s r(4) show ?thesis by blast
  next
    case True
    with r(3) have "p' = None" by (simp add: dll_def)
    with True have "removeElementGivenHash heap pH a h = Some (?heap, sqlite3HashInit)"
      unfolding rem by (simp add: sqlite3HashClear_def free_loop_None sqlite3HashInit_def)
    moreover have "hash_inv ?heap sqlite3HashInit []"
      by (simp add: hash_inv_def hash_table_def dll_def sqlite3HashInit_def)
    ultimately show ?thesis using s r(4) True by (intro exI [of _ ?heap] exI [of _ sqlite3HashInit] exI [of _ "[]"]) simp
  qed
qed

lemma bucket_ok_cong_set:
  assumes "\<And>x. x \<in> set L \<Longrightarrow> strHash (he_key heap' x) = strHash (he_key heap x)"
  shows "bucket_ok heap' ht L h = bucket_ok heap ht L h"
proof -
  have s: "in_slot heap' n h x = in_slot heap n h x" if "x \<in> set L" for n x
    using assms [OF that] by (simp add: in_slot_def)
  then have "bucket heap' (length ht) h L = bucket heap (length ht) h L"
    unfolding bucket_def by (rule filter_cong [OF refl])
  moreover have "contig (in_slot heap' (length ht) h) L = contig (in_slot heap (length ht) h) L"
    by (rule contig_cong) (simp add: s)
  ultimately show ?thesis by (simp add: bucket_ok_def)
qed

lemma dseg_cong_ptrs:
  "dseg heap p pr xs q \<Longrightarrow>
   \<forall>x\<in>set xs. map_option (\<lambda>e. (he_next e, he_prev e)) (heap' x) = map_option (\<lambda>e. (he_next e, he_prev e)) (heap x) \<Longrightarrow>
   dseg heap' p pr xs q"
  by (induction xs arbitrary: p pr) (auto split: option.splits)

lemma hash_table_cong:
  assumes "hash_table heap pH L"
    and "\<And>x. x \<in> set L \<Longrightarrow> map_option (\<lambda>e. (he_next e, he_prev e)) (heap' x) = map_option (\<lambda>e. (he_next e, he_prev e)) (heap x)"
    and "\<And>x. x \<in> set L \<Longrightarrow> strHash (he_key heap' x) = strHash (he_key heap x)"
  shows "hash_table heap' pH L"
  using assms(1) bucket_ok_cong_set [of L heap' heap, OF assms(3)] dseg_cong_ptrs [of heap _ _ L _ heap'] assms(2)
  by (auto simp: hash_table_def dll_def)

text \<open>Replacing the data (and the key, by one with the same folded name) of an element.\<close>

lemma hash_inv_replace:
  assumes inv: "hash_inv heap pH L" and a: "a \<in> set L" "heap a = Some e" and k: "nul_free key" "named heap key a"
  shows "hash_inv (heap(a \<mapsto> e\<lparr>he_data := Some d, he_pKey := key\<rparr>)) pH L \<and>
    hash_map (heap(a \<mapsto> e\<lparr>he_data := Some d, he_pKey := key\<rparr>)) L = (hash_map heap L)(fold_name key \<mapsto> d)"
proof -
  let ?heap = "heap(a \<mapsto> e\<lparr>he_data := Some d, he_pKey := key\<rparr>)"
  have key: "he_key ?heap x = (if x = a then key else he_key heap x)"
    and dat: "he_dat ?heap x = (if x = a then Some d else he_dat heap x)" for x
    by (simp_all add: he_key_def he_dat_def he_entry_def)
  have fk: "fold_name (he_key ?heap x) = fold_name (he_key heap x)" for x
    using k(2) by (simp add: key named_def)
  have inj: "inj_on (\<lambda>x. fold_name (he_key heap x)) (set L)" using inv by (simp add: hash_inv_def)
  have "hash_table ?heap pH L"
    by (rule hash_table_cong [of heap])
      (use inv a(2) strHash_fold_name [OF fk] in \<open>auto simp: hash_inv_def\<close>)
  then have "hash_inv ?heap pH L"
    using inv k(1) fk by (auto simp: hash_inv_def key dat)
  moreover have "hash_map ?heap L f = ((hash_map heap L)(fold_name key \<mapsto> d)) f" for f
  proof (rule hash_map_eqI)
    fix d'
    have "hash_map ?heap L f = Some d' \<longleftrightarrow> (\<exists>x\<in>set L. fold_name (he_key heap x) = f \<and> he_dat ?heap x = Some d')"
      using hash_map_Some [of ?heap L f d'] inj fk by simp
    also have "\<dots> \<longleftrightarrow> ((hash_map heap L)(fold_name key \<mapsto> d)) f = Some d'"
    proof (cases "f = fold_name key")
      case True
      have u: "x = a" if "x \<in> set L" "fold_name (he_key heap x) = f" for x
        using inj that a(1) k(2) True by (simp add: inj_on_def named_def)
      have fa: "fold_name (he_key heap a) = f" using k(2) True by (simp add: named_def)
      have "(\<exists>x\<in>set L. fold_name (he_key heap x) = f \<and> he_dat ?heap x = Some d') \<longleftrightarrow> he_dat ?heap a = Some d'"
        using u fa a(1) by blast
      then show ?thesis using True dat [of a] by simp
    next
      case False
      have ne: "x \<noteq> a" if "fold_name (he_key heap x) = f" for x using that False k(2) by (auto simp: named_def)
      have "(\<exists>x\<in>set L. fold_name (he_key heap x) = f \<and> he_dat ?heap x = Some d') \<longleftrightarrow>
          (\<exists>x\<in>set L. fold_name (he_key heap x) = f \<and> he_dat heap x = Some d')"
        using ne dat by metis
      then show ?thesis using False hash_map_Some [OF inj, of f d'] by simp
    qed
    finally show "hash_map ?heap L f = Some d' \<longleftrightarrow> ((hash_map heap L)(fold_name key \<mapsto> d)) f = Some d'" .
  qed
  ultimately show ?thesis by blast
qed

lemma hash_map_removed:
  assumes "hash_inv heap pH L" "hash_inv heap' pH' L'" "a \<in> set L" "named heap key a" "set L' = set L - {a}"
    "he_entry heap' = (he_entry heap)(a := None)"
  shows "hash_map heap' L' = (hash_map heap L)(fold_name key := None)"
proof
  fix f
  have inj: "inj_on (\<lambda>x. fold_name (he_key heap x)) (set L)" "inj_on (\<lambda>x. fold_name (he_key heap' x)) (set L')"
    using assms(1,2) by (simp_all add: hash_inv_def)
  have s: "he_key heap' x = he_key heap x \<and> he_dat heap' x = he_dat heap x" if "x \<noteq> a" for x
    by (rule he_key_dat_cong) (simp add: assms(6) that)
  show "hash_map heap' L' f = ((hash_map heap L)(fold_name key := None)) f"
  proof (rule hash_map_eqI)
    fix d
    have u: "x = a" if "x \<in> set L" "fold_name (he_key heap x) = fold_name key" for x
      using inj(1) that assms(3,4) by (simp add: inj_on_def named_def)
    show "hash_map heap' L' f = Some d \<longleftrightarrow> ((hash_map heap L)(fold_name key := None)) f = Some d"
      unfolding hash_map_Some [OF inj(2)]
      using hash_map_Some [OF inj(1), of f d] u s assms(4,5) by (auto simp: named_def)
  qed
qed

lemma hash_map_inserted:
  assumes "hash_inv heap pH L" "hash_inv heap' pH' L'" "a \<notin> set L" "set L' = insert a (set L)"
    "he_entry heap' = (he_entry heap)(a \<mapsto> (key, Some d))"
  shows "hash_map heap' L' = (hash_map heap L)(fold_name key \<mapsto> d)"
proof
  fix f
  have inj: "inj_on (\<lambda>x. fold_name (he_key heap x)) (set L)" "inj_on (\<lambda>x. fold_name (he_key heap' x)) (set L')"
    using assms(1,2) by (simp_all add: hash_inv_def)
  have s: "he_key heap' x = he_key heap x \<and> he_dat heap' x = he_dat heap x" if "x \<noteq> a" for x
    by (rule he_key_dat_cong) (simp add: assms(5) that)
  have a: "he_key heap' a = key" "he_dat heap' a = Some d" by (simp_all add: he_key_def he_dat_def assms(5))
  have u: "fold_name (he_key heap x) \<noteq> fold_name key" if "x \<in> set L" for x
  proof
    assume "fold_name (he_key heap x) = fold_name key"
    moreover have "x \<noteq> a" using that assms(3) by auto
    ultimately show False using inj(2) that assms(4) a(1) s [of x] by (auto simp: inj_on_def)
  qed
  show "hash_map heap' L' f = ((hash_map heap L)(fold_name key \<mapsto> d)) f"
  proof (rule hash_map_eqI)
    fix d'
    show "hash_map heap' L' f = Some d' \<longleftrightarrow> ((hash_map heap L)(fold_name key \<mapsto> d)) f = Some d'"
    proof (cases "f = fold_name key")
      case True
      have "hash_map heap' L' f = Some d"
        unfolding hash_map_Some [OF inj(2)] using True a assms(4) by auto
      with True show ?thesis by simp
    next
      case False
      have "(\<exists>x\<in>set L'. fold_name (he_key heap' x) = f \<and> he_dat heap' x = Some d') \<longleftrightarrow>
          (\<exists>x\<in>set L. fold_name (he_key heap x) = f \<and> he_dat heap x = Some d')"
        using False a(1) s assms(3,4) by (metis insert_iff)
      with False show ?thesis unfolding hash_map_Some [OF inj(2)] using hash_map_Some [OF inj(1), of f d'] by simp
    qed
  qed
qed

lemma hashInsert_new:
  assumes inv: "hash_inv heap pH L" and key: "nul_free key" "find (named heap key) L = None" and n: "heap n = None"
    and alloc: "\<forall>k m. alloc k = Some m \<longrightarrow> 0 < m"
  shows "\<exists>heap' pH' L'. sqlite3HashInsert alloc (Some n) heap pH key (Some d) = Some (None, heap', pH') \<and>
    hash_inv heap' pH' L' \<and> hash_map heap' L' = (hash_map heap L)(fold_name key \<mapsto> d)"
proof -
  let ?e = "\<lparr>he_next = None, he_prev = None, he_data = Some d, he_pKey = key\<rparr>"
  let ?heap = "heap(n \<mapsto> ?e)"
  let ?pH = "pH\<lparr>h_count := h_count pH + 1\<rparr>"
  from inv have t: "hash_table heap pH L" and cnt: "h_count pH = length L" by (simp_all add: hash_inv_def)
  have nL: "n \<notin> set L" using t n dseg_in_heap by (fastforce simp: hash_table_def dll_def)
  have same: "he_key ?heap x = he_key heap x" if "x \<in> set L" for x
    using that nL by (auto simp: he_key_def he_entry_def)
  have "hash_table ?heap pH L" by (rule hash_table_cong [OF t]) (use nL same in auto)
  then have t1: "hash_table ?heap ?pH L" by (simp add: hash_table_def)
  have "\<exists>h heap1 pH1 L1. hash_grow alloc ?heap ?pH key (slot_of pH key) = Some (h, heap1, pH1) \<and> hash_table heap1 pH1 L1 \<and> set L1 = set L \<and>
      he_entry heap1 = he_entry ?heap \<and> h_count pH1 = h_count ?pH \<and> heap1 n = Some ?e \<and>
      (h_ht pH1 \<noteq> [] \<longrightarrow> h = unat (strHash key) mod length (h_ht pH1))"
  proof (cases "h_count ?pH \<ge> 10 \<and> h_count ?pH > 2 * h_htsize ?pH")
    case False
    then show ?thesis using t1 by (intro exI [of _ "slot_of pH key"] exI [of _ ?heap] exI [of _ ?pH] exI [of _ L])
      (auto simp: slot_of_def hash_table_def hash_grow_def)
  next
    case True
    from rehash_table [OF t1, of alloc "h_count ?pH * 2"] alloc obtain b heap1 pH1 L1 where
      r: "rehash alloc ?heap ?pH (h_count ?pH * 2) = Some (b, heap1, pH1)" "hash_table heap1 pH1 L1" "set L1 = set L"
      "he_entry heap1 = he_entry ?heap" "h_count pH1 = h_count ?pH" "b \<longrightarrow> h_ht pH1 \<noteq> []" "\<not> b \<longrightarrow> heap1 = ?heap \<and> pH1 = ?pH"
      "\<forall>y. y \<notin> set L \<longrightarrow> heap1 y = ?heap y" by blast
    let ?h = "if b then unat (strHash key) mod h_htsize pH1 else slot_of pH key"
    have sz: "h_htsize pH1 = length (h_ht pH1)" using r(2) by (simp add: hash_table_def)
    have "h_ht pH1 \<noteq> [] \<longrightarrow> ?h = unat (strHash key) mod length (h_ht pH1)"
      using r(7) sz t by (auto simp: slot_of_def hash_table_def)
    moreover have "heap1 n = Some ?e" using r(8) nL by simp
    moreover have "slot_of ?pH key = slot_of pH key" by (simp add: slot_of_def)
    ultimately show ?thesis
      using True r by (intro exI [of _ ?h] exI [of _ heap1] exI [of _ pH1] exI [of _ L1]) (simp add: hash_grow_def)
  qed
  then obtain h heap1 pH1 L1 where
    s: "hash_grow alloc ?heap ?pH key (slot_of pH key) = Some (h, heap1, pH1)"
    and t2: "hash_table heap1 pH1 L1" "set L1 = set L" "he_entry heap1 = he_entry ?heap" "h_count pH1 = h_count ?pH"
      "heap1 n = Some ?e" "h_ht pH1 \<noteq> [] \<longrightarrow> h = unat (strHash key) mod length (h_ht pH1)" by blast
  have n1: "n \<notin> set L1" using nL t2(2) by simp
  have e: "(if h_ht pH1 \<noteq> [] then Some h else None) = (if h_ht pH1 = [] then None else Some h)" by simp
  have p: "h < length (h_ht pH1) \<and> in_slot heap1 (length (h_ht pH1)) h n" if "h_ht pH1 \<noteq> []"
    using that t2(5,6) he_key_heap [of heap1 n] by (simp add: in_slot_def)
  from insertElement_table [OF t2(1) n1 t2(5) e p] obtain heap' pH' L' where
    i: "insertElement heap1 pH1 (if h_ht pH1 \<noteq> [] then Some h else None) n = Some (heap', pH')"
      "hash_table heap' pH' L'" "set L' = insert n (set L1)" "he_entry heap' = he_entry heap1" "h_count pH' = h_count pH1"
    by blast
  have f: "findElementWithHash heap pH key = Some (None, slot_of pH key)"
    using findElement_inv [OF inv key(1)] key(2) by simp
  have ins: "sqlite3HashInsert alloc (Some n) heap pH key (Some d) = Some (None, heap', pH')"
    by (simp only: sqlite3HashInsert_def f Let_def bind.bind_lunit prod.case option.case option.distinct simp_thms if_False s i(1))
  have E: "he_entry heap' = (he_entry heap)(n \<mapsto> (key, Some d))"
    using i(4) t2(3) by (auto simp: he_entry_def fun_eq_iff)
  have kd: "he_key heap' x = he_key heap x \<and> he_dat heap' x = he_dat heap x" if "x \<in> set L" for x
    by (rule he_key_dat_cong) (use E that nL in auto)
  have kn: "he_key heap' n = key" "he_dat heap' n = Some d" using E by (simp_all add: he_key_def he_dat_def)
  have fresh_name: "fold_name (he_key heap x) \<noteq> fold_name key" if "x \<in> set L" for x
    using key(2) that by (auto simp: find_None_iff named_def)
  have fresh_name': "fold_name key \<noteq> fold_name (he_key heap x)" if "x \<in> set L" for x
    using fresh_name [OF that] by simp
  have "length L' = Suc (length L)"
    using i(2,3) t t2(2) nL distinct_card [of L'] distinct_card [of L] by (auto simp: hash_table_def dll_def)
  moreover have "inj_on (\<lambda>x. fold_name (he_key heap' x)) (insert n (set L))"
    using inv kd kn fresh_name fresh_name' nL by (auto simp: hash_inv_def inj_on_def)
  ultimately have inv': "hash_inv heap' pH' L'"
    using inv i(2,3,5) t2(2,4) cnt kd kn key(1) by (simp add: hash_inv_def)
  from ins inv' hash_map_inserted [OF inv inv' nL _ E] i(3) t2(2) show ?thesis by blast
qed

text \<open>What an insertion does, for every outcome of the allocation.\<close>

definition abs_insert :: "bool \<Rightarrow> string \<Rightarrow> nat option \<Rightarrow> (nat list \<Rightarrow> nat option) \<Rightarrow> nat option \<times> (nat list \<Rightarrow> nat option)" where
  "abs_insert memory key data m =
     (if m (fold_name key) = None \<and> data \<noteq> None \<and> \<not> memory then (data, m)
      else (m (fold_name key), m(fold_name key := data)))"

lemma hashInsert_inv:
  assumes inv: "hash_inv heap pH L" and key: "nul_free key"
    and fresh: "\<And>a. fresh = Some a \<Longrightarrow> heap a = None" and alloc: "\<forall>k m. alloc k = Some m \<longrightarrow> 0 < m"
  shows "\<exists>r heap' pH' L'. sqlite3HashInsert alloc fresh heap pH key data = Some (r, heap', pH') \<and>
    hash_inv heap' pH' L' \<and> (r, hash_map heap' L') = abs_insert (fresh \<noteq> None) key data (hash_map heap L)"
proof (cases "find (named heap key) L")
  case None
  then have m: "hash_map heap L (fold_name key) = None" by (simp add: hash_map_def named_def [abs_def])
  have f: "findElementWithHash heap pH key = Some (None, slot_of pH key)" using findElement_inv [OF inv key] None by simp
  show ?thesis
  proof (cases "data = None \<or> fresh = None")
    case True
    then have "sqlite3HashInsert alloc fresh heap pH key data = Some (if data = None then None else data, heap, pH)"
      using f by (auto simp: sqlite3HashInsert_def)
    moreover have "(if data = None then None else data, hash_map heap L) = abs_insert (fresh \<noteq> None) key data (hash_map heap L)"
      using True m by (auto simp: abs_insert_def fun_upd_idem)
    ultimately show ?thesis using inv by blast
  next
    case False
    then obtain n d where nd: "fresh = Some n" "data = Some d" by auto
    from hashInsert_new [where d = d and alloc = alloc, OF inv key None fresh [OF nd(1)] alloc] obtain heap' pH' L' where
      "sqlite3HashInsert alloc (Some n) heap pH key (Some d) = Some (None, heap', pH')" "hash_inv heap' pH' L'"
      "hash_map heap' L' = (hash_map heap L)(fold_name key \<mapsto> d)" by blast
    moreover from this(3) have "(None, hash_map heap' L') = abs_insert (fresh \<noteq> None) key data (hash_map heap L)"
      using m nd by (simp add: abs_insert_def)
    ultimately show ?thesis unfolding nd by blast
  qed
next
  case (Some a)
  then have a: "a \<in> set L" "named heap key a" by (auto simp: find_Some_iff)
  from inv a(1) obtain e where e: "heap a = Some e"
    using dseg_in_heap by (fastforce simp: hash_inv_def hash_table_def dll_def)
  have "he_dat heap a \<noteq> None" using inv a(1) by (simp add: hash_inv_def)
  then obtain d0 where d0: "he_data e = Some d0" using he_dat_heap [of heap a] e by auto
  have m: "hash_map heap L (fold_name key) = Some d0"
    using Some e d0 he_dat_heap [of heap a] by (simp add: hash_map_def named_def [abs_def])
  have f: "findElementWithHash heap pH key = Some (Some a, slot_of pH key)" using findElement_inv [OF inv key] Some by simp
  show ?thesis
  proof (cases data)
    case None
    have "in_slot heap (length (h_ht pH)) (slot_of pH key) a \<and> slot_of pH key < length (h_ht pH)" if "h_ht pH \<noteq> []"
      using that inv a(2) by (auto simp: slot_of_def in_slot_def hash_inv_def hash_table_def named_def dest: strHash_fold_name)
    from removeElement_inv [OF inv a(1) this] obtain heap' pH' L' where
      r: "removeElementGivenHash heap pH a (slot_of pH key) = Some (heap', pH')" "hash_inv heap' pH' L'"
        "set L' = set L - {a}" "he_entry heap' = (he_entry heap)(a := None)" by blast
    have "sqlite3HashInsert alloc fresh heap pH key data = Some (Some d0, heap', pH')"
      using f e d0 None r(1) by (simp add: sqlite3HashInsert_def)
    moreover have "(Some d0, hash_map heap' L') = abs_insert (fresh \<noteq> None) key data (hash_map heap L)"
      using hash_map_removed [OF inv r(2) a r(3,4)] None m by (simp add: abs_insert_def)
    ultimately show ?thesis using r(2) by blast
  next
    case (Some d)
    let ?heap = "heap(a \<mapsto> e\<lparr>he_data := Some d, he_pKey := key\<rparr>)"
    have "sqlite3HashInsert alloc fresh heap pH key data = Some (Some d0, ?heap, pH)"
      using f e d0 Some by (simp add: sqlite3HashInsert_def he_write_def)
    moreover from hash_inv_replace [OF inv a(1) e key a(2), of d] have
      "hash_inv ?heap pH L" "(Some d0, hash_map ?heap L) = abs_insert (fresh \<noteq> None) key data (hash_map heap L)"
      using m Some by (simp_all add: abs_insert_def)
    ultimately show ?thesis by blast
  qed
qed

lemma free_loop_nexts:
  assumes "nexts heap p R" "distinct R"
  shows "\<exists>heap'. free_loop heap p = Some heap' \<and> (\<forall>a. heap' a = (if a \<in> set R then None else heap a))"
  using assms
proof (induction R arbitrary: heap p)
  case Nil
  then show ?case by (simp add: free_loop_None)
next
  case (Cons a R)
  then obtain e where e: "p = Some a" "heap a = Some e" "nexts heap (he_next e) R" by (auto split: option.splits)
  have "nexts (heap(a := None)) (he_next e) R"
    by (rule nexts_cong [OF e(3)]) (use Cons.prems in auto)
  moreover have "distinct R" using Cons.prems by simp
  ultimately obtain heap' where
    h: "free_loop (heap(a := None)) (he_next e) = Some heap'" "\<forall>b. heap' b = (if b \<in> set R then None else (heap(a := None)) b)"
    using Cons.IH by blast
  have "free_loop heap p = Some heap'" using e h(1) by (subst free_loop.simps) simp
  with h(2) show ?case by auto
qed

lemma hashClear_inv:
  assumes "hash_inv heap pH L"
  shows "\<exists>heap'. sqlite3HashClear heap pH = Some (heap', sqlite3HashInit) \<and>
    (\<forall>a. heap' a = (if a \<in> set L then None else heap a))"
proof -
  from assms have "nexts heap (h_first pH) L" "distinct L"
    by (auto simp: hash_inv_def hash_table_def dll_def intro: dseg_nexts)
  from free_loop_nexts [OF this] show ?thesis by (auto simp: sqlite3HashClear_def sqlite3HashInit_def)
qed

lemma hashInit_inv: "hash_inv heap sqlite3HashInit []" "hash_map heap [] = Map.empty"
  by (auto simp: hash_inv_def hash_table_def dll_def sqlite3HashInit_def hash_map_def fun_eq_iff)

section \<open>The interface\<close>

text \<open>
  What the users of a symbol table rely on: a search and an insertion that act on the state as on a
  map. \<open>represents\<close> ties a state to its map, \<open>valid\<close> are the names.
\<close>

locale symbol_table =
  fixes lookup :: "'s \<Rightarrow> string \<Rightarrow> nat option option"
    and insert_op :: "'s \<Rightarrow> string \<Rightarrow> nat option \<Rightarrow> (nat option \<times> 's) option"
    and represents :: "'s \<Rightarrow> (nat list \<Rightarrow> nat option) \<Rightarrow> bool"
    and memory :: "'s \<Rightarrow> bool"
  assumes lookup_law: "represents s m \<Longrightarrow> nul_free key \<Longrightarrow> lookup s key = Some (m (fold_name key))"
    and insert_law: "represents s m \<Longrightarrow> nul_free key \<Longrightarrow>
      \<exists>r s' m'. insert_op s key data = Some (r, s') \<and> represents s' m' \<and> (r, m') = abs_insert (memory s) key data m"
begin

text \<open>A history of insertions, with what each returned.\<close>

fun insert_all :: "'s \<Rightarrow> (string \<times> nat option) list \<Rightarrow> (nat option list \<times> 's) option" where
  "insert_all s [] = Some ([], s)"
| "insert_all s ((key, data) # ops) =
     (case insert_op s key data of
        None \<Rightarrow> None
      | Some (r, s) \<Rightarrow> map_option (\<lambda>(rs, s). (r # rs, s)) (insert_all s ops))"

lemma insert_all_represents:
  assumes "represents s m" "\<forall>(key, data)\<in>set ops. nul_free key"
  shows "\<exists>rs s' m'. insert_all s ops = Some (rs, s') \<and> represents s' m' \<and> length rs = length ops"
  using assms
proof (induction ops arbitrary: s m)
  case Nil
  then show ?case by auto
next
  case (Cons op ops)
  obtain key data where op: "op = (key, data)" by (cases op)
  with Cons.prems insert_law [of s m key data] obtain r s1 m1 where
    1: "insert_op s key data = Some (r, s1)" "represents s1 m1" by auto
  with Cons.IH [OF 1(2)] Cons.prems obtain rs s2 m2 where
    2: "insert_all s1 ops = Some (rs, s2)" "represents s2 m2" "length rs = length ops" by auto
  from 1(1) 2(1) op have "insert_all s (op # ops) = Some (r # rs, s2)" by simp
  with 2(2,3) show ?case by (intro exI [of _ "r # rs"] exI [of _ s2] exI [of _ m2]) simp
qed

lemma lookup_insert:
  assumes "represents s m" "nul_free key" "nul_free key'" "memory s"
  shows "\<exists>r s'. insert_op s key data = Some (r, s') \<and> lookup s key = Some r \<and>
    lookup s' key' = (if fold_name key' = fold_name key then Some data else lookup s key')"
proof -
  from insert_law [OF assms(1,2), of data] obtain r s' m' where
    i: "insert_op s key data = Some (r, s')" "represents s' m'" "(r, m') = abs_insert (memory s) key data m" by blast
  with assms(4) have "r = m (fold_name key)" "m' = m(fold_name key := data)" by (simp_all add: abs_insert_def)
  with i lookup_law [OF assms(1)] lookup_law [OF i(2)] assms(2,3) show ?thesis by auto
qed

end

text \<open>
  The tables provide it. The state is the heap with the table; \<open>malloc\<close> returns a free address
  or fails, \<open>alloc\<close> the number of buckets of a block. That \<open>malloc\<close> and \<open>alloc\<close> do so is part of
  the representation.
\<close>

definition hash_represents ::
  "(nat \<Rightarrow> nat option) \<Rightarrow> (hash_heap \<Rightarrow> nat option) \<Rightarrow> hash_heap \<times> Hash \<Rightarrow> (nat list \<Rightarrow> nat option) \<Rightarrow> bool" where
  "hash_represents alloc malloc = (\<lambda>(heap, pH) m.
     (\<forall>k b. alloc k = Some b \<longrightarrow> 0 < b) \<and> (\<forall>heap a. malloc heap = Some a \<longrightarrow> heap a = None) \<and>
     (\<exists>L. hash_inv heap pH L \<and> hash_map heap L = m))"

interpretation hashtab: symbol_table "\<lambda>(heap, pH) key. sqlite3HashFind heap pH key"
  "\<lambda>(heap, pH) key data. map_option (\<lambda>(r, heap, pH). (r, (heap, pH))) (sqlite3HashInsert alloc (malloc heap) heap pH key data)"
  "hash_represents alloc malloc" "\<lambda>(heap, pH). malloc heap \<noteq> None"
proof unfold_locales
  fix s m key
  assume "hash_represents alloc malloc s m" "nul_free key"
  then show "(case s of (heap, pH) \<Rightarrow> \<lambda>key. sqlite3HashFind heap pH key) key = Some (m (fold_name key))"
    by (auto simp: hash_represents_def hashFind_inv split: prod.splits)
next
  fix s :: "hash_heap \<times> Hash" and m key data
  obtain heap pH where s: "s = (heap, pH)" by (cases s)
  assume r: "hash_represents alloc malloc s m" and key: "nul_free key"
  with s obtain L where L: "hash_inv heap pH L" "hash_map heap L = m" by (auto simp: hash_represents_def)
  from r s have "\<And>a. malloc heap = Some a \<Longrightarrow> heap a = None" "\<forall>k b. alloc k = Some b \<longrightarrow> 0 < b"
    by (auto simp: hash_represents_def)
  from hashInsert_inv [OF L(1) key this, where data = data] obtain x heap' pH' L' where
    i: "sqlite3HashInsert alloc (malloc heap) heap pH key data = Some (x, heap', pH')" "hash_inv heap' pH' L'"
      "(x, hash_map heap' L') = abs_insert (malloc heap \<noteq> None) key data m"
    using L(2) by blast
  have "hash_represents alloc malloc (heap', pH') (hash_map heap' L')"
    using r i(2) unfolding hash_represents_def s prod.case by blast
  moreover have "map_option (\<lambda>(r, heap, pH). (r, (heap, pH))) (sqlite3HashInsert alloc (malloc heap) heap pH key data) =
      Some (x, (heap', pH'))" using i(1) by simp
  ultimately show "\<exists>r s' m'. (case s of (heap, pH) \<Rightarrow> \<lambda>key data. map_option (\<lambda>(r, heap, pH). (r, (heap, pH)))
        (sqlite3HashInsert alloc (malloc heap) heap pH key data)) key data = Some (r, s') \<and>
      hash_represents alloc malloc s' m' \<and> (r, m') = abs_insert (case s of (heap, pH) \<Rightarrow> malloc heap \<noteq> None) key data m"
    unfolding s prod.case using i(3) by blast
qed

section \<open>Properties\<close>

text \<open>
  C37: the hash table is a map from names, folded to lower case, to data. Every search returns what the
  map has, and every insertion - a new element with or without resizing, a replacement, a removal,
  and a failed allocation - returns the old entry (or the data itself when there is no memory
  for it) and leaves a table for the changed map. The loops end and no pointer that is null or has been freed is
  followed. Clearing a table frees its elements and nothing else.
\<close>

theorem hash_table_is_map:
  assumes "hash_inv heap pH L" and "nul_free key" and "\<And>a. fresh = Some a \<Longrightarrow> heap a = None"
    and "\<forall>k m. alloc k = Some m \<longrightarrow> 0 < m"
  shows "sqlite3HashFind heap pH key = Some (hash_map heap L (fold_name key)) \<and>
    (\<exists>r heap' pH' L'. sqlite3HashInsert alloc fresh heap pH key data = Some (r, heap', pH') \<and> hash_inv heap' pH' L' \<and>
       (r, hash_map heap' L') =
         (if hash_map heap L (fold_name key) = None \<and> data \<noteq> None \<and> fresh = None then (data, hash_map heap L)
          else (hash_map heap L (fold_name key), (hash_map heap L)(fold_name key := data)))) \<and>
    (\<exists>heap'. sqlite3HashClear heap pH = Some (heap', sqlite3HashInit) \<and>
       (\<forall>a. heap' a = (if a \<in> set L then None else heap a)))"
  using hashFind_inv [OF assms(1,2)] hashInsert_inv [OF assms, where data = data] hashClear_inv [OF assms(1)]
  by (simp add: abs_insert_def)

theorem hash_table_is_map_witness:
  "\<exists>heap pH L. sqlite3HashInsert (\<lambda>k. Some (Suc k)) (Some 7) (\<lambda>_. None) sqlite3HashInit ''Users'' (Some 42) = Some (None, heap, pH) \<and>
    hash_inv heap pH L \<and> hash_map heap L (fold_name ''USERS'') = Some 42"
proof -
  have f: "fold_name ''USERS'' = fold_name ''Users''"
    by (simp add: fold_name_def sqlite3Tolower_ascii)
  have "nul_free ''Users''" by simp
  moreover have "\<And>a. Some 7 = Some a \<Longrightarrow> (\<lambda>_. None) a = (None :: HashElem option)" by simp
  moreover have "\<forall>k m. Some (Suc k) = Some m \<longrightarrow> 0 < m" by auto
  ultimately have "\<exists>r heap' pH' L'. sqlite3HashInsert (\<lambda>k. Some (Suc k)) (Some 7) (\<lambda>_. None) sqlite3HashInit ''Users'' (Some 42) = Some (r, heap', pH') \<and>
      hash_inv heap' pH' L' \<and> (r, hash_map heap' L') = (None, Map.empty(fold_name ''Users'' \<mapsto> 42))"
    using hash_table_is_map [OF hashInit_inv(1) [of "\<lambda>_. None"], of "''Users''" "Some 7" "\<lambda>k. Some (Suc k)" "Some 42"]
    by (simp add: hashInit_inv(2))
  then obtain heap' pH' L' where
    "sqlite3HashInsert (\<lambda>k. Some (Suc k)) (Some 7) (\<lambda>_. None) sqlite3HashInit ''Users'' (Some 42) = Some (None, heap', pH')"
    "hash_inv heap' pH' L'" "hash_map heap' L' = Map.empty(fold_name ''Users'' \<mapsto> 42)" by auto
  moreover from this(3) have "hash_map heap' L' (fold_name ''Users'') = Some 42" by simp
  ultimately show ?thesis unfolding f by blast
qed

text \<open>
  What a user of a symbol table sees, whatever the history of the table: an insertion that has memory returns what a search for the
  name has just found, a search for the name under any capitalisation then finds the new data,
  and all other names are as before.
\<close>

theorem hash_lookup_after_insert:
  assumes "hash_represents alloc malloc (heap, pH) m" and "nul_free key" and "nul_free key'" and "malloc heap \<noteq> None"
  shows "\<exists>r heap' pH'. sqlite3HashInsert alloc (malloc heap) heap pH key data = Some (r, heap', pH') \<and>
    sqlite3HashFind heap pH key = Some r \<and>
    sqlite3HashFind heap' pH' key' =
      (if fold_name key' = fold_name key then Some data else sqlite3HashFind heap pH key') \<and>
    (\<exists>m'. hash_represents alloc malloc (heap', pH') m')"
proof -
  from hashtab.insert_law [OF assms(1,2), of data] obtain r s' m' where
    "map_option (\<lambda>(r, heap, pH). (r, (heap, pH))) (sqlite3HashInsert alloc (malloc heap) heap pH key data) = Some (r, s')"
    "hash_represents alloc malloc s' m'" by auto
  with hashtab.lookup_insert [OF assms(1-3), of data] assms(4) show ?thesis
    by (cases s') (auto split: prod.splits)
qed

end
