(* ===== verification/Ys_Varint.thy ===== *)
theory Ys_Varint
  imports Ys_Prelude
begin

text \<open>
  Variable-length integers and big-endian integers (\<^verbatim>\<open>util.c\<close> in \<^verbatim>\<open>sqlite3.c\<close>): one to nine bytes,
  seven bits in each of the first eight and eight in the ninth. The decoder of the code keeps
  even and odd bytes in two 32 bit registers; it is proved equal to the byte by byte reading of the
  format. A function that reads memory takes the bytes from the pointer on; running out of them is
  \<^verbatim>\<open>None\<close>.
\<close>

section \<open>Writing\<close>

fun put_seven :: "nat \<Rightarrow> 64 word \<Rightarrow> byte list \<Rightarrow> byte list" where
  "put_seven 0 v p = p"
| "put_seven (Suc i) v p = put_seven i (drop_bit 7 v) (ucast ((v AND 0x7f) OR 0x80) # p)"

text \<open>The loop that collects the bytes of \<open>v\<close>, the last ones first.\<close>

function put_loop :: "64 word \<Rightarrow> byte list" where
  "put_loop v = (ucast ((v AND 0x7f) OR 0x80) :: byte) # (if drop_bit 7 v \<noteq> 0 then put_loop (drop_bit 7 v) else [])"
  by auto

termination put_loop
proof (relation "measure unat")
  show "wf (measure (unat :: 64 word \<Rightarrow> nat))" by simp
next
  fix v :: "64 word"
  assume "drop_bit 7 v \<noteq> 0"
  then have "v \<noteq> 0" by auto
  then have "unat v > 0" by (simp add: unat_gt_0)
  moreover have "unat (drop_bit 7 v) = unat v div 2 ^ 7"
    by (subst unat_drop_bit_eq) (rule drop_bit_eq_div)
  ultimately show "(drop_bit 7 v, v) \<in> measure unat"
    by simp
qed

declare put_loop.simps [simp del]

text \<open>The bytes written, in the order of the addresses.\<close>

definition putVarint64 :: "64 word \<Rightarrow> byte list" where
  "putVarint64 v =
     (if v AND push_bit 32 0xff000000 \<noteq> 0 then put_seven 8 (drop_bit 8 v) [ucast v]
      else let buf = put_loop v in rev (buf[0 := buf ! 0 AND 0x7f]))"

definition sqlite3PutVarint :: "64 word \<Rightarrow> byte list" where
  "sqlite3PutVarint v =
     (if v \<le> 0x7f then [ucast (v AND 0x7f)]
      else if v \<le> 0x3fff then [ucast ((drop_bit 7 v AND 0x7f) OR 0x80), ucast (v AND 0x7f)]
      else putVarint64 v)"

section \<open>Reading\<close>

definition SLOT_2_0 :: "32 word" where "SLOT_2_0 = 0x001fc07f"
definition SLOT_4_2_0 :: "32 word" where "SLOT_4_2_0 = 0xf01fc07f"

definition u32 :: "byte \<Rightarrow> 32 word" where
  "u32 b = ucast b"

definition join64 :: "32 word \<Rightarrow> 32 word \<Rightarrow> 64 word" where
  "join64 s a = push_bit 32 (ucast s) OR ucast a"

text \<open>\<open>reads p n r\<close> is \<open>r\<close> when \<open>n\<close> bytes can be read.\<close>

definition reads :: "byte list \<Rightarrow> nat \<Rightarrow> 'a option \<Rightarrow> 'a option" where
  "reads p n r = (if n \<le> length p then r else None)"

definition getVarint_tail :: "byte list \<Rightarrow> 32 word \<Rightarrow> 32 word \<Rightarrow> 32 word \<Rightarrow> (nat \<times> 64 word) option" where
  "getVarint_tail p a b s = reads p 7 (
     let a = push_bit 14 a OR u32 (p ! 6) in
     if a AND 0x80 = 0 then
       (let a = a AND SLOT_4_2_0; b = b AND SLOT_2_0; b = push_bit 7 b; a = a OR b; s = drop_bit 11 s
        in Some (7, join64 s a))
     else reads p 8 (
     let a = a AND SLOT_2_0; b = push_bit 14 b OR u32 (p ! 7) in
     if b AND 0x80 = 0 then
       (let b = b AND SLOT_4_2_0; a = push_bit 7 a; a = a OR b; s = drop_bit 4 s
        in Some (8, join64 s a))
     else reads p 9 (
     let a = push_bit 15 a OR u32 (p ! 8); b = b AND SLOT_2_0; b = push_bit 8 b; a = a OR b;
         s = push_bit 4 s; b = u32 (p ! 4); b = b AND 0x7f; b = drop_bit 3 b; s = s OR b
     in Some (9, join64 s a))))"

definition sqlite3GetVarint :: "byte list \<Rightarrow> (nat \<times> 64 word) option" where
  "sqlite3GetVarint p = reads p 1 (
     if 0 \<le> sint (p ! 0) then Some (1, ucast (p ! 0))
     else reads p 2 (
     if 0 \<le> sint (p ! 1) then Some (2, ucast (push_bit 7 (u32 (p ! 0 AND 0x7f)) OR u32 (p ! 1)))
     else reads p 3 (
     let a = push_bit 14 (u32 (p ! 0)); b = u32 (p ! 1); a = a OR u32 (p ! 2) in
     if a AND 0x80 = 0 then
       (let a = a AND SLOT_2_0; b = b AND 0x7f; b = push_bit 7 b; a = a OR b in Some (3, ucast a))
     else reads p 4 (
     let a = a AND SLOT_2_0; b = push_bit 14 b; b = b OR u32 (p ! 3) in
     if b AND 0x80 = 0 then
       (let b = b AND SLOT_2_0; a = push_bit 7 a; a = a OR b in Some (4, ucast a))
     else reads p 5 (
     let b = b AND SLOT_2_0; s = a; a = push_bit 14 a; a = a OR u32 (p ! 4) in
     if a AND 0x80 = 0 then
       (let b = push_bit 7 b; a = a OR b; s = drop_bit 18 s in Some (5, join64 s a))
     else reads p 6 (
     let s = push_bit 7 s; s = s OR b; b = push_bit 14 b; b = b OR u32 (p ! 5) in
     if b AND 0x80 = 0 then
       (let a = a AND SLOT_2_0; a = push_bit 7 a; a = a OR b; s = drop_bit 18 s in Some (6, join64 s a))
     else getVarint_tail p a b s))))))"

definition sqlite3GetVarint32 :: "byte list \<Rightarrow> (nat \<times> 32 word) option" where
  "sqlite3GetVarint32 p = reads p 2 (
     let a = u32 (p ! 0); b = u32 (p ! 1) in
     if b AND 0x80 = 0 then
       (let a = a AND 0x7f; a = push_bit 7 a in Some (2, a OR b))
     else reads p 3 (
     let a = push_bit 14 a; a = a OR u32 (p ! 2) in
     if a AND 0x80 = 0 then
       (let a = a AND (push_bit 14 0x7f OR 0x7f); b = b AND 0x7f; b = push_bit 7 b in Some (3, a OR b))
     else
       (case sqlite3GetVarint p of
          None \<Rightarrow> None
        | Some (n, v64) \<Rightarrow> Some (n, if v64 AND 0xffffffff \<noteq> v64 then 0xffffffff else ucast v64))))"

text \<open>The macro \<^verbatim>\<open>getVarint32\<close> handles one byte itself.\<close>

definition getVarint32 :: "byte list \<Rightarrow> (nat \<times> 32 word) option" where
  "getVarint32 p = reads p 1 (if p ! 0 < 0x80 then Some (1, u32 (p ! 0)) else sqlite3GetVarint32 p)"

function sqlite3VarintLen :: "64 word \<Rightarrow> nat" where
  "sqlite3VarintLen v = (if drop_bit 7 v = 0 then 1 else Suc (sqlite3VarintLen (drop_bit 7 v)))"
  by auto

termination sqlite3VarintLen
proof (relation "measure unat")
  show "wf (measure (unat :: 64 word \<Rightarrow> nat))" by simp
next
  fix v :: "64 word"
  assume "drop_bit 7 v \<noteq> 0"
  then have "v \<noteq> 0" by auto
  then have "unat v > 0" by (simp add: unat_gt_0)
  moreover have "unat (drop_bit 7 v) = unat v div 2 ^ 7"
    by (subst unat_drop_bit_eq) (rule drop_bit_eq_div)
  ultimately show "(drop_bit 7 v, v) \<in> measure unat"
    by simp
qed

declare sqlite3VarintLen.simps [simp del]

definition sqlite3Get4byte :: "byte list \<Rightarrow> 32 word option" where
  "sqlite3Get4byte p = reads p 4
     (Some (push_bit 24 (u32 (p ! 0)) OR push_bit 16 (u32 (p ! 1)) OR push_bit 8 (u32 (p ! 2)) OR u32 (p ! 3)))"

definition sqlite3Put4byte :: "32 word \<Rightarrow> byte list" where
  "sqlite3Put4byte v = [ucast (drop_bit 24 v), ucast (drop_bit 16 v), ucast (drop_bit 8 v), ucast v]"

section \<open>The format\<close>

fun varint_ref :: "nat \<Rightarrow> 64 word \<Rightarrow> byte list \<Rightarrow> (nat \<times> 64 word) option" where
  "varint_ref k v [] = None"
| "varint_ref k v (b # bs) =
     (if k = 8 then Some (9, push_bit 8 v OR ucast b)
      else if bit b 7 then varint_ref (Suc k) (push_bit 7 v OR (ucast b AND 0x7f)) bs
      else Some (Suc k, push_bit 7 v OR ucast b))"

lemma sint_nonneg_byte: "0 \<le> sint (b :: byte) \<longleftrightarrow> \<not> bit b 7"
proof -
  have "bit b (LENGTH(8) - Suc 0) \<longleftrightarrow> sint b < 0" by (rule bit_last_iff)
  then show ?thesis by auto
qed

lemmas less_64 = iffD2 [OF lessThan_iff, of _ "64 :: nat",
  unfolded lessThan_nat_numeral pred_numeral_simps BitM.simps numeral_One lessThan_0 One_nat_def lessThan_Suc
    insert_iff empty_iff HOL.simp_thms]

lemma byte_bit_high: "8 \<le> k \<Longrightarrow> \<not> bit (b :: byte) k"
  by (auto dest: bit_imp_le_length)

lemma and_80: "w AND 0x80 = 0 \<longleftrightarrow> \<not> bit (w :: 32 word) 7"
  using and_exp_eq_0_iff_not_bit [of w 7] by simp

lemmas varint_simps = sqlite3GetVarint_def getVarint_tail_def reads_def Let_def sint_nonneg_byte and_80
  u32_def SLOT_2_0_def SLOT_4_2_0_def join64_def

lemma word64_bits: "(\<And>n. n < 64 \<Longrightarrow> bit x n = bit y n) \<Longrightarrow> x = (y :: 64 word)"
  by (rule bit_word_eqI) simp

lemma byte_bits_high:
  "\<not> bit (b :: byte) 8" "\<not> bit (b :: byte) 9" "\<not> bit (b :: byte) 10" "\<not> bit (b :: byte) 11"
  "\<not> bit (b :: byte) 12" "\<not> bit (b :: byte) 13" "\<not> bit (b :: byte) 14" "\<not> bit (b :: byte) 15"
  "\<not> bit (b :: byte) 16" "\<not> bit (b :: byte) 17" "\<not> bit (b :: byte) 18" "\<not> bit (b :: byte) 19"
  "\<not> bit (b :: byte) 20" "\<not> bit (b :: byte) 21" "\<not> bit (b :: byte) 22" "\<not> bit (b :: byte) 23"
  "\<not> bit (b :: byte) 24" "\<not> bit (b :: byte) 25" "\<not> bit (b :: byte) 26" "\<not> bit (b :: byte) 27"
  "\<not> bit (b :: byte) 28" "\<not> bit (b :: byte) 29" "\<not> bit (b :: byte) 30" "\<not> bit (b :: byte) 31"
  "\<not> bit (b :: byte) 32" "\<not> bit (b :: byte) 33" "\<not> bit (b :: byte) 34" "\<not> bit (b :: byte) 35"
  "\<not> bit (b :: byte) 36" "\<not> bit (b :: byte) 37" "\<not> bit (b :: byte) 38" "\<not> bit (b :: byte) 39"
  "\<not> bit (b :: byte) 40" "\<not> bit (b :: byte) 41" "\<not> bit (b :: byte) 42" "\<not> bit (b :: byte) 43"
  "\<not> bit (b :: byte) 44" "\<not> bit (b :: byte) 45" "\<not> bit (b :: byte) 46" "\<not> bit (b :: byte) 47"
  "\<not> bit (b :: byte) 48" "\<not> bit (b :: byte) 49" "\<not> bit (b :: byte) 50" "\<not> bit (b :: byte) 51"
  "\<not> bit (b :: byte) 52" "\<not> bit (b :: byte) 53" "\<not> bit (b :: byte) 54" "\<not> bit (b :: byte) 55"
  "\<not> bit (b :: byte) 56" "\<not> bit (b :: byte) 57" "\<not> bit (b :: byte) 58" "\<not> bit (b :: byte) 59"
  "\<not> bit (b :: byte) 60" "\<not> bit (b :: byte) 61" "\<not> bit (b :: byte) 62" "\<not> bit (b :: byte) 63"
  by (simp_all add: byte_bit_high)

lemma varint_1:
  assumes "\<not> bit x 7"
  shows "sqlite3GetVarint (x # bs) = varint_ref 0 0 (x # bs)"
  using assms by (simp add: varint_simps)

lemma varint_2:
  assumes "bit x 7" "\<not> bit y 7"
  shows "sqlite3GetVarint (x # y # bs) = varint_ref 0 0 (x # y # bs)"
  using assms by (simp add: varint_simps bit_simps byte_bit_high)
    (rule word64_bits, drule less_64, elim disjE; simp add: bit_simps byte_bits_high)

lemma varint_3:
  assumes "bit x 7" "bit y 7" "\<not> bit z 7"
  shows "sqlite3GetVarint (x # y # z # bs) = varint_ref 0 0 (x # y # z # bs)"
  using assms by (simp add: varint_simps bit_simps byte_bit_high)
    (rule word64_bits, drule less_64, elim disjE; simp add: bit_simps byte_bits_high)

lemma varint_4:
  assumes "bit x 7" "bit y 7" "bit z 7" "\<not> bit u 7"
  shows "sqlite3GetVarint (x # y # z # u # bs) = varint_ref 0 0 (x # y # z # u # bs)"
  using assms by (simp add: varint_simps bit_simps byte_bit_high)
    (rule word64_bits, drule less_64, elim disjE; simp add: bit_simps byte_bits_high)

lemma varint_5:
  assumes "bit x 7" "bit y 7" "bit z 7" "bit u 7" "\<not> bit v 7"
  shows "sqlite3GetVarint (x # y # z # u # v # bs) = varint_ref 0 0 (x # y # z # u # v # bs)"
  using assms by (simp add: varint_simps bit_simps byte_bit_high)
    (rule word64_bits, drule less_64, elim disjE; simp add: bit_simps byte_bits_high)

lemma varint_6:
  assumes "bit x 7" "bit y 7" "bit z 7" "bit u 7" "bit v 7" "\<not> bit w 7"
  shows "sqlite3GetVarint (x # y # z # u # v # w # bs) = varint_ref 0 0 (x # y # z # u # v # w # bs)"
  using assms by (simp add: varint_simps bit_simps byte_bit_high)
    (rule word64_bits, drule less_64, elim disjE; simp add: bit_simps byte_bits_high)

lemma varint_7:
  assumes "bit x 7" "bit y 7" "bit z 7" "bit u 7" "bit v 7" "bit w 7" "\<not> bit r 7"
  shows "sqlite3GetVarint (x # y # z # u # v # w # r # bs) = varint_ref 0 0 (x # y # z # u # v # w # r # bs)"
  using assms by (simp add: varint_simps bit_simps byte_bit_high)
    (rule word64_bits, drule less_64, elim disjE; simp add: bit_simps byte_bits_high)

lemma varint_8:
  assumes "bit x 7" "bit y 7" "bit z 7" "bit u 7" "bit v 7" "bit w 7" "bit r 7" "\<not> bit s 7"
  shows "sqlite3GetVarint (x # y # z # u # v # w # r # s # bs) = varint_ref 0 0 (x # y # z # u # v # w # r # s # bs)"
  using assms by (simp add: varint_simps bit_simps byte_bit_high)
    (rule word64_bits, drule less_64, elim disjE; simp add: bit_simps byte_bits_high)

lemma varint_9:
  assumes "bit x 7" "bit y 7" "bit z 7" "bit u 7" "bit v 7" "bit w 7" "bit r 7" "bit s 7"
  shows "sqlite3GetVarint (x # y # z # u # v # w # r # s # t # bs) = varint_ref 0 0 (x # y # z # u # v # w # r # s # t # bs)"
  using assms by (simp add: varint_simps bit_simps byte_bit_high)
    (rule word64_bits, drule less_64, elim disjE; simp add: bit_simps byte_bits_high)

lemma varint_short_0: "sqlite3GetVarint [] = varint_ref 0 0 []"
  by (simp add: varint_simps bit_simps)

lemma varint_short_1: "bit x 7 \<Longrightarrow> sqlite3GetVarint [x] = varint_ref 0 0 [x]"
  by (simp add: varint_simps bit_simps)

lemma varint_short_2: "bit x 7 \<Longrightarrow> bit y 7 \<Longrightarrow> sqlite3GetVarint [x, y] = varint_ref 0 0 [x, y]"
  by (simp add: varint_simps bit_simps)

lemma varint_short_3: "bit x 7 \<Longrightarrow> bit y 7 \<Longrightarrow> bit z 7 \<Longrightarrow> sqlite3GetVarint [x, y, z] = varint_ref 0 0 [x, y, z]"
  by (simp add: varint_simps bit_simps)

lemma varint_short_4: "bit x 7 \<Longrightarrow> bit y 7 \<Longrightarrow> bit z 7 \<Longrightarrow> bit u 7 \<Longrightarrow> sqlite3GetVarint [x, y, z, u] = varint_ref 0 0 [x, y, z, u]"
  by (simp add: varint_simps bit_simps)

lemma varint_short_5: "bit x 7 \<Longrightarrow> bit y 7 \<Longrightarrow> bit z 7 \<Longrightarrow> bit u 7 \<Longrightarrow> bit v 7 \<Longrightarrow> sqlite3GetVarint [x, y, z, u, v] = varint_ref 0 0 [x, y, z, u, v]"
  by (simp add: varint_simps bit_simps)

lemma varint_short_6: "bit x 7 \<Longrightarrow> bit y 7 \<Longrightarrow> bit z 7 \<Longrightarrow> bit u 7 \<Longrightarrow> bit v 7 \<Longrightarrow> bit w 7 \<Longrightarrow> sqlite3GetVarint [x, y, z, u, v, w] = varint_ref 0 0 [x, y, z, u, v, w]"
  by (simp add: varint_simps bit_simps)

lemma varint_short_7: "bit x 7 \<Longrightarrow> bit y 7 \<Longrightarrow> bit z 7 \<Longrightarrow> bit u 7 \<Longrightarrow> bit v 7 \<Longrightarrow> bit w 7 \<Longrightarrow> bit r 7 \<Longrightarrow> sqlite3GetVarint [x, y, z, u, v, w, r] = varint_ref 0 0 [x, y, z, u, v, w, r]"
  by (simp add: varint_simps bit_simps)

lemma varint_short_8: "bit x 7 \<Longrightarrow> bit y 7 \<Longrightarrow> bit z 7 \<Longrightarrow> bit u 7 \<Longrightarrow> bit v 7 \<Longrightarrow> bit w 7 \<Longrightarrow> bit r 7 \<Longrightarrow> bit s 7 \<Longrightarrow> sqlite3GetVarint [x, y, z, u, v, w, r, s] = varint_ref 0 0 [x, y, z, u, v, w, r, s]"
  by (simp add: varint_simps bit_simps)

lemmas varint_cases = varint_short_0 varint_short_1 varint_short_2 varint_short_3 varint_short_4 varint_short_5
  varint_short_6 varint_short_7 varint_short_8
  varint_1 varint_2 varint_3 varint_4 varint_5 varint_6 varint_7 varint_8 varint_9

lemma prefix_cases:
  assumes "P []" "\<And>x xs. p = x # xs \<Longrightarrow> P (x # xs)"
  shows "P p"
  using assms by (cases p) auto

lemma sqlite3GetVarint_ref: "sqlite3GetVarint p = varint_ref 0 0 p"
proof -
  have short: "sqlite3GetVarint p = varint_ref 0 0 p" if "\<forall>b\<in>set p. bit b 7" "length p = k" "k < 9" for k
  proof -
    from that(3) have "k = 0 \<or> k = 1 \<or> k = 2 \<or> k = 3 \<or> k = 4 \<or> k = 5 \<or> k = 6 \<or> k = 7 \<or> k = 8" by arith
    then show ?thesis
      using that(1,2) by (elim disjE) (auto simp: length_Suc_conv numeral_eq_Suc varint_cases simp del: varint_ref.simps)
  qed
  define ws where "ws = takeWhile (\<lambda>b. bit b 7) p"
  define cs where "cs = dropWhile (\<lambda>b. bit b 7) p"
  have p: "p = ws @ cs" by (simp add: ws_def cs_def)
  have ws: "\<forall>b\<in>set ws. bit b 7" by (auto simp: ws_def dest: set_takeWhileD)
  have cs: "cs = [] \<or> (\<exists>b bs. cs = b # bs \<and> \<not> bit b 7)"
  proof (cases cs)
    case (Cons b bs)
    then have "\<not> bit b 7" using hd_dropWhile [of "\<lambda>b. bit b 7" p] by (simp add: cs_def)
    with Cons show ?thesis by simp
  qed simp
  show ?thesis
  proof (cases "length ws < 8")
    case True
    then have k: "length ws = 0 \<or> length ws = 1 \<or> length ws = 2 \<or> length ws = 3 \<or> length ws = 4 \<or>
      length ws = 5 \<or> length ws = 6 \<or> length ws = 7" by arith
    from cs show ?thesis
    proof
      assume "cs = []"
      with p ws True short [of "length ws"] show ?thesis by simp
    next
      assume "\<exists>b bs. cs = b # bs \<and> \<not> bit b 7"
      with k p ws show ?thesis
        by (elim disjE) (auto simp: length_Suc_conv numeral_eq_Suc varint_cases simp del: varint_ref.simps)
    qed
  next
    case False
    define us where "us = take 8 ws"
    have us: "length us = 8" "\<forall>b\<in>set us. bit b 7" using False ws by (auto simp: us_def dest: in_set_takeD)
    have p8: "p = us @ drop 8 p" using p False by (simp add: us_def)
    show ?thesis
    proof (cases "drop 8 p")
      case Nil
      with p8 us short [of 8] show ?thesis by simp
    next
      case (Cons b bs)
      then have "p = us @ b # bs" using p8 by simp
      with us show ?thesis
        by (auto simp: length_Suc_conv numeral_eq_Suc varint_9 simp del: varint_ref.simps)
    qed
  qed
qed

section \<open>Round trips\<close>

lemma drop_bit_eq_0: "drop_bit n v = 0 \<longleftrightarrow> (\<forall>m\<ge>n. \<not> bit (v :: 64 word) m)"
proof
  assume d: "drop_bit n v = 0"
  show "\<forall>m\<ge>n. \<not> bit v m"
  proof (intro allI impI)
    fix m assume m: "n \<le> m"
    have "bit (drop_bit n v) (m - n) = bit v m" using m by (simp add: bit_simps)
    with d show "\<not> bit v m" by simp
  qed
next
  assume "\<forall>m\<ge>n. \<not> bit v m"
  then show "drop_bit n v = 0" by (intro bit_word_eqI) (simp add: bit_simps)
qed

lemma less_eq_7f: "v \<le> 0x7f \<longleftrightarrow> drop_bit 7 (v :: 64 word) = 0"
proof -
  have "drop_bit 7 v = 0 \<longleftrightarrow> unat (drop_bit 7 v) = 0" by (simp add: unat_eq_0)
  also have "\<dots> \<longleftrightarrow> unat v < 128" by (subst unat_drop_bit_eq) (simp add: drop_bit_eq_div div_eq_0_iff)
  also have "\<dots> \<longleftrightarrow> unat v \<le> 127" by linarith
  finally show ?thesis by (simp add: word_le_nat_alt)
qed

lemma less_eq_3fff: "v \<le> 0x3fff \<longleftrightarrow> drop_bit 14 (v :: 64 word) = 0"
proof -
  have "drop_bit 14 v = 0 \<longleftrightarrow> unat (drop_bit 14 v) = 0" by (simp add: unat_eq_0)
  also have "\<dots> \<longleftrightarrow> unat v < 16384" by (subst unat_drop_bit_eq) (simp add: drop_bit_eq_div div_eq_0_iff)
  also have "\<dots> \<longleftrightarrow> unat v \<le> 16383" by linarith
  finally show ?thesis by (simp add: word_le_nat_alt)
qed

lemma drop_bit_nonzero_le: "drop_bit n v \<noteq> 0 \<Longrightarrow> m \<le> n \<Longrightarrow> drop_bit m v \<noteq> (0 :: 64 word)"
  by (meson drop_bit_eq_0 order_trans)

lemma top_byte: "v AND push_bit 32 0xff000000 = 0 \<longleftrightarrow> drop_bit 56 (v :: 64 word) = 0"
proof -
  have m: "v AND push_bit 32 0xff000000 = push_bit 56 (drop_bit 56 v)"
    by (rule word64_bits, drule less_64, elim disjE; simp add: bit_simps)
  have "drop_bit 56 (push_bit 56 (drop_bit 56 v)) = drop_bit 56 v"
    by (rule word64_bits) (auto simp: bit_simps dest: bit_imp_le_length)
  then show ?thesis unfolding m by (metis drop_bit_of_0 push_bit_of_0)
qed

lemma top_byte_numeral: "v AND 18374686479671623680 = 0 \<longleftrightarrow> drop_bit 56 (v :: 64 word) = 0"
  using top_byte [of v] by simp

lemma put_1:
  assumes "drop_bit 7 v = 0"
  shows "sqlite3GetVarint (sqlite3PutVarint v @ rest) = Some (1, v) \<and> length (sqlite3PutVarint v) = 1 \<and> sqlite3VarintLen v = 1"
proof -
  note nz = assms
  have z: "\<And>m. 7 \<le> m \<Longrightarrow> \<not> bit v m" using assms(1) by (simp add: drop_bit_eq_0)
  have z56: "drop_bit 56 v = 0" using z by (simp add: drop_bit_eq_0)
  show ?thesis
    using assms nz z56
    by (simp add: sqlite3PutVarint_def less_eq_7f less_eq_3fff putVarint64_def top_byte_numeral Let_def sqlite3GetVarint_ref put_loop.simps [of v] sqlite3VarintLen.simps [of v] bit_simps)
      (rule word64_bits, drule less_64, elim disjE; simp add: bit_simps z)
qed

lemma put_2:
  assumes "drop_bit 14 v = 0" "drop_bit 7 v \<noteq> 0"
  shows "sqlite3GetVarint (sqlite3PutVarint v @ rest) = Some (2, v) \<and> length (sqlite3PutVarint v) = 2 \<and> sqlite3VarintLen v = 2"
proof -
  note nz = drop_bit_nonzero_le [OF assms(2), of 0, simplified]
  have z: "\<And>m. 14 \<le> m \<Longrightarrow> \<not> bit v m" using assms(1) by (simp add: drop_bit_eq_0)
  have z56: "drop_bit 56 v = 0" using z by (simp add: drop_bit_eq_0)
  show ?thesis
    using assms nz z56
    by (simp add: sqlite3PutVarint_def less_eq_7f less_eq_3fff putVarint64_def top_byte_numeral Let_def sqlite3GetVarint_ref put_loop.simps [of v] put_loop.simps [of "drop_bit 7 v"] sqlite3VarintLen.simps [of v] sqlite3VarintLen.simps [of "drop_bit 7 v"] bit_simps)
      (rule word64_bits, drule less_64, elim disjE; simp add: bit_simps z)
qed

lemma put_3:
  assumes "drop_bit 21 v = 0" "drop_bit 14 v \<noteq> 0"
  shows "sqlite3GetVarint (sqlite3PutVarint v @ rest) = Some (3, v) \<and> length (sqlite3PutVarint v) = 3 \<and> sqlite3VarintLen v = 3"
proof -
  note nz = drop_bit_nonzero_le [OF assms(2), of 0, simplified] drop_bit_nonzero_le [OF assms(2), of 7, simplified]
  have z: "\<And>m. 21 \<le> m \<Longrightarrow> \<not> bit v m" using assms(1) by (simp add: drop_bit_eq_0)
  have z56: "drop_bit 56 v = 0" using z by (simp add: drop_bit_eq_0)
  show ?thesis
    using assms nz z56
    by (simp add: sqlite3PutVarint_def less_eq_7f less_eq_3fff putVarint64_def top_byte_numeral Let_def sqlite3GetVarint_ref put_loop.simps [of v] put_loop.simps [of "drop_bit 7 v"] put_loop.simps [of "drop_bit 14 v"] sqlite3VarintLen.simps [of v] sqlite3VarintLen.simps [of "drop_bit 7 v"] sqlite3VarintLen.simps [of "drop_bit 14 v"] bit_simps)
      (rule word64_bits, drule less_64, elim disjE; simp add: bit_simps z)
qed

lemma put_4:
  assumes "drop_bit 28 v = 0" "drop_bit 21 v \<noteq> 0"
  shows "sqlite3GetVarint (sqlite3PutVarint v @ rest) = Some (4, v) \<and> length (sqlite3PutVarint v) = 4 \<and> sqlite3VarintLen v = 4"
proof -
  note nz = drop_bit_nonzero_le [OF assms(2), of 0, simplified] drop_bit_nonzero_le [OF assms(2), of 7, simplified] drop_bit_nonzero_le [OF assms(2), of 14, simplified]
  have z: "\<And>m. 28 \<le> m \<Longrightarrow> \<not> bit v m" using assms(1) by (simp add: drop_bit_eq_0)
  have z56: "drop_bit 56 v = 0" using z by (simp add: drop_bit_eq_0)
  show ?thesis
    using assms nz z56
    by (simp add: sqlite3PutVarint_def less_eq_7f less_eq_3fff putVarint64_def top_byte_numeral Let_def sqlite3GetVarint_ref put_loop.simps [of v] put_loop.simps [of "drop_bit 7 v"] put_loop.simps [of "drop_bit 14 v"] put_loop.simps [of "drop_bit 21 v"] sqlite3VarintLen.simps [of v] sqlite3VarintLen.simps [of "drop_bit 7 v"] sqlite3VarintLen.simps [of "drop_bit 14 v"] sqlite3VarintLen.simps [of "drop_bit 21 v"] bit_simps)
      (rule word64_bits, drule less_64, elim disjE; simp add: bit_simps z)
qed

lemma put_5:
  assumes "drop_bit 35 v = 0" "drop_bit 28 v \<noteq> 0"
  shows "sqlite3GetVarint (sqlite3PutVarint v @ rest) = Some (5, v) \<and> length (sqlite3PutVarint v) = 5 \<and> sqlite3VarintLen v = 5"
proof -
  note nz = drop_bit_nonzero_le [OF assms(2), of 0, simplified] drop_bit_nonzero_le [OF assms(2), of 7, simplified] drop_bit_nonzero_le [OF assms(2), of 14, simplified] drop_bit_nonzero_le [OF assms(2), of 21, simplified]
  have z: "\<And>m. 35 \<le> m \<Longrightarrow> \<not> bit v m" using assms(1) by (simp add: drop_bit_eq_0)
  have z56: "drop_bit 56 v = 0" using z by (simp add: drop_bit_eq_0)
  show ?thesis
    using assms nz z56
    by (simp add: sqlite3PutVarint_def less_eq_7f less_eq_3fff putVarint64_def top_byte_numeral Let_def sqlite3GetVarint_ref put_loop.simps [of v] put_loop.simps [of "drop_bit 7 v"] put_loop.simps [of "drop_bit 14 v"] put_loop.simps [of "drop_bit 21 v"] put_loop.simps [of "drop_bit 28 v"] sqlite3VarintLen.simps [of v] sqlite3VarintLen.simps [of "drop_bit 7 v"] sqlite3VarintLen.simps [of "drop_bit 14 v"] sqlite3VarintLen.simps [of "drop_bit 21 v"] sqlite3VarintLen.simps [of "drop_bit 28 v"] bit_simps)
      (rule word64_bits, drule less_64, elim disjE; simp add: bit_simps z)
qed

lemma put_6:
  assumes "drop_bit 42 v = 0" "drop_bit 35 v \<noteq> 0"
  shows "sqlite3GetVarint (sqlite3PutVarint v @ rest) = Some (6, v) \<and> length (sqlite3PutVarint v) = 6 \<and> sqlite3VarintLen v = 6"
proof -
  note nz = drop_bit_nonzero_le [OF assms(2), of 0, simplified] drop_bit_nonzero_le [OF assms(2), of 7, simplified] drop_bit_nonzero_le [OF assms(2), of 14, simplified] drop_bit_nonzero_le [OF assms(2), of 21, simplified] drop_bit_nonzero_le [OF assms(2), of 28, simplified]
  have z: "\<And>m. 42 \<le> m \<Longrightarrow> \<not> bit v m" using assms(1) by (simp add: drop_bit_eq_0)
  have z56: "drop_bit 56 v = 0" using z by (simp add: drop_bit_eq_0)
  show ?thesis
    using assms nz z56
    by (simp add: sqlite3PutVarint_def less_eq_7f less_eq_3fff putVarint64_def top_byte_numeral Let_def sqlite3GetVarint_ref put_loop.simps [of v] put_loop.simps [of "drop_bit 7 v"] put_loop.simps [of "drop_bit 14 v"] put_loop.simps [of "drop_bit 21 v"] put_loop.simps [of "drop_bit 28 v"] put_loop.simps [of "drop_bit 35 v"] sqlite3VarintLen.simps [of v] sqlite3VarintLen.simps [of "drop_bit 7 v"] sqlite3VarintLen.simps [of "drop_bit 14 v"] sqlite3VarintLen.simps [of "drop_bit 21 v"] sqlite3VarintLen.simps [of "drop_bit 28 v"] sqlite3VarintLen.simps [of "drop_bit 35 v"] bit_simps)
      (rule word64_bits, drule less_64, elim disjE; simp add: bit_simps z)
qed

lemma put_7:
  assumes "drop_bit 49 v = 0" "drop_bit 42 v \<noteq> 0"
  shows "sqlite3GetVarint (sqlite3PutVarint v @ rest) = Some (7, v) \<and> length (sqlite3PutVarint v) = 7 \<and> sqlite3VarintLen v = 7"
proof -
  note nz = drop_bit_nonzero_le [OF assms(2), of 0, simplified] drop_bit_nonzero_le [OF assms(2), of 7, simplified] drop_bit_nonzero_le [OF assms(2), of 14, simplified] drop_bit_nonzero_le [OF assms(2), of 21, simplified] drop_bit_nonzero_le [OF assms(2), of 28, simplified] drop_bit_nonzero_le [OF assms(2), of 35, simplified]
  have z: "\<And>m. 49 \<le> m \<Longrightarrow> \<not> bit v m" using assms(1) by (simp add: drop_bit_eq_0)
  have z56: "drop_bit 56 v = 0" using z by (simp add: drop_bit_eq_0)
  show ?thesis
    using assms nz z56
    by (simp add: sqlite3PutVarint_def less_eq_7f less_eq_3fff putVarint64_def top_byte_numeral Let_def sqlite3GetVarint_ref put_loop.simps [of v] put_loop.simps [of "drop_bit 7 v"] put_loop.simps [of "drop_bit 14 v"] put_loop.simps [of "drop_bit 21 v"] put_loop.simps [of "drop_bit 28 v"] put_loop.simps [of "drop_bit 35 v"] put_loop.simps [of "drop_bit 42 v"] sqlite3VarintLen.simps [of v] sqlite3VarintLen.simps [of "drop_bit 7 v"] sqlite3VarintLen.simps [of "drop_bit 14 v"] sqlite3VarintLen.simps [of "drop_bit 21 v"] sqlite3VarintLen.simps [of "drop_bit 28 v"] sqlite3VarintLen.simps [of "drop_bit 35 v"] sqlite3VarintLen.simps [of "drop_bit 42 v"] bit_simps)
      (rule word64_bits, drule less_64, elim disjE; simp add: bit_simps z)
qed

lemma put_8:
  assumes "drop_bit 56 v = 0" "drop_bit 49 v \<noteq> 0"
  shows "sqlite3GetVarint (sqlite3PutVarint v @ rest) = Some (8, v) \<and> length (sqlite3PutVarint v) = 8 \<and> sqlite3VarintLen v = 8"
proof -
  note nz = drop_bit_nonzero_le [OF assms(2), of 0, simplified] drop_bit_nonzero_le [OF assms(2), of 7, simplified] drop_bit_nonzero_le [OF assms(2), of 14, simplified] drop_bit_nonzero_le [OF assms(2), of 21, simplified] drop_bit_nonzero_le [OF assms(2), of 28, simplified] drop_bit_nonzero_le [OF assms(2), of 35, simplified] drop_bit_nonzero_le [OF assms(2), of 42, simplified]
  have z: "\<And>m. 56 \<le> m \<Longrightarrow> \<not> bit v m" using assms(1) by (simp add: drop_bit_eq_0)
  have z56: "drop_bit 56 v = 0" using z by (simp add: drop_bit_eq_0)
  show ?thesis
    using assms nz z56
    by (simp add: sqlite3PutVarint_def less_eq_7f less_eq_3fff putVarint64_def top_byte_numeral Let_def sqlite3GetVarint_ref put_loop.simps [of v] put_loop.simps [of "drop_bit 7 v"] put_loop.simps [of "drop_bit 14 v"] put_loop.simps [of "drop_bit 21 v"] put_loop.simps [of "drop_bit 28 v"] put_loop.simps [of "drop_bit 35 v"] put_loop.simps [of "drop_bit 42 v"] put_loop.simps [of "drop_bit 49 v"] sqlite3VarintLen.simps [of v] sqlite3VarintLen.simps [of "drop_bit 7 v"] sqlite3VarintLen.simps [of "drop_bit 14 v"] sqlite3VarintLen.simps [of "drop_bit 21 v"] sqlite3VarintLen.simps [of "drop_bit 28 v"] sqlite3VarintLen.simps [of "drop_bit 35 v"] sqlite3VarintLen.simps [of "drop_bit 42 v"] sqlite3VarintLen.simps [of "drop_bit 49 v"] bit_simps)
      (rule word64_bits, drule less_64, elim disjE; simp add: bit_simps z)
qed


lemma put_seven_8: "put_seven 8 v p = put_seven (Suc (Suc (Suc (Suc (Suc (Suc (Suc (Suc 0)))))))) v p"
  by (simp add: eval_nat_numeral)

lemma put_9:
  assumes "drop_bit 56 v \<noteq> 0"
  shows "sqlite3GetVarint (sqlite3PutVarint v @ rest) = Some (9, v) \<and> length (sqlite3PutVarint v) = 9 \<and>
    sqlite3VarintLen v = (if bit v 63 then 10 else 9)"
proof -
  note nz = drop_bit_nonzero_le [OF assms, of 0, simplified] drop_bit_nonzero_le [OF assms, of 7, simplified] drop_bit_nonzero_le [OF assms, of 14, simplified] drop_bit_nonzero_le [OF assms, of 21, simplified] drop_bit_nonzero_le [OF assms, of 28, simplified] drop_bit_nonzero_le [OF assms, of 35, simplified] drop_bit_nonzero_le [OF assms, of 42, simplified] drop_bit_nonzero_le [OF assms, of 49, simplified]
  have l: "drop_bit 63 v = 0 \<longleftrightarrow> \<not> bit v 63"
  proof -
    have "m = 63" if "bit v m" "63 \<le> m" for m
    proof -
      from that(1) have "m < LENGTH(64)" by (rule bit_imp_le_length)
      with that(2) show ?thesis by simp
    qed
    then show ?thesis by (auto simp: drop_bit_eq_0)
  qed
  have l70: "drop_bit 70 v = 0"
    by (rule word64_bits) (auto simp: bit_simps dest: bit_imp_le_length)
  have "sqlite3VarintLen v = (if bit v 63 then 10 else 9)"
    using assms nz l l70 by (simp add: sqlite3VarintLen.simps [of v] sqlite3VarintLen.simps [of "drop_bit 7 v"] sqlite3VarintLen.simps [of "drop_bit 14 v"] sqlite3VarintLen.simps [of "drop_bit 21 v"] sqlite3VarintLen.simps [of "drop_bit 28 v"] sqlite3VarintLen.simps [of "drop_bit 35 v"] sqlite3VarintLen.simps [of "drop_bit 42 v"] sqlite3VarintLen.simps [of "drop_bit 49 v"] sqlite3VarintLen.simps [of "drop_bit 56 v"] sqlite3VarintLen.simps [of "drop_bit 63 v"])
  moreover have "sqlite3GetVarint (sqlite3PutVarint v @ rest) = Some (9, v) \<and> length (sqlite3PutVarint v) = 9"
    using assms nz
    by (simp add: sqlite3PutVarint_def less_eq_7f less_eq_3fff putVarint64_def top_byte_numeral Let_def sqlite3GetVarint_ref put_seven_8 bit_simps)
      (rule word64_bits, drule less_64, elim disjE; simp add: bit_simps)
  ultimately show ?thesis by blast
qed

lemma varint_lengths:
  obtains n where "1 \<le> n" "n \<le> 8" "drop_bit (7 * n) v = 0" "n = 1 \<or> drop_bit (7 * (n - 1)) v \<noteq> (0 :: 64 word)"
  | "drop_bit 56 v \<noteq> 0"
proof (cases "drop_bit 56 v = 0")
  case True
  define n where "n = (LEAST n. 1 \<le> n \<and> drop_bit (7 * n) v = 0)"
  have ex: "1 \<le> (8 :: nat) \<and> drop_bit (7 * 8) v = 0" using True by simp
  then have n: "1 \<le> n \<and> drop_bit (7 * n) v = 0" unfolding n_def by (rule LeastI)
  have "n \<le> 8" unfolding n_def using ex by (rule Least_le)
  moreover have "n = 1 \<or> drop_bit (7 * (n - 1)) v \<noteq> 0"
  proof (rule ccontr)
    assume "\<not> (n = 1 \<or> drop_bit (7 * (n - 1)) v \<noteq> 0)"
    with n have "1 \<le> n - 1 \<and> drop_bit (7 * (n - 1)) v = 0" by auto
    then have "n \<le> n - 1" unfolding n_def by (rule Least_le)
    with n show False by linarith
  qed
  ultimately show ?thesis using n that(1) by blast
qed (rule that(2))

lemma put_get:
  "sqlite3GetVarint (sqlite3PutVarint v @ rest) = Some (length (sqlite3PutVarint v), v) \<and>
   length (sqlite3PutVarint v) \<le> 9 \<and> sqlite3VarintLen v = length (sqlite3PutVarint v) + (if bit v 63 then 1 else 0)"
proof (rule varint_lengths [of v])
  fix n
  assume n: "1 \<le> n" "n \<le> 8" "drop_bit (7 * n) v = 0" "n = 1 \<or> drop_bit (7 * (n - 1)) v \<noteq> 0"
  have "\<not> bit v 63" using n(2,3) by (auto simp: drop_bit_eq_0)
  moreover from n(1,2) have "n = 1 \<or> n = 2 \<or> n = 3 \<or> n = 4 \<or> n = 5 \<or> n = 6 \<or> n = 7 \<or> n = 8" by arith
  ultimately show ?thesis
    using n(3,4) put_1 [of v rest] put_2 [of v rest] put_3 [of v rest] put_4 [of v rest] put_5 [of v rest]
      put_6 [of v rest] put_7 [of v rest] put_8 [of v rest] by (elim disjE) auto
next
  assume "drop_bit 56 v \<noteq> 0"
  from put_9 [OF this, of rest] show ?thesis by auto
qed

lemmas less_32 = iffD2 [OF lessThan_iff, of _ "32 :: nat",
  unfolded lessThan_nat_numeral pred_numeral_simps BitM.simps numeral_One lessThan_0 One_nat_def lessThan_Suc
    insert_iff empty_iff HOL.simp_thms]

lemma mask_32: "bit (0xffffffff :: 64 word) m \<longleftrightarrow> m < 32"
proof (cases "m < 64")
  case True
  from less_64 [OF this] show ?thesis by (elim disjE; simp)
next
  case False
  then show ?thesis by (auto dest: bit_imp_le_length)
qed

lemma drop_32: "drop_bit 32 v = 0 \<longleftrightarrow> v \<le> (0xffffffff :: 64 word)"
proof -
  have "drop_bit 32 v = 0 \<longleftrightarrow> unat (drop_bit 32 v) = 0" by (simp add: unat_eq_0)
  also have "\<dots> \<longleftrightarrow> unat v < 4294967296" by (subst unat_drop_bit_eq) (simp add: drop_bit_eq_div div_eq_0_iff)
  also have "\<dots> \<longleftrightarrow> unat v \<le> 4294967295" by linarith
  finally show ?thesis by (simp add: word_le_nat_alt)
qed

lemma and_ffffffff: "v AND 0xffffffff = v \<longleftrightarrow> v \<le> (0xffffffff :: 64 word)"
proof -
  have "v AND 0xffffffff = v \<longleftrightarrow> (\<forall>m\<ge>32. \<not> bit v m)"
  proof
    assume "v AND 0xffffffff = v"
    then have "bit v m \<longleftrightarrow> bit v m \<and> m < 32" for m by (metis bit_and_iff mask_32)
    then show "\<forall>m\<ge>32. \<not> bit v m" by (meson linorder_not_le)
  next
    assume "\<forall>m\<ge>32. \<not> bit v m"
    then show "v AND 0xffffffff = v"
      by (intro word64_bits) (unfold bit_and_iff mask_32, meson linorder_not_le)
  qed
  then show ?thesis by (simp add: drop_32 [symmetric] drop_bit_eq_0)
qed

definition clamp32 :: "64 word \<Rightarrow> 32 word" where
  "clamp32 v = (if v \<le> 0xffffffff then ucast v else 0xffffffff)"

lemma clamp32_small: "\<forall>m\<ge>32. \<not> bit v m \<Longrightarrow> clamp32 v = ucast v"
  by (simp add: clamp32_def drop_32 [symmetric] drop_bit_eq_0)

lemma word32_bits: "(\<And>n. n < 32 \<Longrightarrow> bit x n = bit y n) \<Longrightarrow> x = (y :: 32 word)"
  by (rule bit_word_eqI) simp

lemma byte_less_80: "(b :: byte) < 0x80 \<longleftrightarrow> \<not> bit b 7"
proof -
  have l: "unat b < 256" using unsigned_less [of b] by simp
  have "bit b 7 \<longleftrightarrow> bit (unat b) 7" by (simp add: bit_unsigned_iff)
  also have "\<dots> \<longleftrightarrow> \<not> unat b < 128"
  proof
    assume "bit (unat b) 7"
    then show "\<not> unat b < 128" by (auto simp: bit_iff_odd)
  next
    assume "\<not> unat b < 128"
    with l have "unat b div 128 = 1" by linarith
    then show "bit (unat b) 7" by (simp add: bit_iff_odd)
  qed
  finally show ?thesis by (simp add: word_less_nat_alt)
qed

lemma getVarint32_one: "\<not> bit x 7 \<Longrightarrow> getVarint32 (x # bs) = Some (1, clamp32 (ucast x))"
  by (simp add: getVarint32_def reads_def byte_less_80 u32_def clamp32_small bit_simps byte_bit_high)
    (rule word32_bits, drule less_32, elim disjE; simp add: bit_simps byte_bits_high)

lemma getVarint32_two:
  assumes "bit x 7" "\<not> bit y 7"
  shows "getVarint32 (x # y # bs) = Some (2, clamp32 (push_bit 7 (push_bit 7 0 OR (ucast x AND 0x7f)) OR ucast y))"
proof -
  have "\<not> bit (push_bit 7 (push_bit 7 0 OR (ucast x AND 0x7f)) OR ucast y :: 64 word) m" if "32 \<le> m" for m
    using that by (auto simp: bit_simps byte_bit_high)
  then have c: "clamp32 (push_bit 7 (push_bit 7 0 OR (ucast x AND 0x7f)) OR ucast y) =
      ucast (push_bit 7 (push_bit 7 0 OR (ucast x AND 0x7f)) OR ucast y :: 64 word)"
    by (intro clamp32_small) blast
  show ?thesis
    unfolding c using assms
    by (simp add: getVarint32_def sqlite3GetVarint32_def reads_def Let_def byte_less_80 u32_def and_80 bit_simps)
      (rule word32_bits, drule less_32, elim disjE; simp add: bit_simps byte_bits_high)
qed

lemma getVarint32_three:
  assumes "bit x 7" "bit y 7" "\<not> bit z 7"
  shows "getVarint32 (x # y # z # bs) = Some (3, clamp32 (push_bit 7 (push_bit 7 (push_bit 7 0 OR (ucast x AND 0x7f)) OR (ucast y AND 0x7f)) OR ucast z))"
proof -
  let ?v = "push_bit 7 (push_bit 7 (push_bit 7 0 OR (ucast x AND 0x7f)) OR (ucast y AND 0x7f)) OR ucast z :: 64 word"
  have "\<not> bit ?v m" if "32 \<le> m" for m
    using that by (auto simp: bit_simps byte_bit_high)
  then have c: "clamp32 ?v = ucast ?v" by (intro clamp32_small) blast
  show ?thesis
    unfolding c using assms
    by (simp add: getVarint32_def sqlite3GetVarint32_def reads_def Let_def byte_less_80 u32_def and_80 bit_simps byte_bit_high)
      (rule word32_bits, drule less_32, elim disjE; simp add: bit_simps byte_bits_high)
qed

lemma getVarint32_ref: "getVarint32 p = map_option (\<lambda>(n, v). (n, clamp32 v)) (varint_ref 0 0 p)"
proof (cases p)
  case Nil
  then show ?thesis by (simp add: getVarint32_def reads_def)
next
  case (Cons x xs)
  show ?thesis
  proof (cases "bit x 7")
    case False
    with Cons getVarint32_one show ?thesis by simp
  next
    case x: True
    show ?thesis
    proof (cases xs)
      case Nil
      with x Cons show ?thesis by (simp add: getVarint32_def reads_def byte_less_80 sqlite3GetVarint32_def)
    next
      case (Cons y ys)
      note p = \<open>p = x # xs\<close> this
      show ?thesis
      proof (cases "bit y 7")
        case False
        with x p getVarint32_two show ?thesis by simp
      next
        case y: True
        show ?thesis
        proof (cases ys)
          case Nil
          with x y p show ?thesis
            by (simp add: getVarint32_def reads_def byte_less_80 sqlite3GetVarint32_def Let_def u32_def and_80 bit_simps)
        next
          case (Cons z zs)
          show ?thesis
          proof (cases "bit z 7")
            case False
            with x y p Cons getVarint32_three show ?thesis by simp
          next
            case True
            then have "getVarint32 p = map_option (\<lambda>(n, v). (n, clamp32 v)) (sqlite3GetVarint p)"
              using x y p Cons
              by (simp add: getVarint32_def sqlite3GetVarint32_def reads_def Let_def byte_less_80 u32_def and_80
                  bit_simps byte_bit_high and_ffffffff clamp32_def split: option.split)
            then show ?thesis by (simp only: sqlite3GetVarint_ref)
          qed
        qed
      qed
    qed
  qed
qed

lemma four_bytes: "sqlite3Get4byte (sqlite3Put4byte v @ rest) = Some v"
  unfolding sqlite3Get4byte_def sqlite3Put4byte_def reads_def u32_def
  by simp (rule word32_bits, drule less_32, elim disjE; simp add: bit_simps)

section \<open>Properties\<close>

text \<open>
  C38: the decoder reads the format. For every sequence of bytes - also one that is too short - the
  decoder with its two interleaved registers returns the length and the value that reading
  the bytes one at a time gives, and the 32 bit decoder the same with larger values replaced by the
  largest 32 bit integer. None of the shifts loses a bit that counts.
\<close>

theorem varint_decoder_reference:
  "sqlite3GetVarint p = varint_ref 0 0 p \<and>
   getVarint32 p = map_option (\<lambda>(n, v). (n, clamp32 v)) (varint_ref 0 0 p)"
  by (simp add: sqlite3GetVarint_ref getVarint32_ref del: varint_ref.simps)

text \<open>
  C39: integers written can be read back. Every 64 bit value is written in at most nine bytes, from
  which, whatever follows, the decoders return its length and the value; \<^verbatim>\<open>sqlite3VarintLen\<close>
  is the number of bytes written, except for values of which the top bit is set, for which it says 10.
\<close>

theorem varint_round_trip:
  "sqlite3GetVarint (sqlite3PutVarint v @ rest) = Some (length (sqlite3PutVarint v), v) \<and>
   getVarint32 (sqlite3PutVarint v @ rest) = Some (length (sqlite3PutVarint v), clamp32 v) \<and>
   length (sqlite3PutVarint v) \<le> 9 \<and>
   sqlite3VarintLen v = length (sqlite3PutVarint v) + (if bit v 63 then 1 else 0) \<and>
   sqlite3Get4byte (sqlite3Put4byte w @ rest) = Some w"
proof -
  note p = put_get [of v rest]
  from p have "varint_ref 0 0 (sqlite3PutVarint v @ rest) = Some (length (sqlite3PutVarint v), v)"
    by (simp only: sqlite3GetVarint_ref)
  then have "getVarint32 (sqlite3PutVarint v @ rest) = Some (length (sqlite3PutVarint v), clamp32 v)"
    by (simp only: getVarint32_ref option.map prod.case)
  with p four_bytes show ?thesis by blast
qed

end
