(* ===== verification/Ys_Integer.thy ===== *)
theory Ys_Integer
  imports Ys_Io Ys_Uri "HOL-Library.Signed_Division" "HOL-Library.Monad_Syntax"
begin

text \<open>
  Integers of \<^verbatim>\<open>util.c\<close> (in \<^verbatim>\<open>sqlite3.c\<close>): arithmetic on signed 64 bit integers that detects
  overflow, in the version for compilers without the built-in functions, and the conversions
  between integers and text. A signed operation that leaves the range has no defined result, so the
  arithmetic is on \<open>int\<close> and every intermediate result is checked.
\<close>

section \<open>Arithmetic\<close>

definition LARGEST_INT64 :: int where "LARGEST_INT64 = 0xffffffff OR push_bit 32 0x7fffffff"
definition SMALLEST_INT64 :: int where "SMALLEST_INT64 = - 1 - LARGEST_INT64"

definition checked :: "int \<Rightarrow> int option" where
  "checked x = (if i64 x then Some x else None)"

text \<open>The result is the code and what is in \<^verbatim>\<open>*pA\<close> afterwards.\<close>

definition sqlite3AddInt64 :: "int \<Rightarrow> int \<Rightarrow> (int \<times> int) option" where
  "sqlite3AddInt64 iA iB = do {
     overflows \<leftarrow>
       (if iB \<ge> 0 then
          (if iA > 0 then do { d \<leftarrow> checked (LARGEST_INT64 - iA); Some (d < iB) } else Some False)
        else
          (if iA < 0 then do {
             s \<leftarrow> checked (iA + LARGEST_INT64); n \<leftarrow> checked (- s); b \<leftarrow> checked (iB + 1); Some (n > b)
           } else Some False));
     if overflows then Some (1, iA) else do { r \<leftarrow> checked (iA + iB); Some (0, r) }
   }"

definition sqlite3SubInt64 :: "int \<Rightarrow> int \<Rightarrow> (int \<times> int) option" where
  "sqlite3SubInt64 iA iB =
     (if iB = SMALLEST_INT64 then
        (if iA \<ge> 0 then Some (1, iA) else do { r \<leftarrow> checked (iA - iB); Some (0, r) })
      else do { b \<leftarrow> checked (- iB); sqlite3AddInt64 iA b })"

definition sqlite3MulInt64 :: "int \<Rightarrow> int \<Rightarrow> (int \<times> int) option" where
  "sqlite3MulInt64 iA iB = do {
     overflows \<leftarrow>
       (if iB > 0 then do {
          h \<leftarrow> checked (LARGEST_INT64 sdiv iB);
          if iA > h then Some True else do { l \<leftarrow> checked (SMALLEST_INT64 sdiv iB); Some (iA < l) }
        } else if iB < 0 then
          (if iA > 0 then do { l \<leftarrow> checked (SMALLEST_INT64 sdiv iA); Some (iB < l) }
           else if iA < 0 then
             (if iB = SMALLEST_INT64 then Some True
              else if iA = SMALLEST_INT64 then Some True
              else do { a \<leftarrow> checked (- iA); b \<leftarrow> checked (- iB); h \<leftarrow> checked (LARGEST_INT64 sdiv b); Some (a > h) })
           else Some False)
        else Some False);
     if overflows then Some (1, iA) else do { r \<leftarrow> checked (iA * iB); Some (0, r) }
   }"

definition sqlite3AbsInt32 :: "32 word \<Rightarrow> 32 word" where
  "sqlite3AbsInt32 x = (if 0 \<le> sint x then x else if x = 0x80000000 then 0x7fffffff else - x)"

section \<open>Integers as text\<close>

text \<open>The digits of a number, put in front of those already written.\<close>

fun text_loop :: "nat \<Rightarrow> string \<Rightarrow> string" where
  "text_loop x acc = (let acc = char_of (x mod 10 + 48) # acc in if x div 10 = 0 then acc else text_loop (x div 10) acc)"

declare text_loop.simps [simp del]

definition sqlite3Int64ToText :: "int \<Rightarrow> string" where
  "sqlite3Int64ToText v =
     (let x = (if v < 0 then (if v = SMALLEST_INT64 then 2 ^ 63 else nat (- v)) else nat v);
          z = text_loop x [] in
      if v < 0 then CHR ''-'' # z else z)"

text \<open>Both strings are walked together; \<open>incr\<close> is the distance between two characters.\<close>

fun pow63_loop :: "string \<Rightarrow> nat \<Rightarrow> nat \<Rightarrow> string \<Rightarrow> int" where
  "pow63_loop zNum incr i [] = 0"
| "pow63_loop zNum incr i (p # ps) =
     (let c = (schar (zNum ! (i * incr)) - schar p) * 10 in
      if c = 0 then pow63_loop zNum incr (Suc i) ps else c)"

definition compare2pow63 :: "string \<Rightarrow> nat \<Rightarrow> int" where
  "compare2pow63 zNum incr =
     (let c = pow63_loop zNum incr 0 ''922337203685477580'' in
      if c = 0 then schar (zNum ! (18 * incr)) - 56 else c)"

text \<open>
  \<open>z\<close> are the bytes from the start of the text to its end, or from some place in it.
  The loops step over characters \<open>incr\<close> bytes apart: blanks, zeros and digits.
\<close>

function skip_while :: "(char \<Rightarrow> bool) \<Rightarrow> nat \<Rightarrow> string \<Rightarrow> string" where
  "skip_while f incr z = (if z \<noteq> [] \<and> f (hd z) \<and> 0 < incr then skip_while f incr (drop incr z) else z)"
  by auto
termination by (relation "measure (\<lambda>(f, incr, z). length z)") (auto simp: length_greater_0_conv [symmetric] simp del: length_greater_0_conv)

declare skip_while.simps [simp del]

definition is_digit :: "char \<Rightarrow> bool" where
  "is_digit c \<longleftrightarrow> 48 \<le> schar c \<and> schar c \<le> 57"

text \<open>The result is the number, modulo \<open>2 ^ 64\<close>, the bytes read and the rest.\<close>

function digit_loop :: "nat \<Rightarrow> 64 word \<Rightarrow> nat \<Rightarrow> string \<Rightarrow> 64 word \<times> nat \<times> string" where
  "digit_loop incr u i z =
     (if z \<noteq> [] \<and> is_digit (hd z) \<and> 0 < incr
      then digit_loop incr (u * 10 + word_of_int (schar (hd z)) - 48) (i + incr) (drop incr z) else (u, i, z))"
  by auto
termination by (relation "measure (\<lambda>(incr, u, i, z). length z)") (auto simp: length_greater_0_conv [symmetric] simp del: length_greater_0_conv)

declare digit_loop.simps [simp del]

text \<open>
  For UTF-16 the high bytes are scanned for the first that is not zero; the text ends there.
  The result is the start offset, the end and whether such a byte has been found.
\<close>

fun high_loop :: "string \<Rightarrow> nat \<Rightarrow> nat \<Rightarrow> nat" where
  "high_loop z 0 i = i"
| "high_loop z (Suc n) i = (if i < length z \<and> z ! i = CHR 0x00 then high_loop z n (i + 2) else i)"

definition atoi_window :: "string \<Rightarrow> nat \<Rightarrow> nat \<times> nat \<times> nat \<times> bool" where
  "atoi_window z enc =
     (if enc = 1 then (1, 0, length z, False)
      else let length' = length z - length z mod 2; i = high_loop (take length' z) (length z) (3 - enc)
        in (2, enc mod 2, i XOR 1, i < length'))"

definition sqlite3Atoi64 :: "string \<Rightarrow> nat \<Rightarrow> int \<times> int" where
  "sqlite3Atoi64 text enc =
     (let (incr, start, end', nonNum) = atoi_window text enc;
          z = skip_while sqlite3Isspace incr (drop start (take end' text));
          neg = (z \<noteq> [] \<and> hd z = CHR ''-'');
          zStart = (if z \<noteq> [] \<and> (hd z = CHR ''-'' \<or> hd z = CHR ''+'') then drop incr z else z);
          zNum = skip_while (\<lambda>c. c = CHR ''0'') incr zStart;
          (u, i, rest) = digit_loop incr 0 0 zNum;
          limit = (if neg then SMALLEST_INT64 else LARGEST_INT64);
          num = (if uint u > LARGEST_INT64 then limit else if neg then - uint u else uint u);
          rc = (if i = 0 \<and> length zStart = length zNum then - 1
            else if nonNum then 1
            else if rest \<noteq> [] \<and> skip_while sqlite3Isspace incr rest \<noteq> [] then 1 else 0)
      in if i < 19 * incr then (rc, num)
         else
           let c = (if i > 19 * incr then 1 else compare2pow63 zNum incr) in
           if c < 0 then (rc, num)
           else if c > 0 then (2, limit)
           else (if neg then rc else 3, limit))"

fun hex_loop :: "64 word \<Rightarrow> nat \<Rightarrow> string \<Rightarrow> 64 word \<times> nat \<times> string" where
  "hex_loop u k [] = (u, k, [])"
| "hex_loop u k (c # z) =
     (if sqlite3Isxdigit c then hex_loop (u * 16 + of_nat (sqlite3HexToInt c)) (Suc k) z else (u, k, c # z))"

text \<open>The text is a C string here; the bits of the hexadecimal number are read as a signed integer.\<close>

definition sqlite3DecOrHexToI64 :: "string \<Rightarrow> int \<times> int" where
  "sqlite3DecOrHexToI64 z =
     (if c_nth z 0 = CHR ''0'' \<and> (c_nth z 1 = CHR ''x'' \<or> c_nth z 1 = CHR ''X'') then
        let (u, digits, rest) = hex_loop 0 0 (dropWhile (\<lambda>c. c = CHR ''0'') (drop 2 z)) in
        (if rest = [] \<and> digits \<le> 16 then 0 else 2, sint u)
      else sqlite3Atoi64 z 1)"

section \<open>Overflow\<close>

lemma INT64_values: "LARGEST_INT64 = 2 ^ 63 - 1" "SMALLEST_INT64 = - (2 ^ 63)"
  by (simp_all add: LARGEST_INT64_def SMALLEST_INT64_def)

lemma i64_iff: "i64 x \<longleftrightarrow> SMALLEST_INT64 \<le> x \<and> x \<le> LARGEST_INT64"
  by (auto simp: i64_def INT64_values)

lemma add_exact:
  assumes "i64 a" "i64 b"
  shows "sqlite3AddInt64 a b = Some (if i64 (a + b) then (0, a + b) else (1, a))"
  using assms by (auto simp: sqlite3AddInt64_def checked_def i64_def INT64_values)

lemma sub_exact:
  assumes "i64 a" "i64 b"
  shows "sqlite3SubInt64 a b = Some (if i64 (a - b) then (0, a - b) else (1, a))"
proof (cases "b = SMALLEST_INT64")
  case True
  with assms show ?thesis by (auto simp: sqlite3SubInt64_def checked_def i64_def INT64_values)
next
  case False
  with assms have "i64 (- b)" by (auto simp: i64_def INT64_values)
  with add_exact [OF assms(1) this] False show ?thesis by (simp add: sqlite3SubInt64_def checked_def)
qed

lemma sdiv_pos: "0 \<le> a \<Longrightarrow> 0 < b \<Longrightarrow> a sdiv b = a div (b :: int)"
  by (cases "a = 0") (simp_all add: signed_divide_int_def)

lemma sdiv_neg: "0 \<le> a \<Longrightarrow> 0 < b \<Longrightarrow> (- a) sdiv b = - (a div (b :: int))"
  by (cases "a = 0") (simp_all add: signed_divide_int_def sgn_if)

lemma div_less_mult:
  assumes "0 < (b :: int)"
  shows "c div b < q \<longleftrightarrow> c < q * b"
proof -
  have c: "c = c div b * b + c mod b" "0 \<le> c mod b" "c mod b < b" using assms by simp_all
  show ?thesis
  proof
    assume "c div b < q"
    then have "(c div b + 1) * b \<le> q * b" using assms by (intro mult_right_mono) simp_all
    moreover have "(c div b + 1) * b = c div b * b + b" by (simp add: distrib_right)
    ultimately show "c < q * b" using c by linarith
  next
    assume l: "c < q * b"
    show "c div b < q"
    proof (rule ccontr)
      assume "\<not> c div b < q"
      then have "q * b \<le> c div b * b" using assms by (intro mult_right_mono) simp_all
      with c l show False by linarith
    qed
  qed
qed

lemma mul_exact:
  assumes "i64 a" "i64 b"
  shows "sqlite3MulInt64 a b = Some (if i64 (a * b) then (0, a * b) else (1, a))"
proof -
  have L: "LARGEST_INT64 = 9223372036854775807" "SMALLEST_INT64 = - 9223372036854775808"
    by (simp_all add: LARGEST_INT64_def SMALLEST_INT64_def)
  have i: "i64 x \<longleftrightarrow> - 9223372036854775808 \<le> x \<and> x \<le> 9223372036854775807" for x by (auto simp: i64_def)
  have q: "0 \<le> 9223372036854775807 div c" "9223372036854775807 div c \<le> 9223372036854775807"
    "0 \<le> 9223372036854775808 div c" "9223372036854775808 div c \<le> 9223372036854775808" if "0 < c" for c :: int
    using that by (simp_all add: int_div_le_self pos_imp_zdiv_nonneg_iff)
  have h: "LARGEST_INT64 sdiv c = 9223372036854775807 div c" "SMALLEST_INT64 sdiv c = - (9223372036854775808 div c)"
    if "0 < c" for c
    using that sdiv_pos [of 9223372036854775807 c] sdiv_neg [of 9223372036854775808 c] by (simp_all add: L)
  consider "b > 0" | "b < 0" "a > 0" | "b < 0" "a < 0" | "b = 0" | "b < 0" "a = 0" by linarith
  then show ?thesis
  proof cases
    case 1
    note d = div_less_mult [OF 1, of 9223372036854775807 a] div_less_mult [OF 1, of 9223372036854775808 "- a"]
    have "sqlite3MulInt64 a b = Some (if a > 9223372036854775807 div b \<or> a < - (9223372036854775808 div b) then (1, a) else (0, a * b))"
      using 1 q [OF 1] h [OF 1] d by (auto simp: sqlite3MulInt64_def checked_def i)
    moreover have "a > 9223372036854775807 div b \<or> a < - (9223372036854775808 div b) \<longleftrightarrow> \<not> i64 (a * b)"
      using d by (auto simp: i)
    ultimately show ?thesis by simp
  next
    case 2
    note d = div_less_mult [OF 2(2), of 9223372036854775808 "- b"]
    have u: "a * b \<le> 9223372036854775807" using mult_pos_neg [OF 2(2,1)] by linarith
    have "b < - (9223372036854775808 div a) \<longleftrightarrow> \<not> i64 (a * b)"
      using d u by (auto simp: i algebra_simps)
    then show ?thesis
      using 2 q [OF 2(2)] h [OF 2(2)] by (auto simp: sqlite3MulInt64_def checked_def i)
  next
    case 3
    have p: "0 < a * b" using 3 by (simp add: mult_neg_neg)
    show ?thesis
    proof (cases "a = SMALLEST_INT64 \<or> b = SMALLEST_INT64")
      case True
      have "9223372036854775808 \<le> a * b"
      proof (cases "a = SMALLEST_INT64")
        case True
        have "9223372036854775808 * 1 \<le> 9223372036854775808 * (- b)" using 3 by (intro mult_left_mono) simp_all
        with True show ?thesis by (simp add: L)
      next
        case False
        with \<open>a = SMALLEST_INT64 \<or> b = SMALLEST_INT64\<close> have b: "b = SMALLEST_INT64" by simp
        have "1 * 9223372036854775808 \<le> (- a) * 9223372036854775808" using 3 by (intro mult_right_mono) simp_all
        with b show ?thesis by (simp add: L)
      qed
      then have "\<not> i64 (a * b)" by (simp add: i)
      with 3 True show ?thesis by (auto simp: sqlite3MulInt64_def)
    next
      case False
      have nb: "0 < - b" using 3 by simp
      note d = div_less_mult [OF nb, of 9223372036854775807 "- a"]
      have "- a > 9223372036854775807 div (- b) \<longleftrightarrow> \<not> i64 (a * b)"
        using d p by (auto simp: i)
      then show ?thesis
        using 3 False assms q [OF nb] h [OF nb] by (auto simp: sqlite3MulInt64_def checked_def i L)
    qed
  qed (simp_all add: sqlite3MulInt64_def checked_def i)
qed

section \<open>Digits\<close>

definition digit_val :: "char \<Rightarrow> nat" where
  "digit_val c = nat (schar c - 48)"

definition num_of :: "string \<Rightarrow> nat" where
  "num_of ds = foldl (\<lambda>n c. n * 10 + digit_val c) 0 ds"

definition digits :: "string \<Rightarrow> bool" where
  "digits ds \<longleftrightarrow> (\<forall>c\<in>set ds. is_digit c)"

lemma digits_simps [simp]: "digits []" "digits (c # cs) \<longleftrightarrow> is_digit c \<and> digits cs"
  "digits (xs @ ys) \<longleftrightarrow> digits xs \<and> digits ys"
  by (auto simp: digits_def)

lemma digit_val_less: "is_digit c \<Longrightarrow> digit_val c \<le> 9"
  by (auto simp: is_digit_def digit_val_def nat_le_iff)

lemma schar_digit: "is_digit c \<Longrightarrow> schar c = int (digit_val c) + 48"
  by (simp add: is_digit_def digit_val_def)

lemma foldl_num: "foldl (\<lambda>n c. n * 10 + digit_val c) n ds = n * 10 ^ length ds + num_of ds"
proof (induction ds arbitrary: n)
  case Nil
  then show ?case by (simp add: num_of_def)
next
  case (Cons c ds)
  show ?case
    using Cons [of "n * 10 + digit_val c"] Cons [of "digit_val c"] by (simp add: num_of_def algebra_simps)
qed

lemma num_of_simps: "num_of [] = 0" "num_of (c # ds) = digit_val c * 10 ^ length ds + num_of ds"
  "num_of (xs @ [c]) = num_of xs * 10 + digit_val c"
  using foldl_num [of "digit_val c" ds] by (simp_all add: num_of_def)

lemma num_of_append: "num_of (xs @ ys) = num_of xs * 10 ^ length ys + num_of ys"
  using foldl_num [of "num_of xs" ys] by (simp add: num_of_def)

lemma num_of_less: "digits ds \<Longrightarrow> num_of ds < 10 ^ length ds"
proof (induction ds)
  case (Cons c ds)
  then have "digit_val c * 10 ^ length ds \<le> 9 * 10 ^ length ds" using digit_val_less by simp
  moreover have "num_of ds < 10 ^ length ds" using Cons by simp
  moreover have "(10 :: nat) ^ length (c # ds) = 9 * 10 ^ length ds + 10 ^ length ds" by simp
  ultimately show ?case unfolding num_of_simps by linarith
qed (simp add: num_of_simps)

lemma num_of_ge: "digits ds \<Longrightarrow> ds \<noteq> [] \<Longrightarrow> hd ds \<noteq> CHR ''0'' \<Longrightarrow> 10 ^ (length ds - 1) \<le> num_of ds"
proof (cases ds)
  case (Cons c cs)
  assume d: "digits ds" "hd ds \<noteq> CHR ''0''"
  have "digit_val c \<noteq> 0"
  proof
    assume "digit_val c = 0"
    with d Cons have "schar c = 48" by (simp add: schar_digit)
    then have "c \<in> char_of ` {nat 48 .. nat 48}" using schar_between [of 48 c 48] by simp
    then have "c = char_of (48 :: nat)" by auto
    moreover have "char_of (48 :: nat) = CHR ''0''" by code_simp
    ultimately show False using d Cons by simp
  qed
  then have "1 \<le> digit_val c" by simp
  then have "1 * 10 ^ length cs \<le> digit_val c * 10 ^ length cs" by (rule mult_right_mono) simp
  moreover have "num_of ds = digit_val c * 10 ^ length cs + num_of cs" "length ds - 1 = length cs"
    using Cons by (simp_all add: num_of_simps)
  ultimately show ?thesis by (simp only: mult_1_left trans_le_add1)
qed simp

section \<open>Comparing with 2 ^ 63\<close>

lemma sgn_lead:
  assumes "x \<noteq> y" "0 \<le> r" "r < (p :: int)" "0 \<le> s" "s < p"
  shows "sgn (x * p + r - (y * p + s)) = sgn (x - y)"
proof (cases "x < y")
  case True
  then have "(x + 1) * p \<le> y * p" using assms by (intro mult_right_mono) simp_all
  then have "x * p + r - (y * p + s) < 0" using assms by (simp add: distrib_right)
  with True show ?thesis by (simp add: sgn_if)
next
  case False
  with assms have "(y + 1) * p \<le> x * p" by (intro mult_right_mono) simp_all
  then have "0 < x * p + r - (y * p + s)" using assms by (simp add: distrib_right)
  with False assms(1) show ?thesis by (simp add: sgn_if)
qed

lemma pow63_loop_sgn:
  assumes "length xs = length ps" "digits xs" "digits ps"
  shows "sgn (pow63_loop (pre @ xs @ rest) 1 (length pre) ps) = sgn (int (num_of xs) - int (num_of ps))"
  using assms
proof (induction ps arbitrary: xs pre)
  case Nil
  then show ?case by (simp add: num_of_simps)
next
  case (Cons p ps)
  then obtain x ys where xs: "xs = x # ys" by (cases xs) auto
  let ?d = "int (digit_val x) - int (digit_val p)"
  have c: "schar x - schar p = ?d" using Cons.prems xs by (simp add: schar_digit)
  have ln: "num_of ys < 10 ^ length ps" "num_of ps < 10 ^ length ps"
    using num_of_less [of ys] num_of_less [of ps] Cons.prems xs by simp_all
  have l: "int (num_of ys) < 10 ^ length ps" "int (num_of ps) < 10 ^ length ps"
    using ln [folded of_nat_less_iff [where ?'a = int]] by simp_all
  show ?case
  proof (cases "?d = 0")
    case True
    with c xs have "pow63_loop (pre @ xs @ rest) 1 (length pre) (p # ps) =
        pow63_loop ((pre @ [x]) @ ys @ rest) 1 (length (pre @ [x])) ps"
      by (simp add: nth_append)
    moreover have "length ys = length ps" using Cons.prems xs by simp
    ultimately show ?thesis
      using Cons.IH [of ys "pre @ [x]"] Cons.prems xs True by (simp add: num_of_simps)
  next
    case False
    with c xs have "pow63_loop (pre @ xs @ rest) 1 (length pre) (p # ps) = ?d * 10"
      by (simp add: nth_append Let_def)
    moreover have "sgn (?d * 10) = sgn ?d" by (subst sgn_mult) (simp del: left_diff_distrib_numeral)
    ultimately have "sgn (pow63_loop (pre @ xs @ rest) 1 (length pre) (p # ps)) = sgn ?d" by simp
    also have "\<dots> = sgn (int (digit_val x) * 10 ^ length ps + int (num_of ys) - (int (digit_val p) * 10 ^ length ps + int (num_of ps)))"
      using False l by (subst sgn_lead) simp_all
    finally show ?thesis using xs Cons.prems by (simp add: num_of_simps)
  qed
qed

declare pow63_loop.simps [simp del]

lemma is_digit_simps: "is_digit CHR ''0''" "is_digit CHR ''1''" "is_digit CHR ''2''" "is_digit CHR ''3''" "is_digit CHR ''4''"
  "is_digit CHR ''5''" "is_digit CHR ''6''" "is_digit CHR ''7''" "is_digit CHR ''8''" "is_digit CHR ''9''"
  by (simp_all add: is_digit_def schar_def)

lemma digit_val_simps:
  "digit_val CHR ''0'' = 0" "digit_val CHR ''1'' = 1" "digit_val CHR ''2'' = 2" "digit_val CHR ''3'' = 3"
  "digit_val CHR ''4'' = 4" "digit_val CHR ''5'' = 5" "digit_val CHR ''6'' = 6" "digit_val CHR ''7'' = 7"
  "digit_val CHR ''8'' = 8" "digit_val CHR ''9'' = 9"
  by (simp_all add: digit_val_def schar_def)

lemma compare2pow63_sgn:
  assumes "length xs = 19" "digits xs"
  shows "sgn (compare2pow63 (xs @ rest) 1) = sgn (int (num_of xs) - 2 ^ 63)"
proof -
  obtain ys c where xs: "xs = ys @ [c]" "length ys = 18"
    using assms(1) by (cases xs rule: rev_cases) auto
  let ?p = "''922337203685477580''"
  have p: "num_of ?p = 922337203685477580" unfolding num_of_def by (simp add: digit_val_simps)
  have d: "digits ?p" by (simp add: is_digit_simps)
  have y: "digits ys" "is_digit c" using assms(2) xs by simp_all
  have s: "sgn (pow63_loop (xs @ rest) 1 0 ?p) = sgn (int (num_of ys) - 922337203685477580)"
    using pow63_loop_sgn [of ys ?p "[]" "[c] @ rest"] xs(2) y d p by (simp add: xs(1) )
  have n: "int (num_of xs) = int (num_of ys) * 10 + int (digit_val c)" by (simp add: xs(1) num_of_simps)
  have v: "digit_val c \<le> 9" using y digit_val_less by simp
  show ?thesis
  proof (cases "int (num_of ys) = 922337203685477580")
    case True
    with s have "pow63_loop (xs @ rest) 1 0 ?p = 0" by (simp add: sgn_0_0 )
    then have "compare2pow63 (xs @ rest) 1 = int (digit_val c) - 8"
      using xs y by (simp add: compare2pow63_def nth_append schar_digit )
    with n True show ?thesis by simp
  next
    case False
    then have "sgn (int (num_of ys) - 922337203685477580) \<noteq> 0" by (simp only: sgn_0_0 eq_iff_diff_eq_0 [symmetric] not_False_eq_True)
    with s have "pow63_loop (xs @ rest) 1 0 ?p \<noteq> 0" by (auto simp only: sgn_0)
    then have "compare2pow63 (xs @ rest) 1 = pow63_loop (xs @ rest) 1 0 ?p"
      by (simp only: compare2pow63_def Let_def if_False)
    then have "sgn (compare2pow63 (xs @ rest) 1) = sgn (int (num_of ys) - 922337203685477580)" by (simp only: s)
    also have "\<dots> = sgn (int (num_of ys) * 10 + int (digit_val c) - (922337203685477580 * 10 + 8))"
      using False v by (subst sgn_lead) simp_all
    finally show ?thesis using n by simp
  qed
qed

section \<open>The loops\<close>

lemma skip_while_1: "skip_while f 1 z = dropWhile f z"
proof (induction z)
  case Nil
  then show ?case by (subst skip_while.simps) simp
next
  case (Cons c z)
  then show ?case by (subst skip_while.simps) simp
qed

lemma digit_loop_1:
  assumes "digits ds" "rest = [] \<or> \<not> is_digit (hd rest)"
  shows "digit_loop 1 u i (ds @ rest) = (u * 10 ^ length ds + of_nat (num_of ds), i + length ds, rest)"
  using assms(1)
proof (induction ds arbitrary: u i)
  case Nil
  with assms(2) show ?case by (subst digit_loop.simps) (auto simp: num_of_simps)
next
  case (Cons c ds)
  have s: "word_of_int (schar c) = (of_nat (digit_val c) + 48 :: 64 word)"
    using Cons.prems schar_digit [of c] by simp
  have "digit_loop 1 u i ((c # ds) @ rest) = digit_loop 1 (u * 10 + of_nat (digit_val c)) (i + 1) (ds @ rest)"
    using Cons.prems by (subst digit_loop.simps) (simp add: s)
  also have "\<dots> = ((u * 10 + of_nat (digit_val c)) * 10 ^ length ds + of_nat (num_of ds), i + 1 + length ds, rest)"
    using Cons by simp
  finally show ?case by (simp add: num_of_simps algebra_simps)
qed

lemma text_loop_digits:
  "\<exists>ds. text_loop x acc = ds @ acc \<and> ds \<noteq> [] \<and> digits ds \<and> num_of ds = x"
proof (induction x acc rule: text_loop.induct)
  case (1 x acc)
  let ?c = "char_of (x mod 10 + 48) :: char"
  have m: "x mod 10 + 48 < 256" by (rule less_trans [of _ 58]) simp_all
  have oc: "(of_char ?c :: nat) = x mod 10 + 48" using m by simp
  have "schar ?c = int (x mod 10 + 48)"
  proof -
    have "(of_char ?c :: byte) = of_nat (of_char ?c)" by (rule of_nat_of_char [symmetric])
    also have "\<dots> = of_nat (x mod 10 + 48)" by (simp only: oc)
    finally have "schar ?c = sint (of_nat (x mod 10 + 48) :: byte)" by (simp only: schar_def)
    also have "\<dots> = int (x mod 10 + 48)"
      unfolding signed_of_nat using m by (subst signed_take_bit_int_eq_self) (auto intro: less_trans [of _ 58])
    finally show ?thesis .
  qed
  then have c: "is_digit ?c" "digit_val ?c = x mod 10" by (simp_all add: is_digit_def digit_val_def)
  show ?case
  proof (cases "x div 10 = 0")
    case True
    with c show ?thesis
      by (subst text_loop.simps) (auto simp: num_of_simps intro!: exI [of _ "[?c]"])
  next
    case False
    from 1 [OF refl False] obtain ds where
      d: "text_loop (x div 10) (?c # acc) = ds @ ?c # acc" "ds \<noteq> []" "digits ds" "num_of ds = x div 10" by auto
    from False d c show ?thesis
      by (subst text_loop.simps) (auto simp: num_of_simps intro!: exI [of _ "ds @ [?c]"])
  qed
qed

section \<open>Reading an integer\<close>

lemma not_space:
  "\<not> sqlite3Isspace CHR ''-''" "\<not> sqlite3Isspace CHR ''+''" "\<not> is_digit CHR ''-''" "\<not> is_digit CHR ''+''"
  by code_simp+

lemma digit_is_char: "is_digit c \<Longrightarrow> c \<in> char_of ` {48 :: nat .. 57}"
  using schar_between [of 48 c 57] by (simp add: is_digit_def)

lemma digit_not_space: "is_digit c \<Longrightarrow> \<not> sqlite3Isspace c \<and> c \<noteq> CHR ''-'' \<and> c \<noteq> CHR ''+''"
proof -
  assume "is_digit c"
  then obtain n :: nat where "48 \<le> n" "n < 58" "c = char_of n" using digit_is_char [of c] by auto
  then have "c \<in> set (map char_of [48 :: nat ..< 58])" unfolding set_map set_upt by (intro image_eqI [of _ _ n]) simp_all
  moreover have "\<forall>c \<in> set (map char_of [48 :: nat ..< 58]). \<not> sqlite3Isspace c \<and> c \<noteq> CHR ''-'' \<and> c \<noteq> CHR ''+''" by code_simp
  ultimately show ?thesis by blast
qed

lemma num_of_strip: "num_of (dropWhile (\<lambda>c. c = CHR ''0'') ds) = num_of ds"
proof (induction ds)
  case (Cons c ds)
  have "digit_val CHR ''0'' = 0" by (simp add: digit_val_def schar_def)
  with Cons show ?case by (simp add: num_of_simps)
qed simp

lemma num_of_long:
  assumes "digits ds" "ds = [] \<or> hd ds \<noteq> CHR ''0''"
  shows "num_of ds < 10 ^ k \<longleftrightarrow> length ds \<le> k"
proof
  assume l: "num_of ds < 10 ^ k"
  show "length ds \<le> k"
  proof (rule ccontr)
    assume g: "\<not> length ds \<le> k"
    then have "ds \<noteq> []" by auto
    with assms have "10 ^ (length ds - 1) \<le> num_of ds" using num_of_ge by blast
    from this l have "(10 :: nat) ^ (length ds - 1) < 10 ^ k" by (rule le_less_trans)
    with g show False by simp
  qed
next
  assume "length ds \<le> k"
  then have "(10 :: nat) ^ length ds \<le> 10 ^ k" by simp
  with num_of_less [OF assms(1)] show "num_of ds < 10 ^ k" by (rule less_le_trans)
qed

definition atoi_result :: "bool \<Rightarrow> nat \<Rightarrow> int \<Rightarrow> int \<times> int" where
  "atoi_result neg n rc =
     (if n < 2 ^ 63 then (rc, if neg then - int n else int n)
      else if n = 2 ^ 63 then (if neg then (rc, - (2 ^ 63)) else (3, 2 ^ 63 - 1))
      else (2, if neg then - (2 ^ 63) else 2 ^ 63 - 1))"

lemma atoi_scan:
  assumes "\<forall>c\<in>set bl. sqlite3Isspace c" "sg \<in> {'''', ''-'', ''+''}" "digits ds" "ds \<noteq> []"
  shows "dropWhile sqlite3Isspace (bl @ sg @ ds @ tail) = sg @ ds @ tail"
    "(if sg @ ds @ tail \<noteq> [] \<and> (hd (sg @ ds @ tail) = CHR ''-'' \<or> hd (sg @ ds @ tail) = CHR ''+'')
      then drop 1 (sg @ ds @ tail) else sg @ ds @ tail) = ds @ tail"
    "sg @ ds @ tail \<noteq> [] \<and> hd (sg @ ds @ tail) = CHR ''-'' \<longleftrightarrow> sg = ''-''"
proof -
  obtain c cs where ds: "ds = c # cs" using assms(4) by (cases ds) auto
  then have c: "\<not> sqlite3Isspace c" "c \<noteq> CHR ''-''" "c \<noteq> CHR ''+''"
    using assms(3) digit_not_space by auto
  then have "dropWhile sqlite3Isspace (sg @ ds @ tail) = sg @ ds @ tail"
    using assms(2) ds not_space by auto
  with assms(1) show "dropWhile sqlite3Isspace (bl @ sg @ ds @ tail) = sg @ ds @ tail"
    by (induction bl) auto
  from c assms(2) ds show "(if sg @ ds @ tail \<noteq> [] \<and> (hd (sg @ ds @ tail) = CHR ''-'' \<or> hd (sg @ ds @ tail) = CHR ''+'')
      then drop 1 (sg @ ds @ tail) else sg @ ds @ tail) = ds @ tail"
    "sg @ ds @ tail \<noteq> [] \<and> hd (sg @ ds @ tail) = CHR ''-'' \<longleftrightarrow> sg = ''-''" by auto
qed

lemma strip_app:
  assumes "digits ds" "tail = [] \<or> \<not> is_digit (hd tail)"
  shows "dropWhile (\<lambda>c. c = CHR ''0'') (ds @ tail) = dropWhile (\<lambda>c. c = CHR ''0'') ds @ tail"
  using assms(1)
proof (induction ds)
  case Nil
  with assms(2) show ?case using is_digit_simps(1) by (cases tail) auto
qed simp

lemma sgn_cases: "(c :: int) < 0 \<longleftrightarrow> sgn c = - 1" "0 < c \<longleftrightarrow> sgn c = 1"
  by (auto simp: sgn_if)

lemma atoi_core:
  assumes d: "digits ds" "ds = [] \<or> hd ds \<noteq> CHR ''0''" and u: "u = of_nat (num_of ds)"
    and num: "num = (if uint (u :: 64 word) > LARGEST_INT64 then limit else if neg then - uint u else uint u)"
    and limit: "limit = (if neg then SMALLEST_INT64 else LARGEST_INT64)"
  shows "(if length ds < 19 then (rc, num)
       else let c = (if length ds > 19 then 1 else compare2pow63 (ds @ tail) 1) in
            if c < 0 then (rc, num) else if c > 0 then (2, limit) else (if neg then rc else 3, limit)) =
     atoi_result neg (num_of ds) rc"
proof -
  let ?n = "num_of ds"
  have val: "num = (if neg then - int ?n else int ?n)" if "?n < 2 ^ 63"
  proof -
    have "uint u = int ?n" using that u by (simp add: uint_nat unat_of_nat)
    then show ?thesis using that num by (simp add: INT64_values)
  qed
  consider "length ds < 19" | "length ds = 19" | "length ds > 19" by linarith
  then show ?thesis
  proof cases
    case 1
    then have "?n < 10 ^ 18" using num_of_long [OF d, of 18] by simp
    then have "?n < 2 ^ 63" by simp
    with 1 val show ?thesis by (simp add: atoi_result_def)
  next
    case 2
    let ?c = "compare2pow63 (ds @ tail) 1"
    have s: "sgn ?c = sgn (int ?n - 2 ^ 63)" by (rule compare2pow63_sgn [OF 2 d(1)])
    consider "?n < 2 ^ 63" | "?n = 2 ^ 63" | "?n > 2 ^ 63" by linarith
    then show ?thesis
    proof cases
      case 1
      then have "sgn (int ?n - 2 ^ 63) = - 1" by (simp only: sgn_cases(1) [symmetric]) simp
      then have "?c < 0" unfolding sgn_cases s .
      with 1 2 val show ?thesis by (simp add: atoi_result_def)
    next
      case c: 2
      then have "sgn ?c = 0" unfolding s by simp
      then have "?c = 0" by (simp only: sgn_0_0)
      with c 2 limit show ?thesis by (simp add: atoi_result_def INT64_values)
    next
      case 3
      then have "sgn (int ?n - 2 ^ 63) = 1" by (simp only: sgn_cases(2) [symmetric]) simp
      then have "?c > 0" unfolding sgn_cases s .
      with 3 2 limit show ?thesis by (simp add: atoi_result_def INT64_values)
    qed
  next
    case 3
    then have "\<not> ?n < 10 ^ 19" using num_of_long [OF d, of 19] by simp
    then have "?n > 2 ^ 63" by simp
    with 3 limit show ?thesis by (simp add: atoi_result_def INT64_values)
  qed
qed

lemma atoi_utf8:
  assumes bl: "\<forall>c\<in>set bl. sqlite3Isspace c" and sg: "sg \<in> {'''', ''-'', ''+''}"
    and ds: "digits ds" "ds \<noteq> []" and tail: "tail = [] \<or> \<not> is_digit (hd tail)"
  shows "sqlite3Atoi64 (bl @ sg @ ds @ tail) 1 =
    atoi_result (sg = ''-'') (num_of ds) (if \<forall>c\<in>set tail. sqlite3Isspace c then 0 else 1)"
proof -
  let ?ds = "dropWhile (\<lambda>c. c = CHR ''0'') ds"
  have d: "digits ?ds" "?ds = [] \<or> hd ?ds \<noteq> CHR ''0''"
    using ds(1) hd_dropWhile [of "\<lambda>c. c = CHR ''0''" ds] by (auto simp: digits_def dest: set_dropWhileD)
  have dl: "digit_loop 1 0 0 (?ds @ tail) = (of_nat (num_of ds), length ?ds, tail)"
    using digit_loop_1 [OF d(1) tail, of 0 0] by (simp add: num_of_strip)
  have ne: "\<not> (length ?ds = 0 \<and> length (ds @ tail) = length (?ds @ tail))"
    using ds(2) [folded length_greater_0_conv] by (simp only: length_append) linarith
  have rc: "tail \<noteq> [] \<and> dropWhile sqlite3Isspace tail \<noteq> [] \<longleftrightarrow> \<not> (\<forall>c\<in>set tail. sqlite3Isspace c)"
    by (auto simp: dropWhile_eq_Nil_conv)
  have neg_if: "(if \<not> P then x else y) = (if P then y else x)" for P and x y :: int by simp
  have w: "atoi_window z 1 = (1, 0, length z, False)" for z :: string by (simp add: atoi_window_def)
  show ?thesis
    unfolding sqlite3Atoi64_def w Let_def case_prod_conv skip_while_1 take_all [OF order_refl] drop_0
      atoi_scan [OF bl sg ds] strip_app [OF ds(1) tail] dl rc
      add_0 nat_mult_1_right if_False if_not_P [OF ne] neg_if
    by (rule atoi_core [OF d _ _ refl, unfolded num_of_strip Let_def]) simp_all
qed

lemma int64_text: "i64 v \<Longrightarrow> \<exists>ds. sqlite3Int64ToText v = (if v < 0 then ''-'' else '''') @ ds \<and> digits ds \<and> ds \<noteq> [] \<and> num_of ds = nat \<bar>v\<bar>"
proof -
  assume i: "i64 v"
  define x where "x = (if v < 0 then (if v = SMALLEST_INT64 then 2 ^ 63 else nat (- v)) else nat v)"
  have x: "x = nat \<bar>v\<bar>" using i by (auto simp: x_def INT64_values)
  obtain ds where "text_loop x [] = ds" "ds \<noteq> []" "digits ds" "num_of ds = x" using text_loop_digits [of x "[]"] by auto
  then show ?thesis by (auto simp: sqlite3Int64ToText_def x_def [symmetric] Let_def x)
qed

lemma int64_text_reads:
  assumes "i64 v"
  shows "sqlite3Atoi64 (sqlite3Int64ToText v) 1 = (0, v)"
proof -
  from int64_text [OF assms] obtain ds where
    ds: "sqlite3Int64ToText v = (if v < 0 then ''-'' else '''') @ ds" "digits ds" "ds \<noteq> []" "num_of ds = nat \<bar>v\<bar>" by blast
  have "sqlite3Atoi64 ([] @ (if v < 0 then ''-'' else '''') @ ds @ []) 1 = atoi_result (v < 0) (nat \<bar>v\<bar>) 0"
    using atoi_utf8 [of "[]" "if v < 0 then ''-'' else ''''" ds "[]"] ds(2-4) by simp
  with ds(1) assms show ?thesis by (auto simp: atoi_result_def i64_def)
qed

section \<open>Properties\<close>

lemma blank_simps: "sqlite3Isspace CHR '' ''" "\<not> sqlite3Isspace CHR ''x''" "\<not> is_digit CHR '' ''" by code_simp+

text \<open>
  C40: Overflow is detected exactly: adding, subtracting and multiplying two 64 bit integers gives
  the result and 0 when it is in the range, and leaves the first operand and gives 1 otherwise; and
  no intermediate result of the checks leaves the range, so the C code has no undefined behaviour.
\<close>

theorem int64_overflow_detected:
  assumes "i64 a" "i64 b"
  shows "sqlite3AddInt64 a b = Some (if i64 (a + b) then (0, a + b) else (1, a)) \<and>
    sqlite3SubInt64 a b = Some (if i64 (a - b) then (0, a - b) else (1, a)) \<and>
    sqlite3MulInt64 a b = Some (if i64 (a * b) then (0, a * b) else (1, a))"
  using add_exact [OF assms] sub_exact [OF assms] mul_exact [OF assms] by blast

theorem int64_overflow_detected_witness:
  "sqlite3AddInt64 (2 ^ 62) (2 ^ 62) = Some (1, 2 ^ 62) \<and>
   sqlite3SubInt64 (2 ^ 62) (2 ^ 62) = Some (0, 0) \<and> sqlite3MulInt64 (2 ^ 62) (2 ^ 62) = Some (1, 2 ^ 62)"
  using int64_overflow_detected [of "2 ^ 62" "2 ^ 62"] by (simp add: i64_def)

text \<open>
  The text of every 64 bit integer, the smallest included, reads back as that integer.
\<close>

theorem int64_text_round_trip:
  assumes "i64 v"
  shows "sqlite3Atoi64 (sqlite3Int64ToText v) 1 = (0, v)"
  using assms by (rule int64_text_reads)

theorem int64_text_round_trip_witness:
  "sqlite3Atoi64 (sqlite3Int64ToText (- (2 ^ 63))) 1 = (0, - (2 ^ 63))"
  using int64_text_round_trip [of "- (2 ^ 63)"] by (simp add: i64_def)

text \<open>
  On UTF-8 text made of blanks, an optional sign, digits and a tail that does not
  start with a digit, the value is that of the digits, and the code says what the tail is: 0 for
  blanks only, 1 for more text. Past the range the value is the nearest bound and the code 2, with
  the code 3 for exactly \<open>2 ^ 63\<close>; \<open>- 2 ^ 63\<close> is in the range.
\<close>

theorem atoi64_result:
  assumes bl: "\<forall>c\<in>set blanks. sqlite3Isspace c" and sg: "sign \<in> {'''', ''-'', ''+''}"
    and ds: "\<forall>c\<in>set ds. is_digit c" "ds \<noteq> []" and tail: "tail = [] \<or> \<not> is_digit (hd tail)"
  shows "sqlite3Atoi64 (blanks @ sign @ ds @ tail) 1 =
    atoi_result (sign = ''-'') (num_of ds) (if \<forall>c\<in>set tail. sqlite3Isspace c then 0 else 1)"
  using atoi_utf8 [OF bl sg _ ds(2) tail] ds(1) by (simp add: digits_def)

theorem atoi64_result_witness:
  "sqlite3Atoi64 '' +9223372036854775808 x'' 1 = (3, 2 ^ 63 - 1)"
  using atoi64_result [of "'' ''" "''+''" "''9223372036854775808''" "'' x''"]
  by (simp add: is_digit_simps digit_val_simps num_of_def atoi_result_def blank_simps)

end
