(* ===== verification/Ys_Utf.thy ===== *)
theory Ys_Utf
  imports Ys_Ctype
begin

text \<open>
  Unicode of \<^verbatim>\<open>utf.c\<close> (in \<^verbatim>\<open>sqlite3.c\<close>): reading and writing characters in UTF-8 and UTF-16, translating
  text between the encodings, counting characters.
\<close>

section \<open>Characters in UTF-8\<close>

definition sqlite3Utf8Trans1 :: "nat list" where
  "sqlite3Utf8Trans1 =
    [0x00, 0x01, 0x02, 0x03, 0x04, 0x05, 0x06, 0x07, 0x08, 0x09, 0x0a, 0x0b, 0x0c, 0x0d, 0x0e, 0x0f,
     0x10, 0x11, 0x12, 0x13, 0x14, 0x15, 0x16, 0x17, 0x18, 0x19, 0x1a, 0x1b, 0x1c, 0x1d, 0x1e, 0x1f,
     0x00, 0x01, 0x02, 0x03, 0x04, 0x05, 0x06, 0x07, 0x08, 0x09, 0x0a, 0x0b, 0x0c, 0x0d, 0x0e, 0x0f,
     0x00, 0x01, 0x02, 0x03, 0x04, 0x05, 0x06, 0x07, 0x00, 0x01, 0x02, 0x03, 0x00, 0x01, 0x00, 0x00]"

definition WRITE_UTF8 :: "32 word \<Rightarrow> byte list" where
  "WRITE_UTF8 c =
     (if c < 0x80 then [ucast (c AND 0xFF)]
      else if c < 0x800 then
        [0xC0 + ucast (drop_bit 6 c AND 0x1F), 0x80 + ucast (c AND 0x3F)]
      else if c < 0x10000 then
        [0xE0 + ucast (drop_bit 12 c AND 0x0F), 0x80 + ucast (drop_bit 6 c AND 0x3F), 0x80 + ucast (c AND 0x3F)]
      else
        [0xF0 + ucast (drop_bit 18 c AND 0x07), 0x80 + ucast (drop_bit 12 c AND 0x3F),
         0x80 + ucast (drop_bit 6 c AND 0x3F), 0x80 + ucast (c AND 0x3F)])"

text \<open>The bytes that continue a character are taken while there are any; \<open>z\<close> ends at \<^verbatim>\<open>zTerm\<close>.\<close>

fun utf8_tail :: "32 word \<Rightarrow> byte list \<Rightarrow> 32 word \<times> byte list" where
  "utf8_tail c [] = (c, [])"
| "utf8_tail c (b # z) =
     (if b AND 0xc0 = 0x80 then utf8_tail (push_bit 6 c + (0x3f AND ucast b)) z else (c, b # z))"

definition utf8_accept :: "32 word \<Rightarrow> 32 word" where
  "utf8_accept c = (if c < 0x80 \<or> c AND 0xFFFFF800 = 0xD800 \<or> c AND 0xFFFFFFFE = 0xFFFE then 0xFFFD else c)"

text \<open>There is a byte to read where the macro is used.\<close>

fun READ_UTF8 :: "byte list \<Rightarrow> 32 word \<times> byte list" where
  "READ_UTF8 [] = (0, [])"
| "READ_UTF8 (b # z) =
     (if b \<ge> 0xc0 then
        (case utf8_tail (of_nat (sqlite3Utf8Trans1 ! unat (b - 0xc0))) z of (c, z) \<Rightarrow> (utf8_accept c, z))
      else (ucast b, z))"

text \<open>
  For these functions a string is given by its bytes up to and including the terminator; reading past the
  terminator has no result.
\<close>

fun utf8_read_tail :: "32 word \<Rightarrow> byte list \<Rightarrow> (32 word \<times> byte list) option" where
  "utf8_read_tail c [] = None"
| "utf8_read_tail c (b # z) =
     (if b AND 0xc0 = 0x80 then utf8_read_tail (push_bit 6 c + (0x3f AND ucast b)) z else Some (c, b # z))"

fun sqlite3Utf8Read :: "byte list \<Rightarrow> (32 word \<times> byte list) option" where
  "sqlite3Utf8Read [] = None"
| "sqlite3Utf8Read (b # z) =
     (if b \<ge> 0xc0 then
        (case utf8_read_tail (of_nat (sqlite3Utf8Trans1 ! unat (b - 0xc0))) z of
           None \<Rightarrow> None
         | Some (c, z) \<Rightarrow> Some (utf8_accept c, z))
      else Some (ucast b, z))"

fun skip_tail :: "byte list \<Rightarrow> byte list option" where
  "skip_tail [] = None"
| "skip_tail (b # z) = (if b AND 0xc0 = 0x80 then skip_tail z else Some (b # z))"

fun SQLITE_SKIP_UTF8 :: "byte list \<Rightarrow> byte list option" where
  "SQLITE_SKIP_UTF8 [] = None"
| "SQLITE_SKIP_UTF8 (b # z) = (if b \<ge> 0xc0 then skip_tail z else Some z)"

text \<open>\<open>n\<close> is the number of bytes up to \<^verbatim>\<open>zTerm\<close>, or a negative number.\<close>

lemma skip_tail_length: "skip_tail z = Some z' \<Longrightarrow> length z' \<le> length z"
  by (induction z) (auto split: if_splits)

lemma skip_length: "SQLITE_SKIP_UTF8 z = Some z' \<Longrightarrow> length z' < length z"
  by (cases z) (auto split: if_splits dest: skip_tail_length)

function utf8_len_loop :: "byte list \<Rightarrow> int \<Rightarrow> bool \<Rightarrow> nat \<Rightarrow> nat option" where
  "utf8_len_loop z n bounded r =
     (case z of
        [] \<Rightarrow> None
      | b # _ \<Rightarrow>
          if b \<noteq> 0 \<and> (bounded \<longrightarrow> 0 < n) then
            (case SQLITE_SKIP_UTF8 z of
               None \<Rightarrow> None
             | Some z' \<Rightarrow> utf8_len_loop z' (n - int (length z - length z')) bounded (r + 1))
          else Some r)"
  by pat_completeness auto
termination by (relation "measure (\<lambda>(z, n, bounded, r). length z)") (auto dest!: skip_length simp del: SQLITE_SKIP_UTF8.simps)

declare utf8_len_loop.simps [simp del]

definition sqlite3Utf8CharLen :: "byte list \<Rightarrow> int \<Rightarrow> nat option" where
  "sqlite3Utf8CharLen z nByte = utf8_len_loop z nByte (nByte \<ge> 0) 0"

section \<open>Characters in UTF-16\<close>

definition WRITE_UTF16LE :: "32 word \<Rightarrow> byte list" where
  "WRITE_UTF16LE c =
     (if c \<le> 0xFFFF then [ucast (c AND 0xFF), ucast (drop_bit 8 c AND 0xFF)]
      else [ucast ((drop_bit 10 c AND 0x3F) + (drop_bit 10 (c - 0x10000) AND 0xC0)),
            ucast (0xD8 + (drop_bit 18 (c - 0x10000) AND 0x03)),
            ucast (c AND 0xFF), ucast (0xDC + (drop_bit 8 c AND 0x03))])"

definition WRITE_UTF16BE :: "32 word \<Rightarrow> byte list" where
  "WRITE_UTF16BE c =
     (if c \<le> 0xFFFF then [ucast (drop_bit 8 c AND 0xFF), ucast (c AND 0xFF)]
      else [ucast (0xD8 + (drop_bit 18 (c - 0x10000) AND 0x03)),
            ucast ((drop_bit 10 c AND 0x3F) + (drop_bit 10 (c - 0x10000) AND 0xC0)),
            ucast (0xDC + (drop_bit 8 c AND 0x03)), ucast (c AND 0xFF)])"

definition utf16_pair :: "32 word \<Rightarrow> 32 word \<Rightarrow> 32 word" where
  "utf16_pair c c2 = (c2 AND 0x03FF) + push_bit 10 (c AND 0x003F) + push_bit 10 ((c AND 0x03C0) + 0x0040)"

section \<open>Translating text\<close>

text \<open>The loops run while \<^verbatim>\<open>zIn<zTerm\<close>; for UTF-16 the number of bytes is even.\<close>

lemma utf8_tail_length: "length (snd (utf8_tail c z)) \<le> length z"
  by (induction c z rule: utf8_tail.induct) auto

lemma READ_UTF8_length: "z \<noteq> [] \<Longrightarrow> length (snd (READ_UTF8 z)) < length z"
  using utf8_tail_length by (cases z) (auto split: prod.split simp: less_Suc_eq_le, metis snd_conv)

function utf8_to_16_loop :: "(32 word \<Rightarrow> byte list) \<Rightarrow> byte list \<Rightarrow> byte list" where
  "utf8_to_16_loop write zIn =
     (if zIn = [] then [] else case READ_UTF8 zIn of (c, zIn') \<Rightarrow> write c @ utf8_to_16_loop write zIn')"
  by auto
termination by (relation "measure (\<lambda>(write, z). length z)") (use READ_UTF8_length in \<open>auto, metis snd_conv\<close>)

declare utf8_to_16_loop.simps [simp del]

fun utf16le_to_8_loop :: "byte list \<Rightarrow> byte list" where
  "utf16le_to_8_loop (b0 # b1 # zIn) =
     (let c = ucast b0 + push_bit 8 (ucast b1) in
      if c \<ge> 0xd800 \<and> c < 0xe000 then
        (case zIn of
           d0 # d1 # zIn \<Rightarrow> WRITE_UTF8 (utf16_pair c (ucast d0 + push_bit 8 (ucast d1))) @ utf16le_to_8_loop zIn
         | _ \<Rightarrow> WRITE_UTF8 c)
      else WRITE_UTF8 c @ utf16le_to_8_loop zIn)"
| "utf16le_to_8_loop _ = []"

fun utf16be_to_8_loop :: "byte list \<Rightarrow> byte list" where
  "utf16be_to_8_loop (b0 # b1 # zIn) =
     (let c = push_bit 8 (ucast b0) + ucast b1 in
      if c \<ge> 0xd800 \<and> c < 0xe000 then
        (case zIn of
           d0 # d1 # zIn \<Rightarrow> WRITE_UTF8 (utf16_pair c (push_bit 8 (ucast d0) + ucast d1)) @ utf16be_to_8_loop zIn
         | _ \<Rightarrow> WRITE_UTF8 c)
      else WRITE_UTF8 c @ utf16be_to_8_loop zIn)"
| "utf16be_to_8_loop _ = []"

fun swap_loop :: "byte list \<Rightarrow> byte list" where
  "swap_loop (a # b # z) = b # a # swap_loop z"
| "swap_loop z = z"

text \<open>
  The text of a cell (the \<open>n\<close> bytes in front of its terminator) in the other encoding. The second component is the
  number of bytes the output buffer is allocated with, or \<^verbatim>\<open>None\<close> when the text is changed in place.
\<close>

datatype utf_encoding = SQLITE_UTF8 | SQLITE_UTF16LE | SQLITE_UTF16BE

definition even_part :: "byte list \<Rightarrow> byte list" where
  "even_part z = take (length z - length z mod 2) z"

definition sqlite3VdbeMemTranslate :: "utf_encoding \<Rightarrow> utf_encoding \<Rightarrow> byte list \<Rightarrow> byte list \<times> nat option" where
  "sqlite3VdbeMemTranslate enc desiredEnc z =
     (if enc \<noteq> SQLITE_UTF8 \<and> desiredEnc \<noteq> SQLITE_UTF8 then (swap_loop z, None)
      else
        let z = (if desiredEnc = SQLITE_UTF8 then even_part z else z);
            len = (if desiredEnc = SQLITE_UTF8 then 2 * length z + 1 else 2 * length z + 2)
        in (if enc = SQLITE_UTF8 then
              (if desiredEnc = SQLITE_UTF16LE then utf8_to_16_loop WRITE_UTF16LE z
               else utf8_to_16_loop WRITE_UTF16BE z)
            else if enc = SQLITE_UTF16LE then utf16le_to_8_loop z else utf16be_to_8_loop z, Some len))"

text \<open>The bytes of the first \<open>nChar\<close> characters on a little-endian machine; a surrogate pair is one character.\<close>

fun sqlite3Utf16ByteLen :: "byte list \<Rightarrow> nat \<Rightarrow> nat option" where
  "sqlite3Utf16ByteLen z 0 = Some 0"
| "sqlite3Utf16ByteLen (b0 # b1 # z) (Suc nChar) =
     (if b1 \<ge> 0xd8 \<and> b1 < 0xdc then
        (case z of
           d0 # d1 # z' \<Rightarrow>
             if d1 \<ge> 0xdc \<and> d1 < 0xe0 then map_option ((+) 4) (sqlite3Utf16ByteLen z' nChar)
             else map_option ((+) 2) (sqlite3Utf16ByteLen z nChar)
         | _ \<Rightarrow> None)
      else map_option ((+) 2) (sqlite3Utf16ByteLen z nChar))"
| "sqlite3Utf16ByteLen _ _ = None"

section \<open>Bits\<close>

lemma masks:
  "(0x3F :: 32 word) = mask 6"
  "(0xFF :: 32 word) = mask 8" "(0x1F :: 32 word) = mask 5" "(0x0F :: 32 word) = mask 4" "(0x07 :: 32 word) = mask 3"
  by (simp_all add: mask_eq_exp_minus_1)

lemma byte_bits:
  "bit (0x80 :: int) n \<longleftrightarrow> n = 7" "bit (0xc0 :: int) n \<longleftrightarrow> n = 6 \<or> n = 7"
proof -
  have "(0x80 :: int) = 2 ^ 7" "(0xc0 :: int) = push_bit 6 (mask 2)" by (simp_all add: mask_eq_exp_minus_1)
  then show "bit (0x80 :: int) n \<longleftrightarrow> n = 7" "bit (0xc0 :: int) n \<longleftrightarrow> n = 6 \<or> n = 7"
    by (auto simp only: bit_exp_iff bit_push_bit_iff bit_mask_iff) (auto simp: possible_bit_def)
qed

lemma cont_byte:
  fixes w :: "32 word"
  shows "(0x80 + ucast (w AND 0x3F) :: byte) AND 0xc0 = 0x80"
    "0x3f AND ucast (0x80 + ucast (w AND 0x3F) :: byte) = w AND 0x3F"
proof -
  have d: "(0x80 + ucast (w AND 0x3F) :: byte) = 0x80 OR ucast (w AND 0x3F)"
    unfolding masks by (rule disjunctive_add) (auto simp: bit_simps byte_bits)
  show "(0x80 + ucast (w AND 0x3F) :: byte) AND 0xc0 = 0x80"
    unfolding d unfolding masks by (rule bit_word_eqI) (auto simp: bit_simps byte_bits)
  show "0x3f AND ucast (0x80 + ucast (w AND 0x3F) :: byte) = w AND 0x3F"
    unfolding d unfolding masks by (rule bit_word_eqI) (auto simp: bit_simps byte_bits)
qed

lemma push_mask_add:
  fixes w :: "32 word"
  shows "push_bit 6 (drop_bit (k + 6) w AND mask j) + (drop_bit k w AND 0x3F) = drop_bit k w AND mask (j + 6)"
proof -
  have m: "(0x3F :: 32 word) = mask 6" by (simp add: mask_eq_exp_minus_1)
  have "push_bit 6 (drop_bit (k + 6) w AND mask j) + (drop_bit k w AND 0x3F) =
      push_bit 6 (drop_bit (k + 6) w AND mask j) OR (drop_bit k w AND 0x3F)"
    unfolding m by (rule disjunctive_add) (auto simp: bit_simps byte_bits)
  also have "\<dots> = drop_bit k w AND mask (j + 6)"
    unfolding m by (rule bit_word_eqI) (auto simp: bit_simps byte_bits)
  finally show ?thesis .
qed

lemma trans_lead:
  "k < 32 \<Longrightarrow> sqlite3Utf8Trans1 ! k = k" "k < 16 \<Longrightarrow> sqlite3Utf8Trans1 ! (k + 32) = k"
  "k < 8 \<Longrightarrow> sqlite3Utf8Trans1 ! (k + 48) = k"
proof -
  have "\<forall>k \<in> set [0 ..< 32]. sqlite3Utf8Trans1 ! k = k" "\<forall>k \<in> set [0 ..< 16]. sqlite3Utf8Trans1 ! (k + 32) = k"
    "\<forall>k \<in> set [0 ..< 8]. sqlite3Utf8Trans1 ! (k + 48) = k" by code_simp+
  then show "k < 32 \<Longrightarrow> sqlite3Utf8Trans1 ! k = k" "k < 16 \<Longrightarrow> sqlite3Utf8Trans1 ! (k + 32) = k"
    "k < 8 \<Longrightarrow> sqlite3Utf8Trans1 ! (k + 48) = k" by simp_all
qed

lemma lead_byte:
  fixes w :: "32 word"
  assumes "unat (w AND mask j) + o8 < 64" "unat L = 0xC0 + o8"
  shows "unat (L + ucast (w AND mask j) :: byte) = 0xC0 + o8 + unat (w AND mask j)"
    "(0xC0 :: byte) \<le> L + ucast (w AND mask j)" "unat (L + ucast (w AND mask j) - 0xC0 :: byte) = unat (w AND mask j) + o8"
proof -
  have u: "unat (ucast (w AND mask j) :: byte) = unat (w AND mask j)"
    using assms(1) by (simp add: unsigned_ucast_eq take_bit_nat_eq_self)
  show a: "unat (L + ucast (w AND mask j) :: byte) = 0xC0 + o8 + unat (w AND mask j)"
    using assms by (subst unat_word_ariths) (simp add: u)
  then show b: "(0xC0 :: byte) \<le> L + ucast (w AND mask j)" by (simp add: word_le_nat_alt)
  show "unat (L + ucast (w AND mask j) - 0xC0 :: byte) = unat (w AND mask j) + o8"
    using a by (subst unat_sub [OF b]) simp
qed

lemma mask_less: "unat ((w :: 32 word) AND mask j) < 2 ^ j"
  by (simp add: unsigned_take_bit_eq flip: take_bit_eq_mask)

lemma ucast_lead:
  fixes w :: "32 word"
  shows "(0xC0 :: byte) \<le> 0xC0 + ucast (w AND 0x1F)"
    "word_of_nat (sqlite3Utf8Trans1 ! unat (0xC0 + ucast (w AND 0x1F) - 0xC0 :: byte)) = w AND 0x1F"
    "(0xC0 :: byte) \<le> 0xE0 + ucast (w AND 0x0F)"
    "word_of_nat (sqlite3Utf8Trans1 ! unat (0xE0 + ucast (w AND 0x0F) - 0xC0 :: byte)) = w AND 0x0F"
    "(0xC0 :: byte) \<le> 0xF0 + ucast (w AND 0x07)"
    "word_of_nat (sqlite3Utf8Trans1 ! unat (0xF0 + ucast (w AND 0x07) - 0xC0 :: byte)) = w AND 0x07"
proof -
  note m = mask_less [of w 5] mask_less [of w 4] mask_less [of w 3]
  have c: "unat (w AND mask 5) + 0 < 64" "unat (0xC0 :: byte) = 0xC0 + 0"
    "unat (w AND mask 4) + 32 < 64" "unat (0xE0 :: byte) = 0xC0 + 32"
    "unat (w AND mask 3) + 48 < 64" "unat (0xF0 :: byte) = 0xC0 + 48" using m by simp_all
  note l = lead_byte [OF c(1,2)] lead_byte [OF c(3,4)] lead_byte [OF c(5,6)]
  have t: "sqlite3Utf8Trans1 ! (unat (w AND mask 5) + 0) = unat (w AND mask 5)"
    "sqlite3Utf8Trans1 ! (unat (w AND mask 4) + 32) = unat (w AND mask 4)"
    "sqlite3Utf8Trans1 ! (unat (w AND mask 3) + 48) = unat (w AND mask 3)"
    using m by (simp_all add: trans_lead)
  show "(0xC0 :: byte) \<le> 0xC0 + ucast (w AND 0x1F)" "(0xC0 :: byte) \<le> 0xE0 + ucast (w AND 0x0F)"
    "(0xC0 :: byte) \<le> 0xF0 + ucast (w AND 0x07)" unfolding masks using l by blast+
  show "word_of_nat (sqlite3Utf8Trans1 ! unat (0xC0 + ucast (w AND 0x1F) - 0xC0 :: byte)) = w AND 0x1F"
    "word_of_nat (sqlite3Utf8Trans1 ! unat (0xE0 + ucast (w AND 0x0F) - 0xC0 :: byte)) = w AND 0x0F"
    "word_of_nat (sqlite3Utf8Trans1 ! unat (0xF0 + ucast (w AND 0x07) - 0xC0 :: byte)) = w AND 0x07"
    unfolding masks by (simp_all only: l t) simp_all
qed

section \<open>Reading what was written\<close>

text \<open>What reading does with a character: the same as the self test of \<^verbatim>\<open>utf.c\<close> expects.\<close>

definition utf8_self :: "32 word \<Rightarrow> 32 word" where
  "utf8_self c = (if 0xD800 \<le> c \<and> c \<le> 0xDFFF \<or> c AND 0xFFFFFFFE = 0xFFFE then 0xFFFD else c)"

definition stops :: "byte list \<Rightarrow> bool" where
  "stops z \<longleftrightarrow> z \<noteq> [] \<longrightarrow> hd z AND 0xc0 \<noteq> 0x80"

lemma surrogate_mask: "(c :: 32 word) AND 0xFFFFF800 = 0xD800 \<longleftrightarrow> 0xD800 \<le> c \<and> c \<le> 0xDFFF"
proof -
  have m: "(0xFFFFF800 :: 32 word) = NOT (mask 11)" by (simp add: mask_eq_exp_minus_1)
  have e: "c AND 0xFFFFF800 = push_bit 11 (drop_bit 11 c)"
    unfolding m by (rule bit_word_eqI) (auto simp: bit_simps)
  have "push_bit 11 (drop_bit 11 c) = 0xD800 \<longleftrightarrow> unat (push_bit 11 (drop_bit 11 c)) = 0xD800"
    by (simp add: word_unat_eq_iff)
  also have "unat (push_bit 11 (drop_bit 11 c)) = unat c div 2048 * 2048"
  proof -
    have "unat (push_bit 11 (drop_bit 11 c)) = unat (drop_bit 11 c) * 2048 mod 2 ^ 32"
      by (simp add: push_bit_eq_mult unat_word_ariths)
    also have "unat (drop_bit 11 c) = unat c div 2048" unfolding unat_drop_bit_eq by (simp add: drop_bit_eq_div)
    also have "unat c div 2048 * 2048 mod 2 ^ 32 = unat c div 2048 * 2048"
    proof (rule mod_less)
      have "unat c < 2 ^ 32" using unsigned_less [of c] by simp
      then show "unat c div 2048 * 2048 < 2 ^ 32" by (rule le_less_trans [OF div_times_less_eq_dividend])
    qed
    finally show ?thesis .
  qed
  also have "unat c div 2048 * 2048 = 0xD800 \<longleftrightarrow> 0xD800 \<le> unat c \<and> unat c \<le> 0xDFFF" by auto
  finally show ?thesis by (simp add: e word_le_nat_alt)
qed

lemma accept_self: "0x80 \<le> c \<Longrightarrow> utf8_accept c = utf8_self c"
  unfolding utf8_accept_def utf8_self_def surrogate_mask by (simp add: linorder_not_less [symmetric] del: linorder_not_less)

lemma take_bit_small: "unat (c :: 32 word) < 2 ^ k \<Longrightarrow> take_bit k c = c"
  by (simp add: word_unat_eq_iff unsigned_take_bit_eq take_bit_nat_eq_self)

lemma and_mask_small: "unat (c :: 32 word) < 2 ^ k \<Longrightarrow> c AND mask k = c"
  by (simp only: take_bit_small take_bit_eq_mask [symmetric])

lemma self_low: "c < 0x80 \<Longrightarrow> utf8_self c = c"
proof -
  assume a: "c < 0x80"
  have "c AND 0xFFFFFFFE \<noteq> 0xFFFE"
  proof
    assume "c AND 0xFFFFFFFE = 0xFFFE"
    then have "bit (c AND 0xFFFFFFFE) 8" by simp
    then have "bit c 8" by (simp add: bit_and_iff)
    moreover have "take_bit 7 c = c" using a by (intro take_bit_small) (simp add: word_less_nat_alt)
    ultimately show False using bit_take_bit_iff [of 7 c 8] by simp
  qed
  moreover have "\<not> 0xD800 \<le> c" using a by (simp add: word_le_nat_alt word_less_nat_alt)
  ultimately show ?thesis by (simp add: utf8_self_def)
qed

lemma write_cases:
  fixes c :: "32 word"
  assumes "c < 0x110000"
  obtains "c < 0x80" "WRITE_UTF8 c = [ucast c]"
  | d where "0x80 \<le> c" "c < 0x800" "WRITE_UTF8 c = [0xC0 + ucast (d AND 0x1F), 0x80 + ucast (c AND 0x3F)]"
      "d = drop_bit 6 c" "c AND mask 11 = c"
  | d e where "0x80 \<le> c" "c < 0x10000"
      "WRITE_UTF8 c = [0xE0 + ucast (e AND 0x0F), 0x80 + ucast (d AND 0x3F), 0x80 + ucast (c AND 0x3F)]"
      "d = drop_bit 6 c" "e = drop_bit 12 c" "c AND mask 16 = c"
  | d e f where "0x80 \<le> c"
      "WRITE_UTF8 c = [0xF0 + ucast (f AND 0x07), 0x80 + ucast (e AND 0x3F), 0x80 + ucast (d AND 0x3F), 0x80 + ucast (c AND 0x3F)]"
      "d = drop_bit 6 c" "e = drop_bit 12 c" "f = drop_bit 18 c" "c AND mask 21 = c"
proof -
  consider "c < 0x80" | "0x80 \<le> c" "c < 0x800" | "0x800 \<le> c" "c < 0x10000" | "0x10000 \<le> c" by fastforce
  then show thesis
  proof cases
    case 1
    then have "c AND 0xFF = c" unfolding masks by (intro and_mask_small) (simp add: word_less_nat_alt)
    with 1 that(1) show thesis by (simp add: WRITE_UTF8_def)
  next
    case 2
    then have "c AND mask 11 = c" by (intro and_mask_small) (simp add: word_less_nat_alt)
    with 2 that(2) show thesis by (simp add: WRITE_UTF8_def)
  next
    case 3
    then have "0x80 \<le> c" by (simp add: word_le_nat_alt)
    moreover have "c AND mask 16 = c" using 3 by (intro and_mask_small) (simp add: word_less_nat_alt)
    ultimately show thesis using 3 that(3) by (simp add: WRITE_UTF8_def not_less [symmetric] del: not_less)
  next
    case 4
    then have "0x80 \<le> c" "\<not> c < 0x800" by (simp_all add: word_le_nat_alt word_less_nat_alt)
    moreover have "c AND mask 21 = c" using assms by (intro and_mask_small) (simp add: word_less_nat_alt)
    ultimately show thesis using 4 that(4) by (simp add: WRITE_UTF8_def not_less [symmetric] del: not_less)
  qed
qed

lemma glue:
  fixes c :: "32 word"
  shows "push_bit 6 (drop_bit 6 c AND mask j) + (c AND 0x3F) = c AND mask (j + 6)"
    "push_bit 6 (drop_bit 12 c AND mask j) + (drop_bit 6 c AND 0x3F) = drop_bit 6 c AND mask (j + 6)"
    "push_bit 6 (drop_bit 18 c AND mask j) + (drop_bit 12 c AND 0x3F) = drop_bit 12 c AND mask (j + 6)"
  using push_mask_add [of 0 c j] push_mask_add [of 6 c j] push_mask_add [of 12 c j] by simp_all

lemma read_tail_stops: "z \<noteq> [] \<Longrightarrow> stops z \<Longrightarrow> utf8_read_tail c z = Some (c, z)"
  "stops z \<Longrightarrow> utf8_tail c z = (c, z)"
  by (cases z; simp add: stops_def)+

lemma low_byte: "c < 0x80 \<Longrightarrow> \<not> (0xC0 :: byte) \<le> ucast (c :: 32 word)" "c < 0x80 \<Longrightarrow> ucast (ucast c :: byte) = (c :: 32 word)"
proof -
  assume c: "c < 0x80"
  then have u: "unat (ucast c :: byte) = unat c"
    by (simp add: unsigned_ucast_eq take_bit_nat_eq_self word_less_nat_alt)
  with c show "\<not> (0xC0 :: byte) \<le> ucast c" by (simp add: word_le_nat_alt word_less_nat_alt)
  have "unat (ucast (ucast c :: byte) :: 32 word) = unat (ucast c :: byte)"
    using u c by (simp only: unsigned_ucast_eq [where 'c = 32]) (simp add: take_bit_nat_eq_self word_less_nat_alt)
  with u show "ucast (ucast c :: byte) = c" by (simp only: word_unat_eq_iff)
qed

lemma read_pieces:
  fixes w :: "32 word"
  shows "utf8_tail v ((0x80 + ucast (w AND 0x3F)) # z) = utf8_tail (push_bit 6 v + (w AND 0x3F)) z"
    "utf8_read_tail v ((0x80 + ucast (w AND 0x3F)) # z) = utf8_read_tail (push_bit 6 v + (w AND 0x3F)) z"
    "READ_UTF8 ((0xC0 + ucast (w AND 0x1F)) # z) = (case utf8_tail (w AND 0x1F) z of (c, z) \<Rightarrow> (utf8_accept c, z))"
    "READ_UTF8 ((0xE0 + ucast (w AND 0x0F)) # z) = (case utf8_tail (w AND 0x0F) z of (c, z) \<Rightarrow> (utf8_accept c, z))"
    "READ_UTF8 ((0xF0 + ucast (w AND 0x07)) # z) = (case utf8_tail (w AND 0x07) z of (c, z) \<Rightarrow> (utf8_accept c, z))"
    "sqlite3Utf8Read ((0xC0 + ucast (w AND 0x1F)) # z) =
      (case utf8_read_tail (w AND 0x1F) z of None \<Rightarrow> None | Some (c, z) \<Rightarrow> Some (utf8_accept c, z))"
    "sqlite3Utf8Read ((0xE0 + ucast (w AND 0x0F)) # z) =
      (case utf8_read_tail (w AND 0x0F) z of None \<Rightarrow> None | Some (c, z) \<Rightarrow> Some (utf8_accept c, z))"
    "sqlite3Utf8Read ((0xF0 + ucast (w AND 0x07)) # z) =
      (case utf8_read_tail (w AND 0x07) z of None \<Rightarrow> None | Some (c, z) \<Rightarrow> Some (utf8_accept c, z))"
  by (simp_all only: utf8_tail.simps utf8_read_tail.simps READ_UTF8.simps sqlite3Utf8Read.simps cont_byte ucast_lead if_True refl)

lemma glue_all:
  fixes c :: "32 word"
  shows "push_bit 6 (drop_bit 6 c AND 0x1F) + (c AND 0x3F) = c AND mask 11"
    "push_bit 6 (push_bit 6 (drop_bit 12 c AND 0x0F) + (drop_bit 6 c AND 0x3F)) + (c AND 0x3F) = c AND mask 16"
    "push_bit 6 (push_bit 6 (push_bit 6 (drop_bit 18 c AND 0x07) + (drop_bit 12 c AND 0x3F)) + (drop_bit 6 c AND 0x3F)) +
       (c AND 0x3F) = c AND mask 21"
  unfolding masks(3-5) glue [unfolded masks(1)] masks(1) by (simp_all add: glue [unfolded masks(1)])

lemma utf8_read_write:
  assumes "c < 0x110000" "stops z"
  shows "READ_UTF8 (WRITE_UTF8 c @ z) = (utf8_self c, z)"
    "z \<noteq> [] \<Longrightarrow> sqlite3Utf8Read (WRITE_UTF8 c @ z) = Some (utf8_self c, z)"
proof -
  note t = read_tail_stops(1) [OF _ assms(2)] read_tail_stops(2) [OF assms(2)]
  have "READ_UTF8 (WRITE_UTF8 c @ z) = (utf8_self c, z) \<and> (z \<noteq> [] \<longrightarrow> sqlite3Utf8Read (WRITE_UTF8 c @ z) = Some (utf8_self c, z))"
    using assms(1)
  proof (cases c rule: write_cases)
    case 1
    then show ?thesis using low_byte self_low by simp
  next
    case (2 d)
    then show ?thesis
      unfolding 2(3,4) append.simps read_pieces glue_all 2(5) using accept_self [OF 2(1)] t by simp
  next
    case (3 d e)
    then show ?thesis
      unfolding 3(3-5) append.simps read_pieces glue_all 3(6) using accept_self [OF 3(1)] t by simp
  next
    case (4 d e f)
    then show ?thesis
      unfolding 4(2-5) append.simps read_pieces glue_all 4(6) using accept_self [OF 4(1)] t by simp
  qed
  then show "READ_UTF8 (WRITE_UTF8 c @ z) = (utf8_self c, z)"
    "z \<noteq> [] \<Longrightarrow> sqlite3Utf8Read (WRITE_UTF8 c @ z) = Some (utf8_self c, z)" by simp_all
qed

section \<open>UTF-16\<close>

lemma split_16:
  fixes c :: "32 word"
  assumes "0x10000 \<le> c" "c < 0x110000"
  obtains u m r where "unat c = 65536 * u + 1024 * m + r" "1 \<le> u" "u \<le> 16" "m < 64" "r < 1024"
    "c = of_nat (65536 * u + 1024 * m + r)" "c - 0x10000 = of_nat (65536 * (u - 1) + 1024 * m + r)"
proof
  let ?u = "unat c div 65536" and ?m = "unat c mod 65536 div 1024" and ?r = "unat c mod 1024"
  have l: "65536 \<le> unat c" "unat c < 0x110000" using assms by (simp_all add: word_le_nat_alt word_less_nat_alt)
  have "unat c mod 1024 = unat c mod 65536 mod 1024" by (simp add: mod_mod_cancel)
  then show n: "unat c = 65536 * ?u + 1024 * ?m + ?r"
    using div_mult_mod_eq [of "unat c" 65536] div_mult_mod_eq [of "unat c mod 65536" 1024] by linarith
  show u: "1 \<le> ?u" "?u \<le> 16" "?m < 64" "?r < 1024" using l by auto
  show c: "c = of_nat (65536 * ?u + 1024 * ?m + ?r)" unfolding n [symmetric] by simp
  have "65536 * (?u - 1) + 1024 * ?m + ?r = 65536 * ?u + 1024 * ?m + ?r - 65536" using u by (simp add: diff_mult_distrib2)
  also have "\<dots> = unat c - 65536" using n by simp
  finally have "(of_nat (65536 * (?u - 1) + 1024 * ?m + ?r) :: 32 word) = of_nat (unat c - 65536)" by simp
  also have "\<dots> = c - 0x10000" using l by simp
  finally show "c - 0x10000 = of_nat (65536 * (?u - 1) + 1024 * ?m + ?r)" by simp
qed

lemma unat_and_mask: "unat ((w :: 32 word) AND mask k) = unat w mod 2 ^ k"
  unfolding take_bit_eq_mask [symmetric] unsigned_take_bit_eq by (rule take_bit_eq_mod)

lemma unat_drop: "unat (drop_bit k w) = unat w div 2 ^ k"
  unfolding unat_drop_bit_eq by (rule drop_bit_eq_div)

lemma unat_and_high: "unat ((w :: 32 word) AND push_bit 6 (mask k)) = unat w div 64 mod 2 ^ k * 64" if "k \<le> 4"
proof -
  have "w AND push_bit 6 (mask k) = push_bit 6 (drop_bit 6 w AND mask k)"
    by (rule bit_word_eqI) (auto simp: bit_simps)
  moreover have "unat (drop_bit 6 w AND mask k) = unat w div 64 mod 2 ^ k"
    unfolding unat_and_mask unat_drop by simp
  moreover have "unat w div 64 mod 2 ^ k * 64 < 2 ^ 32"
  proof -
    have "unat w div 64 mod 2 ^ k < 2 ^ k" by simp
    also have "(2 :: nat) ^ k \<le> 2 ^ 4" using that by (intro power_increasing) simp_all
    finally show ?thesis by simp
  qed
  ultimately show ?thesis by (simp add: push_bit_eq_mult unat_word_ariths)
qed

lemma high_masks: "(0xC0 :: 32 word) = push_bit 6 (mask 2)" "(0x3C0 :: 32 word) = push_bit 6 (mask 4)"
  "(0x3FF :: 32 word) = mask 10" "(0x3 :: 32 word) = mask 2"
  by (simp_all add: mask_eq_exp_minus_1)

lemma unat_byte: "unat w < 256 \<Longrightarrow> unat (ucast (w :: 32 word) :: byte) = unat w"
  by (simp add: unsigned_ucast_eq take_bit_nat_eq_self)

lemma unat_word: "unat (ucast (b :: byte) :: 32 word) = unat b"
proof -
  have "unat b < 2 ^ 8" using unsigned_less [of b] by simp
  then have "unat b < 2 ^ 32" by (rule less_trans) simp
  then show ?thesis by (simp add: unsigned_ucast_eq take_bit_nat_eq_self)
qed

lemma unat_plus: "unat a + unat b < 2 ^ 32 \<Longrightarrow> unat (a + b :: 32 word) = unat a + unat b"
  by (simp add: unat_word_ariths)

lemma unat_push: "unat a * 2 ^ k < 2 ^ 32 \<Longrightarrow> unat (push_bit k a :: 32 word) = unat a * 2 ^ k"
  unfolding unsigned_push_bit_eq by (simp add: push_bit_eq_mult take_bit_nat_eq_self)

lemma unat_unit: "unat (ucast (a :: byte) + push_bit 8 (ucast (b :: byte)) :: 32 word) = unat a + 256 * unat b"
  "unat (push_bit 8 (ucast b) + ucast a :: 32 word) = unat a + 256 * unat b"
proof -
  have l: "unat a < 256" "unat b < 256" using unsigned_less [of a] unsigned_less [of b] by simp_all
  have p: "unat (push_bit 8 (ucast b) :: 32 word) = 256 * unat b" using l by (subst unat_push) (simp_all add: unat_word)
  show "unat (ucast a + push_bit 8 (ucast b) :: 32 word) = unat a + 256 * unat b"
    "unat (push_bit 8 (ucast b) + ucast a :: 32 word) = unat a + 256 * unat b"
    using l p by (subst unat_plus; simp add: unat_word)+
qed

lemma surrogates:
  fixes c :: "32 word"
  assumes "0x10000 \<le> c" "c < 0x110000"
  defines "b0 \<equiv> ucast ((drop_bit 10 c AND 0x3F) + (drop_bit 10 (c - 0x10000) AND 0xC0)) :: byte"
    and "b1 \<equiv> ucast (0xD8 + (drop_bit 18 (c - 0x10000) AND 0x03)) :: byte"
    and "d0 \<equiv> ucast (c AND 0xFF) :: byte" and "d1 \<equiv> ucast (0xDC + (drop_bit 8 c AND 0x03)) :: byte"
  shows "0xD800 \<le> unat b0 + 256 * unat b1" "unat b0 + 256 * unat b1 < 0xDC00"
    "x = of_nat (unat b0 + 256 * unat b1) \<Longrightarrow> y = of_nat (unat d0 + 256 * unat d1) \<Longrightarrow> utf16_pair x y = c"
    "unat b0 + 256 * unat b1 = 0xD800 + (unat c - 0x10000) div 0x400"
    "unat d0 + 256 * unat d1 = 0xDC00 + (unat c - 0x10000) mod 0x400"
proof -
  obtain u m r where n: "unat c = 65536 * u + 1024 * m + r" and l: "1 \<le> u" "u \<le> 16" "m < 64" "r < 1024"
    and c: "c = of_nat (65536 * u + 1024 * m + r)" and c': "c - 0x10000 = of_nat (65536 * (u - 1) + 1024 * m + r)"
    using split_16 [OF assms(1,2)] by metis
  have n': "unat (c - 0x10000) = 65536 * (u - 1) + 1024 * m + r"
  proof -
    have "65536 * (u - 1) + 1024 * m + r < 2 ^ 32" using l by simp
    then show ?thesis unfolding c' unat_of_nat by simp
  qed
  have dv: "(65536 * u + 1024 * m + r) div 1024 = u * 64 + m"
    by (rule div_nat_eqI) (use l in simp_all)
  have dv1: "(65536 * (u - 1) + 1024 * m + r) div 1024 = (u - 1) * 64 + m" "((u - 1) * 64 + m) div 64 = u - 1"
    "(65536 * (u - 1) + 1024 * m + r) div 65536 = u - 1" "(65536 * u + 1024 * m + r) div 256 = 4 * (64 * u + m) + r div 256"
    "(65536 * u + 1024 * m + r) mod 256 = r mod 256"
  proof -
    show "(65536 * (u - 1) + 1024 * m + r) div 1024 = (u - 1) * 64 + m" "((u - 1) * 64 + m) div 64 = u - 1"
      "(65536 * (u - 1) + 1024 * m + r) div 65536 = u - 1"
      by (rule div_nat_eqI; use l in simp)+
    have e: "65536 * u + 1024 * m + r = r + (4 * (64 * u + m)) * 256" by simp
    show "(65536 * u + 1024 * m + r) div 256 = 4 * (64 * u + m) + r div 256" "(65536 * u + 1024 * m + r) mod 256 = r mod 256"
      unfolding e by (subst div_mult_self1, simp, simp) (rule mod_mult_self1)
  qed
  have dv2: "(65536 * (u - 1) + 1024 * m + r) div 2 ^ 18 = (u - 1) div 4"
    using div_mult2_eq [of "65536 * (u - 1) + 1024 * m + r" 65536 4] by (simp add: dv1(3) del: One_nat_def)
  have dv3: "(65536 * u + 1024 * m + r) div 256 mod 4 = r div 256"
    unfolding dv1(4) mod_mult_self4 using l(4) by simp
  have f: "unat (drop_bit 10 c AND 0x3F) = m"
    unfolding masks unat_and_mask unat_drop n using l dv by simp
  have g: "unat (drop_bit 10 (c - 0x10000) AND 0xC0) = (u - 1) mod 4 * 64"
    unfolding high_masks by (subst unat_and_high) (use l in \<open>simp_all add: unat_drop n' dv1 del: One_nat_def\<close>)
  have h: "unat (drop_bit 18 (c - 0x10000) AND 0x03) = (u - 1) div 4"
    unfolding high_masks unat_and_mask unat_drop n' dv2 using l by simp
  have q: "unat (c AND 0xFF) = r mod 256" "unat (drop_bit 8 c AND 0x03) = r div 256"
    unfolding masks high_masks unat_and_mask unat_drop n using l dv1(5) dv3 by simp_all
  have m4: "(u - 1) mod 4 < 4" "(u - 1) div 4 < 4" using l by auto
  have b0: "unat b0 = m + (u - 1) mod 4 * 64"
    unfolding b0_def using f g l m4 by (simp add: unat_byte unat_plus)
  have b1: "unat b1 = 0xD8 + (u - 1) div 4"
    unfolding b1_def using h m4 by (simp add: unat_byte unat_plus)
  have d: "unat d0 = r mod 256" "unat d1 = 0xDC + r div 256"
    unfolding d0_def d1_def using q l by (simp_all add: unat_byte unat_plus)
  have hi: "unat b0 + 256 * unat b1 = 0xD800 + 64 * (u - 1) + m"
  proof -
    have "m + b * 64 + 256 * (0xD8 + a) = 0xD800 + 64 * w + m" if "a * 4 + b = w" for a b w :: nat unfolding that [symmetric] by simp
    from this [OF div_mult_mod_eq] show ?thesis unfolding b0 b1 .
  qed
  then show "0xD800 \<le> unat b0 + 256 * unat b1" "unat b0 + 256 * unat b1 < 0xDC00" using l by simp_all
  have lo: "unat d0 + 256 * unat d1 = 0xDC00 + r" 
  proof -
    have "b + 256 * (0xDC + a) = 0xDC00 + w" if "a * 256 + b = w" for a b w :: nat unfolding that [symmetric] by simp
    from this [OF div_mult_mod_eq] show ?thesis unfolding d .
  qed
  have sub: "unat c - 0x10000 = 65536 * (u - 1) + 1024 * m + r" unfolding n using l(1) by simp
  show "unat b0 + 256 * unat b1 = 0xD800 + (unat c - 0x10000) div 0x400" unfolding hi sub using dv1(1) by simp
  have "(65536 * (u - 1) + 1024 * m + r) mod 1024 = r"
    using mod_mult_self4 [of 1024 "64 * (u - 1) + m" r] l(4) by (simp add: algebra_simps)
  then show "unat d0 + 256 * unat d1 = 0xDC00 + (unat c - 0x10000) mod 0x400" unfolding lo sub by simp
  show "utf16_pair x y = c" if "x = of_nat (unat b0 + 256 * unat b1)" "y = of_nat (unat d0 + 256 * unat d1)"
  proof -
    have x: "unat x = 0xD800 + 64 * (u - 1) + m" unfolding that hi unat_of_nat using l by simp
    have y: "unat y = 0xDC00 + r" unfolding that lo unat_of_nat using l by simp
    have e: "(0xDC00 + r) mod 1024 = r" "(0xD800 + 64 * (u - 1) + m) mod 64 = m"
      "(0xD800 + 64 * (u - 1) + m) div 64 = 864 + (u - 1)" "(864 + (u - 1)) mod 16 = u - 1"
    proof -
      have w: "0xD800 + 64 * w + m = 64 * (864 + w) + m" for w by simp
      show "(0xDC00 + r) mod 1024 = r" using mod_mult_self4 [of 1024 55 r] l by simp
      show "(0xD800 + 64 * (u - 1) + m) mod 64 = m" unfolding w mod_mult_self4 using l by simp
      show "(0xD800 + 64 * (u - 1) + m) div 64 = 864 + (u - 1)" unfolding w by (rule div_nat_eqI) (use l in simp_all)
      show "(864 + (u - 1)) mod 16 = u - 1" proof -
        have "(16 * 54 + w) mod 16 = w" if "w < 16" for w :: nat unfolding mod_mult_self4 using that by simp
        moreover have "(864 :: nat) = 16 * 54" "u - 1 < 16" using l by simp_all
        ultimately show ?thesis by (simp only:)
      qed
    qed
    have y1: "unat (y AND 0x3FF) = r" unfolding high_masks unat_and_mask y using e by simp
    have x1: "unat (x AND 0x3F) = m" unfolding masks unat_and_mask x using e by simp
    have s: "(2 :: nat) ^ 4 = 16" by simp
    have "unat x div 64 mod 2 ^ 4 = u - 1" unfolding x e(3) s by (rule e(4))
    then have x2: "unat (x AND 0x3C0) = (u - 1) * 64" unfolding high_masks by (subst unat_and_high) simp_all
    have "unat ((x AND 0x3C0) + 0x40) = u * 64" using l x2 by (subst unat_plus) simp_all
    then have p: "unat (push_bit 10 ((x AND 0x3C0) + 0x40)) = u * 65536" using l by (subst unat_push) simp_all
    have p1: "unat (push_bit 10 (x AND 0x3F)) = 1024 * m" using l x1 by (subst unat_push) simp_all
    have "unat (utf16_pair x y) = unat c"
      unfolding utf16_pair_def n using l p p1 y1 by (subst unat_plus; simp add: unat_plus)+
    then show ?thesis by (simp add: word_unat_eq_iff)
  qed
qed

section \<open>Texts\<close>

definition utf_char :: "32 word \<Rightarrow> bool" where
  "utf_char c \<longleftrightarrow> c < 0x110000 \<and> utf8_self c = c"

definition utf8_text :: "32 word list \<Rightarrow> byte list" where
  "utf8_text cs = concat (map WRITE_UTF8 cs)"

definition utf16_text :: "utf_encoding \<Rightarrow> 32 word list \<Rightarrow> byte list" where
  "utf16_text enc cs = concat (map (if enc = SQLITE_UTF16LE then WRITE_UTF16LE else WRITE_UTF16BE) cs)"

lemma write_not_Nil: "WRITE_UTF8 c \<noteq> []"
  by (simp add: WRITE_UTF8_def)

lemma lead_not_cont: "(0xC0 :: byte) \<le> b \<Longrightarrow> b AND 0xc0 \<noteq> 0x80"
proof
  assume b: "0xC0 \<le> b" "b AND 0xc0 = 0x80"
  have "bit (b AND 0xc0) 7" "\<not> bit (b AND 0xc0) 6" unfolding b(2) by simp_all
  then have n: "bit b 7" "\<not> bit b 6" by (simp_all add: bit_and_iff)
  have l: "unat b < 256" using unsigned_less [of b] by simp
  have "\<not> bit (unat b) 6" using n(2) by (simp add: bit_unsigned_iff)
  then have "even (unat b div 64)" by (simp add: bit_iff_odd)
  moreover have "unat b div 64 = 3" using b(1) l by (simp add: word_le_nat_alt)
  ultimately show False by simp
qed

lemma low_not_cont: "b < (0x80 :: byte) \<Longrightarrow> b AND 0xc0 \<noteq> 0x80"
proof
  assume b: "b < 0x80" "b AND 0xc0 = 0x80"
  have "bit (b AND 0xc0) 7" unfolding b(2) by simp
  then have "bit b 7" by (simp add: bit_and_iff)
  then have "bit (unat b) 7" by (simp add: bit_unsigned_iff)
  then have "odd (unat b div 128)" by (simp add: bit_iff_odd)
  moreover have "unat b div 128 = 0" using b(1) by (simp add: word_less_nat_alt)
  ultimately show False by simp
qed

lemma write_stops:
  assumes "c < 0x110000"
  shows "stops (WRITE_UTF8 c @ z)"
  using assms
proof (cases c rule: write_cases)
  case 1
  then have "unat c < 128" by (simp add: word_less_nat_alt)
  then have "unat (ucast c :: byte) < 128" by (subst unat_byte) simp_all
  then have "(ucast c :: byte) < 0x80" by (simp add: word_less_nat_alt)
  then show ?thesis unfolding stops_def 1(2) using low_not_cont by simp
qed (use lead_not_cont ucast_lead in \<open>auto simp: stops_def\<close>)

lemma text_stops: "\<forall>c\<in>set cs. utf_char c \<Longrightarrow> stops (utf8_text cs)"
proof (cases cs)
  case (Cons c cs')
  assume "\<forall>c\<in>set cs. utf_char c"
  with Cons write_stops [of c "utf8_text cs'"] show ?thesis by (simp add: utf8_text_def utf_char_def)
qed (simp add: utf8_text_def stops_def)

lemma utf8_to_16_text: "\<forall>c\<in>set cs. utf_char c \<Longrightarrow> utf8_to_16_loop f (utf8_text cs) = concat (map f cs)"
proof (induction cs)
  case Nil
  then show ?case by (subst utf8_to_16_loop.simps) (simp add: utf8_text_def)
next
  case (Cons c cs)
  then have "READ_UTF8 (WRITE_UTF8 c @ utf8_text cs) = (c, utf8_text cs)"
    using utf8_read_write(1) [of c "utf8_text cs"] text_stops [of cs] by (simp add: utf_char_def)
  with Cons write_not_Nil [of c] show ?case
    by (subst utf8_to_16_loop.simps) (simp add: utf8_text_def)
qed

lemma unit_value:
  fixes a b :: byte
  shows "ucast a + push_bit 8 (ucast b) = (of_nat (unat a + 256 * unat b) :: 32 word)"
    "push_bit 8 (ucast b) + ucast a = (of_nat (unat a + 256 * unat b) :: 32 word)"
  using unat_unit [of a b] by (simp_all only: flip: unat_unit) simp_all

lemma low_char:
  assumes "utf_char c" "c \<le> 0xFFFF"
  shows "of_nat (unat (ucast (c AND 0xFF) :: byte) + 256 * unat (ucast (drop_bit 8 c AND 0xFF) :: byte)) = c"
    "\<not> (0xD800 \<le> c \<and> c < 0xE000)"
proof -
  have l: "unat c \<le> 0xFFFF" using assms(2) by (simp add: word_le_nat_alt)
  have n: "unat (c AND 0xFF) = unat c mod 256" "unat (drop_bit 8 c AND 0xFF) = unat c div 256"
    unfolding masks unat_and_mask unat_drop using l by simp_all
  then have "unat (ucast (c AND 0xFF) :: byte) = unat c mod 256" "unat (ucast (drop_bit 8 c AND 0xFF) :: byte) = unat c div 256"
    using unat_byte [of "c AND 0xFF"] unat_byte [of "drop_bit 8 c AND 0xFF"] l by simp_all
  moreover have "unat c mod 256 + 256 * (unat c div 256) = unat c" by simp
  ultimately show "of_nat (unat (ucast (c AND 0xFF) :: byte) + 256 * unat (ucast (drop_bit 8 c AND 0xFF) :: byte)) = c"
    by simp
  show "\<not> (0xD800 \<le> c \<and> c < 0xE000)"
  proof
    assume a: "0xD800 \<le> c \<and> c < 0xE000"
    then have "utf8_self c = 0xFFFD" by (simp add: utf8_self_def word_le_nat_alt word_less_nat_alt)
    with assms(1) a show False by (simp add: utf_char_def)
  qed
qed

definition code_unit :: "byte \<Rightarrow> byte \<Rightarrow> 32 word" where
  "code_unit a b = ucast a + push_bit 8 (ucast b)"

lemma code_unit_simps:
  "ucast a + push_bit 8 (ucast b) = code_unit a b" "push_bit 8 (ucast b) + ucast a = code_unit a b"
  by (simp_all add: code_unit_def add.commute)

lemma utf16_units:
  assumes "utf_char c"
  obtains (one) a b where "WRITE_UTF16LE c = [a, b]" "WRITE_UTF16BE c = [b, a]" "code_unit a b = c" "\<not> (0xD800 \<le> c \<and> c < 0xE000)"
  | (two) a b d e where "WRITE_UTF16LE c = [a, b, d, e]" "WRITE_UTF16BE c = [b, a, e, d]"
      "0xD800 \<le> code_unit a b" "code_unit a b < 0xE000" "utf16_pair (code_unit a b) (code_unit d e) = c"
proof (cases "c \<le> 0xFFFF")
  case True
  let ?a = "ucast (c AND 0xFF) :: byte" and ?b = "ucast (drop_bit 8 c AND 0xFF) :: byte"
  have "code_unit ?a ?b = c" using low_char(1) [OF assms True] by (simp only: code_unit_def unit_value)
  with True low_char(2) [OF assms True] one [of ?a ?b] show thesis by (simp add: WRITE_UTF16LE_def WRITE_UTF16BE_def)
next
  case False
  let ?a = "ucast ((drop_bit 10 c AND 0x3F) + (drop_bit 10 (c - 0x10000) AND 0xC0)) :: byte"
    and ?b = "ucast (0xD8 + (drop_bit 18 (c - 0x10000) AND 0x03)) :: byte"
    and ?d = "ucast (c AND 0xFF) :: byte" and ?e = "ucast (0xDC + (drop_bit 8 c AND 0x03)) :: byte"
  have h: "0x10000 \<le> c" "c < 0x110000" using assms False by (simp_all add: utf_char_def word_le_nat_alt)
  note s = surrogates [OF h]
  have "0xD800 \<le> code_unit ?a ?b" "code_unit ?a ?b < 0xE000"
    using s(1,2) by (simp_all only: word_le_nat_alt word_less_nat_alt code_unit_def unat_unit) simp_all
  moreover have "utf16_pair (code_unit ?a ?b) (code_unit ?d ?e) = c"
    unfolding code_unit_def unit_value by (rule s(3) [OF refl refl])
  moreover have "WRITE_UTF16LE c = [?a, ?b, ?d, ?e]" "WRITE_UTF16BE c = [?b, ?a, ?e, ?d]"
    using False by (simp_all only: WRITE_UTF16LE_def WRITE_UTF16BE_def if_False)
  ultimately show thesis using two [of ?a ?b ?d ?e] by blast
qed

lemma utf16_to_8_text:
  assumes "\<forall>c\<in>set cs. utf_char c"
  shows "utf16le_to_8_loop (concat (map WRITE_UTF16LE cs)) = utf8_text cs"
    "utf16be_to_8_loop (concat (map WRITE_UTF16BE cs)) = utf8_text cs"
proof -
  have "utf16le_to_8_loop (concat (map WRITE_UTF16LE cs)) = utf8_text cs \<and> utf16be_to_8_loop (concat (map WRITE_UTF16BE cs)) = utf8_text cs"
    using assms
  proof (induction cs)
    case (Cons c cs)
    then have "utf_char c" by simp
    then show ?case
      by (cases c rule: utf16_units) (use Cons in \<open>auto simp: code_unit_simps utf8_text_def Let_def\<close>)
  qed (simp add: utf8_text_def)
  then show "utf16le_to_8_loop (concat (map WRITE_UTF16LE cs)) = utf8_text cs"
    "utf16be_to_8_loop (concat (map WRITE_UTF16BE cs)) = utf8_text cs" by simp_all
qed

lemma swap_text:
  "swap_loop (concat (map WRITE_UTF16LE cs)) = concat (map WRITE_UTF16BE cs)"
  "swap_loop (concat (map WRITE_UTF16BE cs)) = concat (map WRITE_UTF16LE cs)"
  by (induction cs) (simp_all add: WRITE_UTF16LE_def WRITE_UTF16BE_def)

lemma even_text: "even (length (concat (map WRITE_UTF16LE cs)))" "even (length (concat (map WRITE_UTF16BE cs)))"
  by (induction cs) (simp_all add: WRITE_UTF16LE_def WRITE_UTF16BE_def)

section \<open>Sizes\<close>

lemma write_8_length: "length (WRITE_UTF8 c) \<le> 4" "0 < length (WRITE_UTF8 c)"
  by (simp_all add: WRITE_UTF8_def)

lemma write_16_length:
  "length (WRITE_UTF16LE c) = (if c \<le> 0xFFFF then 2 else 4)" "length (WRITE_UTF16BE c) = (if c \<le> 0xFFFF then 2 else 4)"
  by (simp_all add: WRITE_UTF16LE_def WRITE_UTF16BE_def)

lemma trans_small: "k < 64 \<Longrightarrow> sqlite3Utf8Trans1 ! k < 32"
proof -
  have "\<forall>k \<in> set [0 ..< 64]. sqlite3Utf8Trans1 ! k < 32" by code_simp
  then show "k < 64 \<Longrightarrow> sqlite3Utf8Trans1 ! k < 32" by simp
qed

lemma accept_small: "c < 0x80 \<Longrightarrow> utf8_accept c = 0xFFFD"
  by (simp add: utf8_accept_def)

lemma tail_same_length: "length (snd (utf8_tail c z)) = length z \<Longrightarrow> utf8_tail c z = (c, z)"
proof (cases z)
  case (Cons b z')
  assume "length (snd (utf8_tail c z)) = length z"
  with Cons utf8_tail_length [of "push_bit 6 c + (0x3f AND ucast b)" z'] show ?thesis by (auto split: if_splits)
qed simp

lemma read_room:
  assumes "z \<noteq> []" "READ_UTF8 z = (c, z')"
  shows "c \<le> 0xFFFF \<or> Suc (Suc (length z')) \<le> length z"
proof -
  obtain b y where z: "z = b # y" using assms(1) by (cases z) auto
  have bl: "unat b < 256" using unsigned_less [of b] by simp
  show ?thesis
  proof (cases "b \<ge> 0xc0")
    case False
    then have "c = ucast b" using assms(2) z by simp
    then have "unat c < 256" using bl by (simp add: unat_word)
    then show ?thesis by (simp add: word_le_nat_alt)
  next
    case True
    let ?t = "of_nat (sqlite3Utf8Trans1 ! unat (b - 0xc0)) :: 32 word"
    have "unat (b - 0xc0) < 64" using True bl by (subst unat_sub) simp_all
    then have "sqlite3Utf8Trans1 ! unat (b - 0xc0) < 32" by (rule trans_small)
    then have t: "?t < 0x80" by (simp only: word_less_nat_alt unat_of_nat) simp
    from True assms(2) z have r: "c = utf8_accept (fst (utf8_tail ?t y))" "z' = snd (utf8_tail ?t y)"
      by (auto split: prod.splits)
    show ?thesis
    proof (cases "length z' = length y")
      case True
      with r(2) tail_same_length have "utf8_tail ?t y = (?t, y)" by simp
      with r(1) accept_small [OF t] have "c = 0xFFFD" by simp
      then show ?thesis by simp
    next
      case False
      then show ?thesis using r(2) utf8_tail_length [of ?t y] z by simp
    qed
  qed
qed

lemma utf8_to_16_room:
  assumes "\<And>c. length (f c) = (if c \<le> 0xFFFF then 2 else 4)"
  shows "length (utf8_to_16_loop f z) \<le> 2 * length z"
proof (induction z rule: length_induct)
  case (1 z)
  show ?case
  proof (cases "z = []")
    case False
    obtain c z' where r: "READ_UTF8 z = (c, z')" by (cases "READ_UTF8 z")
    have l: "length z' < length z" using READ_UTF8_length [OF False] r by simp
    then have "length (utf8_to_16_loop f z') \<le> 2 * length z'" using 1 by blast
    moreover have "utf8_to_16_loop f z = f c @ utf8_to_16_loop f z'" using False r by (subst utf8_to_16_loop.simps) simp
    ultimately show ?thesis using assms [of c] read_room [OF False r] l by (auto split: if_splits)
  qed (subst utf8_to_16_loop.simps, simp)
qed

lemma be_swap: "utf16be_to_8_loop z = utf16le_to_8_loop (swap_loop z)"
proof (induction z rule: length_induct)
  case (1 z)
  show ?case
  proof (cases z rule: utf16le_to_8_loop.cases)
    case (1 b0 b1 y)
    have e: "utf16be_to_8_loop y = utf16le_to_8_loop (swap_loop y)"
      using "1.IH" 1 by simp
    show ?thesis
    proof (cases y rule: utf16le_to_8_loop.cases)
      case (1 d0 d1 x)
      then have "utf16be_to_8_loop x = utf16le_to_8_loop (swap_loop x)" using "1.IH" \<open>z = b0 # b1 # y\<close> by simp
      with e 1 \<open>z = b0 # b1 # y\<close> show ?thesis by (simp add: code_unit_simps Let_def)
    qed (use e \<open>z = b0 # b1 # y\<close> in \<open>simp_all add: code_unit_simps Let_def\<close>)
  qed simp_all
qed

lemma swap_length: "length (swap_loop z) = length z"
  by (induction z rule: swap_loop.induct) simp_all

lemma le_room: "length (utf16le_to_8_loop z) \<le> 2 * length z"
proof (induction z rule: length_induct)
  case (1 z)
  have w: "length (WRITE_UTF8 x @ r) \<le> 2 * length (p # q # y)" if "length r \<le> 2 * length y" for x r p q and y :: "byte list"
    using that write_8_length(1) [of x] by simp
  show ?case
  proof (cases z rule: utf16le_to_8_loop.cases)
    case (1 b0 b1 y)
    have e: "length (utf16le_to_8_loop y) \<le> 2 * length y" using "1.IH" 1 by simp
    show ?thesis
    proof (cases y rule: utf16le_to_8_loop.cases)
      case (1 d0 d1 x)
      then have "length (utf16le_to_8_loop x) \<le> 2 * length x" using "1.IH" \<open>z = b0 # b1 # y\<close> by simp
      with w [OF this] w [OF e] 1 \<open>z = b0 # b1 # y\<close> show ?thesis
        by (simp add: code_unit_simps Let_def le_SucI del: length_append)
    qed (use w [OF e] w [of "[]"] \<open>z = b0 # b1 # y\<close> in \<open>simp_all add: code_unit_simps Let_def\<close>)
  qed simp_all
qed

section \<open>Counting\<close>

lemma skip_read_tail: "skip_tail z = map_option snd (utf8_read_tail c z)"
  by (induction c z rule: utf8_read_tail.induct) auto

lemma skip_read: "SQLITE_SKIP_UTF8 z = map_option snd (sqlite3Utf8Read z)"
proof (cases z)
  case (Cons b y)
  then show ?thesis
    using skip_read_tail [of y "word_of_nat (sqlite3Utf8Trans1 ! unat (b - 0xc0))"] by (auto split: option.splits)
qed simp

lemma lead_not_zero: "(0xC0 :: byte) \<le> b \<Longrightarrow> b \<noteq> 0"
  by auto

lemma write_hd:
  assumes "c < 0x110000" "c \<noteq> 0"
  shows "hd (WRITE_UTF8 c @ z) \<noteq> 0"
  using assms(1)
proof (cases c rule: write_cases)
  case 1
  then have "unat c < 128" by (simp add: word_less_nat_alt)
  then have "unat (ucast c :: byte) = unat c" by (subst unat_byte) simp_all
  with assms(2) show ?thesis unfolding 1(2) by (auto simp: unat_eq_0 simp flip: unat_eq_0)
next
  case (2 d)
  show ?thesis unfolding 2(3) append_Cons list.sel by (rule lead_not_zero [OF ucast_lead(1)])
next
  case (3 d e)
  show ?thesis unfolding 3(3) append_Cons list.sel by (rule lead_not_zero [OF ucast_lead(3)])
next
  case (4 d e f)
  show ?thesis unfolding 4(2) append_Cons list.sel by (rule lead_not_zero [OF ucast_lead(5)])
qed

lemma len_loop_text:
  assumes "\<forall>c\<in>set cs. utf_char c \<and> c \<noteq> 0"
  shows "utf8_len_loop (utf8_text cs @ [0]) n False r = Some (r + length cs)"
  using assms
proof (induction cs arbitrary: n r)
  case Nil
  then show ?case by (subst utf8_len_loop.simps) (simp add: utf8_text_def)
next
  case (Cons c cs)
  then have c: "c < 0x110000" "utf8_self c = c" "c \<noteq> 0" by (simp_all add: utf_char_def)
  have st: "stops (utf8_text cs @ [0])"
    using text_stops [of cs] Cons.prems by (cases "utf8_text cs") (auto simp: stops_def)
  let ?z = "WRITE_UTF8 c @ utf8_text cs @ [0]"
  have e: "utf8_text (c # cs) @ [0] = ?z" by (simp add: utf8_text_def)
  obtain b z where z: "?z = b # z" using write_not_Nil [of c] by (cases "WRITE_UTF8 c") auto
  then have b: "b \<noteq> 0" using write_hd [OF c(1,3), of "utf8_text cs @ [0]"] by simp
  have "SQLITE_SKIP_UTF8 ?z = Some (utf8_text cs @ [0])"
    using utf8_read_write(2) [OF c(1) st] by (simp add: skip_read)
  then show ?case
    unfolding e using Cons b z by (subst utf8_len_loop.simps) simp
qed

section \<open>Properties\<close>

text \<open>
  The self test of \<^verbatim>\<open>utf.c\<close> holds for every character, not only those below the first that fails. A character
  written in UTF-8 takes one to four bytes, and reading gives it back and stops behind it; surrogates and
  the characters \<open>0xFFFE\<close> and \<open>0xFFFF\<close> read as \<open>0xFFFD\<close>.
\<close>

theorem utf8_char_round_trip:
  assumes "c < 0x110000" and "z \<noteq> []" and "hd z AND 0xc0 \<noteq> 0x80"
  shows "sqlite3Utf8Read (WRITE_UTF8 c @ z) = Some (utf8_self c, z) \<and> READ_UTF8 (WRITE_UTF8 c @ z) = (utf8_self c, z) \<and>
    SQLITE_SKIP_UTF8 (WRITE_UTF8 c @ z) = Some z \<and> length (WRITE_UTF8 c) \<in> {1..4}"
proof -
  have "stops z" using assms(3) by (simp add: stops_def)
  from utf8_read_write [OF assms(1) this] assms(2) have
    "sqlite3Utf8Read (WRITE_UTF8 c @ z) = Some (utf8_self c, z)" "READ_UTF8 (WRITE_UTF8 c @ z) = (utf8_self c, z)" by blast+
  with write_8_length [of c] show ?thesis by (simp add: skip_read Suc_leI)
qed

theorem utf8_char_round_trip_witness:
  "sqlite3Utf8Read [0xE2, 0x82, 0xAC, 0] = Some (0x20AC, [0])"
proof -
  have "WRITE_UTF8 0x20AC = [0xE2, 0x82, 0xAC]" "utf8_self 0x20AC = 0x20AC" by code_simp+
  with utf8_char_round_trip [of "0x20AC" "[0]"] show ?thesis by simp
qed

text \<open>
  The encodings as the Unicode standard gives them, by arithmetic on the number of a character: bytes of six bits behind a lead byte that
  tells their number, and code units of 16 bits, with a pair of surrogates for the characters behind \<open>0xFFFF\<close>.
\<close>

definition utf8_encoding :: "nat \<Rightarrow> byte list" where
  "utf8_encoding n = map of_nat
     (if n < 0x80 then [n]
      else if n < 0x800 then [0xC0 + n div 64, 0x80 + n mod 64]
      else if n < 0x10000 then [0xE0 + n div 4096, 0x80 + n div 64 mod 64, 0x80 + n mod 64]
      else [0xF0 + n div 262144, 0x80 + n div 4096 mod 64, 0x80 + n div 64 mod 64, 0x80 + n mod 64])"

definition utf16_code_units :: "nat \<Rightarrow> nat list" where
  "utf16_code_units n =
     (if n < 0x10000 then [n] else [0xD800 + (n - 0x10000) div 0x400, 0xDC00 + (n - 0x10000) mod 0x400])"

definition unit_bytes :: "utf_encoding \<Rightarrow> nat \<Rightarrow> byte list" where
  "unit_bytes enc u = (if enc = SQLITE_UTF16LE then [of_nat (u mod 256), of_nat (u div 256)] else [of_nat (u div 256), of_nat (u mod 256)])"

definition unicode_text :: "utf_encoding \<Rightarrow> nat list \<Rightarrow> byte list" where
  "unicode_text enc ns =
     (if enc = SQLITE_UTF8 then concat (map utf8_encoding ns) else concat (map (\<lambda>n. concat (map (unit_bytes enc) (utf16_code_units n))) ns))"

text \<open>The characters without the surrogates and the two that SQLite does not read.\<close>

definition unicode_char :: "nat \<Rightarrow> bool" where
  "unicode_char n \<longleftrightarrow> n < 0x110000 \<and> \<not> (0xD800 \<le> n \<and> n \<le> 0xDFFF) \<and> n \<noteq> 0xFFFE \<and> n \<noteq> 0xFFFF"

lemma byte_unat: "(b :: byte) = of_nat (unat b)"
  by simp

lemma byte_of_unat: "unat (b :: byte) = k \<Longrightarrow> b = of_nat k"
  by auto

lemma write_8_encoding:
  assumes "c < 0x110000"
  shows "WRITE_UTF8 c = utf8_encoding (unat c)"
proof -
  have n: "unat c < 0x110000" using assms by (simp add: word_less_nat_alt)
  have less: "c < 0x80 \<longleftrightarrow> unat c < 0x80" "c < 0x800 \<longleftrightarrow> unat c < 0x800" "c < 0x10000 \<longleftrightarrow> unat c < 0x10000"
    by (simp_all add: word_less_nat_alt)
  have mods: "(0x0F :: 32 word) = mask 4" "(0x07 :: 32 word) = mask 3" by (simp_all add: mask_eq_exp_minus_1)
  have part: "a + ucast (drop_bit k c AND mask j) = (of_nat (unat a + unat c div 2 ^ k mod 2 ^ j) :: byte)" if "j \<le> 8" for a :: byte and j k
  proof -
    have "unat (drop_bit k c AND mask j) < 256"
      unfolding unat_and_mask using that power_increasing [of j 8 "2 :: nat"] by (intro less_le_trans [OF mod_less_divisor]) simp_all
    then have "(ucast (drop_bit k c AND mask j) :: byte) = of_nat (unat (drop_bit k c AND mask j))" by (simp flip: unat_byte)
    then show ?thesis unfolding unat_and_mask unat_drop by simp
  qed
  note p = part [of 8 0 0] part [of 5 "0xC0" 6] part [of 6 "0x80" 0] part [of 4 "0xE0" 12] part [of 6 "0x80" 6]
    part [of 3 "0xF0" 18] part [of 6 "0x80" 12]
  show ?thesis using p n
    by (simp add: WRITE_UTF8_def utf8_encoding_def less masks mods)
qed


lemma pair_bytes:
  assumes "unat (a :: byte) + 256 * unat (b :: byte) = k"
  shows "a = of_nat (k mod 256)" "b = of_nat (k div 256)"
proof -
  have "unat a < 256" using unsigned_less [of a] by simp
  then have "k mod 256 = unat a" "k div 256 = unat b" by (simp_all flip: assms)
  then show "a = of_nat (k mod 256)" "b = of_nat (k div 256)" by simp_all
qed

lemma write_16_encoding:
  assumes "c < 0x110000" and "enc = SQLITE_UTF16LE \<and> f = WRITE_UTF16LE \<or> enc = SQLITE_UTF16BE \<and> f = WRITE_UTF16BE"
  shows "f c = concat (map (unit_bytes enc) (utf16_code_units (unat c)))"
proof (cases "c \<le> 0xFFFF")
  case True
  then have n: "unat c < 0x10000" by (simp add: word_le_nat_alt)
  have "unat c div 256 < 256" using n by (simp add: div_less_iff_less_mult)
  then have q: "unat (c AND 0xFF) = unat c mod 256" "unat (drop_bit 8 c AND 0xFF) = unat c div 256"
    unfolding masks unat_and_mask unat_drop by simp_all
  have "ucast (c AND 0xFF) = (of_nat (unat c mod 256) :: byte)" "ucast (drop_bit 8 c AND 0xFF) = (of_nat (unat c div 256) :: byte)"
    using q \<open>unat c div 256 < 256\<close> by (auto intro!: byte_of_unat simp: unat_byte)
  then show ?thesis using assms(2) True n by (auto simp: WRITE_UTF16LE_def WRITE_UTF16BE_def unit_bytes_def utf16_code_units_def)
next
  case False
  then have c: "0x10000 \<le> c" by (simp add: word_le_nat_alt)
  then have n: "\<not> unat c < 0x10000" by (simp add: word_le_nat_alt)
  note hi = pair_bytes [OF surrogates(4) [OF c assms(1)]] and lo = pair_bytes [OF surrogates(5) [OF c assms(1)]]
  show ?thesis using assms(2) False n hi lo by (auto simp: WRITE_UTF16LE_def WRITE_UTF16BE_def unit_bytes_def utf16_code_units_def)
qed

lemma even_mask:
  assumes "(c :: 32 word) AND 0xFFFFFFFE = 0xFFFE"
  shows "c = 0xFFFE \<or> c = 0xFFFF"
proof -
  have m: "(0xFFFFFFFE :: 32 word) = NOT 1" by simp
  have "c = (c AND 0xFFFFFFFE) OR (c AND 1)" unfolding m by (rule bit_word_eqI) (auto simp: bit_simps)
  then have "c = 0xFFFE OR (c AND 1)" using assms by simp
  moreover have "c AND 1 = 0 \<or> c AND 1 = 1" by (simp add: and_one_eq mod_2_eq_odd)
  ultimately show ?thesis by auto
qed

lemma unicode_word:
  assumes "unicode_char n"
  shows "unat (of_nat n :: 32 word) = n" "utf_char (of_nat n)"
proof -
  have "n < 2 ^ 32" using assms by (simp add: unicode_char_def)
  then show u: "unat (of_nat n :: 32 word) = n" by (simp add: unat_of_nat)
  have "(of_nat n :: 32 word) \<noteq> 0xFFFE" "(of_nat n :: 32 word) \<noteq> 0xFFFF"
    using assms by (simp_all add: unicode_char_def word_unat_eq_iff u)
  then have "(of_nat n :: 32 word) AND 0xFFFFFFFE \<noteq> 0xFFFE" using even_mask by blast
  then show "utf_char (of_nat n)"
    using assms by (auto simp: utf_char_def utf8_self_def word_less_nat_alt word_le_nat_alt u unicode_char_def)
qed

lemma unicode_text_written:
  assumes "\<forall>n\<in>set ns. unicode_char n"
  shows "unicode_text SQLITE_UTF8 ns = utf8_text (map of_nat ns)"
    and "enc \<in> {SQLITE_UTF16LE, SQLITE_UTF16BE} \<Longrightarrow> unicode_text enc ns = utf16_text enc (map of_nat ns)"
proof -
  have w: "(of_nat n :: 32 word) < 0x110000" "unat (of_nat n :: 32 word) = n" if "n \<in> set ns" for n
    using unicode_word [of n] assms that by (auto simp: utf_char_def)
  show "unicode_text SQLITE_UTF8 ns = utf8_text (map of_nat ns)"
    using write_8_encoding [OF w(1)] w(2) by (auto simp: unicode_text_def utf8_text_def intro!: arg_cong [of _ _ concat])
  show "unicode_text enc ns = utf16_text enc (map of_nat ns)" if "enc \<in> {SQLITE_UTF16LE, SQLITE_UTF16BE}"
    using write_16_encoding [OF w(1), of _ enc] w(2) that
    by (auto simp: unicode_text_def utf16_text_def intro!: arg_cong [of _ _ concat])
qed

lemma translations_written:
  assumes "\<forall>c\<in>set cs. utf_char c" and "enc \<in> {SQLITE_UTF16LE, SQLITE_UTF16BE}" and "enc' \<in> {SQLITE_UTF16LE, SQLITE_UTF16BE} - {enc}"
  shows "fst (sqlite3VdbeMemTranslate SQLITE_UTF8 enc (utf8_text cs)) = utf16_text enc cs \<and>
    fst (sqlite3VdbeMemTranslate enc SQLITE_UTF8 (utf16_text enc cs)) = utf8_text cs \<and>
    fst (sqlite3VdbeMemTranslate enc enc' (utf16_text enc cs)) = utf16_text enc' cs \<and>
    (0 \<notin> set cs \<longrightarrow> sqlite3Utf8CharLen (utf8_text cs @ [0]) (- 1) = Some (length cs))"
proof -
  have "0 \<notin> set cs \<Longrightarrow> \<forall>c\<in>set cs. utf_char c \<and> c \<noteq> 0" using assms(1) by auto
  then have "0 \<notin> set cs \<longrightarrow> sqlite3Utf8CharLen (utf8_text cs @ [0]) (- 1) = Some (length cs)"
    using len_loop_text [of cs] by (simp add: sqlite3Utf8CharLen_def)
  then show ?thesis
    using assms(2,3) even_text [of cs]
    by (auto simp: sqlite3VdbeMemTranslate_def utf8_to_16_text [OF assms(1)] utf16_to_8_text [OF assms(1)] utf16_text_def
        swap_text even_part_def)
qed

text \<open>
  C25: a text survives its translations. The text of any characters other than surrogates, \<open>0xFFFE\<close> and \<open>0xFFFF\<close> (which the code
  reads as \<open>0xFFFD\<close>), encoded as the Unicode standard says, is translated from UTF-8 to UTF-16 of either byte order, back, and between the
  byte orders, to the text of the same characters; and \<^verbatim>\<open>sqlite3Utf8CharLen\<close> counts its characters.
\<close>

theorem utf_translations:
  assumes "\<forall>n\<in>set ns. unicode_char n" and "enc \<in> {SQLITE_UTF16LE, SQLITE_UTF16BE}" and "enc' \<in> {SQLITE_UTF16LE, SQLITE_UTF16BE} - {enc}"
  shows "fst (sqlite3VdbeMemTranslate SQLITE_UTF8 enc (unicode_text SQLITE_UTF8 ns)) = unicode_text enc ns \<and>
    fst (sqlite3VdbeMemTranslate enc SQLITE_UTF8 (unicode_text enc ns)) = unicode_text SQLITE_UTF8 ns \<and>
    fst (sqlite3VdbeMemTranslate enc enc' (unicode_text enc ns)) = unicode_text enc' ns \<and>
    (0 \<notin> set ns \<longrightarrow> sqlite3Utf8CharLen (unicode_text SQLITE_UTF8 ns @ [0]) (- 1) = Some (length ns))"
proof -
  let ?cs = "map of_nat ns :: 32 word list"
  have cs: "\<forall>c\<in>set ?cs. utf_char c" using unicode_word(2) assms(1) by auto
  have z: "0 \<notin> set ?cs" if "0 \<notin> set ns"
  proof
    assume "0 \<in> set ?cs"
    then obtain n where n: "n \<in> set ns" "of_nat n = (0 :: 32 word)" by auto
    then have "n = 0" using unicode_word(1) [of n] assms(1) by auto
    with n(1) that show False by simp
  qed
  have u: "unicode_text SQLITE_UTF8 ns = utf8_text ?cs" "unicode_text enc ns = utf16_text enc ?cs"
    "unicode_text enc' ns = utf16_text enc' ?cs"
    using unicode_text_written [OF assms(1)] assms(2,3) by auto
  show ?thesis
    using translations_written [OF cs assms(2,3)] z unfolding u length_map by blast
qed

theorem utf_translations_witness:
  "fst (sqlite3VdbeMemTranslate SQLITE_UTF16LE SQLITE_UTF8 [0x41, 0, 0x3D, 0xD8, 0, 0xDE]) = [0x41, 0xF0, 0x9F, 0x98, 0x80]"
proof -
  have "unicode_char 0x41" "unicode_char 0x1F600" by (simp_all add: unicode_char_def)
  then have "\<forall>n\<in>set [0x41, 0x1F600]. unicode_char n" by simp
  moreover have u: "unicode_text SQLITE_UTF16LE [0x41, 0x1F600] = [0x41, 0, 0x3D, 0xD8, 0, 0xDE]"
    "unicode_text SQLITE_UTF8 [0x41, 0x1F600] = [0x41, 0xF0, 0x9F, 0x98, 0x80]"
    by (simp_all add: unicode_text_def utf8_encoding_def utf16_code_units_def unit_bytes_def)
  ultimately show ?thesis using utf_translations [of "[0x41, 0x1F600]" SQLITE_UTF16LE SQLITE_UTF16BE, unfolded u]
    by (simp del: utf16le_to_8_loop.simps)
qed

text \<open>
  C26: translating never writes past the buffer. Whatever the bytes are, valid or not, the translated text and its
  terminator - one byte for UTF-8, two for UTF-16 - fit in the buffer that was allocated for it.
\<close>

theorem utf_translation_fits:
  assumes "sqlite3VdbeMemTranslate enc desiredEnc z = (out, Some len)"
  shows "length out + (if desiredEnc = SQLITE_UTF8 then 1 else 2) \<le> len"
proof -
  have f: "\<And>c. length (WRITE_UTF16LE c) = (if c \<le> 0xFFFF then 2 else 4)" "\<And>c. length (WRITE_UTF16BE c) = (if c \<le> 0xFFFF then 2 else 4)"
    by (simp_all add: write_16_length)
  have b: "length (utf16be_to_8_loop y) \<le> 2 * length y" for y using le_room [of "swap_loop y"] by (simp add: be_swap swap_length)
  have e: "length (even_part z) \<le> length z" by (simp add: even_part_def)
  show ?thesis
    using assms le_room b utf8_to_16_room [OF f(1)] utf8_to_16_room [OF f(2)]
    by (auto simp: sqlite3VdbeMemTranslate_def Let_def split: if_splits)
qed

theorem utf_translation_fits_witness:
  "length (fst (sqlite3VdbeMemTranslate SQLITE_UTF8 SQLITE_UTF16LE [0xF0, 0x90])) + 2 \<le> 6"
  using utf_translation_fits [of SQLITE_UTF8 SQLITE_UTF16LE "[0xF0, 0x90]" "fst (sqlite3VdbeMemTranslate SQLITE_UTF8 SQLITE_UTF16LE [0xF0, 0x90])" 6]
  by (simp add: sqlite3VdbeMemTranslate_def)

end
