(* ===== verification/Ys_Like.thy ===== *)
theory Ys_Like
  imports Ys_Utf Ys_Function "HOL-Library.Sublist"
begin

text \<open>
  \<^verbatim>\<open>LIKE\<close> and \<^verbatim>\<open>GLOB\<close> of \<^verbatim>\<open>func.c\<close> (in \<^verbatim>\<open>sqlite3.c\<close>): \<^verbatim>\<open>patternCompare\<close> with its searches behind a wildcard
  and its character sets, and the SQL function over it. A string is given by its bytes up to and including the
  terminator; reading past the terminator has no result.
\<close>

section \<open>Comparing\<close>

record compareInfo =
  matchAll :: byte
  matchOne :: byte
  matchSet :: byte
  noCase :: bool

definition globInfo :: compareInfo where
  "globInfo = \<lparr>matchAll = char_byte CHR ''*'', matchOne = char_byte CHR ''?'', matchSet = char_byte CHR ''['', noCase = False\<rparr>"

definition likeInfoNorm :: compareInfo where
  "likeInfoNorm = \<lparr>matchAll = char_byte CHR ''%'', matchOne = char_byte CHR ''_'', matchSet = 0, noCase = True\<rparr>"

definition likeInfoAlt :: compareInfo where
  "likeInfoAlt = \<lparr>matchAll = char_byte CHR ''%'', matchOne = char_byte CHR ''_'', matchSet = 0, noCase = False\<rparr>"

definition SQLITE_MATCH :: int where "SQLITE_MATCH = 0"
definition SQLITE_NOMATCH :: int where "SQLITE_NOMATCH = 1"
definition SQLITE_NOWILDCARDMATCH :: int where "SQLITE_NOWILDCARDMATCH = 2"

definition Utf8Read :: "byte list \<Rightarrow> (32 word \<times> byte list) option" where
  "Utf8Read A = (case A of [] \<Rightarrow> None | b # z \<Rightarrow> if b < 0x80 then Some (ucast b, z) else sqlite3Utf8Read A)"

text \<open>The macros of the character tables with an unsigned argument, which they cut to a byte.\<close>

definition tolower32 :: "32 word \<Rightarrow> nat" where
  "tolower32 c = sqlite3Tolower (char_of (unat c))"

definition toupper32 :: "32 word \<Rightarrow> nat" where
  "toupper32 c = sqlite3Toupper (char_of (unat c))"

lemma Utf8Read_eq: "Utf8Read z = sqlite3Utf8Read z"
  by (cases z) (auto simp: Utf8Read_def word_le_nat_alt word_less_nat_alt)

lemma utf8_read_tail_length: "utf8_read_tail c z = Some (d, z') \<Longrightarrow> length z' \<le> length z"
  by (induction c z rule: utf8_read_tail.induct) (auto split: if_splits)

lemma read_length: "sqlite3Utf8Read z = Some (c, z') \<Longrightarrow> length z' < length z"
  by (cases z) (auto split: if_splits option.splits dest: utf8_read_tail_length)

lemma Utf8Read_length: "Utf8Read z = Some (c, z') \<Longrightarrow> length z' < length z"
  by (simp add: Utf8Read_eq read_length)

text \<open>Behind a wildcard further wildcards are skipped. The result is the code to return, or the next character and both strings.\<close>

function wild_loop :: "compareInfo \<Rightarrow> byte list \<Rightarrow> byte list \<Rightarrow> (int + 32 word \<times> byte list \<times> byte list) option" where
  "wild_loop pInfo zPattern zString =
     (case Utf8Read zPattern of
        None \<Rightarrow> None
      | Some (c, zPattern') \<Rightarrow>
          if c = ucast (matchAll pInfo) \<or> c = ucast (matchOne pInfo) \<and> matchOne pInfo \<noteq> 0 then
            (if c = ucast (matchOne pInfo) then
               (case sqlite3Utf8Read zString of
                  None \<Rightarrow> None
                | Some (d, zString') \<Rightarrow>
                    if d = 0 then Some (Inl SQLITE_NOWILDCARDMATCH) else wild_loop pInfo zPattern' zString')
             else wild_loop pInfo zPattern' zString)
          else Some (Inr (c, zPattern', zString)))"
  by pat_completeness auto
termination by (relation "measure (\<lambda>(i, p, s). length p)") (auto dest: Utf8Read_length)

declare wild_loop.simps [simp del]

text \<open>The members of a set, with the character \<open>c\<close> that is looked for. The result has \<open>c2\<close>, which is 0 at the end of the pattern.\<close>

definition ch :: "char \<Rightarrow> 32 word" where
  "ch x = ucast (char_byte x)"

function set_loop :: "32 word \<Rightarrow> 32 word \<Rightarrow> 32 word \<Rightarrow> bool \<Rightarrow> byte list \<Rightarrow> (32 word \<times> bool \<times> byte list) option" where
  "set_loop c c2 prior_c seen zPattern =
     (if c2 \<noteq> 0 \<and> c2 \<noteq> ch CHR '']'' then
        (case zPattern of
           [] \<Rightarrow> None
         | b # _ \<Rightarrow>
             if c2 = ch CHR ''-'' \<and> b \<noteq> char_byte CHR '']'' \<and> b \<noteq> 0 \<and> prior_c > 0 then
               (case sqlite3Utf8Read zPattern of
                  None \<Rightarrow> None
                | Some (c2, zPattern) \<Rightarrow>
                    (case sqlite3Utf8Read zPattern of
                       None \<Rightarrow> None
                     | Some (c2', zPattern) \<Rightarrow>
                         set_loop c c2' 0 (seen \<or> c \<ge> prior_c \<and> c \<le> c2) zPattern))
             else
               (case sqlite3Utf8Read zPattern of
                  None \<Rightarrow> None
                | Some (c2', zPattern) \<Rightarrow> set_loop c c2' c2 (seen \<or> c = c2) zPattern))
      else Some (c2, seen, zPattern))"
  by pat_completeness auto
termination
  by (relation "measure (\<lambda>(c, c2, prior_c, seen, z). length z)") (auto dest!: read_length simp del: sqlite3Utf8Read.simps)

declare set_loop.simps [simp del]

text \<open>The set at \<open>zPattern\<close> (behind its bracket) and the character \<open>c\<close>: the rest of the pattern when the set admits \<open>c\<close>.\<close>

definition set_match :: "32 word \<Rightarrow> byte list \<Rightarrow> byte list option option" where
  "set_match c zPattern =
     (case sqlite3Utf8Read zPattern of
        None \<Rightarrow> None
      | Some (c2, zPattern) \<Rightarrow>
          (case (if c2 = ch CHR ''^'' then map_option (Pair True) (sqlite3Utf8Read zPattern) else Some (False, c2, zPattern)) of
             None \<Rightarrow> None
           | Some (invert, c2, zPattern) \<Rightarrow>
               (case (if c2 = ch CHR '']'' then map_option (Pair (c = ch CHR '']'')) (sqlite3Utf8Read zPattern)
                      else Some (False, c2, zPattern)) of
                  None \<Rightarrow> None
                | Some (seen, c2, zPattern) \<Rightarrow>
                    (case set_loop c c2 0 seen zPattern of
                       None \<Rightarrow> None
                     | Some (c2, seen, zPattern) \<Rightarrow>
                         if c2 = 0 \<or> seen = invert then Some None else Some (Some zPattern)))))"

lemma set_loop_step:
  assumes "set_loop c c2 pr seen z = Some r" "c2 \<noteq> 0" "c2 \<noteq> ch CHR '']''"
  shows "\<exists>c2' pr' seen' y. length y < length z \<and> set_loop c c2' pr' seen' y = Some r"
proof -
  note e = assms(1) [unfolded set_loop.simps [of c c2 pr seen z]]
  obtain b z1 where z: "z = b # z1" using e assms(2,3) by (cases z) auto
  then obtain d y where d: "sqlite3Utf8Read z = Some (d, y)" using e assms(2,3)
    by (auto split: if_splits option.splits simp del: sqlite3Utf8Read.simps)
  note ly = read_length [OF d]
  show ?thesis
  proof (cases "c2 = ch CHR ''-'' \<and> b \<noteq> char_byte CHR '']'' \<and> b \<noteq> 0 \<and> pr > 0")
    case True
    then obtain d' y' where d': "sqlite3Utf8Read y = Some (d', y')" using e assms(2,3) z d
      by (auto split: option.splits simp del: sqlite3Utf8Read.simps)
    with e True assms(2,3) d z have "set_loop c d' 0 (seen \<or> c \<ge> pr \<and> c \<le> d) y' = Some r" by simp
    moreover have "length y' < length z" using ly read_length [OF d'] by simp
    ultimately show ?thesis by blast
  next
    case False
    with e assms(2,3) d z have "set_loop c d c2 (seen \<or> c = c2) y = Some r" by (simp del: sqlite3Utf8Read.simps)
    with ly show ?thesis by blast
  qed
qed

lemma set_loop_length: "set_loop c c2 pr seen z = Some (d, s, z') \<Longrightarrow> length z' \<le> length z"
proof (induction z arbitrary: c2 pr seen rule: length_induct)
  case (1 z)
  show ?case
  proof (cases "c2 \<noteq> 0 \<and> c2 \<noteq> ch CHR '']''")
    case True
    with "1.prems" obtain c2' pr' seen' y where "length y < length z" "set_loop c c2' pr' seen' y = Some (d, s, z')"
      using set_loop_step by metis
    with "1.IH" show ?thesis by (meson less_imp_le less_le_trans order.trans)
  next
    case False
    with "1.prems" show ?thesis by (subst (asm) set_loop.simps) auto
  qed
qed

lemma set_match_length: "set_match c z = Some (Some z') \<Longrightarrow> length z' < length z"
  by (auto simp: set_match_def split: option.splits prod.splits if_splits simp del: sqlite3Utf8Read.simps
      dest!: read_length set_loop_length)

section \<open>patternCompare\<close>

text \<open>
  The four loops: the comparison itself, and the searches behind a wildcard - for a set, for a character of one
  byte (\<open>zStop\<close> are the bytes \<^verbatim>\<open>strcspn\<close> stops at), for another character. \<open>zPattern[-1]\<close> is the bracket that has just been
  read, one byte.
\<close>

definition stop_bytes :: "compareInfo \<Rightarrow> 32 word \<Rightarrow> byte list" where
  "stop_bytes pInfo c = (if noCase pInfo then [of_nat (toupper32 c), of_nat (tolower32 c)] else [ucast c])"

lemma dropWhile_suffix_length: "dropWhile P s = b # s' \<Longrightarrow> length s' < length s"
  by (metis Suc_le_eq length_Cons length_dropWhile_le)

lemma skip_shorter: "SQLITE_SKIP_UTF8 z = Some z' \<Longrightarrow> length z' < length z"
  by (auto simp: skip_read simp del: sqlite3Utf8Read.simps SQLITE_SKIP_UTF8.simps dest: read_length)

lemma wild_loop_length: "wild_loop i p s = Some (Inr (c, p', s')) \<Longrightarrow> length p' < length p \<and> length s' \<le> length s"
proof (induction p arbitrary: s rule: length_induct)
  case (1 p)
  note e = "1.prems" [unfolded wild_loop.simps [of i p s]]
  then obtain d y where r: "Utf8Read p = Some (d, y)" by (auto split: option.splits)
  note l = Utf8Read_length [OF r]
  have IH: "wild_loop i y t = Some (Inr (c, p', s')) \<Longrightarrow> length t \<le> length s \<Longrightarrow> length p' < length p \<and> length s' \<le> length s" for t
    using "1.IH" l by (meson less_trans order.trans)
  from e l r show ?case
    by (auto split: if_splits option.splits prod.splits simp del: sqlite3Utf8Read.simps dest!: read_length IH)
qed

function (sequential) patternCompare :: "compareInfo \<Rightarrow> 32 word \<Rightarrow> byte list \<Rightarrow> byte list \<Rightarrow> int option"
  and set_search :: "compareInfo \<Rightarrow> 32 word \<Rightarrow> byte list \<Rightarrow> byte list \<Rightarrow> int option"
  and byte_search :: "compareInfo \<Rightarrow> 32 word \<Rightarrow> byte list \<Rightarrow> byte list \<Rightarrow> byte list \<Rightarrow> int option"
  and char_search :: "compareInfo \<Rightarrow> 32 word \<Rightarrow> 32 word \<Rightarrow> byte list \<Rightarrow> byte list \<Rightarrow> int option"
  where
  "patternCompare pInfo matchOther zPattern zString =
     (case Utf8Read zPattern of
        None \<Rightarrow> None
      | Some (c, zPattern) \<Rightarrow>
          if c = 0 then (case zString of [] \<Rightarrow> None | b # _ \<Rightarrow> Some (if b = 0 then SQLITE_MATCH else SQLITE_NOMATCH))
          else if c = ucast (matchAll pInfo) then
            (case wild_loop pInfo zPattern zString of
               None \<Rightarrow> None
             | Some (Inl r) \<Rightarrow> Some r
             | Some (Inr (c, zPattern, zString)) \<Rightarrow>
                 if c = 0 then Some SQLITE_MATCH
                 else if c = matchOther \<and> matchSet pInfo \<noteq> 0 then set_search pInfo matchOther (ucast matchOther # zPattern) zString
                 else
                   (case (if c = matchOther then sqlite3Utf8Read zPattern else Some (c, zPattern)) of
                      None \<Rightarrow> None
                    | Some (c, zPattern) \<Rightarrow>
                        if c = 0 then Some SQLITE_NOWILDCARDMATCH
                        else if c \<le> 0x80 then byte_search pInfo matchOther (stop_bytes pInfo c) zPattern zString
                        else char_search pInfo matchOther c zPattern zString))
          else if c = matchOther \<and> matchSet pInfo \<noteq> 0 then
            (case sqlite3Utf8Read zString of
               None \<Rightarrow> None
             | Some (d, zString) \<Rightarrow>
                 if d = 0 then Some SQLITE_NOMATCH
                 else
                   (case set_match d zPattern of
                      None \<Rightarrow> None
                    | Some None \<Rightarrow> Some SQLITE_NOMATCH
                    | Some (Some zPattern) \<Rightarrow> patternCompare pInfo matchOther zPattern zString))
          else
            (case (if c = matchOther then sqlite3Utf8Read zPattern else Some (c, zPattern)) of
               None \<Rightarrow> None
             | Some (c', zPattern) \<Rightarrow>
                 if c' = 0 then Some SQLITE_NOMATCH
                 else
                   (case Utf8Read zString of
                      None \<Rightarrow> None
                    | Some (c2, zString) \<Rightarrow>
                        if c' = c2 \<or> noCase pInfo \<and> tolower32 c' = tolower32 c2 \<and> c' < 0x80 \<and> c2 < 0x80 \<or>
                           c' = ucast (matchOne pInfo) \<and> c \<noteq> matchOther \<and> c2 \<noteq> 0
                        then patternCompare pInfo matchOther zPattern zString
                        else Some SQLITE_NOMATCH)))"
| "set_search pInfo matchOther zPattern zString =
     (case zString of
        [] \<Rightarrow> None
      | b # _ \<Rightarrow>
          if b = 0 then Some SQLITE_NOWILDCARDMATCH
          else
            (case patternCompare pInfo matchOther zPattern zString of
               None \<Rightarrow> None
             | Some bMatch \<Rightarrow>
                 if bMatch \<noteq> SQLITE_NOMATCH then Some bMatch
                 else
                   (case SQLITE_SKIP_UTF8 zString of
                      None \<Rightarrow> None
                    | Some zString \<Rightarrow> set_search pInfo matchOther zPattern zString)))"
| "byte_search pInfo matchOther zStop zPattern zString =
     (case dropWhile (\<lambda>b. b \<noteq> 0 \<and> b \<notin> set zStop) zString of
        [] \<Rightarrow> None
      | b # zString \<Rightarrow>
          if b = 0 then Some SQLITE_NOWILDCARDMATCH
          else
            (case patternCompare pInfo matchOther zPattern zString of
               None \<Rightarrow> None
             | Some bMatch \<Rightarrow>
                 if bMatch \<noteq> SQLITE_NOMATCH then Some bMatch else byte_search pInfo matchOther zStop zPattern zString))"
| "char_search pInfo matchOther c zPattern zString =
     (case Utf8Read zString of
        None \<Rightarrow> None
      | Some (c2, zString) \<Rightarrow>
          if c2 = 0 then Some SQLITE_NOWILDCARDMATCH
          else if c2 \<noteq> c then char_search pInfo matchOther c zPattern zString
          else
            (case patternCompare pInfo matchOther zPattern zString of
               None \<Rightarrow> None
             | Some bMatch \<Rightarrow>
                 if bMatch \<noteq> SQLITE_NOMATCH then Some bMatch else char_search pInfo matchOther c zPattern zString))"
  by pat_completeness auto
termination
proof (relation "inv_image (less_than <*lex*> less_than <*lex*> less_than)
    (case_sum (case_sum (\<lambda>(i, m, p, s). (length p, length s, 0)) (\<lambda>(i, m, p, s). (length p, length s, 1 :: nat)))
      (case_sum (\<lambda>(i, m, z, p, s). (length p, length s, 1)) (\<lambda>(i, m, c, p, s). (length p, length s, 1))))", goal_cases)
  case 1
  then show ?case by (intro wf_inv_image wf_lex_prod wf_less_than)
qed (auto simp del: sqlite3Utf8Read.simps SQLITE_SKIP_UTF8.simps split: if_splits
    dest!: Utf8Read_length wild_loop_length set_match_length dropWhile_suffix_length read_length skip_shorter)

declare patternCompare.simps [simp del] set_search.simps [simp del] byte_search.simps [simp del] char_search.simps [simp del]

definition sqlite3_strglob :: "byte list \<Rightarrow> byte list \<Rightarrow> int option" where
  "sqlite3_strglob zGlobPattern zString = patternCompare globInfo (ch CHR ''['') zGlobPattern zString"

definition sqlite3_strlike :: "byte list \<Rightarrow> byte list \<Rightarrow> 32 word \<Rightarrow> int option" where
  "sqlite3_strlike zPattern zStr esc = patternCompare likeInfoNorm esc zPattern zStr"

section \<open>likeFunc\<close>

text \<open>
  The function: \<open>limit\<close> is the longest string, \<open>patternLimit\<close> the limit on patterns. An escape character that is one
  of the wildcards switches that wildcard off in a copy of the description.
\<close>

definition c_bytes :: "string \<Rightarrow> byte list" where
  "c_bytes t = map char_byte t @ [0]"

definition escape_info :: "compareInfo \<Rightarrow> 32 word \<Rightarrow> compareInfo" where
  "escape_info pInfo escape =
     (if escape = ucast (matchAll pInfo) \<or> escape = ucast (matchOne pInfo) then
        let info = (if escape = ucast (matchAll pInfo) then pInfo\<lparr>matchAll := 0\<rparr> else pInfo)
        in if escape = ucast (matchOne info) then info\<lparr>matchOne := 0\<rparr> else info
      else pInfo)"

definition like_compare :: "compareInfo \<Rightarrow> 32 word \<Rightarrow> sql_value list \<Rightarrow> ('x fn_context, fault, unit) action" where
  "like_compare pInfo escape argv =
     (case (sv_text (argv ! 0), sv_text (argv ! 1)) of
        (Some zB, Some zA) \<Rightarrow>
          (case patternCompare pInfo escape (c_bytes zB) (c_bytes zA) of
             None \<Rightarrow> throw Undefined
           | Some r \<Rightarrow> sqlite3_result (Fn_int (if r = SQLITE_MATCH then 1 else 0)))
      | _ \<Rightarrow> return_with ())"

definition likeFunc :: "int \<Rightarrow> int \<Rightarrow> compareInfo \<Rightarrow> sql_value list \<Rightarrow> ('x fn_context, fault, unit) action" where
  "likeFunc limit patternLimit pInfo argv =
     (if int (length (sv_blob (argv ! 0))) > patternLimit then
        sqlite3_result_error limit ''LIKE or GLOB pattern too complex'' (- 1)
      else if length argv = 3 then
        (case sv_text (argv ! 2) of
           None \<Rightarrow> return_with ()
         | Some zEsc \<Rightarrow>
             (case (sqlite3Utf8CharLen (c_bytes zEsc) (- 1), sqlite3Utf8Read (c_bytes zEsc)) of
                (Some n, Some (escape, _)) \<Rightarrow>
                  if n \<noteq> 1 then sqlite3_result_error limit ''ESCAPE expression must be a single character'' (- 1)
                  else like_compare (escape_info pInfo escape) escape argv
              | _ \<Rightarrow> throw Undefined))
      else like_compare pInfo (ucast (matchSet pInfo)) argv)"

section \<open>What a pattern means\<close>

text \<open>The characters of a string, up to the terminator.\<close>

function chars :: "byte list \<Rightarrow> 32 word list" where
  "chars z = (case sqlite3Utf8Read z of None \<Rightarrow> [] | Some (c, z') \<Rightarrow> if c = 0 then [] else c # chars z')"
  by pat_completeness auto
termination by (relation "measure length") (auto simp del: sqlite3Utf8Read.simps dest: read_length)

declare chars.simps [simp del]

definition like_equal :: "compareInfo \<Rightarrow> 32 word \<Rightarrow> 32 word \<Rightarrow> bool" where
  "like_equal pInfo c d \<longleftrightarrow> c = d \<or> noCase pInfo \<and> c < 0x80 \<and> d < 0x80 \<and> tolower32 c = tolower32 d"

text \<open>The members of a set as ranges, and the pattern behind its closing bracket.\<close>

fun set_members :: "32 word \<Rightarrow> 32 word list \<Rightarrow> ((32 word \<times> 32 word) list \<times> 32 word list) option" where
  "set_members prior [] = None"
| "set_members prior [c] = (if c = ch CHR '']'' then Some ([], []) else None)"
| "set_members prior (c # d # P) =
     (if c = ch CHR '']'' then Some ([], d # P)
      else if c = ch CHR ''-'' \<and> d \<noteq> ch CHR '']'' \<and> 0 < prior then
        map_option (\<lambda>(rs, P). ((prior, d) # rs, P)) (set_members 0 P)
      else map_option (\<lambda>(rs, P). ((c, c) # rs, P)) (set_members c (d # P)))"

definition glob_set :: "32 word list \<Rightarrow> (bool \<times> (32 word \<times> 32 word) list \<times> 32 word list) option" where
  "glob_set P =
     (let (invert, P) = (case P of c # P' \<Rightarrow> if c = ch CHR ''^'' then (True, P') else (False, P) | [] \<Rightarrow> (False, P));
          (first, P) = (case P of c # P' \<Rightarrow> if c = ch CHR '']'' then ([(c, c)], P') else ([], P) | [] \<Rightarrow> ([], P))
      in map_option (\<lambda>(rs, P). (invert, first @ rs, P)) (set_members 0 P))"

definition in_ranges :: "(32 word \<times> 32 word) list \<Rightarrow> 32 word \<Rightarrow> bool" where
  "in_ranges rs c \<longleftrightarrow> (\<exists>(lo, hi)\<in>set rs. lo \<le> c \<and> c \<le> hi)"

definition in_set :: "bool \<Rightarrow> (32 word \<times> 32 word) list \<Rightarrow> 32 word \<Rightarrow> bool" where
  "in_set invert rs c \<longleftrightarrow> in_ranges rs c \<noteq> invert"

lemma in_ranges_simps:
  "\<not> in_ranges [] c" "in_ranges ((x, x) # rs) c \<longleftrightarrow> c = x \<or> in_ranges rs c"
  "in_ranges ((x, y) # rs) c \<longleftrightarrow> (x \<le> c \<and> c \<le> y) \<or> in_ranges rs c"
  by (auto simp: in_ranges_def)

lemma set_members_length: "set_members prior P = Some (rs, P') \<Longrightarrow> length P' < length P"
  by (induction prior P arbitrary: rs rule: set_members.induct) (auto split: if_splits)

lemma glob_set_length: "glob_set P = Some (i, rs, P') \<Longrightarrow> length P' < length P"
  by (auto simp: glob_set_def Let_def split: list.splits if_splits dest: set_members_length)

text \<open>
  A wildcard matches any sequence of characters; behind the escape character the next one stands for itself; a
  pattern that ends in the escape character, or in the middle of a set, matches nothing.
\<close>

function like_match :: "compareInfo \<Rightarrow> 32 word \<Rightarrow> 32 word list \<Rightarrow> 32 word list \<Rightarrow> bool" where
  "like_match pInfo other [] S \<longleftrightarrow> S = []"
| "like_match pInfo other (c # P) S \<longleftrightarrow>
     (if c = ucast (matchAll pInfo) then (\<exists>T \<in> set (suffixes S). like_match pInfo other P T)
      else
        (case S of
           [] \<Rightarrow> False
         | d # S' \<Rightarrow>
             if c = other \<and> matchSet pInfo \<noteq> 0 then
               (case glob_set P of None \<Rightarrow> False | Some (invert, rs, P') \<Rightarrow> in_set invert rs d \<and> like_match pInfo other P' S')
             else if c = other then
               (case P of [] \<Rightarrow> False | e # P' \<Rightarrow> like_equal pInfo e d \<and> like_match pInfo other P' S')
             else (like_equal pInfo c d \<or> c = ucast (matchOne pInfo)) \<and> like_match pInfo other P S'))"
  by pat_completeness auto
termination by (relation "measure (\<lambda>(i, other, P, S). length P)") (auto dest: glob_set_length)

declare like_match.simps(2) [simp del]

section \<open>Strings with a terminator\<close>

lemma accept_not_0: "utf8_accept c \<noteq> 0"
  by (auto simp: utf8_accept_def)

lemma tail_terminated: "0 \<in> set z \<Longrightarrow> \<exists>d z'. utf8_read_tail c z = Some (d, z') \<and> 0 \<in> set z'"
  by (induction c z rule: utf8_read_tail.induct) auto

lemma read_terminated:
  assumes "0 \<in> set z"
  obtains (stop) y where "sqlite3Utf8Read z = Some (0, y)" "z = 0 # y"
  | (char) c y where "sqlite3Utf8Read z = Some (c, y)" "c \<noteq> 0" "0 \<in> set y" "hd z \<noteq> 0" "length y < length z"
proof (cases z)
  case (Cons b y)
  show thesis
  proof (cases "b \<ge> 0xC0")
    case True
    then have "b \<noteq> 0" by auto
    then have "0 \<in> set y" using assms Cons by auto
    then obtain d z' where "utf8_read_tail (of_nat (sqlite3Utf8Trans1 ! unat (b - 0xc0))) y = Some (d, z')" "0 \<in> set z'"
      using tail_terminated by blast
    with True Cons char [of "utf8_accept d" z'] accept_not_0 \<open>b \<noteq> 0\<close> show thesis
      using utf8_read_tail_length by fastforce
  next
    case False
    show thesis
    proof (cases "b = 0")
      case True
      with Cons stop show thesis by simp
    next
      case nz: False
      moreover have "ucast b \<noteq> (0 :: 32 word)"
        using nz by (metis unat_word unat_eq_0)
      ultimately show thesis using assms Cons char [of "ucast b" y] False by simp
    qed
  qed
qed (use assms in simp)

lemma chars_simps:
  "sqlite3Utf8Read z = Some (0, y) \<Longrightarrow> chars z = []"
  "sqlite3Utf8Read z = Some (c, y) \<Longrightarrow> c \<noteq> 0 \<Longrightarrow> chars z = c # chars y"
  by (subst chars.simps; simp)+

lemma chars_Nil_iff: "0 \<in> set z \<Longrightarrow> chars z = [] \<longleftrightarrow> hd z = 0"
  by (cases z rule: read_terminated) (auto simp: chars_simps simp del: sqlite3Utf8Read.simps)

section \<open>Sets\<close>

definition cur :: "32 word \<Rightarrow> byte list \<Rightarrow> 32 word list" where
  "cur c z = (if c = 0 then [] else c # chars z)"

lemma read_cur:
  assumes "0 \<in> set z"
  obtains c y where "sqlite3Utf8Read z = Some (c, y)" "chars z = cur c y" "c \<noteq> 0 \<Longrightarrow> 0 \<in> set y" "length y < length z"
  using assms
proof (cases z rule: read_terminated)
  case (stop y)
  then show thesis using that [of 0 y] chars_simps(1) [of z y] by (simp add: cur_def)
next
  case (char c y)
  then show thesis using that [of c y] chars_simps(2) [of z c y] by (simp add: cur_def)
qed

lemma ch_inject: "ch a = ch b \<longleftrightarrow> a = b"
proof
  assume "ch a = ch b"
  then have "unat (ch a) = unat (ch b)" by simp
  then have "unat (char_byte a) = unat (char_byte b)" by (simp only: ch_def unat_word)
  then have "char_byte a = char_byte b" by (simp only: word_unat_eq_iff)
  then have "byte_char (char_byte a) = byte_char (char_byte b)" by simp
  then show "a = b" by simp
qed simp

lemma ch_0: "ch c = 0 \<longleftrightarrow> c = CHR 0x00"
  using ch_inject [of c "CHR 0x00"] by (simp add: ch_def char_byte_def)

lemma low_hd:
  assumes "0 \<in> set z" "b < 0x80"
  shows "hd z = b \<longleftrightarrow> (case sqlite3Utf8Read z of Some (c, _) \<Rightarrow> c = ucast b | None \<Rightarrow> False)"
proof -
  obtain a y where z: "z = a # y" using assms(1) by (cases z) auto
  have bl: "unat b < 128" using assms(2) by (simp add: word_less_nat_alt)
  have i: "ucast a = (ucast b :: 32 word) \<longleftrightarrow> a = b"
    by (metis unat_word word_unat_eq_iff)
  show ?thesis
  proof (cases "a \<ge> 0xC0")
    case True
    then have "a \<noteq> b" using bl by (auto simp: word_le_nat_alt)
    moreover have "utf8_accept x \<noteq> ucast b" for x
    proof
      assume "utf8_accept x = ucast b"
      then have "unat (utf8_accept x) = unat b" by (simp add: unat_word)
      moreover have "128 \<le> unat (utf8_accept x)" by (auto simp: utf8_accept_def word_less_nat_alt)
      ultimately show False using bl by simp
    qed
    ultimately show ?thesis using True z by (auto split: option.splits)
  next
    case False
    with z i show ?thesis by simp
  qed
qed

lemma set_loop_members:
  assumes "c2 \<noteq> 0 \<Longrightarrow> 0 \<in> set z"
  shows "\<exists>d seen' z'. set_loop c c2 prior seen z = Some (d, seen', z') \<and>
    (case set_members prior (cur c2 z) of
       None \<Rightarrow> d = 0
     | Some (rs, P) \<Rightarrow> d \<noteq> 0 \<and> 0 \<in> set z' \<and> chars z' = P \<and> (seen' \<longleftrightarrow> seen \<or> in_ranges rs c))"
  using assms
proof (induction z arbitrary: c2 prior seen rule: length_induct)
  case (1 z)
  note e = set_loop.simps [of c c2 prior seen z]
  show ?case
  proof (cases "c2 \<noteq> 0 \<and> c2 \<noteq> ch CHR '']''")
    case False
    then show ?thesis using "1.prems" e ch_0 [of "CHR '']''"]
      by (cases "chars z") (auto simp: cur_def in_ranges_simps(1))
  next
    case True
    then have z0: "0 \<in> set z" using "1.prems" by simp
    obtain x y where r: "sqlite3Utf8Read z = Some (x, y)" "chars z = cur x y" "x \<noteq> 0 \<Longrightarrow> 0 \<in> set y" "length y < length z"
      using read_cur [OF z0] by blast
    obtain b z1 where z: "z = b # z1" using z0 by (cases z) auto
    have hb: "b = char_byte CHR '']'' \<longleftrightarrow> x = ch CHR '']''" "b = 0 \<longleftrightarrow> x = 0"
      using low_hd [OF z0, of "char_byte CHR '']''"] low_hd [OF z0, of 0] r(1) z
      by (simp_all add: ch_def char_byte_def del: sqlite3Utf8Read.simps)
    show ?thesis
    proof (cases "c2 = ch CHR ''-'' \<and> x \<noteq> ch CHR '']'' \<and> x \<noteq> 0 \<and> 0 < prior")
      case range: True
      then obtain x' y' where r': "sqlite3Utf8Read y = Some (x', y')" "chars y = cur x' y'" "x' \<noteq> 0 \<Longrightarrow> 0 \<in> set y'" "length y' < length y"
        using read_cur r(3) by blast
      have l: "length y' < length z" using r r' by simp
      have s: "set_loop c c2 prior seen z = set_loop c x' 0 (seen \<or> c \<ge> prior \<and> c \<le> x) y'"
        using e True range hb z r(1) r'(1) by (simp del: sqlite3Utf8Read.simps)
      have m: "set_members prior (cur c2 z) = map_option (\<lambda>(rs, P). ((prior, x) # rs, P)) (set_members 0 (cur x' y'))"
        using True range r(2) r'(2) by (simp add: cur_def)
      from "1.IH" l r'(3) obtain d seen' z' where i: "set_loop c x' 0 (seen \<or> c \<ge> prior \<and> c \<le> x) y' = Some (d, seen', z')"
        "case set_members 0 (cur x' y') of None \<Rightarrow> d = 0
         | Some (rs, P) \<Rightarrow> d \<noteq> 0 \<and> 0 \<in> set z' \<and> chars z' = P \<and>
             (seen' \<longleftrightarrow> (seen \<or> c \<ge> prior \<and> c \<le> x) \<or> in_ranges rs c)" by blast
      then show ?thesis unfolding s m by (cases "set_members 0 (cur x' y')") (auto simp: in_ranges_simps(3))
    next
      case False
      have s: "set_loop c c2 prior seen z = set_loop c x c2 (seen \<or> c = c2) y"
        using e True False hb z r(1) by (auto simp del: sqlite3Utf8Read.simps)
      have m: "set_members prior (cur c2 z) = map_option (\<lambda>(rs, P). ((c2, c2) # rs, P)) (set_members c2 (cur x y))"
        using True False r(2) by (auto simp: cur_def)
      from "1.IH" r(3,4) obtain d seen' z' where i: "set_loop c x c2 (seen \<or> c = c2) y = Some (d, seen', z')"
        "case set_members c2 (cur x y) of None \<Rightarrow> d = 0
         | Some (rs, P) \<Rightarrow> d \<noteq> 0 \<and> 0 \<in> set z' \<and> chars z' = P \<and>
             (seen' \<longleftrightarrow> (seen \<or> c = c2) \<or> in_ranges rs c)" by blast
      from i show ?thesis unfolding s m by (cases "set_members c2 (cur x y)") (auto simp: in_ranges_simps(2))
    qed
  qed
qed

lemma set_match_glob:
  assumes "0 \<in> set z"
  shows "case glob_set (chars z) of
      None \<Rightarrow> set_match c z = Some None
    | Some (invert, rs, P) \<Rightarrow>
        if in_set invert rs c then \<exists>z'. set_match c z = Some (Some z') \<and> 0 \<in> set z' \<and> chars z' = P else set_match c z = Some None"
proof -
  obtain x y where r: "sqlite3Utf8Read z = Some (x, y)" "chars z = cur x y" "x \<noteq> 0 \<Longrightarrow> 0 \<in> set y"
    using read_cur [OF assms] by blast
  define invert where "invert \<longleftrightarrow> x = ch CHR ''^''"
  have nz: "ch CHR ''^'' \<noteq> 0" "ch CHR '']'' \<noteq> 0" by (simp_all add: ch_0)
  obtain x1 y1 where r1: "(if x = ch CHR ''^'' then map_option (Pair True) (sqlite3Utf8Read y) else Some (False, x, y)) = Some (invert, x1, y1)"
    "x1 \<noteq> 0 \<Longrightarrow> 0 \<in> set y1" "(case chars z of c # P' \<Rightarrow> if c = ch CHR ''^'' then (True, P') else (False, chars z) | [] \<Rightarrow> (False, chars z)) = (invert, cur x1 y1)"
  proof (cases "x = ch CHR ''^''")
    case True
    then have "0 \<in> set y" using r(3) nz by simp
    then obtain x1 y1 where "sqlite3Utf8Read y = Some (x1, y1)" "chars y = cur x1 y1" "x1 \<noteq> 0 \<Longrightarrow> 0 \<in> set y1" using read_cur by blast
    with True that [of x1 y1] r nz show thesis by (simp add: invert_def cur_def)
  next
    case False
    with that [of x y] r show thesis by (auto simp: invert_def cur_def)
  qed
  obtain x2 y2 where r2: "(if x1 = ch CHR '']'' then map_option (Pair (c = ch CHR '']'')) (sqlite3Utf8Read y1) else Some (False, x1, y1)) =
      Some (x1 = ch CHR '']'' \<and> c = ch CHR '']'', x2, y2)"
    "x2 \<noteq> 0 \<Longrightarrow> 0 \<in> set y2"
    "(case cur x1 y1 of c # P' \<Rightarrow> if c = ch CHR '']'' then ([(c, c)], P') else ([], cur x1 y1) | [] \<Rightarrow> ([], cur x1 y1)) =
      (if x1 = ch CHR '']'' then [(ch CHR '']'', ch CHR '']'')] else [], cur x2 y2)"
  proof (cases "x1 = ch CHR '']''")
    case True
    then have "0 \<in> set y1" using r1(2) nz by simp
    then obtain x2 y2 where "sqlite3Utf8Read y1 = Some (x2, y2)" "chars y1 = cur x2 y2" "x2 \<noteq> 0 \<Longrightarrow> 0 \<in> set y2" using read_cur by blast
    with True that [of x2 y2] nz show thesis by (simp add: cur_def)
  next
    case False
    with that [of x1 y1] r1(2) show thesis by (auto simp: cur_def)
  qed
  from set_loop_members [of x2 y2 c 0 "x1 = ch CHR '']'' \<and> c = ch CHR '']''"] r2(2) obtain d s' z' where
    l: "set_loop c x2 0 (x1 = ch CHR '']'' \<and> c = ch CHR '']'') y2 = Some (d, s', z')"
      "case set_members 0 (cur x2 y2) of None \<Rightarrow> d = 0
       | Some (rs, P) \<Rightarrow> d \<noteq> 0 \<and> 0 \<in> set z' \<and> chars z' = P \<and>
          (s' \<longleftrightarrow> (x1 = ch CHR '']'' \<and> c = ch CHR '']'') \<or> in_ranges rs c)" by blast
  have m: "set_match c z = Some (if d = 0 \<or> s' = invert then None else Some z')"
    unfolding set_match_def r(1) option.case prod.case r1(1) r2(1) l(1) by simp
  have g: "glob_set (chars z) = map_option (\<lambda>(rs, P). (invert, (if x1 = ch CHR '']'' then [(ch CHR '']'', ch CHR '']'')] else []) @ rs, P))
      (set_members 0 (cur x2 y2))"
    unfolding glob_set_def r1(3) Let_def prod.case r2(3) by simp
  show ?thesis
    using l(2) unfolding m g by (cases "set_members 0 (cur x2 y2)") (auto simp: in_set_def in_ranges_simps(2))
qed

section \<open>Wildcards\<close>

text \<open>What \<^verbatim>\<open>likeFunc\<close> and the two interfaces guarantee of their parameters.\<close>

definition like_info :: "compareInfo \<Rightarrow> 32 word \<Rightarrow> bool" where
  "like_info pInfo other \<longleftrightarrow>
     matchAll pInfo \<noteq> matchOne pInfo \<and> other \<noteq> ucast (matchAll pInfo) \<and> (other \<noteq> 0 \<longrightarrow> other \<noteq> ucast (matchOne pInfo)) \<and>
     (matchSet pInfo \<noteq> 0 \<longrightarrow> other < 0x80)"

definition some_suffix :: "(32 word list \<Rightarrow> bool) \<Rightarrow> 32 word list \<Rightarrow> bool" where
  "some_suffix M S \<longleftrightarrow> (\<exists>T. suffix T S \<and> M T)"

lemma some_suffix_Cons: "some_suffix M (d # S) \<longleftrightarrow> M (d # S) \<or> some_suffix M S"
  by (auto simp: some_suffix_def suffix_Cons)

lemma some_suffix_Nil: "some_suffix M [] \<longleftrightarrow> M []"
  by (auto simp: some_suffix_def)

lemma some_suffix_mono: "some_suffix M T \<Longrightarrow> suffix T S \<Longrightarrow> some_suffix M S"
  by (auto simp: some_suffix_def intro: suffix_order.trans)

lemma ucast_inject: "(ucast a :: 32 word) = ucast (b :: byte) \<longleftrightarrow> a = b"
  by (metis unat_word word_unat_eq_iff)

lemma match_all: "like_match i o' (ucast (matchAll i) # P) S \<longleftrightarrow> some_suffix (like_match i o' P) S"
  by (subst like_match.simps) (auto simp: some_suffix_def)

lemma match_one:
  assumes "like_info i o'" "matchOne i \<noteq> 0"
  shows "like_match i o' (ucast (matchOne i) # P) S \<longleftrightarrow> (\<exists>d S'. S = d # S' \<and> like_match i o' P S')"
proof -
  have "ucast (matchOne i) \<noteq> (ucast (matchAll i) :: 32 word)" "ucast (matchOne i) \<noteq> o'"
    using assms ucast_inject [of "matchOne i" 0] by (auto simp: like_info_def ucast_inject)
  then show ?thesis by (subst like_match.simps) (auto split: list.split)
qed

lemma some_suffix_all: "some_suffix (like_match i o' (ucast (matchAll i) # P)) S \<longleftrightarrow> some_suffix (like_match i o' P) S"
  by (auto simp: some_suffix_def match_all intro: suffix_order.trans)

lemma suffix_longer: "suffix T S \<Longrightarrow> \<exists>e. suffix (e # T) (d # S)"
proof (induction S arbitrary: d)
  case (Cons x S)
  then show ?case by (cases "T = x # S") (auto simp: suffix_Cons)
qed (auto simp: suffix_Cons)

lemma some_suffix_one:
  assumes "like_info i o'" "matchOne i \<noteq> 0"
  shows "some_suffix (like_match i o' (ucast (matchOne i) # P)) (d # S) \<longleftrightarrow> some_suffix (like_match i o' P) S"
    "\<not> some_suffix (like_match i o' (ucast (matchOne i) # P)) []"
proof -
  show "some_suffix (like_match i o' (ucast (matchOne i) # P)) (d # S) \<longleftrightarrow> some_suffix (like_match i o' P) S"
    unfolding some_suffix_def match_one [OF assms]
    by (auto simp: suffix_Cons dest: suffix_ConsD) (metis suffix_Cons suffix_longer)
qed (simp add: some_suffix_Nil match_one [OF assms])

lemma wild_loop_match:
  assumes "like_info i o'" "matchAll i \<noteq> 0" "0 \<in> set p" "0 \<in> set s"
  shows "(wild_loop i p s = Some (Inl SQLITE_NOWILDCARDMATCH) \<and> \<not> some_suffix (like_match i o' (chars p)) (chars s)) \<or>
    (\<exists>c p' s'. wild_loop i p s = Some (Inr (c, p', s')) \<and> 0 \<in> set s' \<and> (c \<noteq> 0 \<longrightarrow> 0 \<in> set p') \<and> set (cur c p') \<subseteq> set (chars p) \<and>
      c \<noteq> ucast (matchAll i) \<and> (c = 0 \<or> c \<noteq> ucast (matchOne i)) \<and>
      (some_suffix (like_match i o' (chars p)) (chars s) \<longleftrightarrow> some_suffix (like_match i o' (cur c p')) (chars s')))"
  using assms(3,4)
proof (induction p arbitrary: s rule: length_induct)
  case (1 p)
  obtain c y where r: "sqlite3Utf8Read p = Some (c, y)" "chars p = cur c y" "c \<noteq> 0 \<Longrightarrow> 0 \<in> set y" "length y < length p"
    using read_cur [OF "1.prems"(1)] by blast
  note e = wild_loop.simps [of i p s, unfolded Utf8Read_eq r(1) option.case prod.case]
  have a0: "ucast (matchAll i) \<noteq> (0 :: 32 word)" using assms(2) ucast_inject [of "matchAll i" 0] by simp
  have IH: "0 \<in> set y \<Longrightarrow> 0 \<in> set t \<Longrightarrow>
    (wild_loop i y t = Some (Inl SQLITE_NOWILDCARDMATCH) \<and> \<not> some_suffix (like_match i o' (chars y)) (chars t)) \<or>
    (\<exists>c p' s'. wild_loop i y t = Some (Inr (c, p', s')) \<and> 0 \<in> set s' \<and> (c \<noteq> 0 \<longrightarrow> 0 \<in> set p') \<and> set (cur c p') \<subseteq> set (chars y) \<and>
      c \<noteq> ucast (matchAll i) \<and> (c = 0 \<or> c \<noteq> ucast (matchOne i)) \<and>
      (some_suffix (like_match i o' (chars y)) (chars t) \<longleftrightarrow> some_suffix (like_match i o' (cur c p')) (chars s')))" for t
    using "1.IH" r(4) by blast
  consider (all) "c = ucast (matchAll i)" | (one) "c \<noteq> ucast (matchAll i)" "c = ucast (matchOne i)" "matchOne i \<noteq> 0"
    | (other) "c \<noteq> ucast (matchAll i)" "c = 0 \<or> c \<noteq> ucast (matchOne i)"
    using ucast_inject [of "matchOne i" 0] by auto
  then show ?case
  proof cases
    case all
    then have y0: "0 \<in> set y" using r(3) a0 by simp
    have "ucast (matchAll i) \<noteq> (ucast (matchOne i) :: 32 word)" using assms(1) by (simp add: like_info_def ucast_inject)
    then have w: "wild_loop i p s = wild_loop i y s" using e all by simp
    have c: "chars p = ucast (matchAll i) # chars y" using all a0 r(2) by (simp add: cur_def)
    from IH [OF y0 "1.prems"(2)] show ?thesis unfolding w c some_suffix_all by auto
  next
    case one
    then have n0: "c \<noteq> 0" using ucast_inject [of "matchOne i" 0] by simp
    then have y0: "0 \<in> set y" using r(3) by simp
    have c: "chars p = ucast (matchOne i) # chars y" using one n0 r(2) by (simp add: cur_def)
    from "1.prems"(2) show ?thesis
    proof (cases s rule: read_terminated)
      case (stop t)
      then have "wild_loop i p s = Some (Inl SQLITE_NOWILDCARDMATCH)" using e one by simp
      moreover have "chars s = []" using stop chars_simps(1) by blast
      ultimately show ?thesis unfolding c using some_suffix_one(2) [OF assms(1) one(3)] by simp
    next
      case (char d t)
      then have w: "wild_loop i p s = wild_loop i y t" using e one by simp
      have "chars s = d # chars t" using char chars_simps(2) by blast
      with IH [OF y0 char(3)] show ?thesis unfolding w c some_suffix_one(1) [OF assms(1) one(3)] by (auto simp: some_suffix_one(1) [OF assms(1) one(3)])
    qed
  next
    case other
    then have "wild_loop i p s = Some (Inr (c, y, s))" using e ucast_inject [of "matchOne i" 0] by auto
    with other r "1.prems"(2) show ?thesis by simp
  qed
qed

section \<open>Searching\<close>

text \<open>
  What a comparison may return: a match exactly when the pattern matches, and
  the second kind of failure only when no shorter rest of the string matches either.
\<close>

definition good :: "(32 word list \<Rightarrow> bool) \<Rightarrow> 32 word list \<Rightarrow> int \<Rightarrow> bool" where
  "good M S r \<longleftrightarrow> r \<in> {SQLITE_MATCH, SQLITE_NOMATCH, SQLITE_NOWILDCARDMATCH} \<and> (r = SQLITE_MATCH \<longleftrightarrow> M S) \<and>
     (r = SQLITE_NOWILDCARDMATCH \<longrightarrow> \<not> some_suffix M S)"

lemmas codes = SQLITE_MATCH_def SQLITE_NOMATCH_def SQLITE_NOWILDCARDMATCH_def

definition found :: "(32 word list \<Rightarrow> bool) \<Rightarrow> 32 word list \<Rightarrow> int \<Rightarrow> bool" where
  "found M S r \<longleftrightarrow> r \<in> {SQLITE_MATCH, SQLITE_NOWILDCARDMATCH} \<and> (r = SQLITE_MATCH \<longleftrightarrow> some_suffix M S)"

lemma found_good: "found M S r \<Longrightarrow> (\<And>T. M' T \<longleftrightarrow> some_suffix M T) \<Longrightarrow> good M' S r"
  by (auto simp: found_def good_def codes some_suffix_def intro: suffix_order.trans)

lemma good_Cons:
  assumes "good M' S r" "\<And>T. M T \<Longrightarrow> \<exists>d' T'. T = d' # T' \<and> M' T'" "M (d # S) \<longleftrightarrow> M' S"
  shows "good M (d # S) r"
proof -
  have "some_suffix M' S" if "some_suffix M (d # S)"
  proof -
    from that obtain T where T: "suffix T (d # S)" "M T" by (auto simp: some_suffix_def)
    with assms(2) obtain d' T' where "T = d' # T'" "M' T'" by blast
    with T have "suffix T' S" by (auto simp: suffix_Cons dest: suffix_ConsD)
    with \<open>M' T'\<close> show ?thesis by (auto simp: some_suffix_def)
  qed
  with assms(1,3) show ?thesis by (auto simp: good_def)
qed

lemma nomatch_good: "\<not> M S \<Longrightarrow> good M S SQLITE_NOMATCH"
  by (simp add: good_def codes)

lemma set_search_found:
  assumes compare: "\<And>s. 0 \<in> set s \<Longrightarrow> \<exists>r. patternCompare i o' p s = Some r \<and> good M (chars s) r"
    and "\<not> M []" "0 \<in> set s"
  shows "\<exists>r. set_search i o' p s = Some r \<and> found M (chars s) r"
  using assms(3)
proof (induction s rule: length_induct)
  case (1 s)
  then obtain b s1 where s: "s = b # s1" by (cases s) auto
  note e = set_search.simps [of i o' p s]
  from 1(2) show ?case
  proof (cases s rule: read_terminated)
    case (stop y)
    then have "set_search i o' p s = Some SQLITE_NOWILDCARDMATCH" using e by simp
    moreover have "chars s = []" using stop chars_simps(1) by blast
    ultimately show ?thesis using assms(2) by (simp add: found_def some_suffix_Nil codes)
  next
    case (char c y)
    obtain r where r: "patternCompare i o' p s = Some r" "good M (chars s) r" using compare [OF 1(2)] by blast
    have c: "chars s = c # chars y" using char chars_simps(2) by blast
    show ?thesis
    proof (cases "r = SQLITE_NOMATCH")
      case False
      then have "set_search i o' p s = Some r" using e s char(4) r(1) by simp
      moreover have "found M (chars s) r" using r(2) False by (auto simp: found_def good_def some_suffix_def)
      ultimately show ?thesis by blast
    next
      case True
      have "SQLITE_SKIP_UTF8 s = Some y" using char(1) by (simp add: skip_read del: sqlite3Utf8Read.simps)
      then have "set_search i o' p s = set_search i o' p y" using e s char(4) r(1) True by (simp del: SQLITE_SKIP_UTF8.simps)
      moreover obtain r' where "set_search i o' p y = Some r'" "found M (chars y) r'" using 1(1) char by blast
      moreover have "\<not> M (chars s)" using r(2) True by (simp add: good_def codes)
      ultimately show ?thesis by (auto simp: found_def c some_suffix_Cons)
    qed
  qed
qed

definition behind :: "(32 word \<Rightarrow> bool) \<Rightarrow> (32 word list \<Rightarrow> bool) \<Rightarrow> 32 word list \<Rightarrow> bool" where
  "behind eq M T \<longleftrightarrow> (\<exists>d S. T = d # S \<and> eq d \<and> M S)"

lemma behind_simps [simp]: "\<not> behind eq M []" "behind eq M (d # S) \<longleftrightarrow> eq d \<and> M S"
  by (simp_all add: behind_def)

lemma behind_longer: "some_suffix (behind eq M) S \<Longrightarrow> some_suffix M S"
  by (auto simp: some_suffix_def behind_def dest: suffix_ConsD)

lemma char_search_found:
  assumes compare: "\<And>s. 0 \<in> set s \<Longrightarrow> \<exists>r. patternCompare i o' p s = Some r \<and> good M (chars s) r"
    and "0 \<in> set s"
  shows "\<exists>r. char_search i o' c p s = Some r \<and> found (behind (\<lambda>d. d = c) M) (chars s) r"
  using assms(2)
proof (induction s rule: length_induct)
  case (1 s)
  note e = char_search.simps [of i o' c p s, unfolded Utf8Read_eq]
  from 1(2) show ?case
  proof (cases s rule: read_terminated)
    case (stop y)
    then have "char_search i o' c p s = Some SQLITE_NOWILDCARDMATCH" using e by simp
    moreover have "chars s = []" using stop chars_simps(1) by blast
    ultimately show ?thesis by (simp add: found_def some_suffix_Nil codes)
  next
    case (char d y)
    obtain r where r: "patternCompare i o' p y = Some r" "good M (chars y) r" using compare char(3) by blast
    obtain r' where r': "char_search i o' c p y = Some r'" "found (behind (\<lambda>d. d = c) M) (chars y) r'" using 1(1) char by blast
    have c: "chars s = d # chars y" using char chars_simps(2) by blast
    show ?thesis
    proof (cases "d = c \<and> r \<noteq> SQLITE_NOMATCH")
      case True
      then have "char_search i o' c p s = Some r" using e char r(1) by (simp del: sqlite3Utf8Read.simps)
      moreover have "found (behind (\<lambda>d. d = c) M) (chars s) r"
        using r(2) True behind_longer [of _ M "chars y"] by (auto simp: found_def good_def c some_suffix_Cons)
      ultimately show ?thesis by blast
    next
      case False
      then have "char_search i o' c p s = char_search i o' c p y"
        using e char r(1) by (auto simp del: sqlite3Utf8Read.simps)
      moreover have "d = c \<longrightarrow> \<not> M (chars y)" using r(2) False by (auto simp: good_def codes)
      ultimately show ?thesis using r' by (auto simp: found_def c some_suffix_Cons)
    qed
  qed
qed

lemma tail_bytes: "utf8_read_tail c z = Some (d, y) \<Longrightarrow> \<exists>bs. z = bs @ y \<and> (\<forall>b\<in>set bs. \<not> b < 0x80)"
proof (induction c z rule: utf8_read_tail.induct)
  case (2 c b z)
  show ?case
  proof (cases "b AND 0xc0 = 0x80")
    case True
    with 2 obtain bs where "z = bs @ y" "\<forall>b\<in>set bs. \<not> b < 0x80" by auto
    with True low_not_cont [of b] show ?thesis by (intro exI [of _ "b # bs"]) auto
  qed (use 2 in auto)
qed simp

lemma read_bytes:
  assumes "sqlite3Utf8Read s = Some (c, y)"
  shows "(\<exists>b. s = b # y \<and> b < 0x80 \<and> c = ucast b) \<or> (\<exists>bs. s = bs @ y \<and> (\<forall>b\<in>set bs. \<not> b < 0x80) \<and> \<not> c < 0x80)"
proof -
  obtain b z where s: "s = b # z" using assms by (cases s) auto
  show ?thesis
  proof (cases "b \<ge> 0xC0")
    case True
    with assms s obtain d where d: "utf8_read_tail (of_nat (sqlite3Utf8Trans1 ! unat (b - 0xc0))) z = Some (d, y)" "c = utf8_accept d"
      by (auto split: option.splits)
    from tail_bytes [OF d(1)] obtain bs where "z = bs @ y" "\<forall>b\<in>set bs. \<not> b < 0x80" by blast
    moreover have "\<not> b < 0x80" using True by (auto simp: word_le_nat_alt word_less_nat_alt)
    moreover have "\<not> c < 0x80" by (simp add: d(2) utf8_accept_def)
    ultimately show ?thesis using s by (intro disjI2 exI [of _ "b # bs"]) auto
  next
    case False
    then have c: "c = ucast b" "y = z" using assms s by simp_all
    have "(c < 0x80) \<longleftrightarrow> b < 0x80" by (simp add: c word_less_nat_alt unat_word)
    with c s show ?thesis by (cases "b < 0x80") (auto intro: exI [of _ "[b]"])
  qed
qed

lemma letters:
  assumes "unat c < 128"
  shows "tolower32 c = (if 65 \<le> unat c \<and> unat c \<le> 90 then unat c + 32 else unat c)"
    "toupper32 c = (if 97 \<le> unat c \<and> unat c \<le> 122 then unat c - 32 else unat c)"
proof -
  have "of_char (char_of (unat c)) = unat c" using assms by simp
  then show "tolower32 c = (if 65 \<le> unat c \<and> unat c \<le> 90 then unat c + 32 else unat c)"
    by (simp add: tolower32_def sqlite3Tolower_ascii)
  have "ctype_range n AND 0x20 = (if 97 \<le> n \<and> n \<le> 122 then 0x20 else 0)" if "n < 128" for n
    using that by (simp add: ctype_range_def)
  with assms show "toupper32 c = (if 97 \<le> unat c \<and> unat c \<le> 122 then unat c - 32 else unat c)"
    by (simp add: toupper32_def sqlite3Toupper_def ctype_eq_range)
qed

lemma byte_of_nat: "n < 256 \<Longrightarrow> b = of_nat n \<longleftrightarrow> unat (b :: byte) = n"
  by (simp add: word_unat_eq_iff unat_of_nat)

lemma stop_bytes_equal:
  assumes "c < 0x80"
  shows "b \<in> set (stop_bytes i c) \<longleftrightarrow> b < 0x80 \<and> like_equal i c (ucast b)"
proof -
  have l: "unat c < 128" using assms by (simp add: word_less_nat_alt)
  have u: "unat (ucast c :: byte) = unat c" using l by (subst unat_byte) simp_all
  have e: "b = ucast c \<longleftrightarrow> unat b = unat c" using u by (simp add: word_unat_eq_iff)
  have c: "c = ucast b \<longleftrightarrow> unat b = unat c" by (auto simp: word_unat_eq_iff unat_word)
  have b: "b < 0x80 \<longleftrightarrow> unat b < 128" "ucast b < (0x80 :: 32 word) \<longleftrightarrow> unat b < 128"
    by (simp_all add: word_less_nat_alt unat_word)
  show ?thesis
  proof (cases "noCase i")
    case False
    then show ?thesis using e c b l by (auto simp: stop_bytes_def like_equal_def)
  next
    case True
    have t: "toupper32 c < 256" "tolower32 c < 256" using l by (auto simp: letters)
    have n: "b = of_nat (toupper32 c) \<longleftrightarrow> unat b = toupper32 c" "b = of_nat (tolower32 c) \<longleftrightarrow> unat b = tolower32 c"
      by (rule byte_of_nat [OF t(1)], rule byte_of_nat [OF t(2)])
    have m: "b \<in> set (stop_bytes i c) \<longleftrightarrow> unat b = toupper32 c \<or> unat b = tolower32 c"
      using \<open>noCase i\<close> by (simp add: stop_bytes_def n)
    show ?thesis
    proof (cases "unat b < 128")
      case True
      then have "unat (ucast b :: 32 word) < 128" by (simp add: unat_word)
      note lb = letters [OF this, unfolded unat_word]
      show ?thesis
        unfolding m like_equal_def b c letters [OF l] lb using \<open>noCase i\<close> True assms l by auto
    next
      case False
      then show ?thesis unfolding m like_equal_def b c letters [OF l] using l by auto
    qed
  qed
qed

lemma byte_search_found:
  assumes compare: "\<And>s. 0 \<in> set s \<Longrightarrow> \<exists>r. patternCompare i o' p s = Some r \<and> good M (chars s) r"
    and stops: "\<And>b. b \<in> set zs \<longleftrightarrow> b < 0x80 \<and> eq (ucast b)" "\<And>d. eq d \<Longrightarrow> d < 0x80" and "0 \<in> set s"
  shows "\<exists>r. byte_search i o' zs p s = Some r \<and> found (behind eq M) (chars s) r"
  using assms(4)
proof (induction s rule: length_induct)
  case (1 s)
  note e = byte_search.simps [of i o' zs p s]
  from 1(2) show ?case
  proof (cases s rule: read_terminated)
    case (stop y)
    then have "byte_search i o' zs p s = Some SQLITE_NOWILDCARDMATCH" using e by simp
    moreover have "chars s = []" using stop chars_simps(1) by blast
    ultimately show ?thesis by (simp add: found_def some_suffix_Nil codes)
  next
    case (char d y)
    have c: "chars s = d # chars y" using char chars_simps(2) by blast
    obtain r' where r': "byte_search i o' zs p y = Some r'" "found (behind eq M) (chars y) r'" using 1(1) char by blast
    from read_bytes [OF char(1)] consider (hit) b where "s = b # y" "b < 0x80" "d = ucast b" "eq d"
      | (miss) bs where "s = bs @ y" "\<forall>b\<in>set bs. b \<noteq> 0 \<and> b \<notin> set zs" "\<not> eq d"
    proof (elim disjE exE conjE)
      fix b assume b: "s = b # y" "b < 0x80" "d = ucast b"
      show thesis
      proof (cases "eq d")
        case False
        have "b \<noteq> 0" using b(3) char(2) by auto
        with miss [of "[b]"] b False stops(1) show thesis by simp
      qed (use hit b in blast)
    next
      fix bs assume b: "s = bs @ y" "\<forall>b\<in>set bs. \<not> b < 0x80" "\<not> d < 0x80"
      then have "\<forall>b\<in>set bs. b \<noteq> 0 \<and> b \<notin> set zs" using stops(1) by auto
      with miss [of bs] b stops(2) show thesis by blast
    qed
    then show ?thesis
    proof cases
      case hit
      obtain r where r: "patternCompare i o' p y = Some r" "good M (chars y) r" using compare char(3) by blast
      have "b \<noteq> 0" using hit(3) char(2) by auto
      moreover have "b \<in> set zs" unfolding stops(1) using hit(2-4) by blast
      ultimately have b: "byte_search i o' zs p s = (if r \<noteq> SQLITE_NOMATCH then Some r else byte_search i o' zs p y)"
        using e hit(1) r(1) by simp
      show ?thesis
      proof (cases "r = SQLITE_NOMATCH")
        case False
        moreover have "found (behind eq M) (chars s) r"
          using r(2) False hit(4) behind_longer [of eq M "chars y"] by (auto simp: found_def good_def c some_suffix_Cons)
        ultimately show ?thesis using b by auto
      next
        case True
        moreover have "\<not> M (chars y)" using r(2) True by (simp add: good_def codes)
        ultimately show ?thesis using b r' by (auto simp: found_def c some_suffix_Cons)
      qed
    next
      case miss
      then have "dropWhile (\<lambda>b. b \<noteq> 0 \<and> b \<notin> set zs) s = dropWhile (\<lambda>b. b \<noteq> 0 \<and> b \<notin> set zs) y" by simp
      then have "byte_search i o' zs p s = byte_search i o' zs p y" using e byte_search.simps [of i o' zs p y] by simp
      with r' miss(3) show ?thesis by (auto simp: found_def c some_suffix_Cons)
    qed
  qed
qed

section \<open>The comparison is the meaning of the pattern\<close>

lemma glob_set_members: "glob_set P = Some (v, rs, P') \<Longrightarrow> set P' \<subseteq> set P"
proof -
  have s: "set_members prior P = Some (rs, P') \<Longrightarrow> set P' \<subseteq> set P" for prior rs P
    by (induction prior P arbitrary: rs rule: set_members.induct) (auto split: if_splits)
  show "glob_set P = Some (v, rs, P') \<Longrightarrow> set P' \<subseteq> set P"
    by (auto simp: glob_set_def Let_def split: list.splits if_splits dest!: s)
qed

lemma match_Cons:
  assumes "c \<noteq> ucast (matchAll i)"
  shows "like_match i o' (c # P) [] = False"
    "c = o' \<Longrightarrow> matchSet i \<noteq> 0 \<Longrightarrow> like_match i o' (c # P) (d # S) \<longleftrightarrow>
      (case glob_set P of None \<Rightarrow> False | Some (v, rs, P') \<Rightarrow> in_set v rs d \<and> like_match i o' P' S)"
    "c = o' \<Longrightarrow> matchSet i = 0 \<Longrightarrow> like_match i o' (c # P) (d # S) \<longleftrightarrow>
      (case P of [] \<Rightarrow> False | e # P' \<Rightarrow> like_equal i e d \<and> like_match i o' P' S)"
    "c \<noteq> o' \<Longrightarrow> like_match i o' (c # P) (d # S) \<longleftrightarrow> (like_equal i c d \<or> c = ucast (matchOne i)) \<and> like_match i o' P S"
  using assms by (subst like_match.simps; simp)+

lemma chars_stop:
  assumes "0 \<in> set z" "chars z = []"
  shows "\<exists>y. sqlite3Utf8Read z = Some (0, y)"
  using assms(1)
proof (cases z rule: read_terminated)
  case (char c y)
  with assms(2) chars_simps(2) show ?thesis by simp
qed blast

lemma match_longer:
  assumes "c \<noteq> ucast (matchAll i)" "like_match i o' (c # P) T"
  obtains d T' where "T = d # T'"
  using assms match_Cons(1) by (cases T) auto

theorem patternCompare_good:
  assumes info: "like_info i o'"
  shows "0 \<in> set p \<Longrightarrow> 0 \<in> set s \<Longrightarrow> 0x80 \<notin> set (chars p) \<Longrightarrow>
    \<exists>r. patternCompare i o' p s = Some r \<and> good (like_match i o' (chars p)) (chars s) r"
proof (induction p arbitrary: s rule: length_induct)
  case (1 p)
  let ?M = "\<lambda>p. like_match i o' (chars p)"
  have IH: "\<exists>r. patternCompare i o' q t = Some r \<and> good (?M q) (chars t) r"
    if "length q < length p" "0 \<in> set q" "0x80 \<notin> set (chars q)" "0 \<in> set t" for q t
    using "1.IH" that by blast
  obtain c y where r: "sqlite3Utf8Read p = Some (c, y)" "chars p = cur c y" "c \<noteq> 0 \<Longrightarrow> 0 \<in> set y" "length y < length p"
    using read_cur [OF "1.prems"(1)] by blast
  note e = patternCompare.simps [of i o' p s, unfolded Utf8Read_eq r(1) option.case prod.case]
  obtain b s1 where s: "s = b # s1" using "1.prems"(2) by (cases s) auto
  consider (stop) "c = 0" | (all) "c \<noteq> 0" "c = ucast (matchAll i)" | (gset) "c \<noteq> 0" "c \<noteq> ucast (matchAll i)" "c = o'" "matchSet i \<noteq> 0"
    | (lit) "c \<noteq> 0" "c \<noteq> ucast (matchAll i)" "\<not> (c = o' \<and> matchSet i \<noteq> 0)" by blast
  then show ?case
  proof cases
    case stop
    then have "patternCompare i o' p s = Some (if b = 0 then SQLITE_MATCH else SQLITE_NOMATCH)" using e s by simp
    moreover have "chars s = [] \<longleftrightarrow> b = 0" using chars_Nil_iff [OF "1.prems"(2)] s by simp
    moreover have "chars p = []" using r(2) stop by (simp add: cur_def)
    ultimately show ?thesis by (auto simp: good_def codes)
  next
    case all
    have cp: "chars p = ucast (matchAll i) # chars y" using r(2) all by (simp add: cur_def)
    have y0: "0 \<in> set y" using r(3) all by simp
    have a0: "matchAll i \<noteq> 0" using all by auto
    have M: "?M p T \<longleftrightarrow> some_suffix (?M y) T" for T unfolding cp match_all ..
    from wild_loop_match [OF info a0 y0 "1.prems"(2)] show ?thesis
    proof (rule disjE, goal_cases)
      case 1
      then have w: "wild_loop i y s = Some (Inl SQLITE_NOWILDCARDMATCH)" "\<not> some_suffix (?M y) (chars s)" by blast+
      then have "patternCompare i o' p s = Some SQLITE_NOWILDCARDMATCH" using e all by simp
      moreover have "found (?M y) (chars s) SQLITE_NOWILDCARDMATCH" using w(2) by (simp add: found_def codes)
      ultimately show ?thesis using found_good [OF _ M] by blast
    next
      case 2
      then obtain c1 p1 s' where w: "wild_loop i y s = Some (Inr (c1, p1, s'))" "0 \<in> set s'" "c1 \<noteq> 0 \<longrightarrow> 0 \<in> set p1"
        "set (cur c1 p1) \<subseteq> set (chars y)" "c1 \<noteq> ucast (matchAll i)" "c1 = 0 \<or> c1 \<noteq> ucast (matchOne i)"
        "some_suffix (?M y) (chars s) \<longleftrightarrow> some_suffix (like_match i o' (cur c1 p1)) (chars s')"
        by blast
      have l1: "length p1 < length y" using wild_loop_length [OF w(1)] by simp
      have n80: "0x80 \<notin> set (cur c1 p1)" using w(4) "1.prems"(3) cp by auto
      note e1 = e [unfolded if_not_P [OF all(1)] if_P [OF all(2)] w(1) option.case sum.case prod.case]
      have go: ?thesis if "patternCompare i o' p s = Some q" "found M' (chars s') q"
        "\<And>T. some_suffix (like_match i o' (cur c1 p1)) T \<longleftrightarrow> some_suffix M' T" for q M'
      proof -
        have "found (?M y) (chars s) q" using that(2) w(7) unfolding found_def that(3) by auto
        with that(1) show ?thesis using found_good [OF _ M] by blast
      qed
      show ?thesis
      proof (cases "c1 = 0")
        case True
        then have "patternCompare i o' p s = Some SQLITE_MATCH" using e1 by simp
        moreover have "some_suffix (like_match i o' (cur c1 p1)) (chars s')"
          using True by (auto simp: cur_def some_suffix_def intro: exI [of _ "[]"])
        then have "found (like_match i o' (cur c1 p1)) (chars s') SQLITE_MATCH" by (simp add: found_def codes)
        ultimately show ?thesis using go by blast
      next
        case False
        then have p0: "0 \<in> set p1" using w(3) by simp
        have c1: "cur c1 p1 = c1 # chars p1" using False by (simp add: cur_def)
        show ?thesis
        proof (cases "c1 = o' \<and> matchSet i \<noteq> 0")
          case True
          let ?q = "ucast o' # p1"
          have o80: "o' < 0x80" using info True by (simp add: like_info_def)
          then have u: "ucast (ucast o' :: byte) = o'" using low_byte(2) by blast
          have "unat o' < 128" using o80 by (simp add: word_less_nat_alt)
          then have ub: "unat (ucast o' :: byte) = unat o'" by (subst unat_byte) simp_all
          then have "sqlite3Utf8Read ?q = Some (o', p1)" using o80 u by (simp add: word_le_nat_alt word_less_nat_alt)
          then have cq: "chars ?q = o' # chars p1" using True False by (intro chars_simps(2)) simp_all
          have "length ?q < length p" using l1 r(4) by simp
          then have "\<exists>r. patternCompare i o' ?q t = Some r \<and> good (?M ?q) (chars t) r" if "0 \<in> set t" for t
            using IH [of ?q t] that p0 n80 c1 cq True by simp
          from set_search_found [OF this _ w(2)] cq match_Cons(1) [OF w(5), of o'] True
          obtain q where "set_search i o' ?q s' = Some q" "found (?M ?q) (chars s') q" by auto
          moreover have "patternCompare i o' p s = set_search i o' ?q s'" using e1 False True by simp
          ultimately show ?thesis using go [of q "?M ?q"] cq c1 True by simp
        next
          case noset: False
          show ?thesis
          proof (cases "c1 = o' \<and> chars p1 = []")
            case True
            then obtain z where "sqlite3Utf8Read p1 = Some (0, z)" using chars_stop [OF p0] by blast
            then have "patternCompare i o' p s = Some SQLITE_NOWILDCARDMATCH" using e1 False noset True by simp
            moreover have "\<not> like_match i o' (cur c1 p1) T" for T
              using match_Cons(1,3) [OF w(5), of o'] True noset c1 by (cases T) auto
            then have "found (like_match i o' (cur c1 p1)) (chars s') SQLITE_NOWILDCARDMATCH"
              by (simp add: found_def some_suffix_def codes)
            ultimately show ?thesis using go by blast
          next
            case lit: False
            obtain c2 p2 where c2: "(if c1 = o' then sqlite3Utf8Read p1 else Some (c1, p1)) = Some (c2, p2)" "c2 \<noteq> 0"
              "0 \<in> set p2" "length p2 \<le> length p1" "set (c2 # chars p2) \<subseteq> set (cur c1 p1)"
              "\<And>T. like_match i o' (cur c1 p1) T \<longleftrightarrow> behind (like_equal i c2) (?M p2) T"
            proof (cases "c1 = o'")
              case True
              from p0 show thesis
              proof (cases p1 rule: read_terminated)
                case (stop z)
                then show thesis using lit True chars_simps(1) by blast
              next
                case (char c2 p2)
                then have "chars p1 = c2 # chars p2" using chars_simps(2) by blast
                moreover have "like_match i o' (cur c1 p1) T \<longleftrightarrow> behind (like_equal i c2) (?M p2) T" for T
                  using match_Cons(1,3) [OF w(5), of o'] True noset c1 calculation by (cases T) auto
                ultimately show thesis using that [of c2 p2] char True c1 by auto
              qed
            next
              case False
              moreover have "like_match i o' (cur c1 p1) T \<longleftrightarrow> behind (like_equal i c1) (?M p1) T" for T
                using match_Cons(1,4) [OF w(5), of o'] False w(6) \<open>c1 \<noteq> 0\<close> c1 by (cases T) auto
              ultimately show thesis using that [of c1 p1] \<open>c1 \<noteq> 0\<close> p0 c1 by auto
            qed
            have cmp: "\<exists>r. patternCompare i o' p2 t = Some r \<and> good (?M p2) (chars t) r" if "0 \<in> set t" for t
              using IH [of p2 t] that c2(3,4,5) l1 r(4) n80 by auto
            have M': "some_suffix (like_match i o' (cur c1 p1)) T \<longleftrightarrow> some_suffix (behind (like_equal i c2) (?M p2)) T" for T
              unfolding some_suffix_def c2(6) ..
            have p: "patternCompare i o' p s =
                (if c2 \<le> 0x80 then byte_search i o' (stop_bytes i c2) p2 s' else char_search i o' c2 p2 s')"
              using e1 False noset c2(1,2) by (auto simp del: sqlite3Utf8Read.simps)
            have "c2 \<noteq> 0x80" using c2(5) n80 by auto
            show ?thesis
            proof (cases "c2 < 0x80")
              case True
              have "like_equal i c2 d \<Longrightarrow> d < 0x80" for d using True by (auto simp: like_equal_def)
              from byte_search_found [OF cmp stop_bytes_equal [OF True, of _ i] this w(2)]
              obtain q where "byte_search i o' (stop_bytes i c2) p2 s' = Some q" "found (behind (like_equal i c2) (?M p2)) (chars s') q"
                by blast
              then show ?thesis using go [OF _ _ M', of q] p less_imp_le [OF True] by simp
            next
              case False
              then have "like_equal i c2 = (\<lambda>d. d = c2)" by (auto simp: like_equal_def)
              then show ?thesis using char_search_found [OF cmp w(2), of c2] go [OF _ _ M'] p False \<open>c2 \<noteq> 0x80\<close> by auto
            qed
          qed
        qed
      qed
    qed
  next
    case gset
    have cp: "chars p = c # chars y" using r(2) gset by (simp add: cur_def)
    have y0: "0 \<in> set y" using r(3) gset by simp
    note e1 = e [unfolded if_not_P [OF gset(1)] if_not_P [OF gset(2)] if_P [OF conjI [OF gset(3,4)]]]
    from "1.prems"(2) show ?thesis
    proof (cases s rule: read_terminated)
      case (stop z)
      then have "patternCompare i o' p s = Some SQLITE_NOMATCH" using e1 by simp
      moreover have "\<not> ?M p (chars s)" using stop chars_simps(1) [of s z] match_Cons(1) [OF gset(2)] cp by auto
      ultimately show ?thesis using nomatch_good by blast
    next
      case (char d z)
      have cs: "chars s = d # chars z" using char chars_simps(2) by blast
      note e2 = e1 [unfolded char(1) option.case prod.case if_not_P [OF char(2)]]
      note m = match_Cons(2) [OF gset(2-4)]
      note g = set_match_glob [OF y0, of d]
      show ?thesis
      proof (cases "glob_set (chars y)")
        case None
        then have "patternCompare i o' p s = Some SQLITE_NOMATCH" "\<not> ?M p (chars s)"
          using e2 g m [of "chars y" d] cp cs by simp_all
        then show ?thesis using nomatch_good by blast
      next
        case (Some a)
        obtain v rs P' where a: "a = (v, rs, P')" by (cases a)
        show ?thesis
        proof (cases "in_set v rs d")
          case False
          then have "patternCompare i o' p s = Some SQLITE_NOMATCH" "\<not> ?M p (chars s)"
            using e2 g m [of "chars y" d] cp cs Some a by simp_all
          then show ?thesis using nomatch_good by blast
        next
          case True
          then obtain z' where z': "set_match d y = Some (Some z')" "0 \<in> set z'" "chars z' = P'"
            using g Some a by auto
          have "length z' < length p" using set_match_length [OF z'(1)] r(4) by simp
          moreover have "0x80 \<notin> set (chars z')"
            using glob_set_members [of "chars y"] Some a z'(3) "1.prems"(3) cp by auto
          ultimately obtain q where q: "patternCompare i o' z' z = Some q" "good (?M z') (chars z) q"
            using IH [of z' z] z'(2) char(3) by blast
          have "good (?M p) (d # chars z) q"
          proof (rule good_Cons [OF q(2)])
            show "?M p (d # chars z) \<longleftrightarrow> ?M z' (chars z)" using m [of "chars y" d] cp Some a True z'(3) by simp
            show "\<exists>d' T'. T = d' # T' \<and> ?M z' T'" if "?M p T" for T
            proof -
              from match_longer [OF gset(2)] that cp obtain d' T' where T: "T = d' # T'" by metis
              with that m [of "chars y" d' T'] cp Some a z'(3) show ?thesis by simp
            qed
          qed
          moreover have "patternCompare i o' p s = Some q" using e2 z'(1) q(1) by simp
          ultimately show ?thesis using cs by auto
        qed
      qed
    qed
  next
    case lit
    have cp: "chars p = c # chars y" using r(2) lit by (simp add: cur_def)
    have y0: "0 \<in> set y" using r(3) lit by simp
    note e1 = e [unfolded if_not_P [OF lit(1)] if_not_P [OF lit(2)] if_not_P [OF lit(3)]]
    show ?thesis
    proof (cases "c = o' \<and> chars y = []")
      case True
      then obtain z where "sqlite3Utf8Read y = Some (0, z)" using chars_stop [OF y0] by blast
      then have "patternCompare i o' p s = Some SQLITE_NOMATCH" using e1 True by simp
      moreover have "\<not> ?M p (chars s)"
        using match_Cons(1,3) [OF lit(2), of o'] True lit(3) cp by (cases "chars s") auto
      ultimately show ?thesis using nomatch_good by blast
    next
      case False
      obtain c' y' where c': "(if c = o' then sqlite3Utf8Read y else Some (c, y)) = Some (c', y')" "c' \<noteq> 0"
        "0 \<in> set y'" "length y' \<le> length y" "set (chars y') \<subseteq> set (chars y)"
        "\<And>d S. ?M p (d # S) \<longleftrightarrow> (like_equal i c' d \<or> c' = ucast (matchOne i) \<and> c \<noteq> o') \<and> ?M y' S"
      proof (cases "c = o'")
        case True
        from y0 show thesis
        proof (cases y rule: read_terminated)
          case (stop z)
          then show thesis using False True chars_simps(1) by blast
        next
          case (char c2 p2)
          then have "chars y = c2 # chars p2" using chars_simps(2) by blast
          then show thesis using that [of c2 p2] char True cp match_Cons(3) [OF lit(2) True] lit(3) by auto
        qed
      next
        case c: False
        then show thesis using that [of c y] lit(1) y0 cp match_Cons(4) [OF lit(2) c] by auto
      qed
      have eq0: "\<not> like_equal i c' 0"
      proof
        assume "like_equal i c' 0"
        with c'(2) have l: "c' < 0x80" "tolower32 c' = tolower32 0" by (auto simp: like_equal_def)
        have u: "unat c' < 128" using l(1) by (simp add: word_less_nat_alt)
        have "tolower32 c' = 0" using l(2) letters(1) [of 0] by simp
        then have "unat c' = 0" using letters(1) [OF u] by (auto split: if_splits)
        with c'(2) show False by (simp add: unat_eq_0)
      qed
      note e2 = e1 [unfolded c'(1) option.case prod.case if_not_P [OF c'(2)]]
      have cond: "(c' = d \<or> noCase i \<and> tolower32 c' = tolower32 d \<and> c' < 0x80 \<and> d < 0x80 \<or> c' = ucast (matchOne i) \<and> c \<noteq> o' \<and> d \<noteq> 0) \<longleftrightarrow>
          like_equal i c' d \<or> c' = ucast (matchOne i) \<and> c \<noteq> o' \<and> d \<noteq> 0" for d
        by (auto simp: like_equal_def)
      note e3 = e2 [unfolded cond]
      from "1.prems"(2) show ?thesis
      proof (cases s rule: read_terminated)
        case (stop z)
        then have "patternCompare i o' p s = Some SQLITE_NOMATCH" using e3 eq0 by simp
        moreover have "\<not> ?M p (chars s)" using stop chars_simps(1) [of s z] match_Cons(1) [OF lit(2)] cp by auto
        ultimately show ?thesis using nomatch_good by blast
      next
        case (char d z)
        have cs: "chars s = d # chars z" using char chars_simps(2) by blast
        note e4 = e3 [unfolded char(1) option.case prod.case]
        show ?thesis
        proof (cases "like_equal i c' d \<or> c' = ucast (matchOne i) \<and> c \<noteq> o'")
          case False
          then have "patternCompare i o' p s = Some SQLITE_NOMATCH" "\<not> ?M p (chars s)" using e4 c'(6) cs by auto
          then show ?thesis using nomatch_good by blast
        next
          case True
          have "0x80 \<notin> set (chars y')" using c'(5) "1.prems"(3) cp by auto
          then obtain q where q: "patternCompare i o' y' z = Some q" "good (?M y') (chars z) q"
            using IH [of y' z] c'(3,4) r(4) char(3) by auto
          have "good (?M p) (d # chars z) q"
          proof (rule good_Cons [OF q(2)])
            show "?M p (d # chars z) \<longleftrightarrow> ?M y' (chars z)" using c'(6) True by simp
            show "\<exists>d' T'. T = d' # T' \<and> ?M y' T'" if "?M p T" for T
            proof -
              from match_longer [OF lit(2)] that cp obtain d' T' where T: "T = d' # T'" by metis
              with that c'(6) show ?thesis by simp
            qed
          qed
          moreover have "patternCompare i o' p s = Some q" using e4 True char(2) q(1) by auto
          ultimately show ?thesis using cs by auto
        qed
      qed
    qed
  qed
qed

lemma c_bytes_0 [simp]: "0 \<in> set (c_bytes t)"
  by (simp add: c_bytes_def)

lemma char_len_1: "0 \<in> set z \<Longrightarrow> utf8_len_loop z n False r = Some (r + length (chars z))"
proof (induction z arbitrary: n r rule: length_induct)
  case (1 z)
  then obtain b z1 where z: "z = b # z1" by (cases z) auto
  from "1.prems" show ?case
  proof (cases z rule: read_terminated)
    case (stop y)
    then show ?thesis using chars_simps(1) by (subst utf8_len_loop.simps) simp
  next
    case (char c y)
    then have "SQLITE_SKIP_UTF8 z = Some y" by (simp add: skip_read del: sqlite3Utf8Read.simps)
    moreover have "chars z = c # chars y" using char chars_simps(2) by blast
    moreover have "utf8_len_loop y m False (r + 1) = Some (r + 1 + length (chars y))" for m using 1 char by blast
    ultimately show ?thesis using z char(4) by (subst utf8_len_loop.simps) (simp del: SQLITE_SKIP_UTF8.simps)
  qed
qed

lemma infos: "like_info globInfo (ucast (matchSet globInfo))" "like_info likeInfoNorm (ucast (matchSet likeInfoNorm))"
  "like_info likeInfoAlt (ucast (matchSet likeInfoAlt))"
  by code_simp+

lemma escape_infos:
  assumes "matchAll pInfo \<noteq> 0" "matchOne pInfo \<noteq> 0" "matchAll pInfo \<noteq> matchOne pInfo" "escape \<noteq> 0" "matchSet pInfo = 0"
  shows "like_info (escape_info pInfo escape) escape"
  using assms ucast_inject [of "matchAll pInfo" 0] ucast_inject [of "matchOne pInfo" 0]
  by (auto simp: like_info_def escape_info_def Let_def ucast_inject)

lemma like_compare_match:
  assumes "like_info info escape" "sv_text (argv ! 0) = Some zB" "sv_text (argv ! 1) = Some zA" "0x80 \<notin> set (chars (c_bytes zB))"
  shows "like_compare info escape argv c =
    (Inr (), c\<lparr>fc_out := Fn_int (if like_match info escape (chars (c_bytes zB)) (chars (c_bytes zA)) then 1 else 0)\<rparr>)"
proof -
  obtain r where "patternCompare info escape (c_bytes zB) (c_bytes zA) = Some r"
    "good (like_match info escape (chars (c_bytes zB))) (chars (c_bytes zA)) r"
    using patternCompare_good [OF assms(1) _ _ assms(4), of "c_bytes zA"] by auto
  then show ?thesis using assms(2,3) by (auto simp: like_compare_def sqlite3_result_def good_def)
qed

section \<open>Properties\<close>

text \<open>
  C24: the matcher is right. For every pattern and string, well-formed UTF-8 or not, \<^verbatim>\<open>patternCompare\<close> ends, reads no
  byte behind a terminator, and reports a match exactly when the pattern matches by its meaning: a wildcard
  stands for any sequence of characters. The answer "no match in spite of wildcards", which stops the
  searches of all enclosing wildcards, is given only when the pattern matches no end of the string either. The pattern
  must not have the character \<open>U+0080\<close>: behind a wildcard it is searched for as a byte (\<^verbatim>\<open>c<=0x80\<close> where
  \<^verbatim>\<open>c<0x80\<close> is meant) and found inside other characters, as in the example.
\<close>

theorem like_pattern_meaning:
  assumes "like_info pInfo other" and "0 \<in> set zPattern" and "0 \<in> set zString" and "0x80 \<notin> set (chars zPattern)"
  shows "(\<exists>r. patternCompare pInfo other zPattern zString = Some r \<and>
      (r = SQLITE_MATCH \<longleftrightarrow> like_match pInfo other (chars zPattern) (chars zString)) \<and>
      (r = SQLITE_NOWILDCARDMATCH \<longrightarrow>
        (\<forall>T \<in> set (suffixes (chars zString)). \<not> like_match pInfo other (chars zPattern) T))) \<and>
    sqlite3_strlike [0x25, 0xC2, 0x80, 0] [0xC4, 0x80, 0] 0 = Some SQLITE_MATCH \<and>
    \<not> like_match likeInfoNorm 0 (chars [0x25, 0xC2, 0x80, 0]) (chars [0xC4, 0x80, 0])"
proof -
  have "sqlite3_strlike [0x25, 0xC2, 0x80, 0] [0xC4, 0x80, 0] 0 = Some SQLITE_MATCH"
    "\<not> like_match likeInfoNorm 0 (chars [0x25, 0xC2, 0x80, 0]) (chars [0xC4, 0x80, 0])" by code_simp+
  moreover obtain r where "patternCompare pInfo other zPattern zString = Some r"
    "good (like_match pInfo other (chars zPattern)) (chars zString) r"
    using patternCompare_good [OF assms] by blast
  ultimately show ?thesis by (auto simp: good_def some_suffix_def)
qed

theorem like_pattern_meaning_witness:
  "\<exists>r. patternCompare globInfo (ch CHR ''['') (c_bytes ''a*[b-d]'') (c_bytes ''axxc'') = Some r \<and> r = SQLITE_MATCH"
proof -
  have i: "like_info globInfo (ch CHR ''['')" using infos(1) by (simp add: globInfo_def ch_def)
  have "0x80 \<notin> set (chars (c_bytes ''a*[b-d]''))" by code_simp
  moreover have "like_match globInfo (ch CHR ''['') (chars (c_bytes ''a*[b-d]'')) (chars (c_bytes ''axxc''))" by code_simp
  ultimately show ?thesis using like_pattern_meaning [OF i c_bytes_0 c_bytes_0] by blast
qed

text \<open>
  The SQL functions \<^verbatim>\<open>LIKE\<close> and \<^verbatim>\<open>GLOB\<close>. With a pattern within the limit the result is 1 when the pattern matches and
  0 when it does not; an escape character takes its role also when it is one of the wildcards. A pattern that is
  too long and an escape string of other than one character are errors.
\<close>

theorem like_function_result:
  fixes c :: "'x fn_context"
  assumes "sv_text (argv ! 0) = Some zB" and "sv_text (argv ! 1) = Some zA" and "0x80 \<notin> set (chars (c_bytes zB))"
    and "sv_text (argv ! 2) = Some zEsc" and "int (length (sv_blob (argv ! 0))) \<le> patternLimit"
  shows "(length argv = 2 \<longrightarrow> (\<forall>info \<in> {globInfo, likeInfoNorm, likeInfoAlt}.
      likeFunc limit patternLimit info argv c =
        (Inr (), c\<lparr>fc_out := Fn_int (if like_match info (ucast (matchSet info)) (chars (c_bytes zB)) (chars (c_bytes zA)) then 1 else 0)\<rparr>))) \<and>
    (length argv = 3 \<longrightarrow> (\<forall>info \<in> {likeInfoNorm, likeInfoAlt}.
      likeFunc limit patternLimit info argv c =
        (case chars (c_bytes zEsc) of
           [escape] \<Rightarrow>
             (Inr (), c\<lparr>fc_out := Fn_int (if like_match (escape_info info escape) escape (chars (c_bytes zB)) (chars (c_bytes zA)) then 1 else 0)\<rparr>)
         | _ \<Rightarrow> sqlite3_result_error limit ''ESCAPE expression must be a single character'' (- 1) c)))"
proof -
  have p: "\<not> int (length (sv_blob (argv ! 0))) > patternLimit" using assms(5) by simp
  have 2: "length argv = 2 \<Longrightarrow> like_info info (ucast (matchSet info)) \<Longrightarrow> likeFunc limit patternLimit info argv c =
      (Inr (), c\<lparr>fc_out := Fn_int (if like_match info (ucast (matchSet info)) (chars (c_bytes zB)) (chars (c_bytes zA)) then 1 else 0)\<rparr>)" for info
    using like_compare_match [OF _ assms(1-3), where c = c] p by (simp add: likeFunc_def)
  have 3: "likeFunc limit patternLimit info argv c =
      (case chars (c_bytes zEsc) of
         [escape] \<Rightarrow>
           (Inr (), c\<lparr>fc_out := Fn_int (if like_match (escape_info info escape) escape (chars (c_bytes zB)) (chars (c_bytes zA)) then 1 else 0)\<rparr>)
       | _ \<Rightarrow> sqlite3_result_error limit ''ESCAPE expression must be a single character'' (- 1) c)"
    if "length argv = 3" "matchAll info \<noteq> 0" "matchOne info \<noteq> 0" "matchAll info \<noteq> matchOne info" "matchSet info = 0" for info
  proof -
    have len: "sqlite3Utf8CharLen (c_bytes zEsc) (- 1) = Some (length (chars (c_bytes zEsc)))"
      by (simp add: sqlite3Utf8CharLen_def char_len_1)
    obtain e y where r: "sqlite3Utf8Read (c_bytes zEsc) = Some (e, y)" "chars (c_bytes zEsc) = cur e y"
      using read_cur [OF c_bytes_0] by blast
    have l: "likeFunc limit patternLimit info argv c =
        (if length (cur e y) \<noteq> 1 then sqlite3_result_error limit ''ESCAPE expression must be a single character'' (- 1) c
         else like_compare (escape_info info e) e argv c)"
      using that(1) p assms(4) len r by (simp add: likeFunc_def)
    show ?thesis
    proof (cases "length (cur e y) = 1")
      case True
      then have e: "e \<noteq> 0" "cur e y = [e]" by (auto simp: cur_def split: if_splits)
      from like_compare_match [OF escape_infos [OF that(2-4) e(1) that(5)] assms(1-3), where c = c] show ?thesis
        using l r(2) e(2) by simp
    next
      case False
      then have "(case cur e y of [escape] \<Rightarrow> f escape | _ \<Rightarrow> g) = g" for f and g :: "(fault + unit) \<times> 'x fn_context"
        by (auto split: list.split)
      with False l r(2) show ?thesis by simp
    qed
  qed
  have i: "matchAll likeInfoNorm \<noteq> 0" "matchOne likeInfoNorm \<noteq> 0" "matchAll likeInfoNorm \<noteq> matchOne likeInfoNorm" "matchSet likeInfoNorm = 0"
    "matchAll likeInfoAlt \<noteq> 0" "matchOne likeInfoAlt \<noteq> 0" "matchAll likeInfoAlt \<noteq> matchOne likeInfoAlt" "matchSet likeInfoAlt = 0"
    by code_simp+
  from 2 infos 3 i show ?thesis by blast
qed

theorem like_function_result_witness:
  "likeFunc 1000000 50000 likeInfoNorm
      [\<lparr>sv_text = Some ''50%%'', sv_blob = [], sv_int = 0\<rparr>, \<lparr>sv_text = Some ''50%'', sv_blob = [], sv_int = 0\<rparr>,
       \<lparr>sv_text = Some ''%'', sv_blob = [], sv_int = 0\<rparr>] \<lparr>fc_isError = 0, fc_out = Fn_null, fc_aux = (None :: unit option)\<rparr> =
    (Inr (), \<lparr>fc_isError = 0, fc_out = Fn_int 1, fc_aux = None\<rparr>)"
proof -
  have "0x80 \<notin> set (chars (c_bytes ''50%%''))" "chars (c_bytes ''%'') = [ch CHR ''%'']"
    "like_match (escape_info likeInfoNorm (ch CHR ''%'')) (ch CHR ''%'') (chars (c_bytes ''50%%'')) (chars (c_bytes ''50%''))"
    by code_simp+
  then show ?thesis
    using like_function_result [of "[\<lparr>sv_text = Some ''50%%'', sv_blob = [], sv_int = 0\<rparr>, \<lparr>sv_text = Some ''50%'', sv_blob = [], sv_int = 0\<rparr>,
       \<lparr>sv_text = Some ''%'', sv_blob = [], sv_int = 0\<rparr>]" "''50%%''" "''50%''" "''%''" 50000 1000000
       "\<lparr>fc_isError = 0, fc_out = Fn_null, fc_aux = (None :: unit option)\<rparr>"]
    by simp
qed

end
