(* ===== verification/Ys_Rowset.thy ===== *)
theory Ys_Rowset
  imports Ys_Prelude "HOL-Library.Tree" "HOL-Library.Monad_Syntax" "HOL-Library.Sublist"
begin

text \<open>
  The row set of \<^verbatim>\<open>rowset.c\<close> (in \<^verbatim>\<open>sqlite3.c\<close>): rowids in any order, which are either drained in sorted
  order or asked for by batches. Entries chained by \<^verbatim>\<open>pRight\<close> are a list, entries in a tree a tree; a null pointer is the
  empty list or the leaf. Following a null pointer has no result.
\<close>

section \<open>The row set\<close>

text \<open>
  The entries of the forest have only a tree and a successor in use, so the forest is a list of trees. The entry at
  \<^verbatim>\<open>pLast\<close> is given by its value, the pool of fresh entries by their number, the chunks by theirs.
\<close>

record RowSet =
  rs_nChunk :: nat
  rs_pEntry :: "int list"
  rs_pLast :: "int option"
  rs_pForest :: "int tree list"
  rs_nFresh :: nat
  rs_SORTED :: bool
  rs_NEXT :: bool
  rs_iBatch :: int

definition ROWSET_ENTRY_PER_CHUNK :: nat where
  "ROWSET_ENTRY_PER_CHUNK = (1024 - 8) div 24"

text \<open>\<open>N\<close> is the size of the block that was allocated; the 56 bytes of the object come first.\<close>

definition sqlite3RowSetInit :: "nat option \<Rightarrow> RowSet option" where
  "sqlite3RowSetInit block =
     (case block of
        None \<Rightarrow> None
      | Some N \<Rightarrow> Some \<lparr>rs_nChunk = 0, rs_pEntry = [], rs_pLast = None, rs_pForest = [], rs_nFresh = (N - 56) div 24 mod 2 ^ 16,
          rs_SORTED = True, rs_NEXT = False, rs_iBatch = 0\<rparr>)"

definition sqlite3RowSetClear :: "RowSet \<Rightarrow> RowSet" where
  "sqlite3RowSetClear p = p\<lparr>rs_nChunk := 0, rs_nFresh := 0, rs_pEntry := [], rs_pLast := None, rs_pForest := [],
     rs_SORTED := True, rs_NEXT := False\<rparr>"

text \<open>An entry from the pool; \<open>alloc\<close> says whether a new chunk can be had. The result says whether there is an entry.\<close>

definition rowSetEntryAlloc :: "bool \<Rightarrow> RowSet \<Rightarrow> bool \<times> RowSet" where
  "rowSetEntryAlloc alloc p =
     (if rs_nFresh p = 0 then
        if alloc then (True, p\<lparr>rs_nChunk := rs_nChunk p + 1, rs_nFresh := ROWSET_ENTRY_PER_CHUNK - 1\<rparr>) else (False, p)
      else (True, p\<lparr>rs_nFresh := rs_nFresh p - 1\<rparr>))"

definition sqlite3RowSetInsert :: "bool \<Rightarrow> RowSet \<Rightarrow> int \<Rightarrow> RowSet" where
  "sqlite3RowSetInsert alloc p rowid =
     (case rowSetEntryAlloc alloc p of
        (False, p) \<Rightarrow> p
      | (True, p) \<Rightarrow>
          (case rs_pLast p of
             Some v \<Rightarrow> p\<lparr>rs_SORTED := (if rowid \<le> v then False else rs_SORTED p), rs_pEntry := rs_pEntry p @ [rowid], rs_pLast := Some rowid\<rparr>
           | None \<Rightarrow> p\<lparr>rs_pEntry := [rowid], rs_pLast := Some rowid\<rparr>))"

section \<open>Sorting\<close>

fun rowSetEntryMerge :: "int list \<Rightarrow> int list \<Rightarrow> int list option" where
  "rowSetEntryMerge (a # pA) (b # pB) =
     (if a \<le> b then
        map_option (\<lambda>l. if a < b then a # l else l) (if pA = [] then Some (b # pB) else rowSetEntryMerge pA (b # pB))
      else map_option ((#) b) (if pB = [] then Some (a # pA) else rowSetEntryMerge (a # pA) pB))"
| "rowSetEntryMerge _ _ = None"

text \<open>The loop over the buckets: a full bucket is merged into the list and emptied. Running out of buckets has no result.\<close>

fun bucket_loop :: "int list list \<Rightarrow> int list \<Rightarrow> int list list option" where
  "bucket_loop [] pIn = None"
| "bucket_loop (b # aBucket) pIn =
     (if b = [] then Some (pIn # aBucket)
      else do { pIn \<leftarrow> rowSetEntryMerge b pIn; aBucket \<leftarrow> bucket_loop aBucket pIn; Some ([] # aBucket) })"

fun entry_loop :: "int list list \<Rightarrow> int list \<Rightarrow> int list list option" where
  "entry_loop aBucket [] = Some aBucket"
| "entry_loop aBucket (v # pIn) = do { aBucket \<leftarrow> bucket_loop aBucket [v]; entry_loop aBucket pIn }"

fun collect_loop :: "int list \<Rightarrow> int list list \<Rightarrow> int list option" where
  "collect_loop pIn [] = Some pIn"
| "collect_loop pIn (b # aBucket) =
     (if b = [] then collect_loop pIn aBucket
      else if pIn = [] then collect_loop b aBucket
      else do { pIn \<leftarrow> rowSetEntryMerge pIn b; collect_loop pIn aBucket })"

definition rowSetEntrySort :: "int list \<Rightarrow> int list option" where
  "rowSetEntrySort pIn = do {
     aBucket \<leftarrow> entry_loop (replicate 40 []) pIn;
     (case aBucket of [] \<Rightarrow> None | b # aBucket \<Rightarrow> collect_loop b aBucket)
   }"

section \<open>Lists and trees\<close>

fun rowSetTreeToList :: "int tree \<Rightarrow> int list option" where
  "rowSetTreeToList Leaf = None"
| "rowSetTreeToList (Node l v r) = do {
     first \<leftarrow> (if l \<noteq> Leaf then rowSetTreeToList l else Some []);
     rest \<leftarrow> (if r \<noteq> Leaf then rowSetTreeToList r else Some []);
     Some (first @ v # rest)
   }"

text \<open>A tree of depth \<open>iDepth\<close> from the front of the list, and the entries that are left.\<close>

fun rowSetNDeepTree :: "nat \<Rightarrow> int list \<Rightarrow> int tree \<times> int list" where
  "rowSetNDeepTree iDepth [] = (Leaf, [])"
| "rowSetNDeepTree iDepth (v # pList) =
     (if iDepth > 1 then
        (case rowSetNDeepTree (iDepth - 1) (v # pList) of
           (pLeft, []) \<Rightarrow> (pLeft, [])
         | (pLeft, p # pList) \<Rightarrow>
             (case rowSetNDeepTree (iDepth - 1) pList of (pRight, pList) \<Rightarrow> (Node pLeft p pRight, pList)))
      else (Node Leaf v Leaf, pList))"

lemma ndeep_length: "length (snd (rowSetNDeepTree d xs)) \<le> length xs"
proof (induction d xs rule: rowSetNDeepTree.induct)
  case (2 d v xs)
  show ?case
  proof (cases "d > 1")
    case True
    obtain l zs where l: "rowSetNDeepTree (d - 1) (v # xs) = (l, zs)" by fastforce
    with "2.IH"(1) [OF True] have "length zs \<le> Suc (length xs)" by simp
    moreover have "length (snd (rowSetNDeepTree (d - 1) ps)) \<le> length ps" if "zs = p # ps" for p ps
      using "2.IH"(2) [OF True _ that] l by simp
    ultimately show ?thesis using True l by (fastforce split: list.split prod.split)
  qed simp
qed simp

function tree_loop :: "nat \<Rightarrow> int tree \<Rightarrow> int list \<Rightarrow> int tree" where
  "tree_loop iDepth p [] = p"
| "tree_loop iDepth p (v # pList) =
     (case rowSetNDeepTree iDepth pList of (pRight, pList) \<Rightarrow> tree_loop (iDepth + 1) (Node p v pRight) pList)"
  by pat_completeness auto
termination by (relation "measure (\<lambda>(d, p, xs). length xs)") (auto, metis ndeep_length less_Suc_eq_le snd_conv)

fun rowSetListToTree :: "int list \<Rightarrow> int tree option" where
  "rowSetListToTree [] = None"
| "rowSetListToTree (v # pList) = Some (tree_loop 1 (Node Leaf v Leaf) pList)"

section \<open>Draining and asking\<close>

text \<open>The smallest rowid, if there is one. Once the set is empty its memory is released.\<close>

definition sqlite3RowSetNext :: "RowSet \<Rightarrow> (int option \<times> RowSet) option" where
  "sqlite3RowSetNext p = do {
     p \<leftarrow> (if \<not> rs_NEXT p then do {
              entry \<leftarrow> (if \<not> rs_SORTED p then rowSetEntrySort (rs_pEntry p) else Some (rs_pEntry p));
              Some (p\<lparr>rs_pEntry := entry, rs_SORTED := True, rs_NEXT := True\<rparr>)
            } else Some p);
     (case rs_pEntry p of
        [] \<Rightarrow> Some (None, p)
      | v # entry \<Rightarrow>
          let p = p\<lparr>rs_pEntry := entry\<rparr>
          in Some (Some v, if entry = [] then sqlite3RowSetClear p else p))
   }"

text \<open>
  The entries of a batch go into the first empty tree of the forest, together with the entries of the trees in front of
  it. The second component is the list when there was no empty tree.
\<close>

fun forest_loop :: "int list \<Rightarrow> int tree list \<Rightarrow> (int tree list \<times> int list option) option" where
  "forest_loop p [] = Some ([], Some p)"
| "forest_loop p (pTree # forest) =
     (if pTree = Leaf then do { t \<leftarrow> rowSetListToTree p; Some (t # forest, None) }
      else do {
        pAux \<leftarrow> rowSetTreeToList pTree;
        p \<leftarrow> rowSetEntryMerge pAux p;
        (forest, r) \<leftarrow> forest_loop p forest;
        Some (Leaf # forest, r)
      })"

definition new_batch :: "bool \<Rightarrow> RowSet \<Rightarrow> RowSet option" where
  "new_batch alloc pRowSet =
     (if rs_pEntry pRowSet = [] then Some pRowSet
      else do {
        p \<leftarrow> (if \<not> rs_SORTED pRowSet then rowSetEntrySort (rs_pEntry pRowSet) else Some (rs_pEntry pRowSet));
        (forest, r) \<leftarrow> forest_loop p (rs_pForest pRowSet);
        pRowSet \<leftarrow> (case r of
            None \<Rightarrow> Some (pRowSet\<lparr>rs_pForest := forest\<rparr>)
          | Some p \<Rightarrow>
              (case rowSetEntryAlloc alloc (pRowSet\<lparr>rs_pForest := forest\<rparr>) of
                 (False, pRowSet) \<Rightarrow> Some pRowSet
               | (True, pRowSet) \<Rightarrow> do { t \<leftarrow> rowSetListToTree p; Some (pRowSet\<lparr>rs_pForest := forest @ [t]\<rparr>) }));
        Some (pRowSet\<lparr>rs_pEntry := [], rs_pLast := None, rs_SORTED := True\<rparr>)
      })"

fun tree_search :: "int tree \<Rightarrow> int \<Rightarrow> bool" where
  "tree_search Leaf iRowid = False"
| "tree_search (Node l v r) iRowid =
     (if v < iRowid then tree_search r iRowid else if v > iRowid then tree_search l iRowid else True)"

definition sqlite3RowSetTest :: "bool \<Rightarrow> RowSet \<Rightarrow> int \<Rightarrow> int \<Rightarrow> (bool \<times> RowSet) option" where
  "sqlite3RowSetTest alloc pRowSet iBatch iRowid = do {
     pRowSet \<leftarrow> (if iBatch \<noteq> rs_iBatch pRowSet then map_option (rs_iBatch_update (\<lambda>_. iBatch)) (new_batch alloc pRowSet) else Some pRowSet);
     Some (list_ex (\<lambda>t. tree_search t iRowid) (rs_pForest pRowSet), pRowSet)
   }"

section \<open>What sorting does\<close>

abbreviation ascending :: "int list \<Rightarrow> bool" where
  "ascending \<equiv> sorted_wrt (<)"

lemma merge_ascending:
  "pA \<noteq> [] \<Longrightarrow> pB \<noteq> [] \<Longrightarrow> ascending pA \<Longrightarrow> ascending pB \<Longrightarrow>
   \<exists>l. rowSetEntryMerge pA pB = Some l \<and> ascending l \<and> set l = set pA \<union> set pB \<and> l \<noteq> []"
proof (induction pA pB rule: rowSetEntryMerge.induct)
  case (1 a pA b pB)
  show ?case
  proof (cases "a \<le> b")
    case True
    show ?thesis
    proof (cases "pA = []")
      case False
      then obtain l where "rowSetEntryMerge pA (b # pB) = Some l" "ascending l" "set l = set pA \<union> set (b # pB)" "l \<noteq> []"
        using "1.IH"(1) [OF True False] "1.prems" by auto
      moreover have "\<forall>x\<in>set pA \<union> set (b # pB). a < b \<longrightarrow> a < x" using "1.prems" by auto
      ultimately show ?thesis using True False "1.prems" by (cases "a < b") auto
    next
      case True
      with "1.prems" \<open>a \<le> b\<close> show ?thesis by auto
    qed
  next
    case False
    show ?thesis
    proof (cases "pB = []")
      case ne: False
      then obtain l where "rowSetEntryMerge (a # pA) pB = Some l" "ascending l" "set l = set (a # pA) \<union> set pB" "l \<noteq> []"
        using "1.IH"(2) [OF False ne] "1.prems" by auto
      moreover have "\<forall>x\<in>set (a # pA) \<union> set pB. b < x" using "1.prems" False by auto
      ultimately show ?thesis using False ne by auto
    next
      case True
      with "1.prems" False show ?thesis by auto
    qed
  qed
qed simp_all

text \<open>The buckets count in binary; the value of their counter is the number of entries that were put in.\<close>

fun bucket_count :: "int list list \<Rightarrow> nat" where
  "bucket_count [] = 0"
| "bucket_count (b # bs) = (if b = [] then 0 else 1) + 2 * bucket_count bs"

definition buckets_ok :: "int list list \<Rightarrow> bool" where
  "buckets_ok bs \<longleftrightarrow> (\<forall>b\<in>set bs. ascending b)"

lemma buckets_ok_Cons [simp]: "buckets_ok (b # bs) \<longleftrightarrow> ascending b \<and> buckets_ok bs"
  by (simp add: buckets_ok_def)

lemma bucket_loop_counts:
  "Suc (bucket_count bs) < 2 ^ length bs \<Longrightarrow> buckets_ok bs \<Longrightarrow> ascending p \<Longrightarrow> p \<noteq> [] \<Longrightarrow>
   \<exists>bs'. bucket_loop bs p = Some bs' \<and> buckets_ok bs' \<and> length bs' = length bs \<and> bucket_count bs' = Suc (bucket_count bs) \<and>
     \<Union> (set ` set bs') = set p \<union> \<Union> (set ` set bs)"
proof (induction bs p rule: bucket_loop.induct)
  case (2 b bs p)
  show ?case
  proof (cases "b = []")
    case False
    with "2.prems" obtain m where m: "rowSetEntryMerge b p = Some m" "ascending m" "set m = set b \<union> set p" "m \<noteq> []"
      using merge_ascending [of b p] by auto
    with "2.prems" False "2.IH" [OF False] obtain bs' where "bucket_loop bs m = Some bs'" "buckets_ok bs'" "length bs' = length bs"
      "bucket_count bs' = Suc (bucket_count bs)" "\<Union> (set ` set bs') = set m \<union> \<Union> (set ` set bs)" by auto
    with m False show ?thesis by auto
  qed (use "2.prems" in auto)
qed simp

lemma entry_loop_counts:
  "bucket_count bs + length xs < 2 ^ length bs \<Longrightarrow> buckets_ok bs \<Longrightarrow>
   \<exists>bs'. entry_loop bs xs = Some bs' \<and> buckets_ok bs' \<and> length bs' = length bs \<and> \<Union> (set ` set bs') = set xs \<union> \<Union> (set ` set bs)"
proof (induction xs arbitrary: bs)
  case (Cons x xs)
  then obtain bs' where "bucket_loop bs [x] = Some bs'" "buckets_ok bs'" "length bs' = length bs" "bucket_count bs' = Suc (bucket_count bs)"
     "\<Union> (set ` set bs') = insert x (\<Union> (set ` set bs))"
    using bucket_loop_counts [of bs "[x]"] by auto
  with Cons.IH [of bs'] Cons.prems show ?case by auto
qed simp

lemma collect_loop_union:
  "ascending p \<Longrightarrow> buckets_ok bs \<Longrightarrow> \<exists>l. collect_loop p bs = Some l \<and> ascending l \<and> set l = set p \<union> \<Union> (set ` set bs)"
proof (induction p bs rule: collect_loop.induct)
  case (2 p b bs)
  show ?case
  proof (cases "b = [] \<or> p = []")
    case False
    with "2.prems" obtain m where m: "rowSetEntryMerge p b = Some m" "ascending m" "set m = set p \<union> set b" "m \<noteq> []"
      using merge_ascending [of p b] by auto
    with "2.IH"(3) [of m] "2.prems" False show ?thesis by auto
  qed (use 2 in auto)
qed simp

lemma ascending_unique: "ascending l \<Longrightarrow> sorted_list_of_set (set l) = l"
  by (simp add: sorted_list_of_set.idem_if_sorted_distinct strict_sorted_iff)

text \<open>Forty buckets are enough for less than \<open>2 ^ 40\<close> entries.\<close>

lemma sort_sorts:
  assumes "length xs < 2 ^ 40"
  shows "rowSetEntrySort xs = Some (sorted_list_of_set (set xs))"
proof -
  have z: "bucket_count (replicate n []) = 0" for n by (induction n) simp_all
  have "buckets_ok (replicate 40 [])" by (auto simp: buckets_ok_def)
  then obtain bs where bs: "entry_loop (replicate 40 []) xs = Some bs" "buckets_ok bs" "length bs = 40"
     "\<Union> (set ` set bs) = set xs"
    using entry_loop_counts [of "replicate 40 []" xs] assms z by auto
  then obtain b bs1 where "bs = b # bs1" by (cases bs) auto
  with bs collect_loop_union [of b bs1] obtain l where "rowSetEntrySort xs = Some l" "ascending l" "set l = set xs"
    by (auto simp: rowSetEntrySort_def)
  with ascending_unique [of l] show ?thesis by simp
qed

section \<open>Trees\<close>

lemma tree_to_list: "t \<noteq> Leaf \<Longrightarrow> rowSetTreeToList t = Some (inorder t)"
  by (induction t) auto

lemma ndeep_inorder: "rowSetNDeepTree d xs = (t, ys) \<Longrightarrow> inorder t @ ys = xs"
proof (induction d xs arbitrary: t ys rule: rowSetNDeepTree.induct)
  case (2 d v xs)
  show ?case
  proof (cases "d > 1")
    case True
    obtain l zs where l: "rowSetNDeepTree (d - 1) (v # xs) = (l, zs)" by fastforce
    note i = "2.IH"(1) [OF True l]
    show ?thesis
    proof (cases zs)
      case (Cons p ps)
      obtain r qs where r: "rowSetNDeepTree (d - 1) ps = (r, qs)" by fastforce
      with "2.IH"(2) [OF True _ Cons r] l have "inorder r @ qs = ps" by simp
      with i l r Cons True "2.prems" show ?thesis by auto
    qed (use i l True "2.prems" in auto)
  qed (use "2.prems" in auto)
qed auto

lemma tree_loop_inorder: "inorder (tree_loop d p xs) = inorder p @ xs"
proof (induction d p xs rule: tree_loop.induct)
  case (2 d p v xs)
  obtain t ys where t: "rowSetNDeepTree d xs = (t, ys)" by fastforce
  with "2.IH" [OF t [symmetric]] ndeep_inorder [OF t] show ?case by simp
qed simp

lemma list_to_tree: "xs \<noteq> [] \<Longrightarrow> \<exists>t. rowSetListToTree xs = Some t \<and> t \<noteq> Leaf \<and> inorder t = xs"
proof (cases xs)
  case (Cons v ys)
  have "tree_loop 1 \<langle>\<langle>\<rangle>, v, \<langle>\<rangle>\<rangle> ys \<noteq> \<langle>\<rangle>" using tree_loop_inorder [of 1 "\<langle>\<langle>\<rangle>, v, \<langle>\<rangle>\<rangle>" ys] by auto
  with Cons tree_loop_inorder [of 1 "\<langle>\<langle>\<rangle>, v, \<langle>\<rangle>\<rangle>" ys] show ?thesis by auto
qed simp

lemma search_member: "ascending (inorder t) \<Longrightarrow> tree_search t x \<longleftrightarrow> x \<in> set_tree t"
  by (induction t) (force simp: sorted_wrt_append)+

text \<open>
  The depth: a tree from the list is no deeper than it must be for a tree that is complete but for its last level. A tree
  of depth \<open>d\<close> that leaves entries over is complete.
\<close>

lemma full_node: "m = 2 ^ e - 1 \<Longrightarrow> n = 2 ^ e - 1 \<Longrightarrow> m + n + 1 = 2 ^ (e + 1) - (1 :: nat)"
proof -
  assume "m = 2 ^ e - 1" "n = 2 ^ e - 1"
  moreover have "(1 :: nat) \<le> 2 ^ e" by simp
  ultimately show ?thesis unfolding power_add power_one_right by linarith
qed

lemma ndeep_depth:
  "0 < d \<Longrightarrow> rowSetNDeepTree d xs = (t, ys) \<Longrightarrow> height t \<le> d \<and> (ys \<noteq> [] \<longrightarrow> size t = 2 ^ d - 1)"
proof (induction d xs arbitrary: t ys rule: rowSetNDeepTree.induct)
  case (2 d v xs)
  show ?case
  proof (cases "d > 1")
    case True
    then obtain e where e: "d = Suc e" "0 < e" by (cases d) auto
    obtain l zs where l: "rowSetNDeepTree e (v # xs) = (l, zs)" by fastforce
    with "2.IH"(1) [OF True, of l zs] e have hl: "height l \<le> e" "zs \<noteq> [] \<longrightarrow> size l = 2 ^ e - 1" by auto
    show ?thesis
    proof (cases zs)
      case (Cons p ps)
      obtain r qs where r: "rowSetNDeepTree e ps = (r, qs)" by fastforce
      with "2.IH"(2) [OF True _ Cons, of l r qs] l e have hr: "height r \<le> e" "qs \<noteq> [] \<longrightarrow> size r = 2 ^ e - 1" by auto
      from l r Cons True e "2.prems" have t: "t = \<langle>l, p, r\<rangle>" "ys = qs" by auto
      have "size t = 2 ^ d - 1" if "qs \<noteq> []"
        using full_node [of "size l" e "size r"] hl(2) hr(2) e Cons that unfolding t(1) tree.size(4) e(1) by simp
      moreover have "height t \<le> d" using hl(1) hr(1) t(1) e by simp
      ultimately show ?thesis using t(2) by blast
    qed (use hl l True e "2.prems" in auto)
  next
    case False
    with "2.prems" have "d = 1" by simp
    with "2.prems" show ?thesis by auto
  qed
qed auto

lemma tree_loop_depth:
  "0 < d \<Longrightarrow> height p \<le> d \<Longrightarrow> (xs \<noteq> [] \<longrightarrow> size p = 2 ^ d - 1) \<Longrightarrow> 2 ^ (height p - 1) \<le> size p \<Longrightarrow>
   2 ^ (height (tree_loop d p xs) - 1) \<le> size p + length xs"
proof (induction d p xs rule: tree_loop.induct)
  case (2 d p v xs)
  obtain t ys where t: "rowSetNDeepTree d xs = (t, ys)" by fastforce
  have dep: "height t \<le> d" "ys \<noteq> [] \<longrightarrow> size t = 2 ^ d - 1" using ndeep_depth [OF "2.prems"(1) t] by auto
  have len: "length xs = size t + length ys" using arg_cong [OF ndeep_inorder [OF t], of length] by simp
  let ?n = "\<langle>p, v, t\<rangle>"
  have p: "size p = 2 ^ d - 1" "(1 :: nat) \<le> 2 ^ d" using "2.prems" by auto
  have "height ?n - 1 \<le> d" using dep "2.prems" by auto
  then have "(2 :: nat) ^ (height ?n - 1) \<le> 2 ^ d" by (intro power_increasing) auto
  also have "2 ^ d \<le> size ?n" using p by simp
  finally have "2 ^ (height ?n - 1) \<le> size ?n" .
  moreover have "ys \<noteq> [] \<longrightarrow> size ?n = 2 ^ (d + 1) - 1" using full_node [of "size p" d "size t"] p dep by simp
  moreover have "height ?n \<le> d + 1" using dep "2.prems" by auto
  ultimately have "2 ^ (height (tree_loop (d + 1) ?n ys) - 1) \<le> size ?n + length ys"
    using "2.IH" [OF t [symmetric]] by simp
  with t len show ?case by simp
qed simp

lemma list_to_tree_depth: "rowSetListToTree xs = Some t \<Longrightarrow> 2 ^ (height t - 1) \<le> length xs"
  using tree_loop_depth [of 1 "\<langle>\<langle>\<rangle>, hd xs, \<langle>\<rangle>\<rangle>" "tl xs"] by (cases xs) auto

section \<open>Sets that are asked by batches\<close>

text \<open>
  What the virtual machine does with a row set it asks: it puts rowids in and asks for rowids with the number of a
  batch. Each operation carries whether memory can be had.
\<close>

datatype rs_op = Put (op_alloc: bool) int | Ask (op_alloc: bool) int int

fun run_ops :: "(bool \<Rightarrow> 's \<Rightarrow> int \<Rightarrow> 's) \<Rightarrow> (bool \<Rightarrow> 's \<Rightarrow> int \<Rightarrow> int \<Rightarrow> (bool \<times> 's) option) \<Rightarrow> 's \<Rightarrow> rs_op list \<Rightarrow> (bool list \<times> 's) option" where
  "run_ops put test s [] = Some ([], s)"
| "run_ops put test s (Put a v # ops) = run_ops put test (put a s v) ops"
| "run_ops put test s (Ask a b v # ops) = do {
     (r, s) \<leftarrow> test a s b v;
     (rs, s) \<leftarrow> run_ops put test s ops;
     Some (r # rs, s)
   }"

text \<open>
  What the comment at the head of the file promises: only what was put in before the last change of the batch number is seen.
\<close>

fun batch_spec :: "int set \<Rightarrow> int set \<Rightarrow> int \<Rightarrow> rs_op list \<Rightarrow> bool list" where
  "batch_spec old new b [] = []"
| "batch_spec old new b (Put _ v # ops) = batch_spec old (insert v new) b ops"
| "batch_spec old new b (Ask _ b' v # ops) =
     (if b' = b then (v \<in> old) # batch_spec old new b ops
      else (v \<in> old \<union> new) # batch_spec (old \<union> new) {} b' ops)"

locale batch_set =
  fixes inv :: "nat \<Rightarrow> 's \<Rightarrow> bool"
    and old :: "'s \<Rightarrow> int set"
    and new :: "'s \<Rightarrow> int set"
    and batch :: "'s \<Rightarrow> int"
    and put :: "bool \<Rightarrow> 's \<Rightarrow> int \<Rightarrow> 's"
    and test :: "bool \<Rightarrow> 's \<Rightarrow> int \<Rightarrow> int \<Rightarrow> (bool \<times> 's) option"
    and cap :: nat
  assumes put_inv: "inv n s \<Longrightarrow> inv (Suc n) (put a s v)"
    and put_old: "inv n s \<Longrightarrow> old (put a s v) = old s"
    and put_new: "inv n s \<Longrightarrow> new (put a s v) \<subseteq> insert v (new s)"
    and put_new_alloc: "inv n s \<Longrightarrow> a \<Longrightarrow> new (put a s v) = insert v (new s)"
    and put_batch: "inv n s \<Longrightarrow> batch (put a s v) = batch s"
    and test_same: "inv n s \<Longrightarrow> test a s (batch s) v = Some (v \<in> old s, s)"
    and test_other: "inv n s \<Longrightarrow> n < cap \<Longrightarrow> b \<noteq> batch s \<Longrightarrow>
      \<exists>s'. test a s b v = Some (v \<in> old s', s') \<and> inv n s' \<and> new s' = {} \<and> batch s' = b \<and> old s' \<subseteq> old s \<union> new s \<and>
        (a \<longrightarrow> old s' = old s \<union> new s)"
begin

lemma run_answers:
  "inv n s \<Longrightarrow> n + length ops < cap \<Longrightarrow> old s \<subseteq> O' \<Longrightarrow> new s \<subseteq> N' \<Longrightarrow>
   \<exists>rs s' m. run_ops put test s ops = Some (rs, s') \<and> inv m s' \<and>
     list_all2 (\<longrightarrow>) rs (batch_spec O' N' (batch s) ops) \<and>
     ((\<forall>op\<in>set ops. op_alloc op) \<longrightarrow> rs = batch_spec (old s) (new s) (batch s) ops)"
proof (induction ops arbitrary: n s O' N')
  case (Cons op ops)
  show ?case
  proof (cases op)
    case (Put a v)
    from Cons.prems have i: "inv (Suc n) (put a s v)" by (simp add: put_inv)
    from Cons.prems put_new [OF Cons.prems(1)] have "new (put a s v) \<subseteq> insert v N'" by blast
    with Cons.IH [OF i, of O' "insert v N'"] Cons.prems Put put_new_alloc [OF Cons.prems(1), of True v]
    show ?thesis by (cases a) (auto simp: put_old [OF Cons.prems(1)] put_batch [OF Cons.prems(1)])
  next
    case (Ask a b v)
    show ?thesis
    proof (cases "b = batch s")
      case True
      with Cons.IH [of n s O' N'] Cons.prems Ask show ?thesis by (auto simp: test_same [OF Cons.prems(1)])
    next
      case False
      have "n < cap" using Cons.prems by simp
      with test_other [OF Cons.prems(1) _ False, of a v] obtain s' where
        s': "test a s b v = Some (v \<in> old s', s')" "inv n s'" "new s' = {}" "batch s' = b" "old s' \<subseteq> old s \<union> new s"
          "a \<longrightarrow> old s' = old s \<union> new s" by blast
      have "old s' \<subseteq> O' \<union> N'" using s'(5) Cons.prems by blast
      with Cons.IH [OF s'(2), of "O' \<union> N'" "{}"] Cons.prems s' Ask False show ?thesis by auto
    qed
  qed
qed (auto intro: exI)

end

section \<open>The row set is one\<close>

definition tree_ok :: "int tree \<Rightarrow> bool" where
  "tree_ok t \<longleftrightarrow> ascending (inorder t) \<and> (t \<noteq> Leaf \<longrightarrow> 2 ^ (height t - 1) \<le> size t)"

lemma tree_ok_Leaf [simp]: "tree_ok Leaf"
  by (simp add: tree_ok_def)

lemma tree_ok_list: "rowSetListToTree p = Some u \<Longrightarrow> p \<noteq> [] \<Longrightarrow> ascending p \<Longrightarrow> tree_ok u \<and> set_tree u = set p"
  using list_to_tree [of p] list_to_tree_depth [of p u] by (auto simp: tree_ok_def length_inorder [symmetric] set_inorder [symmetric])

definition rs_ok :: "RowSet \<Rightarrow> bool" where
  "rs_ok p \<longleftrightarrow> \<not> rs_NEXT p \<and> rs_pLast p = (if rs_pEntry p = [] then None else Some (last (rs_pEntry p))) \<and>
     (rs_SORTED p \<longrightarrow> ascending (rs_pEntry p)) \<and>
     (\<forall>t\<in>set (rs_pForest p). tree_ok t)"

definition rs_old :: "RowSet \<Rightarrow> int set" where
  "rs_old p = \<Union> (set_tree ` set (rs_pForest p))"

lemma ascending_snoc: "ascending xs \<Longrightarrow> xs \<noteq> [] \<Longrightarrow> last xs < v \<Longrightarrow> ascending (xs @ [v])"
  by (induction xs) (use last_in_set less_trans in \<open>fastforce split: if_splits\<close>)+

lemma alloc_keeps:
  "rowSetEntryAlloc a p = (r, p') \<Longrightarrow> rs_pEntry p' = rs_pEntry p \<and> rs_pLast p' = rs_pLast p \<and> rs_pForest p' = rs_pForest p \<and>
     rs_SORTED p' = rs_SORTED p \<and> rs_NEXT p' = rs_NEXT p \<and> rs_iBatch p' = rs_iBatch p \<and> (a \<longrightarrow> r)"
  by (auto simp: rowSetEntryAlloc_def split: if_splits)

lemma insert_keeps:
  assumes "rs_ok p" and "p' = sqlite3RowSetInsert a p v"
  shows "rs_ok p' \<and> rs_pForest p' = rs_pForest p \<and> rs_iBatch p' = rs_iBatch p \<and>
    (rs_pEntry p' = rs_pEntry p @ [v] \<or> \<not> a \<and> rs_pEntry p' = rs_pEntry p)"
proof -
  obtain r q where q: "rowSetEntryAlloc a p = (r, q)" by fastforce
  note k = alloc_keeps [OF q]
  show ?thesis
  proof (cases r)
    case True
    show ?thesis
    proof (cases "rs_pEntry p = []")
      case False
      with assms(1) k have l: "rs_pLast q = Some (last (rs_pEntry q))" by (simp add: rs_ok_def)
      have "rs_SORTED q \<Longrightarrow> \<not> v \<le> last (rs_pEntry q) \<Longrightarrow> ascending (rs_pEntry q @ [v])"
        using ascending_snoc [of "rs_pEntry q" v] assms(1) False k by (auto simp: rs_ok_def)
      with True q k l assms show ?thesis by (auto simp: sqlite3RowSetInsert_def rs_ok_def split: if_splits)
    qed (use True q k assms in \<open>auto simp: sqlite3RowSetInsert_def rs_ok_def\<close>)
  qed (use q k assms in \<open>auto simp: sqlite3RowSetInsert_def rs_ok_def split: if_splits\<close>)
qed

lemma forest_loop_ok:
  assumes "p \<noteq> []" and "ascending p" and "\<forall>t\<in>set ts. tree_ok t"
  shows "\<exists>ts' r. forest_loop p ts = Some (ts', r) \<and>
    (\<forall>t\<in>set ts'. tree_ok t) \<and>
    (case r of None \<Rightarrow> \<Union> (set_tree ` set ts') = set p \<union> \<Union> (set_tree ` set ts)
     | Some q \<Rightarrow> q \<noteq> [] \<and> ascending q \<and> set q \<union> \<Union> (set_tree ` set ts') = set p \<union> \<Union> (set_tree ` set ts))"
  using assms
proof (induction ts arbitrary: p)
  case (Cons t ts)
  show ?case
  proof (cases "t = Leaf")
    case True
    obtain u where u: "rowSetListToTree p = Some u" using list_to_tree [OF Cons.prems(1)] by blast
    with tree_ok_list [OF u] True Cons.prems show ?thesis by auto
  next
    case False
    note l = tree_to_list [OF False]
    have "inorder t \<noteq> []" using False by (cases t) auto
    with merge_ascending [of "inorder t" p] Cons.prems tree_ok_def [of t] obtain m where
      m: "rowSetEntryMerge (inorder t) p = Some m" "ascending m" "set m = set_tree t \<union> set p" "m \<noteq> []" by auto
    from Cons.IH [OF m(4,2)] Cons.prems(3) obtain ts' r where
      r: "forest_loop m ts = Some (ts', r)" "\<forall>t\<in>set ts'. tree_ok t"
      "case r of None \<Rightarrow> \<Union> (set_tree ` set ts') = set m \<union> \<Union> (set_tree ` set ts)
       | Some q \<Rightarrow> q \<noteq> [] \<and> ascending q \<and> set q \<union> \<Union> (set_tree ` set ts') = set m \<union> \<Union> (set_tree ` set ts)" by auto
    with False l m show ?thesis by (auto split: option.splits)
  qed
qed simp

lemma new_batch_ok:
  assumes "rs_ok p" and "length (rs_pEntry p) < 2 ^ 40"
  shows "\<exists>p'. new_batch a p = Some p' \<and> rs_ok p' \<and> rs_pEntry p' = [] \<and> rs_iBatch p' = rs_iBatch p \<and>
    rs_old p' \<subseteq> rs_old p \<union> set (rs_pEntry p) \<and> (a \<longrightarrow> rs_old p' = rs_old p \<union> set (rs_pEntry p))"
proof (cases "rs_pEntry p = []")
  case False
  let ?e = "if \<not> rs_SORTED p then rowSetEntrySort (rs_pEntry p) else Some (rs_pEntry p)"
  obtain e where e: "?e = Some e" "ascending e" "set e = set (rs_pEntry p)"
    using assms sort_sorts [OF assms(2)] by (cases "rs_SORTED p") (simp_all add: rs_ok_def)
  then have "e \<noteq> []" using False by auto
  moreover have "\<forall>t\<in>set (rs_pForest p). tree_ok t" using assms(1) by (simp add: rs_ok_def)
  ultimately obtain ts r where
    r: "forest_loop e (rs_pForest p) = Some (ts, r)" "\<forall>t\<in>set ts. tree_ok t"
    "case r of None \<Rightarrow> \<Union> (set_tree ` set ts) = set e \<union> rs_old p
     | Some q \<Rightarrow> q \<noteq> [] \<and> ascending q \<and> set q \<union> \<Union> (set_tree ` set ts) = set e \<union> rs_old p"
    using forest_loop_ok [OF _ e(2)] unfolding rs_old_def by blast
  show ?thesis
  proof (cases r)
    case None
    with False e r assms(1) show ?thesis by (auto simp: new_batch_def rs_ok_def rs_old_def)
  next
    case (Some q)
    obtain b p1 where b: "rowSetEntryAlloc a (p\<lparr>rs_pForest := ts\<rparr>) = (b, p1)" by fastforce
    note k = alloc_keeps [OF b]
    have "q \<noteq> []" using r(3) Some by simp
    then obtain u where u: "rowSetListToTree q = Some u" using list_to_tree [of q] by blast
    with tree_ok_list [OF u] r(3) Some have u': "tree_ok u" "set_tree u = set q" by simp_all
    note n = new_batch_def [of a p] r(1) Some b u e(1)
    show ?thesis
    proof (cases b)
      case True
      with False n have "new_batch a p = Some (p1\<lparr>rs_pForest := ts @ [u], rs_pEntry := [], rs_pLast := None, rs_SORTED := True\<rparr>)" by simp
      with u' r(2,3) Some e(3) k assms(1) show ?thesis by (auto simp: rs_ok_def rs_old_def)
    next
      case nb: False
      with False n have "new_batch a p = Some (p1\<lparr>rs_pEntry := [], rs_pLast := None, rs_SORTED := True\<rparr>)" by simp
      with nb r(2,3) Some e(3) k assms(1) show ?thesis by (auto simp: rs_ok_def rs_old_def)
    qed
  qed
qed (use assms in \<open>auto simp: new_batch_def rs_old_def\<close>)

lemma test_answer:
  "rs_ok p \<Longrightarrow> list_ex (\<lambda>t. tree_search t v) (rs_pForest p) \<longleftrightarrow> v \<in> rs_old p"
  by (auto simp: list_ex_iff rs_ok_def rs_old_def search_member tree_ok_def)

interpretation rs: batch_set "\<lambda>n p. rs_ok p \<and> length (rs_pEntry p) \<le> n" rs_old "\<lambda>p. set (rs_pEntry p)" rs_iBatch
  sqlite3RowSetInsert sqlite3RowSetTest "2 ^ 40"
proof (unfold_locales, goal_cases)
  case (1 n p a v)
  with insert_keeps [of p _ a v] show ?case by auto
next
  case (2 n p a v)
  with insert_keeps [of p _ a v] show ?case by (auto simp: rs_old_def)
next
  case (3 n p a v)
  with insert_keeps [of p _ a v] show ?case by auto
next
  case (4 n p a v)
  with insert_keeps [of p _ a v] show ?case by auto
next
  case (5 n p a v)
  with insert_keeps [of p _ a v] show ?case by auto
next
  case (6 n p a v)
  with test_answer [of p v] show ?case by (simp add: sqlite3RowSetTest_def)
next
  case (7 n p b a v)
  then have p: "rs_ok p" "length (rs_pEntry p) < 2 ^ 40" by auto
  from new_batch_ok [OF this, of a] obtain q where q: "new_batch a p = Some q" "rs_ok q" "rs_pEntry q = []"
    "rs_old q \<subseteq> rs_old p \<union> set (rs_pEntry p)" "a \<longrightarrow> rs_old q = rs_old p \<union> set (rs_pEntry p)" by blast
  let ?q = "q\<lparr>rs_iBatch := b\<rparr>"
  have "rs_ok ?q" "rs_old ?q = rs_old q" using q(2) by (simp_all add: rs_ok_def rs_old_def)
  with q test_answer [of ?q v] 7 show ?case by (auto simp: sqlite3RowSetTest_def)
qed

section \<open>Draining\<close>

text \<open>The rowids put in one after the other, each with whether memory can be had, and the first \<open>k\<close> calls of Next.\<close>

fun insert_all :: "RowSet \<Rightarrow> (bool \<times> int) list \<Rightarrow> RowSet" where
  "insert_all p [] = p"
| "insert_all p ((a, v) # vs) = insert_all (sqlite3RowSetInsert a p v) vs"

fun next_calls :: "nat \<Rightarrow> RowSet \<Rightarrow> (int option list \<times> RowSet) option" where
  "next_calls 0 p = Some ([], p)"
| "next_calls (Suc k) p = do {
     (r, p) \<leftarrow> sqlite3RowSetNext p;
     (rs, p) \<leftarrow> next_calls k p;
     Some (r # rs, p)
   }"

lemma insert_all_keeps:
  "rs_ok p \<Longrightarrow> \<exists>ws. rs_ok (insert_all p vs) \<and> rs_pEntry (insert_all p vs) = rs_pEntry p @ ws \<and> subseq ws (map snd vs) \<and>
     ((\<forall>(a, v)\<in>set vs. a) \<longrightarrow> ws = map snd vs) \<and> rs_pForest (insert_all p vs) = rs_pForest p"
proof (induction p vs rule: insert_all.induct)
  case (2 p a v vs)
  note k = insert_keeps [OF "2.prems" refl, of a v]
  then obtain ws where ws: "rs_ok (insert_all p ((a, v) # vs))"
    "rs_pEntry (insert_all p ((a, v) # vs)) = rs_pEntry (sqlite3RowSetInsert a p v) @ ws" "subseq ws (map snd vs)"
    "(\<forall>(a, v)\<in>set vs. a) \<longrightarrow> ws = map snd vs" "rs_pForest (insert_all p ((a, v) # vs)) = rs_pForest p"
    using "2.IH" by auto
  show ?case
  proof (cases "rs_pEntry (sqlite3RowSetInsert a p v) = rs_pEntry p @ [v]")
    case True
    with ws show ?thesis by (intro exI [of _ "v # ws"]) auto
  next
    case False
    with k have "\<not> a" "rs_pEntry (sqlite3RowSetInsert a p v) = rs_pEntry p" by auto
    with ws show ?thesis by (intro exI [of _ ws]) (auto intro: list_emb_Cons)
  qed
qed auto

text \<open>After the first call the list is sorted, and every call takes its head; the last takes the memory with it.\<close>

lemma drained:
  "rs_pEntry p = [] \<Longrightarrow> rs_SORTED p \<Longrightarrow> \<exists>q. next_calls k p = Some (replicate k None, q) \<and> rs_nChunk q = rs_nChunk p"
proof (induction k arbitrary: p)
  case (Suc k)
  let ?q = "p\<lparr>rs_SORTED := True, rs_NEXT := True\<rparr>"
  have "sqlite3RowSetNext p = Some (None, if rs_NEXT p then p else ?q)" using Suc.prems by (auto simp: sqlite3RowSetNext_def)
  with Suc.IH [of p] Suc.IH [of ?q] Suc.prems show ?case by (cases "rs_NEXT p") auto
qed simp

lemma next_drains:
  "rs_NEXT p \<Longrightarrow> rs_pEntry p = v # l \<Longrightarrow>
   \<exists>q. next_calls k p = Some (map Some (take k (v # l)) @ replicate (k - length (v # l)) None, q) \<and>
     (length (v # l) \<le> k \<longrightarrow> rs_nChunk q = 0)"
proof (induction k arbitrary: p v l)
  case (Suc k)
  show ?case
  proof (cases l)
    case Nil
    let ?q = "sqlite3RowSetClear (p\<lparr>rs_pEntry := []\<rparr>)"
    have "sqlite3RowSetNext p = Some (Some v, ?q)" using Suc.prems Nil by (simp add: sqlite3RowSetNext_def)
    moreover obtain q where "next_calls k ?q = Some (replicate k None, q)" "rs_nChunk q = rs_nChunk ?q"
      using drained [of ?q k] by (auto simp: sqlite3RowSetClear_def)
    ultimately show ?thesis using Nil by (simp add: sqlite3RowSetClear_def)
  next
    case (Cons w m)
    let ?q = "p\<lparr>rs_pEntry := l\<rparr>"
    have "sqlite3RowSetNext p = Some (Some v, ?q)" using Suc.prems Cons by (simp add: sqlite3RowSetNext_def)
    with Suc.IH [of ?q w m] Suc.prems Cons show ?thesis by auto
  qed
qed simp

lemma next_first:
  assumes "rs_ok p" and "length (rs_pEntry p) < 2 ^ 40"
  shows "sqlite3RowSetNext p = sqlite3RowSetNext (p\<lparr>rs_pEntry := sorted_list_of_set (set (rs_pEntry p)), rs_SORTED := True, rs_NEXT := True\<rparr>)"
proof (cases "rs_SORTED p")
  case True
  with assms ascending_unique [of "rs_pEntry p"] show ?thesis by (simp add: sqlite3RowSetNext_def rs_ok_def)
next
  case False
  with assms sort_sorts [OF assms(2)] show ?thesis by (simp add: sqlite3RowSetNext_def rs_ok_def)
qed

section \<open>Properties\<close>

text \<open>
  C14: a row set that is asked answers by batches. Whatever is put in and asked for, in any order and with any
  batch numbers, every operation ends with a result, whether memory is short or not. When every request for memory is granted, a value
  is found exactly if it was put in before the last change of the batch number. When some request fails, values may be lost, but
  no value is found that was not put in before that change. The trees that are searched are as shallow as trees of their size can be.
  The 40 buckets of the sort are enough for any run of less than \<open>2 ^ 40\<close> operations.
\<close>

theorem rowset_answers:
  assumes "sqlite3RowSetInit (Some N) = Some p" and "length ops < 2 ^ 40"
  shows "\<exists>rs q. run_ops sqlite3RowSetInsert sqlite3RowSetTest p ops = Some (rs, q) \<and>
    list_all2 (\<longrightarrow>) rs (batch_spec {} {} 0 ops) \<and>
    ((\<forall>op\<in>set ops. op_alloc op) \<longrightarrow> rs = batch_spec {} {} 0 ops) \<and>
    (\<forall>t\<in>set (rs_pForest q). t \<noteq> Leaf \<longrightarrow> 2 ^ (height t - 1) \<le> size t)"
proof -
  from assms(1) have p: "rs_ok p" "rs_pEntry p = []" "rs_old p = {}" "rs_iBatch p = 0"
    by (auto simp: sqlite3RowSetInit_def rs_ok_def rs_old_def)
  from rs.run_answers [of p 0 ops "{}" "{}"] p assms(2) show ?thesis
    by (auto simp: rs_ok_def tree_ok_def)
qed

theorem rowset_answers_witness:
  "\<exists>rs q. run_ops sqlite3RowSetInsert sqlite3RowSetTest
      \<lparr>rs_nChunk = 0, rs_pEntry = [], rs_pLast = None, rs_pForest = [], rs_nFresh = 1, rs_SORTED = True, rs_NEXT = False, rs_iBatch = 0\<rparr>
      [Put True 7, Put True 3, Ask True 1 3, Put True 5, Ask True 1 5, Ask True 2 5] = Some (rs, q) \<and> rs = [True, False, True]"
proof -
  let ?p = "\<lparr>rs_nChunk = 0, rs_pEntry = [], rs_pLast = None, rs_pForest = [], rs_nFresh = 1, rs_SORTED = True, rs_NEXT = False, rs_iBatch = 0\<rparr>"
  have "sqlite3RowSetInit (Some 80) = Some ?p" by (simp add: sqlite3RowSetInit_def)
  from rowset_answers [OF this, of "[Put True 7, Put True 3, Ask True 1 3, Put True 5, Ask True 1 5, Ask True 2 5]"]
  show ?thesis by (auto simp del: run_ops.simps simp: batch_spec.simps)
qed

text \<open>
  C15: a row set that is drained gives its rowids in order. After any insertions the calls of Next return the distinct
  rowids that got an entry from the smallest to the largest and then report the end, however often they are
  repeated; all rowids get one unless memory is short. With the last rowid the memory is released.
\<close>

theorem rowset_drains_sorted:
  assumes "sqlite3RowSetInit (Some N) = Some p" and "length vs < 2 ^ 40"
  shows "\<exists>ws q. subseq ws (map snd vs) \<and> ((\<forall>(a, v)\<in>set vs. a) \<longrightarrow> ws = map snd vs) \<and>
    next_calls k (insert_all p vs) = Some (map Some (take k (sorted_list_of_set (set ws))) @ replicate (k - card (set ws)) None, q) \<and>
    (ws \<noteq> [] \<and> card (set ws) \<le> k \<longrightarrow> rs_nChunk q = 0)"
proof -
  from assms(1) have p: "rs_ok p" "rs_pEntry p = []" by (auto simp: sqlite3RowSetInit_def rs_ok_def)
  let ?p = "insert_all p vs"
  obtain ws where ws: "rs_ok ?p" "rs_pEntry ?p = ws" "subseq ws (map snd vs)" "(\<forall>(a, v)\<in>set vs. a) \<longrightarrow> ws = map snd vs"
    using insert_all_keeps [OF p(1), of vs] p(2) by auto
  let ?l = "sorted_list_of_set (set ws)"
  let ?q = "?p\<lparr>rs_pEntry := ?l, rs_SORTED := True, rs_NEXT := True\<rparr>"
  have "length ws < 2 ^ 40" using ws(3) assms(2) by (metis length_map list_emb_length le_less_trans)
  with next_first [OF ws(1)] ws(2) have "next_calls k ?p = next_calls k ?q" if "0 < k" using that by (cases k) auto
  moreover have len: "length ?l = card (set ws)" by simp
  moreover obtain q where "next_calls k ?q = Some (map Some (take k ?l) @ replicate (k - card (set ws)) None, q)"
    "ws \<noteq> [] \<longrightarrow> card (set ws) \<le> k \<longrightarrow> rs_nChunk q = 0"
  proof (cases ?l)
    case Nil
    then have "ws = []" by simp
    with that drained [of ?q k] show ?thesis by auto
  next
    case (Cons v m)
    with that next_drains [of ?q v m k] len show ?thesis by auto
  qed
  ultimately show ?thesis using ws(3,4) by (cases "k = 0") auto
qed

theorem rowset_drains_sorted_witness:
  "\<exists>q. next_calls 4 (insert_all
      \<lparr>rs_nChunk = 0, rs_pEntry = [], rs_pLast = None, rs_pForest = [], rs_nFresh = 1, rs_SORTED = True, rs_NEXT = False, rs_iBatch = 0\<rparr>
      [(True, 7), (True, 3), (True, 7)]) = Some ([Some 3, Some 7, None, None], q) \<and> rs_nChunk q = 0"
proof -
  let ?p = "\<lparr>rs_nChunk = 0, rs_pEntry = [], rs_pLast = None, rs_pForest = [], rs_nFresh = 1, rs_SORTED = True, rs_NEXT = False, rs_iBatch = 0\<rparr>"
  have "sqlite3RowSetInit (Some 80) = Some ?p" by (simp add: sqlite3RowSetInit_def)
  from rowset_drains_sorted [OF this, of "[(True, 7), (True, 3), (True, 7)]" 4] obtain ws q where
    ws: "ws = [7, 3, 7]" "ws \<noteq> [] \<and> card (set ws) \<le> 4 \<longrightarrow> rs_nChunk q = 0"
    "next_calls 4 (insert_all ?p [(True, 7), (True, 3), (True, 7)]) =
       Some (map Some (take 4 (sorted_list_of_set (set ws))) @ replicate (4 - card (set ws)) None, q)"
    by (auto simp del: next_calls.simps insert_all.simps)
  have "set ws = set [3, 7 :: int]" using ws(1) by auto
  then have l: "sorted_list_of_set (set ws) = [3, 7]" "card (set ws) = 2" using ascending_unique [of "[3, 7]"] by simp_all
  have "map Some (take 4 [3, 7 :: int]) @ replicate (4 - 2) None = [Some 3, Some 7, None, None]" by (simp add: numeral_eq_Suc)
  with ws l show ?thesis by (intro exI [of _ q]) simp
qed

end
