(* ===== verification/Ys_Record.thy ===== *)
theory Ys_Record
  imports Ys_Varint "HOL-Library.Monad_Syntax"
begin

text \<open>
  The record format of \<^verbatim>\<open>vdbeaux.c\<close> and \<^verbatim>\<open>vdbe.c\<close> (in \<^verbatim>\<open>sqlite3.c\<close>): serial types, the opcode that makes a record of
  registers, and reading a record back. A register is given by the first of its representations in the order
  in which the code looks at them: null, integer, real, text or blob.
\<close>

section \<open>Registers\<close>

text \<open>
  \<open>MEM_Null True\<close> has \<^verbatim>\<open>MEM_Zero\<close>, the mark of a column that is not changed; \<open>MEM_Blob z n\<close> is followed by \<open>n\<close>
  zeros that are not stored. A real number is given by its bits.
\<close>

datatype mem =
    MEM_Null bool
  | MEM_Int "64 word"
  | MEM_IntReal "64 word"
  | MEM_Real "64 word"
  | MEM_Str "byte list"
  | MEM_Blob "byte list" nat

definition EXP754 :: "64 word" where "EXP754 = push_bit 52 0x7ff"
definition MAN754 :: "64 word" where "MAN754 = push_bit 52 1 - 1"

definition IsNaN :: "64 word \<Rightarrow> bool" where
  "IsNaN X \<longleftrightarrow> X AND EXP754 = EXP754 \<and> X AND MAN754 \<noteq> 0"

text \<open>The conversion of C from an integer to the nearest double, to the even one when two are as near.\<close>

fun top_bit :: "nat \<Rightarrow> nat" where
  "top_bit n = (if n \<le> 1 then 0 else Suc (top_bit (n div 2)))"

declare top_bit.simps [simp del]

definition round_even :: "nat \<Rightarrow> nat \<Rightarrow> nat" where
  "round_even u d = (if 2 * (u mod d) > d \<or> 2 * (u mod d) = d \<and> odd (u div d) then u div d + 1 else u div d)"

definition double_of_i64 :: "64 word \<Rightarrow> 64 word" where
  "double_of_i64 i =
     (let sign = (if sint i < 0 then 1 else 0); u = (if sint i < 0 then unat (- i) else unat i); e = top_bit u
      in if u = 0 then 0
         else word_of_nat (sign * 2 ^ 63 + (e + 1022) * 2 ^ 52 + (if e \<le> 52 then u * 2 ^ (52 - e) else round_even u (2 ^ (e - 52)))))"

section \<open>Serial types\<close>

definition sqlite3SmallTypeSizes :: "nat list" where
  "sqlite3SmallTypeSizes = [0, 1, 2, 3, 4, 6, 8, 8, 0, 0, 0, 0] @ concat (map (\<lambda>n. [n, n]) [0..<58])"

definition sqlite3VdbeSerialTypeLen :: "32 word \<Rightarrow> nat" where
  "sqlite3VdbeSerialTypeLen serial_type =
     (if serial_type \<ge> 128 then unat ((serial_type - 12) div 2) else sqlite3SmallTypeSizes ! unat serial_type)"

definition sqlite3VdbeOneByteSerialTypeLen :: "byte \<Rightarrow> nat" where
  "sqlite3VdbeOneByteSerialTypeLen serial_type = sqlite3SmallTypeSizes ! unat serial_type"

text \<open>The type of an integer, with the number of bytes it takes.\<close>

definition int_type :: "nat \<Rightarrow> bool \<Rightarrow> 64 word \<Rightarrow> 32 word \<times> nat" where
  "int_type file_format intReal i =
     (let uu = (if sint i < 0 then NOT i else i) in
      if uu \<le> 127 then (if i AND 1 = i \<and> file_format \<ge> 4 then (8 + ucast uu, 0) else (1, 1))
      else if uu \<le> 32767 then (2, 2)
      else if uu \<le> 8388607 then (3, 3)
      else if uu \<le> 2147483647 then (4, 4)
      else if uu \<le> 140737488355327 then (5, 6)
      else (if intReal then 7 else 6, 8))"

section \<open>Writing a value\<close>

fun put_bytes :: "nat \<Rightarrow> 64 word \<Rightarrow> byte list \<Rightarrow> byte list" where
  "put_bytes 0 v buf = buf"
| "put_bytes (Suc i) v buf = put_bytes i (drop_bit 8 v) (ucast (v AND 0xFF) # buf)"

text \<open>The bytes a number is written as, and what is written of the other values.\<close>

definition sqlite3VdbeSerialPut :: "mem \<Rightarrow> 32 word \<Rightarrow> byte list option" where
  "sqlite3VdbeSerialPut pMem serial_type =
     (if serial_type \<le> 7 \<and> serial_type > 0 then
        let len = sqlite3SmallTypeSizes ! unat serial_type
        in (case pMem of
              MEM_Int i \<Rightarrow> if serial_type \<noteq> 7 then Some (put_bytes len i []) else None
            | MEM_IntReal i \<Rightarrow> if serial_type \<noteq> 7 then Some (put_bytes len i []) else None
            | MEM_Real r \<Rightarrow> if serial_type = 7 then Some (put_bytes len r []) else None
            | _ \<Rightarrow> None)
      else if serial_type \<ge> 12 then
        (case pMem of MEM_Str z \<Rightarrow> Some z | MEM_Blob z _ \<Rightarrow> Some z | _ \<Rightarrow> None)
      else Some [])"

section \<open>Reading a value\<close>

definition ONE_BYTE_INT :: "byte list \<Rightarrow> 32 word" where
  "ONE_BYTE_INT x = scast (x ! 0)"

definition TWO_BYTE_INT :: "byte list \<Rightarrow> 32 word" where
  "TWO_BYTE_INT x = 256 * scast (x ! 0) OR ucast (x ! 1)"

definition THREE_BYTE_INT :: "byte list \<Rightarrow> 32 word" where
  "THREE_BYTE_INT x = 65536 * scast (x ! 0) OR push_bit 8 (ucast (x ! 1)) OR ucast (x ! 2)"

definition FOUR_BYTE_UINT :: "byte list \<Rightarrow> 32 word" where
  "FOUR_BYTE_UINT x = push_bit 24 (ucast (x ! 0)) OR push_bit 16 (ucast (x ! 1)) OR push_bit 8 (ucast (x ! 2)) OR ucast (x ! 3)"

definition FOUR_BYTE_INT :: "byte list \<Rightarrow> 32 word" where
  "FOUR_BYTE_INT x = 16777216 * scast (x ! 0) OR push_bit 16 (ucast (x ! 1)) OR push_bit 8 (ucast (x ! 2)) OR ucast (x ! 3)"

definition serialGet :: "byte list \<Rightarrow> 32 word \<Rightarrow> (nat \<times> mem) option" where
  "serialGet buf serial_type = reads buf 8 (
     let x = ucast (FOUR_BYTE_UINT buf); y = FOUR_BYTE_UINT (drop 4 buf); x = push_bit 32 x + ucast y
     in if serial_type = 6 then Some (8, MEM_Int x)
        else Some (8, if IsNaN x then MEM_Null False else MEM_Real x))"

text \<open>
  The bytes read and the value. The numbers are read from the buffer, for text and blobs only the position is kept, so
  that their bytes are those the buffer has there.
\<close>

definition sqlite3VdbeSerialGet :: "byte list \<Rightarrow> 32 word \<Rightarrow> (nat \<times> mem) option" where
  "sqlite3VdbeSerialGet buf serial_type =
     (if serial_type = 10 then Some (0, MEM_Null True)
      else if serial_type = 11 \<or> serial_type = 0 then Some (0, MEM_Null False)
      else if serial_type = 1 then reads buf 1 (Some (1, MEM_Int (scast (ONE_BYTE_INT buf))))
      else if serial_type = 2 then reads buf 2 (Some (2, MEM_Int (scast (TWO_BYTE_INT buf))))
      else if serial_type = 3 then reads buf 3 (Some (3, MEM_Int (scast (THREE_BYTE_INT buf))))
      else if serial_type = 4 then reads buf 4 (Some (4, MEM_Int (scast (FOUR_BYTE_INT buf))))
      else if serial_type = 5 then
        reads buf 6 (Some (6, MEM_Int (ucast (FOUR_BYTE_UINT (drop 2 buf)) + push_bit 32 1 * scast (TWO_BYTE_INT buf))))
      else if serial_type = 6 \<or> serial_type = 7 then serialGet buf serial_type
      else if serial_type = 8 \<or> serial_type = 9 then Some (0, MEM_Int (ucast (serial_type - 8)))
      else
        let n = unat ((serial_type - 12) div 2)
        in Some (n, if serial_type AND 1 = 0 then MEM_Blob (take n buf) 0 else MEM_Str (take n buf)))"

section \<open>Making a record\<close>

datatype record_error = too_big | no_mem

text \<open>
  One turn of the loop over the registers, which runs from the last to the first: the register as it is afterwards, its type,
  and what it adds to the header, the data and the trailing zeros. \<open>nData\<close> is the data behind it, \<open>mem_ok\<close> says whether
  a buffer of a size can be had.
\<close>

definition size_step :: "(nat \<Rightarrow> bool) \<Rightarrow> nat \<Rightarrow> mem \<Rightarrow> nat \<Rightarrow> record_error + (mem \<times> 32 word) \<times> nat \<times> nat \<times> nat" where
  "size_step mem_ok file_format pRec nData =
     (case pRec of
        MEM_Null zero \<Rightarrow> Inr ((pRec, if zero then 10 else 0), 1, 0, 0)
      | MEM_Int i \<Rightarrow> (case int_type file_format False i of (t, n) \<Rightarrow> Inr ((pRec, t), 1, n, 0))
      | MEM_IntReal i \<Rightarrow>
          (case int_type file_format True i of
             (t, n) \<Rightarrow> Inr ((if t = 7 then MEM_Real (double_of_i64 i) else pRec, t), 1, n, 0))
      | MEM_Real r \<Rightarrow> Inr ((pRec, 7), 1, 8, 0)
      | MEM_Str z \<Rightarrow>
          let serial_type = word_of_nat (length z) * 2 + 12 + 1
          in Inr ((pRec, serial_type), sqlite3VarintLen (ucast serial_type), length z, 0)
      | MEM_Blob z nZero \<Rightarrow>
          let serial_type = word_of_nat (length z) * 2 + 12 + word_of_nat nZero * 2; nVarint = sqlite3VarintLen (ucast serial_type)
          in if nZero = 0 then Inr ((pRec, serial_type), nVarint, length z, 0)
             else if nData \<noteq> 0 then
               if mem_ok (length z + nZero) then
                 Inr ((MEM_Blob (z @ replicate nZero 0) 0, serial_type), nVarint, length z + nZero, 0)
               else Inl no_mem
             else Inr ((pRec, serial_type), nVarint, length z, nZero))"

fun size_loop :: "(nat \<Rightarrow> bool) \<Rightarrow> nat \<Rightarrow> mem list \<Rightarrow> record_error + (mem \<times> 32 word) list \<times> nat \<times> nat \<times> nat" where
  "size_loop mem_ok file_format [] = Inr ([], 0, 0, 0)"
| "size_loop mem_ok file_format (pRec # pRecs) =
     (case size_loop mem_ok file_format pRecs of
        Inl e \<Rightarrow> Inl e
      | Inr (fields, nHdr, nData, nZero) \<Rightarrow>
          (case size_step mem_ok file_format pRec nData of
             Inl e \<Rightarrow> Inl e
           | Inr (field, h, d, z) \<Rightarrow> Inr (field # fields, nHdr + h, nData + d, nZero + z)))"

text \<open>The size of the header, its own size included.\<close>

definition header_size :: "nat \<Rightarrow> nat" where
  "header_size nHdr =
     (if nHdr \<le> 126 then nHdr + 1
      else
        let nVarint = sqlite3VarintLen (word_of_nat nHdr); nHdr = nHdr + nVarint
        in if nVarint < sqlite3VarintLen (word_of_nat nHdr) then nHdr + 1 else nHdr)"

definition putVarint32 :: "32 word \<Rightarrow> byte list" where
  "putVarint32 B = (if B < 0x80 then [ucast B] else sqlite3PutVarint (ucast B))"

fun write_loop :: "byte list \<Rightarrow> nat \<Rightarrow> nat \<Rightarrow> (mem \<times> 32 word) list \<Rightarrow> byte list option" where
  "write_loop z zHdr zPayload [] = Some z"
| "write_loop z zHdr zPayload ((pRec, serial_type) # fields) = do {
     let h = putVarint32 serial_type;
     p \<leftarrow> sqlite3VdbeSerialPut pRec serial_type;
     write_loop (overwrite (overwrite z zHdr h) zPayload p) (zHdr + length h) (zPayload + length p) fields
   }"

text \<open>
  The opcode, after the affinities have been applied. \<open>szMalloc\<close> is the size of the buffer the output register has, \<open>garbage\<close> what is in
  the buffer that is used, \<open>limit\<close> the longest value. The result is the record and the number of zeros that follow it.
\<close>

definition OP_MakeRecord ::
  "(nat \<Rightarrow> bool) \<Rightarrow> nat \<Rightarrow> nat \<Rightarrow> nat \<Rightarrow> (nat \<Rightarrow> byte list) \<Rightarrow> mem list \<Rightarrow> (record_error + byte list \<times> nat) option" where
  "OP_MakeRecord mem_ok limit file_format szMalloc garbage pRecs =
     (case size_loop mem_ok file_format pRecs of
        Inl e \<Rightarrow> Some (Inl e)
      | Inr (fields, nHdr, nData, nZero) \<Rightarrow>
          let nHdr = header_size nHdr; nByte = nHdr + nData
          in if \<not> nByte + nZero \<le> szMalloc \<and> nByte + nZero > limit then Some (Inl too_big)
             else if \<not> nByte + nZero \<le> szMalloc \<and> \<not> mem_ok nByte then Some (Inl no_mem)
             else
               let h = putVarint32 (word_of_nat nHdr)
               in map_option (\<lambda>z. Inr (z, nZero)) (write_loop (overwrite (garbage nByte) 0 h) (length h) nHdr fields))"

section \<open>Reading a record\<close>

text \<open>The loop over the fields, with the number of cells that are left.\<close>

fun unpack_loop :: "byte list \<Rightarrow> nat \<Rightarrow> nat \<Rightarrow> nat \<Rightarrow> nat \<Rightarrow> nat \<Rightarrow> (mem list \<times> nat) option" where
  "unpack_loop aKey nKey szHdr idx d 0 = Some ([], d)"
| "unpack_loop aKey nKey szHdr idx d (Suc left) =
     (if idx < szHdr \<and> d \<le> nKey then do {
        (n, serial_type) \<leftarrow> getVarint32 (drop idx aKey);
        (len, pMem) \<leftarrow> sqlite3VdbeSerialGet (drop d aKey) serial_type;
        (pMems, d) \<leftarrow> unpack_loop aKey nKey szHdr (idx + n) (d + len) left;
        Some (pMem # pMems, d)
      } else Some ([], d))"

text \<open>\<open>aKey\<close> is the memory from the start of the record on, \<open>nKey\<close> the size of the record.\<close>

definition sqlite3VdbeRecordUnpack :: "byte list \<Rightarrow> nat \<Rightarrow> nat \<Rightarrow> mem list option" where
  "sqlite3VdbeRecordUnpack aKey nKey nField = do {
     (idx, szHdr) \<leftarrow> getVarint32 aKey;
     (pMems, d) \<leftarrow> unpack_loop aKey nKey (unat szHdr) idx (unat szHdr) (max 1 nField);
     Some (if d > nKey \<and> pMems \<noteq> [] then butlast pMems @ [MEM_Null False] else pMems)
   }"

section \<open>Integers\<close>

lemma negative_bit: "sint i < 0 \<longleftrightarrow> bit (i :: 64 word) 63"
  using bit_last_iff [of i] by simp

lemma no_bit_above:
  assumes "unat (v :: 64 word) < 2 ^ k" and "k \<le> n"
  shows "\<not> bit v n"
proof
  assume "bit v n"
  then have "bit (unat v) n" by (simp add: bit_unsigned_iff)
  then have "odd (unat v div 2 ^ n)" by (simp add: bit_iff_odd)
  then have "unat v div 2 ^ n \<noteq> 0" by (intro notI) simp
  then have "2 ^ n \<le> unat v" by (simp add: div_eq_0_iff)
  moreover have "(2 :: nat) ^ k \<le> 2 ^ n" using assms(2) by simp
  ultimately show False using assms(1) by simp
qed

text \<open>The integers of a size have all bits from their sign on alike.\<close>

lemma sign_bits:
  assumes "unat (if sint i < 0 then NOT i else i) < 2 ^ k" and "k \<le> n" and "n < 64"
  shows "bit (i :: 64 word) n \<longleftrightarrow> bit i 63"
  using no_bit_above [OF assms(1,2)] assms(3) by (auto simp: negative_bit bit_not_iff split: if_splits)

definition byte_of :: "nat \<Rightarrow> 64 word \<Rightarrow> byte" where
  "byte_of k v = ucast (drop_bit k v AND 0xFF)"

lemma byte_at: "bit (byte_of k v) n \<longleftrightarrow> n < 8 \<and> bit v (k + n)"
proof -
  have "(0xFF :: 64 word) = mask 8" by (simp add: mask_eq_exp_minus_1)
  then show ?thesis unfolding byte_of_def
    by (auto simp only: bit_unsigned_iff bit_and_iff bit_mask_iff bit_drop_bit_eq comp_def possible_bit_word)
      (auto dest: bit_imp_le_length)
qed

lemma scast_byte: "bit (scast (b :: byte) :: 32 word) n \<longleftrightarrow> n < 32 \<and> (if n < 7 then bit b n else bit b 7)"
  by (auto simp: bit_signed_iff)

lemma scast_64: "bit (scast (w :: 32 word) :: 64 word) n \<longleftrightarrow> n < 64 \<and> (if n < 31 then bit w n else bit w 31)"
  by (auto simp: bit_signed_iff)

lemma mult_shift:
  "256 * (x :: 32 word) = push_bit 8 x" "65536 * (x :: 32 word) = push_bit 16 x" "16777216 * (x :: 32 word) = push_bit 24 x"
  by (simp_all add: push_bit_eq_mult)

lemma two_bytes_bit:
  "bit (TWO_BYTE_INT (a # b # bs)) n \<longleftrightarrow> n < 32 \<and> (if n < 8 then bit b n else (if n - 8 < 7 then bit a (n - 8) else bit a 7))"
  by (auto simp: TWO_BYTE_INT_def mult_shift bit_simps scast_byte dest: bit_imp_le_length)

lemma three_bytes_bit:
  "bit (THREE_BYTE_INT (a # b # c # bs)) n \<longleftrightarrow> n < 32 \<and>
     (if n < 8 then bit c n else if n < 16 then bit b (n - 8) else (if n - 16 < 7 then bit a (n - 16) else bit a 7))"
  by (auto simp: THREE_BYTE_INT_def mult_shift bit_simps scast_byte dest: bit_imp_le_length)

lemma four_bytes_bit:
  "bit (FOUR_BYTE_INT (a # b # c # d # bs)) n \<longleftrightarrow> n < 32 \<and>
     (if n < 8 then bit d n else if n < 16 then bit c (n - 8) else if n < 24 then bit b (n - 16) else (if n - 24 < 7 then bit a (n - 24) else bit a 7))"
  by (auto simp: FOUR_BYTE_INT_def mult_shift bit_simps scast_byte dest: bit_imp_le_length)

lemma four_bytes_uint_bit:
  "bit (FOUR_BYTE_UINT (a # b # c # d # bs)) n \<longleftrightarrow>
     (if n < 8 then bit d n else if n < 16 then bit c (n - 8) else if n < 24 then bit b (n - 16) else n < 32 \<and> bit a (n - 24))"
  by (auto simp: FOUR_BYTE_UINT_def bit_simps dest: bit_imp_le_length)


text \<open>The bytes of a number, the highest first.\<close>

lemma put_bytes_byte: "put_bytes (Suc n) v buf = put_bytes n (drop_bit 8 v) (byte_of 0 v # buf)"
  by (simp add: byte_of_def)

lemma byte_of_drop: "byte_of k (drop_bit m v) = byte_of (k + m) v"
  by (simp add: byte_of_def add.commute)

lemma put_bytes_numbers:
  "put_bytes 1 v [] = [byte_of 0 v]"
  "put_bytes 2 v [] = [byte_of 8 v, byte_of 0 v]"
  "put_bytes 3 v [] = [byte_of 16 v, byte_of 8 v, byte_of 0 v]"
  "put_bytes 4 v [] = [byte_of 24 v, byte_of 16 v, byte_of 8 v, byte_of 0 v]"
  "put_bytes 6 v [] = byte_of 40 v # byte_of 32 v # put_bytes 4 v []"
  "put_bytes 8 v [] = byte_of 56 v # byte_of 48 v # byte_of 40 v # byte_of 32 v # put_bytes 4 v []"
  by (simp_all add: numeral_eq_Suc put_bytes_byte byte_of_drop del: put_bytes.simps(2))

lemma length_put_bytes [simp]: "length (put_bytes n v buf) = n + length buf"
  by (induction n v buf rule: put_bytes.induct) simp_all

definition magnitude :: "64 word \<Rightarrow> nat" where
  "magnitude i = unat (if sint i < 0 then NOT i else i)"

lemma get_put_1: "magnitude i < 2 ^ 7 \<Longrightarrow> scast (ONE_BYTE_INT (put_bytes 1 i [] @ r)) = i"
proof (rule word64_bits)
  fix n :: nat
  assume i: "magnitude i < 2 ^ 7" and n: "n < 64"
  have s: "bit i 7 = bit i 63" "7 \<le> n \<Longrightarrow> bit i n = bit i 63" using sign_bits [of i 7 7] sign_bits [of i 7 n] i n unfolding magnitude_def by auto
  have "bit (scast (ONE_BYTE_INT (put_bytes 1 i [] @ r)) :: 64 word) n = (if n < 7 then bit i n else bit i 7)"
    unfolding put_bytes_numbers ONE_BYTE_INT_def append_Cons nth_Cons_0 scast_64 scast_byte byte_at using n by simp
  with s show "bit (scast (ONE_BYTE_INT (put_bytes 1 i [] @ r)) :: 64 word) n = bit i n"
    by simp
qed

lemma get_put_2: "magnitude i < 2 ^ 15 \<Longrightarrow> scast (TWO_BYTE_INT (put_bytes 2 i [] @ r)) = i"
proof (rule word64_bits)
  fix n :: nat
  assume i: "magnitude i < 2 ^ 15" and n: "n < 64"
  have s: "bit i 15 = bit i 63" "15 \<le> n \<Longrightarrow> bit i n = bit i 63" using sign_bits [of i 15 15] sign_bits [of i 15 n] i n unfolding magnitude_def by auto
  have "bit (scast (TWO_BYTE_INT (put_bytes 2 i [] @ r)) :: 64 word) n = (if n < 15 then bit i n else bit i 15)"
    unfolding put_bytes_numbers append_Cons scast_64 two_bytes_bit byte_at using n by auto
  with s show "bit (scast (TWO_BYTE_INT (put_bytes 2 i [] @ r)) :: 64 word) n = bit i n"
    by simp
qed

lemma get_put_3: "magnitude i < 2 ^ 23 \<Longrightarrow> scast (THREE_BYTE_INT (put_bytes 3 i [] @ r)) = i"
proof (rule word64_bits)
  fix n :: nat
  assume i: "magnitude i < 2 ^ 23" and n: "n < 64"
  have s: "bit i 23 = bit i 63" "23 \<le> n \<Longrightarrow> bit i n = bit i 63" using sign_bits [of i 23 23] sign_bits [of i 23 n] i n unfolding magnitude_def by auto
  have "bit (scast (THREE_BYTE_INT (put_bytes 3 i [] @ r)) :: 64 word) n = (if n < 23 then bit i n else bit i 23)"
    unfolding put_bytes_numbers append_Cons scast_64 three_bytes_bit byte_at using n by auto
  with s show "bit (scast (THREE_BYTE_INT (put_bytes 3 i [] @ r)) :: 64 word) n = bit i n"
    by simp
qed

lemma get_put_4: "magnitude i < 2 ^ 31 \<Longrightarrow> scast (FOUR_BYTE_INT (put_bytes 4 i [] @ r)) = i"
proof (rule word64_bits)
  fix n :: nat
  assume i: "magnitude i < 2 ^ 31" and n: "n < 64"
  have s: "bit i 31 = bit i 63" "31 \<le> n \<Longrightarrow> bit i n = bit i 63" using sign_bits [of i 31 31] sign_bits [of i 31 n] i n unfolding magnitude_def by auto
  have "bit (scast (FOUR_BYTE_INT (put_bytes 4 i [] @ r)) :: 64 word) n = (if n < 31 then bit i n else bit i 31)"
    unfolding put_bytes_numbers append_Cons scast_64 four_bytes_bit byte_at using n by auto
  with s show "bit (scast (FOUR_BYTE_INT (put_bytes 4 i [] @ r)) :: 64 word) n = bit i n"
    by simp
qed

text \<open>The low four bytes are read without sign and the high ones are added.\<close>

lemma low_four: "bit (FOUR_BYTE_UINT (put_bytes 4 i [] @ r)) n \<longleftrightarrow> n < 32 \<and> bit i n"
  unfolding put_bytes_numbers append_Cons four_bytes_uint_bit byte_at by auto

lemma add_high: "ucast (l :: 32 word) + push_bit 32 h = ucast l OR push_bit 32 (h :: 64 word)"
  by (rule disjunctive_add) (auto simp: bit_simps dest: bit_imp_le_length)

lemma get_put_6:
  assumes "magnitude i < 2 ^ 47"
  shows "ucast (FOUR_BYTE_UINT (drop 2 (put_bytes 6 i [] @ r))) + push_bit 32 1 * scast (TWO_BYTE_INT (put_bytes 6 i [] @ r)) = i"
proof -
  let ?l = "FOUR_BYTE_UINT (put_bytes 4 i [] @ r)"
  let ?h = "scast (TWO_BYTE_INT (put_bytes 6 i [] @ r)) :: 64 word"
  have d: "drop 2 (put_bytes 6 i [] @ r) = put_bytes 4 i [] @ r" by (simp add: put_bytes_numbers(5))
  have m: "push_bit 32 1 * ?h = push_bit 32 ?h" by (simp add: push_bit_eq_mult mult.commute)
  have "ucast ?l OR push_bit 32 ?h = i"
  proof (rule word64_bits)
    fix n :: nat
    assume n: "n < 64"
    have s: "bit i 47 = bit i 63" "47 \<le> n \<Longrightarrow> bit i n = bit i 63" using sign_bits [of i 47 47] sign_bits [of i 47 n] assms n unfolding magnitude_def by auto
    have "bit (ucast ?l OR push_bit 32 ?h) n \<longleftrightarrow> (if n < 32 then bit ?l n else bit ?h (n - 32))"
      using n by (auto simp: bit_simps dest: bit_imp_le_length)
    also have "\<dots> = (if n < 47 then bit i n else bit i 47)"
      unfolding low_four put_bytes_numbers(5) append_Cons two_bytes_bit scast_64 byte_at using n by auto
    finally show "bit (ucast ?l OR push_bit 32 ?h) n = bit i n" using s by simp
  qed
  then show ?thesis by (simp only: d m add_high)
qed

lemma get_put_8:
  "push_bit 32 (ucast (FOUR_BYTE_UINT (put_bytes 8 i [] @ r))) + ucast (FOUR_BYTE_UINT (drop 4 (put_bytes 8 i [] @ r))) = i"
proof -
  let ?h = "FOUR_BYTE_UINT (put_bytes 8 i [] @ r)" and ?l = "FOUR_BYTE_UINT (put_bytes 4 i [] @ r)"
  have d: "drop 4 (put_bytes 8 i [] @ r) = put_bytes 4 i [] @ r" by (simp add: put_bytes_numbers(6))
  have "ucast ?l OR push_bit 32 (ucast ?h) = i"
  proof (rule word64_bits)
    fix n :: nat
    assume n: "n < 64"
    have "bit (ucast ?l OR push_bit 32 (ucast ?h) :: 64 word) n \<longleftrightarrow> (if n < 32 then bit ?l n else bit ?h (n - 32))"
      using n by (auto simp: bit_simps dest: bit_imp_le_length)
    also have "\<dots> = bit i n"
      unfolding low_four put_bytes_numbers(6) append_Cons four_bytes_uint_bit byte_at using n by auto
    finally show "bit (ucast ?l OR push_bit 32 (ucast ?h) :: 64 word) n = bit i n" .
  qed
  then show ?thesis by (simp only: d add_high add.commute [of "push_bit 32 _"])
qed

section \<open>Headers\<close>

lemma unat_up: "unat (ucast (t :: 32 word) :: 64 word) = unat t"
proof -
  have "unat t < 2 ^ 32" using unsigned_less [of t] by simp
  then have "unat t < 2 ^ 64" by simp
  then show ?thesis by (simp add: unsigned_ucast_eq take_bit_nat_eq_self)
qed

lemma unat_nat: "n < 2 ^ 64 \<Longrightarrow> unat (word_of_nat n :: 64 word) = n" "n < 2 ^ 32 \<Longrightarrow> unat (word_of_nat n :: 32 word) = n"
  by (simp_all add: unsigned_of_nat take_bit_nat_eq_self)

lemma ucast_less_80: "(t :: 32 word) < 0x80 \<longleftrightarrow> (ucast t :: 64 word) \<le> 0x7f"
  by (simp add: word_less_nat_alt word_le_nat_alt unat_up less_Suc_eq_le [symmetric])

lemma clamp32_ucast [simp]: "clamp32 (ucast t) = t"
proof -
  have "\<forall>m\<ge>32. \<not> bit (ucast t :: 64 word) m" by (auto simp: bit_simps dest: bit_imp_le_length)
  then have "clamp32 (ucast t) = ucast (ucast t :: 64 word)" by (rule clamp32_small)
  also have "ucast (ucast t :: 64 word) = t" by (rule word32_bits) (auto simp: bit_simps dest: bit_imp_le_length)
  finally show ?thesis .
qed

lemma putVarint32_eq: "putVarint32 t = sqlite3PutVarint (ucast t)"
proof (cases "t < 0x80")
  case True
  then have "(ucast t :: 64 word) \<le> 0x7f" by (simp only: ucast_less_80)
  moreover from this have "ucast t AND 0x7f = (ucast t :: 64 word)"
  proof -
    have "(0x7f :: 64 word) = mask 7" by (simp add: mask_eq_exp_minus_1)
    moreover have "take_bit 7 (ucast t :: 64 word) = ucast t"
      using True unfolding word_unat_eq_iff unsigned_take_bit_eq unat_up by (simp add: take_bit_nat_eq_self word_less_nat_alt)
    ultimately show ?thesis by (metis take_bit_eq_mask)
  qed
  moreover have "ucast t = (ucast (ucast t :: 64 word) :: byte)" by (rule bit_word_eqI) (auto simp: bit_simps dest: bit_imp_le_length)
  ultimately show ?thesis using True by (simp add: putVarint32_def sqlite3PutVarint_def)
qed (simp add: putVarint32_def)

lemma getVarint32_put: "getVarint32 (putVarint32 t @ rest) = Some (length (putVarint32 t), t)"
  using put_get [of "ucast t" rest] by (simp add: getVarint32_ref sqlite3GetVarint_ref putVarint32_eq)

lemma length_putVarint32: "length (putVarint32 t) = sqlite3VarintLen (ucast t)"
proof -
  have "\<not> bit (ucast t :: 64 word) 63" by (auto simp: bit_simps dest: bit_imp_le_length)
  then show ?thesis using put_get [of "ucast t"] by (simp add: putVarint32_eq)
qed

lemma varint_len_step: "n < 2 ^ 63 \<Longrightarrow> sqlite3VarintLen (word_of_nat n) = (if n < 2 ^ 7 then 1 else Suc (sqlite3VarintLen (word_of_nat (n div 2 ^ 7))))"
proof -
  assume n: "n < 2 ^ 63"
  then have u: "unat (word_of_nat n :: 64 word) = n" by (intro unat_nat) simp
  have "n div 2 ^ 7 < 2 ^ 64" using n by simp
  note v = unat_nat(1) [OF this]
  have "drop_bit 7 (word_of_nat n :: 64 word) = word_of_nat (n div 2 ^ 7)"
    unfolding word_unat_eq_iff unat_drop_bit_eq u v by (rule drop_bit_eq_div)
  moreover have "word_of_nat (n div 2 ^ 7) = (0 :: 64 word) \<longleftrightarrow> n < 2 ^ 7"
    unfolding word_unat_eq_iff v unat_0 by (auto simp: div_eq_0_iff)
  ultimately show ?thesis by (subst sqlite3VarintLen.simps) simp
qed

definition varint_len :: "nat \<Rightarrow> nat" where
  "varint_len n = sqlite3VarintLen (word_of_nat n)"

lemma varint_len_nat: "n < 2 ^ 21 \<Longrightarrow> varint_len n = (if n < 2 ^ 7 then 1 else if n < 2 ^ 14 then 2 else 3)"
proof -
  assume n: "n < 2 ^ 21"
  then have "n div 2 ^ 7 < 2 ^ 14" "n div 2 ^ 7 div 2 ^ 7 < 2 ^ 7" by (simp_all add: div_mult2_eq [symmetric] div_less_iff_less_mult)
  moreover have "n div 2 ^ 7 < 2 ^ 7 \<longleftrightarrow> n < 2 ^ 14" by (simp add: div_less_iff_less_mult)
  ultimately show ?thesis
    unfolding varint_len_def
    using varint_len_step [of n] varint_len_step [of "n div 2 ^ 7"] varint_len_step [of "n div 2 ^ 7 div 2 ^ 7"] n
    by (simp split: if_split)
qed

text \<open>The size of the header accounts for itself.\<close>

lemma header_size_fits:
  assumes "n < 2 ^ 20"
  shows "header_size n = n + varint_len (header_size n)" and "header_size n \<le> n + 3"
  using varint_len_nat [of n] varint_len_nat [of "n + 1"] varint_len_nat [of "n + 2"] varint_len_nat [of "Suc (Suc (Suc n))"] varint_len_nat [of "n + 3"] assms
  unfolding header_size_def Let_def varint_len_def [symmetric] by (auto split: if_splits)

section \<open>Values\<close>

definition SQLITE_MAX_LENGTH :: nat where "SQLITE_MAX_LENGTH = 1000000000"

text \<open>What is read back of a register, and the registers within the limits.\<close>

definition stored :: "mem \<Rightarrow> mem" where
  "stored m = (case m of
     MEM_IntReal i \<Rightarrow> if magnitude i < 2 ^ 47 then MEM_Int i else MEM_Real (double_of_i64 i)
   | MEM_Real r \<Rightarrow> if IsNaN r then MEM_Null False else m
   | MEM_Blob z n \<Rightarrow> MEM_Blob (z @ replicate n 0) 0
   | _ \<Rightarrow> m)"

definition field_ok :: "mem \<Rightarrow> bool" where
  "field_ok m \<longleftrightarrow> (case m of
     MEM_Str z \<Rightarrow> length z \<le> SQLITE_MAX_LENGTH
   | MEM_Blob z n \<Rightarrow> length z + n \<le> SQLITE_MAX_LENGTH
   | _ \<Rightarrow> True)"

text \<open>What one register has in the record: bytes of its type that read back, in front of anything.\<close>

definition reads_as :: "byte list \<Rightarrow> nat \<Rightarrow> 32 word \<Rightarrow> mem \<Rightarrow> bool" where
  "reads_as p z t m \<longleftrightarrow> (\<forall>R. sqlite3VdbeSerialGet (p @ replicate z 0 @ R) t = Some (length p + z, m))"

lemma sizes: "sqlite3SmallTypeSizes ! Suc 0 = 1" "sqlite3SmallTypeSizes ! 1 = 1" "sqlite3SmallTypeSizes ! 2 = 2" "sqlite3SmallTypeSizes ! 3 = 3"
  "sqlite3SmallTypeSizes ! 4 = 4" "sqlite3SmallTypeSizes ! 5 = 6" "sqlite3SmallTypeSizes ! 6 = 8" "sqlite3SmallTypeSizes ! 7 = 8"
  by (simp_all add: sqlite3SmallTypeSizes_def)

lemma magnitude_le: "(if sint i < 0 then NOT i else i) \<le> b \<longleftrightarrow> magnitude i \<le> unat b"
  by (simp add: magnitude_def word_le_nat_alt)

lemma int_type_cases:
  "int_type ff r i = (let u = magnitude i in
     if u < 2 ^ 7 then (if i AND 1 = i \<and> ff \<ge> 4 then (8 + ucast (if sint i < 0 then NOT i else i), 0) else (1, 1))
     else if u < 2 ^ 15 then (2, 2) else if u < 2 ^ 23 then (3, 3) else if u < 2 ^ 31 then (4, 4)
     else if u < 2 ^ 47 then (5, 6) else (if r then 7 else 6, 8))"
  by (simp add: int_type_def Let_def magnitude_le)

lemma one_bit: "i AND 1 = i \<Longrightarrow> i = 0 \<or> i = (1 :: 64 word)"
  using mod_2_eq_odd [of i] by (cases "odd i") (simp_all add: and_one_eq)

lemma int_reads:
  assumes "int_type ff r i = (t, n)" and "t \<noteq> 7"
  shows "\<exists>p. sqlite3VdbeSerialPut (MEM_Int i) t = Some p \<and> sqlite3VdbeSerialPut (MEM_IntReal i) t = Some p \<and> length p = n \<and> t < 128 \<and>
    reads_as p 0 t (MEM_Int i)"
proof -
  let ?u = "magnitude i"
  consider "?u < 2 ^ 7" "i AND 1 = i" "ff \<ge> 4" | "?u < 2 ^ 7" "t = 1" "n = 1"
    | "?u < 2 ^ 15" "t = 2" "n = 2" | "?u < 2 ^ 23" "t = 3" "n = 3" | "?u < 2 ^ 31" "t = 4" "n = 4"
    | "?u < 2 ^ 47" "t = 5" "n = 6" | "t = 6" "n = 8"
    using assms unfolding int_type_cases Let_def by (auto split: if_splits)
  then show ?thesis
  proof cases
    case 1
    then have "i = 0 \<and> t = 8 \<and> n = 0 \<or> i = 1 \<and> t = 9 \<and> n = 0"
      using one_bit [of i] assms(1) unfolding int_type_cases Let_def by auto
    then show ?thesis by (auto simp: sqlite3VdbeSerialPut_def sqlite3VdbeSerialGet_def reads_as_def word_le_nat_alt word_less_nat_alt)
  next
    case 2
    then show ?thesis using get_put_1 [of i]
      by (simp add: sqlite3VdbeSerialPut_def sqlite3VdbeSerialGet_def reads_as_def sizes reads_def del: put_bytes.simps)
  next
    case 3
    then show ?thesis using get_put_2 [of i]
      by (simp add: sqlite3VdbeSerialPut_def sqlite3VdbeSerialGet_def reads_as_def sizes reads_def)
  next
    case 4
    then show ?thesis using get_put_3 [of i]
      by (simp add: sqlite3VdbeSerialPut_def sqlite3VdbeSerialGet_def reads_as_def sizes reads_def)
  next
    case 5
    then show ?thesis using get_put_4 [of i]
      by (simp add: sqlite3VdbeSerialPut_def sqlite3VdbeSerialGet_def reads_as_def sizes reads_def)
  next
    case 6
    then show ?thesis using get_put_6 [of i]
      by (simp add: sqlite3VdbeSerialPut_def sqlite3VdbeSerialGet_def reads_as_def sizes reads_def)
  next
    case 7
    then show ?thesis using get_put_8 [of i]
      by (simp add: sqlite3VdbeSerialPut_def sqlite3VdbeSerialGet_def serialGet_def Let_def reads_as_def sizes reads_def)
  qed
qed

lemma real_reads:
  "\<exists>p. sqlite3VdbeSerialPut (MEM_Real r) 7 = Some p \<and> length p = 8 \<and> reads_as p 0 7 (stored (MEM_Real r))"
  using get_put_8 [of r]
  by (auto simp: sqlite3VdbeSerialPut_def sqlite3VdbeSerialGet_def serialGet_def Let_def reads_as_def sizes reads_def stored_def)

lemma int_type_7: "int_type ff r i = (7, n) \<Longrightarrow> r \<and> \<not> magnitude i < 2 ^ 47 \<and> n = 8"
  using one_bit [of i] by (auto simp: int_type_cases Let_def split: if_splits)

text \<open>The types of text and blobs.\<close>

lemma long_type:
  assumes "n \<le> SQLITE_MAX_LENGTH" and "b < 2"
  defines "t \<equiv> word_of_nat n * 2 + 12 + word_of_nat b :: 32 word"
  shows "unat t = 2 * n + 12 + b" and "t \<ge> 12" and "unat ((t - 12) div 2) = n" and "t AND 1 = 0 \<longleftrightarrow> b = 0"
proof -
  have e: "t = word_of_nat (2 * n + 12 + b)" by (simp add: t_def)
  show u: "unat t = 2 * n + 12 + b" unfolding e using assms(1,2) by (intro unat_nat) (simp add: SQLITE_MAX_LENGTH_def)
  then show g: "t \<ge> 12" by (simp add: word_le_nat_alt)
  show "unat ((t - 12) div 2) = n" using g u assms(2) by (simp add: unat_div_distrib unat_sub)
  have "t AND 1 = 0 \<longleftrightarrow> even t" by (simp add: and_one_eq even_iff_mod_2_eq_zero)
  also have "\<dots> \<longleftrightarrow> even b" by (simp add: t_def)
  finally show "t AND 1 = 0 \<longleftrightarrow> b = 0" using assms(2) by (cases "b = 0") (auto simp: less_2_cases_iff)
qed

lemma top_bit_bounds: "0 < n \<Longrightarrow> 2 ^ top_bit n \<le> n \<and> n < 2 ^ Suc (top_bit n)"
proof (induction n rule: top_bit.induct)
  case (1 n)
  show ?case
  proof (cases "n \<le> 1")
    case True
    with 1 show ?thesis by (subst (1 2) top_bit.simps) simp
  next
    case False
    then have "0 < n div 2" by (simp add: div_greater_zero_iff)
    with 1 False have "2 ^ top_bit (n div 2) \<le> n div 2" "n div 2 < 2 ^ Suc (top_bit (n div 2))" by blast+
    with False show ?thesis by (subst (1 2) top_bit.simps) auto
  qed
qed

lemma exponent_not_full:
  assumes "e < 64" and "q \<le> 2 ^ 53" and "s \<le> 1"
  shows "\<not> IsNaN (word_of_nat (s * 2 ^ 63 + (e + 1022) * 2 ^ 52 + q))"
proof -
  let ?r = "(e + 1022) * 2 ^ 52 + q" and ?v = "s * 2 ^ 63 + (e + 1022) * 2 ^ 52 + q"
  have aux: "y < 3 \<Longrightarrow> x = 4 * s + y \<Longrightarrow> z = x div 2 \<Longrightarrow> \<not> (odd x \<and> odd z)" for x y z :: nat by presburger
  have "?r < 3 * 2 ^ 61" using assms by simp
  then have "?r div 2 ^ 61 < 3" by (simp add: div_less_iff_less_mult)
  moreover have "?v div 2 ^ 61 = 4 * s + ?r div 2 ^ 61"
    using div_mult_self1 [of "2 ^ 61 :: nat" ?r "4 * s"] by (simp add: algebra_simps)
  moreover have "?v div 2 ^ 62 = (?v div 2 ^ 61) div 2" by (simp add: div_mult2_eq [symmetric])
  ultimately have "\<not> (odd (?v div 2 ^ 61) \<and> odd (?v div 2 ^ 62))" using aux by blast
  moreover have "?v < 2 ^ 64" using assms by simp
  then have "unat (word_of_nat ?v :: 64 word) = ?v" by (rule unat_nat)
  then have "bit (word_of_nat ?v :: 64 word) n \<longleftrightarrow> odd (?v div 2 ^ n)" for n
    using bit_unsigned_iff [where 'a = nat, of "word_of_nat ?v :: 64 word" n] bit_iff_odd [of ?v n]
    by (simp only: possible_bit_nat) simp
  ultimately have "\<not> (bit (word_of_nat ?v :: 64 word) 61 \<and> bit (word_of_nat ?v :: 64 word) 62)" by blast
  moreover have "bit EXP754 61" "bit EXP754 62" by (simp_all add: EXP754_def bit_simps)
  ultimately have "word_of_nat ?v AND EXP754 \<noteq> EXP754" by (metis bit_and_iff)
  then show ?thesis by (simp add: IsNaN_def)
qed

text \<open>The conversion never gives a number that is read as null.\<close>

lemma double_not_nan: "\<not> IsNaN (double_of_i64 i)"
proof -
  let ?u = "if sint i < 0 then unat (- i) else unat i" and ?s = "if sint i < 0 then 1 else 0 :: nat"
  show ?thesis
  proof (cases "?u = 0")
    case True
    then show ?thesis by (simp add: double_of_i64_def Let_def IsNaN_def MAN754_def)
  next
    case False
    let ?e = "top_bit ?u" and ?q = "if top_bit ?u \<le> 52 then ?u * 2 ^ (52 - top_bit ?u) else round_even ?u (2 ^ (top_bit ?u - 52))"
    note b = top_bit_bounds [of ?u]
    have "?u < 2 ^ 64" using unsigned_less [where 'a = nat, of i] unsigned_less [where 'a = nat, of "- i"] by simp
    with b False have "(2 :: nat) ^ ?e < 2 ^ 64" by linarith
    then have e: "?e < 64" by (simp only: power_strict_increasing_iff)
    have q: "?q \<le> 2 ^ 53"
    proof (cases "?e \<le> 52")
      case True
      have "?u * 2 ^ (52 - ?e) \<le> 2 ^ Suc ?e * 2 ^ (52 - ?e)" using b False by (intro mult_right_mono) auto
      also have "\<dots> = 2 ^ 53" using True by (simp flip: power_add power_Suc)
      finally show ?thesis using True by simp
    next
      case big: False
      then have "Suc ?e = 53 + (?e - 52)" by linarith
      then have "(2 :: nat) ^ Suc ?e = 2 ^ 53 * 2 ^ (?e - 52)" by (metis power_add)
      then have "?u < 2 ^ 53 * 2 ^ (?e - 52)" using b False by linarith
      then have "?u div 2 ^ (?e - 52) < 2 ^ 53" by (simp add: div_less_iff_less_mult)
      then show ?thesis using big by (simp add: round_even_def)
    qed
    have "double_of_i64 i = word_of_nat (?s * 2 ^ 63 + (?e + 1022) * 2 ^ 52 + ?q)" using False by (simp add: double_of_i64_def Let_def)
    moreover have "?s \<le> 1" by simp
    ultimately show ?thesis using exponent_not_full e q by metis
  qed
qed

lemma get_long:
  "12 \<le> t \<Longrightarrow> sqlite3VdbeSerialGet buf t =
    (let n = unat ((t - 12) div 2) in Some (n, if t AND 1 = 0 then MEM_Blob (take n buf) 0 else MEM_Str (take n buf)))"
  by (auto simp: sqlite3VdbeSerialGet_def word_le_nat_alt)

lemma long_reads:
  fixes b :: nat
  assumes "length x + n \<le> SQLITE_MAX_LENGTH" and "b < 2"
  defines "t \<equiv> word_of_nat (length x + n) * 2 + 12 + word_of_nat b :: 32 word"
  shows "reads_as x n t (if b = 0 then MEM_Blob (x @ replicate n 0) 0 else MEM_Str (x @ replicate n 0))"
proof -
  note l = long_type [OF assms(1,2), folded t_def]
  then show ?thesis by (auto simp: reads_as_def get_long Let_def)
qed

lemma small_header: "t < 128 \<Longrightarrow> length (putVarint32 t) = 1"
  by (simp add: putVarint32_def)

lemma size_step_reads:
  assumes "size_step ok ff m nD = Inr ((m', t), h, d, z)" and "field_ok m"
  shows "\<exists>p. sqlite3VdbeSerialPut m' t = Some p \<and> length p = d \<and> h = length (putVarint32 t) \<and> (z > 0 \<longrightarrow> nD = 0) \<and>
    reads_as p z t (stored m)"
proof (cases m)
  case (MEM_Null b)
  then show ?thesis using assms
    by (auto simp: size_step_def sqlite3VdbeSerialPut_def word_le_nat_alt word_less_nat_alt small_header reads_as_def
        sqlite3VdbeSerialGet_def stored_def split: if_splits)
next
  case (MEM_Int i)
  then obtain n where n: "int_type ff False i = (t, n)" "m' = m" "h = 1" "d = n" "z = 0"
    using assms(1) by (auto simp: size_step_def split: prod.splits)
  have "t \<noteq> 7" using int_type_7 n(1) by blast
  with int_reads [OF n(1)] n MEM_Int show ?thesis by (auto simp: small_header stored_def)
next
  case (MEM_IntReal i)
  then obtain n where n: "int_type ff True i = (t, n)" "m' = (if t = 7 then MEM_Real (double_of_i64 i) else m)" "h = 1" "d = n" "z = 0"
    using assms(1) by (auto simp: size_step_def split: prod.splits)
  show ?thesis
  proof (cases "t = 7")
    case True
    with n have "\<not> magnitude i < 2 ^ 47" "n = 8" using int_type_7 by blast+
    with True n MEM_IntReal real_reads [of "double_of_i64 i"] show ?thesis
      by (auto simp: small_header stored_def double_not_nan)
  next
    case False
    then have "magnitude i < 2 ^ 47" using n(1) by (auto simp: int_type_cases Let_def split: if_splits)
    with False n MEM_IntReal int_reads [OF n(1) False] show ?thesis by (auto simp: small_header stored_def)
  qed
next
  case (MEM_Real r)
  with assms(1) real_reads [of r] show ?thesis by (auto simp: size_step_def small_header)
next
  case (MEM_Str x)
  with assms(2) have l: "length x + 0 \<le> SQLITE_MAX_LENGTH" by (simp add: field_ok_def)
  from assms(1) MEM_Str have e: "m' = m" "t = word_of_nat (length x + 0) * 2 + 12 + word_of_nat 1" "h = sqlite3VarintLen (ucast t)" "d = length x" "z = 0"
    by (auto simp: size_step_def Let_def)
  from long_reads [OF l, of 1] long_type(2) [OF l, of 1] e MEM_Str show ?thesis
    by (auto simp: sqlite3VdbeSerialPut_def length_putVarint32 stored_def word_le_nat_alt)
next
  case (MEM_Blob x n)
  with assms(2) have l: "length x + n \<le> SQLITE_MAX_LENGTH" by (simp add: field_ok_def)
  have t: "t = word_of_nat (length x + n) * 2 + 12 + word_of_nat 0" and h: "h = sqlite3VarintLen (ucast t)"
    using assms(1) MEM_Blob by (auto simp: size_step_def Let_def algebra_simps split: if_splits)
  have g: "t \<ge> 12" using long_type(2) [OF l, of 0] t by simp
  show ?thesis
  proof (cases "nD \<noteq> 0")
    case True
    then have e: "m' = MEM_Blob (x @ replicate n 0) 0" "d = length x + n" "z = 0"
      using assms(1) MEM_Blob by (auto simp: size_step_def Let_def split: if_splits)
    have "length (x @ replicate n 0) + 0 \<le> SQLITE_MAX_LENGTH" using l by simp
    from long_reads [OF this, of 0] have "reads_as (x @ replicate n 0) 0 t (stored m)" using t MEM_Blob by (simp add: stored_def)
    with e g h show ?thesis by (auto simp: sqlite3VdbeSerialPut_def length_putVarint32 word_le_nat_alt)
  next
    case False
    then have e: "m' = m" "d = length x" "z = n"
      using assms(1) MEM_Blob by (auto simp: size_step_def Let_def split: if_splits)
    from long_reads [OF l, of 0] have "reads_as x n t (stored m)" using t MEM_Blob by (simp add: stored_def)
    with e g h False MEM_Blob show ?thesis by (auto simp: sqlite3VdbeSerialPut_def length_putVarint32 word_le_nat_alt)
  qed
qed

section \<open>Records\<close>

text \<open>Writing the header and the data side by side fills both areas.\<close>

lemma overwrite_at: "length x \<le> length X \<Longrightarrow> overwrite (A @ X @ Z) (length A) x = A @ x @ drop (length x) X @ Z"
  by (simp add: overwrite_def)

lemma write_loop_fills:
  assumes "list_all2 (\<lambda>(m, t) p. sqlite3VdbeSerialPut m t = Some p) fields ps"
    and "length X = length (concat (map (\<lambda>f. putVarint32 (snd f)) fields))" and "length Y = length (concat ps)"
  shows "write_loop (A @ X @ B @ Y) (length A) (length A + length X + length B) fields =
    Some (A @ concat (map (\<lambda>f. putVarint32 (snd f)) fields) @ B @ concat ps)"
  using assms
proof (induction fields arbitrary: ps A X B Y)
  case (Cons f fs)
  obtain m t where f: "f = (m, t)" by fastforce
  with Cons.prems obtain p ps' where p: "ps = p # ps'" "sqlite3VdbeSerialPut m t = Some p"
    "list_all2 (\<lambda>(m, t) p. sqlite3VdbeSerialPut m t = Some p) fs ps'" by (auto simp: list_all2_Cons1)
  let ?h = "putVarint32 t"
  let ?X = "drop (length ?h) X" and ?Y = "drop (length p) Y"
  have l: "length ?h \<le> length X" "length p \<le> length Y" using Cons.prems p f by simp_all
  have "overwrite (A @ X @ B @ Y) (length A) ?h = (A @ ?h @ ?X @ B) @ Y @ []"
    using overwrite_at [OF l(1), of A "B @ Y"] by simp
  moreover have "length A + length X + length B = length (A @ ?h @ ?X @ B)" using l by simp
  ultimately have w: "overwrite (overwrite (A @ X @ B @ Y) (length A) ?h) (length A + length X + length B) p =
    (A @ ?h) @ ?X @ (B @ p) @ ?Y"
    using overwrite_at [OF l(2), of "A @ ?h @ ?X @ B" "[]"] by (simp only: append_assoc append_Nil2)
  have pos: "length A + length ?h = length (A @ ?h)"
    "length A + length X + length B + length p = length (A @ ?h) + length ?X + length (B @ p)" using l by simp_all
  have "write_loop (A @ X @ B @ Y) (length A) (length A + length X + length B) (f # fs) =
    write_loop ((A @ ?h) @ ?X @ (B @ p) @ ?Y) (length (A @ ?h)) (length (A @ ?h) + length ?X + length (B @ p)) fs"
    unfolding f using p(2) w pos by (simp only: write_loop.simps Let_def bind.bind_lunit prod.case)
  also have "\<dots> = Some ((A @ ?h) @ concat (map (\<lambda>f. putVarint32 (snd f)) fs) @ (B @ p) @ concat ps')"
    using Cons.prems p f by (intro Cons.IH [OF p(3)]) simp_all
  finally show ?case using f p(1) by simp
qed simp

section \<open>Types\<close>

text \<open>The table at the head of the section of the code: which values a serial type has.\<close>

definition type_ok :: "32 word \<Rightarrow> mem \<Rightarrow> bool" where
  "type_ok t m \<longleftrightarrow> (case m of
     MEM_Null _ \<Rightarrow> t \<in> {0, 7, 10, 11}
   | MEM_Int _ \<Rightarrow> 1 \<le> t \<and> t \<le> 9 \<and> t \<noteq> 7
   | MEM_IntReal _ \<Rightarrow> False
   | MEM_Real r \<Rightarrow> t = 7 \<and> \<not> IsNaN r
   | MEM_Str z \<Rightarrow> 13 \<le> t \<and> t AND 1 \<noteq> 0 \<and> length z = (unat t - 13) div 2
   | MEM_Blob z n \<Rightarrow> 12 \<le> t \<and> t AND 1 = 0 \<and> length z = (unat t - 12) div 2 \<and> n = 0)"

lemma table_long: "12 \<le> i \<Longrightarrow> i < 128 \<Longrightarrow> sqlite3SmallTypeSizes ! i = (i - 12) div 2"
proof -
  assume "12 \<le> i" "i < 128"
  then have "i \<in> set [12..<128]" by (simp only: set_upt atLeastLessThan_iff)
  moreover have "\<forall>i\<in>set [12..<128]. sqlite3SmallTypeSizes ! i = (i - 12) div 2" by code_simp
  ultimately show ?thesis by (rule bspec [rotated])
qed

lemma type_len_long: "12 \<le> t \<Longrightarrow> sqlite3VdbeSerialTypeLen t = (unat t - 12) div 2"
  using table_long [of "unat t"]
  by (cases "t \<ge> 128") (simp_all add: sqlite3VdbeSerialTypeLen_def word_le_nat_alt unat_div_distrib unat_sub)

lemma odd_word: "t AND 1 \<noteq> 0 \<longleftrightarrow> odd (unat (t :: 32 word))"
proof -
  have "t AND 1 \<noteq> 0 \<longleftrightarrow> bit t 0" by (simp add: bit_0 and_one_eq odd_iff_mod_2_eq_one)
  also have "\<dots> \<longleftrightarrow> bit (unat t) 0" by (simp add: bit_unsigned_iff)
  finally show ?thesis by (simp add: bit_0)
qed

lemma get_typed:
  assumes "sqlite3VdbeSerialTypeLen t \<le> length buf"
  shows "\<exists>m. sqlite3VdbeSerialGet buf t = Some (sqlite3VdbeSerialTypeLen t, m) \<and> type_ok t m"
proof (cases "12 \<le> t")
  case True
  note l = type_len_long [OF True]
  have u: "12 \<le> unat t" using True by (simp add: word_le_nat_alt)
  have n: "unat ((t - 12) div 2) = (unat t - 12) div 2" using True by (simp add: unat_div_distrib unat_sub)
  have g: "sqlite3VdbeSerialGet buf t = Some ((unat t - 12) div 2,
      if t AND 1 = 0 then MEM_Blob (take ((unat t - 12) div 2) buf) 0 else MEM_Str (take ((unat t - 12) div 2) buf))"
    by (simp add: get_long [OF True] n Let_def)
  have "t AND 1 \<noteq> 0 \<Longrightarrow> 13 \<le> t \<and> (unat t - 12) div 2 = (unat t - 13) div 2"
    using u unfolding odd_word word_le_nat_alt by simp presburger
  with g l True assms show ?thesis by (auto simp: type_ok_def)
next
  case False
  then have "unat t < 12" by (simp add: word_le_nat_alt not_le)
  then have "t < 128" by (simp add: word_less_nat_alt)
  then have l: "sqlite3VdbeSerialTypeLen t = sqlite3SmallTypeSizes ! unat t" by (simp add: sqlite3VdbeSerialTypeLen_def not_le [symmetric])
  have "t = word_of_nat (unat t)" by simp
  with \<open>unat t < 12\<close> have "t \<in> word_of_nat ` {..<12}" by blast
  then have "t \<in> set (map word_of_nat [0..<12])" by (simp add: lessThan_atLeast0)
  then show ?thesis using assms unfolding l
    by (auto simp: upt_rec [of _ 12] sqlite3VdbeSerialGet_def serialGet_def Let_def reads_def sizes type_ok_def sqlite3SmallTypeSizes_def
        word_le_nat_alt split: if_splits)
qed


text \<open>The type chosen for a register is one of its own, and its length is what is written and left out.\<close>

lemma step_typed:
  assumes "size_step ok ff m nD = Inr ((m', t), h, d, z)" and "field_ok m"
  shows "sqlite3VdbeSerialTypeLen t = d + z \<and> type_ok t (stored m)"
proof -
  from size_step_reads [OF assms] obtain p where p: "length p = d" "reads_as p z t (stored m)" by blast
  let ?R = "replicate (sqlite3VdbeSerialTypeLen t) 0"
  have "sqlite3VdbeSerialGet (p @ replicate z 0 @ ?R) t = Some (d + z, stored m)" using p by (simp add: reads_as_def)
  moreover have "\<exists>m. sqlite3VdbeSerialGet (p @ replicate z 0 @ ?R) t = Some (sqlite3VdbeSerialTypeLen t, m) \<and> type_ok t m"
    by (rule get_typed) simp
  ultimately show ?thesis by simp
qed

section \<open>Fields in a record\<close>

fun is_null :: "mem \<Rightarrow> bool" where
  "is_null (MEM_Null _) = True"
| "is_null _ = False"

text \<open>A register that is null in the record only if it is a plain null.\<close>

definition plain_field :: "mem \<Rightarrow> bool" where
  "plain_field m \<longleftrightarrow> (case m of MEM_Null b \<Rightarrow> \<not> b | MEM_Real r \<Rightarrow> \<not> IsNaN r | _ \<Rightarrow> True)"

text \<open>
  The values \<open>ms\<close> are in a record: their types are at \<open>H\<close> and take \<open>h\<close> bytes, their data is at \<open>D\<close> and takes \<open>d\<close> bytes.
\<close>

fun fields_at :: "bool \<Rightarrow> byte list \<Rightarrow> byte list \<Rightarrow> nat \<Rightarrow> nat \<Rightarrow> mem list \<Rightarrow> bool" where
  "fields_at plain H D h d [] \<longleftrightarrow> h = 0 \<and> d = 0"
| "fields_at plain H D h d (m # ms) \<longleftrightarrow>
     (\<exists>t R h' d'. H = putVarint32 t @ R \<and> h = length (putVarint32 t) + h' \<and> d = sqlite3VdbeSerialTypeLen t + d' \<and>
        sqlite3VdbeSerialGet D t = Some (sqlite3VdbeSerialTypeLen t, m) \<and> sqlite3VdbeSerialTypeLen t \<le> length D \<and>
        type_ok t m \<and> (plain \<longrightarrow> is_null m \<longrightarrow> t = 0) \<and> fields_at plain R (drop (sqlite3VdbeSerialTypeLen t) D) h' d' ms)"

declare fields_at.simps(2) [simp del]

lemma step_plain: "size_step ok ff m nD = Inr ((m', t), h, d, z) \<Longrightarrow> plain_field m \<Longrightarrow> is_null (stored m) \<Longrightarrow> t = 0"
  by (cases m) (auto simp: size_step_def stored_def plain_field_def split: if_splits)

text \<open>What the first loop finds out describes what the second one writes, and the record has the fields.\<close>

lemma size_loop_fields:
  assumes "size_loop ok ff ms = Inr (fields, h, d, z)" and "\<forall>m\<in>set ms. field_ok m" and "plain \<longrightarrow> (\<forall>m\<in>set ms. plain_field m)"
  shows "\<exists>ps. list_all2 (\<lambda>(m, t) p. sqlite3VdbeSerialPut m t = Some p) fields ps \<and>
    length (concat (map (\<lambda>f. putVarint32 (snd f)) fields)) = h \<and> length (concat ps) = d \<and>
    (\<forall>R C. fields_at plain (concat (map (\<lambda>f. putVarint32 (snd f)) fields) @ R) (concat ps @ replicate z 0 @ C) h (d + z) (map stored ms))"
  using assms
proof (induction ms arbitrary: fields h d z)
  case (Cons m ms)
  then obtain fs h1 d1 z1 m' t h2 d2 z2 where
    l: "size_loop ok ff ms = Inr (fs, h1, d1, z1)" and s: "size_step ok ff m d1 = Inr ((m', t), h2, d2, z2)" and
    e: "fields = (m', t) # fs" "h = h1 + h2" "d = d1 + d2" "z = z1 + z2"
    by (auto split: sum.splits prod.splits)
  have ok: "\<forall>m\<in>set ms. field_ok m" "plain \<longrightarrow> (\<forall>m\<in>set ms. plain_field m)" "field_ok m" using Cons.prems by simp_all
  let ?H = "\<lambda>fs. concat (map (\<lambda>f :: mem \<times> 32 word. putVarint32 (snd f)) fs)"
  obtain ps where ps: "list_all2 (\<lambda>(m, t) p. sqlite3VdbeSerialPut m t = Some p) fs ps" "length (?H fs) = h1" "length (concat ps) = d1" and
    F: "\<And>R C. fields_at plain (?H fs @ R) (concat ps @ replicate z1 0 @ C) h1 (d1 + z1) (map stored ms)"
    using Cons.IH [OF l ok(1,2)] by blast
  from size_step_reads [OF s ok(3)] obtain p where
    p: "sqlite3VdbeSerialPut m' t = Some p" "length p = d2" "h2 = length (putVarint32 t)" "z2 > 0 \<longrightarrow> d1 = 0" "reads_as p z2 t (stored m)"
    by blast
  note typed = step_typed [OF s ok(3)]
  have "fields_at plain (?H fields @ R) (concat (p # ps) @ replicate z 0 @ C) h (d + z) (map stored (m # ms))" for R C
  proof -
    have "z2 > 0 \<longrightarrow> concat ps = []" using p(4) ps(3) by (metis length_0_conv)
    then have D: "concat (p # ps) @ replicate z 0 @ C = p @ replicate z2 0 @ (concat ps @ replicate z1 0 @ C)"
      using e(4) by (cases "z2 = 0") (auto simp: replicate_add [symmetric] add.commute simp del: concat_eq_Nil_conv)
    have g: "sqlite3VdbeSerialGet (p @ replicate z2 0 @ (concat ps @ replicate z1 0 @ C)) t = Some (sqlite3VdbeSerialTypeLen t, stored m)"
      using p(2,5) typed by (simp add: reads_as_def)
    have n: "sqlite3VdbeSerialTypeLen t = d2 + z2" using typed by simp
    then have dr: "drop (sqlite3VdbeSerialTypeLen t) (p @ replicate z2 0 @ (concat ps @ replicate z1 0 @ C)) = concat ps @ replicate z1 0 @ C"
      using p(2) by simp
    have "plain \<longrightarrow> is_null (stored m) \<longrightarrow> t = 0" using step_plain [OF s] Cons.prems(3) by auto
    then show ?thesis unfolding D list.map fields_at.simps(2)
      using g typed n dr F [of R C] e p(2,3)
      by (intro exI [of _ t] exI [of _ "?H fs @ R"] exI [of _ h1] exI [of _ "d1 + z1"]) simp
  qed
  moreover have "list_all2 (\<lambda>(m, t) p. sqlite3VdbeSerialPut m t = Some p) fields (p # ps)" "length (?H fields) = h" "length (concat (p # ps)) = d"
    using ps p e by simp_all
  ultimately show ?case by blast
qed simp

lemma putVarint32_pos: "0 < length (putVarint32 t)"
  using sqlite3VarintLen.simps [of "ucast t"] by (simp add: length_putVarint32 split: if_splits)

lemma unpack_fields:
  "fields_at plain (drop idx aKey) (drop dd aKey) h d ms \<Longrightarrow> length ms \<le> left \<Longrightarrow> dd + d \<le> nKey \<Longrightarrow>
   unpack_loop aKey nKey (idx + h) idx dd left = Some (ms, dd + d)"
proof (induction ms arbitrary: idx dd h d left)
  case Nil
  then show ?case by (cases left) simp_all
next
  case (Cons m ms)
  then obtain left' where left: "left = Suc left'" by (cases left) auto
  from Cons.prems(1) obtain t R h' d' where
    t: "drop idx aKey = putVarint32 t @ R" "h = length (putVarint32 t) + h'" "d = sqlite3VdbeSerialTypeLen t + d'"
      "sqlite3VdbeSerialGet (drop dd aKey) t = Some (sqlite3VdbeSerialTypeLen t, m)"
      "fields_at plain R (drop (sqlite3VdbeSerialTypeLen t) (drop dd aKey)) h' d' ms"
    by (auto simp: fields_at.simps(2))
  let ?i = "idx + length (putVarint32 t)" and ?d = "dd + sqlite3VdbeSerialTypeLen t"
  have "drop ?i aKey = R" using arg_cong [OF t(1), of "drop (length (putVarint32 t))"] by (simp add: add.commute)
  then have "unpack_loop aKey nKey (?i + h') ?i ?d left' = Some (ms, ?d + d')"
    using Cons.prems left t(3,5) by (intro Cons.IH) (simp_all add: add.commute)
  with left t Cons.prems(3) getVarint32_put [of t R] putVarint32_pos [of t] show ?case by (simp add: add.assoc)
qed

section \<open>How long a record is\<close>

definition content :: "mem \<Rightarrow> nat" where
  "content m = (case m of MEM_Str z \<Rightarrow> length z | MEM_Blob z n \<Rightarrow> length z + n | _ \<Rightarrow> 8)"

lemma varint32_short: "length (putVarint32 t) \<le> 5"
proof -
  have "drop_bit 7 (drop_bit 7 (drop_bit 7 (drop_bit 7 (drop_bit 7 (ucast t :: 64 word))))) = 0"
    by (rule word64_bits) (auto simp: bit_simps dest: bit_imp_le_length)
  then show ?thesis unfolding length_putVarint32
    by (subst sqlite3VarintLen.simps, subst sqlite3VarintLen.simps, subst sqlite3VarintLen.simps, subst sqlite3VarintLen.simps,
        subst sqlite3VarintLen.simps) simp
qed

lemma size_step_content:
  assumes "size_step ok ff m nD = Inr (f, h, d, z)"
  shows "d + z \<le> content m"
  using assms
  by (cases m) (auto simp: size_step_def content_def Let_def int_type_def split: prod.splits if_splits)

lemma size_loop_content:
  assumes "size_loop ok ff ms = Inr (fields, h, d, z)" and "\<forall>m\<in>set ms. field_ok m"
  shows "h \<le> 5 * length ms \<and> d + z \<le> sum_list (map content ms)"
  using assms
proof (induction ms arbitrary: fields h d z)
  case (Cons m ms)
  then obtain fs h1 d1 z1 m' t h2 d2 z2 where
    l: "size_loop ok ff ms = Inr (fs, h1, d1, z1)" and s: "size_step ok ff m d1 = Inr ((m', t), h2, d2, z2)" and
    e: "fields = (m', t) # fs" "h = h1 + h2" "d = d1 + d2" "z = z1 + z2"
    by (auto split: sum.splits prod.splits)
  have "h2 \<le> 5" using size_step_reads [OF s] Cons.prems(2) varint32_short by auto
  with Cons.IH [OF l] size_step_content [OF s] Cons.prems(2) e show ?case by simp
qed simp

lemma size_loop_total: "(\<forall>n. ok n) \<Longrightarrow> \<exists>r. size_loop ok ff ms = Inr r"
proof (induction ms)
  case (Cons m ms)
  then obtain fs h d z where "size_loop ok ff ms = Inr (fs, h, d, z)" by (metis prod_cases4)
  moreover have "\<exists>f h' d' z'. size_step ok ff m d = Inr (f, h', d', z')"
    using Cons.prems by (cases m) (auto simp: size_step_def Let_def split: prod.splits)
  ultimately show ?case by auto
qed simp

lemma size_loop_error: "size_loop ok ff ms = Inl e \<Longrightarrow> e = no_mem \<and> (\<exists>n. \<not> ok n)"
proof (induction ms)
  case (Cons m ms)
  show ?case
  proof (cases "size_loop ok ff ms")
    case (Inl e')
    with Cons show ?thesis by simp
  next
    case (Inr r)
    obtain fs h d z where r: "r = (fs, h, d, z)" by (metis prod_cases4)
    with Inr Cons.prems have "size_step ok ff m d = Inl e" by (auto split: sum.splits prod.splits)
    then show ?thesis by (cases m) (auto simp: size_step_def Let_def split: prod.splits if_splits)
  qed
qed simp

text \<open>The opcode as a whole.\<close>

lemma record_layout:
  assumes "size_loop ok ff ms = Inr (fields, h, d, z)" and "\<forall>m\<in>set ms. field_ok m" and "plain \<longrightarrow> (\<forall>m\<in>set ms. plain_field m)"
    and "length ms \<le> 32767" and "length g = header_size h + d"
  defines "v \<equiv> putVarint32 (word_of_nat (header_size h))"
  shows "\<exists>p. write_loop (overwrite g 0 v) (length v) (header_size h) fields = Some p \<and> length p = header_size h + d \<and>
    p = v @ drop (length v) p \<and>
    (\<forall>C. getVarint32 (p @ replicate z 0 @ C) = Some (length v, word_of_nat (header_size h)) \<and> header_size h = length v + h \<and>
      unat (word_of_nat (header_size h) :: 32 word) = header_size h \<and>
      fields_at plain (drop (length v) (p @ replicate z 0 @ C)) (drop (header_size h) (p @ replicate z 0 @ C)) h (d + z) (map stored ms))"
proof -
  obtain ps where
    ps: "list_all2 (\<lambda>(m, t) p. sqlite3VdbeSerialPut m t = Some p) fields ps"
      "length (concat (map (\<lambda>f. putVarint32 (snd f)) fields)) = h" "length (concat ps) = d" and
    F: "\<And>R C. fields_at plain (concat (map (\<lambda>f. putVarint32 (snd f)) fields) @ R) (concat ps @ replicate z 0 @ C) h (d + z) (map stored ms)"
    using size_loop_fields [OF assms(1-3)] by blast
  let ?H = "concat (map (\<lambda>f. putVarint32 (snd f)) fields)" and ?P = "concat ps" and ?n = "header_size h"
  have h: "h < 2 ^ 20" using size_loop_content [OF assms(1,2)] assms(4) by simp
  have n: "?n < 2 ^ 32" using header_size_fits(2) [OF h] h by simp
  have "ucast (word_of_nat ?n :: 32 word) = (word_of_nat ?n :: 64 word)"
    using n by (simp add: word_unat_eq_iff unat_up unat_nat)
  then have v: "?n = length v + h" using header_size_fits(1) [OF h] by (simp add: v_def length_putVarint32 varint_len_def)
  define V X Y where "V = take (length v) g" and "X = take h (drop (length v) g)" and "Y = drop h (drop (length v) g)"
  then have g: "g = V @ X @ Y" by (simp only: append_take_drop_id)
  have len: "length V = length v" "length X = h" "length Y = d" using assms(5) v by (simp_all add: V_def X_def Y_def)
  then have "overwrite g 0 v = v @ X @ [] @ Y" unfolding g by (simp add: overwrite_def)
  then have w: "write_loop (overwrite g 0 v) (length v) ?n fields = Some (v @ ?H @ ?P)"
    using write_loop_fills [OF ps(1), of X Y v "[]"] len ps(2,3) v by simp
  have "getVarint32 ((v @ ?H @ ?P) @ replicate z 0 @ C) = Some (length v, word_of_nat ?n)" for C
    using getVarint32_put [of "word_of_nat ?n" "?H @ ?P @ replicate z 0 @ C"] by (simp add: v_def)
  moreover have "drop (length v) ((v @ ?H @ ?P) @ replicate z 0 @ C) = ?H @ (?P @ replicate z 0 @ C)"
    "drop ?n ((v @ ?H @ ?P) @ replicate z 0 @ C) = ?P @ replicate z 0 @ C" for C using v ps(2) by simp_all
  moreover have "unat (word_of_nat ?n :: 32 word) = ?n" using n by (rule unat_nat)
  moreover have "length (v @ ?H @ ?P) = ?n + d" using ps(2,3) v by simp
  moreover have "v @ ?H @ ?P = v @ drop (length v) (v @ ?H @ ?P)" by simp
  ultimately show ?thesis using w F v by (intro exI [of _ "v @ ?H @ ?P"]) (simp only: simp_thms)
qed

text \<open>The opcode as a whole: the record it makes, with its parts.\<close>

lemma made_record:
  assumes "OP_MakeRecord ok limit ff szMalloc garbage ms = Some (Inr (rec, nZero))"
    and "\<forall>m\<in>set ms. field_ok m" and "plain \<longrightarrow> (\<forall>m\<in>set ms. plain_field m)" and "length ms \<le> 32767" and "\<forall>n. length (garbage n) = n"
  shows "\<exists>n h d. n \<le> 3 \<and> h \<le> 5 * length ms \<and> length rec + nZero = n + h + d \<and>
    n = length (putVarint32 (word_of_nat (n + h))) \<and> rec = putVarint32 (word_of_nat (n + h)) @ drop n rec \<and>
    (\<forall>C. getVarint32 (rec @ replicate nZero 0 @ C) = Some (n, word_of_nat (n + h)) \<and> unat (word_of_nat (n + h) :: 32 word) = n + h \<and>
      fields_at plain (drop n (rec @ replicate nZero 0 @ C)) (drop (n + h) (rec @ replicate nZero 0 @ C)) h d (map stored ms))"
proof -
  obtain fields h d where s: "size_loop ok ff ms = Inr (fields, h, d, nZero)" and
    w: "write_loop (overwrite (garbage (header_size h + d)) 0 (putVarint32 (word_of_nat (header_size h))))
      (length (putVarint32 (word_of_nat (header_size h)))) (header_size h) fields = Some rec"
    using assms(1) by (auto simp: OP_MakeRecord_def Let_def split: sum.splits prod.splits if_splits)
  let ?v = "putVarint32 (word_of_nat (header_size h))"
  have g: "length (garbage (header_size h + d)) = header_size h + d" using assms(5) by simp
  have p: "length rec = header_size h + d"
    "\<forall>C. getVarint32 (rec @ replicate nZero 0 @ C) = Some (length ?v, word_of_nat (header_size h)) \<and> header_size h = length ?v + h \<and>
      unat (word_of_nat (header_size h) :: 32 word) = header_size h \<and>
      fields_at plain (drop (length ?v) (rec @ replicate nZero 0 @ C)) (drop (header_size h) (rec @ replicate nZero 0 @ C)) h (d + nZero) (map stored ms)"
    "rec = ?v @ drop (length ?v) rec"
    using record_layout [OF s assms(2,3,4) g] w by auto
  then have e: "header_size h = length ?v + h" by blast
  note c = size_loop_content [OF s assms(2)]
  then have "header_size h \<le> h + 3" using assms(4) by (intro header_size_fits) simp
  with e have "length ?v \<le> 3" by simp
  with p c e show ?thesis
    by (intro exI [of _ "length ?v"] exI [of _ h] exI [of _ "d + nZero"]) simp
qed

section \<open>Properties\<close>

text \<open>
  C10: records read back. Whatever values are put into a record, the opcode ends with a record, with the error that it is
  too long or with the one that memory is short; when memory is not short and the values fit
  the limit, with a record. The reader, over the record with its trailing zeros and whatever lies behind it, gives
  back each value: an integer marked as a real as an integer, or as the nearest real when it takes
  eight bytes, a number that is not one as null, a blob with its zeros.
\<close>

theorem record_round_trip:
  assumes "\<forall>m\<in>set ms. field_ok m" and "length ms \<le> 32767" and "\<forall>n. length (garbage n) = n"
  shows "(case OP_MakeRecord mem_ok limit file_format szMalloc garbage ms of
      None \<Rightarrow> False
    | Some (Inl e) \<Rightarrow> (\<exists>n. \<not> mem_ok n) \<or> limit < 3 + sum_list (map (\<lambda>m. 5 + content m) ms)
    | Some (Inr (rec, nZero)) \<Rightarrow>
        \<forall>C nField. length ms \<le> nField \<longrightarrow>
          sqlite3VdbeRecordUnpack (rec @ replicate nZero 0 @ C) (length rec + nZero) nField = Some (map stored ms))"
proof (cases "size_loop mem_ok file_format ms")
  case (Inl e)
  with size_loop_error [OF Inl] show ?thesis by (simp add: OP_MakeRecord_def)
next
  case (Inr r)
  then obtain fields h d z where s: "size_loop mem_ok file_format ms = Inr (fields, h, d, z)" by (metis prod_cases4)
  let ?n = "header_size h"
  note c = size_loop_content [OF s assms(1)]
  then have "?n \<le> h + 3" using assms(2) by (intro header_size_fits) simp
  moreover have "sum_list (map (\<lambda>m. 5 + content m) ms) = 5 * length ms + sum_list (map content ms)"
    by (simp add: sum_list_addf sum_list_triv)
  ultimately have l: "?n + d + z \<le> 3 + sum_list (map (\<lambda>m. 5 + content m) ms)" using c by linarith
  have g: "length (garbage (?n + d)) = ?n + d" using assms(3) by simp
  have "False \<longrightarrow> (\<forall>m\<in>set ms. plain_field m)" by simp
  from record_layout [OF s assms(1) this assms(2) g] obtain p where
    p: "write_loop (overwrite (garbage (?n + d)) 0 (putVarint32 (word_of_nat ?n))) (length (putVarint32 (word_of_nat ?n))) ?n fields = Some p"
    "length p = ?n + d" and
    F: "\<And>C. getVarint32 (p @ replicate z 0 @ C) = Some (length (putVarint32 (word_of_nat ?n)), word_of_nat ?n)"
    "?n = length (putVarint32 (word_of_nat ?n)) + h" "unat (word_of_nat ?n :: 32 word) = ?n"
    "\<And>C. fields_at False (drop (length (putVarint32 (word_of_nat ?n))) (p @ replicate z 0 @ C)) (drop ?n (p @ replicate z 0 @ C)) h (d + z) (map stored ms)"
    by blast
  have "sqlite3VdbeRecordUnpack (p @ replicate z 0 @ C) (length p + z) nField = Some (map stored ms)" if "length ms \<le> nField" for C nField
    using F(1) [of C] F(3) p(2) that unpack_fields [OF F(4) [of C], of "max 1 nField" "length p + z"] F(2)
    by (simp add: sqlite3VdbeRecordUnpack_def)
  with s p l show ?thesis by (auto simp: OP_MakeRecord_def Let_def)
qed

theorem record_round_trip_witness:
  "\<exists>rec nZero. OP_MakeRecord (\<lambda>n. True) 1000 4 0 (\<lambda>n. replicate n 7) [MEM_Int 1, MEM_Str [65], MEM_IntReal (- 300), MEM_Blob [] 2] = Some (Inr (rec, nZero)) \<and>
    sqlite3VdbeRecordUnpack (rec @ replicate nZero 0 @ [9]) (length rec + nZero) 4 =
      Some [MEM_Int 1, MEM_Str [65], MEM_Int (- 300), MEM_Blob [0, 0] 0]"
proof -
  let ?ms = "[MEM_Int 1, MEM_Str [65], MEM_IntReal (- 300), MEM_Blob [] 2]"
  have "\<forall>m\<in>set ?ms. field_ok m" by (simp add: field_ok_def SQLITE_MAX_LENGTH_def)
  then have t: "case OP_MakeRecord (\<lambda>n. True) 1000 4 0 (\<lambda>n. replicate n 7) ?ms of
      None \<Rightarrow> False
    | Some (Inl e) \<Rightarrow> (\<exists>n :: nat. \<not> True) \<or> 1000 < 3 + sum_list (map (\<lambda>m. 5 + content m) ?ms)
    | Some (Inr (rec, nZero)) \<Rightarrow>
        \<forall>C nField. length ?ms \<le> nField \<longrightarrow>
          sqlite3VdbeRecordUnpack (rec @ replicate nZero 0 @ C) (length rec + nZero) nField = Some (map stored ?ms)"
    using record_round_trip [of ?ms "\<lambda>n. replicate n 7" "\<lambda>n. True" 1000 4 0] by simp
  have m: "map stored ?ms = [MEM_Int 1, MEM_Str [65], MEM_Int (- 300), MEM_Blob [0, 0] 0]"
    by (simp add: stored_def magnitude_def) (simp add: numeral_2_eq_2)
  have "\<not> 1000 < 3 + sum_list (map (\<lambda>m. 5 + content m) ?ms)" by (simp add: content_def)
  with t obtain rec nZero where
    r: "OP_MakeRecord (\<lambda>n. True) 1000 4 0 (\<lambda>n. replicate n 7) ?ms = Some (Inr (rec, nZero))" and
    u: "\<And>C nField. length ?ms \<le> nField \<Longrightarrow>
      sqlite3VdbeRecordUnpack (rec @ replicate nZero 0 @ C) (length rec + nZero) nField = Some (map stored ?ms)"
    by (auto split: option.splits sum.splits simp del: length_map list.map(2))
  from u [of 4 "[9]"] have "sqlite3VdbeRecordUnpack (rec @ replicate nZero 0 @ [9]) (length rec + nZero) 4 = Some (map stored ?ms)" by simp
  with r m show ?thesis by metis
qed

text \<open>
  C13: the serial types. Every serial type, also one that is never written, reads from a buffer that is long enough as a value of
  the class and length the table of the format gives it, taking exactly as many bytes as
  \<^verbatim>\<open>sqlite3VdbeSerialTypeLen\<close> says. The type the opcode chooses is one of the class of what is stored, and its length is that of the bytes
  written and the zeros left out.
\<close>

theorem serial_types_sound:
  "(sqlite3VdbeSerialTypeLen t \<le> length buf \<longrightarrow>
      (\<exists>m. sqlite3VdbeSerialGet buf t = Some (sqlite3VdbeSerialTypeLen t, m) \<and> type_ok t m)) \<and>
   (size_step ok ff m nD = Inr ((m', t), h, d, z) \<and> field_ok m \<longrightarrow>
      sqlite3VdbeSerialTypeLen t = d + z \<and> type_ok t (stored m) \<and> (t < 128 \<longrightarrow> sqlite3VdbeOneByteSerialTypeLen (ucast t) = d + z))"
proof -
  have "unat (ucast t :: byte) = unat t" if "t < 128" using that by (simp add: unsigned_ucast_eq take_bit_nat_eq_self word_less_nat_alt)
  then have "t < 128 \<Longrightarrow> sqlite3VdbeOneByteSerialTypeLen (ucast t) = sqlite3VdbeSerialTypeLen t"
    by (simp add: sqlite3VdbeOneByteSerialTypeLen_def sqlite3VdbeSerialTypeLen_def not_le [symmetric])
  with step_typed [of ok ff m nD m' t h d z] get_typed [of t buf] show ?thesis by auto
qed

theorem serial_types_sound_witness:
  "(\<exists>m. sqlite3VdbeSerialGet [255, 56] 2 = Some (sqlite3VdbeSerialTypeLen 2, m) \<and> type_ok 2 m) \<and>
   type_ok 2 (stored (MEM_Int (- 200)))"
proof -
  have "sqlite3VdbeSerialTypeLen 2 \<le> length [255, 56 :: byte]" by (simp add: sqlite3VdbeSerialTypeLen_def sizes)
  moreover have "size_step (\<lambda>n. True) 4 (MEM_Int (- 200)) 0 = Inr ((MEM_Int (- 200), 2), 1, 2, 0)" by code_simp
  moreover have "field_ok (MEM_Int (- 200))" by (simp add: field_ok_def)
  ultimately show ?thesis
    using serial_types_sound [of 2 "[255, 56]" "\<lambda>n. True" 4 "MEM_Int (- 200)" 0 "MEM_Int (- 200)" 1 2 0] by blast
qed

end
