(* ===== verification/Ys_Compare.thy ===== *)
theory Ys_Compare
  imports Ys_Record Ys_Utf Ys_Io
begin

text \<open>
  The order of keys (\<^verbatim>\<open>vdbeaux.c\<close> and \<^verbatim>\<open>main.c\<close> in \<^verbatim>\<open>sqlite3.c\<close>): comparing two values, the built-in collations, comparing a
  record with a key that is unpacked, and the two routines that are faster when the first field is an integer or a
  text. Memory for texts that are translated is always there.
\<close>

section \<open>Numbers\<close>

text \<open>
  The value of a double that is a number, in units of \<open>2 ^ - 1074\<close>; infinity is larger than every finite value. The processor
  compares by value, and a comparison with no number is false.
\<close>

definition double_value :: "64 word \<Rightarrow> int" where
  "double_value r =
     (let m = int (unat (r AND MAN754)); e = unat (drop_bit 52 (r AND EXP754));
          v = (if e = 0 then m else (2 ^ 52 + m) * 2 ^ (e - 1))
      in if bit r 63 then - v else v)"

definition double_less :: "64 word \<Rightarrow> 64 word \<Rightarrow> bool" where
  "double_less a b \<longleftrightarrow> \<not> IsNaN a \<and> \<not> IsNaN b \<and> double_value a < double_value b"

text \<open>
  The branch for a \<^verbatim>\<open>long double\<close> of more than 8 bytes (x86 and most others), which has every 64 bit integer, so that the comparison
  is exact. The branch for platforms where it is a \<^verbatim>\<open>double\<close> is not modelled.
\<close>

definition sqlite3IntFloatCompare :: "64 word \<Rightarrow> 64 word \<Rightarrow> int" where
  "sqlite3IntFloatCompare i r =
     (let x = sint i * 2 ^ 1074 in
      if \<not> IsNaN r \<and> x < double_value r then - 1 else if \<not> IsNaN r \<and> x > double_value r then 1 else 0)"

section \<open>Bytes and text\<close>

fun memcmp_loop :: "byte list \<Rightarrow> byte list \<Rightarrow> int" where
  "memcmp_loop (a # x) (b # y) = (if a = b then memcmp_loop x y else uint a - uint b)"
| "memcmp_loop _ _ = 0"

definition memcmp :: "byte list \<Rightarrow> byte list \<Rightarrow> nat \<Rightarrow> int" where
  "memcmp x y n = memcmp_loop (take n x) (take n y)"

definition isAllZero :: "byte list \<Rightarrow> nat \<Rightarrow> bool" where
  "isAllZero z n \<longleftrightarrow> list_all (\<lambda>b. b = 0) (take n z)"

record CollSeq =
  cs_enc :: utf_encoding
  cs_xCmp :: "byte list \<Rightarrow> byte list \<Rightarrow> int"

definition binCollFunc :: "byte list \<Rightarrow> byte list \<Rightarrow> int" where
  "binCollFunc pKey1 pKey2 =
     (let rc = memcmp pKey1 pKey2 (min (length pKey1) (length pKey2))
      in if rc = 0 then int (length pKey1) - int (length pKey2) else rc)"

definition rtrim :: "byte list \<Rightarrow> byte list" where
  "rtrim pK = rev (dropWhile (\<lambda>b. b = char_byte CHR '' '') (rev pK))"

definition rtrimCollFunc :: "byte list \<Rightarrow> byte list \<Rightarrow> int" where
  "rtrimCollFunc pKey1 pKey2 = binCollFunc (rtrim pKey1) (rtrim pKey2)"

definition nocaseCollatingFunc :: "byte list \<Rightarrow> byte list \<Rightarrow> int" where
  "nocaseCollatingFunc pKey1 pKey2 =
     (let r = sqlite3_strnicmp (Some (map byte_char pKey1)) (Some (map byte_char pKey2)) (int (min (length pKey1) (length pKey2)))
      in if 0 = r then int (length pKey1) - int (length pKey2) else r)"

definition vdbeCompareMemString :: "utf_encoding \<Rightarrow> CollSeq \<Rightarrow> byte list \<Rightarrow> byte list \<Rightarrow> int" where
  "vdbeCompareMemString enc pColl z1 z2 =
     (if enc = cs_enc pColl then cs_xCmp pColl z1 z2
      else cs_xCmp pColl (fst (sqlite3VdbeMemTranslate enc (cs_enc pColl) z1)) (fst (sqlite3VdbeMemTranslate enc (cs_enc pColl) z2)))"

text \<open>The bytes of a text or blob and its zeros.\<close>

fun mem_z :: "mem \<Rightarrow> byte list" where
  "mem_z (MEM_Str z) = z"
| "mem_z (MEM_Blob z n) = z"
| "mem_z _ = []"

fun mem_nZero :: "mem \<Rightarrow> nat" where
  "mem_nZero (MEM_Blob z n) = n"
| "mem_nZero _ = 0"

definition sqlite3BlobCompare :: "mem \<Rightarrow> mem \<Rightarrow> int" where
  "sqlite3BlobCompare pB1 pB2 =
     (let n1 = length (mem_z pB1); n2 = length (mem_z pB2) in
      if mem_nZero pB1 \<noteq> 0 \<or> mem_nZero pB2 \<noteq> 0 then
        (if mem_nZero pB1 \<noteq> 0 \<and> mem_nZero pB2 \<noteq> 0 then int (mem_nZero pB1) - int (mem_nZero pB2)
         else if mem_nZero pB1 \<noteq> 0 then
           if \<not> isAllZero (mem_z pB2) n2 then - 1 else int (mem_nZero pB1) - int n2
         else
           if \<not> isAllZero (mem_z pB1) n1 then 1 else int n1 - int (mem_nZero pB2))
      else
        let c = memcmp (mem_z pB1) (mem_z pB2) (if n1 > n2 then n2 else n1)
        in if c \<noteq> 0 then c else int n1 - int n2)"

section \<open>Values\<close>

fun mem_int :: "mem \<Rightarrow> 64 word option" where
  "mem_int (MEM_Int i) = Some i"
| "mem_int (MEM_IntReal i) = Some i"
| "mem_int _ = None"

fun mem_real :: "mem \<Rightarrow> 64 word option" where
  "mem_real (MEM_Real r) = Some r"
| "mem_real _ = None"

definition int_compare :: "64 word \<Rightarrow> 64 word \<Rightarrow> int" where
  "int_compare i j = (if sint i < sint j then - 1 else if sint i > sint j then 1 else 0)"

definition real_compare :: "64 word \<Rightarrow> 64 word \<Rightarrow> int" where
  "real_compare a b = (if double_less a b then - 1 else if double_less b a then 1 else 0)"

definition number_compare :: "mem \<Rightarrow> mem \<Rightarrow> int" where
  "number_compare pMem1 pMem2 =
     (case mem_int pMem1 of
        Some i \<Rightarrow>
          (case mem_int pMem2 of
             Some j \<Rightarrow> int_compare i j
           | None \<Rightarrow> (case mem_real pMem2 of Some r \<Rightarrow> sqlite3IntFloatCompare i r | None \<Rightarrow> - 1))
      | None \<Rightarrow>
          (case mem_real pMem1 of
             Some r \<Rightarrow>
               (case mem_int pMem2 of
                  Some j \<Rightarrow> - sqlite3IntFloatCompare j r
                | None \<Rightarrow> (case mem_real pMem2 of Some s \<Rightarrow> real_compare r s | None \<Rightarrow> - 1))
           | None \<Rightarrow> 1))"

definition is_number :: "mem \<Rightarrow> bool" where
  "is_number m \<longleftrightarrow> mem_int m \<noteq> None \<or> mem_real m \<noteq> None"

fun is_str :: "mem \<Rightarrow> bool" where
  "is_str (MEM_Str z) = True"
| "is_str _ = False"

definition sqlite3MemCompare :: "utf_encoding \<Rightarrow> mem \<Rightarrow> mem \<Rightarrow> CollSeq option \<Rightarrow> int" where
  "sqlite3MemCompare enc pMem1 pMem2 pColl =
     (if is_null pMem1 \<or> is_null pMem2 then of_bool (is_null pMem2) - of_bool (is_null pMem1)
      else if is_number pMem1 \<or> is_number pMem2 then number_compare pMem1 pMem2
      else if is_str pMem1 \<or> is_str pMem2 then
        (if \<not> is_str pMem1 then 1
         else if \<not> is_str pMem2 then - 1
         else
           (case pColl of
              Some coll \<Rightarrow> vdbeCompareMemString enc coll (mem_z pMem1) (mem_z pMem2)
            | None \<Rightarrow> sqlite3BlobCompare pMem1 pMem2))
      else sqlite3BlobCompare pMem1 pMem2)"

section \<open>A record and a key\<close>

definition KEYINFO_ORDER_DESC :: nat where "KEYINFO_ORDER_DESC = 1"
definition KEYINFO_ORDER_BIGNULL :: nat where "KEYINFO_ORDER_BIGNULL = 2"

record KeyInfo =
  ki_enc :: utf_encoding
  ki_nAllField :: nat
  ki_aSortFlags :: "nat list"
  ki_aColl :: "CollSeq option list"

record UnpackedRecord =
  ur_pKeyInfo :: KeyInfo
  ur_aMem :: "mem list"
  ur_default_rc :: int
  ur_errCode :: int
  ur_r1 :: int
  ur_r2 :: int
  ur_eqSeen :: bool

definition get8 :: "byte list \<Rightarrow> 64 word option" where
  "get8 aKey = reads aKey 8 (Some (push_bit 32 (ucast (FOUR_BYTE_UINT aKey)) OR ucast (FOUR_BYTE_UINT (drop 4 aKey))))"

definition vdbeRecordDecodeInt :: "32 word \<Rightarrow> byte list \<Rightarrow> 64 word option" where
  "vdbeRecordDecodeInt serial_type aKey =
     (if serial_type = 0 \<or> serial_type = 1 then reads aKey 1 (Some (scast (ONE_BYTE_INT aKey)))
      else if serial_type = 2 then reads aKey 2 (Some (scast (TWO_BYTE_INT aKey)))
      else if serial_type = 3 then reads aKey 3 (Some (scast (THREE_BYTE_INT aKey)))
      else if serial_type = 4 then reads aKey 4 (Some (scast (FOUR_BYTE_UINT aKey)))
      else if serial_type = 5 then
        reads aKey 6 (Some (ucast (FOUR_BYTE_UINT (drop 2 aKey)) + push_bit 32 1 * scast (TWO_BYTE_INT aKey)))
      else if serial_type = 6 then get8 aKey
      else Some (ucast (serial_type - 8)))"

text \<open>The type of a field, one byte of it, or the whole variable length integer.\<close>

definition type_byte :: "byte list \<Rightarrow> 32 word option" where
  "type_byte p = reads p 1 (Some (u32 (p ! 0)))"

definition type_varint :: "byte list \<Rightarrow> 32 word option" where
  "type_varint p = map_option snd (getVarint32 p)"

text \<open>
  One field against one value of the key: the result and the type of the field. \<open>Inl\<close> is a record that is corrupt.
  \<open>hdr\<close> is the header from the type of the field on, \<open>data\<close> the record from its data on, and \<open>d1\<close> where that is.
\<close>

definition compare_int :: "byte list \<Rightarrow> byte list \<Rightarrow> 64 word \<Rightarrow> (int \<times> 32 word) option" where
  "compare_int hdr data rhs = do {
     serial_type \<leftarrow> type_byte hdr;
     rc \<leftarrow> (if serial_type \<ge> 10 then Some 1
           else if serial_type = 0 then Some (- 1)
           else if serial_type = 7 then map_option (\<lambda>r. - sqlite3IntFloatCompare rhs r) (get8 data)
           else map_option (\<lambda>lhs. int_compare lhs rhs) (vdbeRecordDecodeInt serial_type data));
     Some (rc, serial_type)
   }"

definition compare_real :: "byte list \<Rightarrow> byte list \<Rightarrow> 64 word \<Rightarrow> (int \<times> 32 word) option" where
  "compare_real hdr data rhs = do {
     serial_type \<leftarrow> type_byte hdr;
     rc \<leftarrow> (if serial_type \<ge> 10 then Some 1
           else if serial_type = 0 then Some (- 1)
           else if serial_type = 7 then map_option (\<lambda>r. real_compare r rhs) (get8 data)
           else (case sqlite3VdbeSerialGet data serial_type of
                   Some (_, MEM_Int i) \<Rightarrow> Some (sqlite3IntFloatCompare i rhs)
                 | _ \<Rightarrow> None));
     Some (rc, serial_type)
   }"

definition compare_str :: "KeyInfo \<Rightarrow> nat \<Rightarrow> nat \<Rightarrow> nat \<Rightarrow> byte list \<Rightarrow> byte list \<Rightarrow> byte list \<Rightarrow> (unit + int \<times> 32 word) option" where
  "compare_str pKeyInfo nKey1 d1 i hdr data z = do {
     serial_type \<leftarrow> type_varint hdr;
     (if serial_type < 12 then Some (Inr (- 1, serial_type))
      else if serial_type AND 1 = 0 then Some (Inr (1, serial_type))
      else
        let n = unat ((serial_type - 12) div 2) in
        if d1 + n > nKey1 \<or> ki_nAllField pKeyInfo \<le> i then Some (Inl ())
        else reads data n (
          case ki_aColl pKeyInfo ! i of
            Some coll \<Rightarrow> Some (Inr (vdbeCompareMemString (ki_enc pKeyInfo) coll (take n data) z, serial_type))
          | None \<Rightarrow>
              let rc = memcmp data z (min n (length z))
              in Some (Inr (if rc = 0 then int n - int (length z) else rc, serial_type))))
   }"

definition compare_blob :: "nat \<Rightarrow> nat \<Rightarrow> byte list \<Rightarrow> byte list \<Rightarrow> byte list \<Rightarrow> nat \<Rightarrow> (unit + int \<times> 32 word) option" where
  "compare_blob nKey1 d1 hdr data z nZero = do {
     serial_type \<leftarrow> type_varint hdr;
     (if serial_type < 12 \<or> serial_type AND 1 \<noteq> 0 then Some (Inr (- 1, serial_type))
      else
        let nStr = unat ((serial_type - 12) div 2) in
        if d1 + nStr > nKey1 then Some (Inl ())
        else reads data nStr (
          if nZero \<noteq> 0 then
            Some (Inr (if \<not> isAllZero data nStr then 1 else int nStr - int nZero, serial_type))
          else
            let rc = memcmp data z (min nStr (length z))
            in Some (Inr (if rc = 0 then int nStr - int (length z) else rc, serial_type))))
   }"

definition compare_field :: "KeyInfo \<Rightarrow> nat \<Rightarrow> nat \<Rightarrow> nat \<Rightarrow> byte list \<Rightarrow> byte list \<Rightarrow> mem \<Rightarrow> (unit + int \<times> 32 word) option" where
  "compare_field pKeyInfo nKey1 d1 i hdr data pRhs =
     (case pRhs of
        MEM_Int rhs \<Rightarrow> map_option Inr (compare_int hdr data rhs)
      | MEM_IntReal rhs \<Rightarrow> map_option Inr (compare_int hdr data rhs)
      | MEM_Real rhs \<Rightarrow> map_option Inr (compare_real hdr data rhs)
      | MEM_Str z \<Rightarrow> compare_str pKeyInfo nKey1 d1 i hdr data z
      | MEM_Blob z n \<Rightarrow> compare_blob nKey1 d1 hdr data z n
      | MEM_Null _ \<Rightarrow> map_option (\<lambda>t. Inr (if t \<noteq> 0 then 1 else 0, t)) (type_byte hdr))"

definition sort_result :: "nat \<Rightarrow> bool \<Rightarrow> int \<Rightarrow> int" where
  "sort_result sortFlags null rc =
     (if sortFlags \<noteq> 0 \<and> (sortFlags AND KEYINFO_ORDER_BIGNULL = 0 \<or> (sortFlags AND KEYINFO_ORDER_DESC \<noteq> 0) \<noteq> null)
      then - rc else rc)"

text \<open>The loop over the fields, from field \<open>i\<close> on; \<open>None\<close> as the comparison is a record that is corrupt, \<open>Some None\<close> that no difference was found.\<close>

fun compare_loop :: "KeyInfo \<Rightarrow> byte list \<Rightarrow> nat \<Rightarrow> nat \<Rightarrow> nat \<Rightarrow> nat \<Rightarrow> nat \<Rightarrow> mem list \<Rightarrow> int option option option" where
  "compare_loop pKeyInfo aKey1 nKey1 szHdr1 idx1 d1 i [] = None"
| "compare_loop pKeyInfo aKey1 nKey1 szHdr1 idx1 d1 i (pRhs # pRest) = do {
     r \<leftarrow> compare_field pKeyInfo nKey1 d1 i (drop idx1 aKey1) (drop d1 aKey1) pRhs;
     (case r of
        Inl _ \<Rightarrow> Some None
      | Inr (rc, serial_type) \<Rightarrow>
          if rc \<noteq> 0 then Some (Some (Some (sort_result (ki_aSortFlags pKeyInfo ! i) (serial_type = 0 \<or> is_null pRhs) rc)))
          else if pRest = [] then Some (Some None)
          else
            let d1 = d1 + sqlite3VdbeSerialTypeLen serial_type; idx1 = idx1 + sqlite3VarintLen (ucast serial_type) in
            if idx1 < szHdr1 \<and> d1 \<le> nKey1 then compare_loop pKeyInfo aKey1 nKey1 szHdr1 idx1 d1 (i + 1) pRest
            else Some (Some None))
   }"

definition sqlite3VdbeRecordCompareWithSkip :: "nat \<Rightarrow> byte list \<Rightarrow> UnpackedRecord \<Rightarrow> bool \<Rightarrow> (int \<times> UnpackedRecord) option" where
  "sqlite3VdbeRecordCompareWithSkip nKey1 aKey1 pPKey2 bSkip = do {
     (szHdr1, idx1, d1, i) \<leftarrow>
       (if bSkip then do {
          (n, s1) \<leftarrow> getVarint32 (drop 1 aKey1);
          let szHdr1 = unat (aKey1 ! 0) in Some (szHdr1, 1 + n, szHdr1 + sqlite3VdbeSerialTypeLen s1, 1)
        } else do {
          (n, szHdr1) \<leftarrow> getVarint32 aKey1;
          Some (unat szHdr1, n, unat szHdr1, 0)
        });
     (if d1 > nKey1 then Some (0, pPKey2\<lparr>ur_errCode := SQLITE_CORRUPT\<rparr>)
      else do {
        r \<leftarrow> compare_loop (ur_pKeyInfo pPKey2) aKey1 nKey1 szHdr1 idx1 d1 i (drop i (ur_aMem pPKey2));
        Some (case r of
            None \<Rightarrow> (0, pPKey2\<lparr>ur_errCode := SQLITE_CORRUPT\<rparr>)
          | Some (Some rc) \<Rightarrow> (rc, pPKey2)
          | Some None \<Rightarrow> (ur_default_rc pPKey2, pPKey2\<lparr>ur_eqSeen := True\<rparr>))
      })
   }"

definition sqlite3VdbeRecordCompare :: "nat \<Rightarrow> byte list \<Rightarrow> UnpackedRecord \<Rightarrow> (int \<times> UnpackedRecord) option" where
  "sqlite3VdbeRecordCompare nKey1 aKey1 pPKey2 = sqlite3VdbeRecordCompareWithSkip nKey1 aKey1 pPKey2 False"

section \<open>The faster routines\<close>

text \<open>The first field is equal; the others are compared.\<close>

definition compare_rest :: "nat \<Rightarrow> byte list \<Rightarrow> UnpackedRecord \<Rightarrow> (int \<times> UnpackedRecord) option" where
  "compare_rest nKey1 aKey1 pPKey2 =
     (if length (ur_aMem pPKey2) > 1 then sqlite3VdbeRecordCompareWithSkip nKey1 aKey1 pPKey2 True
      else Some (ur_default_rc pPKey2, pPKey2\<lparr>ur_eqSeen := True\<rparr>))"

text \<open>The first field as an integer: no result outside the memory, \<open>Some None\<close> for the types the routine leaves to the other one.\<close>

definition first_int :: "32 word \<Rightarrow> byte list \<Rightarrow> 64 word option option" where
  "first_int serial_type aKey =
     (if serial_type = 1 then reads aKey 1 (Some (Some (scast (ONE_BYTE_INT aKey))))
      else if serial_type = 2 then reads aKey 2 (Some (Some (scast (TWO_BYTE_INT aKey))))
      else if serial_type = 3 then reads aKey 3 (Some (Some (scast (THREE_BYTE_INT aKey))))
      else if serial_type = 4 then reads aKey 4 (Some (Some (scast (FOUR_BYTE_UINT aKey))))
      else if serial_type = 5 then
        reads aKey 6 (Some (Some (ucast (FOUR_BYTE_UINT (drop 2 aKey)) + push_bit 32 1 * scast (TWO_BYTE_INT aKey))))
      else if serial_type = 6 then map_option Some (get8 aKey)
      else if serial_type = 8 then Some (Some 0)
      else if serial_type = 9 then Some (Some 1)
      else Some None)"

definition vdbeRecordCompareInt :: "nat \<Rightarrow> byte list \<Rightarrow> UnpackedRecord \<Rightarrow> (int \<times> UnpackedRecord) option" where
  "vdbeRecordCompareInt nKey1 aKey1 pPKey2 = reads aKey1 2 (do {
     lhs \<leftarrow> first_int (u32 (aKey1 ! 1)) (drop (unat (aKey1 ! 0 AND 0x3F)) aKey1);
     (case lhs of
        None \<Rightarrow> sqlite3VdbeRecordCompare nKey1 aKey1 pPKey2
      | Some lhs \<Rightarrow> do {
          v \<leftarrow> mem_int (ur_aMem pPKey2 ! 0);
          (if sint v > sint lhs then Some (ur_r1 pPKey2, pPKey2)
           else if sint v < sint lhs then Some (ur_r2 pPKey2, pPKey2)
           else compare_rest nKey1 aKey1 pPKey2)
        })
   })"

definition vdbeRecordCompareString :: "nat \<Rightarrow> byte list \<Rightarrow> UnpackedRecord \<Rightarrow> (int \<times> UnpackedRecord) option" where
  "vdbeRecordCompareString nKey1 aKey1 pPKey2 = do {
     serial_type \<leftarrow> type_varint (drop 1 aKey1);
     (if sint serial_type < 12 then Some (ur_r1 pPKey2, pPKey2)
      else if serial_type AND 1 = 0 then Some (ur_r2 pPKey2, pPKey2)
      else
        let szHdr = unat (aKey1 ! 0); nStr = unat ((serial_type - 12) div 2); z = mem_z (ur_aMem pPKey2 ! 0) in
        if szHdr + nStr > nKey1 then Some (0, pPKey2\<lparr>ur_errCode := SQLITE_CORRUPT\<rparr>)
        else reads aKey1 (szHdr + nStr) (
          let res = memcmp (drop szHdr aKey1) z (min (length z) nStr) in
          if res > 0 then Some (ur_r2 pPKey2, pPKey2)
          else if res < 0 then Some (ur_r1 pPKey2, pPKey2)
          else
            let res = int nStr - int (length z) in
            if res = 0 then compare_rest nKey1 aKey1 pPKey2
            else if res > 0 then Some (ur_r2 pPKey2, pPKey2)
            else Some (ur_r1 pPKey2, pPKey2)))
   }"

datatype record_compare = RecordCompare | RecordCompareInt | RecordCompareString

definition sqlite3VdbeFindCompare :: "UnpackedRecord \<Rightarrow> record_compare \<times> UnpackedRecord" where
  "sqlite3VdbeFindCompare p =
     (let flags = ki_aSortFlags (ur_pKeyInfo p) ! 0 in
      if ki_nAllField (ur_pKeyInfo p) \<le> 13 then
        if flags \<noteq> 0 \<and> flags AND KEYINFO_ORDER_BIGNULL \<noteq> 0 then (RecordCompare, p)
        else
          let p = (if flags \<noteq> 0 then p\<lparr>ur_r1 := 1, ur_r2 := - 1\<rparr> else p\<lparr>ur_r1 := - 1, ur_r2 := 1\<rparr>) in
          (case ur_aMem p ! 0 of
             MEM_Int _ \<Rightarrow> (RecordCompareInt, p)
           | MEM_Str _ \<Rightarrow> (if ki_aColl (ur_pKeyInfo p) ! 0 = None then RecordCompareString else RecordCompare, p)
           | _ \<Rightarrow> (RecordCompare, p))
      else (RecordCompare, p))"

definition run_compare :: "record_compare \<Rightarrow> nat \<Rightarrow> byte list \<Rightarrow> UnpackedRecord \<Rightarrow> (int \<times> UnpackedRecord) option" where
  "run_compare c = (case c of
     RecordCompare \<Rightarrow> sqlite3VdbeRecordCompare
   | RecordCompareInt \<Rightarrow> vdbeRecordCompareInt
   | RecordCompareString \<Rightarrow> vdbeRecordCompareString)"

section \<open>One field\<close>

lemma four_bytes_same: "4 \<le> length x \<Longrightarrow> FOUR_BYTE_INT x = FOUR_BYTE_UINT x"
proof -
  assume "4 \<le> length x"
  then obtain a b c d bs where x: "x = a # b # c # d # bs" by (auto simp: Suc_le_length_iff numeral_eq_Suc)
  show ?thesis unfolding x by (rule word32_bits, case_tac "n = 31") (auto simp: four_bytes_bit four_bytes_uint_bit)
qed

lemma eight_bytes_same: "push_bit 32 (ucast (a :: 32 word)) + ucast (b :: 32 word) = push_bit 32 (ucast a) OR (ucast b :: 64 word)"
  using add_high [of b "ucast a"] by (simp add: add.commute or.commute)

lemma decode_get:
  assumes "sqlite3VdbeSerialGet D t = Some (n, MEM_Int i)" and "type_ok t (MEM_Int i)"
  shows "vdbeRecordDecodeInt t D = Some i"
  using assms
  by (auto simp: sqlite3VdbeSerialGet_def vdbeRecordDecodeInt_def type_ok_def reads_def serialGet_def get8_def Let_def four_bytes_same
      eight_bytes_same split: if_splits)

lemma get8_get: "sqlite3VdbeSerialGet D t = Some (n, MEM_Real r) \<Longrightarrow> get8 D = Some r"
  by (auto simp: sqlite3VdbeSerialGet_def reads_def serialGet_def get8_def Let_def eight_bytes_same split: if_splits)

lemma text_get:
  assumes "sqlite3VdbeSerialGet D t = Some (n, m)" and "type_ok t m" and "is_str m \<or> (\<exists>z k. m = MEM_Blob z k)"
  shows "12 \<le> t" and "n = unat ((t - 12) div 2)" and "mem_z m = take n D" and "t AND 1 \<noteq> 0 \<longleftrightarrow> is_str m"
proof -
  show t: "12 \<le> t" using assms(2,3) by (cases m) (auto simp: type_ok_def word_le_nat_alt)
  from assms(1) show "n = unat ((t - 12) div 2)" "mem_z m = take n D" "t AND 1 \<noteq> 0 \<longleftrightarrow> is_str m"
    by (auto simp: get_long [OF t] Let_def split: if_splits)
qed

text \<open>The first byte of a type is the type, or is at least 128.\<close>

lemma type_bytes:
  assumes "hdr = putVarint32 t @ R"
  shows "type_varint hdr = Some t" and "\<exists>b. type_byte hdr = Some b \<and> (b < 128 \<longleftrightarrow> t < 128) \<and> (t < 128 \<longrightarrow> b = t)"
proof -
  note g = getVarint32_put [of t R, folded assms]
  then show "type_varint hdr = Some t" by (simp add: type_varint_def)
  have "hdr \<noteq> []" using putVarint32_pos [of t] assms by auto
  then obtain b bs where hdr: "hdr = b # bs" by (cases hdr) auto
  have u: "u32 b < 128 \<longleftrightarrow> b < 0x80"
    using unat_up unfolding u32_def word_less_nat_alt by (simp add: unsigned_ucast_eq take_bit_nat_eq_self order_less_le_trans [OF unsigned_less])
  have "b < 0x80 \<Longrightarrow> t = u32 b" using g by (simp add: hdr getVarint32_def reads_def)
  moreover have "t < 128 \<Longrightarrow> b < 0x80 \<and> t = u32 b"
  proof -
    assume t: "t < 128"
    then have b: "b = ucast t" using assms hdr by (simp add: putVarint32_def)
    have l: "unat t < 128" using t by (simp add: word_less_nat_alt)
    then have "unat b = unat t" unfolding b by (simp add: unsigned_ucast_eq take_bit_nat_eq_self)
    moreover from this have "unat (u32 b) = unat t" unfolding u32_def using l by (simp add: unsigned_ucast_eq take_bit_nat_eq_self)
    ultimately show ?thesis using l by (simp add: word_less_nat_alt word_unat_eq_iff)
  qed
  moreover have "type_byte hdr = Some (u32 b)" by (simp add: type_byte_def hdr reads_def)
  ultimately show "\<exists>b. type_byte hdr = Some b \<and> (b < 128 \<longleftrightarrow> t < 128) \<and> (t < 128 \<longrightarrow> b = t)"
    using u by metis
qed

text \<open>A field is compared as its value is.\<close>

definition rhs_ok :: "mem \<Rightarrow> bool" where
  "rhs_ok m \<longleftrightarrow> (case m of MEM_Blob z n \<Rightarrow> n \<noteq> 0 \<longrightarrow> z = [] | _ \<Rightarrow> True)"

lemma type_large: "12 \<le> t \<Longrightarrow> b < 128 \<longleftrightarrow> t < 128 \<Longrightarrow> (t < 128 \<longrightarrow> b = t) \<Longrightarrow> 10 \<le> (b :: 32 word)"
  by (cases "t < 128") (auto simp: word_le_nat_alt word_less_nat_alt)

lemma class_types:
  "type_ok t (MEM_Int i) \<Longrightarrow> t \<noteq> 0 \<and> t \<noteq> 7 \<and> t < 10" "type_ok t (MEM_Real r) \<Longrightarrow> t = 7"
  by (auto simp: type_ok_def word_le_nat_alt word_less_nat_alt)

lemma small_128: "(t :: 32 word) < 10 \<Longrightarrow> t < 128"
  by (simp add: word_less_nat_alt)

lemma compare_number_value:
  assumes b: "type_byte hdr = Some b" "b < 128 \<longleftrightarrow> t < 128" "t < 128 \<longrightarrow> b = t"
    and G: "sqlite3VdbeSerialGet D t = Some (n, m)" and T: "type_ok t m" and N: "is_null m \<Longrightarrow> t = 0"
  shows "compare_int hdr D x = Some (sqlite3MemCompare enc m (MEM_Int x) coll, b)"
    and "compare_int hdr D x = Some (sqlite3MemCompare enc m (MEM_IntReal x) coll, b)"
    and "compare_real hdr D x = Some (sqlite3MemCompare enc m (MEM_Real x) coll, b)"
    and "b = 0 \<longleftrightarrow> is_null m" and "sqlite3MemCompare enc m (MEM_Int x) coll = 0 \<Longrightarrow> b = t"
    and "sqlite3MemCompare enc m (MEM_IntReal x) coll = 0 \<Longrightarrow> b = t" and "sqlite3MemCompare enc m (MEM_Real x) coll = 0 \<Longrightarrow> b = t"
proof -
  have all: "compare_int hdr D x = Some (sqlite3MemCompare enc m (MEM_Int x) coll, b) \<and>
    compare_int hdr D x = Some (sqlite3MemCompare enc m (MEM_IntReal x) coll, b) \<and>
    compare_real hdr D x = Some (sqlite3MemCompare enc m (MEM_Real x) coll, b) \<and> (b = 0 \<longleftrightarrow> is_null m) \<and>
    (sqlite3MemCompare enc m (MEM_Int x) coll = 0 \<longrightarrow> b = t) \<and> (sqlite3MemCompare enc m (MEM_IntReal x) coll = 0 \<longrightarrow> b = t) \<and>
    (sqlite3MemCompare enc m (MEM_Real x) coll = 0 \<longrightarrow> b = t)"
  proof (cases m)
    case (MEM_Null c)
    with N b have "b = 0" "t = 0" by simp_all
    with MEM_Null b show ?thesis by (simp add: compare_int_def compare_real_def sqlite3MemCompare_def)
  next
    case (MEM_Int i)
    note c = class_types(1) [OF T [unfolded MEM_Int]]
    then have "b = t" "\<not> 10 \<le> t" using b(3) small_128 by auto
    with MEM_Int b(1) c decode_get [OF G [unfolded MEM_Int] T [unfolded MEM_Int]] G show ?thesis
      by (simp add: compare_int_def compare_real_def sqlite3MemCompare_def is_number_def number_compare_def)
  next
    case (MEM_IntReal i)
    with T show ?thesis by (simp add: type_ok_def)
  next
    case (MEM_Real r)
    note c = class_types(2) [OF T [unfolded MEM_Real]]
    then have "b = 7" using b(3) by simp
    with MEM_Real b(1) c get8_get [OF G [unfolded MEM_Real]] show ?thesis
      by (simp add: compare_int_def compare_real_def sqlite3MemCompare_def is_number_def number_compare_def word_le_nat_alt)
  next
    case (MEM_Str z)
    then have "12 \<le> t" using text_get(1) [OF G T] by simp
    then have "10 \<le> b" by (rule type_large [OF _ b(2,3)])
    with MEM_Str b(1) show ?thesis
      by (auto simp: compare_int_def compare_real_def sqlite3MemCompare_def is_number_def number_compare_def)
  next
    case (MEM_Blob z k)
    then have "12 \<le> t" using text_get(1) [OF G T] by simp
    then have "10 \<le> b" by (rule type_large [OF _ b(2,3)])
    with MEM_Blob b(1) show ?thesis
      by (auto simp: compare_int_def compare_real_def sqlite3MemCompare_def is_number_def number_compare_def)
  qed
  from all show "compare_int hdr D x = Some (sqlite3MemCompare enc m (MEM_Int x) coll, b)"
    "compare_int hdr D x = Some (sqlite3MemCompare enc m (MEM_IntReal x) coll, b)"
    "compare_real hdr D x = Some (sqlite3MemCompare enc m (MEM_Real x) coll, b)" "b = 0 \<longleftrightarrow> is_null m"
    "sqlite3MemCompare enc m (MEM_Int x) coll = 0 \<Longrightarrow> b = t" "sqlite3MemCompare enc m (MEM_IntReal x) coll = 0 \<Longrightarrow> b = t"
    "sqlite3MemCompare enc m (MEM_Real x) coll = 0 \<Longrightarrow> b = t" by blast+
qed

text \<open>Nulls and numbers come before texts, and those before blobs.\<close>

lemma small_class: "type_ok t m \<Longrightarrow> (is_null m \<Longrightarrow> t = 0) \<Longrightarrow> is_null m \<or> is_number m \<Longrightarrow> t < 12"
  by (cases m) (auto simp: type_ok_def is_number_def word_le_nat_alt word_less_nat_alt)

lemma compare_text_value:
  assumes V: "type_varint hdr = Some t" and G: "sqlite3VdbeSerialGet D t = Some (n, m)" and L: "n \<le> length D"
    and T: "type_ok t m" and N: "is_null m \<Longrightarrow> t = 0" and K: "d1 + n \<le> nKey1" and A: "i < ki_nAllField ki"
  shows "compare_str ki nKey1 d1 i hdr D x = Some (Inr (sqlite3MemCompare (ki_enc ki) m (MEM_Str x) (ki_aColl ki ! i), t))"
    and "(k \<noteq> 0 \<longrightarrow> x = []) \<Longrightarrow> compare_blob nKey1 d1 hdr D x k = Some (Inr (sqlite3MemCompare enc m (MEM_Blob x k) coll, t))"
proof -
  consider "is_null m \<or> is_number m" | z where "m = MEM_Str z" | z l where "m = MEM_Blob z l"
    by (cases m) (auto simp: is_number_def)
  then have "compare_str ki nKey1 d1 i hdr D x = Some (Inr (sqlite3MemCompare (ki_enc ki) m (MEM_Str x) (ki_aColl ki ! i), t)) \<and>
    ((k \<noteq> 0 \<longrightarrow> x = []) \<longrightarrow> compare_blob nKey1 d1 hdr D x k = Some (Inr (sqlite3MemCompare enc m (MEM_Blob x k) coll, t)))"
  proof cases
    case 1
    from small_class [OF T N 1] have t: "t < 12" .
    have "sqlite3MemCompare e m (MEM_Str x) c = - 1" "sqlite3MemCompare e m (MEM_Blob x k) c = - 1" for e c
      using 1 by (cases m; simp add: sqlite3MemCompare_def number_compare_def is_number_def)+
    with t V show ?thesis by (simp add: compare_str_def compare_blob_def)
  next
    case 2
    note g = text_get [OF G T]
    from 2 g have t: "12 \<le> t" "n = unat ((t - 12) div 2)" "z = take n D" "t AND 1 \<noteq> 0" by auto
    then have nt: "\<not> t < 12" by simp
    have "length z = n" using t(3) L by simp
    with t V K A L 2 nt show ?thesis
      by (auto simp: compare_str_def compare_blob_def Let_def reads_def sqlite3MemCompare_def is_number_def sqlite3BlobCompare_def memcmp_def
          min_def split: option.split)
  next
    case 3
    note g = text_get [OF G T]
    from 3 g have t: "12 \<le> t" "n = unat ((t - 12) div 2)" "z = take n D" "t AND 1 = 0" by auto
    then have nt: "\<not> t < 12" by simp
    have "l = 0" using T 3 by (simp add: type_ok_def)
    have "length z = n" using t(3) L by simp
    with t V K A L 3 nt \<open>l = 0\<close> show ?thesis
      by (auto simp: compare_str_def compare_blob_def Let_def reads_def sqlite3MemCompare_def is_number_def sqlite3BlobCompare_def memcmp_def
          isAllZero_def min_def)
  qed
  then show "compare_str ki nKey1 d1 i hdr D x = Some (Inr (sqlite3MemCompare (ki_enc ki) m (MEM_Str x) (ki_aColl ki ! i), t))"
    "(k \<noteq> 0 \<longrightarrow> x = []) \<Longrightarrow> compare_blob nKey1 d1 hdr D x k = Some (Inr (sqlite3MemCompare enc m (MEM_Blob x k) coll, t))" by blast+
qed

lemma compare_field_value:
  assumes H: "hdr = putVarint32 t @ R" and G: "sqlite3VdbeSerialGet D t = Some (sqlite3VdbeSerialTypeLen t, m)"
    and L: "sqlite3VdbeSerialTypeLen t \<le> length D" and T: "type_ok t m" and N: "is_null m \<Longrightarrow> t = 0"
    and K: "d1 + sqlite3VdbeSerialTypeLen t \<le> nKey1" and A: "i < ki_nAllField ki" and R: "rhs_ok rhs"
  shows "\<exists>t'. compare_field ki nKey1 d1 i hdr D rhs = Some (Inr (sqlite3MemCompare (ki_enc ki) m rhs (ki_aColl ki ! i), t')) \<and>
    (t' = 0 \<longleftrightarrow> is_null m) \<and> (sqlite3MemCompare (ki_enc ki) m rhs (ki_aColl ki ! i) = 0 \<longrightarrow> t' = t)"
proof -
  obtain b where b: "type_byte hdr = Some b" "b < 128 \<longleftrightarrow> t < 128" "t < 128 \<longrightarrow> b = t" using type_bytes(2) [OF H] by blast
  note v = type_bytes(1) [OF H]
  have z: "t = 0 \<longleftrightarrow> is_null m" using N T by (cases m) (auto simp: type_ok_def word_le_nat_alt)
  note num = compare_number_value(1-3,5-7) [OF b G T N, where enc = "ki_enc ki" and coll = "ki_aColl ki ! i"]
  note zero = compare_number_value(4) [OF b G T N]
  note texts = compare_text_value(1) [OF v G L T N K A] compare_text_value(2) [OF v G L T N K A, where enc = "ki_enc ki" and coll = "ki_aColl ki ! i"]
  show ?thesis
  proof (cases rhs)
    case (MEM_Null x)
    then show ?thesis using b z
      by (cases "t < 128") (auto simp: compare_field_def sqlite3MemCompare_def)
  next
    case (MEM_Int x)
    then show ?thesis using num(1) zero num(4) by (intro exI [of _ b]) (simp add: compare_field_def)
  next
    case (MEM_IntReal x)
    then show ?thesis using num(2) zero num(5) by (intro exI [of _ b]) (simp add: compare_field_def)
  next
    case (MEM_Real x)
    then show ?thesis using num(3) zero num(6) by (intro exI [of _ b]) (simp add: compare_field_def)
  next
    case (MEM_Str x)
    then show ?thesis using texts(1) z by (auto simp: compare_field_def)
  next
    case (MEM_Blob x k)
    then show ?thesis using texts(2) z R by (auto simp: compare_field_def rhs_ok_def)
  qed
qed

section \<open>A record against a key\<close>

text \<open>What the order of keys is: field by field, by the order of the values, with the sort order of the field.\<close>

definition field_order :: "nat \<Rightarrow> bool \<Rightarrow> int \<Rightarrow> int" where
  "field_order flags null rc =
     (let rc = (if flags AND KEYINFO_ORDER_BIGNULL \<noteq> 0 \<and> null then - rc else rc)
      in if flags AND KEYINFO_ORDER_DESC \<noteq> 0 then - rc else rc)"

fun key_compare :: "KeyInfo \<Rightarrow> nat \<Rightarrow> mem list \<Rightarrow> mem list \<Rightarrow> int option" where
  "key_compare ki i (l # ls) (r # rs) =
     (let rc = sqlite3MemCompare (ki_enc ki) l r (ki_aColl ki ! i)
      in if rc \<noteq> 0 then Some (field_order (ki_aSortFlags ki ! i) (is_null l \<or> is_null r) rc) else key_compare ki (i + 1) ls rs)"
| "key_compare ki i _ _ = None"

lemma sort_result_order: "flags < 4 \<Longrightarrow> sort_result flags null rc = field_order flags null rc"
proof -
  assume "flags < 4"
  then consider "flags = 0" | "flags = 1" | "flags = 2" | "flags = 3" by linarith
  then show ?thesis
    by cases (auto simp: sort_result_def field_order_def KEYINFO_ORDER_BIGNULL_def KEYINFO_ORDER_DESC_def)
qed

lemma fields_at_Nil: "fields_at pl H D h d ms \<Longrightarrow> 0 < h \<longleftrightarrow> ms \<noteq> []"
proof (cases ms)
  case (Cons m ms')
  assume "fields_at pl H D h d ms"
  then obtain t h' where "h = length (putVarint32 t) + h'" by (auto simp: fields_at.simps(2) Cons)
  moreover have "0 < length (putVarint32 t)" using putVarint32_pos [of t] by simp
  ultimately show ?thesis by (simp add: Cons)
qed simp

definition key_ok :: "KeyInfo \<Rightarrow> mem list \<Rightarrow> bool" where
  "key_ok ki rs \<longleftrightarrow> (\<forall>r\<in>set rs. rhs_ok r) \<and> (\<forall>f\<in>set (ki_aSortFlags ki). f < 4) \<and> length rs \<le> ki_nAllField ki \<and>
     ki_nAllField ki = length (ki_aSortFlags ki)"

lemma compare_loop_fields:
  assumes "fields_at True (drop idx aKey) (drop dd aKey) h d ms" and "ms \<noteq> []" and "rs \<noteq> []" and "dd + d \<le> nKey"
    and "\<forall>r\<in>set rs. rhs_ok r" and "\<forall>f\<in>set (ki_aSortFlags ki). f < 4" and "i + length rs \<le> ki_nAllField ki"
    and "ki_nAllField ki = length (ki_aSortFlags ki)"
  shows "compare_loop ki aKey nKey (idx + h) idx dd i rs = Some (Some (key_compare ki i ms rs))"
  using assms
proof (induction rs arbitrary: idx dd h d ms i)
  case (Cons r rs)
  then obtain m ms' where ms: "ms = m # ms'" by (cases ms) auto
  from Cons.prems(1) obtain t R h' d' where
    t: "drop idx aKey = putVarint32 t @ R" "h = length (putVarint32 t) + h'" "d = sqlite3VdbeSerialTypeLen t + d'"
      "sqlite3VdbeSerialGet (drop dd aKey) t = Some (sqlite3VdbeSerialTypeLen t, m)" "sqlite3VdbeSerialTypeLen t \<le> length (drop dd aKey)"
      "type_ok t m" "is_null m \<Longrightarrow> t = 0"
      "fields_at True R (drop (sqlite3VdbeSerialTypeLen t) (drop dd aKey)) h' d' ms'"
    by (auto simp: fields_at.simps(2) ms)
  let ?rc = "sqlite3MemCompare (ki_enc ki) m r (ki_aColl ki ! i)"
  have "dd + sqlite3VdbeSerialTypeLen t \<le> nKey" "i < ki_nAllField ki" "rhs_ok r" using Cons.prems t(3) by simp_all
  from compare_field_value [OF t(1,4,5,6,7) this] obtain t' where
    c: "compare_field ki nKey dd i (drop idx aKey) (drop dd aKey) r = Some (Inr (?rc, t'))" "t' = 0 \<longleftrightarrow> is_null m" "?rc = 0 \<longrightarrow> t' = t"
    by blast
  show ?case
  proof (cases "?rc = 0")
    case False
    have "ki_aSortFlags ki ! i < 4" using Cons.prems(6,7,8) by simp
    with False c ms sort_result_order show ?thesis by (simp add: Let_def)
  next
    case True
    then have t': "t' = t" using c(3) by simp
    show ?thesis
    proof (cases "rs = []")
      case Nil: True
      have "key_compare ki (i + 1) ms' [] = None" by (cases ms') simp_all
      with Nil True c ms show ?thesis by simp
    next
      case ne: False
      let ?i = "idx + length (putVarint32 t)" and ?d = "dd + sqlite3VdbeSerialTypeLen t"
      note len = length_putVarint32 [of t, symmetric]
      have R: "drop ?i aKey = R" using arg_cong [OF t(1), of "drop (length (putVarint32 t))"] by (simp add: add.commute)
      have dle: "?d \<le> nKey" using Cons.prems(4) t(3) by simp
      show ?thesis
      proof (cases "ms' = []")
        case Nil: True
        with t(8) have "h' = 0" by simp
        with Nil ne True c t' ms t(2) len show ?thesis by (simp add: Let_def)
      next
        case False
        with fields_at_Nil [OF t(8)] have "0 < h'" by simp
        have D: "?d + d' \<le> nKey" using Cons.prems(4) t(3) by linarith
        have "drop (sqlite3VdbeSerialTypeLen t) (drop dd aKey) = drop ?d aKey" by (simp only: drop_drop add.commute)
        with t(8) R have F: "fields_at True (drop ?i aKey) (drop ?d aKey) h' d' ms'" by simp
        have "compare_loop ki aKey nKey (?i + h') ?i ?d (i + 1) rs = Some (Some (key_compare ki (i + 1) ms' rs))"
          by (rule Cons.IH [OF F False ne D]) (use Cons.prems in simp_all)
        with False \<open>0 < h'\<close> ne True c t' ms t(2) len dle show ?thesis by (simp add: Let_def add.assoc)
      qed
    qed
  qed
qed simp

lemma fields_at_short: "fields_at pl H D h d ms \<Longrightarrow> h \<le> 5 * length ms"
proof (induction ms arbitrary: H D h d)
  case (Cons m ms)
  then obtain t R h' d' where f: "h = length (putVarint32 t) + h'"
    "fields_at pl R (drop (sqlite3VdbeSerialTypeLen t) D) h' d' ms" by (auto simp: fields_at.simps(2))
  with Cons.IH [OF f(2)] varint32_short [of t] show ?case by simp
qed simp

lemma record_compare_made:
  assumes "OP_MakeRecord mem_ok limit file_format szMalloc garbage ms = Some (Inr (rec, nZero))"
    and "\<forall>m\<in>set ms. field_ok m \<and> plain_field m" and "length ms \<le> 32767" and "\<forall>n. length (garbage n) = n" and "ms \<noteq> []"
    and "key_ok (ur_pKeyInfo p) (ur_aMem p)" and "ur_aMem p \<noteq> []"
  shows "sqlite3VdbeRecordCompare (length rec + nZero) (rec @ replicate nZero 0 @ C) p =
    Some (case key_compare (ur_pKeyInfo p) 0 (map stored ms) (ur_aMem p) of
        Some rc \<Rightarrow> (rc, p)
      | None \<Rightarrow> (ur_default_rc p, p\<lparr>ur_eqSeen := True\<rparr>))"
proof -
  have "\<forall>m\<in>set ms. field_ok m" "True \<longrightarrow> (\<forall>m\<in>set ms. plain_field m)" using assms(2) by simp_all
  from made_record [OF assms(1) this assms(3,4)] obtain n h d where
    l: "length rec + nZero = n + h + d" and
    g: "getVarint32 (rec @ replicate nZero 0 @ C) = Some (n, word_of_nat (n + h))" "unat (word_of_nat (n + h) :: 32 word) = n + h" and
    f: "fields_at True (drop n (rec @ replicate nZero 0 @ C)) (drop (n + h) (rec @ replicate nZero 0 @ C)) h d (map stored ms)"
    by metis
  have "compare_loop (ur_pKeyInfo p) (rec @ replicate nZero 0 @ C) (length rec + nZero) (n + h) n (n + h) 0 (ur_aMem p) =
    Some (Some (key_compare (ur_pKeyInfo p) 0 (map stored ms) (ur_aMem p)))"
    by (rule compare_loop_fields [OF f]) (use assms l in \<open>simp_all add: key_ok_def\<close>)
  with g l show ?thesis
    by (simp add: sqlite3VdbeRecordCompare_def sqlite3VdbeRecordCompareWithSkip_def split: option.splits)
qed

text \<open>A record with at most 13 fields has a header of one byte for its length, and one of at most 62 bytes when the first type takes one byte.\<close>

lemma short_header:
  assumes "OP_MakeRecord mem_ok limit file_format szMalloc garbage ms = Some (Inr (rec, nZero))"
    and "\<forall>m\<in>set ms. field_ok m \<and> plain_field m" and "length ms \<le> 13" and "\<forall>n. length (garbage n) = n" and "ms \<noteq> []"
  shows "\<exists>B0 t R D h' d'. rec @ replicate nZero 0 @ C = B0 # putVarint32 t @ R \<and>
    D = drop (unat B0) (rec @ replicate nZero 0 @ C) \<and> unat B0 = 1 + length (putVarint32 t) + h' \<and> unat B0 < 128 \<and>
    (t < 128 \<longrightarrow> unat B0 < 64) \<and>
    length rec + nZero = unat B0 + sqlite3VdbeSerialTypeLen t + d' \<and>
    sqlite3VdbeSerialGet D t = Some (sqlite3VdbeSerialTypeLen t, stored (hd ms)) \<and> sqlite3VdbeSerialTypeLen t \<le> length D \<and>
    type_ok t (stored (hd ms)) \<and> (is_null (stored (hd ms)) \<longrightarrow> t = 0) \<and>
    fields_at True R (drop (sqlite3VdbeSerialTypeLen t) D) h' d' (map stored (tl ms))"
proof -
  let ?B = "rec @ replicate nZero 0 @ C"
  have "\<forall>m\<in>set ms. field_ok m" "True \<longrightarrow> (\<forall>m\<in>set ms. plain_field m)" "length ms \<le> 32767" using assms(2,3) by simp_all
  from made_record [OF assms(1) this assms(4)] obtain n h d where
    l: "h \<le> 5 * length ms" "n \<le> 3" "length rec + nZero = n + h + d" "n = length (putVarint32 (word_of_nat (n + h)))"
      "rec = putVarint32 (word_of_nat (n + h)) @ drop n rec" and
    g: "unat (word_of_nat (n + h) :: 32 word) = n + h" and
    f: "fields_at True (drop n ?B) (drop (n + h) ?B) h d (map stored ms)"
    by metis
  obtain m ms' where ms: "ms = m # ms'" using assms(5) by (cases ms) auto
  from f obtain t R h' d' where
    t: "drop n ?B = putVarint32 t @ R" "h = length (putVarint32 t) + h'" "d = sqlite3VdbeSerialTypeLen t + d'"
      "sqlite3VdbeSerialGet (drop (n + h) ?B) t = Some (sqlite3VdbeSerialTypeLen t, stored m)"
      "sqlite3VdbeSerialTypeLen t \<le> length (drop (n + h) ?B)"
      "type_ok t (stored m)" "is_null (stored m) \<longrightarrow> t = 0"
      "fields_at True R (drop (sqlite3VdbeSerialTypeLen t) (drop (n + h) ?B)) h' d' (map stored ms')"
    unfolding ms list.map(2) fields_at.simps(2) by auto
  have small: "n + h < 128" using l(1,2) assms(3) by simp
  then have w: "(word_of_nat (n + h) :: 32 word) < 128" by (simp only: word_less_nat_alt g) simp
  then have v: "putVarint32 (word_of_nat (n + h)) = [ucast (word_of_nat (n + h) :: 32 word)]" by (simp add: putVarint32_def)
  then have n: "n = 1" using l(4) by simp
  define B0 where "B0 = (ucast (word_of_nat (n + h) :: 32 word) :: byte)"
  have b: "unat B0 = n + h" unfolding B0_def using small g by (simp add: unsigned_ucast_eq take_bit_nat_eq_self)
  have "rec = B0 # drop 1 rec" using l(5) v n unfolding B0_def by simp
  then have "?B = B0 # drop 1 ?B" by (metis append_Cons drop0 drop_Suc_Cons One_nat_def)
  with t(1) n have B: "?B = B0 # putVarint32 t @ R" by simp
  have "h' \<le> 60" using fields_at_short [OF t(8)] assms(3) ms by simp
  moreover have "t < 128 \<Longrightarrow> length (putVarint32 t) = 1" by (simp add: putVarint32_def)
  ultimately have "t < 128 \<longrightarrow> unat B0 < 64" using b n t(2) by auto
  moreover have "hd ms = m" "tl ms = ms'" using ms by simp_all
  ultimately show ?thesis
    using B t b n l(3) small
    by (intro exI [of _ B0] exI [of _ t] exI [of _ R] exI [of _ "drop (unat B0) ?B"] exI [of _ h'] exI [of _ d']) (simp add: add.assoc)
qed

definition key_result :: "int option \<Rightarrow> UnpackedRecord \<Rightarrow> int \<times> UnpackedRecord" where
  "key_result r p = (case r of Some rc \<Rightarrow> (rc, p) | None \<Rightarrow> (ur_default_rc p, p\<lparr>ur_eqSeen := True\<rparr>))"

lemma compare_rest_fields:
  assumes B: "B = B0 # putVarint32 t @ R" and D: "D = drop (unat B0) B" and h: "unat B0 = 1 + length (putVarint32 t) + h'"
    and n: "nKey = unat B0 + sqlite3VdbeSerialTypeLen t + d'" and F: "fields_at True R (drop (sqlite3VdbeSerialTypeLen t) D) h' d' ls"
    and k: "key_ok (ur_pKeyInfo p) (ur_aMem p)" and rs: "ur_aMem p = r # rs" and l: "length rs \<le> length ls"
  shows "compare_rest nKey B p = Some (key_result (key_compare (ur_pKeyInfo p) 1 ls rs) p)"
proof (cases "rs = []")
  case True
  then show ?thesis by (cases ls) (simp_all add: compare_rest_def rs key_result_def)
next
  case False
  with l have ls: "ls \<noteq> []" by auto
  have g: "getVarint32 (drop 1 B) = Some (length (putVarint32 t), t)" using getVarint32_put [of t R] by (simp add: B)
  have R: "drop (1 + length (putVarint32 t)) B = R" by (simp add: B)
  have E: "drop (unat B0 + sqlite3VdbeSerialTypeLen t) B = drop (sqlite3VdbeSerialTypeLen t) D"
    unfolding D by (simp add: add.commute)
  have "compare_loop (ur_pKeyInfo p) B nKey (1 + length (putVarint32 t) + h') (1 + length (putVarint32 t))
      (unat B0 + sqlite3VdbeSerialTypeLen t) 1 rs = Some (Some (key_compare (ur_pKeyInfo p) 1 ls rs))"
    by (rule compare_loop_fields [where d = d']) (use F R E ls False k n in \<open>simp_all add: key_ok_def rs\<close>)
  moreover have "B ! 0 = B0" "length (ur_aMem p) > 1" "drop 1 (ur_aMem p) = rs" using False by (simp_all add: B rs)
  ultimately show ?thesis
    using g h n False by (simp add: compare_rest_def sqlite3VdbeRecordCompareWithSkip_def key_result_def split: option.splits)
qed

lemma first_int_value:
  assumes b: "b < 128 \<longleftrightarrow> t < 128" "t < 128 \<longrightarrow> b = t"
    and G: "sqlite3VdbeSerialGet D t = Some (n, m)" and T: "type_ok t m" and N: "is_null m \<longrightarrow> t = 0"
  shows "first_int b D = Some (mem_int m)"
proof (cases m)
  case (MEM_Int i)
  note c = class_types(1) [OF T [unfolded MEM_Int]]
  then have "b = t" using b(2) small_128 by blast
  moreover have "1 \<le> t" "t \<le> 9" using T MEM_Int by (simp_all add: type_ok_def)
  then have "unat t \<in> {1, 2, 3, 4, 5, 6, 8, 9}" using c by (auto simp: word_le_nat_alt word_unat_eq_iff)
  then have "t \<in> {1, 2, 3, 4, 5, 6, 8, 9}" by (auto simp: word_unat_eq_iff)
  ultimately show ?thesis using decode_get [OF G [unfolded MEM_Int] T [unfolded MEM_Int]] MEM_Int
    by (auto simp: first_int_def vdbeRecordDecodeInt_def reads_def split: if_splits)
next
  case (MEM_Null x)
  with N b show ?thesis by (simp add: first_int_def)
next
  case (MEM_IntReal x)
  with T show ?thesis by (simp add: type_ok_def)
next
  case (MEM_Real x)
  with class_types(2) T have "t = 7" by blast
  with b MEM_Real show ?thesis by (simp add: first_int_def)
next
  case (MEM_Str z)
  then have "10 \<le> b" using text_get(1) [OF G T] type_large [OF _ b] by simp
  with MEM_Str show ?thesis by (auto simp: first_int_def word_le_nat_alt)
next
  case (MEM_Blob z k)
  then have "10 \<le> b" using text_get(1) [OF G T] type_large [OF _ b] by simp
  with MEM_Blob show ?thesis by (auto simp: first_int_def word_le_nat_alt)
qed

lemma small_type:
  assumes "type_ok t (stored m)" and "field_ok m" and "\<not> is_null (stored m)"
  shows "sint t < 12 \<longleftrightarrow> t < 12"
proof -
  have "unat t < 2 ^ 31"
  proof (cases "stored m")
    case (MEM_Str z)
    then have "m = MEM_Str z" by (cases m) (auto simp: stored_def split: if_splits)
    with assms MEM_Str have "length z = (unat t - 13) div 2" "length z \<le> 1000000000" by (simp_all add: type_ok_def field_ok_def SQLITE_MAX_LENGTH_def)
    then show ?thesis by simp
  next
    case (MEM_Blob z k)
    then obtain z' k' where "m = MEM_Blob z' k'" "z = z' @ replicate k' 0" by (cases m) (auto simp: stored_def split: if_splits)
    with assms MEM_Blob have "length z = (unat t - 12) div 2" "length z \<le> 1000000000" by (simp_all add: type_ok_def field_ok_def SQLITE_MAX_LENGTH_def)
    then show ?thesis by simp
  next
    case MEM_Null
    with assms show ?thesis by simp
  next
    case (MEM_Int i)
    then have "t \<le> 9" using assms by (simp add: type_ok_def)
    then have "unat t \<le> 9" by (simp add: word_le_nat_alt)
    then show ?thesis by simp
  next
    case (MEM_Real i)
    then have "t = 7" using assms by (simp add: type_ok_def)
    then show ?thesis by simp
  next
    case (MEM_IntReal i)
    then show ?thesis using assms by (simp add: type_ok_def)
  qed
  from of_nat_less_iff [where 'a = int, THEN iffD2, OF this] have "uint t < 2 ^ 31" by simp
  then have "signed_take_bit (LENGTH(32) - Suc 0) (uint t) = uint t"
    by (intro signed_take_bit_int_eq_self) (simp_all add: order_trans [OF _ unsigned_greater_eq])
  then have "sint t = uint t" by (simp only: sint_uint)
  then show ?thesis by (simp only: word_less_def) simp
qed

lemma mask_63: "unat (b :: byte) < 64 \<Longrightarrow> b AND 0x3F = b"
proof -
  assume "unat b < 64"
  then have "take_bit 6 b = b" by (simp add: word_unat_eq_iff unsigned_take_bit_eq take_bit_nat_eq_self)
  moreover have "(0x3F :: byte) = mask 6" by (simp add: mask_eq_exp_minus_1)
  ultimately show ?thesis by (simp only: take_bit_eq_mask)
qed

definition plain_order :: "UnpackedRecord \<Rightarrow> nat \<Rightarrow> bool" where
  "plain_order p flags \<longleftrightarrow> flags < 4 \<and> flags AND KEYINFO_ORDER_BIGNULL = 0 \<and>
     ur_r1 p = (if flags \<noteq> 0 then 1 else - 1) \<and> ur_r2 p = (if flags \<noteq> 0 then - 1 else 1)"

lemma plain_field_order: "plain_order p flags \<Longrightarrow> field_order flags null rc = (if flags \<noteq> 0 then - rc else rc)"
proof -
  assume "plain_order p flags"
  then have p: "flags < 4" "flags AND KEYINFO_ORDER_BIGNULL = 0" by (simp_all add: plain_order_def)
  then consider "flags = 0" | "flags = 1" | "flags = 2" | "flags = 3" by linarith
  then show ?thesis
    by cases (use p(2) in \<open>simp_all add: field_order_def KEYINFO_ORDER_BIGNULL_def KEYINFO_ORDER_DESC_def\<close>)
qed

lemma compare_int_agrees:
  assumes B: "B = B0 # putVarint32 t @ R" and D: "D = drop (unat B0) B" and h: "unat B0 = 1 + length (putVarint32 t) + h'"
    and n: "nKey = unat B0 + sqlite3VdbeSerialTypeLen t + d'" and F: "fields_at True R (drop (sqlite3VdbeSerialTypeLen t) D) h' d' ls"
    and k: "key_ok (ur_pKeyInfo p) (ur_aMem p)" and rs: "ur_aMem p = MEM_Int v # rs" and l: "length rs \<le> length ls"
    and G: "sqlite3VdbeSerialGet D t = Some (n', m)" and T: "type_ok t m" and N: "is_null m \<longrightarrow> t = 0" and small: "t < 128 \<longrightarrow> unat B0 < 64"
    and o: "plain_order p (ki_aSortFlags (ur_pKeyInfo p) ! 0)"
    and made: "sqlite3VdbeRecordCompare nKey B p = Some (key_result (key_compare (ur_pKeyInfo p) 0 (m # ls) (ur_aMem p)) p)"
  shows "vdbeRecordCompareInt nKey B p = Some (key_result (key_compare (ur_pKeyInfo p) 0 (m # ls) (ur_aMem p)) p)"
proof -
  have hdr: "drop 1 B = putVarint32 t @ R" by (simp add: B)
  obtain b where b: "type_byte (drop 1 B) = Some b" "b < 128 \<longleftrightarrow> t < 128" "t < 128 \<longrightarrow> b = t" using type_bytes(2) [OF hdr] by blast
  have two: "2 \<le> length B" using putVarint32_pos [of t] by (simp add: B Suc_le_eq)
  then have b1: "u32 (B ! 1) = b" using b(1) by (simp add: type_byte_def reads_def split: if_splits)
  have lhs: "first_int b (drop (unat (B ! 0 AND 0x3F)) B) = Some (if t < 128 then mem_int m else None)"
  proof (cases "t < 128")
    case True
    then have "drop (unat (B ! 0 AND 0x3F)) B = D" using mask_63 small by (simp add: B D)
    with first_int_value [OF b(2,3) G T N] True show ?thesis by simp
  next
    case False
    then have "\<not> b < 128" using b(2) by simp
    with False show ?thesis by (auto simp: first_int_def)
  qed
  show ?thesis
  proof (cases "if t < 128 then mem_int m else None")
    case None
    with lhs b1 two made show ?thesis by (simp add: vdbeRecordCompareInt_def reads_def)
  next
    case (Some i)
    then have m: "m = MEM_Int i" using T by (cases m) (auto simp: type_ok_def split: if_splits)
    have rest: "compare_rest nKey B p = Some (key_result (key_compare (ur_pKeyInfo p) 1 ls rs) p)"
      by (rule compare_rest_fields [OF B D h n F k rs l])
    have c: "sqlite3MemCompare e m (MEM_Int v) coll = int_compare i v" for e coll
      by (simp add: m sqlite3MemCompare_def is_number_def number_compare_def)
    note fo = plain_field_order [OF o]
    have r: "ur_r1 p = (if ki_aSortFlags (ur_pKeyInfo p) ! 0 \<noteq> 0 then 1 else - 1)" "ur_r2 p = (if ki_aSortFlags (ur_pKeyInfo p) ! 0 \<noteq> 0 then - 1 else 1)"
      using o by (simp_all add: plain_order_def)
    consider "sint i < sint v" | "sint i > sint v" | "sint i = sint v" by linarith
    then show ?thesis
      by cases (use lhs b1 two rest fo r Some in \<open>simp_all add: vdbeRecordCompareInt_def reads_def rs c int_compare_def key_result_def\<close>)
  qed
qed

lemma memcmp_take: "k \<le> n \<Longrightarrow> memcmp (take n x) y k = memcmp x y k"
  by (simp add: memcmp_def min_def)

lemma compare_text_agrees:
  assumes B: "B = B0 # putVarint32 t @ R" and D: "D = drop (unat B0) B" and h: "unat B0 = 1 + length (putVarint32 t) + h'"
    and n: "nKey = unat B0 + sqlite3VdbeSerialTypeLen t + d'" and F: "fields_at True R (drop (sqlite3VdbeSerialTypeLen t) D) h' d' ls"
    and k: "key_ok (ur_pKeyInfo p) (ur_aMem p)" and rs: "ur_aMem p = MEM_Str z # rs" and l: "length rs \<le> length ls"
    and G: "sqlite3VdbeSerialGet D t = Some (sqlite3VdbeSerialTypeLen t, m)" and L: "sqlite3VdbeSerialTypeLen t \<le> length D" and T: "type_ok t m"
    and N: "is_null m \<longrightarrow> t = 0" and s: "\<not> is_null m \<longrightarrow> (sint t < 12 \<longleftrightarrow> t < 12)" and c: "ki_aColl (ur_pKeyInfo p) ! 0 = None"
    and o: "plain_order p (ki_aSortFlags (ur_pKeyInfo p) ! 0)" and le: "nKey \<le> length B"
  shows "\<exists>a. vdbeRecordCompareString nKey B p = Some (a, snd (key_result (key_compare (ur_pKeyInfo p) 0 (m # ls) (ur_aMem p)) p)) \<and>
    sgn a = sgn (fst (key_result (key_compare (ur_pKeyInfo p) 0 (m # ls) (ur_aMem p)) p))"
proof -
  have hdr: "drop 1 B = putVarint32 t @ R" by (simp add: B)
  note tv = type_bytes(1) [OF hdr]
  have s': "sint t < 12 \<longleftrightarrow> t < 12" using s N by (cases "is_null m") simp_all
  have rest: "compare_rest nKey B p = Some (key_result (key_compare (ur_pKeyInfo p) 1 ls rs) p)"
    by (rule compare_rest_fields [OF B D h n F k rs l])
  note fo = plain_field_order [OF o]
  have r: "ur_r1 p = (if ki_aSortFlags (ur_pKeyInfo p) ! 0 \<noteq> 0 then 1 else - 1)" "ur_r2 p = (if ki_aSortFlags (ur_pKeyInfo p) ! 0 \<noteq> 0 then - 1 else 1)"
    using o by (simp_all add: plain_order_def)
  consider "is_null m \<or> is_number m" | x where "m = MEM_Str x" | x j where "m = MEM_Blob x j"
    by (cases m) (auto simp: is_number_def)
  then show ?thesis
  proof cases
    case 1
    then have "t < 12" using small_class [OF T] N by blast
    moreover have "sqlite3MemCompare e m (MEM_Str z) coll = - 1" for e coll
      using 1 by (cases m) (simp_all add: sqlite3MemCompare_def number_compare_def is_number_def)
    ultimately show ?thesis using s' tv fo r
      by (simp add: vdbeRecordCompareString_def rs key_result_def)
  next
    case (3 x j)
    note g = text_get [OF G T]
    from 3 g have "12 \<le> t" "t AND 1 = 0" by auto
    moreover from this have "\<not> t < 12" by simp
    moreover have "sqlite3MemCompare e m (MEM_Str z) coll = 1" for e coll
      by (simp add: 3 sqlite3MemCompare_def number_compare_def is_number_def)
    ultimately show ?thesis using s' tv fo r
      by (simp add: vdbeRecordCompareString_def rs key_result_def)
  next
    case (2 x)
    note g = text_get [OF G T]
    let ?n = "sqlite3VdbeSerialTypeLen t"
    from 2 g have t: "12 \<le> t" "?n = unat ((t - 12) div 2)" "x = take ?n D" "t AND 1 \<noteq> 0" by auto
    have nt: "\<not> t < 12" using t(1) by simp
    have len: "length x = ?n" using t(3) L by simp
    let ?c = "memcmp D z (min (length z) ?n)"
    have mc: "j \<le> ?n \<Longrightarrow> memcmp x z j = memcmp D z j" for j unfolding t(3) by (rule memcmp_take)
    have cmp: "sqlite3MemCompare e m (MEM_Str z) None = (if ?c \<noteq> 0 then ?c else int ?n - int (length z))" for e
      by (simp add: 2 sqlite3MemCompare_def is_number_def sqlite3BlobCompare_def Let_def mc len min_def)
    have B0: "B ! 0 = B0" "unat B0 + ?n \<le> length B" "\<not> unat B0 + ?n > nKey"
      using le n by (simp_all add: B)
    have run: "vdbeRecordCompareString nKey B p =
      (if ?c > 0 then Some (ur_r2 p, p) else if ?c < 0 then Some (ur_r1 p, p)
       else let res = int ?n - int (length z) in
         if res = 0 then compare_rest nKey B p else if res > 0 then Some (ur_r2 p, p) else Some (ur_r1 p, p))"
      unfolding vdbeRecordCompareString_def
      using tv s' nt t(2,4) B0 D by (simp add: rs reads_def Let_def)
    consider "?c > 0" | "?c < 0" | "?c = 0" "int ?n - int (length z) > 0" | "?c = 0" "int ?n - int (length z) < 0"
      | "?c = 0" "int ?n - int (length z) = 0" by linarith
    then show ?thesis
      by cases (simp_all add: run rs cmp c fo r rest key_result_def prod_eq_iff)
  qed
qed

lemma compare_agrees:
  assumes made: "OP_MakeRecord mem_ok limit file_format szMalloc garbage ms = Some (Inr (rec, nZero))"
    and ms: "\<forall>m\<in>set ms. field_ok m \<and> plain_field m" "length ms \<le> ki_nAllField (ur_pKeyInfo p)" "length ms \<le> 32767"
    and g: "\<forall>n. length (garbage n) = n"
    and k: "key_ok (ur_pKeyInfo p) (ur_aMem p)" "ur_aMem p \<noteq> []" "length (ur_aMem p) \<le> length ms"
  shows "\<exists>a. run_compare (fst (sqlite3VdbeFindCompare p)) (length rec + nZero) (rec @ replicate nZero 0 @ C) (snd (sqlite3VdbeFindCompare p)) =
      Some (a, snd (key_result (key_compare (ur_pKeyInfo p) 0 (map stored ms) (ur_aMem p)) (snd (sqlite3VdbeFindCompare p)))) \<and>
    sgn a = sgn (fst (key_result (key_compare (ur_pKeyInfo p) 0 (map stored ms) (ur_aMem p)) p))"
proof -
  obtain c q where fc: "sqlite3VdbeFindCompare p = (c, q)" by (metis surj_pair)
  let ?B = "rec @ replicate nZero 0 @ C" and ?K = "key_compare (ur_pKeyInfo p) 0 (map stored ms) (ur_aMem p)"
  have q: "ur_pKeyInfo q = ur_pKeyInfo p" "ur_aMem q = ur_aMem p" "ur_default_rc q = ur_default_rc p"
    using fc by (auto simp: sqlite3VdbeFindCompare_def Let_def split: if_splits mem.splits)
  have ne: "ms \<noteq> []" using k(2,3) by auto
  have general: "sqlite3VdbeRecordCompare (length rec + nZero) ?B q = Some (key_result ?K q)"
    using record_compare_made [OF made ms(1,3) g ne, of q C] k(1,2) q by (simp add: key_result_def)
  have same: "fst (key_result ?K q) = fst (key_result ?K p)" by (simp add: key_result_def q split: option.split)
  show ?thesis
  proof (cases "c = RecordCompare")
    case True
    with general same fc show ?thesis by (simp add: run_compare_def prod_eq_iff)
  next
    case fast: False
    obtain m ms' where m: "ms = m # ms'" using ne by (cases ms) auto
    obtain r rs where r: "ur_aMem q = r # rs" using k(2) q by (cases "ur_aMem p") auto
    have l: "length rs \<le> length (map stored ms')" using k(3) arg_cong [OF r, of length] q(2) m by simp
    have nf: "ki_nAllField (ur_pKeyInfo p) \<le> 13" by (rule ccontr) (use fc fast in \<open>simp add: sqlite3VdbeFindCompare_def\<close>)
    then have "length ms \<le> 13" using ms(2) by simp
    from short_header [OF made ms(1) this g ne, of C] obtain B0 t R D h' d' where
      s: "?B = B0 # putVarint32 t @ R" "D = drop (unat B0) ?B" "unat B0 = 1 + length (putVarint32 t) + h'"
        "t < 128 \<longrightarrow> unat B0 < 64" "length rec + nZero = unat B0 + sqlite3VdbeSerialTypeLen t + d'"
        "sqlite3VdbeSerialGet D t = Some (sqlite3VdbeSerialTypeLen t, stored m)" "sqlite3VdbeSerialTypeLen t \<le> length D"
        "type_ok t (stored m)" "is_null (stored m) \<longrightarrow> t = 0"
        "fields_at True R (drop (sqlite3VdbeSerialTypeLen t) D) h' d' (map stored ms')"
      unfolding m list.sel by metis
    have kq: "key_ok (ur_pKeyInfo q) (ur_aMem q)" using k(1) q by simp
    let ?f = "ki_aSortFlags (ur_pKeyInfo p) ! 0"
    have "0 < length (ki_aSortFlags (ur_pKeyInfo p))" using k(1,2) by (cases "ur_aMem p") (auto simp: key_ok_def)
    then have "?f < 4" using k(1) by (simp add: key_ok_def)
    moreover have "?f AND KEYINFO_ORDER_BIGNULL = 0" using fc fast nf
      by (auto simp: sqlite3VdbeFindCompare_def Let_def KEYINFO_ORDER_BIGNULL_def split: if_splits)
    moreover have "ur_r1 q = (if ?f \<noteq> 0 then 1 else - 1)" "ur_r2 q = (if ?f \<noteq> 0 then - 1 else 1)"
      using fc fast nf by (auto simp: sqlite3VdbeFindCompare_def Let_def split: if_splits mem.splits)
    ultimately have o: "plain_order q (ki_aSortFlags (ur_pKeyInfo q) ! 0)" by (simp add: plain_order_def q)
    show ?thesis
    proof (cases c)
      case RecordCompareInt
      then obtain v where "ur_aMem q ! 0 = MEM_Int v"
        using fc nf q by (auto simp: sqlite3VdbeFindCompare_def Let_def split: if_splits mem.splits)
      with r have rv: "ur_aMem q = MEM_Int v # rs" by simp
      have "sqlite3VdbeRecordCompare (length rec + nZero) ?B q =
        Some (key_result (key_compare (ur_pKeyInfo q) 0 (stored m # map stored ms') (ur_aMem q)) q)" using general m q by simp
      from compare_int_agrees [OF s(1,2,3,5,10) kq rv l s(6,8,9,4) o this] fc RecordCompareInt same m q
      show ?thesis by (simp add: run_compare_def prod_eq_iff)
    next
      case RecordCompareString
      then obtain z where "ur_aMem q ! 0 = MEM_Str z" and coll: "ki_aColl (ur_pKeyInfo q) ! 0 = None"
        using fc nf q by (auto simp: sqlite3VdbeFindCompare_def Let_def split: if_splits mem.splits)
      with r have rz: "ur_aMem q = MEM_Str z # rs" by simp
      have "field_ok m" using ms(1) m by simp
      then have st: "\<not> is_null (stored m) \<longrightarrow> (sint t < 12 \<longleftrightarrow> t < 12)" using small_type [OF s(8)] by blast
      have "length rec + nZero \<le> length ?B" by simp
      from compare_text_agrees [OF s(1,2,3,5,10) kq rz l s(6,7,8,9) st coll o this] fc RecordCompareString same m q
      show ?thesis by (simp add: run_compare_def prod_eq_iff)
    qed (use fast in simp)
  qed
qed

section \<open>Properties\<close>

text \<open>
  C11: comparing a record with a key. Over a record made by the opcode, with its trailing zeros and whatever lies behind it,
  \<^verbatim>\<open>sqlite3VdbeRecordCompare\<close> gives the order of the stored values and the values of the key, field by field with the collation and
  the sort order of each, never an error for corruption; without a difference it is the default of the key, which is marked as seen. The routine that
  \<^verbatim>\<open>sqlite3VdbeFindCompare\<close> chooses, also a faster one, gives a result of the same sign and changes the key in the same way.
\<close>

theorem find_compare_agrees:
  assumes "OP_MakeRecord mem_ok limit file_format szMalloc garbage ms = Some (Inr (rec, nZero))"
    and "\<forall>m\<in>set ms. field_ok m \<and> plain_field m" and "length ms \<le> ki_nAllField (ur_pKeyInfo p)" and "length ms \<le> 32767"
    and "\<forall>n. length (garbage n) = n"
    and "key_ok (ur_pKeyInfo p) (ur_aMem p)" and "ur_aMem p \<noteq> []" and "length (ur_aMem p) \<le> length ms"
  shows "(let r = key_compare (ur_pKeyInfo p) 0 (map stored ms) (ur_aMem p); (c, q) = sqlite3VdbeFindCompare p in
    sqlite3VdbeRecordCompare (length rec + nZero) (rec @ replicate nZero 0 @ C) p = Some (key_result r p) \<and>
    (\<exists>a. run_compare c (length rec + nZero) (rec @ replicate nZero 0 @ C) q = Some (a, snd (key_result r q)) \<and>
       sgn a = sgn (fst (key_result r p))))"
proof -
  have "ms \<noteq> []" using assms(7,8) by auto
  then show ?thesis
    using record_compare_made [OF assms(1,2,4,5) _ assms(6,7), of C] compare_agrees [OF assms, of C]
    by (simp add: key_result_def [symmetric] Let_def case_prod_beta)
qed

theorem find_compare_agrees_witness:
  "let p = \<lparr>ur_pKeyInfo = \<lparr>ki_enc = SQLITE_UTF8, ki_nAllField = 2, ki_aSortFlags = [1, 0], ki_aColl = [None, None]\<rparr>,
       ur_aMem = [MEM_Int 7], ur_default_rc = 1, ur_errCode = 0, ur_r1 = 0, ur_r2 = 0, ur_eqSeen = False\<rparr> in
   fst (sqlite3VdbeFindCompare p) = RecordCompareInt \<and>
   (\<exists>a. run_compare RecordCompareInt 5 [3, 1, 15, 5, 97] (snd (sqlite3VdbeFindCompare p)) = Some (a, snd (sqlite3VdbeFindCompare p)) \<and> 0 < a)"
proof -
  define p where "p = \<lparr>ur_pKeyInfo = \<lparr>ki_enc = SQLITE_UTF8, ki_nAllField = 2, ki_aSortFlags = [1, 0], ki_aColl = [None, None]\<rparr>,
       ur_aMem = [MEM_Int 7], ur_default_rc = 1, ur_errCode = 0, ur_r1 = 0, ur_r2 = 0, ur_eqSeen = False\<rparr>"
  have m: "OP_MakeRecord (\<lambda>n. True) 1000 4 0 (\<lambda>n. replicate n 0) [MEM_Int 5, MEM_Str [97]] = Some (Inr ([3, 1, 15, 5, 97], 0))" by code_simp
  have k: "key_ok (ur_pKeyInfo p) (ur_aMem p)" by (simp add: key_ok_def p_def rhs_ok_def)
  have c: "key_compare (ur_pKeyInfo p) 0 (map stored [MEM_Int 5, MEM_Str [97]]) (ur_aMem p) = Some 1"
    by (simp add: p_def stored_def sqlite3MemCompare_def is_number_def number_compare_def int_compare_def field_order_def
        KEYINFO_ORDER_BIGNULL_def KEYINFO_ORDER_DESC_def)
  have f: "fst (sqlite3VdbeFindCompare p) = RecordCompareInt"
    by (simp add: sqlite3VdbeFindCompare_def p_def KEYINFO_ORDER_BIGNULL_def)
  have "\<exists>a. run_compare (fst (sqlite3VdbeFindCompare p)) 5 [3, 1, 15, 5, 97] (snd (sqlite3VdbeFindCompare p)) =
      Some (a, snd (sqlite3VdbeFindCompare p)) \<and> sgn a = 1"
  proof -
    have p: "ki_nAllField (ur_pKeyInfo p) = 2" "ur_aMem p = [MEM_Int 7]" by (simp_all add: p_def)
    have "\<forall>m\<in>set [MEM_Int 5, MEM_Str [97]]. field_ok m \<and> plain_field m" by (simp add: field_ok_def plain_field_def SQLITE_MAX_LENGTH_def)
    moreover have "length [3, 1, 15, 5, 97 :: byte] + 0 = 5" "[3, 1, 15, 5, 97] @ replicate 0 0 @ [] = [3, 1, 15, 5, 97 :: byte]" by simp_all
    moreover have five: "(5 :: nat) = Suc (Suc (Suc (Suc (Suc 0))))" by simp
    ultimately show ?thesis
      unfolding five using find_compare_agrees [OF m _ _ _ _ k, where C = "[]", unfolded c] by (simp add: p key_result_def Let_def case_prod_beta)
  qed
  with f show ?thesis unfolding p_def [symmetric] Let_def by (auto simp: sgn_1_pos)
qed

end
