(* ===== verification/Ys_Order.thy ===== *)
theory Ys_Order
  imports Ys_Compare
begin

text \<open>
  Why keys are ordered: what a collation owes (the locale \<open>comparator\<close>), the built-in collations as
  instances of it, the order of values that any collation gives and the order of the keys of an index.
\<close>

section \<open>Orders\<close>

lemma sgn_iff: "sgn (x :: int) = sgn y \<longleftrightarrow> (x \<le> 0 \<longleftrightarrow> y \<le> 0) \<and> (0 \<le> x \<longleftrightarrow> 0 \<le> y)"
  by (auto simp: sgn_if)

lemma sgn_flip: "sgn (x - y :: int) = - sgn (y - x)"
  by (simp add: sgn_if)

text \<open>
  What \<^verbatim>\<open>sqlite3_create_collation\<close> asks of a comparison: of the values it is for, it is a total order up to values that
  compare as equal.
\<close>

locale comparator =
  fixes cmp :: "'a \<Rightarrow> 'a \<Rightarrow> int" and ok :: "'a \<Rightarrow> bool"
  assumes sym: "ok a \<Longrightarrow> ok b \<Longrightarrow> sgn (cmp b a) = - sgn (cmp a b)"
    and trans: "ok a \<Longrightarrow> ok b \<Longrightarrow> ok c \<Longrightarrow> cmp a b \<le> 0 \<Longrightarrow> cmp b c \<le> 0 \<Longrightarrow> cmp a c \<le> 0"
begin

lemma flip: "ok a \<Longrightarrow> ok b \<Longrightarrow> cmp b a < 0 \<longleftrightarrow> 0 < cmp a b" "ok a \<Longrightarrow> ok b \<Longrightarrow> 0 < cmp b a \<longleftrightarrow> cmp a b < 0"
  "ok a \<Longrightarrow> ok b \<Longrightarrow> cmp b a = 0 \<longleftrightarrow> cmp a b = 0" "ok a \<Longrightarrow> ok b \<Longrightarrow> cmp b a \<le> 0 \<longleftrightarrow> 0 \<le> cmp a b"
  using sym [of a b] by (auto simp: sgn_if split: if_splits)

lemma refl: "ok a \<Longrightarrow> cmp a a = 0"
  using sym [of a a] by (auto simp: sgn_if split: if_splits)

lemma equal_left:
  assumes "ok a" "ok b" "ok c" "cmp a b = 0"
  shows "sgn (cmp a c) = sgn (cmp b c)"
proof -
  have z: "cmp a b \<le> 0" "cmp b a \<le> 0" using assms flip(3) [of a b] by simp_all
  have "cmp a c \<le> 0 \<longleftrightarrow> cmp b c \<le> 0" using trans [of a b c] trans [of b a c] assms z by blast
  moreover have "cmp c a \<le> 0 \<longleftrightarrow> cmp c b \<le> 0" using trans [of c a b] trans [of c b a] assms z by blast
  ultimately show ?thesis using flip(4) [of a c] flip(4) [of b c] assms by (simp add: sgn_iff)
qed

lemma equal_right: "ok a \<Longrightarrow> ok b \<Longrightarrow> ok c \<Longrightarrow> cmp b c = 0 \<Longrightarrow> sgn (cmp a b) = sgn (cmp a c)"
  using equal_left [of b c a] sym [of a b] sym [of a c] by simp

lemma image: "comparator (\<lambda>a b. cmp (f a) (f b)) (\<lambda>a. ok (f a))"
proof
  show "ok (f a) \<Longrightarrow> ok (f b) \<Longrightarrow> sgn (cmp (f b) (f a)) = - sgn (cmp (f a) (f b))" for a b by (rule sym)
  show "ok (f a) \<Longrightarrow> ok (f b) \<Longrightarrow> ok (f c) \<Longrightarrow> cmp (f a) (f b) \<le> 0 \<Longrightarrow> cmp (f b) (f c) \<le> 0 \<Longrightarrow> cmp (f a) (f c) \<le> 0" for a b c
    by (rule trans)
qed

lemma reversed: "comparator (\<lambda>a b. - cmp a b) ok"
proof
  show "ok a \<Longrightarrow> ok b \<Longrightarrow> sgn (- cmp b a) = - sgn (- cmp a b)" for a b using sym [of a b] by simp
  fix a b c assume "ok a" "ok b" "ok c" "- cmp a b \<le> 0" "- cmp b c \<le> 0"
  then show "- cmp a c \<le> 0" using trans [of c b a] flip(4) [of a b] flip(4) [of b c] flip(4) [of a c] by linarith
qed

lemma restrict: "(\<And>a. ok' a \<Longrightarrow> ok a) \<Longrightarrow> comparator cmp ok'"
proof
  assume r: "\<And>a. ok' a \<Longrightarrow> ok a"
  show "ok' a \<Longrightarrow> ok' b \<Longrightarrow> sgn (cmp b a) = - sgn (cmp a b)" for a b by (intro sym r)
  show "ok' a \<Longrightarrow> ok' b \<Longrightarrow> ok' c \<Longrightarrow> cmp a b \<le> 0 \<Longrightarrow> cmp b c \<le> 0 \<Longrightarrow> cmp a c \<le> 0" for a b c
    by (rule trans [OF r r r])
qed

lemma same: "(\<And>a b. ok a \<Longrightarrow> ok b \<Longrightarrow> sgn (cmp' a b) = sgn (cmp a b)) \<Longrightarrow> comparator cmp' ok"
proof
  fix a b c assume e: "\<And>a b. ok a \<Longrightarrow> ok b \<Longrightarrow> sgn (cmp' a b) = sgn (cmp a b)" and ok: "ok a" "ok b"
  show "sgn (cmp' b a) = - sgn (cmp' a b)" unfolding e [OF ok] e [OF ok(2,1)] by (rule sym [OF ok])
  have le: "cmp' x y \<le> 0 \<longleftrightarrow> cmp x y \<le> 0" if "ok x" "ok y" for x y
    using e [OF that] by (simp add: sgn_iff)
  assume "ok c" "cmp' a b \<le> 0" "cmp' b c \<le> 0"
  with ok show "cmp' a c \<le> 0" using trans [of a b c] by (simp add: le)
qed

end

text \<open>Values of several classes, the classes in their order.\<close>

lemma comparator_ranked:
  assumes r: "\<And>a b. ok a \<Longrightarrow> ok b \<Longrightarrow> rank a \<noteq> rank b \<Longrightarrow> sgn (cmp a b) = sgn (rank a - rank b :: int)"
    and c: "\<And>r. comparator cmp (\<lambda>a. ok a \<and> rank a = r)"
  shows "comparator cmp ok"
proof
  fix a b c assume ok: "ok a" "ok b"
  show "sgn (cmp b a) = - sgn (cmp a b)"
  proof (cases "rank a = rank b")
    case True
    then show ?thesis by (intro comparator.sym [OF c [of "rank a"]]) (simp_all add: ok)
  next
    case False
    then show ?thesis using r [of a b] r [of b a] ok sgn_flip [of "rank b" "rank a"] by simp
  qed
  assume k: "ok c" "cmp a b \<le> 0" "cmp b c \<le> 0"
  have le: "rank x \<le> rank y" if "ok x" "ok y" "cmp x y \<le> 0" for x y
    using r [of x y] that by (cases "rank x = rank y") (auto simp: sgn_if split: if_splits)
  show "cmp a c \<le> 0"
  proof (cases "rank a = rank c")
    case True
    then have "rank b = rank c" using le [of a b] le [of b c] ok k by simp
    with True show ?thesis by (intro comparator.trans [OF c [of "rank a"], of a b c]) (simp_all add: ok k)
  next
    case False
    then have "rank a < rank c" using le [of a b] le [of b c] ok k by simp
    then show ?thesis using r [of a c] ok k by (auto simp: sgn_if split: if_splits)
  qed
qed

text \<open>Lists of numbers as words are ordered; what is equivalent to that order is an order.\<close>

fun list_order :: "int list \<Rightarrow> int list \<Rightarrow> int" where
  "list_order [] [] = 0"
| "list_order [] (b # y) = - 1"
| "list_order (a # x) [] = 1"
| "list_order (a # x) (b # y) = (if a = b then list_order x y else a - b)"

lemma order_sym: "sgn (list_order y x) = - sgn (list_order x y)"
proof (induction x y rule: list_order.induct)
  case (4 a x b y)
  then show ?case using sgn_flip [of b a] by simp
qed simp_all

lemma order_trans_words: "list_order x y \<le> 0 \<Longrightarrow> list_order y z \<le> 0 \<Longrightarrow> list_order x z \<le> 0"
proof (induction x y arbitrary: z rule: list_order.induct)
  case (1 z)
  then show ?case by simp
next
  case (2 b y z)
  then show ?case by (cases z) simp_all
next
  case (3 a x z)
  then show ?case by simp
next
  case (4 a x b y z)
  then show ?case by (cases z) (auto split: if_splits)
qed

interpretation words: comparator list_order "\<lambda>_. True"
  using order_sym order_trans_words by unfold_locales blast+

lemma comparator_key: "(\<And>a b. ok a \<Longrightarrow> ok b \<Longrightarrow> sgn (cmp a b) = sgn (list_order (key a) (key b))) \<Longrightarrow> comparator cmp ok"
  by (rule comparator.same [OF comparator.restrict [OF words.image [of key]]]) simp_all

section \<open>The built-in collations\<close>

lemma memcmp_common: "memcmp x y (min (length x) (length y)) = memcmp_loop x y"
  unfolding memcmp_def by (induction x y rule: memcmp_loop.induct) simp_all

lemma bin_key: "sgn (binCollFunc x y) = sgn (list_order (map uint x) (map uint y))"
  unfolding binCollFunc_def memcmp_common Let_def
proof (induction x arbitrary: y)
  case Nil
  then show ?case by (cases y) simp_all
next
  case (Cons a x)
  show ?case
  proof (cases y)
    case Nil
    then show ?thesis by simp
  next
    case (Cons b y')
    with Cons.IH [of y'] show ?thesis by (cases "a = b") (simp_all add: word_uint_eq_iff split: if_splits)
  qed
qed

interpretation BINARY: comparator binCollFunc "\<lambda>_. True"
  by (rule comparator_key) (rule bin_key)

interpretation RTRIM: comparator rtrimCollFunc "\<lambda>_. True"
  unfolding rtrimCollFunc_def by (rule BINARY.image)

definition nocase_key :: "nat \<Rightarrow> string \<Rightarrow> int list" where
  "nocase_key l s = map (\<lambda>c. int (sqlite3Tolower c)) (takeWhile (\<lambda>c. c \<noteq> CHR 0x00) s) @ [0, int l]"

lemma tolower_zero: "sqlite3Tolower c = 0 \<longleftrightarrow> c = CHR 0x00"
proof
  assume "sqlite3Tolower c = 0"
  then have "of_char c = (0 :: nat)" by (simp add: sqlite3Tolower_ascii split: if_splits)
  then have "of_char c = (of_char (CHR 0x00) :: nat)" by simp
  then show "c = CHR 0x00" by (simp only: of_char_eq_iff)
next
  show "c = CHR 0x00 \<Longrightarrow> sqlite3Tolower c = 0" by (simp add: sqlite3Tolower_ascii)
qed

lemma nocase_order:
  "int lx - int ly = int (length x) - int (length y) \<Longrightarrow>
   sgn (let r = strnicmp_loop x y (min (length x) (length y)) in if 0 = r then int lx - int ly else r) =
   sgn (list_order (nocase_key lx x) (nocase_key ly y))"
proof (induction x arbitrary: y)
  case Nil
  then show ?case by (cases y) (auto simp: nocase_key_def tolower_zero sgn_if)
next
  case (Cons a x)
  show ?case
  proof (cases y)
    case Nil
    moreover have "a \<noteq> CHR 0x00 \<Longrightarrow> 0 < sqlite3Tolower a" using tolower_zero [of a] by simp
    ultimately show ?thesis using Cons.prems by (cases "a = CHR 0x00") (simp_all add: nocase_key_def)
  next
    case y: (Cons b y')
    with Cons.prems have l: "int lx - int ly = int (length x) - int (length y')" by simp
    show ?thesis
    proof (cases "a \<noteq> CHR 0x00 \<and> sqlite3Tolower a = sqlite3Tolower b")
      case True
      then have "b \<noteq> CHR 0x00" using tolower_zero [of a] tolower_zero [of b] by simp
      with True Cons.IH [OF l] y show ?thesis by (simp add: nocase_key_def c_nth_def)
    next
      case False
      then show ?thesis using y tolower_zero [of a] tolower_zero [of b] by (auto simp: nocase_key_def c_nth_def sgn_if)
    qed
  qed
qed

interpretation NOCASE: comparator nocaseCollatingFunc "\<lambda>_. True"
  by (rule comparator_key [where key = "\<lambda>x. nocase_key (length x) (map byte_char x)"])
    (use nocase_order [of "length x" "length y" "map byte_char x" "map byte_char y" for x y] in
      \<open>simp add: nocaseCollatingFunc_def sqlite3_strnicmp_def min_def\<close>)

section \<open>The order of values\<close>

definition value_ok :: "mem \<Rightarrow> bool" where
  "value_ok m \<longleftrightarrow> rhs_ok m \<and> (case m of MEM_Real r \<Rightarrow> \<not> IsNaN r | _ \<Rightarrow> True)"

fun value_class :: "mem \<Rightarrow> int" where
  "value_class (MEM_Null _) = 0"
| "value_class (MEM_Int _) = 1"
| "value_class (MEM_IntReal _) = 1"
| "value_class (MEM_Real _) = 1"
| "value_class (MEM_Str _) = 2"
| "value_class (MEM_Blob _ _) = 3"

fun num_value :: "mem \<Rightarrow> int" where
  "num_value (MEM_Int i) = sint i * 2 ^ 1074"
| "num_value (MEM_IntReal i) = sint i * 2 ^ 1074"
| "num_value (MEM_Real r) = double_value r"
| "num_value _ = 0"

definition big_unit :: int where "big_unit = 2 ^ 1074"

lemma big_unit: "0 < big_unit"
  by (simp add: big_unit_def)

lemma number_key:
  assumes "value_ok a" "value_ok b" "value_class a = 1" "value_class b = 1"
  shows "sgn (number_compare a b) = sgn (list_order [num_value a] [num_value b])"
proof -
  have u: "sint i * 2 ^ 1074 = sint i * big_unit" for i :: "64 word" by (simp add: big_unit_def)
  have less: "sint i < sint j \<longleftrightarrow> sint i * big_unit < sint j * big_unit" for i j :: "64 word" using big_unit by simp
  have gap: "\<not> x * big_unit < y * big_unit \<Longrightarrow> x \<noteq> y \<Longrightarrow> sgn (x * big_unit - y * big_unit) = 1" for x y
    using big_unit mult_less_cancel_right_pos [OF big_unit, of y x] mult_less_cancel_right_pos [OF big_unit, of x y] by (simp add: sgn_1_pos)
  show ?thesis
    using assms unfolding value_ok_def
    by (cases a; cases b)
      (simp_all only: num_value.simps number_compare_def mem_int.simps mem_real.simps option.case value_class.simps mem.case u
        int_compare_def real_compare_def double_less_def sqlite3IntFloatCompare_def less Let_def,
       simp_all add: gap)
qed

lemma zeros_word: "sgn (list_order (replicate m 0) (map uint (z :: byte list))) =
    (if \<forall>b\<in>set z. b = 0 then sgn (int m - int (length z)) else - 1)"
proof (induction z arbitrary: m)
  case Nil
  then show ?case by (cases m) simp_all
next
  case (Cons b z)
  show ?case
  proof (cases m)
    case 0
    then show ?thesis by simp
  next
    case (Suc k)
    have "0 \<noteq> b \<Longrightarrow> 0 < uint b" by (simp add: word_uint_eq_iff order_less_le)
    with Cons.IH [of k] Suc show ?thesis by (cases "b = 0") auto
  qed
qed

lemma zeros_length: "sgn (list_order (replicate m 0) (replicate n 0)) = sgn (int m - int n)"
  using zeros_word [of m "replicate n 0"] by simp

fun blob_key :: "mem \<Rightarrow> int list" where
  "blob_key (MEM_Blob z n) = map uint z @ replicate n 0"
| "blob_key m = map uint (mem_z m)"

lemma blob_compare_key:
  assumes "rhs_ok a" "rhs_ok b"
  shows "sgn (sqlite3BlobCompare a b) = sgn (list_order (blob_key a) (blob_key b))"
proof -
  have bin: "mem_nZero a = 0 \<Longrightarrow> mem_nZero b = 0 \<Longrightarrow> sqlite3BlobCompare a b = binCollFunc (mem_z a) (mem_z b)"
    by (simp add: sqlite3BlobCompare_def binCollFunc_def Let_def min_def not_less)
  have plain: "mem_nZero m = 0 \<Longrightarrow> blob_key m = map uint (mem_z m)" for m by (cases m) simp_all
  have zeros: "rhs_ok m \<Longrightarrow> mem_nZero m \<noteq> 0 \<Longrightarrow> blob_key m = replicate (mem_nZero m) 0" for m
    by (cases m) (simp_all add: rhs_ok_def)
  have all: "isAllZero z (length z) \<longleftrightarrow> (\<forall>b\<in>set z. b = 0)" for z by (simp add: isAllZero_def list_all_iff)
  consider "mem_nZero a = 0" "mem_nZero b = 0" | "mem_nZero a \<noteq> 0" "mem_nZero b \<noteq> 0" | "mem_nZero a \<noteq> 0" "mem_nZero b = 0"
    | "mem_nZero a = 0" "mem_nZero b \<noteq> 0" by blast
  then show ?thesis
  proof cases
    case 1
    then show ?thesis by (simp add: bin plain bin_key)
  next
    case 2
    then show ?thesis using assms by (simp add: sqlite3BlobCompare_def Let_def zeros zeros_length)
  next
    case 3
    then show ?thesis using assms by (simp add: sqlite3BlobCompare_def Let_def zeros plain zeros_word all)
  next
    case 4
    have "sgn (list_order (blob_key a) (blob_key b)) = - sgn (list_order (blob_key b) (blob_key a))" by (rule order_sym)
    then show ?thesis using 4 assms sgn_flip [of "int (length (mem_z a))" "int (mem_nZero b)"]
      by (simp add: sqlite3BlobCompare_def Let_def zeros plain zeros_word all)
  qed
qed

text \<open>Any collation that is an order gives one to the values.\<close>

lemma value_order:
  assumes coll: "\<And>c. pColl = Some c \<Longrightarrow> comparator (cs_xCmp c) (\<lambda>_. True)"
  shows "comparator (\<lambda>a b. sqlite3MemCompare enc a b pColl) value_ok"
proof (rule comparator_ranked [where rank = value_class])
  fix a b assume "value_ok a" "value_ok b" "value_class a \<noteq> value_class b"
  then show "sgn (sqlite3MemCompare enc a b pColl) = sgn (value_class a - value_class b)"
    by (cases a; cases b) (simp_all add: sqlite3MemCompare_def is_number_def number_compare_def)
next
  fix r :: int
  have blobs: "comparator sqlite3BlobCompare value_ok"
    by (rule comparator_key [where key = blob_key]) (simp add: blob_compare_key value_ok_def)
  have range: "value_class a \<in> {0, 1, 2, 3}" for a by (cases a) simp_all
  consider "r = 0" | "r = 1" | "r = 2" | "r = 3" | "r \<notin> {0, 1, 2, 3}" by blast
  then show "comparator (\<lambda>a b. sqlite3MemCompare enc a b pColl) (\<lambda>a. value_ok a \<and> value_class a = r)"
  proof cases
    case 1
    then show ?thesis
      by (intro comparator_key [where key = "\<lambda>_. []"], case_tac a; case_tac b) (simp_all add: sqlite3MemCompare_def)
  next
    case 2
    show ?thesis
    proof (rule comparator_key [where key = "\<lambda>m. [num_value m]"])
      fix a b assume ok: "value_ok a \<and> value_class a = r" "value_ok b \<and> value_class b = r"
      then have "sqlite3MemCompare enc a b pColl = number_compare a b"
        by (cases a; cases b) (simp_all add: sqlite3MemCompare_def is_number_def 2)
      with number_key [of a b] ok 2 show "sgn (sqlite3MemCompare enc a b pColl) = sgn (list_order [num_value a] [num_value b])" by simp
    qed
  next
    case 3
    have c: "sqlite3MemCompare enc a b pColl = (case pColl of Some coll \<Rightarrow> vdbeCompareMemString enc coll (mem_z a) (mem_z b)
        | None \<Rightarrow> sqlite3BlobCompare a b)" if "value_class a = r" "value_class b = r" for a b
      using that 3 by (cases a; cases b; cases pColl) (simp_all add: sqlite3MemCompare_def is_number_def)
    have "comparator (\<lambda>a b. case pColl of Some coll \<Rightarrow> vdbeCompareMemString enc coll (mem_z a) (mem_z b) | None \<Rightarrow> sqlite3BlobCompare a b) value_ok"
    proof (cases pColl)
      case None
      with blobs show ?thesis by simp
    next
      case (Some coll)
      note k = comparator.image [OF coll [OF Some]]
      show ?thesis
        using k [of mem_z] k [of "\<lambda>m. fst (sqlite3VdbeMemTranslate enc (cs_enc coll) (mem_z m))"]
        by (cases "enc = cs_enc coll") (auto simp: Some vdbeCompareMemString_def intro: comparator.restrict)
    qed
    then have "comparator (\<lambda>a b. case pColl of Some coll \<Rightarrow> vdbeCompareMemString enc coll (mem_z a) (mem_z b) | None \<Rightarrow> sqlite3BlobCompare a b)
        (\<lambda>a. value_ok a \<and> value_class a = r)" by (rule comparator.restrict) simp
    then show ?thesis by (rule comparator.same) (simp add: c)
  next
    case 4
    have c: "sqlite3MemCompare enc a b pColl = sqlite3BlobCompare a b" if "value_class a = r" "value_class b = r" for a b
      using that 4 by (cases a; cases b) (simp_all add: sqlite3MemCompare_def is_number_def)
    have "comparator sqlite3BlobCompare (\<lambda>a. value_ok a \<and> value_class a = r)" by (rule comparator.restrict [OF blobs]) simp
    then show ?thesis by (rule comparator.same) (simp add: c)
  next
    case 5
    then show ?thesis using range by (intro comparator_key [where key = "\<lambda>_. []"]) auto
  qed
qed

section \<open>The order of an index\<close>

definition key_order :: "KeyInfo \<Rightarrow> nat \<Rightarrow> mem list \<Rightarrow> mem list \<Rightarrow> int" where
  "key_order ki i ls rs = (case key_compare ki i ls rs of Some rc \<Rightarrow> rc | None \<Rightarrow> 0)"

definition builtin_collation :: "CollSeq option \<Rightarrow> bool" where
  "builtin_collation pColl \<longleftrightarrow> (case pColl of None \<Rightarrow> True | Some c \<Rightarrow> cs_xCmp c \<in> {binCollFunc, rtrimCollFunc, nocaseCollatingFunc})"

definition field_compare :: "KeyInfo \<Rightarrow> nat \<Rightarrow> mem \<Rightarrow> mem \<Rightarrow> int" where
  "field_compare ki i l r =
     field_order (ki_aSortFlags ki ! i) (is_null l \<or> is_null r) (sqlite3MemCompare (ki_enc ki) l r (ki_aColl ki ! i))"

lemma key_order_simps:
  "key_order ki i [] rs = 0" "key_order ki i ls [] = 0"
  "key_order ki i (l # ls) (r # rs) =
    (if field_compare ki i l r = 0 then key_order ki (Suc i) ls rs else field_compare ki i l r)"
  by (auto simp: key_order_def field_compare_def field_order_def Let_def neq_Nil_conv split: option.split list.split)

lemma builtin_order: "builtin_collation pColl \<Longrightarrow> comparator (\<lambda>a b. sqlite3MemCompare enc a b pColl) value_ok"
  by (rule value_order)
    (auto simp: builtin_collation_def intro: BINARY.comparator_axioms RTRIM.comparator_axioms NOCASE.comparator_axioms)

lemma field_comparator:
  assumes "builtin_collation (ki_aColl ki ! i)"
  shows "comparator (field_compare ki i) value_ok"
proof -
  note v = builtin_order [OF assms, of "ki_enc ki"]
  let ?big = "ki_aSortFlags ki ! i AND KEYINFO_ORDER_BIGNULL \<noteq> 0"
  let ?cmp = "\<lambda>l r. sqlite3MemCompare (ki_enc ki) l r (ki_aColl ki ! i)"
  let ?nulls = "\<lambda>l r. if ?big \<and> (is_null l \<or> is_null r) then - ?cmp l r else ?cmp l r"
  have n: "comparator ?nulls value_ok"
  proof (rule comparator_ranked [where rank = "\<lambda>m. if is_null m then if ?big then 1 else - 1 else 0"])
    fix a b
    assume d: "(if is_null a then if ?big then 1 else - 1 else (0 :: int)) \<noteq> (if is_null b then if ?big then 1 else - 1 else 0)"
    then have "is_null a \<noteq> is_null b" by (cases "is_null a"; cases "is_null b") simp_all
    then show "sgn (?nulls a b) = sgn ((if is_null a then if ?big then 1 else - 1 else 0) - (if is_null b then if ?big then 1 else - 1 else 0 :: int))"
      by (auto simp: sqlite3MemCompare_def)
  next
    fix r :: int
    let ?ok = "\<lambda>a. value_ok a \<and> (if is_null a then if ?big then 1 else - 1 else 0) = r"
    have "comparator ?cmp ?ok" by (rule comparator.restrict [OF v]) simp
    then show "comparator ?nulls ?ok"
      by (rule comparator.same) (auto simp: sqlite3MemCompare_def split: if_splits)
  qed
  have f: "field_compare ki i = (if ki_aSortFlags ki ! i AND KEYINFO_ORDER_DESC \<noteq> 0 then \<lambda>l r. - ?nulls l r else ?nulls)"
    by (intro ext) (simp add: field_compare_def field_order_def Let_def)
  show ?thesis unfolding f using n comparator.reversed [OF n] by (simp only: split: if_split) blast
qed

lemma key_comparator:
  assumes "\<And>j. i \<le> j \<Longrightarrow> j < i + n \<Longrightarrow> builtin_collation (ki_aColl ki ! j)"
  shows "comparator (key_order ki i) (\<lambda>ls. length ls = n \<and> (\<forall>m\<in>set ls. value_ok m))"
  using assms
proof (induction n arbitrary: i)
  case 0
  then show ?case by unfold_locales (simp_all add: key_order_simps)
next
  case (Suc n)
  have "builtin_collation (ki_aColl ki ! i)" using Suc.prems [of i] by simp
  then have field: "comparator (field_compare ki i) value_ok" by (rule field_comparator)
  have rest: "comparator (key_order ki (Suc i)) (\<lambda>ls. length ls = n \<and> (\<forall>m\<in>set ls. value_ok m))"
    by (rule Suc.IH) (use Suc.prems in simp)
  note fsym = comparator.flip [OF field] and ftrans = comparator.trans [OF field]
    and feq = comparator.equal_left [OF field] comparator.equal_right [OF field]
  show ?case
  proof
    fix a b c :: "mem list"
    assume ok: "length a = Suc n \<and> (\<forall>m\<in>set a. value_ok m)" "length b = Suc n \<and> (\<forall>m\<in>set b. value_ok m)"
    then obtain x xs y ys where ab: "a = x # xs" "b = y # ys" by (cases a; cases b) auto
    show "sgn (key_order ki i b a) = - sgn (key_order ki i a b)"
    proof (cases "field_compare ki i x y = 0")
      case True
      then have "field_compare ki i y x = 0" using fsym(3) [of x y] ok ab by simp
      with True show ?thesis unfolding ab key_order_simps using comparator.sym [OF rest, of xs ys] ok ab by simp
    next
      case False
      then have "field_compare ki i y x \<noteq> 0" using fsym(3) [of x y] ok ab by simp
      with False show ?thesis unfolding ab key_order_simps using comparator.sym [OF field, of x y] ok ab by simp
    qed
    assume k: "length c = Suc n \<and> (\<forall>m\<in>set c. value_ok m)" "key_order ki i a b \<le> 0" "key_order ki i b c \<le> 0"
    then obtain z zs where c: "c = z # zs" by (cases c) auto
    have v: "value_ok x" "value_ok y" "value_ok z" using ok k(1) ab c by simp_all
    have le: "field_compare ki i x y \<le> 0" "field_compare ki i y z \<le> 0"
      using k(2,3) unfolding ab c key_order_simps by (auto split: if_splits)
    then have xz: "field_compare ki i x z \<le> 0" using ftrans [OF v] by blast
    show "key_order ki i a c \<le> 0"
    proof (cases "field_compare ki i x z = 0")
      case False
      with xz show ?thesis unfolding ab c key_order_simps by simp
    next
      case True
      have zx: "field_compare ki i z x = 0" using True fsym(3) [of x z] v by simp
      have "field_compare ki i z y \<le> 0" using ftrans [of z x y] v zx le(1) by simp
      then have yz: "field_compare ki i y z = 0" using le(2) fsym(4) [of y z] v by simp
      have "field_compare ki i y x \<le> 0" using ftrans [of y z x] v zx le(2) by simp
      then have xy: "field_compare ki i x y = 0" using le(1) fsym(4) [of x y] v by simp
      from k(2,3) xy yz have "key_order ki (Suc i) xs ys \<le> 0" "key_order ki (Suc i) ys zs \<le> 0" unfolding ab c key_order_simps by simp_all
      then have "key_order ki (Suc i) xs zs \<le> 0" using comparator.trans [OF rest, of xs ys zs] ok k(1) ab c by simp
      with True show ?thesis unfolding ab c key_order_simps by simp
    qed
  qed
qed

section \<open>Properties\<close>

text \<open>
  C12: the order of an index is an order. Over values that are numbers where they are real, and any keys of the same length whose fields have
  a built-in collation or none and any sort order, comparing backwards gives the opposite sign, and whatever is
  not after a key that is not after a third one is not after the third one either.
\<close>

theorem index_order_total:
  assumes "\<forall>c\<in>set (ki_aColl ki). builtin_collation c" and "n \<le> length (ki_aColl ki)"
    and "\<forall>k\<in>{a, b, c}. length k = n \<and> (\<forall>m\<in>set k. value_ok m)"
  shows "sgn (key_order ki 0 b a) = - sgn (key_order ki 0 a b) \<and> key_order ki 0 a a = 0 \<and>
    (key_order ki 0 a b \<le> 0 \<and> key_order ki 0 b c \<le> 0 \<longrightarrow> key_order ki 0 a c \<le> 0)"
proof -
  have "\<And>j. 0 \<le> j \<Longrightarrow> j < 0 + n \<Longrightarrow> builtin_collation (ki_aColl ki ! j)" using assms(1,2) by simp
  note o = key_comparator [OF this]
  show ?thesis
    using comparator.sym [OF o, where a = a and b = b] comparator.refl [OF o, where a = a] comparator.trans [OF o, where a = a and b = b and c = c] assms(3) by simp
qed

theorem index_order_total_witness:
  "let ki = \<lparr>ki_enc = SQLITE_UTF8, ki_nAllField = 2, ki_aSortFlags = [1, 2], ki_aColl = [None, Some \<lparr>cs_enc = SQLITE_UTF8, cs_xCmp = nocaseCollatingFunc\<rparr>]\<rparr> in
   sgn (key_order ki 0 [MEM_Int 1, MEM_Null False] [MEM_Int 1, MEM_Str [66]]) = - sgn (key_order ki 0 [MEM_Int 1, MEM_Str [66]] [MEM_Int 1, MEM_Null False]) \<and>
   key_order ki 0 [MEM_Int 1, MEM_Str [66]] [MEM_Int 1, MEM_Str [66]] = 0"
proof -
  let ?ki = "\<lparr>ki_enc = SQLITE_UTF8, ki_nAllField = 2, ki_aSortFlags = [1, 2], ki_aColl = [None, Some \<lparr>cs_enc = SQLITE_UTF8, cs_xCmp = nocaseCollatingFunc\<rparr>]\<rparr>"
  show ?thesis
    unfolding Let_def
    using index_order_total [where ki = ?ki and n = 2 and a = "[MEM_Int 1, MEM_Str [66]]" and b = "[MEM_Int 1, MEM_Null False]"
        and c = "[MEM_Int 1, MEM_Null False]"]
    by (simp add: builtin_collation_def value_ok_def rhs_ok_def)
qed

end
