(* ===== verification/Ys_Memjournal.thy ===== *)
theory Ys_Memjournal
  imports Ys_Memdb
begin

text \<open>
  The rollback journal in memory (memjournal.c): a list of chunks of one size that is only appended to and cut, and that moves to a
  real file once it is larger than a limit. The chunks the list \<^verbatim>\<open>pFirst\<close> links are a list of HOL; a pointer to a chunk is its place
  in that list, \<open>None\<close> a null pointer. Offsets and sizes are not negative.
\<close>

section \<open>The journal in memory\<close>

record MemJournal =
  mj_nChunkSize :: nat
  mj_nSpill :: int
  mj_chunks :: "byte list list"
  mj_end_offset :: nat
  mj_end_chunk :: "nat option"
  mj_read_offset :: nat
  mj_read_chunk :: "nat option"
  mj_flags :: "32 word"
  mj_zJournal :: "string option"

text \<open>The chunk that holds an offset.\<close>

fun find_chunk :: "nat \<Rightarrow> nat \<Rightarrow> byte list list \<Rightarrow> nat \<Rightarrow> nat \<Rightarrow> nat option" where
  "find_chunk n iOfst [] iOff k = None"
| "find_chunk n iOfst (c # cs) iOff k = (if iOff + n \<le> iOfst then find_chunk n iOfst cs (iOff + n) (Suc k) else Some k)"

text \<open>Copying from chunk \<open>k\<close>, the first of the list; the result is what was copied and where the next read goes on.\<close>

fun copy_loop :: "nat \<Rightarrow> byte list list \<Rightarrow> nat \<Rightarrow> nat \<Rightarrow> int \<Rightarrow> byte list \<Rightarrow> byte list \<times> nat option" where
  "copy_loop n [] k iChunkOffset nRead zOut = (zOut, None)"
| "copy_loop n (c # cs) k iChunkOffset nRead zOut =
     (let iSpace = n - iChunkOffset;
          nCopy = min (nat nRead) iSpace;
          zOut = zOut @ take nCopy (drop iChunkOffset c);
          nRead = nRead - int iSpace
      in if nRead \<ge> 0 then
           if cs = [] then (zOut, None)
           else if nRead > 0 then copy_loop n cs (Suc k) 0 nRead zOut
           else (zOut, Some (Suc k))
         else (zOut, Some k))"

text \<open>The buffer has the \<open>iAmt\<close> bytes asked for. \<open>None\<close> is a null or dangling chunk.\<close>

definition memjrnlRead :: "MemJournal \<Rightarrow> byte list \<Rightarrow> nat \<Rightarrow> (int \<times> byte list \<times> MemJournal) option" where
  "memjrnlRead p zBuf iOfst =
     (let iAmt = length zBuf; n = mj_nChunkSize p in
      if iAmt + iOfst > mj_end_offset p then Some (SQLITE_IOERR_SHORT_READ, zBuf, p)
      else
        let pChunk =
          (if mj_read_offset p \<noteq> iOfst \<or> iOfst = 0 then find_chunk n iOfst (mj_chunks p) 0 0 else mj_read_chunk p)
        in case pChunk of
             None \<Rightarrow> None
           | Some k \<Rightarrow>
               if \<not> k < length (mj_chunks p) then None
               else
                 let (zOut, pChunk) = copy_loop n (drop k (mj_chunks p)) k (iOfst mod n) (int iAmt) []
                 in Some (SQLITE_OK, zOut @ drop (length zOut) zBuf,
                      p\<lparr>mj_read_offset := (if pChunk \<noteq> None then iOfst + iAmt else 0), mj_read_chunk := pChunk\<rparr>))"

text \<open>
  Appending. \<open>alloc k\<close> is the memory the \<open>k\<close>-th request gets, with what is in it, or \<open>None\<close>; the number of requests made so far goes along.
\<close>

definition append_chunk :: "byte list \<Rightarrow> MemJournal \<Rightarrow> MemJournal" where
  "append_chunk c p =
     (case mj_end_chunk p of
        None \<Rightarrow> p\<lparr>mj_chunks := [c], mj_end_chunk := Some 0\<rparr>
      | Some e \<Rightarrow> p\<lparr>mj_chunks := take (Suc e) (mj_chunks p) @ [c], mj_end_chunk := Some (Suc e)\<rparr>)"

definition fill_chunk :: "nat \<Rightarrow> byte list \<Rightarrow> MemJournal \<Rightarrow> MemJournal option" where
  "fill_chunk iChunkOffset bs p =
     (case mj_end_chunk p of
        None \<Rightarrow> None
      | Some e \<Rightarrow>
          if e < length (mj_chunks p) then
            Some (p\<lparr>mj_chunks := (mj_chunks p)[e := overwrite (mj_chunks p ! e) iChunkOffset bs],
                    mj_end_offset := mj_end_offset p + length bs\<rparr>)
          else None)"

function journal_loop :: "(nat \<Rightarrow> byte list option) \<Rightarrow> nat \<Rightarrow> byte list \<Rightarrow> MemJournal \<Rightarrow> (int \<times> nat \<times> MemJournal) option" where
  "journal_loop alloc t zWrite p =
     (if zWrite = [] then Some (SQLITE_OK, t, p)
      else if mj_nChunkSize p = 0 then None
      else
        let iChunkOffset = mj_end_offset p mod mj_nChunkSize p;
            iSpace = min (length zWrite) (mj_nChunkSize p - iChunkOffset)
        in if iChunkOffset = 0 then
             case alloc t of
               None \<Rightarrow> Some (SQLITE_IOERR_NOMEM, Suc t, p)
             | Some c \<Rightarrow>
                 case fill_chunk iChunkOffset (take iSpace zWrite) (append_chunk c p) of
                   None \<Rightarrow> None
                 | Some p \<Rightarrow> journal_loop alloc (Suc t) (drop iSpace zWrite) p
           else
             case fill_chunk iChunkOffset (take iSpace zWrite) p of
               None \<Rightarrow> None
             | Some p \<Rightarrow> journal_loop alloc t (drop iSpace zWrite) p)"
  by pat_completeness auto

termination journal_loop
  by (relation "measure (\<lambda>(alloc, t, z, p). length z)") auto

declare journal_loop.simps [simp del]

text \<open>Cutting: the chunk that stays the last one.\<close>

fun cut_loop :: "nat \<Rightarrow> nat \<Rightarrow> byte list list \<Rightarrow> nat \<Rightarrow> nat \<Rightarrow> nat option" where
  "cut_loop n sz [] iOff k = None"
| "cut_loop n sz (c # cs) iOff k = (if iOff \<le> sz then cut_loop n sz cs (iOff + n) (Suc k) else Some k)"

definition memjrnlTruncate :: "nat \<Rightarrow> MemJournal \<Rightarrow> MemJournal" where
  "memjrnlTruncate sz p =
     (if sz < mj_end_offset p then
        let pIter = (if sz = 0 then None else cut_loop (mj_nChunkSize p) sz (mj_chunks p) (mj_nChunkSize p) 0)
        in p\<lparr>mj_chunks := (if sz = 0 then [] else case pIter of None \<Rightarrow> mj_chunks p | Some k \<Rightarrow> take (Suc k) (mj_chunks p)),
             mj_end_chunk := pIter, mj_end_offset := sz, mj_read_chunk := None, mj_read_offset := 0\<rparr>
      else p)"

section \<open>The real file\<close>

text \<open>
  A handle is a journal in memory or the real file it has moved to. A closed one has neither. \<open>M\<close> are the methods of the real file and
  \<open>os_open\<close> is what opening the file with a name and flags gives: a code, and the file unless its method table was left null.
\<close>

datatype 'f jfile = Memory MemJournal | Real 'f | Closed

type_synonym 'f os_open = "string option \<Rightarrow> 32 word \<Rightarrow> int \<times> 'f option"

fun flush_loop :: "'f io_methods \<Rightarrow> nat \<Rightarrow> byte list list \<Rightarrow> nat \<Rightarrow> nat \<Rightarrow> 'f \<Rightarrow> (fault + int) \<times> 'f" where
  "flush_loop M endOffset [] nChunk iOff f = (Inr SQLITE_OK, f)"
| "flush_loop M endOffset (c # cs) nChunk iOff f =
     (let nChunk = (if iOff + nChunk > endOffset then endOffset - iOff else nChunk) in
      case xWrite M (take nChunk c) (int nChunk) (of_nat iOff) f of
        (Inr rc, f) \<Rightarrow> if rc \<noteq> SQLITE_OK then (Inr rc, f) else flush_loop M endOffset cs nChunk (iOff + nChunk) f
      | (Inl e, f) \<Rightarrow> (Inl e, f))"

definition close_real :: "'f io_methods \<Rightarrow> 'f option \<Rightarrow> fault + int" where
  "close_real M f = (case f of None \<Rightarrow> Inr SQLITE_OK | Some f \<Rightarrow> fst (xClose M f))"

definition memjrnlCreateFile :: "'f io_methods \<Rightarrow> 'f os_open \<Rightarrow> MemJournal \<Rightarrow> (fault + int) \<times> 'f jfile" where
  "memjrnlCreateFile M os_open p =
     (let (rc, pReal) = os_open (mj_zJournal p) (mj_flags p) in
      if rc = SQLITE_OK then
        case pReal of
          None \<Rightarrow> (Inl Undefined, Memory p)
        | Some f \<Rightarrow>
            (case flush_loop M (mj_end_offset p) (mj_chunks p) (mj_nChunkSize p) 0 f of
               (Inl e, f) \<Rightarrow> (Inl e, Real f)
             | (Inr rc, f) \<Rightarrow>
                 if rc = SQLITE_OK then (Inr SQLITE_OK, Real f)
                 else (case close_real M (Some f) of Inl e \<Rightarrow> (Inl e, Memory p) | Inr _ \<Rightarrow> (Inr rc, Memory p)))
      else (case close_real M pReal of Inl e \<Rightarrow> (Inl e, Memory p) | Inr _ \<Rightarrow> (Inr rc, Memory p)))"

section \<open>The methods\<close>

text \<open>A handle with the number of requests for memory made so far.\<close>

type_synonym 'f jhandle = "'f jfile \<times> nat"

definition memjrnlWrite ::
    "'f io_methods \<Rightarrow> 'f os_open \<Rightarrow> (nat \<Rightarrow> byte list option) \<Rightarrow> byte list \<Rightarrow> nat \<Rightarrow> MemJournal \<Rightarrow> nat \<Rightarrow> (fault + int) \<times> 'f jhandle" where
  "memjrnlWrite M os_open alloc zBuf iOfst p t =
     (if mj_nSpill p > 0 \<and> int (length zBuf + iOfst) > mj_nSpill p then
        case memjrnlCreateFile M os_open p of
          (Inr rc, h) \<Rightarrow>
            if rc = SQLITE_OK then
              case h of
                Real f \<Rightarrow> (case xWrite M zBuf (int (length zBuf)) (of_nat iOfst) f of (r, f) \<Rightarrow> (r, Real f, t))
              | _ \<Rightarrow> (Inl Undefined, h, t)
            else (Inr rc, h, t)
        | (Inl e, h) \<Rightarrow> (Inl e, h, t)
      else
        case journal_loop alloc t zBuf p of
          None \<Rightarrow> (Inl Undefined, Memory p, t)
        | Some (rc, t, p) \<Rightarrow> (Inr rc, Memory p, t))"

definition on_real :: "('f, fault, int) action \<Rightarrow> 'f \<Rightarrow> nat \<Rightarrow> (fault + int) \<times> 'f jhandle" where
  "on_real m f t = (case m f of (r, f) \<Rightarrow> (r, Real f, t))"

definition journal_read ::
    "'f io_methods \<Rightarrow> int \<Rightarrow> int64 \<Rightarrow> (byte list \<times> 'f jhandle, fault, int) action" where
  "journal_read M iAmt iOfst = (\<lambda>(zBuf, h, t).
     case h of
       Memory p \<Rightarrow>
         (case memjrnlRead p (take (nat iAmt) zBuf) (unat iOfst) of
            None \<Rightarrow> (Inl Undefined, zBuf, h, t)
          | Some (rc, bs, p) \<Rightarrow> (Inr rc, bs @ drop (nat iAmt) zBuf, Memory p, t))
     | Real f \<Rightarrow> (case xRead M iAmt iOfst (zBuf, f) of (r, zBuf, f) \<Rightarrow> (r, zBuf, Real f, t))
     | Closed \<Rightarrow> (Inl Undefined, zBuf, h, t))"

definition journal_methods :: "'f io_methods \<Rightarrow> 'f os_open \<Rightarrow> (nat \<Rightarrow> byte list option) \<Rightarrow> 'f jhandle io_methods" where
  "journal_methods M os_open alloc =
     \<lparr>iVersion = 1,
      xClose = (\<lambda>(h, t). case h of Memory p \<Rightarrow> (Inr SQLITE_OK, Closed, t) | Real f \<Rightarrow> on_real (xClose M) f t | Closed \<Rightarrow> (Inl Undefined, h, t)),
      xRead = journal_read M,
      xWrite = (\<lambda>zBuf iAmt iOfst (h, t). case h of
         Memory p \<Rightarrow> memjrnlWrite M os_open alloc (take (nat iAmt) zBuf) (unat iOfst) p t
       | Real f \<Rightarrow> on_real (xWrite M zBuf iAmt iOfst) f t
       | Closed \<Rightarrow> (Inl Undefined, h, t)),
      xTruncate = (\<lambda>sz (h, t). case h of
         Memory p \<Rightarrow> (Inr SQLITE_OK, Memory (memjrnlTruncate (unat sz) p), t)
       | Real f \<Rightarrow> on_real (xTruncate M sz) f t
       | Closed \<Rightarrow> (Inl Undefined, h, t)),
      xSync = (\<lambda>flags (h, t). case h of
         Memory p \<Rightarrow> (Inr SQLITE_OK, h, t) | Real f \<Rightarrow> on_real (xSync M flags) f t | Closed \<Rightarrow> (Inl Undefined, h, t)),
      xFileSize = (\<lambda>(pSize, h, t). case h of
         Memory p \<Rightarrow> (Inr SQLITE_OK, of_nat (mj_end_offset p), h, t)
       | Real f \<Rightarrow> (case xFileSize M (pSize, f) of (r, pSize, f) \<Rightarrow> (r, pSize, Real f, t))
       | Closed \<Rightarrow> (Inl Undefined, pSize, h, t)),
      xLock = None, xUnlock = None, xCheckReservedLock = None, xFileControl = None, xSectorSize = None, xDeviceCharacteristics = None,
      xShmMap = None, xShmLock = None, xShmBarrier = None, xShmUnmap = None, xFetch = None, xUnfetch = None\<rparr>"

definition MEMJOURNAL_DFLT_FILECHUNKSIZE :: nat where "MEMJOURNAL_DFLT_FILECHUNKSIZE = 1024"

text \<open>\<^verbatim>\<open>sizeof(FileChunk)\<close> is 16 with pointers of 8 bytes.\<close>

definition sizeof_FileChunk :: nat where "sizeof_FileChunk = 16"

definition sqlite3JournalOpen :: "'f os_open \<Rightarrow> string option \<Rightarrow> 32 word \<Rightarrow> int \<Rightarrow> (fault + int) \<times> 'f jfile" where
  "sqlite3JournalOpen os_open zName flags nSpill =
     (if nSpill = 0 then (case os_open zName flags of (rc, f) \<Rightarrow> (Inr rc, case f of None \<Rightarrow> Closed | Some f \<Rightarrow> Real f))
      else (Inr SQLITE_OK, Memory
        \<lparr>mj_nChunkSize = (if nSpill > 0 then nat nSpill else 8 + MEMJOURNAL_DFLT_FILECHUNKSIZE - sizeof_FileChunk),
         mj_nSpill = nSpill, mj_chunks = [], mj_end_offset = 0, mj_end_chunk = None, mj_read_offset = 0, mj_read_chunk = None,
         mj_flags = flags, mj_zJournal = zName\<rparr>))"

definition sqlite3MemJournalOpen :: "'f os_open \<Rightarrow> 'f jfile" where
  "sqlite3MemJournalOpen os_open = snd (sqlite3JournalOpen os_open None 0 (- 1))"

definition sqlite3JournalIsInMemory :: "'f jfile \<Rightarrow> bool" where
  "sqlite3JournalIsInMemory h = (case h of Memory _ \<Rightarrow> True | _ \<Rightarrow> False)"

definition sqlite3JournalSize :: "int \<Rightarrow> int \<Rightarrow> int" where
  "sqlite3JournalSize szOsFile sizeof_MemJournal = max szOsFile sizeof_MemJournal"

section \<open>What the chunks hold\<close>

definition mj_content :: "MemJournal \<Rightarrow> byte list" where
  "mj_content p = take (mj_end_offset p) (concat (mj_chunks p))"

definition read_ok :: "MemJournal \<Rightarrow> bool" where
  "read_ok p \<longleftrightarrow> mj_read_offset p = 0 \<or>
     (\<exists>k. mj_read_chunk p = Some k \<and> k < length (mj_chunks p) \<and> k = mj_read_offset p div mj_nChunkSize p)"

definition mj_readable :: "MemJournal \<Rightarrow> bool" where
  "mj_readable p \<longleftrightarrow> 0 < mj_nChunkSize p \<and> (\<forall>c\<in>set (mj_chunks p). length c = mj_nChunkSize p) \<and>
     mj_end_offset p \<le> length (mj_chunks p) * mj_nChunkSize p \<and> read_ok p"

text \<open>No chunk more than the bytes need, and the last one known.\<close>

definition mj_ok :: "MemJournal \<Rightarrow> bool" where
  "mj_ok p \<longleftrightarrow> mj_readable p \<and> length (mj_chunks p) * mj_nChunkSize p < mj_end_offset p + mj_nChunkSize p \<and>
     mj_end_chunk p = (if mj_chunks p = [] then None else Some (length (mj_chunks p) - 1))"

lemma concat_length: "\<forall>c\<in>set cs. length c = n \<Longrightarrow> length (concat cs) = length cs * n"
  by (induction cs) simp_all

lemma concat_drop: "\<forall>c\<in>set cs. length c = n \<Longrightarrow> drop (k * n) (concat cs) = concat (drop k cs)"
proof (induction cs arbitrary: k)
  case (Cons c cs)
  then show ?case by (cases k) simp_all
qed simp

lemma content_length: "mj_readable p \<Longrightarrow> length (mj_content p) = mj_end_offset p"
  by (auto simp: mj_content_def mj_readable_def concat_length [of _ "mj_nChunkSize p"] min_def)

section \<open>Reading\<close>

lemma find_chunk_place:
  "0 < n \<Longrightarrow> iOff \<le> iOfst \<Longrightarrow> iOfst < iOff + length cs * n \<Longrightarrow> find_chunk n iOfst cs iOff k = Some (k + (iOfst - iOff) div n)"
proof (induction cs arbitrary: iOff k)
  case (Cons c cs)
  show ?case
  proof (cases "iOff + n \<le> iOfst")
    case True
    then have "(iOfst - iOff) div n = Suc ((iOfst - (iOff + n)) div n)" using Cons.prems(1) by (simp add: le_div_geq)
    then show ?thesis using True Cons by (simp add: algebra_simps)
  next
    case False
    then show ?thesis using Cons.prems by simp
  qed
qed simp

lemma copy_loop_bytes:
  assumes "\<forall>c\<in>set cs. length c = n" and "off < n" and "0 < r" and "off + r \<le> length cs * n"
  shows "\<exists>q. copy_loop n cs k off (int r) out = (out @ take r (drop off (concat cs)), q) \<and>
     (\<forall>j. q = Some j \<longrightarrow> j < k + length cs \<and> j = k + (off + r) div n)"
  using assms
proof (induction cs arbitrary: k off r out)
  case (Cons c cs)
  let ?s = "n - off"
  have c: "length c = n" using Cons.prems(1) by simp
  show ?case
  proof (cases "r < ?s")
    case True
    then have "take r (drop off (c @ concat cs)) = take r (drop off c)" "(off + r) div n = 0" using c by simp_all
    then show ?thesis using True by (simp add: Let_def)
  next
    case False
    have t: "take r (drop off (c @ concat cs)) = drop off c @ take (r - ?s) (concat cs)" using c False Cons.prems(2) by simp
    have d: "take (min r ?s) (drop off c) = drop off c" using c False by simp
    have "off + r = n + (r - ?s)" using False Cons.prems(2) by simp
    then have dv: "(off + r) div n = Suc ((r - ?s) div n)" using Cons.prems(2) by (simp only: div_add_self1)
    show ?thesis
    proof (cases "cs = []")
      case True
      then have "r = ?s" using False Cons.prems by simp
      then show ?thesis using True t d by (simp add: Let_def)
    next
      case ne: False
      show ?thesis
      proof (cases "r = ?s")
        case True
        then show ?thesis using ne t d dv by (simp add: Let_def)
      next
        case gt: False
        have "\<forall>c\<in>set cs. length c = n" "0 < n" "0 < r - ?s" "0 + (r - ?s) \<le> length cs * n" using Cons.prems gt False by auto
        from Cons.IH [OF this, of "Suc k" "out @ drop off c"] obtain q where
          q: "copy_loop n cs (Suc k) 0 (int (r - ?s)) (out @ drop off c) = ((out @ drop off c) @ take (r - ?s) (concat cs), q)"
            "\<forall>j. q = Some j \<longrightarrow> j < Suc k + length cs \<and> j = Suc k + (r - ?s) div n"
          by auto
        moreover have "int r - int ?s = int (r - ?s)" using False by simp
        moreover have "(k + (off + r) div n) = Suc k + (r - ?s) div n" using dv by simp
        moreover have "copy_loop n (c # cs) k off (int r) out = copy_loop n cs (Suc k) 0 (int (r - ?s)) (out @ drop off c)"
        proof -
          have "nat (int r) = r" "0 \<le> int r - int ?s" "0 < int r - int ?s" using gt False by simp_all
          then show ?thesis using ne d \<open>int r - int ?s = int (r - ?s)\<close> unfolding copy_loop.simps(2) Let_def by (simp only: if_True if_False simp_thms)
        qed
        moreover have "take r (drop off (concat (c # cs))) = drop off c @ take (r - ?s) (concat cs)" using t by simp
        ultimately have "copy_loop n (c # cs) k off (int r) out = (out @ take r (drop off (concat (c # cs))), q)"
          using q(1) by (simp only: append_assoc)
        moreover have "\<forall>j. q = Some j \<longrightarrow> j < k + length (c # cs) \<and> j = k + (off + r) div n"
          using q(2) \<open>(k + (off + r) div n) = Suc k + (r - ?s) div n\<close> by (metis add_Suc_shift length_Cons)
        ultimately show ?thesis by blast
      qed
    qed
  qed
qed simp

lemma memjrnlRead_inside:
  assumes "mj_readable p" and "buf \<noteq> []" and "off + length buf \<le> mj_end_offset p"
  shows "\<exists>o' q. memjrnlRead p buf off =
     Some (SQLITE_OK, take (length buf) (drop off (mj_content p)), p\<lparr>mj_read_offset := o', mj_read_chunk := q\<rparr>) \<and>
     read_ok (p\<lparr>mj_read_offset := o', mj_read_chunk := q\<rparr>)"
proof -
  let ?n = "mj_nChunkSize p" and ?cs = "mj_chunks p"
  have p: "0 < ?n" "\<forall>c\<in>set ?cs. length c = ?n" "mj_end_offset p \<le> length ?cs * ?n" "read_ok p"
    using assms(1) by (simp_all add: mj_readable_def)
  have lt: "off < length ?cs * ?n" using assms(2,3) p(3) by (cases buf) simp_all
  define k where "k = off div ?n"
  have k: "k < length ?cs" using lt p(1) by (simp add: k_def div_less_iff_less_mult)
  have src: "(if mj_read_offset p \<noteq> off \<or> off = 0 then find_chunk ?n off ?cs 0 0 else mj_read_chunk p) = Some k"
    using find_chunk_place [OF p(1), of 0 off ?cs 0] lt p(4) by (auto simp: k_def read_ok_def)
  have off: "off = k * ?n + off mod ?n" by (simp add: k_def)
  have rest: "off mod ?n + length buf \<le> length (drop k ?cs) * ?n"
    using assms(3) p(3) off k by (simp add: diff_mult_distrib)
  have dc: "\<forall>c\<in>set (drop k ?cs). length c = ?n" using p(2) by (meson in_set_dropD)
  have pos: "0 < length buf" using assms(2) by simp
  obtain q where
    q: "copy_loop ?n (drop k ?cs) k (off mod ?n) (int (length buf)) [] = (take (length buf) (drop (off mod ?n) (concat (drop k ?cs))), q)"
      "\<forall>j. q = Some j \<longrightarrow> j < k + length (drop k ?cs) \<and> j = k + (off mod ?n + length buf) div ?n"
    using copy_loop_bytes [OF dc mod_less_divisor [OF p(1)] pos rest, of k "[]"] by auto
  have "drop (off mod ?n) (concat (drop k ?cs)) = drop off (concat ?cs)"
    using concat_drop [OF p(2), of k] off by (metis add.commute drop_drop)
  then have bytes: "take (length buf) (drop (off mod ?n) (concat (drop k ?cs))) = take (length buf) (drop off (mj_content p))"
    using assms(3) by (simp add: mj_content_def drop_take min_def)
  have len: "length (take (length buf) (drop off (mj_content p))) = length buf"
    using assms(3) content_length [OF assms(1)] by simp
  have dv: "k + (off mod ?n + length buf) div ?n = (off + length buf) div ?n"
    using off p(1) by (metis add.assoc div_mult_self3 less_numeral_extra(3))
  show ?thesis
    using q assms(3) src k dv len
    by (intro exI [of _ "if q \<noteq> None then off + length buf else 0"] exI [of _ q])
      (auto simp: memjrnlRead_def Let_def bytes read_ok_def add.commute)
qed

lemma memjrnlRead_short:
  "mj_end_offset p < off + length buf \<Longrightarrow> memjrnlRead p buf off = Some (SQLITE_IOERR_SHORT_READ, buf, p)"
  by (simp add: memjrnlRead_def add.commute)

section \<open>Appending\<close>

lemma fill_last:
  assumes "mj_chunks p = cs @ [c]" and "mj_end_chunk p = Some (length cs)" and "length (concat cs) + off = mj_end_offset p"
    and "off + length bs \<le> length c"
  shows "fill_chunk off bs p = Some (p\<lparr>mj_chunks := cs @ [overwrite c off bs], mj_end_offset := mj_end_offset p + length bs\<rparr>) \<and>
     take (mj_end_offset p + length bs) (concat (cs @ [overwrite c off bs])) = mj_content p @ bs"
  using assms by (simp add: fill_chunk_def mj_content_def overwrite_def assms(3) [symmetric])

definition same_setup :: "MemJournal \<Rightarrow> MemJournal \<Rightarrow> bool" where
  "same_setup p p' \<longleftrightarrow> mj_nChunkSize p' = mj_nChunkSize p \<and> mj_nSpill p' = mj_nSpill p \<and> mj_flags p' = mj_flags p \<and> mj_zJournal p' = mj_zJournal p"

lemma multiple_less: "(0::nat) < n \<Longrightarrow> e \<le> k * n \<Longrightarrow> k * n < e + n \<Longrightarrow> (if e mod n = 0 then k * n = e else k * n = e + (n - e mod n))"
proof -
  assume n: "0 < n" and a: "e \<le> k * n" "k * n < e + n"
  define q r where "q = e div n" and "r = e mod n"
  have e: "e = q * n + r" "r < n" using n by (simp_all add: q_def r_def)
  show ?thesis
  proof (cases "r = 0")
    case True
    then have "q * n \<le> k * n" "k * n < (q + 1) * n" using a e by simp_all
    then have "q \<le> k" "k < q + 1" using n by (simp, simp only: mult_less_cancel2)
    then have "k = q" by simp
    moreover have "e mod n = 0" using True by (simp add: r_def)
    moreover have "q * n = e" using True e by simp
    ultimately show ?thesis by simp
  next
    case False
    then have "q * n < q * n + r" by simp
    then have "q * n < k * n" using a(1) e(1) by linarith
    moreover have "k * n < (q + 2) * n" using a(2) e by (simp add: algebra_simps)
    ultimately have "q * n < k * n" "k * n < (q + 2) * n" .
    then have "q < k" "k < q + 2" using n by (simp_all only: mult_less_cancel2)
    then have "k = q + 1" by simp
    moreover have "e mod n = r" by (simp add: r_def)
    moreover have "(q + 1) * n = e + (n - r)" using e by simp
    ultimately show ?thesis using False by simp
  qed
qed

lemma ok_chunks:
  assumes "mj_ok p"
  shows "length (concat (mj_chunks p)) = length (mj_chunks p) * mj_nChunkSize p"
    and "mj_end_offset p mod mj_nChunkSize p = 0 \<Longrightarrow> length (mj_chunks p) * mj_nChunkSize p = mj_end_offset p"
    and "mj_end_offset p mod mj_nChunkSize p \<noteq> 0 \<Longrightarrow>
      length (mj_chunks p) * mj_nChunkSize p = mj_end_offset p + (mj_nChunkSize p - mj_end_offset p mod mj_nChunkSize p)"
proof -
  have n: "0 < mj_nChunkSize p" using assms by (simp add: mj_ok_def mj_readable_def)
  have a: "mj_end_offset p \<le> length (mj_chunks p) * mj_nChunkSize p" "length (mj_chunks p) * mj_nChunkSize p < mj_end_offset p + mj_nChunkSize p"
    using assms by (simp_all add: mj_ok_def mj_readable_def)
  show "length (concat (mj_chunks p)) = length (mj_chunks p) * mj_nChunkSize p"
    using assms by (intro concat_length) (simp add: mj_ok_def mj_readable_def)
  from multiple_less [OF n a]
  show "mj_end_offset p mod mj_nChunkSize p = 0 \<Longrightarrow> length (mj_chunks p) * mj_nChunkSize p = mj_end_offset p"
    and "mj_end_offset p mod mj_nChunkSize p \<noteq> 0 \<Longrightarrow>
      length (mj_chunks p) * mj_nChunkSize p = mj_end_offset p + (mj_nChunkSize p - mj_end_offset p mod mj_nChunkSize p)"
    by (simp_all split: if_splits)
qed

lemma fill_step:
  assumes "mj_chunks p = cs @ [c]" and "mj_end_chunk p = Some (length cs)" and "\<forall>c\<in>set (mj_chunks p). length c = mj_nChunkSize p"
    and "length (concat cs) + off = mj_end_offset p" and "bs \<noteq> []" and "off + length bs \<le> mj_nChunkSize p" and "read_ok p"
  shows "\<exists>p'. fill_chunk off bs p = Some p' \<and> mj_ok p' \<and> same_setup p p' \<and> mj_content p' = mj_content p @ bs"
proof -
  let ?n = "mj_nChunkSize p"
  let ?p = "p\<lparr>mj_chunks := cs @ [overwrite c off bs], mj_end_offset := mj_end_offset p + length bs\<rparr>"
  have c: "length c = ?n" "\<forall>c\<in>set cs. length c = ?n" using assms(1,3) by simp_all
  have f: "fill_chunk off bs p = Some ?p" "mj_content ?p = mj_content p @ bs"
    using fill_last [OF assms(1,2,4), of bs] assms(6) c(1) by (simp_all add: mj_content_def)
  have l: "length (concat cs) = length cs * ?n" using concat_length [OF c(2)] .
  have b: "0 < length bs" "0 < ?n" using assms(5,6) by (cases bs; simp)+
  have "read_ok ?p" using assms(1,7) by (auto simp: read_ok_def)
  then have "mj_readable ?p" using c assms(4,6) l b by (auto simp: mj_readable_def)
  moreover have "length (cs @ [overwrite c off bs]) * ?n < mj_end_offset p + length bs + ?n"
    using assms(4) l b unfolding length_append length_Cons list.size(3) by (simp del: length_greater_0_conv)
  ultimately have "mj_ok ?p" using assms(2) by (simp add: mj_ok_def)
  with f show ?thesis by (simp add: same_setup_def)
qed

lemma write_loop_appends:
  assumes "mj_ok p" and "\<forall>k c. alloc k = Some c \<longrightarrow> length c = mj_nChunkSize p"
  shows "\<exists>rc t' p'. journal_loop alloc t z p = Some (rc, t', p') \<and> mj_ok p' \<and> same_setup p p' \<and>
     (rc = SQLITE_OK \<and> mj_content p' = mj_content p @ z \<or>
      rc = SQLITE_IOERR_NOMEM \<and> (\<exists>j. mj_content p' = mj_content p @ take j z) \<and> (\<exists>k. alloc k = None))"
  using assms
proof (induction alloc t z p rule: journal_loop.induct)
  case (1 alloc t z p)
  let ?n = "mj_nChunkSize p"
  define off where "off = mj_end_offset p mod ?n"
  define s where "s = min (length z) (?n - off)"
  have n: "0 < ?n" using "1.prems"(1) by (simp add: mj_ok_def mj_readable_def)
  have off: "off < ?n" using n by (simp add: off_def)
  have cs: "\<forall>c\<in>set (mj_chunks p). length c = ?n" "read_ok p" using "1.prems"(1) by (simp_all add: mj_ok_def mj_readable_def)
  show ?case
  proof (cases "z = []")
    case True
    then show ?thesis using "1.prems"
      by (intro exI [of _ SQLITE_OK] exI [of _ t] exI [of _ p]) (simp add: same_setup_def journal_loop.simps)
  next
    case z: False
    have bs: "take s z \<noteq> []" "off + length (take s z) \<le> ?n" using z off by (auto simp: s_def min_def)
    have rest: "\<exists>rc t' q'. journal_loop alloc u (drop s z) q = Some (rc, t', q') \<and> mj_ok q' \<and> same_setup p q' \<and>
        (rc = SQLITE_OK \<and> mj_content q' = mj_content p @ z \<or>
         rc = SQLITE_IOERR_NOMEM \<and> (\<exists>j. mj_content q' = mj_content p @ take j z) \<and> (\<exists>k. alloc k = None))"
      if IH: "\<exists>rc t' q'. journal_loop alloc u (drop s z) q = Some (rc, t', q') \<and> mj_ok q' \<and> same_setup q q' \<and>
        (rc = SQLITE_OK \<and> mj_content q' = mj_content q @ drop s z \<or>
         rc = SQLITE_IOERR_NOMEM \<and> (\<exists>j. mj_content q' = mj_content q @ take j (drop s z)) \<and> (\<exists>k. alloc k = None))"
      and q: "same_setup p q" "mj_content q = mj_content p @ take s z" for u q
    proof -
      have "take s z @ take j (drop s z) = take (s + j) z" for j by (simp add: take_add)
      then show ?thesis using IH q by (fastforce simp: same_setup_def)
    qed
    show ?thesis
    proof (cases "off = 0")
      case o: True
      show ?thesis
      proof (cases "alloc t")
        case None
        then show ?thesis using z n o "1.prems"(1)
          by (intro exI [of _ SQLITE_IOERR_NOMEM] exI [of _ "Suc t"] exI [of _ p])
            (auto simp: off_def same_setup_def Let_def journal_loop.simps [of alloc t z] intro: exI [of _ "0 :: nat"])
      next
        case (Some c)
        define P where "P = append_chunk c p"
        have full: "length (concat (mj_chunks p)) = mj_end_offset p" using ok_chunks(1,2) [OF "1.prems"(1)] o by (simp add: off_def)
        have P: "mj_chunks P = mj_chunks p @ [c]" "mj_end_chunk P = Some (length (mj_chunks p))" "same_setup p P"
            "mj_end_offset P = mj_end_offset p" "mj_read_offset P = mj_read_offset p" "mj_read_chunk P = mj_read_chunk p"
          using "1.prems"(1) by (auto simp: P_def append_chunk_def mj_ok_def same_setup_def split: if_splits)
        have P': "mj_nChunkSize P = ?n" using P(3) by (simp add: same_setup_def)
        have c: "\<forall>c\<in>set (mj_chunks P). length c = mj_nChunkSize P" using P(1) P' cs(1) "1.prems"(2) Some by auto
        have "read_ok P" using cs(2) P P' by (auto simp: read_ok_def)
        from fill_step [OF P(1,2) c _ bs(1) _ this, of 0] full P(4) P' bs(2) o obtain q where
          q: "fill_chunk 0 (take s z) P = Some q" "mj_ok q" "same_setup P q" "mj_content q = mj_content P @ take s z"
          by auto
        have cp: "mj_content P = mj_content p" using P(1,4) full by (simp add: mj_content_def)
        have pq: "same_setup p q" using P(3) q(3) by (simp add: same_setup_def)
        then have al: "\<forall>k c. alloc k = Some c \<longrightarrow> length c = mj_nChunkSize q" using "1.prems"(2) by (simp add: same_setup_def)
        have step: "journal_loop alloc t z p = journal_loop alloc (Suc t) (drop s z) q"
          using z n o Some q(1) by (subst journal_loop.simps) (simp add: Let_def off_def s_def P_def)
        have "\<exists>rc t' q'. journal_loop alloc (Suc t) (drop s z) q = Some (rc, t', q') \<and> mj_ok q' \<and> same_setup q q' \<and>
            (rc = SQLITE_OK \<and> mj_content q' = mj_content q @ drop s z \<or>
             rc = SQLITE_IOERR_NOMEM \<and> (\<exists>j. mj_content q' = mj_content q @ take j (drop s z)) \<and> (\<exists>k. alloc k = None))"
          using z n o Some q al off_def s_def P_def by (intro "1.IH"(1) [OF _ _ off_def s_def]) auto
        from rest [OF this pq] q(4) cp step show ?thesis by simp
      qed
    next
      case o: False
      have "length (mj_chunks p) * ?n = mj_end_offset p + (?n - off)" using ok_chunks(3) [OF "1.prems"(1)] o by (simp add: off_def)
      moreover from this have ne: "mj_chunks p \<noteq> []" using off by auto
      then obtain ds c where d: "mj_chunks p = ds @ [c]" by (metis append_butlast_last_id)
      ultimately have len: "length (concat ds) + off = mj_end_offset p" using concat_length [of ds ?n] cs(1) off by simp
      have e: "mj_end_chunk p = Some (length ds)" using "1.prems"(1) d by (simp add: mj_ok_def)
      from fill_step [OF d e cs(1) len bs cs(2)] obtain q where
        q: "fill_chunk off (take s z) p = Some q" "mj_ok q" "same_setup p q" "mj_content q = mj_content p @ take s z" by blast
      have al: "\<forall>k c. alloc k = Some c \<longrightarrow> length c = mj_nChunkSize q" using "1.prems"(2) q(3) by (simp add: same_setup_def)
      have step: "journal_loop alloc t z p = journal_loop alloc t (drop s z) q"
        using z n o q(1) by (subst journal_loop.simps) (simp add: Let_def off_def s_def)
      have "\<exists>rc t' q'. journal_loop alloc t (drop s z) q = Some (rc, t', q') \<and> mj_ok q' \<and> same_setup q q' \<and>
          (rc = SQLITE_OK \<and> mj_content q' = mj_content q @ drop s z \<or>
           rc = SQLITE_IOERR_NOMEM \<and> (\<exists>j. mj_content q' = mj_content q @ take j (drop s z)) \<and> (\<exists>k. alloc k = None))"
        using z n o q al by (intro "1.IH"(2) [OF _ _ off_def s_def]) auto
      from rest [OF this q(3,4)] step show ?thesis by simp
    qed
  qed
qed

section \<open>Cutting\<close>

lemma cut_is_find: "cut_loop n sz cs (iOff + n) k = find_chunk n sz cs iOff k"
  by (induction cs arbitrary: iOff k) simp_all

lemma concat_take: "\<forall>c\<in>set cs. length c = n \<Longrightarrow> concat (take k cs) = take (k * n) (concat cs)"
proof (induction cs arbitrary: k)
  case (Cons c cs)
  then show ?case by (cases k) simp_all
qed simp

lemma truncate_at:
  assumes "mj_readable p" and "0 < sz" and "sz < mj_end_offset p"
  shows "memjrnlTruncate sz p = p\<lparr>mj_chunks := take (Suc (sz div mj_nChunkSize p)) (mj_chunks p), mj_end_chunk := Some (sz div mj_nChunkSize p),
      mj_end_offset := sz, mj_read_chunk := None, mj_read_offset := 0\<rparr>"
    and "sz div mj_nChunkSize p < length (mj_chunks p)"
    and "mj_readable (memjrnlTruncate sz p)" and "mj_content (memjrnlTruncate sz p) = take sz (mj_content p)"
proof -
  let ?n = "mj_nChunkSize p" and ?cs = "mj_chunks p"
  have p: "0 < ?n" "\<forall>c\<in>set ?cs. length c = ?n" "mj_end_offset p \<le> length ?cs * ?n" using assms(1) by (simp_all add: mj_readable_def)
  have k: "sz div ?n < length ?cs" using p assms(3) by (simp add: div_less_iff_less_mult)
  have "cut_loop ?n sz ?cs (0 + ?n) 0 = Some (sz div ?n)" unfolding cut_is_find using find_chunk_place [of ?n 0 sz ?cs 0] p assms(3) by simp
  then show t: "memjrnlTruncate sz p = p\<lparr>mj_chunks := take (Suc (sz div ?n)) ?cs, mj_end_chunk := Some (sz div ?n),
      mj_end_offset := sz, mj_read_chunk := None, mj_read_offset := 0\<rparr>"
    using assms by (simp add: memjrnlTruncate_def)
  show "sz div ?n < length ?cs" by (rule k)
  have le: "sz \<le> Suc (sz div ?n) * ?n" using p(1) by (metis dividend_less_times_div less_imp_le mult.commute mult_Suc_right)
  moreover have "min (length ?cs) (Suc (sz div ?n)) = Suc (sz div ?n)" using k by simp
  ultimately show "mj_readable (memjrnlTruncate sz p)" using p unfolding t
    by (auto simp: mj_readable_def read_ok_def dest: in_set_takeD)
  show "mj_content (memjrnlTruncate sz p) = take sz (mj_content p)" unfolding t
    using concat_take [OF p(2), of "Suc (sz div ?n)"] le assms(3) by (simp add: mj_content_def min_def)
qed

lemma truncate_ok:
  assumes "mj_ok p" and "sz < mj_end_offset p \<Longrightarrow> sz = 0 \<or> sz mod mj_nChunkSize p \<noteq> 0"
  shows "mj_ok (memjrnlTruncate sz p) \<and> mj_content (memjrnlTruncate sz p) = take sz (mj_content p)"
proof -
  have r: "mj_readable p" "0 < mj_nChunkSize p" using assms(1) by (simp_all add: mj_ok_def mj_readable_def)
  consider "mj_end_offset p \<le> sz" | "sz < mj_end_offset p" "sz = 0" | "sz < mj_end_offset p" "0 < sz" "sz mod mj_nChunkSize p \<noteq> 0"
    using assms(2) by linarith
  then show ?thesis
  proof cases
    case 1
    then show ?thesis using assms(1) content_length [OF r(1)] by (simp add: memjrnlTruncate_def)
  next
    case 2
    then show ?thesis using assms(1) r(2) by (simp add: memjrnlTruncate_def mj_ok_def mj_readable_def read_ok_def mj_content_def)
  next
    case 3
    let ?n = "mj_nChunkSize p"
    note t = truncate_at [OF r(1) 3(2,1)]
    have "sz div ?n * ?n < sz" using 3(3) by (metis div_mult_mod_eq gr0I less_add_same_cancel1)
    then have "Suc (sz div ?n) * ?n < sz + ?n" by simp
    moreover have "mj_chunks p \<noteq> []" using t(2) by auto
    moreover have "min (length (mj_chunks p)) (Suc (sz div ?n)) = Suc (sz div ?n)" using t(2) by simp
    ultimately have "mj_ok (memjrnlTruncate sz p)" using t(3) unfolding mj_ok_def by (simp add: t(1))
    then show ?thesis using t(4) by simp
  qed
qed

section \<open>What a journal is for\<close>

text \<open>
  The contract of a journal, weaker than that of a file: bytes are appended at the end and read back from inside. A write that fails
  may leave a part of its bytes behind.
\<close>

locale append_store =
  fixes M :: "'f io_methods"
    and content :: "'f \<Rightarrow> byte list"
    and opened :: "'f \<Rightarrow> bool"
  assumes read_back:
    "opened f \<Longrightarrow> buf \<noteq> [] \<Longrightarrow> length buf < 2 ^ 31 \<Longrightarrow> off + length buf \<le> length (content f) \<Longrightarrow>
     \<exists>f'. xRead M (int (length buf)) (of_nat off) (buf, f) = (Inr SQLITE_OK, take (length buf) (drop off (content f)), f') \<and>
       opened f' \<and> content f' = content f"
  and append_end:
    "opened f \<Longrightarrow> length bs < 2 ^ 31 \<Longrightarrow> length (content f) + length bs < 2 ^ 62 \<Longrightarrow>
     \<exists>rc f'. xWrite M bs (int (length bs)) (of_nat (length (content f))) f = (Inr rc, f') \<and> opened f' \<and>
       (\<exists>j. content f' = content f @ take j bs) \<and> (rc = SQLITE_OK \<longrightarrow> content f' = content f @ bs)"

text \<open>The pager writes records one behind the other and plays them back.\<close>

fun write_records :: "'f io_methods \<Rightarrow> byte list list \<Rightarrow> nat \<Rightarrow> 'f \<Rightarrow> (fault + int) \<times> 'f" where
  "write_records M [] off f = (Inr SQLITE_OK, f)"
| "write_records M (r # rs) off f =
     (case xWrite M r (int (length r)) (of_nat off) f of
        (Inr rc, f) \<Rightarrow> if rc = SQLITE_OK then write_records M rs (off + length r) f else (Inr rc, f)
      | (Inl e, f) \<Rightarrow> (Inl e, f))"

fun play_back :: "'f io_methods \<Rightarrow> nat list \<Rightarrow> nat \<Rightarrow> 'f \<Rightarrow> (fault + byte list list) \<times> 'f" where
  "play_back M [] off f = (Inr [], f)"
| "play_back M (n # ns) off f =
     (case xRead M (int n) (of_nat off) (replicate n 0, f) of
        (Inr rc, bs, f) \<Rightarrow>
          if rc = SQLITE_OK then (case play_back M ns (off + n) f of (Inr rs, f) \<Rightarrow> (Inr (bs # rs), f) | r \<Rightarrow> r)
          else (Inr [], f)
      | (Inl e, bs, f) \<Rightarrow> (Inl e, f))"

context append_store
begin

lemma records_written:
  "opened f \<Longrightarrow> \<forall>r\<in>set rs. length r < 2 ^ 31 \<Longrightarrow> length (content f) + length (concat rs) < 2 ^ 62 \<Longrightarrow>
   \<exists>rc f'. write_records M rs (length (content f)) f = (Inr rc, f') \<and> opened f' \<and> (rc = SQLITE_OK \<longrightarrow> content f' = content f @ concat rs)"
proof (induction rs arbitrary: f)
  case (Cons r rs)
  then have r: "length r < 2 ^ 31" "length (content f) + length r < 2 ^ 62" by simp_all
  obtain rc g where g: "xWrite M r (int (length r)) (of_nat (length (content f))) f = (Inr rc, g)" "opened g"
      "rc = SQLITE_OK \<longrightarrow> content g = content f @ r" using append_end [OF Cons.prems(1) r] by blast
  show ?case
  proof (cases "rc = SQLITE_OK")
    case True
    then have c: "content g = content f @ r" using g(3) by simp
    from Cons.IH [OF g(2)] Cons.prems c obtain rc' f' where
      "write_records M rs (length (content g)) g = (Inr rc', f')" "opened f'" "rc' = SQLITE_OK \<longrightarrow> content f' = content g @ concat rs" by auto
    then show ?thesis using g(1) c True by simp
  qed (use g in simp)
qed simp

lemma records_played_back:
  "opened f \<Longrightarrow> \<forall>r\<in>set rs. r \<noteq> [] \<and> length r < 2 ^ 31 \<Longrightarrow> content f = pre @ concat rs @ post \<Longrightarrow>
   \<exists>f'. play_back M (List.map length rs) (length pre) f = (Inr rs, f') \<and> opened f' \<and> content f' = content f"
proof (induction rs arbitrary: f pre)
  case (Cons r rs)
  have r: "replicate (length r) (0 :: byte) \<noteq> []" "length (replicate (length r) (0 :: byte)) < 2 ^ 31"
    "length pre + length (replicate (length r) (0 :: byte)) \<le> length (content f)" using Cons.prems(2,3) by auto
  from read_back [OF Cons.prems(1) r] obtain g where
    g: "xRead M (int (length r)) (of_nat (length pre)) (replicate (length r) 0, f) = (Inr SQLITE_OK, r, g)" "opened g" "content g = content f"
    using Cons.prems(3) by auto
  have "\<forall>r\<in>set rs. r \<noteq> [] \<and> length r < 2 ^ 31" using Cons.prems(2) by simp
  from Cons.IH [OF g(2) this, of "pre @ r"] g(3) Cons.prems(3) obtain f' where
    "play_back M (List.map length rs) (length (pre @ r)) g = (Inr rs, f')" "opened f'" "content f' = content f" by auto
  then show ?case using g(1) by simp
qed simp

end

text \<open>A file is more than a journal.\<close>

sublocale byte_store \<subseteq> appends: append_store M content opened
proof (unfold_locales, goal_cases)
  case (1 f buf off)
  then show ?case using read_inside [of f buf off] by simp
next
  case (2 f bs)
  then have "length (content f) < 2 ^ 62" by simp
  with write_ok [of f bs "length (content f)"] 2 obtain rc f' where
    w: "xWrite M bs (int (length bs)) (of_nat (length (content f))) f = (Inr rc, f')" "opened f'"
      "content f' = (if rc = SQLITE_OK then write_at (content f) (length (content f)) bs else content f)" by blast
  have "content f' = content f @ take (if rc = SQLITE_OK then length bs else 0) bs" using w(3) by (simp add: write_at_def)
  then have "\<exists>j. content f' = content f @ take j bs" by blast
  then show ?case using w by (auto simp: write_at_def)
qed

section \<open>A journal is one\<close>

text \<open>What the journal relies on: the real file is a file, a new one is empty, closing works, and memory comes in the size asked for.\<close>

locale spilling_store = byte_store M content opened
  for M :: "'f io_methods" and content :: "'f \<Rightarrow> byte list" and opened :: "'f \<Rightarrow> bool" +
  fixes os_open :: "'f os_open" and alloc :: "nat \<Rightarrow> byte list option" and chunk :: nat
  assumes open_empty: "os_open z fl = (SQLITE_OK, g) \<Longrightarrow> \<exists>f. g = Some f \<and> opened f \<and> content f = []"
    and open_failed: "os_open z fl = (rc, Some f) \<Longrightarrow> rc \<noteq> SQLITE_OK \<Longrightarrow> \<exists>rc'. fst (xClose M f) = Inr rc'"
    and close_ok: "opened f \<Longrightarrow> \<exists>rc. fst (xClose M f) = Inr rc"
    and alloc_size: "alloc k = Some c \<Longrightarrow> length c = chunk"

definition journal_content :: "('f \<Rightarrow> byte list) \<Rightarrow> 'f jhandle \<Rightarrow> byte list" where
  "journal_content content h = (case fst h of Memory p \<Rightarrow> mj_content p | Real f \<Rightarrow> content f | Closed \<Rightarrow> [])"

definition journal_opened :: "('f \<Rightarrow> bool) \<Rightarrow> nat \<Rightarrow> 'f jhandle \<Rightarrow> bool" where
  "journal_opened opened chunk h =
     (case fst h of
        Memory p \<Rightarrow> mj_ok p \<and> mj_nChunkSize p = chunk \<and> chunk < 2 ^ 31 \<and> mj_end_offset p < 2 ^ 62
      | Real f \<Rightarrow> opened f
      | Closed \<Rightarrow> False)"

context spilling_store
begin

lemma flush_writes:
  "opened f \<Longrightarrow> \<forall>c\<in>set cs. length c = n \<Longrightarrow> n < 2 ^ 31 \<Longrightarrow> e < 2 ^ 62 \<Longrightarrow> length (content f) \<le> e \<Longrightarrow>
   e \<le> length (content f) + length cs * n \<Longrightarrow> length (content f) + length cs * n < e + n \<or> cs = [] \<Longrightarrow>
   \<exists>rc f'. flush_loop M e cs n (length (content f)) f = (Inr rc, f') \<and> opened f' \<and>
     (rc = SQLITE_OK \<longrightarrow> content f' = content f @ take (e - length (content f)) (concat cs))"
proof (induction cs arbitrary: f)
  case (Cons c cs)
  let ?l = "length (content f)"
  define m where "m = (if ?l + n > e then e - ?l else n)"
  have m: "m \<le> n" "?l + m \<le> e" using Cons.prems(5) by (auto simp: m_def)
  have c: "length (take m c) = m" using Cons.prems(2) m(1) by simp
  have "length (take m c) < 2 ^ 31" "?l < 2 ^ 62" using m c Cons.prems(3,4) by simp_all
  from write_ok [OF Cons.prems(1) this] obtain rc g where
    g: "xWrite M (take m c) (int m) (of_nat ?l) f = (Inr rc, g)" "opened g"
      "content g = (if rc = SQLITE_OK then write_at (content f) ?l (take m c) else content f)" using c by auto
  have step: "flush_loop M e (c # cs) n ?l f = (if rc \<noteq> SQLITE_OK then (Inr rc, g) else flush_loop M e cs m (?l + m) g)"
    using g(1) by (simp add: Let_def m_def)
  show ?case
  proof (cases "rc = SQLITE_OK")
    case True
    then have cg: "content g = content f @ take m c" using g(3) c by (simp add: write_at_def)
    then have lg: "length (content g) = ?l + m" using c by simp
    show ?thesis
    proof (cases "?l + n > e")
      case last: True
      have "?l + Suc (length cs) * n < e + n" using Cons.prems(7) by simp
      then have "length cs * n < n" using last unfolding mult_Suc by linarith
      then have "cs = []" by (cases cs) auto
      then show ?thesis using step True g(2) cg last Cons.prems(2) by (auto simp: m_def)
    next
      case False
      then have mn: "m = n" by (simp add: m_def)
      have "\<exists>rc f'. flush_loop M e cs n (length (content g)) g = (Inr rc, f') \<and> opened f' \<and>
          (rc = SQLITE_OK \<longrightarrow> content f' = content g @ take (e - length (content g)) (concat cs))"
        using Cons.prems lg mn False by (intro Cons.IH [OF g(2)]) auto
      moreover have "content f @ take (e - ?l) (concat (c # cs)) = content g @ take (e - length (content g)) (concat cs)"
        using cg lg mn False Cons.prems(2) by simp
      ultimately show ?thesis using step True lg mn by simp
    qed
  qed (use step g in simp)
qed simp

lemma create_file:
  assumes "mj_ok p" and "mj_nChunkSize p < 2 ^ 31" and "mj_end_offset p < 2 ^ 62"
  shows "\<exists>rc h. memjrnlCreateFile M os_open p = (Inr rc, h) \<and>
     (if rc = SQLITE_OK then \<exists>f. h = Real f \<and> opened f \<and> content f = mj_content p else h = Memory p)"
proof -
  obtain rc g where o: "os_open (mj_zJournal p) (mj_flags p) = (rc, g)" by fastforce
  show ?thesis
  proof (cases "rc = SQLITE_OK")
    case True
    then obtain f where f: "g = Some f" "opened f" "content f = []" using open_empty o by blast
    have "\<forall>c\<in>set (mj_chunks p). length c = mj_nChunkSize p" "mj_end_offset p \<le> length (mj_chunks p) * mj_nChunkSize p"
      "length (mj_chunks p) * mj_nChunkSize p < mj_end_offset p + mj_nChunkSize p" using assms(1) by (simp_all add: mj_ok_def mj_readable_def)
    with flush_writes [OF f(2), of "mj_chunks p" "mj_nChunkSize p" "mj_end_offset p"] assms(2,3) f(3) obtain rc' f' where
      w: "flush_loop M (mj_end_offset p) (mj_chunks p) (mj_nChunkSize p) 0 f = (Inr rc', f')" "opened f'"
        "rc' = SQLITE_OK \<longrightarrow> content f' = mj_content p" by (auto simp: mj_content_def)
    then show ?thesis using o True f(1) close_ok [OF w(2)] by (auto simp: memjrnlCreateFile_def close_real_def)
  next
    case False
    then show ?thesis using o open_failed [of _ _ rc] by (cases g) (fastforce simp: memjrnlCreateFile_def close_real_def)+
  qed
qed

lemma journal_read_back:
  assumes "journal_opened opened chunk h" and "buf \<noteq> []" and "length buf < 2 ^ 31" and "off + length buf \<le> length (journal_content content h)"
  shows "\<exists>h'. xRead (journal_methods M os_open alloc) (int (length buf)) (of_nat off) (buf, h) =
       (Inr SQLITE_OK, take (length buf) (drop off (journal_content content h)), h') \<and>
     journal_opened opened chunk h' \<and> journal_content content h' = journal_content content h"
proof -
  obtain k t where h: "h = (k, t)" by fastforce
  show ?thesis
  proof (cases k)
    case (Memory p)
    then have p: "mj_ok p" "mj_readable p" "mj_end_offset p < 2 ^ 62" using assms(1) h by (auto simp: journal_opened_def mj_ok_def)
    have b: "off + length buf \<le> mj_end_offset p" using assms(4) content_length [OF p(2)] by (simp add: h Memory journal_content_def)
    then have u: "unat (of_nat off :: int64) = off" using p(3) by (simp add: unat_of_nat)
    from memjrnlRead_inside [OF p(2) assms(2) b] obtain o' q where
      "memjrnlRead p buf off = Some (SQLITE_OK, take (length buf) (drop off (mj_content p)), p\<lparr>mj_read_offset := o', mj_read_chunk := q\<rparr>)"
      "read_ok (p\<lparr>mj_read_offset := o', mj_read_chunk := q\<rparr>)" by blast
    then show ?thesis using u h Memory p assms(1)
      by (auto simp: journal_methods_def journal_read_def journal_content_def journal_opened_def mj_content_def mj_ok_def mj_readable_def)
  next
    case (Real f)
    then show ?thesis using assms h read_inside [of f buf off] by (simp add: journal_methods_def journal_read_def journal_content_def journal_opened_def)
  qed (use assms h in \<open>simp add: journal_opened_def\<close>)
qed

lemma journal_append_end:
  assumes "journal_opened opened chunk h" and "length bs < 2 ^ 31" and "length (journal_content content h) + length bs < 2 ^ 62"
  shows "\<exists>rc h'. xWrite (journal_methods M os_open alloc) bs (int (length bs)) (of_nat (length (journal_content content h))) h = (Inr rc, h') \<and>
     journal_opened opened chunk h' \<and> (\<exists>j. journal_content content h' = journal_content content h @ take j bs) \<and>
     (rc = SQLITE_OK \<longrightarrow> journal_content content h' = journal_content content h @ bs)"
proof -
  obtain k t where h: "h = (k, t)" by fastforce
  show ?thesis
  proof (cases k)
    case (Real f)
    then show ?thesis using assms h appends.append_end [of f bs]
      by (auto simp: journal_methods_def on_real_def journal_content_def journal_opened_def split: prod.splits)
  next
    case (Memory p)
    then have p: "mj_ok p" "mj_readable p" "mj_end_offset p < 2 ^ 62" "mj_nChunkSize p = chunk" "chunk < 2 ^ 31"
      using assms(1) h by (auto simp: journal_opened_def mj_ok_def)
    have l: "length (mj_content p) = mj_end_offset p" by (rule content_length [OF p(2)])
    have c: "journal_content content h = mj_content p" by (simp add: h Memory journal_content_def)
    have u: "unat (of_nat (mj_end_offset p) :: int64) = mj_end_offset p" using p(3) by (simp add: unat_of_nat)
    have w: "xWrite (journal_methods M os_open alloc) bs (int (length bs)) (of_nat (length (journal_content content h))) h =
        memjrnlWrite M os_open alloc bs (mj_end_offset p) p t"
      unfolding c l using u by (simp add: h Memory journal_methods_def)
    show ?thesis
    proof (cases "mj_nSpill p > 0 \<and> int (length bs + mj_end_offset p) > mj_nSpill p")
      case True
      from create_file [OF p(1) _ p(3)] p(4,5) obtain rc k' where
        cf: "memjrnlCreateFile M os_open p = (Inr rc, k')"
          "if rc = SQLITE_OK then \<exists>f. k' = Real f \<and> opened f \<and> content f = mj_content p else k' = Memory p" by auto
      show ?thesis
      proof (cases "rc = SQLITE_OK")
        case ok: True
        then obtain f where f: "k' = Real f" "opened f" "content f = mj_content p" using cf(2) by auto
        obtain rc' f' j where a: "xWrite M bs (int (length bs)) (of_nat (length (content f))) f = (Inr rc', f')" "opened f'"
            "content f' = content f @ take j bs" "rc' = SQLITE_OK \<longrightarrow> content f' = content f @ bs"
          using appends.append_end [OF f(2) assms(2)] assms(3) c f(3) by metis
        have "memjrnlWrite M os_open alloc bs (mj_end_offset p) p t = (Inr rc', Real f', t)"
          using True cf(1) ok f a(1) l by (simp add: memjrnlWrite_def)
        then show ?thesis unfolding w using a f(3) c by (auto simp: journal_opened_def journal_content_def)
      next
        case False
        then have "memjrnlWrite M os_open alloc bs (mj_end_offset p) p t = (Inr rc, Memory p, t)" using True cf by (simp add: memjrnlWrite_def)
        then show ?thesis unfolding w using assms(1) False c by (auto simp: h Memory journal_opened_def journal_content_def intro: exI [of _ "0 :: nat"])
      qed
    next
      case False
      have "\<forall>k c. alloc k = Some c \<longrightarrow> length c = mj_nChunkSize p" using alloc_size p(4) by simp
      from write_loop_appends [OF p(1) this, of t bs] obtain rc t' p' where
        wl: "journal_loop alloc t bs p = Some (rc, t', p')" "mj_ok p'" "same_setup p p'"
          "rc = SQLITE_OK \<and> mj_content p' = mj_content p @ bs \<or>
           rc = SQLITE_IOERR_NOMEM \<and> (\<exists>j. mj_content p' = mj_content p @ take j bs) \<and> (\<exists>k. alloc k = None)" by blast
      obtain j where j: "mj_content p' = mj_content p @ take j bs" using wl(4) by (metis take_all_iff order_refl)
      have "mj_end_offset p' < 2 ^ 62" using content_length [of p'] wl(2) j assms(3) c l by (simp add: mj_ok_def)
      then have "journal_opened opened chunk (Memory p', t')" using wl(2,3) p(4,5) by (simp add: journal_opened_def same_setup_def)
      moreover have "memjrnlWrite M os_open alloc bs (mj_end_offset p) p t = (Inr rc, Memory p', t')"
        unfolding memjrnlWrite_def if_not_P [OF False] wl(1) by simp
      moreover have "rc = SQLITE_OK \<longrightarrow> mj_content p' = mj_content p @ bs" using wl(4) by (auto simp: io_code_defs SQLITE_OK_def extended_def)
      ultimately show ?thesis unfolding w using j c by (auto simp: journal_content_def)
    qed
  qed (use assms h in \<open>simp add: journal_opened_def\<close>)
qed

end

sublocale spilling_store \<subseteq> journal: append_store "journal_methods M os_open alloc" "journal_content content" "journal_opened opened chunk"
  by unfold_locales (use journal_read_back journal_append_end in blast)+

section \<open>Without a limit and with memory no append fails\<close>

definition unlimited :: "'f jhandle \<Rightarrow> bool" where
  "unlimited h \<longleftrightarrow> (\<exists>p. fst h = Memory p \<and> mj_nSpill p < 0)"

context spilling_store
begin

lemma unlimited_append:
  assumes "journal_opened opened chunk h" and "unlimited h" and "\<forall>k. alloc k \<noteq> None"
    and "length bs < 2 ^ 31" and "length (journal_content content h) + length bs < 2 ^ 62"
  shows "\<exists>h'. xWrite (journal_methods M os_open alloc) bs (int (length bs)) (of_nat (length (journal_content content h))) h = (Inr SQLITE_OK, h') \<and>
     journal_opened opened chunk h' \<and> unlimited h' \<and> journal_content content h' = journal_content content h @ bs"
proof -
  obtain p t where h: "h = (Memory p, t)" "mj_nSpill p < 0" using assms(2) by (cases h) (auto simp: unlimited_def)
  have p: "mj_ok p" "mj_nChunkSize p = chunk" using assms(1) h(1) by (auto simp: journal_opened_def)
  have "\<forall>k c. alloc k = Some c \<longrightarrow> length c = mj_nChunkSize p" using alloc_size p(2) by simp
  from write_loop_appends [OF p(1) this, of t bs] assms(3) obtain t' p' where
    wl: "journal_loop alloc t bs p = Some (SQLITE_OK, t', p')" "same_setup p p'" by blast
  from journal_append_end [OF assms(1,4,5)] obtain rc h' where
    a: "xWrite (journal_methods M os_open alloc) bs (int (length bs)) (of_nat (length (journal_content content h))) h = (Inr rc, h')"
      "journal_opened opened chunk h'" "rc = SQLITE_OK \<longrightarrow> journal_content content h' = journal_content content h @ bs" by blast
  have "xWrite (journal_methods M os_open alloc) bs (int (length bs)) (of_nat (length (journal_content content h))) h = (Inr SQLITE_OK, Memory p', t')"
    using h wl(1) by (simp add: journal_methods_def memjrnlWrite_def)
  moreover have "unlimited (Memory p' :: 'a jfile, t')" using h(2) wl(2) by (simp add: unlimited_def same_setup_def)
  ultimately show ?thesis using a by auto
qed

lemma unlimited_records:
  "journal_opened opened chunk h \<Longrightarrow> unlimited h \<Longrightarrow> \<forall>k. alloc k \<noteq> None \<Longrightarrow> \<forall>r\<in>set rs. length r < 2 ^ 31 \<Longrightarrow>
   length (journal_content content h) + length (concat rs) < 2 ^ 62 \<Longrightarrow>
   fst (write_records (journal_methods M os_open alloc) rs (length (journal_content content h)) h) = Inr SQLITE_OK"
proof (induction rs arbitrary: h)
  case (Cons r rs)
  obtain h' where
    a: "xWrite (journal_methods M os_open alloc) r (int (length r)) (of_nat (length (journal_content content h))) h = (Inr SQLITE_OK, h')"
      "journal_opened opened chunk h'" "unlimited h'" "journal_content content h' = journal_content content h @ r"
    using unlimited_append [OF Cons.prems(1-3), of r] Cons.prems(4,5) by auto
  then show ?case using Cons.IH [OF a(2,3) Cons.prems(3)] Cons.prems(4,5) by simp
qed simp

lemma records_survive:
  assumes "journal_opened opened chunk h" and "\<forall>r\<in>set rs. r \<noteq> [] \<and> length r < 2 ^ 31"
    and "length (journal_content content h) + length (concat rs) < 2 ^ 62"
  shows "\<exists>rc h'. write_records (journal_methods M os_open alloc) rs (length (journal_content content h)) h = (Inr rc, h') \<and>
     journal_opened opened chunk h' \<and> (unlimited h \<and> (\<forall>k. alloc k \<noteq> None) \<longrightarrow> rc = SQLITE_OK) \<and>
     (rc = SQLITE_OK \<longrightarrow> journal_content content h' = journal_content content h @ concat rs \<and>
       (\<exists>h''. play_back (journal_methods M os_open alloc) (List.map length rs) (length (journal_content content h)) h' = (Inr rs, h'') \<and>
         journal_opened opened chunk h'' \<and> journal_content content h'' = journal_content content h'))"
proof -
  have b: "\<forall>r\<in>set rs. length r < 2 ^ 31" using assms(2) by simp
  obtain rc h' where w: "write_records (journal_methods M os_open alloc) rs (length (journal_content content h)) h = (Inr rc, h')"
      "journal_opened opened chunk h'" "rc = SQLITE_OK \<longrightarrow> journal_content content h' = journal_content content h @ concat rs"
    using journal.records_written [OF assms(1) b assms(3)] by blast
  moreover have "unlimited h \<and> (\<forall>k. alloc k \<noteq> None) \<longrightarrow> rc = SQLITE_OK" using unlimited_records [OF assms(1) _ _ b assms(3)] w(1) by auto
  moreover have "rc = SQLITE_OK \<longrightarrow> (\<exists>h''. play_back (journal_methods M os_open alloc) (List.map length rs) (length (journal_content content h)) h' = (Inr rs, h'') \<and>
         journal_opened opened chunk h'' \<and> journal_content content h'' = journal_content content h')"
    using journal.records_played_back [OF w(2) assms(2), of "journal_content content h" "[]"] w(3) by auto
  ultimately show ?thesis by blast
qed

end

section \<open>A journal that spills into an in-memory file\<close>

definition journal_file :: "int \<Rightarrow> MemFile os_open" where
  "journal_file rc zName flags = (rc, if rc = SQLITE_OK then Some demo_file else None)"

definition granted :: "(nat \<Rightarrow> bool) \<Rightarrow> (nat \<Rightarrow> byte) \<Rightarrow> nat \<Rightarrow> nat \<Rightarrow> byte list option" where
  "granted alloc junk n k = (if alloc k then Some (replicate n (junk k)) else None)"

interpretation spilled: spilling_store "memdb_io_methods realloc_zero describe" memdb_content "memdb_opened realloc_zero" "journal_file rc"
    "granted alloc junk n" n
  for describe rc alloc junk n
proof (unfold_locales, goal_cases)
  case (1 z fl g)
  have "memdb_content demo_file = []" by (simp add: memdb_content_def demo_file_def new_store_def store_content_def)
  then show ?case using 1 demo_file_opened by (auto simp: journal_file_def split: if_splits)
next
  case (2 z fl rc' f)
  then show ?case by (auto simp: journal_file_def split: if_splits)
next
  case (3 f)
  then show ?case by (auto simp: memdb_opened_def memdbClose_def Let_def split: option.splits)
next
  case (4 k c)
  then show ?case by (auto simp: granted_def split: if_splits)
qed

section \<open>Properties\<close>

lemma fresh_journal:
  assumes "sqlite3JournalOpen os_open zName flags nSpill = (Inr SQLITE_OK, Memory p)" and "nSpill < 2 ^ 31"
  shows "journal_opened opened (mj_nChunkSize p) (Memory p, t) \<and> journal_content content (Memory p, t) = []"
  using assms
  by (auto simp: sqlite3JournalOpen_def journal_opened_def journal_content_def mj_content_def mj_ok_def mj_readable_def read_ok_def
      MEMJOURNAL_DFLT_FILECHUNKSIZE_def sizeof_FileChunk_def split: if_splits prod.splits option.splits)

text \<open>
  C17: a journal keeps what is appended, in memory, on the way to a real file and in it. Records are written one behind the other to an
  open journal, whose real file is any file that acts as an array of bytes; the writes end with a code, and if it is success the records
  can be played back one by one as they were written, also when the journal has spilled in between. With no limit and memory for every
  request the writes succeed.
\<close>

theorem journal_records_play_back:
  assumes "spilling_store M content opened os_open alloc chunk" and "journal_opened opened chunk h"
    and "\<forall>r\<in>set rs. r \<noteq> [] \<and> length r < 2 ^ 31" and "length (journal_content content h) + length (concat rs) < 2 ^ 62"
  shows "\<exists>rc h'. write_records (journal_methods M os_open alloc) rs (length (journal_content content h)) h = (Inr rc, h') \<and>
     journal_opened opened chunk h' \<and> (unlimited h \<and> (\<forall>k. alloc k \<noteq> None) \<longrightarrow> rc = SQLITE_OK) \<and>
     (rc = SQLITE_OK \<longrightarrow> journal_content content h' = journal_content content h @ concat rs \<and>
       (\<exists>h''. play_back (journal_methods M os_open alloc) (List.map length rs) (length (journal_content content h)) h' = (Inr rs, h'') \<and>
         journal_opened opened chunk h'' \<and> journal_content content h'' = journal_content content h'))"
  using spilling_store.records_survive [OF assms] .

definition demo_journal :: "int \<Rightarrow> MemFile jhandle" where
  "demo_journal nSpill = (snd (sqlite3JournalOpen (journal_file SQLITE_OK) (Some ''j'') 0 nSpill), 0)"

theorem journal_records_play_back_witness:
  "(\<exists>h'. write_records (journal_methods (memdb_io_methods realloc_zero (\<lambda>_. [])) (journal_file SQLITE_OK) (granted (\<lambda>_. True) (\<lambda>_. 7) 1016))
       [[1, 2], [3]] 0 (demo_journal (- 1)) = (Inr SQLITE_OK, h') \<and> journal_content memdb_content h' = [1, 2, 3]) \<and>
   (\<exists>rc h'. write_records (journal_methods (memdb_io_methods realloc_zero (\<lambda>_. [])) (journal_file SQLITE_OK) (granted (\<lambda>_. True) (\<lambda>_. 7) 4))
       [[1, 2, 3], [4, 5]] 0 (demo_journal 4) = (Inr rc, h') \<and> (rc = SQLITE_OK \<longrightarrow> journal_content memdb_content h' = [1, 2, 3, 4, 5]))"
proof -
  have n: "mj_nChunkSize p = (if k > 0 then nat k else 1016)" "fst (demo_journal k) = Memory p \<Longrightarrow> demo_journal k = (Memory p, 0)"
    if "sqlite3JournalOpen (journal_file SQLITE_OK) (Some ''j'') 0 k = (Inr SQLITE_OK, Memory p)" "k \<noteq> 0" for k p
    using that by (auto simp: sqlite3JournalOpen_def MEMJOURNAL_DFLT_FILECHUNKSIZE_def sizeof_FileChunk_def demo_journal_def split: if_splits)
  have o: "\<exists>p. sqlite3JournalOpen (journal_file SQLITE_OK) (Some ''j'') 0 k = (Inr SQLITE_OK, Memory p) \<and> demo_journal k = (Memory p, 0) \<and> mj_nSpill p = k"
    if "k \<noteq> 0" for k using that by (simp add: sqlite3JournalOpen_def demo_journal_def)
  obtain p where p: "sqlite3JournalOpen (journal_file SQLITE_OK) (Some ''j'') 0 (- 1) = (Inr SQLITE_OK, Memory p)"
      "demo_journal (- 1) = (Memory p, 0)" "mj_nSpill p = - 1" using o [of "- 1"] by auto
  obtain q where q: "sqlite3JournalOpen (journal_file SQLITE_OK) (Some ''j'') 0 4 = (Inr SQLITE_OK, Memory q)"
      "demo_journal 4 = (Memory q, 0)" using o [of 4] by auto
  have np: "mj_nChunkSize p = 1016" "mj_nChunkSize q = 4" using n(1) [OF p(1)] n(1) [OF q(1)] by simp_all
  have a: "journal_opened (memdb_opened realloc_zero) 1016 (demo_journal (- 1))" "journal_content memdb_content (demo_journal (- 1)) = []"
    using fresh_journal [OF p(1)] np p(2) by auto
  have b: "journal_opened (memdb_opened realloc_zero) 4 (demo_journal 4)" "journal_content memdb_content (demo_journal 4) = []"
    using fresh_journal [OF q(1)] np q(2) by auto
  have u: "unlimited (demo_journal (- 1))" using p by (simp add: unlimited_def)
  have g: "\<forall>k. granted (\<lambda>_. True) (\<lambda>_. 7) 1016 k \<noteq> None" by (simp add: granted_def)
  from journal_records_play_back [OF spilled.spilling_store_axioms [of "\<lambda>_. []" SQLITE_OK "\<lambda>_. True" "\<lambda>_. 7" 1016] a(1), of "[[1, 2], [3]]"]
    journal_records_play_back [OF spilled.spilling_store_axioms [of "\<lambda>_. []" SQLITE_OK "\<lambda>_. True" "\<lambda>_. 7" 4] b(1), of "[[1, 2, 3], [4, 5]]"]
  show ?thesis using a(2) b(2) u g by auto
qed

text \<open>
  C18: what cutting a journal does. The bytes up to the new size stay and the rest is gone; the journal is in order again when the size is
  0, is no multiple of the chunk size or is not smaller than the journal. If it is another multiple of the chunk size, one chunk too many
  is kept: what is appended next is accepted, and reading it back gives the bytes that were cut off.
\<close>

theorem truncated_journal_reads_old_bytes:
  assumes "mj_ok p"
  shows "(mj_content (memjrnlTruncate sz p) = take sz (mj_content p)) \<and>
    (sz = 0 \<or> sz mod mj_nChunkSize p \<noteq> 0 \<or> mj_end_offset p \<le> sz \<longrightarrow> mj_ok (memjrnlTruncate sz p)) \<and>
    (0 < sz \<and> sz mod mj_nChunkSize p = 0 \<and> z \<noteq> [] \<and> length z \<le> mj_nChunkSize p \<and> sz + length z \<le> mj_end_offset p \<and>
       alloc t = Some c \<and> length c = mj_nChunkSize p \<longrightarrow>
     (\<exists>p' p''. journal_loop alloc t z (memjrnlTruncate sz p) = Some (SQLITE_OK, Suc t, p') \<and> mj_end_offset p' = sz + length z \<and>
        memjrnlRead p' (replicate (length z) 0) sz = Some (SQLITE_OK, take (length z) (drop sz (mj_content p)), p'')))"
proof (intro conjI impI)
  have r: "mj_readable p" "0 < mj_nChunkSize p" "\<forall>c\<in>set (mj_chunks p). length c = mj_nChunkSize p" using assms by (simp_all add: mj_ok_def mj_readable_def)
  show "mj_content (memjrnlTruncate sz p) = take sz (mj_content p)"
    using truncate_ok [OF assms] truncate_at(4) [OF r(1)] by (cases "sz = 0 \<or> mj_end_offset p \<le> sz") auto
  show "sz = 0 \<or> sz mod mj_nChunkSize p \<noteq> 0 \<or> mj_end_offset p \<le> sz \<Longrightarrow> mj_ok (memjrnlTruncate sz p)" using truncate_ok [OF assms, of sz] by auto
  assume h: "0 < sz \<and> sz mod mj_nChunkSize p = 0 \<and> z \<noteq> [] \<and> length z \<le> mj_nChunkSize p \<and> sz + length z \<le> mj_end_offset p \<and>
       alloc t = Some c \<and> length c = mj_nChunkSize p"
  let ?n = "mj_nChunkSize p"
  define m where "m = sz div ?n"
  have lt: "sz < mj_end_offset p" using h by (cases z) auto
  note tr = truncate_at [OF r(1) _ lt]
  have m: "m < length (mj_chunks p)" "sz = m * ?n" using tr(2) h by (auto simp: m_def)
  have mn: "min (length (mj_chunks p)) (Suc m) = Suc m" using m(1) by simp
  define p' where "p' = (memjrnlTruncate sz p)\<lparr>mj_chunks := take (Suc m) (mj_chunks p) @ [overwrite c 0 z], mj_end_chunk := Some (Suc m),
      mj_end_offset := sz + length z\<rparr>"
  have T: "memjrnlTruncate sz p = p\<lparr>mj_chunks := take (Suc m) (mj_chunks p), mj_end_chunk := Some m, mj_end_offset := sz, mj_read_chunk := None, mj_read_offset := 0\<rparr>"
    using tr(1) h by (simp add: m_def)
  have upd: "(take (Suc m) (mj_chunks p) @ [c])[Suc m := b] = take (Suc m) (mj_chunks p) @ [b]" for b
    using list_update_length [of "take (Suc m) (mj_chunks p)" c "[]" b] mn by simp
  have w: "journal_loop alloc t z (memjrnlTruncate sz p) = Some (SQLITE_OK, Suc t, p')"
    using h r(2) mn upd unfolding p'_def T by (subst journal_loop.simps) (simp add: append_chunk_def fill_chunk_def nth_append journal_loop.simps)
  have "mj_readable p'" using h r m mn unfolding p'_def T by (auto simp: mj_readable_def read_ok_def dest: in_set_takeD)
  then obtain o' q where rd: "memjrnlRead p' (replicate (length z) 0) sz =
      Some (SQLITE_OK, take (length z) (drop sz (mj_content p')), p'\<lparr>mj_read_offset := o', mj_read_chunk := q\<rparr>)"
    using memjrnlRead_inside [of p' "replicate (length z) 0" sz] h by (auto simp: p'_def)
  have "sz + length z \<le> Suc m * ?n" using h m(2) by simp
  then have "mj_content p' = take (sz + length z) (concat (mj_chunks p))"
    using concat_take [OF r(3), of "Suc m"] h concat_length [OF r(3)] r(1)
    by (simp add: p'_def mj_content_def mj_readable_def min_def)
  then have "take (length z) (drop sz (mj_content p')) = take (length z) (drop sz (mj_content p))"
    using h by (auto simp: mj_content_def drop_take min_def)
  then show "\<exists>p' p''. journal_loop alloc t z (memjrnlTruncate sz p) = Some (SQLITE_OK, Suc t, p') \<and> mj_end_offset p' = sz + length z \<and>
        memjrnlRead p' (replicate (length z) 0) sz = Some (SQLITE_OK, take (length z) (drop sz (mj_content p)), p'')"
    using w rd by (auto simp: p'_def)
qed

theorem truncated_journal_reads_old_bytes_witness:
  "\<exists>p p' p''. mj_content p = [1, 2, 3, 4, 5] \<and> journal_loop (\<lambda>_. Some [0, 0]) 0 [9] (memjrnlTruncate 2 p) = Some (SQLITE_OK, Suc 0, p') \<and>
     memjrnlRead p' [0] 2 = Some (SQLITE_OK, [3], p'')"
proof -
  define p where "p = \<lparr>mj_nChunkSize = 2, mj_nSpill = - 1, mj_chunks = [[1, 2], [3, 4], [5, 0]], mj_end_offset = 5, mj_end_chunk = Some 2,
    mj_read_offset = 0, mj_read_chunk = None, mj_flags = 0, mj_zJournal = None\<rparr>"
  have "mj_ok p" by (simp add: p_def mj_ok_def mj_readable_def read_ok_def)
  moreover have c: "mj_content p = [1, 2, 3, 4, 5]" by (simp add: p_def mj_content_def)
  moreover have "mj_nChunkSize p = 2" "mj_end_offset p = 5" by (simp_all add: p_def)
  ultimately obtain p' p'' where "journal_loop (\<lambda>_. Some [0, 0]) 0 [9] (memjrnlTruncate 2 p) = Some (SQLITE_OK, Suc 0, p')"
      "memjrnlRead p' [0] 2 = Some (SQLITE_OK, [3], p'')"
    using truncated_journal_reads_old_bytes [of p 2 "[9]" "\<lambda>_. Some [0, 0]" 0 "[0, 0]"] by (auto simp: c)
  then show ?thesis using c by blast
qed

end
