(* ===== verification/Ys_Bitvec.thy ===== *)
theory Ys_Bitvec
  imports Ys_Io
begin

text \<open>
  Sets of page numbers (bitvec.c): a bitmap when small, else a hash table with linear probing that turns into an array of smaller
  sets when it has many elements.
\<close>

section \<open>The structure\<close>

definition BITVEC_SZ :: nat where "BITVEC_SZ = 512"
definition BITVEC_USIZE :: nat where "BITVEC_USIZE = (BITVEC_SZ - 3 * 4) div 8 * 8"
definition BITVEC_SZELEM :: nat where "BITVEC_SZELEM = 8"
definition BITVEC_NELEM :: nat where "BITVEC_NELEM = BITVEC_USIZE div 1"
definition BITVEC_NBIT :: nat where "BITVEC_NBIT = BITVEC_NELEM * BITVEC_SZELEM"
definition BITVEC_NINT :: nat where "BITVEC_NINT = BITVEC_USIZE div 4"
definition BITVEC_MXHASH :: nat where "BITVEC_MXHASH = BITVEC_NINT div 2"
definition BITVEC_NPTR :: nat where "BITVEC_NPTR = BITVEC_USIZE div 8"

definition BITVEC_HASH :: "nat \<Rightarrow> nat" where "BITVEC_HASH x = x * 1 mod BITVEC_NINT"

text \<open>The union holds what was last stored in it; memory of zeros is a bitmap, a hash table or pointers, all empty.\<close>

datatype Bitvec = Bitvec (iSize: nat) (nSet: nat) (iDivisor: nat) (u: bitvec_union)
  and bitvec_union = aBitmap "byte list" | aHash "nat list" | apSub "Bitvec option list"

definition sqlite3BitvecCreate :: "nat \<Rightarrow> Bitvec" where
  "sqlite3BitvecCreate n =
     Bitvec n 0 0 (if n \<le> BITVEC_NBIT then aBitmap (replicate BITVEC_NELEM 0) else aHash (replicate BITVEC_NINT 0))"

text \<open>Looking for a value in the hash table from \<open>h\<close> on; the fuel is the size of the table, and a full table is searched for ever (\<open>None\<close>).\<close>

fun probe :: "nat \<Rightarrow> nat list \<Rightarrow> nat \<Rightarrow> nat \<Rightarrow> (nat \<times> bool) option" where
  "probe 0 t h i = None"
| "probe (Suc fuel) t h i =
     (if t ! h = 0 then Some (h, False) else if t ! h = i then Some (h, True) else probe fuel t ((h + 1) mod BITVEC_NINT) i)"

text \<open>\<open>i\<close> counts from 0 here, as after the \<^verbatim>\<open>i--\<close> of the code.\<close>

lemma sub_size: "k < length ps \<Longrightarrow> ps ! k = Some q \<Longrightarrow> size q < Suc (size_list (size_option size) ps)"
proof (induction ps arbitrary: k)
  case (Cons p ps)
  then show ?case by (cases k) fastforce+
qed simp

function test_loop :: "Bitvec \<Rightarrow> nat \<Rightarrow> bool option" where
  "test_loop (Bitvec n s d x) i =
     (if d \<noteq> 0 then
        case x of
          apSub ps \<Rightarrow>
            if i div d < length ps then (case ps ! (i div d) of None \<Rightarrow> Some False | Some q \<Rightarrow> test_loop q (i mod d)) else None
        | _ \<Rightarrow> None
      else if n \<le> BITVEC_NBIT then
        case x of
          aBitmap a \<Rightarrow> if i div BITVEC_SZELEM < length a then Some (bit (a ! (i div BITVEC_SZELEM)) (i mod BITVEC_SZELEM)) else None
        | _ \<Rightarrow> None
      else
        case x of
          aHash t \<Rightarrow> map_option snd (probe BITVEC_NINT t (BITVEC_HASH i) (i + 1))
        | _ \<Rightarrow> None)"
  by pat_completeness auto

termination test_loop
proof (relation "measure (\<lambda>(p, i). size p)", goal_cases)
  case (2 n s d x i ps q)
  then show ?case using sub_size [of "i div d" ps q] by simp
qed simp

definition sqlite3BitvecTestNotNull :: "Bitvec \<Rightarrow> nat \<Rightarrow> bool option" where
  "sqlite3BitvecTestNotNull p i =
     (let i = (i + 2 ^ 32 - 1) mod 2 ^ 32 in if i \<ge> iSize p then Some False else test_loop p i)"

definition sqlite3BitvecTest :: "Bitvec option \<Rightarrow> nat \<Rightarrow> bool option" where
  "sqlite3BitvecTest p i = (case p of None \<Rightarrow> Some False | Some p \<Rightarrow> sqlite3BitvecTestNotNull p i)"

section \<open>Setting a bit\<close>

text \<open>Whether request \<open>k\<close> for memory is granted is \<open>alloc k\<close>; the number of requests made goes along.\<close>

definition sub_bitvec :: "(nat \<Rightarrow> bool) \<Rightarrow> nat \<Rightarrow> nat \<Rightarrow> Bitvec option \<Rightarrow> Bitvec option \<times> nat" where
  "sub_bitvec alloc k d q =
     (case q of Some q \<Rightarrow> (Some q, k) | None \<Rightarrow> if alloc k then (Some (sqlite3BitvecCreate d), Suc k) else (None, Suc k))"

text \<open>Putting the values of the old table back, with \<open>set\<close> for a value.\<close>

fun set_values :: "(nat \<Rightarrow> Bitvec \<Rightarrow> nat \<Rightarrow> (int \<times> nat \<times> Bitvec) option) \<Rightarrow> nat \<Rightarrow> Bitvec \<Rightarrow> nat list \<Rightarrow> int \<Rightarrow> (int \<times> nat \<times> Bitvec) option" where
  "set_values set_one k p [] rc = Some (rc, k, p)"
| "set_values set_one k p (v # vs) rc =
     (if v \<noteq> 0 then
        case set_one k p v of
          None \<Rightarrow> None
        | Some (rc', k, p) \<Rightarrow> set_values set_one k p vs (or rc rc')
      else set_values set_one k p vs rc)"

text \<open>
  The body of \<^verbatim>\<open>sqlite3BitvecSet\<close> with its calls of itself. A call on the set of a bin, with the number in that bin, is the next turn of the
  loop of the code. \<^verbatim>\<open>BITVEC_NPTR\<close> is a \<^verbatim>\<open>size_t\<close>, so the sum in
  the divisor of a table that is divided has 64 bits. \<open>None\<close> is memory used as something it is not.
\<close>

definition set_body ::
    "(nat \<Rightarrow> Bitvec \<Rightarrow> nat \<Rightarrow> (int \<times> nat \<times> Bitvec) option) \<Rightarrow> (nat \<Rightarrow> bool) \<Rightarrow> nat \<Rightarrow> Bitvec \<Rightarrow> nat \<Rightarrow> (int \<times> nat \<times> Bitvec) option" where
  "set_body set_one alloc k p i =
     (let i0 = i - 1; n = iSize p; s = nSet p; d = iDivisor p in
      if n > BITVEC_NBIT \<and> d \<noteq> 0 then
        case u p of
          apSub ps \<Rightarrow>
            if i0 div d < length ps then
              case sub_bitvec alloc k d (ps ! (i0 div d)) of
                (None, k) \<Rightarrow> Some (SQLITE_NOMEM, k, p)
              | (Some q, k) \<Rightarrow>
                  (case set_one k q (i0 mod d + 1) of
                     None \<Rightarrow> None
                   | Some (rc, k, q) \<Rightarrow> Some (rc, k, Bitvec n s d (apSub (ps[i0 div d := Some q]))))
            else None
        | _ \<Rightarrow> None
      else if n \<le> BITVEC_NBIT then
        case u p of
          aBitmap a \<Rightarrow>
            if i0 div BITVEC_SZELEM < length a then
              Some (SQLITE_OK, k, Bitvec n s d
                (aBitmap (a[i0 div BITVEC_SZELEM := or (a ! (i0 div BITVEC_SZELEM)) (push_bit (i0 mod BITVEC_SZELEM) 1)])))
            else None
        | _ \<Rightarrow> None
      else
        case u p of
          aHash t \<Rightarrow>
            (case probe BITVEC_NINT t (BITVEC_HASH i0) i of
               None \<Rightarrow> None
             | Some (h, found) \<Rightarrow>
                 if found then Some (SQLITE_OK, k, p)
                 else if t ! BITVEC_HASH i0 = 0 \<and> s < BITVEC_NINT - 1 \<or> \<not> s \<ge> BITVEC_MXHASH then
                   Some (SQLITE_OK, k, Bitvec n (s + 1) d (aHash (t[h := i])))
                 else if \<not> alloc k then Some (SQLITE_NOMEM, Suc k, p)
                 else
                   let d = (n + BITVEC_NPTR - 1) div BITVEC_NPTR;
                       x = (if d \<noteq> 0 then apSub (replicate BITVEC_NPTR None) else aHash (replicate BITVEC_NINT 0))
                   in case set_one (Suc k) (Bitvec n s d x) i of
                        None \<Rightarrow> None
                      | Some (rc, k, p) \<Rightarrow> set_values set_one k p t rc)
        | _ \<Rightarrow> None)"

text \<open>The fuel bounds the calls inside each other.\<close>

primrec set_calls :: "nat \<Rightarrow> (nat \<Rightarrow> bool) \<Rightarrow> nat \<Rightarrow> Bitvec \<Rightarrow> nat \<Rightarrow> (int \<times> nat \<times> Bitvec) option" where
  "set_calls 0 alloc = (\<lambda>k p i. None)"
| "set_calls (Suc fuel) alloc = set_body (set_calls fuel alloc) alloc"

definition sqlite3BitvecSet :: "nat \<Rightarrow> (nat \<Rightarrow> bool) \<Rightarrow> nat \<Rightarrow> Bitvec option \<Rightarrow> nat \<Rightarrow> (int \<times> nat \<times> Bitvec option) option" where
  "sqlite3BitvecSet fuel alloc k p i =
     (case p of None \<Rightarrow> Some (SQLITE_OK, k, None) | Some p \<Rightarrow> map_option (\<lambda>(rc, k, p). (rc, k, Some p)) (set_calls fuel alloc k p i))"

section \<open>Clearing a bit\<close>

text \<open>A value is put into the first free place from its own on.\<close>

fun free_slot :: "nat \<Rightarrow> nat list \<Rightarrow> nat \<Rightarrow> nat option" where
  "free_slot 0 t h = None"
| "free_slot (Suc fuel) t h = (if t ! h = 0 then Some h else free_slot fuel t ((h + 1) mod BITVEC_NINT))"

fun rebuild :: "nat \<Rightarrow> nat list \<Rightarrow> nat \<Rightarrow> nat list \<Rightarrow> (nat \<times> nat list) option" where
  "rebuild i [] n t = Some (n, t)"
| "rebuild i (v # vs) n t =
     (if v \<noteq> 0 \<and> v \<noteq> i then
        case free_slot BITVEC_NINT t (BITVEC_HASH (v - 1)) of
          None \<Rightarrow> None
        | Some h \<Rightarrow> rebuild i vs (n + 1) (t[h := v])
      else rebuild i vs n t)"

function clear_loop :: "Bitvec \<Rightarrow> nat \<Rightarrow> Bitvec option" where
  "clear_loop (Bitvec n s d x) i =
     (if d \<noteq> 0 then
        case x of
          apSub ps \<Rightarrow>
            if i div d < length ps then
              case ps ! (i div d) of
                None \<Rightarrow> Some (Bitvec n s d x)
              | Some q \<Rightarrow> map_option (\<lambda>q. Bitvec n s d (apSub (ps[i div d := Some q]))) (clear_loop q (i mod d))
            else None
        | _ \<Rightarrow> None
      else if n \<le> BITVEC_NBIT then
        case x of
          aBitmap a \<Rightarrow>
            if i div BITVEC_SZELEM < length a then
              Some (Bitvec n s d
                (aBitmap (a[i div BITVEC_SZELEM := and (a ! (i div BITVEC_SZELEM)) (not (push_bit (i mod BITVEC_SZELEM) 1))])))
            else None
        | _ \<Rightarrow> None
      else
        case x of
          aHash t \<Rightarrow>
            map_option (\<lambda>(m, t). Bitvec n m d (aHash t)) (rebuild (i + 1) t 0 (replicate BITVEC_NINT 0))
        | _ \<Rightarrow> None)"
  by pat_completeness auto

termination clear_loop
proof (relation "measure (\<lambda>(p, i). size p)", goal_cases)
  case (2 n s d x i ps q)
  then show ?case using sub_size [of "i div d" ps q] by simp
qed simp

definition sqlite3BitvecClear :: "Bitvec option \<Rightarrow> nat \<Rightarrow> Bitvec option option" where
  "sqlite3BitvecClear p i = (case p of None \<Rightarrow> Some None | Some p \<Rightarrow> map_option Some (clear_loop p (i - 1)))"

definition sqlite3BitvecSize :: "Bitvec \<Rightarrow> nat" where
  "sqlite3BitvecSize p = iSize p"

unbundle bit_operations_syntax

lemma bitvec_numbers [simp]:
  "BITVEC_NELEM = 496" "BITVEC_SZELEM = 8" "BITVEC_NBIT = 3968" "BITVEC_NINT = 124" "BITVEC_MXHASH = 62" "BITVEC_NPTR = 62"
  by (simp_all add: BITVEC_NELEM_def BITVEC_SZELEM_def BITVEC_NBIT_def BITVEC_NINT_def BITVEC_MXHASH_def BITVEC_NPTR_def BITVEC_USIZE_def BITVEC_SZ_def)

lemma BITVEC_HASH_less [simp]: "BITVEC_HASH i < 124"
  by (simp add: BITVEC_HASH_def)

section \<open>Probing\<close>

lemma probe_sound: "probe f t h v = Some (k, b) \<Longrightarrow> h < 124 \<Longrightarrow> k < 124 \<and> (if b then t ! k = v \<and> v \<noteq> 0 else t ! k = 0)"
  by (induction f arbitrary: h) (auto split: if_splits)

lemma probe_None: "probe f t h v = None \<Longrightarrow> j < f \<Longrightarrow> h < 124 \<Longrightarrow> t ! ((h + j) mod 124) \<noteq> 0"
proof (induction f arbitrary: h j)
  case (Suc f)
  then have h: "t ! h \<noteq> 0" "probe f t ((h + 1) mod 124) v = None" by (auto split: if_splits)
  show ?case
  proof (cases j)
    case 0
    then show ?thesis using h Suc.prems(3) by simp
  next
    case (Suc j')
    have "t ! (((h + 1) mod 124 + j') mod 124) \<noteq> 0" using Suc.IH [OF h(2), of j'] Suc Suc.prems(2) by simp
    moreover have "((h + 1) mod 124 + j') mod 124 = (h + 1 + j') mod 124" by (rule mod_add_left_eq)
    ultimately show ?thesis using Suc by simp
  qed
qed simp

lemma around: "h < 124 \<Longrightarrow> z < 124 \<Longrightarrow> \<exists>j<124. (h + j) mod 124 = (z :: nat)"
proof (cases "h \<le> z")
  case True
  assume "h < 124" "z < 124"
  then show ?thesis using True by (intro exI [of _ "z - h"]) simp
next
  case False
  assume "h < 124" "z < 124"
  then show ?thesis using False by (intro exI [of _ "z + 124 - h"]) simp
qed

lemma probe_ends: "h < 124 \<Longrightarrow> z < 124 \<Longrightarrow> t ! z = 0 \<Longrightarrow> \<exists>k b. probe 124 t h v = Some (k, b)"
proof -
  assume a: "h < 124" "z < 124" "t ! z = 0"
  obtain j where "j < 124" "(h + j) mod 124 = z" using around [OF a(1,2)] by blast
  then have n: "probe 124 t h v \<noteq> None" using probe_None [of 124 t h v j, OF _ _ a(1)] a(3) by metis
  show ?thesis
  proof (cases "probe 124 t h v")
    case (Some r)
    then show ?thesis by (cases r) simp
  qed (use n in simp)
qed

lemma probe_keeps: "probe f t h v = Some (k, True) \<Longrightarrow> t ! z = 0 \<Longrightarrow> probe f (t[z := i]) h v = Some (k, True)"
proof (induction f arbitrary: h)
  case (Suc f)
  then have h: "t ! h \<noteq> 0" by (auto split: if_splits)
  then have "t[z := i] ! h = t ! h" using Suc.prems(2) by (cases "h = z") simp_all
  then show ?case using Suc h by (auto split: if_splits)
qed simp

lemma probe_finds_new: "probe f t h i = Some (z, False) \<Longrightarrow> i \<noteq> 0 \<Longrightarrow> z < length t \<Longrightarrow> probe f (t[z := i]) h i = Some (z, True)"
proof (induction f arbitrary: h)
  case (Suc f)
  show ?case
  proof (cases "t ! h = 0")
    case True
    then show ?thesis using Suc.prems by simp
  next
    case False
    then have "t ! h \<noteq> i" "probe f t ((h + 1) mod 124) i = Some (z, False)" using Suc.prems(1) by (auto split: if_splits)
    moreover from this have "t ! z = 0" using probe_sound [of f t "(h + 1) mod 124" i z False] by simp
    ultimately show ?thesis using Suc False by (auto simp: nth_list_update)
  qed
qed simp

definition finds :: "nat list \<Rightarrow> nat \<Rightarrow> bool" where
  "finds t v \<longleftrightarrow> (\<exists>k. probe 124 t (BITVEC_HASH (v - 1)) v = Some (k, True))"

definition count :: "nat list \<Rightarrow> nat" where
  "count t = length (filter (\<lambda>v. v \<noteq> 0) t)"

definition table_ok :: "nat list \<Rightarrow> bool" where
  "table_ok t \<longleftrightarrow> length t = 124 \<and> (\<forall>v\<in>set t. v \<noteq> 0 \<longrightarrow> finds t v)"

lemma count_update: "z < length t \<Longrightarrow> t ! z = 0 \<Longrightarrow> v \<noteq> 0 \<Longrightarrow> count (t[z := v]) = count t + 1"
proof (induction t arbitrary: z)
  case (Cons a t)
  then show ?case by (cases z) (auto simp: count_def)
qed simp

lemma count_room: "count t < length t \<Longrightarrow> \<exists>z<length t. t ! z = 0"
proof (rule ccontr)
  assume c: "count t < length t" "\<not> (\<exists>z<length t. t ! z = 0)"
  then have "\<forall>v\<in>set t. v \<noteq> 0" by (auto simp: in_set_conv_nth)
  then have "filter (\<lambda>v. v \<noteq> 0) t = t" by (simp add: filter_id_conv)
  then show False using c(1) by (simp add: count_def)
qed

lemma finds_iff:
  assumes "table_ok t" and "count t < 124" and "v \<noteq> 0"
  shows "\<exists>k. probe 124 t (BITVEC_HASH (v - 1)) v = Some (k, v \<in> set t)"
proof -
  have l: "length t = 124" using assms(1) by (simp add: table_ok_def)
  obtain z where "z < 124" "t ! z = 0" using count_room [of t] assms(2) l by auto
  then obtain k b where p: "probe 124 t (BITVEC_HASH (v - 1)) v = Some (k, b)" using probe_ends [OF BITVEC_HASH_less] by blast
  show ?thesis
  proof (cases "v \<in> set t")
    case True
    then show ?thesis using assms(1,3) by (auto simp: table_ok_def finds_def)
  next
    case False
    moreover have "b \<Longrightarrow> v \<in> set t" using probe_sound [OF p] l nth_mem [of k t] by auto
    ultimately show ?thesis using p by auto
  qed
qed

lemma insert_ok:
  assumes "table_ok t" and "v \<noteq> 0" and "z < 124" and "t ! z = 0" and "finds (t[z := v]) v"
  shows "table_ok (t[z := v]) \<and> set (t[z := v]) - {0} = insert v (set t - {0}) \<and> count (t[z := v]) = count t + 1"
proof -
  have l: "length t = 124" using assms(1) by (simp add: table_ok_def)
  have "finds (t[z := v]) w" if w: "w \<in> set (t[z := v])" "w \<noteq> 0" for w
  proof (cases "w = v")
    case False
    then have "w \<in> set t" using w(1) set_update_subset_insert [of t z v] by auto
    then have "finds t w" using assms(1) w(2) by (simp add: table_ok_def)
    then show ?thesis using probe_keeps [OF _ assms(4)] by (auto simp: finds_def)
  qed (use assms(5) in simp)
  moreover have "set (t[z := v]) - {0} = insert v (set t - {0})"
  proof (rule set_eqI)
    fix w
    have "w \<in> set t \<and> w \<noteq> 0 \<Longrightarrow> w \<in> set (t[z := v])"
      using assms(4) by (metis in_set_conv_nth length_list_update nth_list_update_neq)
    moreover have "v \<in> set (t[z := v])" using assms(3) l by (simp add: set_update_memI)
    ultimately show "w \<in> set (t[z := v]) - {0} \<longleftrightarrow> w \<in> insert v (set t - {0})"
      using set_update_subset_insert [of t z v] assms(2) by auto
  qed
  ultimately show ?thesis using l count_update [of z t v] assms(2-4) by (simp add: table_ok_def)
qed

lemma insert_probed:
  assumes "table_ok t" and "v \<noteq> 0" and "probe 124 t (BITVEC_HASH (v - 1)) v = Some (z, False)"
  shows "table_ok (t[z := v]) \<and> set (t[z := v]) - {0} = insert v (set t - {0}) \<and> count (t[z := v]) = count t + 1"
proof -
  have z: "z < 124" "t ! z = 0" using probe_sound [OF assms(3)] by simp_all
  have "length t = 124" using assms(1) by (simp add: table_ok_def)
  then have "finds (t[z := v]) v" using probe_finds_new [OF assms(3,2)] z by (auto simp: finds_def)
  then show ?thesis by (rule insert_ok [OF assms(1,2) z])
qed

lemma free_slot_place: "free_slot f t h = Some z \<Longrightarrow> h < 124 \<Longrightarrow> z < 124 \<and> t ! z = 0"
  by (induction f arbitrary: h) (auto split: if_splits)

lemma free_slot_None: "free_slot f t h = None \<Longrightarrow> v \<notin> set t \<Longrightarrow> length t = 124 \<Longrightarrow> h < 124 \<Longrightarrow> probe f t h v = None"
proof (induction f arbitrary: h)
  case (Suc f)
  then have "t ! h \<noteq> 0" "free_slot f t ((h + 1) mod 124) = None" by (auto split: if_splits)
  moreover have "t ! h \<noteq> v" using Suc.prems(2-4) nth_mem [of h t] by auto
  ultimately show ?case using Suc by simp
qed simp

lemma free_slot_finds: "free_slot f t h = Some z \<Longrightarrow> h < 124 \<Longrightarrow> length t = 124 \<Longrightarrow> v \<noteq> 0 \<Longrightarrow> \<exists>k. probe f (t[z := v]) h v = Some (k, True)"
proof (induction f arbitrary: h)
  case (Suc f)
  show ?case
  proof (cases "t ! h = 0")
    case True
    then show ?thesis using Suc.prems by simp
  next
    case False
    then have f: "free_slot f t ((h + 1) mod 124) = Some z" using Suc.prems(1) by simp
    then have "z \<noteq> h" using free_slot_place [OF f] False by auto
    then show ?thesis using False Suc.IH [OF f] Suc.prems by simp
  qed
qed simp

lemma free_slot_ends:
  assumes "length t = 124" and "count t < 124" and "h < 124"
  shows "\<exists>z. free_slot 124 t h = Some z"
proof -
  obtain z where z: "z < 124" "t ! z = 0" using count_room [of t] assms(1,2) by auto
  obtain v where v: "v \<notin> set t" using ex_new_if_finite [of "set t"] by auto
  have "probe 124 t h v \<noteq> None" using probe_ends [OF assms(3) z, of v] by auto
  then show ?thesis using free_slot_None [OF _ v assms(1,3)] by (cases "free_slot 124 t h") auto
qed

lemma insert_free:
  assumes "table_ok t" and "count t < 124" and "v \<noteq> 0"
  shows "\<exists>z. free_slot 124 t (BITVEC_HASH (v - 1)) = Some z \<and>
    table_ok (t[z := v]) \<and> set (t[z := v]) - {0} = insert v (set t - {0}) \<and> count (t[z := v]) = count t + 1"
proof -
  have l: "length t = 124" using assms(1) by (simp add: table_ok_def)
  obtain z where z: "free_slot 124 t (BITVEC_HASH (v - 1)) = Some z" using free_slot_ends [OF l assms(2) BITVEC_HASH_less] by blast
  have p: "z < 124" "t ! z = 0" using free_slot_place [OF z] by simp_all
  have "finds (t[z := v]) v" using free_slot_finds [OF z _ l assms(3)] by (simp add: finds_def)
  then show ?thesis using insert_ok [OF assms(1,3) p] z by blast
qed

text \<open>Building the table again without a value.\<close>

lemma rebuild_ok:
  "table_ok t \<Longrightarrow> n = count t \<Longrightarrow> count t + count vs < 124 \<Longrightarrow>
   \<exists>t'. rebuild i vs n t = Some (count t', t') \<and> table_ok t' \<and> set t' - {0} = (set t - {0}) \<union> (set vs - {0, i}) \<and> count t' \<le> count t + count vs"
proof (induction vs arbitrary: n t)
  case Nil
  then show ?case by (simp add: count_def)
next
  case (Cons v vs)
  show ?case
  proof (cases "v \<noteq> 0 \<and> v \<noteq> i")
    case True
    then have c: "count (v # vs) = count vs + 1" by (simp add: count_def)
    obtain z where z: "free_slot 124 t (BITVEC_HASH (v - 1)) = Some z" "table_ok (t[z := v])"
        "set (t[z := v]) - {0} = insert v (set t - {0})" "count (t[z := v]) = count t + 1"
      using insert_free [OF Cons.prems(1), of v] True Cons.prems(3) by auto
    from Cons.IH [OF z(2), of "n + 1"] z(4) Cons.prems(2,3) c obtain t' where
      "rebuild i vs (n + 1) (t[z := v]) = Some (count t', t')" "table_ok t'"
      "set t' - {0} = (set (t[z := v]) - {0}) \<union> (set vs - {0, i})" "count t' \<le> count (t[z := v]) + count vs" by auto
    then show ?thesis using True z c by auto
  next
    case False
    have c: "count vs \<le> count (v # vs)" by (simp add: count_def)
    from Cons.IH [OF Cons.prems(1,2)] c Cons.prems(3) obtain t' where
      "rebuild i vs n t = Some (count t', t')" "table_ok t'"
      "set t' - {0} = (set t - {0}) \<union> (set vs - {0, i})" "count t' \<le> count t + count vs" by auto
    then show ?thesis using False c by auto
  qed
qed

lemma empty_table: "table_ok (replicate 124 0)" "count (replicate 124 0) = 0" "set (replicate 124 (0 :: nat)) - {0} = {}"
  by (auto simp: table_ok_def count_def)

section \<open>Which numbers are in a set\<close>

text \<open>\<open>has p j\<close> is what a test of the number \<open>j + 1\<close> answers.\<close>

definition has :: "Bitvec \<Rightarrow> nat \<Rightarrow> bool" where
  "has p j \<longleftrightarrow> test_loop p j = Some True"

definition divisor :: "nat \<Rightarrow> nat" where
  "divisor n = (n + 61) div 62"

function bv_ok :: "Bitvec \<Rightarrow> bool" where
  "bv_ok (Bitvec n s d x) \<longleftrightarrow>
     (case x of
        aBitmap a \<Rightarrow> n \<le> 3968 \<and> d = 0 \<and> length a = 496
      | aHash t \<Rightarrow> 3968 < n \<and> d = 0 \<and> table_ok t \<and> s = count t \<and> count t < 124 \<and> (\<forall>v\<in>set t. v \<le> n)
      | apSub ps \<Rightarrow> 3968 < n \<and> d = divisor n \<and> length ps = 62 \<and>
          (\<forall>k<length ps. case ps ! k of None \<Rightarrow> True | Some q \<Rightarrow> iSize q = d \<and> bv_ok q))"
  by pat_completeness auto

termination bv_ok
proof (relation "measure size", goal_cases)
  case (2 n s d x ps k q)
  then show ?case using sub_size [of k ps q] by simp
qed simp

lemma divisor_facts: "3968 < n \<Longrightarrow> 0 < divisor n \<and> divisor n < n \<and> n \<le> 62 * divisor n"
proof -
  assume n: "3968 < n"
  have "n + 61 = 62 * divisor n + (n + 61) mod 62" by (simp add: divisor_def)
  moreover have "(n + 61) mod 62 < 62" by simp
  ultimately show ?thesis using n by linarith
qed

lemma bin_less: "3968 < n \<Longrightarrow> i < n \<Longrightarrow> i div divisor n < 62 \<and> i mod divisor n < divisor n"
proof -
  assume n: "3968 < n" "i < n"
  note d = divisor_facts [OF n(1)]
  have "i < 62 * divisor n" using n(2) d by linarith
  then show ?thesis using d by (simp add: less_mult_imp_div_less)
qed

lemma has_sub: "d \<noteq> 0 \<Longrightarrow> j div d < length ps \<Longrightarrow>
   has (Bitvec n s d (apSub ps)) j \<longleftrightarrow> (case ps ! (j div d) of None \<Rightarrow> False | Some q \<Rightarrow> has q (j mod d))"
  by (simp add: has_def split: option.split)

lemma has_bitmap: "n \<le> 3968 \<Longrightarrow> j < 3968 \<Longrightarrow> length a = 496 \<Longrightarrow> has (Bitvec n s 0 (aBitmap a)) j \<longleftrightarrow> bit (a ! (j div 8)) (j mod 8)"
  by (simp add: has_def less_mult_imp_div_less)

lemma has_hash: "3968 < n \<Longrightarrow> table_ok t \<Longrightarrow> count t < 124 \<Longrightarrow> has (Bitvec n s 0 (aHash t)) j \<longleftrightarrow> Suc j \<in> set t"
  using finds_iff [of t "Suc j"] by (auto simp: has_def)

lemma test_defined:
  "bv_ok p \<Longrightarrow> j < iSize p \<Longrightarrow> test_loop p j = Some (has p j)"
proof (induction p j rule: test_loop.induct)
  case (1 n s d x j)
  show ?case
  proof (cases x)
    case (aBitmap a)
    then show ?thesis using "1.prems" by (simp add: has_def less_mult_imp_div_less)
  next
    case (aHash t)
    then show ?thesis using "1.prems" finds_iff [of t "Suc j"] by (auto simp: has_def)
  next
    case (apSub ps)
    then have n: "3968 < n" "d = divisor n" "length ps = 62" "\<forall>k<length ps. case ps ! k of None \<Rightarrow> True | Some q \<Rightarrow> iSize q = d \<and> bv_ok q"
      using "1.prems"(1) by simp_all
    have d: "d \<noteq> 0" "j div d < length ps" "j mod d < d" using divisor_facts [OF n(1)] bin_less [OF n(1), of j] "1.prems"(2) n(2,3) by simp_all
    show ?thesis
    proof (cases "ps ! (j div d)")
      case (Some q)
      have "case ps ! (j div d) of None \<Rightarrow> True | Some q \<Rightarrow> iSize q = d \<and> bv_ok q" using n(4) d(2) by blast
      then have q: "iSize q = d" "bv_ok q" using Some by simp_all
      then have "test_loop q (j mod d) = Some (has q (j mod d))" using "1.IH" [OF d(1) apSub d(2) Some q(2)] d(3) by simp
      then show ?thesis using Some d has_sub [of d j ps n s] by (simp add: apSub)
    qed (use d in \<open>simp add: apSub has_def\<close>)
  qed
qed

lemma create_ok: "bv_ok (sqlite3BitvecCreate n) \<and> iSize (sqlite3BitvecCreate n) = n \<and> iDivisor (sqlite3BitvecCreate n) = 0 \<and>
   (\<forall>j<n. \<not> has (sqlite3BitvecCreate n) j)"
proof (cases "n \<le> 3968")
  case True
  then show ?thesis using has_bitmap [of n _ "replicate 496 0" 0] by (auto simp: sqlite3BitvecCreate_def less_mult_imp_div_less)
next
  case False
  then show ?thesis using has_hash [of n "replicate 124 0" 0] empty_table by (auto simp: sqlite3BitvecCreate_def)
qed

section \<open>Setting\<close>

text \<open>How many calls are inside each other.\<close>

function need :: "nat \<Rightarrow> nat" where
  "need n = (if n \<le> 3968 then 1 else 2 + need (divisor n))"
  by auto

termination need
  by (relation "measure id") (use divisor_facts in auto)

declare need.simps [simp del]

lemma divisor_le: "n \<le> 62 * m \<Longrightarrow> divisor n \<le> m"
proof -
  assume n: "n \<le> 62 * m"
  have "n + 61 = 62 * divisor n + (n + 61) mod 62" by (simp add: divisor_def)
  then have "62 * divisor n < 62 * m + 62" using n by linarith
  then show ?thesis by arith
qed

lemma need_bound: "n \<le> 58632501248 \<Longrightarrow> need n \<le> 9"
proof -
  have s: "n \<le> 62 * m \<Longrightarrow> (\<And>k. k \<le> m \<Longrightarrow> need k \<le> c) \<Longrightarrow> 1 \<le> c \<Longrightarrow> need n \<le> c + 2" for n m c
    using divisor_le [of n m] by (simp add: need.simps [of n])
  have 0: "n \<le> 3968 \<Longrightarrow> need n \<le> 1" for n by (simp add: need.simps)
  have 1: "n \<le> 246016 \<Longrightarrow> need n \<le> 3" for n using s [of n 3968 1] 0 by simp
  have 2: "n \<le> 15252992 \<Longrightarrow> need n \<le> 5" for n using s [of n 246016 3] 1 by simp
  have 3: "n \<le> 945685504 \<Longrightarrow> need n \<le> 7" for n using s [of n 15252992 5] 2 by simp
  assume "n \<le> 58632501248"
  then show ?thesis using s [of n 945685504 7] 3 by simp
qed

text \<open>What a call that sets \<open>i\<close> leaves: all there was and \<open>i\<close>, or without memory a part of it.\<close>

definition set_result :: "(nat \<Rightarrow> bool) \<Rightarrow> Bitvec \<Rightarrow> (nat \<Rightarrow> bool) \<Rightarrow> (int \<times> nat \<times> Bitvec) option \<Rightarrow> bool" where
  "set_result alloc p new r \<longleftrightarrow> (\<exists>rc k p'. r = Some (rc, k, p') \<and> bv_ok p' \<and> iSize p' = iSize p \<and> (iDivisor p \<noteq> 0 \<longrightarrow> iDivisor p' \<noteq> 0) \<and>
     (rc = SQLITE_OK \<and> (\<forall>j<iSize p. has p' j \<longleftrightarrow> new j \<or> has p j) \<or>
      rc = SQLITE_NOMEM \<and> (\<forall>j<iSize p. has p' j \<longrightarrow> new j \<or> has p j) \<and> (\<exists>k. \<not> alloc k)))"

lemma set_bitmap:
  assumes "bv_ok (Bitvec n s d (aBitmap a))" and "1 \<le> i" and "i \<le> n"
  shows "set_result alloc (Bitvec n s d (aBitmap a)) (\<lambda>j. j = i - 1) (set_body f alloc k (Bitvec n s d (aBitmap a)) i)"
proof -
  have p: "n \<le> 3968" "d = 0" "length a = 496" using assms(1) by simp_all
  have i: "i - 1 < 3968" "(i - 1) div 8 < 496" using assms(2,3) p(1) by (auto simp: less_mult_imp_div_less)
  let ?a = "a[(i - 1) div 8 := or (a ! ((i - 1) div 8)) (push_bit ((i - 1) mod 8) 1)]"
  have "has (Bitvec n s 0 (aBitmap ?a)) j \<longleftrightarrow> j = i - 1 \<or> has (Bitvec n s 0 (aBitmap a)) j" if j: "j < n" for j
  proof -
    have j': "j < 3968" "j div 8 < 496" using j p(1) by (auto simp: less_mult_imp_div_less)
    have "j = i - 1 \<longleftrightarrow> j div 8 = (i - 1) div 8 \<and> j mod 8 = (i - 1) mod 8" by (metis div_mult_mod_eq)
    moreover have "bit (push_bit ((i - 1) mod 8) (1 :: byte)) (j mod 8) \<longleftrightarrow> j mod 8 = (i - 1) mod 8" 
    proof -
      have "j mod 8 < 8" by simp
      then show ?thesis unfolding bit_push_bit_iff bit_1_iff by auto
    qed
    ultimately show ?thesis using has_bitmap [of n j ?a s] has_bitmap [of n j a s] p j' i by (auto simp: nth_list_update bit_or_iff)
  qed
  then show ?thesis using p i by (simp add: set_result_def set_body_def Let_def)
qed

lemma or_codes: "rc \<in> {SQLITE_OK, SQLITE_NOMEM} \<Longrightarrow> rc' \<in> {SQLITE_OK, SQLITE_NOMEM} \<Longrightarrow>
   or rc rc' = (if rc = SQLITE_OK \<and> rc' = SQLITE_OK then SQLITE_OK else SQLITE_NOMEM)"
  by (auto simp: SQLITE_OK_def SQLITE_NOMEM_def)

lemma codes_differ: "SQLITE_OK \<noteq> SQLITE_NOMEM"
  by (simp add: SQLITE_OK_def SQLITE_NOMEM_def)

lemma set_values_result:
  assumes "\<And>k q v. bv_ok q \<Longrightarrow> iSize q = n \<Longrightarrow> iDivisor q \<noteq> 0 \<Longrightarrow> 1 \<le> v \<Longrightarrow> v \<le> n \<Longrightarrow> set_result alloc q (\<lambda>j. j = v - 1) (f k q v)"
  shows "bv_ok p \<Longrightarrow> iSize p = n \<Longrightarrow> iDivisor p \<noteq> 0 \<Longrightarrow> \<forall>v\<in>set vs. v \<le> n \<Longrightarrow> rc \<in> {SQLITE_OK, SQLITE_NOMEM} \<Longrightarrow> rc = SQLITE_NOMEM \<longrightarrow> (\<exists>k. \<not> alloc k) \<Longrightarrow>
    \<exists>rc' k' p'. set_values f k p vs rc = Some (rc', k', p') \<and> bv_ok p' \<and> iSize p' = n \<and> iDivisor p' \<noteq> 0 \<and>
      (rc' = SQLITE_OK \<and> rc = SQLITE_OK \<and> (\<forall>j<n. has p' j \<longleftrightarrow> Suc j \<in> set vs \<or> has p j) \<or>
       rc' = SQLITE_NOMEM \<and> (\<forall>j<n. has p' j \<longrightarrow> Suc j \<in> set vs \<or> has p j) \<and> (\<exists>k. \<not> alloc k))"
proof (induction vs arbitrary: k p rc)
  case (Cons v vs)
  show ?case
  proof (cases "v = 0")
    case True
    then show ?thesis using Cons.IH [OF Cons.prems(1-3) _ Cons.prems(5,6), of k] Cons.prems(4) by auto
  next
    case False
    then obtain rc1 k1 p1 where s: "f k p v = Some (rc1, k1, p1)" "bv_ok p1" "iSize p1 = n" "iDivisor p1 \<noteq> 0"
      "rc1 = SQLITE_OK \<and> (\<forall>j<n. has p1 j \<longleftrightarrow> j = v - 1 \<or> has p j) \<or>
       rc1 = SQLITE_NOMEM \<and> (\<forall>j<n. has p1 j \<longrightarrow> j = v - 1 \<or> has p j) \<and> (\<exists>k. \<not> alloc k)"
      using assms [of p v k] Cons.prems unfolding set_result_def by auto
    have "rc1 \<in> {SQLITE_OK, SQLITE_NOMEM}" using s(5) by auto
    note o = or_codes [OF Cons.prems(5) this]
    have "\<exists>rc' k' p'. set_values f k1 p1 vs (or rc rc1) = Some (rc', k', p') \<and> bv_ok p' \<and> iSize p' = n \<and> iDivisor p' \<noteq> 0 \<and>
      (rc' = SQLITE_OK \<and> or rc rc1 = SQLITE_OK \<and> (\<forall>j<n. has p' j \<longleftrightarrow> Suc j \<in> set vs \<or> has p1 j) \<or>
       rc' = SQLITE_NOMEM \<and> (\<forall>j<n. has p' j \<longrightarrow> Suc j \<in> set vs \<or> has p1 j) \<and> (\<exists>k. \<not> alloc k))"
      using s Cons.prems(4,5,6) o codes_differ by (intro Cons.IH) auto
    then obtain rc' k' p' where r: "set_values f k1 p1 vs (or rc rc1) = Some (rc', k', p')" "bv_ok p'" "iSize p' = n" "iDivisor p' \<noteq> 0"
      "rc' = SQLITE_OK \<and> or rc rc1 = SQLITE_OK \<and> (\<forall>j<n. has p' j \<longleftrightarrow> Suc j \<in> set vs \<or> has p1 j) \<or>
       rc' = SQLITE_NOMEM \<and> (\<forall>j<n. has p' j \<longrightarrow> Suc j \<in> set vs \<or> has p1 j) \<and> (\<exists>k. \<not> alloc k)" by blast
    have "Suc j \<in> set (v # vs) \<longleftrightarrow> j = v - 1 \<or> Suc j \<in> set vs" for j using False by auto
    moreover have "set_values f k p (v # vs) rc = Some (rc', k', p')" using s(1) r(1) False by simp
    ultimately show ?thesis using r(2-5) s(5) o codes_differ by (auto split: if_splits)
  qed
next
  case Nil
  then show ?case by (cases "rc = SQLITE_OK") auto
qed

lemma set_divided:
  assumes "bv_ok (Bitvec n s d (apSub ps))" and "1 \<le> i" and "i \<le> n"
    and "\<And>k q v. bv_ok q \<Longrightarrow> iSize q = divisor n \<Longrightarrow> 1 \<le> v \<Longrightarrow> v \<le> divisor n \<Longrightarrow> set_result alloc q (\<lambda>j. j = v - 1) (f k q v)"
  shows "set_result alloc (Bitvec n s d (apSub ps)) (\<lambda>j. j = i - 1) (set_body f alloc k (Bitvec n s d (apSub ps)) i)"
proof -
  have p: "3968 < n" "d = divisor n" "length ps = 62" "\<forall>k<62. case ps ! k of None \<Rightarrow> True | Some q \<Rightarrow> iSize q = d \<and> bv_ok q"
    using assms(1) by simp_all
  have d: "d \<noteq> 0" "(i - 1) div d < 62" "(i - 1) mod d < d"
    using divisor_facts [OF p(1)] bin_less [OF p(1), of "i - 1"] assms(2,3) p(2) by auto
  let ?b = "(i - 1) div d"
  show ?thesis
  proof (cases "sub_bitvec alloc k d (ps ! ?b)")
    case (Pair sq k1)
    show ?thesis
    proof (cases sq)
      case None
      then have "\<not> alloc k" using Pair by (auto simp: sub_bitvec_def split: option.splits if_splits)
      then show ?thesis using assms(1) p d Pair None by (auto simp: set_result_def set_body_def Let_def)
    next
      case (Some q)
      have q: "bv_ok q" "iSize q = d" "\<forall>j<d. has q j \<longleftrightarrow> (case ps ! ?b of None \<Rightarrow> False | Some q \<Rightarrow> has q j)"
        using Pair Some p(4) d(2) create_ok [of d] by (auto simp: sub_bitvec_def split: option.splits if_splits)
      obtain rc k2 q' where r: "f k1 q ((i - 1) mod d + 1) = Some (rc, k2, q')" "bv_ok q'" "iSize q' = d"
        "rc = SQLITE_OK \<and> (\<forall>j<d. has q' j \<longleftrightarrow> j = (i - 1) mod d \<or> has q j) \<or>
         rc = SQLITE_NOMEM \<and> (\<forall>j<d. has q' j \<longrightarrow> j = (i - 1) mod d \<or> has q j) \<and> (\<exists>k. \<not> alloc k)"
        using assms(4) [OF q(1), of "(i - 1) mod d + 1" k1] q(2) p(2) d(3) unfolding set_result_def by auto
      let ?p = "Bitvec n s d (apSub (ps[?b := Some q']))"
      have run: "set_body f alloc k (Bitvec n s d (apSub ps)) i = Some (rc, k2, ?p)"
        using p d Pair Some r(1) by (simp add: set_body_def Let_def)
      have ok: "bv_ok ?p" using p d(2) r(2,3) by (auto simp: nth_list_update)
      have h: "has ?p j \<longleftrightarrow> (if j div d = ?b then has q' (j mod d) else has (Bitvec n s d (apSub ps)) j)"
        "j div d = ?b \<Longrightarrow> has (Bitvec n s d (apSub ps)) j \<longleftrightarrow> has q (j mod d)" if j: "j < n" for j
      proof -
        have b: "j div d < 62" "j mod d < d" using bin_less [OF p(1) j] p(2) by simp_all
        show "has ?p j \<longleftrightarrow> (if j div d = ?b then has q' (j mod d) else has (Bitvec n s d (apSub ps)) j)"
          using has_sub [of d j "ps[?b := Some q']" n s] has_sub [of d j ps n s] b d(1,2) p(3) by (auto simp: nth_list_update)
        show "j div d = ?b \<Longrightarrow> has (Bitvec n s d (apSub ps)) j \<longleftrightarrow> has q (j mod d)"
          using has_sub [of d j ps n s] b d(1) p(3) q(3) by auto
      qed
      have e: "j = i - 1 \<longleftrightarrow> j div d = ?b \<and> j mod d = (i - 1) mod d" for j by (metis div_mult_mod_eq)
      have m: "j mod d < d" for j using d(1) by simp
      show ?thesis unfolding run set_result_def using ok r(4) h e m d(1) by (fastforce split: if_splits)
    qed
  qed
qed

lemma set_hash:
  assumes ok: "bv_ok (Bitvec n s d (aHash t))" and i: "1 \<le> i" "i \<le> n" and n: "n \<le> 4294967295"
    and f: "\<And>k q v. bv_ok q \<Longrightarrow> iSize q = n \<Longrightarrow> iDivisor q \<noteq> 0 \<Longrightarrow> 1 \<le> v \<Longrightarrow> v \<le> n \<Longrightarrow> set_result alloc q (\<lambda>j. j = v - 1) (f k q v)"
  shows "set_result alloc (Bitvec n s d (aHash t)) (\<lambda>j. j = i - 1) (set_body f alloc k (Bitvec n s d (aHash t)) i)"
proof -
  let ?p = "Bitvec n s d (aHash t)"
  have p: "3968 < n" "d = 0" "table_ok t" "s = count t" "count t < 124" "\<forall>v\<in>set t. v \<le> n" using ok by simp_all
  have has: "has ?p j \<longleftrightarrow> Suc j \<in> set t" for j using has_hash [OF p(1,3,5)] p(2) by simp
  obtain h where h: "probe 124 t (BITVEC_HASH (i - 1)) i = Some (h, i \<in> set t)" using finds_iff [OF p(3,5), of i] i(1) by auto
  have j: "Suc j = i \<longleftrightarrow> j = i - 1" for j using i(1) by auto
  show ?thesis
  proof (cases "i \<in> set t")
    case True
    then have "set_body f alloc k ?p i = Some (SQLITE_OK, k, ?p)" using h p by (simp add: set_body_def Let_def)
    moreover have "has ?p (i - 1)" using has True i(1) by simp
    ultimately show ?thesis using ok unfolding set_result_def by auto
  next
    case new: False
    show ?thesis
    proof (cases "t ! BITVEC_HASH (i - 1) = 0 \<and> s < 123 \<or> \<not> s \<ge> 62")
      case True
      have h': "probe 124 t (BITVEC_HASH (i - 1)) i = Some (h, False)" using h new by simp
      have ins: "table_ok (t[h := i])" "set (t[h := i]) - {0} = insert i (set t - {0})" "count (t[h := i]) = count t + 1"
        using insert_probed [OF p(3) _ h'] i(1) by auto
      have c: "count t + 1 < 124" using True p(4) by auto
      have v: "v \<le> n" if "v \<in> set (t[h := i])" for v
        using that set_update_subset_insert [of t h i] p(6) i(2) by auto
      have run: "set_body f alloc k ?p i = Some (SQLITE_OK, k, Bitvec n (s + 1) d (aHash (t[h := i])))"
        using h new p True by (simp add: set_body_def Let_def)
      have "has (Bitvec n (s + 1) d (aHash (t[h := i]))) j \<longleftrightarrow> j = i - 1 \<or> has ?p j" for j
        using has_hash [OF p(1) ins(1)] c ins(2,3) has [of j] j [of j] p(2) by auto
      then show ?thesis using run ins(1,3) c v p unfolding set_result_def by auto
    next
      case False
      show ?thesis
      proof (cases "alloc k")
        case None: False
        then have "set_body f alloc k ?p i = Some (SQLITE_NOMEM, Suc k, ?p)" using h new p False by (simp add: set_body_def Let_def)
        then show ?thesis using ok None unfolding set_result_def by auto
      next
        case True
        let ?d = "divisor n"
        let ?q = "Bitvec n s ?d (apSub (replicate 62 None))"
        have d: "?d \<noteq> 0" "(n + 62 - 1) div 62 = ?d" using divisor_facts [OF p(1)] by (simp_all add: divisor_def)
        have q: "bv_ok ?q" using p(1) by simp
        have none: "\<not> has ?q j" if "j < n" for j
          using has_sub [of ?d j "replicate 62 None" n s] d(1) bin_less [OF p(1) that] by simp
        obtain rc1 k1 p1 where s1: "f (Suc k) ?q i = Some (rc1, k1, p1)" "bv_ok p1" "iSize p1 = n" "iDivisor p1 \<noteq> 0"
          "rc1 = SQLITE_OK \<and> (\<forall>j<n. has p1 j \<longleftrightarrow> j = i - 1 \<or> has ?q j) \<or>
           rc1 = SQLITE_NOMEM \<and> (\<forall>j<n. has p1 j \<longrightarrow> j = i - 1 \<or> has ?q j) \<and> (\<exists>k. \<not> alloc k)"
          using f [OF q, of i "Suc k"] i d(1) unfolding set_result_def by auto
        have "rc1 \<in> {SQLITE_OK, SQLITE_NOMEM}" "rc1 = SQLITE_NOMEM \<longrightarrow> (\<exists>k. \<not> alloc k)" using s1(5) codes_differ by auto
        note c1 = this
        have sv: "\<exists>rc' k' p'. set_values f k1 p1 t rc1 = Some (rc', k', p') \<and> bv_ok p' \<and> iSize p' = n \<and> iDivisor p' \<noteq> 0 \<and>
          (rc' = SQLITE_OK \<and> rc1 = SQLITE_OK \<and> (\<forall>j<n. has p' j \<longleftrightarrow> Suc j \<in> set t \<or> has p1 j) \<or>
           rc' = SQLITE_NOMEM \<and> (\<forall>j<n. has p' j \<longrightarrow> Suc j \<in> set t \<or> has p1 j) \<and> (\<exists>k. \<not> alloc k))"
          by (rule set_values_result [OF f s1(2-4) p(6) c1])
        obtain rc2 k2 p2 where
          s2: "set_values f k1 p1 t rc1 = Some (rc2, k2, p2)" "bv_ok p2" "iSize p2 = n" "iDivisor p2 \<noteq> 0"
          "rc2 = SQLITE_OK \<and> rc1 = SQLITE_OK \<and> (\<forall>j<n. has p2 j \<longleftrightarrow> Suc j \<in> set t \<or> has p1 j) \<or>
           rc2 = SQLITE_NOMEM \<and> (\<forall>j<n. has p2 j \<longrightarrow> Suc j \<in> set t \<or> has p1 j) \<and> (\<exists>k. \<not> alloc k)"
          using sv by (elim exE conjE) (rule that)
        have run: "set_body f alloc k ?p i = Some (rc2, k2, p2)"
          using h new p False True d s1(1) s2(1) by (auto simp: set_body_def Let_def)
        have hp: "has p1 j \<longrightarrow> j = i - 1" if "j < n" for j using s1(5) none [OF that] that by auto
        have "rc2 = SQLITE_OK \<and> (\<forall>j<n. has p2 j \<longleftrightarrow> j = i - 1 \<or> has ?p j) \<or>
          rc2 = SQLITE_NOMEM \<and> (\<forall>j<n. has p2 j \<longrightarrow> j = i - 1 \<or> has ?p j) \<and> (\<exists>k. \<not> alloc k)"
          using s2(5)
        proof
          assume a: "rc2 = SQLITE_OK \<and> rc1 = SQLITE_OK \<and> (\<forall>j<n. has p2 j \<longleftrightarrow> Suc j \<in> set t \<or> has p1 j)"
          then have "\<forall>j<n. has p1 j \<longleftrightarrow> j = i - 1" using s1(5) none codes_differ by auto
          then show ?thesis using a has by auto
        next
          assume a: "rc2 = SQLITE_NOMEM \<and> (\<forall>j<n. has p2 j \<longrightarrow> Suc j \<in> set t \<or> has p1 j) \<and> (\<exists>k. \<not> alloc k)"
          then show ?thesis using hp has by blast
        qed
        then show ?thesis using s2(2-4) unfolding run set_result_def by auto
      qed
    qed
  qed
qed

lemma set_calls_result:
  "bv_ok p \<Longrightarrow> 1 \<le> i \<Longrightarrow> i \<le> iSize p \<Longrightarrow> iSize p \<le> 4294967295 \<Longrightarrow>
   need (iSize p) \<le> (if iDivisor p \<noteq> 0 then Suc fuel else fuel) \<Longrightarrow>
   set_result alloc p (\<lambda>j. j = i - 1) (set_calls fuel alloc k p i)"
proof (induction fuel arbitrary: p i k)
  case 0
  obtain n s d x where p: "p = Bitvec n s d x" by (cases p) auto
  have "1 < need n" if "3968 < n" using that by (simp add: need.simps [of n])
  moreover have "need n \<noteq> 0" by (subst need.simps) simp
  ultimately show ?case using 0 by (cases x) (auto simp: p split: if_splits)
next
  case (Suc fuel)
  obtain n s d x where p: "p = Bitvec n s d x" by (cases p) auto
  show ?case
  proof (cases x)
    case (aBitmap a)
    then show ?thesis using set_bitmap Suc.prems unfolding p by simp
  next
    case (aHash t)
    have n: "3968 < n" "d = 0" "n \<le> 4294967295" "need n \<le> Suc fuel" using Suc.prems unfolding p aHash by simp_all
    have "set_result alloc q (\<lambda>j. j = v - 1) (set_calls fuel alloc k q v)"
      if "bv_ok q" "iSize q = n" "iDivisor q \<noteq> 0" "1 \<le> v" "v \<le> n" for k q v
      using that n by (intro Suc.IH) simp_all
    moreover have "bv_ok (Bitvec n s d (aHash t))" "i \<le> n" using Suc.prems(1,3) unfolding p aHash by (simp_all del: bv_ok.simps)
    ultimately show ?thesis using set_hash [of n s d t i alloc "set_calls fuel alloc" k] Suc.prems(2) n(3) unfolding p aHash set_calls.simps by blast
  next
    case (apSub ps)
    have n: "3968 < n" "d = divisor n" "n \<le> 4294967295" using Suc.prems unfolding p apSub by simp_all
    have dv: "0 < divisor n" "divisor n < n" using divisor_facts [OF n(1)] by simp_all
    have "need n \<le> Suc (Suc fuel)" using Suc.prems(5) dv n(2) unfolding p by simp
    then have nd: "need (divisor n) \<le> fuel" using n(1) by (simp add: need.simps [of n])
    have "set_result alloc q (\<lambda>j. j = v - 1) (set_calls fuel alloc k q v)"
      if "bv_ok q" "iSize q = divisor n" "1 \<le> v" "v \<le> divisor n" for k q v
      using that n(3) dv nd by (intro Suc.IH) simp_all
    moreover have "bv_ok (Bitvec n s d (apSub ps))" "i \<le> n" using Suc.prems(1,3) unfolding p apSub by (simp_all del: bv_ok.simps)
    ultimately show ?thesis using set_divided [of n s d ps i alloc "set_calls fuel alloc" k] Suc.prems(2) unfolding p apSub set_calls.simps by blast
  qed
qed

section \<open>Clearing\<close>

lemma clear_result:
  "bv_ok p \<Longrightarrow> i < iSize p \<Longrightarrow> \<exists>p'. clear_loop p i = Some p' \<and> bv_ok p' \<and> iSize p' = iSize p \<and> (\<forall>j<iSize p. has p' j \<longleftrightarrow> j \<noteq> i \<and> has p j)"
proof (induction p i rule: clear_loop.induct)
  case (1 n s d x i)
  have i: "i < n" using "1.prems"(2) by simp
  show ?case
  proof (cases x)
    case (aBitmap a)
    then have p: "n \<le> 3968" "d = 0" "length a = 496" using "1.prems"(1) by simp_all
    have i': "i < 3968" "i div 8 < 496" using i p(1) by (auto simp: less_mult_imp_div_less)
    let ?a = "a[i div 8 := and (a ! (i div 8)) (not (push_bit (i mod 8) 1))]"
    have "has (Bitvec n s 0 (aBitmap ?a)) j \<longleftrightarrow> j \<noteq> i \<and> has (Bitvec n s 0 (aBitmap a)) j" if j: "j < n" for j
    proof -
      have j': "j < 3968" "j div 8 < 496" "j mod 8 < 8" using j p(1) by (auto simp: less_mult_imp_div_less)
      have e: "j = i \<longleftrightarrow> j div 8 = i div 8 \<and> j mod 8 = i mod 8" by (metis div_mult_mod_eq)
      have "bit (not (push_bit (i mod 8) (1 :: byte))) (j mod 8) \<longleftrightarrow> j mod 8 \<noteq> i mod 8"
        using j'(3) unfolding bit_not_iff bit_push_bit_iff bit_1_iff by auto
      then show ?thesis using has_bitmap [of n j ?a s] has_bitmap [of n j a s] p j' i' e by (auto simp: nth_list_update bit_and_iff)
    qed
    then show ?thesis using p i' by (simp add: aBitmap)
  next
    case (aHash t)
    then have p: "3968 < n" "d = 0" "table_ok t" "s = count t" "count t < 124" "\<forall>v\<in>set t. v \<le> n" using "1.prems"(1) by simp_all
    obtain t' where t': "rebuild (i + 1) t 0 (replicate 124 0) = Some (count t', t')" "table_ok t'"
      "set t' - {0} = set t - {0, i + 1}" "count t' \<le> count t"
      using rebuild_ok [OF empty_table(1) refl, of t "i + 1"] empty_table(2,3) p(5) by auto
    have c: "count t' < 124" using t'(4) p(5) by simp
    have v: "v \<le> n" if "v \<in> set t'" for v using that t'(3) p(6) by (cases "v = 0") auto
    have "has (Bitvec n (count t') d (aHash t')) j \<longleftrightarrow> j \<noteq> i \<and> has (Bitvec n s d (aHash t)) j" for j
      using has_hash [OF p(1) t'(2) c] has_hash [OF p(1,3,5)] t'(3) p(2) by auto
    then show ?thesis using t' p c v by (auto simp: aHash)
  next
    case (apSub ps)
    have p: "3968 < n" "d = divisor n" "length ps = 62" "\<forall>k<62. case ps ! k of None \<Rightarrow> True | Some q \<Rightarrow> iSize q = d \<and> bv_ok q"
      using "1.prems"(1) unfolding apSub by simp_all
    have d: "d \<noteq> 0" "i div d < 62" "i mod d < d" using divisor_facts [OF p(1)] bin_less [OF p(1) i] p(2) by simp_all
    have hs: "has (Bitvec n s d (apSub ps)) j \<longleftrightarrow> (case ps ! (j div d) of None \<Rightarrow> False | Some q \<Rightarrow> has q (j mod d))" "j div d < 62" "j mod d < d"
      if "j < n" for j using has_sub [of d j ps n s] bin_less [OF p(1) that] p(2,3) d(1) by simp_all
    show ?thesis
    proof (cases "ps ! (i div d)")
      case None
      have "\<not> has (Bitvec n s d (apSub ps)) i" using hs(1) [OF i] None by simp
      then show ?thesis using "1.prems"(1) None p(3) d unfolding apSub by auto
    next
      case (Some q)
      have "case ps ! (i div d) of None \<Rightarrow> True | Some q \<Rightarrow> iSize q = d \<and> bv_ok q" using p(4) d(2) by blast
      then have q: "iSize q = d" "bv_ok q" using Some by simp_all
      have "i div d < length ps" using d(2) p(3) by simp
      from "1.IH" [OF d(1) apSub this Some q(2)] q(1) d(3) obtain q' where
        q': "clear_loop q (i mod d) = Some q'" "bv_ok q'" "iSize q' = d" "\<forall>j<d. has q' j \<longleftrightarrow> j \<noteq> i mod d \<and> has q j" by auto
      let ?p = "Bitvec n s d (apSub (ps[i div d := Some q']))"
      have run: "clear_loop (Bitvec n s d x) i = Some ?p" using d p(3) Some q'(1) by (simp add: apSub)
      have ok: "bv_ok ?p" using p d(2) q'(2,3) by (auto simp: nth_list_update)
      have "has ?p j \<longleftrightarrow> j \<noteq> i \<and> has (Bitvec n s d (apSub ps)) j" if j: "j < n" for j
      proof -
        have e: "j = i \<longleftrightarrow> j div d = i div d \<and> j mod d = i mod d" by (metis div_mult_mod_eq)
        have "has ?p j \<longleftrightarrow> (case ps[i div d := Some q'] ! (j div d) of None \<Rightarrow> False | Some q \<Rightarrow> has q (j mod d))"
          using has_sub [of d j "ps[i div d := Some q']" n s] hs(2) [OF j] d(1) p(3) by simp
        also have "\<dots> \<longleftrightarrow> j \<noteq> i \<and> has (Bitvec n s d (apSub ps)) j"
        proof (cases "j div d = i div d")
          case True
          then show ?thesis using hs(1,3) [OF j] q'(4) Some d(2) p(3) e by simp
        next
          case False
          then show ?thesis using hs(1) [OF j] e by auto
        qed
        finally show ?thesis .
      qed
      then show ?thesis using run ok by (intro exI [of _ ?p]) (auto simp: apSub simp del: clear_loop.simps)
    qed
  qed
qed

section \<open>Properties\<close>

text \<open>A history of calls on a new set, with whether all of them reported success.\<close>

datatype bit_call = Set_bit nat | Clear_bit nat

fun bit_calls :: "nat \<Rightarrow> (nat \<Rightarrow> bool) \<Rightarrow> bit_call list \<Rightarrow> bool \<Rightarrow> nat \<Rightarrow> Bitvec option \<Rightarrow> (bool \<times> Bitvec option) option" where
  "bit_calls fuel alloc [] ok k p = Some (ok, p)"
| "bit_calls fuel alloc (Set_bit i # cs) ok k p =
     (case sqlite3BitvecSet fuel alloc k p i of None \<Rightarrow> None | Some (rc, k, p) \<Rightarrow> bit_calls fuel alloc cs (ok \<and> rc = SQLITE_OK) k p)"
| "bit_calls fuel alloc (Clear_bit i # cs) ok k p =
     (case sqlite3BitvecClear p i of None \<Rightarrow> None | Some p \<Rightarrow> bit_calls fuel alloc cs ok k p)"

fun bit_set :: "bit_call list \<Rightarrow> nat set \<Rightarrow> nat set" where
  "bit_set [] S = S"
| "bit_set (Set_bit i # cs) S = bit_set cs (insert i S)"
| "bit_set (Clear_bit i # cs) S = bit_set cs (S - {i})"

definition call_bit :: "bit_call \<Rightarrow> nat" where
  "call_bit c = (case c of Set_bit i \<Rightarrow> i | Clear_bit i \<Rightarrow> i)"

definition stands_for :: "bool \<Rightarrow> Bitvec \<Rightarrow> nat set \<Rightarrow> bool" where
  "stands_for ok p S \<longleftrightarrow> (\<forall>j<iSize p. (has p j \<longrightarrow> Suc j \<in> S) \<and> (ok \<longrightarrow> Suc j \<in> S \<longrightarrow> has p j))"

lemma bit_calls_stand:
  assumes "n \<le> 4294967295"
  shows "\<forall>c\<in>set cs. 1 \<le> call_bit c \<and> call_bit c \<le> n \<Longrightarrow> bv_ok p \<Longrightarrow> iSize p = n \<Longrightarrow> stands_for ok p S \<Longrightarrow>
    \<exists>ok' p'. bit_calls 9 alloc cs ok k (Some p) = Some (ok', Some p') \<and> bv_ok p' \<and> iSize p' = n \<and> stands_for ok' p' (bit_set cs S) \<and>
      ((\<forall>k. alloc k) \<and> ok \<longrightarrow> ok')"
proof (induction cs arbitrary: p ok k S)
  case (Cons c cs)
  show ?case
  proof (cases c)
    case (Set_bit i)
    then have i: "1 \<le> i" "i \<le> iSize p" using Cons.prems(1,3) by (simp_all add: call_bit_def)
    have "need (iSize p) \<le> 9" using need_bound [of "iSize p"] assms Cons.prems(3) by simp
    then have "set_result alloc p (\<lambda>j. j = i - 1) (set_calls 9 alloc k p i)"
      using set_calls_result [OF Cons.prems(2) i, of 9 alloc k] assms Cons.prems(3) by simp
    then obtain rc k' p' where r: "set_calls 9 alloc k p i = Some (rc, k', p')" "bv_ok p'" "iSize p' = n"
      "rc = SQLITE_OK \<and> (\<forall>j<n. has p' j \<longleftrightarrow> j = i - 1 \<or> has p j) \<or>
       rc = SQLITE_NOMEM \<and> (\<forall>j<n. has p' j \<longrightarrow> j = i - 1 \<or> has p j) \<and> (\<exists>k. \<not> alloc k)"
      using Cons.prems(3) unfolding set_result_def by auto
    have e: "j = i - 1 \<longleftrightarrow> Suc j = i" for j using i(1) by auto
    have "stands_for (ok \<and> rc = SQLITE_OK) p' (insert i S)"
      using r(4)
    proof
      assume "rc = SQLITE_OK \<and> (\<forall>j<n. has p' j \<longleftrightarrow> j = i - 1 \<or> has p j)"
      then show ?thesis using Cons.prems(3,4) r(3) unfolding stands_for_def e by simp
    next
      assume "rc = SQLITE_NOMEM \<and> (\<forall>j<n. has p' j \<longrightarrow> j = i - 1 \<or> has p j) \<and> (\<exists>k. \<not> alloc k)"
      then show ?thesis using Cons.prems(3,4) r(3) codes_differ unfolding stands_for_def e by auto
    qed
    note st = this
    have cs: "\<forall>c\<in>set cs. 1 \<le> call_bit c \<and> call_bit c \<le> n" using Cons.prems(1) by simp
    obtain ok' p'' where
      "bit_calls 9 alloc cs (ok \<and> rc = SQLITE_OK) k' (Some p') = Some (ok', Some p'')" "bv_ok p''" "iSize p'' = n"
      "stands_for ok' p'' (bit_set cs (insert i S))" "(\<forall>k. alloc k) \<and> (ok \<and> rc = SQLITE_OK) \<longrightarrow> ok'"
      using Cons.IH [OF cs r(2,3) st, of k'] by (elim exE conjE) (rule that)
    moreover have "(\<forall>k. alloc k) \<longrightarrow> rc = SQLITE_OK" using r(4) by auto
    ultimately show ?thesis using r(1) by (simp add: Set_bit sqlite3BitvecSet_def)
  next
    case (Clear_bit i)
    then have i: "1 \<le> i" "i - 1 < iSize p" using Cons.prems(1,3) by (auto simp: call_bit_def)
    obtain p' where r: "clear_loop p (i - 1) = Some p'" "bv_ok p'" "iSize p' = n" "\<forall>j<n. has p' j \<longleftrightarrow> j \<noteq> i - 1 \<and> has p j"
      using clear_result [OF Cons.prems(2) i(2)] Cons.prems(3) by auto
    have "stands_for ok p' (S - {i})" using r(3,4) Cons.prems(3,4) i(1) by (auto simp: stands_for_def)
    from Cons.IH [OF _ r(2,3) this, of k] Cons.prems(1) show ?thesis using r(1) by (simp add: Clear_bit sqlite3BitvecClear_def)
  qed
qed simp

text \<open>
  C19: a bit vector is a set of numbers. Whatever numbers from 1 to its size are set and cleared, every call returns (nine calls inside each
  other are enough for any size), and a test answers for every number of 32 bits: with all calls successful it is membership in the set the calls
  describe; when memory has been missing no number tests positive that is not in that set. With memory for every request all calls succeed.
\<close>

theorem bitvec_is_set:
  assumes "n < 2 ^ 32" and "\<forall>c\<in>set cs. 1 \<le> call_bit c \<and> call_bit c \<le> n"
  shows "\<exists>ok p. bit_calls 9 alloc cs True 0 (Some (sqlite3BitvecCreate n)) = Some (ok, p) \<and> ((\<forall>k. alloc k) \<longrightarrow> ok) \<and>
    (\<forall>i<2 ^ 32. \<exists>b. sqlite3BitvecTest p i = Some b \<and> (b \<longrightarrow> i \<in> bit_set cs {}) \<and> (ok \<and> i \<in> bit_set cs {} \<longrightarrow> b))"
proof -
  have n: "n \<le> 4294967295" using assms(1) by simp
  have c: "bv_ok (sqlite3BitvecCreate n)" "iSize (sqlite3BitvecCreate n) = n" "stands_for True (sqlite3BitvecCreate n) {}"
    using create_ok [of n] by (auto simp: stands_for_def)
  obtain ok p where r: "bit_calls 9 alloc cs True 0 (Some (sqlite3BitvecCreate n)) = Some (ok, Some p)" "bv_ok p" "iSize p = n"
    "stands_for ok p (bit_set cs {})" "(\<forall>k. alloc k) \<longrightarrow> ok"
    using bit_calls_stand [OF n assms(2) c, of alloc 0] by auto
  have range: "S \<subseteq> {1..n} \<Longrightarrow> bit_set cs S \<subseteq> {1..n}" for S
    using assms(2)
  proof (induction cs arbitrary: S)
    case (Cons c cs)
    have "bit_set (c # cs) S = bit_set cs (case c of Set_bit i \<Rightarrow> insert i S | Clear_bit i \<Rightarrow> S - {i})" by (cases c) simp_all
    moreover have "(case c of Set_bit i \<Rightarrow> insert i S | Clear_bit i \<Rightarrow> S - {i}) \<subseteq> {1..n}"
      using Cons.prems by (auto simp: call_bit_def split: bit_call.splits)
    ultimately show ?case using Cons.IH Cons.prems(2) by simp
  qed simp
  have "\<exists>b. sqlite3BitvecTest (Some p) i = Some b \<and> (b \<longrightarrow> i \<in> bit_set cs {}) \<and> (ok \<and> i \<in> bit_set cs {} \<longrightarrow> b)" if i: "i < 2 ^ 32" for i
  proof (cases "1 \<le> i \<and> i \<le> n")
    case True
    then have w: "(i + 2 ^ 32 - 1) mod 2 ^ 32 = i - 1" using i by (simp add: mod_if)
    have l: "i - 1 < iSize p" "Suc (i - 1) = i" using True r(3) by auto
    have "sqlite3BitvecTest (Some p) i = Some (has p (i - 1))"
      using test_defined [OF r(2) l(1)] l(1) w by (simp add: sqlite3BitvecTest_def sqlite3BitvecTestNotNull_def)
    moreover have "(has p (i - 1) \<longrightarrow> i \<in> bit_set cs {}) \<and> (ok \<longrightarrow> i \<in> bit_set cs {} \<longrightarrow> has p (i - 1))"
      using r(4) l unfolding stands_for_def by metis
    ultimately show ?thesis by blast
  next
    case False
    then have "i \<notin> bit_set cs {}" using range [of "{}"] by auto
    moreover have "iSize p \<le> (i + 2 ^ 32 - 1) mod 2 ^ 32" using False i assms(1) r(3) by (cases "i = 0") (auto simp: mod_if)
    then have "sqlite3BitvecTest (Some p) i = Some False" by (simp add: sqlite3BitvecTest_def sqlite3BitvecTestNotNull_def)
    ultimately show ?thesis by blast
  qed
  then show ?thesis using r(1,5) by blast
qed

theorem bitvec_is_set_witness:
  "\<exists>ok p. bit_calls 9 (\<lambda>_. True) [Set_bit 3, Set_bit 5000, Clear_bit 3] True 0 (Some (sqlite3BitvecCreate 100000)) = Some (ok, p) \<and> ok \<and>
     sqlite3BitvecTest p 5000 = Some True \<and> sqlite3BitvecTest p 3 = Some False"
proof -
  have "\<forall>c\<in>set [Set_bit 3, Set_bit 5000, Clear_bit 3]. 1 \<le> call_bit c \<and> call_bit c \<le> 100000" by (simp add: call_bit_def)
  from bitvec_is_set [OF _ this, of "\<lambda>_. True"] obtain ok p where
    r: "bit_calls 9 (\<lambda>_. True) [Set_bit 3, Set_bit 5000, Clear_bit 3] True 0 (Some (sqlite3BitvecCreate 100000)) = Some (ok, p)" "ok"
    and t: "\<forall>i<2 ^ 32. \<exists>b. sqlite3BitvecTest p i = Some b \<and> (b \<longrightarrow> i \<in> bit_set [Set_bit 3, Set_bit 5000, Clear_bit 3] {}) \<and>
      (ok \<and> i \<in> bit_set [Set_bit 3, Set_bit 5000, Clear_bit 3] {} \<longrightarrow> b)"
    by (auto simp del: bit_calls.simps bit_set.simps)
  have "sqlite3BitvecTest p 5000 = Some True" using t [rule_format, of 5000] r(2) by auto
  moreover have "sqlite3BitvecTest p 3 = Some False" using t [rule_format, of 3] by auto
  ultimately show ?thesis using r by blast
qed

end
