(* ===== verification/Ys_Decimal.thy ===== *)
theory Ys_Decimal
  imports Ys_Prelude Complex_Main
begin

text \<open>
  Decimal arithmetic of any precision, the extension \<^verbatim>\<open>decimal.c\<close> in \<^verbatim>\<open>shell.c\<close>: reading a number, printing it,
  comparing, adding, multiplying, and the aggregate that sums. Each operation asks for memory several times; whether request
  \<open>k\<close> is granted is \<open>alloc k\<close>.
\<close>

section \<open>The object\<close>

text \<open>\<^verbatim>\<open>a\<close> points to \<^verbatim>\<open>nDigit\<close> digits, the most significant first; the list has exactly those.\<close>

record Decimal =
  dc_sign :: bool
  dc_oom :: bool
  dc_isNull :: bool
  dc_isInit :: bool
  dc_nFrac :: int
  dc_a :: "int list"

definition nDigit :: "Decimal \<Rightarrow> int" where
  "nDigit p = int (length (dc_a p))"

definition c_space :: "char \<Rightarrow> bool" where
  "c_space c \<longleftrightarrow> c \<in> {CHR '' '', CHR 0x09, CHR 0x0A, CHR 0x0B, CHR 0x0C, CHR 0x0D}"

definition c_digit :: "char \<Rightarrow> bool" where
  "c_digit c \<longleftrightarrow> 48 \<le> (of_char c :: nat) \<and> (of_char c :: nat) \<le> 57"

definition digit_of :: "char \<Rightarrow> int" where
  "digit_of c = (let n = of_char c :: nat in int n - 48)"

section \<open>Reading a number\<close>

fun exponent_loop :: "string \<Rightarrow> int \<Rightarrow> int" where
  "exponent_loop [] iExp = iExp"
| "exponent_loop (c # z) iExp =
     (if iExp < 1000000 then exponent_loop z (if c_digit c then iExp * 10 + digit_of c else iExp) else iExp)"

definition decimal_exponent :: "string \<Rightarrow> int" where
  "decimal_exponent z =
     (case z of
        [] \<Rightarrow> 0
      | c # r \<Rightarrow>
          if c = CHR ''-'' then - exponent_loop r 0
          else if c = CHR ''+'' then exponent_loop r 0
          else exponent_loop z 0)"

text \<open>The digits, the mark of the decimal point and the exponent.\<close>

fun scan_loop :: "string \<Rightarrow> int list \<Rightarrow> int \<Rightarrow> int list \<times> int \<times> int" where
  "scan_loop [] a nFrac = (a, nFrac, 0)"
| "scan_loop (c # z) a nFrac =
     (if c_digit c then scan_loop z (a @ [digit_of c]) nFrac
      else if c = CHR ''.'' then scan_loop z a (int (length a) + 1)
      else if c = CHR ''e'' \<or> c = CHR ''E'' then (a, nFrac, decimal_exponent z)
      else scan_loop z a nFrac)"

text \<open>Moving the decimal point: the digits, the number of fraction digits, and how many zeros the array has to grow by.\<close>

definition scale_up :: "int list \<Rightarrow> int \<Rightarrow> int \<Rightarrow> int list \<times> int \<times> int" where
  "scale_up a nFrac iExp =
     (let (nFrac, iExp) =
        (if nFrac > 0 then if iExp \<le> nFrac then (nFrac - iExp, 0) else (0, iExp - nFrac) else (nFrac, iExp))
      in (if iExp > 0 then (a @ replicate (nat iExp) 0, nFrac, iExp) else (a, nFrac, 0)))"

definition scale_down :: "int list \<Rightarrow> int \<Rightarrow> int \<Rightarrow> int list \<times> int \<times> int" where
  "scale_down a nFrac iExp =
     (let nExtra = int (length a) - nFrac - 1;
          (nFrac, iExp) =
            (if nExtra \<noteq> 0 then
               if nExtra \<ge> iExp then (nFrac + iExp, 0) else (int (length a) - 1, iExp - nExtra)
             else (nFrac, iExp))
      in (if iExp > 0 then (replicate (nat iExp) 0 @ a, nFrac + iExp, iExp) else (a, nFrac, 0)))"

text \<open>
  The bytes of the text are \<open>take n zIn\<close>; what is in memory behind them is the rest of \<open>zIn\<close>, in which the search for the first character
  that is no space may run. \<open>None\<close> is reading behind it.
\<close>

definition decimal_new :: "(nat \<Rightarrow> bool) \<Rightarrow> nat \<Rightarrow> string \<Rightarrow> Decimal option option" where
  "decimal_new alloc n zIn =
     (let z = dropWhile c_space zIn; k = length zIn - length z in
      if \<not> (alloc 0 \<and> alloc 1) then Some None
      else if z = [] then None
      else
        let sign = (hd z = CHR ''-'');
            i = (if hd z = CHR ''-'' \<or> hd z = CHR ''+'' then k + 1 else k);
            (a, nFrac, iExp) = scan_loop (dropWhile (\<lambda>c. c = CHR ''0'') (drop i (take n zIn))) [] 0;
            nFrac = (if nFrac \<noteq> 0 then int (length a) - (nFrac - 1) else nFrac);
            (a, nFrac, grow) =
              (if iExp > 0 then scale_up a nFrac iExp else if iExp < 0 then scale_down a nFrac (- iExp) else (a, nFrac, 0))
        in (if grow > 0 \<and> \<not> alloc 2 then Some None
            else Some (Some \<lparr>dc_sign = sign, dc_oom = False, dc_isNull = False, dc_isInit = True, dc_nFrac = nFrac, dc_a = a\<rparr>)))"

text \<open>An argument of an SQL function is null or a text, which has a byte 0 behind it.\<close>

definition decimal_arg :: "(nat \<Rightarrow> bool) \<Rightarrow> string option \<Rightarrow> Decimal option option" where
  "decimal_arg alloc pIn =
     (case pIn of
        None \<Rightarrow>
          if alloc 0 then
            Some (Some \<lparr>dc_sign = False, dc_oom = False, dc_isNull = True, dc_isInit = True, dc_nFrac = 0, dc_a = []\<rparr>)
          else Some None
      | Some z \<Rightarrow> decimal_new alloc (length z) (z @ [CHR 0x00]))"

section \<open>Printing\<close>

datatype result = error_nomem | result_null | result_text string | result_int int | no_result

definition digit_char :: "int \<Rightarrow> char" where
  "digit_char d = char_of (nat (d + 48))"

fun skip_zeros :: "int list \<Rightarrow> int \<Rightarrow> int list \<times> int" where
  "skip_zeros (d # a) n = (if n > 1 \<and> d = 0 then skip_zeros a (n - 1) else (d # a, n))"
| "skip_zeros [] n = ([], n)"

definition decimal_text :: "Decimal \<Rightarrow> string" where
  "decimal_text p =
     (let sign = (if dc_a p = [] \<or> dc_a p = [0] then False else dc_sign p);
          n = nDigit p - dc_nFrac p;
          (a, n) = skip_zeros (dc_a p) n
      in (if sign then ''-'' else '''') @ (if nDigit p - dc_nFrac p \<le> 0 then ''0'' else '''') @
         List.map digit_char (take (nat n) a) @
         (if dc_nFrac p \<noteq> 0 then CHR ''.'' # List.map digit_char (drop (nat n) a) else ''''))"

definition decimal_result :: "bool \<Rightarrow> Decimal option \<Rightarrow> result" where
  "decimal_result alloc p =
     (case p of
        None \<Rightarrow> error_nomem
      | Some p \<Rightarrow>
          if dc_oom p then error_nomem
          else if dc_isNull p then result_null
          else if \<not> alloc then error_nomem
          else result_text (decimal_text p))"

definition decimalFunc :: "(nat \<Rightarrow> bool) \<Rightarrow> bool \<Rightarrow> string option \<Rightarrow> result option" where
  "decimalFunc alloc allocz arg = map_option (decimal_result allocz) (decimal_arg alloc arg)"

section \<open>Comparing\<close>

fun digits_cmp :: "int list \<Rightarrow> int list \<Rightarrow> int" where
  "digits_cmp (a # x) (b # y) = (if a = b then digits_cmp x y else a - b)"
| "digits_cmp _ _ = 0"

definition decimal_cmp_abs :: "Decimal \<Rightarrow> Decimal \<Rightarrow> int" where
  "decimal_cmp_abs pA pB =
     (let nASig = nDigit pA - dc_nFrac pA; nBSig = nDigit pB - dc_nFrac pB in
      if nASig \<noteq> nBSig then nASig - nBSig
      else
        let n = (if nDigit pA > nDigit pB then nDigit pB else nDigit pA);
            rc = digits_cmp (take (nat n) (dc_a pA)) (take (nat n) (dc_a pB))
        in if rc = 0 then nDigit pA - nDigit pB else rc)"

definition decimal_cmp :: "Decimal \<Rightarrow> Decimal \<Rightarrow> int" where
  "decimal_cmp pA pB =
     (if dc_sign pA \<noteq> dc_sign pB then if dc_sign pA then - 1 else 1
      else if dc_sign pA then decimal_cmp_abs pB pA else decimal_cmp_abs pA pB)"

definition decimalCmpFunc :: "(nat \<Rightarrow> bool) \<Rightarrow> (nat \<Rightarrow> bool) \<Rightarrow> string option \<Rightarrow> string option \<Rightarrow> result option" where
  "decimalCmpFunc allocA allocB argA argB =
     Option.bind (decimal_arg allocA argA) (\<lambda>pA.
       case pA of
         None \<Rightarrow> Some error_nomem
       | Some pA \<Rightarrow>
           if dc_isNull pA then Some no_result
           else Option.bind (decimal_arg allocB argB) (\<lambda>pB.
             case pB of
               None \<Rightarrow> Some error_nomem
             | Some pB \<Rightarrow>
                 if dc_isNull pB then Some no_result
                 else
                   let rc = decimal_cmp pA pB
                   in Some (result_int (if rc < 0 then - 1 else if rc > 0 then 1 else rc))))"

text \<open>The keys of a collation have nothing behind them that is known.\<close>

definition decimalCollFunc :: "(nat \<Rightarrow> bool) \<Rightarrow> (nat \<Rightarrow> bool) \<Rightarrow> string \<Rightarrow> string \<Rightarrow> int option" where
  "decimalCollFunc allocA allocB zA zB =
     Option.bind (decimal_new allocA (length zA) zA) (\<lambda>pA.
       Option.bind (decimal_new allocB (length zB) zB) (\<lambda>pB.
         Some (case (pA, pB) of (Some pA, Some pB) \<Rightarrow> decimal_cmp pA pB | _ \<Rightarrow> 0)))"

section \<open>Adding\<close>

definition decimal_expand :: "bool \<Rightarrow> Decimal \<Rightarrow> int \<Rightarrow> int \<Rightarrow> Decimal" where
  "decimal_expand alloc p nDig nFrac =
     (let nAddFrac = nFrac - dc_nFrac p; nAddSig = (nDig - nDigit p) - nAddFrac in
      if nAddFrac = 0 \<and> nAddSig = 0 then p
      else if \<not> alloc then p\<lparr>dc_oom := True, dc_a := []\<rparr>
      else p\<lparr>dc_a := replicate (nat nAddSig) 0 @ dc_a p @ replicate (nat nAddFrac) 0, dc_nFrac := dc_nFrac p + nAddFrac\<rparr>)"

fun add_loop :: "int list \<Rightarrow> int list \<Rightarrow> nat \<Rightarrow> int \<Rightarrow> int list" where
  "add_loop aA aB 0 carry = aA"
| "add_loop aA aB (Suc i) carry =
     (let x = aA ! i + aB ! i + carry
      in if x \<ge> 10 then add_loop (aA[i := x - 10]) aB i 1 else add_loop (aA[i := x]) aB i 0)"

text \<open>The result replaces the digits of \<open>pA\<close> one by one, behind the place that is read next.\<close>

fun sub_loop :: "int list \<Rightarrow> int list \<Rightarrow> nat \<Rightarrow> int \<Rightarrow> int list \<Rightarrow> int list" where
  "sub_loop aA aB 0 borrow r = r"
| "sub_loop aA aB (Suc i) borrow r =
     (let x = aA ! i - aB ! i - borrow
      in if x < 0 then sub_loop aA aB i 1 ((x + 10) # r) else sub_loop aA aB i 0 (x # r))"

definition add_digits :: "Decimal \<Rightarrow> Decimal \<Rightarrow> Decimal" where
  "add_digits pA pB =
     (let n = length (dc_a pA) in
      if dc_sign pA = dc_sign pB then pA\<lparr>dc_a := add_loop (dc_a pA) (dc_a pB) n 0\<rparr>
      else if digits_cmp (dc_a pA) (dc_a pB) < 0 then
        pA\<lparr>dc_sign := \<not> dc_sign pA, dc_a := sub_loop (dc_a pB) (dc_a pA) n 0 []\<rparr>
      else pA\<lparr>dc_a := sub_loop (dc_a pA) (dc_a pB) n 0 []\<rparr>)"

definition decimal_add :: "(nat \<Rightarrow> bool) \<Rightarrow> Decimal option \<Rightarrow> Decimal option \<Rightarrow> Decimal option" where
  "decimal_add alloc pA pB =
     (case pA of
        None \<Rightarrow> None
      | Some A \<Rightarrow>
          (case pB of
             None \<Rightarrow> Some (A\<lparr>dc_oom := True\<rparr>)
           | Some B \<Rightarrow>
               if dc_oom A \<or> dc_oom B then Some (A\<lparr>dc_oom := True\<rparr>)
               else if dc_isNull A \<or> dc_isNull B then Some (A\<lparr>dc_isNull := True\<rparr>)
               else
                 let nSig = nDigit A - dc_nFrac A;
                     nSig = (if nSig \<noteq> 0 \<and> dc_a A ! 0 = 0 then nSig - 1 else nSig);
                     nSig = (if nSig < nDigit B - dc_nFrac B then nDigit B - dc_nFrac B else nSig);
                     nFrac = (if dc_nFrac A < dc_nFrac B then dc_nFrac B else dc_nFrac A);
                     nDig = nSig + nFrac + 1;
                     A = decimal_expand (alloc 0) A nDig nFrac;
                     B = decimal_expand (alloc 1) B nDig nFrac
                 in if dc_oom A \<or> dc_oom B then Some (A\<lparr>dc_oom := True\<rparr>) else Some (add_digits A B)))"

definition decimalAddFunc :: "(nat \<Rightarrow> nat \<Rightarrow> bool) \<Rightarrow> string option \<Rightarrow> string option \<Rightarrow> result option" where
  "decimalAddFunc alloc argA argB =
     Option.bind (decimal_arg (alloc 0) argA) (\<lambda>pA.
       Option.bind (decimal_arg (alloc 1) argB) (\<lambda>pB.
         Some (decimal_result (alloc 3 0) (decimal_add (alloc 2) pA pB))))"

definition decimalSubFunc :: "(nat \<Rightarrow> nat \<Rightarrow> bool) \<Rightarrow> string option \<Rightarrow> string option \<Rightarrow> result option" where
  "decimalSubFunc alloc argA argB =
     Option.bind (decimal_arg (alloc 0) argA) (\<lambda>pA.
       Option.bind (decimal_arg (alloc 1) argB) (\<lambda>pB.
         Some (case pB of
             None \<Rightarrow> error_nomem
           | Some B \<Rightarrow> decimal_result (alloc 3 0) (decimal_add (alloc 2) pA (Some (B\<lparr>dc_sign := \<not> dc_sign B\<rparr>))))))"

section \<open>Summing\<close>

text \<open>
  The context of the aggregate, \<open>None\<close> before the first call, which gets it filled with zeros. Without memory for the context a call does
  nothing.
\<close>

definition aggregate_context :: "bool \<Rightarrow> Decimal option \<Rightarrow> Decimal option" where
  "aggregate_context alloc cx =
     (case cx of
        Some p \<Rightarrow> Some p
      | None \<Rightarrow>
          if alloc then
            Some \<lparr>dc_sign = False, dc_oom = False, dc_isNull = False, dc_isInit = False, dc_nFrac = 0, dc_a = []\<rparr>
          else None)"

definition decimalSumStep :: "(nat \<Rightarrow> nat \<Rightarrow> bool) \<Rightarrow> Decimal option \<Rightarrow> string option \<Rightarrow> Decimal option option" where
  "decimalSumStep alloc cx arg =
     (case aggregate_context (alloc 0 0) cx of
        None \<Rightarrow> Some None
      | Some p \<Rightarrow>
          let p = (if \<not> dc_isInit p then p\<lparr>dc_isInit := True, dc_oom := dc_oom p \<or> \<not> alloc 0 1, dc_a := [0], dc_nFrac := 0\<rparr> else p)
          in (if arg = None then Some (Some p)
              else map_option (\<lambda>pArg. decimal_add (alloc 2) (Some p) pArg) (decimal_arg (alloc 1) arg)))"

definition decimalSumInverse :: "(nat \<Rightarrow> nat \<Rightarrow> bool) \<Rightarrow> Decimal option \<Rightarrow> string option \<Rightarrow> Decimal option option" where
  "decimalSumInverse alloc cx arg =
     (case aggregate_context (alloc 0 0) cx of
        None \<Rightarrow> Some None
      | Some p \<Rightarrow>
          if arg = None then Some (Some p)
          else map_option (\<lambda>pArg. decimal_add (alloc 2) (Some p) (map_option (\<lambda>B. B\<lparr>dc_sign := \<not> dc_sign B\<rparr>) pArg))
            (decimal_arg (alloc 1) arg))"

text \<open>\<^verbatim>\<open>decimal_result\<close> also takes the sign from a decimal without digits or with the one digit zero.\<close>

definition decimal_unsigned :: "bool \<Rightarrow> Decimal \<Rightarrow> Decimal" where
  "decimal_unsigned alloc p =
     (if \<not> dc_oom p \<and> \<not> dc_isNull p \<and> alloc \<and> (dc_a p = [] \<or> dc_a p = [0]) then p\<lparr>dc_sign := False\<rparr> else p)"

definition decimalSumValue :: "bool \<Rightarrow> Decimal option \<Rightarrow> Decimal option \<times> result" where
  "decimalSumValue alloc cx =
     (case cx of None \<Rightarrow> (None, no_result) | Some p \<Rightarrow> (Some (decimal_unsigned alloc p), decimal_result alloc (Some p)))"

definition decimalSumFinalize :: "bool \<Rightarrow> Decimal option \<Rightarrow> result" where
  "decimalSumFinalize alloc cx = (case cx of None \<Rightarrow> no_result | Some p \<Rightarrow> decimal_result alloc (Some p))"

section \<open>Multiplying\<close>

fun mul_inner :: "int \<Rightarrow> int list \<Rightarrow> nat \<Rightarrow> nat \<Rightarrow> int list \<Rightarrow> int \<Rightarrow> int list \<times> int" where
  "mul_inner f aB i 0 acc carry = (acc, carry)"
| "mul_inner f aB i (Suc j) acc carry =
     (let k = i + j + 3; x = acc ! k + f * aB ! j + carry
      in mul_inner f aB i j (acc[k := x mod 10]) (x div 10))"

definition mul_row :: "int \<Rightarrow> int list \<Rightarrow> nat \<Rightarrow> int list \<Rightarrow> int list" where
  "mul_row f aB i acc =
     (let (acc, carry) = mul_inner f aB i (length aB) acc 0; k = i + 2; x = acc ! k + carry; acc = acc[k := x mod 10]
      in acc[k - 1 := acc ! (k - 1) + x div 10])"

fun mul_rows :: "int list \<Rightarrow> int list \<Rightarrow> nat \<Rightarrow> int list \<Rightarrow> int list" where
  "mul_rows aA aB 0 acc = acc"
| "mul_rows aA aB (Suc i) acc = mul_rows aA aB i (mul_row (aA ! i) aB i acc)"

function trim_zeros :: "int \<Rightarrow> int \<Rightarrow> int list \<Rightarrow> int \<times> int list" where
  "trim_zeros minFrac nFrac a =
     (if nFrac > minFrac \<and> a \<noteq> [] \<and> a ! (length a - 1) = 0 then trim_zeros minFrac (nFrac - 1) (butlast a) else (nFrac, a))"
  by auto

termination trim_zeros
  by (relation "measure (\<lambda>(m, n, a). length a)") auto

definition decimal_mul :: "Decimal \<Rightarrow> Decimal \<Rightarrow> Decimal" where
  "decimal_mul pA pB =
     (let acc = mul_rows (dc_a pA) (dc_a pB) (length (dc_a pA)) (replicate (length (dc_a pA) + length (dc_a pB) + 2) 0);
          minFrac = (if dc_nFrac pB < dc_nFrac pA then dc_nFrac pB else dc_nFrac pA);
          (nFrac, a) = trim_zeros minFrac (dc_nFrac pA + dc_nFrac pB) acc
      in pA\<lparr>dc_a := a, dc_nFrac := nFrac, dc_sign := (dc_sign pA \<noteq> dc_sign pB)\<rparr>)"

definition decimalMulFunc :: "(nat \<Rightarrow> nat \<Rightarrow> bool) \<Rightarrow> string option \<Rightarrow> string option \<Rightarrow> result option" where
  "decimalMulFunc alloc argA argB =
     Option.bind (decimal_arg (alloc 0) argA) (\<lambda>pA.
       Option.bind (decimal_arg (alloc 1) argB) (\<lambda>pB.
         Some (case (pA, pB) of
             (Some A, Some B) \<Rightarrow>
               if dc_oom A \<or> dc_isNull A \<or> dc_oom B \<or> dc_isNull B then no_result
               else if \<not> alloc 2 0 then error_nomem
               else decimal_result (alloc 3 0) (Some (decimal_mul A B))
           | _ \<Rightarrow> error_nomem)))"

section \<open>Digits as numbers\<close>

definition num :: "int list \<Rightarrow> int" where
  "num a = foldl (\<lambda>n d. 10 * n + d) 0 a"

lemma foldl_dec: "foldl (\<lambda>n d. 10 * n + d) n a = n * 10 ^ length a + num a"
proof (induction a arbitrary: n)
  case (Cons d a)
  from Cons.IH [of "10 * n + d"] Cons.IH [of d] show ?case by (simp add: num_def algebra_simps)
qed (simp add: num_def)

lemma num_simps [simp]: "num [] = 0" "num (d # a) = d * 10 ^ length a + num a"
  using foldl_dec [of d a] by (simp_all add: num_def)

lemma num_append [simp]: "num (a @ b) = num a * 10 ^ length b + num b"
  by (induction a) (simp_all add: algebra_simps power_add)

lemma num_zeros [simp]: "num (replicate n 0) = 0"
  by (induction n) simp_all

lemma num_update: "k < length a \<Longrightarrow> num (a[k := v]) = num a + (v - a ! k) * 10 ^ (length a - 1 - k)"
proof -
  assume k: "k < length a"
  then have "num (take k a @ v # drop (Suc k) a) = num (take k a @ a ! k # drop (Suc k) a) + (v - a ! k) * 10 ^ (length a - 1 - k)"
    by (simp add: algebra_simps)
  with k show ?thesis by (simp add: upd_conv_take_nth_drop id_take_nth_drop [symmetric])
qed

lemma num_take_Suc: "i < length a \<Longrightarrow> num (take (Suc i) a) = 10 * num (take i a) + a ! i"
  by (simp add: take_Suc_conv_app_nth)

definition digits :: "int list \<Rightarrow> bool" where
  "digits a \<longleftrightarrow> (\<forall>d\<in>set a. 0 \<le> d \<and> d \<le> 9)"

lemma dec_digits_simps [simp]: "digits []" "digits (d # a) \<longleftrightarrow> 0 \<le> d \<and> d \<le> 9 \<and> digits a" "digits (a @ b) \<longleftrightarrow> digits a \<and> digits b"
  "digits (replicate n 0)"
  by (auto simp: digits_def)

lemma digits_nth: "digits a \<Longrightarrow> i < length a \<Longrightarrow> 0 \<le> a ! i \<and> a ! i \<le> 9"
  by (simp add: digits_def)

lemma digits_update: "digits a \<Longrightarrow> 0 \<le> v \<Longrightarrow> v \<le> 9 \<Longrightarrow> digits (a[k := v])"
  by (auto simp: digits_def dest: set_update_subset_insert [THEN subsetD])

lemma digits_sub: "digits a \<Longrightarrow> digits (take n a)" "digits a \<Longrightarrow> digits (drop n a)"
  by (auto simp: digits_def dest: in_set_takeD in_set_dropD)

lemma num_bounds: "digits a \<Longrightarrow> 0 \<le> num a \<and> num a < 10 ^ length a"
proof (induction a)
  case (Cons d a)
  then have b: "d * 10 ^ length a \<le> 9 * 10 ^ length a" "0 \<le> d * 10 ^ length a" and a: "0 \<le> num a" "num a < 10 ^ length a" by simp_all
  have "num (d # a) = d * 10 ^ length a + num a" "(10 :: int) ^ length (d # a) = 10 * 10 ^ length a" by simp_all
  with a b show ?case by linarith
qed simp

section \<open>Adding digits\<close>

lemma add_loop_num:
  assumes "length aB = length aA" and "i \<le> length aA" and "digits aB" and "digits (take i aA)" and "0 \<le> carry" and "carry \<le> 1"
    and "num (take i aA) + num (take i aB) + carry < 10 ^ i"
  shows "num (add_loop aA aB i carry) = num aA + (num (take i aB) + carry) * 10 ^ (length aA - i) \<and>
    length (add_loop aA aB i carry) = length aA \<and> (digits (drop i aA) \<longrightarrow> digits (add_loop aA aB i carry))"
  using assms
proof (induction i arbitrary: aA carry)
  case 0
  then show ?case by simp
next
  case (Suc i)
  then have i: "i < length aA" "i < length aB" by simp_all
  define x where "x = aA ! i + aB ! i + carry"
  have dA: "0 \<le> aA ! i" "aA ! i \<le> 9" using Suc.prems(4) i(1) by (auto simp: take_Suc_conv_app_nth)
  have dB: "0 \<le> aB ! i" "aB ! i \<le> 9" using digits_nth [OF Suc.prems(3) i(2)] by simp_all
  have t: "take i (aA[i := v]) = take i aA" for v by simp
  have dt: "digits (take i aA)" using Suc.prems(4) i(1) by (simp add: take_Suc_conv_app_nth)
  have b: "10 * (num (take i aA) + num (take i aB)) + x < 10 * 10 ^ i"
    using Suc.prems(7) by (simp add: num_take_Suc i x_def algebra_simps)
  have e: "10 ^ (length aA - i) = (10 :: int) * 10 ^ (length aA - Suc i)" using i(1) by (simp add: Suc_diff_Suc flip: power_Suc)
  have dr: "drop i (aA[i := v]) = v # drop (Suc i) aA" for v using i(1) by (simp add: drop_update_cancel Cons_nth_drop_Suc [symmetric])
  show ?case
  proof (cases "x \<ge> 10")
    case True
    let ?A = "aA[i := x - 10]"
    have "num (take i aA) + num (take i aB) + 1 < 10 ^ i" using b True by simp
    with Suc.IH [of ?A 1] Suc.prems(1,2,3) dt have
      ih: "num (add_loop ?A aB i 1) = num ?A + (num (take i aB) + 1) * 10 ^ (length aA - i)" "length (add_loop ?A aB i 1) = length aA"
        "digits (drop i ?A) \<longrightarrow> digits (add_loop ?A aB i 1)" by simp_all
    have "num ?A = num aA + (x - 10 - aA ! i) * 10 ^ (length aA - Suc i)" using i(1) by (simp add: num_update)
    then have "num (add_loop ?A aB i 1) = num aA + (num (take (Suc i) aB) + carry) * 10 ^ (length aA - Suc i)"
      unfolding ih(1) e num_take_Suc [OF i(2)] by (simp add: x_def algebra_simps)
    moreover have "digits (drop (Suc i) aA) \<longrightarrow> digits (drop i ?A)" using True dA dB Suc.prems(6) by (simp add: dr x_def)
    ultimately show ?thesis using True ih(2,3) by (simp add: x_def)
  next
    case False
    let ?A = "aA[i := x]"
    have "num (take i aA) + num (take i aB) < 10 ^ i" using b dA dB Suc.prems(5) by (simp add: x_def)
    with Suc.IH [of ?A 0] Suc.prems(1,2,3) dt have
      ih: "num (add_loop ?A aB i 0) = num ?A + num (take i aB) * 10 ^ (length aA - i)" "length (add_loop ?A aB i 0) = length aA"
        "digits (drop i ?A) \<longrightarrow> digits (add_loop ?A aB i 0)" by simp_all
    have "num ?A = num aA + (x - aA ! i) * 10 ^ (length aA - Suc i)" using i(1) by (simp add: num_update)
    then have "num (add_loop ?A aB i 0) = num aA + (num (take (Suc i) aB) + carry) * 10 ^ (length aA - Suc i)"
      unfolding ih(1) e num_take_Suc [OF i(2)] by (simp add: x_def algebra_simps)
    moreover have "digits (drop (Suc i) aA) \<longrightarrow> digits (drop i ?A)" using False dA dB Suc.prems(5) by (simp add: dr x_def)
    ultimately show ?thesis using False ih(2,3) by (simp add: x_def)
  qed
qed

lemma sub_loop_num:
  assumes "length aB = length aA" and "i \<le> length aA" and "digits aA" and "digits aB" and "0 \<le> borrow" and "borrow \<le> 1"
    and "num (take i aB) + borrow \<le> num (take i aA)" and "digits r"
  shows "num (sub_loop aA aB i borrow r) = (num (take i aA) - num (take i aB) - borrow) * 10 ^ length r + num r \<and>
    length (sub_loop aA aB i borrow r) = i + length r \<and> digits (sub_loop aA aB i borrow r)"
  using assms
proof (induction i arbitrary: borrow r)
  case 0
  then show ?case by simp
next
  case (Suc i)
  then have i: "i < length aA" "i < length aB" by simp_all
  define x where "x = aA ! i - aB ! i - borrow"
  have d: "0 \<le> aA ! i" "aA ! i \<le> 9" "0 \<le> aB ! i" "aB ! i \<le> 9"
    using digits_nth [OF Suc.prems(3) i(1)] digits_nth [OF Suc.prems(4) i(2)] by simp_all
  have b: "10 * num (take i aB) \<le> 10 * num (take i aA) + x" using Suc.prems(7) by (simp add: num_take_Suc i x_def)
  show ?case
  proof (cases "x < 0")
    case True
    have "num (take i aB) + 1 \<le> num (take i aA)" using b True by simp
    with Suc.IH [of 1 "(x + 10) # r"] Suc.prems True d show ?thesis
      by (simp add: x_def num_take_Suc i algebra_simps)
  next
    case False
    have "x \<le> 9" using d Suc.prems(5) by (simp add: x_def)
    then have "num (take i aB) \<le> num (take i aA)" using b by simp
    with Suc.IH [of 0 "x # r"] Suc.prems False d show ?thesis
      by (simp add: x_def num_take_Suc i algebra_simps)
  qed
qed

lemma digits_cmp_num:
  "length x = length y \<Longrightarrow> digits x \<Longrightarrow> digits y \<Longrightarrow> sgn (digits_cmp x y) = sgn (num x - num y)"
proof (induction x y rule: digits_cmp.induct)
  case (1 a x b y)
  show ?case
  proof (cases "a = b")
    case True
    with 1 show ?thesis by simp
  next
    case False
    have bx: "0 \<le> num x" "num x < 10 ^ length y" and by': "0 \<le> num y" "num y < 10 ^ length y"
      using num_bounds [of x] num_bounds [of y] 1(2,3,4) by simp_all
    have l: "length x = length y" using 1(2) by simp
    show ?thesis
    proof (cases "a < b")
      case True
      then have "(a + 1) * 10 ^ length y \<le> b * 10 ^ length y" by (intro mult_right_mono) simp_all
      with True l bx by' show ?thesis by (simp add: algebra_simps)
    next
      case g: False
      then have "(b + 1) * 10 ^ length y \<le> a * 10 ^ length y" using False by (intro mult_right_mono) simp_all
      with g False l bx by' show ?thesis by (simp add: algebra_simps)
    qed
  qed
qed simp_all

section \<open>Multiplying digits\<close>

lemma mul_inner_num:
  assumes "mul_inner f aB i j acc carry = (acc', carry')" and "i + j + 2 < length acc" and "j \<le> length aB"
    and "digits aB" and "digits acc" and "0 \<le> f" "f \<le> 9" and "0 \<le> carry" "carry \<le> 9"
  shows "num acc' + carry' * 10 ^ (length acc - 1 - (i + 2)) =
      num acc + (f * num (take j aB) + carry) * 10 ^ (length acc - 1 - (i + j + 2)) \<and>
    length acc' = length acc \<and> digits acc' \<and> 0 \<le> carry' \<and> carry' \<le> 9 \<and> (\<forall>k\<le>i + 2. acc' ! k = acc ! k)"
  using assms
proof (induction j arbitrary: acc carry)
  case 0
  then show ?case by simp
next
  case (Suc j)
  let ?k = "i + j + 3"
  define x where "x = acc ! ?k + f * aB ! j + carry"
  have k: "?k < length acc" "j < length aB" using Suc.prems by simp_all
  have d: "0 \<le> acc ! ?k" "acc ! ?k \<le> 9" "0 \<le> aB ! j" "aB ! j \<le> 9"
    using digits_nth [OF Suc.prems(5) k(1)] digits_nth [OF Suc.prems(4) k(2)] by simp_all
  have "f * aB ! j \<le> 9 * 9" by (intro mult_mono) (use d Suc.prems in simp_all)
  moreover have "0 \<le> f * aB ! j" using d Suc.prems by simp
  ultimately have x: "0 \<le> x" "x \<le> 99" unfolding x_def using d Suc.prems by linarith+
  let ?acc = "acc[?k := x mod 10]"
  have run: "mul_inner f aB i j ?acc (x div 10) = (acc', carry')" using Suc.prems(1) by (simp add: x_def Let_def)
  have dg: "digits ?acc" by (rule digits_update [OF Suc.prems(5)]) simp_all
  have c: "0 \<le> x div 10" "x div 10 \<le> 9" using x by (simp_all add: pos_imp_zdiv_nonneg_iff div_int_pos_iff)
  from Suc.IH [OF run _ _ Suc.prems(4) dg Suc.prems(6,7) c] Suc.prems(2,3) have
    ih: "num acc' + carry' * 10 ^ (length acc - 1 - (i + 2)) = num ?acc + (f * num (take j aB) + x div 10) * 10 ^ (length acc - 1 - (i + j + 2))"
      "length acc' = length acc" "digits acc'" "0 \<le> carry'" "carry' \<le> 9" "\<forall>k\<le>i + 2. acc' ! k = ?acc ! k"
    by simp_all
  define w where "w = (10 :: int) ^ (length acc - 1 - ?k)"
  have "length acc - 1 - (i + j + 2) = Suc (length acc - 1 - ?k)" using k by simp
  then have w: "(10 :: int) ^ (length acc - 1 - (i + j + 2)) = 10 * w" by (simp add: w_def)
  have "num ?acc = num acc + (x mod 10 - acc ! ?k) * w" using k by (simp add: num_update w_def)
  moreover have "num (take (Suc j) aB) = 10 * num (take j aB) + aB ! j" by (rule num_take_Suc [OF k(2)])
  moreover have "i + Suc j + 2 = ?k" by simp
  moreover have "x = 10 * (x div 10) + x mod 10" by simp
  then have "x * w = 10 * (x div 10) * w + x mod 10 * w" by (metis distrib_right)
  ultimately have "num acc' + carry' * 10 ^ (length acc - 1 - (i + 2)) =
      num acc + (f * num (take (Suc j) aB) + carry) * 10 ^ (length acc - 1 - (i + Suc j + 2))"
    unfolding ih(1) w by (simp only: w_def [symmetric]) (simp add: x_def algebra_simps)
  with ih show ?case by simp
qed

lemma mul_row_num:
  assumes "i + length aB + 2 < length acc" and "digits aB" and "digits acc" and "0 \<le> f" "f \<le> 9" and "acc ! (i + 1) = 0"
  shows "num (mul_row f aB i acc) = num acc + f * num aB * 10 ^ (length acc - 1 - (i + length aB + 2)) \<and>
    length (mul_row f aB i acc) = length acc \<and> digits (mul_row f aB i acc) \<and> (\<forall>k\<le>i. mul_row f aB i acc ! k = acc ! k)"
proof -
  obtain acc' carry where r: "mul_inner f aB i (length aB) acc 0 = (acc', carry)" by (metis surj_pair)
  from mul_inner_num [OF this assms(1) order_refl assms(2-5)] have
    m: "num acc' + carry * 10 ^ (length acc - 1 - (i + 2)) = num acc + f * num aB * 10 ^ (length acc - 1 - (i + length aB + 2))"
      "length acc' = length acc" "digits acc'" "0 \<le> carry" "carry \<le> 9" "\<And>k. k \<le> i + 2 \<Longrightarrow> acc' ! k = acc ! k" by simp_all
  let ?k = "i + 2"
  define x where "x = acc' ! ?k + carry"
  have k: "?k < length acc'" using assms(1) m(2) by simp
  have x: "0 \<le> x" "x \<le> 18" using digits_nth [OF m(3) k] m(4,5) by (simp_all add: x_def)
  have z: "acc' ! (i + 1) = 0" using m(6) [of "i + 1"] assms(6) by simp
  have row: "mul_row f aB i acc = acc'[?k := x mod 10, i + 1 := x div 10]"
    using z by (simp add: mul_row_def r x_def Let_def)
  define w where "w = (10 :: int) ^ (length acc - 1 - ?k)"
  have "length acc' - 1 - (i + 1) = Suc (length acc - 1 - ?k)" using k m(2) by simp
  then have w: "(10 :: int) ^ (length acc' - 1 - (i + 1)) = 10 * w" by (simp add: w_def)
  have "num (acc'[?k := x mod 10]) = num acc' + (x mod 10 - acc' ! ?k) * w" using k m(2) by (simp add: num_update w_def)
  moreover have "num (mul_row f aB i acc) = num (acc'[?k := x mod 10]) + x div 10 * (10 * w)"
    using k z w [symmetric] by (simp add: row num_update)
  moreover have "x = 10 * (x div 10) + x mod 10" by simp
  then have "x * w = 10 * (x div 10) * w + x mod 10 * w" by (metis distrib_right)
  ultimately have "num (mul_row f aB i acc) = num acc + f * num aB * 10 ^ (length acc - 1 - (i + length aB + 2))"
    using m(1) [folded w_def] unfolding x_def by (simp only: algebra_simps)
  moreover have "digits (mul_row f aB i acc)"
    unfolding row using x by (intro digits_update m(3)) (simp_all add: pos_imp_zdiv_nonneg_iff)
  moreover have "\<forall>k\<le>i. mul_row f aB i acc ! k = acc ! k" using m(6) by (simp add: row)
  ultimately show ?thesis using m(2) by (simp add: row)
qed

lemma mul_rows_num:
  assumes "i \<le> length aA" and "length acc = length aA + length aB + 2" and "digits aA" and "digits aB" and "digits acc"
    and "\<forall>k\<le>i. acc ! k = 0"
  shows "num (mul_rows aA aB i acc) = num acc + num (take i aA) * num aB * 10 ^ (length aA - i) \<and>
    length (mul_rows aA aB i acc) = length acc \<and> digits (mul_rows aA aB i acc)"
  using assms
proof (induction i arbitrary: acc)
  case 0
  then show ?case by simp
next
  case (Suc i)
  then have i: "i < length aA" by simp
  have f: "0 \<le> aA ! i" "aA ! i \<le> 9" using digits_nth [OF Suc.prems(3) i] by simp_all
  have r: "num (mul_row (aA ! i) aB i acc) = num acc + aA ! i * num aB * 10 ^ (length acc - 1 - (i + length aB + 2))"
    "length (mul_row (aA ! i) aB i acc) = length acc" "digits (mul_row (aA ! i) aB i acc)" "\<forall>k\<le>i. mul_row (aA ! i) aB i acc ! k = acc ! k"
    using mul_row_num [OF _ Suc.prems(4,5) f, of i] Suc.prems(2,6) i by simp_all
  have z: "\<forall>k\<le>i. mul_row (aA ! i) aB i acc ! k = 0" using r(4) Suc.prems(6) by simp
  have w: "num (mul_row (aA ! i) aB i acc) = num acc + aA ! i * num aB * 10 ^ (length aA - Suc i)"
    using r(1) Suc.prems(2) i by (simp add: algebra_simps)
  have e: "10 ^ (length aA - i) = (10 :: int) * 10 ^ (length aA - Suc i)" using i by (simp add: Suc_diff_Suc flip: power_Suc)
  from Suc.IH [OF _ _ Suc.prems(3,4) r(3) z] Suc.prems(2) i r(2) have
    "num (mul_rows aA aB i (mul_row (aA ! i) aB i acc)) =
      num (mul_row (aA ! i) aB i acc) + num (take i aA) * num aB * 10 ^ (length aA - i)"
    "length (mul_rows aA aB i (mul_row (aA ! i) aB i acc)) = length acc" "digits (mul_rows aA aB i (mul_row (aA ! i) aB i acc))" by simp_all
  then show ?case by (simp add: w e num_take_Suc [OF i] algebra_simps)
qed

section \<open>The value of a decimal\<close>

definition dec_value :: "Decimal \<Rightarrow> rat" where
  "dec_value p = (if dc_sign p then - 1 else 1) * (of_int (num (dc_a p)) / 10 ^ nat (dc_nFrac p))"

definition dec_ok :: "Decimal \<Rightarrow> bool" where
  "dec_ok p \<longleftrightarrow> \<not> dc_oom p \<and> \<not> dc_isNull p \<and> digits (dc_a p) \<and> 0 \<le> dc_nFrac p \<and> dc_nFrac p \<le> nDigit p"

lemma trim_zeros_value:
  assumes "trim_zeros minFrac nFrac a = (nFrac', a')" and "0 \<le> minFrac" and "minFrac \<le> nFrac" and "nFrac \<le> int (length a)" and "digits a"
  shows "of_int (num a') / 10 ^ nat nFrac' = (of_int (num a) / 10 ^ nat nFrac :: rat) \<and> digits a' \<and> minFrac \<le> nFrac' \<and>
    nFrac' \<le> int (length a')"
  using assms
proof (induction minFrac nFrac a rule: trim_zeros.induct)
  case (1 minFrac nFrac a)
  show ?case
  proof (cases "nFrac > minFrac \<and> a \<noteq> [] \<and> a ! (length a - 1) = 0")
    case True
    then have l: "last a = 0" "a \<noteq> []" by (simp_all add: last_conv_nth)
    then have a: "num a = 10 * num (butlast a)" using append_butlast_last_id [OF l(2)] num_append [of "butlast a" "[last a]"] by simp
    have "digits (butlast a)" using 1(6) append_butlast_last_id [OF l(2)] dec_digits_simps(3) by metis
    moreover have "trim_zeros minFrac (nFrac - 1) (butlast a) = (nFrac', a')"
      using 1(2) True by (subst (asm) trim_zeros.simps) simp
    ultimately have ih: "of_int (num a') / 10 ^ nat nFrac' = (of_int (num (butlast a)) / 10 ^ nat (nFrac - 1) :: rat)"
      "digits a'" "minFrac \<le> nFrac'" "nFrac' \<le> int (length a')"
      using 1(1) [OF True] 1(3-5) True by simp_all
    have "nat nFrac = Suc (nat (nFrac - 1))" using True 1(3) by (simp add: Suc_nat_eq_nat_zadd1)
    then have "(of_int (num a) / 10 ^ nat nFrac :: rat) = of_int (num (butlast a)) / 10 ^ nat (nFrac - 1)" by (simp add: a)
    with ih show ?thesis by simp
  next
    case False
    then have "trim_zeros minFrac nFrac a = (nFrac, a)" by (subst trim_zeros.simps) (simp only: if_False)
    with 1 show ?thesis by simp
  qed
qed

declare trim_zeros.simps [simp del]

lemma decimal_mul_value:
  assumes "dec_ok A" and "dec_ok B"
  shows "dec_ok (decimal_mul A B) \<and> dec_value (decimal_mul A B) = dec_value A * dec_value B"
proof -
  let ?n = "length (dc_a A)" and ?m = "length (dc_a B)"
  let ?acc = "mul_rows (dc_a A) (dc_a B) ?n (replicate (?n + ?m + 2) 0)"
  have m: "num ?acc = num (dc_a A) * num (dc_a B)" "length ?acc = ?n + ?m + 2" "digits ?acc"
    using mul_rows_num [of ?n "dc_a A" "replicate (?n + ?m + 2) 0" "dc_a B"] assms by (simp_all add: dec_ok_def del: replicate_Suc)
  let ?min = "if dc_nFrac B < dc_nFrac A then dc_nFrac B else dc_nFrac A"
  obtain f a where t: "trim_zeros ?min (dc_nFrac A + dc_nFrac B) ?acc = (f, a)" by (metis surj_pair)
  have fr: "0 \<le> dc_nFrac A" "dc_nFrac A \<le> int ?n" "0 \<le> dc_nFrac B" "dc_nFrac B \<le> int ?m"
    using assms by (simp_all add: dec_ok_def nDigit_def)
  have b: "0 \<le> ?min" "?min \<le> dc_nFrac A + dc_nFrac B" using fr by simp_all
  have "dc_nFrac A + dc_nFrac B \<le> int (length ?acc)" using fr m(2) by simp
  from trim_zeros_value [OF t b this m(3)] b(1) have
    v: "of_int (num a) / 10 ^ nat f = (of_int (num ?acc) / 10 ^ nat (dc_nFrac A + dc_nFrac B) :: rat)" "digits a" "0 \<le> f" "f \<le> int (length a)"
    by linarith+
  have p: "decimal_mul A B = A\<lparr>dc_a := a, dc_nFrac := f, dc_sign := (dc_sign A \<noteq> dc_sign B)\<rparr>" using t by (simp add: decimal_mul_def)
  have "dec_value (decimal_mul A B) = dec_value A * dec_value B"
    using v(1) [unfolded m(1)] fr by (simp add: p dec_value_def nat_add_distrib power_add)
  moreover have "dec_ok (decimal_mul A B)" using assms v by (simp add: p dec_ok_def nDigit_def)
  ultimately show ?thesis by simp
qed

section \<open>The value of a sum\<close>

lemma expand_value:
  assumes "dec_ok p" and "0 \<le> nDig - nDigit p - (f - dc_nFrac p)" and "dc_nFrac p \<le> f"
  shows "decimal_expand True p nDig f = p\<lparr>dc_a := replicate (nat (nDig - nDigit p - (f - dc_nFrac p))) 0 @ dc_a p @ replicate (nat (f - dc_nFrac p)) 0,
      dc_nFrac := f\<rparr> \<and> dec_ok (decimal_expand True p nDig f) \<and> dec_value (decimal_expand True p nDig f) = dec_value p \<and>
    nDigit (decimal_expand True p nDig f) = nDig"
proof -
  have e: "decimal_expand True p nDig f = p\<lparr>dc_a := replicate (nat (nDig - nDigit p - (f - dc_nFrac p))) 0 @ dc_a p @ replicate (nat (f - dc_nFrac p)) 0,
      dc_nFrac := f\<rparr>"
    by (simp add: decimal_expand_def Let_def)
  have "nat f = nat (dc_nFrac p) + nat (f - dc_nFrac p)" using assms(1,3) by (simp add: dec_ok_def nat_add_distrib [symmetric])
  then have "dec_value (decimal_expand True p nDig f) = dec_value p"
    by (simp add: e dec_value_def power_add)
  moreover have "dec_ok (decimal_expand True p nDig f)" "nDigit (decimal_expand True p nDig f) = nDig"
    using assms by (simp_all add: e dec_ok_def nDigit_def)
  ultimately show ?thesis using e by simp
qed

lemma leading_zero: "digits a \<Longrightarrow> a \<noteq> [] \<Longrightarrow> hd a = 0 \<Longrightarrow> 10 * num a < 10 ^ length a"
  using num_bounds [of "tl a"] by (cases a) simp_all

lemma add_digits_value:
  assumes "dec_ok A" and "dec_ok B" and "nDigit A = nDigit B" and "dc_nFrac A = dc_nFrac B" and "dc_a A \<noteq> []" and "hd (dc_a A) = 0" "hd (dc_a B) = 0"
  shows "dec_ok (add_digits A B) \<and> dec_value (add_digits A B) = dec_value A + dec_value B"
proof -
  let ?n = "length (dc_a A)"
  have d: "digits (dc_a A)" "digits (dc_a B)" "length (dc_a B) = ?n" using assms by (simp_all add: dec_ok_def nDigit_def)
  have "10 * num (dc_a A) < 10 ^ ?n" "10 * num (dc_a B) < 10 ^ ?n"
    using leading_zero [OF d(1) assms(5,6)] leading_zero [OF d(2) _ assms(7)] assms(5) d(3) by fastforce+
  then have small: "num (dc_a A) + num (dc_a B) + 0 < 10 ^ ?n" using num_bounds [OF d(1)] num_bounds [OF d(2)] by linarith
  have c: "sgn (digits_cmp (dc_a A) (dc_a B)) = sgn (num (dc_a A) - num (dc_a B))" by (rule digits_cmp_num) (simp_all add: d)
  have frac: "nat (dc_nFrac A) = nat (dc_nFrac B)" using assms(4) by simp
  consider "dc_sign A = dc_sign B" | "dc_sign A \<noteq> dc_sign B" "digits_cmp (dc_a A) (dc_a B) < 0" |
    "dc_sign A \<noteq> dc_sign B" "\<not> digits_cmp (dc_a A) (dc_a B) < 0" by blast
  then show ?thesis
  proof cases
    case 1
    have s: "num (add_loop (dc_a A) (dc_a B) ?n 0) = num (dc_a A) + num (dc_a B)" "length (add_loop (dc_a A) (dc_a B) ?n 0) = ?n"
      "digits (add_loop (dc_a A) (dc_a B) ?n 0)"
      using add_loop_num [of "dc_a B" "dc_a A" ?n 0] small d by simp_all
    with 1 frac assms show ?thesis
      by (auto simp: add_digits_def dec_value_def dec_ok_def nDigit_def add_divide_distrib)
  next
    case 2
    then have "num (dc_a A) < num (dc_a B)" using c by (auto simp: sgn_if split: if_splits)
    with sub_loop_num [of "dc_a A" "dc_a B" ?n 0 "[]"] d have
      s: "num (sub_loop (dc_a B) (dc_a A) ?n 0 []) = num (dc_a B) - num (dc_a A)" "length (sub_loop (dc_a B) (dc_a A) ?n 0 []) = ?n"
      "digits (sub_loop (dc_a B) (dc_a A) ?n 0 [])" by simp_all
    with 2 frac assms show ?thesis
      by (auto simp: add_digits_def dec_value_def dec_ok_def nDigit_def diff_divide_distrib)
  next
    case 3
    then have "num (dc_a B) \<le> num (dc_a A)" using c by (auto simp: sgn_if split: if_splits)
    with sub_loop_num [of "dc_a B" "dc_a A" ?n 0 "[]"] d have
      s: "num (sub_loop (dc_a A) (dc_a B) ?n 0 []) = num (dc_a A) - num (dc_a B)" "length (sub_loop (dc_a A) (dc_a B) ?n 0 []) = ?n"
      "digits (sub_loop (dc_a A) (dc_a B) ?n 0 [])" by simp_all
    with 3 frac assms show ?thesis
      by (auto simp: add_digits_def dec_value_def dec_ok_def nDigit_def diff_divide_distrib)
  qed
qed

lemma decimal_add_value:
  assumes "dec_ok A" and "dec_ok B" and "alloc 0" and "alloc 1"
  shows "\<exists>p. decimal_add alloc (Some A) (Some B) = Some p \<and> dec_ok p \<and> dec_value p = dec_value A + dec_value B"
proof -
  define sA where "sA = nDigit A - dc_nFrac A"
  define sB where "sB = nDigit B - dc_nFrac B"
  define s0 where "s0 = (if sA \<noteq> 0 \<and> dc_a A ! 0 = 0 then sA - 1 else sA)"
  define s where "s = (if s0 < sB then sB else s0)"
  define f where "f = (if dc_nFrac A < dc_nFrac B then dc_nFrac B else dc_nFrac A)"
  let ?n = "s + f + 1"
  have nn: "0 \<le> sA" "0 \<le> sB" "0 \<le> dc_nFrac A" "0 \<le> dc_nFrac B" using assms(1,2) by (simp_all add: sA_def sB_def dec_ok_def)
  then have f: "dc_nFrac A \<le> f" "dc_nFrac B \<le> f" "0 \<le> s" "0 \<le> f" by (auto simp: f_def s_def s0_def)
  have zA: "?n - nDigit A - (f - dc_nFrac A) = s + 1 - sA" "?n - nDigit B - (f - dc_nFrac B) = s + 1 - sB" by (simp_all add: sA_def sB_def)
  have zB: "0 \<le> s + 1 - sA" "1 \<le> s + 1 - sB" by (auto simp: s_def s0_def)
  let ?A = "decimal_expand True A ?n f" and ?B = "decimal_expand True B ?n f"
  have eA: "?A = A\<lparr>dc_a := replicate (nat (s + 1 - sA)) 0 @ dc_a A @ replicate (nat (f - dc_nFrac A)) 0, dc_nFrac := f\<rparr>"
    "dec_ok ?A" "dec_value ?A = dec_value A" "nDigit ?A = ?n"
    using expand_value [OF assms(1) _ f(1), of ?n, unfolded zA, OF zB(1)] by blast+
  have eB: "?B = B\<lparr>dc_a := replicate (nat (s + 1 - sB)) 0 @ dc_a B @ replicate (nat (f - dc_nFrac B)) 0, dc_nFrac := f\<rparr>"
    "dec_ok ?B" "dec_value ?B = dec_value B" "nDigit ?B = ?n"
    using expand_value [OF assms(2) _ f(2), of ?n, unfolded zA] zB(2) by (metis int_one_le_iff_zero_less order_less_imp_le)+
  have ne: "dc_a ?A \<noteq> []" using eA(4) f by (auto simp: nDigit_def)
  have hB: "hd (dc_a ?B) = 0" using eB(1) zB(2) by (cases "nat (s + 1 - sB)") simp_all
  have hA: "hd (dc_a ?A) = 0"
  proof (cases "s + 1 - sA = 0")
    case True
    then have "sA \<noteq> 0" "dc_a A ! 0 = 0" by (auto simp: s_def s0_def split: if_splits)
    moreover from this have "dc_a A \<noteq> []" using nn assms(1) by (auto simp: sA_def nDigit_def dec_ok_def)
    ultimately show ?thesis using eA(1) True by (simp add: hd_conv_nth nth_append)
  next
    case False
    then have "0 < nat (s + 1 - sA)" using zB by simp
    then show ?thesis using eA(1) by (cases "nat (s + 1 - sA)") simp_all
  qed
  have fr: "dc_nFrac ?A = dc_nFrac ?B" using eA(1) eB(1) by simp
  have n: "nDigit ?A = nDigit ?B" using eA(4) eB(4) by simp
  have run: "decimal_add alloc (Some A) (Some B) = Some (add_digits ?A ?B)"
  proof -
    have "\<not> dc_oom A" "\<not> dc_oom B" "\<not> dc_isNull A" "\<not> dc_isNull B" "\<not> dc_oom ?A" "\<not> dc_oom ?B"
      using assms(1,2) eA(2) eB(2) by (simp_all add: dec_ok_def)
    then show ?thesis
      using assms(3,4)
      by (simp add: decimal_add_def Let_def sA_def [symmetric] sB_def [symmetric] s0_def [symmetric] f_def [symmetric])
        (auto simp: s_def)
  qed
  from add_digits_value [OF eA(2) eB(2) n fr ne hA hB] eA(3) eB(3) run show ?thesis by simp
qed

section \<open>What is read\<close>

lemma digit_char_code: "0 \<le> d \<Longrightarrow> d \<le> 9 \<Longrightarrow> of_char (digit_char d) = nat (d + 48)"
  by (simp add: digit_char_def)

lemma digit_char_digit: "0 \<le> d \<Longrightarrow> d \<le> 9 \<Longrightarrow> c_digit (digit_char d) \<and> digit_of (digit_char d) = d"
  by (simp only: c_digit_def digit_of_def Let_def digit_char_code) (simp add: le_nat_iff nat_le_iff)

lemma c_digit_of: "c_digit c \<Longrightarrow> 0 \<le> digit_of c \<and> digit_of c \<le> 9"
proof -
  obtain n where n: "of_char c = (n :: nat)" by simp
  show "c_digit c \<Longrightarrow> 0 \<le> digit_of c \<and> digit_of c \<le> 9"
    by (simp only: c_digit_def digit_of_def Let_def n) linarith
qed

lemma digit_no_other:
  "c_digit c \<Longrightarrow> \<not> c_space c \<and> c \<noteq> CHR ''-'' \<and> c \<noteq> CHR ''+'' \<and> c \<noteq> CHR ''.'' \<and> c \<noteq> CHR ''e'' \<and> c \<noteq> CHR ''E''"
  by (auto simp: c_digit_def c_space_def)

lemma digit_char_zero: "0 \<le> d \<Longrightarrow> d \<le> 9 \<Longrightarrow> digit_char d = CHR ''0'' \<longleftrightarrow> d = 0"
proof
  assume d: "0 \<le> d" "d \<le> 9" and "digit_char d = CHR ''0''"
  then have "digit_of (digit_char d) = digit_of CHR ''0''" by simp
  with digit_char_digit [OF d] show "d = 0" by (simp add: digit_of_def)
next
  assume "d = 0"
  then have "of_char (digit_char d) = (of_char CHR ''0'' :: nat)" using digit_char_code [of 0] by simp
  then show "digit_char d = CHR ''0''" by (simp only: of_char_eq_iff)
qed

lemma scan_digits: "digits d \<Longrightarrow> scan_loop (List.map digit_char d @ z) a f = scan_loop z (a @ d) f"
proof (induction d arbitrary: a)
  case (Cons x d)
  with digit_char_digit [of x] show ?case by simp
qed simp

lemma scan_ok:
  "scan_loop z a f = (a', f', e) \<Longrightarrow> digits a \<Longrightarrow> 0 \<le> f \<Longrightarrow> f \<le> int (length a) + 1 \<Longrightarrow>
   digits a' \<and> 0 \<le> f' \<and> f' \<le> int (length a') + 1"
proof (induction z a f rule: scan_loop.induct)
  case (2 c z a f)
  then show ?case using c_digit_of [of c] by (auto split: if_splits)
qed auto

text \<open>Moving the point multiplies by a power of ten.\<close>

definition scaled :: "int list \<Rightarrow> int \<Rightarrow> int \<Rightarrow> int list \<times> int \<times> int" where
  "scaled a f e = (if e > 0 then scale_up a f e else if e < 0 then scale_down a f (- e) else (a, f, 0))"

lemma powi_pos: "0 < e \<Longrightarrow> (10 :: rat) powi e = 10 ^ nat e"
  by (simp add: power_int_def)

lemma powi_neg: "e < 0 \<Longrightarrow> (10 :: rat) powi e = 1 / 10 ^ nat (- e)"
  unfolding power_int_def by (simp only: not_le [symmetric] if_False) (simp add: power_one_over [symmetric] inverse_eq_divide)

lemma scaled_value:
  assumes "scaled a f e = (a', f', g)" and "digits a" and "0 \<le> f" and "f \<le> int (length a)"
  shows "digits a' \<and> 0 \<le> f' \<and> f' \<le> int (length a') \<and>
    of_int (num a') / 10 ^ nat f' = (of_int (num a) / 10 ^ nat f * 10 powi e :: rat)"
proof -
  consider "e = 0" | "e > 0" "f = 0" | "e > 0" "f > 0" "e \<le> f" | "e > 0" "f > 0" "f < e" |
    "e < 0" "int (length a) - f - 1 = 0" | "e < 0" "int (length a) - f - 1 \<noteq> 0" "- e \<le> int (length a) - f - 1" |
    "e < 0" "int (length a) - f - 1 \<noteq> 0" "int (length a) - f - 1 < - e"
    using assms(3) by linarith
  then show ?thesis
  proof cases
    case 1
    with assms show ?thesis by (auto simp: scaled_def)
  next
    case 2
    with assms powi_pos [of e] show ?thesis by (auto simp: scaled_def scale_up_def Let_def)
  next
    case 3
    then have "nat f = nat (f - e) + nat e" by (simp add: nat_add_distrib [symmetric])
    with 3 assms powi_pos [of e] show ?thesis by (auto simp: scaled_def scale_up_def Let_def power_add)
  next
    case 4
    then have "nat e = nat (e - f) + nat f" by (simp add: nat_add_distrib [symmetric])
    with 4 assms powi_pos [of e] show ?thesis by (auto simp: scaled_def scale_up_def Let_def power_add)
  next
    case 5
    then have "nat (f - e) = nat f + nat (- e)" using assms(3) by (simp add: nat_add_distrib [symmetric])
    with 5 assms powi_neg [of e] show ?thesis by (auto simp: scaled_def scale_down_def Let_def power_add)
  next
    case 6
    then have "nat (f - e) = nat f + nat (- e)" using assms(3) by (simp add: nat_add_distrib [symmetric])
    with 6 assms powi_neg [of e] show ?thesis by (auto simp: scaled_def scale_down_def Let_def power_add)
  next
    case 7
    then have "nat (f - e) = nat f + nat (- e)" using assms(3) by (simp add: nat_add_distrib [symmetric])
    moreover have "scaled a f e = (replicate (nat (- e - (int (length a) - f - 1))) 0 @ a, f - e, - e - (int (length a) - f - 1))"
      using 7 assms(4) by (simp add: scaled_def scale_down_def Let_def)
    ultimately show ?thesis using 7 assms powi_neg [of e] by (auto simp: power_add)
  qed
qed

lemma decimal_new_reads:
  assumes "dropWhile c_space zIn = c # r" and "alloc 0" "alloc 1" "alloc 2"
    and "i = length zIn - length (c # r) + (if c = CHR ''-'' \<or> c = CHR ''+'' then 1 else 0)"
    and "scan_loop (dropWhile (\<lambda>c. c = CHR ''0'') (drop i (take n zIn))) [] 0 = (a, f, e)"
  shows "\<exists>p. decimal_new alloc n zIn = Some (Some p) \<and> dec_ok p \<and>
    dec_value p = (if c = CHR ''-'' then - 1 else 1) * (of_int (num a) / 10 ^ nat (if f \<noteq> 0 then int (length a) - (f - 1) else 0) * 10 powi e)"
proof -
  have s: "digits a" "0 \<le> f" "f \<le> int (length a) + 1" using scan_ok [OF assms(6)] by simp_all
  let ?f = "if f \<noteq> 0 then int (length a) - (f - 1) else 0"
  obtain a' f' g where sc: "scaled a ?f e = (a', f', g)" by (metis prod_cases3)
  have v: "digits a'" "0 \<le> f'" "f' \<le> int (length a')"
    "of_int (num a') / 10 ^ nat f' = (of_int (num a) / 10 ^ nat ?f * 10 powi e :: rat)"
    using scaled_value [OF sc s(1)] s by simp_all
  have "decimal_new alloc n zIn = Some (Some \<lparr>dc_sign = (c = CHR ''-''), dc_oom = False, dc_isNull = False, dc_isInit = True, dc_nFrac = f', dc_a = a'\<rparr>)"
  proof -
    have i: "(if hd (c # r) = CHR ''-'' \<or> hd (c # r) = CHR ''+'' then length zIn - length (c # r) + 1 else length zIn - length (c # r)) = i"
      using assms(5) by simp
    have f: "(if f \<noteq> 0 then int (length a) - (f - 1) else f) = ?f" by simp
    show ?thesis
      unfolding decimal_new_def Let_def assms(1) i assms(6) prod.case f
      using assms(2-4) sc [unfolded scaled_def] by simp
  qed
  then show ?thesis using v by (simp add: dec_ok_def dec_value_def nDigit_def)
qed

text \<open>Every text is read as a decimal; its value is that of the text when it is a literal.\<close>

lemma decimal_arg_ok:
  assumes "alloc 0" "alloc 1" "alloc 2"
  shows "\<exists>p. decimal_arg alloc (Some z) = Some (Some p) \<and> dec_ok p"
proof -
  have "\<not> c_space CHR 0x00" by (simp add: c_space_def)
  then have "dropWhile c_space (z @ [CHR 0x00]) \<noteq> []" by simp
  then obtain c r where d: "dropWhile c_space (z @ [CHR 0x00]) = c # r" by (meson neq_Nil_conv)
  obtain a f e where
    "scan_loop (dropWhile (\<lambda>c. c = CHR ''0'') (drop (length (z @ [CHR 0x00]) - length (c # r) + (if c = CHR ''-'' \<or> c = CHR ''+'' then 1 else 0))
      (take (length z) (z @ [CHR 0x00])))) [] 0 = (a, f, e)" by (metis prod_cases3)
  from decimal_new_reads [OF d assms refl this] show ?thesis by (auto simp: decimal_arg_def)
qed

lemma exponent_digits:
  "digits E \<Longrightarrow> 0 \<le> v \<Longrightarrow> v * 10 ^ length E + num E < 1000000 \<Longrightarrow> exponent_loop (List.map digit_char E) v = v * 10 ^ length E + num E"
proof (induction E arbitrary: v)
  case (Cons d E)
  have "v \<le> v * 10 ^ length (d # E)" using mult_left_mono [OF one_le_power [of "10 :: int" "length (d # E)"] Cons.prems(2)] by simp
  moreover have "0 \<le> num (d # E)" using num_bounds [OF Cons.prems(1)] by simp
  ultimately have "v < 1000000" using Cons.prems(3) by linarith
  moreover have "(v * 10 + d) * 10 ^ length E + num E = v * 10 ^ length (d # E) + num (d # E)" by (simp add: algebra_simps)
  ultimately show ?case using Cons.IH [of "v * 10 + d"] Cons.prems digit_char_digit [of d] by simp
qed simp

definition exponent_text :: "string \<Rightarrow> int \<Rightarrow> bool" where
  "exponent_text ex e \<longleftrightarrow> ex = [] \<and> e = 0 \<or>
     (\<exists>c s E. ex = c # s @ List.map digit_char E \<and> c \<in> {CHR ''e'', CHR ''E''} \<and> s \<in> {[], ''+'', ''-''} \<and> E \<noteq> [] \<and> digits E \<and>
        num E < 1000000 \<and> e = (if s = ''-'' then - num E else num E))"

lemma scan_exponent: "exponent_text ex e \<Longrightarrow> scan_loop ex a f = (a, f, e)"
proof -
  assume "exponent_text ex e"
  then consider "ex = []" "e = 0" | c s E where "ex = c # s @ List.map digit_char E" "c \<in> {CHR ''e'', CHR ''E''}" "s \<in> {[], ''+'', ''-''}"
    "E \<noteq> []" "digits E" "num E < 1000000" "e = (if s = ''-'' then - num E else num E)"
    unfolding exponent_text_def by blast
  then show ?thesis
  proof cases
    case 2
    then obtain d E' where E: "E = d # E'" by (cases E) auto
    then have nd: "digit_char d \<noteq> CHR ''-''" "digit_char d \<noteq> CHR ''+''" using 2(5) digit_char_digit [of d] digit_no_other by simp_all
    have x: "exponent_loop (List.map digit_char E) 0 = num E" using exponent_digits [of E 0] 2(5,6) by simp
    have "decimal_exponent (s @ List.map digit_char E) = e"
      using 2(3,7) nd x E by (auto simp: decimal_exponent_def)
    moreover have "\<not> c_digit c" "c \<noteq> CHR ''.''" using 2(2) by (auto simp: c_digit_def)
    ultimately show ?thesis using 2(1,2) by auto
  qed simp
qed

section \<open>Literals\<close>

definition literal_text :: "string \<Rightarrow> string \<Rightarrow> int list \<Rightarrow> int list option \<Rightarrow> string \<Rightarrow> string" where
  "literal_text sp sg I F ex =
     sp @ sg @ List.map digit_char I @ (case F of None \<Rightarrow> [] | Some f \<Rightarrow> CHR ''.'' # List.map digit_char f) @ ex"

definition frac_digits :: "int list option \<Rightarrow> int list" where
  "frac_digits F = (case F of None \<Rightarrow> [] | Some f \<Rightarrow> f)"

definition literal_value :: "string \<Rightarrow> int list \<Rightarrow> int list option \<Rightarrow> int \<Rightarrow> rat" where
  "literal_value sg I F e =
     (if sg = ''-'' then - 1 else 1) * (of_int (num (I @ frac_digits F)) / 10 ^ length (frac_digits F) * 10 powi e)"

definition literal_ok :: "string \<Rightarrow> string \<Rightarrow> int list \<Rightarrow> int list option \<Rightarrow> bool" where
  "literal_ok sp sg I F \<longleftrightarrow> (\<forall>c\<in>set sp. c_space c) \<and> sg \<in> {[], ''+'', ''-''} \<and> digits I \<and> digits (frac_digits F)"

lemma strip_zeros:
  "digits I \<Longrightarrow> (\<forall>c r. z = c # r \<longrightarrow> c \<noteq> CHR ''0'') \<Longrightarrow>
   \<exists>I'. dropWhile (\<lambda>c. c = CHR ''0'') (List.map digit_char I @ z) = List.map digit_char I' @ z \<and> num I' = num I \<and> digits I'"
proof (induction I)
  case Nil
  then show ?case by (cases z) (auto intro: exI [of _ "[]"])
next
  case (Cons d I)
  then show ?case using digit_char_zero [of d]
    by (cases "d = 0") (auto intro: exI [of _ "d # I"])
qed

lemma read_literal:
  assumes "literal_ok sp sg I F" and "exponent_text ex e" and "alloc 0" "alloc 1" "alloc 2"
  shows "\<exists>p. decimal_arg alloc (Some (literal_text sp sg I F ex)) = Some (Some p) \<and> dec_ok p \<and> dec_value p = literal_value sg I F e"
proof -
  let ?pt = "case F of None \<Rightarrow> [] | Some f \<Rightarrow> CHR ''.'' # List.map digit_char f"
  let ?body = "List.map digit_char I @ ?pt @ ex"
  let ?z = "literal_text sp sg I F ex"
  have I: "digits I" "digits (frac_digits F)" and sp: "\<forall>c\<in>set sp. c_space c" and sg: "sg \<in> {[], ''+'', ''-''}"
    using assms(1) by (simp_all add: literal_ok_def)
  have ex0: "\<forall>c r. ex = c # r \<longrightarrow> c \<in> {CHR ''e'', CHR ''E''}" using assms(2) unfolding exponent_text_def by auto
  then have pt0: "\<forall>c r. ?pt @ ex = c # r \<longrightarrow> c \<noteq> CHR ''0''" by (auto split: option.splits)
  define c where "c = hd (sg @ ?body @ [CHR 0x00])"
  have hd: "\<not> c_space c \<and> (c = CHR ''-'' \<longleftrightarrow> sg = ''-'') \<and> (c = CHR ''-'' \<or> c = CHR ''+'' \<longleftrightarrow> sg \<noteq> [])"
  proof (cases "sg = []")
    case True
    show ?thesis
    proof (cases I)
      case Nil
      then show ?thesis using True ex0 by (cases ex) (auto simp: c_def c_space_def split: option.splits)
    next
      case (Cons d I')
      then have "c_digit (digit_char d)" using I digit_char_digit [of d] by simp
      then show ?thesis using True Cons digit_no_other [of "digit_char d"] by (simp add: c_def)
    qed
  next
    case False
    then show ?thesis using sg by (auto simp: c_def c_space_def)
  qed
  obtain r where r: "sg @ ?body @ [CHR 0x00] = c # r" unfolding c_def by (cases "sg @ ?body @ [CHR 0x00]") auto
  have z: "?z @ [CHR 0x00] = sp @ c # r" by (simp add: literal_text_def r [symmetric])
  have d: "dropWhile c_space (?z @ [CHR 0x00]) = c # r"
    unfolding z using sp hd by (simp add: dropWhile_append2)
  have len: "length (?z @ [CHR 0x00]) - length (c # r) = length sp" unfolding z by simp
  let ?i = "length sp + (if c = CHR ''-'' \<or> c = CHR ''+'' then 1 else 0)"
  have "?i = length (sp @ sg)" using hd sg by auto
  moreover have "take (length ?z) (?z @ [CHR 0x00]) = (sp @ sg) @ ?body" by (simp add: literal_text_def)
  ultimately have body: "drop ?i (take (length ?z) (?z @ [CHR 0x00])) = ?body" by simp
  obtain I' where I': "dropWhile (\<lambda>c. c = CHR ''0'') ?body = List.map digit_char I' @ ?pt @ ex" "num I' = num I" "digits I'"
    using strip_zeros [OF I(1) pt0] by blast
  have scan: "scan_loop (dropWhile (\<lambda>c. c = CHR ''0'') ?body) [] 0 =
    (I' @ frac_digits F, (case F of None \<Rightarrow> 0 | Some f \<Rightarrow> int (length I') + 1), e)"
    unfolding I'(1) scan_digits [OF I'(3)]
  proof (cases F)
    case None
    then show "scan_loop (?pt @ ex) ([] @ I') 0 = (I' @ frac_digits F, (case F of None \<Rightarrow> 0 | Some f \<Rightarrow> int (length I') + 1), e)"
      by (simp add: frac_digits_def scan_exponent [OF assms(2)])
  next
    case (Some f)
    have "\<not> c_digit CHR ''.''" by (simp add: c_digit_def)
    with Some I(2) show "scan_loop (?pt @ ex) ([] @ I') 0 = (I' @ frac_digits F, (case F of None \<Rightarrow> 0 | Some f \<Rightarrow> int (length I') + 1), e)"
      by (simp add: frac_digits_def scan_digits scan_exponent [OF assms(2)])
  qed
  have f: "nat (if (case F of None \<Rightarrow> 0 | Some f \<Rightarrow> int (length I') + 1) \<noteq> 0
      then int (length (I' @ frac_digits F)) - ((case F of None \<Rightarrow> 0 | Some f \<Rightarrow> int (length I') + 1) - 1) else 0) = length (frac_digits F)"
    by (cases F) (simp_all add: frac_digits_def)
  have v: "num (I' @ frac_digits F) = num (I @ frac_digits F)" using I'(2) by simp
  have sgn: "c = CHR ''-'' \<longleftrightarrow> sg = ''-''" using hd by blast
  from decimal_new_reads [OF d assms(3-5) refl, of "length ?z", unfolded len body, OF scan, unfolded f v sgn]
  show ?thesis by (simp add: decimal_arg_def literal_value_def)
qed

section \<open>What is printed\<close>

lemma skip_zeros_num:
  "skip_zeros a n = (a', n') \<Longrightarrow> n \<le> int (length a) \<Longrightarrow> digits a \<Longrightarrow>
   num a' = num a \<and> digits a' \<and> int (length a') - n' = int (length a) - n \<and> n' \<le> n \<and> (0 \<le> n \<longrightarrow> 0 \<le> n') \<and> (1 \<le> n \<longrightarrow> 1 \<le> n')"
  by (induction a n rule: skip_zeros.induct) (auto split: if_splits)

text \<open>The text of a decimal is a literal with its value.\<close>

lemma text_literal:
  assumes "dec_ok p"
  shows "\<exists>sg I F. decimal_text p = literal_text [] sg I F [] \<and> literal_ok [] sg I F \<and> I \<noteq> [] \<and> literal_value sg I F 0 = dec_value p"
proof -
  let ?n = "nDigit p - dc_nFrac p"
  obtain a n where s: "skip_zeros (dc_a p) ?n = (a, n)" by (metis surj_pair)
  have ok: "digits (dc_a p)" "0 \<le> dc_nFrac p" "0 \<le> ?n" "?n \<le> int (length (dc_a p))" using assms by (simp_all add: dec_ok_def nDigit_def)
  from skip_zeros_num [OF s ok(4,1)] ok(3) have
    k: "num a = num (dc_a p)" "digits a" "int (length a) - n = dc_nFrac p" "0 \<le> n" "1 \<le> ?n \<Longrightarrow> 1 \<le> n" "n \<le> ?n"
    by (simp_all add: nDigit_def)
  have nl: "nat n \<le> length a" using k(3) ok(2) by simp
  define sg where "sg = (if (if dc_a p = [] \<or> dc_a p = [0] then False else dc_sign p) then ''-'' else [])"
  define I where "I = (if ?n \<le> 0 then 0 # take (nat n) a else take (nat n) a)"
  define F where "F = (if dc_nFrac p \<noteq> 0 then Some (drop (nat n) a) else None)"
  have z: "digit_char 0 = CHR ''0''" using digit_char_zero [of 0] by simp
  have t: "decimal_text p = literal_text [] sg I F []"
    unfolding decimal_text_def literal_text_def s Let_def prod.case by (simp add: sg_def I_def F_def z)
  have F: "frac_digits F = drop (nat n) a" using k(3,4) by (auto simp: F_def frac_digits_def)
  have "num (I @ frac_digits F) = num (take (nat n) a @ drop (nat n) a)" unfolding F by (simp add: I_def del: append_take_drop_id)
  then have num: "num (I @ frac_digits F) = num (dc_a p)" using k(1) by simp
  have len: "length (frac_digits F) = nat (dc_nFrac p)" unfolding F using k(3,4) by simp
  have "literal_ok [] sg I F" using k(2) digits_sub by (auto simp: literal_ok_def sg_def I_def F)
  moreover have "literal_value sg I F 0 = dec_value p"
    unfolding literal_value_def num len dec_value_def by (auto simp: sg_def)
  moreover have "I \<noteq> []"
  proof (cases "?n \<le> 0")
    case False
    then have "1 \<le> n" using k(5) by simp
    then show ?thesis using False nl by (auto simp: I_def)
  qed (simp add: I_def)
  ultimately show ?thesis using t by blast
qed

lemma text_fits: "dec_ok p \<Longrightarrow> int (length (decimal_text p)) + 1 \<le> nDigit p + 4"
proof -
  assume ok: "dec_ok p"
  let ?n = "nDigit p - dc_nFrac p"
  obtain a n where s: "skip_zeros (dc_a p) ?n = (a, n)" by (metis surj_pair)
  have o: "digits (dc_a p)" "0 \<le> dc_nFrac p" "0 \<le> ?n" "?n \<le> int (length (dc_a p))" using ok by (simp_all add: dec_ok_def nDigit_def)
  from skip_zeros_num [OF s o(4,1)] o(2,3) have "0 \<le> n" "n \<le> ?n" "int (length a) - n = dc_nFrac p" by (simp_all add: nDigit_def)
  then show ?thesis using s o(2) by (auto simp: decimal_text_def Let_def)
qed

end
