(* ===== verification/Ys_Decimal_Sql.thy ===== *)
theory Ys_Decimal_Sql
  imports Ys_Decimal
begin

text \<open>
  What the SQL functions of \<^verbatim>\<open>decimal.c\<close> answer: exact sums, differences and products, the order of canonical decimals and the
  aggregate over a window.
\<close>

section \<open>The SQL functions\<close>

text \<open>A text stands for the value it is read as.\<close>

definition denotes :: "string \<Rightarrow> rat \<Rightarrow> bool" where
  "denotes s v \<longleftrightarrow> (\<exists>p. decimal_arg (\<lambda>_. True) (Some s) = Some (Some p) \<and> dec_ok p \<and> dec_value p = v)"

text \<open>A text writes a value: spaces, a sign, digits, an optional point with digits, an optional exponent.\<close>

definition writes :: "string \<Rightarrow> rat \<Rightarrow> bool" where
  "writes s v \<longleftrightarrow> (\<exists>sp sg I F ex e. s = literal_text sp sg I F ex \<and> literal_ok sp sg I F \<and> exponent_text ex e \<and> literal_value sg I F e = v)"

lemma writes_denotes: "writes s v \<Longrightarrow> denotes s v"
  using read_literal [of _ _ _ _ _ _ "\<lambda>_. True"] by (fastforce simp: writes_def denotes_def)

lemma text_writes: "dec_ok p \<Longrightarrow> writes (decimal_text p) (dec_value p)"
proof -
  assume "dec_ok p"
  then obtain sg I F where t: "decimal_text p = literal_text [] sg I F []" "literal_ok [] sg I F" "literal_value sg I F 0 = dec_value p"
    using text_literal by blast
  moreover have "exponent_text [] 0" by (simp add: exponent_text_def)
  ultimately show ?thesis unfolding writes_def by metis
qed

text \<open>Without memory every step either does the same or ends in the error.\<close>

lemma new_shape:
  assumes "dropWhile c_space zIn \<noteq> []"
  shows "\<exists>g p. \<forall>alloc. decimal_new alloc n zIn = (if \<not> (alloc 0 \<and> alloc 1) then Some None else if g \<and> \<not> alloc 2 then Some None else Some (Some p))"
proof -
  let ?z = "dropWhile c_space zIn"
  let ?k = "length zIn - length ?z"
  let ?i = "if hd ?z = CHR ''-'' \<or> hd ?z = CHR ''+'' then ?k + 1 else ?k"
  obtain a f e where s: "scan_loop (dropWhile (\<lambda>c. c = CHR ''0'') (drop ?i (take n zIn))) [] 0 = (a, f, e)" by (metis prod_cases3)
  let ?f = "if f \<noteq> 0 then int (length a) - (f - 1) else f"
  obtain a' f' g where g: "(if e > 0 then scale_up a ?f e else if e < 0 then scale_down a ?f (- e) else (a, ?f, 0)) = (a', f', g)"
    by (metis prod_cases3)
  show ?thesis
    unfolding decimal_new_def Let_def s prod.case g using assms by auto
qed

lemma arg_alloc: "decimal_arg alloc (Some s) = Some None \<or> decimal_arg alloc (Some s) = decimal_arg (\<lambda>_. True) (Some s)"
proof -
  have "\<not> c_space CHR 0x00" by (simp add: c_space_def)
  then have "dropWhile c_space (s @ [CHR 0x00]) \<noteq> []" by simp
  from new_shape [OF this, of "length s"] show ?thesis by (auto simp: decimal_arg_def)
qed

lemma result_denotes: "dec_ok p \<Longrightarrow> \<exists>t. decimal_result True (Some p) = result_text t \<and> writes t (dec_value p)"
  using text_writes by (auto simp: decimal_result_def dec_ok_def)

lemma expand_oom: "decimal_expand alloc p n f = decimal_expand True p n f \<or> dc_oom (decimal_expand alloc p n f)"
  by (simp add: decimal_expand_def Let_def)

lemma add_step:
  "\<exists>p. (if dc_oom (decimal_expand a A n f) \<or> dc_oom (decimal_expand b B n f) then Some (decimal_expand a A n f\<lparr>dc_oom := True\<rparr>)
      else Some (add_digits (decimal_expand a A n f) (decimal_expand b B n f))) = Some p \<and>
    (dc_oom p \<or> (if dc_oom (decimal_expand True A n f) \<or> dc_oom (decimal_expand True B n f) then Some (decimal_expand True A n f\<lparr>dc_oom := True\<rparr>)
      else Some (add_digits (decimal_expand True A n f) (decimal_expand True B n f))) = Some p)"
  using expand_oom [of a A n f] expand_oom [of b B n f] by auto

lemma add_alloc:
  "\<exists>p. decimal_add alloc (Some A) (Some B) = Some p \<and> (dc_oom p \<or> decimal_add (\<lambda>_. True) (Some A) (Some B) = Some p)"
proof (cases "(dc_oom A \<or> dc_oom B) \<or> dc_isNull A \<or> dc_isNull B")
  case True
  then show ?thesis by (auto simp: decimal_add_def)
next
  case False
  then show ?thesis unfolding decimal_add_def option.case Let_def by (simp only: if_False simp_thms de_Morgan_disj) (rule add_step)
qed

text \<open>A function of two texts: an error, or what it is with all memory.\<close>

lemma result_alloc: "decimal_result a p = error_nomem \<or> decimal_result a p = decimal_result True p"
  by (simp add: decimal_result_def split: option.split)

lemma result_oom: "dc_oom p \<Longrightarrow> decimal_result a (Some p) = error_nomem"
  by (simp add: decimal_result_def)

lemma add_result:
  "decimal_result a (decimal_add alloc pA pB) = error_nomem \<or>
   decimal_result a (decimal_add alloc pA pB) = decimal_result True (decimal_add (\<lambda>_. True) pA pB)"
proof (cases pA)
  case None
  then show ?thesis by (simp add: decimal_add_def decimal_result_def)
next
  case (Some A)
  show ?thesis
  proof (cases pB)
    case None
    with Some show ?thesis by (simp add: decimal_add_def decimal_result_def)
  next
    case B: (Some B)
    obtain p where p: "decimal_add alloc (Some A) (Some B) = Some p" "dc_oom p \<or> decimal_add (\<lambda>_. True) (Some A) (Some B) = Some p"
      using add_alloc by blast
    from p(2) show ?thesis
    proof
      assume "dc_oom p"
      then show ?thesis using p(1) by (simp add: Some B result_oom)
    next
      assume "decimal_add (\<lambda>_. True) (Some A) (Some B) = Some p"
      then show ?thesis using result_alloc [of a "Some p"] p(1) by (simp add: Some B)
    qed
  qed
qed

lemma add_None: "decimal_result a (decimal_add alloc None pB) = error_nomem" "decimal_result a (decimal_add alloc pA None) = error_nomem"
  by (simp add: decimal_add_def decimal_result_def) (cases pA; simp add: decimal_add_def decimal_result_def)

lemma functions_value:
  assumes "denotes sA vA" and "denotes sB vB"
  shows "\<exists>r. decimalAddFunc alloc (Some sA) (Some sB) = Some r \<and> (r = error_nomem \<and> alloc \<noteq> (\<lambda>_ _. True) \<or> (\<exists>t. r = result_text t \<and> writes t (vA + vB)))"
    and "\<exists>r. decimalSubFunc alloc (Some sA) (Some sB) = Some r \<and> (r = error_nomem \<and> alloc \<noteq> (\<lambda>_ _. True) \<or> (\<exists>t. r = result_text t \<and> writes t (vA - vB)))"
    and "\<exists>r. decimalMulFunc alloc (Some sA) (Some sB) = Some r \<and> (r = error_nomem \<and> alloc \<noteq> (\<lambda>_ _. True) \<or> (\<exists>t. r = result_text t \<and> writes t (vA * vB)))"
proof -
  obtain A B where A: "decimal_arg (\<lambda>_. True) (Some sA) = Some (Some A)" "dec_ok A" "dec_value A = vA"
    and B: "decimal_arg (\<lambda>_. True) (Some sB) = Some (Some B)" "dec_ok B" "dec_value B = vB"
    using assms unfolding denotes_def by blast
  define B' where "B' = B\<lparr>dc_sign := \<not> dc_sign B\<rparr>"
  have B': "dec_ok B'" "dec_value B' = - vB" using B by (simp_all add: B'_def dec_ok_def dec_value_def nDigit_def split: if_splits)
  have aA: "decimal_arg a (Some sA) = Some None \<and> a \<noteq> (\<lambda>_. True) \<or> decimal_arg a (Some sA) = Some (Some A)" for a
    using arg_alloc [of a sA] A(1) by (cases "a = (\<lambda>_. True)") auto
  have aB: "decimal_arg a (Some sB) = Some None \<and> a \<noteq> (\<lambda>_. True) \<or> decimal_arg a (Some sB) = Some (Some B)" for a
    using arg_alloc [of a sB] B(1) by (cases "a = (\<lambda>_. True)") auto
  have sum: "decimal_result a (decimal_add c (Some A) (Some C)) = error_nomem \<and> \<not> (a \<and> c = (\<lambda>_. True)) \<or>
      (\<exists>t. decimal_result a (decimal_add c (Some A) (Some C)) = result_text t \<and> writes t (vA + dec_value C))" if ok: "dec_ok C" for a c C
  proof -
    obtain p where p: "decimal_add (\<lambda>_. True) (Some A) (Some C) = Some p" "dec_ok p" "dec_value p = vA + dec_value C"
      using decimal_add_value [OF A(2) ok, of "\<lambda>_. True"] A(3) by auto
    from result_denotes [OF p(2)] obtain t where t: "decimal_result True (Some p) = result_text t" "writes t (vA + dec_value C)" using p(3) by auto
    with add_result [of a c "Some A" "Some C"] p(1) show ?thesis by (cases "a \<and> c = (\<lambda>_. True)") auto
  qed
  have mul: "decimal_result a (Some (decimal_mul A B)) = error_nomem \<and> \<not> a \<or>
      (\<exists>t. decimal_result a (Some (decimal_mul A B)) = result_text t \<and> writes t (vA * vB))" for a
  proof (cases a)
    case True
    then show ?thesis using result_denotes [of "decimal_mul A B"] decimal_mul_value [OF A(2) B(2)] A(3) B(3) by auto
  next
    case False
    then show ?thesis using decimal_mul_value [OF A(2) B(2)] by (simp add: decimal_result_def dec_ok_def)
  qed
  have T: "alloc = (\<lambda>_ _. True) \<Longrightarrow> alloc i = (\<lambda>_. True)" for i by simp
  show "\<exists>r. decimalAddFunc alloc (Some sA) (Some sB) = Some r \<and> (r = error_nomem \<and> alloc \<noteq> (\<lambda>_ _. True) \<or> (\<exists>t. r = result_text t \<and> writes t (vA + vB)))"
    using aA [of "alloc 0"] aB [of "alloc 1"] sum [OF B(2), of "alloc 3 0" "alloc 2"] T B(3)
    by (cases "alloc = (\<lambda>_ _. True)") (auto simp: decimalAddFunc_def add_None)
  show "\<exists>r. decimalSubFunc alloc (Some sA) (Some sB) = Some r \<and> (r = error_nomem \<and> alloc \<noteq> (\<lambda>_ _. True) \<or> (\<exists>t. r = result_text t \<and> writes t (vA - vB)))"
    using aA [of "alloc 0"] aB [of "alloc 1"] sum [OF B'(1), of "alloc 3 0" "alloc 2"] T B'(2)
    by (cases "alloc = (\<lambda>_ _. True)") (auto simp: decimalSubFunc_def add_None B'_def)
  show "\<exists>r. decimalMulFunc alloc (Some sA) (Some sB) = Some r \<and> (r = error_nomem \<and> alloc \<noteq> (\<lambda>_ _. True) \<or> (\<exists>t. r = result_text t \<and> writes t (vA * vB)))"
    using aA [of "alloc 0"] aB [of "alloc 1"] mul [of "alloc 3 0"] T A(2) B(2)
    by (cases "alloc = (\<lambda>_ _. True)") (auto simp: decimalMulFunc_def dec_ok_def)
qed

section \<open>Comparing\<close>

definition canonical :: "Decimal \<Rightarrow> bool" where
  "canonical p \<longleftrightarrow> dec_ok p \<and> (dc_nFrac p < nDigit p \<longrightarrow> hd (dc_a p) \<noteq> 0) \<and> (0 < dc_nFrac p \<longrightarrow> last (dc_a p) \<noteq> 0) \<and>
     (dc_sign p \<longrightarrow> num (dc_a p) \<noteq> 0)"

lemma digits_cmp_append:
  "length x = length y \<Longrightarrow> digits_cmp (x @ u) (y @ v) = (if x = y then digits_cmp u v else digits_cmp x y) \<and> (digits_cmp x y = 0 \<longleftrightarrow> x = y)"
proof (induction x y rule: list_induct2)
  case (Cons a x b y)
  then show ?case by (cases "x = y") simp_all
qed simp

definition abs_value :: "Decimal \<Rightarrow> rat" where
  "abs_value p = of_int (num (dc_a p)) / 10 ^ nat (dc_nFrac p)"

text \<open>Both at \<open>f\<close> fraction digits.\<close>

definition padded :: "Decimal \<Rightarrow> int \<Rightarrow> int list" where
  "padded p f = dc_a p @ replicate (nat (f - dc_nFrac p)) 0"

lemma padded_value:
  assumes "dec_ok p" and "dc_nFrac p \<le> f"
  shows "abs_value p = of_int (num (padded p f)) / 10 ^ nat f \<and> digits (padded p f) \<and> int (length (padded p f)) = nDigit p - dc_nFrac p + f"
proof -
  have "nat f = nat (dc_nFrac p) + nat (f - dc_nFrac p)" using assms by (simp add: dec_ok_def nat_add_distrib [symmetric])
  then show ?thesis using assms by (simp add: abs_value_def padded_def dec_ok_def nDigit_def power_add)
qed

lemma large_value: "canonical p \<Longrightarrow> dc_nFrac p < nDigit p \<Longrightarrow> 10 ^ nat (nDigit p - dc_nFrac p - 1) \<le> abs_value p"
proof -
  assume c: "canonical p" and s: "dc_nFrac p < nDigit p"
  obtain d a where a: "dc_a p = d # a" using s c by (cases "dc_a p") (auto simp: canonical_def dec_ok_def nDigit_def)
  have d: "1 \<le> d" "digits a" using c s a by (auto simp: canonical_def dec_ok_def)
  have "1 * 10 ^ length a \<le> d * 10 ^ length a" by (rule mult_right_mono) (use d in simp_all)
  moreover have "num (dc_a p) = d * 10 ^ length a + num a" by (simp add: a)
  ultimately have n: "10 ^ length a \<le> num (dc_a p)" using num_bounds [OF d(2)] by linarith
  have "length a = nat (nDigit p - dc_nFrac p - 1) + nat (dc_nFrac p)"
    using a s c by (simp add: nDigit_def canonical_def dec_ok_def nat_add_distrib [symmetric])
  then have "10 ^ nat (nDigit p - dc_nFrac p - 1) * 10 ^ nat (dc_nFrac p) \<le> (of_int (num (dc_a p)) :: rat)"
    using n by (metis power_add of_int_le_iff of_int_numeral of_int_power)
  then show ?thesis by (simp add: abs_value_def le_divide_eq)
qed

lemma small_value: "dec_ok p \<Longrightarrow> abs_value p < 10 ^ nat (nDigit p - dc_nFrac p)"
proof -
  assume o: "dec_ok p"
  then have "num (dc_a p) < 10 ^ length (dc_a p)" using num_bounds by (simp add: dec_ok_def)
  moreover have "length (dc_a p) = nat (nDigit p - dc_nFrac p) + nat (dc_nFrac p)" using o by (simp add: nDigit_def dec_ok_def nat_add_distrib [symmetric])
  ultimately have "(of_int (num (dc_a p)) :: rat) < 10 ^ nat (nDigit p - dc_nFrac p) * 10 ^ nat (dc_nFrac p)"
    by (metis power_add of_int_less_iff of_int_numeral of_int_power)
  then show ?thesis by (simp add: abs_value_def divide_less_eq)
qed

lemma sig_less:
  assumes "canonical A" and "dec_ok B" and "nDigit B - dc_nFrac B < nDigit A - dc_nFrac A"
  shows "abs_value B < abs_value A"
proof -
  have "abs_value B < 10 ^ nat (nDigit B - dc_nFrac B)" by (rule small_value [OF assms(2)])
  also have "\<dots> \<le> 10 ^ nat (nDigit A - dc_nFrac A - 1)" using assms(3) by (intro power_increasing) simp_all
  also have "\<dots> \<le> abs_value A" using assms by (intro large_value) (simp_all add: dec_ok_def)
  finally show ?thesis .
qed

lemma tail_positive: "digits a \<Longrightarrow> a \<noteq> [] \<Longrightarrow> last a \<noteq> 0 \<Longrightarrow> 0 < num a"
proof -
  assume d: "digits a" "a \<noteq> []" "last a \<noteq> 0"
  then have l: "butlast a @ [last a] = a" by simp
  then have "digits (butlast a)" "0 \<le> last a" using d(1) dec_digits_simps(2,3) by metis+
  moreover have "num a = 10 * num (butlast a) + last a" using num_append [of "butlast a" "[last a]"] l by simp
  ultimately show ?thesis using d(3) num_bounds [of "butlast a"] by simp
qed

lemma longer_value:
  assumes "canonical A" and "dec_ok B" and "nDigit A - dc_nFrac A = nDigit B - dc_nFrac B" and "dc_a A = dc_a B @ r" and "r \<noteq> []"
  shows "abs_value B < abs_value A"
proof -
  have l: "dc_nFrac A - dc_nFrac B = int (length r)" using assms(3,4) by (simp add: nDigit_def)
  then have pos: "0 < dc_nFrac A" "dc_nFrac B \<le> dc_nFrac A" using assms(2,5) by (cases r; simp add: dec_ok_def)+
  then have "last r \<noteq> 0" using assms(1,4,5) by (simp add: canonical_def)
  moreover have dr: "digits r" using assms(1,4) by (simp add: canonical_def dec_ok_def)
  ultimately have "0 < num r" using tail_positive assms(5) by blast
  moreover have "num (padded A (dc_nFrac A)) = num (padded B (dc_nFrac A)) + num r" by (simp add: padded_def assms(4) l)
  ultimately have "num (padded B (dc_nFrac A)) < num (padded A (dc_nFrac A))" by simp
  then show ?thesis
    using padded_value [OF assms(2) pos(2)] padded_value [of A "dc_nFrac A"] assms(1) by (simp add: canonical_def divide_strict_right_mono)
qed

lemma padded_split: "n \<le> length (dc_a p) \<Longrightarrow> padded p f = take n (dc_a p) @ drop n (padded p f)"
  using append_take_drop_id [of n "padded p f", symmetric] by (simp add: padded_def del: append_take_drop_id)

lemma cmp_abs_value:
  assumes "canonical A" and "canonical B"
  shows "(decimal_cmp_abs A B < 0 \<longleftrightarrow> abs_value A < abs_value B) \<and> (decimal_cmp_abs A B = 0 \<longleftrightarrow> abs_value A = abs_value B)"
proof -
  have ok: "dec_ok A" "dec_ok B" using assms by (simp_all add: canonical_def)
  let ?sA = "nDigit A - dc_nFrac A" and ?sB = "nDigit B - dc_nFrac B"
  let ?n = "nat (if nDigit A > nDigit B then nDigit B else nDigit A)"
  let ?a = "take ?n (dc_a A)" and ?b = "take ?n (dc_a B)"
  have len: "length ?a = length ?b" by (simp add: nDigit_def)
  show ?thesis
  proof (cases "?sA = ?sB")
    case False
    then consider "?sA < ?sB" | "?sB < ?sA" by linarith
    then show ?thesis
    proof cases
      case 1
      with sig_less [OF assms(2) ok(1)] False show ?thesis by (simp add: decimal_cmp_abs_def)
    next
      case 2
      with sig_less [OF assms(1) ok(2)] False show ?thesis by (simp add: decimal_cmp_abs_def)
    qed
  next
    case sig: True
    show ?thesis
    proof (cases "?a = ?b")
      case True
      then have "decimal_cmp_abs A B = nDigit A - nDigit B" using sig digits_cmp_append [OF len, of "[]" "[]"] by (simp add: decimal_cmp_abs_def Let_def)
      moreover consider "nDigit A = nDigit B" | "nDigit A < nDigit B" | "nDigit B < nDigit A" by linarith
      then have "(nDigit A - nDigit B < 0 \<longleftrightarrow> abs_value A < abs_value B) \<and> (nDigit A - nDigit B = 0 \<longleftrightarrow> abs_value A = abs_value B)"
      proof cases
        case 1
        then have "dc_a A = dc_a B" using True by (simp add: nDigit_def)
        then show ?thesis using sig 1 by (simp add: abs_value_def)
      next
        case 2
        then have "dc_a B = dc_a A @ drop (length (dc_a A)) (dc_a B)" "drop (length (dc_a A)) (dc_a B) \<noteq> []"
          using True append_take_drop_id [of "length (dc_a A)" "dc_a B"] by (simp_all add: nDigit_def)
        then have "abs_value A < abs_value B" by (rule longer_value [OF assms(2) ok(1) sig [symmetric]])
        with 2 show ?thesis by simp
      next
        case 3
        then have "dc_a A = dc_a B @ drop (length (dc_a B)) (dc_a A)" "drop (length (dc_a B)) (dc_a A) \<noteq> []"
          using True append_take_drop_id [of "length (dc_a B)" "dc_a A"] by (simp_all add: nDigit_def)
        then have "abs_value B < abs_value A" by (rule longer_value [OF assms(1) ok(2) sig])
        with 3 show ?thesis by simp
      qed
      ultimately show ?thesis by simp
    next
      case False
      define f where "f = max (dc_nFrac A) (dc_nFrac B)"
      have f: "dc_nFrac A \<le> f" "dc_nFrac B \<le> f" by (simp_all add: f_def)
      note pA = padded_value [OF ok(1) f(1)] and pB = padded_value [OF ok(2) f(2)]
      have l: "length (padded A f) = length (padded B f)" using pA pB sig by linarith
      have "padded A f = ?a @ drop ?n (padded A f)" "padded B f = ?b @ drop ?n (padded B f)"
        using padded_split [of ?n A f] padded_split [of ?n B f] by (simp_all add: nDigit_def)
      then have "digits_cmp (padded A f) (padded B f) = digits_cmp ?a ?b" using digits_cmp_append [OF len] False by metis
      moreover have "sgn (digits_cmp (padded A f) (padded B f)) = sgn (num (padded A f) - num (padded B f))"
        using pA pB by (intro digits_cmp_num [OF l]) simp_all
      moreover have "digits_cmp ?a ?b \<noteq> 0" using digits_cmp_append [OF len, of "[]" "[]"] False by simp
      then have "decimal_cmp_abs A B = digits_cmp ?a ?b" using sig by (simp add: decimal_cmp_abs_def Let_def)
      ultimately have s: "sgn (decimal_cmp_abs A B) = sgn (num (padded A f) - num (padded B f))" by simp
      have "(abs_value A < abs_value B \<longleftrightarrow> num (padded A f) < num (padded B f)) \<and> (abs_value A = abs_value B \<longleftrightarrow> num (padded A f) = num (padded B f))"
        using pA pB by (simp add: divide_less_cancel)
      with s show ?thesis by (auto simp: sgn_if split: if_splits)
    qed
  qed
qed

lemma decimal_cmp_value:
  assumes "canonical A" and "canonical B"
  shows "(decimal_cmp A B < 0 \<longleftrightarrow> dec_value A < dec_value B) \<and> (decimal_cmp A B = 0 \<longleftrightarrow> dec_value A = dec_value B)"
proof -
  have v: "dec_value p = (if dc_sign p then - abs_value p else abs_value p)" for p by (simp add: dec_value_def abs_value_def)
  have nn: "canonical p \<Longrightarrow> 0 \<le> abs_value p \<and> (dc_sign p \<longrightarrow> 0 < abs_value p)" for p
    using num_bounds [of "dc_a p"] by (auto simp: abs_value_def canonical_def dec_ok_def)
  note ab = cmp_abs_value [OF assms] and ba = cmp_abs_value [OF assms(2,1)]
  note n = nn [OF assms(1)] nn [OF assms(2)]
  show ?thesis
  proof (cases "dc_sign A"; cases "dc_sign B")
    assume "dc_sign A" "dc_sign B"
    then show ?thesis using ba by (simp add: decimal_cmp_def v) linarith
  next
    assume s: "dc_sign A" "\<not> dc_sign B"
    then have "dec_value A < dec_value B" using n by (simp add: v)
    then show ?thesis using s by (simp add: decimal_cmp_def)
  next
    assume s: "\<not> dc_sign A" "dc_sign B"
    then have "dec_value B < dec_value A" using n by (simp add: v)
    then show ?thesis using s by (simp add: decimal_cmp_def)
  next
    assume "\<not> dc_sign A" "\<not> dc_sign B"
    then show ?thesis using ab by (simp add: decimal_cmp_def v)
  qed
qed

section \<open>The aggregate\<close>

text \<open>
  The calls of a window function, each with what the allocator grants during it: a row enters, a row leaves, the value is asked for; at the
  end it is finalized.
\<close>

datatype sum_call = xStep "string option" | xInverse "string option" | xValue

fun sum_run :: "bool \<Rightarrow> ((nat \<Rightarrow> nat \<Rightarrow> bool) \<times> sum_call) list \<Rightarrow> Decimal option \<Rightarrow> result list option" where
  "sum_run final [] cx = Some [decimalSumFinalize final cx]"
| "sum_run final ((alloc, xStep arg) # calls) cx = Option.bind (decimalSumStep alloc cx arg) (sum_run final calls)"
| "sum_run final ((alloc, xInverse arg) # calls) cx = Option.bind (decimalSumInverse alloc cx arg) (sum_run final calls)"
| "sum_run final ((alloc, xValue) # calls) cx =
     (let (cx, r) = decimalSumValue (alloc 0 0) cx in map_option ((#) r) (sum_run final calls cx))"

text \<open>The sums the calls ask for, when the texts have the values \<open>val\<close>; \<open>None\<close> before the first row.\<close>

definition arg_value :: "(string \<Rightarrow> rat) \<Rightarrow> string option \<Rightarrow> rat" where
  "arg_value val arg = (case arg of None \<Rightarrow> 0 | Some s \<Rightarrow> val s)"

definition sum_so_far :: "rat option \<Rightarrow> rat" where
  "sum_so_far v = (case v of None \<Rightarrow> 0 | Some v \<Rightarrow> v)"

fun running_sums :: "(string \<Rightarrow> rat) \<Rightarrow> sum_call list \<Rightarrow> rat option \<Rightarrow> rat option list" where
  "running_sums val [] v = [v]"
| "running_sums val (xStep arg # calls) v = running_sums val calls (Some (sum_so_far v + arg_value val arg))"
| "running_sums val (xInverse arg # calls) v = running_sums val calls (Some (sum_so_far v - arg_value val arg))"
| "running_sums val (xValue # calls) v = v # running_sums val calls v"

text \<open>
  A row leaves after rows have entered, and the first row gets its context (without it SQLite ends the statement with an error of its own).
\<close>

fun rows_first :: "((nat \<Rightarrow> nat \<Rightarrow> bool) \<times> sum_call) list \<Rightarrow> bool" where
  "rows_first [] = True"
| "rows_first ((alloc, xStep arg) # calls) = alloc 0 0"
| "rows_first ((alloc, xInverse arg) # calls) = False"
| "rows_first ((alloc, xValue) # calls) = rows_first calls"

definition call_text :: "sum_call \<Rightarrow> string set" where
  "call_text c = (case c of xStep arg \<Rightarrow> set_option arg | xInverse arg \<Rightarrow> set_option arg | xValue \<Rightarrow> {})"

definition sum_ok :: "Decimal \<Rightarrow> rat \<Rightarrow> bool" where
  "sum_ok p v \<longleftrightarrow> dec_ok p \<and> dc_isInit p \<and> dec_value p = v"

lemma add_digits_init: "dc_isInit (add_digits A B) = dc_isInit A"
  by (simp add: add_digits_def Let_def)

lemma expand_init: "dc_isInit (decimal_expand a A n f) = dc_isInit A"
  by (simp add: decimal_expand_def Let_def)

lemma add_init: "decimal_add alloc (Some A) pB = Some p \<Longrightarrow> dc_isInit p = dc_isInit A"
  by (auto simp: decimal_add_def Let_def add_digits_init expand_init split: option.splits if_splits)

lemma sum_unsigned: "sum_ok p v \<Longrightarrow> sum_ok (decimal_unsigned True p) v"
  by (auto simp: sum_ok_def decimal_unsigned_def dec_ok_def dec_value_def nDigit_def)

lemma sum_result: "sum_ok p v \<Longrightarrow> \<exists>t. decimal_result True (Some p) = result_text t \<and> writes t v"
  using result_denotes by (auto simp: sum_ok_def)

text \<open>An answer is the error for missing memory, if some was missing, or no result (null) before the first row, or a text of the sum.\<close>

definition answers :: "bool \<Rightarrow> result \<Rightarrow> rat option \<Rightarrow> bool" where
  "answers memory r v \<longleftrightarrow> r = error_nomem \<and> \<not> memory \<or>
     (case v of None \<Rightarrow> r = no_result | Some v \<Rightarrow> \<exists>t. r = result_text t \<and> writes t v)"

definition sum_state :: "bool \<Rightarrow> Decimal \<Rightarrow> rat \<Rightarrow> bool" where
  "sum_state memory p v \<longleftrightarrow> dc_isInit p \<and> dc_oom p \<and> \<not> memory \<or> sum_ok p v"

lemma add_any:
  assumes "dec_ok B" and "sum_state memory p v" and "memory \<Longrightarrow> alloc = (\<lambda>_. True)"
  shows "\<exists>q. decimal_add alloc (Some p) (Some B) = Some q \<and> sum_state memory q (v + dec_value B)"
proof (cases "sum_ok p v")
  case True
  then have p: "dec_ok p" "dc_isInit p" "dec_value p = v" by (simp_all add: sum_ok_def)
  obtain r where r: "decimal_add (\<lambda>_. True) (Some p) (Some B) = Some r" "dec_ok r" "dec_value r = v + dec_value B"
    using decimal_add_value [OF p(1) assms(1), of "\<lambda>_. True"] p(3) by auto
  then have ok: "sum_ok r (v + dec_value B)" using add_init [OF r(1)] p(2) by (simp add: sum_ok_def)
  obtain q where q: "decimal_add alloc (Some p) (Some B) = Some q" "dc_oom q \<or> decimal_add (\<lambda>_. True) (Some p) (Some B) = Some q"
    using add_alloc by blast
  show ?thesis
  proof (cases memory)
    case True
    then show ?thesis using r ok assms(3) by (auto simp: sum_state_def)
  next
    case False
    then show ?thesis using q r ok add_init [OF q(1)] p(2) by (auto simp: sum_state_def)
  qed
next
  case False
  then show ?thesis using assms(2) by (auto simp: sum_state_def decimal_add_def)
qed

lemma row_any:
  assumes "sum_state memory p v" and "\<forall>s\<in>set_option arg. writes s (val s)" and "memory \<Longrightarrow> alloc = (\<lambda>_ _. True)"
  shows "\<exists>q. decimalSumStep alloc (Some p) arg = Some (Some q) \<and> sum_state memory q (v + arg_value val arg)"
    and "\<exists>q. decimalSumInverse alloc (Some p) arg = Some (Some q) \<and> sum_state memory q (v - arg_value val arg)"
proof -
  have init: "dc_isInit p" using assms(1) by (auto simp: sum_state_def sum_ok_def)
  have "(\<exists>q. decimalSumStep alloc (Some p) arg = Some (Some q) \<and> sum_state memory q (v + arg_value val arg)) \<and>
    (\<exists>q. decimalSumInverse alloc (Some p) arg = Some (Some q) \<and> sum_state memory q (v - arg_value val arg))"
  proof (cases arg)
    case None
    then show ?thesis using assms(1) init by (simp add: decimalSumStep_def decimalSumInverse_def aggregate_context_def arg_value_def)
  next
    case (Some s)
    then obtain B where B: "decimal_arg (\<lambda>_. True) (Some s) = Some (Some B)" "dec_ok B" "dec_value B = val s"
      using assms(2) writes_denotes [of s "val s"] by (auto simp: denotes_def)
    define C where "C = B\<lparr>dc_sign := \<not> dc_sign B\<rparr>"
    have C: "dec_ok C" "dec_value C = - val s" using B by (simp_all add: C_def dec_ok_def dec_value_def nDigit_def split: if_splits)
    have m: "memory \<Longrightarrow> alloc i = (\<lambda>_. True)" for i using assms(3) by simp
    obtain q where q: "decimal_add (alloc 2) (Some p) (Some B) = Some q" "sum_state memory q (v + val s)"
      using add_any [OF B(2) assms(1) m] B(3) by auto
    obtain r where r: "decimal_add (alloc 2) (Some p) (Some C) = Some r" "sum_state memory r (v - val s)"
      using add_any [OF C(1) assms(1) m] C(2) by auto
    have "decimal_arg (alloc 1) (Some s) = Some None \<and> \<not> memory \<or> decimal_arg (alloc 1) (Some s) = Some (Some B)"
      using arg_alloc [of "alloc 1" s] B(1) m [of 1] by auto
    then show ?thesis
      using q r init by (auto simp: Some decimalSumStep_def decimalSumInverse_def aggregate_context_def arg_value_def C_def
          decimal_add_def sum_state_def)
  qed
  then show "\<exists>q. decimalSumStep alloc (Some p) arg = Some (Some q) \<and> sum_state memory q (v + arg_value val arg)"
    and "\<exists>q. decimalSumInverse alloc (Some p) arg = Some (Some q) \<and> sum_state memory q (v - arg_value val arg)" by blast+
qed

lemma state_result: "sum_state memory p v \<Longrightarrow> (memory \<Longrightarrow> a) \<Longrightarrow> answers memory (decimal_result a (Some p)) (Some v)"
  using sum_result [of p v] result_alloc [of a "Some p"] by (auto simp: sum_state_def answers_def result_oom)

lemma state_unsigned: "sum_state memory p v \<Longrightarrow> sum_state memory (decimal_unsigned a p) v"
  using sum_unsigned [of p v] by (cases a) (auto simp: sum_state_def decimal_unsigned_def)

lemma sum_run_value:
  assumes "\<forall>(alloc, c)\<in>set calls. (memory \<longrightarrow> alloc = (\<lambda>_ _. True)) \<and> (\<forall>s\<in>call_text c. writes s (val s))"
    and "memory \<longrightarrow> final" and "sum_state memory p v"
  shows "\<exists>rs. sum_run final calls (Some p) = Some rs \<and> list_all2 (answers memory) rs (running_sums val (map snd calls) (Some v))"
  using assms
proof (induction calls arbitrary: p v)
  case Nil
  then show ?case using state_result by (auto simp: decimalSumFinalize_def)
next
  case (Cons c calls)
  have IH: "sum_state memory q w \<Longrightarrow> \<exists>rs. sum_run final calls (Some q) = Some rs \<and>
      list_all2 (answers memory) rs (running_sums val (map snd calls) (Some w))" for q w
    using Cons.IH Cons.prems(1,2) by simp
  obtain alloc k where c: "c = (alloc, k)" by fastforce
  have m: "memory \<Longrightarrow> alloc = (\<lambda>_ _. True)" using Cons.prems(1) c by auto
  show ?case
  proof (cases k)
    case (xStep arg)
    obtain q where q: "decimalSumStep alloc (Some p) arg = Some (Some q)" "sum_state memory q (v + arg_value val arg)"
      using row_any(1) [OF Cons.prems(3) _ m, of arg val] Cons.prems(1) xStep c by (auto simp: call_text_def)
    then show ?thesis using IH [OF q(2)] xStep c by (simp add: sum_so_far_def)
  next
    case (xInverse arg)
    obtain q where q: "decimalSumInverse alloc (Some p) arg = Some (Some q)" "sum_state memory q (v - arg_value val arg)"
      using row_any(2) [OF Cons.prems(3) _ m, of arg val] Cons.prems(1) xInverse c by (auto simp: call_text_def)
    then show ?thesis using IH [OF q(2)] xInverse c by (simp add: sum_so_far_def)
  next
    case xValue
    have "answers memory (decimal_result (alloc 0 0) (Some p)) (Some v)" using state_result [OF Cons.prems(3)] m by simp
    then show ?thesis using IH [OF state_unsigned [OF Cons.prems(3), of "alloc 0 0"]] xValue c by (auto simp: decimalSumValue_def)
  qed
qed

lemma sum_first:
  assumes "\<forall>s\<in>set_option arg. writes s (val s)" and "memory \<Longrightarrow> alloc = (\<lambda>_ _. True)" and "alloc 0 0"
  shows "\<exists>q. decimalSumStep alloc None arg = Some (Some q) \<and> sum_state memory q (arg_value val arg)"
proof -
  let ?p = "\<lparr>dc_sign = False, dc_oom = \<not> alloc 0 1, dc_isNull = False, dc_isInit = True, dc_nFrac = 0, dc_a = [0]\<rparr>"
  have p: "sum_state memory ?p 0" using assms(2) by (auto simp: sum_state_def sum_ok_def dec_ok_def dec_value_def nDigit_def)
  have "decimalSumStep alloc None arg = decimalSumStep alloc (Some ?p) arg"
    using assms(3) by (simp add: decimalSumStep_def aggregate_context_def)
  then show ?thesis using row_any(1) [OF p assms(1,2)] by simp
qed

lemma sum_run_from_start:
  assumes "\<forall>(alloc, c)\<in>set calls. (memory \<longrightarrow> alloc = (\<lambda>_ _. True)) \<and> (\<forall>s\<in>call_text c. writes s (val s))"
    and "memory \<longrightarrow> final" and "rows_first calls"
  shows "\<exists>rs. sum_run final calls None = Some rs \<and> list_all2 (answers memory) rs (running_sums val (map snd calls) None)"
  using assms
proof (induction calls)
  case Nil
  then show ?case by (simp add: decimalSumFinalize_def answers_def)
next
  case (Cons c calls)
  obtain alloc k where c: "c = (alloc, k)" by fastforce
  show ?case
  proof (cases k)
    case (xStep arg)
    obtain q where q: "decimalSumStep alloc None arg = Some (Some q)" "sum_state memory q (arg_value val arg)"
      using sum_first [of arg val memory alloc] Cons.prems xStep c by (auto simp: call_text_def)
    have "\<forall>(alloc, c)\<in>set calls. (memory \<longrightarrow> alloc = (\<lambda>_ _. True)) \<and> (\<forall>s\<in>call_text c. writes s (val s))" using Cons.prems(1) by simp
    from sum_run_value [OF this Cons.prems(2) q(2)] show ?thesis using q(1) xStep c by (simp add: sum_so_far_def)
  next
    case (xInverse arg)
    then show ?thesis using Cons.prems(3) c by simp
  next
    case xValue
    then show ?thesis using Cons c by (auto simp: decimalSumValue_def answers_def)
  qed
qed

section \<open>Properties\<close>

text \<open>
  C20: \<open>decimal_add\<close>, \<open>decimal_sub\<close> and \<open>decimal_mul\<close> are exact. For two texts that write the rational numbers \<open>a\<close> and \<open>b\<close> (spaces, a sign,
  digits, a point with digits, an exponent) the functions return a text that writes \<open>a + b\<close>, \<open>a - b\<close> and \<open>a * b\<close>, however long the
  numbers are; if a request for memory fails the result may be the error \<^verbatim>\<open>SQLITE_NOMEM\<close> instead, and with all memory it never is.
\<close>

theorem decimal_arithmetic:
  assumes "writes sA vA" and "writes sB vB"
  shows "\<exists>p s m. decimalAddFunc alloc (Some sA) (Some sB) = Some p \<and> decimalSubFunc alloc (Some sA) (Some sB) = Some s \<and>
    decimalMulFunc alloc (Some sA) (Some sB) = Some m \<and>
    (p = error_nomem \<and> alloc \<noteq> (\<lambda>_ _. True) \<or> (\<exists>t. p = result_text t \<and> writes t (vA + vB))) \<and>
    (s = error_nomem \<and> alloc \<noteq> (\<lambda>_ _. True) \<or> (\<exists>t. s = result_text t \<and> writes t (vA - vB))) \<and>
    (m = error_nomem \<and> alloc \<noteq> (\<lambda>_ _. True) \<or> (\<exists>t. m = result_text t \<and> writes t (vA * vB)))"
proof -
  note f = functions_value [OF assms [THEN writes_denotes], of alloc]
  show ?thesis using f(1) f(2) f(3) by blast
qed

lemma writes_examples: "writes ''0.95'' (19 / 20)" "writes ''-1.2e1'' (- 12)" "writes '' +1.25'' (5 / 4)" "writes ''1.3'' (13 / 10)"
proof -
  have d: "digit_char 0 = CHR ''0''" "digit_char 1 = CHR ''1''" "digit_char 2 = CHR ''2''" "digit_char 3 = CHR ''3''"
      "digit_char 5 = CHR ''5''" "digit_char 9 = CHR ''9''"
    by code_simp+
  have n: "exponent_text [] 0" by (simp add: exponent_text_def)
  have e: "exponent_text ''e1'' 1" unfolding exponent_text_def
    by (intro disjI2 exI [of _ "CHR ''e''"] exI [of _ "[]"] exI [of _ "[1]"]) (simp add: d digits_def)
  have w: "literal_ok sp sg I F \<Longrightarrow> exponent_text ex e \<Longrightarrow> literal_value sg I F e = v \<Longrightarrow> s = literal_text sp sg I F ex \<Longrightarrow> writes s v"
    for sp sg I F ex e v s unfolding writes_def by metis
  show "writes ''0.95'' (19 / 20)"
    by (rule w [of "[]" "[]" "[0]" "Some [9, 5]", OF _ n]) (simp_all add: literal_ok_def literal_value_def literal_text_def frac_digits_def d num_def)
  show "writes ''-1.2e1'' (- 12)"
    by (rule w [of "[]" "''-''" "[1]" "Some [2]", OF _ e]) (simp_all add: literal_ok_def literal_value_def literal_text_def frac_digits_def d num_def)
  show "writes '' +1.25'' (5 / 4)"
    by (rule w [of "'' ''" "''+''" "[1]" "Some [2, 5]", OF _ n])
      (simp_all add: literal_ok_def literal_value_def literal_text_def frac_digits_def d num_def c_space_def)
  show "writes ''1.3'' (13 / 10)"
    by (rule w [of "[]" "[]" "[1]" "Some [3]", OF _ n]) (simp_all add: literal_ok_def literal_value_def literal_text_def frac_digits_def d num_def)
qed

theorem decimal_arithmetic_witness:
  "writes ''0.95'' (19 / 20) \<and> writes ''-1.2e1'' (- 12) \<and>
   (\<exists>t. decimalMulFunc (\<lambda>_ _. True) (Some ''0.95'') (Some ''-1.2e1'') = Some (result_text t) \<and> writes t (- 57 / 5))"
  using decimal_arithmetic [OF writes_examples(1,2), of "\<lambda>_ _. True"] writes_examples(1,2) by auto

text \<open>What is printed fits the memory asked for, \<^verbatim>\<open>nDigit+4\<close> bytes with the terminator.\<close>

lemma decimal_text_fits:
  assumes "decimal_arg alloc (Some s) = Some (Some p)"
  shows "int (length (decimal_text p)) + 1 \<le> nDigit p + 4"
proof -
  obtain q where "decimal_arg (\<lambda>_. True) (Some s) = Some (Some q)" "dec_ok q" using decimal_arg_ok [of "\<lambda>_. True" s] by auto
  with arg_alloc [of alloc s] assms have "dec_ok p" by auto
  then show ?thesis by (rule text_fits)
qed

text \<open>
  C22: \<open>decimal_cmp\<close> is the order of the rational numbers on texts that are read as decimals in canonical form: no zero before the integer
  digits, none behind the fraction digits, and no sign on zero. The function returns -1, 0 or 1. (On other forms it is not: 1.0 compares
  greater than 1.)
\<close>

theorem decimal_comparison:
  assumes "writes sA vA" and "decimal_arg (\<lambda>_. True) (Some sA) = Some (Some A)" and "canonical A"
    and "writes sB vB" and "decimal_arg (\<lambda>_. True) (Some sB) = Some (Some B)" and "canonical B"
  shows "decimalCmpFunc (\<lambda>_. True) (\<lambda>_. True) (Some sA) (Some sB) =
    Some (result_int (if vA < vB then - 1 else if vA = vB then 0 else 1))"
proof -
  have v: "dec_value A = vA" "dec_value B = vB"
    using writes_denotes [OF assms(1)] writes_denotes [OF assms(4)] assms(2,5) by (auto simp: denotes_def)
  have "\<not> dc_isNull A" "\<not> dc_isNull B" using assms(3,6) by (simp_all add: canonical_def dec_ok_def)
  then have "decimalCmpFunc (\<lambda>_. True) (\<lambda>_. True) (Some sA) (Some sB) =
      Some (result_int (let rc = decimal_cmp A B in if rc < 0 then - 1 else if rc > 0 then 1 else rc))"
    by (simp only: decimalCmpFunc_def assms(2,5) Option.bind.bind_lunit option.case if_False Let_def)
  then show ?thesis using decimal_cmp_value [OF assms(3,6)]
    by (cases "decimal_cmp A B" "0 :: int" rule: linorder_cases) (simp_all add: Let_def v)
qed

lemma read_cmp_examples:
  "decimal_arg (\<lambda>_. True) (Some '' +1.25'') = Some (Some \<lparr>dc_sign = False, dc_oom = False, dc_isNull = False, dc_isInit = True, dc_nFrac = 2, dc_a = [1, 2, 5]\<rparr>)"
  "decimal_arg (\<lambda>_. True) (Some ''1.3'') = Some (Some \<lparr>dc_sign = False, dc_oom = False, dc_isNull = False, dc_isInit = True, dc_nFrac = 1, dc_a = [1, 3]\<rparr>)"
  by (simp_all add: decimal_arg_def decimal_new_def Let_def c_space_def c_digit_def digit_of_def)

theorem decimal_comparison_witness: "decimalCmpFunc (\<lambda>_. True) (\<lambda>_. True) (Some '' +1.25'') (Some ''1.3'') = Some (result_int (- 1))"
  using decimal_comparison [OF writes_examples(3) read_cmp_examples(1) _ writes_examples(4) read_cmp_examples(2)]
  by (simp add: canonical_def dec_ok_def nDigit_def num_def digits_def)

text \<open>Where the form is not canonical: a trailing zero makes a difference, and so does the sign of zero.\<close>

lemma comparison_of_equals:
  "decimalCmpFunc (\<lambda>_. True) (\<lambda>_. True) (Some ''1.0'') (Some ''1'') = Some (result_int 1)"
  "decimalCmpFunc (\<lambda>_. True) (\<lambda>_. True) (Some ''-0'') (Some ''0'') = Some (result_int (- 1))"
  by (simp_all add: decimalCmpFunc_def decimal_arg_def decimal_new_def Let_def c_space_def c_digit_def digit_of_def decimal_cmp_def decimal_cmp_abs_def nDigit_def)

text \<open>A key of the collation that holds only spaces is read behind its end.\<close>

lemma collation_overread: "decimalCollFunc (\<lambda>_. True) (\<lambda>_. True) '' '' ''1'' = None"
  by (simp add: decimalCollFunc_def decimal_new_def c_space_def)

text \<open>
  C21: \<open>decimal_sum\<close> as an aggregate over a window: whatever rows enter (\<open>xStep\<close>) and leave (\<open>xInverse\<close>, after a first row has entered), with
  null arguments ignored, every \<open>xValue\<close> and the final value is null before the first row and afterwards a text that writes the exact sum of
  the rows that have entered less those that have left. If a request for memory fails an answer may be the error \<^verbatim>\<open>SQLITE_NOMEM\<close> instead,
  but never another sum, and with all memory it never is. The context of the first row is taken to be granted.
\<close>

theorem decimal_sum_window:
  assumes "rows_first calls" and "\<forall>(alloc, c)\<in>set calls. \<forall>s\<in>call_text c. writes s (val s)"
  shows "\<exists>rs. sum_run final calls None = Some rs \<and>
    list_all2 (answers (final \<and> (\<forall>(alloc, c)\<in>set calls. alloc = (\<lambda>_ _. True)))) rs (running_sums val (map snd calls) None)"
  using assms by (intro sum_run_from_start) auto

theorem decimal_sum_window_witness:
  "let full = (\<lambda>_ _. True) in
   (\<exists>rs. sum_run True [(full, xValue), (full, xStep (Some ''0.95'')), (full, xStep None), (full, xStep (Some ''-1.2e1'')), (full, xValue),
       (full, xInverse (Some ''0.95''))] None = Some rs \<and>
     list_all2 (answers True) rs [None, Some (- 221 / 20), Some (- 12)])"
proof -
  let ?val = "\<lambda>s. if s = ''0.95'' then 19 / 20 else - 12 :: rat"
  let ?full = "\<lambda>_ _. True"
  let ?calls = "[(?full, xValue), (?full, xStep (Some ''0.95'')), (?full, xStep None), (?full, xStep (Some ''-1.2e1'')), (?full, xValue),
       (?full, xInverse (Some ''0.95''))]"
  have "\<forall>(alloc, c)\<in>set ?calls. \<forall>s\<in>call_text c. writes s (?val s)"
    using writes_examples by (simp add: call_text_def)
  from decimal_sum_window [OF _ this, of True] show ?thesis by (simp add: arg_value_def sum_so_far_def del: sum_run.simps)
qed

end
