(* ===== verification/Ys_Keccak.thy ===== *)
theory Ys_Keccak
  imports Ys_Prelude
begin

unbundle bit_operations_syntax

text \<open>
  The SHA-3 functions of the shell, the extension \<^verbatim>\<open>shathree.c\<close> in \<^verbatim>\<open>shell.c\<close>, built for a little-endian machine
  (\<^verbatim>\<open>SHA3_BYTEORDER==1234\<close>).
\<close>

section \<open>The permutation as it is written\<close>

type_synonym u64 = "64 word"

definition ROL64 :: "u64 \<Rightarrow> nat \<Rightarrow> u64" where
  "ROL64 a x = push_bit x a OR drop_bit (64 - x) a"

definition keccak_RC :: "u64 list" where
  "keccak_RC =
    [0x0000000000000001, 0x0000000000008082, 0x800000000000808a, 0x8000000080008000,
     0x000000000000808b, 0x0000000080000001, 0x8000000080008081, 0x8000000000008009,
     0x000000000000008a, 0x0000000000000088, 0x0000000080008009, 0x000000008000000a,
     0x000000008000808b, 0x800000000000008b, 0x8000000000008089, 0x8000000000008003,
     0x8000000000008002, 0x8000000000000080, 0x000000000000800a, 0x800000008000000a,
     0x8000000080008081, 0x8000000000008080, 0x0000000080000001, 0x8000000080008008]"

text \<open>The loop is unrolled four times; the lanes move between the variables and are back in their places after four rounds.\<close>

definition keccak_round1 :: "u64 \<Rightarrow> u64 list \<Rightarrow> u64 list" where
  "keccak_round1 rc s =
     (let a00 = s ! 0; a01 = s ! 1; a02 = s ! 2; a03 = s ! 3; a04 = s ! 4;
          a10 = s ! 5; a11 = s ! 6; a12 = s ! 7; a13 = s ! 8; a14 = s ! 9;
          a20 = s ! 10; a21 = s ! 11; a22 = s ! 12; a23 = s ! 13; a24 = s ! 14;
          a30 = s ! 15; a31 = s ! 16; a32 = s ! 17; a33 = s ! 18; a34 = s ! 19;
          a40 = s ! 20; a41 = s ! 21; a42 = s ! 22; a43 = s ! 23; a44 = s ! 24;
          c0 = a00 XOR a10 XOR a20 XOR a30 XOR a40; c1 = a01 XOR a11 XOR a21 XOR a31 XOR a41; c2 = a02 XOR a12 XOR a22 XOR a32 XOR a42;
          c3 = a03 XOR a13 XOR a23 XOR a33 XOR a43; c4 = a04 XOR a14 XOR a24 XOR a34 XOR a44; d0 = c4 XOR ROL64 c1 1;
          d1 = c0 XOR ROL64 c2 1; d2 = c1 XOR ROL64 c3 1; d3 = c2 XOR ROL64 c4 1;
          d4 = c3 XOR ROL64 c0 1;
          b0 = a00 XOR d0; b1 = ROL64 (a11 XOR d1) 44; b2 = ROL64 (a22 XOR d2) 43;
          b3 = ROL64 (a33 XOR d3) 21; b4 = ROL64 (a44 XOR d4) 14; a00 = b0 XOR (NOT b1 AND b2);
          a00 = a00 XOR rc; a11 = b1 XOR (NOT b2 AND b3); a22 = b2 XOR (NOT b3 AND b4);
          a33 = b3 XOR (NOT b4 AND b0); a44 = b4 XOR (NOT b0 AND b1);
          b2 = ROL64 (a20 XOR d0) 3; b3 = ROL64 (a31 XOR d1) 45; b4 = ROL64 (a42 XOR d2) 61;
          b0 = ROL64 (a03 XOR d3) 28; b1 = ROL64 (a14 XOR d4) 20; a20 = b0 XOR (NOT b1 AND b2);
          a31 = b1 XOR (NOT b2 AND b3); a42 = b2 XOR (NOT b3 AND b4); a03 = b3 XOR (NOT b4 AND b0);
          a14 = b4 XOR (NOT b0 AND b1);
          b4 = ROL64 (a40 XOR d0) 18; b0 = ROL64 (a01 XOR d1) 1; b1 = ROL64 (a12 XOR d2) 6;
          b2 = ROL64 (a23 XOR d3) 25; b3 = ROL64 (a34 XOR d4) 8; a40 = b0 XOR (NOT b1 AND b2);
          a01 = b1 XOR (NOT b2 AND b3); a12 = b2 XOR (NOT b3 AND b4); a23 = b3 XOR (NOT b4 AND b0);
          a34 = b4 XOR (NOT b0 AND b1);
          b1 = ROL64 (a10 XOR d0) 36; b2 = ROL64 (a21 XOR d1) 10; b3 = ROL64 (a32 XOR d2) 15;
          b4 = ROL64 (a43 XOR d3) 56; b0 = ROL64 (a04 XOR d4) 27; a10 = b0 XOR (NOT b1 AND b2);
          a21 = b1 XOR (NOT b2 AND b3); a32 = b2 XOR (NOT b3 AND b4); a43 = b3 XOR (NOT b4 AND b0);
          a04 = b4 XOR (NOT b0 AND b1);
          b3 = ROL64 (a30 XOR d0) 41; b4 = ROL64 (a41 XOR d1) 2; b0 = ROL64 (a02 XOR d2) 62;
          b1 = ROL64 (a13 XOR d3) 55; b2 = ROL64 (a24 XOR d4) 39; a30 = b0 XOR (NOT b1 AND b2);
          a41 = b1 XOR (NOT b2 AND b3); a02 = b2 XOR (NOT b3 AND b4); a13 = b3 XOR (NOT b4 AND b0);
          a24 = b4 XOR (NOT b0 AND b1)
      in [a00, a01, a02, a03, a04,
          a10, a11, a12, a13, a14,
          a20, a21, a22, a23, a24,
          a30, a31, a32, a33, a34,
          a40, a41, a42, a43, a44])"

definition keccak_round2 :: "u64 \<Rightarrow> u64 list \<Rightarrow> u64 list" where
  "keccak_round2 rc s =
     (let a00 = s ! 0; a01 = s ! 1; a02 = s ! 2; a03 = s ! 3; a04 = s ! 4;
          a10 = s ! 5; a11 = s ! 6; a12 = s ! 7; a13 = s ! 8; a14 = s ! 9;
          a20 = s ! 10; a21 = s ! 11; a22 = s ! 12; a23 = s ! 13; a24 = s ! 14;
          a30 = s ! 15; a31 = s ! 16; a32 = s ! 17; a33 = s ! 18; a34 = s ! 19;
          a40 = s ! 20; a41 = s ! 21; a42 = s ! 22; a43 = s ! 23; a44 = s ! 24;
          c0 = a00 XOR a20 XOR a40 XOR a10 XOR a30; c1 = a11 XOR a31 XOR a01 XOR a21 XOR a41; c2 = a22 XOR a42 XOR a12 XOR a32 XOR a02;
          c3 = a33 XOR a03 XOR a23 XOR a43 XOR a13; c4 = a44 XOR a14 XOR a34 XOR a04 XOR a24; d0 = c4 XOR ROL64 c1 1;
          d1 = c0 XOR ROL64 c2 1; d2 = c1 XOR ROL64 c3 1; d3 = c2 XOR ROL64 c4 1;
          d4 = c3 XOR ROL64 c0 1;
          b0 = a00 XOR d0; b1 = ROL64 (a31 XOR d1) 44; b2 = ROL64 (a12 XOR d2) 43;
          b3 = ROL64 (a43 XOR d3) 21; b4 = ROL64 (a24 XOR d4) 14; a00 = b0 XOR (NOT b1 AND b2);
          a00 = a00 XOR rc; a31 = b1 XOR (NOT b2 AND b3); a12 = b2 XOR (NOT b3 AND b4);
          a43 = b3 XOR (NOT b4 AND b0); a24 = b4 XOR (NOT b0 AND b1);
          b2 = ROL64 (a40 XOR d0) 3; b3 = ROL64 (a21 XOR d1) 45; b4 = ROL64 (a02 XOR d2) 61;
          b0 = ROL64 (a33 XOR d3) 28; b1 = ROL64 (a14 XOR d4) 20; a40 = b0 XOR (NOT b1 AND b2);
          a21 = b1 XOR (NOT b2 AND b3); a02 = b2 XOR (NOT b3 AND b4); a33 = b3 XOR (NOT b4 AND b0);
          a14 = b4 XOR (NOT b0 AND b1);
          b4 = ROL64 (a30 XOR d0) 18; b0 = ROL64 (a11 XOR d1) 1; b1 = ROL64 (a42 XOR d2) 6;
          b2 = ROL64 (a23 XOR d3) 25; b3 = ROL64 (a04 XOR d4) 8; a30 = b0 XOR (NOT b1 AND b2);
          a11 = b1 XOR (NOT b2 AND b3); a42 = b2 XOR (NOT b3 AND b4); a23 = b3 XOR (NOT b4 AND b0);
          a04 = b4 XOR (NOT b0 AND b1);
          b1 = ROL64 (a20 XOR d0) 36; b2 = ROL64 (a01 XOR d1) 10; b3 = ROL64 (a32 XOR d2) 15;
          b4 = ROL64 (a13 XOR d3) 56; b0 = ROL64 (a44 XOR d4) 27; a20 = b0 XOR (NOT b1 AND b2);
          a01 = b1 XOR (NOT b2 AND b3); a32 = b2 XOR (NOT b3 AND b4); a13 = b3 XOR (NOT b4 AND b0);
          a44 = b4 XOR (NOT b0 AND b1);
          b3 = ROL64 (a10 XOR d0) 41; b4 = ROL64 (a41 XOR d1) 2; b0 = ROL64 (a22 XOR d2) 62;
          b1 = ROL64 (a03 XOR d3) 55; b2 = ROL64 (a34 XOR d4) 39; a10 = b0 XOR (NOT b1 AND b2);
          a41 = b1 XOR (NOT b2 AND b3); a22 = b2 XOR (NOT b3 AND b4); a03 = b3 XOR (NOT b4 AND b0);
          a34 = b4 XOR (NOT b0 AND b1)
      in [a00, a01, a02, a03, a04,
          a10, a11, a12, a13, a14,
          a20, a21, a22, a23, a24,
          a30, a31, a32, a33, a34,
          a40, a41, a42, a43, a44])"

definition keccak_round3 :: "u64 \<Rightarrow> u64 list \<Rightarrow> u64 list" where
  "keccak_round3 rc s =
     (let a00 = s ! 0; a01 = s ! 1; a02 = s ! 2; a03 = s ! 3; a04 = s ! 4;
          a10 = s ! 5; a11 = s ! 6; a12 = s ! 7; a13 = s ! 8; a14 = s ! 9;
          a20 = s ! 10; a21 = s ! 11; a22 = s ! 12; a23 = s ! 13; a24 = s ! 14;
          a30 = s ! 15; a31 = s ! 16; a32 = s ! 17; a33 = s ! 18; a34 = s ! 19;
          a40 = s ! 20; a41 = s ! 21; a42 = s ! 22; a43 = s ! 23; a44 = s ! 24;
          c0 = a00 XOR a40 XOR a30 XOR a20 XOR a10; c1 = a31 XOR a21 XOR a11 XOR a01 XOR a41; c2 = a12 XOR a02 XOR a42 XOR a32 XOR a22;
          c3 = a43 XOR a33 XOR a23 XOR a13 XOR a03; c4 = a24 XOR a14 XOR a04 XOR a44 XOR a34; d0 = c4 XOR ROL64 c1 1;
          d1 = c0 XOR ROL64 c2 1; d2 = c1 XOR ROL64 c3 1; d3 = c2 XOR ROL64 c4 1;
          d4 = c3 XOR ROL64 c0 1;
          b0 = a00 XOR d0; b1 = ROL64 (a21 XOR d1) 44; b2 = ROL64 (a42 XOR d2) 43;
          b3 = ROL64 (a13 XOR d3) 21; b4 = ROL64 (a34 XOR d4) 14; a00 = b0 XOR (NOT b1 AND b2);
          a00 = a00 XOR rc; a21 = b1 XOR (NOT b2 AND b3); a42 = b2 XOR (NOT b3 AND b4);
          a13 = b3 XOR (NOT b4 AND b0); a34 = b4 XOR (NOT b0 AND b1);
          b2 = ROL64 (a30 XOR d0) 3; b3 = ROL64 (a01 XOR d1) 45; b4 = ROL64 (a22 XOR d2) 61;
          b0 = ROL64 (a43 XOR d3) 28; b1 = ROL64 (a14 XOR d4) 20; a30 = b0 XOR (NOT b1 AND b2);
          a01 = b1 XOR (NOT b2 AND b3); a22 = b2 XOR (NOT b3 AND b4); a43 = b3 XOR (NOT b4 AND b0);
          a14 = b4 XOR (NOT b0 AND b1);
          b4 = ROL64 (a10 XOR d0) 18; b0 = ROL64 (a31 XOR d1) 1; b1 = ROL64 (a02 XOR d2) 6;
          b2 = ROL64 (a23 XOR d3) 25; b3 = ROL64 (a44 XOR d4) 8; a10 = b0 XOR (NOT b1 AND b2);
          a31 = b1 XOR (NOT b2 AND b3); a02 = b2 XOR (NOT b3 AND b4); a23 = b3 XOR (NOT b4 AND b0);
          a44 = b4 XOR (NOT b0 AND b1);
          b1 = ROL64 (a40 XOR d0) 36; b2 = ROL64 (a11 XOR d1) 10; b3 = ROL64 (a32 XOR d2) 15;
          b4 = ROL64 (a03 XOR d3) 56; b0 = ROL64 (a24 XOR d4) 27; a40 = b0 XOR (NOT b1 AND b2);
          a11 = b1 XOR (NOT b2 AND b3); a32 = b2 XOR (NOT b3 AND b4); a03 = b3 XOR (NOT b4 AND b0);
          a24 = b4 XOR (NOT b0 AND b1);
          b3 = ROL64 (a20 XOR d0) 41; b4 = ROL64 (a41 XOR d1) 2; b0 = ROL64 (a12 XOR d2) 62;
          b1 = ROL64 (a33 XOR d3) 55; b2 = ROL64 (a04 XOR d4) 39; a20 = b0 XOR (NOT b1 AND b2);
          a41 = b1 XOR (NOT b2 AND b3); a12 = b2 XOR (NOT b3 AND b4); a33 = b3 XOR (NOT b4 AND b0);
          a04 = b4 XOR (NOT b0 AND b1)
      in [a00, a01, a02, a03, a04,
          a10, a11, a12, a13, a14,
          a20, a21, a22, a23, a24,
          a30, a31, a32, a33, a34,
          a40, a41, a42, a43, a44])"

definition keccak_round4 :: "u64 \<Rightarrow> u64 list \<Rightarrow> u64 list" where
  "keccak_round4 rc s =
     (let a00 = s ! 0; a01 = s ! 1; a02 = s ! 2; a03 = s ! 3; a04 = s ! 4;
          a10 = s ! 5; a11 = s ! 6; a12 = s ! 7; a13 = s ! 8; a14 = s ! 9;
          a20 = s ! 10; a21 = s ! 11; a22 = s ! 12; a23 = s ! 13; a24 = s ! 14;
          a30 = s ! 15; a31 = s ! 16; a32 = s ! 17; a33 = s ! 18; a34 = s ! 19;
          a40 = s ! 20; a41 = s ! 21; a42 = s ! 22; a43 = s ! 23; a44 = s ! 24;
          c0 = a00 XOR a30 XOR a10 XOR a40 XOR a20; c1 = a21 XOR a01 XOR a31 XOR a11 XOR a41; c2 = a42 XOR a22 XOR a02 XOR a32 XOR a12;
          c3 = a13 XOR a43 XOR a23 XOR a03 XOR a33; c4 = a34 XOR a14 XOR a44 XOR a24 XOR a04; d0 = c4 XOR ROL64 c1 1;
          d1 = c0 XOR ROL64 c2 1; d2 = c1 XOR ROL64 c3 1; d3 = c2 XOR ROL64 c4 1;
          d4 = c3 XOR ROL64 c0 1;
          b0 = a00 XOR d0; b1 = ROL64 (a01 XOR d1) 44; b2 = ROL64 (a02 XOR d2) 43;
          b3 = ROL64 (a03 XOR d3) 21; b4 = ROL64 (a04 XOR d4) 14; a00 = b0 XOR (NOT b1 AND b2);
          a00 = a00 XOR rc; a01 = b1 XOR (NOT b2 AND b3); a02 = b2 XOR (NOT b3 AND b4);
          a03 = b3 XOR (NOT b4 AND b0); a04 = b4 XOR (NOT b0 AND b1);
          b2 = ROL64 (a10 XOR d0) 3; b3 = ROL64 (a11 XOR d1) 45; b4 = ROL64 (a12 XOR d2) 61;
          b0 = ROL64 (a13 XOR d3) 28; b1 = ROL64 (a14 XOR d4) 20; a10 = b0 XOR (NOT b1 AND b2);
          a11 = b1 XOR (NOT b2 AND b3); a12 = b2 XOR (NOT b3 AND b4); a13 = b3 XOR (NOT b4 AND b0);
          a14 = b4 XOR (NOT b0 AND b1);
          b4 = ROL64 (a20 XOR d0) 18; b0 = ROL64 (a21 XOR d1) 1; b1 = ROL64 (a22 XOR d2) 6;
          b2 = ROL64 (a23 XOR d3) 25; b3 = ROL64 (a24 XOR d4) 8; a20 = b0 XOR (NOT b1 AND b2);
          a21 = b1 XOR (NOT b2 AND b3); a22 = b2 XOR (NOT b3 AND b4); a23 = b3 XOR (NOT b4 AND b0);
          a24 = b4 XOR (NOT b0 AND b1);
          b1 = ROL64 (a30 XOR d0) 36; b2 = ROL64 (a31 XOR d1) 10; b3 = ROL64 (a32 XOR d2) 15;
          b4 = ROL64 (a33 XOR d3) 56; b0 = ROL64 (a34 XOR d4) 27; a30 = b0 XOR (NOT b1 AND b2);
          a31 = b1 XOR (NOT b2 AND b3); a32 = b2 XOR (NOT b3 AND b4); a33 = b3 XOR (NOT b4 AND b0);
          a34 = b4 XOR (NOT b0 AND b1);
          b3 = ROL64 (a40 XOR d0) 41; b4 = ROL64 (a41 XOR d1) 2; b0 = ROL64 (a42 XOR d2) 62;
          b1 = ROL64 (a43 XOR d3) 55; b2 = ROL64 (a44 XOR d4) 39; a40 = b0 XOR (NOT b1 AND b2);
          a41 = b1 XOR (NOT b2 AND b3); a42 = b2 XOR (NOT b3 AND b4); a43 = b3 XOR (NOT b4 AND b0);
          a44 = b4 XOR (NOT b0 AND b1)
      in [a00, a01, a02, a03, a04,
          a10, a11, a12, a13, a14,
          a20, a21, a22, a23, a24,
          a30, a31, a32, a33, a34,
          a40, a41, a42, a43, a44])"

fun keccak_loop :: "u64 list \<Rightarrow> u64 list \<Rightarrow> u64 list" where
  "keccak_loop (r0 # r1 # r2 # r3 # rc) s =
     keccak_loop rc (keccak_round4 r3 (keccak_round3 r2 (keccak_round2 r1 (keccak_round1 r0 s))))"
| "keccak_loop _ s = s"

section \<open>The context\<close>

text \<open>The union \<^verbatim>\<open>u\<close> is its bytes; a lane is eight of them, the low byte first.\<close>

record SHA3Context =
  u_x :: "byte list"
  nRate :: nat
  nLoaded :: nat
  ixMask :: nat

fun le_word :: "byte list \<Rightarrow> u64" where
  "le_word [] = 0"
| "le_word (b # bs) = ucast b OR push_bit 8 (le_word bs)"

definition le_bytes :: "u64 \<Rightarrow> byte list" where
  "le_bytes w = List.map (\<lambda>i. ucast (drop_bit (8 * i) w)) [0..<8]"

definition u_s :: "byte list \<Rightarrow> u64 list" where
  "u_s x = List.map (\<lambda>i. le_word (take 8 (drop (8 * i) x))) [0..<25]"

definition KeccakF1600Step :: "SHA3Context \<Rightarrow> SHA3Context" where
  "KeccakF1600Step p = p\<lparr>u_x := concat (List.map le_bytes (keccak_loop keccak_RC (u_s (u_x p)))) @ drop 200 (u_x p)\<rparr>"

definition SHA3Init :: "int \<Rightarrow> SHA3Context" where
  "SHA3Init iSize =
     \<lparr>u_x = replicate 1600 0,
      nRate = (if 128 \<le> iSize \<and> iSize \<le> 512 then nat ((1600 - ((iSize + 31) AND NOT 31) * 2) div 8) else (1600 - 2 * 256) div 8),
      nLoaded = 0, ixMask = 0\<rparr>"

text \<open>Eight bytes at a time when both the place in the state and the data are aligned.\<close>

function update_words :: "byte list \<Rightarrow> SHA3Context \<Rightarrow> byte list \<times> SHA3Context" where
  "update_words aData p =
     (if 8 \<le> length aData then
        let k = nLoaded p div 8;
            s = le_word (take 8 (drop (8 * k) (u_x p))) XOR le_word (take 8 aData);
            p = p\<lparr>u_x := overwrite (u_x p) (8 * k) (le_bytes s), nLoaded := nLoaded p + 8\<rparr>
        in update_words (drop 8 aData) (if nLoaded p \<ge> nRate p then (KeccakF1600Step p)\<lparr>nLoaded := 0\<rparr> else p)
      else (aData, p))"
  by pat_completeness auto

termination update_words
  by (relation "measure (\<lambda>(aData, p). length aData)") auto

declare update_words.simps [simp del]

definition update_byte :: "byte \<Rightarrow> SHA3Context \<Rightarrow> SHA3Context" where
  "update_byte b p =
     (let p = p\<lparr>u_x := (u_x p)[nLoaded p := u_x p ! nLoaded p XOR b], nLoaded := nLoaded p + 1\<rparr>
      in if nLoaded p = nRate p then (KeccakF1600Step p)\<lparr>nLoaded := 0\<rparr> else p)"

fun update_bytes :: "byte list \<Rightarrow> SHA3Context \<Rightarrow> SHA3Context" where
  "update_bytes [] p = p"
| "update_bytes (b # aData) p = update_bytes aData (update_byte b p)"

definition SHA3Update :: "bool \<Rightarrow> byte list \<Rightarrow> SHA3Context \<Rightarrow> SHA3Context" where
  "SHA3Update aligned aData p =
     (let (aData, p) = (if nLoaded p mod 8 = 0 \<and> aligned then update_words aData p else (aData, p))
      in update_bytes aData p)"

fun final_loop :: "nat \<Rightarrow> nat \<Rightarrow> SHA3Context \<Rightarrow> SHA3Context" where
  "final_loop i 0 p = p"
| "final_loop i (Suc n) p = final_loop (Suc i) n (p\<lparr>u_x := (u_x p)[i + nRate p := u_x p ! (i XOR ixMask p)]\<rparr>)"

text \<open>The result is the pointer to the bytes behind the rate. A single byte is on the stack, aligned or not.\<close>

definition SHA3Final :: "(nat \<Rightarrow> bool) \<Rightarrow> SHA3Context \<Rightarrow> byte list" where
  "SHA3Final aligned p =
     (let p = (if nLoaded p = nRate p - 1 then SHA3Update (aligned 0) [0x86] p
               else SHA3Update (aligned 2) [0x80] ((SHA3Update (aligned 1) [0x06] p)\<lparr>nLoaded := nRate p - 1\<rparr>));
          p = final_loop 0 (nRate p) p
      in drop (nRate p) (u_x p))"

section \<open>The reference\<close>

text \<open>FIPS 202: a state is 25 lanes, the lane \<open>(x, y)\<close> at the place \<open>5 y + x\<close>; a round is five steps on them.\<close>

definition lane :: "u64 list \<Rightarrow> nat \<Rightarrow> nat \<Rightarrow> u64" where
  "lane A x y = A ! (5 * (y mod 5) + x mod 5)"

definition lanes :: "(nat \<Rightarrow> nat \<Rightarrow> u64) \<Rightarrow> u64 list" where
  "lanes f = List.map (\<lambda>i. f (i mod 5) (i div 5)) [0..<25]"

definition column_parity :: "u64 list \<Rightarrow> nat \<Rightarrow> u64" where
  "column_parity A x = lane A x 0 XOR lane A x 1 XOR lane A x 2 XOR lane A x 3 XOR lane A x 4"

definition theta :: "u64 list \<Rightarrow> u64 list" where
  "theta A = lanes (\<lambda>x y. lane A x y XOR column_parity A (x + 4) XOR word_rotl 1 (column_parity A (x + 1)))"

fun rho_walk :: "nat \<Rightarrow> nat \<times> nat" where
  "rho_walk 0 = (1, 0)"
| "rho_walk (Suc t) = (let (x, y) = rho_walk t in (y, (2 * x + 3 * y) mod 5))"

definition rho_offset :: "nat \<Rightarrow> nat \<Rightarrow> nat" where
  "rho_offset x y = (case find (\<lambda>t. rho_walk t = (x, y)) [0..<24] of None \<Rightarrow> 0 | Some t \<Rightarrow> ((t + 1) * (t + 2) div 2) mod 64)"

definition rho :: "u64 list \<Rightarrow> u64 list" where
  "rho A = lanes (\<lambda>x y. word_rotl (rho_offset x y) (lane A x y))"

definition pi_step :: "u64 list \<Rightarrow> u64 list" where
  "pi_step A = lanes (\<lambda>x y. lane A (x + 3 * y) x)"

definition chi :: "u64 list \<Rightarrow> u64 list" where
  "chi A = lanes (\<lambda>x y. lane A x y XOR (NOT (lane A (x + 1) y) AND lane A (x + 2) y))"

definition iota_step :: "u64 \<Rightarrow> u64 list \<Rightarrow> u64 list" where
  "iota_step rc A = A[0 := A ! 0 XOR rc]"

definition keccak_round :: "u64 \<Rightarrow> u64 list \<Rightarrow> u64 list" where
  "keccak_round rc A = iota_step rc (chi (pi_step (rho (theta A))))"

text \<open>The round constants come from a shift register with feedback.\<close>

definition lfsr :: "byte \<Rightarrow> byte" where
  "lfsr r = (if bit r 7 then push_bit 1 r XOR 0x71 else push_bit 1 r)"

definition round_constant :: "nat \<Rightarrow> u64" where
  "round_constant i = foldr (\<lambda>j w. if bit ((lfsr ^^ (j + 7 * i)) 1) 0 then w OR push_bit (2 ^ j - 1) 1 else w) [0..<7] 0"

definition keccak_f :: "u64 list \<Rightarrow> u64 list" where
  "keccak_f A = fold (\<lambda>i. keccak_round (round_constant i)) [0..<24] A"

definition keccak_bytes :: "byte list \<Rightarrow> byte list" where
  "keccak_bytes st = concat (List.map le_bytes (keccak_f (u_s st)))"

text \<open>The sponge: blocks of \<open>r\<close> bytes are added to a state of 200 bytes.\<close>

definition xor_bytes :: "byte list \<Rightarrow> byte list \<Rightarrow> byte list" where
  "xor_bytes st bs = List.map (\<lambda>i. st ! i XOR (if i < length bs then bs ! i else 0)) [0..<length st]"

function absorb :: "nat \<Rightarrow> byte list \<Rightarrow> byte list \<Rightarrow> byte list" where
  "absorb r st msg = (if r = 0 \<or> length msg < r then st else absorb r (keccak_bytes (xor_bytes st (take r msg))) (drop r msg))"
  by pat_completeness auto

termination absorb
  by (relation "measure (\<lambda>(r, st, msg). length msg)") auto

declare absorb.simps [simp del]

definition sha3_pad :: "nat \<Rightarrow> nat \<Rightarrow> byte list" where
  "sha3_pad r n = (if n mod r = r - 1 then [0x86] else 0x06 # replicate (r - 2 - n mod r) 0 @ [0x80])"

definition sha3_reference :: "nat \<Rightarrow> byte list \<Rightarrow> byte list" where
  "sha3_reference d msg =
     (let r = 200 - 2 * (d div 8) in take (d div 8) (absorb r (replicate 200 0) (msg @ sha3_pad r (length msg))))"

section \<open>The constants\<close>

fun lfsr_list :: "nat \<Rightarrow> byte \<Rightarrow> bool list" where
  "lfsr_list 0 r = []"
| "lfsr_list (Suc n) r = bit r 0 # lfsr_list n (lfsr r)"

lemma lfsr_list_nth: "t < n \<Longrightarrow> lfsr_list n r ! t = bit ((lfsr ^^ t) r) 0"
proof (induction n arbitrary: r t)
  case (Suc n)
  then show ?case by (cases t) (simp_all add: funpow_swap1)
qed simp

definition constant_bits :: "bool list \<Rightarrow> nat \<Rightarrow> u64" where
  "constant_bits bs i = foldr (\<lambda>j w. if bs ! (j + 7 * i) then w OR push_bit (2 ^ j - 1) 1 else w) [0..<7] 0"

lemma round_constant_bits: "i < 24 \<Longrightarrow> round_constant i = constant_bits (lfsr_list 168 1) i"
proof -
  assume "i < 24"
  then have "\<forall>j\<in>set [0..<7]. lfsr_list 168 1 ! (j + 7 * i) = bit ((lfsr ^^ (j + 7 * i)) 1) 0"
    by (auto intro!: lfsr_list_nth)
  then show ?thesis unfolding round_constant_def constant_bits_def by (intro foldr_cong) auto
qed

lemma lfsr_bits: "lfsr_list 168 1 =
    [True, False, False, False, False, False, False,
     False, True, False, True, True, False, False,
     False, True, True, True, True, False, True,
     False, False, False, False, True, True, True,
     True, True, True, True, True, False, False,
     True, False, False, False, False, True, False,
     True, False, False, True, True, True, True,
     True, False, True, False, True, False, True,
     False, True, True, True, False, False, False,
     False, False, True, True, False, False, False,
     True, False, True, False, True, True, False,
     False, True, True, False, False, True, False,
     True, True, True, True, True, True, False,
     True, True, True, True, False, False, True,
     True, False, True, True, True, False, True,
     True, True, False, False, True, False, True,
     False, True, False, False, True, False, True,
     False, False, False, True, False, False, True,
     False, True, True, False, True, False, False,
     False, True, True, False, False, True, True,
     True, False, False, True, True, True, True,
     False, False, False, True, True, False, True,
     True, False, False, False, False, True, False,
     False, False, True, False, True, True, True]"
  by code_simp

lemma constants: "keccak_RC = List.map round_constant [0..<24]"
proof -
  have "List.map round_constant [0..<24] = List.map (constant_bits (lfsr_list 168 1)) [0..<24]"
    by (rule map_cong) (simp_all add: round_constant_bits)
  also have "\<dots> = keccak_RC" unfolding lfsr_bits by code_simp
  finally show ?thesis by (rule sym)
qed

lemma ROL64_rotl: "x < 64 \<Longrightarrow> ROL64 a x = word_rotl x a"
proof (rule bit_word_eqI)
  fix n assume x: "x < 64" and "n < LENGTH(64)"
  then have n: "n < 64" by simp
  show "bit (ROL64 a x) n \<longleftrightarrow> bit (word_rotl x a) n"
  proof (cases "x \<le> n")
    case True
    then have "(n + 64 - x) mod 64 = n - x" using x n by (simp add: mod_if)
    moreover have "\<not> bit a (64 - x + n)" using True x bit_imp_le_length [of a "64 - x + n"] by auto
    ultimately show ?thesis using True x n by (simp add: ROL64_def bit_or_iff bit_push_bit_iff bit_drop_bit_eq bit_word_rotl_iff)
  next
    case False
    then have "n + 64 - x < 64" "n + 64 - x = 64 - x + n" using x by simp_all
    then have "(n + 64 - x) mod 64 = 64 - x + n" by simp
    then show ?thesis using False x n by (simp add: ROL64_def bit_or_iff bit_push_bit_iff bit_drop_bit_eq bit_word_rotl_iff)
  qed
qed

lemma rotl_zero: "word_rotl 0 (a :: u64) = a"
  by (rule bit_word_eqI) (simp add: bit_word_rotl_iff)

section \<open>A round is a round\<close>

lemma upt_25: "[0..<25] = [0, 1, 2, 3, 4, 5, 6, 7, 8, 9, 10, 11, 12, 13, 14, 15, 16, 17, 18, 19, 20, 21, 22, 23, 24]"
  by (simp add: upt_rec)

lemma lanes_list: "lanes f =
    [f 0 0, f 1 0, f 2 0, f 3 0, f 4 0, f 0 1, f 1 1, f 2 1, f 3 1, f 4 1, f 0 2, f 1 2, f 2 2, f 3 2, f 4 2,
     f 0 3, f 1 3, f 2 3, f 3 3, f 4 3, f 0 4, f 1 4, f 2 4, f 3 4, f 4 4]"
  unfolding lanes_def upt_25 by simp

lemma rho_offsets:
  "rho_offset 0 0 = 0" "rho_offset 1 0 = 1" "rho_offset 2 0 = 62" "rho_offset 3 0 = 28" "rho_offset 4 0 = 27" "rho_offset 0 1 = 36" "rho_offset 1 1 = 44" "rho_offset 2 1 = 6" "rho_offset 3 1 = 55" "rho_offset 4 1 = 20" "rho_offset 0 2 = 3" "rho_offset 1 2 = 10" "rho_offset 2 2 = 43" "rho_offset 3 2 = 25" "rho_offset 4 2 = 39" "rho_offset 0 3 = 41" "rho_offset 1 3 = 45" "rho_offset 2 3 = 15" "rho_offset 3 3 = 21" "rho_offset 4 3 = 8" "rho_offset 0 4 = 18" "rho_offset 1 4 = 2" "rho_offset 2 4 = 61" "rho_offset 3 4 = 56" "rho_offset 4 4 = 14"
  by code_simp+

lemma theta_list:
  fixes x0 x1 x2 x3 x4 x5 x6 x7 x8 x9 x10 x11 x12 x13 x14 x15 x16 x17 x18 x19 x20 x21 x22 x23 x24 :: u64
  defines "A \<equiv> [x0, x1, x2, x3, x4, x5, x6, x7, x8, x9, x10, x11, x12, x13, x14, x15, x16, x17, x18, x19, x20, x21, x22, x23, x24]"
  shows "theta A = [x0 XOR column_parity A 4 XOR ROL64 (column_parity A 1) 1, x1 XOR column_parity A 0 XOR ROL64 (column_parity A 2) 1, x2 XOR column_parity A 1 XOR ROL64 (column_parity A 3) 1, x3 XOR column_parity A 2 XOR ROL64 (column_parity A 4) 1, x4 XOR column_parity A 3 XOR ROL64 (column_parity A 0) 1, x5 XOR column_parity A 4 XOR ROL64 (column_parity A 1) 1, x6 XOR column_parity A 0 XOR ROL64 (column_parity A 2) 1, x7 XOR column_parity A 1 XOR ROL64 (column_parity A 3) 1, x8 XOR column_parity A 2 XOR ROL64 (column_parity A 4) 1, x9 XOR column_parity A 3 XOR ROL64 (column_parity A 0) 1, x10 XOR column_parity A 4 XOR ROL64 (column_parity A 1) 1, x11 XOR column_parity A 0 XOR ROL64 (column_parity A 2) 1, x12 XOR column_parity A 1 XOR ROL64 (column_parity A 3) 1, x13 XOR column_parity A 2 XOR ROL64 (column_parity A 4) 1, x14 XOR column_parity A 3 XOR ROL64 (column_parity A 0) 1, x15 XOR column_parity A 4 XOR ROL64 (column_parity A 1) 1, x16 XOR column_parity A 0 XOR ROL64 (column_parity A 2) 1, x17 XOR column_parity A 1 XOR ROL64 (column_parity A 3) 1, x18 XOR column_parity A 2 XOR ROL64 (column_parity A 4) 1, x19 XOR column_parity A 3 XOR ROL64 (column_parity A 0) 1, x20 XOR column_parity A 4 XOR ROL64 (column_parity A 1) 1, x21 XOR column_parity A 0 XOR ROL64 (column_parity A 2) 1, x22 XOR column_parity A 1 XOR ROL64 (column_parity A 3) 1, x23 XOR column_parity A 2 XOR ROL64 (column_parity A 4) 1, x24 XOR column_parity A 3 XOR ROL64 (column_parity A 0) 1]"
    and "column_parity A 0 = (x0 XOR x5 XOR x10 XOR x15 XOR x20)"
    and "column_parity A 1 = (x1 XOR x6 XOR x11 XOR x16 XOR x21)"
    and "column_parity A 2 = (x2 XOR x7 XOR x12 XOR x17 XOR x22)"
    and "column_parity A 3 = (x3 XOR x8 XOR x13 XOR x18 XOR x23)"
    and "column_parity A 4 = (x4 XOR x9 XOR x14 XOR x19 XOR x24)"
proof -
  have m: "column_parity A 5 = column_parity A 0" "column_parity A 6 = column_parity A 1" "column_parity A 7 = column_parity A 2"
    "column_parity A 8 = column_parity A 3" by (simp_all add: column_parity_def lane_def)
  show "theta A = [x0 XOR column_parity A 4 XOR ROL64 (column_parity A 1) 1, x1 XOR column_parity A 0 XOR ROL64 (column_parity A 2) 1, x2 XOR column_parity A 1 XOR ROL64 (column_parity A 3) 1, x3 XOR column_parity A 2 XOR ROL64 (column_parity A 4) 1, x4 XOR column_parity A 3 XOR ROL64 (column_parity A 0) 1, x5 XOR column_parity A 4 XOR ROL64 (column_parity A 1) 1, x6 XOR column_parity A 0 XOR ROL64 (column_parity A 2) 1, x7 XOR column_parity A 1 XOR ROL64 (column_parity A 3) 1, x8 XOR column_parity A 2 XOR ROL64 (column_parity A 4) 1, x9 XOR column_parity A 3 XOR ROL64 (column_parity A 0) 1, x10 XOR column_parity A 4 XOR ROL64 (column_parity A 1) 1, x11 XOR column_parity A 0 XOR ROL64 (column_parity A 2) 1, x12 XOR column_parity A 1 XOR ROL64 (column_parity A 3) 1, x13 XOR column_parity A 2 XOR ROL64 (column_parity A 4) 1, x14 XOR column_parity A 3 XOR ROL64 (column_parity A 0) 1, x15 XOR column_parity A 4 XOR ROL64 (column_parity A 1) 1, x16 XOR column_parity A 0 XOR ROL64 (column_parity A 2) 1, x17 XOR column_parity A 1 XOR ROL64 (column_parity A 3) 1, x18 XOR column_parity A 2 XOR ROL64 (column_parity A 4) 1, x19 XOR column_parity A 3 XOR ROL64 (column_parity A 0) 1, x20 XOR column_parity A 4 XOR ROL64 (column_parity A 1) 1, x21 XOR column_parity A 0 XOR ROL64 (column_parity A 2) 1, x22 XOR column_parity A 1 XOR ROL64 (column_parity A 3) 1, x23 XOR column_parity A 2 XOR ROL64 (column_parity A 4) 1, x24 XOR column_parity A 3 XOR ROL64 (column_parity A 0) 1]"
    unfolding theta_def lanes_list by (simp add: m ROL64_rotl) (simp add: lane_def A_def numeral_2_eq_2)
  show "column_parity A 0 = (x0 XOR x5 XOR x10 XOR x15 XOR x20)" by (simp add: column_parity_def lane_def A_def)
  show "column_parity A 1 = (x1 XOR x6 XOR x11 XOR x16 XOR x21)" by (simp add: column_parity_def lane_def A_def)
  show "column_parity A 2 = (x2 XOR x7 XOR x12 XOR x17 XOR x22)" by (simp add: column_parity_def lane_def A_def)
  show "column_parity A 3 = (x3 XOR x8 XOR x13 XOR x18 XOR x23)" by (simp add: column_parity_def lane_def A_def)
  show "column_parity A 4 = (x4 XOR x9 XOR x14 XOR x19 XOR x24)" by (simp add: column_parity_def lane_def A_def)
qed

lemma rho_list: "rho [x0, x1, x2, x3, x4, x5, x6, x7, x8, x9, x10, x11, x12, x13, x14, x15, x16, x17, x18, x19, x20, x21, x22, x23, x24] =
   [x0, ROL64 x1 1, ROL64 x2 62, ROL64 x3 28, ROL64 x4 27, ROL64 x5 36, ROL64 x6 44, ROL64 x7 6, ROL64 x8 55, ROL64 x9 20, ROL64 x10 3, ROL64 x11 10, ROL64 x12 43, ROL64 x13 25, ROL64 x14 39, ROL64 x15 41, ROL64 x16 45, ROL64 x17 15, ROL64 x18 21, ROL64 x19 8, ROL64 x20 18, ROL64 x21 2, ROL64 x22 61, ROL64 x23 56, ROL64 x24 14]"
  unfolding rho_def lanes_list by (simp add: rho_offsets [simplified] ROL64_rotl rotl_zero) (simp add: lane_def)

lemma pi_list: "pi_step [x0, x1, x2, x3, x4, x5, x6, x7, x8, x9, x10, x11, x12, x13, x14, x15, x16, x17, x18, x19, x20, x21, x22, x23, x24] =
   [x0, x6, x12, x18, x24, x3, x9, x10, x16, x22, x1, x7, x13, x19, x20, x4, x5, x11, x17, x23, x2, x8, x14, x15, x21]"
  unfolding pi_step_def lanes_list by (simp add: lane_def)

lemma chi_list: "chi [x0, x1, x2, x3, x4, x5, x6, x7, x8, x9, x10, x11, x12, x13, x14, x15, x16, x17, x18, x19, x20, x21, x22, x23, x24] =
   [x0 XOR (NOT x1 AND x2), x1 XOR (NOT x2 AND x3), x2 XOR (NOT x3 AND x4), x3 XOR (NOT x4 AND x0), x4 XOR (NOT x0 AND x1), x5 XOR (NOT x6 AND x7), x6 XOR (NOT x7 AND x8), x7 XOR (NOT x8 AND x9), x8 XOR (NOT x9 AND x5), x9 XOR (NOT x5 AND x6), x10 XOR (NOT x11 AND x12), x11 XOR (NOT x12 AND x13), x12 XOR (NOT x13 AND x14), x13 XOR (NOT x14 AND x10), x14 XOR (NOT x10 AND x11), x15 XOR (NOT x16 AND x17), x16 XOR (NOT x17 AND x18), x17 XOR (NOT x18 AND x19), x18 XOR (NOT x19 AND x15), x19 XOR (NOT x15 AND x16), x20 XOR (NOT x21 AND x22), x21 XOR (NOT x22 AND x23), x22 XOR (NOT x23 AND x24), x23 XOR (NOT x24 AND x20), x24 XOR (NOT x20 AND x21)]"
  unfolding chi_def lanes_list by (simp add: lane_def)

lemma iota_list: "iota_step rc (x # xs) = (x XOR rc) # xs"
  by (simp add: iota_step_def)

text \<open>Where the lanes are after one, two and three rounds; after the fourth they are in their places.\<close>

definition layout :: "nat \<Rightarrow> nat list" where
  "layout j = [[0..<25],
     [0, 6, 12, 18, 24, 10, 16, 22, 3, 9, 20, 1, 7, 13, 19, 5, 11, 17, 23, 4, 15, 21, 2, 8, 14],
     [0, 16, 7, 23, 14, 20, 11, 2, 18, 9, 15, 6, 22, 13, 4, 10, 1, 17, 8, 24, 5, 21, 12, 3, 19],
     [0, 11, 22, 8, 19, 15, 1, 12, 23, 9, 5, 16, 2, 13, 24, 20, 6, 17, 3, 14, 10, 21, 7, 18, 4],
     [0..<25]] ! j"

lemma list_25: "length s = 25 \<Longrightarrow> s = [s ! 0, s ! 1, s ! 2, s ! 3, s ! 4, s ! 5, s ! 6, s ! 7, s ! 8, s ! 9, s ! 10, s ! 11, s ! 12, s ! 13, s ! 14, s ! 15, s ! 16, s ! 17, s ! 18, s ! 19, s ! 20, s ! 21, s ! 22, s ! 23, s ! 24]"
  by (rule nth_equalityI) (auto simp: less_Suc_eq eval_nat_numeral)

lemma nth_25:
  "[x0, x1, x2, x3, x4, x5, x6, x7, x8, x9, x10, x11, x12, x13, x14, x15, x16, x17, x18, x19, x20, x21, x22, x23, x24] ! 0 = x0"
  "[x0, x1, x2, x3, x4, x5, x6, x7, x8, x9, x10, x11, x12, x13, x14, x15, x16, x17, x18, x19, x20, x21, x22, x23, x24] ! 1 = x1"
  "[x0, x1, x2, x3, x4, x5, x6, x7, x8, x9, x10, x11, x12, x13, x14, x15, x16, x17, x18, x19, x20, x21, x22, x23, x24] ! 2 = x2"
  "[x0, x1, x2, x3, x4, x5, x6, x7, x8, x9, x10, x11, x12, x13, x14, x15, x16, x17, x18, x19, x20, x21, x22, x23, x24] ! 3 = x3"
  "[x0, x1, x2, x3, x4, x5, x6, x7, x8, x9, x10, x11, x12, x13, x14, x15, x16, x17, x18, x19, x20, x21, x22, x23, x24] ! 4 = x4"
  "[x0, x1, x2, x3, x4, x5, x6, x7, x8, x9, x10, x11, x12, x13, x14, x15, x16, x17, x18, x19, x20, x21, x22, x23, x24] ! 5 = x5"
  "[x0, x1, x2, x3, x4, x5, x6, x7, x8, x9, x10, x11, x12, x13, x14, x15, x16, x17, x18, x19, x20, x21, x22, x23, x24] ! 6 = x6"
  "[x0, x1, x2, x3, x4, x5, x6, x7, x8, x9, x10, x11, x12, x13, x14, x15, x16, x17, x18, x19, x20, x21, x22, x23, x24] ! 7 = x7"
  "[x0, x1, x2, x3, x4, x5, x6, x7, x8, x9, x10, x11, x12, x13, x14, x15, x16, x17, x18, x19, x20, x21, x22, x23, x24] ! 8 = x8"
  "[x0, x1, x2, x3, x4, x5, x6, x7, x8, x9, x10, x11, x12, x13, x14, x15, x16, x17, x18, x19, x20, x21, x22, x23, x24] ! 9 = x9"
  "[x0, x1, x2, x3, x4, x5, x6, x7, x8, x9, x10, x11, x12, x13, x14, x15, x16, x17, x18, x19, x20, x21, x22, x23, x24] ! 10 = x10"
  "[x0, x1, x2, x3, x4, x5, x6, x7, x8, x9, x10, x11, x12, x13, x14, x15, x16, x17, x18, x19, x20, x21, x22, x23, x24] ! 11 = x11"
  "[x0, x1, x2, x3, x4, x5, x6, x7, x8, x9, x10, x11, x12, x13, x14, x15, x16, x17, x18, x19, x20, x21, x22, x23, x24] ! 12 = x12"
  "[x0, x1, x2, x3, x4, x5, x6, x7, x8, x9, x10, x11, x12, x13, x14, x15, x16, x17, x18, x19, x20, x21, x22, x23, x24] ! 13 = x13"
  "[x0, x1, x2, x3, x4, x5, x6, x7, x8, x9, x10, x11, x12, x13, x14, x15, x16, x17, x18, x19, x20, x21, x22, x23, x24] ! 14 = x14"
  "[x0, x1, x2, x3, x4, x5, x6, x7, x8, x9, x10, x11, x12, x13, x14, x15, x16, x17, x18, x19, x20, x21, x22, x23, x24] ! 15 = x15"
  "[x0, x1, x2, x3, x4, x5, x6, x7, x8, x9, x10, x11, x12, x13, x14, x15, x16, x17, x18, x19, x20, x21, x22, x23, x24] ! 16 = x16"
  "[x0, x1, x2, x3, x4, x5, x6, x7, x8, x9, x10, x11, x12, x13, x14, x15, x16, x17, x18, x19, x20, x21, x22, x23, x24] ! 17 = x17"
  "[x0, x1, x2, x3, x4, x5, x6, x7, x8, x9, x10, x11, x12, x13, x14, x15, x16, x17, x18, x19, x20, x21, x22, x23, x24] ! 18 = x18"
  "[x0, x1, x2, x3, x4, x5, x6, x7, x8, x9, x10, x11, x12, x13, x14, x15, x16, x17, x18, x19, x20, x21, x22, x23, x24] ! 19 = x19"
  "[x0, x1, x2, x3, x4, x5, x6, x7, x8, x9, x10, x11, x12, x13, x14, x15, x16, x17, x18, x19, x20, x21, x22, x23, x24] ! 20 = x20"
  "[x0, x1, x2, x3, x4, x5, x6, x7, x8, x9, x10, x11, x12, x13, x14, x15, x16, x17, x18, x19, x20, x21, x22, x23, x24] ! 21 = x21"
  "[x0, x1, x2, x3, x4, x5, x6, x7, x8, x9, x10, x11, x12, x13, x14, x15, x16, x17, x18, x19, x20, x21, x22, x23, x24] ! 22 = x22"
  "[x0, x1, x2, x3, x4, x5, x6, x7, x8, x9, x10, x11, x12, x13, x14, x15, x16, x17, x18, x19, x20, x21, x22, x23, x24] ! 23 = x23"
  "[x0, x1, x2, x3, x4, x5, x6, x7, x8, x9, x10, x11, x12, x13, x14, x15, x16, x17, x18, x19, x20, x21, x22, x23, x24] ! 24 = x24"
  by simp_all

lemma layout_maps:
  "List.map f (layout 0) = [f 0, f 1, f 2, f 3, f 4, f 5, f 6, f 7, f 8, f 9, f 10, f 11, f 12, f 13, f 14, f 15, f 16, f 17, f 18, f 19, f 20, f 21, f 22, f 23, f 24]"
  "List.map f (layout 1) = [f 0, f 6, f 12, f 18, f 24, f 10, f 16, f 22, f 3, f 9, f 20, f 1, f 7, f 13, f 19, f 5, f 11, f 17, f 23, f 4, f 15, f 21, f 2, f 8, f 14]"
  "List.map f (layout 2) = [f 0, f 16, f 7, f 23, f 14, f 20, f 11, f 2, f 18, f 9, f 15, f 6, f 22, f 13, f 4, f 10, f 1, f 17, f 8, f 24, f 5, f 21, f 12, f 3, f 19]"
  "List.map f (layout 3) = [f 0, f 11, f 22, f 8, f 19, f 15, f 1, f 12, f 23, f 9, f 5, f 16, f 2, f 13, f 24, f 20, f 6, f 17, f 3, f 14, f 10, f 21, f 7, f 18, f 4]"
  "List.map f (layout 4) = [f 0, f 1, f 2, f 3, f 4, f 5, f 6, f 7, f 8, f 9, f 10, f 11, f 12, f 13, f 14, f 15, f 16, f 17, f 18, f 19, f 20, f 21, f 22, f 23, f 24]"
  by (simp_all add: layout_def upt_25)

lemma round1_list: "List.map ((!) (keccak_round1 rc s)) (layout 1) = keccak_round rc (List.map ((!) s) (layout 0))"
  unfolding keccak_round_def layout_maps theta_list(1) rho_list pi_list chi_list iota_list theta_list(2-6)
  by (simp only: keccak_round1_def Let_def nth_25 xor.assoc)

lemma round2_list: "List.map ((!) (keccak_round2 rc s)) (layout 2) = keccak_round rc (List.map ((!) s) (layout 1))"
  unfolding keccak_round_def layout_maps theta_list(1) rho_list pi_list chi_list iota_list theta_list(2-6)
  by (simp only: keccak_round2_def Let_def nth_25 xor.assoc)

lemma round3_list: "List.map ((!) (keccak_round3 rc s)) (layout 3) = keccak_round rc (List.map ((!) s) (layout 2))"
  unfolding keccak_round_def layout_maps theta_list(1) rho_list pi_list chi_list iota_list theta_list(2-6)
  by (simp only: keccak_round3_def Let_def nth_25 xor.assoc)

lemma round4_list: "List.map ((!) (keccak_round4 rc s)) (layout 4) = keccak_round rc (List.map ((!) s) (layout 3))"
  unfolding keccak_round_def layout_maps theta_list(1) rho_list pi_list chi_list iota_list theta_list(2-6)
  by (simp only: keccak_round4_def Let_def nth_25 xor.assoc)

end
