(* ===== verification/Ys_Sha3.thy ===== *)
theory Ys_Sha3
  imports Ys_Keccak
begin

text \<open>
  The functions of \<^verbatim>\<open>shathree.c\<close> are SHA-3: the permutation by its four unrolled rounds, the sponge by words and by bytes, the
  padding, and the stream of bytes that \<^verbatim>\<open>sha3_query\<close> hashes.
\<close>

section \<open>The permutation\<close>

lemma round_lengths: "length (keccak_round1 rc s) = 25" "length (keccak_round2 rc s) = 25" "length (keccak_round3 rc s) = 25" "length (keccak_round4 rc s) = 25"
  by (simp_all only: keccak_round1_def keccak_round2_def keccak_round3_def keccak_round4_def Let_def list.size)

lemma layout_ends: "List.map f (layout 0) = List.map f [0..<25]" "List.map f (layout 4) = List.map f [0..<25]"
  by (simp_all add: layout_def)

lemma four_rounds:
  assumes "length s = 25"
  shows "keccak_round4 r3 (keccak_round3 r2 (keccak_round2 r1 (keccak_round1 r0 s))) = keccak_round r3 (keccak_round r2 (keccak_round r1 (keccak_round r0 s)))"
proof -
  have nat: "1 = Suc 0" "Suc 1 = 2" "Suc 2 = 3" "Suc 3 = 4" by simp_all
  let ?s3 = "keccak_round3 r2 (keccak_round2 r1 (keccak_round1 r0 s))"
  have "keccak_round4 r3 ?s3 = List.map ((!) (keccak_round4 r3 ?s3)) [0..<length (keccak_round4 r3 ?s3)]" by (rule map_nth [symmetric])
  also have "\<dots> = List.map ((!) (keccak_round4 r3 ?s3)) (layout 4)" by (simp only: layout_ends round_lengths)
  also have "\<dots> = keccak_round r3 (keccak_round r2 (keccak_round r1 (keccak_round r0 (List.map ((!) s) (layout 0)))))"
    by (simp only: round4_list round3_list round2_list round1_list)
  also have "List.map ((!) s) (layout 0) = s" using map_nth [of s] assms by (simp only: layout_ends)
  finally show ?thesis .
qed

lemma keccak_round_length: "length (keccak_round rc s) = 25"
  by (simp add: keccak_round_def iota_step_def chi_def lanes_def)

lemma keccak_loop_fold: "length s = 25 \<Longrightarrow> length rcs mod 4 = 0 \<Longrightarrow> keccak_loop rcs s = fold keccak_round rcs s"
proof (induction rcs s rule: keccak_loop.induct)
  case (1 r0 r1 r2 r3 rc s)
  have "length rc mod 4 = 0" using "1.prems"(2) by simp
  then show ?case using 1 by (simp only: keccak_loop.simps four_rounds keccak_round_length fold_simps)
qed simp_all

lemma keccak_permutation: "length s = 25 \<Longrightarrow> keccak_loop keccak_RC s = keccak_f s"
proof -
  assume s: "length s = 25"
  have "keccak_loop keccak_RC s = fold keccak_round keccak_RC s" by (rule keccak_loop_fold [OF s]) (simp add: keccak_RC_def)
  also have "\<dots> = keccak_f s" unfolding constants keccak_f_def by (simp only: fold_map comp_def)
  finally show ?thesis .
qed

section \<open>Bytes and lanes\<close>

lemma bit_le_word: "bit (le_word bs) n \<longleftrightarrow> n < 64 \<and> n < 8 * length bs \<and> bit (bs ! (n div 8)) (n mod 8)"
proof (induction bs arbitrary: n)
  case (Cons b bs)
  show ?case
  proof (cases "n < 8")
    case True
    then show ?thesis by (simp add: bit_or_iff bit_push_bit_iff bit_ucast_iff)
  next
    case False
    then obtain m where n: "n = m + 8" by (metis add.commute le_Suc_ex not_less)
    have "\<not> bit b n" using False bit_imp_le_length [of b n] by auto
    moreover have "(m + 8) div 8 = Suc (m div 8)" "(m + 8) mod 8 = m mod 8" by simp_all
    ultimately show ?thesis using Cons [of m] by (auto simp: n bit_or_iff bit_push_bit_iff bit_ucast_iff)
  qed
qed simp

lemma le_bytes_length [simp]: "length (le_bytes w) = 8"
  by (simp add: le_bytes_def)

lemma le_bytes_word: "length bs = 8 \<Longrightarrow> le_bytes (le_word bs) = bs"
proof (rule nth_equalityI)
  fix i assume l: "length bs = 8" and "i < length (le_bytes (le_word bs))"
  then have i: "i < 8" by simp
  show "le_bytes (le_word bs) ! i = bs ! i"
  proof (rule bit_word_eqI)
    fix n assume "n < LENGTH(8)"
    then have n: "n < 8" by simp
    have "8 * i + n < 64" "(8 * i + n) div 8 = i" "(8 * i + n) mod 8 = n" using i n by simp_all
    then show "bit (le_bytes (le_word bs) ! i) n = bit (bs ! i) n"
      using i n l by (simp add: le_bytes_def bit_ucast_iff bit_drop_bit_eq bit_le_word)
  qed
qed simp

lemma le_word_xor: "length as = length bs \<Longrightarrow> le_word as XOR le_word bs = le_word (List.map2 (XOR) as bs)"
  by (rule bit_word_eqI) (auto simp: bit_xor_iff bit_le_word)

lemma xor_words: "length as = 8 \<Longrightarrow> length bs = 8 \<Longrightarrow> le_bytes (le_word as XOR le_word bs) = List.map2 (XOR) as bs"
  by (simp add: le_word_xor le_bytes_word)

lemma u_s_take: "200 \<le> length x \<Longrightarrow> u_s x = u_s (take 200 x)"
  by (simp add: u_s_def drop_take min_def)

lemma u_s_length [simp]: "length (u_s x) = 25"
  by (simp add: u_s_def)

lemma concat_le_length: "length (concat (List.map le_bytes ws)) = 8 * length ws"
  by (induction ws) simp_all

lemma keccak_f_length: "length (keccak_f s) = 25"
proof -
  have "keccak_f s = keccak_round (round_constant 23) (fold (\<lambda>i. keccak_round (round_constant i)) [0..<23] s)"
    unfolding keccak_f_def using upt_Suc_append [of 0 23] by simp
  then show ?thesis by (simp add: keccak_round_length)
qed

lemma keccak_bytes_length [simp]: "length (keccak_bytes st) = 200"
  by (simp add: keccak_bytes_def concat_le_length keccak_f_length)

lemma step_bytes: "200 \<le> length (u_x p) \<Longrightarrow> u_x (KeccakF1600Step p) = keccak_bytes (take 200 (u_x p)) @ drop 200 (u_x p)"
  using u_s_take [of "u_x p"] by (simp add: KeccakF1600Step_def keccak_bytes_def keccak_permutation)

section \<open>The sponge\<close>

lemma xor_bytes_length [simp]: "length (xor_bytes st bs) = length st"
  by (simp add: xor_bytes_def)

lemma xor_bytes_nth: "i < length st \<Longrightarrow> xor_bytes st bs ! i = st ! i XOR (if i < length bs then bs ! i else 0)"
  by (simp add: xor_bytes_def)

lemma xor_bytes_Nil [simp]: "xor_bytes st [] = st"
  by (rule nth_equalityI) (simp_all add: xor_bytes_nth)

lemma xor_bytes_more: "xor_bytes (xor_bytes st as) (replicate (length as) 0 @ bs) = xor_bytes st (as @ bs)"
  by (rule nth_equalityI) (auto simp: xor_bytes_nth nth_append)

lemma xor_bytes_zeros: "xor_bytes st (bs @ replicate n 0) = xor_bytes st bs"
  by (rule nth_equalityI) (auto simp: xor_bytes_nth nth_append)

lemma absorb_length: "length st = 200 \<Longrightarrow> length (absorb r st msg) = 200"
proof (induction r st msg rule: absorb.induct)
  case (1 r st msg)
  then show ?case by (subst absorb.simps) simp
qed

lemma absorb_append: "0 < r \<Longrightarrow> length as mod r = 0 \<Longrightarrow> absorb r st (as @ bs) = absorb r (absorb r st as) bs"
proof (induction r st as rule: absorb.induct)
  case (1 r st as)
  show ?case
  proof (cases "length as < r")
    case True
    then have "as = []" using "1.prems" by simp
    then show ?thesis using "1.prems"(1) by (simp add: absorb.simps [of r st "[]"])
  next
    case False
    moreover have "length (drop r as) mod r = 0" using False "1.prems" by (simp add: le_mod_geq)
    moreover have "absorb r st as = absorb r (keccak_bytes (xor_bytes st (take r as))) (drop r as)"
      using False "1.prems"(1) by (subst absorb.simps) simp
    moreover have "absorb r st (as @ bs) = absorb r (keccak_bytes (xor_bytes st (take r as))) (drop r as @ bs)"
      using False "1.prems"(1) by (subst absorb.simps) simp
    ultimately show ?thesis using "1.IH" "1.prems"(1) by simp
  qed
qed

lemma absorb_block: "0 < r \<Longrightarrow> length b = r \<Longrightarrow> absorb r st b = keccak_bytes (xor_bytes st b)"
  by (subst absorb.simps) (simp add: absorb.simps [of r _ "[]"])

definition whole_blocks :: "nat \<Rightarrow> byte list \<Rightarrow> nat" where
  "whole_blocks r msg = length msg div r * r"

definition absorbing :: "nat \<Rightarrow> SHA3Context \<Rightarrow> byte list \<Rightarrow> bool" where
  "absorbing r p msg \<longleftrightarrow> nRate p = r \<and> nLoaded p = length msg mod r \<and> ixMask p = 0 \<and> length (u_x p) = 1600 \<and>
     take 200 (u_x p) = xor_bytes (absorb r (replicate 200 0) (take (whole_blocks r msg) msg)) (drop (whole_blocks r msg) msg)"

definition loaded :: "SHA3Context \<Rightarrow> SHA3Context" where
  "loaded p = (if nLoaded p = nRate p then (KeccakF1600Step p)\<lparr>nLoaded := 0\<rparr> else p)"

lemma absorbing_add:
  assumes "absorbing r p msg" and "0 < r" and "bs \<noteq> []" and "nLoaded p + length bs \<le> r" and "length x = 1600"
    and "take 200 x = xor_bytes (take 200 (u_x p)) (replicate (nLoaded p) 0 @ bs)"
  shows "absorbing r (loaded (p\<lparr>u_x := x, nLoaded := nLoaded p + length bs\<rparr>)) (msg @ bs)"
proof -
  define w where "w = whole_blocks r msg"
  have w: "w \<le> length msg" "w mod r = 0" "length msg = w + length msg mod r" by (simp_all add: w_def whole_blocks_def)
  have p: "nRate p = r" "nLoaded p = length msg mod r" "ixMask p = 0"
    "take 200 (u_x p) = xor_bytes (absorb r (replicate 200 0) (take w msg)) (drop w msg)"
    using assms(1) by (simp_all add: absorbing_def w_def)
  have d: "length (drop w msg) = length msg mod r" using w by simp
  have x: "take 200 x = xor_bytes (absorb r (replicate 200 0) (take w msg)) (drop w msg @ bs)"
    using assms(6) xor_bytes_more [of _ "drop w msg" bs] d p(2,4) by simp
  have len: "length (msg @ bs) = w + (length msg mod r + length bs)" using w(3) by simp
  show ?thesis
  proof (cases "nLoaded p + length bs = r")
    case True
    then have "length (msg @ bs) = w + r" using len p(2) by simp
    then have m: "length (msg @ bs) mod r = 0" using w(2) by (simp only: mod_add_self2)
    then have m2: "whole_blocks r (msg @ bs) = length (msg @ bs)" unfolding whole_blocks_def by (metis add.right_neutral div_mult_mod_eq)
    have "absorb r (replicate 200 0) (msg @ bs) = absorb r (replicate 200 0) (take w msg @ (drop w msg @ bs))"
      by (simp only: append_assoc [symmetric] append_take_drop_id)
    also have "\<dots> = absorb r (absorb r (replicate 200 0) (take w msg)) (drop w msg @ bs)"
      using absorb_append [OF assms(2), of "take w msg"] w(1,2) by (simp only: length_take min_absorb2)
    also have "\<dots> = keccak_bytes (take 200 x)" using absorb_block [OF assms(2), of "drop w msg @ bs"] d True p(2) x by simp
    finally have "absorb r (replicate 200 0) (msg @ bs) = keccak_bytes (take 200 x)" .
    then show ?thesis using True p m m2 assms(5) by (simp add: absorbing_def loaded_def step_bytes) (simp add: KeccakF1600Step_def)
  next
    case False
    then have lt: "length msg mod r + length bs < r" using assms(4) p(2) by simp
    then have m: "length (msg @ bs) mod r = length msg mod r + length bs" using len w(2) by (metis mod_add_left_eq add_0 mod_less)
    moreover have "whole_blocks r (msg @ bs) = w" using len m by (metis add_right_imp_eq div_mult_mod_eq whole_blocks_def)
    ultimately show ?thesis using False p assms(5) x w(1) by (simp add: absorbing_def loaded_def)
  qed
qed

lemma absorbing_byte:
  assumes "absorbing r p msg" and "0 < r" and "r \<le> 200"
  shows "absorbing r (update_byte b p) (msg @ [b])"
proof -
  have p: "length (u_x p) = 1600" "nLoaded p < r" using assms by (simp_all add: absorbing_def)
  let ?x = "(u_x p)[nLoaded p := u_x p ! nLoaded p XOR b]"
  have "take 200 ?x = xor_bytes (take 200 (u_x p)) (replicate (nLoaded p) 0 @ [b])"
    using p assms(3) by (intro nth_equalityI) (auto simp: xor_bytes_nth nth_append nth_list_update)
  from absorbing_add [OF assms(1,2) _ _ _ this] p show ?thesis by (simp add: update_byte_def loaded_def Let_def)
qed

lemma absorbing_bytes: "absorbing r p msg \<Longrightarrow> 0 < r \<Longrightarrow> r \<le> 200 \<Longrightarrow> absorbing r (update_bytes bs p) (msg @ bs)"
proof (induction bs arbitrary: p msg)
  case (Cons b bs)
  then show ?case using Cons.IH [OF absorbing_byte [OF Cons.prems]] by simp
qed simp

lemma nth_overwrite:
  "n + length bs \<le> length x \<Longrightarrow> i < length x \<Longrightarrow> overwrite x n bs ! i = (if n \<le> i \<and> i < n + length bs then bs ! (i - n) else x ! i)"
  by (auto simp: overwrite_def nth_append)

lemma overwrite_xor:
  assumes "length x = 1600" and "n + 8 \<le> 200" and "length d = 8"
  shows "take 200 (overwrite x n (List.map2 (XOR) (take 8 (drop n x)) d)) = xor_bytes (take 200 x) (replicate n 0 @ d)"
proof (rule nth_equalityI)
  let ?b = "List.map2 (XOR) (take 8 (drop n x)) d"
  have b: "length ?b = 8" using assms by simp
  fix i assume "i < length (take 200 (overwrite x n ?b))"
  then have i: "i < 200" using assms b by simp
  have "overwrite x n ?b ! i = (if n \<le> i \<and> i < n + 8 then x ! i XOR d ! (i - n) else x ! i)"
  proof (cases "n \<le> i \<and> i < n + 8")
    case True
    then have "i - n < 8" "n + (i - n) = i" by auto
    moreover from this have "i - n < length (zip (take 8 (drop n x)) d)" using assms by simp
    ultimately have "?b ! (i - n) = x ! i XOR d ! (i - n)" using assms i by simp
    then show ?thesis using nth_overwrite [of n ?b x i] assms b i True by simp
  next
    case False
    then show ?thesis using nth_overwrite [of n ?b x i] assms b i by auto
  qed
  then show "take 200 (overwrite x n ?b) ! i = xor_bytes (take 200 x) (replicate n 0 @ d) ! i"
    using assms i by (auto simp: xor_bytes_nth nth_append)
qed (use assms in simp)

lemma absorbing_words:
  assumes "absorbing r p msg" and "0 < r" and "r \<le> 200" and "r mod 8 = 0" and "nLoaded p mod 8 = 0"
  shows "\<exists>done rest q. update_words bs p = (rest, q) \<and> bs = done @ rest \<and> absorbing r q (msg @ done)"
  using assms
proof (induction bs p arbitrary: msg rule: update_words.induct)
  case (1 aData p)
  show ?case
  proof (cases "8 \<le> length aData")
    case False
    then show ?thesis using "1.prems"(1) by (subst update_words.simps) (intro exI [of _ "[]"] exI [of _ aData] exI [of _ p], simp)
  next
    case True
    have p: "length (u_x p) = 1600" "nRate p = r" "nLoaded p < r" using "1.prems"(1,2) by (simp_all add: absorbing_def)
    define k where "k = nLoaded p div 8"
    have k: "8 * k = nLoaded p" using "1.prems"(5) div_mult_mod_eq [of "nLoaded p" 8] by (simp add: k_def)
    have le: "nLoaded p + 8 \<le> r" 
    proof -
      obtain a b where "r = 8 * a" "nLoaded p = 8 * b" using "1.prems"(4,5) by (metis dvd_def mod_0_imp_dvd)
      then show ?thesis using p(3) by simp
    qed
    let ?a = "take 8 (drop (8 * k) (u_x p))" and ?d = "take 8 aData"
    define x where "x = overwrite (u_x p) (8 * k) (le_bytes (le_word ?a XOR le_word ?d))"
    have bs: "le_bytes (le_word ?a XOR le_word ?d) = List.map2 (XOR) ?a ?d" using True k le "1.prems"(3) p(1) by (intro xor_words) simp_all
    have x: "length x = 1600" using k le "1.prems"(3) p(1) by (simp add: x_def)
    have "take 200 x = xor_bytes (take 200 (u_x p)) (replicate (nLoaded p) 0 @ ?d)"
      unfolding x_def bs using overwrite_xor [of "u_x p" "nLoaded p" ?d] p(1) le "1.prems"(3) True by (simp add: k)
    moreover have "length ?d = 8" "?d \<noteq> []" using True by auto
    ultimately have a: "absorbing r (loaded (p\<lparr>u_x := x, nLoaded := nLoaded p + 8\<rparr>)) (msg @ ?d)"
      using absorbing_add [OF "1.prems"(1,2), of ?d x] le x by simp
    define q where "q = loaded (p\<lparr>u_x := x, nLoaded := nLoaded p + 8\<rparr>)"
    have step: "update_words aData p = update_words (drop 8 aData) q"
      using True le p(2) by (subst update_words.simps) (simp add: Let_def q_def loaded_def x_def k_def)
    have "nLoaded q mod 8 = 0" using "1.prems"(5) by (simp add: q_def loaded_def)
    moreover have "absorbing r q (msg @ ?d)" using a by (simp add: q_def)
    moreover have "q = (if nRate (p\<lparr>u_x := x, nLoaded := nLoaded p + 8\<rparr>) \<le> nLoaded (p\<lparr>u_x := x, nLoaded := nLoaded p + 8\<rparr>)
        then (KeccakF1600Step (p\<lparr>u_x := x, nLoaded := nLoaded p + 8\<rparr>))\<lparr>nLoaded := 0\<rparr> else p\<lparr>u_x := x, nLoaded := nLoaded p + 8\<rparr>)"
      using le p(2) by (simp add: q_def loaded_def)
    ultimately have "\<exists>done rest q'. update_words (drop 8 aData) q = (rest, q') \<and> drop 8 aData = done @ rest \<and> absorbing r q' ((msg @ ?d) @ done)"
      using "1.IH" [OF True refl refl refl, of "msg @ ?d"] "1.prems"(2-4) unfolding x_def k_def by simp
    then obtain dn rest q' where "update_words (drop 8 aData) q = (rest, q')" "drop 8 aData = dn @ rest" "absorbing r q' ((msg @ ?d) @ dn)" by blast
    then show ?thesis unfolding step by (metis append.assoc append_take_drop_id)
  qed
qed

lemma absorbing_update:
  assumes "absorbing r p msg" and "0 < r" and "r \<le> 200" and "r mod 8 = 0"
  shows "absorbing r (SHA3Update aligned bs p) (msg @ bs)"
proof (cases "nLoaded p mod 8 = 0 \<and> aligned")
  case True
  then have n: "nLoaded p mod 8 = 0" by simp
  from absorbing_words [OF assms n, of bs] obtain dn rest q where
    u: "update_words bs p = (rest, q)" "bs = dn @ rest" "absorbing r q (msg @ dn)" by blast
  show ?thesis using absorbing_bytes [OF u(3) assms(2,3), of rest] u(1,2) True by (simp add: SHA3Update_def)
next
  case False
  show ?thesis unfolding SHA3Update_def if_not_P [OF False] using absorbing_bytes [OF assms(1-3)] by simp
qed

section \<open>The digest\<close>

definition sha3_sizes :: "int set" where
  "sha3_sizes = {224, 256, 384, 512}"

lemma absorbing_init: "iSize \<in> sha3_sizes \<Longrightarrow> absorbing (nRate (SHA3Init iSize)) (SHA3Init iSize) []"
  by (auto simp: sha3_sizes_def SHA3Init_def absorbing_def whole_blocks_def absorb.simps)

lemma final_loop_copies:
  "ixMask p = 0 \<Longrightarrow> i + n = nRate p \<Longrightarrow> 2 * nRate p \<le> length (u_x p) \<Longrightarrow>
   length (u_x (final_loop i n p)) = length (u_x p) \<and>
   (\<forall>j. j < nRate p + i \<longrightarrow> u_x (final_loop i n p) ! j = u_x p ! j) \<and>
   (\<forall>j. i \<le> j \<and> j < nRate p \<longrightarrow> u_x (final_loop i n p) ! (nRate p + j) = u_x p ! j)"
proof (induction n arbitrary: i p)
  case (Suc n)
  let ?p = "p\<lparr>u_x := (u_x p)[i + nRate p := u_x p ! i]\<rparr>"
  have "i < nRate p" using Suc.prems(2) by simp
  have IH: "length (u_x (final_loop (Suc i) n ?p)) = length (u_x ?p) \<and>
     (\<forall>j. j < nRate ?p + Suc i \<longrightarrow> u_x (final_loop (Suc i) n ?p) ! j = u_x ?p ! j) \<and>
     (\<forall>j. Suc i \<le> j \<and> j < nRate ?p \<longrightarrow> u_x (final_loop (Suc i) n ?p) ! (nRate ?p + j) = u_x ?p ! j)"
    using Suc.prems by (intro Suc.IH) simp_all
  have step: "final_loop i (Suc n) p = final_loop (Suc i) n ?p" using Suc.prems(1) by simp
  show ?case unfolding step
  proof (intro conjI allI impI)
    show "length (u_x (final_loop (Suc i) n ?p)) = length (u_x p)" using IH by simp
    fix j assume j: "j < nRate p + i"
    then show "u_x (final_loop (Suc i) n ?p) ! j = u_x p ! j" using IH by (simp add: nth_list_update)
  next
    fix j assume j: "i \<le> j \<and> j < nRate p"
    show "u_x (final_loop (Suc i) n ?p) ! (nRate p + j) = u_x p ! j"
    proof (cases "j = i")
      case True
      then show ?thesis using IH Suc.prems(2,3) j by (simp add: nth_list_update add.commute)
    next
      case False
      then show ?thesis using IH j \<open>i < nRate p\<close> by (simp add: nth_list_update)
    qed
  qed
qed auto

lemma pad_length: "0 < r \<Longrightarrow> r mod 8 = 0 \<Longrightarrow> (n + length (sha3_pad r n)) mod r = 0"
proof -
  assume r: "0 < r" "r mod 8 = 0"
  have n: "n = n div r * r + n mod r" "n mod r < r" using r(1) by simp_all
  have r2: "2 \<le> r" using r dvd_imp_le [of 8 r] by (simp add: mod_eq_0_iff_dvd)
  show ?thesis
  proof (cases "n mod r = r - 1")
    case True
    then have "n + length (sha3_pad r n) = n div r * r + r" using n r(1) by (simp add: sha3_pad_def)
    then show ?thesis by (simp only: mod_mult_self3 mod_self)
  next
    case False
    then have "n mod r \<le> r - 2" using n(2) by simp
    then have "Suc (Suc (r - 2 - n mod r)) = r - n mod r" using r2 by linarith
    then have "length (sha3_pad r n) = r - n mod r" using False by (simp add: sha3_pad_def)
    then have "n + length (sha3_pad r n) = n div r * r + r" using n by linarith
    then show ?thesis by (simp only: mod_mult_self3 mod_self)
  qed
qed

lemma final_digest:
  assumes "absorbing r p msg" and "0 < r" and "r \<le> 200" and "r mod 8 = 0"
  shows "take r (SHA3Final aligned p) = take r (absorb r (replicate 200 0) (msg @ sha3_pad r (length msg)))"
proof -
  define q where "q = (if nLoaded p = nRate p - 1 then SHA3Update (aligned 0) [0x86] p
               else SHA3Update (aligned 2) [0x80] ((SHA3Update (aligned 1) [0x06] p)\<lparr>nLoaded := nRate p - 1\<rparr>))"
  have p: "nRate p = r" "nLoaded p = length msg mod r" using assms(1) by (simp_all add: absorbing_def)
  have q: "absorbing r q (msg @ sha3_pad r (length msg))"
  proof (cases "length msg mod r = r - 1")
    case True
    then show ?thesis using absorbing_update [OF assms, of "aligned 0" "[0x86]"] p by (simp add: q_def sha3_pad_def)
  next
    case False
    define m where "m = length msg mod r"
    have m: "m < r - 1" using False mod_less_divisor [OF assms(2), of "length msg"] unfolding m_def by linarith
    let ?p1 = "SHA3Update (aligned 1) [0x06] p"
    have p1: "absorbing r ?p1 (msg @ [0x06])" by (rule absorbing_update [OF assms])
    define z where "z = replicate (r - 2 - m) (0 :: byte)"
    have l: "length (msg @ [0x06]) mod r = m + 1" using m by (simp add: m_def mod_Suc)
    have w: "whole_blocks r (msg @ [0x06]) = length msg - m"
    proof -
      have "whole_blocks r (msg @ [0x06]) = length (msg @ [0x06]) - (m + 1)" using l by (simp only: whole_blocks_def minus_mod_eq_div_mult [symmetric])
      then show ?thesis by simp
    qed
    have l2: "length (msg @ 0x06 # z) mod r = r - 1"
    proof -
      have "length (msg @ 0x06 # z) = (length msg - m) + (r - 1)" using m mod_less_eq_dividend [of "length msg" r] by (simp add: z_def m_def)
      moreover have "(length msg - m) mod r = 0" by (simp add: m_def minus_mod_eq_div_mult)
      ultimately show ?thesis using assms(2) by (metis add_0 diff_less mod_add_left_eq mod_less zero_less_one)
    qed
    have w2: "whole_blocks r (msg @ 0x06 # z) = length msg - m"
    proof -
      have "whole_blocks r (msg @ 0x06 # z) = length (msg @ 0x06 # z) - (r - 1)" using l2 by (simp only: whole_blocks_def minus_mod_eq_div_mult [symmetric])
      then show ?thesis using m mod_less_eq_dividend [of "length msg" r] by (simp add: z_def m_def)
    qed
    have le: "length msg - m \<le> length msg" by simp
    have "absorbing r (?p1\<lparr>nLoaded := r - 1\<rparr>) (msg @ 0x06 # z)"
      using p1 l2 w w2 le xor_bytes_zeros [of _ "drop (length msg - m) msg @ [0x06]" "r - 2 - m"]
      by (simp add: absorbing_def z_def)
    from absorbing_update [OF this assms(2-4), of "aligned 2" "[0x80]"]
    show ?thesis using False p by (simp add: q_def sha3_pad_def z_def m_def)
  qed
  have e: "length (msg @ sha3_pad r (length msg)) mod r = 0" using pad_length [OF assms(2,4), of "length msg"] by simp
  then have "whole_blocks r (msg @ sha3_pad r (length msg)) = length (msg @ sha3_pad r (length msg))"
    unfolding whole_blocks_def by (metis add.right_neutral div_mult_mod_eq)
  then have x: "take 200 (u_x q) = absorb r (replicate 200 0) (msg @ sha3_pad r (length msg))" using q by (simp add: absorbing_def)
  have qq: "nRate q = r" "ixMask q = 0" "length (u_x q) = 1600" using q by (simp_all add: absorbing_def)
  have f: "SHA3Final aligned p = drop r (u_x (final_loop 0 r q))" 
  proof -
    have "nRate (final_loop i n q) = nRate q" for i n q by (induction n arbitrary: i q) simp_all
    then show ?thesis using qq(1) unfolding SHA3Final_def Let_def q_def [symmetric] by simp
  qed
  from final_loop_copies [of q 0 r] qq assms(3)
  have c: "length (u_x (final_loop 0 r q)) = 1600" "\<forall>j<r. u_x (final_loop 0 r q) ! (r + j) = u_x q ! j" by simp_all
  have "take r (SHA3Final aligned p) = take r (u_x q)"
    unfolding f by (rule nth_equalityI) (use c qq(3) assms(3) in auto)
  also have "\<dots> = take r (take 200 (u_x q))" using assms(3) by (simp add: min_def)
  finally show ?thesis unfolding x .
qed

lemma rates: "iSize \<in> sha3_sizes \<Longrightarrow> nRate (SHA3Init iSize) = 200 - 2 * (nat iSize div 8) \<and> 128 \<le> iSize \<and> iSize \<le> 512"
  by (auto simp: sha3_sizes_def SHA3Init_def)

lemma update_digest:
  assumes "iSize \<in> sha3_sizes" and "absorbing (nRate (SHA3Init iSize)) p msg"
  shows "take (nat iSize div 8) (SHA3Final aligned p) = sha3_reference (nat iSize) msg"
proof -
  let ?r = "200 - 2 * (nat iSize div 8)"
  have r: "nRate (SHA3Init iSize) = ?r" using rates [OF assms(1)] by blast
  have "nat iSize \<in> {224, 256, 384, 512}" using assms(1) by (auto simp: sha3_sizes_def)
  then have b: "0 < ?r" "?r \<le> 200" "?r mod 8 = 0" "nat iSize div 8 \<le> ?r" by auto
  have "take (nat iSize div 8) (take ?r (SHA3Final aligned p)) = take (nat iSize div 8) (take ?r (absorb ?r (replicate 200 0) (msg @ sha3_pad ?r (length msg))))"
    using final_digest [of ?r p msg aligned] assms(2) b(1-3) unfolding r by simp
  then show ?thesis using b(4) by (simp add: sha3_reference_def Let_def min_def)
qed

section \<open>The SQL functions\<close>

text \<open>An argument is null, a blob, or what \<^verbatim>\<open>sqlite3_value_text\<close> gives for any other value.\<close>

datatype sha3_value = Sha_null | Sha_blob "byte list" | Sha_text "byte list"

datatype sha3_answer = Sha_error | Sha_nothing | Sha_result "byte list"

definition sha3Func :: "bool \<Rightarrow> (nat \<Rightarrow> bool) \<Rightarrow> sha3_value \<Rightarrow> int option \<Rightarrow> sha3_answer" where
  "sha3Func aligned final_aligned v size_arg =
     (let iSize = (case size_arg of None \<Rightarrow> 256 | Some n \<Rightarrow> n) in
      if size_arg \<noteq> None \<and> iSize \<noteq> 224 \<and> iSize \<noteq> 256 \<and> iSize \<noteq> 384 \<and> iSize \<noteq> 512 then Sha_error
      else case v of
          Sha_null \<Rightarrow> Sha_nothing
        | Sha_blob z \<Rightarrow> Sha_result (take (nat iSize div 8) (SHA3Final final_aligned (SHA3Update aligned z (SHA3Init iSize))))
        | Sha_text z \<Rightarrow> Sha_result (take (nat iSize div 8) (SHA3Final final_aligned (SHA3Update aligned z (SHA3Init iSize)))))"

text \<open>The text of a number, as \<^verbatim>\<open>%d\<close> gives it, and of a tag with a number and a colon, which fits the 50 bytes of the buffer.\<close>

fun decimal_digits :: "nat \<Rightarrow> byte list" where
  "decimal_digits n = (if n < 10 then [of_nat (48 + n)] else decimal_digits (n div 10) @ [of_nat (48 + n mod 10)])"

declare decimal_digits.simps [simp del]

definition tag_number :: "byte \<Rightarrow> nat \<Rightarrow> byte list" where
  "tag_number c n = c # decimal_digits n @ [0x3A]"

text \<open>Whether a piece of data is aligned may depend on anything; here on the context and the data.\<close>

type_synonym alignment = "SHA3Context \<Rightarrow> byte list \<Rightarrow> bool"

definition hash_step :: "alignment \<Rightarrow> byte list \<Rightarrow> SHA3Context \<Rightarrow> SHA3Context" where
  "hash_step al z p = SHA3Update (al p z) z p"

definition hash_step_vformat :: "alignment \<Rightarrow> byte \<Rightarrow> nat \<Rightarrow> SHA3Context \<Rightarrow> SHA3Context" where
  "hash_step_vformat al c n p = hash_step al (tag_number c n) p"

text \<open>A column of a row: an integer, the bits of a floating point number, text or a blob.\<close>

datatype column_value = Column_null | Column_integer u64 | Column_float u64 | Column_text "byte list" | Column_blob "byte list"

fun fill_loop :: "nat \<Rightarrow> u64 \<Rightarrow> byte list \<Rightarrow> byte list" where
  "fill_loop 0 u x = x"
| "fill_loop (Suc j) u x = fill_loop j (drop_bit 8 u) (x[Suc j := ucast (u AND 0xFF)])"

definition hash_column :: "alignment \<Rightarrow> byte list \<Rightarrow> column_value \<Rightarrow> SHA3Context \<Rightarrow> SHA3Context" where
  "hash_column al x c cx =
     (case c of
        Column_null \<Rightarrow> hash_step al [0x4E] cx
      | Column_integer v \<Rightarrow> hash_step al ((fill_loop 8 v x)[0 := 0x49]) cx
      | Column_float u \<Rightarrow> hash_step al ((fill_loop 8 u x)[0 := 0x46]) cx
      | Column_text z2 \<Rightarrow> hash_step al z2 (hash_step_vformat al 0x54 (length z2) cx)
      | Column_blob z2 \<Rightarrow> hash_step al z2 (hash_step_vformat al 0x42 (length z2) cx))"

text \<open>
  What the engine gives for the statements of the script, one behind the other: an error with its message, a statement that writes, or the
  text of a query with the rows that stepping it gives. An empty statement has no text and no rows.
\<close>

datatype prepared =
    Prepare_error
  | Writes
  | Query "byte list option" "column_value list list"

definition hash_row :: "alignment \<Rightarrow> byte list \<Rightarrow> column_value list \<Rightarrow> SHA3Context \<Rightarrow> SHA3Context" where
  "hash_row al x row cx = fold (hash_column al x) row (hash_step al [0x52] cx)"

fun query_loop :: "alignment \<Rightarrow> byte list \<Rightarrow> prepared list \<Rightarrow> SHA3Context \<Rightarrow> SHA3Context option" where
  "query_loop al x [] cx = Some cx"
| "query_loop al x (Prepare_error # ss) cx = None"
| "query_loop al x (Writes # ss) cx = None"
| "query_loop al x (Query z rows # ss) cx =
     (let cx = (case z of None \<Rightarrow> cx | Some z \<Rightarrow> hash_step al z (hash_step_vformat al 0x53 (length z) cx))
      in query_loop al x ss (fold (hash_row al x) rows cx))"

text \<open>\<open>x\<close> is what is in the local array before it is filled.\<close>

definition sha3QueryFunc :: "alignment \<Rightarrow> (nat \<Rightarrow> bool) \<Rightarrow> byte list \<Rightarrow> prepared list option \<Rightarrow> int option \<Rightarrow> sha3_answer" where
  "sha3QueryFunc al final_aligned x script size_arg =
     (let iSize = (case size_arg of None \<Rightarrow> 256 | Some n \<Rightarrow> n) in
      if size_arg \<noteq> None \<and> iSize \<noteq> 224 \<and> iSize \<noteq> 256 \<and> iSize \<noteq> 384 \<and> iSize \<noteq> 512 then Sha_error
      else case script of
          None \<Rightarrow> Sha_nothing
        | Some ss \<Rightarrow>
            (case query_loop al x ss (SHA3Init iSize) of
               None \<Rightarrow> Sha_error
             | Some cx \<Rightarrow> Sha_result (take (nat iSize div 8) (SHA3Final final_aligned cx))))"

section \<open>The stream that is hashed\<close>

text \<open>As the comment describes it, but integers and floating point numbers have their high byte first.\<close>

definition column_stream :: "column_value \<Rightarrow> byte list" where
  "column_stream c =
     (case c of
        Column_null \<Rightarrow> [0x4E]
      | Column_integer v \<Rightarrow> 0x49 # rev (le_bytes v)
      | Column_float u \<Rightarrow> 0x46 # rev (le_bytes u)
      | Column_text z \<Rightarrow> tag_number 0x54 (length z) @ z
      | Column_blob z \<Rightarrow> tag_number 0x42 (length z) @ z)"

definition row_stream :: "column_value list \<Rightarrow> byte list" where
  "row_stream row = 0x52 # concat (List.map column_stream row)"

definition query_stream :: "byte list \<times> column_value list list \<Rightarrow> byte list" where
  "query_stream q = tag_number 0x53 (length (fst q)) @ fst q @ concat (List.map row_stream (snd q))"

definition script_stream :: "(byte list \<times> column_value list list) list \<Rightarrow> byte list" where
  "script_stream qs = concat (List.map query_stream qs)"

lemma fill_bytes: "length x = 9 \<Longrightarrow> (fill_loop 8 v x)[0 := c] = c # rev (le_bytes v)"
proof -
  assume "length x = 9"
  then obtain x0 x1 x2 x3 x4 x5 x6 x7 x8 where x: "x = [x0, x1, x2, x3, x4, x5, x6, x7, x8]"
    by (auto simp: eval_nat_numeral length_Suc_conv)
  have b: "(ucast (w AND 0xFF) :: byte) = ucast w" for w :: u64
    by (rule bit_word_eqI) (auto simp: bit_ucast_iff bit_and_iff and_255_take_bit bit_take_bit_iff)
  show ?thesis by (simp add: x b le_bytes_def upt_rec eval_nat_numeral(2,3) drop_bit_drop_bit)
qed

lemma hash_step_absorbs:
  "absorbing r cx msg \<Longrightarrow> 0 < r \<Longrightarrow> r \<le> 200 \<Longrightarrow> r mod 8 = 0 \<Longrightarrow> absorbing r (hash_step al z cx) (msg @ z)"
  unfolding hash_step_def by (rule absorbing_update)

lemma hash_column_absorbs:
  assumes "absorbing r cx msg" and "0 < r" and "r \<le> 200" and "r mod 8 = 0" and "length x = 9"
  shows "absorbing r (hash_column al x c cx) (msg @ column_stream c)"
proof -
  note s = hash_step_absorbs [OF _ assms(2-4)]
  show ?thesis
    using s [OF assms(1)] s [OF s [OF assms(1)]] fill_bytes [OF assms(5)]
    by (cases c) (simp_all add: hash_column_def column_stream_def hash_step_vformat_def)
qed

lemma hash_row_absorbs:
  assumes "absorbing r cx msg" and "0 < r" and "r \<le> 200" and "r mod 8 = 0" and "length x = 9"
  shows "absorbing r (hash_row al x row cx) (msg @ row_stream row)"
proof -
  have "absorbing r (fold (hash_column al x) row cx) (msg @ concat (List.map column_stream row))" if "absorbing r cx msg" for cx msg
    using that
  proof (induction row arbitrary: cx msg)
    case (Cons c row)
    then show ?case using Cons.IH [OF hash_column_absorbs [OF Cons.prems assms(2-5)]] by simp
  qed simp
  from this [OF hash_step_absorbs [OF assms(1-4), of al "[0x52]"]] show ?thesis by (simp add: hash_row_def row_stream_def)
qed

lemma hash_rows_absorb:
  "absorbing r cx msg \<Longrightarrow> 0 < r \<Longrightarrow> r \<le> 200 \<Longrightarrow> r mod 8 = 0 \<Longrightarrow> length x = 9 \<Longrightarrow>
   absorbing r (fold (hash_row al x) rows cx) (msg @ concat (List.map row_stream rows))"
proof (induction rows arbitrary: cx msg)
  case (Cons row rows)
  then show ?case using Cons.IH [OF hash_row_absorbs [OF Cons.prems]] by simp
qed simp

lemma query_loop_absorbs:
  "absorbing r cx msg \<Longrightarrow> 0 < r \<Longrightarrow> r \<le> 200 \<Longrightarrow> r mod 8 = 0 \<Longrightarrow> length x = 9 \<Longrightarrow>
   \<exists>cx'. query_loop al x (List.map (\<lambda>(z, rows). Query (Some z) rows) qs) cx = Some cx' \<and> absorbing r cx' (msg @ script_stream qs)"
proof (induction qs arbitrary: cx msg)
  case (Cons q qs)
  obtain z rows where q: "q = (z, rows)" by fastforce
  note h = hash_step_absorbs [OF _ Cons.prems(2-4)]
  have "absorbing r (hash_step al z (hash_step_vformat al 0x53 (length z) cx)) ((msg @ tag_number 0x53 (length z)) @ z)"
    unfolding hash_step_vformat_def by (rule h [OF h [OF Cons.prems(1)]])
  from Cons.IH [OF hash_rows_absorb [OF this Cons.prems(2-5), of al rows] Cons.prems(2-5)]
  show ?case by (simp add: q script_stream_def query_stream_def)
qed (simp add: script_stream_def)

section \<open>The stream is unambiguous\<close>

lemma digit_unat: "k < 10 \<Longrightarrow> unat (of_nat (48 + k) :: byte) = 48 + k"
  by (subst unat_of_nat) simp

lemma decimal_digits_ascii: "set (decimal_digits n) \<subseteq> {0x30..0x39}"
proof (induction n rule: decimal_digits.induct)
  case (1 n)
  have d: "(of_nat (48 + k) :: byte) \<in> {0x30..0x39}" if "k < 10" for k
    using digit_unat [OF that] that unfolding atLeastAtMost_iff word_le_nat_alt by simp
  show ?case
  proof (cases "n < 10")
    case True
    then show ?thesis using d [of n] by (simp add: decimal_digits.simps [of n])
  next
    case False
    then show ?thesis using 1 d [of "n mod 10"] by (simp add: decimal_digits.simps [of n])
  qed
qed

definition digits_value :: "byte list \<Rightarrow> nat" where
  "digits_value = foldl (\<lambda>n d. 10 * n + (unat d - 48)) 0"

lemma decimal_digits_value: "digits_value (decimal_digits n) = n"
proof (induction n rule: decimal_digits.induct)
  case (1 n)
  have d: "unat (of_nat (48 + k) :: byte) - 48 = k" if "k < 10" for k using digit_unat [OF that] by simp
  show ?case
  proof (cases "n < 10")
    case True
    then show ?thesis using d [of n] by (simp add: decimal_digits.simps [of n] digits_value_def)
  next
    case False
    then show ?thesis using 1 d [of "n mod 10"] by (simp add: decimal_digits.simps [of n] digits_value_def)
  qed
qed

lemma tag_number_split:
  assumes "tag_number c n @ u = tag_number c' m @ v"
  shows "c = c' \<and> n = m \<and> u = v"
proof -
  have e: "c = c'" "decimal_digits n @ 0x3A # u = decimal_digits m @ 0x3A # v" using assms by (simp_all add: tag_number_def)
  have t: "takeWhile (\<lambda>b. b \<noteq> 0x3A) (decimal_digits k @ 0x3A # w) = decimal_digits k" for k and w :: "byte list"
  proof -
    have "\<forall>b\<in>set (decimal_digits k). b \<noteq> 0x3A" using decimal_digits_ascii [of k] by auto
    then show ?thesis by (simp add: takeWhile_append2)
  qed
  have "decimal_digits n = decimal_digits m" by (metis e(2) t)
  then have "n = m" by (metis decimal_digits_value)
  with e show ?thesis by simp
qed

datatype token = Token_statement "byte list" | Token_row | Token_column column_value

definition token_stream :: "token \<Rightarrow> byte list" where
  "token_stream t =
     (case t of Token_statement z \<Rightarrow> tag_number 0x53 (length z) @ z | Token_row \<Rightarrow> [0x52] | Token_column c \<Rightarrow> column_stream c)"

lemma le_bytes_inject: "le_bytes v = le_bytes w \<Longrightarrow> v = w"
proof -
  assume "le_bytes v = le_bytes w"
  moreover have "le_word (le_bytes u) = u" for u
  proof (rule bit_word_eqI)
    fix n assume "n < LENGTH(64)"
    then have n: "n < 64" "n div 8 < 8" by simp_all
    then show "bit (le_word (le_bytes u)) n = bit u n"
      by (simp add: bit_le_word le_bytes_def bit_ucast_iff bit_drop_bit_eq)
  qed
  ultimately show ?thesis by metis
qed

lemma counted_split: "tag_number c (length z) @ z @ u = tag_number c' (length z') @ z' @ v \<Longrightarrow> c = c' \<and> z = z' \<and> u = v"
  using tag_number_split [of c "length z" "z @ u" c' "length z'" "z' @ v"] append_eq_append_conv [of z z' u v] by simp

lemma token_split: "token_stream s @ u = token_stream t @ v \<Longrightarrow> s = t \<and> u = v"
proof -
  assume e: "token_stream s @ u = token_stream t @ v"
  have h: "hd (token_stream s @ u) = hd (token_stream t @ v)" using e by simp
  have r: "rev (le_bytes v) @ a = rev (le_bytes w) @ b \<Longrightarrow> v = w \<and> a = b" for v w a b
    using le_bytes_inject [of v w] by simp
  show ?thesis
  proof (cases s)
    case (Token_statement z)
    then obtain z' where t: "t = Token_statement z'" using h
      by (cases t) (auto simp: token_stream_def column_stream_def tag_number_def split: column_value.splits)
    then show ?thesis using e counted_split [of _ z u _ z' v] Token_statement by (simp add: token_stream_def)
  next
    case Token_row
    then have "t = Token_row" using h by (cases t) (auto simp: token_stream_def column_stream_def tag_number_def split: column_value.splits)
    then show ?thesis using e Token_row by (simp add: token_stream_def)
  next
    case (Token_column c)
    then obtain c' where t: "t = Token_column c'" using h
      by (cases t; cases c) (auto simp: token_stream_def column_stream_def tag_number_def)
    have e': "column_stream c @ u = column_stream c' @ v" using e t Token_column by (simp add: token_stream_def)
    then have h': "hd (column_stream c @ u) = hd (column_stream c' @ v)" by simp
    have "c = c' \<and> u = v"
    proof (cases c)
      case Column_null
      then show ?thesis using e' h' by (cases c') (auto simp: column_stream_def tag_number_def)
    next
      case (Column_integer x)
      then obtain y where "c' = Column_integer y" using h' by (cases c') (auto simp: column_stream_def tag_number_def)
      then show ?thesis using e' r [of x u y v] Column_integer by (simp add: column_stream_def)
    next
      case (Column_float x)
      then obtain y where "c' = Column_float y" using h' by (cases c') (auto simp: column_stream_def tag_number_def)
      then show ?thesis using e' r [of x u y v] Column_float by (simp add: column_stream_def)
    next
      case (Column_text z)
      then obtain z' where "c' = Column_text z'" using h' by (cases c') (auto simp: column_stream_def tag_number_def)
      then show ?thesis using e' counted_split [of _ z u _ z' v] Column_text by (simp add: column_stream_def)
    next
      case (Column_blob z)
      then obtain z' where "c' = Column_blob z'" using h' by (cases c') (auto simp: column_stream_def tag_number_def)
      then show ?thesis using e' counted_split [of _ z u _ z' v] Column_blob by (simp add: column_stream_def)
    qed
    then show ?thesis using t Token_column by simp
  qed
qed

lemma token_stream_nonempty: "token_stream t \<noteq> []"
  by (auto simp: token_stream_def column_stream_def tag_number_def split: token.splits column_value.splits)

lemma tokens_inject: "concat (List.map token_stream s) = concat (List.map token_stream t) \<Longrightarrow> s = t"
proof (induction s arbitrary: t)
  case Nil
  then show ?case using token_stream_nonempty by (cases t) auto
next
  case (Cons a s)
  then obtain b t' where t: "t = b # t'" using token_stream_nonempty [of a] by (cases t) auto
  then show ?case using Cons token_split [of a "concat (List.map token_stream s)" b "concat (List.map token_stream t')"] by simp
qed

text \<open>Pieces that begin with a mark and have none inside can be told apart.\<close>

lemma marked_inject:
  assumes "\<And>x. x \<in> set xs \<union> set ys \<Longrightarrow> \<exists>h b. f x = h # b \<and> P h \<and> (\<forall>t\<in>set b. \<not> P t)" and "inj f"
  shows "concat (List.map f xs) = concat (List.map f ys) \<Longrightarrow> xs = ys"
  using assms(1)
proof (induction xs arbitrary: ys)
  case Nil
  show ?case
  proof (cases ys)
    case (Cons y ys')
    then obtain h b where "f y = h # b" using Nil.prems(2) [of y] by auto
    then show ?thesis using Nil.prems(1) Cons by simp
  qed simp
next
  case (Cons x xs)
  obtain h b where x: "f x = h # b" "P h" "\<forall>t\<in>set b. \<not> P t" using Cons.prems(2) [of x] by auto
  then obtain y ys' where ys: "ys = y # ys'" using Cons.prems(1) by (cases ys) auto
  obtain h' b' where y: "f y = h' # b'" "P h'" "\<forall>t\<in>set b'. \<not> P t" using Cons.prems(2) [of y] ys by auto
  have start: "zs = [] \<or> P (hd (concat (List.map f zs))) \<and> concat (List.map f zs) \<noteq> []" if "set zs \<subseteq> set (x # xs) \<union> set ys" for zs
    using that Cons.prems(2) by (cases zs) fastforce+
  have tw: "takeWhile (\<lambda>t. \<not> P t) (c @ concat (List.map f zs)) = c" if "\<forall>t\<in>set c. \<not> P t" "set zs \<subseteq> set (x # xs) \<union> set ys" for c zs
    using start [OF that(2)] that(1) by (cases "concat (List.map f zs)") (auto simp: takeWhile_append2)
  have e: "b @ concat (List.map f xs) = b' @ concat (List.map f ys')" "h = h'" using Cons.prems(1) x(1) y(1) ys by simp_all
  have "b = b'" using tw [OF x(3), of xs] tw [OF y(3), of ys'] e(1) ys by auto
  then have "x = y" "concat (List.map f xs) = concat (List.map f ys')" using e x(1) y(1) assms(2) by (simp_all add: inj_def)
  moreover have "xs = ys'" using Cons.prems(2) ys calculation(2) by (intro Cons.IH) auto
  ultimately show ?case using ys by simp
qed

definition row_tokens :: "column_value list \<Rightarrow> token list" where
  "row_tokens row = Token_row # List.map Token_column row"

definition query_tokens :: "byte list \<times> column_value list list \<Rightarrow> token list" where
  "query_tokens q = Token_statement (fst q) # concat (List.map row_tokens (snd q))"

lemma script_tokens: "script_stream qs = concat (List.map token_stream (concat (List.map query_tokens qs)))"
proof -
  have r: "concat (List.map token_stream (row_tokens row)) = row_stream row" for row
    by (simp add: row_tokens_def row_stream_def token_stream_def comp_def)
  have "concat (List.map token_stream (concat (List.map row_tokens rows))) = concat (List.map row_stream rows)" for rows
    by (induction rows) (simp_all add: r)
  then have q: "concat (List.map token_stream (query_tokens q)) = query_stream q" for q
    by (simp add: query_tokens_def query_stream_def token_stream_def)
  show ?thesis unfolding script_stream_def by (induction qs) (simp_all add: q)
qed

lemma row_tokens_inj: "inj row_tokens"
  by (auto simp: inj_def row_tokens_def dest: map_injective intro: injI)

lemma rows_inject: "concat (List.map row_tokens a) = concat (List.map row_tokens b) \<Longrightarrow> a = b"
  by (rule marked_inject [where P = "\<lambda>t. t = Token_row", OF _ row_tokens_inj]) (auto simp: row_tokens_def)

lemma script_stream_inject: "script_stream a = script_stream b \<Longrightarrow> a = b"
proof -
  assume "script_stream a = script_stream b"
  then have "concat (List.map query_tokens a) = concat (List.map query_tokens b)" unfolding script_tokens by (rule tokens_inject)
  moreover have "inj query_tokens" using rows_inject by (auto simp: inj_def query_tokens_def prod_eq_iff)
  ultimately show ?thesis
    by (intro marked_inject [where P = "\<lambda>t. \<exists>z. t = Token_statement z" and f = query_tokens]) (auto simp: query_tokens_def row_tokens_def)
qed

section \<open>Properties\<close>

text \<open>
  The unrolled \<^verbatim>\<open>KeccakF1600Step\<close>, which works in place and leaves the lanes permuted between its four rounds, is the permutation of
  FIPS 202: on the lanes its 24 rounds are theta, rho, pi, chi and iota by coordinates, with offsets from the walk over the lanes
  and constants from the shift register.
\<close>

theorem keccak_step_reference:
  assumes "length s = 25"
  shows "keccak_loop keccak_RC s = keccak_f s \<and> keccak_RC = List.map round_constant [0..<24]"
  using keccak_permutation [OF assms] constants by simp

theorem keccak_step_reference_witness: "keccak_loop keccak_RC (replicate 25 0) = keccak_f (replicate 25 0)"
  using keccak_step_reference [of "replicate 25 0"] by simp

text \<open>
  C16: \<open>sha3(X, SIZE)\<close> is SHA-3 as FIPS 202 defines it, the sponge over that permutation with its padding, for the four sizes and 256 by
  default, whether the data is aligned and goes in by words or by bytes; every other size is an error, and null stays null.
\<close>

theorem sha3_function_reference:
  "sha3Func aligned fa v size_arg =
     (if size_arg \<noteq> None \<and> the size_arg \<notin> {224, 256, 384, 512} then Sha_error
      else let d = nat (case size_arg of None \<Rightarrow> 256 | Some n \<Rightarrow> n) in
        case v of Sha_null \<Rightarrow> Sha_nothing | Sha_blob z \<Rightarrow> Sha_result (sha3_reference d z) | Sha_text z \<Rightarrow> Sha_result (sha3_reference d z))"
proof -
  define n where "n = (case size_arg of None \<Rightarrow> 256 | Some n \<Rightarrow> n)"
  have d: "take (nat n div 8) (SHA3Final fa (SHA3Update aligned z (SHA3Init n))) = sha3_reference (nat n) z" if "n \<in> sha3_sizes" for z
  proof -
    have "nat n \<in> {224, 256, 384, 512}" using that by (auto simp: sha3_sizes_def)
    then have b: "0 < 200 - 2 * (nat n div 8)" "200 - 2 * (nat n div 8) \<le> 200" "(200 - 2 * (nat n div 8)) mod 8 = 0" by auto
    have "nRate (SHA3Init n) = 200 - 2 * (nat n div 8)" using rates [OF that] by blast
    then have "absorbing (nRate (SHA3Init n)) (SHA3Update aligned z (SHA3Init n)) ([] @ z)"
      using absorbing_update [OF absorbing_init [OF that], of aligned z] b by simp
    then show ?thesis using update_digest [OF that, of _ z fa] by simp
  qed
  show ?thesis
  proof (cases "size_arg \<noteq> None \<and> the size_arg \<notin> {224, 256, 384, 512}")
    case True
    then show ?thesis by (auto simp: sha3Func_def)
  next
    case False
    then have "n \<in> sha3_sizes" by (auto simp: n_def sha3_sizes_def split: option.splits)
    then show ?thesis using False d by (cases v) (auto simp: sha3Func_def n_def [symmetric] Let_def sha3_sizes_def)
  qed
qed

text \<open>
  C23: \<open>sha3_query\<close> answers with SHA-3 of the stream of its queries and their rows, and that stream is unambiguous: two scripts with the
  same stream have the same queries with the same rows. An error of the engine or a statement that writes makes it an error.
\<close>

theorem sha3_query_stream:
  assumes "length x = 9" and "length y = 9" and "n \<in> {224, 256, 384, 512}"
  shows "sha3QueryFunc al fa x (Some (List.map (\<lambda>(z, rows). Query (Some z) rows) qs)) (Some n) = Sha_result (sha3_reference (nat n) (script_stream qs)) \<and>
    (script_stream qs = script_stream qs' \<longleftrightarrow> qs = qs') \<and>
    (Prepare_error \<in> set ss \<or> Writes \<in> set ss \<longrightarrow> sha3QueryFunc al fa y (Some ss) (Some n) = Sha_error)"
proof -
  have s: "n \<in> sha3_sizes" using assms(3) by (simp add: sha3_sizes_def)
  have "nat n \<in> {224, 256, 384, 512}" using assms(3) by auto
  then have b: "0 < 200 - 2 * (nat n div 8)" "200 - 2 * (nat n div 8) \<le> 200" "(200 - 2 * (nat n div 8)) mod 8 = 0" by auto
  have r: "nRate (SHA3Init n) = 200 - 2 * (nat n div 8)" using rates [OF s] by blast
  obtain cx where cx: "query_loop al x (List.map (\<lambda>(z, rows). Query (Some z) rows) qs) (SHA3Init n) = Some cx"
      "absorbing (nRate (SHA3Init n)) cx ([] @ script_stream qs)"
    using query_loop_absorbs [OF absorbing_init [OF s] _ _ _ assms(1), of al qs] b unfolding r by auto
  have "query_loop al y ss cx = None" if "Prepare_error \<in> set ss \<or> Writes \<in> set ss" for cx
    using that by (induction al y ss cx rule: query_loop.induct) auto
  then show ?thesis
    using cx(1) update_digest [OF s cx(2), of fa] assms(3) script_stream_inject [of qs qs']
    by (auto simp: sha3QueryFunc_def Let_def)
qed

theorem sha3_query_stream_witness:
  "sha3QueryFunc (\<lambda>_ _. True) (\<lambda>_. True) (replicate 9 0) (Some [Query (Some [1]) [[Column_null, Column_text [2, 3]]]]) (Some 256) =
     Sha_result (sha3_reference 256 [0x53, 0x31, 0x3A, 1, 0x52, 0x4E, 0x54, 0x32, 0x3A, 2, 3])"
  using sha3_query_stream [of "replicate 9 0" "replicate 9 0" 256 "\<lambda>_ _. True" "\<lambda>_. True" "[([1], [[Column_null, Column_text [2, 3]]])]"]
  by (simp add: script_stream_def query_stream_def row_stream_def column_stream_def tag_number_def decimal_digits.simps)

end
