(* ===== verification/Spec2Isabelle.thy ===== *)
theory Spec2Isabelle
  imports Ys_Base64 Ys_Uri Ys_Stack Ys_Passthrough Ys_Vfs Ys_Database Ys_Function Ys_Hash Ys_Varint Ys_Integer
    Ys_Utf Ys_Like Ys_Rowset Ys_Order Ys_Memjournal Ys_Bitvec Ys_Decimal_Sql Ys_Sha3
begin

text \<open>
  A model of \<^bold>\<open>ysqlite3\<close>, a C++ library around SQLite with an encrypting virtual file system.

  \<^bold>\<open>The program.\<close> A connection (\<^verbatim>\<open>ysqlite3/database.cpp\<close>) prepares statements (\<^verbatim>\<open>statement.cpp\<close>) whose
  rows are results (\<^verbatim>\<open>results.cpp\<close>); transactions (\<^verbatim>\<open>transaction.cpp\<close>) and user functions
  (\<^verbatim>\<open>function/*.cpp\<close>) sit on top of it. SQLite reaches the files of a database through a VFS object.
  \<^verbatim>\<open>vfs/vfs.hpp\<close> turns a C++ object into one and puts it in SQLite's list, \<^verbatim>\<open>vfs/file.hpp\<close> turns a C++
  file into the table of C callbacks, and \<^verbatim>\<open>sqlite3_vfs_wrapper.hpp\<close> and \<^verbatim>\<open>sqlite3_file_wrapper.hpp\<close>
  go the other way, from an existing VFS or file to an object. Between the two,
  \<^verbatim>\<open>page_transforming_file.hpp\<close> passes each page of the main database through a codec; \<^verbatim>\<open>crypt_file.hpp\<close> is
  the codec with AES-256-GCM, whose authentication tag and vector lie in the bytes SQLite reserves at the end of
  a page. The vendored \<^verbatim>\<open>sqlite3.c\<close> is modelled where the library touches it or rests on it.

  \<^bold>\<open>Foundations.\<close>
  \<^item> \<open>Ys_Prelude\<close>: bytes and words, C strings, actions that thread a state and may throw, lemmas on lists and
    bits that all theories share.
  \<^item> \<open>Ys_Error\<close>: \<^verbatim>\<open>error.hpp\<close> - enumerations, error codes with their categories, the two functions
    \<^verbatim>\<open>wrap\<close> that turn an exception into a result code - and the messages of \<^verbatim>\<open>sqlite3ErrStr\<close>.
  \<^item> \<open>Ys_Span\<close>: \<^verbatim>\<open>span.hpp\<close>, \<^verbatim>\<open>finally.hpp\<close>. \<open>Ys_Ctype\<close>: character classes and comparison without case in
    \<^verbatim>\<open>sqlite3.c\<close>. \<open>Ys_Io\<close>: the method table of a file in \<^verbatim>\<open>sqlite3.h\<close>.
  \<^item> \<open>Ys_Byte_Store\<close>, \<open>Ys_Page_Store\<close>: the contracts a file promises, as locales; the abstract file is a list of
    bytes. \<open>Ys_Memdb\<close> and \<open>Ys_File_Wrapper\<close> interpret the first, \<open>Ys_Crypt_File\<close> and \<open>Ys_Rot13\<close> the second.

  \<^bold>\<open>Files.\<close>
  \<^item> \<open>Ys_File\<close>: the callbacks of \<^verbatim>\<open>file.cpp\<close> and the table of \<^verbatim>\<open>file.hpp\<close>. \<open>Ys_File_Wrapper\<close>: every method of
    \<^verbatim>\<open>SQLite3_file_wrapper\<close>. \<open>Ys_Page_File\<close>: \<^verbatim>\<open>page_transforming_file.hpp\<close> over a codec.
  \<^item> \<open>Ys_Crypt_File\<close>: \<^verbatim>\<open>crypt_file.hpp\<close> - key parser, pragmas, changing the key, the two directions of the
    codec. \<open>Ys_Rot13\<close>: the codec of \<^verbatim>\<open>examples/rot13.cpp\<close>.
  \<^item> \<open>Ys_Memdb\<close>: the in-memory VFS of \<^verbatim>\<open>sqlite3.c\<close> (memdb.c), the file the stack theories run on. A run of its
    methods over any list of calls is answered as by an array of bytes, refusals included.
  \<^item> \<open>Ys_Stack\<close>: an encrypted file over a wrapped in-memory file; pages survive the round trip; while the key
    is changed old pages are read under the old key and new ones written under the new key; what is not a page passes in the clear.
    \<open>Ys_Passthrough\<close>: a wrapped file behaves as the file it wraps, method by method.

  \<^bold>\<open>Virtual file systems.\<close>
  \<^item> \<open>Ys_Vfs_Registry\<close>: the linked list of \<^verbatim>\<open>os.c\<close> with pointers as addresses, refined by a list without
    duplicates, and \<^verbatim>\<open>register_vfs\<close>, \<^verbatim>\<open>unregister_vfs\<close>, \<^verbatim>\<open>find_vfs\<close> over it.
  \<^item> \<open>Ys_Vfs\<close>: the class \<^verbatim>\<open>VFS\<close>, its callbacks and \<^verbatim>\<open>SQLite3_vfs_wrapper\<close>.
  \<^item> \<open>Ys_Uri\<close>: URI filenames (\<^verbatim>\<open>sqlite3ParseUri\<close>, \<^verbatim>\<open>sqlite3_create_filename\<close>, the parameters); these
    carry the options the encrypted file reads.

  \<^bold>\<open>Connections.\<close>
  \<^item> \<open>Ys_Statement\<close>: \<^verbatim>\<open>statement.cpp\<close>, \<^verbatim>\<open>results.cpp\<close>. \<open>Ys_Database\<close>: \<^verbatim>\<open>database.cpp\<close>, \<^verbatim>\<open>transaction.cpp\<close>, the
    registration of functions, and who owns a connection handle. \<open>Ys_Function\<close>: the callback of
    \<^verbatim>\<open>function.hpp\<close>, \<^verbatim>\<open>digest.cpp\<close>, \<^verbatim>\<open>regexp.cpp\<close>, the entry points that register the encrypting VFS
    (\<^verbatim>\<open>shell/entrypoint.cpp\<close>, \<^verbatim>\<open>extensions/ysqlite3_crypt_vfs.cpp\<close>). \<open>Ys_Base64\<close>: \<^verbatim>\<open>base64.hpp\<close>.

  \<^bold>\<open>Building blocks of SQLite.\<close>
  \<^item> \<open>Ys_Hash\<close>: the hash table of symbols (hash.c), with its linked elements in a heap.
  \<^item> \<open>Ys_Varint\<close>: the variable length integers of the file format. \<open>Ys_Integer\<close>: 64 bit arithmetic with
    overflow detection and the conversions between integers and text.
  \<^item> \<open>Ys_Utf\<close>: the encodings of text (utf.c), characters and whole strings. \<open>Ys_Like\<close>: \<^verbatim>\<open>patternCompare\<close> behind
    \<^verbatim>\<open>LIKE\<close> and \<^verbatim>\<open>GLOB\<close> (func.c), whose meaning is given by a matcher on characters.
  \<^item> \<open>Ys_Rowset\<close>: sets of row numbers (rowset.c), a sorted list or a forest of trees, refined by a set per batch.
  \<^item> \<open>Ys_Bitvec\<close>: sets of page numbers (bitvec.c), a bitmap, a hash table or an array of smaller sets, refined by a set.
    A call sets a number through at most nine calls inside each other, since each second one divides the size by 62.
  \<^item> \<open>Ys_Record\<close>: the format of a row, \<^verbatim>\<open>OP_MakeRecord\<close> of vdbe.c and the readers of vdbeaux.c. \<open>Ys_Compare\<close>: comparing a
    record with a key, three routines that agree on one order. \<open>Ys_Order\<close>: what a collation owes, as a locale with
    the built-in collations as its instances, and why the keys of an index are then ordered.
  \<^item> \<open>Ys_Memjournal\<close>: the journal in memory (memjournal.c), chunks that spill into a real file. The locale \<open>append_store\<close> is
    what a journal promises; every \<open>byte_store\<close> keeps it, and so does the journal over any such file.

  \<^bold>\<open>Extensions in the shell.\<close>
  \<^item> \<open>Ys_Decimal\<close>: decimal numbers of any length (decimal.c in \<^verbatim>\<open>shell.c\<close>), their value as a rational number and what reading,
    printing, adding and multiplying do to it. \<open>Ys_Decimal_Sql\<close>: what the SQL functions answer.
  \<^item> \<open>Ys_Keccak\<close>: \<^verbatim>\<open>KeccakF1600Step\<close> of shathree.c as it is unrolled, and the rounds of FIPS 202 by coordinates; each of the four
    unrolled rounds is one of these up to where it leaves the lanes. \<open>Ys_Sha3\<close>: the sponge, \<open>sha3\<close> and \<open>sha3_query\<close>.

  \<^bold>\<open>Conventions.\<close> Bytes are \<open>8 word\<close>; a signed integer of C is an \<open>int\<close> with its range checked (or \<open>sint\<close> of a word),
  an unsigned one a word, so that it wraps. A C++ exception, undefined behaviour and \<^verbatim>\<open>std::terminate\<close> are faults in
  the left part of a sum; result codes are integers as in \<^verbatim>\<open>sqlite3.h\<close>. Objects that are shared are in maps from
  addresses. Loops that follow pointers are \<open>partial_function (option)\<close>, so a null pointer, a dangling pointer and
  a loop that does not end are all \<open>None\<close>; the theorems about them say that the result is \<open>Some\<close>. Where fuel is used
  it is the length of the data the loop runs over (\<open>find_loop\<close> counts down the bucket as the code does, \<open>high_loop\<close>
  takes two bytes a step with as much fuel as there are bytes).

  \<^bold>\<open>Parameters.\<close> OpenSSL is a record of functions with the documented laws of AES-GCM as hypotheses, and of a digest;
  \<^verbatim>\<open>std::regex\<close>, the allocator, the SQL engine behind a connection, the engine under a VFS wrapper and the clock are
  records of functions too. Every theorem with such a hypothesis has a witness with concrete functions.

  \<^bold>\<open>Not modelled.\<close> The rest of the vendored \<^verbatim>\<open>sqlite3.c\<close> (parser, code generator, virtual machine, b-tree, pager,
  operating system layers, extensions), the command line shell itself in \<^verbatim>\<open>shell.c\<close>, the example programs and tests, which only
  call the library, and \<^verbatim>\<open>base64_encoder.cpp\<close>, which is commented out. Threads are not modelled: the mutexes SQLite
  takes make its operations atomic steps.
\<close>

end
